(* ===== verification/Prelude.thy ===== *)
theory Prelude
  imports Main "HOL-Library.Word"
begin

unbundle bit_operations_syntax

text \<open>
  Shared vocabulary of the development: the C++ effects (exceptions, undefined behaviour,
  mutation of an object), \<^verbatim>\<open>std::size_t\<close> arithmetic, the memory operations the sources call on
  a \<^verbatim>\<open>std::vector<char>\<close>, and the interface locales that several components implement.
\<close>

section \<open>Collections of facts\<close>

named_theorems cpp_simps \<open>evaluation rules of the C++ effect monad\<close>
named_theorems sz_simps \<open>size_t arithmetic that does not wrap\<close>

section \<open>Outcomes of a C++ call\<close>

text \<open>
  The exceptions the sources throw, by class, with the message of \<^verbatim>\<open>what()\<close>.
  \<open>Bad_variant_access\<close> is what \<^verbatim>\<open>std::get\<close> throws on the wrong alternative.
\<close>

datatype exn =
    Out_of_range string
  | Invalid_argument string
  | Length_error string
  | Logic_error string
  | Domain_error string
  | Overflow_error string
  | Runtime_error string
  | Bad_result_access string
  | Bad_variant_access

text \<open>
  A call returns, throws, or is undefined: it reads or writes outside of an object, or breaks
  an \<^verbatim>\<open>assert\<close> of the source.
\<close>

datatype 'a outcome = Ret (ret_val: 'a) | Throw exn | Undef

text \<open>
  A member function acts on its object: it takes the object's state and gives the outcome with
  the state it leaves behind. The state is kept when the call throws, so that what a caller who
  catches the exception finds is part of the model.
\<close>

type_synonym ('s, 'a) cpp = "'s \<Rightarrow> 'a outcome \<times> 's"

definition ret :: "'a \<Rightarrow> ('s, 'a) cpp" where
  "ret v = (\<lambda>s. (Ret v, s))"

definition throw :: "exn \<Rightarrow> ('s, 'a) cpp" where
  "throw e = (\<lambda>s. (Throw e, s))"

definition undef :: "('s, 'a) cpp" where
  "undef = (\<lambda>s. (Undef, s))"

definition bind :: "('s, 'a) cpp \<Rightarrow> ('a \<Rightarrow> ('s, 'b) cpp) \<Rightarrow> ('s, 'b) cpp" where
  "bind m f = (\<lambda>s. case m s of
       (Ret v, s') \<Rightarrow> f v s'
     | (Throw e, s') \<Rightarrow> (Throw e, s')
     | (Undef, s') \<Rightarrow> (Undef, s'))"

definition seq :: "('s, unit) cpp \<Rightarrow> ('s, 'b) cpp \<Rightarrow> ('s, 'b) cpp" where
  "seq m n = bind m (\<lambda>_. n)"

definition gets :: "('s \<Rightarrow> 'a) \<Rightarrow> ('s, 'a) cpp" where
  "gets f = (\<lambda>s. (Ret (f s), s))"

definition modify :: "('s \<Rightarrow> 's) \<Rightarrow> ('s, unit) cpp" where
  "modify f = (\<lambda>s. (Ret (), f s))"

text \<open>A pure computation with an outcome, run inside a member function.\<close>

definition lift :: "'a outcome \<Rightarrow> ('s, 'a) cpp" where
  "lift r = (\<lambda>s. (r, s))"

definition assert :: "('s \<Rightarrow> bool) \<Rightarrow> ('s, unit) cpp" where
  "assert P = (\<lambda>s. if P s then (Ret (), s) else (Undef, s))"

fun obind :: "'a outcome \<Rightarrow> ('a \<Rightarrow> 'b outcome) \<Rightarrow> 'b outcome" where
  "obind (Ret v) f = f v"
| "obind (Throw e) f = Throw e"
| "obind Undef f = Undef"

lemma run_ret [cpp_simps]: "ret v s = (Ret v, s)"
  by (simp add: ret_def)

lemma run_throw [cpp_simps]: "throw e s = (Throw e, s)"
  by (simp add: throw_def)

lemma run_undef [cpp_simps]: "undef s = (Undef, s)"
  by (simp add: undef_def)

lemma run_gets [cpp_simps]: "gets f s = (Ret (f s), s)"
  by (simp add: gets_def)

lemma run_modify [cpp_simps]: "modify f s = (Ret (), f s)"
  by (simp add: modify_def)

lemma run_lift [cpp_simps]: "lift r s = (r, s)"
  by (simp add: lift_def)

lemma run_assert [cpp_simps]: "assert P s = (if P s then (Ret (), s) else (Undef, s))"
  by (simp add: assert_def)

lemma run_bind [cpp_simps]:
  "bind m f s = (case m s of
       (Ret v, s') \<Rightarrow> f v s'
     | (Throw e, s') \<Rightarrow> (Throw e, s')
     | (Undef, s') \<Rightarrow> (Undef, s'))"
  by (simp add: bind_def)

lemma run_seq [cpp_simps]:
  "seq m n s = (case m s of
       (Ret v, s') \<Rightarrow> n s'
     | (Throw e, s') \<Rightarrow> (Throw e, s')
     | (Undef, s') \<Rightarrow> (Undef, s'))"
  by (simp add: seq_def bind_def)

lemma obind_Ret_iff: "obind m f = Ret v \<longleftrightarrow> (\<exists>x. m = Ret x \<and> f x = Ret v)"
  by (cases m) auto

section \<open>Invariants of member functions\<close>

text \<open>\<open>keeps P m\<close>: the member function \<open>m\<close> leaves \<open>P\<close> intact however it ends, also when it throws.\<close>

definition keeps :: "('s \<Rightarrow> bool) \<Rightarrow> ('s, 'a) cpp \<Rightarrow> bool" where
  "keeps P m \<longleftrightarrow> (\<forall>s. P s \<longrightarrow> P (snd (m s)))"

lemma keepsD: "keeps P m \<Longrightarrow> P s \<Longrightarrow> P (snd (m s))"
  by (simp add: keeps_def)

lemma keepsI: "(\<And>s. P s \<Longrightarrow> P (snd (m s))) \<Longrightarrow> keeps P m"
  by (simp add: keeps_def)

named_theorems keeps_intros \<open>rules for invariants of member functions\<close>

lemma keeps_pure [keeps_intros]:
  "keeps P (ret v)" "keeps P (throw e)" "keeps P undef" "keeps P (gets f)" "keeps P (lift r)" "keeps P (assert Q)"
  by (simp_all add: keeps_def cpp_simps)

lemma keeps_modify: "(\<And>s. P s \<Longrightarrow> P (f s)) \<Longrightarrow> keeps P (modify f)"
  by (simp add: keeps_def cpp_simps)

lemma keeps_bind [keeps_intros]: "keeps P m \<Longrightarrow> (\<And>v. keeps P (f v)) \<Longrightarrow> keeps P (bind m f)"
  by (auto simp: keeps_def cpp_simps split: prod.split outcome.split)

lemma keeps_seq [keeps_intros]: "keeps P m \<Longrightarrow> keeps P n \<Longrightarrow> keeps P (seq m n)"
  unfolding seq_def by (rule keeps_bind)

lemma keeps_if [keeps_intros]: "(b \<Longrightarrow> keeps P m) \<Longrightarrow> (\<not> b \<Longrightarrow> keeps P n) \<Longrightarrow> keeps P (if b then m else n)"
  by simp

lemma keeps_gets_bind: "(\<And>s. P s \<Longrightarrow> P (snd (f (g s) s))) \<Longrightarrow> keeps P (bind (gets g) f)"
  by (simp add: keeps_def cpp_simps)

section \<open>\<^verbatim>\<open>std::size_t\<close>\<close>

text \<open>
  A \<^verbatim>\<open>size_t\<close> value is a natural number below \<open>2 ^ 64\<close>; addition, subtraction and
  multiplication wrap around.
\<close>

definition size_t_mod :: nat where
  "size_t_mod = 2 ^ 64"

definition sz_add :: "nat \<Rightarrow> nat \<Rightarrow> nat" where
  "sz_add a b = (a + b) mod size_t_mod"

definition sz_sub :: "nat \<Rightarrow> nat \<Rightarrow> nat" where
  "sz_sub a b = (a + size_t_mod - b) mod size_t_mod"

definition sz_mul :: "nat \<Rightarrow> nat \<Rightarrow> nat" where
  "sz_mul a b = (a * b) mod size_t_mod"

lemma sz_add_nowrap [sz_simps]: "a + b < size_t_mod \<Longrightarrow> sz_add a b = a + b"
  by (simp add: sz_add_def)

lemma sz_sub_nowrap [sz_simps]:
  assumes "b \<le> a" and "a < size_t_mod"
  shows "sz_sub a b = a - b"
proof -
  have "a + size_t_mod - b = (a - b) + size_t_mod" using assms(1) by simp
  then show ?thesis using assms by (simp only: sz_sub_def mod_add_self2) simp
qed

lemma sz_sub_wrap [sz_simps]:
  assumes "a < b" and "b \<le> size_t_mod"
  shows "sz_sub a b = size_t_mod - (b - a)"
proof -
  have "a + size_t_mod - b = size_t_mod - (b - a)" using assms by simp
  moreover have "size_t_mod - (b - a) < size_t_mod" using assms by simp
  ultimately show ?thesis by (simp add: sz_sub_def)
qed

lemma sz_mul_nowrap [sz_simps]: "a * b < size_t_mod \<Longrightarrow> sz_mul a b = a * b"
  by (simp add: sz_mul_def)

lemma sz_bounds: "sz_add a b < size_t_mod" "sz_sub a b < size_t_mod" "sz_mul a b < size_t_mod"
  by (simp_all add: sz_add_def sz_sub_def sz_mul_def size_t_mod_def)

lemma unat_bound: "unat (w :: 'a::len word) < 2 ^ LENGTH('a)"
  by (rule unsigned_less)

section \<open>Bytes of a vector\<close>

type_synonym byte = "8 word"

text \<open>\<^verbatim>\<open>std::vector<char>::max_size()\<close> is \<^verbatim>\<open>PTRDIFF_MAX\<close>; a longer vector is a
  \<^verbatim>\<open>std::length_error\<close>. The elements of \<^verbatim>\<open>std::vector<char>(n)\<close> are zero.\<close>

definition vec_max_size :: nat where
  "vec_max_size = 2 ^ 63 - 1"

definition vector_make :: "nat \<Rightarrow> byte list outcome" where
  "vector_make n =
     (if n > vec_max_size
      then Throw (Length_error ''cannot create std::vector larger than max_size()'')
      else Ret (replicate n 0))"

text \<open>Reading \<open>n\<close> bytes at offset \<open>off\<close> and writing bytes at an offset: outside of the vector the
  behaviour is undefined.\<close>

definition mem_read :: "byte list \<Rightarrow> nat \<Rightarrow> nat \<Rightarrow> byte list outcome" where
  "mem_read xs off n =
     (if off + n \<le> length xs then Ret (take n (drop off xs)) else Undef)"

definition mem_write :: "byte list \<Rightarrow> nat \<Rightarrow> byte list \<Rightarrow> byte list outcome" where
  "mem_write xs off ys =
     (if off + length ys \<le> length xs
      then Ret (take off xs @ ys @ drop (off + length ys) xs) else Undef)"

lemma mem_write_length: "mem_write xs off ys = Ret zs \<Longrightarrow> length zs = length xs"
  by (auto simp: mem_write_def split: if_splits)

lemma take_drop_write:
  assumes "off + length ys \<le> length xs"
  shows "take (length ys) (drop off (take off xs @ ys @ drop (off + length ys) xs)) = ys"
  using assms by simp

lemma slice_append:
  assumes "r \<le> w" "w + length ys \<le> length xs"
  shows "take (w + length ys - r) (drop r (take w xs @ ys @ drop (w + length ys) xs))
       = take (w - r) (drop r xs) @ ys"
  using assms by (simp add: drop_take)

lemma slice_prefix: "k \<le> n \<Longrightarrow> take k (take n (drop r xs)) = take k (drop r xs)"
  by (simp add: min_def)

lemma slice_suffix: "drop k (take n (drop r xs)) = take (n - k) (drop (r + k) xs)"
  by (simp add: drop_take add.commute)

text \<open>What a sum over a list gains and loses when one element is replaced.\<close>

lemma sum_list_replace:
  fixes f :: "'a \<Rightarrow> 'b::comm_monoid_add"
  assumes "i < length xs"
  shows "sum_list (map f (xs[i := x])) + f (xs ! i) = sum_list (map f xs) + f x"
proof -
  let ?l = "sum_list (map f (take i xs))" and ?r = "sum_list (map f (drop (Suc i) xs))"
  have "sum_list (map f xs) = ?l + (f (xs ! i) + ?r)"
    using arg_cong [OF id_take_nth_drop [OF assms], of "\<lambda>ys. sum_list (map f ys)"] by simp
  moreover have "sum_list (map f (xs[i := x])) = ?l + (f x + ?r)" using assms by (simp add: upd_conv_take_nth_drop)
  ultimately show ?thesis by (simp add: ac_simps)
qed

lemma length_filter_sum: "length (filter P xs) = sum_list (map (\<lambda>x. of_bool (P x)) xs)"
  by (induction xs) simp_all

section \<open>Interfaces\<close>

text \<open>
  A component whose operations are the steps of a machine: every operation keeps the invariant,
  so every state reached by a sequence of operations satisfies it. Components interpret this
  locale on their own operations.
\<close>

locale op_machine =
  fixes exec :: "'op \<Rightarrow> 's \<Rightarrow> 's"
    and inv :: "'s \<Rightarrow> bool"
  assumes exec_inv: "inv s \<Longrightarrow> inv (exec op s)"
begin

definition run :: "'op list \<Rightarrow> 's \<Rightarrow> 's" where
  "run ops s = fold exec ops s"

lemma run_Nil: "run [] s = s"
  by (simp add: run_def)

lemma run_Cons: "run (op # ops) s = run ops (exec op s)"
  by (simp add: run_def)

lemma run_inv: "inv s \<Longrightarrow> inv (fold exec ops s)"
  by (induction ops arbitrary: s) (simp_all add: exec_inv)

end

text \<open>
  A component whose threads interleave: a relation of steps, each of which keeps the invariant, so that every
  state that can be reached satisfies it.
\<close>

locale step_machine =
  fixes step :: "'s \<Rightarrow> 's \<Rightarrow> bool"
    and inv :: "'s \<Rightarrow> bool"
  assumes step_inv: "step s s' \<Longrightarrow> inv s \<Longrightarrow> inv s'"
begin

lemma reach_inv: "step\<^sup>*\<^sup>* s s' \<Longrightarrow> inv s \<Longrightarrow> inv s'"
  by (induction rule: rtranclp_induct) (blast intro: step_inv)+

end

text \<open>
  A byte stream: bytes are appended at the back and taken from the front. \<open>content\<close> are the bytes
  that were appended and not taken yet, \<open>room n s\<close> says that \<open>n\<close> more bytes may be appended.
\<close>

locale byte_stream =
  fixes content :: "'s \<Rightarrow> byte list"
    and inv :: "'s \<Rightarrow> bool"
    and room :: "nat \<Rightarrow> 's \<Rightarrow> bool"
    and put :: "byte list \<Rightarrow> 's \<Rightarrow> 's"
    and get :: "nat \<Rightarrow> 's \<Rightarrow> 's"
  assumes put_content: "inv s \<Longrightarrow> room (length d) s \<Longrightarrow> content (put d s) = content s @ d"
    and put_inv: "inv s \<Longrightarrow> room (length d) s \<Longrightarrow> inv (put d s)"
    and put_room: "inv s \<Longrightarrow> room (length d + n) s \<Longrightarrow> room n (put d s)"
    and get_content: "inv s \<Longrightarrow> content (get n s) = drop n (content s)"
    and get_inv: "inv s \<Longrightarrow> inv (get n s)"
    and get_room: "inv s \<Longrightarrow> room m s \<Longrightarrow> room m (get n s)"
    and room_mono: "room m s \<Longrightarrow> n \<le> m \<Longrightarrow> room n s"
begin

lemma put_many:
  assumes "inv s" "room (length (concat ds)) s"
  shows "inv (fold put ds s) \<and> content (fold put ds s) = content s @ concat ds"
  using assms
proof (induction ds arbitrary: s)
  case Nil
  then show ?case by simp
next
  case (Cons d ds)
  from Cons.prems have r: "room (length d + length (concat ds)) s" by simp
  then have rd: "room (length d) s" by (rule room_mono) simp
  have "room (length (concat ds)) (put d s)" using Cons.prems(1) r by (rule put_room)
  with Cons.IH [of "put d s"] put_inv [OF Cons.prems(1) rd]
  show ?case by (simp add: put_content [OF Cons.prems(1) rd])
qed

lemma put_get_fifo:
  assumes "inv s" "room (length d) s" "n \<le> length (content s)"
  shows "content (put d (get n s)) = content (get n (put d s))"
proof -
  have r: "room (length d) (get n s)" using assms(1,2) by (rule get_room)
  have i: "inv (get n s)" "inv (put d s)"
    using assms(1,2) by (simp_all add: get_inv put_inv)
  show ?thesis
    using assms(3) by (simp add: put_content [OF i(1) r] get_content [OF assms(1)]
        get_content [OF i(2)] put_content [OF assms(1,2)])
qed

end

text \<open>
  A bounded map: what a lookup gives after an insertion or a removal, and the bound on the number
  of keys. An insertion may drop other keys (eviction), never change their values.
\<close>

locale bounded_map =
  fixes lookup :: "'s \<Rightarrow> 'k \<Rightarrow> 'v option"
    and inv :: "'s \<Rightarrow> bool"
    and cap :: "'s \<Rightarrow> nat"
    and insert_op :: "'k \<Rightarrow> 'v \<Rightarrow> 's \<Rightarrow> 's"
    and remove_op :: "'k \<Rightarrow> 's \<Rightarrow> 's"
  assumes insert_inv: "inv s \<Longrightarrow> inv (insert_op k v s)"
    and remove_inv: "inv s \<Longrightarrow> inv (remove_op k s)"
    and insert_same: "inv s \<Longrightarrow> lookup (insert_op k v s) k = Some v"
    and insert_other: "inv s \<Longrightarrow> k' \<noteq> k \<Longrightarrow> lookup (insert_op k v s) k' \<in> {None, lookup s k'}"
    and remove_lookup: "inv s \<Longrightarrow> lookup (remove_op k s) = (lookup s)(k := None)"
    and bound: "inv s \<Longrightarrow> card (dom (lookup s)) \<le> cap s"
    and insert_cap: "inv s \<Longrightarrow> cap (insert_op k v s) = cap s"
begin

lemma insert_many:
  assumes "inv s"
  shows "inv (fold (\<lambda>(k, v). insert_op k v) kvs s)"
  using assms by (induction kvs arbitrary: s) (auto simp: insert_inv)

lemma insert_many_lookup:
  assumes "inv s"
    and "lookup (fold (\<lambda>(k, v). insert_op k v) kvs s) k = Some v"
  shows "map_of (rev kvs) k = Some v \<or> (map_of (rev kvs) k = None \<and> lookup s k = Some v)"
  using assms
proof (induction kvs rule: rev_induct)
  case Nil
  then show ?case by simp
next
  case (snoc kv kvs)
  obtain a b where kv: "kv = (a, b)" by (cases kv)
  let ?t = "fold (\<lambda>(k, v). insert_op k v) kvs s"
  have t: "inv ?t" using snoc.prems(1) by (rule insert_many)
  show ?case
  proof (cases "k = a")
    case True
    then show ?thesis using snoc.prems(2) insert_same [OF t] by (simp add: kv)
  next
    case False
    from insert_other [OF t False, of b] snoc.prems(2) have "lookup ?t k = Some v"
      by (auto simp: kv)
    with snoc.IH snoc.prems(1) False show ?thesis by (simp add: kv)
  qed
qed

lemma insert_many_bound:
  assumes "inv s"
  shows "card (dom (lookup (fold (\<lambda>(k, v). insert_op k v) kvs s))) \<le> cap s"
proof -
  have "cap (fold (\<lambda>(k, v). insert_op k v) kvs s) = cap s"
    using assms by (induction kvs arbitrary: s) (auto simp: insert_cap insert_inv)
  with bound [OF insert_many [OF assms, of kvs]] show ?thesis by simp
qed

end

end
