(* ===== verification/Channel.thy ===== *)
theory Channel
  imports Prelude
begin

unbundle bit_operations_syntax

text \<open>
  \<^verbatim>\<open>dbase::net::Channel\<close> (\<^verbatim>\<open>code/src/net/channel.cpp\<close>) with the part of \<^verbatim>\<open>EpollPoller\<close>
  (\<^verbatim>\<open>code/src/net/epoll_poller.cpp\<close>) that a channel talks to. \<open>ch_polled\<close> is the entry of the channel's
  descriptor in the poller: \<open>None\<close> when the descriptor is not in \<^verbatim>\<open>m_channels\<close> and in the epoll set, else the
  event mask last given to \<^verbatim>\<open>epoll_ctl\<close>, which is assumed to succeed.
\<close>

section \<open>Channel and its poller entry\<close>

record Channel =
  ch_events :: "32 word"
  ch_revents :: "32 word"
  ch_edgeTriggered :: bool
  ch_tied :: bool
  ch_polled :: "32 word option"

definition kNoneEvent :: "32 word" where "kNoneEvent = 0"
definition kReadEvent :: "32 word" where "kReadEvent = push_bit 0 1"
definition kWriteEvent :: "32 word" where "kWriteEvent = push_bit 1 1"
definition kErrorEvent :: "32 word" where "kErrorEvent = push_bit 2 1"
definition kCloseEvent :: "32 word" where "kCloseEvent = push_bit 3 1"

definition EPOLLIN :: "32 word" where "EPOLLIN = 0x001"
definition EPOLLPRI :: "32 word" where "EPOLLPRI = 0x002"
definition EPOLLOUT :: "32 word" where "EPOLLOUT = 0x004"
definition EPOLLERR :: "32 word" where "EPOLLERR = 0x008"
definition EPOLLHUP :: "32 word" where "EPOLLHUP = 0x010"
definition EPOLLRDHUP :: "32 word" where "EPOLLRDHUP = 0x2000"
definition EPOLLET :: "32 word" where "EPOLLET = push_bit 31 1"

definition mk_Channel :: Channel where
  "mk_Channel = \<lparr>ch_events = kNoneEvent, ch_revents = kNoneEvent, ch_edgeTriggered = False,
                 ch_tied = False, ch_polled = None\<rparr>"

definition isNoneEvent :: "Channel \<Rightarrow> bool" where
  "isNoneEvent ch \<longleftrightarrow> ch_events ch = kNoneEvent"

definition isReading :: "Channel \<Rightarrow> bool" where
  "isReading ch \<longleftrightarrow> ch_events ch AND kReadEvent \<noteq> 0"

definition isWriting :: "Channel \<Rightarrow> bool" where
  "isWriting ch \<longleftrightarrow> ch_events ch AND kWriteEvent \<noteq> 0"

definition toEpollEvents :: "Channel \<Rightarrow> 32 word" where
  "toEpollEvents ch =
     (let e0 = 0;
          e1 = (if isReading ch then e0 OR (EPOLLIN OR EPOLLPRI OR EPOLLRDHUP) else e0);
          e2 = (if isWriting ch then e1 OR EPOLLOUT else e1)
      in if ch_edgeTriggered ch then e2 OR EPOLLET else e2)"

definition fromEpollEvents :: "32 word \<Rightarrow> 32 word" where
  "fromEpollEvents ev =
     (let r0 = kNoneEvent;
          r1 = (if ev AND EPOLLERR \<noteq> 0 then r0 OR kErrorEvent else r0);
          r2 = (if ev AND (EPOLLIN OR EPOLLPRI) \<noteq> 0 then r1 OR kReadEvent else r1);
          r3 = (if ev AND EPOLLOUT \<noteq> 0 then r2 OR kWriteEvent else r2)
      in if ev AND (EPOLLRDHUP OR EPOLLHUP) \<noteq> 0 then r3 OR kCloseEvent else r3)"

text \<open>\<^verbatim>\<open>EpollPoller::updateChannel\<close> on this channel: delete, add or modify.\<close>

definition updateChannel :: "Channel \<Rightarrow> Channel" where
  "updateChannel ch =
     (if isNoneEvent ch
      then (if ch_polled ch \<noteq> None then ch\<lparr>ch_polled := None\<rparr> else ch)
      else if ch_polled ch = None then ch\<lparr>ch_polled := Some (toEpollEvents ch)\<rparr>
      else ch\<lparr>ch_polled := Some (toEpollEvents ch)\<rparr>)"

definition removeChannel :: "Channel \<Rightarrow> Channel" where
  "removeChannel ch = (if ch_polled ch = None then ch else ch\<lparr>ch_polled := None\<rparr>)"

definition setEdgeTriggered :: "bool \<Rightarrow> Channel \<Rightarrow> Channel" where
  "setEdgeTriggered on ch =
     (if ch_edgeTriggered ch = on then ch
      else let ch' = ch\<lparr>ch_edgeTriggered := on\<rparr>
           in if \<not> isNoneEvent ch' then updateChannel ch' else ch')"

definition setRevents :: "32 word \<Rightarrow> Channel \<Rightarrow> Channel" where
  "setRevents ev ch = ch\<lparr>ch_revents := ev\<rparr>"

definition tie :: "Channel \<Rightarrow> Channel" where
  "tie ch = ch\<lparr>ch_tied := True\<rparr>"

definition enableReading :: "Channel \<Rightarrow> Channel" where
  "enableReading ch = updateChannel (ch\<lparr>ch_events := ch_events ch OR kReadEvent\<rparr>)"

definition enableWriting :: "Channel \<Rightarrow> Channel" where
  "enableWriting ch = updateChannel (ch\<lparr>ch_events := ch_events ch OR kWriteEvent\<rparr>)"

definition disableReading :: "Channel \<Rightarrow> Channel" where
  "disableReading ch = updateChannel (ch\<lparr>ch_events := ch_events ch AND NOT kReadEvent\<rparr>)"

definition disableWriting :: "Channel \<Rightarrow> Channel" where
  "disableWriting ch = updateChannel (ch\<lparr>ch_events := ch_events ch AND NOT kWriteEvent\<rparr>)"

definition disableAll :: "Channel \<Rightarrow> Channel" where
  "disableAll ch = updateChannel (ch\<lparr>ch_events := kNoneEvent\<rparr>)"

text \<open>\<^verbatim>\<open>handleEventWithGuard\<close> runs the four callbacks on the events the poller reported: error, read,
  write, close. The callbacks act on the state \<open>'s\<close> of the channel's owner; \<open>revents\<close> is read
  again before each, as the code does.\<close>

definition handleEventWithGuard ::
  "('s \<Rightarrow> 32 word) \<Rightarrow> ('s, unit) cpp \<Rightarrow> ('s, unit) cpp \<Rightarrow> ('s, unit) cpp \<Rightarrow> ('s, unit) cpp \<Rightarrow> ('s, unit) cpp" where
  "handleEventWithGuard revents errorCb readCb writeCb closeCb =
     seq (bind (gets revents) (\<lambda>r. if r AND kErrorEvent \<noteq> 0 then errorCb else ret ()))
    (seq (bind (gets revents) (\<lambda>r. if r AND kReadEvent \<noteq> 0 then readCb else ret ()))
    (seq (bind (gets revents) (\<lambda>r. if r AND kWriteEvent \<noteq> 0 then writeCb else ret ()))
         (bind (gets revents) (\<lambda>r. if r AND kCloseEvent \<noteq> 0 then closeCb else ret ()))))"

section \<open>Interest and poller agree\<close>

text \<open>Only the read and the write bit are ever set, and the poller knows the channel exactly when it
  has an interest, with the mask that belongs to it.\<close>

definition channel_inv :: "Channel \<Rightarrow> bool" where
  "channel_inv ch \<longleftrightarrow> ch_events ch AND 3 = ch_events ch \<and>
     ch_polled ch = (if isNoneEvent ch then None else Some (toEpollEvents ch))"

lemma event_bits:
  "kReadEvent = 1" "kWriteEvent = 2" "kErrorEvent = 4" "kCloseEvent = 8" "kNoneEvent = 0"
  by (simp_all add: kReadEvent_def kWriteEvent_def kErrorEvent_def kCloseEvent_def kNoneEvent_def)

lemma isReading_bit: "isReading ch \<longleftrightarrow> bit (ch_events ch) 0"
  by (simp add: isReading_def kReadEvent_def and_one_eq odd_iff_mod_2_eq_one [symmetric] bit_0 flip: odd_iff_mod_2_eq_one)

lemma isWriting_bit: "isWriting ch \<longleftrightarrow> bit (ch_events ch) 1"
  unfolding isWriting_def kWriteEvent_def by (simp add: bit_iff_and_push_bit_not_eq_0)

lemma three_bits: "bit (3 :: 32 word) n \<longleftrightarrow> n = 0 \<or> n = 1"
  by (simp add: bit_numeral_rec(2) bit_Suc bit_1_iff) (cases n; auto simp: bit_Suc bit_1_iff)


lemma updateChannel_same [simp]:
  "ch_events (updateChannel ch) = ch_events ch" "ch_revents (updateChannel ch) = ch_revents ch"
  "ch_tied (updateChannel ch) = ch_tied ch" "ch_edgeTriggered (updateChannel ch) = ch_edgeTriggered ch"
  "isReading (updateChannel ch) = isReading ch" "isWriting (updateChannel ch) = isWriting ch"
  by (simp_all add: updateChannel_def isReading_def isWriting_def)

lemma updateChannel_polled:
  "ch_polled (updateChannel ch) = (if isNoneEvent ch then None else Some (toEpollEvents ch))"
  by (simp add: updateChannel_def)

lemma update_inv: "ch_events ch AND 3 = ch_events ch \<Longrightarrow> channel_inv (updateChannel ch)"
  by (simp add: channel_inv_def updateChannel_polled isNoneEvent_def toEpollEvents_def)

lemma reading_writing [simp]:
  "isReading (enableReading ch)" "isWriting (enableReading ch) = isWriting ch"
  "isReading (enableWriting ch) = isReading ch" "isWriting (enableWriting ch)"
  "\<not> isReading (disableReading ch)" "isWriting (disableReading ch) = isWriting ch"
  "isReading (disableWriting ch) = isReading ch" "\<not> isWriting (disableWriting ch)"
  "\<not> isReading (disableAll ch)" "\<not> isWriting (disableAll ch)"
  "isReading (setEdgeTriggered on ch) = isReading ch" "isWriting (setEdgeTriggered on ch) = isWriting ch"
  "isReading (tie ch) = isReading ch" "isWriting (tie ch) = isWriting ch"
  "isReading (removeChannel ch) = isReading ch" "isWriting (removeChannel ch) = isWriting ch"
  "isReading (setRevents ev ch) = isReading ch" "isWriting (setRevents ev ch) = isWriting ch"
  by (simp_all add: enableReading_def enableWriting_def disableReading_def disableWriting_def disableAll_def
      setEdgeTriggered_def tie_def removeChannel_def setRevents_def isReading_bit isWriting_bit bit_simps event_bits Let_def)

text \<open>A channel with neither interest is the one with no event, so the poller has forgotten it.\<close>

lemma isNoneEvent_iff:
  assumes "channel_inv ch"
  shows "isNoneEvent ch \<longleftrightarrow> \<not> isReading ch \<and> \<not> isWriting ch"
proof
  assume n: "\<not> isReading ch \<and> \<not> isWriting ch"
  have "ch_events ch = ch_events ch AND 3" using assms by (simp add: channel_inv_def)
  also have "\<dots> = 0" using n
    by (intro bit_word_eqI) (auto simp only: bit_and_iff bit_0_eq bot_apply bot_bool_def three_bits isReading_bit isWriting_bit simp_thms)
  finally show "isNoneEvent ch" by (simp add: isNoneEvent_def kNoneEvent_def)
qed (simp add: isNoneEvent_def isReading_def isWriting_def kNoneEvent_def)

lemma mk_Channel_inv: "channel_inv mk_Channel"
  by (simp add: channel_inv_def mk_Channel_def isNoneEvent_def kNoneEvent_def)

lemma mask_ops:
  fixes e :: "32 word"
  assumes "e AND 3 = e"
  shows "(e OR kReadEvent) AND 3 = e OR kReadEvent" "(e OR kWriteEvent) AND 3 = e OR kWriteEvent"
    "(e AND NOT kReadEvent) AND 3 = e AND NOT kReadEvent" "(e AND NOT kWriteEvent) AND 3 = e AND NOT kWriteEvent"
proof -
  have kb: "bit kReadEvent n \<longleftrightarrow> n = 0" "bit kWriteEvent n \<longleftrightarrow> n = 1" for n
    unfolding kReadEvent_def kWriteEvent_def bit_push_bit_iff bit_1_iff by auto
  have b: "bit e n \<Longrightarrow> n = 0 \<or> n = 1" for n
    using assms by (metis bit_and_iff three_bits)
  show "(e OR kReadEvent) AND 3 = e OR kReadEvent" "(e OR kWriteEvent) AND 3 = e OR kWriteEvent"
    "(e AND NOT kReadEvent) AND 3 = e AND NOT kReadEvent" "(e AND NOT kWriteEvent) AND 3 = e AND NOT kWriteEvent"
    by (intro bit_word_eqI; unfold bit_and_iff bit_or_iff kb three_bits; use b in blast)+
qed

lemma channel_ops_inv [intro]:
  assumes "channel_inv ch"
  shows "channel_inv (enableReading ch)" "channel_inv (enableWriting ch)" "channel_inv (disableReading ch)"
    "channel_inv (disableWriting ch)" "channel_inv (disableAll ch)" "channel_inv (tie ch)"
    "channel_inv (setRevents ev ch)" "channel_inv (setEdgeTriggered on ch)"
proof -
  have m: "ch_events ch AND 3 = ch_events ch" using assms by (simp add: channel_inv_def)
  note mm = mask_ops [OF m]
  show "channel_inv (enableReading ch)" "channel_inv (enableWriting ch)" "channel_inv (disableReading ch)"
    "channel_inv (disableWriting ch)" "channel_inv (disableAll ch)"
    unfolding enableReading_def enableWriting_def disableReading_def disableWriting_def disableAll_def
    by (rule update_inv, simp add: mm kNoneEvent_def)+
  show "channel_inv (tie ch)" "channel_inv (setRevents ev ch)"
    using assms by (simp_all add: channel_inv_def tie_def setRevents_def isNoneEvent_def toEpollEvents_def isReading_def isWriting_def)
  show "channel_inv (setEdgeTriggered on ch)"
  proof (cases "ch_edgeTriggered ch = on")
    case True
    then show ?thesis using assms by (simp add: setEdgeTriggered_def)
  next
    case False
    have u: "channel_inv (updateChannel (ch\<lparr>ch_edgeTriggered := on\<rparr>))" by (rule update_inv) (simp add: m)
    show ?thesis
    proof (cases "isNoneEvent ch")
      case True
      with False assms show ?thesis
        by (simp add: setEdgeTriggered_def Let_def channel_inv_def isNoneEvent_def)
    next
      case no: False
      with False u show ?thesis by (simp add: setEdgeTriggered_def Let_def isNoneEvent_def)
    qed
  qed
qed

end
