(* ===== verification/Std_Strings.thy ===== *)
theory Std_Strings
  imports Prelude
begin

text \<open>
  What the sources use of the C++ string library: \<^verbatim>\<open>std::to_string\<close>, \<^verbatim>\<open>std::from_chars\<close> in base
  ten, \<^verbatim>\<open>std::tolower\<close> and \<^verbatim>\<open>std::toupper\<close> of the C locale, \<^verbatim>\<open>find\<close>, \<^verbatim>\<open>substr\<close> and the
  \<^verbatim>\<open>find_first_not_of\<close> family of \<^verbatim>\<open>std::string_view\<close>, and \<^verbatim>\<open>std::search\<close>.
\<close>

section \<open>Digits\<close>

definition digit_char :: "nat \<Rightarrow> char" where
  "digit_char d = char_of (48 + d)"

definition is_digit :: "char \<Rightarrow> bool" where
  "is_digit c \<longleftrightarrow> 48 \<le> (of_char c :: nat) \<and> (of_char c :: nat) \<le> 57"

definition digit_val :: "char \<Rightarrow> nat" where
  "digit_val c = of_char c - 48"

fun nat_digits :: "nat \<Rightarrow> string" where
  "nat_digits n =
     (if n < 10 then [digit_char n] else nat_digits (n div 10) @ [digit_char (n mod 10)])"

declare nat_digits.simps [simp del]

definition to_string :: "int \<Rightarrow> string" where
  "to_string i = (if i < 0 then CHR ''-'' # nat_digits (nat (- i)) else nat_digits (nat i))"

definition digits_val :: "string \<Rightarrow> nat" where
  "digits_val s = foldl (\<lambda>acc c. acc * 10 + digit_val c) 0 s"

lemma of_digit_char: "d < 10 \<Longrightarrow> (of_char (digit_char d) :: nat) = 48 + d"
  by (simp add: digit_char_def of_char_of)

lemma is_digit_digit_char [simp]: "d < 10 \<Longrightarrow> is_digit (digit_char d)"
  by (simp add: is_digit_def of_digit_char)

lemma digit_val_digit_char [simp]: "d < 10 \<Longrightarrow> digit_val (digit_char d) = d"
  by (simp add: digit_val_def of_digit_char)

lemma digits_val_snoc: "digits_val (s @ [c]) = digits_val s * 10 + digit_val c"
  by (simp add: digits_val_def)

lemma digits_val_nat_digits: "digits_val (nat_digits n) = n"
proof (induction n rule: nat_digits.induct)
  case (1 n)
  show ?case
  proof (cases "n < 10")
    case True
    then show ?thesis by (subst nat_digits.simps) (simp add: digits_val_def)
  next
    case False
    with 1 have "digits_val (nat_digits (n div 10)) = n div 10" by simp
    with False show ?thesis by (subst nat_digits.simps) (simp add: digits_val_snoc)
  qed
qed

lemma nat_digits_all: "\<forall>c \<in> set (nat_digits n). is_digit c"
proof (induction n rule: nat_digits.induct)
  case (1 n)
  then show ?case by (subst nat_digits.simps) auto
qed

lemma nat_digits_nonempty [simp]: "nat_digits n \<noteq> []"
  by (subst nat_digits.simps) simp

lemma takeWhile_nat_digits [simp]: "takeWhile is_digit (nat_digits n) = nat_digits n"
  using nat_digits_all by (simp add: takeWhile_eq_all_conv)

lemma hd_nat_digits: "is_digit (hd (nat_digits n))"
  using nat_digits_all nat_digits_nonempty by (meson hd_in_set)

section \<open>\<^verbatim>\<open>std::from_chars\<close>\<close>

datatype errc = Errc_ok | Errc_invalid_argument | Errc_result_out_of_range

text \<open>
  \<open>from_chars lo hi s\<close> parses a signed decimal number at the front of \<open>s\<close>: an optional minus sign
  and a non-empty run of digits. It gives the error code, the value stored in the output argument
  (\<open>None\<close>: left unchanged) and the number of characters consumed.
\<close>

definition from_chars :: "int \<Rightarrow> int \<Rightarrow> string \<Rightarrow> errc \<times> int option \<times> nat" where
  "from_chars lo hi s =
     (let neg = (s \<noteq> [] \<and> hd s = CHR ''-'');
          ds = takeWhile is_digit (if neg then tl s else s);
          n = (if neg then 1 else 0) + length ds;
          v = (if neg then - int (digits_val ds) else int (digits_val ds))
      in if ds = [] then (Errc_invalid_argument, None, 0)
         else if v < lo \<or> hi < v then (Errc_result_out_of_range, None, n)
         else (Errc_ok, Some v, n))"

lemma is_digit_minus [simp]: "\<not> is_digit (CHR ''-'')"
  by (simp add: is_digit_def)

lemma from_chars_to_string:
  assumes "lo \<le> v" "v \<le> hi"
  shows "from_chars lo hi (to_string v) = (Errc_ok, Some v, length (to_string v))"
proof (cases "v < 0")
  case True
  then show ?thesis using assms
    by (simp add: from_chars_def to_string_def digits_val_nat_digits Let_def)
next
  case False
  have "hd (nat_digits (nat v)) \<noteq> CHR ''-''" using hd_nat_digits is_digit_minus by metis
  with False show ?thesis using assms
    by (simp add: from_chars_def to_string_def digits_val_nat_digits Let_def)
qed

section \<open>Letter case\<close>

definition tolower_char :: "char \<Rightarrow> char" where
  "tolower_char c =
     (if 65 \<le> (of_char c :: nat) \<and> (of_char c :: nat) \<le> 90 then char_of (of_char c + 32 :: nat) else c)"

definition toupper_char :: "char \<Rightarrow> char" where
  "toupper_char c =
     (if 97 \<le> (of_char c :: nat) \<and> (of_char c :: nat) \<le> 122 then char_of (of_char c - 32 :: nat) else c)"

lemma tolower_idem: "tolower_char (tolower_char c) = tolower_char c"
  by (simp add: tolower_char_def of_char_of)

lemma toupper_idem: "toupper_char (toupper_char c) = toupper_char c"
  by (auto simp: toupper_char_def of_char_of mod_if)

lemma tolower_toupper: "tolower_char (toupper_char c) = tolower_char c"
  by (auto simp: toupper_char_def tolower_char_def of_char_of)

section \<open>Searching\<close>

fun find_sub :: "'a list \<Rightarrow> 'a list \<Rightarrow> nat option" where
  "find_sub p [] = (if p = [] then Some 0 else None)"
| "find_sub p (c # cs) =
     (if take (length p) (c # cs) = p then Some 0 else map_option Suc (find_sub p cs))"

text \<open>\<^verbatim>\<open>str.find(part, pos)\<close>, with \<open>None\<close> for \<^verbatim>\<open>npos\<close>.\<close>

definition sv_find :: "'a list \<Rightarrow> 'a list \<Rightarrow> nat \<Rightarrow> nat option" where
  "sv_find s p pos =
     (if pos \<le> length s then map_option (\<lambda>i. pos + i) (find_sub p (drop pos s)) else None)"

definition find_first_not_of :: "'a list \<Rightarrow> 'a list \<Rightarrow> nat option" where
  "find_first_not_of s chars =
     (let n = length (takeWhile (\<lambda>c. c \<in> set chars) s) in if n = length s then None else Some n)"

definition find_last_not_of :: "'a list \<Rightarrow> 'a list \<Rightarrow> nat option" where
  "find_last_not_of s chars =
     (let n = length (takeWhile (\<lambda>c. c \<in> set chars) (rev s))
      in if n = length s then None else Some (length s - 1 - n))"

lemma find_sub_Some:
  "find_sub p s = Some i \<Longrightarrow> i + length p \<le> length s \<and> take (length p) (drop i s) = p"
proof (induction p s arbitrary: i rule: find_sub.induct)
  case (1 p)
  then show ?case by (simp split: if_splits)
next
  case (2 p c cs)
  show ?case
  proof (cases "take (length p) (c # cs) = p")
    case True
    then have "length p \<le> length (c # cs)" by (metis length_take min_def nat_le_linear)
    with True 2(2) show ?thesis by simp
  next
    case False
    with 2(2) obtain j where j: "i = Suc j" "find_sub p cs = Some j" by auto
    from 2(1) [OF False j(2)] j(1) show ?thesis by simp
  qed
qed

lemma find_sub_least:
  "find_sub p s = Some i \<Longrightarrow> j < i \<Longrightarrow> take (length p) (drop j s) \<noteq> p"
proof (induction p s arbitrary: i j rule: find_sub.induct)
  case (1 p)
  then show ?case by (simp split: if_splits)
next
  case (2 p c cs)
  show ?case
  proof (cases "take (length p) (c # cs) = p")
    case True
    then show ?thesis using 2 by simp
  next
    case False
    with 2(2) obtain k where k: "i = Suc k" "find_sub p cs = Some k" by auto
    show ?thesis
    proof (cases j)
      case 0
      then show ?thesis using False by simp
    next
      case (Suc j')
      with 2(3) k(1) have "j' < k" by simp
      with 2(1) [OF False k(2)] Suc show ?thesis by simp
    qed
  qed
qed

lemma find_sub_None:
  "find_sub p s = None \<Longrightarrow> take (length p) (drop j s) \<noteq> p \<or> length s < j + length p"
proof (induction p s arbitrary: j rule: find_sub.induct)
  case (1 p)
  then show ?case by (simp split: if_splits)
next
  case (2 p c cs)
  then show ?case by (cases j) (auto split: if_splits)
qed

lemma find_sub_single: "find_sub [c] s = (if c \<in> set s then Some (length (takeWhile (\<lambda>x. x \<noteq> c) s)) else None)"
  by (induction s) auto

lemma sv_find_bounds: "sv_find s p pos = Some i \<Longrightarrow> pos \<le> i \<and> i + length p \<le> length s"
proof -
  assume a: "sv_find s p pos = Some i"
  then obtain j where j: "pos \<le> length s" "find_sub p (drop pos s) = Some j" "i = pos + j"
    by (auto simp: sv_find_def split: if_splits)
  with find_sub_Some [OF j(2)] show ?thesis by auto
qed

end
