(* ===== verification/Errors.thy ===== *)
theory Errors
  imports Std_Strings
begin

text \<open>
  \<^verbatim>\<open>dbase/error\<close>: error codes, \<^verbatim>\<open>Error\<close>, \<^verbatim>\<open>Result<T>\<close> and \<^verbatim>\<open>Result<void>\<close>, which every other
  component returns.
\<close>

section \<open>Error codes and \<^verbatim>\<open>Error\<close>\<close>

datatype ErrorCode =
    EC_Ok | EC_InvalidArgument | EC_NotFound | EC_AlreadyExists | EC_IOError | EC_Timeout
  | EC_NotSupported | EC_SystemError | EC_ParseError | EC_InvalidState | EC_Cancelled
  | EC_WouldBlock | EC_EndOfFile | EC_Unknown

text \<open>The numeric value of the enumerator, as \<^verbatim>\<open>static_cast<int>(code)\<close> gives it.\<close>

fun code_int :: "ErrorCode \<Rightarrow> int" where
  "code_int EC_Ok = 0"
| "code_int EC_InvalidArgument = 1"
| "code_int EC_NotFound = 2"
| "code_int EC_AlreadyExists = 3"
| "code_int EC_IOError = 4"
| "code_int EC_Timeout = 5"
| "code_int EC_NotSupported = 6"
| "code_int EC_SystemError = 7"
| "code_int EC_ParseError = 8"
| "code_int EC_InvalidState = 9"
| "code_int EC_Cancelled = 10"
| "code_int EC_WouldBlock = 11"
| "code_int EC_EndOfFile = 12"
| "code_int EC_Unknown = 13"

fun toString_code :: "ErrorCode \<Rightarrow> string" where
  "toString_code EC_Ok = ''Ok''"
| "toString_code EC_InvalidArgument = ''InvalidArgument''"
| "toString_code EC_NotFound = ''NotFound''"
| "toString_code EC_AlreadyExists = ''AlreadyExists''"
| "toString_code EC_IOError = ''IOError''"
| "toString_code EC_Timeout = ''Timeout''"
| "toString_code EC_NotSupported = ''NotSupported''"
| "toString_code EC_SystemError = ''SystemError''"
| "toString_code EC_ParseError = ''ParseError''"
| "toString_code EC_InvalidState = ''InvalidState''"
| "toString_code EC_Cancelled = ''Cancelled''"
| "toString_code EC_WouldBlock = ''WouldBlock''"
| "toString_code EC_EndOfFile = ''EndOfFile''"
| "toString_code EC_Unknown = ''Unknown''"

record Error =
  m_code :: ErrorCode
  m_message :: string

definition mk_error :: "ErrorCode \<Rightarrow> string \<Rightarrow> Error" where
  "mk_error c m = \<lparr>m_code = c, m_message = m\<rparr>"

definition error_ok :: "Error \<Rightarrow> bool" where
  "error_ok e \<longleftrightarrow> m_code e = EC_Ok"

definition error_toString :: "Error \<Rightarrow> string" where
  "error_toString e =
     (if m_message e = [] then toString_code (m_code e)
      else toString_code (m_code e) @ '': '' @ m_message e)"

text \<open>\<^verbatim>\<open>std::strerror\<close> is the parameter \<open>strerror\<close>.\<close>

definition makeSystemError :: "(int \<Rightarrow> string) \<Rightarrow> string \<Rightarrow> int \<Rightarrow> Error" where
  "makeSystemError strerror message code =
     (let m = (if message \<noteq> [] then message @ '': '' else message)
      in mk_error EC_SystemError (m @ strerror code @ '' (code='' @ to_string code @ '')''))"

section \<open>\<^verbatim>\<open>Result<T>\<close>\<close>

datatype 'a Result = Value 'a | Fail Error

fun hasValue :: "'a Result \<Rightarrow> bool" where
  "hasValue (Value _) = True"
| "hasValue (Fail _) = False"

fun hasError :: "'a Result \<Rightarrow> bool" where
  "hasError (Value _) = False"
| "hasError (Fail _) = True"

fun result_error :: "'a Result \<Rightarrow> Error outcome" where
  "result_error (Value _) = Throw (Bad_result_access ''Result::error() called on value result'')"
| "result_error (Fail e) = Ret e"

definition result_value :: "'a Result \<Rightarrow> 'a outcome" where
  "result_value r =
     (case r of
        Value v \<Rightarrow> Ret v
      | Fail e \<Rightarrow> Throw (Bad_result_access
          (''Result::value() called on error result: '' @ error_toString e)))"

fun valueOr :: "'a Result \<Rightarrow> 'a \<Rightarrow> 'a" where
  "valueOr (Value v) d = v"
| "valueOr (Fail e) d = d"

definition makeErrorResult :: "ErrorCode \<Rightarrow> string \<Rightarrow> 'a Result" where
  "makeErrorResult c m = Fail (mk_error c m)"

definition makeSystemErrorResultT :: "(int \<Rightarrow> string) \<Rightarrow> string \<Rightarrow> int \<Rightarrow> 'a Result" where
  "makeSystemErrorResultT strerror m code = Fail (makeSystemError strerror m code)"

section \<open>\<^verbatim>\<open>Result<void>\<close>\<close>

text \<open>The specialisation keeps one \<^verbatim>\<open>Error\<close>, default \<^verbatim>\<open>Ok\<close>, and is a value when that error is \<^verbatim>\<open>Ok\<close>.\<close>

type_synonym VoidResult = Error

definition void_ok :: VoidResult where
  "void_ok = mk_error EC_Ok []"

definition makeError :: "ErrorCode \<Rightarrow> string \<Rightarrow> VoidResult" where
  "makeError c m = mk_error c m"

definition void_hasValue :: "VoidResult \<Rightarrow> bool" where
  "void_hasValue r \<longleftrightarrow> error_ok r"

definition void_hasError :: "VoidResult \<Rightarrow> bool" where
  "void_hasError r \<longleftrightarrow> \<not> error_ok r"

definition void_value :: "VoidResult \<Rightarrow> unit outcome" where
  "void_value r =
     (if void_hasError r
      then Throw (Bad_result_access (''Result<void>::value() called on error result: '' @ error_toString r))
      else Ret ())"

definition void_error :: "VoidResult \<Rightarrow> Error outcome" where
  "void_error r =
     (if \<not> void_hasError r
      then Throw (Bad_result_access ''Result<void>::error() called on value result'')
      else Ret r)"

section \<open>Properties\<close>

lemma toString_code_inj: "toString_code a = toString_code b \<Longrightarrow> a = b"
  by (cases a; cases b) simp_all

lemma hasError_not_hasValue [simp]: "hasError r \<longleftrightarrow> \<not> hasValue r"
  by (cases r) simp_all

lemma result_value_Ret: "result_value r = Ret v \<longleftrightarrow> r = Value v"
  by (cases r) (auto simp: result_value_def)

lemma makeErrorResult_simps [simp]:
  "\<not> hasValue (makeErrorResult c m)"
  "valueOr (makeErrorResult c m) d = d"
  "result_error (makeErrorResult c m) = Ret (mk_error c m)"
  by (simp_all add: makeErrorResult_def)

end
