(* ===== verification/Byte_Order.thy ===== *)
theory Byte_Order
  imports Prelude
begin

unbundle bit_operations_syntax

text \<open>
  The integer helpers in the anonymous namespace of \<^verbatim>\<open>code/src/net/buffer.cpp\<close>: \<^verbatim>\<open>byteswapValue\<close>,
  \<^verbatim>\<open>hostToBigEndian\<close>, \<^verbatim>\<open>readInteger\<close> and \<^verbatim>\<open>writeInteger\<close>, for the widths 8, 16, 32 and 64. Signed
  and unsigned integers of one width have the same bits (the sources cast to the unsigned type
  and back), so a word stands for both; \<open>sint\<close> reads it as signed.
\<close>

section \<open>Definitions\<close>

definition byteswap16 :: "16 word \<Rightarrow> 16 word" where
  "byteswap16 value = push_bit 8 value OR drop_bit 8 value"

definition byteswap32 :: "32 word \<Rightarrow> 32 word" where
  "byteswap32 value =
     push_bit 24 (value AND 0x000000FF) OR
     push_bit 8 (value AND 0x0000FF00) OR
     drop_bit 8 (value AND 0x00FF0000) OR
     drop_bit 24 (value AND 0xFF000000)"

definition byteswap64 :: "64 word \<Rightarrow> 64 word" where
  "byteswap64 value =
     push_bit 56 (value AND 0x00000000000000FF) OR
     push_bit 40 (value AND 0x000000000000FF00) OR
     push_bit 24 (value AND 0x0000000000FF0000) OR
     push_bit 8 (value AND 0x00000000FF000000) OR
     drop_bit 8 (value AND 0x000000FF00000000) OR
     drop_bit 24 (value AND 0x0000FF0000000000) OR
     drop_bit 40 (value AND 0x00FF000000000000) OR
     drop_bit 56 (value AND 0xFF00000000000000)"

text \<open>
  The object representation that \<^verbatim>\<open>std::memcpy\<close> copies, on the little-endian host the sources
  are built for: the byte of weight \<open>256 ^ i\<close> is at offset \<open>i\<close>.
\<close>

definition mem_of_word :: "nat \<Rightarrow> 'a::len word \<Rightarrow> byte list" where
  "mem_of_word n v = map (\<lambda>i. ucast (drop_bit (8 * i) v)) [0..<n]"

definition word_of_mem :: "byte list \<Rightarrow> 'a::len word" where
  "word_of_mem bs = foldr (\<lambda>b acc. ucast b OR push_bit 8 acc) bs 0"

section \<open>Swapping reverses the object representation\<close>

lemma masks32:
  "(0xFF :: 32 word) = push_bit 0 (mask 8)" "(0xFF00 :: 32 word) = push_bit 8 (mask 8)"
  "(0xFF0000 :: 32 word) = push_bit 16 (mask 8)" "(0xFF000000 :: 32 word) = push_bit 24 (mask 8)"
  by (simp_all add: mask_eq_exp_minus_1 push_bit_eq_mult)

lemma masks64:
  "(0x00000000000000FF :: 64 word) = push_bit 0 (mask 8)" 
  "(0x000000000000FF00 :: 64 word) = push_bit 8 (mask 8)"
  "(0x0000000000FF0000 :: 64 word) = push_bit 16 (mask 8)" 
  "(0x00000000FF000000 :: 64 word) = push_bit 24 (mask 8)"
  "(0x000000FF00000000 :: 64 word) = push_bit 32 (mask 8)" 
  "(0x0000FF0000000000 :: 64 word) = push_bit 40 (mask 8)"
  "(0x00FF000000000000 :: 64 word) = push_bit 48 (mask 8)" 
  "(0xFF00000000000000 :: 64 word) = push_bit 56 (mask 8)"
  by (simp_all add: mask_eq_exp_minus_1 push_bit_eq_mult)

lemma upts: "[0..<2] = [0, 1]" "[0..<4] = [0, 1, 2, 3]" "[0..<8] = [0, 1, 2, 3, 4, 5, 6, 7]"
  by (simp_all add: upt_rec numeral_eq_Suc)

lemma byteswap16_mem: "mem_of_word 2 (byteswap16 v) = rev (mem_of_word 2 v)"
  by (auto simp: mem_of_word_def upts byteswap16_def bit_simps intro!: bit_word_eqI)

lemma byteswap32_mem: "mem_of_word 4 (byteswap32 v) = rev (mem_of_word 4 v)"
  unfolding byteswap32_def masks32
  by (auto simp: mem_of_word_def upts bit_simps intro!: bit_word_eqI)

lemma byteswap64_mem: "mem_of_word 8 (byteswap64 v) = rev (mem_of_word 8 v)"
  unfolding byteswap64_def masks64
  by (auto simp: mem_of_word_def upts bit_simps intro!: bit_word_eqI)

lemma bit_word_of_mem:
  "bit (word_of_mem bs :: 'a::len word) k \<longleftrightarrow>
     k < LENGTH('a) \<and> k div 8 < length bs \<and> bit (bs ! (k div 8)) (k mod 8)"
proof (induction bs arbitrary: k)
  case Nil
  then show ?case by (simp add: word_of_mem_def)
next
  case (Cons b bs)
  show ?case
  proof (cases "k < 8")
    case True
    then show ?thesis by (auto simp: word_of_mem_def bit_simps)
  next
    case False
    then obtain j where j: "k = 8 + j" using le_Suc_ex not_less by blast
    have nb: "\<not> bit b (8 + j)" using bit_imp_le_length by fastforce
    have dm: "(8 + j) div 8 = Suc (j div 8)" "(8 + j) mod 8 = j mod 8" by simp_all
    show ?thesis using Cons [of j] unfolding j dm by (auto simp: word_of_mem_def bit_simps nb)
  qed
qed

lemma word_of_mem_of_word: "8 * n = LENGTH('a) \<Longrightarrow> word_of_mem (mem_of_word n v) = (v::'a::len word)"
  by (rule bit_word_eqI) (auto simp: bit_word_of_mem mem_of_word_def bit_simps)

lemma length_mem_of_word [simp]: "length (mem_of_word n v) = n"
  by (simp add: mem_of_word_def)

lemma mem_of_byte: "mem_of_word 1 (b :: byte) = [b]"
  by (simp add: mem_of_word_def)

section \<open>\<^verbatim>\<open>readInteger\<close> and \<^verbatim>\<open>writeInteger\<close>\<close>

text \<open>
  \<open>swap\<close> is \<^verbatim>\<open>hostToBigEndian\<close> (and \<^verbatim>\<open>bigEndianToHost\<close>, the same function on this host) at the
  width of the integer: the identity for one byte, \<^verbatim>\<open>byteswapValue\<close> otherwise.
\<close>

definition readInteger :: "('a::len word \<Rightarrow> 'a word) \<Rightarrow> byte list \<Rightarrow> 'a word" where
  "readInteger swap bs = swap (word_of_mem bs)"

definition writeInteger :: "nat \<Rightarrow> ('a::len word \<Rightarrow> 'a word) \<Rightarrow> 'a word \<Rightarrow> byte list" where
  "writeInteger n swap v = mem_of_word n (swap v)"

text \<open>The bytes of a value, most significant first: what network byte order asks for.\<close>

definition be_bytes :: "nat \<Rightarrow> 'a::len word \<Rightarrow> byte list" where
  "be_bytes n v = rev (mem_of_word n v)"

lemma length_be_bytes [simp]: "length (be_bytes n v) = n"
  by (simp add: be_bytes_def)

lemma length_writeInteger [simp]: "length (writeInteger n swap v) = n"
  by (simp add: writeInteger_def)

text \<open>What an integer width provides: a conversion to network order that reverses the bytes.\<close>

locale wire_integer =
  fixes swap :: "'a::len word \<Rightarrow> 'a word" and n :: nat
  assumes width: "8 * n = LENGTH('a)"
    and swap_mem: "mem_of_word n (swap v) = rev (mem_of_word n v)"
begin

lemma swap_swap: "swap (swap v) = v"
proof -
  have "(word_of_mem (mem_of_word n (swap (swap v))) :: 'a word) = word_of_mem (mem_of_word n v)"
    by (simp add: swap_mem)
  then show ?thesis by (simp add: word_of_mem_of_word width)
qed

lemma write_be: "writeInteger n swap v = be_bytes n v"
  by (simp add: writeInteger_def be_bytes_def swap_mem)

lemma read_write: "readInteger swap (writeInteger n swap v) = v"
  by (simp add: readInteger_def writeInteger_def word_of_mem_of_word width swap_swap)

lemma read_be: "readInteger swap (be_bytes n v) = v"
  using read_write by (simp add: write_be)

end

interpretation w8: wire_integer "\<lambda>v :: 8 word. v" 1
  by unfold_locales (simp_all add: mem_of_word_def)

interpretation w16: wire_integer byteswap16 2
  by unfold_locales (simp_all add: byteswap16_mem)

interpretation w32: wire_integer byteswap32 4
  by unfold_locales (simp_all add: byteswap32_mem)

interpretation w64: wire_integer byteswap64 8
  by unfold_locales (simp_all add: byteswap64_mem)

end
