(* ===== verification/NetBuffer.thy ===== *)
theory NetBuffer
  imports Errors Byte_Order
begin

text \<open>
  \<^verbatim>\<open>dbase::net::Buffer\<close> (\<^verbatim>\<open>code/src/net/buffer.cpp\<close>): a growable byte buffer with a reader index, a
  writer index and a prepend area of \<^verbatim>\<open>kCheapPrepend\<close> bytes. Pointers into the buffer are offsets into
  \<open>m_buffer\<close>; all index arithmetic is \<^verbatim>\<open>size_t\<close> arithmetic and wraps. Data passed to a member
  function does not alias the buffer.
\<close>

section \<open>State\<close>

record Buffer =
  m_buffer :: "byte list"
  m_readerIndex :: nat
  m_writerIndex :: nat

datatype IoStatus = Io_Ok | Io_WouldBlock | Io_EndOfFile | Io_Empty

record IoResult =
  io_bytes :: nat
  io_status :: IoStatus

definition hasBytes :: "IoResult \<Rightarrow> bool" where
  "hasBytes r \<longleftrightarrow> io_status r = Io_Ok \<and> io_bytes r > 0"

definition kCheapPrepend :: nat where
  "kCheapPrepend = 8"

definition kInitialSize :: nat where
  "kInitialSize = 1024"

definition mk_Buffer :: "nat \<Rightarrow> Buffer outcome" where
  "mk_Buffer initialSize =
     obind (vector_make (sz_add kCheapPrepend initialSize))
       (\<lambda>v. Ret \<lparr>m_buffer = v, m_readerIndex = kCheapPrepend, m_writerIndex = kCheapPrepend\<rparr>)"

section \<open>Observers\<close>

definition readableBytes :: "Buffer \<Rightarrow> nat" where
  "readableBytes b = sz_sub (m_writerIndex b) (m_readerIndex b)"

definition writableBytes :: "Buffer \<Rightarrow> nat" where
  "writableBytes b = sz_sub (length (m_buffer b)) (m_writerIndex b)"

definition prependableBytes :: "Buffer \<Rightarrow> nat" where
  "prependableBytes b = m_readerIndex b"

definition capacity :: "Buffer \<Rightarrow> nat" where
  "capacity b = length (m_buffer b)"

definition peek :: "Buffer \<Rightarrow> nat" where
  "peek b = m_readerIndex b"

definition beginWrite :: "Buffer \<Rightarrow> nat" where
  "beginWrite b = m_writerIndex b"

definition readableView :: "Buffer \<Rightarrow> byte list outcome" where
  "readableView b = mem_read (m_buffer b) (peek b) (readableBytes b)"

definition findCRLF :: "Buffer \<Rightarrow> nat option outcome" where
  "findCRLF b =
     obind (readableView b) (\<lambda>v. Ret (map_option (\<lambda>i. peek b + i) (find_sub [13, 10] v)))"

definition findEOL :: "Buffer \<Rightarrow> nat option outcome" where
  "findEOL b =
     obind (readableView b) (\<lambda>v. Ret (map_option (\<lambda>i. peek b + i) (find_sub [10] v)))"

section \<open>Taking bytes from the front\<close>

definition retrieveAll :: "(Buffer, unit) cpp" where
  "retrieveAll = modify (\<lambda>b. b\<lparr>m_readerIndex := kCheapPrepend, m_writerIndex := kCheapPrepend\<rparr>)"

definition retrieve :: "nat \<Rightarrow> (Buffer, unit) cpp" where
  "retrieve len = bind (gets readableBytes) (\<lambda>n.
     if len < n then modify (\<lambda>b. b\<lparr>m_readerIndex := sz_add (m_readerIndex b) len\<rparr>)
     else retrieveAll)"

definition retrieveUntil :: "nat \<Rightarrow> (Buffer, unit) cpp" where
  "retrieveUntil end_ptr =
     seq (assert (\<lambda>b. peek b \<le> end_ptr))
    (seq (assert (\<lambda>b. end_ptr \<le> beginWrite b))
    (bind (gets peek) (\<lambda>p. retrieve (end_ptr - p))))"

definition read_bytes :: "nat \<Rightarrow> nat \<Rightarrow> (Buffer, byte list) cpp" where
  "read_bytes off len = bind (gets m_buffer) (\<lambda>v. lift (mem_read v off len))"

definition retrieveAsString :: "nat \<Rightarrow> (Buffer, byte list) cpp" where
  "retrieveAsString len = bind (gets readableBytes) (\<lambda>n.
     if len > n then throw (Out_of_range ''Buffer::retrieveAsString len out of range'')
     else bind (gets peek) (\<lambda>p. bind (read_bytes p len) (\<lambda>result. seq (retrieve len) (ret result))))"

definition retrieveAllAsString :: "(Buffer, byte list) cpp" where
  "retrieveAllAsString = bind (gets readableBytes) retrieveAsString"

section \<open>Appending at the back\<close>

definition write_at :: "nat \<Rightarrow> byte list \<Rightarrow> (Buffer, unit) cpp" where
  "write_at off ys = bind (gets m_buffer) (\<lambda>v. bind (lift (mem_write v off ys))
     (\<lambda>v'. modify (\<lambda>b. b\<lparr>m_buffer := v'\<rparr>)))"

text \<open>The two tails of \<^verbatim>\<open>makeSpace\<close>: sliding the readable bytes to the front, or growing.\<close>

definition makeSpace_slide :: "nat \<Rightarrow> (Buffer, unit) cpp" where
  "makeSpace_slide readable = bind (gets peek) (\<lambda>p. bind (read_bytes p readable) (\<lambda>d.
     seq (write_at kCheapPrepend d)
         (modify (\<lambda>b. b\<lparr>m_readerIndex := kCheapPrepend,
                        m_writerIndex := sz_add kCheapPrepend readable\<rparr>))))"

definition makeSpace_grow :: "nat \<Rightarrow> nat \<Rightarrow> (Buffer, unit) cpp" where
  "makeSpace_grow readable len =
     bind (gets (\<lambda>b. max (sz_mul (length (m_buffer b)) 2) (sz_add (sz_add kCheapPrepend readable) len)))
       (\<lambda>newSize. bind (lift (vector_make newSize)) (\<lambda>newBuffer.
        bind (gets peek) (\<lambda>p. bind (read_bytes p readable) (\<lambda>d.
        bind (lift (mem_write newBuffer kCheapPrepend d)) (\<lambda>newBuffer'.
        modify (\<lambda>b. b\<lparr>m_buffer := newBuffer', m_readerIndex := kCheapPrepend,
                       m_writerIndex := sz_add kCheapPrepend readable\<rparr>))))))"

definition makeSpace :: "nat \<Rightarrow> (Buffer, unit) cpp" where
  "makeSpace len = bind (gets readableBytes) (\<lambda>readable.
     seq (modify (\<lambda>b. if readable = 0
                      then b\<lparr>m_readerIndex := kCheapPrepend, m_writerIndex := kCheapPrepend\<rparr> else b))
    (bind (gets (\<lambda>b. readable = 0 \<and> writableBytes b \<ge> len)) (\<lambda>done.
     if done then ret ()
     else bind (gets (\<lambda>b. sz_sub (sz_add (writableBytes b) (prependableBytes b)) kCheapPrepend \<ge> len))
       (\<lambda>fits. if fits then makeSpace_slide readable else makeSpace_grow readable len))))"

definition ensureWritableBytes :: "nat \<Rightarrow> (Buffer, unit) cpp" where
  "ensureWritableBytes len = bind (gets writableBytes) (\<lambda>n. if n < len then makeSpace len else ret ())"

definition hasWritten :: "nat \<Rightarrow> (Buffer, unit) cpp" where
  "hasWritten len = seq (assert (\<lambda>b. len \<le> writableBytes b))
     (modify (\<lambda>b. b\<lparr>m_writerIndex := sz_add (m_writerIndex b) len\<rparr>))"

definition unwrite :: "nat \<Rightarrow> (Buffer, unit) cpp" where
  "unwrite len = seq (assert (\<lambda>b. len \<le> readableBytes b))
     (modify (\<lambda>b. b\<lparr>m_writerIndex := sz_sub (m_writerIndex b) len\<rparr>))"

definition append :: "byte list \<Rightarrow> (Buffer, unit) cpp" where
  "append data =
     (if length data = 0 then ret ()
      else seq (ensureWritableBytes (length data))
          (bind (gets beginWrite) (\<lambda>w. seq (write_at w data) (hasWritten (length data)))))"

text \<open>\<^verbatim>\<open>append(const char*)\<close>: \<open>None\<close> is the null pointer, the bytes end at the first zero.\<close>

definition append_cstr :: "byte list option \<Rightarrow> (Buffer, unit) cpp" where
  "append_cstr data = (case data of None \<Rightarrow> ret () | Some d \<Rightarrow> append (takeWhile (\<lambda>c. c \<noteq> 0) d))"

definition append_buffer :: "Buffer \<Rightarrow> (Buffer, unit) cpp" where
  "append_buffer other = bind (lift (readableView other)) append"

definition prepend :: "byte list \<Rightarrow> (Buffer, unit) cpp" where
  "prepend data =
     (if length data = 0 then ret ()
      else bind (gets prependableBytes) (\<lambda>n.
        if length data > n then throw (Out_of_range ''Buffer::prepend not enough prependable bytes'')
        else seq (modify (\<lambda>b. b\<lparr>m_readerIndex := sz_sub (m_readerIndex b) (length data)\<rparr>))
                 (bind (gets m_readerIndex) (\<lambda>r. write_at r data))))"

section \<open>Integers in network byte order\<close>

text \<open>
  The bodies shared by the sized variants. \<open>name\<close> is the function's name in the exception message,
  \<open>n\<close> the size of the integer and \<open>swap\<close> its byte-order conversion.
\<close>

definition peek_integer :: "string \<Rightarrow> nat \<Rightarrow> ('a::len word \<Rightarrow> 'a word) \<Rightarrow> (Buffer, 'a word) cpp" where
  "peek_integer name n swap = bind (gets readableBytes) (\<lambda>k.
     if k < n then throw (Out_of_range (''Buffer::'' @ name @ '' not enough readable bytes''))
     else bind (gets peek) (\<lambda>p. bind (read_bytes p n) (\<lambda>bs. ret (readInteger swap bs))))"

definition read_integer :: "nat \<Rightarrow> (Buffer, 'a word) cpp \<Rightarrow> (Buffer, 'a word) cpp" where
  "read_integer n peek_op = bind peek_op (\<lambda>v. seq (retrieve n) (ret v))"

definition append_integer :: "nat \<Rightarrow> ('a::len word \<Rightarrow> 'a word) \<Rightarrow> 'a word \<Rightarrow> (Buffer, unit) cpp" where
  "append_integer n swap v = seq (ensureWritableBytes n)
     (bind (gets beginWrite) (\<lambda>w. seq (write_at w (writeInteger n swap v)) (hasWritten n)))"

definition prepend_integer :: "string \<Rightarrow> nat \<Rightarrow> ('a::len word \<Rightarrow> 'a word) \<Rightarrow> 'a word \<Rightarrow> (Buffer, unit) cpp" where
  "prepend_integer name n swap v = bind (gets prependableBytes) (\<lambda>k.
     if k < n then throw (Out_of_range (''Buffer::'' @ name @ '' not enough prependable bytes''))
     else seq (modify (\<lambda>b. b\<lparr>m_readerIndex := sz_sub (m_readerIndex b) n\<rparr>))
              (bind (gets m_readerIndex) (\<lambda>r. write_at r (writeInteger n swap v))))"

definition peekInt8 :: "(Buffer, 8 word) cpp" where "peekInt8 = peek_integer ''peekInt8'' 1 (\<lambda>v. v)"
definition peekInt16 :: "(Buffer, 16 word) cpp" where "peekInt16 = peek_integer ''peekInt16'' 2 byteswap16"
definition peekInt32 :: "(Buffer, 32 word) cpp" where "peekInt32 = peek_integer ''peekInt32'' 4 byteswap32"
definition peekInt64 :: "(Buffer, 64 word) cpp" where "peekInt64 = peek_integer ''peekInt64'' 8 byteswap64"
definition peekUInt8 :: "(Buffer, 8 word) cpp" where "peekUInt8 = peek_integer ''peekUInt8'' 1 (\<lambda>v. v)"
definition peekUInt16 :: "(Buffer, 16 word) cpp" where "peekUInt16 = peek_integer ''peekUInt16'' 2 byteswap16"
definition peekUInt32 :: "(Buffer, 32 word) cpp" where "peekUInt32 = peek_integer ''peekUInt32'' 4 byteswap32"
definition peekUInt64 :: "(Buffer, 64 word) cpp" where "peekUInt64 = peek_integer ''peekUInt64'' 8 byteswap64"

definition readInt8 :: "(Buffer, 8 word) cpp" where "readInt8 = read_integer 1 peekInt8"
definition readInt16 :: "(Buffer, 16 word) cpp" where "readInt16 = read_integer 2 peekInt16"
definition readInt32 :: "(Buffer, 32 word) cpp" where "readInt32 = read_integer 4 peekInt32"
definition readInt64 :: "(Buffer, 64 word) cpp" where "readInt64 = read_integer 8 peekInt64"
definition readUInt8 :: "(Buffer, 8 word) cpp" where "readUInt8 = read_integer 1 peekUInt8"
definition readUInt16 :: "(Buffer, 16 word) cpp" where "readUInt16 = read_integer 2 peekUInt16"
definition readUInt32 :: "(Buffer, 32 word) cpp" where "readUInt32 = read_integer 4 peekUInt32"
definition readUInt64 :: "(Buffer, 64 word) cpp" where "readUInt64 = read_integer 8 peekUInt64"

definition appendInt8 :: "8 word \<Rightarrow> (Buffer, unit) cpp" where "appendInt8 v = append [v]"
definition appendInt16 :: "16 word \<Rightarrow> (Buffer, unit) cpp" where "appendInt16 = append_integer 2 byteswap16"
definition appendInt32 :: "32 word \<Rightarrow> (Buffer, unit) cpp" where "appendInt32 = append_integer 4 byteswap32"
definition appendInt64 :: "64 word \<Rightarrow> (Buffer, unit) cpp" where "appendInt64 = append_integer 8 byteswap64"
definition appendUInt8 :: "8 word \<Rightarrow> (Buffer, unit) cpp" where "appendUInt8 v = append [v]"
definition appendUInt16 :: "16 word \<Rightarrow> (Buffer, unit) cpp" where "appendUInt16 = append_integer 2 byteswap16"
definition appendUInt32 :: "32 word \<Rightarrow> (Buffer, unit) cpp" where "appendUInt32 = append_integer 4 byteswap32"
definition appendUInt64 :: "64 word \<Rightarrow> (Buffer, unit) cpp" where "appendUInt64 = append_integer 8 byteswap64"

definition prependInt8 :: "8 word \<Rightarrow> (Buffer, unit) cpp" where "prependInt8 v = prepend [v]"
definition prependInt16 :: "16 word \<Rightarrow> (Buffer, unit) cpp" where
  "prependInt16 = prepend_integer ''prependInt16'' 2 byteswap16"
definition prependInt32 :: "32 word \<Rightarrow> (Buffer, unit) cpp" where
  "prependInt32 = prepend_integer ''prependInt32'' 4 byteswap32"
definition prependInt64 :: "64 word \<Rightarrow> (Buffer, unit) cpp" where
  "prependInt64 = prepend_integer ''prependInt64'' 8 byteswap64"
definition prependUInt8 :: "8 word \<Rightarrow> (Buffer, unit) cpp" where "prependUInt8 v = prepend [v]"
definition prependUInt16 :: "16 word \<Rightarrow> (Buffer, unit) cpp" where
  "prependUInt16 = prepend_integer ''prependUInt16'' 2 byteswap16"
definition prependUInt32 :: "32 word \<Rightarrow> (Buffer, unit) cpp" where
  "prependUInt32 = prepend_integer ''prependUInt32'' 4 byteswap32"
definition prependUInt64 :: "64 word \<Rightarrow> (Buffer, unit) cpp" where
  "prependUInt64 = prepend_integer ''prependUInt64'' 8 byteswap64"

section \<open>Sockets\<close>

text \<open>
  The system calls are parameters: \<open>readv lens\<close> is what \<^verbatim>\<open>::readv\<close> gives for buffers of the given
  lengths, \<open>wr bytes\<close> what \<^verbatim>\<open>SocketOps::write\<close> gives for the bytes. Either transfers bytes or fails with an
  \<^verbatim>\<open>errno\<close>. \<^verbatim>\<open>EAGAIN\<close> and \<^verbatim>\<open>EWOULDBLOCK\<close> are both 11 on Linux.
\<close>

datatype sys_read = Sys_read "byte list" | Sys_read_err int
datatype sys_write = Sys_wrote nat | Sys_write_err int

definition EAGAIN :: int where "EAGAIN = 11"
definition EWOULDBLOCK :: int where "EWOULDBLOCK = 11"

definition isWouldBlockError :: "int \<Rightarrow> bool" where
  "isWouldBlockError err \<longleftrightarrow> err = EAGAIN \<or> err = EWOULDBLOCK"

definition io :: "nat \<Rightarrow> IoStatus \<Rightarrow> IoResult" where
  "io n st = \<lparr>io_bytes = n, io_status = st\<rparr>"

definition extrabuf_size :: nat where
  "extrabuf_size = 65536"

text \<open>
  \<^verbatim>\<open>readFdResult\<close>, Linux branch: the bytes fill the writable area first and the stack buffer
  \<^verbatim>\<open>extrabuf\<close> next, whose part is appended. A \<open>readv\<close> that reports more bytes than the buffers
  hold is outside of its contract (\<open>Undef\<close>).
\<close>

definition readFdResult :: "(int \<Rightarrow> string) \<Rightarrow> (nat list \<Rightarrow> sys_read) \<Rightarrow> (Buffer, IoResult Result) cpp" where
  "readFdResult strerror readv = bind (gets writableBytes) (\<lambda>writable.
     let iov = (if writable < extrabuf_size then [writable, extrabuf_size] else [writable])
     in case readv iov of
          Sys_read d \<Rightarrow>
            let n = length d in
            if n > sum_list iov then undef
            else if n > 0 then
              seq (if n \<le> writable
                   then bind (gets beginWrite) (\<lambda>w. seq (write_at w d) (hasWritten n))
                   else bind (gets beginWrite) (\<lambda>w. seq (write_at w (take writable d))
                          (seq (hasWritten writable) (append (drop writable d)))))
                  (ret (Value (io n Io_Ok)))
            else ret (Value (io 0 Io_EndOfFile))
        | Sys_read_err err \<Rightarrow>
            if isWouldBlockError err then ret (Value (io 0 Io_WouldBlock))
            else ret (makeSystemErrorResultT strerror ''Buffer::readFdResult failed'' err))"

definition writeFdResult :: "(int \<Rightarrow> string) \<Rightarrow> (byte list \<Rightarrow> sys_write) \<Rightarrow> (Buffer, IoResult Result) cpp" where
  "writeFdResult strerror wr = bind (gets readableBytes) (\<lambda>readable.
     if readable = 0 then ret (Value (io 0 Io_Empty))
     else bind (gets peek) (\<lambda>p. bind (read_bytes p readable) (\<lambda>d.
       case wr d of
         Sys_wrote n \<Rightarrow>
           if n > 0 then seq (retrieve n) (ret (Value (io n Io_Ok)))
           else ret (Value (io 0 Io_EndOfFile))
       | Sys_write_err err \<Rightarrow>
           if isWouldBlockError err then ret (Value (io 0 Io_WouldBlock))
           else ret (makeSystemErrorResultT strerror ''Buffer::writeFdResult failed'' err))))"

definition io_count :: "IoResult Result \<Rightarrow> nat" where
  "io_count r = (case r of Fail _ \<Rightarrow> 0 | Value v \<Rightarrow> if io_status v = Io_Ok then io_bytes v else 0)"

definition readFd :: "(int \<Rightarrow> string) \<Rightarrow> (nat list \<Rightarrow> sys_read) \<Rightarrow> (Buffer, nat) cpp" where
  "readFd strerror readv = bind (readFdResult strerror readv) (\<lambda>r. ret (io_count r))"

definition writeFd :: "(int \<Rightarrow> string) \<Rightarrow> (byte list \<Rightarrow> sys_write) \<Rightarrow> (Buffer, nat) cpp" where
  "writeFd strerror wr = bind (writeFdResult strerror wr) (\<lambda>r. ret (io_count r))"

section \<open>Whole-buffer operations\<close>

definition swap_buffers :: "Buffer \<times> Buffer \<Rightarrow> Buffer \<times> Buffer" where
  "swap_buffers p = (snd p, fst p)"

definition shrink :: "nat \<Rightarrow> (Buffer, unit) cpp" where
  "shrink reserve = bind (gets readableBytes) (\<lambda>n.
     bind (lift (mk_Buffer (sz_add n reserve))) (\<lambda>other.
     bind (gets peek) (\<lambda>p. bind (read_bytes p n) (\<lambda>d.
     case append d other of
       (Ret _, other') \<Rightarrow> modify (\<lambda>b. fst (swap_buffers (b, other')))
     | (Throw e, _) \<Rightarrow> throw e
     | (Undef, _) \<Rightarrow> undef))))"

definition clear :: "(Buffer, unit) cpp" where
  "clear = retrieveAll"

section \<open>Invariant and abstraction\<close>

definition buffer_inv :: "Buffer \<Rightarrow> bool" where
  "buffer_inv b \<longleftrightarrow>
     m_readerIndex b \<le> m_writerIndex b \<and> m_writerIndex b \<le> length (m_buffer b) \<and>
     kCheapPrepend \<le> length (m_buffer b) \<and> length (m_buffer b) \<le> vec_max_size"

text \<open>The prepend area is intact: no \<^verbatim>\<open>prepend\<close> has used it.\<close>

definition headroom :: "Buffer \<Rightarrow> bool" where
  "headroom b \<longleftrightarrow> kCheapPrepend \<le> m_readerIndex b"

definition content :: "Buffer \<Rightarrow> byte list" where
  "content b = take (m_writerIndex b - m_readerIndex b) (drop (m_readerIndex b) (m_buffer b))"

text \<open>
  \<open>n\<close> more bytes may be appended: the readable bytes with them stay below \<open>2 ^ 61\<close>, the vector below
  \<open>2 ^ 62\<close>, so that doubling the vector never asks for more than \<^verbatim>\<open>max_size()\<close>.
\<close>

definition room :: "nat \<Rightarrow> Buffer \<Rightarrow> bool" where
  "room n b \<longleftrightarrow> length (m_buffer b) \<le> 2 ^ 62 \<and> kCheapPrepend + length (content b) + n \<le> 2 ^ 61"

lemmas buffer_defs = buffer_inv_def headroom_def content_def room_def kCheapPrepend_def
  vec_max_size_def size_t_mod_def

lemma buffer_sizes:
  assumes "buffer_inv b"
  shows "readableBytes b = m_writerIndex b - m_readerIndex b"
    and "writableBytes b = length (m_buffer b) - m_writerIndex b"
    and "length (content b) = m_writerIndex b - m_readerIndex b"
    and "readableBytes b = length (content b)"
    and "m_readerIndex b + length (content b) + writableBytes b = length (m_buffer b)"
proof -
  show r: "readableBytes b = m_writerIndex b - m_readerIndex b"
    using assms by (simp add: readableBytes_def buffer_defs sz_simps)
  show w: "writableBytes b = length (m_buffer b) - m_writerIndex b"
    using assms by (simp add: writableBytes_def buffer_defs sz_simps)
  show c: "length (content b) = m_writerIndex b - m_readerIndex b"
    using assms by (auto simp: buffer_defs min_def)
  show "readableBytes b = length (content b)" using r c by simp
  show "m_readerIndex b + length (content b) + writableBytes b = length (m_buffer b)"
    using assms w c by (simp add: buffer_inv_def)
qed

lemma read_content:
  assumes "buffer_inv b" "n \<le> length (content b)"
  shows "mem_read (m_buffer b) (m_readerIndex b) n = Ret (take n (content b))"
proof -
  have n: "n \<le> m_writerIndex b - m_readerIndex b"
    using assms(2) by (simp add: buffer_sizes(3) [OF assms(1)])
  then have "m_readerIndex b + n \<le> length (m_buffer b)"
    using assms(1) unfolding buffer_inv_def by linarith
  with n show ?thesis by (simp add: mem_read_def content_def slice_prefix)
qed

lemma readableView_content: "buffer_inv b \<Longrightarrow> readableView b = Ret (content b)"
  by (simp add: readableView_def peek_def read_content buffer_sizes(4))

lemma mk_Buffer_ok:
  assumes "n \<le> 2 ^ 61"
  shows "\<exists>b. mk_Buffer n = Ret b \<and> buffer_inv b \<and> headroom b \<and> content b = [] \<and>
             length (m_buffer b) = kCheapPrepend + n"
  using assms by (simp add: mk_Buffer_def vector_make_def buffer_defs sz_simps)

subsection \<open>Taking bytes\<close>

lemma retrieve_ok:
  assumes "buffer_inv b"
  shows "\<exists>b'. retrieve n b = (Ret (), b') \<and> buffer_inv b' \<and> content b' = drop n (content b) \<and>
              (headroom b \<longrightarrow> headroom b') \<and> m_buffer b' = m_buffer b"
proof (cases "n < length (content b)")
  case True
  let ?b = "b\<lparr>m_readerIndex := m_readerIndex b + n\<rparr>"
  have "m_readerIndex b + n < size_t_mod"
    using True assms
    unfolding buffer_sizes(3) [OF assms] buffer_inv_def vec_max_size_def size_t_mod_def by auto
  with True have "retrieve n b = (Ret (), ?b)"
    by (simp add: retrieve_def cpp_simps buffer_sizes(4) [OF assms] sz_add_nowrap)
  moreover have "content ?b = drop n (content b)"
    by (simp add: content_def slice_suffix)
  moreover have "buffer_inv ?b"
    using assms True unfolding buffer_sizes(3) [OF assms] by (simp add: buffer_inv_def)
  ultimately show ?thesis by (auto simp: headroom_def)
next
  case False
  then show ?thesis using assms
    by (simp add: retrieve_def retrieveAll_def cpp_simps buffer_sizes [OF assms])
       (simp add: buffer_defs)
qed

lemma retrieveAsString_ok:
  assumes "buffer_inv b" "n \<le> length (content b)"
  shows "\<exists>b'. retrieveAsString n b = (Ret (take n (content b)), b') \<and> buffer_inv b' \<and>
              content b' = drop n (content b) \<and> (headroom b \<longrightarrow> headroom b') \<and> m_buffer b' = m_buffer b"
proof -
  obtain b' where b': "retrieve n b = (Ret (), b')" "buffer_inv b'"
    "content b' = drop n (content b)" "headroom b \<longrightarrow> headroom b'" "m_buffer b' = m_buffer b"
    using retrieve_ok [OF assms(1)] by blast
  then show ?thesis using assms
    by (simp add: retrieveAsString_def read_bytes_def peek_def cpp_simps buffer_sizes(4) read_content)
qed

lemma retrieveAsString_throws:
  assumes "buffer_inv b" "length (content b) < n"
  shows "retrieveAsString n b =
           (Throw (Out_of_range ''Buffer::retrieveAsString len out of range''), b)"
  using assms by (simp add: retrieveAsString_def cpp_simps buffer_sizes(4))

subsection \<open>Making space\<close>

lemma write_at_ok:
  assumes "off + length ys \<le> length (m_buffer b)"
  shows "write_at off ys b =
           (Ret (), b\<lparr>m_buffer := take off (m_buffer b) @ ys @ drop (off + length ys) (m_buffer b)\<rparr>)"
  using assms by (simp add: write_at_def mem_write_def cpp_simps)

lemma write_at_undef:
  "length (m_buffer b) < off + length ys \<Longrightarrow> write_at off ys b = (Undef, b)"
  by (simp add: write_at_def mem_write_def cpp_simps)

definition at_front :: "byte list \<Rightarrow> byte list \<Rightarrow> Buffer" where
  "at_front v d = \<lparr>m_buffer = v, m_readerIndex = kCheapPrepend, m_writerIndex = kCheapPrepend + length d\<rparr>"

lemma at_front_ok:
  assumes "kCheapPrepend + length d + n \<le> length v" "length v \<le> vec_max_size"
    and "take (length d) (drop kCheapPrepend v) = d"
  shows "buffer_inv (at_front v d) \<and> content (at_front v d) = d \<and> headroom (at_front v d) \<and>
         n \<le> writableBytes (at_front v d)"
proof -
  have i: "buffer_inv (at_front v d)" using assms by (simp add: at_front_def buffer_defs)
  then show ?thesis using assms
    by (simp add: buffer_sizes(2) [OF i]) (simp add: at_front_def content_def headroom_def)
qed

lemma makeSpace_slide_ok:
  assumes "buffer_inv b" "kCheapPrepend + length (content b) \<le> length (m_buffer b)"
  shows "\<exists>v. length v = length (m_buffer b) \<and> take (length (content b)) (drop kCheapPrepend v) = content b \<and>
             makeSpace_slide (length (content b)) b = (Ret (), at_front v (content b))"
proof -
  let ?v = "take kCheapPrepend (m_buffer b) @ content b @
            drop (kCheapPrepend + length (content b)) (m_buffer b)"
  have "kCheapPrepend + length (content b) < size_t_mod"
    using assms by (simp add: buffer_defs)
  then have "makeSpace_slide (length (content b)) b = (Ret (), at_front ?v (content b))"
    using assms by (simp add: makeSpace_slide_def read_bytes_def peek_def cpp_simps
        read_content write_at_ok at_front_def sz_add_nowrap)
  moreover have "length ?v = length (m_buffer b)" using assms(2) by simp
  moreover have "take (length (content b)) (drop kCheapPrepend ?v) = content b"
    using assms(2) by simp
  ultimately show ?thesis by blast
qed

lemma makeSpace_slide_undef:
  assumes "buffer_inv b" "length (m_buffer b) < kCheapPrepend + length (content b)"
  shows "fst (makeSpace_slide (length (content b)) b) = Undef"
  using assms by (simp add: makeSpace_slide_def read_bytes_def peek_def cpp_simps
      read_content write_at_undef)

lemma makeSpace_grow_ok:
  assumes "buffer_inv b" "room n b"
    and "length (m_buffer b) < kCheapPrepend + length (content b) + n"
  shows "\<exists>v. kCheapPrepend + length (content b) + n \<le> length v \<and> length v \<le> 2 ^ 62 \<and>
             take (length (content b)) (drop kCheapPrepend v) = content b \<and>
             makeSpace_grow (length (content b)) n b = (Ret (), at_front v (content b))"
proof -
  let ?N = "max (2 * length (m_buffer b)) (kCheapPrepend + length (content b) + n)"
  let ?v = "take kCheapPrepend (replicate ?N 0) @ content b @
            drop (kCheapPrepend + length (content b)) (replicate ?N (0 :: byte))"
  have bounds: "kCheapPrepend + length (content b) + n \<le> 2 ^ 61" "2 * length (m_buffer b) \<le> 2 ^ 62"
    using assms by (simp_all add: room_def)
  have "makeSpace_grow (length (content b)) n b = (Ret (), at_front ?v (content b))"
    using assms bounds
    by (simp add: makeSpace_grow_def read_bytes_def peek_def cpp_simps read_content vector_make_def
        mem_write_def at_front_def sz_simps size_t_mod_def vec_max_size_def mult.commute max_def)
  moreover have "length ?v = ?N" by simp
  moreover have "take (length (content b)) (drop kCheapPrepend ?v) = content b" by simp
  moreover have "?N \<le> 2 ^ 62" using bounds by simp
  ultimately show ?thesis by (metis max.cobounded2)
qed

text \<open>
  \<open>makeSpace\<close> is only called with too little writable space. It is defined exactly when the prepend
  area and the writable area together have the \<^verbatim>\<open>kCheapPrepend\<close> bytes that sliding reserves: with
  fewer, the subtraction in its second test wraps around and the slide runs past the vector.
\<close>

definition slack :: "Buffer \<Rightarrow> bool" where
  "slack b \<longleftrightarrow> kCheapPrepend \<le> m_readerIndex b + writableBytes b"

lemma slack_sum:
  assumes "buffer_inv b"
  shows "sz_add (writableBytes b) (prependableBytes b) = writableBytes b + m_readerIndex b"
  using assms buffer_sizes(5) [OF assms]
  by (simp add: prependableBytes_def sz_simps buffer_inv_def vec_max_size_def size_t_mod_def)

lemma makeSpace_cases:
  assumes "buffer_inv b" "content b \<noteq> []"
  shows "makeSpace n b =
    (if n \<le> sz_sub (writableBytes b + m_readerIndex b) kCheapPrepend
     then makeSpace_slide (length (content b)) b else makeSpace_grow (length (content b)) n b)"
  using assms by (simp add: makeSpace_def cpp_simps buffer_sizes(4) slack_sum)

lemma makeSpace_empty:
  assumes "buffer_inv b" "content b = []" "room n b"
  shows "\<exists>b'. makeSpace n b = (Ret (), b') \<and> buffer_inv b' \<and> content b' = [] \<and> headroom b' \<and>
              n \<le> writableBytes b' \<and> length (m_buffer b') \<le> 2 ^ 62"
proof -
  let ?b = "b\<lparr>m_readerIndex := kCheapPrepend, m_writerIndex := kCheapPrepend\<rparr>"
  have i: "buffer_inv ?b" using assms(1) by (simp add: buffer_inv_def)
  have c: "content ?b = []" "headroom ?b" by (simp_all add: content_def headroom_def)
  have r: "room n ?b" using assms(2,3) by (simp add: room_def c)
  have w: "writableBytes ?b = length (m_buffer b) - kCheapPrepend"
    using buffer_sizes(2) [OF i] by simp
  show ?thesis
  proof (cases "n \<le> writableBytes ?b")
    case True
    then have "makeSpace n b = (Ret (), ?b)"
      using assms by (simp add: makeSpace_def cpp_simps buffer_sizes(4))
    then show ?thesis using i c True assms(3) by (simp add: room_def)
  next
    case False
    have "sz_sub (sz_add (writableBytes ?b) (prependableBytes ?b)) kCheapPrepend = writableBytes ?b"
      using i w unfolding slack_sum [OF i]
      by (simp add: sz_simps buffer_inv_def vec_max_size_def size_t_mod_def)
    with False have e: "makeSpace n b = makeSpace_grow (length (content ?b)) n ?b"
      using assms by (simp add: makeSpace_def cpp_simps buffer_sizes(4) c)
    have "length (m_buffer ?b) < kCheapPrepend + length (content ?b) + n"
      using False w by (simp add: c)
    from makeSpace_grow_ok [OF i r this] obtain v where v:
      "kCheapPrepend + n \<le> length v" "length v \<le> 2 ^ 62"
      "makeSpace_grow (length (content ?b)) n ?b = (Ret (), at_front v [])" by (auto simp: c)
    have "length v \<le> vec_max_size" using v(2) by (simp add: vec_max_size_def)
    with at_front_ok [of "[]" n v] v e show ?thesis by (simp add: at_front_def)
  qed
qed

lemma makeSpace_ok:
  assumes "buffer_inv b" "room n b" "slack b" "writableBytes b < n"
  shows "\<exists>b'. makeSpace n b = (Ret (), b') \<and> buffer_inv b' \<and> content b' = content b \<and> headroom b' \<and>
              n \<le> writableBytes b' \<and> length (m_buffer b') \<le> 2 ^ 62"
proof (cases "content b = []")
  case True
  then show ?thesis using makeSpace_empty assms by simp
next
  case False
  let ?c = "content b"
  have total: "m_readerIndex b + length ?c + writableBytes b = length (m_buffer b)"
    by (rule buffer_sizes(5) [OF assms(1)])
  have sub: "sz_sub (writableBytes b + m_readerIndex b) kCheapPrepend
             = writableBytes b + m_readerIndex b - kCheapPrepend"
    using assms(1,3) total
    by (simp add: sz_simps slack_def buffer_inv_def vec_max_size_def size_t_mod_def)
  have fin: "\<exists>b'. makeSpace n b = (Ret (), b') \<and> buffer_inv b' \<and> content b' = ?c \<and> headroom b' \<and>
              n \<le> writableBytes b' \<and> length (m_buffer b') \<le> 2 ^ 62"
    if "makeSpace n b = (Ret (), at_front v ?c)" "kCheapPrepend + length ?c + n \<le> length v"
       "length v \<le> 2 ^ 62" "take (length ?c) (drop kCheapPrepend v) = ?c" for v
  proof -
    have "length v \<le> vec_max_size" using that(3) by (simp add: vec_max_size_def)
    with at_front_ok [OF that(2) this that(4)] that(1,3) show ?thesis by (simp add: at_front_def)
  qed
  show ?thesis
  proof (cases "n \<le> writableBytes b + m_readerIndex b - kCheapPrepend")
    case True
    have "kCheapPrepend + length ?c + n \<le> length (m_buffer b)"
      using True assms(3) total unfolding slack_def by linarith
    moreover from this obtain v where "length v = length (m_buffer b)"
      "take (length ?c) (drop kCheapPrepend v) = ?c"
      "makeSpace_slide (length ?c) b = (Ret (), at_front v ?c)"
      using makeSpace_slide_ok [OF assms(1)] by auto
    ultimately show ?thesis using True sub makeSpace_cases [OF assms(1) False] assms(2) fin
      by (simp add: room_def)
  next
    case g: False
    then have "length (m_buffer b) < kCheapPrepend + length ?c + n"
      using assms(3) total unfolding slack_def by linarith
    from makeSpace_grow_ok [OF assms(1,2) this] show ?thesis
      using g sub makeSpace_cases [OF assms(1) False] fin by auto
  qed
qed

lemma makeSpace_undef:
  assumes "buffer_inv b" "room n b" "\<not> slack b"
  shows "fst (makeSpace n b) = Undef"
proof -
  have total: "m_readerIndex b + length (content b) + writableBytes b = length (m_buffer b)"
    by (rule buffer_sizes(5) [OF assms(1)])
  have small: "writableBytes b + m_readerIndex b < kCheapPrepend"
    using assms(3) by (simp add: slack_def)
  have ne: "content b \<noteq> []" using total small assms(1) by (auto simp: buffer_inv_def)
  have "n \<le> sz_sub (writableBytes b + m_readerIndex b) kCheapPrepend"
    using small assms(2) by (simp add: sz_simps size_t_mod_def room_def kCheapPrepend_def)
  moreover have "length (m_buffer b) < kCheapPrepend + length (content b)"
    using total small by linarith
  ultimately show ?thesis
    using makeSpace_cases [OF assms(1) ne] makeSpace_slide_undef [OF assms(1)] by simp
qed

subsection \<open>Appending\<close>

lemma ensureWritableBytes_ok:
  assumes "buffer_inv b" "room n b" "slack b \<or> n \<le> writableBytes b"
  shows "\<exists>b'. ensureWritableBytes n b = (Ret (), b') \<and> buffer_inv b' \<and> content b' = content b \<and>
              (headroom b \<longrightarrow> headroom b') \<and> n \<le> writableBytes b' \<and> length (m_buffer b') \<le> 2 ^ 62 \<and>
              (n \<le> writableBytes b \<longrightarrow> b' = b)"
proof (cases "n \<le> writableBytes b")
  case True
  then show ?thesis using assms by (simp add: ensureWritableBytes_def cpp_simps room_def)
next
  case False
  with assms makeSpace_ok [of b n] obtain b' where "makeSpace n b = (Ret (), b')" "buffer_inv b'"
    "content b' = content b" "headroom b'" "n \<le> writableBytes b'" "length (m_buffer b') \<le> 2 ^ 62"
    by auto
  then show ?thesis using False by (simp add: ensureWritableBytes_def cpp_simps)
qed

lemma write_hasWritten_ok:
  assumes "buffer_inv b" "length d \<le> writableBytes b"
  shows "\<exists>b'. seq (write_at (m_writerIndex b) d) (hasWritten (length d)) b = (Ret (), b') \<and>
              buffer_inv b' \<and> content b' = content b @ d \<and> length (m_buffer b') = length (m_buffer b) \<and>
              m_readerIndex b' = m_readerIndex b"
proof -
  let ?w = "m_writerIndex b" and ?r = "m_readerIndex b"
  let ?v = "take ?w (m_buffer b) @ d @ drop (?w + length d) (m_buffer b)"
  let ?b = "b\<lparr>m_buffer := ?v, m_writerIndex := ?w + length d\<rparr>"
  have fits: "?w + length d \<le> length (m_buffer b)" and le: "?r \<le> ?w"
    using assms unfolding buffer_sizes(2) [OF assms(1)] buffer_inv_def by auto
  have len: "length ?v = length (m_buffer b)" using fits by simp
  have i: "buffer_inv ?b" and i': "buffer_inv (b\<lparr>m_buffer := ?v\<rparr>)"
    using assms(1) fits by (auto simp: buffer_inv_def)
  have "sz_add ?w (length d) = ?w + length d"
    using fits assms(1) by (simp add: sz_simps buffer_inv_def vec_max_size_def size_t_mod_def)
  moreover have "length d \<le> writableBytes (b\<lparr>m_buffer := ?v\<rparr>)"
    using fits buffer_sizes(2) [OF i'] by simp
  ultimately have "seq (write_at ?w d) (hasWritten (length d)) b = (Ret (), ?b)"
    using fits by (simp add: cpp_simps write_at_ok hasWritten_def)
  moreover have "content ?b = content b @ d"
    using slice_append [OF le fits] by (simp add: content_def)
  ultimately show ?thesis using i len by auto
qed

lemma append_ok:
  assumes "buffer_inv b" "room (length d) b" "slack b \<or> length d \<le> writableBytes b"
  shows "\<exists>b'. append d b = (Ret (), b') \<and> buffer_inv b' \<and> content b' = content b @ d \<and>
              (headroom b \<longrightarrow> headroom b') \<and> length (m_buffer b') \<le> 2 ^ 62"
proof (cases "d = []")
  case True
  then show ?thesis using assms by (simp add: append_def cpp_simps room_def)
next
  case False
  from ensureWritableBytes_ok [OF assms] obtain b1 where b1:
    "ensureWritableBytes (length d) b = (Ret (), b1)" "buffer_inv b1" "content b1 = content b"
    "headroom b \<longrightarrow> headroom b1" "length d \<le> writableBytes b1" "length (m_buffer b1) \<le> 2 ^ 62" by auto
  from write_hasWritten_ok [OF b1(2,5)] obtain b2 where
    "seq (write_at (m_writerIndex b1) d) (hasWritten (length d)) b1 = (Ret (), b2)"
    "buffer_inv b2" "content b2 = content b1 @ d" "length (m_buffer b2) = length (m_buffer b1)"
    "m_readerIndex b2 = m_readerIndex b1" by auto
  then show ?thesis using False b1 by (simp add: append_def cpp_simps beginWrite_def headroom_def)
qed

lemma headroom_slack: "headroom b \<Longrightarrow> slack b"
  by (simp add: headroom_def slack_def)

lemma append_undef:
  assumes "buffer_inv b" "room (length d) b" "\<not> slack b" "writableBytes b < length d"
  shows "fst (append d b) = Undef"
proof -
  obtain b' where "makeSpace (length d) b = (Undef, b')"
    using makeSpace_undef [OF assms(1-3)] by (metis prod.collapse)
  with assms(4) show ?thesis
    by (auto simp: append_def ensureWritableBytes_def cpp_simps)
qed

subsection \<open>The buffer is a byte stream\<close>

definition stream_inv :: "Buffer \<Rightarrow> bool" where
  "stream_inv b \<longleftrightarrow> buffer_inv b \<and> headroom b"

lemma append_stream:
  assumes "stream_inv b" "room (length d) b"
  shows "\<exists>b'. append d b = (Ret (), b') \<and> stream_inv b' \<and> content b' = content b @ d \<and>
              length (m_buffer b') \<le> 2 ^ 62"
  using assms append_ok headroom_slack unfolding stream_inv_def by metis

lemma retrieve_stream:
  assumes "stream_inv b"
  shows "\<exists>b'. retrieve n b = (Ret (), b') \<and> stream_inv b' \<and> content b' = drop n (content b) \<and>
              m_buffer b' = m_buffer b"
  using assms retrieve_ok unfolding stream_inv_def by metis

interpretation nb: byte_stream content stream_inv room "\<lambda>d b. snd (append d b)" "\<lambda>n b. snd (retrieve n b)"
proof unfold_locales
  fix b :: Buffer and d and n m :: nat
  show "stream_inv b \<Longrightarrow> room (length d) b \<Longrightarrow> content (snd (append d b)) = content b @ d"
    using append_stream by force
  show "stream_inv b \<Longrightarrow> room (length d) b \<Longrightarrow> stream_inv (snd (append d b))"
    using append_stream by force
  show "stream_inv b \<Longrightarrow> content (snd (retrieve n b)) = drop n (content b)"
    using retrieve_stream [of b n] by force
  show "stream_inv b \<Longrightarrow> stream_inv (snd (retrieve n b))"
    using retrieve_stream [of b n] by force
  show "stream_inv b \<Longrightarrow> room m b \<Longrightarrow> room m (snd (retrieve n b))"
    using retrieve_stream [of b n] by (force simp: room_def)
  show "room m b \<Longrightarrow> n \<le> m \<Longrightarrow> room n b"
    by (simp add: room_def)
  assume a: "stream_inv b" "room (length d + n) b"
  then have "room (length d) b" by (simp add: room_def)
  from append_stream [OF a(1) this] a(2) show "room n (snd (append d b))"
    by (auto simp: room_def)
qed

subsection \<open>Prepending\<close>

lemma prepend_write_ok:
  assumes "buffer_inv b" "length d \<le> m_readerIndex b"
  shows "\<exists>b'. write_at (m_readerIndex b - length d) d (b\<lparr>m_readerIndex := m_readerIndex b - length d\<rparr>)
                = (Ret (), b') \<and> buffer_inv b' \<and> content b' = d @ content b \<and>
              m_readerIndex b' = m_readerIndex b - length d \<and> writableBytes b' = writableBytes b"
proof -
  let ?r = "m_readerIndex b - length d"
  let ?v = "take ?r (m_buffer b) @ d @ drop (m_readerIndex b) (m_buffer b)"
  let ?b = "b\<lparr>m_buffer := ?v, m_readerIndex := ?r\<rparr>"
  have fits: "?r + length d \<le> length (m_buffer b)" and e: "?r + length d = m_readerIndex b"
    using assms by (auto simp: buffer_inv_def)
  have "write_at ?r d (b\<lparr>m_readerIndex := ?r\<rparr>) = (Ret (), ?b)"
    using fits by (simp add: write_at_ok e)
  moreover have i: "buffer_inv ?b" using assms by (auto simp: buffer_inv_def)
  moreover have "content ?b = d @ content b"
    using assms by (auto simp: content_def buffer_inv_def)
  moreover have "writableBytes ?b = writableBytes b"
    using assms unfolding buffer_sizes(2) [OF i] buffer_sizes(2) [OF assms(1)] buffer_inv_def
    by (auto simp: min_def)
  ultimately show ?thesis by auto
qed

lemma prepend_ok:
  assumes "buffer_inv b" "length d \<le> prependableBytes b"
  shows "\<exists>b'. prepend d b = (Ret (), b') \<and> buffer_inv b' \<and> content b' = d @ content b \<and>
              prependableBytes b' = prependableBytes b - length d \<and> writableBytes b' = writableBytes b"
proof (cases "d = []")
  case True
  then show ?thesis using assms by (simp add: prepend_def cpp_simps)
next
  case False
  have "sz_sub (m_readerIndex b) (length d) = m_readerIndex b - length d"
    using assms by (simp add: sz_simps prependableBytes_def buffer_inv_def vec_max_size_def size_t_mod_def)
  with prepend_write_ok [of b d] assms False show ?thesis
    by (auto simp: prepend_def prependableBytes_def cpp_simps)
qed

lemma prepend_throws:
  assumes "prependableBytes b < length d"
  shows "prepend d b = (Throw (Out_of_range ''Buffer::prepend not enough prependable bytes''), b)"
proof -
  have "d \<noteq> []" using assms by auto
  then show ?thesis using assms by (simp add: prepend_def cpp_simps)
qed

subsection \<open>Integers\<close>

lemma append_integer_append:
  "n > 0 \<Longrightarrow> append_integer n swap v = append (writeInteger n swap v)"
  by (simp add: append_integer_def append_def)

lemma prepend_integer_ok:
  assumes "buffer_inv b" "n \<le> prependableBytes b"
  shows "\<exists>b'. prepend_integer name n swap v b = (Ret (), b') \<and> buffer_inv b' \<and>
              content b' = writeInteger n swap v @ content b"
proof -
  have "sz_sub (m_readerIndex b) n = m_readerIndex b - n"
    using assms by (simp add: sz_simps prependableBytes_def buffer_inv_def vec_max_size_def size_t_mod_def)
  with prepend_write_ok [of b "writeInteger n swap v"] assms show ?thesis
    by (auto simp: prepend_integer_def prependableBytes_def cpp_simps)
qed

lemma peek_integer_ok:
  assumes "buffer_inv b" "n \<le> length (content b)"
  shows "peek_integer name n swap b = (Ret (readInteger swap (take n (content b))), b)"
  using assms by (simp add: peek_integer_def read_bytes_def peek_def cpp_simps read_content buffer_sizes(4))

lemma peek_integer_throws:
  assumes "buffer_inv b" "length (content b) < n"
  shows "peek_integer name n swap b =
     (Throw (Out_of_range (''Buffer::'' @ name @ '' not enough readable bytes'')), b)"
  using assms by (simp add: peek_integer_def cpp_simps buffer_sizes(4))

lemma read_integer_ok:
  assumes "buffer_inv b" "n \<le> length (content b)"
  shows "\<exists>b'. read_integer n (peek_integer name n swap) b = (Ret (readInteger swap (take n (content b))), b') \<and>
              buffer_inv b' \<and> content b' = drop n (content b)"
  using retrieve_ok [OF assms(1), of n]
  by (auto simp: read_integer_def cpp_simps peek_integer_ok [OF assms])

context wire_integer
begin

lemma n_pos: "n > 0"
  using width by (cases n) simp_all

lemma append_integer_be:
  assumes "stream_inv b" "room n b"
  shows "\<exists>b'. append_integer n swap v b = (Ret (), b') \<and> stream_inv b' \<and> content b' = content b @ be_bytes n v \<and>
              length (m_buffer b') \<le> 2 ^ 62"
  using append_stream [OF assms(1), of "be_bytes n v"] assms(2)
  by (simp add: append_integer_append n_pos write_be)

lemma read_back:
  assumes "buffer_inv b" "content b = be_bytes n v @ rest"
  shows "\<exists>b'. read_integer n (peek_integer name n swap) b = (Ret v, b') \<and> buffer_inv b' \<and> content b' = rest"
  using read_integer_ok [OF assms(1), of n name swap] assms(2) by (simp add: read_be)

lemma peek_back:
  assumes "buffer_inv b" "content b = be_bytes n v @ rest"
  shows "peek_integer name n swap b = (Ret v, b)"
  using peek_integer_ok [OF assms(1), of n name swap] assms(2) by (simp add: read_be)

lemma prepend_read_back:
  assumes "buffer_inv b" "n \<le> prependableBytes b"
  shows "\<exists>b'. prepend_integer pname n swap v b = (Ret (), b') \<and> buffer_inv b' \<and>
              content b' = be_bytes n v @ content b"
  using prepend_integer_ok [OF assms, of pname swap v] by (simp add: write_be)

end

subsection \<open>Sockets\<close>

lemma readFdResult_data:
  assumes "stream_inv b" "room (length d) b" "d \<noteq> []"
    and "readv (if writableBytes b < extrabuf_size then [writableBytes b, extrabuf_size] else [writableBytes b])
           = Sys_read d"
    and "length d \<le> (if writableBytes b < extrabuf_size then writableBytes b + extrabuf_size else writableBytes b)"
  shows "\<exists>b'. readFdResult strerror readv b = (Ret (Value (io (length d) Io_Ok)), b') \<and>
              stream_inv b' \<and> content b' = content b @ d \<and> length (m_buffer b') \<le> 2 ^ 62"
proof (cases "length d \<le> writableBytes b")
  case True
  have i: "buffer_inv b" using assms(1) by (simp add: stream_inv_def)
  from write_hasWritten_ok [OF i True] obtain b' where b':
    "seq (write_at (m_writerIndex b) d) (hasWritten (length d)) b = (Ret (), b')"
    "buffer_inv b'" "content b' = content b @ d" "m_readerIndex b' = m_readerIndex b"
    "length (m_buffer b') = length (m_buffer b)" by auto
  then have "stream_inv b'" using assms(1) by (simp add: stream_inv_def headroom_def)
  moreover have "length (m_buffer b') \<le> 2 ^ 62" using assms(2) b'(5) by (simp add: room_def)
  ultimately show ?thesis using True assms(3,4,5) b'
    by (auto simp: readFdResult_def cpp_simps Let_def beginWrite_def)
next
  case False
  have i: "buffer_inv b" using assms(1) by (simp add: stream_inv_def)
  let ?w = "writableBytes b"
  have l: "length (take ?w d) = ?w" using False by simp
  from write_hasWritten_ok [OF i, of "take ?w d", unfolded l] obtain b1 where b1:
    "seq (write_at (m_writerIndex b) (take ?w d)) (hasWritten ?w) b = (Ret (), b1)"
    "buffer_inv b1" "content b1 = content b @ take ?w d" "m_readerIndex b1 = m_readerIndex b"
    "length (m_buffer b1) = length (m_buffer b)" by blast
  have s: "stream_inv b1" using assms(1) b1 by (simp add: stream_inv_def headroom_def)
  have "room (length (drop ?w d)) b1" using assms(2) b1(3,5) False by (simp add: room_def)
  from append_stream [OF s this] obtain b2 where b2:
    "append (drop ?w d) b1 = (Ret (), b2)" "stream_inv b2" "content b2 = content b1 @ drop ?w d"
    "length (m_buffer b2) \<le> 2 ^ 62" by auto
  then show ?thesis using False assms(3,4,5) b1
    by (auto simp: readFdResult_def cpp_simps Let_def beginWrite_def
        split: prod.splits outcome.splits if_splits)
qed

lemma writeFdResult_data:
  assumes "stream_inv b" "content b \<noteq> []" "wr (content b) = Sys_wrote n" "n > 0"
  shows "\<exists>b'. writeFdResult strerror wr b = (Ret (Value (io n Io_Ok)), b') \<and>
              stream_inv b' \<and> content b' = drop n (content b) \<and> m_buffer b' = m_buffer b"
proof -
  have i: "buffer_inv b" using assms(1) by (simp add: stream_inv_def)
  from retrieve_stream [OF assms(1), of n] i assms(2-4) show ?thesis
    by (auto simp: writeFdResult_def cpp_simps read_bytes_def peek_def read_content buffer_sizes(4))
qed

lemma shrink_ok:
  assumes "buffer_inv b" "kCheapPrepend + length (content b) + reserve \<le> 2 ^ 61"
  shows "\<exists>b'. shrink reserve b = (Ret (), b') \<and> stream_inv b' \<and> content b' = content b \<and>
              capacity b' = kCheapPrepend + length (content b) + reserve"
proof -
  let ?n = "length (content b) + reserve"
  have n: "sz_add (length (content b)) reserve = ?n"
    using assms(2) by (simp add: sz_simps size_t_mod_def)
  obtain o1 where o1: "mk_Buffer ?n = Ret o1" "buffer_inv o1" "headroom o1" "content o1 = []"
    "length (m_buffer o1) = kCheapPrepend + ?n" using mk_Buffer_ok [of ?n] assms(2) by auto
  have w: "writableBytes o1 = ?n"
    using o1 by (auto simp: mk_Buffer_def vector_make_def buffer_sizes(2) obind_Ret_iff split: if_splits)
  have e: "length (content b) \<le> writableBytes o1" using w by simp
  from write_hasWritten_ok [OF o1(2) e] obtain o2 where o2:
    "seq (write_at (m_writerIndex o1) (content b)) (hasWritten (length (content b))) o1 = (Ret (), o2)"
    "buffer_inv o2" "content o2 = content b" "length (m_buffer o2) = length (m_buffer o1)"
    "m_readerIndex o2 = m_readerIndex o1" by (auto simp: o1(4))
  show ?thesis
  proof (cases "content b = []")
    case True
    then show ?thesis using o1 n assms(1)
      by (simp add: shrink_def cpp_simps buffer_sizes(4) read_bytes_def peek_def read_content append_def
          swap_buffers_def stream_inv_def capacity_def)
  next
    case False
    then have "append (content b) o1 = (Ret (), o2)"
      using o2(1) e by (simp add: append_def ensureWritableBytes_def cpp_simps beginWrite_def)
    then show ?thesis using o1 o2 n assms(1)
      by (simp add: shrink_def cpp_simps buffer_sizes(4) read_bytes_def peek_def read_content
          swap_buffers_def stream_inv_def capacity_def headroom_def)
  qed
qed

section \<open>Properties\<close>

text \<open>
  C8: \<^verbatim>\<open>Buffer::append\<close> on a buffer in a valid state, for every size that fits into memory: when the
  prepend area and the writable area together have at least \<^verbatim>\<open>kCheapPrepend\<close> bytes, or the data fits
  without making space, the data is added behind the readable bytes and the state stays valid; in
  every other case the call writes outside of its vector.
\<close>

theorem append_characterised:
  assumes "buffer_inv b" "room (length d) b"
  shows "if kCheapPrepend \<le> prependableBytes b + writableBytes b \<or> length d \<le> writableBytes b
         then \<exists>b'. append d b = (Ret (), b') \<and> buffer_inv b' \<and> content b' = content b @ d
         else fst (append d b) = Undef"
proof (cases "slack b \<or> length d \<le> writableBytes b")
  case True
  then show ?thesis using append_ok [OF assms] by (auto simp: slack_def prependableBytes_def)
next
  case False
  then show ?thesis using append_undef [OF assms] by (auto simp: slack_def prependableBytes_def)
qed

theorem append_characterised_witness:
  "(\<exists>b'. append [65] \<lparr>m_buffer = replicate 16 0, m_readerIndex = 8, m_writerIndex = 16\<rparr> = (Ret (), b') \<and>
         buffer_inv b' \<and> content b' = replicate 8 0 @ [65]) \<and>
   fst (append [65] \<lparr>m_buffer = replicate 16 0, m_readerIndex = 0, m_writerIndex = 16\<rparr>) = Undef"
proof -
  let ?a = "\<lparr>m_buffer = replicate 16 0, m_readerIndex = 8, m_writerIndex = 16\<rparr> :: Buffer"
  let ?b = "\<lparr>m_buffer = replicate 16 0, m_readerIndex = 0, m_writerIndex = 16\<rparr> :: Buffer"
  have "buffer_inv ?a" "room (length [65 :: byte]) ?a" "buffer_inv ?b" "room (length [65 :: byte]) ?b"
    by (simp_all add: buffer_defs)
  from append_characterised [OF this(1,2)] append_characterised [OF this(3,4)] show ?thesis
    by (simp add: kCheapPrepend_def prependableBytes_def writableBytes_def sz_sub_def size_t_mod_def content_def)
qed

text \<open>
  a buffer sized for its payload, with an 8-byte header prepended into the area the class keeps
  for that, is broken for further use: the next \<^verbatim>\<open>append\<close> writes outside of the vector.
\<close>

theorem append_after_full_prepend:
  assumes "mk_Buffer (length d) = Ret b0" "length d \<le> 2 ^ 59" "length h = kCheapPrepend"
    and "0 < length x" "length x \<le> 2 ^ 59"
  shows "fst (seq (append d) (seq (prepend h) (append x)) b0) = Undef"
proof -
  obtain b where b: "mk_Buffer (length d) = Ret b" "buffer_inv b" "headroom b" "content b = []"
    "length (m_buffer b) = kCheapPrepend + length d" using mk_Buffer_ok [of "length d"] assms(2) by auto
  have b0: "b0 = b" using b(1) assms(1) by simp
  have r0: "m_readerIndex b = kCheapPrepend" "m_writerIndex b = kCheapPrepend"
    using b(1) by (auto simp: mk_Buffer_def obind_Ret_iff)
  have w: "length d \<le> writableBytes b" using b(5) r0 buffer_sizes(2) [OF b(2)] by simp
  have "\<exists>b1. append d b = (Ret (), b1) \<and> buffer_inv b1 \<and> content b1 = d \<and>
             length (m_buffer b1) = length (m_buffer b) \<and> m_readerIndex b1 = kCheapPrepend"
  proof (cases "d = []")
    case True
    then show ?thesis using b r0 by (simp add: append_def cpp_simps)
  next
    case False
    with write_hasWritten_ok [OF b(2) w] w show ?thesis
      by (auto simp: append_def ensureWritableBytes_def cpp_simps beginWrite_def b(4) r0)
  qed
  then obtain b1 where b1: "append d b = (Ret (), b1)" "buffer_inv b1" "content b1 = d"
    "length (m_buffer b1) = kCheapPrepend + length d" "m_readerIndex b1 = kCheapPrepend"
    using b(5) by auto
  have w1: "writableBytes b1 = 0" using buffer_sizes(5) [OF b1(2)] b1(3-5) by simp
  have "length h \<le> prependableBytes b1" using assms(3) b1(5) by (simp add: prependableBytes_def)
  from prepend_ok [OF b1(2) this] obtain b2 where b2: "prepend h b1 = (Ret (), b2)" "buffer_inv b2"
    "content b2 = h @ d" "m_readerIndex b2 = 0" "writableBytes b2 = 0"
    using assms(3) b1(3,5) w1 by (auto simp: prependableBytes_def)
  have "length (m_buffer b2) = kCheapPrepend + length d"
    using buffer_sizes(5) [OF b2(2)] b2(3-5) assms(3) by simp
  then have "room (length x) b2"
    using assms(2,3,5) b2(3) by (simp add: room_def kCheapPrepend_def)
  moreover have "\<not> slack b2" using b2 by (simp add: slack_def kCheapPrepend_def)
  ultimately have "fst (append x b2) = Undef"
    using append_undef [OF b2(2)] b2(5) assms(4) by simp
  then show ?thesis using b1(1) b2(1) by (simp add: b0 cpp_simps)
qed

theorem append_after_full_prepend_witness:
  "\<exists>b0. mk_Buffer (length [104, 105 :: byte]) = Ret b0 \<and>
     fst (seq (append [104, 105]) (seq (prepend [0, 0, 0, 0, 0, 0, 0, 2]) (append [33])) b0) = Undef"
proof -
  obtain b0 where b0: "mk_Buffer (length [104, 105 :: byte]) = Ret b0"
    using mk_Buffer_ok [of "length [104, 105 :: byte]"] by auto
  have "length [0, 0, 0, 0, 0, 0, 0, 2 :: byte] = kCheapPrepend" by (simp add: kCheapPrepend_def)
  from append_after_full_prepend [OF b0 _ this, of "[33]"] b0 show ?thesis by simp
qed

text \<open>
  FIFO. Any sequence of \<^verbatim>\<open>append\<close> calls on a buffer whose prepend area is intact, then taking the
  first \<open>n\<close> bytes as a string, gives the first \<open>n\<close> bytes of what was readable before followed by the
  appended data in order, and leaves the rest; asking for more than there is throws and changes
  nothing.
\<close>

theorem append_retrieve_fifo:
  assumes "stream_inv b" "room (length (concat ds)) b"
  defines "b1 \<equiv> fold (\<lambda>d b. snd (append d b)) ds b"
    and "all \<equiv> content b @ concat ds"
  shows "if n \<le> length all
         then \<exists>b2. retrieveAsString n b1 = (Ret (take n all), b2) \<and> content b2 = drop n all
         else retrieveAsString n b1 = (Throw (Out_of_range ''Buffer::retrieveAsString len out of range''), b1)"
proof -
  have "buffer_inv b1" "content b1 = all"
    using nb.put_many [OF assms(1,2)] by (simp_all add: b1_def all_def stream_inv_def)
  then show ?thesis using retrieveAsString_ok [of b1 n] retrieveAsString_throws [of b1 n] by auto
qed

theorem append_retrieve_fifo_witness:
  "\<exists>b2. retrieveAsString 3 (fold (\<lambda>d b. snd (append d b)) [[1, 2], [], [3, 4]]
          \<lparr>m_buffer = replicate 9 0, m_readerIndex = 8, m_writerIndex = 8\<rparr>) = (Ret [1, 2, 3], b2) \<and> content b2 = [4]"
proof -
  let ?b = "\<lparr>m_buffer = replicate 9 0, m_readerIndex = 8, m_writerIndex = 8\<rparr> :: Buffer"
  let ?ds = "[[1, 2], [], [3, 4]] :: byte list list"
  have "stream_inv ?b" "room (length (concat ?ds)) ?b" by (simp_all add: stream_inv_def buffer_defs)
  from append_retrieve_fifo [OF this, of 3] show ?thesis by (simp add: content_def)
qed

text \<open>
  integers. Appending values of each width and reading them back in the same order gives the
  same values, and the bytes in between are the values in network byte order.
\<close>

theorem integer_roundtrip:
  assumes "stream_inv b" "content b = []" "room 15 b"
  shows "\<exists>b1 b2. seq (appendUInt8 v8) (seq (appendUInt16 v16) (seq (appendUInt32 v32) (appendUInt64 v64))) b = (Ret (), b1) \<and>
     content b1 = be_bytes 1 v8 @ be_bytes 2 v16 @ be_bytes 4 v32 @ be_bytes 8 v64 \<and>
     bind readUInt8 (\<lambda>a. bind readUInt16 (\<lambda>b. bind readUInt32 (\<lambda>c. bind readUInt64 (\<lambda>d. ret (a, b, c, d))))) b1
       = (Ret (v8, v16, v32, v64), b2) \<and> content b2 = []"
proof -
  have r: "room (length [v8]) b" using assms(3) by (simp add: room_def)
  from append_stream [OF assms(1) r] obtain x1 where x1: "appendUInt8 v8 b = (Ret (), x1)" "stream_inv x1"
    "content x1 = be_bytes 1 v8" "length (m_buffer x1) \<le> 2 ^ 62"
    using assms(2) by (auto simp: appendUInt8_def be_bytes_def mem_of_word_def)
  have "room 2 x1" using assms(2,3) x1 by (simp add: room_def)
  from w16.append_integer_be [OF x1(2) this] obtain x2 where x2: "appendUInt16 v16 x1 = (Ret (), x2)" "stream_inv x2"
    "content x2 = be_bytes 1 v8 @ be_bytes 2 v16" "length (m_buffer x2) \<le> 2 ^ 62"
    using x1(3) by (auto simp: appendUInt16_def)
  have "room 4 x2" using assms(2,3) x2 by (simp add: room_def)
  from w32.append_integer_be [OF x2(2) this] obtain x3 where x3: "appendUInt32 v32 x2 = (Ret (), x3)" "stream_inv x3"
    "content x3 = be_bytes 1 v8 @ be_bytes 2 v16 @ be_bytes 4 v32" "length (m_buffer x3) \<le> 2 ^ 62"
    using x2(3) by (auto simp: appendUInt32_def)
  have "room 8 x3" using assms(2,3) x3 by (simp add: room_def)
  from w64.append_integer_be [OF x3(2) this] obtain x4 where x4: "appendUInt64 v64 x3 = (Ret (), x4)" "buffer_inv x4"
    "content x4 = be_bytes 1 v8 @ be_bytes 2 v16 @ be_bytes 4 v32 @ be_bytes 8 v64"
    using x3(3) by (auto simp: appendUInt64_def stream_inv_def)
  obtain y1 where y1: "readUInt8 x4 = (Ret v8, y1)" "buffer_inv y1"
    "content y1 = be_bytes 2 v16 @ be_bytes 4 v32 @ be_bytes 8 v64"
    using w8.read_back [OF x4(2,3)] by (auto simp: readUInt8_def peekUInt8_def)
  obtain y2 where y2: "readUInt16 y1 = (Ret v16, y2)" "buffer_inv y2" "content y2 = be_bytes 4 v32 @ be_bytes 8 v64"
    using w16.read_back [OF y1(2,3)] by (auto simp: readUInt16_def peekUInt16_def)
  obtain y3 where y3: "readUInt32 y2 = (Ret v32, y3)" "buffer_inv y3" "content y3 = be_bytes 8 v64 @ []"
    using w32.read_back [OF y2(2,3)] by (auto simp: readUInt32_def peekUInt32_def)
  obtain y4 where y4: "readUInt64 y3 = (Ret v64, y4)" "content y4 = []"
    using w64.read_back [OF y3(2,3)] by (auto simp: readUInt64_def peekUInt64_def)
  show ?thesis using x1(1) x2(1) x3(1) x4(1,3) y1(1) y2(1) y3(1) y4 by (simp add: cpp_simps)
qed

theorem integer_roundtrip_witness:
  "\<exists>b1 b2. seq (appendUInt8 1) (seq (appendUInt16 0x0203) (seq (appendUInt32 0x04050607) (appendUInt64 8)))
       \<lparr>m_buffer = replicate 9 0, m_readerIndex = 8, m_writerIndex = 8\<rparr> = (Ret (), b1) \<and>
     content b1 = [1, 2, 3, 4, 5, 6, 7, 0, 0, 0, 0, 0, 0, 0, 8] \<and>
     bind readUInt8 (\<lambda>a. bind readUInt16 (\<lambda>b. bind readUInt32 (\<lambda>c. bind readUInt64 (\<lambda>d. ret (a, b, c, d))))) b1
       = (Ret (1, 0x0203, 0x04050607, 8), b2) \<and> content b2 = []"
proof -
  let ?b = "\<lparr>m_buffer = replicate 9 0, m_readerIndex = 8, m_writerIndex = 8\<rparr> :: Buffer"
  have "stream_inv ?b" "content ?b = []" "room 15 ?b" by (simp_all add: stream_inv_def buffer_defs)
  note rt = integer_roundtrip [OF this, of 1 "0x0203" "0x04050607" 8]
  have "be_bytes 1 (1 :: 8 word) = [1]" "be_bytes 2 (0x0203 :: 16 word) = [2, 3]"
    "be_bytes 4 (0x04050607 :: 32 word) = [4, 5, 6, 7]" "be_bytes 8 (8 :: 64 word) = [0, 0, 0, 0, 0, 0, 0, 8]"
    by (simp_all add: be_bytes_def mem_of_word_def upts)
  with rt show ?thesis by simp
qed

text \<open>
  \<^verbatim>\<open>readFdResult\<close> puts the bytes a socket delivers behind the readable bytes, in order, whether
  they fit into the writable area or overflow into the stack buffer; at the end of the stream, on a
  would-block error and on any other error the buffer is unchanged, and the result says which.
\<close>

theorem readFd_delivers:
  fixes readv :: "nat list \<Rightarrow> sys_read"
  assumes "stream_inv b" "room (writableBytes b + extrabuf_size) b"
    and contract: "\<And>iov d. readv iov = Sys_read d \<Longrightarrow> length d \<le> sum_list iov"
  defines "iov \<equiv> if writableBytes b < extrabuf_size then [writableBytes b, extrabuf_size] else [writableBytes b]"
  shows "case readv iov of
      Sys_read d \<Rightarrow>
        if d = [] then readFdResult strerror readv b = (Ret (Value (io 0 Io_EndOfFile)), b)
        else \<exists>b'. readFdResult strerror readv b = (Ret (Value (io (length d) Io_Ok)), b') \<and>
                  stream_inv b' \<and> content b' = content b @ d
    | Sys_read_err err \<Rightarrow>
        readFdResult strerror readv b =
          (Ret (if isWouldBlockError err then Value (io 0 Io_WouldBlock)
                else makeSystemErrorResultT strerror ''Buffer::readFdResult failed'' err), b)"
proof (cases "readv iov")
  case (Sys_read d)
  have "sum_list iov \<le> writableBytes b + extrabuf_size" by (simp add: iov_def)
  with contract [OF Sys_read] have l: "length d \<le> sum_list iov" "length d \<le> writableBytes b + extrabuf_size"
    by simp_all
  then have r: "room (length d) b" using assms(2) by (simp add: room_def)
  show ?thesis
  proof (cases "d = []")
    case True
    then show ?thesis using Sys_read by (simp add: readFdResult_def cpp_simps iov_def Let_def)
  next
    case False
    with readFdResult_data [OF assms(1) r False, of readv strerror] Sys_read l show ?thesis
      by (auto simp: iov_def split: if_splits)
  qed
next
  case (Sys_read_err err)
  then show ?thesis by (simp add: readFdResult_def cpp_simps iov_def Let_def)
qed

theorem readFd_delivers_witness:
  "\<exists>b'. readFdResult (\<lambda>_. []) (\<lambda>iov. Sys_read (take (sum_list iov) [1, 2, 3]))
     \<lparr>m_buffer = replicate 10 0, m_readerIndex = 8, m_writerIndex = 8\<rparr>
       = (Ret (Value (io 3 Io_Ok)), b') \<and> stream_inv b' \<and> content b' = [1, 2, 3]"
proof -
  let ?b = "\<lparr>m_buffer = replicate 10 0, m_readerIndex = 8, m_writerIndex = 8\<rparr> :: Buffer"
  let ?readv = "\<lambda>iov :: nat list. Sys_read (take (sum_list iov) [1, 2, 3])"
  have w: "writableBytes ?b = 2" by (simp add: writableBytes_def sz_sub_def size_t_mod_def)
  have "stream_inv ?b" "room (writableBytes ?b + extrabuf_size) ?b"
    by (simp_all add: w stream_inv_def buffer_defs extrabuf_size_def)
  from readFd_delivers [OF this, of ?readv "\<lambda>_. []"] show ?thesis
    by (simp add: w extrabuf_size_def content_def numeral_3_eq_3)
qed

end
