(* ===== verification/Framing.thy ===== *)
theory Framing
  imports Prelude "HOL-Library.Sublist"
begin

text \<open>
  The interface between a frame codec and the code that reads a connection: what the reader relies
  on to recover messages from a stream of bytes that the network cuts into pieces of any size.
\<close>

text \<open>
  \<open>decode\<close> takes one message from the front of the state's bytes (\<open>Got\<close>), reports that there is none
  yet (\<open>More\<close>), or fails on them (\<open>Broken\<close>). \<open>enc m\<close> are the bytes of the message \<open>m\<close>, and \<open>good m\<close> says that it can be sent.
\<close>

datatype 'm decoded = Got 'm | More | Broken

locale frame_decoder =
  fixes content :: "'s \<Rightarrow> byte list"
    and inv :: "'s \<Rightarrow> bool"
    and decode :: "'s \<Rightarrow> 'm decoded \<times> 's"
    and enc :: "'m \<Rightarrow> byte list"
    and good :: "'m \<Rightarrow> bool"
  assumes decode_whole: "inv s \<Longrightarrow> good m \<Longrightarrow> content s = enc m @ rest \<Longrightarrow>
            \<exists>s'. decode s = (Got m, s') \<and> inv s' \<and> content s' = rest"
    and decode_part: "inv s \<Longrightarrow> good m \<Longrightarrow> strict_prefix (content s) (enc m) \<Longrightarrow> decode s = (More, s)"
    and decode_nothing: "inv s \<Longrightarrow> content s = [] \<Longrightarrow> decode s = (More, s)"
    and enc_nonempty: "good m \<Longrightarrow> enc m \<noteq> []"
begin

text \<open>
  The reading loop: decode until nothing more can be decoded, at most \<open>fuel\<close> times. The flag says that it ended for want of bytes, not by a failure.
\<close>

primrec drain :: "nat \<Rightarrow> 's \<Rightarrow> 'm list \<times> bool \<times> 's" where
  "drain 0 s = ([], False, s)"
| "drain (Suc fuel) s =
     (case decode s of
        (More, s') \<Rightarrow> ([], True, s')
      | (Broken, s') \<Rightarrow> ([], False, s')
      | (Got m, s') \<Rightarrow> (let (ms, ok, s'') = drain fuel s' in (m # ms, ok, s'')))"

lemma drain_prefix:
  assumes "inv s" "list_all good ms" "prefix (content s) (concat (map enc ms))"
    and "length (content s) < fuel"
  shows "\<exists>ds ms' s'. ms = ds @ ms' \<and> drain fuel s = (ds, True, s') \<and> inv s' \<and>
           content s = concat (map enc ds) @ content s' \<and>
           (case ms' of [] \<Rightarrow> content s' = [] | m # _ \<Rightarrow> strict_prefix (content s') (enc m))"
  using assms
proof (induction ms arbitrary: s fuel)
  case Nil
  then obtain f where "fuel = Suc f" by (cases fuel) auto
  then show ?case using Nil by (simp add: decode_nothing)
next
  case (Cons m ms)
  then obtain f where f: "fuel = Suc f" by (cases fuel) auto
  have g: "good m" "list_all good ms" using Cons.prems(2) by simp_all
  show ?case
  proof (cases "prefix (enc m) (content s)")
    case True
    then obtain rest where rest: "content s = enc m @ rest" by (auto simp: prefix_def)
    from decode_whole [OF Cons.prems(1) g(1) rest] obtain s1 where s1:
      "decode s = (Got m, s1)" "inv s1" "content s1 = rest" by blast
    have "prefix (content s1) (concat (map enc ms))"
      using Cons.prems(3) by (simp add: rest s1(3))
    moreover have "length (content s1) < f"
      using Cons.prems(4) f rest s1(3) enc_nonempty [OF g(1)] by (cases "enc m") simp_all
    ultimately obtain ds ms' s' where "ms = ds @ ms'" "drain f s1 = (ds, True, s')" "inv s'"
      "content s1 = concat (map enc ds) @ content s'"
      "case ms' of [] \<Rightarrow> content s' = [] | m # _ \<Rightarrow> strict_prefix (content s') (enc m)"
      using Cons.IH [OF s1(2) g(2)] by blast
    then show ?thesis
      using f s1 rest by (intro exI [of _ "m # ds"] exI [of _ ms'] exI [of _ s']) simp
  next
    case False
    have "strict_prefix (content s) (enc m)"
      using Cons.prems(3) False prefix_same_cases [of "content s" "enc m @ concat (map enc ms)" "enc m"]
      by (auto simp: strict_prefix_def)
    moreover from this have "decode s = (More, s)" using decode_part Cons.prems(1) g(1) by blast
    ultimately show ?thesis
      using f Cons.prems(1) by (intro exI [of _ "[]"] exI [of _ "m # ms"] exI [of _ s]) simp
  qed
qed

end

text \<open>A connection: the network appends chunks to a byte stream, and after each the reader drains.\<close>

locale framed_stream =
  byte_stream content inv room put get + frame_decoder content inv decode enc good
  for content :: "'s \<Rightarrow> byte list" and inv room put get and decode :: "'s \<Rightarrow> 'm decoded \<times> 's" and enc good +
  assumes decode_room: "inv s \<Longrightarrow> good m \<Longrightarrow> content s = enc m @ rest \<Longrightarrow> room n s \<Longrightarrow> room n (snd (decode s))"
begin

lemma drain_room:
  assumes "inv s" "list_all good ms" "prefix (content s) (concat (map enc ms))" "room n s"
  shows "room n (snd (snd (drain fuel s)))"
  using assms
proof (induction ms arbitrary: s fuel)
  case Nil
  then show ?case by (cases fuel) (simp_all add: decode_nothing)
next
  case (Cons m ms)
  have g: "good m" "list_all good ms" using Cons.prems(2) by simp_all
  show ?case
  proof (cases "prefix (enc m) (content s)")
    case True
    then obtain rest where rest: "content s = enc m @ rest" by (auto simp: prefix_def)
    from decode_whole [OF Cons.prems(1) g(1) rest] obtain s1 where s1:
      "decode s = (Got m, s1)" "inv s1" "content s1 = rest" by blast
    have "prefix (content s1) (concat (map enc ms))"
      using Cons.prems(3) by (simp add: rest s1(3))
    moreover have "room n s1"
      using decode_room [OF Cons.prems(1) g(1) rest Cons.prems(4)] s1(1) by simp
    ultimately show ?thesis using Cons.IH [OF s1(2) g(2)] s1(1) Cons.prems(4)
      by (cases fuel) (simp_all add: case_prod_unfold Let_def)
  next
    case False
    have "strict_prefix (content s) (enc m)"
      using Cons.prems(3) False prefix_same_cases [of "content s" "enc m @ concat (map enc ms)" "enc m"]
      by (auto simp: strict_prefix_def)
    then have "decode s = (More, s)" using decode_part Cons.prems(1) g(1) by blast
    then show ?thesis using Cons.prems(4) by (cases fuel) simp_all
  qed
qed

text \<open>One chunk: the messages it completes are read, and what is left waits for the rest of the next message.\<close>

lemma chunk_step:
  assumes "inv s" "list_all good ms" "content s @ c @ rest = concat (map enc ms)" "room (length c + n) s"
  shows "\<exists>ds ms' s'. ms = ds @ ms' \<and> drain (Suc (length (content (put c s)))) (put c s) = (ds, True, s') \<and> inv s' \<and>
           content s' @ rest = concat (map enc ms') \<and> room n s' \<and>
           (case ms' of [] \<Rightarrow> content s' = [] | m # _ \<Rightarrow> strict_prefix (content s') (enc m))"
proof -
  let ?s1 = "put c s"
  have rc: "room (length c) s" using assms(4) room_mono by (metis le_add1)
  have s1: "inv ?s1" "content ?s1 = content s @ c" using assms(1) rc by (simp_all add: put_inv put_content)
  have e1: "content ?s1 @ rest = concat (map enc ms)" using assms(3) s1(2) by simp
  then have p1: "prefix (content ?s1) (concat (map enc ms))" by (metis prefixI)
  from drain_prefix [OF s1(1) assms(2) p1 lessI]
  obtain ds ms' s2 where d: "ms = ds @ ms'" "drain (Suc (length (content ?s1))) ?s1 = (ds, True, s2)"
    "inv s2" "content ?s1 = concat (map enc ds) @ content s2"
    "case ms' of [] \<Rightarrow> content s2 = [] | m # _ \<Rightarrow> strict_prefix (content s2) (enc m)" by blast
  have "room n s2"
    using drain_room [OF s1(1) assms(2) p1 put_room [OF assms(1,4)], of "Suc (length (content ?s1))"] d(2) by simp
  moreover have "content s2 @ rest = concat (map enc ms')" using e1 d(1,4) by simp
  ultimately show ?thesis using d by (intro exI conjI)
qed

text \<open>At the end of the stream no message is left.\<close>

lemma stream_end:
  assumes "content s = concat (map enc ms)" "case ms of [] \<Rightarrow> content s = [] | m # _ \<Rightarrow> strict_prefix (content s) (enc m)"
  shows "ms = [] \<and> content s = []"
proof (cases ms)
  case (Cons m ms')
  then have "strict_prefix (content s) (enc m)" "prefix (enc m) (content s)" using assms by simp_all
  then show ?thesis by (meson prefix_order.less_le_not_le)
qed (use assms in simp)

end

end
