(* ===== verification/LengthCodec.thy ===== *)
theory LengthCodec
  imports NetBuffer Framing
begin

text \<open>
  \<^verbatim>\<open>dbase::net::LengthFieldCodec\<close> (\<^verbatim>\<open>code/src/net/length_field_codec.cpp\<close>): frames with a big-endian
  length field of 1, 2, 4 or 8 bytes in front of the payload. Lengths are \<^verbatim>\<open>std::uint64_t\<close>, that is
  64-bit words, and wrap around as in the source.
\<close>

section \<open>State and operations\<close>

datatype LengthMode = PayloadOnly | WholeFrame

datatype DecodeStatus = Dec_Ok | Dec_NeedMoreData | Dec_InvalidLength | Dec_ExceedMaxFrameLength

record DecodeResult =
  dec_status :: DecodeStatus
  dec_payload :: "byte list"

record LengthFieldCodec =
  m_lengthFieldBytes :: nat
  m_lengthMode :: LengthMode
  m_maxFrameLength :: nat

definition mk_LengthFieldCodec :: "nat \<Rightarrow> LengthMode \<Rightarrow> nat \<Rightarrow> LengthFieldCodec outcome" where
  "mk_LengthFieldCodec bytes mode maxLen =
     (if bytes \<noteq> 1 \<and> bytes \<noteq> 2 \<and> bytes \<noteq> 4 \<and> bytes \<noteq> 8
      then Throw (Invalid_argument ''LengthFieldCodec lengthFieldBytes must be one of 1, 2, 4, 8'')
      else if maxLen = 0
      then Throw (Invalid_argument ''LengthFieldCodec maxFrameLength must be greater than 0'')
      else Ret \<lparr>m_lengthFieldBytes = bytes, m_lengthMode = mode, m_maxFrameLength = maxLen\<rparr>)"

definition appendLengthField :: "LengthFieldCodec \<Rightarrow> 64 word \<Rightarrow> (Buffer, unit) cpp" where
  "appendLengthField c value =
     (if m_lengthFieldBytes c = 1 then appendUInt8 (ucast value)
      else if m_lengthFieldBytes c = 2 then appendUInt16 (ucast value)
      else if m_lengthFieldBytes c = 4 then appendUInt32 (ucast value)
      else if m_lengthFieldBytes c = 8 then appendUInt64 value
      else throw (Logic_error ''LengthFieldCodec invalid length field bytes''))"

definition peekLengthField :: "LengthFieldCodec \<Rightarrow> (Buffer, 64 word) cpp" where
  "peekLengthField c =
     (if m_lengthFieldBytes c = 1 then bind peekUInt8 (\<lambda>v. ret (ucast v))
      else if m_lengthFieldBytes c = 2 then bind peekUInt16 (\<lambda>v. ret (ucast v))
      else if m_lengthFieldBytes c = 4 then bind peekUInt32 (\<lambda>v. ret (ucast v))
      else if m_lengthFieldBytes c = 8 then peekUInt64
      else throw (Logic_error ''LengthFieldCodec invalid length field bytes''))"

text \<open>The \<^verbatim>\<open>switch\<close> of \<^verbatim>\<open>encode\<close>: whether the length fits its field.\<close>

definition checkEncodedLength :: "nat \<Rightarrow> 64 word \<Rightarrow> (Buffer, unit) cpp" where
  "checkEncodedLength bytes encodedLength =
     (if bytes = 1 then
        (if encodedLength > 0xFF
         then throw (Length_error ''LengthFieldCodec encoded length exceeds uint8_t range'') else ret ())
      else if bytes = 2 then
        (if encodedLength > 0xFFFF
         then throw (Length_error ''LengthFieldCodec encoded length exceeds uint16_t range'') else ret ())
      else if bytes = 4 then
        (if encodedLength > 0xFFFFFFFF
         then throw (Length_error ''LengthFieldCodec encoded length exceeds uint32_t range'') else ret ())
      else if bytes = 8 then ret ()
      else throw (Logic_error ''LengthFieldCodec invalid length field bytes''))"

definition encode :: "LengthFieldCodec \<Rightarrow> byte list \<Rightarrow> (Buffer, unit) cpp" where
  "encode c payload =
     (let payloadLength = of_nat (length payload) :: 64 word;
          frameLength = payloadLength + of_nat (m_lengthFieldBytes c);
          encodedLength = (if m_lengthMode c = PayloadOnly then payloadLength else frameLength)
      in seq (checkEncodedLength (m_lengthFieldBytes c) encodedLength)
         (if unat frameLength > m_maxFrameLength c
          then throw (Length_error ''LengthFieldCodec frame length exceeds maxFrameLength'')
          else seq (ensureWritableBytes (unat frameLength))
              (seq (appendLengthField c encodedLength) (append payload))))"

text \<open>The overload that returns a new buffer.\<close>

definition encode_new :: "LengthFieldCodec \<Rightarrow> byte list \<Rightarrow> Buffer outcome" where
  "encode_new c payload =
     obind (mk_Buffer (sz_add (length payload) (m_lengthFieldBytes c))) (\<lambda>b.
       case encode c payload b of
         (Ret _, b') \<Rightarrow> Ret b' | (Throw e, _) \<Rightarrow> Throw e | (Undef, _) \<Rightarrow> Undef)"

definition dec_fail :: "DecodeStatus \<Rightarrow> (Buffer, DecodeResult) cpp" where
  "dec_fail st = ret \<lparr>dec_status = st, dec_payload = []\<rparr>"

text \<open>The part of \<^verbatim>\<open>tryDecode\<close> after the two lengths are known.\<close>

definition decodeFrame :: "LengthFieldCodec \<Rightarrow> 64 word \<Rightarrow> 64 word \<Rightarrow> (Buffer, DecodeResult) cpp" where
  "decodeFrame c frameLength payloadLength =
     (if unat frameLength > m_maxFrameLength c then dec_fail Dec_ExceedMaxFrameLength
      else bind (gets readableBytes) (\<lambda>n.
        if n < unat frameLength then dec_fail Dec_NeedMoreData
        else seq (retrieve (m_lengthFieldBytes c))
            (bind (retrieveAsString (unat payloadLength)) (\<lambda>p.
              ret \<lparr>dec_status = Dec_Ok, dec_payload = p\<rparr>))))"

definition tryDecode :: "LengthFieldCodec \<Rightarrow> (Buffer, DecodeResult) cpp" where
  "tryDecode c = bind (gets readableBytes) (\<lambda>n.
     if n < m_lengthFieldBytes c then dec_fail Dec_NeedMoreData
     else bind (peekLengthField c) (\<lambda>encodedLength.
       if m_lengthMode c = PayloadOnly
       then decodeFrame c (encodedLength + of_nat (m_lengthFieldBytes c)) encodedLength
       else if encodedLength < of_nat (m_lengthFieldBytes c) then dec_fail Dec_InvalidLength
       else decodeFrame c encodedLength (encodedLength - of_nat (m_lengthFieldBytes c))))"

section \<open>Frames\<close>

definition codec_ok :: "LengthFieldCodec \<Rightarrow> bool" where
  "codec_ok c \<longleftrightarrow> m_lengthFieldBytes c \<in> {1, 2, 4, 8} \<and> 0 < m_maxFrameLength c \<and>
                 m_maxFrameLength c < size_t_mod"

lemma mk_LengthFieldCodec_ok:
  "mk_LengthFieldCodec n m k = Ret c \<Longrightarrow> k < size_t_mod \<Longrightarrow> codec_ok c"
  by (auto simp: mk_LengthFieldCodec_def codec_ok_def split: if_splits)

text \<open>The value of the length field of a payload of \<open>n\<close> bytes, and the frame on the wire.\<close>

definition field_value :: "LengthFieldCodec \<Rightarrow> nat \<Rightarrow> nat" where
  "field_value c n = (if m_lengthMode c = PayloadOnly then n else n + m_lengthFieldBytes c)"

definition field_bytes :: "nat \<Rightarrow> 64 word \<Rightarrow> byte list" where
  "field_bytes k v =
     (if k = 1 then be_bytes 1 (ucast v :: 8 word) else if k = 2 then be_bytes 2 (ucast v :: 16 word)
      else if k = 4 then be_bytes 4 (ucast v :: 32 word) else be_bytes 8 v)"

definition frame :: "LengthFieldCodec \<Rightarrow> byte list \<Rightarrow> byte list" where
  "frame c p = field_bytes (m_lengthFieldBytes c) (of_nat (field_value c (length p))) @ p"

text \<open>The payloads a codec can send: the frame is within the maximum and the length within its field.\<close>

definition fits :: "LengthFieldCodec \<Rightarrow> byte list \<Rightarrow> bool" where
  "fits c p \<longleftrightarrow> length p + m_lengthFieldBytes c \<le> m_maxFrameLength c \<and>
               field_value c (length p) < 2 ^ (8 * m_lengthFieldBytes c)"

lemma length_field_bytes: "k \<in> {1, 2, 4, 8} \<Longrightarrow> length (field_bytes k v) = k"
  by (auto simp: field_bytes_def)

lemma length_frame: "codec_ok c \<Longrightarrow> length (frame c p) = m_lengthFieldBytes c + length p"
  by (simp add: frame_def length_field_bytes codec_ok_def)

lemma unat_small: "n < 2 ^ 64 \<Longrightarrow> unat (of_nat n :: 64 word) = n"
  by (simp add: unat_of_nat)

lemma ucast_ucast_id:
  assumes "unat (v :: 64 word) < 2 ^ LENGTH('a)"
  shows "(ucast (ucast v :: 'a::len word) :: 64 word) = v"
proof -
  have "(ucast (ucast v :: 'a word) :: 64 word) = take_bit LENGTH('a) v"
    by (rule bit_word_eqI) (auto simp: bit_simps)
  moreover have "unat (take_bit LENGTH('a) v) = unat v"
    using assms by (simp add: unsigned_take_bit_eq take_bit_nat_eq_self)
  ultimately show ?thesis by (metis word_unat_eq_iff)
qed

lemma peek_field:
  assumes "codec_ok c" "buffer_inv b" "content b = field_bytes (m_lengthFieldBytes c) v @ rest"
    and "unat v < 2 ^ (8 * m_lengthFieldBytes c)"
  shows "peekLengthField c b = (Ret v, b)"
proof -
  consider "m_lengthFieldBytes c = 1" | "m_lengthFieldBytes c = 2" | "m_lengthFieldBytes c = 4"
    | "m_lengthFieldBytes c = 8" using assms(1) by (auto simp: codec_ok_def)
  then show ?thesis
  proof cases
    case 1
    have "peekUInt8 b = (Ret (ucast v), b)"
      using w8.peek_back [OF assms(2)] assms(3) 1 by (simp add: peekUInt8_def field_bytes_def)
    moreover have "(ucast (ucast v :: 8 word) :: 64 word) = v"
      using assms(4) 1 by (intro ucast_ucast_id) simp
    ultimately show ?thesis using 1 by (simp add: peekLengthField_def cpp_simps)
  next
    case 2
    have "peekUInt16 b = (Ret (ucast v), b)"
      using w16.peek_back [OF assms(2)] assms(3) 2 by (simp add: peekUInt16_def field_bytes_def)
    moreover have "(ucast (ucast v :: 16 word) :: 64 word) = v"
      using assms(4) 2 by (intro ucast_ucast_id) simp
    ultimately show ?thesis using 2 by (simp add: peekLengthField_def cpp_simps)
  next
    case 3
    have "peekUInt32 b = (Ret (ucast v), b)"
      using w32.peek_back [OF assms(2)] assms(3) 3 by (simp add: peekUInt32_def field_bytes_def)
    moreover have "(ucast (ucast v :: 32 word) :: 64 word) = v"
      using assms(4) 3 by (intro ucast_ucast_id) simp
    ultimately show ?thesis using 3 by (simp add: peekLengthField_def cpp_simps)
  next
    case 4
    then show ?thesis
      using w64.peek_back [OF assms(2)] assms(3)
      by (simp add: peekLengthField_def peekUInt64_def field_bytes_def)
  qed
qed

lemma append_field:
  assumes "codec_ok c" "stream_inv b" "room (m_lengthFieldBytes c) b"
  shows "\<exists>b'. appendLengthField c v b = (Ret (), b') \<and> stream_inv b' \<and>
              content b' = content b @ field_bytes (m_lengthFieldBytes c) v \<and> length (m_buffer b') \<le> 2 ^ 62"
proof -
  consider "m_lengthFieldBytes c = 1" | "m_lengthFieldBytes c = 2" | "m_lengthFieldBytes c = 4"
    | "m_lengthFieldBytes c = 8" using assms(1) by (auto simp: codec_ok_def)
  then show ?thesis
  proof cases
    case 1
    then show ?thesis using append_stream [OF assms(2), of "[ucast v]"] assms(3)
      by (simp add: appendLengthField_def appendUInt8_def field_bytes_def be_bytes_def mem_of_word_def)
  next
    case 2
    then show ?thesis using w16.append_integer_be [OF assms(2)] assms(3)
      by (simp add: appendLengthField_def appendUInt16_def field_bytes_def)
  next
    case 3
    then show ?thesis using w32.append_integer_be [OF assms(2)] assms(3)
      by (simp add: appendLengthField_def appendUInt32_def field_bytes_def)
  next
    case 4
    then show ?thesis using w64.append_integer_be [OF assms(2)] assms(3)
      by (simp add: appendLengthField_def appendUInt64_def field_bytes_def)
  qed
qed

section \<open>Encoding\<close>

lemma field_value_lengths:
  assumes "codec_ok c" "length p + m_lengthFieldBytes c < 2 ^ 64"
  shows "unat (of_nat (length p) + of_nat (m_lengthFieldBytes c) :: 64 word) = length p + m_lengthFieldBytes c"
    and "(if m_lengthMode c = PayloadOnly then of_nat (length p)
          else of_nat (length p) + of_nat (m_lengthFieldBytes c) :: 64 word) = of_nat (field_value c (length p))"
proof -
  have "(of_nat (length p) + of_nat (m_lengthFieldBytes c) :: 64 word) = of_nat (length p + m_lengthFieldBytes c)"
    by simp
  then show "unat (of_nat (length p) + of_nat (m_lengthFieldBytes c) :: 64 word) = length p + m_lengthFieldBytes c"
    using unat_small assms(2) by metis
qed (simp add: field_value_def)

lemma checkEncodedLength_iff:
  assumes "codec_ok c" "n < 2 ^ 64"
  shows "checkEncodedLength (m_lengthFieldBytes c) (of_nat n) b =
    (if n < 2 ^ (8 * m_lengthFieldBytes c) then (Ret (), b)
     else (Throw (Length_error (''LengthFieldCodec encoded length exceeds uint'' @
             (if m_lengthFieldBytes c = 1 then ''8'' else if m_lengthFieldBytes c = 2 then ''16'' else ''32'') @
             ''_t range'')), b))"
proof -
  have u: "unat (of_nat n :: 64 word) = n" using assms(2) by (rule unat_small)
  consider "m_lengthFieldBytes c = 1" | "m_lengthFieldBytes c = 2" | "m_lengthFieldBytes c = 4"
    | "m_lengthFieldBytes c = 8" using assms(1) by (auto simp: codec_ok_def)
  then show ?thesis
    by cases (use assms(2) in \<open>auto simp: checkEncodedLength_def cpp_simps word_less_nat_alt u\<close>)
qed

lemma encode_ok:
  assumes "codec_ok c" "fits c p" "stream_inv b" "room (length p + m_lengthFieldBytes c) b"
  shows "\<exists>b'. encode c p b = (Ret (), b') \<and> stream_inv b' \<and> content b' = content b @ frame c p \<and>
              length (m_buffer b') \<le> 2 ^ 62"
proof -
  let ?k = "m_lengthFieldBytes c" and ?v = "of_nat (field_value c (length p)) :: 64 word"
  have n: "length p + ?k < 2 ^ 64" using assms(1,2) by (simp add: fits_def codec_ok_def size_t_mod_def)
  have fv: "field_value c (length p) < 2 ^ 64" using n by (simp add: field_value_def)
  have sl: "slack b \<or> length p + ?k \<le> writableBytes b"
    using assms(3) headroom_slack by (simp add: stream_inv_def)
  from ensureWritableBytes_ok [OF _ assms(4) sl] assms(3) obtain b1 where b1:
    "ensureWritableBytes (length p + ?k) b = (Ret (), b1)" "stream_inv b1" "content b1 = content b"
    "length (m_buffer b1) \<le> 2 ^ 62" by (auto simp: stream_inv_def)
  have r1: "room (length p + ?k) b1" using assms(4) b1 by (simp add: room_def)
  then have rk: "room ?k b1" by (simp add: room_def)
  from append_field [OF assms(1) b1(2) rk, of ?v] obtain b2 where b2:
    "appendLengthField c ?v b1 = (Ret (), b2)" "stream_inv b2"
    "content b2 = content b @ field_bytes ?k ?v" "length (m_buffer b2) \<le> 2 ^ 62" by (auto simp: b1(3))
  have "length (content b2) = length (content b1) + ?k"
    using b2(3) b1(3) length_field_bytes assms(1) by (simp add: codec_ok_def)
  with r1 b2(4) have r2: "room (length p) b2" by (simp add: room_def)
  from append_stream [OF b2(2) r2] obtain b3 where b3:
    "append p b2 = (Ret (), b3)" "stream_inv b3" "content b3 = content b2 @ p" "length (m_buffer b3) \<le> 2 ^ 62"
    by blast
  have "encode c p b = (Ret (), b3)"
    using assms(1,2) n fv b1(1) b2(1) b3(1) checkEncodedLength_iff [OF assms(1) fv, of b]
    by (simp add: encode_def Let_def field_value_lengths [OF assms(1) n] cpp_simps fits_def)
  then show ?thesis using b3 b2(3) by (auto simp: frame_def)
qed

lemma encode_too_long:
  assumes "codec_ok c" "\<not> fits c p" "length p + m_lengthFieldBytes c < 2 ^ 64"
  shows "\<exists>msg. encode c p b = (Throw (Length_error msg), b)"
proof -
  let ?k = "m_lengthFieldBytes c"
  have fv: "field_value c (length p) < 2 ^ 64" using assms(3) by (simp add: field_value_def)
  show ?thesis
    using assms(2) checkEncodedLength_iff [OF assms(1) fv, of b]
    by (auto simp: encode_def Let_def field_value_lengths [OF assms(1,3)] cpp_simps fits_def)
qed

section \<open>Decoding\<close>

lemma decode_short:
  assumes "buffer_inv b" "length (content b) < m_lengthFieldBytes c"
  shows "tryDecode c b = (Ret \<lparr>dec_status = Dec_NeedMoreData, dec_payload = []\<rparr>, b)"
  using assms by (simp add: tryDecode_def dec_fail_def cpp_simps buffer_sizes(4))

lemma decodeFrame_long:
  assumes "buffer_inv b" "unat fl \<le> m_maxFrameLength c" "length (content b) < unat fl"
  shows "decodeFrame c fl pl b = (Ret \<lparr>dec_status = Dec_NeedMoreData, dec_payload = []\<rparr>, b)"
  using assms by (simp add: decodeFrame_def dec_fail_def cpp_simps buffer_sizes(4))

lemma decodeFrame_whole:
  assumes "stream_inv b" "unat fl \<le> m_maxFrameLength c" "unat fl \<le> length (content b)"
    and "m_lengthFieldBytes c + unat pl \<le> length (content b)"
  shows "\<exists>b'. decodeFrame c fl pl b =
           (Ret \<lparr>dec_status = Dec_Ok,
                 dec_payload = take (unat pl) (drop (m_lengthFieldBytes c) (content b))\<rparr>, b') \<and>
         stream_inv b' \<and> content b' = drop (m_lengthFieldBytes c + unat pl) (content b) \<and>
         m_buffer b' = m_buffer b"
proof -
  let ?k = "m_lengthFieldBytes c"
  have i: "buffer_inv b" using assms(1) by (simp add: stream_inv_def)
  from retrieve_stream [OF assms(1), of ?k] obtain b1 where b1:
    "retrieve ?k b = (Ret (), b1)" "stream_inv b1" "content b1 = drop ?k (content b)" "m_buffer b1 = m_buffer b"
    by blast
  have i1: "buffer_inv b1" using b1(2) by (simp add: stream_inv_def)
  have l: "unat pl \<le> length (content b1)" using assms(4) b1(3) by simp
  from retrieveAsString_ok [OF i1 l] b1(2) obtain b2 where b2:
    "retrieveAsString (unat pl) b1 = (Ret (take (unat pl) (content b1)), b2)" "stream_inv b2"
    "content b2 = drop (unat pl) (content b1)" "m_buffer b2 = m_buffer b1" by (auto simp: stream_inv_def)
  show ?thesis using assms b1 b2 i
    by (simp add: decodeFrame_def cpp_simps buffer_sizes(4) add.commute)
qed

text \<open>\<open>tryDecode\<close> once the length field is in the buffer, with the length as a number.\<close>

lemma tryDecode_field:
  assumes "codec_ok c" "buffer_inv b" "content b = field_bytes (m_lengthFieldBytes c) v @ rest"
    and "unat v < 2 ^ (8 * m_lengthFieldBytes c)"
  shows "tryDecode c b =
    (if m_lengthMode c = PayloadOnly then decodeFrame c (v + of_nat (m_lengthFieldBytes c)) v b
     else if unat v < m_lengthFieldBytes c then (Ret \<lparr>dec_status = Dec_InvalidLength, dec_payload = []\<rparr>, b)
     else decodeFrame c v (v - of_nat (m_lengthFieldBytes c)) b)"
proof -
  have k: "m_lengthFieldBytes c < 2 ^ 64" using assms(1) by (auto simp: codec_ok_def)
  have "m_lengthFieldBytes c \<le> length (content b)"
    using assms(3) length_field_bytes assms(1) by (simp add: codec_ok_def)
  moreover have "v < of_nat (m_lengthFieldBytes c) \<longleftrightarrow> unat v < m_lengthFieldBytes c"
    by (simp add: word_less_nat_alt unat_small [OF k])
  ultimately show ?thesis
    using peek_field [OF assms] assms(2)
    by (simp add: tryDecode_def dec_fail_def cpp_simps buffer_sizes(4))
qed

lemma frame_lengths:
  assumes "codec_ok c" "fits c p"
  defines "v \<equiv> of_nat (field_value c (length p)) :: 64 word"
  shows "unat v = field_value c (length p)"
    and "unat v < 2 ^ (8 * m_lengthFieldBytes c)"
    and "unat (v + of_nat (m_lengthFieldBytes c)) = field_value c (length p) + m_lengthFieldBytes c
         \<or> m_lengthMode c = WholeFrame"
    and "m_lengthMode c = WholeFrame \<Longrightarrow> unat (v - of_nat (m_lengthFieldBytes c)) = length p"
proof -
  have n: "length p + m_lengthFieldBytes c < 2 ^ 64"
    using assms(1,2) by (simp add: fits_def codec_ok_def size_t_mod_def)
  show u: "unat v = field_value c (length p)"
    unfolding v_def by (rule unat_small) (use n in \<open>simp add: field_value_def\<close>)
  show "unat v < 2 ^ (8 * m_lengthFieldBytes c)" using u assms(2) by (simp add: fits_def)
  show "unat (v + of_nat (m_lengthFieldBytes c)) = field_value c (length p) + m_lengthFieldBytes c
         \<or> m_lengthMode c = WholeFrame"
  proof (cases "m_lengthMode c")
    case PayloadOnly
    then have "v + of_nat (m_lengthFieldBytes c) = of_nat (length p + m_lengthFieldBytes c)"
      by (simp add: v_def field_value_def)
    then show ?thesis using PayloadOnly unat_small [OF n] by (simp add: field_value_def)
  qed simp
  assume "m_lengthMode c = WholeFrame"
  then have "v - of_nat (m_lengthFieldBytes c) = of_nat (length p)"
    by (simp add: v_def field_value_def)
  then show "unat (v - of_nat (m_lengthFieldBytes c)) = length p"
    using unat_small n by simp
qed

lemma tryDecode_frame:
  assumes "codec_ok c" "fits c p" "stream_inv b" "content b = frame c p @ rest"
  shows "\<exists>b'. tryDecode c b = (Ret \<lparr>dec_status = Dec_Ok, dec_payload = p\<rparr>, b') \<and>
              stream_inv b' \<and> content b' = rest \<and> m_buffer b' = m_buffer b"
proof -
  let ?k = "m_lengthFieldBytes c"
  let ?v = "of_nat (field_value c (length p)) :: 64 word"
  note fl = frame_lengths [OF assms(1,2)]
  have i: "buffer_inv b" using assms(3) by (simp add: stream_inv_def)
  have lk: "length (field_bytes ?k ?v) = ?k" using length_field_bytes assms(1) by (simp add: codec_ok_def)
  have cb: "content b = field_bytes ?k ?v @ (p @ rest)" using assms(4) by (simp add: frame_def)
  have max: "length p + ?k \<le> m_maxFrameLength c" using assms(2) by (simp add: fits_def)
  show ?thesis
  proof (cases "m_lengthMode c")
    case PayloadOnly
    then have "unat (?v + of_nat ?k) = length p + ?k" "unat ?v = length p"
      using fl(1,3) by (auto simp: field_value_def)
    then show ?thesis using decodeFrame_whole [OF assms(3), of "?v + of_nat ?k" c ?v] max cb lk
        tryDecode_field [OF assms(1) i cb fl(2)] PayloadOnly by (simp add: add.commute)
  next
    case WholeFrame
    then have "unat ?v = length p + ?k" "unat (?v - of_nat ?k) = length p"
      using fl(1,4) by (auto simp: field_value_def)
    then show ?thesis using decodeFrame_whole [OF assms(3), of ?v c "?v - of_nat ?k"] max cb lk
        tryDecode_field [OF assms(1) i cb fl(2)] WholeFrame by (simp add: add.commute)
  qed
qed

lemma tryDecode_partial:
  assumes "codec_ok c" "fits c p" "stream_inv b" "strict_prefix (content b) (frame c p)"
  shows "tryDecode c b = (Ret \<lparr>dec_status = Dec_NeedMoreData, dec_payload = []\<rparr>, b)"
proof -
  let ?k = "m_lengthFieldBytes c"
  let ?v = "of_nat (field_value c (length p)) :: 64 word"
  note fl = frame_lengths [OF assms(1,2)]
  have i: "buffer_inv b" using assms(3) by (simp add: stream_inv_def)
  have lk: "length (field_bytes ?k ?v) = ?k" using length_field_bytes assms(1) by (simp add: codec_ok_def)
  have short: "length (content b) < length p + ?k"
    using prefix_length_less [OF assms(4)] length_frame [OF assms(1)] by simp
  have max: "length p + ?k \<le> m_maxFrameLength c" using assms(2) by (simp add: fits_def)
  show ?thesis
  proof (cases "length (content b) < ?k")
    case True
    then show ?thesis using decode_short i by blast
  next
    case False
    obtain ys where "frame c p = content b @ ys" using assms(4) by (auto simp: strict_prefix_def prefix_def)
    then have "take ?k (frame c p) = take ?k (content b)" using False by simp
    then have "take ?k (content b) = field_bytes ?k ?v" using lk by (simp add: frame_def)
    then have cb: "content b = field_bytes ?k ?v @ drop ?k (content b)" by (metis append_take_drop_id)
    show ?thesis
    proof (cases "m_lengthMode c")
      case PayloadOnly
      then have "unat (?v + of_nat ?k) = length p + ?k" using fl(3) by (auto simp: field_value_def)
      then show ?thesis using decodeFrame_long [OF i] max short
          tryDecode_field [OF assms(1) i cb fl(2)] PayloadOnly by simp
    next
      case WholeFrame
      then have "unat ?v = length p + ?k" using fl(1) by (auto simp: field_value_def)
      then show ?thesis using decodeFrame_long [OF i] max short
          tryDecode_field [OF assms(1) i cb fl(2)] WholeFrame by simp
    qed
  qed
qed

section \<open>Every input\<close>

lemma mem_of_word_of_mem:
  assumes "length xs = n" "8 * n = LENGTH('a)"
  shows "mem_of_word n (word_of_mem xs :: 'a::len word) = xs"
proof (rule nth_equalityI)
  show "length (mem_of_word n (word_of_mem xs :: 'a word)) = length xs" using assms(1) by simp
  fix i assume "i < length (mem_of_word n (word_of_mem xs :: 'a word))"
  then have i: "i < n" by simp
  show "mem_of_word n (word_of_mem xs :: 'a word) ! i = xs ! i"
  proof (rule bit_word_eqI)
    fix j assume j: "j < LENGTH(8)"
    then have "8 * i + j < LENGTH('a)" using i assms(2) by simp
    moreover have "(8 * i + j) div 8 = i" "(8 * i + j) mod 8 = j" using j by simp_all
    ultimately show "bit (mem_of_word n (word_of_mem xs :: 'a word) ! i) j = bit (xs ! i) j"
      using i j assms(1) by (simp add: mem_of_word_def bit_simps bit_word_of_mem)
  qed
qed

lemma be_bytes_surj:
  assumes "length xs = n" "8 * n = LENGTH('a)"
  shows "be_bytes n (word_of_mem (rev xs) :: 'a::len word) = xs"
  using mem_of_word_of_mem [where 'a = 'a, of "rev xs" n] assms by (simp add: be_bytes_def)

lemma ucast_up_down: "LENGTH('a) \<le> 64 \<Longrightarrow> (ucast (ucast (w :: 'a::len word) :: 64 word) :: 'a word) = w"
  by (rule bit_word_eqI) (simp add: bit_simps)

lemma unat_ucast_up: "LENGTH('a) \<le> 64 \<Longrightarrow> unat (ucast (w :: 'a::len word) :: 64 word) < 2 ^ LENGTH('a)"
proof -
  assume a: "LENGTH('a) \<le> 64"
  have "unat w < 2 ^ 64"
    using unat_bound [of w] a by (meson less_le_trans one_le_numeral power_increasing)
  then have "unat (ucast w :: 64 word) = unat w"
    by (simp add: unsigned_ucast_eq take_bit_nat_eq_self)
  then show ?thesis by simp
qed

lemma field_bytes_surj:
  assumes "k \<in> {1, 2, 4, 8}" "length xs = k"
  shows "\<exists>v. unat v < 2 ^ (8 * k) \<and> field_bytes k v = xs"
proof -
  consider "k = 1" | "k = 2" | "k = 4" | "k = 8" using assms(1) by auto
  then show ?thesis
  proof cases
    case 1
    let ?w = "word_of_mem (rev xs) :: 8 word"
    show ?thesis using be_bytes_surj [where 'a = 8, of xs k] 1 assms(2) unat_ucast_up [of ?w]
      by (intro exI [of _ "ucast ?w"]) (simp add: field_bytes_def ucast_up_down)
  next
    case 2
    let ?w = "word_of_mem (rev xs) :: 16 word"
    show ?thesis using be_bytes_surj [where 'a = 16, of xs k] 2 assms(2) unat_ucast_up [of ?w]
      by (intro exI [of _ "ucast ?w"]) (simp add: field_bytes_def ucast_up_down)
  next
    case 3
    let ?w = "word_of_mem (rev xs) :: 32 word"
    show ?thesis using be_bytes_surj [where 'a = 32, of xs k] 3 assms(2) unat_ucast_up [of ?w]
      by (intro exI [of _ "ucast ?w"]) (simp add: field_bytes_def ucast_up_down)
  next
    case 4
    let ?w = "word_of_mem (rev xs) :: 64 word"
    have "unat ?w < 2 ^ 64" using unat_bound [of ?w] by simp
    then show ?thesis using be_bytes_surj [where 'a = 64, of xs k] 4 assms(2)
      by (intro exI [of _ ?w]) (simp add: field_bytes_def)
  qed
qed

text \<open>The case in which the sum of the two lengths wraps around.\<close>

definition length_wraps :: "LengthFieldCodec \<Rightarrow> 64 word \<Rightarrow> bool" where
  "length_wraps c v \<longleftrightarrow> m_lengthMode c = PayloadOnly \<and> 2 ^ 64 \<le> unat v + m_lengthFieldBytes c"

lemma length_wraps_only_8:
  assumes "codec_ok c" "unat v < 2 ^ (8 * m_lengthFieldBytes c)" "length_wraps c v"
  shows "m_lengthFieldBytes c = 8"
  using assms by (auto simp: length_wraps_def codec_ok_def)

text \<open>What \<open>tryDecode\<close> does with a length field that does not wrap.\<close>

definition decode_spec :: "LengthFieldCodec \<Rightarrow> Buffer \<Rightarrow> DecodeResult \<Rightarrow> Buffer \<Rightarrow> bool" where
  "decode_spec c b r b' \<longleftrightarrow> stream_inv b' \<and>
     (if dec_status r = Dec_Ok
      then fits c (dec_payload r) \<and> content b = frame c (dec_payload r) @ content b'
      else dec_payload r = [] \<and> b' = b)"

lemma decodeFrame_spec:
  assumes "codec_ok c" "stream_inv b" "content b = field_bytes (m_lengthFieldBytes c) v @ rest"
    and "unat v < 2 ^ (8 * m_lengthFieldBytes c)"
    and "unat fl = unat pl + m_lengthFieldBytes c" "field_value c (unat pl) = unat v"
  shows "\<exists>r b'. decodeFrame c fl pl b = (Ret r, b') \<and> decode_spec c b r b'"
proof -
  let ?k = "m_lengthFieldBytes c"
  have i: "buffer_inv b" using assms(2) by (simp add: stream_inv_def)
  have lk: "length (field_bytes ?k v) = ?k" using length_field_bytes assms(1) by (simp add: codec_ok_def)
  consider "m_maxFrameLength c < unat fl" | "unat fl \<le> m_maxFrameLength c" "length (content b) < unat fl"
    | "unat fl \<le> m_maxFrameLength c" "unat fl \<le> length (content b)" by linarith
  then show ?thesis
  proof cases
    case 1
    then show ?thesis using assms(2) by (simp add: decodeFrame_def dec_fail_def cpp_simps decode_spec_def)
  next
    case 2
    then show ?thesis using decodeFrame_long [OF i 2] assms(2) by (simp add: decode_spec_def)
  next
    case 3
    let ?p = "take (unat pl) (drop ?k (content b))"
    have kp: "?k + unat pl \<le> length (content b)" using 3 assms(5) by simp
    then have lp: "length ?p = unat pl" by simp
    from decodeFrame_whole [OF assms(2) 3 kp] obtain b' where b':
      "decodeFrame c fl pl b = (Ret \<lparr>dec_status = Dec_Ok, dec_payload = ?p\<rparr>, b')" "stream_inv b'"
      "content b' = drop (?k + unat pl) (content b)" by blast
    have "fits c ?p" using 3 assms(4,5,6) lp by (simp add: fits_def)
    moreover have "frame c ?p = field_bytes ?k v @ ?p" using assms(6) lp by (simp add: frame_def)
    moreover have "content b = field_bytes ?k v @ ?p @ content b'"
      using b'(3) assms(3) lk by simp
    ultimately show ?thesis using b' by (auto simp: decode_spec_def)
  qed
qed

lemma tryDecode_spec:
  assumes "codec_ok c" "stream_inv b" "content b = field_bytes (m_lengthFieldBytes c) v @ rest"
    and "unat v < 2 ^ (8 * m_lengthFieldBytes c)" "\<not> length_wraps c v"
  shows "\<exists>r b'. tryDecode c b = (Ret r, b') \<and> decode_spec c b r b'"
proof -
  let ?k = "m_lengthFieldBytes c"
  have i: "buffer_inv b" using assms(2) by (simp add: stream_inv_def)
  have k: "unat (of_nat ?k :: 64 word) = ?k" using assms(1) by (intro unat_small) (auto simp: codec_ok_def)
  note t = tryDecode_field [OF assms(1) i assms(3,4)]
  show ?thesis
  proof (cases "m_lengthMode c")
    case PayloadOnly
    then have "unat v + ?k < 2 ^ 64" using assms(5) by (simp add: length_wraps_def)
    then have "unat (v + of_nat ?k) = unat v + ?k" by (simp add: unat_word_ariths k)
    moreover have "field_value c (unat v) = unat v" using PayloadOnly by (simp add: field_value_def)
    ultimately show ?thesis using t PayloadOnly decodeFrame_spec [OF assms(1-4)] by simp
  next
    case WholeFrame
    show ?thesis
    proof (cases "unat v < ?k")
      case True
      then show ?thesis using t WholeFrame assms(2) by (simp add: decode_spec_def)
    next
      case False
      then have "unat (v - of_nat ?k) = unat v - ?k"
        using unat_sub [of "of_nat ?k" v] by (simp add: word_le_nat_alt k)
      then have "unat v = unat (v - of_nat ?k) + ?k" "field_value c (unat (v - of_nat ?k)) = unat v"
        using False WholeFrame by (simp_all add: field_value_def)
      then show ?thesis using t WholeFrame False decodeFrame_spec [OF assms(1-4)] by simp
    qed
  qed
qed

lemma content_field:
  assumes "codec_ok c" "m_lengthFieldBytes c \<le> length (content b)"
  shows "\<exists>v rest. content b = field_bytes (m_lengthFieldBytes c) v @ rest \<and>
                  unat v < 2 ^ (8 * m_lengthFieldBytes c)"
proof -
  let ?k = "m_lengthFieldBytes c"
  have "length (take ?k (content b)) = ?k" using assms(2) by simp
  with field_bytes_surj [of ?k "take ?k (content b)"] assms(1) obtain v where
    "unat v < 2 ^ (8 * ?k)" "field_bytes ?k v = take ?k (content b)" by (auto simp: codec_ok_def)
  then show ?thesis by (intro exI [of _ v] exI [of _ "drop ?k (content b)"]) simp
qed

lemma tryDecode_total:
  assumes "codec_ok c" "stream_inv b"
    and "\<And>v rest. content b = field_bytes (m_lengthFieldBytes c) v @ rest \<Longrightarrow> \<not> length_wraps c v"
  shows "\<exists>r b'. tryDecode c b = (Ret r, b') \<and> decode_spec c b r b'"
proof (cases "length (content b) < m_lengthFieldBytes c")
  case True
  then show ?thesis using assms(2) decode_short [of b c] by (simp add: decode_spec_def stream_inv_def)
next
  case False
  then obtain v rest where "content b = field_bytes (m_lengthFieldBytes c) v @ rest"
    "unat v < 2 ^ (8 * m_lengthFieldBytes c)" using content_field [OF assms(1), of b] by auto
  then show ?thesis using tryDecode_spec [OF assms(1,2)] assms(3) by blast
qed

lemma tryDecode_wraps:
  assumes "codec_ok c" "stream_inv b" "content b = field_bytes 8 v @ rest"
    and "m_lengthFieldBytes c = 8" "length_wraps c v" "8 \<le> m_maxFrameLength c"
  shows "\<exists>b'. tryDecode c b = (Throw (Out_of_range ''Buffer::retrieveAsString len out of range''), b') \<and>
              content b' = rest"
proof -
  have i: "buffer_inv b" using assms(2) by (simp add: stream_inv_def)
  have u: "unat v < 2 ^ 64" using unat_bound [of v] by simp
  have po: "m_lengthMode c = PayloadOnly" and w: "2 ^ 64 \<le> unat v + 8"
    using assms(4,5) by (simp_all add: length_wraps_def)
  have fl: "unat (v + 8) = unat v + 8 - 2 ^ 64"
    using u w by (simp add: unat_word_ariths mod_if)
  have l8: "length (field_bytes 8 v) = 8" by (simp add: length_field_bytes)
  from retrieve_stream [OF assms(2), of 8] obtain b1 where b1:
    "retrieve 8 b = (Ret (), b1)" "stream_inv b1" "content b1 = rest" "m_buffer b1 = m_buffer b"
    using assms(3) l8 by auto
  have "length (content b1) \<le> vec_max_size"
    using b1(2) buffer_sizes(5) [of b1] unfolding stream_inv_def buffer_inv_def by linarith
  then have "length (content b1) < unat v" using w by (simp add: vec_max_size_def)
  then have "retrieveAsString (unat v) b1 = (Throw (Out_of_range ''Buffer::retrieveAsString len out of range''), b1)"
    using retrieveAsString_throws b1(2) by (simp add: stream_inv_def)
  moreover have "tryDecode c b = decodeFrame c (v + 8) v b"
    using tryDecode_field [OF assms(1) i, of v rest] assms(3,4) u po by simp
  moreover have "unat (v + 8) \<le> m_maxFrameLength c" "unat (v + 8) \<le> length (content b)"
    using fl u assms(3,6) l8 by simp_all
  ultimately show ?thesis using b1 assms(4) i
    by (simp add: decodeFrame_def cpp_simps buffer_sizes(4))
qed

section \<open>The codec on a stream\<close>

text \<open>
  The loop of \<^verbatim>\<open>TcpConnection::handleCodecMessages\<close> as far as the codec goes: frames are taken from the
  input buffer until \<open>tryDecode\<close> gives another status, which is returned with them; \<open>NeedMoreData\<close> ends the loop and any other one makes the connection report \<open>kCodecError\<close> and close, so that \<open>receive_chunks\<close>,
  which runs the loop after each piece of data that arrives, stops there. Exceptions of \<open>tryDecode\<close> pass through. The fuel bounds the number of frames; a frame is at least one byte long, so one more than
  the number of bytes is enough.
\<close>

primrec drain_frames :: "LengthFieldCodec \<Rightarrow> nat \<Rightarrow> (Buffer, byte list list \<times> DecodeStatus) cpp" where
  "drain_frames c 0 = undef"
| "drain_frames c (Suc fuel) = bind (tryDecode c) (\<lambda>result.
     if dec_status result \<noteq> Dec_Ok then ret ([], dec_status result)
     else bind (drain_frames c fuel) (\<lambda>(ps, st). ret (dec_payload result # ps, st)))"

primrec receive_chunks :: "LengthFieldCodec \<Rightarrow> byte list list \<Rightarrow> (Buffer, byte list list \<times> DecodeStatus) cpp" where
  "receive_chunks c [] = ret ([], Dec_NeedMoreData)"
| "receive_chunks c (d # ds) = seq (append d) (bind (gets (\<lambda>b. Suc (length (content b)))) (\<lambda>fuel.
     bind (drain_frames c fuel) (\<lambda>(ps, st).
       if st \<noteq> Dec_NeedMoreData then ret (ps, st)
       else bind (receive_chunks c ds) (\<lambda>(qs, st'). ret (ps @ qs, st')))))"

text \<open>One turn of the loop as the interface sees it.\<close>

definition decode_step :: "LengthFieldCodec \<Rightarrow> Buffer \<Rightarrow> byte list decoded \<times> Buffer" where
  "decode_step c b =
     (case tryDecode c b of
        (Ret r, b') \<Rightarrow> (if dec_status r = Dec_Ok then Got (dec_payload r) else if dec_status r = Dec_NeedMoreData then More else Broken, b')
      | (_, b') \<Rightarrow> (Broken, b'))"

definition codec_stream_inv :: "LengthFieldCodec \<Rightarrow> Buffer \<Rightarrow> bool" where
  "codec_stream_inv c b \<longleftrightarrow> codec_ok c \<and> stream_inv b"

interpretation fs: framed_stream content "codec_stream_inv c" room
  "\<lambda>d b. snd (append d b)" "\<lambda>n b. snd (retrieve n b)" "decode_step c" "frame c" "fits c"
  for c
proof unfold_locales
  fix b d m rest and n k :: nat
  show "codec_stream_inv c b \<Longrightarrow> room (length d) b \<Longrightarrow> content (snd (append d b)) = content b @ d"
    by (simp add: codec_stream_inv_def nb.put_content)
  show "codec_stream_inv c b \<Longrightarrow> room (length d) b \<Longrightarrow> codec_stream_inv c (snd (append d b))"
    by (simp add: codec_stream_inv_def nb.put_inv)
  show "codec_stream_inv c b \<Longrightarrow> room (length d + n) b \<Longrightarrow> room n (snd (append d b))"
    by (simp add: codec_stream_inv_def nb.put_room)
  show "codec_stream_inv c b \<Longrightarrow> content (snd (retrieve n b)) = drop n (content b)"
    by (simp add: codec_stream_inv_def nb.get_content)
  show "codec_stream_inv c b \<Longrightarrow> codec_stream_inv c (snd (retrieve n b))"
    by (simp add: codec_stream_inv_def nb.get_inv)
  show "codec_stream_inv c b \<Longrightarrow> room k b \<Longrightarrow> room k (snd (retrieve n b))"
    by (simp add: codec_stream_inv_def nb.get_room)
  show "codec_stream_inv c b \<Longrightarrow> fits c m \<Longrightarrow> content b = frame c m @ rest \<Longrightarrow>
        \<exists>b'. decode_step c b = (Got m, b') \<and> codec_stream_inv c b' \<and> content b' = rest"
    using tryDecode_frame [of c m b rest] by (auto simp: codec_stream_inv_def decode_step_def)
  show "codec_stream_inv c b \<Longrightarrow> fits c m \<Longrightarrow> strict_prefix (content b) (frame c m) \<Longrightarrow> decode_step c b = (More, b)"
    using tryDecode_partial [of c m b] by (auto simp: codec_stream_inv_def decode_step_def)
  show "codec_stream_inv c b \<Longrightarrow> content b = [] \<Longrightarrow> decode_step c b = (More, b)"
    using decode_short [of b c] by (auto simp: codec_stream_inv_def decode_step_def stream_inv_def codec_ok_def)
  show "fits c m \<Longrightarrow> frame c m \<noteq> []"
    by (auto simp: frame_def field_bytes_def be_bytes_def mem_of_word_def)
  show "codec_stream_inv c b \<Longrightarrow> fits c m \<Longrightarrow> content b = frame c m @ rest \<Longrightarrow> room n b \<Longrightarrow>
        room n (snd (decode_step c b))"
    using tryDecode_frame [of c m b rest] by (auto simp: codec_stream_inv_def decode_step_def room_def)
qed (rule nb.room_mono)

lemma drain_frames_eq: "fs.drain c fuel b = (ps, True, b') \<Longrightarrow> drain_frames c fuel b = (Ret (ps, Dec_NeedMoreData), b')"
  by (induction fuel arbitrary: b ps) (auto simp: decode_step_def cpp_simps split: prod.splits outcome.splits if_splits)

lemma receive_chunks_messages:
  assumes "codec_stream_inv c b" "list_all (fits c) ps" "content b @ concat chunks = concat (map (frame c) ps)"
    and "case ps of [] \<Rightarrow> content b = [] | p # _ \<Rightarrow> strict_prefix (content b) (frame c p)"
    and "room (length (concat chunks)) b"
  shows "\<exists>b'. receive_chunks c chunks b = (Ret (ps, Dec_NeedMoreData), b') \<and> codec_stream_inv c b' \<and> content b' = []"
  using assms
proof (induction chunks arbitrary: b ps)
  case Nil
  then show ?case using fs.stream_end [of b c ps] by (simp add: cpp_simps)
next
  case (Cons d ds)
  have "room (length d) b" using Cons.prems(5) by (auto intro: nb.room_mono)
  then have "\<exists>b1. append d b = (Ret (), b1)" using append_stream [of b d] Cons.prems(1) by (auto simp: codec_stream_inv_def)
  then obtain b1 where b1: "append d b = (Ret (), b1)" ..
  from Cons.prems(3) have e: "content b @ d @ concat ds = concat (map (frame c) ps)" by simp
  from fs.chunk_step [OF Cons.prems(1,2) e, of "length (concat ds)"] Cons.prems(5)
  obtain qs ps' b2 where q: "ps = qs @ ps'" "fs.drain c (Suc (length (content b1))) b1 = (qs, True, b2)" "codec_stream_inv c b2"
    "content b2 @ concat ds = concat (map (frame c) ps')" "room (length (concat ds)) b2"
    "case ps' of [] \<Rightarrow> content b2 = [] | p # _ \<Rightarrow> strict_prefix (content b2) (frame c p)"
    by (auto simp: b1)
  then obtain b' where "receive_chunks c ds b2 = (Ret (ps', Dec_NeedMoreData), b')" "codec_stream_inv c b'" "content b' = []"
    using Cons.IH [OF q(3) _ q(4,6,5)] Cons.prems(2) by auto
  then show ?case using drain_frames_eq [OF q(2)] q(1) b1 by (simp add: cpp_simps del: drain_frames.simps)
qed

section \<open>Properties\<close>

text \<open>
  C5: message boundaries survive TCP. When the frames of any list of payloads that fit the codec
  arrive cut into chunks of any sizes, decoding after each chunk gives exactly those payloads, in
  order, never another status than \<open>NeedMoreData\<close> in between, never an exception, and leaves the input buffer empty.
\<close>

theorem receive_recovers_payloads:
  assumes "codec_ok c" "list_all (fits c) ps" "stream_inv b" "content b = []"
    and "concat chunks = concat (map (frame c) ps)" "room (length (concat chunks)) b"
  shows "\<exists>b'. receive_chunks c chunks b = (Ret (ps, Dec_NeedMoreData), b') \<and> stream_inv b' \<and> content b' = []"
proof -
  have i: "codec_stream_inv c b" using assms(1,3) by (simp add: codec_stream_inv_def)
  have f: "case ps of [] \<Rightarrow> content b = [] | p # _ \<Rightarrow> strict_prefix (content b) (frame c p)"
  proof (cases ps)
    case (Cons p qs)
    then have "frame c p \<noteq> []" using fs.enc_nonempty assms(2) by simp
    then show ?thesis using Cons assms(4) by (simp add: strict_prefix_def)
  qed (simp add: assms(4))
  have "content b @ concat chunks = concat (map (frame c) ps)" using assms(4,5) by simp
  from receive_chunks_messages [OF i assms(2) this f assms(6)] show ?thesis
    by (auto simp: codec_stream_inv_def)
qed

theorem receive_recovers_payloads_witness:
  "\<exists>b'. receive_chunks \<lparr>m_lengthFieldBytes = 2, m_lengthMode = PayloadOnly, m_maxFrameLength = 100\<rparr>
      [[0], [2, 7], [8, 0, 1, 9]] \<lparr>m_buffer = replicate 10 0, m_readerIndex = 8, m_writerIndex = 8\<rparr>
    = (Ret ([[7, 8], [9]], Dec_NeedMoreData), b') \<and> stream_inv b' \<and> content b' = []"
proof -
  let ?c = "\<lparr>m_lengthFieldBytes = 2, m_lengthMode = PayloadOnly, m_maxFrameLength = 100\<rparr> :: LengthFieldCodec"
  let ?b = "\<lparr>m_buffer = replicate 10 0, m_readerIndex = 8, m_writerIndex = 8\<rparr> :: Buffer"
  have "codec_ok ?c" "list_all (fits ?c) [[7, 8], [9]]" "stream_inv ?b" "content ?b = []"
    by (simp_all add: codec_ok_def size_t_mod_def fits_def field_value_def stream_inv_def buffer_defs)
  moreover have "concat [[0], [2, 7], [8, 0, 1, 9]] = concat (map (frame ?c) [[7, 8], [9]])"
    by (simp add: frame_def field_value_def field_bytes_def be_bytes_def mem_of_word_def upts)
  moreover have "room (length (concat [[0], [2, 7], [8, 0, 1, 9 :: byte]])) ?b" by (simp add: buffer_defs)
  ultimately show ?thesis by (rule receive_recovers_payloads)
qed

text \<open>
  encoding. A payload that fits is appended as one frame to an empty buffer, and a decoder that
  finds those bytes in front of its own gives the payload back and consumes exactly the frame.
\<close>

theorem encode_decode_roundtrip:
  assumes "codec_ok c" "fits c p" "stream_inv b" "room (length p + m_lengthFieldBytes c) b" "content b = []"
    and "stream_inv d" "content d = content (snd (encode c p b)) @ rest"
  shows "fst (encode c p b) = Ret () \<and> content (snd (encode c p b)) = frame c p \<and>
         (\<exists>d'. tryDecode c d = (Ret \<lparr>dec_status = Dec_Ok, dec_payload = p\<rparr>, d') \<and> content d' = rest)"
proof -
  from encode_ok [OF assms(1-4)] assms(5)
  have e: "fst (encode c p b) = Ret ()" "content (snd (encode c p b)) = frame c p" by auto
  with tryDecode_frame [OF assms(1,2,6)] assms(7) show ?thesis by auto
qed

theorem encode_decode_roundtrip_witness:
  "\<exists>d'. content (snd (encode \<lparr>m_lengthFieldBytes = 4, m_lengthMode = WholeFrame, m_maxFrameLength = 64\<rparr> [5, 6]
      \<lparr>m_buffer = replicate 8 0, m_readerIndex = 8, m_writerIndex = 8\<rparr>)) = [0, 0, 0, 6, 5, 6] \<and>
     tryDecode \<lparr>m_lengthFieldBytes = 4, m_lengthMode = WholeFrame, m_maxFrameLength = 64\<rparr>
       \<lparr>m_buffer = replicate 8 0 @ [0, 0, 0, 6, 5, 6, 7], m_readerIndex = 8, m_writerIndex = 15\<rparr>
       = (Ret \<lparr>dec_status = Dec_Ok, dec_payload = [5, 6]\<rparr>, d') \<and> content d' = [7]"
proof -
  let ?c = "\<lparr>m_lengthFieldBytes = 4, m_lengthMode = WholeFrame, m_maxFrameLength = 64\<rparr> :: LengthFieldCodec"
  let ?b = "\<lparr>m_buffer = replicate 8 0, m_readerIndex = 8, m_writerIndex = 8\<rparr> :: Buffer"
  let ?d = "\<lparr>m_buffer = replicate 8 0 @ [0, 0, 0, 6, 5, 6, 7], m_readerIndex = 8, m_writerIndex = 15\<rparr> :: Buffer"
  let ?p = "[5, 6] :: byte list"
  have h: "codec_ok ?c" "fits ?c ?p" "stream_inv ?b" "room (length ?p + m_lengthFieldBytes ?c) ?b"
    "content ?b = []" "stream_inv ?d"
    by (simp_all add: codec_ok_def size_t_mod_def fits_def field_value_def stream_inv_def buffer_defs)
  have f: "frame ?c ?p = [0, 0, 0, 6, 5, 6]"
    by (simp add: frame_def field_value_def field_bytes_def be_bytes_def mem_of_word_def upts)
  have "content (snd (encode ?c ?p ?b)) = [0, 0, 0, 6, 5, 6]"
    using encode_ok [OF h(1-4)] h(5) f by auto
  moreover from this have "content ?d = content (snd (encode ?c ?p ?b)) @ [7]"
    by (simp add: content_def)
  ultimately show ?thesis using encode_decode_roundtrip [OF h, of "[7]"] by auto
qed

text \<open>
  what \<^verbatim>\<open>tryDecode\<close> does with arbitrary bytes, when the length field is shorter than 8 bytes or
  counts the whole frame: it returns. A result \<open>Ok\<close> carries a payload that fits the codec, whose
  frame was in front of the buffer and is consumed; any other result leaves the buffer as it was.
\<close>

theorem tryDecode_sound:
  assumes "codec_ok c" "stream_inv b"
    and "m_lengthFieldBytes c < 8 \<or> m_lengthMode c = WholeFrame"
  shows "\<exists>r b'. tryDecode c b = (Ret r, b') \<and> stream_inv b' \<and>
     (if dec_status r = Dec_Ok
      then fits c (dec_payload r) \<and> content b = frame c (dec_payload r) @ content b'
      else dec_payload r = [] \<and> b' = b)"
proof (cases "length (content b) < m_lengthFieldBytes c")
  case True
  then show ?thesis using assms(2) decode_short [of b c] by (simp add: stream_inv_def)
next
  case False
  then obtain v rest where v: "content b = field_bytes (m_lengthFieldBytes c) v @ rest"
    "unat v < 2 ^ (8 * m_lengthFieldBytes c)" using content_field [OF assms(1), of b] by auto
  have "\<not> length_wraps c v"
    using length_wraps_only_8 [OF assms(1) v(2)] assms(3) by (auto simp: length_wraps_def)
  then show ?thesis using tryDecode_spec [OF assms(1,2) v] by (simp add: decode_spec_def)
qed

theorem tryDecode_sound_witness:
  "\<exists>r b'. tryDecode \<lparr>m_lengthFieldBytes = 1, m_lengthMode = PayloadOnly, m_maxFrameLength = 10\<rparr>
      \<lparr>m_buffer = replicate 8 0 @ [200, 1], m_readerIndex = 8, m_writerIndex = 10\<rparr> = (Ret r, b') \<and> stream_inv b'"
proof -
  let ?c = "\<lparr>m_lengthFieldBytes = 1, m_lengthMode = PayloadOnly, m_maxFrameLength = 10\<rparr> :: LengthFieldCodec"
  let ?b = "\<lparr>m_buffer = replicate 8 0 @ [200, 1], m_readerIndex = 8, m_writerIndex = 10\<rparr> :: Buffer"
  have "codec_ok ?c" "stream_inv ?b" "m_lengthFieldBytes ?c < 8 \<or> m_lengthMode ?c = WholeFrame"
    by (simp_all add: codec_ok_def size_t_mod_def stream_inv_def buffer_defs)
  from tryDecode_sound [OF this] show ?thesis by blast
qed

text \<open>
  the length field that wraps. With an 8-byte field that counts the payload only, a peer that
  sends a length of at least \<open>2 ^ 64 - 8\<close> passes the check against the maximum frame length:
  \<^verbatim>\<open>tryDecode\<close> throws \<^verbatim>\<open>std::out_of_range\<close> instead of reporting \<open>ExceedMaxFrameLength\<close>, with the length
  field already taken from the buffer.
\<close>

theorem tryDecode_length_overflow:
  assumes "codec_ok c" "stream_inv b" "content b = field_bytes 8 v @ rest"
    and "m_lengthFieldBytes c = 8" "m_lengthMode c = PayloadOnly"
    and "2 ^ 64 \<le> unat v + 8" "8 \<le> m_maxFrameLength c"
  shows "\<exists>b'. tryDecode c b = (Throw (Out_of_range ''Buffer::retrieveAsString len out of range''), b') \<and>
              content b' = rest"
  using tryDecode_wraps [OF assms(1-4)] assms(4-7) by (simp add: length_wraps_def)

theorem tryDecode_length_overflow_witness:
  "\<exists>b'. tryDecode \<lparr>m_lengthFieldBytes = 8, m_lengthMode = PayloadOnly, m_maxFrameLength = 1024\<rparr>
      \<lparr>m_buffer = replicate 8 0 @ [255, 255, 255, 255, 255, 255, 255, 255], m_readerIndex = 8, m_writerIndex = 16\<rparr>
    = (Throw (Out_of_range ''Buffer::retrieveAsString len out of range''), b') \<and> content b' = []"
proof -
  let ?c = "\<lparr>m_lengthFieldBytes = 8, m_lengthMode = PayloadOnly, m_maxFrameLength = 1024\<rparr> :: LengthFieldCodec"
  let ?b = "\<lparr>m_buffer = replicate 8 0 @ [255, 255, 255, 255, 255, 255, 255, 255], m_readerIndex = 8, m_writerIndex = 16\<rparr> :: Buffer"
  have c: "codec_ok ?c" "stream_inv ?b"
    by (simp_all add: codec_ok_def size_t_mod_def stream_inv_def buffer_defs)
  have "content ?b = field_bytes 8 18446744073709551615 @ []"
    by (simp add: content_def field_bytes_def be_bytes_def mem_of_word_def upts)
  from tryDecode_length_overflow [OF c this] show ?thesis by simp
qed

text \<open>
  a payload that does not fit is refused with \<^verbatim>\<open>std::length_error\<close> and the output buffer is not
  touched.
\<close>

theorem encode_refuses:
  assumes "codec_ok c" "\<not> fits c p" "length p + m_lengthFieldBytes c < 2 ^ 64"
  shows "\<exists>msg. encode c p b = (Throw (Length_error msg), b)"
  using encode_too_long [OF assms] .

theorem encode_refuses_witness:
  "\<exists>msg. encode \<lparr>m_lengthFieldBytes = 1, m_lengthMode = WholeFrame, m_maxFrameLength = 1000\<rparr> (replicate 255 0)
      \<lparr>m_buffer = replicate 8 0, m_readerIndex = 8, m_writerIndex = 8\<rparr>
    = (Throw (Length_error msg), \<lparr>m_buffer = replicate 8 0, m_readerIndex = 8, m_writerIndex = 8\<rparr>)"
proof -
  let ?c = "\<lparr>m_lengthFieldBytes = 1, m_lengthMode = WholeFrame, m_maxFrameLength = 1000\<rparr> :: LengthFieldCodec"
  have "codec_ok ?c" "\<not> fits ?c (replicate 255 0)" "length (replicate 255 (0::byte)) + m_lengthFieldBytes ?c < 2 ^ 64"
    by (simp_all add: codec_ok_def size_t_mod_def fits_def field_value_def)
  from encode_refuses [OF this] show ?thesis by blast
qed

end
