(* ===== verification/TcpConnection.thy ===== *)
theory TcpConnection
  imports Channel LengthCodec "HOL-Library.Sublist"
begin

text \<open>
  \<^verbatim>\<open>dbase::net::TcpConnection\<close> (\<^verbatim>\<open>code/src/net/tcp_connection.cpp\<close>): the state machine of one connection,
  its output buffer and flow control, and the handlers the event loop calls. What the code leaves to its
  surroundings is explicit:
  \<^item> the callbacks of the user are the parameter \<open>user\<close>, a function on the connection, so that a
    callback may call back into the connection;
  \<^item> the system calls are parameters: \<open>wr\<close> what \<^verbatim>\<open>write\<close> does with the bytes, the list \<open>rs\<close> what the
    \<^verbatim>\<open>readv\<close> calls of one event give and the list \<open>ws\<close> what its \<^verbatim>\<open>write\<close> calls give; a list that
    has ended stands for would-block;
  \<^item> a call from outside of the loop thread queues a functor (\<open>c_pending\<close>), which the loop
    runs later.

  The fields from \<open>c_now\<close> on belong to the surroundings: the clock, the bytes the socket has accepted
  (\<open>c_wire\<close>), the data of the sends the loop has taken up (\<open>c_sent\<close>), what was on the wire and what had been
  sent when the writing side was shut down (\<open>c_fin\<close>), the callbacks called (\<open>c_calls\<close>), the queued
  functors, and the threads inside of \<^verbatim>\<open>shutdown\<close> between its test and its store (\<open>c_passed\<close>).
\<close>

section \<open>State\<close>

datatype State = Disconnected | Connecting | Connected | Disconnecting

datatype OutputOverflowPolicy = Ignore | CloseConnection | ReportError

datatype cb_event =
    Cb_connection | Cb_message | Cb_frame "byte list" | Cb_writeComplete | Cb_close
  | Cb_error int | Cb_highWater nat

datatype cb_kind =
  K_connection | K_message | K_frame | K_writeComplete | K_close | K_error | K_highWater

fun kind :: "cb_event \<Rightarrow> cb_kind" where
  "kind Cb_connection = K_connection"
| "kind Cb_message = K_message"
| "kind (Cb_frame _) = K_frame"
| "kind Cb_writeComplete = K_writeComplete"
| "kind Cb_close = K_close"
| "kind (Cb_error _) = K_error"
| "kind (Cb_highWater _) = K_highWater"

datatype functor_task = F_send "byte list" | F_shutdown | F_forceClose | F_startRead | F_stopRead

record TcpConnection =
  c_name :: string
  c_state :: State
  c_channel :: Channel
  c_in :: Buffer
  c_out :: Buffer
  c_codec :: "LengthFieldCodec option"
  c_maxOut :: nat
  c_policy :: OutputOverflowPolicy
  c_autoFlow :: bool
  c_pauseHigh :: nat
  c_resumeLow :: nat
  c_paused :: bool
  c_edge :: bool
  c_connectedAt :: int
  c_lastActive :: int
  c_lastProbe :: int
  c_hasCb :: "cb_kind \<Rightarrow> bool"
  c_now :: int
  c_wire :: "byte list"
  c_sent :: "byte list list"
  c_fin :: "(byte list \<times> byte list) option"
  c_calls :: "cb_event list"
  c_pending :: "functor_task list"
  c_passed :: nat

type_synonym user = "cb_event \<Rightarrow> TcpConnection \<Rightarrow> TcpConnection"

definition kCodecError :: int where "kCodecError = -1001"
definition kOutputBufferOverflowError :: int where "kOutputBufferOverflowError = -1002"

text \<open>The channel is built in the initialiser list, so its constructor refuses a null loop or an
  invalid descriptor before the body's own test.\<close>

definition mk_TcpConnection :: "bool \<Rightarrow> bool \<Rightarrow> string \<Rightarrow> int \<Rightarrow> TcpConnection outcome" where
  "mk_TcpConnection has_loop valid_fd name now =
     (if \<not> has_loop then Throw (Invalid_argument ''Channel loop is null'')
      else if \<not> valid_fd then Throw (Invalid_argument ''Channel fd is invalid'')
      else obind (mk_Buffer kInitialSize) (\<lambda>b. Ret
        \<lparr>c_name = (if name = [] then ''conn'' else name), c_state = Connecting, c_channel = mk_Channel,
         c_in = b, c_out = b, c_codec = None, c_maxOut = 64 * 1024 * 1024, c_policy = CloseConnection,
         c_autoFlow = False, c_pauseHigh = 0, c_resumeLow = 0, c_paused = False, c_edge = False,
         c_connectedAt = 0, c_lastActive = 0, c_lastProbe = 0, c_hasCb = (\<lambda>_. False),
         c_now = now, c_wire = [], c_sent = [], c_fin = None, c_calls = [], c_pending = [], c_passed = 0\<rparr>))"

section \<open>Helpers\<close>

definition fire :: "user \<Rightarrow> cb_event \<Rightarrow> (TcpConnection, unit) cpp" where
  "fire user ev = (\<lambda>c.
     if c_hasCb c (kind ev) then (Ret (), user ev (c\<lparr>c_calls := c_calls c @ [ev]\<rparr>)) else (Ret (), c))"

definition on_channel :: "(Channel \<Rightarrow> Channel) \<Rightarrow> (TcpConnection, unit) cpp" where
  "on_channel f = modify (\<lambda>c. c\<lparr>c_channel := f (c_channel c)\<rparr>)"

definition on_in :: "(Buffer, 'a) cpp \<Rightarrow> (TcpConnection, 'a) cpp" where
  "on_in m = (\<lambda>c. case m (c_in c) of (r, b) \<Rightarrow> (r, c\<lparr>c_in := b\<rparr>))"

definition on_out :: "(Buffer, 'a) cpp \<Rightarrow> (TcpConnection, 'a) cpp" where
  "on_out m = (\<lambda>c. case m (c_out c) of (r, b) \<Rightarrow> (r, c\<lparr>c_out := b\<rparr>))"

definition setState :: "State \<Rightarrow> (TcpConnection, unit) cpp" where
  "setState st = modify (\<lambda>c. c\<lparr>c_state := st\<rparr>)"

definition queueInLoop :: "functor_task \<Rightarrow> (TcpConnection, unit) cpp" where
  "queueInLoop f = modify (\<lambda>c. c\<lparr>c_pending := c_pending c @ [f]\<rparr>)"

text \<open>\<^verbatim>\<open>Socket::shutdownWrite\<close>.\<close>

definition shutdownWrite :: "(TcpConnection, unit) cpp" where
  "shutdownWrite = modify (\<lambda>c. c\<lparr>c_fin := Some (c_wire c, concat (c_sent c))\<rparr>)"

definition transmitted :: "byte list \<Rightarrow> (TcpConnection, unit) cpp" where
  "transmitted d = modify (\<lambda>c. c\<lparr>c_wire := c_wire c @ d\<rparr>)"

definition touchActive :: "(TcpConnection, unit) cpp" where
  "touchActive = modify (\<lambda>c. c\<lparr>c_lastActive := c_now c, c_lastProbe := 0\<rparr>)"

definition markKeepAliveProbeSent :: "(TcpConnection, unit) cpp" where
  "markKeepAliveProbeSent = modify (\<lambda>c. c\<lparr>c_lastProbe := c_now c\<rparr>)"

definition idleFor :: "TcpConnection \<Rightarrow> int" where
  "idleFor c = (if c_lastActive c = 0 then 0 else (c_now c - c_lastActive c) div 1000)"

definition probeIdleFor :: "TcpConnection \<Rightarrow> int" where
  "probeIdleFor c = (if c_lastProbe c = 0 then 0 else (c_now c - c_lastProbe c) div 1000)"

section \<open>Configuration\<close>

text \<open>The seven setters of callbacks; \<open>on\<close> says whether the function given is non-empty.\<close>

definition setCallback :: "cb_kind \<Rightarrow> bool \<Rightarrow> (TcpConnection, unit) cpp" where
  "setCallback k on = modify (\<lambda>c. c\<lparr>c_hasCb := (c_hasCb c)(k := on)\<rparr>)"

definition setLengthFieldCodec :: "LengthFieldCodec option \<Rightarrow> (TcpConnection, unit) cpp" where
  "setLengthFieldCodec cd = modify (\<lambda>c. c\<lparr>c_codec := cd\<rparr>)"

definition setMaxOutputBufferBytes :: "nat \<Rightarrow> (TcpConnection, unit) cpp" where
  "setMaxOutputBufferBytes bytes = modify (\<lambda>c. c\<lparr>c_maxOut := bytes\<rparr>)"

definition setOutputOverflowPolicy :: "OutputOverflowPolicy \<Rightarrow> (TcpConnection, unit) cpp" where
  "setOutputOverflowPolicy policy = modify (\<lambda>c. c\<lparr>c_policy := policy\<rparr>)"

definition conn_setEdgeTriggered :: "bool \<Rightarrow> (TcpConnection, unit) cpp" where
  "conn_setEdgeTriggered on = modify (\<lambda>c. c\<lparr>c_edge := on\<rparr>)"

section \<open>Closing and errors\<close>

definition handleClose :: "user \<Rightarrow> (TcpConnection, unit) cpp" where
  "handleClose user = bind (gets c_state) (\<lambda>st.
     if st = Disconnected then ret ()
     else seq (setState Disconnected)
         (seq (on_channel disableAll)
         (seq (fire user Cb_connection)
              (fire user Cb_close))))"

definition handleErrorAndClose :: "user \<Rightarrow> int \<Rightarrow> (TcpConnection, unit) cpp" where
  "handleErrorAndClose user err =
     seq (fire user (Cb_error err))
         (if \<not> isWouldBlockError err then handleClose user else ret ())"

text \<open>\<open>err\<close> is what \<^verbatim>\<open>getsockopt(SO_ERROR)\<close> gives.\<close>

definition handleError :: "user \<Rightarrow> int \<Rightarrow> (TcpConnection, unit) cpp" where
  "handleError user err = (if err = 0 then ret () else handleErrorAndClose user err)"

section \<open>Flow control\<close>

definition enableAutoReadFlowControl :: "nat \<Rightarrow> nat \<Rightarrow> (TcpConnection, unit) cpp" where
  "enableAutoReadFlowControl high low =
     (if high = 0
      then modify (\<lambda>c. c\<lparr>c_autoFlow := False, c_pauseHigh := 0, c_resumeLow := 0, c_paused := False\<rparr>)
      else let low' = (if low \<ge> high then high div 2 else low)
           in modify (\<lambda>c. c\<lparr>c_autoFlow := True, c_pauseHigh := high, c_resumeLow := low'\<rparr>))"

definition disableAutoReadFlowControl :: "(TcpConnection, unit) cpp" where
  "disableAutoReadFlowControl =
     modify (\<lambda>c. c\<lparr>c_autoFlow := False, c_pauseHigh := 0, c_resumeLow := 0, c_paused := False\<rparr>)"

definition maybePauseReadForFlowControl :: "(TcpConnection, unit) cpp" where
  "maybePauseReadForFlowControl = modify (\<lambda>c.
     if \<not> c_autoFlow c then c
     else if c_paused c then c
     else if readableBytes (c_out c) < c_pauseHigh c then c
     else (let c' = (if isReading (c_channel c) then c\<lparr>c_channel := disableReading (c_channel c)\<rparr> else c)
           in c'\<lparr>c_paused := True\<rparr>))"

definition maybeResumeReadForFlowControl :: "(TcpConnection, unit) cpp" where
  "maybeResumeReadForFlowControl = modify (\<lambda>c.
     if \<not> c_autoFlow c then c
     else if \<not> c_paused c then c
     else if readableBytes (c_out c) > c_resumeLow c then c
     else (let c' = (if \<not> isReading (c_channel c) then c\<lparr>c_channel := enableReading (c_channel c)\<rparr> else c)
           in c'\<lparr>c_paused := False\<rparr>))"

definition startReadInLoop :: "(TcpConnection, unit) cpp" where
  "startReadInLoop = modify (\<lambda>c.
     (if \<not> isReading (c_channel c) then c\<lparr>c_channel := enableReading (c_channel c)\<rparr> else c)\<lparr>c_paused := False\<rparr>)"

definition stopReadInLoop :: "(TcpConnection, unit) cpp" where
  "stopReadInLoop = modify (\<lambda>c.
     if isReading (c_channel c) then c\<lparr>c_channel := disableReading (c_channel c)\<rparr> else c)"

definition startRead :: "bool \<Rightarrow> (TcpConnection, unit) cpp" where
  "startRead inLoop = (if inLoop then startReadInLoop else queueInLoop F_startRead)"

definition stopRead :: "bool \<Rightarrow> (TcpConnection, unit) cpp" where
  "stopRead inLoop = (if inLoop then stopReadInLoop else queueInLoop F_stopRead)"

section \<open>Sending\<close>

definition handleOutputOverflow :: "user \<Rightarrow> (TcpConnection, unit) cpp" where
  "handleOutputOverflow user = bind (gets c_policy) (\<lambda>p.
     case p of
       Ignore \<Rightarrow> ret ()
     | CloseConnection \<Rightarrow> seq (fire user (Cb_error kOutputBufferOverflowError)) (handleClose user)
     | ReportError \<Rightarrow> fire user (Cb_error kOutputBufferOverflowError))"

definition handleOutputBufferAppend :: "user \<Rightarrow> byte list \<Rightarrow> (TcpConnection, bool) cpp" where
  "handleOutputBufferAppend user data =
     bind (gets (\<lambda>c. (readableBytes (c_out c), c_maxOut c))) (\<lambda>(oldBytes, maxOut).
       let newBytes = sz_add oldBytes (length data) in
       if newBytes > maxOut then seq (handleOutputOverflow user) (ret False)
       else seq (on_out (append data))
           (seq (if oldBytes < maxOut \<and> newBytes \<ge> maxOut then fire user (Cb_highWater newBytes) else ret ())
                (ret True)))"

definition sendInLoop :: "user \<Rightarrow> (byte list \<Rightarrow> sys_write) \<Rightarrow> byte list \<Rightarrow> (TcpConnection, unit) cpp" where
  "sendInLoop user wr data = bind (gets c_state) (\<lambda>st.
     if st = Disconnected \<or> data = [] then ret ()
     else seq (modify (\<lambda>c. c\<lparr>c_sent := c_sent c @ [data]\<rparr>))
       (bind (gets (\<lambda>c. \<not> isWriting (c_channel c) \<and> readableBytes (c_out c) = 0)) (\<lambda>direct.
        if direct
        then (case wr data of
                Sys_wrote n \<Rightarrow>
                  seq (transmitted (take n data))
                    (if n < length data
                     then bind (handleOutputBufferAppend user (drop n data)) (\<lambda>ok.
                            if \<not> ok then ret ()
                            else seq (on_channel enableWriting) maybePauseReadForFlowControl)
                     else fire user Cb_writeComplete)
              | Sys_write_err err \<Rightarrow>
                  if isWouldBlockError err
                  then bind (handleOutputBufferAppend user data) (\<lambda>ok.
                         if \<not> ok then ret ()
                         else seq (on_channel enableWriting) maybePauseReadForFlowControl)
                  else handleErrorAndClose user err)
        else bind (handleOutputBufferAppend user data) (\<lambda>ok.
               if \<not> ok then ret ()
               else seq (bind (gets (\<lambda>c. isWriting (c_channel c))) (\<lambda>w.
                           if \<not> w then on_channel enableWriting else ret ()))
                        maybePauseReadForFlowControl))))"

definition send :: "user \<Rightarrow> bool \<Rightarrow> (byte list \<Rightarrow> sys_write) \<Rightarrow> byte list \<Rightarrow> (TcpConnection, unit) cpp" where
  "send user inLoop wr data = bind (gets c_state) (\<lambda>st.
     if st = Disconnected \<or> data = [] then ret ()
     else if inLoop then sendInLoop user wr data else queueInLoop (F_send data))"

text \<open>\<^verbatim>\<open>send(Buffer&)\<close>: gives the buffer back, emptied.\<close>

definition send_buffer :: "user \<Rightarrow> bool \<Rightarrow> (byte list \<Rightarrow> sys_write) \<Rightarrow> Buffer \<Rightarrow> (TcpConnection, Buffer) cpp" where
  "send_buffer user inLoop wr b = bind (lift (readableView b)) (\<lambda>d.
     seq (send user inLoop wr d) (ret (snd (retrieveAll b))))"

definition encodeFrame :: "LengthFieldCodec \<Rightarrow> byte list \<Rightarrow> Buffer outcome" where
  "encodeFrame cd payload =
     obind (mk_Buffer kInitialSize) (\<lambda>b.
       case encode cd payload b of
         (Ret _, b') \<Rightarrow> Ret b'
       | (Throw e, _) \<Rightarrow> Throw e
       | (Undef, _) \<Rightarrow> Undef)"

definition sendFrame :: "user \<Rightarrow> bool \<Rightarrow> (byte list \<Rightarrow> sys_write) \<Rightarrow> byte list \<Rightarrow> (TcpConnection, unit) cpp" where
  "sendFrame user inLoop wr payload = bind (gets c_codec) (\<lambda>cd.
     case cd of
       None \<Rightarrow> send user inLoop wr payload
     | Some cd \<Rightarrow> bind (lift (encodeFrame cd payload)) (\<lambda>b.
         bind (send_buffer user inLoop wr b) (\<lambda>_. ret ())))"

section \<open>Shutting down\<close>

definition shutdownInLoop :: "(TcpConnection, unit) cpp" where
  "shutdownInLoop = bind (gets c_state) (\<lambda>st.
     if st = Disconnected then ret ()
     else bind (gets (\<lambda>c. \<not> isWriting (c_channel c) \<and> readableBytes (c_out c) = 0)) (\<lambda>idle.
       if idle then shutdownWrite else ret ()))"

definition shutdown :: "bool \<Rightarrow> (TcpConnection, unit) cpp" where
  "shutdown inLoop = bind (gets c_state) (\<lambda>st.
     if st \<noteq> Connected then ret ()
     else seq (setState Disconnecting) (if inLoop then shutdownInLoop else queueInLoop F_shutdown))"

text \<open>From another thread the test and the store of \<^verbatim>\<open>shutdown\<close> are two steps, between which the loop
  may run.\<close>

definition shutdown_test :: "(TcpConnection, unit) cpp" where
  "shutdown_test = bind (gets c_state) (\<lambda>st.
     if st \<noteq> Connected then ret () else modify (\<lambda>c. c\<lparr>c_passed := Suc (c_passed c)\<rparr>))"

definition shutdown_store :: "(TcpConnection, unit) cpp" where
  "shutdown_store = bind (gets c_passed) (\<lambda>n.
     if n = 0 then ret ()
     else seq (modify (\<lambda>c. c\<lparr>c_passed := n - 1\<rparr>)) (seq (setState Disconnecting) (queueInLoop F_shutdown)))"

definition forceCloseInLoop :: "user \<Rightarrow> (TcpConnection, unit) cpp" where
  "forceCloseInLoop user = bind (gets c_state) (\<lambda>st.
     if st = Disconnected then ret () else handleClose user)"

definition forceClose :: "user \<Rightarrow> bool \<Rightarrow> (TcpConnection, unit) cpp" where
  "forceClose user inLoop = bind (gets c_state) (\<lambda>st.
     if st = Disconnected then ret ()
     else if inLoop then forceCloseInLoop user else queueInLoop F_forceClose)"

section \<open>The handlers of the event loop\<close>

text \<open>The loop of \<^verbatim>\<open>handleCodecMessages\<close>. A frame takes at least one byte from the input buffer, so the
  number of readable bytes plus one is fuel enough unless a callback adds input.\<close>

primrec handleCodecMessages :: "nat \<Rightarrow> user \<Rightarrow> LengthFieldCodec \<Rightarrow> (TcpConnection, unit) cpp" where
  "handleCodecMessages 0 user cd = undef"
| "handleCodecMessages (Suc fuel) user cd = bind (on_in (tryDecode cd)) (\<lambda>result.
     if dec_status result = Dec_NeedMoreData then ret ()
     else if dec_status result \<noteq> Dec_Ok
       then seq (fire user (Cb_error kCodecError)) (handleClose user)
     else seq (fire user (Cb_frame (dec_payload result))) (handleCodecMessages fuel user cd))"

definition handleInput :: "user \<Rightarrow> (TcpConnection, unit) cpp" where
  "handleInput user = bind (gets (\<lambda>c. (c_codec c, c_hasCb c K_frame, c_hasCb c K_message, readableBytes (c_in c))))
     (\<lambda>(cd, frame, message, n).
       case cd of
         Some cd \<Rightarrow> if frame then handleCodecMessages (Suc n) user cd
                    else if message then fire user Cb_message else ret ()
       | None \<Rightarrow> if message then fire user Cb_message else ret ())"

primrec handleRead :: "user \<Rightarrow> (int \<Rightarrow> string) \<Rightarrow> (nat list \<Rightarrow> sys_read) list \<Rightarrow> (TcpConnection, unit) cpp" where
  "handleRead user strerror [] = ret ()"
| "handleRead user strerror (rd # rs) = bind (on_in (readFdResult strerror rd)) (\<lambda>res.
     case res of
       Fail e \<Rightarrow> handleErrorAndClose user (code_int (m_code e))
     | Value r \<Rightarrow>
         (case io_status r of
            Io_Ok \<Rightarrow> seq touchActive (seq (handleInput user) (handleRead user strerror rs))
          | Io_WouldBlock \<Rightarrow> ret ()
          | Io_EndOfFile \<Rightarrow> handleClose user
          | Io_Empty \<Rightarrow> ret ()))"

text \<open>The end of \<^verbatim>\<open>handleWrite\<close>, after its loop was left with the buffer empty.\<close>

definition writeFinished :: "user \<Rightarrow> (TcpConnection, unit) cpp" where
  "writeFinished user = bind (gets (\<lambda>c. readableBytes (c_out c))) (\<lambda>n.
     if n > 0 then ret ()
     else seq (on_channel disableWriting)
         (seq maybeResumeReadForFlowControl
         (seq (fire user Cb_writeComplete)
         (bind (gets c_state) (\<lambda>st. if st = Disconnecting then shutdownInLoop else ret ())))))"

definition transmit :: "(int \<Rightarrow> string) \<Rightarrow> (byte list \<Rightarrow> sys_write) \<Rightarrow> (TcpConnection, IoResult Result) cpp" where
  "transmit strerror w = bind (gets (\<lambda>c. content (c_out c))) (\<lambda>d.
     bind (on_out (writeFdResult strerror w)) (\<lambda>res.
       seq (transmitted (take (io_count res) d)) (ret res)))"

primrec writeLoop :: "user \<Rightarrow> (int \<Rightarrow> string) \<Rightarrow> (byte list \<Rightarrow> sys_write) list \<Rightarrow> (TcpConnection, unit) cpp" where
  "writeLoop user strerror [] = bind (gets (\<lambda>c. readableBytes (c_out c))) (\<lambda>n.
     if n > 0 then ret () else writeFinished user)"
| "writeLoop user strerror (w # ws) = bind (gets (\<lambda>c. readableBytes (c_out c))) (\<lambda>n.
     if n = 0 then writeFinished user
     else bind (transmit strerror w) (\<lambda>res.
       case res of
         Fail e \<Rightarrow> handleErrorAndClose user (code_int (m_code e))
       | Value r \<Rightarrow>
           (case io_status r of
              Io_Ok \<Rightarrow> seq maybeResumeReadForFlowControl (writeLoop user strerror ws)
            | Io_WouldBlock \<Rightarrow> ret ()
            | Io_EndOfFile \<Rightarrow> handleClose user
            | Io_Empty \<Rightarrow> writeFinished user)))"

definition handleWrite :: "user \<Rightarrow> (int \<Rightarrow> string) \<Rightarrow> (byte list \<Rightarrow> sys_write) list \<Rightarrow> (TcpConnection, unit) cpp" where
  "handleWrite user strerror ws = bind (gets (\<lambda>c. isWriting (c_channel c))) (\<lambda>w.
     if \<not> w then ret () else writeLoop user strerror ws)"

definition handleEvent :: "user \<Rightarrow> (int \<Rightarrow> string) \<Rightarrow> int \<Rightarrow> (nat list \<Rightarrow> sys_read) list \<Rightarrow>
    (byte list \<Rightarrow> sys_write) list \<Rightarrow> (TcpConnection, unit) cpp" where
  "handleEvent user strerror err rs ws =
     handleEventWithGuard (\<lambda>c. ch_revents (c_channel c)) (handleError user err)
       (handleRead user strerror rs) (handleWrite user strerror ws) (handleClose user)"

definition connectEstablished :: "user \<Rightarrow> (TcpConnection, unit) cpp" where
  "connectEstablished user = bind (gets c_state) (\<lambda>st.
     if st \<noteq> Connecting then throw (Logic_error ''TcpConnection::connectEstablished invalid state'')
     else seq (setState Connected)
         (seq (modify (\<lambda>c. c\<lparr>c_connectedAt := c_now c, c_lastActive := c_now c, c_lastProbe := 0\<rparr>))
         (seq (bind (gets c_edge) (\<lambda>e. on_channel (setEdgeTriggered e)))
         (seq (on_channel tie)
         (seq (on_channel enableReading)
              (fire user Cb_connection))))))"

definition connectDestroyed :: "user \<Rightarrow> (TcpConnection, unit) cpp" where
  "connectDestroyed user = bind (gets c_state) (\<lambda>oldState.
     seq (if oldState \<noteq> Disconnected then seq (setState Disconnected) (fire user Cb_connection) else ret ())
    (seq (on_channel disableAll) (on_channel removeChannel)))"

text \<open>One functor of \<^verbatim>\<open>doPendingFunctors\<close>.\<close>

definition runPending :: "user \<Rightarrow> (byte list \<Rightarrow> sys_write) \<Rightarrow> (TcpConnection, unit) cpp" where
  "runPending user wr = bind (gets c_pending) (\<lambda>fs.
     case fs of
       [] \<Rightarrow> ret ()
     | f # fs' \<Rightarrow> seq (modify (\<lambda>c. c\<lparr>c_pending := fs'\<rparr>))
         (case f of
            F_send d \<Rightarrow> sendInLoop user wr d
          | F_shutdown \<Rightarrow> shutdownInLoop
          | F_forceClose \<Rightarrow> forceCloseInLoop user
          | F_startRead \<Rightarrow> startReadInLoop
          | F_stopRead \<Rightarrow> stopReadInLoop))"

end
