(* ===== verification/TcpStream.thy ===== *)
theory TcpStream
  imports TcpConnection
begin

text \<open>
  The output side of \<^verbatim>\<open>TcpConnection\<close>: the invariant that ties the wire, the output buffer, the poller and
  the data sent, that every function and handler keeps it, and the theorem for any sequence of calls and
  events. The callbacks of the user are any functions that keep the invariant themselves, in particular programs of calls of the connection, nested to any depth (\<open>program_callbacks_ok\<close>).
\<close>

section \<open>The output side never loses or reorders bytes\<close>

definition out_stream :: "TcpConnection \<Rightarrow> byte list" where
  "out_stream c = c_wire c @ content (c_out c)"

text \<open>
  \<open>base_ok\<close>: the buffer is valid and within its limit, what has left or will leave the connection is a
  prefix of what was sent, and a shutdown of the writing side found everything on the wire.
  \<open>out_ok\<close>: until the connection is closed nothing of what was sent is missing. \<open>writing_ok\<close>: until
  then the poller watches for writability exactly while bytes are waiting.
\<close>

definition base_ok :: "TcpConnection \<Rightarrow> bool" where
  "base_ok c \<longleftrightarrow> stream_inv (c_out c) \<and> length (m_buffer (c_out c)) \<le> 2 ^ 62 \<and>
     length (content (c_out c)) \<le> 2 ^ 60 \<and> c_maxOut c \<le> 2 ^ 60 \<and> c_policy c = CloseConnection \<and>
     prefix (out_stream c) (concat (c_sent c)) \<and> (\<forall>w s. c_fin c = Some (w, s) \<longrightarrow> w = s) \<and>
     channel_inv (c_channel c) \<and> (\<forall>d. F_send d \<in> set (c_pending c) \<longrightarrow> length d \<le> vec_max_size)"

definition all_taken :: "TcpConnection \<Rightarrow> bool" where
  "all_taken c \<longleftrightarrow> (c_state c \<noteq> Disconnected \<longrightarrow> out_stream c = concat (c_sent c))"

definition writing_ok :: "TcpConnection \<Rightarrow> bool" where
  "writing_ok c \<longleftrightarrow> (c_state c \<noteq> Disconnected \<longrightarrow> isWriting (c_channel c) = (content (c_out c) \<noteq> []))"

definition out_ok :: "TcpConnection \<Rightarrow> bool" where
  "out_ok c \<longleftrightarrow> base_ok c \<and> all_taken c"

definition conn_ok :: "TcpConnection \<Rightarrow> bool" where
  "conn_ok c \<longleftrightarrow> base_ok c \<and> all_taken c \<and> writing_ok c"

text \<open>
  What the callbacks may do: anything that keeps the connection in order, so in particular any calls of
  its functions; a closed connection stays closed. The error callback runs while the failed data is missing, and must not send then;
  the high water mark callback runs before the poller is told to watch for writability.
\<close>

definition callbacks_ok :: "user \<Rightarrow> bool" where
  "callbacks_ok user \<longleftrightarrow> (\<forall>ev c.
     (conn_ok c \<longrightarrow> conn_ok (user ev c)) \<and>
     (c_state c = Disconnected \<longrightarrow> c_state (user ev c) = Disconnected) \<and>
     (kind ev = K_error \<and> base_ok c \<longrightarrow> base_ok (user ev c)) \<and>
     (kind ev = K_highWater \<and> out_ok c \<and> content (c_out c) \<noteq> [] \<longrightarrow>
        out_ok (user ev c) \<and> content (c_out (user ev c)) \<noteq> []))"

lemmas conn_defs = conn_ok_def base_ok_def all_taken_def writing_ok_def out_stream_def

lemma conn_ok_base: "conn_ok c \<Longrightarrow> base_ok c" "conn_ok c \<Longrightarrow> out_ok c" "out_ok c \<Longrightarrow> base_ok c"
  by (simp_all add: conn_ok_def out_ok_def)

lemma conn_ok_closed: "c_state c = Disconnected \<Longrightarrow> conn_ok c \<longleftrightarrow> base_ok c"
  by (simp add: conn_ok_def all_taken_def writing_ok_def)

lemma readable_out: "base_ok c \<Longrightarrow> readableBytes (c_out c) = length (content (c_out c))"
  using buffer_sizes(4) [of "c_out c"] by (simp add: base_ok_def stream_inv_def)

text \<open>The invariants do not look at the input side, the clock or the callback log.\<close>

lemma conn_ok_frame [simp]:
  "base_ok (c\<lparr>c_calls := x\<rparr>) = base_ok c" "conn_ok (c\<lparr>c_calls := x\<rparr>) = conn_ok c" "out_ok (c\<lparr>c_calls := x\<rparr>) = out_ok c"
  "conn_ok (c\<lparr>c_in := b\<rparr>) = conn_ok c"
  "conn_ok (c\<lparr>c_lastActive := t, c_lastProbe := u\<rparr>) = conn_ok c"
  "conn_ok (c\<lparr>c_connectedAt := s, c_lastActive := t, c_lastProbe := u\<rparr>) = conn_ok c"
  "conn_ok (c\<lparr>c_now := t\<rparr>) = conn_ok c"
  by (simp_all add: conn_defs out_ok_def)

text \<open>Channel operations that leave the write interest alone.\<close>

lemma conn_ok_channel:
  assumes "conn_ok c" "channel_inv ch" "isWriting ch = isWriting (c_channel c)"
  shows "conn_ok (c\<lparr>c_channel := ch\<rparr>)" "conn_ok (c\<lparr>c_channel := ch, c_paused := p\<rparr>)"
  using assms by (simp_all add: conn_defs)

lemma conn_ok_paused: "conn_ok (c\<lparr>c_paused := p\<rparr>) = conn_ok c"
  by (simp add: conn_defs)

lemma conn_ok_channel_inv: "conn_ok c \<Longrightarrow> channel_inv (c_channel c)"
  by (simp add: conn_defs)

lemmas flow_defs = maybePauseReadForFlowControl_def maybeResumeReadForFlowControl_def startReadInLoop_def
  stopReadInLoop_def enableAutoReadFlowControl_def disableAutoReadFlowControl_def

lemma keeps_flow [keeps_intros]:
  "keeps conn_ok maybePauseReadForFlowControl" "keeps conn_ok maybeResumeReadForFlowControl"
  "keeps conn_ok startReadInLoop" "keeps conn_ok stopReadInLoop"
  "keeps conn_ok (enableAutoReadFlowControl h l)" "keeps conn_ok disableAutoReadFlowControl"
  unfolding flow_defs Let_def
       apply (rule keeps_modify, simp add: conn_ok_channel conn_ok_channel_inv channel_ops_inv conn_ok_paused)+
   apply (rule keeps_if; rule keeps_modify; simp add: conn_defs)
  apply (rule keeps_modify, simp add: conn_defs)
  done

lemma keeps_input [keeps_intros]: "keeps conn_ok (on_in m)" "keeps conn_ok touchActive"
  by (auto simp: keeps_def on_in_def touchActive_def cpp_simps split: prod.splits)

section \<open>Callbacks and closing\<close>

lemma fire_conn_ok [keeps_intros]: "callbacks_ok user \<Longrightarrow> keeps conn_ok (fire user ev)"
  by (auto simp: keeps_def fire_def callbacks_ok_def)

lemma fire_error_base: "callbacks_ok user \<Longrightarrow> base_ok c \<Longrightarrow> base_ok (snd (fire user (Cb_error e) c))"
  by (simp add: fire_def callbacks_ok_def)

lemma fire_Ret: "\<exists>c'. fire user ev c = (Ret (), c')"
  by (simp add: fire_def)

lemma handleClose_ok:
  assumes "callbacks_ok user" "base_ok c"
  shows "conn_ok (snd (handleClose user c))"
proof (cases "c_state c = Disconnected")
  case True
  then show ?thesis using assms(2) by (simp add: handleClose_def cpp_simps conn_ok_closed)
next
  case False
  let ?c = "c\<lparr>c_state := Disconnected, c_channel := disableAll (c_channel c)\<rparr>"
  have "conn_ok ?c" using assms(2) by (simp add: conn_ok_closed) (auto simp: base_ok_def out_stream_def)
  moreover have "keeps conn_ok (seq (fire user Cb_connection) (fire user Cb_close))"
    by (intro keeps_intros assms)
  moreover have "snd (handleClose user c) = snd (seq (fire user Cb_connection) (fire user Cb_close) ?c)"
    using False by (simp add: handleClose_def cpp_simps setState_def on_channel_def)
  ultimately show ?thesis by (metis keepsD)
qed

lemma handleClose_keeps [keeps_intros]: "callbacks_ok user \<Longrightarrow> keeps conn_ok (handleClose user)"
  by (rule keepsI) (simp add: handleClose_ok conn_ok_base)

lemma error_and_close_ok:
  assumes "callbacks_ok user" "base_ok c" "\<not> isWouldBlockError e"
  shows "conn_ok (snd (handleErrorAndClose user e c))"
proof -
  obtain c' where f: "fire user (Cb_error e) c = (Ret (), c')" using fire_Ret by blast
  then have "base_ok c'" using fire_error_base [OF assms(1,2), of e] by simp
  then show ?thesis using handleClose_ok [OF assms(1)] f assms(3) by (simp add: handleErrorAndClose_def cpp_simps)
qed

lemma handleErrorAndClose_keeps [keeps_intros]: "callbacks_ok user \<Longrightarrow> keeps conn_ok (handleErrorAndClose user e)"
  unfolding handleErrorAndClose_def by (intro keeps_intros)

lemma overflow_ok:
  assumes "callbacks_ok user" "base_ok c"
  shows "conn_ok (snd (handleOutputOverflow user c))" "\<exists>c'. handleOutputOverflow user c = (Ret (), c')"
proof -
  obtain c' where f: "fire user (Cb_error kOutputBufferOverflowError) c = (Ret (), c')" using fire_Ret by blast
  then have b: "base_ok c'" using fire_error_base [OF assms, of kOutputBufferOverflowError] by simp
  have r: "handleOutputOverflow user c = handleClose user c'"
    using f assms(2) by (simp add: handleOutputOverflow_def cpp_simps base_ok_def)
  show "conn_ok (snd (handleOutputOverflow user c))" using handleClose_ok [OF assms(1) b] r by simp
  show "\<exists>c'. handleOutputOverflow user c = (Ret (), c')"
    unfolding r by (simp add: handleClose_def cpp_simps setState_def on_channel_def fire_def)
qed

section \<open>Sending\<close>

lemma append_output_ok:
  assumes cb: "callbacks_ok user" and b: "base_ok c" and d: "d \<noteq> []" "length d \<le> vec_max_size"
    and s: "out_stream c @ d = concat (c_sent c)"
  shows "\<exists>ok c'. handleOutputBufferAppend user d c = (Ret ok, c') \<and>
    (if ok then out_ok c' \<and> content (c_out c') \<noteq> [] else conn_ok c')"
proof -
  let ?n = "length (content (c_out c))"
  have rb: "readableBytes (c_out c) = ?n" using b by (rule readable_out)
  have lens: "?n \<le> 2 ^ 60" "c_maxOut c \<le> 2 ^ 60" using b by (simp_all add: base_ok_def)
  have new: "sz_add ?n (length d) = ?n + length d"
    using lens d(2) by (simp add: sz_simps size_t_mod_def vec_max_size_def)
  show ?thesis
  proof (cases "?n + length d > c_maxOut c")
    case True
    obtain c' where "handleOutputOverflow user c = (Ret (), c')" "conn_ok c'"
      using overflow_ok [OF cb b] by (metis snd_conv)
    with True have "handleOutputBufferAppend user d c = (Ret False, c')" "conn_ok c'"
      by (simp_all add: handleOutputBufferAppend_def cpp_simps rb new)
    then show ?thesis by (intro exI [of _ False] exI [of _ c']) simp
  next
    case False
    have "room (length d) (c_out c)" using b False lens by (simp add: room_def base_ok_def kCheapPrepend_def)
    moreover have "stream_inv (c_out c)" using b by (simp add: base_ok_def)
    ultimately obtain o' where o': "append d (c_out c) = (Ret (), o')" "stream_inv o'"
      "content o' = content (c_out c) @ d" "length (m_buffer o') \<le> 2 ^ 62" using append_stream by blast
    let ?c = "c\<lparr>c_out := o'\<rparr>"
    have ok: "out_ok ?c" using b s o' False lens
      by (auto simp: out_ok_def base_ok_def all_taken_def out_stream_def)
    have ne: "content (c_out ?c) \<noteq> []" using o' d(1) by simp
    have h: "\<exists>c'. fire user (Cb_highWater m) ?c = (Ret (), c') \<and> out_ok c' \<and> content (c_out c') \<noteq> []" for m
      using cb ok ne by (auto simp: fire_def callbacks_ok_def)
    show ?thesis
    proof (cases "?n < c_maxOut c \<and> c_maxOut c \<le> ?n + length d")
      case True
      obtain c' where "fire user (Cb_highWater (?n + length d)) ?c = (Ret (), c')" "out_ok c'" "content (c_out c') \<noteq> []"
        using h by blast
      moreover from this True False o'(1) d(1) have "handleOutputBufferAppend user d c = (Ret True, c')"
        by (simp add: handleOutputBufferAppend_def cpp_simps rb new on_out_def)
      ultimately show ?thesis by (intro exI [of _ True] exI [of _ c']) simp
    next
      case no: False
      with False o'(1) have "handleOutputBufferAppend user d c = (Ret True, ?c)"
        by (auto simp: handleOutputBufferAppend_def cpp_simps rb new on_out_def)
      with ok ne show ?thesis by (intro exI [of _ True] exI [of _ ?c]) simp
    qed
  qed
qed

lemma watch_writing_ok:
  assumes "out_ok c" "content (c_out c) \<noteq> []"
  shows "conn_ok (c\<lparr>c_channel := enableWriting (c_channel c)\<rparr>)"
  using assms by (auto simp: conn_defs out_ok_def)

lemma append_and_watch_ok:
  assumes "callbacks_ok user" "base_ok c" "d \<noteq> []" "length d \<le> vec_max_size"
    and "out_stream c @ d = concat (c_sent c)"
  shows "conn_ok (snd (bind (handleOutputBufferAppend user d) (\<lambda>ok.
      if \<not> ok then ret () else seq (on_channel enableWriting) maybePauseReadForFlowControl) c))"
    and "conn_ok (snd (bind (handleOutputBufferAppend user d) (\<lambda>ok.
      if \<not> ok then ret ()
      else seq (bind (gets (\<lambda>c. isWriting (c_channel c))) (\<lambda>w. if \<not> w then on_channel enableWriting else ret ()))
               maybePauseReadForFlowControl) c))"
proof -
  obtain ok c' where h: "handleOutputBufferAppend user d c = (Ret ok, c')"
    "if ok then out_ok c' \<and> content (c_out c') \<noteq> [] else conn_ok c'"
    using append_output_ok [OF assms] by blast
  note pause = keepsD [OF keeps_flow(1)]
  show "conn_ok (snd (bind (handleOutputBufferAppend user d) (\<lambda>ok.
      if \<not> ok then ret () else seq (on_channel enableWriting) maybePauseReadForFlowControl) c))"
    using h pause [OF watch_writing_ok, of c'] by (auto simp: cpp_simps on_channel_def split: if_splits)
  have "isWriting (c_channel c') \<Longrightarrow> ok \<Longrightarrow> conn_ok c'"
    using h by (simp add: out_ok_def conn_ok_def writing_ok_def)
  then show "conn_ok (snd (bind (handleOutputBufferAppend user d) (\<lambda>ok.
      if \<not> ok then ret ()
      else seq (bind (gets (\<lambda>c. isWriting (c_channel c))) (\<lambda>w. if \<not> w then on_channel enableWriting else ret ()))
               maybePauseReadForFlowControl) c))"
    using h pause [OF watch_writing_ok, of c'] pause [of c']
    by (auto simp: cpp_simps on_channel_def split: if_splits)
qed


lemma sendInLoop_ok:
  assumes cb: "callbacks_ok user" and c: "conn_ok c" and d: "length d \<le> vec_max_size"
  shows "conn_ok (snd (sendInLoop user wr d c))"
proof (cases "c_state c = Disconnected \<or> d = []")
  case True
  then show ?thesis using c by (simp add: sendInLoop_def cpp_simps)
next
  case False
  let ?s = "c\<lparr>c_sent := c_sent c @ [d]\<rparr>"
  have eq: "out_stream c = concat (c_sent c)" using c False by (simp add: conn_defs)
  have b: "base_ok ?s" using c eq by (auto simp: conn_defs)
  have s: "out_stream ?s @ d = concat (c_sent ?s)" using eq by (simp add: out_stream_def)
  note watch = append_and_watch_ok [OF cb b _ d s]
  show ?thesis
  proof (cases "\<not> isWriting (c_channel c) \<and> readableBytes (c_out c) = 0")
    case direct: True
    have e: "content (c_out c) = []" using direct readable_out conn_ok_base(1) [OF c] by simp
    show ?thesis
    proof (cases "wr d")
      case (Sys_wrote n)
      let ?t = "?s\<lparr>c_wire := c_wire c @ take n d\<rparr>"
      have bt: "base_ok ?t" using c eq e by (auto simp: conn_defs take_is_prefix)
      have st: "out_stream ?t @ drop n d = concat (c_sent ?t)" using eq e by (simp add: out_stream_def)
      show ?thesis
      proof (cases "n < length d")
        case True
        have "snd (sendInLoop user wr d c) = snd (bind (handleOutputBufferAppend user (drop n d)) (\<lambda>ok.
            if \<not> ok then ret () else seq (on_channel enableWriting) maybePauseReadForFlowControl) ?t)"
          using False direct Sys_wrote True by (simp add: sendInLoop_def cpp_simps transmitted_def)
        then show ?thesis using append_and_watch_ok(1) [OF cb bt _ _ st] True d by simp
      next
        case fin: False
        have "conn_ok ?t" using bt st fin e direct by (simp add: conn_defs)
        then have "conn_ok (snd (fire user Cb_writeComplete ?t))" using keepsD [OF fire_conn_ok [OF cb]] by blast
        then show ?thesis using False direct Sys_wrote fin by (simp add: sendInLoop_def cpp_simps transmitted_def)
      qed
    next
      case (Sys_write_err e)
      show ?thesis
      proof (cases "isWouldBlockError e")
        case True
        with watch(1) show ?thesis using False direct Sys_write_err by (simp add: sendInLoop_def cpp_simps)
      next
        case no: False
        with error_and_close_ok [OF cb b no] show ?thesis
          using False direct Sys_write_err by (simp add: sendInLoop_def cpp_simps)
      qed
    qed
  next
    case no: False
    have "snd (sendInLoop user wr d c) = snd (bind (handleOutputBufferAppend user d) (\<lambda>ok.
      if \<not> ok then ret ()
      else seq (bind (gets (\<lambda>c. isWriting (c_channel c))) (\<lambda>w. if \<not> w then on_channel enableWriting else ret ()))
               maybePauseReadForFlowControl) ?s)"
      using False no by (cases "isWriting (c_channel c)") (simp_all add: sendInLoop_def cpp_simps)
    then show ?thesis using watch(2) False by simp
  qed
qed

lemma send_ok:
  assumes "callbacks_ok user" "conn_ok c" "length d \<le> vec_max_size"
  shows "conn_ok (snd (send user inLoop wr d c))"
proof -
  have "conn_ok (c\<lparr>c_pending := c_pending c @ [F_send d]\<rparr>)" using assms(2,3) by (auto simp: conn_defs)
  then show ?thesis using sendInLoop_ok [OF assms] assms(2)
    by (simp add: send_def cpp_simps queueInLoop_def)
qed

section \<open>Shutting down\<close>

lemma queue_keeps: "f \<in> {F_shutdown, F_forceClose, F_startRead, F_stopRead} \<Longrightarrow> keeps conn_ok (queueInLoop f)"
  unfolding queueInLoop_def by (rule keeps_modify) (auto simp: conn_defs)

lemma shutdownInLoop_keeps [keeps_intros]: "keeps conn_ok shutdownInLoop"
proof (rule keepsI)
  fix c assume c: "conn_ok c"
  have "conn_ok (c\<lparr>c_fin := Some (c_wire c, concat (c_sent c))\<rparr>)"
    if "c_state c \<noteq> Disconnected" "readableBytes (c_out c) = 0"
    using c that readable_out [OF conn_ok_base(1) [OF c]] by (simp add: conn_defs)
  then show "conn_ok (snd (shutdownInLoop c))" using c
    by (simp add: shutdownInLoop_def cpp_simps shutdownWrite_def)
qed

lemma shutdown_keeps [keeps_intros]: "keeps conn_ok (shutdown inLoop)"
proof (rule keepsI)
  fix c assume c: "conn_ok c"
  have "conn_ok (c\<lparr>c_state := Disconnecting\<rparr>)" if "c_state c = Connected"
    using c that by (simp add: conn_defs)
  then show "conn_ok (snd (shutdown inLoop c))"
    using c keepsD [OF shutdownInLoop_keeps] keepsD [OF queue_keeps [of F_shutdown]]
    by (simp add: shutdown_def run_bind run_seq run_gets run_modify run_ret setState_def)
qed

lemma forceClose_keeps [keeps_intros]:
  assumes "callbacks_ok user"
  shows "keeps conn_ok (forceCloseInLoop user)" "keeps conn_ok (forceClose user inLoop)"
  unfolding forceClose_def forceCloseInLoop_def by (intro keeps_intros assms queue_keeps; simp)+

section \<open>The handlers\<close>

lemma handleCodecMessages_keeps [keeps_intros]:
  assumes "callbacks_ok user"
  shows "keeps conn_ok (handleCodecMessages fuel user cd)"
  using assms by (induction fuel) (auto intro!: keeps_intros)

lemma handleInput_keeps [keeps_intros]: "callbacks_ok user \<Longrightarrow> keeps conn_ok (handleInput user)"
  unfolding handleInput_def by (auto intro!: keeps_intros simp del: handleCodecMessages.simps split: prod.split option.split)

lemma handleRead_keeps [keeps_intros]:
  assumes "callbacks_ok user"
  shows "keeps conn_ok (handleRead user strerror rs)"
  using assms by (induction rs) (auto intro!: keeps_intros split: Result.split IoStatus.split)

text \<open>Inside of the loop of \<^verbatim>\<open>handleWrite\<close> the write interest is still set while the buffer may have
  become empty.\<close>

definition flushing :: "TcpConnection \<Rightarrow> bool" where
  "flushing c \<longleftrightarrow> out_ok c \<and> isWriting (c_channel c)"

lemma flushing_nonempty: "flushing c \<Longrightarrow> content (c_out c) \<noteq> [] \<Longrightarrow> conn_ok c"
  by (simp add: flushing_def out_ok_def conn_ok_def writing_ok_def)

lemma flushing_resume: "flushing c \<Longrightarrow> flushing (snd (maybeResumeReadForFlowControl c))"
  by (auto simp: maybeResumeReadForFlowControl_def cpp_simps Let_def flushing_def out_ok_def
      base_ok_def all_taken_def out_stream_def)

lemma writeFinished_ok:
  assumes cb: "callbacks_ok user" and f: "flushing c"
  shows "conn_ok (snd (writeFinished user c))"
proof (cases "content (c_out c) = []")
  case False
  then show ?thesis using flushing_nonempty [OF f] readable_out f
    by (simp add: writeFinished_def cpp_simps flushing_def out_ok_def)
next
  case True
  let ?c = "c\<lparr>c_channel := disableWriting (c_channel c)\<rparr>"
  let ?rest = "seq maybeResumeReadForFlowControl (seq (fire user Cb_writeComplete)
      (bind (gets c_state) (\<lambda>st. if st = Disconnecting then shutdownInLoop else ret ())))"
  have "conn_ok ?c" using f True by (auto simp: flushing_def out_ok_def conn_defs)
  moreover have "keeps conn_ok ?rest" by (intro keeps_intros cb)
  moreover have "readableBytes (c_out c) = 0"
    using readable_out [of c] True f by (simp add: flushing_def out_ok_def)
  then have "writeFinished user c = ?rest ?c" by (simp add: writeFinished_def on_channel_def cpp_simps)
  ultimately show ?thesis using keepsD [of conn_ok ?rest ?c] by simp
qed

lemma transmit_ok:
  assumes "flushing c" "content (c_out c) \<noteq> []"
  shows "\<exists>res c'. transmit strerror w c = (Ret res, c') \<and>
    (case res of
       Value r \<Rightarrow> flushing c' \<and> (io_status r = Io_Ok \<or> c' = c) \<and> io_status r \<noteq> Io_Empty
     | Fail e \<Rightarrow> c' = c \<and> m_code e = EC_SystemError)"
proof -
  have si: "stream_inv (c_out c)" using assms(1) by (simp add: flushing_def out_ok_def base_ok_def)
  have i: "buffer_inv (c_out c)" using si by (simp add: stream_inv_def)
  note read = read_bytes_def peek_def read_content [OF i] buffer_sizes(4) [OF i]
  show ?thesis
  proof (cases "w (content (c_out c))")
    case (Sys_wrote n)
    show ?thesis
    proof (cases "n = 0")
      case True
      then show ?thesis using Sys_wrote assms i
        by (simp add: transmit_def cpp_simps on_out_def transmitted_def writeFdResult_def read io_def io_count_def)
    next
      case False
      then obtain o' where o': "writeFdResult strerror w (c_out c) = (Ret (Value (io n Io_Ok)), o')"
        "stream_inv o'" "content o' = drop n (content (c_out c))" "m_buffer o' = m_buffer (c_out c)"
        using writeFdResult_data [OF si assms(2), of w n strerror] Sys_wrote by auto
      have "flushing (c\<lparr>c_out := o', c_wire := c_wire c @ take n (content (c_out c))\<rparr>)"
        using assms(1) o' by (auto simp: flushing_def out_ok_def base_ok_def all_taken_def out_stream_def)
      then show ?thesis using o'(1)
        by (simp add: transmit_def cpp_simps on_out_def transmitted_def io_def io_count_def)
    qed
  next
    case (Sys_write_err e)
    then show ?thesis using assms i
      by (auto simp: transmit_def cpp_simps on_out_def transmitted_def writeFdResult_def read io_def io_count_def
          makeSystemErrorResultT_def makeSystemError_def mk_error_def)
  qed
qed


lemma writeLoop_ok:
  assumes "callbacks_ok user" "flushing c"
  shows "conn_ok (snd (writeLoop user strerror ws c))"
  using assms(2)
proof (induction ws arbitrary: c)
  case Nil
  have rb: "readableBytes (c_out c) = length (content (c_out c))"
    using Nil readable_out by (simp add: flushing_def out_ok_def)
  show ?case
    using flushing_nonempty [OF Nil] writeFinished_ok [OF assms(1) Nil] by (simp add: cpp_simps rb)
next
  case (Cons w ws)
  have rb: "readableBytes (c_out c) = length (content (c_out c))"
    using Cons.prems readable_out by (simp add: flushing_def out_ok_def)
  show ?case
  proof (cases "content (c_out c) = []")
    case True
    then show ?thesis using writeFinished_ok [OF assms(1) Cons.prems] by (simp add: cpp_simps rb)
  next
    case False
    have ok: "conn_ok c" using flushing_nonempty [OF Cons.prems False] .
    from transmit_ok [OF Cons.prems False, of strerror w] obtain res c' where
      t: "transmit strerror w c = (Ret res, c')" and
      r: "case res of Value r \<Rightarrow> flushing c' \<and> (io_status r = Io_Ok \<or> c' = c) \<and> io_status r \<noteq> Io_Empty
            | Fail e \<Rightarrow> c' = c \<and> m_code e = EC_SystemError" by blast
    show ?thesis
    proof (cases res)
      case (Fail e)
      have "\<not> isWouldBlockError (code_int EC_SystemError)" by (simp add: isWouldBlockError_def EAGAIN_def EWOULDBLOCK_def)
      with error_and_close_ok [OF assms(1) conn_ok_base(1) [OF ok]] Fail t r False show ?thesis
        by (simp add: run_bind run_gets rb)
    next
      case (Value r')
      have res: "conn_ok (snd (seq maybeResumeReadForFlowControl (writeLoop user strerror ws) c'))" if "flushing c'"
        using Cons.IH [OF flushing_resume [OF that]]
        by (simp add: cpp_simps maybeResumeReadForFlowControl_def)
      have "conn_ok (snd (handleClose user c))" using handleClose_ok [OF assms(1) conn_ok_base(1) [OF ok]] .
      with Value t r False ok res show ?thesis
        by (cases "io_status r'") (auto simp: run_bind run_gets run_ret rb)
    qed
  qed
qed

lemma handleWrite_keeps [keeps_intros]:
  assumes "callbacks_ok user"
  shows "keeps conn_ok (handleWrite user strerror ws)"
proof (rule keepsI)
  fix c assume c: "conn_ok c"
  have "flushing c" if "isWriting (c_channel c)" using c that by (simp add: flushing_def conn_ok_base)
  then show "conn_ok (snd (handleWrite user strerror ws c))"
    using c writeLoop_ok [OF assms] by (simp add: handleWrite_def cpp_simps)
qed

lemma handleEvent_keeps [keeps_intros]:
  "callbacks_ok user \<Longrightarrow> keeps conn_ok (handleEvent user strerror err rs ws)"
  unfolding handleEvent_def handleEventWithGuard_def handleError_def by (intro keeps_intros; assumption?)

lemma connect_keeps [keeps_intros]:
  assumes "callbacks_ok user"
  shows "keeps conn_ok (connectEstablished user)" "keeps conn_ok (connectDestroyed user)"
proof -
  show "keeps conn_ok (connectEstablished user)"
  proof (rule keepsI)
    fix c assume c: "conn_ok c"
    let ?c = "c\<lparr>c_state := Connected, c_connectedAt := c_now c, c_lastActive := c_now c, c_lastProbe := 0,
      c_channel := enableReading (tie (setEdgeTriggered (c_edge c) (c_channel c)))\<rparr>"
    have "channel_inv (enableReading (tie (setEdgeTriggered (c_edge c) (c_channel c))))"
      using conn_ok_channel_inv [OF c] by (intro channel_ops_inv)
    then have "conn_ok ?c" if "c_state c = Connecting" using c that by (auto simp: conn_defs)
    then show "conn_ok (snd (connectEstablished user c))" using c keepsD [OF fire_conn_ok [OF assms], of ?c Cb_connection]
      by (simp add: connectEstablished_def cpp_simps setState_def on_channel_def)
  qed
  show "keeps conn_ok (connectDestroyed user)"
  proof (rule keepsI)
    fix c assume c: "conn_ok c"
    let ?d = "if c_state c \<noteq> Disconnected then snd (fire user Cb_connection (c\<lparr>c_state := Disconnected\<rparr>)) else c"
    have "base_ok c" using c by (rule conn_ok_base)
    then have "conn_ok (c\<lparr>c_state := Disconnected\<rparr>)" by (simp add: conn_ok_closed) (simp add: base_ok_def out_stream_def)
    then have d: "conn_ok ?d" "c_state ?d = Disconnected"
      using c keepsD [OF fire_conn_ok [OF assms]] assms by (auto simp: fire_def callbacks_ok_def)
    have "ch_polled (disableAll ch) = None" for ch by (simp add: disableAll_def updateChannel_polled isNoneEvent_def)
    then have r: "removeChannel (disableAll ch) = disableAll ch" for ch by (simp add: removeChannel_def)
    have "conn_ok (?d\<lparr>c_channel := disableAll (c_channel ?d)\<rparr>)"
      using d by (simp add: conn_ok_closed) (auto simp: base_ok_def out_stream_def)
    moreover have "snd (connectDestroyed user c) = ?d\<lparr>c_channel := disableAll (c_channel ?d)\<rparr>"
      by (simp add: connectDestroyed_def cpp_simps setState_def on_channel_def fire_def r)
    ultimately show "conn_ok (snd (connectDestroyed user c))" by simp
  qed
qed

section \<open>Any sequence of calls and events\<close>

text \<open>
  Calls with \<open>True\<close> come from the loop thread, with \<open>False\<close> from another one. A \<^verbatim>\<open>shutdown\<close> from another
  thread is two steps, its test of the state and its store, and any others may come between; \<open>Op_shutdown\<close> is the call from the
  loop thread. \<open>Op_post\<close> queues the functor of a \<^verbatim>\<open>send\<close>, \<^verbatim>\<open>shutdown\<close> or \<^verbatim>\<open>forceClose\<close> whose test of the state lies further back. \<open>Op_event\<close> is a turn of
  the poller: the reported events and what the system calls give. A \<^verbatim>\<open>string_view\<close> is no longer than
  \<open>vec_max_size\<close>. The steps of other threads fall between the functions that the loop thread runs.
\<close>

datatype tcp_op =
    Op_established | Op_destroyed
  | Op_send bool "byte list \<Rightarrow> sys_write" "byte list"
  | Op_shutdown | Op_shutdown_test | Op_shutdown_store | Op_forceClose bool | Op_post functor_task
  | Op_event "32 word" "int" "(nat list \<Rightarrow> sys_read) list" "(byte list \<Rightarrow> sys_write) list"
  | Op_pending "byte list \<Rightarrow> sys_write"
  | Op_startRead bool | Op_stopRead bool | Op_enableFlow nat nat | Op_disableFlow | Op_tick int

fun tcp_step :: "user \<Rightarrow> (int \<Rightarrow> string) \<Rightarrow> tcp_op \<Rightarrow> (TcpConnection, unit) cpp" where
  "tcp_step user strerror Op_established = connectEstablished user"
| "tcp_step user strerror Op_destroyed = connectDestroyed user"
| "tcp_step user strerror (Op_send l wr d) = (if length d \<le> vec_max_size then send user l wr d else ret ())"
| "tcp_step user strerror Op_shutdown = shutdown True"
| "tcp_step user strerror Op_shutdown_test = shutdown_test"
| "tcp_step user strerror Op_shutdown_store = shutdown_store"
| "tcp_step user strerror (Op_post f) = (if (case f of F_send d \<Rightarrow> length d \<le> vec_max_size | _ \<Rightarrow> True) then queueInLoop f else ret ())"
| "tcp_step user strerror (Op_forceClose l) = forceClose user l"
| "tcp_step user strerror (Op_event ev err rs ws) =
     seq (on_channel (setRevents ev)) (handleEvent user strerror err rs ws)"
| "tcp_step user strerror (Op_pending wr) = runPending user wr"
| "tcp_step user strerror (Op_startRead l) = startRead l"
| "tcp_step user strerror (Op_stopRead l) = stopRead l"
| "tcp_step user strerror (Op_enableFlow h l) = enableAutoReadFlowControl h l"
| "tcp_step user strerror Op_disableFlow = disableAutoReadFlowControl"
| "tcp_step user strerror (Op_tick t) = modify (\<lambda>c. c\<lparr>c_now := t\<rparr>)"

definition tcp_exec :: "user \<Rightarrow> (int \<Rightarrow> string) \<Rightarrow> tcp_op \<Rightarrow> TcpConnection \<Rightarrow> TcpConnection" where
  "tcp_exec user strerror op c = snd (tcp_step user strerror op c)"

text \<open>
  The store of a \<^verbatim>\<open>shutdown\<close> is late when the loop closed the connection after the test: it makes a closed
  connection one that is closing. A run notes whether it had a late store.
\<close>

fun late_store :: "tcp_op \<Rightarrow> TcpConnection \<Rightarrow> bool" where
  "late_store Op_shutdown_store c \<longleftrightarrow> c_passed c > 0 \<and> c_state c = Disconnected"
| "late_store _ c \<longleftrightarrow> False"

fun tcp_next :: "user \<Rightarrow> (int \<Rightarrow> string) \<Rightarrow> tcp_op \<Rightarrow> TcpConnection \<times> bool \<Rightarrow> TcpConnection \<times> bool" where
  "tcp_next user strerror op (c, late) = (tcp_exec user strerror op c, late \<or> late_store op c)"

lemma runPending_keeps [keeps_intros]:
  assumes "callbacks_ok user"
  shows "keeps conn_ok (runPending user wr)"
proof (rule keepsI)
  fix c assume c: "conn_ok c"
  show "conn_ok (snd (runPending user wr c))"
  proof (cases "c_pending c")
    case Nil
    then show ?thesis using c by (simp add: runPending_def cpp_simps)
  next
    case (Cons f fs)
    have p: "conn_ok (c\<lparr>c_pending := fs\<rparr>)" using c Cons by (simp add: conn_defs)
    have l: "length d \<le> vec_max_size" if "f = F_send d" for d using c Cons that by (simp add: conn_defs)
    show ?thesis
    proof (cases f)
      case (F_send d)
      then show ?thesis using Cons sendInLoop_ok [OF assms p l] by (simp add: runPending_def cpp_simps)
    next
      case F_shutdown
      then show ?thesis using Cons keepsD [OF shutdownInLoop_keeps p] by (simp add: runPending_def run_bind run_gets run_seq run_modify)
    next
      case F_forceClose
      then show ?thesis using Cons keepsD [OF forceClose_keeps(1) [OF assms] p]
        by (simp add: runPending_def run_bind run_gets run_seq run_modify)
    next
      case F_startRead
      then show ?thesis using Cons keepsD [OF keeps_flow(3) p] by (simp add: runPending_def run_bind run_gets run_seq run_modify)
    next
      case F_stopRead
      then show ?thesis using Cons keepsD [OF keeps_flow(4) p] by (simp add: runPending_def run_bind run_gets run_seq run_modify)
    qed
  qed
qed

lemma read_control_keeps [keeps_intros]: "keeps conn_ok (startRead l)" "keeps conn_ok (stopRead l)"
  unfolding startRead_def stopRead_def by (intro keeps_intros queue_keeps; simp)+

lemma shutdown_steps_ok:
  assumes "conn_ok c"
  shows "conn_ok (snd (shutdown_test c))"
    and "\<not> late_store Op_shutdown_store c \<Longrightarrow> conn_ok (snd (shutdown_store c))"
  using assms by (auto simp: shutdown_test_def shutdown_store_def cpp_simps setState_def queueInLoop_def conn_defs)

lemma tcp_step_keeps:
  assumes cb: "callbacks_ok user" and late: "\<not> late_store op c" and ok: "conn_ok c"
  shows "conn_ok (tcp_exec user strerror op c)"
proof -
  have "keeps conn_ok (tcp_step user strerror op)" if "op \<noteq> Op_shutdown_test" "op \<noteq> Op_shutdown_store"
  proof (cases op)
    case (Op_send l wr d)
    then show ?thesis using send_ok [OF cb] by (simp add: keeps_def cpp_simps)
  next
    case (Op_event ev err rs ws)
    have "keeps conn_ok (on_channel (setRevents ev))"
      unfolding on_channel_def by (rule keeps_modify) (simp add: conn_ok_channel conn_ok_channel_inv channel_ops_inv)
    then show ?thesis using Op_event cb by (auto intro!: keeps_intros)
  next
    case (Op_post f)
    have "keeps conn_ok (queueInLoop (F_send d))" if "length d \<le> vec_max_size" for d
      unfolding queueInLoop_def by (rule keeps_modify) (use that in \<open>auto simp: conn_defs\<close>)
    then show ?thesis using Op_post queue_keeps [of f] by (auto intro!: keeps_intros split: functor_task.splits)
  qed (use cb that in \<open>auto intro!: keeps_intros keeps_modify\<close>)
  then show ?thesis using shutdown_steps_ok [OF ok] late ok
    by (cases "op = Op_shutdown_test \<or> op = Op_shutdown_store") (auto simp: tcp_exec_def keepsD)
qed

interpretation tcp: op_machine "tcp_next user strerror" "\<lambda>(c, late). callbacks_ok user \<longrightarrow> late \<or> conn_ok c" for user strerror
  by unfold_locales (auto simp: tcp_step_keeps)

text \<open>A new connection after the owner has set its callbacks, codec and limits.\<close>

definition configured :: "(cb_kind \<Rightarrow> bool) \<Rightarrow> LengthFieldCodec option \<Rightarrow> nat \<Rightarrow> bool \<Rightarrow> TcpConnection \<Rightarrow> TcpConnection" where
  "configured cbs cd maxOut edge c = c\<lparr>c_hasCb := cbs, c_codec := cd, c_maxOut := maxOut, c_edge := edge\<rparr>"

lemma new_connection_ok:
  assumes "mk_TcpConnection l v name now = Ret c" "maxOut \<le> 2 ^ 60"
  shows "conn_ok (configured cbs cd maxOut edge c)"
proof -
  obtain b where b: "mk_Buffer kInitialSize = Ret b" "stream_inv b" "content b = []" "length (m_buffer b) = kCheapPrepend + kInitialSize"
    using mk_Buffer_ok [of kInitialSize] by (auto simp: kInitialSize_def stream_inv_def kCheapPrepend_def)
  have "\<not> isWriting mk_Channel" by (simp add: isWriting_def mk_Channel_def kNoneEvent_def)
  then show ?thesis using assms b mk_Channel_inv
    by (auto simp: mk_TcpConnection_def configured_def conn_defs kCheapPrepend_def kInitialSize_def split: if_splits)
qed


text \<open>Two clients: one whose callbacks do not touch the connection, and one whose message callback sends
  back everything it received, through a socket that behaves like \<open>wr\<close>.\<close>

definition quiet :: user where
  "quiet ev c = c"

definition echo :: "(byte list \<Rightarrow> sys_write) \<Rightarrow> user" where
  "echo wr ev c =
     (if ev = Cb_message
      then snd (bind (on_in retrieveAllAsString) (\<lambda>d. if length d \<le> vec_max_size then send quiet True wr d else ret ()) c)
      else c)"

lemma quiet_ok: "callbacks_ok quiet"
  by (simp add: callbacks_ok_def quiet_def)

lemma sendInLoop_closed: "c_state c = Disconnected \<Longrightarrow> send user l wr d c = (Ret (), c)"
  by (simp add: send_def cpp_simps)

lemma echo_ok: "callbacks_ok (echo wr)"
proof -
  have "keeps conn_ok (bind (on_in retrieveAllAsString) (\<lambda>d. if length d \<le> vec_max_size then send quiet True wr d else ret ()))"
    using send_ok [OF quiet_ok] by (intro keeps_intros) (auto simp: keeps_def)
  then have "conn_ok c \<Longrightarrow> conn_ok (echo wr ev c)" for ev c by (simp add: echo_def keepsD)
  moreover have "c_state c = Disconnected \<Longrightarrow> c_state (echo wr ev c) = Disconnected" for ev c
    by (auto simp: echo_def cpp_simps on_in_def sendInLoop_closed split: prod.split outcome.split)
  ultimately show ?thesis by (auto simp: callbacks_ok_def echo_def)
qed

text \<open>
  The callbacks that are programs over the public functions of the connection, each chosen from what the callback was called with
  and what it sees. A call in a callback may call callbacks in turn, to any depth \<open>n\<close>. They keep the connection in order when
  the error callback does not send or shut down, and the high water mark callback only starts and stops reading.
\<close>

datatype cb_call = Call_send "byte list \<Rightarrow> sys_write" "byte list" | Call_shutdown | Call_forceClose | Call_startRead | Call_stopRead | Call_retrieveAll

fun cb_run :: "user \<Rightarrow> cb_call \<Rightarrow> (TcpConnection, unit) cpp" where
  "cb_run user (Call_send wr d) = (if length d \<le> vec_max_size then send user True wr d else ret ())"
| "cb_run user Call_shutdown = shutdown True"
| "cb_run user Call_forceClose = forceClose user True"
| "cb_run user Call_startRead = startRead True"
| "cb_run user Call_stopRead = stopRead True"
| "cb_run user Call_retrieveAll = bind (on_in retrieveAllAsString) (\<lambda>_. ret ())"

primrec program :: "(cb_event \<Rightarrow> TcpConnection \<Rightarrow> cb_call list) \<Rightarrow> nat \<Rightarrow> user" where
  "program P 0 = quiet"
| "program P (Suc n) = (\<lambda>ev c. fold (\<lambda>q c. snd (cb_run (program P n) q c)) (P ev c) c)"

definition program_ok :: "(cb_event \<Rightarrow> TcpConnection \<Rightarrow> cb_call list) \<Rightarrow> bool" where
  "program_ok P \<longleftrightarrow> (\<forall>ev c.
     (kind ev = K_error \<longrightarrow> set (P ev c) \<subseteq> {Call_forceClose, Call_startRead, Call_stopRead, Call_retrieveAll}) \<and>
     (kind ev = K_highWater \<longrightarrow> set (P ev c) \<subseteq> {Call_startRead, Call_stopRead, Call_retrieveAll}))"

lemma fold_keeps: "(\<And>q c. q \<in> set qs \<Longrightarrow> I c \<Longrightarrow> I (f q c)) \<Longrightarrow> I c \<Longrightarrow> I (fold f qs c)"
  by (induction qs arbitrary: c) auto

lemma cb_run_ok:
  assumes "callbacks_ok user"
  shows "conn_ok c \<Longrightarrow> conn_ok (snd (cb_run user q c))"
    and "c_state c = Disconnected \<Longrightarrow> c_state (snd (cb_run user q c)) = Disconnected"
    and "q \<in> {Call_forceClose, Call_startRead, Call_stopRead, Call_retrieveAll} \<Longrightarrow> base_ok c \<Longrightarrow> base_ok (snd (cb_run user q c))"
    and "q \<in> {Call_startRead, Call_stopRead, Call_retrieveAll} \<Longrightarrow> out_ok c \<and> content (c_out c) \<noteq> [] \<Longrightarrow>
      out_ok (snd (cb_run user q c)) \<and> content (c_out (snd (cb_run user q c))) \<noteq> []"
proof -
  have "keeps conn_ok (cb_run user q)"
    using assms send_ok [OF assms] by (cases q) (auto intro!: keeps_intros simp: keeps_def [of _ "send _ _ _ _"])
  then show "conn_ok c \<Longrightarrow> conn_ok (snd (cb_run user q c))" by (rule keepsD)
  show "c_state c = Disconnected \<Longrightarrow> c_state (snd (cb_run user q c)) = Disconnected"
    by (cases q) (auto simp: sendInLoop_closed shutdown_def forceClose_def startRead_def stopRead_def flow_defs on_in_def cpp_simps Let_def
        split: prod.splits outcome.splits)
  have in_frame: "base_ok (c\<lparr>c_in := b\<rparr>) = base_ok c" "out_ok (c\<lparr>c_in := b\<rparr>) = out_ok c"
    "base_ok (c\<lparr>c_paused := p\<rparr>) = base_ok c" "out_ok (c\<lparr>c_paused := p\<rparr>) = out_ok c" for c b p
    by (simp_all add: out_ok_def base_ok_def all_taken_def out_stream_def)
  have ch: "base_ok (c\<lparr>c_channel := x, c_paused := p\<rparr>) = base_ok c" "base_ok (c\<lparr>c_channel := x\<rparr>) = base_ok c"
    "out_ok (c\<lparr>c_channel := x, c_paused := p\<rparr>) = out_ok c" "out_ok (c\<lparr>c_channel := x\<rparr>) = out_ok c" if "channel_inv x" "channel_inv (c_channel c)" for c x p
    using that by (simp_all add: out_ok_def base_ok_def all_taken_def out_stream_def)
  have inv: "channel_inv (c_channel c)" if "base_ok c" using that by (simp add: base_ok_def)
  have ops: "channel_inv (enableReading (c_channel c))" "channel_inv (disableReading (c_channel c))" if "base_ok c"
    using inv [OF that] by (simp_all add: channel_ops_inv)
  show "base_ok (snd (cb_run user q c))" if "q \<in> {Call_forceClose, Call_startRead, Call_stopRead, Call_retrieveAll}" "base_ok c"
    using that handleClose_ok [OF assms that(2), THEN conn_ok_base(1)]
    by (auto simp: forceClose_def forceCloseInLoop_def startRead_def stopRead_def flow_defs on_in_def cpp_simps in_frame ch inv ops
        split: prod.splits outcome.splits)
  show "out_ok (snd (cb_run user q c)) \<and> content (c_out (snd (cb_run user q c))) \<noteq> []"
    if "q \<in> {Call_startRead, Call_stopRead, Call_retrieveAll}" "out_ok c \<and> content (c_out c) \<noteq> []"
    using that conn_ok_base(3) [of c]
    by (auto simp: startRead_def stopRead_def flow_defs on_in_def cpp_simps in_frame ch inv ops
        split: prod.splits outcome.splits if_splits)
qed

lemma program_callbacks_ok:
  assumes "program_ok P"
  shows "callbacks_ok (program P n)"
proof (induction n)
  case 0
  then show ?case using quiet_ok by simp
next
  case (Suc n)
  note call = cb_run_ok [OF Suc]
  let ?out = "\<lambda>c. out_ok c \<and> content (c_out c) \<noteq> []"
  have "conn_ok (program P (Suc n) ev c)" if "conn_ok c" for ev c using that by (auto intro: fold_keeps [of _ conn_ok] call)
  moreover have "c_state (program P (Suc n) ev c) = Disconnected" if "c_state c = Disconnected" for ev c
    using that by (auto intro: fold_keeps [of _ "\<lambda>c. c_state c = Disconnected"] call)
  moreover have "base_ok (program P (Suc n) ev c)" if "kind ev = K_error" "base_ok c" for ev c
  proof -
    have "q \<in> {Call_forceClose, Call_startRead, Call_stopRead, Call_retrieveAll}" if "q \<in> set (P ev c)" for q
      using that assms \<open>kind ev = K_error\<close> unfolding program_ok_def by blast
    then show ?thesis using that(2) by (auto intro: fold_keeps [of _ base_ok] simp del: insert_iff intro!: call(3))
  qed
  moreover have "?out (program P (Suc n) ev c)" if "kind ev = K_highWater" "?out c" for ev c
  proof -
    have "q \<in> {Call_startRead, Call_stopRead, Call_retrieveAll}" if "q \<in> set (P ev c)" for q
      using that assms \<open>kind ev = K_highWater\<close> unfolding program_ok_def by blast
    then have "?out (fold (\<lambda>q c. snd (cb_run (program P n) q c)) (P ev c) c)"
      by (intro fold_keeps [of "P ev c" ?out] call(4) that(2))
    then show ?thesis by simp
  qed
  ultimately show ?case unfolding callbacks_ok_def by blast
qed

section \<open>Properties\<close>

text \<open>C2: The byte stream of a connection with the policy \<^verbatim>\<open>CloseConnection\<close> (the default), over any sequence of calls from the loop thread and from other threads,
  poller events, partial writes, would-block results and errors, with callbacks that call the connection in turn: the
  bytes the socket has accepted, followed by those in the output buffer, are a prefix of the data sent, in the order it was
  sent, and all of it until the connection is closed. While it is open the poller watches for
  writability exactly when bytes are waiting, and the writing side was shut down only when everything sent was on the
  wire. Two things are excluded, and each breaks it: callbacks outside of \<open>callbacks_ok\<close>, such as an error callback that sends or
  a high water mark callback that closes; and a \<^verbatim>\<open>shutdown\<close> of another thread whose store comes after the loop closed the connection that its test
  found connected.\<close>

theorem tcp_stream_integrity:
  assumes "mk_TcpConnection l v name now = Ret c0" "maxOut \<le> 2 ^ 60" "callbacks_ok user"
    and c: "(c, late) = fold (tcp_next user strerror) ops (configured cbs cd maxOut edge c0, False)" and "\<not> late"
  shows "prefix (c_wire c @ content (c_out c)) (concat (c_sent c)) \<and>
    (c_state c \<noteq> Disconnected \<longrightarrow>
       c_wire c @ content (c_out c) = concat (c_sent c) \<and>
       isWriting (c_channel c) = (content (c_out c) \<noteq> [])) \<and>
    (\<forall>w s. c_fin c = Some (w, s) \<longrightarrow> w = s)"
proof -
  have "conn_ok c"
    using tcp.run_inv [of user "(configured cbs cd maxOut edge c0, False)" strerror ops] new_connection_ok [OF assms(1,2)] assms(3,5)
    by (simp add: c [symmetric])
  then show ?thesis by (simp add: conn_defs)
qed

theorem tcp_stream_integrity_witness:
  "\<exists>c0 c. mk_TcpConnection True True ''a'' 7 = Ret c0 \<and>
     (c, False) = fold (tcp_next (echo (\<lambda>_. Sys_wrote 2)) (\<lambda>_. []))
       [Op_established, Op_send False (\<lambda>_. Sys_wrote 1) [1, 2, 3], Op_pending (\<lambda>_. Sys_wrote 1),
        Op_event 3 0 [\<lambda>_. Sys_read [9, 8, 7]] [\<lambda>_. Sys_wrote 1]]
       (configured (\<lambda>_. True) None 100 False c0, False) \<and>
     prefix (c_wire c @ content (c_out c)) (concat (c_sent c))"
proof -
  obtain b where "mk_Buffer kInitialSize = Ret b"
    using mk_Buffer_ok [of kInitialSize] by (auto simp: kInitialSize_def)
  then obtain c0 where c0: "mk_TcpConnection True True ''a'' 7 = Ret c0" by (simp add: mk_TcpConnection_def)
  have m: "(100::nat) \<le> 2 ^ 60" by simp
  let ?ops = "[Op_established, Op_send False (\<lambda>_. Sys_wrote 1) [1, 2, 3], Op_pending (\<lambda>_. Sys_wrote 1),
        Op_event 3 0 [\<lambda>_. Sys_read [9, 8, 7]] [\<lambda>_. Sys_wrote 1]]"
  let ?run = "\<lambda>ops. fold (tcp_next (echo (\<lambda>_. Sys_wrote 2)) (\<lambda>_. [])) ops (configured (\<lambda>_. True) None 100 False c0, False)"
  have "\<not> snd (?run ?ops)" by simp
  then obtain c where c: "(c, False) = ?run ?ops" by (metis prod.collapse)
  show ?thesis
    by (intro exI conjI) (rule c0, rule c, use tcp_stream_integrity [OF c0 m echo_ok c] in blast)
qed

end
