(* ===== verification/TcpMessages.thy ===== *)
theory TcpMessages
  imports TcpStream
begin

text \<open>
  Messages over a connection: what \<^verbatim>\<open>sendFrame\<close> gives to the sending side, and what the frame callback
  of the receiving side gets from the bytes, however the reads cut them.
\<close>

section \<open>Receiving frames\<close>

lemma deliver_frames:
  assumes "codec_ok cd" "c_hasCb c K_frame" "list_all (fits cd) ps" "stream_inv (c_in c)"
    and "prefix (content (c_in c)) (concat (map (frame cd) ps))" "length (content (c_in c)) < fuel"
  shows "\<exists>ds ps' b. ps = ds @ ps' \<and>
    handleCodecMessages fuel quiet cd c = (Ret (), c\<lparr>c_in := b, c_calls := c_calls c @ map Cb_frame ds\<rparr>) \<and>
    stream_inv b \<and> content (c_in c) = concat (map (frame cd) ds) @ content b \<and> m_buffer b = m_buffer (c_in c) \<and>
    (case ps' of [] \<Rightarrow> content b = [] | p # _ \<Rightarrow> strict_prefix (content b) (frame cd p))"
  using assms
proof (induction ps arbitrary: c fuel)
  case Nil
  then obtain f where f: "fuel = Suc f" by (cases fuel) auto
  have "tryDecode cd (c_in c) = (Ret \<lparr>dec_status = Dec_NeedMoreData, dec_payload = []\<rparr>, c_in c)"
    using decode_short [of "c_in c" cd] Nil by (auto simp: stream_inv_def codec_ok_def)
  then show ?case using Nil f by (intro exI [of _ "[]"] exI [of _ "c_in c"]) (simp add: on_in_def cpp_simps)
next
  case (Cons p ps)
  then obtain f where f: "fuel = Suc f" by (cases fuel) auto
  have g: "fits cd p" "list_all (fits cd) ps" using Cons.prems(3) by simp_all
  show ?case
  proof (cases "prefix (frame cd p) (content (c_in c))")
    case True
    then obtain rest where rest: "content (c_in c) = frame cd p @ rest" by (auto simp: prefix_def)
    from tryDecode_frame [OF Cons.prems(1) g(1) Cons.prems(4) rest] obtain b1 where b1:
      "tryDecode cd (c_in c) = (Ret \<lparr>dec_status = Dec_Ok, dec_payload = p\<rparr>, b1)" "stream_inv b1"
      "content b1 = rest" "m_buffer b1 = m_buffer (c_in c)" by blast
    let ?c = "c\<lparr>c_in := b1, c_calls := c_calls c @ [Cb_frame p]\<rparr>"
    have "prefix (content (c_in ?c)) (concat (map (frame cd) ps))" using Cons.prems(5) by (simp add: rest b1(3))
    moreover have "length (content (c_in ?c)) < f"
      using Cons.prems(6) f rest b1(3) fs.enc_nonempty [OF g(1)] by (cases "frame cd p") simp_all
    ultimately obtain ds ps' b where r: "ps = ds @ ps'"
      "handleCodecMessages f quiet cd ?c = (Ret (), ?c\<lparr>c_in := b, c_calls := c_calls ?c @ map Cb_frame ds\<rparr>)"
      "stream_inv b" "content (c_in ?c) = concat (map (frame cd) ds) @ content b" "m_buffer b = m_buffer (c_in ?c)"
      "case ps' of [] \<Rightarrow> content b = [] | p # _ \<Rightarrow> strict_prefix (content b) (frame cd p)"
      using Cons.IH [of ?c f] Cons.prems(1,2) g(2) b1(2) by auto
    have "handleCodecMessages fuel quiet cd c = handleCodecMessages f quiet cd ?c"
      using f b1(1) Cons.prems(2) by (simp add: on_in_def cpp_simps fire_def quiet_def)
    with r b1 rest show ?thesis by (intro exI [of _ "p # ds"] exI [of _ ps'] exI [of _ b]) simp
  next
    case False
    have sp: "strict_prefix (content (c_in c)) (frame cd p)"
      using Cons.prems(5) False prefix_same_cases [of "content (c_in c)" "frame cd p @ concat (map (frame cd) ps)" "frame cd p"]
      by (auto simp: strict_prefix_def)
    from tryDecode_partial [OF Cons.prems(1) g(1) Cons.prems(4) this] f sp Cons.prems(4) show ?thesis
      by (intro exI [of _ "[]"] exI [of _ "p # ps"] exI [of _ "c_in c"]) (simp add: on_in_def cpp_simps)
  qed
qed

lemma read_chunk:
  assumes "stream_inv b" "length (m_buffer b) \<le> 2 ^ 62" "length (content b) + length d \<le> 2 ^ 60" "d \<noteq> []" "length d \<le> extrabuf_size"
  shows "\<exists>b'. readFdResult strerror (\<lambda>_. Sys_read d) b = (Ret (Value (io (length d) Io_Ok)), b') \<and>
    stream_inv b' \<and> content b' = content b @ d \<and> length (m_buffer b') \<le> 2 ^ 62"
  by (rule readFdResult_data) (use assms in \<open>auto simp: room_def kCheapPrepend_def extrabuf_size_def\<close>)

lemma receive_frames:
  assumes "codec_ok cd" "list_all (fits cd) ps" "c_codec c = Some cd" "c_hasCb c K_frame"
    and "stream_inv (c_in c)" "length (m_buffer (c_in c)) \<le> 2 ^ 62" "length (content (c_in c) @ concat chunks) \<le> 2 ^ 60"
    and "content (c_in c) @ concat chunks = concat (map (frame cd) ps)"
    and "case ps of [] \<Rightarrow> content (c_in c) = [] | p # _ \<Rightarrow> strict_prefix (content (c_in c)) (frame cd p)"
    and "\<forall>d \<in> set chunks. d \<noteq> [] \<and> length d \<le> extrabuf_size"
  shows "\<exists>c'. handleRead quiet strerror (map (\<lambda>d _. Sys_read d) chunks) c = (Ret (), c') \<and>
    c_calls c' = c_calls c @ map Cb_frame ps \<and> content (c_in c') = [] \<and> c_state c' = c_state c"
  using assms
proof (induction chunks arbitrary: c ps)
  case Nil
  have "ps = []"
  proof (cases ps)
    case (Cons p ps')
    then have "strict_prefix (content (c_in c)) (frame cd p)" "prefix (frame cd p) (content (c_in c))"
      using Nil.prems(8,9) by simp_all
    then show ?thesis by (meson prefix_order.less_le_not_le)
  qed
  then show ?case using Nil.prems(9) by (simp add: cpp_simps)
next
  case (Cons d ds)
  obtain b1 where b1: "readFdResult strerror (\<lambda>_. Sys_read d) (c_in c) = (Ret (Value (io (length d) Io_Ok)), b1)"
    "stream_inv b1" "content b1 = content (c_in c) @ d" "length (m_buffer b1) \<le> 2 ^ 62"
    using read_chunk [OF Cons.prems(5,6), of d strerror] Cons.prems(7,10) by auto
  let ?c1 = "c\<lparr>c_in := b1, c_lastActive := c_now c, c_lastProbe := 0\<rparr>"
  have eq: "content b1 @ concat ds = concat (map (frame cd) ps)" using Cons.prems(8) b1(3) by simp
  have p1: "prefix (content (c_in ?c1)) (concat (map (frame cd) ps))" unfolding eq [symmetric] by simp
  have rb: "readableBytes b1 = length (content b1)" using buffer_sizes(4) b1(2) by (simp add: stream_inv_def)
  have h: "c_hasCb ?c1 K_frame" "stream_inv (c_in ?c1)" "length (content (c_in ?c1)) < Suc (length (content b1))"
    using Cons.prems(4) b1(2) by simp_all
  obtain es ps' b where e: "ps = es @ ps'"
    "handleCodecMessages (Suc (length (content b1))) quiet cd ?c1 = (Ret (), ?c1\<lparr>c_in := b, c_calls := c_calls ?c1 @ map Cb_frame es\<rparr>)"
    "stream_inv b" "content (c_in ?c1) = concat (map (frame cd) es) @ content b" "m_buffer b = m_buffer (c_in ?c1)"
    "case ps' of [] \<Rightarrow> content b = [] | p # _ \<Rightarrow> strict_prefix (content b) (frame cd p)"
    using deliver_frames [OF Cons.prems(1) h(1) Cons.prems(2) h(2) p1 h(3)] by blast
  let ?c2 = "?c1\<lparr>c_in := b, c_calls := c_calls ?c1 @ map Cb_frame es\<rparr>"
  have "length (content b) \<le> length (content b1)" using e(4) by simp
  then have len: "length (content (c_in ?c2) @ concat ds) \<le> 2 ^ 60" using Cons.prems(7) b1(3) by simp
  have eq2: "content (c_in ?c2) @ concat ds = concat (map (frame cd) ps')" using eq e(1,4) by simp
  have run: "handleRead quiet strerror (map (\<lambda>d _. Sys_read d) (d # ds)) c = handleRead quiet strerror (map (\<lambda>d _. Sys_read d) ds) ?c2"
    using b1(1) e(2) Cons.prems(3,4) rb
    by (simp add: on_in_def io_def run_bind run_seq run_gets touchActive_def run_modify handleInput_def del: handleCodecMessages.simps)
  have q: "list_all (fits cd) ps'" "c_codec ?c2 = Some cd" "c_hasCb ?c2 K_frame" "stream_inv (c_in ?c2)"
    "length (m_buffer (c_in ?c2)) \<le> 2 ^ 62"
    "case ps' of [] \<Rightarrow> content (c_in ?c2) = [] | p # _ \<Rightarrow> strict_prefix (content (c_in ?c2)) (frame cd p)"
    "\<forall>d \<in> set ds. d \<noteq> [] \<and> length d \<le> extrabuf_size"
    using Cons.prems(2-4,10) e(1,3,5,6) b1(4) by (simp_all split: list.split list.split_asm)
  obtain c' where "handleRead quiet strerror (map (\<lambda>d _. Sys_read d) ds) ?c2 = (Ret (), c')"
    "c_calls c' = c_calls ?c2 @ map Cb_frame ps'" "content (c_in c') = []" "c_state c' = c_state ?c2"
    using Cons.IH [OF Cons.prems(1) q(1-5) len eq2 q(6,7)] by blast
  then show ?case unfolding run using e(1) by auto
qed

section \<open>Sending frames\<close>

lemma encodeFrame_ok:
  assumes "codec_ok cd" "fits cd p" "length p \<le> 2 ^ 59"
  shows "\<exists>b. encodeFrame cd p = Ret b \<and> readableView b = Ret (frame cd p)"
proof -
  obtain b0 where b0: "mk_Buffer kInitialSize = Ret b0" "stream_inv b0" "content b0 = []" "length (m_buffer b0) = 1032"
    using mk_Buffer_ok [of kInitialSize] by (auto simp: kInitialSize_def stream_inv_def kCheapPrepend_def)
  have "m_lengthFieldBytes cd \<le> 8" using assms(1) by (auto simp: codec_ok_def)
  then have "room (length p + m_lengthFieldBytes cd) b0" using b0 assms(3) by (simp add: room_def kCheapPrepend_def)
  from encode_ok [OF assms(1,2) b0(2) this] obtain b where
    "encode cd p b0 = (Ret (), b)" "stream_inv b" "content b = frame cd p" using b0(3) by auto
  then show ?thesis using b0(1) by (simp add: encodeFrame_def readableView_content stream_inv_def)
qed

lemma sendInLoop_records:
  assumes "c_state c \<noteq> Disconnected" "d \<noteq> []"
  shows "c_sent (snd (sendInLoop quiet wr d c)) = c_sent c @ [d]"
proof -
  let ?P = "\<lambda>c'. c_sent c' = c_sent c @ [d]"
  have leaves: "keeps ?P (fire quiet ev)" "keeps ?P (on_channel f)" "keeps ?P (setState st)" "keeps ?P (on_out m)"
    "keeps ?P (transmitted x)" "keeps ?P maybePauseReadForFlowControl" for ev f st m x
    by (auto simp: keeps_def fire_def quiet_def on_channel_def on_out_def setState_def transmitted_def cpp_simps
        maybePauseReadForFlowControl_def Let_def split: prod.splits)
  have cl: "keeps ?P (handleClose quiet)" unfolding handleClose_def by (intro keeps_intros leaves)
  have er: "keeps ?P (handleErrorAndClose quiet e)" for e unfolding handleErrorAndClose_def by (intro keeps_intros leaves cl)
  have ap: "keeps ?P (handleOutputBufferAppend quiet x)" for x
    unfolding handleOutputBufferAppend_def handleOutputOverflow_def Let_def
    by (auto intro!: keeps_intros leaves cl split: prod.split OutputOverflowPolicy.split)
  have "keeps ?P (bind (gets (\<lambda>c. \<not> isWriting (c_channel c) \<and> readableBytes (c_out c) = 0)) (\<lambda>direct.
        if direct
        then (case wr d of
                Sys_wrote n \<Rightarrow>
                  seq (transmitted (take n d))
                    (if n < length d
                     then bind (handleOutputBufferAppend quiet (drop n d)) (\<lambda>ok.
                            if \<not> ok then ret ()
                            else seq (on_channel enableWriting) maybePauseReadForFlowControl)
                     else fire quiet Cb_writeComplete)
              | Sys_write_err err \<Rightarrow>
                  if isWouldBlockError err
                  then bind (handleOutputBufferAppend quiet d) (\<lambda>ok.
                         if \<not> ok then ret ()
                         else seq (on_channel enableWriting) maybePauseReadForFlowControl)
                  else handleErrorAndClose quiet err)
        else bind (handleOutputBufferAppend quiet d) (\<lambda>ok.
               if \<not> ok then ret ()
               else seq (bind (gets (\<lambda>c. isWriting (c_channel c))) (\<lambda>w.
                           if \<not> w then on_channel enableWriting else ret ()))
                        maybePauseReadForFlowControl)))" (is "keeps _ ?body")
    by (auto intro!: keeps_intros leaves er ap split: sys_write.split)
  from keepsD [OF this, of "c\<lparr>c_sent := c_sent c @ [d]\<rparr>"] assms show ?thesis
    by (simp add: sendInLoop_def run_bind run_seq run_gets run_modify)
qed


text \<open>What a quiet client's operations leave alone: a closed connection stays closed and a codec stays
  set; writing out the buffer does not add to the data sent.\<close>

lemma quiet_frame:
  fixes strerror :: "int \<Rightarrow> string"
  defines "P \<equiv> \<lambda>c. c_state c = Disconnected" and "Q \<equiv> \<lambda>cd c. c_codec c = cd" and "R \<equiv> \<lambda>xs c. c_sent c = xs"
  shows "keeps P (handleWrite quiet strerror ws)" "keeps (Q cd) (handleWrite quiet strerror ws)"
    "keeps (R xs) (handleWrite quiet strerror ws)" "keeps P (sendInLoop quiet wr d)" "keeps (Q cd) (sendInLoop quiet wr d)"
proof -
  define ok where "ok = (\<lambda>T :: TcpConnection \<Rightarrow> bool. T = P \<or> (\<exists>cd. T = Q cd) \<or> (\<exists>xs. T = R xs))"
  have leaves: "keeps T (fire quiet ev)" "keeps T (on_channel f)" "keeps T (on_out m)" "keeps T (setState Disconnected)"
    "keeps T (transmitted x)" "keeps T maybePauseReadForFlowControl" "keeps T maybeResumeReadForFlowControl" "keeps T shutdownWrite"
    "keeps T (transmit strerror w)"
    if "ok T" for T ev f m x w
    using that by (auto simp: ok_def P_def Q_def R_def keeps_def fire_def quiet_def on_channel_def on_out_def setState_def transmitted_def
        cpp_simps flow_defs shutdownWrite_def transmit_def Let_def split: prod.splits outcome.splits)
  have cl: "keeps T (handleClose quiet)" if "ok T" for T unfolding handleClose_def by (intro keeps_intros leaves that)
  have er: "keeps T (handleErrorAndClose quiet e)" if "ok T" for T e
    unfolding handleErrorAndClose_def by (intro keeps_intros leaves cl that)
  have fi: "keeps T (writeFinished quiet)" if "ok T" for T
    unfolding writeFinished_def shutdownInLoop_def by (intro keeps_intros leaves that)
  have "keeps T (writeLoop quiet strerror ws)" if "ok T" for T
    by (induction ws) (auto intro!: keeps_intros leaves cl er fi that split: Result.split IoStatus.split)
  then have w: "keeps T (handleWrite quiet strerror ws)" if "ok T" for T
    unfolding handleWrite_def by (intro keeps_intros that) (use that in auto)
  then show "keeps P (handleWrite quiet strerror ws)" "keeps (Q cd) (handleWrite quiet strerror ws)"
    "keeps (R xs) (handleWrite quiet strerror ws)" by (auto simp: ok_def)
  have ap: "keeps T (handleOutputBufferAppend quiet x)" if "ok T" for T x
    unfolding handleOutputBufferAppend_def handleOutputOverflow_def Let_def
    by (auto intro!: keeps_intros leaves cl that split: prod.split OutputOverflowPolicy.split)
  have q: "keeps (Q cd) (modify (\<lambda>c. c\<lparr>c_sent := c_sent c @ [d]\<rparr>))" "keeps P (modify (\<lambda>c. c\<lparr>c_sent := c_sent c @ [d]\<rparr>))"
    by (rule keeps_modify, simp add: P_def Q_def)+
  show "keeps P (sendInLoop quiet wr d)" "keeps (Q cd) (sendInLoop quiet wr d)"
    unfolding sendInLoop_def
    by (auto intro!: keeps_intros leaves er ap q simp: ok_def split: sys_write.split)
qed

text \<open>A sender that gives a payload to \<^verbatim>\<open>sendFrame\<close> and then handles a writable event.\<close>

definition send_job :: "(int \<Rightarrow> string) \<Rightarrow> byte list \<times> (byte list \<Rightarrow> sys_write) \<times> (byte list \<Rightarrow> sys_write) list \<Rightarrow>
    TcpConnection \<Rightarrow> TcpConnection" where
  "send_job strerror job c =
     (case job of (p, wr, ws) \<Rightarrow> snd (handleWrite quiet strerror ws (snd (sendFrame quiet True wr p c))))"

lemma send_job_ok:
  assumes "codec_ok cd" "c_codec c = Some cd" "fits cd p" "length p \<le> 2 ^ 59" "conn_ok c"
  shows "conn_ok (send_job strerror (p, wr, ws) c)" "c_codec (send_job strerror (p, wr, ws) c) = Some cd"
    "c_state c = Disconnected \<Longrightarrow> c_state (send_job strerror (p, wr, ws) c) = Disconnected"
    "c_state c \<noteq> Disconnected \<Longrightarrow> c_sent (send_job strerror (p, wr, ws) c) = c_sent c @ [frame cd p]"
proof -
  obtain b where b: "encodeFrame cd p = Ret b" "readableView b = Ret (frame cd p)"
    using encodeFrame_ok [OF assms(1,3,4)] by blast
  have ne: "frame cd p \<noteq> []" using fs.enc_nonempty [OF assms(3)] .
  have len: "length (frame cd p) \<le> vec_max_size"
    using length_frame [OF assms(1)] assms(1,4) by (auto simp: codec_ok_def vec_max_size_def)
  have run: "snd (sendFrame quiet True wr p c) = (if c_state c = Disconnected then c else snd (sendInLoop quiet wr (frame cd p) c))"
    using assms(2) b ne
    by (simp add: sendFrame_def send_buffer_def send_def run_bind run_gets run_lift run_seq run_ret split: prod.split outcome.split)
  have s: "conn_ok (snd (sendFrame quiet True wr p c))" "c_codec (snd (sendFrame quiet True wr p c)) = Some cd"
    using run assms(2,5) sendInLoop_ok [OF quiet_ok assms(5) len] keepsD [OF quiet_frame(5) [of "Some cd"]] by auto
  show "conn_ok (send_job strerror (p, wr, ws) c)"
    using keepsD [OF handleWrite_keeps [OF quiet_ok] s(1)] by (simp add: send_job_def)
  show "c_codec (send_job strerror (p, wr, ws) c) = Some cd"
    using keepsD [OF quiet_frame(2), of _ "Some cd"] s(2) by (simp add: send_job_def)
  show "c_state (send_job strerror (p, wr, ws) c) = Disconnected" if "c_state c = Disconnected"
    using keepsD [OF quiet_frame(1)] that run by (simp add: send_job_def)
  show "c_sent (send_job strerror (p, wr, ws) c) = c_sent c @ [frame cd p]" if "c_state c \<noteq> Disconnected"
    using keepsD [OF quiet_frame(3), of _ "c_sent c @ [frame cd p]"] sendInLoop_records [OF that ne] that run by (simp add: send_job_def)
qed

lemma send_jobs_ok:
  assumes "codec_ok cd" "c_codec c = Some cd" "\<forall>(p, _) \<in> set jobs. fits cd p \<and> length p \<le> 2 ^ 59" "conn_ok c"
    and c'_def: "c' = fold (send_job strerror) jobs c"
  shows "conn_ok c' \<and> (c_state c = Disconnected \<longrightarrow> c_state c' = Disconnected) \<and>
    (c_state c' \<noteq> Disconnected \<longrightarrow> c_sent c' = c_sent c @ map (frame cd \<circ> fst) jobs)"
  using assms(2-4) unfolding c'_def
proof (induction jobs arbitrary: c)
  case (Cons job jobs)
  obtain p wr ws where j: "job = (p, wr, ws)" by (cases job)
  have f: "fits cd p" "length p \<le> 2 ^ 59" using Cons.prems(2) j by simp_all
  note s = send_job_ok [OF assms(1) Cons.prems(1) f Cons.prems(3), where strerror = strerror and wr = wr and ws = ws]
  have "\<forall>(p, _) \<in> set jobs. fits cd p \<and> length p \<le> 2 ^ 59" using Cons.prems(2) by simp
  from Cons.IH [OF s(2) this s(1)] s(3,4) j show ?case by auto
qed simp

end
