(* ===== verification/TcpEvents.thy ===== *)
theory TcpEvents
  imports TcpMessages
begin

text \<open>
  The callbacks of \<^verbatim>\<open>TcpConnection\<close>: the close callback comes once; and what happens in the corners the
  code leaves open, where a callback or another thread closes the connection in the middle of a
  handler.
\<close>

section \<open>A connection is closed once\<close>

definition closes :: "TcpConnection \<Rightarrow> nat" where
  "closes c = count_list (c_calls c) Cb_close"

definition close_ok :: "TcpConnection \<Rightarrow> bool" where
  "close_ok c \<longleftrightarrow> closes c \<le> 1 \<and> (c_state c \<noteq> Disconnected \<longrightarrow> closes c = 0)"

text \<open>Callbacks that do not reopen a closed connection and do not report its closing themselves.\<close>

definition callbacks_close_ok :: "user \<Rightarrow> bool" where
  "callbacks_close_ok user \<longleftrightarrow> (\<forall>ev c.
     (c_state c = Disconnected \<longrightarrow> c_state (user ev c) = Disconnected \<and> closes (user ev c) = closes c) \<and>
     (close_ok c \<longrightarrow> close_ok (user ev c)))"

lemma close_fire:
  assumes "callbacks_close_ok user" "ev \<noteq> Cb_close"
  shows "keeps close_ok (fire user ev)"
proof (rule keepsI)
  fix c assume "close_ok c"
  then have "close_ok (c\<lparr>c_calls := c_calls c @ [ev]\<rparr>)" using assms(2) by (auto simp: close_ok_def closes_def)
  then show "close_ok (snd (fire user ev c))" using assms(1) \<open>close_ok c\<close> by (simp add: fire_def callbacks_close_ok_def)
qed

lemma close_frame [simp]:
  "close_ok (c\<lparr>c_in := b\<rparr>) = close_ok c" "close_ok (c\<lparr>c_out := b\<rparr>) = close_ok c"
  "close_ok (c\<lparr>c_channel := ch\<rparr>) = close_ok c" "close_ok (c\<lparr>c_paused := p\<rparr>) = close_ok c"
  "close_ok (c\<lparr>c_lastActive := t, c_lastProbe := u\<rparr>) = close_ok c" "close_ok (c\<lparr>c_now := t\<rparr>) = close_ok c"
  "close_ok (c\<lparr>c_sent := x\<rparr>) = close_ok c" "close_ok (c\<lparr>c_wire := y\<rparr>) = close_ok c" "close_ok (c\<lparr>c_fin := z\<rparr>) = close_ok c"
  "close_ok (c\<lparr>c_pending := fs\<rparr>) = close_ok c"
  "close_ok (c\<lparr>c_autoFlow := a, c_pauseHigh := h, c_resumeLow := w\<rparr>) = close_ok c"
  "close_ok (c\<lparr>c_autoFlow := a, c_pauseHigh := h, c_resumeLow := w, c_paused := p\<rparr>) = close_ok c"
  by (simp_all add: close_ok_def closes_def)

lemma close_leaves:
  "keeps close_ok (on_in m)" "keeps close_ok (on_out m')" "keeps close_ok (on_channel f)" "keeps close_ok touchActive"
  "keeps close_ok maybePauseReadForFlowControl" "keeps close_ok maybeResumeReadForFlowControl"
  "keeps close_ok startReadInLoop" "keeps close_ok stopReadInLoop" "keeps close_ok (queueInLoop g)"
  "keeps close_ok (enableAutoReadFlowControl h l)" "keeps close_ok disableAutoReadFlowControl"
  "keeps close_ok shutdownWrite" "keeps close_ok (transmitted d)"
  by (auto simp: keeps_def on_in_def on_out_def on_channel_def touchActive_def queueInLoop_def flow_defs shutdownWrite_def
      transmitted_def cpp_simps Let_def split: prod.splits)

lemma fire_closed:
  assumes "callbacks_close_ok user" "c_state c = Disconnected"
  shows "c_state (snd (fire user ev c)) = Disconnected \<and>
    closes (snd (fire user ev c)) \<le> closes c + (if ev = Cb_close then 1 else 0)"
proof -
  let ?c = "c\<lparr>c_calls := c_calls c @ [ev]\<rparr>"
  have "closes ?c = closes c + (if ev = Cb_close then 1 else 0)" by (simp add: closes_def)
  moreover have "c_state (user ev ?c) = Disconnected" "closes (user ev ?c) = closes ?c"
    using assms by (simp_all add: callbacks_close_ok_def)
  ultimately show ?thesis using assms(2) by (auto simp: fire_def)
qed

lemma close_handleClose:
  assumes "callbacks_close_ok user"
  shows "keeps close_ok (handleClose user)"
proof (rule keepsI)
  fix c assume c: "close_ok c"
  show "close_ok (snd (handleClose user c))"
  proof (cases "c_state c = Disconnected")
    case True
    then show ?thesis using c by (simp add: handleClose_def cpp_simps)
  next
    case False
    let ?c = "c\<lparr>c_state := Disconnected, c_channel := disableAll (c_channel c)\<rparr>"
    let ?d = "snd (fire user Cb_connection ?c)"
    have "closes ?c = 0" using c False by (simp add: close_ok_def closes_def)
    then have d: "c_state ?d = Disconnected" "closes ?d = 0" using fire_closed [OF assms, of ?c Cb_connection] by simp_all
    have "close_ok (snd (fire user Cb_close ?d))"
      using fire_closed [OF assms d(1), of Cb_close] d(2) by (simp add: close_ok_def)
    moreover have "snd (handleClose user c) = snd (fire user Cb_close ?d)"
      using False by (simp add: handleClose_def cpp_simps setState_def on_channel_def fire_def)
    ultimately show ?thesis by simp
  qed
qed

lemmas close_intros = keeps_intros close_leaves close_fire close_handleClose

lemma close_send:
  assumes "callbacks_close_ok user"
  shows "keeps close_ok (handleErrorAndClose user e)" "keeps close_ok (handleOutputOverflow user)"
    "keeps close_ok (handleOutputBufferAppend user d)" "keeps close_ok (sendInLoop user wr d)"
proof -
  show e: "keeps close_ok (handleErrorAndClose user e)" for e
    unfolding handleErrorAndClose_def using assms by (auto intro!: close_intros)
  show o: "keeps close_ok (handleOutputOverflow user)"
    unfolding handleOutputOverflow_def using assms
    by (auto intro!: close_intros split: OutputOverflowPolicy.split)
  show a: "keeps close_ok (handleOutputBufferAppend user d)" for d
    unfolding handleOutputBufferAppend_def Let_def using assms o by (auto intro!: close_intros split: prod.split)
  have s: "keeps close_ok (modify (\<lambda>c. c\<lparr>c_sent := c_sent c @ [d]\<rparr>))" by (rule keeps_modify) simp
  show "keeps close_ok (sendInLoop user wr d)"
    unfolding sendInLoop_def using assms a e s by (auto intro!: close_intros split: sys_write.split)
qed

lemma close_shutdown:
  "keeps close_ok shutdownInLoop" "keeps close_ok (shutdown l)"
proof -
  show s: "keeps close_ok shutdownInLoop" unfolding shutdownInLoop_def by (auto intro!: close_intros)
  show "keeps close_ok (shutdown l)"
    by (rule keepsI) (use keepsD [OF s] keepsD [OF close_leaves(9) [of F_shutdown]] in
      \<open>auto simp: shutdown_def setState_def run_bind run_gets run_seq run_modify run_ret close_ok_def closes_def\<close>)
qed


lemma close_handlers:
  assumes "callbacks_close_ok user"
  shows "keeps close_ok (handleCodecMessages fuel user cd)" "keeps close_ok (handleRead user strerror rs)"
    "keeps close_ok (handleWrite user strerror ws)"
proof -
  show m: "keeps close_ok (handleCodecMessages fuel user cd)" for fuel cd
    using assms by (induction fuel) (auto intro!: close_intros)
  have "keeps close_ok (handleInput user)"
    unfolding handleInput_def using assms m
    by (auto intro!: close_intros simp del: handleCodecMessages.simps split: prod.split option.split)
  then show "keeps close_ok (handleRead user strerror rs)"
    using assms close_send(1) [OF assms]
    by (induction rs) (auto intro!: close_intros split: Result.split IoStatus.split)
  have f: "keeps close_ok (writeFinished user)"
    unfolding writeFinished_def using assms close_shutdown by (auto intro!: close_intros)
  have "keeps close_ok (transmit strerror w)" for w
    unfolding transmit_def by (auto intro!: close_intros)
  with f have "keeps close_ok (writeLoop user strerror ws)"
    using assms close_send(1) [OF assms]
    by (induction ws) (auto intro!: close_intros split: Result.split IoStatus.split)
  then show "keeps close_ok (handleWrite user strerror ws)"
    unfolding handleWrite_def by (auto intro!: close_intros)
qed

lemma close_connect:
  assumes "callbacks_close_ok user"
  shows "keeps close_ok (connectEstablished user)" "keeps close_ok (connectDestroyed user)"
proof -
  have e: "keeps close_ok (seq (modify (\<lambda>c. c\<lparr>c_connectedAt := c_now c, c_lastActive := c_now c, c_lastProbe := 0\<rparr>))
         (seq (bind (gets c_edge) (\<lambda>e. on_channel (setEdgeTriggered e)))
         (seq (on_channel tie) (seq (on_channel enableReading) (fire user Cb_connection)))))" (is "keeps _ ?rest")
    using assms by (auto intro!: close_intros keeps_modify simp: close_ok_def closes_def)
  show "keeps close_ok (connectEstablished user)"
  proof (rule keepsI)
    fix c assume c: "close_ok c"
    have "close_ok (c\<lparr>c_state := Connected\<rparr>)" if "c_state c = Connecting"
      using c that by (simp add: close_ok_def closes_def)
    from keepsD [OF e this] c show "close_ok (snd (connectEstablished user c))"
      by (simp add: connectEstablished_def setState_def run_bind run_gets run_throw) (simp add: run_seq run_modify)
  qed
  have "keeps close_ok (setState Disconnected)"
    unfolding setState_def by (rule keeps_modify) (auto simp: close_ok_def closes_def)
  then show "keeps close_ok (connectDestroyed user)"
    unfolding connectDestroyed_def using assms by (auto intro!: close_intros)
qed

lemma close_step:
  assumes "callbacks_close_ok user" and "op \<noteq> Op_shutdown_test" "op \<noteq> Op_shutdown_store"
  shows "keeps close_ok (tcp_step user strerror op)"
proof (cases op)
  case (Op_send l wr d)
  then show ?thesis using close_send(4) [OF assms(1)] by (auto intro!: close_intros simp: send_def)
next
  case (Op_forceClose l)
  then show ?thesis using assms by (auto intro!: close_intros simp: forceClose_def forceCloseInLoop_def)
next
  case (Op_event ev err rs ws)
  then show ?thesis using assms close_handlers [OF assms(1)] close_send(1) [OF assms(1)]
    by (auto intro!: close_intros simp: handleEvent_def handleEventWithGuard_def handleError_def)
next
  case (Op_pending wr)
  have "keeps close_ok (modify (\<lambda>c. c\<lparr>c_pending := fs\<rparr>))" for fs by (rule keeps_modify) simp
  then show ?thesis using Op_pending assms close_send(4) [OF assms(1)] close_shutdown(1)
    by (auto intro!: close_intros simp: runPending_def forceCloseInLoop_def split: list.split functor_task.split)
qed (use assms close_connect close_shutdown in \<open>auto intro!: close_intros keeps_modify simp: startRead_def stopRead_def\<close>)

lemma close_shutdown_steps:
  assumes "close_ok c"
  shows "close_ok (snd (shutdown_test c))" and "\<not> late_store Op_shutdown_store c \<Longrightarrow> close_ok (snd (shutdown_store c))"
  using assms by (auto simp: shutdown_test_def shutdown_store_def cpp_simps setState_def queueInLoop_def close_ok_def closes_def)

lemma close_exec:
  assumes "callbacks_close_ok user" and "\<not> late_store op c" and "close_ok c"
  shows "close_ok (tcp_exec user strerror op c)"
  using close_shutdown_steps [OF assms(3)] keepsD [OF close_step [OF assms(1)] assms(3)] assms(2)
  by (cases "op = Op_shutdown_test \<or> op = Op_shutdown_store") (auto simp: tcp_exec_def)

interpretation tcp_close: op_machine "tcp_next user strerror" "\<lambda>(c, late). callbacks_close_ok user \<longrightarrow> late \<or> close_ok c" for user strerror
  by unfold_locales (auto simp: close_exec)

section \<open>Properties\<close>

lemma writing_polled: "isWriting (updateChannel ch) \<Longrightarrow> ch_polled (updateChannel ch) \<noteq> None"
  by (auto simp: updateChannel_polled isNoneEvent_def isWriting_def kNoneEvent_def)

text \<open>A new connection, for the examples.\<close>

lemma fresh_connection:
  "\<exists>c0. mk_TcpConnection True True name now = Ret c0 \<and> c_state c0 = Connecting \<and> c_calls c0 = [] \<and>
     content (c_out c0) = [] \<and> stream_inv (c_in c0) \<and> content (c_in c0) = [] \<and> length (m_buffer (c_in c0)) = 1032 \<and>
     \<not> isWriting (c_channel c0) \<and> \<not> isReading (c_channel c0) \<and> c_sent c0 = [] \<and> c_wire c0 = [] \<and>
     stream_inv (c_out c0) \<and> length (m_buffer (c_out c0)) = 1032 \<and> c_policy c0 = CloseConnection"
proof -
  obtain b where b: "mk_Buffer kInitialSize = Ret b" "stream_inv b" "content b = []" "length (m_buffer b) = 1032"
    using mk_Buffer_ok [of kInitialSize] by (auto simp: kInitialSize_def stream_inv_def kCheapPrepend_def)
  have "\<not> isWriting mk_Channel" "\<not> isReading mk_Channel" by (simp_all add: isWriting_def isReading_def mk_Channel_def kNoneEvent_def)
  with b show ?thesis by (simp add: mk_TcpConnection_def)
qed

text \<open>The close callback of a connection is called at most once, and only when the connection is
  closed for good, whatever the order of calls and events, as long as no \<^verbatim>\<open>shutdown\<close> of another thread
  stores after a close that its test did not see.\<close>

theorem tcp_close_once:
  assumes "mk_TcpConnection l v name now = Ret c0" "callbacks_close_ok user"
    and c: "(c, late) = fold (tcp_next user strerror) ops (configured cbs cd maxOut edge c0, False)" and "\<not> late"
  shows "count_list (c_calls c) Cb_close \<le> 1 \<and>
    (Cb_close \<in> set (c_calls c) \<longrightarrow> c_state c = Disconnected)"
proof -
  have "close_ok (configured cbs cd maxOut edge c0)"
    using assms(1) by (auto simp: mk_TcpConnection_def configured_def close_ok_def closes_def obind_Ret_iff split: if_splits)
  then have "close_ok c" using tcp_close.run_inv [of user "(configured cbs cd maxOut edge c0, False)" strerror ops] assms(2,4)
    by (simp add: c [symmetric])
  then show ?thesis by (auto simp: close_ok_def closes_def count_list_0_iff)
qed

theorem tcp_close_once_witness:
  "\<exists>c0 c. mk_TcpConnection True True ''a'' 7 = Ret c0 \<and>
     (c, False) = fold (tcp_next quiet (\<lambda>_. [])) [Op_established, Op_forceClose True, Op_destroyed, Op_forceClose True]
       (configured (\<lambda>_. True) None 100 False c0, False) \<and>
     count_list (c_calls c) Cb_close \<le> 1"
proof -
  obtain c0 where c0: "mk_TcpConnection True True ''a'' 7 = Ret c0" using fresh_connection by blast
  have q: "callbacks_close_ok quiet" by (simp add: callbacks_close_ok_def quiet_def)
  let ?run = "\<lambda>ops. fold (tcp_next quiet (\<lambda>_. [])) ops (configured (\<lambda>_. True) None 100 False c0, False)"
  let ?ops = "[Op_established, Op_forceClose True, Op_destroyed, Op_forceClose True]"
  have "\<not> snd (?run ?ops)" by simp
  then obtain c where c: "(c, False) = ?run ?ops" by (metis prod.collapse)
  show ?thesis by (intro exI conjI) (rule c0, rule c, use tcp_close_once [OF c0 q c] in blast)
qed

text \<open>\<^verbatim>\<open>shutdown\<close> tests the state and stores \<^verbatim>\<open>Disconnecting\<close> in two steps. When the loop closes the
  connection in between, the store reopens it: a later \<^verbatim>\<open>forceClose\<close> calls the close
  callback a second time.\<close>

theorem tcp_shutdown_race:
  assumes "c_state c = Connected" "c_hasCb c K_close" "Cb_close \<notin> set (c_calls c)"
    and "c1 = snd (shutdown_test c)" and "c2 = snd (handleClose quiet c1)"
    and "c3 = snd (shutdown_store c2)" and "c4 = snd (forceClose quiet True c3)"
  shows "c_state c2 = Disconnected \<and> c_state c3 = Disconnecting \<and> count_list (c_calls c4) Cb_close = 2"
proof -
  have n: "count_list (c_calls c) Cb_close = 0" using assms(3) by (simp add: count_list_0_iff)
  show ?thesis
    using assms n
    by (simp add: shutdown_test_def shutdown_store_def handleClose_def forceClose_def forceCloseInLoop_def cpp_simps
        setState_def on_channel_def queueInLoop_def fire_def quiet_def)
qed

theorem tcp_shutdown_race_witness:
  "\<exists>c c4. c_state c = Connected \<and>
     c4 = snd (forceClose quiet True (snd (shutdown_store (snd (handleClose quiet (snd (shutdown_test c))))))) \<and>
     count_list (c_calls c4) Cb_close = 2"
proof -
  obtain c0 :: TcpConnection where c0: "c_calls c0 = []" using fresh_connection by blast
  let ?c = "c0\<lparr>c_state := Connected, c_hasCb := (\<lambda>_. True)\<rparr>"
  have h: "c_state ?c = Connected" "c_hasCb ?c K_close" "Cb_close \<notin> set (c_calls ?c)" using c0 by simp_all
  show ?thesis
    by (intro exI conjI) (rule h(1), rule refl, use tcp_shutdown_race [OF h refl refl refl refl] in blast)
qed

text \<open>When the high water mark callback closes the connection, \<^verbatim>\<open>sendInLoop\<close> goes on to enable writing: the
  closed connection is in the poller again.\<close>

definition close_on_high_water :: user where
  "close_on_high_water ev c = (if kind ev = K_highWater then snd (forceClose quiet True c) else c)"

theorem tcp_high_water_rearms:
  assumes "out_ok c" "c_state c \<noteq> Disconnected" "\<not> isWriting (c_channel c)" "content (c_out c) = []"
    and "c_hasCb c K_highWater" "wr d = Sys_write_err EAGAIN" "length d = c_maxOut c" "d \<noteq> []"
  shows "\<exists>c'. sendInLoop close_on_high_water wr d c = (Ret (), c') \<and> c_state c' = Disconnected \<and>
    isWriting (c_channel c') \<and> ch_polled (c_channel c') \<noteq> None"
proof -
  have b: "base_ok c" using assms(1) by (simp add: out_ok_def)
  have rb: "readableBytes (c_out c) = 0" using readable_out [OF b] assms(4) by simp
  have max: "c_maxOut c \<le> 2 ^ 60" using b by (simp add: base_ok_def)
  have new: "sz_add 0 (length d) = length d" using max assms(7) by (simp add: sz_simps size_t_mod_def)
  have "room (length d) (c_out c)" using b assms(4,7) max by (simp add: room_def base_ok_def kCheapPrepend_def)
  then obtain o' where o': "append d (c_out c) = (Ret (), o')" using append_stream b by (metis base_ok_def)
  have pos: "0 < c_maxOut c" using assms(7,8) by (metis length_greater_0_conv)
  have wb: "isWouldBlockError EAGAIN" by (simp add: isWouldBlockError_def)
  have p: "ch_polled (enableWriting ch) \<noteq> None" "ch_polled (disableReading (enableWriting ch)) \<noteq> None" for ch
    using writing_polled reading_writing(4) [of ch] reading_writing(6) [of "enableWriting ch"]
    unfolding enableWriting_def disableReading_def by blast+
  show ?thesis
    using assms rb new o' wb p pos
    by (simp add: sendInLoop_def handleOutputBufferAppend_def cpp_simps on_out_def fire_def close_on_high_water_def
        forceClose_def forceCloseInLoop_def handleClose_def setState_def on_channel_def quiet_def
        maybePauseReadForFlowControl_def Let_def)
qed


theorem tcp_high_water_rearms_witness:
  "\<exists>c c'. c_state c \<noteq> Disconnected \<and>
     sendInLoop close_on_high_water (\<lambda>_. Sys_write_err EAGAIN) [1, 2, 3, 4] c = (Ret (), c') \<and>
     c_state c' = Disconnected \<and> isWriting (c_channel c')"
proof -
  obtain c0 where c0: "mk_TcpConnection True True ''a'' 7 = Ret c0" "c_state c0 = Connecting"
    "\<not> isWriting (c_channel c0)" "content (c_out c0) = []" using fresh_connection by blast
  let ?c = "configured (\<lambda>_. True) None 4 False c0"
  have h: "out_ok ?c" "c_state ?c \<noteq> Disconnected" "\<not> isWriting (c_channel ?c)" "content (c_out ?c) = []"
    "c_hasCb ?c K_highWater" "(\<lambda>_. Sys_write_err EAGAIN) [1, 2, 3, 4 :: byte] = Sys_write_err EAGAIN"
    "length [1, 2, 3, 4 :: byte] = c_maxOut ?c" "[1, 2, 3, 4 :: byte] \<noteq> []"
    using c0 conn_ok_base(2) [OF new_connection_ok [OF c0(1)]] by (simp_all add: configured_def)
  show ?thesis using tcp_high_water_rearms [OF h] h(2) by blast
qed


text \<open>An error of \<^verbatim>\<open>readv\<close> reaches the error callback as the number of \<^verbatim>\<open>ErrorCode::SystemError\<close>,
  whatever the error was; an error of \<^verbatim>\<open>write\<close> in \<^verbatim>\<open>sendInLoop\<close> reaches it as the system's error
  number.\<close>

theorem tcp_read_error_code:
  assumes "\<not> isWouldBlockError err" "c_state c \<noteq> Disconnected" "c_hasCb c K_error" "\<not> c_hasCb c K_connection" "\<not> c_hasCb c K_close"
    and "d \<noteq> []" "\<not> isWriting (c_channel c)" "readableBytes (c_out c) = 0"
  shows "c_calls (snd (handleRead quiet strerror [\<lambda>_. Sys_read_err err] c)) = c_calls c @ [Cb_error 7] \<and>
    c_calls (snd (sendInLoop quiet (\<lambda>_. Sys_write_err err) d c)) = c_calls c @ [Cb_error err]"
proof -
  have "\<not> isWouldBlockError 7" by (simp add: isWouldBlockError_def EAGAIN_def EWOULDBLOCK_def)
  then show ?thesis
    using assms
    by (simp add: handleRead.simps sendInLoop_def on_in_def readFdResult_def cpp_simps Let_def makeSystemErrorResultT_def
        makeSystemError_def mk_error_def handleErrorAndClose_def fire_def quiet_def handleClose_def setState_def on_channel_def)
qed

theorem tcp_read_error_code_witness:
  "\<exists>c. c_calls (snd (handleRead quiet (\<lambda>_. []) [\<lambda>_. Sys_read_err 104] c)) = [Cb_error 7] \<and>
     c_calls (snd (sendInLoop quiet (\<lambda>_. Sys_write_err 104) [1] c)) = [Cb_error 104]"
proof -
  obtain c0 :: TcpConnection where c0: "mk_TcpConnection True True ''a'' 7 = Ret c0" "c_state c0 = Connecting" "c_calls c0 = []"
    "\<not> isWriting (c_channel c0)" "stream_inv (c_out c0)" "content (c_out c0) = []" using fresh_connection by blast
  let ?c = "c0\<lparr>c_hasCb := (\<lambda>k. k = K_error)\<rparr>"
  have r: "readableBytes (c_out ?c) = 0" using c0 buffer_sizes(4) [of "c_out c0"] by (simp add: stream_inv_def)
  have w: "\<not> isWouldBlockError 104" by (simp add: isWouldBlockError_def EAGAIN_def EWOULDBLOCK_def)
  show ?thesis using tcp_read_error_code [of 104 ?c "[1]" "\<lambda>_. []"] r w c0 by (intro exI [of _ ?c]) simp
qed

text \<open>Turning flow control off while it has paused reading leaves reading off: no amount of draining
  the output turns it on again.\<close>

theorem tcp_flow_control_off_stalls:
  assumes "c_paused c" "\<not> isReading (c_channel c)" and "c1 = snd (disableAutoReadFlowControl c)"
  shows "\<not> c_paused c1 \<and> \<not> isReading (c_channel (snd (handleWrite quiet strerror ws c1)))"
proof -
  let ?P = "\<lambda>c. \<not> c_autoFlow c \<and> \<not> isReading (c_channel c)"
  have leaves: "keeps ?P (fire quiet ev)" "keeps ?P (transmit strerror w)" "keeps ?P maybeResumeReadForFlowControl"
    "keeps ?P (setState st)" "keeps ?P shutdownWrite" "keeps ?P (on_channel disableAll)" "keeps ?P (on_channel disableWriting)" for ev w st
    by (auto simp: keeps_def fire_def quiet_def transmit_def on_out_def transmitted_def cpp_simps maybeResumeReadForFlowControl_def
        setState_def shutdownWrite_def on_channel_def split: prod.splits outcome.splits)
  have cl: "keeps ?P (handleClose quiet)" unfolding handleClose_def by (intro keeps_intros leaves)
  have er: "keeps ?P (handleErrorAndClose quiet e)" for e unfolding handleErrorAndClose_def by (intro keeps_intros leaves cl)
  have fi: "keeps ?P (writeFinished quiet)"
    unfolding writeFinished_def shutdownInLoop_def by (intro keeps_intros leaves)
  have "keeps ?P (writeLoop quiet strerror ws)"
    by (induction ws) (auto intro!: keeps_intros leaves cl er fi split: Result.split IoStatus.split)
  then have "keeps ?P (handleWrite quiet strerror ws)" unfolding handleWrite_def by (intro keeps_intros)
  from keepsD [OF this, of c1] assms show ?thesis
    by (simp add: disableAutoReadFlowControl_def cpp_simps)
qed

theorem tcp_flow_control_off_stalls_witness:
  "\<exists>c. c_paused c \<and> \<not> isReading (c_channel (snd (handleWrite quiet (\<lambda>_. []) [\<lambda>_. Sys_wrote 3] (snd (disableAutoReadFlowControl c)))))"
proof -
  obtain c0 :: TcpConnection where c0: "mk_TcpConnection True True ''a'' 7 = Ret c0" "\<not> isReading (c_channel c0)"
    using fresh_connection by blast
  show ?thesis using tcp_flow_control_off_stalls [of "c0\<lparr>c_paused := True\<rparr>" _ "\<lambda>_. []" "[\<lambda>_. Sys_wrote 3]"] c0(2)
    by (intro exI [of _ "c0\<lparr>c_paused := True\<rparr>"]) simp
qed

text \<open>\<^verbatim>\<open>handleRead\<close> does not look at the state between two reads: a message callback that closes the
  connection is called again for the next piece of data, after the close callback.\<close>

definition close_on_message :: user where
  "close_on_message ev c = (if ev = Cb_message then snd (forceClose quiet True c) else c)"

theorem tcp_message_after_close:
  assumes "c_state c \<noteq> Disconnected" "c_hasCb c = (\<lambda>k. k = K_message \<or> k = K_close)" "c_codec c = None"
    and in1: "readFdResult strerror r1 (c_in c) = (Ret (Value (io n Io_Ok)), b1)"
    and in2: "readFdResult strerror r2 b1 = (Ret (Value (io m Io_Ok)), b2)"
  shows "c_calls (snd (handleRead close_on_message strerror [r1, r2] c)) = c_calls c @ [Cb_message, Cb_close, Cb_message]"
  using assms
  by (simp add: on_in_def io_def cpp_simps touchActive_def handleInput_def fire_def close_on_message_def forceClose_def
      forceCloseInLoop_def handleClose_def setState_def on_channel_def quiet_def)


theorem tcp_message_after_close_witness:
  "\<exists>c. c_state c \<noteq> Disconnected \<and>
     c_calls (snd (handleRead close_on_message (\<lambda>_. []) [\<lambda>_. Sys_read [1], \<lambda>_. Sys_read [2]] c)) =
       [Cb_message, Cb_close, Cb_message]"
proof -
  obtain c0 :: TcpConnection where c0: "mk_TcpConnection True True ''a'' 7 = Ret c0" "c_state c0 = Connecting" "c_calls c0 = []"
    "stream_inv (c_in c0)" "content (c_in c0) = []" "length (m_buffer (c_in c0)) = 1032" using fresh_connection by blast
  let ?c = "c0\<lparr>c_hasCb := (\<lambda>k. k = K_message \<or> k = K_close), c_codec := None\<rparr>"
  obtain b1 where b1: "readFdResult (\<lambda>_. []) (\<lambda>_. Sys_read [1]) (c_in ?c) = (Ret (Value (io 1 Io_Ok)), b1)"
    "stream_inv b1" "content b1 = [1]" "length (m_buffer b1) \<le> 2 ^ 62"
    using read_chunk [of "c_in ?c" "[1]" "\<lambda>_. []"] c0 by (auto simp: extrabuf_size_def)
  obtain b2 where b2: "readFdResult (\<lambda>_. []) (\<lambda>_. Sys_read [2]) b1 = (Ret (Value (io 1 Io_Ok)), b2)"
    using read_chunk [of b1 "[2]" "\<lambda>_. []"] b1 by (auto simp: extrabuf_size_def)
  have h: "c_state ?c \<noteq> Disconnected" "c_hasCb ?c = (\<lambda>k. k = K_message \<or> k = K_close)" "c_codec ?c = None" using c0 by simp_all
  show ?thesis using tcp_message_after_close [OF h b1(1) b2] c0(2,3) by (intro exI [of _ ?c]) simp
qed

text \<open>The error callback runs before the connection is marked closed. A send from it, after a partial write
  whose rest did not fit the output limit, puts its bytes on the wire right behind the partial
  data.\<close>

definition send_on_error :: "byte \<Rightarrow> user" where
  "send_on_error x ev c = (if ev = Cb_error kOutputBufferOverflowError then snd (send quiet True (\<lambda>_. Sys_wrote 1) [x] c) else c)"

theorem tcp_send_in_error_callback:
  assumes "c_state c \<noteq> Disconnected" "c_hasCb c = (\<lambda>k. k = K_error)" "c_policy c = CloseConnection"
    and "\<not> isWriting (c_channel c)" "readableBytes (c_out c) = 0"
    and "wr d = Sys_wrote n" "n < length d" "length d - n > c_maxOut c" "length d \<le> vec_max_size"
    and "c' = snd (sendInLoop (send_on_error x) wr d c)"
  shows "c_state c' = Disconnected \<and> c_wire c' = c_wire c @ take n d @ [x] \<and> c_sent c' = c_sent c @ [d, [x]]"
proof -
  have "sz_add 0 (length d - n) = length d - n" using assms(9) by (simp add: sz_simps vec_max_size_def size_t_mod_def)
  moreover have "d \<noteq> []" using assms(7) by auto
  ultimately show ?thesis using assms
    by (simp add: sendInLoop_def send_def handleOutputBufferAppend_def handleOutputOverflow_def cpp_simps transmitted_def
        fire_def send_on_error_def handleClose_def setState_def on_channel_def quiet_def Let_def)
qed

theorem tcp_send_in_error_callback_witness:
  "\<exists>c c'. c_state c \<noteq> Disconnected \<and> c' = snd (sendInLoop (send_on_error 9) (\<lambda>_. Sys_wrote 2) [1, 2, 3, 4, 5] c) \<and>
     c_wire c' = [1, 2, 9] \<and> concat (c_sent c') = [1, 2, 3, 4, 5, 9]"
proof -
  obtain c0 :: TcpConnection where c0: "mk_TcpConnection True True ''a'' 7 = Ret c0" "c_state c0 = Connecting" "c_sent c0 = []" "c_wire c0 = []"
    "\<not> isWriting (c_channel c0)" "stream_inv (c_out c0)" "content (c_out c0) = []" "c_policy c0 = CloseConnection" using fresh_connection by blast
  let ?c = "c0\<lparr>c_hasCb := (\<lambda>k. k = K_error), c_maxOut := 2\<rparr>"
  have r: "readableBytes (c_out ?c) = 0" using c0 buffer_sizes(4) [of "c_out c0"] by (simp add: stream_inv_def)
  have "c_wire (snd (sendInLoop (send_on_error 9) (\<lambda>_. Sys_wrote 2) [1, 2, 3, 4, 5] ?c)) = [1, 2, 9] \<and>
    c_sent (snd (sendInLoop (send_on_error 9) (\<lambda>_. Sys_wrote 2) [1, 2, 3, 4, 5] ?c)) = [[1, 2, 3, 4, 5], [9]]"
    using tcp_send_in_error_callback [of ?c "\<lambda>_. Sys_wrote 2" "[1, 2, 3, 4, 5]" 2 _ 9] r c0 by (simp add: vec_max_size_def)
  then show ?thesis using c0(2) by (intro exI [of _ ?c] exI conjI) auto
qed

end
