(* ===== verification/LruCache.thy ===== *)
theory LruCache
  imports Errors
begin

text \<open>
  \<^verbatim>\<open>dbase::cache::LRUCache\<close> (\<^verbatim>\<open>code/include/dbase/cache/lru_cache.h\<close>). The \<^verbatim>\<open>std::list\<close> of entries is a list
  of nodes, most recently used first; a node has an address, which is what an iterator holds and
  what \<^verbatim>\<open>splice\<close> keeps. The \<^verbatim>\<open>unordered_map\<close> from keys to iterators is an association list with
  distinct keys. Following an iterator to a node that is not in the list is undefined. Every
  public operation holds the mutex, so operations are atomic.
\<close>

section \<open>State and operations\<close>

record ('k, 'v) LRUCache =
  m_capacity :: nat
  m_items :: "(nat \<times> 'k \<times> 'v) list"
  m_index :: "('k \<times> nat) list"
  m_evictCallback :: bool
  next_node :: nat
  evict_calls :: "('k \<times> 'v) list"

text \<open>\<open>next_node\<close> is the address of the next allocation, \<open>evict_calls\<close> the calls of the eviction
  callback so far, latest first.\<close>

definition mk_LRUCache :: "nat \<Rightarrow> ('k, 'v) LRUCache outcome" where
  "mk_LRUCache n =
     (if n = 0 then Throw (Invalid_argument ''LRUCache capacity must be greater than 0'')
      else Ret \<lparr>m_capacity = n, m_items = [], m_index = [], m_evictCallback = False,
                next_node = 0, evict_calls = []\<rparr>)"

definition setEvictCallback :: "bool \<Rightarrow> (('k, 'v) LRUCache, unit) cpp" where
  "setEvictCallback cb = modify (\<lambda>c. c\<lparr>m_evictCallback := cb\<rparr>)"

definition lru_size :: "('k, 'v) LRUCache \<Rightarrow> nat" where
  "lru_size c = length (m_index c)"

definition lru_empty :: "('k, 'v) LRUCache \<Rightarrow> bool" where
  "lru_empty c \<longleftrightarrow> m_index c = []"

definition lru_contains :: "'k \<Rightarrow> ('k, 'v) LRUCache \<Rightarrow> bool" where
  "lru_contains key c \<longleftrightarrow> map_of (m_index c) key \<noteq> None"

definition lru_clear :: "(('k, 'v) LRUCache, unit) cpp" where
  "lru_clear = modify (\<lambda>c. c\<lparr>m_items := [], m_index := []\<rparr>)"

definition deref :: "nat \<Rightarrow> (('k, 'v) LRUCache, 'k \<times> 'v) cpp" where
  "deref it = (\<lambda>c. case map_of (m_items c) it of Some kv \<Rightarrow> (Ret kv, c) | None \<Rightarrow> (Undef, c))"

definition touch :: "nat \<Rightarrow> (('k, 'v) LRUCache, unit) cpp" where
  "touch it = bind (gets m_items) (\<lambda>items.
     case items of
       [] \<Rightarrow> undef
     | (b, _) # _ \<Rightarrow>
         if it \<noteq> b
         then bind (deref it) (\<lambda>kv. modify (\<lambda>c. c\<lparr>m_items := (it, kv) # filter (\<lambda>(j, _). j \<noteq> it) (m_items c)\<rparr>))
         else ret ())"

definition assign_value :: "nat \<Rightarrow> 'v \<Rightarrow> (('k, 'v) LRUCache, unit) cpp" where
  "assign_value it value = bind (deref it) (\<lambda>_.
     modify (\<lambda>c. c\<lparr>m_items := map (\<lambda>(j, k, v). if j = it then (j, k, value) else (j, k, v)) (m_items c)\<rparr>))"

text \<open>One turn of the loop of \<^verbatim>\<open>evictIfNeeded\<close>, on the last node of a non-empty list.\<close>

definition evict_last :: "('k, 'v) LRUCache \<Rightarrow> ('k, 'v) LRUCache" where
  "evict_last c =
     (let (_, k, v) = last (m_items c)
      in c\<lparr>evict_calls := (if m_evictCallback c then (k, v) # evict_calls c else evict_calls c),
           m_index := filter (\<lambda>(k', _). k' \<noteq> k) (m_index c),
           m_items := butlast (m_items c)\<rparr>)"

function evictIfNeeded :: "('k, 'v) LRUCache \<Rightarrow> unit outcome \<times> ('k, 'v) LRUCache" where
  "evictIfNeeded c =
     (if length (m_index c) > m_capacity c
      then (if m_items c = [] then (Undef, c) else evictIfNeeded (evict_last c))
      else (Ret (), c))"
  by pat_completeness auto
termination
  by (relation "measure (\<lambda>c. length (m_items c))") (auto simp: evict_last_def split: prod.splits)

declare evictIfNeeded.simps [simp del]

definition putImpl :: "'k \<Rightarrow> 'v \<Rightarrow> (('k, 'v) LRUCache, unit) cpp" where
  "putImpl key value = bind (gets (\<lambda>c. map_of (m_index c) key)) (\<lambda>r.
     case r of
       Some it \<Rightarrow> seq (assign_value it value) (touch it)
     | None \<Rightarrow>
         seq (modify (\<lambda>c. c\<lparr>m_items := (next_node c, key, value) # m_items c,
                            m_index := (key, next_node c) # m_index c,
                            next_node := Suc (next_node c)\<rparr>))
             evictIfNeeded)"

definition put :: "'k \<Rightarrow> 'v \<Rightarrow> (('k, 'v) LRUCache, unit) cpp" where
  "put key value = putImpl key value"

definition get :: "'k \<Rightarrow> (('k, 'v) LRUCache, 'v option) cpp" where
  "get key = bind (gets (\<lambda>c. map_of (m_index c) key)) (\<lambda>r.
     case r of
       None \<Rightarrow> ret None
     | Some it \<Rightarrow> seq (touch it) (bind (deref it) (\<lambda>kv. ret (Some (snd kv)))))"

definition getOrError :: "'k \<Rightarrow> (('k, 'v) LRUCache, 'v Result) cpp" where
  "getOrError key = bind (get key) (\<lambda>value.
     case value of
       None \<Rightarrow> ret (makeErrorResult EC_NotFound ''cache key not found'')
     | Some v \<Rightarrow> ret (Value v))"

definition lru_peek :: "'k \<Rightarrow> (('k, 'v) LRUCache, 'v option) cpp" where
  "lru_peek key = bind (gets (\<lambda>c. map_of (m_index c) key)) (\<lambda>r.
     case r of
       None \<Rightarrow> ret None
     | Some it \<Rightarrow> bind (deref it) (\<lambda>kv. ret (Some (snd kv))))"

definition remove :: "'k \<Rightarrow> (('k, 'v) LRUCache, bool) cpp" where
  "remove key = bind (gets (\<lambda>c. map_of (m_index c) key)) (\<lambda>r.
     case r of
       None \<Rightarrow> ret False
     | Some it \<Rightarrow> bind (deref it) (\<lambda>_.
         seq (modify (\<lambda>c. c\<lparr>m_items := filter (\<lambda>(j, _). j \<noteq> it) (m_items c),
                            m_index := filter (\<lambda>(k', _). k' \<noteq> key) (m_index c)\<rparr>))
             (ret True)))"

definition popLru :: "(('k, 'v) LRUCache, ('k \<times> 'v) option) cpp" where
  "popLru = bind (gets m_items) (\<lambda>items.
     if items = [] then ret None
     else let (_, k, v) = last items
          in seq (modify (\<lambda>c. c\<lparr>m_index := filter (\<lambda>(k', _). k' \<noteq> k) (m_index c),
                                 m_items := butlast (m_items c)\<rparr>))
                 (ret (Some (k, v))))"

definition popMru :: "(('k, 'v) LRUCache, ('k \<times> 'v) option) cpp" where
  "popMru = bind (gets m_items) (\<lambda>items.
     case items of
       [] \<Rightarrow> ret None
     | (_, k, v) # _ \<Rightarrow>
         seq (modify (\<lambda>c. c\<lparr>m_index := filter (\<lambda>(k', _). k' \<noteq> k) (m_index c),
                            m_items := tl (m_items c)\<rparr>))
             (ret (Some (k, v))))"

definition lru :: "('k, 'v) LRUCache \<Rightarrow> ('k \<times> 'v) option" where
  "lru c = (if m_items c = [] then None else Some (snd (last (m_items c))))"

definition mru :: "('k, 'v) LRUCache \<Rightarrow> ('k \<times> 'v) option" where
  "mru c = (case m_items c of [] \<Rightarrow> None | n # _ \<Rightarrow> Some (snd n))"

section \<open>Invariant and abstraction\<close>

definition entry :: "nat \<times> 'k \<times> 'v \<Rightarrow> 'k \<times> nat" where
  "entry n = (fst (snd n), fst n)"

text \<open>The index holds exactly one entry per node, and keys, addresses are distinct.\<close>

definition lru_inv :: "('k, 'v) LRUCache \<Rightarrow> bool" where
  "lru_inv c \<longleftrightarrow>
     distinct (map fst (m_items c)) \<and> distinct (map (fst \<circ> snd) (m_items c)) \<and>
     distinct (map fst (m_index c)) \<and> set (m_index c) = entry ` set (m_items c) \<and>
     (\<forall>n \<in> set (m_items c). fst n < next_node c) \<and>
     length (m_items c) \<le> m_capacity c \<and> 0 < m_capacity c"

text \<open>What a caller sees: the entries, most recently used first.\<close>

definition entries :: "('k, 'v) LRUCache \<Rightarrow> ('k \<times> 'v) list" where
  "entries c = map snd (m_items c)"

definition without :: "'k \<Rightarrow> ('k \<times> 'v) list \<Rightarrow> ('k \<times> 'v) list" where
  "without k xs = filter (\<lambda>(k', _). k' \<noteq> k) xs"

text \<open>The abstract cache: a recency list, cut to the capacity.\<close>

definition spec_put :: "nat \<Rightarrow> 'k \<Rightarrow> 'v \<Rightarrow> ('k \<times> 'v) list \<Rightarrow> ('k \<times> 'v) list" where
  "spec_put cap k v xs = take cap ((k, v) # without k xs)"

definition spec_get :: "'k \<Rightarrow> ('k \<times> 'v) list \<Rightarrow> 'v option \<times> ('k \<times> 'v) list" where
  "spec_get k xs = (case map_of xs k of None \<Rightarrow> (None, xs) | Some v \<Rightarrow> (Some v, (k, v) # without k xs))"

subsection \<open>The index finds the nodes\<close>

lemma index_keys:
  assumes "lru_inv c"
  shows "fst ` set (m_index c) = fst ` set (entries c)"
  using assms by (simp add: lru_inv_def entry_def entries_def image_image)

lemma index_length:
  assumes "lru_inv c"
  shows "length (m_index c) = length (m_items c)"
proof -
  have "length (m_index c) = card (fst ` set (m_index c))"
    using assms distinct_card [of "map fst (m_index c)"] by (simp add: lru_inv_def)
  also have "\<dots> = card (set (map (fst \<circ> snd) (m_items c)))"
    using index_keys [OF assms] by (simp add: entries_def image_comp)
  also have "\<dots> = length (m_items c)"
    using assms distinct_card [of "map (fst \<circ> snd) (m_items c)"] by (simp add: lru_inv_def)
  finally show ?thesis .
qed

lemma index_Some:
  assumes "lru_inv c" "map_of (m_index c) k = Some it"
  shows "\<exists>v. map_of (m_items c) it = Some (k, v) \<and> map_of (entries c) k = Some v"
proof -
  have "(k, it) \<in> entry ` set (m_items c)"
    using assms map_of_SomeD by (force simp: lru_inv_def)
  then obtain v where v: "(it, k, v) \<in> set (m_items c)" by (auto simp: entry_def)
  then have "(k, v) \<in> set (entries c)" by (force simp: entries_def)
  moreover have "distinct (map fst (entries c))" using assms(1) by (simp add: lru_inv_def entries_def comp_def)
  moreover have "map_of (m_items c) it = Some (k, v)"
    using assms(1) v by (simp add: lru_inv_def)
  ultimately show ?thesis by auto
qed

lemma index_None:
  assumes "lru_inv c"
  shows "map_of (m_index c) k = None \<longleftrightarrow> map_of (entries c) k = None"
  using index_keys [OF assms] by (simp add: map_of_eq_None_iff)

lemma entries_distinct: "lru_inv c \<Longrightarrow> distinct (map fst (entries c))"
  by (simp add: lru_inv_def entries_def comp_def)

text \<open>In a list with distinct addresses and distinct keys, a node is removed by either.\<close>

lemma filter_node_key:
  assumes "distinct (map fst xs)" "distinct (map (fst \<circ> snd) xs)" "(it, k, v) \<in> set xs"
  shows "filter (\<lambda>(j, _). j \<noteq> it) xs = filter (\<lambda>(_, k', _). k' \<noteq> k) xs"
proof (rule filter_cong [OF refl])
  fix n assume n: "n \<in> set xs"
  have "inj_on fst (set xs)" "inj_on (fst \<circ> snd) (set xs)"
    using assms(1,2) by (simp_all add: distinct_map)
  from inj_on_eq_iff [OF this(1) n assms(3)] inj_on_eq_iff [OF this(2) n assms(3)]
  have "fst n = it \<longleftrightarrow> n = (it, k, v)" "fst (snd n) = k \<longleftrightarrow> n = (it, k, v)" by simp_all
  then show "(case n of (j, _) \<Rightarrow> j \<noteq> it) = (case n of (_, k', _) \<Rightarrow> k' \<noteq> k)"
    by (simp add: case_prod_unfold)
qed

lemma without_entries: "map snd (filter (\<lambda>(_, k', _). k' \<noteq> k) xs) = without k (map snd xs)"
  by (simp add: without_def filter_map comp_def case_prod_unfold)

lemma without_absent: "k \<notin> fst ` set xs \<Longrightarrow> without k xs = xs"
  unfolding without_def by (rule filter_True) force

subsection \<open>Moving a node to the front\<close>

text \<open>\<open>moved c it k v\<close> is the cache with the node \<open>it\<close> in front, holding \<open>(k, v)\<close>.\<close>

definition moved :: "('k, 'v) LRUCache \<Rightarrow> nat \<Rightarrow> 'k \<Rightarrow> 'v \<Rightarrow> ('k, 'v) LRUCache" where
  "moved c it k v = c\<lparr>m_items := (it, k, v) # filter (\<lambda>(j, _). j \<noteq> it) (m_items c)\<rparr>"

lemma moved_ok:
  assumes "lru_inv c" "map_of (m_items c) it = Some (k, w)"
  shows "lru_inv (moved c it k v)" "entries (moved c it k v) = (k, v) # without k (entries c)"
proof -
  let ?xs = "m_items c"
  let ?ys = "filter (\<lambda>(j, _). j \<noteq> it) ?xs"
  have d: "distinct (map fst ?xs)" "distinct (map (fst \<circ> snd) ?xs)" using assms(1) by (simp_all add: lru_inv_def)
  have m: "(it, k, w) \<in> set ?xs" using assms(2) by (rule map_of_SomeD)
  have f: "?ys = filter (\<lambda>(_, k', _). k' \<noteq> k) ?xs" using filter_node_key [OF d m] .
  show "entries (moved c it k v) = (k, v) # without k (entries c)"
    unfolding entries_def moved_def using f without_entries [of k ?xs] by simp
  have dk: "distinct (map (fst \<circ> snd) ?ys)" "distinct (map fst ?ys)"
    using d by (simp_all add: distinct_map_filter)
  have nk: "k \<notin> (fst \<circ> snd) ` set ?ys" unfolding f by auto
  have ni: "it \<notin> fst ` set ?ys" by auto
  have split: "set ?xs = insert (it, k, w) (set ?ys)"
  proof -
    have inj: "inj_on fst (set ?xs)" using d(1) by (simp add: distinct_map)
    have "n \<in> insert (it, k, w) (set ?ys)" if "n \<in> set ?xs" for n
      using inj_on_eq_iff [OF inj that m] that by (cases "fst n = it") (simp_all add: case_prod_unfold)
    moreover have "insert (it, k, w) (set ?ys) \<subseteq> set ?xs" using m by simp
    ultimately show ?thesis by blast
  qed
  have ent: "entry ` insert (it, k, v) (set ?ys) = entry ` set ?xs"
    unfolding arg_cong [OF split, of "image entry"] by (simp add: entry_def)
  have len: "length ((it, k, v) # ?ys) \<le> length ?xs"
    using m length_filter_less [of "(it, k, w)" ?xs "\<lambda>(j, _). j \<noteq> it"] by simp
  have fresh: "\<forall>n \<in> set ((it, k, v) # ?ys). fst n < next_node c"
    using assms(1) m by (force simp: lru_inv_def)
  show "lru_inv (moved c it k v)"
    using assms(1) dk nk ni ent len fresh
    by (simp add: lru_inv_def moved_def)
qed

lemma touch_moved:
  assumes "lru_inv c" "map_of (m_items c) it = Some (k, v)"
  shows "touch it c = (Ret (), moved c it k v)"
proof -
  from assms(2) have ne: "m_items c \<noteq> []" by auto
  then obtain b w ys where b: "m_items c = (b, w) # ys" by (metis list.exhaust surj_pair)
  show ?thesis
  proof (cases "it = b")
    case True
    then have w: "w = (k, v)" using assms(2) b by simp
    have "it \<notin> fst ` set ys" using assms(1) b True by (simp add: lru_inv_def)
    then have "filter (\<lambda>(j, _). j \<noteq> it) ys = ys" by (intro filter_True) force
    then have "moved c it k v = c" using b True w by (simp add: moved_def)
    then show ?thesis using True b by (simp add: touch_def cpp_simps)
  next
    case False
    then show ?thesis using b assms(2) by (simp add: touch_def deref_def cpp_simps moved_def)
  qed
qed

lemma assign_touch:
  fixes c :: "('k, 'v) LRUCache"
  assumes "lru_inv c" "map_of (m_items c) it = Some (k, w)"
  shows "seq (assign_value it v) (touch it) c = (Ret (), moved c it k v)"
proof -
  let ?f = "\<lambda>(j, k, x). if j = it then (j, k, v) else (j, k, x)"
  let ?c = "c\<lparr>m_items := map ?f (m_items c)\<rparr>"
  have fst_f: "fst (?f n) = fst n" "entry (?f n) = entry n" "fst (snd (?f n)) = fst (snd n)" for n
    by (auto simp: entry_def case_prod_unfold)
  have i: "lru_inv ?c"
    using assms(1) by (simp add: lru_inv_def fst_f comp_def image_image del: fst_conv)
  have mo: "map_of (map ?f xs) it = Some (k, v)" if "map_of xs it = Some (k, w)"
    for xs :: "(nat \<times> 'k \<times> 'v) list"
    using that by (induction xs) (auto split: if_splits)
  have "filter (\<lambda>(j, _). j \<noteq> it) (map ?f xs) = filter (\<lambda>(j, _). j \<noteq> it) xs"
    for xs :: "(nat \<times> 'k \<times> 'v) list"
    by (induction xs) auto
  then have "moved ?c it k v = moved c it k v" by (simp add: moved_def)
  moreover have "assign_value it v c = (Ret (), ?c)"
    using assms(2) by (simp add: assign_value_def deref_def cpp_simps)
  ultimately show ?thesis
    using touch_moved [OF i, of it k v] mo assms(2) by (simp add: cpp_simps)
qed

subsection \<open>Inserting a node\<close>

definition inserted :: "('k, 'v) LRUCache \<Rightarrow> 'k \<Rightarrow> 'v \<Rightarrow> ('k, 'v) LRUCache" where
  "inserted c k v = c\<lparr>m_items := (next_node c, k, v) # m_items c,
                      m_index := (k, next_node c) # m_index c, next_node := Suc (next_node c)\<rparr>"

text \<open>The invariant but for the bound, which holds until \<open>evictIfNeeded\<close> has run.\<close>

definition lru_consistent :: "('k, 'v) LRUCache \<Rightarrow> bool" where
  "lru_consistent c \<longleftrightarrow> lru_inv (c\<lparr>m_capacity := Suc (length (m_items c))\<rparr>)"

lemma lru_inv_consistent:
  "lru_inv c \<longleftrightarrow> lru_consistent c \<and> length (m_items c) \<le> m_capacity c \<and> 0 < m_capacity c"
  by (auto simp: lru_inv_def lru_consistent_def)

lemma inserted_consistent:
  assumes "lru_inv c" "map_of (m_index c) k = None"
  shows "lru_consistent (inserted c k v)" "entries (inserted c k v) = (k, v) # entries c"
proof -
  have "k \<notin> fst ` set (m_index c)" using assms(2) by (simp add: map_of_eq_None_iff)
  moreover from this have "k \<notin> (fst \<circ> snd) ` set (m_items c)"
    using index_keys [OF assms(1)] by (simp add: entries_def image_image)
  moreover have "next_node c \<notin> fst ` set (m_items c)" using assms(1) by (force simp: lru_inv_def)
  ultimately show "lru_consistent (inserted c k v)"
    using assms(1) by (auto simp: lru_consistent_def lru_inv_def inserted_def entry_def less_SucI)
  show "entries (inserted c k v) = (k, v) # entries c" by (simp add: entries_def inserted_def)
qed

lemma evict_last_consistent:
  assumes "lru_consistent c" "m_items c \<noteq> []"
  shows "lru_consistent (evict_last c)" "entries (evict_last c) = butlast (entries c)"
    "length (m_items (evict_last c)) = length (m_items c) - 1"
    "m_capacity (evict_last c) = m_capacity c" "m_evictCallback (evict_last c) = m_evictCallback c"
    "evict_calls (evict_last c) =
       (if m_evictCallback c then last (entries c) # evict_calls c else evict_calls c)"
proof -
  obtain i k v where l: "last (m_items c) = (i, k, v)" by (metis surj_pair)
  define ys where "ys = butlast (m_items c)"
  have xs: "m_items c = ys @ [(i, k, v)]" using assms(2) l by (simp add: ys_def flip: l)
  have "set (filter (\<lambda>(k', _). k' \<noteq> k) (m_index c)) = entry ` set ys"
    using assms(1) by (auto simp: lru_consistent_def lru_inv_def xs entry_def image_def)
  then show "lru_consistent (evict_last c)"
    using assms(1) by (simp add: lru_consistent_def lru_inv_def evict_last_def xs distinct_map_filter)
  show "entries (evict_last c) = butlast (entries c)" "length (m_items (evict_last c)) = length (m_items c) - 1"
    "m_capacity (evict_last c) = m_capacity c" "m_evictCallback (evict_last c) = m_evictCallback c"
    "evict_calls (evict_last c) =
       (if m_evictCallback c then last (entries c) # evict_calls c else evict_calls c)"
    by (simp_all add: evict_last_def entries_def xs)
qed

lemma consistent_index_length: "lru_consistent c \<Longrightarrow> length (m_index c) = length (m_items c)"
  using index_length [of "c\<lparr>m_capacity := Suc (length (m_items c))\<rparr>"] by (simp add: lru_consistent_def)

text \<open>Eviction after an insertion removes the last entry if and only if the cache was full.\<close>

lemma evictIfNeeded_once:
  assumes "lru_consistent c" "length (m_items c) = Suc (m_capacity c)" "0 < m_capacity c"
  shows "evictIfNeeded c = (Ret (), evict_last c) \<and> lru_inv (evict_last c)"
proof -
  have ne: "m_items c \<noteq> []" using assms(2) by auto
  note e = evict_last_consistent [OF assms(1) ne]
  have "evictIfNeeded c = evictIfNeeded (evict_last c)"
    using ne assms(2) consistent_index_length [OF assms(1)] by (subst evictIfNeeded.simps) simp
  moreover have "evictIfNeeded (evict_last c) = (Ret (), evict_last c)"
    using assms(2) e consistent_index_length [OF e(1)] by (subst evictIfNeeded.simps) simp
  moreover have "lru_inv (evict_last c)" using e assms(2,3) by (simp add: lru_inv_consistent)
  ultimately show ?thesis by simp
qed

lemma evictIfNeeded_none:
  assumes "lru_consistent c" "length (m_items c) \<le> m_capacity c"
  shows "evictIfNeeded c = (Ret (), c)"
  using assms consistent_index_length [OF assms(1)] by (subst evictIfNeeded.simps) simp

section \<open>Every operation refines the recency list\<close>

lemma put_refines:
  assumes "lru_inv c"
  shows "\<exists>c'. put k v c = (Ret (), c') \<and> lru_inv c' \<and> m_capacity c' = m_capacity c \<and>
     entries c' = spec_put (m_capacity c) k v (entries c) \<and> m_evictCallback c' = m_evictCallback c \<and>
     evict_calls c' =
       (if m_evictCallback c \<and> map_of (entries c) k = None \<and> length (entries c) = m_capacity c
        then last (entries c) # evict_calls c else evict_calls c)"
proof (cases "map_of (m_index c) k")
  case (Some it)
  from index_Some [OF assms this] obtain w where w: "map_of (m_items c) it = Some (k, w)"
    "map_of (entries c) k = Some w" by blast
  have "put k v c = (Ret (), moved c it k v)"
    using assign_touch [OF assms w(1), of v] Some by (simp add: put_def putImpl_def cpp_simps)
  moreover note m = moved_ok [OF assms w(1), of v]
  moreover have "length (entries (moved c it k v)) \<le> m_capacity c"
    using m(1) by (simp add: lru_inv_def entries_def moved_def)
  ultimately show ?thesis using w(2)
    by (auto simp: spec_put_def moved_def)
next
  case None
  note n = inserted_consistent [OF assms None, of v]
  have absent: "map_of (entries c) k = None" using index_None [OF assms] None by simp
  then have wo: "without k (entries c) = entries c"
    by (intro without_absent) (simp add: map_of_eq_None_iff)
  have le: "length (entries c) \<le> m_capacity c" and pos: "0 < m_capacity c"
    using assms by (simp_all add: lru_inv_def entries_def)
  have p: "put k v c = evictIfNeeded (inserted c k v)"
    using None by (simp add: put_def putImpl_def cpp_simps inserted_def)
  have il: "length (m_items (inserted c k v)) = Suc (length (entries c))"
    "m_capacity (inserted c k v) = m_capacity c" "m_evictCallback (inserted c k v) = m_evictCallback c"
    "evict_calls (inserted c k v) = evict_calls c"
    by (simp_all add: inserted_def entries_def)
  show ?thesis
  proof (cases "length (entries c) = m_capacity c")
    case True
    then have ne: "entries c \<noteq> []" using pos by auto
    have x: "m_items (inserted c k v) \<noteq> []" by (simp add: inserted_def)
    note ev = evictIfNeeded_once [OF n(1)] evict_last_consistent [OF n(1) x]
    have "butlast ((k, v) # entries c) = take (m_capacity c) ((k, v) # entries c)"
      using True by (simp add: butlast_conv_take)
    then show ?thesis using ev p il True pos ne n(2) absent wo
      by (auto simp: spec_put_def)
  next
    case False
    then have "evictIfNeeded (inserted c k v) = (Ret (), inserted c k v)"
      using evictIfNeeded_none [OF n(1)] il le by simp
    moreover have "lru_inv (inserted c k v)"
      using n(1) il le False pos by (simp add: lru_inv_consistent)
    ultimately show ?thesis using p n(2) il le False wo by (simp add: spec_put_def)
  qed
qed

lemma get_refines:
  assumes "lru_inv c"
  shows "\<exists>c'. get k c = (Ret (fst (spec_get k (entries c))), c') \<and> lru_inv c' \<and>
     entries c' = snd (spec_get k (entries c)) \<and> m_capacity c' = m_capacity c \<and> evict_calls c' = evict_calls c"
proof (cases "map_of (m_index c) k")
  case None
  then show ?thesis using assms index_None [OF assms, of k]
    by (simp add: get_def cpp_simps spec_get_def)
next
  case (Some it)
  from index_Some [OF assms this] obtain v where v: "map_of (m_items c) it = Some (k, v)"
    "map_of (entries c) k = Some v" by blast
  have "get k c = (Ret (Some v), moved c it k v)"
    using touch_moved [OF assms v(1)] Some by (simp add: get_def cpp_simps deref_def moved_def)
  then show ?thesis using moved_ok [OF assms v(1), of v] v(2)
    by (simp add: spec_get_def) (simp add: moved_def)
qed

lemma peek_refines:
  assumes "lru_inv c"
  shows "lru_peek k c = (Ret (map_of (entries c) k), c)"
  using index_None [OF assms, of k] index_Some [OF assms, of k]
  by (cases "map_of (m_index c) k") (auto simp: lru_peek_def cpp_simps deref_def)

lemma drop_node_inv:
  assumes "lru_inv c" "map_of (m_items c) it = Some (k, v)"
  defines "c' \<equiv> c\<lparr>m_items := filter (\<lambda>(j, _). j \<noteq> it) (m_items c),
                   m_index := filter (\<lambda>(k', _). k' \<noteq> k) (m_index c)\<rparr>"
  shows "lru_inv c'" "entries c' = without k (entries c)"
proof -
  have d: "distinct (map fst (m_items c))" "distinct (map (fst \<circ> snd) (m_items c))"
    using assms(1) by (simp_all add: lru_inv_def)
  have m: "(it, k, v) \<in> set (m_items c)" using assms(2) by (rule map_of_SomeD)
  note f = filter_node_key [OF d m]
  show "entries c' = without k (entries c)"
    unfolding c'_def entries_def using f without_entries [of k "m_items c"] by simp
  have "set (filter (\<lambda>(k', _). k' \<noteq> k) (m_index c)) = entry ` set (filter (\<lambda>(_, k', _). k' \<noteq> k) (m_items c))"
    using assms(1) by (force simp: lru_inv_def entry_def)
  moreover have "length (filter (\<lambda>(_, k', _). k' \<noteq> k) (m_items c)) \<le> m_capacity c"
    using assms(1) by (meson length_filter_le le_trans lru_inv_def)
  ultimately show "lru_inv c'"
    using assms(1)
    by (auto simp: lru_inv_def c'_def f distinct_map_filter)
qed

lemma remove_refines:
  assumes "lru_inv c"
  shows "\<exists>c'. remove k c = (Ret (map_of (entries c) k \<noteq> None), c') \<and> lru_inv c' \<and>
     entries c' = without k (entries c) \<and> m_capacity c' = m_capacity c"
proof (cases "map_of (m_index c) k")
  case None
  then have a: "map_of (entries c) k = None" using index_None [OF assms] by simp
  then have "without k (entries c) = entries c"
    by (intro without_absent) (simp add: map_of_eq_None_iff)
  with a None assms show ?thesis by (simp add: remove_def cpp_simps)
next
  case (Some it)
  from index_Some [OF assms this] obtain v where v: "map_of (m_items c) it = Some (k, v)"
    "map_of (entries c) k = Some v" by blast
  with drop_node_inv [OF assms v(1)] Some show ?thesis
    by (simp add: remove_def cpp_simps deref_def)
qed


lemma popLru_refines:
  assumes "lru_inv c"
  shows "\<exists>c'. popLru c = (Ret (if entries c = [] then None else Some (last (entries c))), c') \<and>
     lru_inv c' \<and> entries c' = butlast (entries c) \<and> m_capacity c' = m_capacity c"
proof (cases "m_items c = []")
  case True
  then show ?thesis using assms by (simp add: popLru_def cpp_simps entries_def)
next
  case False
  have con: "lru_consistent c" "length (m_items c) \<le> m_capacity c" "0 < m_capacity c"
    using assms lru_inv_consistent [of c] by simp_all
  note e = evict_last_consistent [OF con(1) False]
  let ?d = "(evict_last c)\<lparr>evict_calls := evict_calls c\<rparr>"
  obtain i k v where l: "last (m_items c) = (i, k, v)" by (metis surj_pair)
  have "popLru c = (Ret (Some (k, v)), ?d)"
    using False l by (simp add: popLru_def cpp_simps evict_last_def)
  moreover have "last (entries c) = (k, v)" using False l by (simp add: entries_def last_map)
  moreover have "lru_inv (evict_last c)" using e con by (simp add: lru_inv_consistent)
  then have "lru_inv ?d" by (simp add: lru_inv_def)
  moreover have "entries ?d = butlast (entries c)" using e(2) by (simp add: entries_def)
  ultimately show ?thesis using False e(4) by (simp add: entries_def)
qed

lemma popMru_refines:
  assumes "lru_inv c"
  shows "\<exists>c'. popMru c = (Ret (if entries c = [] then None else Some (hd (entries c))), c') \<and>
     lru_inv c' \<and> entries c' = tl (entries c) \<and> m_capacity c' = m_capacity c"
proof (cases "m_items c")
  case Nil
  then show ?thesis using assms by (simp add: popMru_def cpp_simps entries_def)
next
  case (Cons n xs)
  obtain i k v where n: "n = (i, k, v)" by (metis surj_pair)
  have m: "map_of (m_items c) i = Some (k, v)" using Cons n by simp
  have ni: "i \<notin> fst ` set xs" using assms by (simp add: lru_inv_def Cons n)
  have fl: "filter (\<lambda>(j, _). j \<noteq> i) (m_items c) = xs"
    unfolding Cons n using ni by (simp add: filter_id_conv) force
  have nk: "k \<notin> fst ` set (map snd xs)" using entries_distinct [OF assms] by (simp add: entries_def Cons n image_image)
  note d = drop_node_inv [OF assms m]
  have "without k (entries c) = tl (entries c)"
    using without_absent [OF nk] by (simp add: entries_def Cons n without_def)
  with d show ?thesis unfolding fl
    by (simp add: popMru_def cpp_simps Cons n entries_def) (simp add: lru_inv_def)
qed

lemma lru_mru_spec:
  "lru c = (if entries c = [] then None else Some (last (entries c)))"
  "mru c = (if entries c = [] then None else Some (hd (entries c)))"
  by (simp_all add: lru_def mru_def entries_def last_map split: list.split)

lemma contains_spec: "lru_inv c \<Longrightarrow> lru_contains k c \<longleftrightarrow> map_of (entries c) k \<noteq> None"
  by (simp add: lru_contains_def index_None)

lemma size_spec: "lru_inv c \<Longrightarrow> lru_size c = length (entries c)"
  by (simp add: lru_size_def index_length entries_def)

section \<open>Any sequence of operations\<close>

datatype ('k, 'v) lru_op =
  Put 'k 'v | Get 'k | GetOrError 'k | Peek 'k | Remove 'k | PopLru | PopMru | Clear | SetCallback bool

text \<open>Each operation with its result forgotten, but not how it ended.\<close>

fun lru_step :: "('k, 'v) lru_op \<Rightarrow> (('k, 'v) LRUCache, unit) cpp" where
  "lru_step (Put k v) = put k v"
| "lru_step (Get k) = bind (get k) (\<lambda>_. ret ())"
| "lru_step (GetOrError k) = bind (getOrError k) (\<lambda>_. ret ())"
| "lru_step (Peek k) = bind (lru_peek k) (\<lambda>_. ret ())"
| "lru_step (Remove k) = bind (remove k) (\<lambda>_. ret ())"
| "lru_step PopLru = bind popLru (\<lambda>_. ret ())"
| "lru_step PopMru = bind popMru (\<lambda>_. ret ())"
| "lru_step Clear = lru_clear"
| "lru_step (SetCallback b) = setEvictCallback b"

definition lru_exec :: "('k, 'v) lru_op \<Rightarrow> ('k, 'v) LRUCache \<Rightarrow> ('k, 'v) LRUCache" where
  "lru_exec op c = snd (lru_step op c)"

fun spec_exec :: "nat \<Rightarrow> ('k, 'v) lru_op \<Rightarrow> ('k \<times> 'v) list \<Rightarrow> ('k \<times> 'v) list" where
  "spec_exec n (Put k v) xs = spec_put n k v xs"
| "spec_exec n (Get k) xs = snd (spec_get k xs)"
| "spec_exec n (GetOrError k) xs = snd (spec_get k xs)"
| "spec_exec n (Peek k) xs = xs"
| "spec_exec n (Remove k) xs = without k xs"
| "spec_exec n PopLru xs = butlast xs"
| "spec_exec n PopMru xs = tl xs"
| "spec_exec n Clear xs = []"
| "spec_exec n (SetCallback b) xs = xs"

lemma getOrError_refines:
  assumes "lru_inv c"
  shows "\<exists>c'. getOrError k c =
       (Ret (case map_of (entries c) k of None \<Rightarrow> makeErrorResult EC_NotFound ''cache key not found'' | Some v \<Rightarrow> Value v), c') \<and>
     lru_inv c' \<and> entries c' = snd (spec_get k (entries c)) \<and> m_capacity c' = m_capacity c"
  using get_refines [OF assms, of k]
  by (auto simp: getOrError_def cpp_simps spec_get_def split: option.splits)

lemma step_refines:
  assumes "lru_inv c"
  shows "\<exists>c'. lru_step op c = (Ret (), c') \<and> lru_inv c' \<and> m_capacity c' = m_capacity c \<and>
     entries c' = spec_exec (m_capacity c) op (entries c)"
proof (cases op)
  case (Put k v)
  then show ?thesis using put_refines [OF assms, of k v] by auto
next
  case (Get k)
  then show ?thesis using get_refines [OF assms, of k] by (auto simp: cpp_simps)
next
  case (GetOrError k)
  then show ?thesis using getOrError_refines [OF assms, of k] by (auto simp: cpp_simps)
next
  case (Peek k)
  then show ?thesis using assms by (simp add: cpp_simps peek_refines)
next
  case (Remove k)
  then show ?thesis using remove_refines [OF assms, of k] by (auto simp: cpp_simps)
next
  case PopLru
  then show ?thesis using popLru_refines [OF assms] by (auto simp: cpp_simps)
next
  case PopMru
  then show ?thesis using popMru_refines [OF assms] by (auto simp: cpp_simps)
next
  case Clear
  then show ?thesis using assms by (simp add: cpp_simps lru_clear_def lru_inv_def entries_def)
next
  case (SetCallback b)
  then show ?thesis using assms by (simp add: cpp_simps setEvictCallback_def lru_inv_def entries_def)
qed

interpretation lru_ops: op_machine lru_exec lru_inv
  by unfold_locales (metis lru_exec_def snd_conv step_refines)

interpretation lru_map: bounded_map "\<lambda>c. map_of (entries c)" lru_inv m_capacity
  "\<lambda>k v c. lru_exec (Put k v) c" "\<lambda>k c. lru_exec (Remove k) c"
proof (unfold_locales, goal_cases)
  case (3 c k v)
  then have "0 < m_capacity c" by (simp add: lru_inv_def)
  then have "spec_put (m_capacity c) k v (entries c) = (k, v) # take (m_capacity c - 1) (without k (entries c))"
    by (cases "m_capacity c") (simp_all add: spec_put_def)
  with step_refines [OF 3, of "Put k v"] show ?case by (auto simp: lru_exec_def)
next
  case (4 c k' k v)
  have d: "distinct (map fst (without k (entries c)))"
    using entries_distinct [OF 4(1)] by (simp add: without_def distinct_map_filter)
  have "map_of (take n (without k (entries c))) k' \<in> {None, map_of (entries c) k'}" for n
  proof (cases "map_of (take n (without k (entries c))) k'")
    case (Some w)
    then have "(k', w) \<in> set (entries c)"
      using map_of_SomeD in_set_takeD by (fastforce simp: without_def)
    with Some entries_distinct [OF 4(1)] show ?thesis by simp
  qed simp
  then have "map_of (spec_put (m_capacity c) k v (entries c)) k' \<in> {None, map_of (entries c) k'}"
    using 4(2) by (cases "m_capacity c") (simp_all add: spec_put_def)
  with step_refines [OF 4(1), of "Put k v"] show ?case by (auto simp: lru_exec_def)
next
  case (5 c k)
  have "map_of (without k xs) = (map_of xs)(k := None)" for xs :: "('a \<times> 'b) list"
    by (induction xs) (auto simp: without_def)
  with step_refines [OF 5, of "Remove k"] show ?case by (auto simp: lru_exec_def)
next
  case (6 c)
  have "card (dom (map_of (entries c))) \<le> length (entries c)"
    using card_length [of "map fst (entries c)"] by (simp add: dom_map_of_conv_image_fst)
  with 6 show ?case by (simp add: lru_inv_def entries_def)
next
  case (7 c k v)
  from step_refines [OF this, of "Put k v"] show ?case by (auto simp: lru_exec_def)
qed (metis lru_exec_def snd_conv step_refines)+

lemma history_refines:
  assumes "lru_inv c"
  shows "entries (fold lru_exec ops c) = fold (spec_exec (m_capacity c)) ops (entries c) \<and>
    m_capacity (fold lru_exec ops c) = m_capacity c"
  using assms
proof (induction ops arbitrary: c)
  case (Cons op ops)
  from step_refines [OF Cons.prems, of op] obtain c' where
    "lru_exec op c = c'" "lru_inv c'" "m_capacity c' = m_capacity c"
    "entries c' = spec_exec (m_capacity c) op (entries c)" by (auto simp: lru_exec_def)
  with Cons.IH [of c'] show ?case by simp
qed simp

lemma mk_LRUCache_inv:
  "mk_LRUCache n = Ret c \<Longrightarrow> lru_inv c \<and> m_capacity c = n \<and> entries c = []"
  by (auto simp: mk_LRUCache_def lru_inv_def entries_def split: if_splits)

lemma take_without:
  assumes "distinct (map fst zs)"
  shows "take n ((k, v) # without k (take n zs)) = take n ((k, v) # without k zs)"
proof (cases n)
  case (Suc m)
  have "take m (without k (take (Suc m) zs)) = take m (without k zs)"
    using assms
  proof (induction zs arbitrary: m)
    case (Cons z zs)
    have wo: "fst z = k \<Longrightarrow> without k zs = zs \<and> without k (take m zs) = take m zs"
      using Cons.prems by (auto intro!: without_absent dest: in_set_takeD)
    show ?case
    proof (cases "fst z = k")
      case True
      with wo show ?thesis by (simp add: without_def case_prod_unfold)
    next
      case False
      with Cons show ?thesis by (cases m) (simp_all add: without_def case_prod_unfold)
    qed
  qed (simp add: without_def)
  then show ?thesis using Suc by simp
qed simp

text \<open>Putting distinct keys leaves them in front, latest first.\<close>

lemma puts_entries:
  assumes "lru_inv c" "distinct (map fst kvs)"
  shows "entries (fold (\<lambda>(k, v). lru_exec (Put k v)) kvs c) =
    take (m_capacity c) (rev kvs @ filter (\<lambda>(k, _). k \<notin> fst ` set kvs) (entries c))"
  using assms
proof (induction kvs rule: rev_induct)
  case Nil
  then show ?case by (simp add: lru_inv_def entries_def)
next
  case (snoc kv kvs)
  obtain k v where kv: "kv = (k, v)" by (cases kv)
  let ?d = "fold (\<lambda>(k, v). lru_exec (Put k v)) kvs c"
  let ?ys = "rev kvs @ filter (\<lambda>(k, _). k \<notin> fst ` set kvs) (entries c)"
  have d: "lru_inv ?d" using lru_map.insert_many [OF snoc.prems(1)] .
  have cap: "m_capacity ?d = m_capacity c"
    using history_refines [OF snoc.prems(1), of "map (\<lambda>(k, v). Put k v) kvs"]
    by (simp add: fold_map comp_def case_prod_unfold)
  have ih: "entries ?d = take (m_capacity c) ?ys" using snoc by simp
  have "distinct (map fst ?ys)"
    using snoc.prems entries_distinct [OF snoc.prems(1)] by (force simp: distinct_map_filter rev_map [symmetric])
  note tf = take_without [OF this]
  have "k \<notin> fst ` set kvs" using snoc.prems(2) by (simp add: kv)
  then have "without k (rev kvs) = rev kvs" by (intro without_absent) simp
  then have "without k ?ys = rev kvs @ filter (\<lambda>(j, _). j \<notin> fst ` set (kvs @ [kv])) (entries c)"
    by (auto simp: without_def kv intro!: filter_cong)
  moreover have "entries (lru_exec (Put k v) ?d) = spec_put (m_capacity c) k v (entries ?d)"
    using step_refines [OF d, of "Put k v"] cap by (auto simp: lru_exec_def)
  ultimately show ?case using ih tf [of "m_capacity c" k v] by (simp add: kv spec_put_def)
qed


section \<open>Properties\<close>

text \<open>C9: After any sequence of operations on a new cache of capacity \<open>n\<close>, its list and index agree,
  its entries are those of the recency list on which the same operations were done, it holds at
  most \<open>n\<close> of them, and the next operation returns without undefined behaviour.\<close>

theorem lru_history:
  assumes "mk_LRUCache n = Ret c0" and c_def: "c = fold lru_exec ops c0"
  shows "lru_inv c \<and> entries c = fold (spec_exec n) ops [] \<and> lru_size c \<le> n \<and>
    fst (lru_step op c) = Ret ()"
proof -
  have c0: "lru_inv c0" "m_capacity c0 = n" "entries c0 = []" using mk_LRUCache_inv [OF assms(1)] by simp_all
  have i: "lru_inv c" unfolding c_def using lru_ops.run_inv [OF c0(1)] .
  have h: "entries c = fold (spec_exec n) ops []" "m_capacity c = n"
    using history_refines [OF c0(1), of ops] c0 by (simp_all add: c_def)
  have "lru_size c \<le> n" using i h(2) by (simp add: size_spec) (simp add: lru_inv_def entries_def)
  with i h(1) step_refines [OF i, of op] show ?thesis by auto
qed

theorem lru_history_witness:
  "\<exists>c0. mk_LRUCache 2 = Ret c0 \<and>
     entries (fold lru_exec [Put (1::nat) CHR ''a'', Put 2 CHR ''b'', Get 1, Put 3 CHR ''c''] c0) =
       [(3, CHR ''c''), (1, CHR ''a'')]"
  using lru_history [of 2 _ _ "[Put (1::nat) CHR ''a'', Put 2 CHR ''b'', Get 1, Put 3 CHR ''c'']"]
  by (simp add: mk_LRUCache_def spec_put_def spec_get_def without_def)

text \<open>put of a new key into a full cache removes the least recently used entry, and calls the
  eviction callback, when one is set, once and for that entry; put of a known key or into a cache
  with room removes nothing and calls nothing. The new entry becomes the most recently used.\<close>

theorem lru_put_evicts:
  assumes "lru_inv c"
  shows "\<exists>c'. put k v c = (Ret (), c') \<and> lru_inv c' \<and> mru c' = Some (k, v) \<and>
    (if map_of (entries c) k = None \<and> lru_size c = m_capacity c
     then entries c' = (k, v) # butlast (entries c) \<and>
          evict_calls c' = (if m_evictCallback c then the (lru c) # evict_calls c else evict_calls c)
     else entries c' = (k, v) # without k (entries c) \<and> evict_calls c' = evict_calls c)"
proof -
  from put_refines [OF assms, of k v] obtain c' where
    c': "put k v c = (Ret (), c')" "lru_inv c'" "entries c' = spec_put (m_capacity c) k v (entries c)"
    "evict_calls c' =
       (if m_evictCallback c \<and> map_of (entries c) k = None \<and> length (entries c) = m_capacity c
        then last (entries c) # evict_calls c else evict_calls c)" by blast
  have le: "length (entries c) \<le> m_capacity c" "0 < m_capacity c" using assms by (simp_all add: lru_inv_def entries_def)
  have sp: "spec_put (m_capacity c) k v (entries c) =
    (if map_of (entries c) k = None \<and> length (entries c) = m_capacity c
     then (k, v) # butlast (entries c) else (k, v) # without k (entries c))"
  proof (cases "map_of (entries c) k")
    case None
    then have "without k (entries c) = entries c" by (intro without_absent) (simp add: map_of_eq_None_iff)
    then show ?thesis using le None by (cases "m_capacity c") (auto simp: spec_put_def butlast_conv_take)
  next
    case (Some w)
    then have "length (without k (entries c)) < length (entries c)"
      unfolding without_def by (intro length_filter_less [OF map_of_SomeD]) auto
    then show ?thesis using le Some by (auto simp: spec_put_def)
  qed
  have "mru c' = Some (k, v)" using c'(3) sp by (auto simp: lru_mru_spec)
  with c' sp le show ?thesis by (auto simp: size_spec [OF assms] lru_mru_spec)
qed

theorem lru_put_evicts_witness:
  "\<exists>c'. put (2::nat) CHR ''b'' \<lparr>m_capacity = 1, m_items = [(0, 1, CHR ''a'')], m_index = [(1, 0)], m_evictCallback = True,
       next_node = 1, evict_calls = []\<rparr> = (Ret (), c') \<and> entries c' = [(2, CHR ''b'')] \<and>
     evict_calls c' = [(1, CHR ''a'')]"
  using lru_put_evicts [of "\<lparr>m_capacity = 1, m_items = [(0, 1, CHR ''a'')], m_index = [(1, 0)], m_evictCallback = True,
       next_node = 1, evict_calls = []\<rparr>" "2::nat" "CHR ''b''"]
  by (auto simp: lru_inv_def entry_def entries_def lru_size_def lru_def)

text \<open>However many puts went before, a get of one of the last keys put, as many distinct ones
  as the capacity, finds the value put for it; and whatever a get finds is the value of the last
  put of its key.\<close>

theorem lru_keeps_recent:
  assumes "lru_inv c"
  shows "(distinct (map fst kvs) \<and> length kvs \<le> m_capacity c \<and> (k, v) \<in> set kvs \<longrightarrow>
      fst (get k (fold (\<lambda>(k, v). lru_exec (Put k v)) kvs c)) = Ret (Some v)) \<and>
    (fst (get k (fold (\<lambda>(k, v). lru_exec (Put k v)) kvs c)) = Ret (Some w) \<longrightarrow>
      map_of (rev kvs) k = Some w \<or> map_of (rev kvs) k = None \<and> map_of (entries c) k = Some w)"
proof (intro conjI impI, elim conjE)
  let ?d = "fold (\<lambda>(k, v). lru_exec (Put k v)) kvs c"
  have "lru_inv ?d" using lru_map.insert_many [OF assms] .
  then have g: "fst (get k ?d) = Ret (map_of (entries ?d) k)"
    using get_refines [of ?d k] by (auto simp: spec_get_def split: option.splits)
  show "fst (get k ?d) = Ret (Some v)"
    if "distinct (map fst kvs)" "length kvs \<le> m_capacity c" "(k, v) \<in> set kvs"
  proof -
    have "map_of (rev kvs) k = Some v" using that by (simp add: rev_map [symmetric])
    then have "map_of (entries ?d) k = Some v"
      using that(2) by (simp add: puts_entries [OF assms that(1)] map_add_def)
    with g show ?thesis by simp
  qed
  show "map_of (rev kvs) k = Some w \<or> map_of (rev kvs) k = None \<and> map_of (entries c) k = Some w"
    if "fst (get k ?d) = Ret (Some w)"
    using that g lru_map.insert_many_lookup [OF assms, of kvs k w] by auto
qed

theorem lru_keeps_recent_witness:
  "fst (get 2 (fold (\<lambda>(k, v). lru_exec (Put k v)) [(1::nat, CHR ''a''), (2, CHR ''b'')]
     \<lparr>m_capacity = 2, m_items = [(0, 7, CHR ''z'')], m_index = [(7, 0)], m_evictCallback = False,
       next_node = 1, evict_calls = []\<rparr>)) = Ret (Some CHR ''b'')"
  using lru_keeps_recent [of "\<lparr>m_capacity = 2, m_items = [(0, 7, CHR ''z'')], m_index = [(7, 0)], m_evictCallback = False,
       next_node = 1, evict_calls = []\<rparr>" "[(1::nat, CHR ''a''), (2, CHR ''b'')]" 2 "CHR ''b''"]
  by (simp add: lru_inv_def entry_def)

end
