(* ===== verification/Fraction.thy ===== *)
theory Fraction
  imports Std_Strings Complex_Main "HOL-Library.Signed_Division"
begin

text \<open>
  \<^verbatim>\<open>dbase::math::Fraction\<close> (\<^verbatim>\<open>code/src/math/fraction.cpp\<close>). An \<^verbatim>\<open>int64_t\<close> is an integer in its
  range: a signed operation whose result leaves the range is undefined (\<open>i64\<close>), and division
  truncates towards zero (\<open>sdiv\<close>). An \<^verbatim>\<open>uint64_t\<close> is a natural number; none of the unsigned
  operations of the file can wrap, since they only take quotients, remainders and absolute values.
\<close>

section \<open>Checked integer arithmetic\<close>

definition i64_min :: int where
  "i64_min = - (2 ^ 63)"

definition i64_max :: int where
  "i64_max = 2 ^ 63 - 1"

definition in_i64 :: "int \<Rightarrow> bool" where
  "in_i64 x \<longleftrightarrow> i64_min \<le> x \<and> x \<le> i64_max"

definition i64 :: "int \<Rightarrow> int outcome" where
  "i64 x = (if in_i64 x then Ret x else Undef)"

definition i64_div :: "int \<Rightarrow> int \<Rightarrow> int outcome" where
  "i64_div a b = (if b = 0 then Undef else i64 (a sdiv b))"

definition absToUint64 :: "int \<Rightarrow> nat" where
  "absToUint64 x = (if x \<ge> 0 then nat x else nat (- (x + 1)) + 1)"

definition safeNegate :: "int \<Rightarrow> int outcome" where
  "safeNegate x = (if x = i64_min then Throw (Overflow_error ''integer overflow on negate'') else i64 (- x))"

definition safeAdd :: "int \<Rightarrow> int \<Rightarrow> int outcome" where
  "safeAdd a b =
     (if b > 0 \<and> a > i64_max - b then Throw (Overflow_error ''integer overflow on add'')
      else if b < 0 \<and> a < i64_min - b then Throw (Overflow_error ''integer overflow on add'')
      else i64 (a + b))"

definition safeSub :: "int \<Rightarrow> int \<Rightarrow> int outcome" where
  "safeSub a b =
     (if b = i64_min then Throw (Overflow_error ''integer overflow on sub'')
      else obind (i64 (- b)) (safeAdd a))"

definition safeMul :: "int \<Rightarrow> int \<Rightarrow> int outcome" where
  "safeMul a b =
     (if a = 0 \<or> b = 0 then Ret 0
      else if a = 1 then Ret b
      else if b = 1 then Ret a
      else if a = -1 then safeNegate b
      else if b = -1 then safeNegate a
      else if a > 0
        then (if b > 0
              then obind (i64_div i64_max b) (\<lambda>q.
                     if a > q then Throw (Overflow_error ''integer overflow on mul'') else i64 (a * b))
              else obind (i64_div i64_min a) (\<lambda>q.
                     if b < q then Throw (Overflow_error ''integer overflow on mul'') else i64 (a * b)))
        else (if b > 0
              then obind (i64_div i64_min b) (\<lambda>q.
                     if a < q then Throw (Overflow_error ''integer overflow on mul'') else i64 (a * b))
              else obind (i64_div i64_max b) (\<lambda>q.
                     if a < q then Throw (Overflow_error ''integer overflow on mul'') else i64 (a * b))))"

definition safeCastU64ToI64 :: "nat \<Rightarrow> int outcome" where
  "safeCastU64ToI64 x =
     (if x = 0 then Ret 0
      else if int x > i64_max then Throw (Overflow_error ''integer overflow on cast'')
      else Ret (int x))"

fun gcdU64 :: "nat \<Rightarrow> nat \<Rightarrow> nat" where
  "gcdU64 a b = (if b \<noteq> 0 then gcdU64 b (a mod b) else a)"

declare gcdU64.simps [simp del]

datatype ordering = Less | Equal | Greater

function compareUnsignedFractions :: "bool \<Rightarrow> nat \<Rightarrow> nat \<Rightarrow> nat \<Rightarrow> nat \<Rightarrow> ordering outcome" where
  "compareUnsignedFractions reversed a b c d =
     (if b = 0 \<or> d = 0 then Undef
      else let q1 = a div b; q2 = c div d
           in if q1 \<noteq> q2
              then (let less = q1 < q2
                    in if \<not> reversed then Ret (if less then Less else Greater)
                       else Ret (if less then Greater else Less))
              else let r1 = a mod b; r2 = c mod d
                   in if r1 = 0 \<or> r2 = 0
                      then (if r1 = 0 \<and> r2 = 0 then Ret Equal
                            else let less = (r1 = 0)
                                 in if \<not> reversed then Ret (if less then Less else Greater)
                                    else Ret (if less then Greater else Less))
                      else compareUnsignedFractions (\<not> reversed) b r1 d r2)"
  by pat_completeness auto
termination
  by (relation "measure (\<lambda>(_, a, b, c, d). b)") auto

declare compareUnsignedFractions.simps [simp del]

section \<open>The class\<close>

record Fraction =
  f_num :: int
  f_den :: int

definition Fraction_default :: Fraction where
  "Fraction_default = \<lparr>f_num = 0, f_den = 1\<rparr>"

definition Fraction_of :: "int \<Rightarrow> Fraction" where
  "Fraction_of numerator = \<lparr>f_num = numerator, f_den = 1\<rparr>"

definition normalize :: "(Fraction, unit) cpp" where
  "normalize = bind (gets id) (\<lambda>f.
     if f_den f = 0 then throw (Invalid_argument ''denominator cannot be zero'')
     else if f_num f = 0 then modify (\<lambda>f. f\<lparr>f_den := 1\<rparr>)
     else bind (lift (safeCastU64ToI64 (gcdU64 (absToUint64 (f_num f)) (absToUint64 (f_den f))))) (\<lambda>g.
       bind (lift (i64_div (f_num f) g)) (\<lambda>n. seq (modify (\<lambda>f. f\<lparr>f_num := n\<rparr>)) (
       bind (lift (i64_div (f_den f) g)) (\<lambda>d. seq (modify (\<lambda>f. f\<lparr>f_den := d\<rparr>)) (
       if d < 0
       then (if d = i64_min then throw (Overflow_error ''fraction normalization overflow'')
             else bind (lift (safeNegate n)) (\<lambda>n'. seq (modify (\<lambda>f. f\<lparr>f_num := n'\<rparr>)) (
                  bind (lift (i64 (- d))) (\<lambda>d'. modify (\<lambda>f. f\<lparr>f_den := d'\<rparr>)))))
       else ret ()))))))"

definition mk_Fraction :: "int \<Rightarrow> int \<Rightarrow> Fraction outcome" where
  "mk_Fraction numerator denominator =
     (case normalize \<lparr>f_num = numerator, f_den = denominator\<rparr> of
        (Ret _, f) \<Rightarrow> Ret f
      | (Throw e, _) \<Rightarrow> Throw e
      | (Undef, _) \<Rightarrow> Undef)"

definition isZero :: "Fraction \<Rightarrow> bool" where
  "isZero f \<longleftrightarrow> f_num f = 0"

definition negated :: "Fraction \<Rightarrow> Fraction outcome" where
  "negated f = obind (safeNegate (f_num f)) (\<lambda>n. mk_Fraction n (f_den f))"

text \<open>\<open>add_assign\<close> and \<open>sub_assign\<close> are \<^verbatim>\<open>operator+=\<close> and \<^verbatim>\<open>operator-=\<close>, which share all
  but the checked operation on the numerators.\<close>

definition linear_assign :: "(int \<Rightarrow> int \<Rightarrow> int outcome) \<Rightarrow> Fraction \<Rightarrow> (Fraction, unit) cpp" where
  "linear_assign op other = bind (gets id) (\<lambda>f.
     bind (lift (safeCastU64ToI64 (gcdU64 (absToUint64 (f_den f)) (absToUint64 (f_den other))))) (\<lambda>g.
     bind (lift (i64_div (f_den other) g)) (\<lambda>left_mul.
     bind (lift (i64_div (f_den f) g)) (\<lambda>right_mul.
     bind (lift (safeMul (f_num f) left_mul)) (\<lambda>l.
     bind (lift (safeMul (f_num other) right_mul)) (\<lambda>r.
     bind (lift (op l r)) (\<lambda>new_num.
     bind (lift (safeMul (f_den f) left_mul)) (\<lambda>new_den.
     seq (modify (\<lambda>f. f\<lparr>f_num := new_num, f_den := new_den\<rparr>))
         normalize))))))))"

definition add_assign :: "Fraction \<Rightarrow> (Fraction, unit) cpp" where
  "add_assign other = linear_assign safeAdd other"

definition sub_assign :: "Fraction \<Rightarrow> (Fraction, unit) cpp" where
  "sub_assign other = linear_assign safeSub other"

text \<open>\<^verbatim>\<open>num_ = safeMul(p, q); den_ = safeMul(r, s); normalize();\<close>: the numerator is already assigned
  when the second product throws.\<close>

definition assign_products :: "int \<Rightarrow> int \<Rightarrow> int \<Rightarrow> int \<Rightarrow> (Fraction, unit) cpp" where
  "assign_products p q r s =
     bind (lift (safeMul p q)) (\<lambda>n. seq (modify (\<lambda>f. f\<lparr>f_num := n\<rparr>)) (
     bind (lift (safeMul r s)) (\<lambda>d. seq (modify (\<lambda>f. f\<lparr>f_den := d\<rparr>))
     normalize)))"

definition mul_assign :: "Fraction \<Rightarrow> (Fraction, unit) cpp" where
  "mul_assign other = bind (gets id) (\<lambda>f.
     if f_num f = 0 \<or> f_num other = 0 then modify (\<lambda>f. f\<lparr>f_num := 0, f_den := 1\<rparr>)
     else let a = f_num f; b = f_den f; c = f_num other; d = f_den other
       in bind (lift (safeCastU64ToI64 (gcdU64 (absToUint64 a) (absToUint64 d)))) (\<lambda>g1.
          bind (lift (i64_div a g1)) (\<lambda>a. bind (lift (i64_div d g1)) (\<lambda>d.
          bind (lift (safeCastU64ToI64 (gcdU64 (absToUint64 c) (absToUint64 b)))) (\<lambda>g2.
          bind (lift (i64_div c g2)) (\<lambda>c. bind (lift (i64_div b g2)) (\<lambda>b.
          assign_products a c b d)))))))"

definition div_assign :: "Fraction \<Rightarrow> (Fraction, unit) cpp" where
  "div_assign other = bind (gets id) (\<lambda>f.
     if f_num other = 0 then throw (Domain_error ''division by zero fraction'')
     else if f_num f = 0 then modify (\<lambda>f. f\<lparr>f_den := 1\<rparr>)
     else let a = f_num f; b = f_den f; c = f_num other; d = f_den other
       in bind (lift (safeCastU64ToI64 (gcdU64 (absToUint64 a) (absToUint64 c)))) (\<lambda>g1.
          bind (lift (i64_div a g1)) (\<lambda>a. bind (lift (i64_div c g1)) (\<lambda>c.
          bind (lift (safeCastU64ToI64 (gcdU64 (absToUint64 d) (absToUint64 b)))) (\<lambda>g2.
          bind (lift (i64_div d g2)) (\<lambda>d. bind (lift (i64_div b g2)) (\<lambda>b.
          assign_products a d b c)))))))"

text \<open>\<^verbatim>\<open>operator+\<close> and the others work on a copy of the left operand.\<close>

definition on_copy :: "(Fraction \<Rightarrow> (Fraction, unit) cpp) \<Rightarrow> Fraction \<Rightarrow> Fraction \<Rightarrow> Fraction outcome" where
  "on_copy op lhs rhs =
     (case op rhs lhs of (Ret _, f) \<Rightarrow> Ret f | (Throw e, _) \<Rightarrow> Throw e | (Undef, _) \<Rightarrow> Undef)"

definition frac_add :: "Fraction \<Rightarrow> Fraction \<Rightarrow> Fraction outcome" where
  "frac_add lhs rhs = on_copy add_assign lhs rhs"

definition frac_sub :: "Fraction \<Rightarrow> Fraction \<Rightarrow> Fraction outcome" where
  "frac_sub lhs rhs = on_copy sub_assign lhs rhs"

definition frac_mul :: "Fraction \<Rightarrow> Fraction \<Rightarrow> Fraction outcome" where
  "frac_mul lhs rhs = on_copy mul_assign lhs rhs"

definition frac_div :: "Fraction \<Rightarrow> Fraction \<Rightarrow> Fraction outcome" where
  "frac_div lhs rhs = on_copy div_assign lhs rhs"

definition frac_eq :: "Fraction \<Rightarrow> Fraction \<Rightarrow> bool" where
  "frac_eq lhs rhs \<longleftrightarrow> f_num lhs = f_num rhs \<and> f_den lhs = f_den rhs"

definition frac_compare :: "Fraction \<Rightarrow> Fraction \<Rightarrow> ordering outcome" where
  "frac_compare lhs rhs =
     (if f_num lhs = f_num rhs \<and> f_den lhs = f_den rhs then Ret Equal
      else if f_num lhs < 0 \<and> f_num rhs \<ge> 0 then Ret Less
      else if f_num lhs \<ge> 0 \<and> f_num rhs < 0 then Ret Greater
      else obind (compareUnsignedFractions False (absToUint64 (f_num lhs)) (nat (f_den lhs mod 2 ^ 64))
                    (absToUint64 (f_num rhs)) (nat (f_den rhs mod 2 ^ 64)))
        (\<lambda>ord. if f_num lhs < 0 then Ret (case ord of Less \<Rightarrow> Greater | Greater \<Rightarrow> Less | Equal \<Rightarrow> Equal)
               else Ret ord))"

definition frac_toString :: "Fraction \<Rightarrow> string" where
  "frac_toString f =
     (if f_den f = 1 then to_string (f_num f) else to_string (f_num f) @ ''/'' @ to_string (f_den f))"

section \<open>The helpers are exact\<close>

lemma int_div_less_iff:
  fixes m n q :: int
  assumes "0 < q"
  shows "m div q < n \<longleftrightarrow> m < n * q"
proof -
  have m: "m = m div q * q + m mod q" "0 \<le> m mod q" "m mod q < q" using assms by simp_all
  have "n * q \<le> m div q * q \<longleftrightarrow> n \<le> m div q" "(m div q + 1) * q \<le> n * q \<longleftrightarrow> m div q + 1 \<le> n"
    using assms by simp_all
  with m show ?thesis by (simp only: distrib_right) linarith
qed

lemmas i64_defs = i64_min_def i64_max_def in_i64_def

lemma absToUint64_eq: "absToUint64 x = nat \<bar>x\<bar>"
  by (cases "0 \<le> x") (simp_all add: absToUint64_def Suc_nat_eq_nat_zadd1)

lemma absToUint64_bound: "in_i64 x \<Longrightarrow> absToUint64 x \<le> 2 ^ 63"
  by (simp add: absToUint64_eq i64_defs nat_le_iff abs_le_iff)

lemma safeNegate_eq:
  "in_i64 x \<Longrightarrow> safeNegate x =
     (if in_i64 (- x) then Ret (- x) else Throw (Overflow_error ''integer overflow on negate''))"
  by (auto simp: safeNegate_def i64_def i64_defs)

lemma safeAdd_eq:
  assumes "in_i64 a" "in_i64 b"
  shows "safeAdd a b =
     (if in_i64 (a + b) then Ret (a + b) else Throw (Overflow_error ''integer overflow on add''))"
  using assms by (auto simp: safeAdd_def i64_def i64_defs)

lemma safeSub_eq:
  assumes "in_i64 a" "in_i64 b"
  shows "safeSub a b =
     (if b = i64_min then Throw (Overflow_error ''integer overflow on sub'')
      else if in_i64 (a - b) then Ret (a - b) else Throw (Overflow_error ''integer overflow on add''))"
proof (cases "b = i64_min")
  case True
  then show ?thesis by (simp add: safeSub_def)
next
  case False
  then have "in_i64 (- b)" using assms by (simp add: i64_defs)
  then show ?thesis using False safeAdd_eq [OF assms(1), of "- b"] by (simp add: safeSub_def i64_def)
qed

text \<open>The four guards of \<open>safeMul\<close> compare with the bound, by truncating division.\<close>

lemma mul_guards:
  fixes a b :: int
  shows "0 < a \<Longrightarrow> 0 < b \<Longrightarrow> a > i64_max sdiv b \<longleftrightarrow> a * b > i64_max"
    and "0 < a \<Longrightarrow> b < 0 \<Longrightarrow> b < i64_min sdiv a \<longleftrightarrow> a * b < i64_min"
    and "a < 0 \<Longrightarrow> 0 < b \<Longrightarrow> a < i64_min sdiv b \<longleftrightarrow> a * b < i64_min"
    and "a < 0 \<Longrightarrow> b < 0 \<Longrightarrow> a < i64_max sdiv b \<longleftrightarrow> a * b > i64_max"
proof -
  have neg: "b < i64_min sdiv a \<longleftrightarrow> a * b < i64_min" if "0 < a" "b < 0" for a b :: int
    using that int_div_less_iff [of a "2 ^ 63" "- b"]
    by (auto simp: signed_divide_int_def i64_min_def sgn_if mult.commute)
  show "0 < a \<Longrightarrow> 0 < b \<Longrightarrow> a > i64_max sdiv b \<longleftrightarrow> a * b > i64_max"
    using int_div_less_iff [of b i64_max a] by (simp add: signed_divide_int_def i64_max_def)
  show "0 < a \<Longrightarrow> b < 0 \<Longrightarrow> b < i64_min sdiv a \<longleftrightarrow> a * b < i64_min" by (rule neg)
  show "a < 0 \<Longrightarrow> 0 < b \<Longrightarrow> a < i64_min sdiv b \<longleftrightarrow> a * b < i64_min"
    using neg [of b a] by (simp add: mult.commute)
  show "a < 0 \<Longrightarrow> b < 0 \<Longrightarrow> a < i64_max sdiv b \<longleftrightarrow> a * b > i64_max"
    using int_div_less_iff [of "- b" i64_max "- a"]
    by (auto simp: signed_divide_int_def i64_max_def)
qed

lemma sdiv_in_i64:
  assumes "in_i64 a" "b \<noteq> 0" "b \<noteq> -1"
  shows "in_i64 (a sdiv b)"
proof -
  have q: "0 \<le> \<bar>a\<bar> div \<bar>b\<bar>" "\<bar>a\<bar> div \<bar>b\<bar> \<le> \<bar>a\<bar>"
    using assms(2) zdiv_mono2 [of "\<bar>a\<bar>" 1 "\<bar>b\<bar>"] by (simp_all add: pos_imp_zdiv_nonneg_iff)
  show ?thesis
  proof (cases "0 < b")
    case True
    then show ?thesis using q assms(1) by (auto simp: signed_divide_int_def i64_defs sgn_if)
  next
    case False
    then have "\<bar>a\<bar> div \<bar>b\<bar> \<le> \<bar>a\<bar> div 2" using assms(2,3) by (intro zdiv_mono2) auto
    then show ?thesis using q assms(1) False
      by (auto simp: signed_divide_int_def i64_defs sgn_if)
  qed
qed

lemma safeMul_eq:
  assumes "in_i64 a" "in_i64 b"
  shows "safeMul a b =
     (if in_i64 (a * b) then Ret (a * b)
      else Throw (Overflow_error (if a = -1 \<or> b = -1 then ''integer overflow on negate'' else ''integer overflow on mul'')))"
proof -
  consider "a = 0 \<or> b = 0 \<or> a = 1 \<or> b = 1 \<or> a = -1 \<or> b = -1"
    | "a > 1" "b > 1" | "a > 1" "b < -1" | "a < -1" "b > 1" | "a < -1" "b < -1" by linarith
  then show ?thesis
  proof cases
    case 1
    then show ?thesis using assms safeNegate_eq by (auto simp: safeMul_def i64_defs)
  next
    case 2
    then have "0 \<le> a * b" by simp
    then have "in_i64 (a * b) \<longleftrightarrow> \<not> a * b > i64_max" by (simp add: i64_defs) linarith
    then show ?thesis using 2 mul_guards(1) [of a b] sdiv_in_i64 [of i64_max b]
      by (auto simp: safeMul_def i64_div_def i64_def i64_defs)
  next
    case 3
    then have "a * b \<le> 0" by (simp add: mult_nonneg_nonpos)
    then have "in_i64 (a * b) \<longleftrightarrow> \<not> a * b < i64_min" by (simp add: i64_defs) linarith
    then show ?thesis using 3 mul_guards(2) [of a b] sdiv_in_i64 [of i64_min a]
      by (auto simp: safeMul_def i64_div_def i64_def i64_defs)
  next
    case 4
    then have "a * b \<le> 0" by (simp add: mult_nonpos_nonneg)
    then have "in_i64 (a * b) \<longleftrightarrow> \<not> a * b < i64_min" by (simp add: i64_defs) linarith
    then show ?thesis using 4 mul_guards(3) [of a b] sdiv_in_i64 [of i64_min b]
      by (auto simp: safeMul_def i64_div_def i64_def i64_defs)
  next
    case 5
    then have "0 \<le> a * b" by (simp add: mult_nonpos_nonpos)
    then have "in_i64 (a * b) \<longleftrightarrow> \<not> a * b > i64_max" by (simp add: i64_defs) linarith
    then show ?thesis using 5 mul_guards(4) [of a b] sdiv_in_i64 [of i64_max b]
      by (auto simp: safeMul_def i64_div_def i64_def i64_defs)
  qed
qed

lemma gcdU64_eq: "gcdU64 a b = gcd a b"
proof (induction a b rule: gcdU64.induct)
  case (1 a b)
  show ?case
  proof (cases "b = 0")
    case True
    then show ?thesis by (simp add: gcdU64.simps)
  next
    case False
    then have "gcdU64 a b = gcd b (a mod b)" using 1 by (simp add: gcdU64.simps [of a b])
    also have "\<dots> = gcd a b" by (rule gcd_red_nat [symmetric])
    finally show ?thesis .
  qed
qed

lemma cast_gcd:
  assumes "in_i64 n" "in_i64 d" "n \<noteq> 0 \<or> d \<noteq> 0" "n \<noteq> i64_min \<and> n \<noteq> 0 \<or> d \<noteq> i64_min \<and> d \<noteq> 0"
  shows "safeCastU64ToI64 (gcdU64 (absToUint64 n) (absToUint64 d)) = Ret (gcd n d)"
proof -
  have g: "int (gcd (nat \<bar>n\<bar>) (nat \<bar>d\<bar>)) = gcd n d" by (simp only: gcd_int_def)
  have le: "gcd n d \<le> \<bar>n\<bar> \<or> n = 0" "gcd n d \<le> \<bar>d\<bar> \<or> d = 0"
    using dvd_imp_le_int [of n "gcd n d"] dvd_imp_le_int [of d "gcd n d"] by auto
  have "\<bar>x\<bar> \<le> i64_max" if "in_i64 x" "x \<noteq> i64_min" for x using that by (simp add: i64_defs abs_le_iff)
  with le assms have "gcd n d \<le> i64_max" by (meson order_trans)
  moreover have "gcd n d \<noteq> 0" using assms(3) by simp
  then have nz: "gcd (nat \<bar>n\<bar>) (nat \<bar>d\<bar>) \<noteq> 0" unfolding g [symmetric] of_nat_eq_0_iff .
  ultimately have "safeCastU64ToI64 (gcd (nat \<bar>n\<bar>) (nat \<bar>d\<bar>)) = Ret (gcd n d)"
    unfolding safeCastU64ToI64_def if_not_P [OF nz] g by simp
  then show ?thesis by (simp only: gcdU64_eq absToUint64_eq)
qed

lemma i64_div_exact:
  assumes "in_i64 a" "0 < g" "g dvd a"
  shows "i64_div a g = Ret (a div g)" "in_i64 (a div g)"
proof -
  have "a sdiv g = a div g"
    using assms(2,3) sdiv_mult_smod_eq [of a g]
    by (auto simp: signed_divide_int_def sgn_if zdiv_zminus1_eq_if)
  moreover have "in_i64 (a sdiv g)" using assms by (intro sdiv_in_i64) auto
  ultimately show "i64_div a g = Ret (a div g)" "in_i64 (a div g)"
    using assms(2) by (simp_all add: i64_div_def i64_def)
qed


section \<open>Normal form and value\<close>

definition frac_inv :: "Fraction \<Rightarrow> bool" where
  "frac_inv f \<longleftrightarrow> 0 < f_den f \<and> coprime (f_num f) (f_den f) \<and> in_i64 (f_num f) \<and> in_i64 (f_den f)"

definition frac_val :: "Fraction \<Rightarrow> rat" where
  "frac_val f = of_int (f_num f) / of_int (f_den f)"

text \<open>A rational has a \<open>Fraction\<close> if its lowest terms are in range.\<close>

definition representable :: "rat \<Rightarrow> bool" where
  "representable r \<longleftrightarrow> in_i64 (fst (quotient_of r)) \<and> in_i64 (snd (quotient_of r))"

definition of_rational :: "rat \<Rightarrow> Fraction" where
  "of_rational r = \<lparr>f_num = fst (quotient_of r), f_den = snd (quotient_of r)\<rparr>"

lemma quotient_of_lowest:
  assumes "0 < d" "coprime n d"
  shows "quotient_of (of_int n / of_int d) = (n, d)"
  using assms by (simp add: quotient_of_Fract normalize_def [abs_def] flip: Fract_of_int_quotient)

lemma frac_inv_of_rational:
  assumes "frac_inv f"
  shows "of_rational (frac_val f) = f" "representable (frac_val f)"
  using assms quotient_of_lowest [of "f_den f" "f_num f"]
  by (simp_all add: frac_inv_def frac_val_def of_rational_def representable_def)

lemma frac_val_inj: "frac_inv f \<Longrightarrow> frac_inv g \<Longrightarrow> frac_val f = frac_val g \<Longrightarrow> f = g"
  by (metis frac_inv_of_rational(1))

lemma of_rational_inv:
  assumes "representable r"
  shows "frac_inv (of_rational r)" "frac_val (of_rational r) = r"
proof -
  obtain p q where pq: "quotient_of r = (p, q)" by (cases "quotient_of r")
  show "frac_inv (of_rational r)"
    using assms pq quotient_of_denom_pos [OF pq] quotient_of_coprime [OF pq]
    by (simp add: frac_inv_def of_rational_def representable_def)
  show "frac_val (of_rational r) = r"
    using pq quotient_of_div [OF pq] by (simp add: frac_val_def of_rational_def)
qed

lemma quotient_of_reduced:
  assumes "d \<noteq> 0"
  shows "quotient_of (of_int n / of_int d) = (sgn d * (n div gcd n d), \<bar>d\<bar> div gcd n d)"
proof -
  let ?g = "gcd n d"
  have g: "0 < ?g" using assms by simp
  have "0 < \<bar>d\<bar> div ?g" using assms g
    by (simp add: pos_imp_zdiv_pos_iff zdvd_imp_le)
  moreover have "coprime (sgn d * (n div ?g)) (\<bar>d\<bar> div ?g)"
    using assms div_gcd_coprime [of n d] by (auto simp: sgn_if abs_if dvd_neg_div)
  moreover have "(of_int n / of_int d :: rat) = of_int (sgn d * (n div ?g)) / of_int (\<bar>d\<bar> div ?g)"
  proof -
    obtain n' d' where nd: "n = ?g * n'" "d = ?g * d'" by (meson dvd_def gcd_dvd1 gcd_dvd2)
    define h where "h = ?g"
    have h: "0 < h" "n = h * n'" "d = h * d'" using g nd by (simp_all add: h_def)
    have "sgn d = sgn d'" "\<bar>d\<bar> = h * \<bar>d'\<bar>" using h by (simp_all add: sgn_mult abs_mult)
    moreover have "d' \<noteq> 0" using assms h by auto
    ultimately show ?thesis unfolding h_def [symmetric] using h
      by (auto simp: sgn_if abs_if)
  qed
  ultimately show ?thesis by (simp only: quotient_of_lowest)
qed


section \<open>\<^verbatim>\<open>normalize\<close> computes lowest terms\<close>

definition overflows :: "'a outcome \<Rightarrow> bool" where
  "overflows r \<longleftrightarrow> (\<exists>msg. r = Throw (Overflow_error msg))"

lemma normalize_eq:
  assumes "in_i64 n" "in_i64 d" "d \<noteq> 0" "\<not> (n = i64_min \<and> d = i64_min)"
  defines "r \<equiv> of_int n / of_int d :: rat"
  shows "if representable r then normalize \<lparr>f_num = n, f_den = d\<rparr> = (Ret (), of_rational r)
    else overflows (fst (normalize \<lparr>f_num = n, f_den = d\<rparr>))"
proof (cases "n = 0")
  case True
  then show ?thesis using assms(3)
    by (simp add: normalize_def cpp_simps r_def representable_def of_rational_def i64_defs)
next
  case False
  let ?g = "gcd n d"
  have g: "0 < ?g" using assms(3) by simp
  have cast: "safeCastU64ToI64 (gcdU64 (absToUint64 n) (absToUint64 d)) = Ret ?g"
    using assms False by (intro cast_gcd) auto
  note dn = i64_div_exact [OF assms(1) g gcd_dvd1] and dd = i64_div_exact [OF assms(2) g gcd_dvd2]
  have q: "quotient_of r = (sgn d * (n div ?g), \<bar>d\<bar> div ?g)"
    unfolding r_def using assms(3) by (rule quotient_of_reduced)
  have nz: "d div ?g \<noteq> 0" using assms(3) g by (simp add: dvd_div_eq_0_iff)
  show ?thesis
  proof (cases "0 < d")
    case True
    then have "\<not> d div ?g < 0" using g by (simp add: pos_imp_zdiv_neg_iff)
    then show ?thesis using False assms(3) cast dn dd q True
      by (simp add: normalize_def cpp_simps representable_def of_rational_def)
  next
    case neg: False
    then have neg: "d < 0" using assms(3) by simp
    then have dneg: "d div ?g < 0" using g by (simp add: pos_imp_zdiv_neg_iff)
    have run: "normalize \<lparr>f_num = n, f_den = d\<rparr> =
      (if d div ?g = i64_min then (Throw (Overflow_error ''fraction normalization overflow''), \<lparr>f_num = n div ?g, f_den = d div ?g\<rparr>)
       else case safeNegate (n div ?g) of
              Ret m \<Rightarrow> (Ret (), \<lparr>f_num = m, f_den = - (d div ?g)\<rparr>)
            | Throw e \<Rightarrow> (Throw e, \<lparr>f_num = n div ?g, f_den = d div ?g\<rparr>)
            | Undef \<Rightarrow> (Undef, \<lparr>f_num = n div ?g, f_den = d div ?g\<rparr>))"
      using False assms(3) cast dn dd dneg
      by (auto simp: normalize_def cpp_simps i64_def i64_defs split: outcome.splits)
    have den: "in_i64 (- (d div ?g)) \<longleftrightarrow> d div ?g \<noteq> i64_min" using dd(2) by (auto simp: i64_defs)
    show ?thesis using neg den safeNegate_eq [OF dn(2)]
      by (auto simp: run q dvd_neg_div representable_def of_rational_def overflows_def)
  qed
qed

lemma normalize_min_min:
  "fst (normalize \<lparr>f_num = i64_min, f_den = i64_min\<rparr>) = Throw (Overflow_error ''integer overflow on cast'')"
  by (simp add: normalize_def cpp_simps i64_defs safeCastU64ToI64_def absToUint64_eq gcdU64_eq)

section \<open>The operators compute in the rationals\<close>

text \<open>What an operator of the class promises about the exact operation: no undefined behaviour,
  and a returned fraction is the exact result in normal form.\<close>

locale exact_operator =
  fixes op :: "Fraction \<Rightarrow> Fraction \<Rightarrow> Fraction outcome"
    and f :: "rat \<Rightarrow> rat \<Rightarrow> rat"
  assumes op_sound: "frac_inv x \<Longrightarrow> frac_inv y \<Longrightarrow> op x y = Ret z \<Longrightarrow>
      representable (f (frac_val x) (frac_val y)) \<and> z = of_rational (f (frac_val x) (frac_val y))"
    and op_defined: "frac_inv x \<Longrightarrow> frac_inv y \<Longrightarrow> op x y \<noteq> Undef"
begin

lemma op_inv: "frac_inv x \<Longrightarrow> frac_inv y \<Longrightarrow> op x y = Ret z \<Longrightarrow> frac_inv z"
  using op_sound of_rational_inv by blast

lemma op_value: "frac_inv x \<Longrightarrow> frac_inv y \<Longrightarrow> op x y = Ret z \<Longrightarrow> frac_val z = f (frac_val x) (frac_val y)"
  using op_sound of_rational_inv by blast

text \<open>A left fold of the operator, stopped by the first exception.\<close>

definition fold_op :: "Fraction list \<Rightarrow> Fraction \<Rightarrow> Fraction outcome" where
  "fold_op ys x = fold (\<lambda>y r. obind r (\<lambda>x. op x y)) ys (Ret x)"

lemma fold_stuck:
  "fold (\<lambda>y r. obind r (\<lambda>x. op x y)) ys (Throw e) = Throw e"
  "fold (\<lambda>y r. obind r (\<lambda>x. op x y)) ys Undef = Undef"
  by (induction ys) simp_all

lemma fold_exact:
  assumes "frac_inv x" "\<forall>y \<in> set ys. frac_inv y"
  shows "fold (\<lambda>y r. obind r (\<lambda>x. op x y)) ys (Ret x) \<noteq> Undef \<and>
    (\<forall>z. fold (\<lambda>y r. obind r (\<lambda>x. op x y)) ys (Ret x) = Ret z \<longrightarrow>
      frac_inv z \<and> frac_val z = fold (\<lambda>y r. f r (frac_val y)) ys (frac_val x))"
  using assms
proof (induction ys arbitrary: x)
  case Nil
  then show ?case by simp
next
  case (Cons y ys)
  then have xy: "frac_inv x" "frac_inv y" by simp_all
  show ?case
  proof (cases "op x y")
    case (Ret z)
    with Cons.IH [of z] Cons.prems op_inv [OF xy Ret] op_value [OF xy Ret] show ?thesis by simp
  qed (simp_all add: fold_stuck op_defined [OF xy])
qed

end


lemma overflows_simps [simp]: "\<not> overflows (Ret v)" "overflows (Throw (Overflow_error m))" "\<not> overflows Undef"
  by (simp_all add: overflows_def)

lemma safeMul_cases:
  assumes "in_i64 a" "in_i64 b"
  shows "safeMul a b = Ret (a * b) \<and> in_i64 (a * b) \<or> overflows (safeMul a b) \<and> \<not> in_i64 (a * b)"
  using safeMul_eq [OF assms] by simp

lemma overflows_throw: "overflows r \<longleftrightarrow> (\<exists>m. r = Throw (Overflow_error m))"
  by (simp add: overflows_def)

subsection \<open>Addition and subtraction\<close>

lemma linear_assign_cases:
  assumes "frac_inv x" "frac_inv y"
    and op: "\<And>l r. in_i64 l \<Longrightarrow> in_i64 r \<Longrightarrow> op l r = Ret (l + s * r) \<and> in_i64 (l + s * r) \<or> overflows (op l r)"
  defines "v \<equiv> frac_val x + of_int s * frac_val y"
  shows "overflows (fst (linear_assign op y x)) \<or>
    representable v \<and> linear_assign op y x = (Ret (), of_rational v)"
proof -
  obtain a b where x: "x = \<lparr>f_num = a, f_den = b\<rparr>" by (metis Fraction.surjective old.unit.exhaust)
  obtain c d where y: "y = \<lparr>f_num = c, f_den = d\<rparr>" by (metis Fraction.surjective old.unit.exhaust)
  have ab: "in_i64 a" "in_i64 b" "0 < b" and cd: "in_i64 c" "in_i64 d" "0 < d"
    using assms(1,2) by (simp_all add: frac_inv_def x y)
  let ?g = "gcd b d"
  have g: "0 < ?g" using ab(3) by simp
  have cast: "safeCastU64ToI64 (gcdU64 (absToUint64 b) (absToUint64 d)) = Ret ?g"
    using ab cd by (intro cast_gcd) (auto simp: i64_defs)
  note dl = i64_div_exact [OF cd(2) g gcd_dvd2] and dr = i64_div_exact [OF ab(2) g gcd_dvd1]
  define l r where "l = d div ?g" and "r = b div ?g"
  have gl: "d = l * ?g" "b = r * ?g" by (simp_all add: l_def r_def)
  have pos: "0 < l" "0 < r" using gl g ab(3) cd(3) by (metis zero_less_mult_pos2)+
  have val: "v = of_int (a * l + s * (c * r)) / of_int (b * l)"
  proof -
    have "(of_int d :: rat) = of_int l * of_int ?g" "(of_int b :: rat) = of_int r * of_int ?g"
      using gl by (metis of_int_mult)+
    then show ?thesis using g pos
      by (simp add: v_def frac_val_def x y field_simps)
  qed
  have run: "linear_assign op y x =
    (case safeMul a l of
       Ret p \<Rightarrow> (case safeMul c r of
         Ret q \<Rightarrow> (case op p q of
           Ret n \<Rightarrow> (case safeMul b l of
             Ret m \<Rightarrow> normalize \<lparr>f_num = n, f_den = m\<rparr>
           | Throw e \<Rightarrow> (Throw e, x) | Undef \<Rightarrow> (Undef, x))
         | Throw e \<Rightarrow> (Throw e, x) | Undef \<Rightarrow> (Undef, x))
       | Throw e \<Rightarrow> (Throw e, x) | Undef \<Rightarrow> (Undef, x))
     | Throw e \<Rightarrow> (Throw e, x) | Undef \<Rightarrow> (Undef, x))"
    using cast dl dr by (simp add: linear_assign_def cpp_simps x y l_def r_def split: outcome.split)
  note il = dl(2) [folded l_def] and ir = dr(2) [folded r_def]
  consider "overflows (safeMul a l)" | "overflows (safeMul c r)" "safeMul a l = Ret (a * l)"
    | "overflows (op (a * l) (c * r))" "safeMul a l = Ret (a * l)" "safeMul c r = Ret (c * r)"
    | "overflows (safeMul b l)" "safeMul a l = Ret (a * l)" "safeMul c r = Ret (c * r)"
      "op (a * l) (c * r) = Ret (a * l + s * (c * r))"
    | "safeMul b l = Ret (b * l)" "in_i64 (b * l)" "safeMul a l = Ret (a * l)" "safeMul c r = Ret (c * r)"
      "op (a * l) (c * r) = Ret (a * l + s * (c * r))" "in_i64 (a * l + s * (c * r))"
    using safeMul_cases [OF ab(1) il] safeMul_cases [OF cd(1) ir] safeMul_cases [OF ab(2) il] op [of "a * l" "c * r"]
    by blast
  then show ?thesis
  proof cases
    case 5
    have "0 < b * l" using ab(3) pos(1) by simp
    moreover have "i64_min < 0" by (simp add: i64_min_def)
    ultimately have bl: "b * l \<noteq> 0" "b * l \<noteq> i64_min" by linarith+
    show ?thesis using 5 normalize_eq [OF 5(6) 5(2) bl(1)] bl(2)
      by (auto simp: run val split: if_splits)
  qed (auto simp: run overflows_throw)
qed

lemma on_copy_cases:
  assumes "overflows (fst (op y x)) \<or> representable v \<and> op y x = (Ret (), of_rational v)"
  shows "overflows (on_copy op x y) \<or> representable v \<and> on_copy op x y = Ret (of_rational v)"
  using assms by (cases "op y x") (auto simp: on_copy_def overflows_throw)

lemma frac_add_cases:
  assumes "frac_inv x" "frac_inv y"
  shows "overflows (frac_add x y) \<or>
    representable (frac_val x + frac_val y) \<and> frac_add x y = Ret (of_rational (frac_val x + frac_val y))"
  unfolding frac_add_def
  by (rule on_copy_cases) (use linear_assign_cases [OF assms, of safeAdd 1] safeAdd_eq in \<open>simp add: add_assign_def\<close>)

lemma frac_sub_cases:
  assumes "frac_inv x" "frac_inv y"
  shows "overflows (frac_sub x y) \<or>
    representable (frac_val x - frac_val y) \<and> frac_sub x y = Ret (of_rational (frac_val x - frac_val y))"
  unfolding frac_sub_def
  by (rule on_copy_cases) (use linear_assign_cases [OF assms, of safeSub "-1"] safeSub_eq in \<open>simp add: sub_assign_def\<close>)

interpretation add: exact_operator frac_add "(+)"
  using frac_add_cases by unfold_locales (fastforce simp: overflows_throw)+

interpretation sub: exact_operator frac_sub "(-)"
  using frac_sub_cases by unfold_locales (fastforce simp: overflows_throw)+


subsection \<open>Multiplication and division\<close>

text \<open>After the cross-cancelling of \<^verbatim>\<open>operator*=\<close> and \<^verbatim>\<open>operator/=\<close> the products are coprime.\<close>

lemma cross_cancel:
  fixes a b c d :: int
  assumes "coprime a b" "coprime c d" "a \<noteq> 0 \<or> d \<noteq> 0" "c \<noteq> 0 \<or> b \<noteq> 0"
  defines "g \<equiv> gcd a d" and "h \<equiv> gcd c b"
  shows "coprime ((a div g) * (c div h)) ((b div h) * (d div g))"
proof -
  have ad: "coprime (a div g) (d div g)" unfolding g_def using assms(3) by (rule div_gcd_coprime)
  have cb: "coprime (c div h) (b div h)" unfolding h_def using assms(4) by (rule div_gcd_coprime)
  have "g dvd a" "g dvd d" "h dvd c" "h dvd b" by (simp_all add: g_def h_def)
  then have "a div g dvd a" "d div g dvd d" "c div h dvd c" "b div h dvd b"
    by (metis dvd_div_mult_self dvd_triv_left)+
  then have "coprime (a div g) (b div h)" "coprime (c div h) (d div g)"
    using assms(1,2) coprime_divisors by blast+
  with ad cb show ?thesis by (simp add: coprime_commute)
qed

lemma cancel_quotient:
  fixes a b c d :: int
  assumes "b \<noteq> 0" "d \<noteq> 0"
  shows "(of_int ((a div gcd a d) * (c div gcd c b)) / of_int ((b div gcd c b) * (d div gcd a d)) :: rat) =
    (of_int a / of_int b) * (of_int c / of_int d)"
proof -
  define g where "g = gcd a d"
  define h where "h = gcd c b"
  have "a = a div g * g" "d = d div g * g" "c = c div h * h" "b = b div h * h" by (simp_all add: g_def h_def)
  then have "(of_int a :: rat) = of_int (a div g) * of_int g" "(of_int d :: rat) = of_int (d div g) * of_int g"
    "(of_int c :: rat) = of_int (c div h) * of_int h" "(of_int b :: rat) = of_int (b div h) * of_int h"
    by (metis of_int_mult)+
  moreover have "g \<noteq> 0" "h \<noteq> 0" using assms by (simp_all add: g_def h_def)
  ultimately have "(of_int a / of_int b) * (of_int c / of_int d) =
    (of_int (a div g) * of_int g * (of_int (c div h) * of_int h)) /
    (of_int (b div h) * of_int h * (of_int (d div g) * of_int g) :: rat)" by simp
  also have "\<dots> = of_int ((a div g) * (c div h)) / of_int ((b div h) * (d div g))"
    using \<open>g \<noteq> 0\<close> \<open>h \<noteq> 0\<close> by simp
  finally show ?thesis by (simp only: g_def h_def)
qed

lemma assign_products_run:
  "assign_products p q r s f =
     (case safeMul p q of
        Ret n \<Rightarrow> (case safeMul r s of
          Ret d \<Rightarrow> normalize \<lparr>f_num = n, f_den = d\<rparr>
        | Throw e \<Rightarrow> (Throw e, \<lparr>f_num = n, f_den = f_den f\<rparr>)
        | Undef \<Rightarrow> (Undef, \<lparr>f_num = n, f_den = f_den f\<rparr>))
      | Throw e \<Rightarrow> (Throw e, f) | Undef \<Rightarrow> (Undef, f))"
proof -
  obtain a b where f: "f = \<lparr>f_num = a, f_den = b\<rparr>" by (metis Fraction.surjective old.unit.exhaust)
  show ?thesis unfolding f by (simp add: assign_products_def cpp_simps split: outcome.split)
qed

lemma assign_products_cases:
  assumes "in_i64 p" "in_i64 q" "in_i64 r" "in_i64 s" "r * s \<noteq> 0" "coprime (p * q) (r * s)"
  defines "v \<equiv> of_int (p * q) / of_int (r * s) :: rat"
  shows "overflows (fst (assign_products p q r s f)) \<or>
      representable v \<and> assign_products p q r s f = (Ret (), of_rational v)"
    and "0 < r * s \<Longrightarrow> representable v \<Longrightarrow> assign_products p q r s f = (Ret (), of_rational v)"
proof -
  have "\<not> coprime i64_min i64_min" by (simp add: i64_min_def)
  then have nn: "\<not> (p * q = i64_min \<and> r * s = i64_min)" using assms(6) by metis
  have run: "representable v \<and> assign_products p q r s f = (Ret (), of_rational v) \<or>
      \<not> representable v \<and> overflows (fst (assign_products p q r s f))"
    if "in_i64 (p * q)" "in_i64 (r * s)"
    using normalize_eq [OF that assms(5) nn] that safeMul_eq [OF assms(1,2)] safeMul_eq [OF assms(3,4)]
    by (simp add: assign_products_run v_def split: if_splits)
  show "overflows (fst (assign_products p q r s f)) \<or>
      representable v \<and> assign_products p q r s f = (Ret (), of_rational v)"
    using run safeMul_cases [OF assms(1,2)] safeMul_cases [OF assms(3,4)]
    by (auto simp: assign_products_run overflows_throw)
  show "assign_products p q r s f = (Ret (), of_rational v)" if "0 < r * s" "representable v"
    using that run quotient_of_lowest [OF that(1) assms(6)] by (simp add: representable_def v_def)
qed

lemma mul_assign_cases:
  assumes "frac_inv x" "frac_inv y"
  defines "v \<equiv> frac_val x * frac_val y"
  shows "if representable v then mul_assign y x = (Ret (), of_rational v)
    else overflows (fst (mul_assign y x))"
proof -
  obtain a b where x: "x = \<lparr>f_num = a, f_den = b\<rparr>" by (metis Fraction.surjective old.unit.exhaust)
  obtain c d where y: "y = \<lparr>f_num = c, f_den = d\<rparr>" by (metis Fraction.surjective old.unit.exhaust)
  have ab: "in_i64 a" "in_i64 b" "0 < b" "coprime a b" and cd: "in_i64 c" "in_i64 d" "0 < d" "coprime c d"
    using assms(1,2) by (simp_all add: frac_inv_def x y)
  show ?thesis
  proof (cases "a = 0 \<or> c = 0")
    case True
    then have "v = 0" by (auto simp: v_def frac_val_def x y)
    then show ?thesis using True
      by (simp add: mul_assign_def cpp_simps x y representable_def of_rational_def i64_defs)
  next
    case False
    let ?g = "gcd a d" and ?h = "gcd c b"
    have g: "0 < ?g" "0 < ?h" using ab(3) cd(3) by simp_all
    have cast: "safeCastU64ToI64 (gcdU64 (absToUint64 a) (absToUint64 d)) = Ret ?g"
      "safeCastU64ToI64 (gcdU64 (absToUint64 c) (absToUint64 b)) = Ret ?h"
      using ab cd by (auto intro!: cast_gcd simp: i64_defs)
    note da = i64_div_exact [OF ab(1) g(1) gcd_dvd1] and dd = i64_div_exact [OF cd(2) g(1) gcd_dvd2]
      and dc = i64_div_exact [OF cd(1) g(2) gcd_dvd1] and db = i64_div_exact [OF ab(2) g(2) gcd_dvd2]
    have run: "mul_assign y x = assign_products (a div ?g) (c div ?h) (b div ?h) (d div ?g) x"
      using False cast da dd dc db by (simp add: mul_assign_def cpp_simps x y)
    have pos: "0 < (b div ?h) * (d div ?g)"
      using ab(3) cd(3) g by (intro mult_pos_pos) (simp_all add: pos_imp_zdiv_pos_iff zdvd_imp_le)
    have val: "v = of_int ((a div ?g) * (c div ?h)) / of_int ((b div ?h) * (d div ?g))"
      using cancel_quotient [of b d a c] ab(3) cd(3) by (simp add: v_def frac_val_def x y)
    have cop: "coprime ((a div ?g) * (c div ?h)) ((b div ?h) * (d div ?g))"
      using ab cd by (intro cross_cancel) auto
    have nz: "(b div ?h) * (d div ?g) \<noteq> 0" using pos by linarith
    show ?thesis
      using assign_products_cases [OF da(2) dc(2) db(2) dd(2) nz cop, of x] pos
      unfolding run val by metis
  qed
qed


lemma div_assign_cases:
  assumes "frac_inv x" "frac_inv y" "f_num y \<noteq> 0"
  defines "v \<equiv> frac_val x / frac_val y"
  shows "overflows (fst (div_assign y x)) \<or> representable v \<and> div_assign y x = (Ret (), of_rational v)"
    and "0 < f_num y \<Longrightarrow> representable v \<Longrightarrow> div_assign y x = (Ret (), of_rational v)"
proof -
  obtain a b where x: "x = \<lparr>f_num = a, f_den = b\<rparr>" by (metis Fraction.surjective old.unit.exhaust)
  obtain c d where y: "y = \<lparr>f_num = c, f_den = d\<rparr>" by (metis Fraction.surjective old.unit.exhaust)
  have ab: "in_i64 a" "in_i64 b" "0 < b" "coprime a b" and cd: "in_i64 c" "in_i64 d" "0 < d" "coprime c d" "c \<noteq> 0"
    using assms(1-3) by (simp_all add: frac_inv_def x y)
  let ?g = "gcd a c" and ?h = "gcd d b"
  consider "a = 0" | "a = i64_min" "c = i64_min" | "a \<noteq> 0" "\<not> (a = i64_min \<and> c = i64_min)" by blast
  then have "(overflows (fst (div_assign y x)) \<or> representable v \<and> div_assign y x = (Ret (), of_rational v)) \<and>
    (0 < c \<and> representable v \<longrightarrow> div_assign y x = (Ret (), of_rational v))"
  proof cases
    case 1
    then have "v = 0" by (simp add: v_def frac_val_def x)
    then show ?thesis using 1 cd(5)
      by (simp add: div_assign_def cpp_simps x y representable_def of_rational_def i64_defs)
  next
    case 2
    then show ?thesis
      by (simp add: div_assign_def cpp_simps x y i64_defs safeCastU64ToI64_def absToUint64_eq gcdU64_eq)
  next
    case 3
    have g: "0 < ?g" "0 < ?h" using ab(3) cd(5) by simp_all
    have cast: "safeCastU64ToI64 (gcdU64 (absToUint64 a) (absToUint64 c)) = Ret ?g"
      "safeCastU64ToI64 (gcdU64 (absToUint64 d) (absToUint64 b)) = Ret ?h"
      using ab cd 3 by (auto intro!: cast_gcd simp: i64_defs)
    note da = i64_div_exact [OF ab(1) g(1) gcd_dvd1] and dc = i64_div_exact [OF cd(1) g(1) gcd_dvd2]
      and dd = i64_div_exact [OF cd(2) g(2) gcd_dvd1] and db = i64_div_exact [OF ab(2) g(2) gcd_dvd2]
    have run: "div_assign y x = assign_products (a div ?g) (d div ?h) (b div ?h) (c div ?g) x"
      using 3(1) cd(5) cast da dd dc db by (simp add: div_assign_def cpp_simps x y)
    have val: "v = of_int ((a div ?g) * (d div ?h)) / of_int ((b div ?h) * (c div ?g))"
      using cancel_quotient [of b c a d] ab(3) cd(5) by (simp add: v_def frac_val_def x y)
    have cop: "coprime ((a div ?g) * (d div ?h)) ((b div ?h) * (c div ?g))"
      using ab cd by (intro cross_cancel) (auto simp: coprime_commute)
    have bp: "0 < b div ?h" using ab(3) g by (simp add: pos_imp_zdiv_pos_iff zdvd_imp_le)
    have cz: "c div ?g \<noteq> 0" using cd(5) g by (simp add: dvd_div_eq_0_iff)
    have pos: "0 < (b div ?h) * (c div ?g)" if "0 < c"
      using bp that g by (intro mult_pos_pos) (simp_all add: pos_imp_zdiv_pos_iff zdvd_imp_le)
    have nz: "(b div ?h) * (c div ?g) \<noteq> 0" using bp cz by simp
    show ?thesis
      using assign_products_cases [OF da(2) dd(2) db(2) dc(2) nz cop, of x] pos
      unfolding run val by metis
  qed
  then show "overflows (fst (div_assign y x)) \<or> representable v \<and> div_assign y x = (Ret (), of_rational v)"
    "0 < f_num y \<Longrightarrow> representable v \<Longrightarrow> div_assign y x = (Ret (), of_rational v)"
    by (simp_all add: y)
qed

lemma frac_mul_eq:
  assumes "frac_inv x" "frac_inv y"
  shows "if representable (frac_val x * frac_val y)
    then frac_mul x y = Ret (of_rational (frac_val x * frac_val y)) else overflows (frac_mul x y)"
  using mul_assign_cases [OF assms]
  by (cases "mul_assign y x") (auto simp: frac_mul_def on_copy_def overflows_throw split: if_splits)

lemma frac_div_cases:
  assumes "frac_inv x" "frac_inv y"
  shows "if f_num y = 0 then frac_div x y = Throw (Domain_error ''division by zero fraction'')
    else overflows (frac_div x y) \<or>
      representable (frac_val x / frac_val y) \<and> frac_div x y = Ret (of_rational (frac_val x / frac_val y))"
proof (cases "f_num y = 0")
  case True
  then show ?thesis by (simp add: frac_div_def on_copy_def div_assign_def cpp_simps)
next
  case False
  then show ?thesis unfolding frac_div_def if_not_P [OF False]
    by (intro on_copy_cases) (use div_assign_cases(1) [OF assms] in blast)
qed

interpretation mul: exact_operator frac_mul "(*)"
proof (unfold_locales, goal_cases)
  case (1 x y z)
  then show ?case using frac_mul_eq [of x y] by (auto split: if_splits)
next
  case (2 x y)
  then show ?case using frac_mul_eq [of x y] by (auto split: if_splits)
qed

interpretation div: exact_operator frac_div "(/)"
proof (unfold_locales, goal_cases)
  case (1 x y z)
  then show ?case using frac_div_cases [of x y] by (auto split: if_splits)
next
  case (2 x y)
  then show ?case using frac_div_cases [of x y] by (auto split: if_splits)
qed

subsection \<open>Comparison\<close>

definition ord_of :: "'a::linorder \<Rightarrow> 'a \<Rightarrow> ordering" where
  "ord_of x y = (if x < y then Less else if x = y then Equal else Greater)"

lemma ord_of_quotient:
  fixes a b c d :: nat
  assumes "0 < b" "0 < d" "a div b < c div d"
  shows "a * d < c * b"
proof -
  have "a < Suc (a div b) * b" using assms(1) by (metis dividend_less_div_times mult_Suc add.commute)
  also have "\<dots> \<le> c div d * b" using assms(3) by (intro mult_right_mono) auto
  finally have "a * d < c div d * b * d" using assms(2) by simp
  also have "\<dots> = c div d * d * b" by simp
  also have "\<dots> \<le> c * b" by (intro mult_right_mono) auto
  finally show ?thesis .
qed

lemma compareUnsignedFractions_eq:
  assumes "0 < b" "0 < d"
  shows "compareUnsignedFractions reversed a b c d = Ret (if reversed then ord_of (c * b) (a * d) else ord_of (a * d) (c * b))"
  using assms
proof (induction reversed a b c d rule: compareUnsignedFractions.induct)
  case (1 reversed a b c d)
  let ?r = "a mod b" and ?s = "c mod d"
  consider "a div b < c div d" | "c div d < a div b" | "a div b = c div d" by linarith
  then show ?case
  proof cases
    case 1
    then show ?thesis using "1.prems" ord_of_quotient [of b d a c]
      by (subst compareUnsignedFractions.simps) (simp add: ord_of_def)
  next
    case 2
    then show ?thesis using "1.prems" ord_of_quotient [of d b c a]
      by (subst compareUnsignedFractions.simps) (simp add: ord_of_def)
  next
    case 3
    have "a * d = (c div d) * b * d + ?r * d" using 3 by (metis add_mult_distrib div_mult_mod_eq)
    moreover have "c * b = (c div d) * b * d + ?s * b"
      by (metis add_mult_distrib div_mult_mod_eq mult.commute mult.left_commute)
    ultimately have o: "ord_of (a * d) (c * b) = ord_of (?r * d) (?s * b)" "ord_of (c * b) (a * d) = ord_of (?s * b) (?r * d)"
      by (simp_all add: ord_of_def)
    show ?thesis
    proof (cases "?r = 0 \<or> ?s = 0")
      case True
      then show ?thesis using 3 "1.prems" unfolding o
        by (subst compareUnsignedFractions.simps) (auto simp: ord_of_def)
    next
      case False
      then have "compareUnsignedFractions (\<not> reversed) b ?r d ?s =
        Ret (if \<not> reversed then ord_of (d * ?r) (b * ?s) else ord_of (b * ?s) (d * ?r))"
        using "1.IH" [OF _ refl refl _ refl refl] "1.prems" 3 by simp
      then show ?thesis using 3 "1.prems" False unfolding o
        by (subst compareUnsignedFractions.simps) (simp add: mult.commute)
    qed
  qed
qed


lemma frac_val_less:
  assumes "frac_inv x" "frac_inv y"
  shows "frac_val x < frac_val y \<longleftrightarrow> f_num x * f_den y < f_num y * f_den x"
    "frac_val x = frac_val y \<longleftrightarrow> f_num x * f_den y = f_num y * f_den x"
proof -
  have p: "(0::rat) < of_int (f_den x)" "(0::rat) < of_int (f_den y)" using assms by (simp_all add: frac_inv_def)
  have "frac_val x < frac_val y \<longleftrightarrow> (of_int (f_num x * f_den y) :: rat) < of_int (f_num y * f_den x)"
    using p by (simp add: frac_val_def divide_less_eq less_divide_eq mult.commute)
  then show "frac_val x < frac_val y \<longleftrightarrow> f_num x * f_den y < f_num y * f_den x" by (simp only: of_int_less_iff)
  have "frac_val x = frac_val y \<longleftrightarrow> (of_int (f_num x * f_den y) :: rat) = of_int (f_num y * f_den x)"
    using p by (simp add: frac_val_def frac_eq_eq)
  then show "frac_val x = frac_val y \<longleftrightarrow> f_num x * f_den y = f_num y * f_den x" by (simp only: of_int_eq_iff)
qed

lemma ord_of_abs:
  fixes a b c d :: int
  assumes "0 < b" "0 < d"
  shows "0 \<le> a \<Longrightarrow> 0 \<le> c \<Longrightarrow> ord_of (nat \<bar>a\<bar> * nat d) (nat \<bar>c\<bar> * nat b) = ord_of (a * d) (c * b)"
    "a < 0 \<Longrightarrow> c < 0 \<Longrightarrow> ord_of (nat \<bar>a\<bar> * nat d) (nat \<bar>c\<bar> * nat b) = ord_of (c * b) (a * d)"
proof -
  have n: "nat \<bar>a\<bar> * nat d = nat (\<bar>a\<bar> * d)" "nat \<bar>c\<bar> * nat b = nat (\<bar>c\<bar> * b)"
    using assms by (simp_all add: nat_mult_distrib)
  have nn: "0 \<le> \<bar>a\<bar> * d" "0 \<le> \<bar>c\<bar> * b" using assms by simp_all
  show "0 \<le> a \<Longrightarrow> 0 \<le> c \<Longrightarrow> ord_of (nat \<bar>a\<bar> * nat d) (nat \<bar>c\<bar> * nat b) = ord_of (a * d) (c * b)"
    unfolding n ord_of_def using nn by (auto simp: nat_less_eq_zless eq_nat_nat_iff)
  show "a < 0 \<Longrightarrow> c < 0 \<Longrightarrow> ord_of (nat \<bar>a\<bar> * nat d) (nat \<bar>c\<bar> * nat b) = ord_of (c * b) (a * d)"
    unfolding n ord_of_def using nn by (auto simp: nat_less_eq_zless eq_nat_nat_iff)
qed

lemma frac_compare_eq:
  assumes "frac_inv x" "frac_inv y"
  shows "frac_compare x y = Ret (ord_of (frac_val x) (frac_val y))"
proof -
  let ?a = "f_num x" and ?b = "f_den x" and ?c = "f_num y" and ?d = "f_den y"
  have p: "0 < ?b" "0 < ?d" "?b < 2 ^ 64" "?d < 2 ^ 64" using assms by (simp_all add: frac_inv_def i64_defs)
  have v: "ord_of (frac_val x) (frac_val y) = ord_of (?a * ?d) (?c * ?b)"
    by (simp add: ord_of_def frac_val_less [OF assms])
  have c: "compareUnsignedFractions False (absToUint64 ?a) (nat (?b mod 2 ^ 64)) (absToUint64 ?c) (nat (?d mod 2 ^ 64)) =
    Ret (ord_of (nat \<bar>?a\<bar> * nat ?d) (nat \<bar>?c\<bar> * nat ?b))"
    using p compareUnsignedFractions_eq [of "nat ?b" "nat ?d" False "nat \<bar>?a\<bar>" "nat \<bar>?c\<bar>"]
    by (simp add: absToUint64_eq)
  have flip: "(case ord_of u w of Less \<Rightarrow> Greater | Greater \<Rightarrow> Less | Equal \<Rightarrow> Equal) = ord_of w u" for u w :: int
    by (auto simp: ord_of_def)
  consider "?a = ?c \<and> ?b = ?d" | "\<not> (?a = ?c \<and> ?b = ?d)" "?a < 0" "?c \<ge> 0" | "\<not> (?a = ?c \<and> ?b = ?d)" "?a \<ge> 0" "?c < 0"
    | "\<not> (?a = ?c \<and> ?b = ?d)" "?a < 0" "?c < 0" | "\<not> (?a = ?c \<and> ?b = ?d)" "?a \<ge> 0" "?c \<ge> 0" by linarith
  then show ?thesis unfolding v
  proof cases
    case 2
    then have "?a * ?d < 0" "0 \<le> ?c * ?b" using p by (simp_all add: mult_neg_pos)
    with 2 show "frac_compare x y = Ret (ord_of (?a * ?d) (?c * ?b))" by (auto simp: frac_compare_def ord_of_def)
  next
    case 3
    then have "0 \<le> ?a * ?d" "?c * ?b < 0" using p by (simp_all add: mult_neg_pos)
    with 3 show "frac_compare x y = Ret (ord_of (?a * ?d) (?c * ?b))" by (auto simp: frac_compare_def ord_of_def)
  next
    case 4
    then show "frac_compare x y = Ret (ord_of (?a * ?d) (?c * ?b))"
      using c ord_of_abs(2) [OF p(1,2)] flip by (auto simp: frac_compare_def)
  next
    case 5
    then show "frac_compare x y = Ret (ord_of (?a * ?d) (?c * ?b))"
      using c ord_of_abs(1) [OF p(1,2)] by (auto simp: frac_compare_def)
  qed (simp add: frac_compare_def ord_of_def)
qed

section \<open>Properties\<close>

text \<open>C37: On fractions in normal form the operators + - * / never run into undefined behaviour
  (signed overflow or division by zero in the implementation), and a fraction they return is the
  exact rational result in lowest terms. Multiplication returns exactly when the product has
  a representation; division throws \<^verbatim>\<open>std::domain_error\<close> exactly for a zero divisor and otherwise
  can only throw \<^verbatim>\<open>std::overflow_error\<close>.\<close>

theorem fraction_arithmetic_exact:
  assumes "frac_inv x" "frac_inv y"
  shows "(\<forall>(op, f) \<in> {(frac_add, (+)), (frac_sub, (-)), (frac_mul, (*)), (frac_div, (/))}.
      op x y \<noteq> Undef \<and> (\<forall>z. op x y = Ret z \<longrightarrow> frac_inv z \<and> frac_val z = f (frac_val x) (frac_val y))) \<and>
    overflows (frac_mul x y) = (\<not> representable (frac_val x * frac_val y)) \<and>
    (frac_div x y = Throw (Domain_error ''division by zero fraction'')) = isZero y \<and>
    (\<forall>e. frac_add x y = Throw e \<or> frac_sub x y = Throw e \<or> frac_mul x y = Throw e \<or>
      (frac_div x y = Throw e \<and> \<not> isZero y) \<longrightarrow> (\<exists>msg. e = Overflow_error msg))"
proof (intro conjI)
  show "\<forall>(op, f) \<in> {(frac_add, (+)), (frac_sub, (-)), (frac_mul, (*)), (frac_div, (/))}.
      op x y \<noteq> Undef \<and> (\<forall>z. op x y = Ret z \<longrightarrow> frac_inv z \<and> frac_val z = f (frac_val x) (frac_val y))"
    by (simp add: add.op_defined [OF assms] add.op_inv [OF assms] add.op_value [OF assms]
      sub.op_defined [OF assms] sub.op_inv [OF assms] sub.op_value [OF assms]
      mul.op_defined [OF assms] mul.op_inv [OF assms] mul.op_value [OF assms]
      div.op_defined [OF assms] div.op_inv [OF assms] div.op_value [OF assms])
  show "overflows (frac_mul x y) = (\<not> representable (frac_val x * frac_val y))"
    using frac_mul_eq [OF assms] by (auto split: if_splits)
  show "(frac_div x y = Throw (Domain_error ''division by zero fraction'')) = isZero y"
    using frac_div_cases [OF assms] by (auto simp: isZero_def overflows_throw split: if_splits)
  show "\<forall>e. frac_add x y = Throw e \<or> frac_sub x y = Throw e \<or> frac_mul x y = Throw e \<or>
      (frac_div x y = Throw e \<and> \<not> isZero y) \<longrightarrow> (\<exists>msg. e = Overflow_error msg)"
    using frac_add_cases [OF assms] frac_sub_cases [OF assms] frac_mul_eq [OF assms] frac_div_cases [OF assms]
    unfolding overflows_throw isZero_def by (metis outcome.distinct(1) outcome.inject(2))
qed

theorem fraction_arithmetic_exact_witness:
  "\<exists>z. frac_mul \<lparr>f_num = 2, f_den = 3\<rparr> \<lparr>f_num = -9, f_den = 4\<rparr> = Ret z \<and> frac_val z = - 3 / 2"
proof -
  have i: "frac_inv \<lparr>f_num = 2, f_den = 3\<rparr>" "frac_inv \<lparr>f_num = -9, f_den = 4\<rparr>"
    by code_simp+
  have "frac_mul \<lparr>f_num = 2, f_den = 3\<rparr> \<lparr>f_num = -9, f_den = 4\<rparr> = Ret \<lparr>f_num = -3, f_den = 2\<rparr>"
    by code_simp
  with fraction_arithmetic_exact [OF i] show ?thesis by (simp add: frac_val_def)
qed


text \<open>The three-way comparison always returns (its continued-fraction loop ends and never divides
  by zero) and gives the order of the rational values, without forming a product that could
  overflow; \<^verbatim>\<open>operator==\<close> holds exactly for equal values.\<close>

theorem fraction_compare_correct:
  assumes "frac_inv x" "frac_inv y"
  shows "frac_compare x y = Ret (if frac_val x < frac_val y then Less
      else if frac_val x = frac_val y then Equal else Greater) \<and>
    frac_eq x y = (frac_val x = frac_val y)"
proof -
  have "frac_eq x y \<longleftrightarrow> x = y" by (auto simp: frac_eq_def intro: Fraction.equality)
  then show ?thesis using frac_compare_eq [OF assms] frac_val_inj [OF assms] by (auto simp: ord_of_def)
qed

theorem fraction_compare_correct_witness:
  "frac_compare \<lparr>f_num = 9223372036854775807, f_den = 9223372036854775806\<rparr>
     \<lparr>f_num = 9223372036854775806, f_den = 9223372036854775805\<rparr> = Ret Less"
proof -
  have i: "frac_inv \<lparr>f_num = 9223372036854775807, f_den = 9223372036854775806\<rparr>"
    "frac_inv \<lparr>f_num = 9223372036854775806, f_den = 9223372036854775805\<rparr>" by code_simp+
  show ?thesis using fraction_compare_correct [OF i] by (simp add: frac_val_def)
qed

text \<open>The two-argument constructor refuses a zero denominator; otherwise it returns the quotient
  in lowest terms with a positive denominator exactly when that has a representation, and throws
  \<^verbatim>\<open>std::overflow_error\<close> when it has not, with one exception: both arguments
  \<^verbatim>\<open>INT64_MIN\<close>, whose quotient 1 is refused.\<close>

theorem fraction_constructor:
  assumes "in_i64 n" "in_i64 d"
  shows "mk_Fraction n 0 = Throw (Invalid_argument ''denominator cannot be zero'') \<and>
    overflows (mk_Fraction i64_min i64_min) \<and>
    (d \<noteq> 0 \<and> (n, d) \<noteq> (i64_min, i64_min) \<longrightarrow>
      (if representable (of_int n / of_int d)
       then \<exists>f. mk_Fraction n d = Ret f \<and> frac_inv f \<and> frac_val f = of_int n / of_int d
       else overflows (mk_Fraction n d)))"
proof (intro conjI impI)
  show "mk_Fraction n 0 = Throw (Invalid_argument ''denominator cannot be zero'')"
    by (simp add: mk_Fraction_def normalize_def cpp_simps)
  show "overflows (mk_Fraction i64_min i64_min)"
    using normalize_min_min by (cases "normalize \<lparr>f_num = i64_min, f_den = i64_min\<rparr>") (simp add: mk_Fraction_def)
  assume "d \<noteq> 0 \<and> (n, d) \<noteq> (i64_min, i64_min)"
  then show "if representable (of_int n / of_int d)
       then \<exists>f. mk_Fraction n d = Ret f \<and> frac_inv f \<and> frac_val f = of_int n / of_int d
       else overflows (mk_Fraction n d)"
    using normalize_eq [OF assms] of_rational_inv [of "of_int n / of_int d"]
    by (cases "normalize \<lparr>f_num = n, f_den = d\<rparr>") (auto simp: mk_Fraction_def overflows_throw split: if_splits)
qed

theorem fraction_constructor_witness:
  "\<exists>f. mk_Fraction 6 (-4) = Ret f \<and> frac_inv f \<and> frac_val f = of_int 6 / of_int (-4)"
proof -
  have i: "in_i64 6" "in_i64 (-4)" "representable (of_int 6 / of_int (-4))" by code_simp+
  show ?thesis using fraction_constructor [OF i(1,2)] i(3) by (simp add: i64_min_def)
qed

text \<open>\<^verbatim>\<open>safeAdd\<close>, \<^verbatim>\<open>safeMul\<close> and \<^verbatim>\<open>safeNegate\<close> return the exact result exactly when it is
  in the range of \<^verbatim>\<open>int64_t\<close> and otherwise throw \<^verbatim>\<open>std::overflow_error\<close>, and their own checks never
  overflow; \<^verbatim>\<open>safeSub\<close> does so unless it subtracts \<^verbatim>\<open>INT64_MIN\<close>, which it always refuses.\<close>

theorem checked_arithmetic:
  assumes "in_i64 a" "in_i64 b"
  shows "(\<forall>(op, r) \<in> {(safeAdd a b, a + b), (safeMul a b, a * b), (safeNegate a, - a)}.
      if in_i64 r then op = Ret r else overflows op) \<and>
    (if in_i64 (a - b) \<and> b \<noteq> i64_min then safeSub a b = Ret (a - b) else overflows (safeSub a b))"
  by (simp add: safeAdd_eq [OF assms] safeMul_eq [OF assms] safeNegate_eq [OF assms(1)] safeSub_eq [OF assms])

theorem checked_arithmetic_witness:
  "overflows (safeMul 3037000500 3037000500) \<and> safeMul 3037000499 3037000499 = Ret (3037000499 * 3037000499)"
  using checked_arithmetic [of 3037000500 3037000500] checked_arithmetic [of 3037000499 3037000499]
  by (simp add: i64_defs)

text \<open>The sum of any list of fractions, taken with \<^verbatim>\<open>operator+\<close> from the left, is exact if no
  step overflows, and no step is undefined.\<close>

theorem fraction_sum_exact:
  assumes "\<forall>y \<in> set ys. frac_inv y"
  shows "fold (\<lambda>y r. obind r (\<lambda>x. frac_add x y)) ys (Ret Fraction_default) \<noteq> Undef \<and>
    (\<forall>z. fold (\<lambda>y r. obind r (\<lambda>x. frac_add x y)) ys (Ret Fraction_default) = Ret z \<longrightarrow>
      frac_inv z \<and> frac_val z = sum_list (map frac_val ys))"
proof -
  have d: "frac_inv Fraction_default" "frac_val Fraction_default = 0"
    by (simp_all add: frac_inv_def Fraction_default_def frac_val_def i64_defs)
  have "fold (\<lambda>y r. r + frac_val y) ys a = a + sum_list (map frac_val ys)" for a
    by (induction ys arbitrary: a) simp_all
  with add.fold_exact [OF d(1) assms] show ?thesis by (simp add: d(2))
qed

theorem fraction_sum_exact_witness:
  "\<exists>z. fold (\<lambda>y r. obind r (\<lambda>x. frac_add x y)) [\<lparr>f_num = 1, f_den = 2\<rparr>, \<lparr>f_num = 1, f_den = 3\<rparr>, \<lparr>f_num = 1, f_den = 6\<rparr>]
      (Ret Fraction_default) = Ret z \<and> frac_val z = 1"
proof -
  have i: "\<forall>y \<in> set [\<lparr>f_num = 1, f_den = 2\<rparr>, \<lparr>f_num = 1, f_den = 3\<rparr>, \<lparr>f_num = 1, f_den = 6\<rparr>]. frac_inv y"
    by code_simp
  have "fold (\<lambda>y r. obind r (\<lambda>x. frac_add x y)) [\<lparr>f_num = 1, f_den = 2\<rparr>, \<lparr>f_num = 1, f_den = 3\<rparr>, \<lparr>f_num = 1, f_den = 6\<rparr>]
      (Ret Fraction_default) = Ret \<lparr>f_num = 1, f_den = 1\<rparr>" by code_simp
  with fraction_sum_exact [OF i] show ?thesis by (simp add: frac_val_def)
qed

text \<open>\<^verbatim>\<open>operator*=\<close> is not atomic: multiplying 1 / (3 * 2^40) by 9 / 2^41 throws
  \<^verbatim>\<open>std::overflow_error\<close> after the numerator was assigned, and leaves 3 / (3 * 2^40), which is
  neither the old value nor in normal form; compared with the equal fraction 1 / 2^40 it is unequal
  under \<^verbatim>\<open>operator==\<close>.\<close>

theorem mul_assign_not_atomic:
  "frac_inv \<lparr>f_num = 1, f_den = 3 * 2 ^ 40\<rparr> \<and> frac_inv \<lparr>f_num = 9, f_den = 2 ^ 41\<rparr> \<and>
   mul_assign \<lparr>f_num = 9, f_den = 2 ^ 41\<rparr> \<lparr>f_num = 1, f_den = 3 * 2 ^ 40\<rparr> =
     (Throw (Overflow_error ''integer overflow on mul''), \<lparr>f_num = 3, f_den = 3 * 2 ^ 40\<rparr>) \<and>
   \<not> frac_inv \<lparr>f_num = 3, f_den = 3 * 2 ^ 40\<rparr> \<and>
   \<not> frac_eq \<lparr>f_num = 3, f_den = 3 * 2 ^ 40\<rparr> \<lparr>f_num = 1, f_den = 2 ^ 40\<rparr> \<and>
   frac_compare \<lparr>f_num = 3, f_den = 3 * 2 ^ 40\<rparr> \<lparr>f_num = 1, f_den = 2 ^ 40\<rparr> = Ret Equal"
proof (intro conjI)
  show "frac_inv \<lparr>f_num = 1, f_den = 3 * 2 ^ 40\<rparr>" "frac_inv \<lparr>f_num = 9, f_den = 2 ^ 41\<rparr>"
    "\<not> frac_inv \<lparr>f_num = 3, f_den = 3 * 2 ^ 40\<rparr>"
    by (simp_all add: frac_inv_def i64_defs coprime_iff_gcd_eq_1 gcd_non_0_int)
  show "\<not> frac_eq \<lparr>f_num = 3, f_den = 3 * 2 ^ 40\<rparr> \<lparr>f_num = 1, f_den = 2 ^ 40\<rparr>"
    by (simp add: frac_eq_def)
  show "frac_compare \<lparr>f_num = 3, f_den = 3 * 2 ^ 40\<rparr> \<lparr>f_num = 1, f_den = 2 ^ 40\<rparr> = Ret Equal"
    by (simp add: frac_compare_def compareUnsignedFractions_eq absToUint64_def ord_of_def)
  have "safeCastU64ToI64 (gcdU64 (absToUint64 9) (absToUint64 (3 * 2 ^ 40))) = Ret (gcd 9 (3 * 2 ^ 40))"
    "safeCastU64ToI64 (gcdU64 (absToUint64 1) (absToUint64 (2 ^ 41))) = Ret (gcd 1 (2 ^ 41))"
    by (rule cast_gcd; simp add: i64_defs)+
  then show "mul_assign \<lparr>f_num = 9, f_den = 2 ^ 41\<rparr> \<lparr>f_num = 1, f_den = 3 * 2 ^ 40\<rparr> =
     (Throw (Overflow_error ''integer overflow on mul''), \<lparr>f_num = 3, f_den = 3 * 2 ^ 40\<rparr>)"
    by (simp add: mul_assign_def cpp_simps gcd_non_0_int i64_div_def i64_def i64_defs signed_divide_int_def
      assign_products_def safeMul_def)
qed

end
