(* ===== verification/TimerWheel.thy ===== *)
theory TimerWheel
  imports Prelude
begin

text \<open>
  \<^verbatim>\<open>dbase::time::TimerMgr\<close> (\<^verbatim>\<open>code/src/time/timer_wheel.cpp\<close>): five wheels of slots, each slot a list of
  timers. A timer is a number; the fields \<^verbatim>\<open>pOwner\<close> and \<^verbatim>\<open>timeout_\<close> of its node are \<open>tm_owner\<close> (wheel and slot)
  and \<open>tm_timeout\<close>. \<^verbatim>\<open>uint32_t\<close> values are natural numbers below \<open>2 ^ 32\<close> with the wrap-around of
  subtraction and of the cast written out. The clock \<^verbatim>\<open>getNow()\<close> is an argument. \<open>tm_steps\<close> and
  \<open>tm_fired\<close> record the steps since the wheels were reset and the calls of \<^verbatim>\<open>onTimeOut\<close> with the step they came in.
\<close>

section \<open>State and operations\<close>

definition WHEEL_CNT :: nat where "WHEEL_CNT = 5"
definition ELEMENT_CNT_PER_WHEEL :: "nat list" where "ELEMENT_CNT_PER_WHEEL = [256, 64, 64, 64, 64]"
definition RIGHT_SHIFT_PER_WHEEL :: "nat list" where "RIGHT_SHIFT_PER_WHEEL = [8, 6, 6, 6, 6]"
definition BASE_TICK_PER_WHEEL :: "nat list" where
  "BASE_TICK_PER_WHEEL = [1, 256, 256 * 64, 256 * 64 * 64, 256 * 64 * 64 * 64]"

abbreviation "CNT w \<equiv> ELEMENT_CNT_PER_WHEEL ! w"
abbreviation "BASE w \<equiv> BASE_TICK_PER_WHEEL ! w"

record TimerMgr =
  tm_cur :: "nat \<Rightarrow> nat"
  tm_list :: "nat \<Rightarrow> nat \<Rightarrow> nat list"
  tm_owner :: "nat \<Rightarrow> (nat \<times> nat) option"
  tm_timeout :: "nat \<Rightarrow> nat"
  tm_isMs :: bool
  tm_last :: nat
  tm_steps :: nat
  tm_fired :: "(nat \<times> nat) list"

definition mk_TimerMgr :: TimerMgr where
  "mk_TimerMgr = \<lparr>tm_cur = (\<lambda>_. 0), tm_list = (\<lambda>_ _. []), tm_owner = (\<lambda>_. None), tm_timeout = (\<lambda>_. 0),
     tm_isMs = False, tm_last = 0, tm_steps = 0, tm_fired = []\<rparr>"

definition u32_sub :: "nat \<Rightarrow> nat \<Rightarrow> nat" where
  "u32_sub a b = (a + 2 ^ 32 - b mod 2 ^ 32) mod 2 ^ 32"

text \<open>\<^verbatim>\<open>DoubleLink::Push\<close> and \<^verbatim>\<open>DoubleLink::Remove\<close> on the list of a wheel's slot.\<close>

definition push :: "nat \<Rightarrow> nat \<Rightarrow> nat \<Rightarrow> TimerMgr \<Rightarrow> TimerMgr" where
  "push w s t m =
     (if tm_owner m t \<noteq> None then m
      else m\<lparr>tm_list := (tm_list m)(w := (tm_list m w)(s := tm_list m w s @ [t])),
             tm_owner := (tm_owner m)(t := Some (w, s))\<rparr>)"

definition unlink :: "nat \<Rightarrow> TimerMgr \<Rightarrow> TimerMgr" where
  "unlink t m =
     (case tm_owner m t of
        None \<Rightarrow> m
      | Some (w, s) \<Rightarrow> m\<lparr>tm_list := (tm_list m)(w := (tm_list m w)(s := remove1 t (tm_list m w s))),
                         tm_owner := (tm_owner m)(t := None)\<rparr>)"

definition isRegistered :: "nat \<Rightarrow> TimerMgr \<Rightarrow> bool" where
  "isRegistered t m \<longleftrightarrow> tm_owner m t \<noteq> None"

definition unRegisterTimer :: "nat \<Rightarrow> TimerMgr \<Rightarrow> int \<times> TimerMgr" where
  "unRegisterTimer t m = (if \<not> isRegistered t m then (-1, m) else (0, unlink t m))"

text \<open>The loop of \<^verbatim>\<open>registerTimer\<close> that finds the wheel.\<close>

function place :: "(nat \<Rightarrow> nat) \<Rightarrow> nat \<Rightarrow> nat \<Rightarrow> nat \<Rightarrow> nat \<times> nat \<times> nat" where
  "place cur w offset left =
     (if w + 1 < WHEEL_CNT \<and> offset \<ge> CNT w
      then place cur (w + 1) (offset div 2 ^ (RIGHT_SHIFT_PER_WHEEL ! w))
             (u32_sub left (BASE w * (CNT w - cur w - (if w = 0 then 0 else 1))))
      else (w, offset, left))"
  by pat_completeness auto
termination
  by (relation "measure (\<lambda>(_, w, _, _). WHEEL_CNT - w)") auto

declare place.simps [simp del]

text \<open>How far the manager lags behind the clock.\<close>

definition lag :: "nat \<Rightarrow> TimerMgr \<Rightarrow> nat" where
  "lag now m = (if tm_last m > 0 \<and> now > tm_last m then now - tm_last m else 0)"

definition registerTimer :: "nat \<Rightarrow> nat \<Rightarrow> nat \<Rightarrow> TimerMgr \<Rightarrow> TimerMgr" where
  "registerTimer now t timeout m =
     (let m = (if isRegistered t m then snd (unRegisterTimer t m) else m);
          timeout = (lag now m + timeout) mod 2 ^ 32;
          timeout = (if timeout = 0 then 1 else timeout);
          (w, offset, left) = place (tm_cur m) 0 timeout timeout;
          left = u32_sub left (BASE w * (offset - 1));
          slot = (offset + tm_cur m w) mod CNT w
      in push w slot t (m\<lparr>tm_timeout := (tm_timeout m)(t := left)\<rparr>))"

text \<open>
  \<^verbatim>\<open>step\<close>: the inner loop pops timers from the current slot until it is empty; \<open>onTimeOut\<close> is the
  parameter \<open>user\<close>. No call in the loop pushes to the current slot, so its length is enough fuel.
\<close>

type_synonym timer_user = "nat \<Rightarrow> TimerMgr \<Rightarrow> TimerMgr"

definition onTimeOut :: "timer_user \<Rightarrow> nat \<Rightarrow> TimerMgr \<Rightarrow> TimerMgr" where
  "onTimeOut user t m = user t (m\<lparr>tm_fired := tm_fired m @ [(t, tm_steps m)]\<rparr>)"

primrec drain_slot :: "nat \<Rightarrow> timer_user \<Rightarrow> nat \<Rightarrow> nat \<Rightarrow> nat \<Rightarrow> TimerMgr \<Rightarrow> TimerMgr option" where
  "drain_slot 0 user now w s m = (if tm_list m w s = [] then Some m else None)"
| "drain_slot (Suc fuel) user now w s m =
     (case tm_list m w s of
        [] \<Rightarrow> Some m
      | t # _ \<Rightarrow>
          let m = unlink t m
          in drain_slot fuel user now w s
               (if w = 0 \<or> tm_timeout m t = 0 then onTimeOut user t m
                else registerTimer now t (tm_timeout m t) m))"

function step_wheels :: "timer_user \<Rightarrow> nat \<Rightarrow> nat \<Rightarrow> TimerMgr \<Rightarrow> TimerMgr option" where
  "step_wheels user now w m =
     (if w \<ge> WHEEL_CNT then Some m
      else let c = (tm_cur m w + 1) mod CNT w;
               m = m\<lparr>tm_cur := (tm_cur m)(w := c)\<rparr>
           in case drain_slot (length (tm_list m w c)) user now w c m of
                None \<Rightarrow> None
              | Some m \<Rightarrow> if tm_cur m w \<noteq> 0 then Some m else step_wheels user now (w + 1) m)"
  by pat_completeness auto
termination
  by (relation "measure (\<lambda>(_, _, w, _). WHEEL_CNT - w)") auto

declare step_wheels.simps [simp del]

definition step :: "timer_user \<Rightarrow> nat \<Rightarrow> TimerMgr \<Rightarrow> TimerMgr option" where
  "step user now m = step_wheels user now 0 (m\<lparr>tm_steps := tm_steps m + 1\<rparr>)"

text \<open>\<^verbatim>\<open>tickInternal\<close>: as many steps as the clock is ahead.\<close>

primrec tick_loop :: "nat \<Rightarrow> timer_user \<Rightarrow> nat \<Rightarrow> TimerMgr \<Rightarrow> TimerMgr option" where
  "tick_loop 0 user now m = Some m"
| "tick_loop (Suc count) user now m =
     (case step user now (m\<lparr>tm_last := tm_last m + 1\<rparr>) of
        None \<Rightarrow> None
      | Some m \<Rightarrow> tick_loop count user now m)"

definition tickInternal :: "timer_user \<Rightarrow> nat \<Rightarrow> TimerMgr \<Rightarrow> TimerMgr option" where
  "tickInternal user cur_tick m =
     (if cur_tick \<le> tm_last m then Some m else tick_loop (cur_tick - tm_last m) user cur_tick m)"

definition resetWheels :: "TimerMgr \<Rightarrow> TimerMgr" where
  "resetWheels m = m\<lparr>tm_cur := (\<lambda>_. 0), tm_steps := 0\<rparr>"

definition initTick :: "bool \<Rightarrow> nat \<Rightarrow> TimerMgr \<Rightarrow> TimerMgr" where
  "initTick ms now m = resetWheels (m\<lparr>tm_isMs := ms, tm_last := now\<rparr>)"

definition clear_wheels :: "TimerMgr \<Rightarrow> TimerMgr" where
  "clear_wheels m = m\<lparr>tm_list := (\<lambda>_ _. []), tm_owner := (\<lambda>_. None), tm_cur := (\<lambda>_. 0), tm_steps := 0\<rparr>"

definition silent :: timer_user where
  "silent t m = m"

section \<open>The arithmetic of the wheels\<close>

lemma wheel_cases: "w < WHEEL_CNT \<Longrightarrow> w = 0 \<or> w = 1 \<or> w = 2 \<or> w = 3 \<or> w = 4"
  by (auto simp: WHEEL_CNT_def)

lemmas wheel_consts = WHEEL_CNT_def ELEMENT_CNT_PER_WHEEL_def BASE_TICK_PER_WHEEL_def RIGHT_SHIFT_PER_WHEEL_def

lemma BASE_0 [simp]: "BASE 0 = 1" and CNT_0 [simp]: "CNT 0 = 256"
  by (simp_all add: wheel_consts)

lemma BASE_Suc: "w + 1 < WHEEL_CNT \<Longrightarrow> BASE (w + 1) = BASE w * CNT w"
  using wheel_cases [of w] by (auto simp: wheel_consts)

lemma CNT_shift: "w < WHEEL_CNT \<Longrightarrow> CNT w = 2 ^ (RIGHT_SHIFT_PER_WHEEL ! w)"
  using wheel_cases [of w] by (auto simp: wheel_consts)

lemma CNT_bounds: "w < WHEEL_CNT \<Longrightarrow> 2 \<le> CNT w" "w < WHEEL_CNT \<Longrightarrow> 0 < BASE w" "w < WHEEL_CNT \<Longrightarrow> w \<noteq> 0 \<Longrightarrow> CNT w = 64"
  "w < WHEEL_CNT \<Longrightarrow> BASE w * CNT w \<le> 2 ^ 32"
  using wheel_cases [of w] by (auto simp: wheel_consts)

lemma BASE_last: "t < 2 ^ 32 \<Longrightarrow> t div BASE 4 < CNT 4"
  by (simp add: wheel_consts) 

lemma u32_sub_ok: "b \<le> a \<Longrightarrow> a < 2 ^ 32 \<Longrightarrow> u32_sub a b = a - b"
  by (simp add: u32_sub_def mod_if)

text \<open>The digits of the time: what the wheels up to \<open>n\<close> point at after \<open>T\<close> steps.\<close>

definition digits_upto :: "nat \<Rightarrow> nat \<Rightarrow> (nat \<Rightarrow> nat) \<Rightarrow> bool" where
  "digits_upto n T cur \<longleftrightarrow> (\<forall>w < n. w < WHEEL_CNT \<longrightarrow> cur w = T div BASE w mod CNT w)"

text \<open>What is left when the wheels below \<open>w\<close> have been passed.\<close>

definition rest :: "nat \<Rightarrow> nat \<Rightarrow> nat \<Rightarrow> nat" where
  "rest T w t = t - (if w = 0 then 0 else BASE w - T mod BASE w)"

lemma rest_Suc:
  assumes "w + 1 < WHEEL_CNT" "CNT w \<le> t div BASE w" "cur w = T div BASE w mod CNT w" "t < 2 ^ 32"
  shows "u32_sub (rest T w t) (BASE w * (CNT w - cur w - (if w = 0 then 0 else 1))) = rest T (w + 1) t"
    "BASE (w + 1) \<le> t"
proof -
  have w: "w < WHEEL_CNT" using assms(1) by simp
  let ?B = "BASE w" and ?C = "CNT w" and ?c = "cur w"
  have pos: "0 < ?B" "2 \<le> ?C" using CNT_bounds [OF w] by simp_all
  have t: "?B * ?C \<le> t"
  proof -
    have "?C * ?B \<le> t div ?B * ?B" using assms(2) by (rule mult_le_mono1)
    also have "\<dots> \<le> t" by simp
    finally show ?thesis by (simp add: mult.commute)
  qed
  then show "BASE (w + 1) \<le> t" using BASE_Suc [OF assms(1)] by simp
  have c: "?c < ?C" using assms(3) pos by simp
  have m: "T mod (?B * ?C) = T mod ?B + ?B * ?c" unfolding assms(3) by (simp add: mod_mult2_eq)
  have lt: "T mod ?B < ?B" using pos by simp
  have le: "T mod ?B + ?B * ?c < ?B * ?C" using mod_less_divisor [of "?B * ?C" T] pos m by simp
  have e: "?B * (?C - ?c) = ?B * ?C - ?B * ?c" by (simp add: diff_mult_distrib2)
  show "u32_sub (rest T w t) (?B * (?C - ?c - (if w = 0 then 0 else 1))) = rest T (w + 1) t"
  proof (cases "w = 0")
    case True
    then show ?thesis using t le m e BASE_Suc [OF assms(1)] assms(4) by (simp add: rest_def u32_sub_ok)
  next
    case False
    have e1: "?B * (?C - ?c - 1) = ?B * ?C - ?B * ?c - ?B" by (simp add: diff_mult_distrib2)
    have "1 \<le> ?C - ?c" using c by simp
    then have "?B * 1 \<le> ?B * (?C - ?c)" by (rule mult_le_mono2)
    then have b1: "?B \<le> ?B * ?C - ?B * ?c" using e by simp
    have r: "rest T w t = t - (?B - T mod ?B)" using False by (simp add: rest_def)
    have g: "t - (?B - T mod ?B) - (?B * ?C - ?B * ?c - ?B) = t - (?B * ?C - (T mod ?B + ?B * ?c))"
      using t lt b1 le by linarith
    have "?B * ?C - ?B * ?c - ?B \<le> t - (?B - T mod ?B)" "t - (?B - T mod ?B) < 2 ^ 32"
      using t lt b1 assms(4) by linarith+
    then have "u32_sub (t - (?B - T mod ?B)) (?B * (?C - ?c - 1)) = t - (?B * ?C - (T mod ?B + ?B * ?c))"
      unfolding e1 using g by (subst u32_sub_ok) simp_all
    then show ?thesis using False r BASE_Suc [OF assms(1)] m by (simp add: rest_def)
  qed
qed

lemma place_ok:
  assumes "digits_upto n T cur" "0 < t" "t < 2 ^ 32" "w < n" "n \<le> WHEEL_CNT"
    and "w = 0 \<or> BASE w \<le> t" "n < WHEEL_CNT \<longrightarrow> t < BASE n"
  shows "\<exists>k < n. place cur w (t div BASE w) (rest T w t) = (k, t div BASE k, rest T k t) \<and>
    (k = 0 \<or> BASE k \<le> t) \<and> t div BASE k < CNT k"
  using assms(4,6)
proof (induction "n - w" arbitrary: w rule: less_induct)
  case less
  have w: "w < WHEEL_CNT" using less.prems(1) assms(5) by simp
  show ?case
  proof (cases "w + 1 < WHEEL_CNT \<and> CNT w \<le> t div BASE w")
    case True
    have cur: "cur w = T div BASE w mod CNT w" using assms(1) less.prems(1) w by (simp add: digits_upto_def)
    note r = rest_Suc [of w t cur T, OF _ _ cur assms(3)]
    have "w + 1 < n"
    proof (rule ccontr)
      assume "\<not> w + 1 < n"
      then have "n = w + 1" using less.prems(1) by simp
      then show False using r(2) True assms(7) by simp
    qed
    moreover have "t div BASE w div 2 ^ (RIGHT_SHIFT_PER_WHEEL ! w) = t div BASE (w + 1)"
      using CNT_shift [OF w] BASE_Suc [of w] True by (simp add: div_mult2_eq)
    ultimately show ?thesis using less.hyps [of "w + 1"] True r less.prems(1)
      by (subst place.simps) simp
  next
    case False
    have "t div BASE w < CNT w"
    proof (cases "w + 1 < WHEEL_CNT")
      case True
      then show ?thesis using False by simp
    next
      case no: False
      then have "w = 4" using w by (simp add: WHEEL_CNT_def)
      then show ?thesis using BASE_last [OF assms(3)] by simp
    qed
    then show ?thesis using False less.prems by (subst place.simps) auto
  qed
qed


text \<open>
  A timer in a slot of wheel 0 fires when the wheel gets there. A timer in another wheel with timeout \<open>v\<close> is
  looked at when its wheel gets to the slot, at the time \<open>d - v\<close>, a multiple of the wheel's base, and fires
  \<open>v\<close> later, at \<open>d\<close>.
\<close>

definition slot_ok :: "nat \<Rightarrow> nat \<Rightarrow> nat \<Rightarrow> nat \<Rightarrow> nat \<Rightarrow> bool" where
  "slot_ok T w s v d \<longleftrightarrow>
     (if w = 0 then s = d mod CNT 0 \<and> T < d \<and> d < T + CNT 0
      else v \<le> d \<and> BASE w dvd (d - v) \<and> T div BASE w < (d - v) div BASE w \<and>
           (d - v) div BASE w < T div BASE w + CNT w \<and> s = (d - v) div BASE w mod CNT w \<and> v < 2 * BASE w)"

lemma slot_ok_later: "w < WHEEL_CNT \<Longrightarrow> slot_ok T w s v d \<Longrightarrow> T < d"
proof (cases "w = 0")
  case False
  assume "w < WHEEL_CNT" "slot_ok T w s v d"
  then have "T div BASE w < (d - v) div BASE w" using False by (simp add: slot_ok_def)
  then have "T < d - v" using div_le_mono by (metis leD leI)
  then show ?thesis by simp
qed (simp add: slot_ok_def)

lemma slot_ok_bound: "w < WHEEL_CNT \<Longrightarrow> slot_ok T w s v d \<Longrightarrow> s < CNT w"
  using CNT_bounds [of w] by (auto simp: slot_ok_def split: if_splits)

lemma placed_ok:
  assumes "digits_upto n T cur" "0 < t" "t < 2 ^ 32" "0 < n" "n \<le> WHEEL_CNT" "n < WHEEL_CNT \<longrightarrow> t < BASE n"
    and p: "place cur 0 t t = (k, off, left)"
  shows "k < n \<and> slot_ok T k ((off + cur k) mod CNT k) (u32_sub left (BASE k * (off - 1))) (T + t)"
proof -
  from place_ok [OF assms(1-5) _ assms(6)] p have k: "k < n" "off = t div BASE k" "left = rest T k t"
    "k = 0 \<or> BASE k \<le> t" "t div BASE k < CNT k" by (auto simp: rest_def)
  have kw: "k < WHEEL_CNT" using k(1) assms(5) by simp
  have cur: "cur k = T div BASE k mod CNT k" using assms(1) k(1) kw by (simp add: digits_upto_def)
  show ?thesis
  proof (cases "k = 0")
    case True
    then show ?thesis using k cur assms(2) by (auto simp: slot_ok_def mod_add_right_eq add.commute)
  next
    case False
    let ?B = "BASE k"
    have B: "0 < ?B" "?B \<le> t" using CNT_bounds(2) [OF kw] k(4) False by simp_all
    have off: "1 \<le> off" using B k(2) by (metis div_greater_zero_iff less_eq_Suc_le One_nat_def)
    have e1: "?B * (off - 1) = ?B * off - ?B" by (simp add: diff_mult_distrib2)
    have e2: "?B * off + t mod ?B = t" using k(2) by simp
    have e3: "T mod ?B < ?B" "t mod ?B < ?B" using B by simp_all
    have e4: "?B \<le> ?B * off" using off by simp
    have l: "left = t - (?B - T mod ?B)" using k(3) False by (simp add: rest_def)
    have "?B * (off - 1) \<le> left" "left < 2 ^ 32" using e1 e2 e3 e4 l assms(3) by linarith+
    then have v: "u32_sub left (?B * (off - 1)) = t mod ?B + T mod ?B"
      using e1 e2 e3 e4 l by (simp add: u32_sub_ok)
    have "T + t - (t mod ?B + T mod ?B) = ?B * (T div ?B) + ?B * off"
      using e2 mult_div_mod_eq [of ?B T] by linarith
    then have d: "T + t - (t mod ?B + T mod ?B) = ?B * (T div ?B + off)" by (simp add: distrib_left)
    have "t mod ?B + T mod ?B \<le> T + t" "t mod ?B + T mod ?B < 2 * ?B"
      using e3 mod_less_eq_dividend [of t ?B] mod_less_eq_dividend [of T ?B] by linarith+
    then show ?thesis using False k(1,2,5) cur v d off B
      by (simp add: slot_ok_def mod_add_right_eq add.commute)
  qed
qed

section \<open>The state of the manager\<close>

definition linked :: "TimerMgr \<Rightarrow> bool" where
  "linked m \<longleftrightarrow> (\<forall>t w s. t \<in> set (tm_list m w s) \<longleftrightarrow> tm_owner m t = Some (w, s)) \<and> (\<forall>w s. distinct (tm_list m w s))"

lemma push_linked: "linked m \<Longrightarrow> linked (push w s t m)"
  unfolding linked_def push_def by auto

lemma unlink_linked: "linked m \<Longrightarrow> linked (unlink t m)"
  unfolding linked_def unlink_def by (auto split: option.split)

text \<open>The wheels below \<open>n\<close> have already moved on to the time \<open>T + 1\<close>.\<close>

definition wheel_time :: "nat \<Rightarrow> nat \<Rightarrow> nat \<Rightarrow> nat" where
  "wheel_time n T w = (if w < n then T + 1 else T)"

definition cur_ok :: "nat \<Rightarrow> nat \<Rightarrow> TimerMgr \<Rightarrow> bool" where
  "cur_ok n T m \<longleftrightarrow> (\<forall>w < WHEEL_CNT. tm_cur m w = wheel_time n T w div BASE w mod CNT w)"

text \<open>The timer \<open>t\<close>, due at the step \<open>d\<close>, is in the right slot.\<close>

definition placed_right :: "nat \<Rightarrow> nat \<Rightarrow> nat \<Rightarrow> nat \<Rightarrow> (nat \<times> nat) set \<Rightarrow> TimerMgr \<Rightarrow> bool" where
  "placed_right t n T d X m \<longleftrightarrow> (\<forall>w s. tm_owner m t = Some (w, s) \<and> (w, s) \<notin> X \<longrightarrow>
     w < WHEEL_CNT \<and> slot_ok (wheel_time n T w) w s (tm_timeout m t) d)"

definition fired_of :: "nat \<Rightarrow> TimerMgr \<Rightarrow> (nat \<times> nat) list" where
  "fired_of t m = filter (\<lambda>(x, _). x = t) (tm_fired m)"

text \<open>From \<open>m\<close> to \<open>m'\<close>, the timer \<open>t\<close> was called back if it is not registered any more, at the time \<open>T\<close> it was due.\<close>

definition tracks :: "nat \<Rightarrow> nat \<Rightarrow> nat \<Rightarrow> TimerMgr \<Rightarrow> TimerMgr \<Rightarrow> bool" where
  "tracks t T d m m' \<longleftrightarrow> fired_of t m' = fired_of t m @ (if isRegistered t m \<and> \<not> isRegistered t m' then [(t, T)] else []) \<and>
     (isRegistered t m' \<longrightarrow> isRegistered t m) \<and> (isRegistered t m \<and> \<not> isRegistered t m' \<longrightarrow> d = T)"

lemma tracks_trans: "tracks t T d m1 m2 \<Longrightarrow> tracks t T d m2 m3 \<Longrightarrow> tracks t T d m1 m3"
  by (cases "isRegistered t m1"; cases "isRegistered t m2"; cases "isRegistered t m3"; simp add: tracks_def)

lemma tracks_same: "tm_fired m' = tm_fired m \<Longrightarrow> tm_owner m' = tm_owner m \<Longrightarrow> tracks t T d m m'"
  by (auto simp: tracks_def fired_of_def isRegistered_def)

text \<open>What operations on other timers leave alone: the wheels' positions, the timer \<open>t\<close>, and no timer is added to a slot that a wheel points at.\<close>

definition wheels_kept :: "TimerMgr \<Rightarrow> TimerMgr \<Rightarrow> bool" where
  "wheels_kept m m' \<longleftrightarrow> (linked m \<longrightarrow> linked m') \<and> tm_cur m' = tm_cur m \<and> tm_steps m' = tm_steps m \<and> tm_last m' = tm_last m \<and>
     (\<forall>w < WHEEL_CNT. length (tm_list m' w (tm_cur m w)) \<le> length (tm_list m w (tm_cur m w)))"

definition untouched :: "nat \<Rightarrow> TimerMgr \<Rightarrow> TimerMgr \<Rightarrow> bool" where
  "untouched t m m' \<longleftrightarrow> tm_owner m' t = tm_owner m t \<and> tm_timeout m' t = tm_timeout m t \<and> fired_of t m' = fired_of t m"

lemma frame_refl [simp]: "wheels_kept m m" "untouched t m m"
  by (simp_all add: wheels_kept_def untouched_def)

lemma frame_trans: "wheels_kept m1 m2 \<Longrightarrow> wheels_kept m2 m3 \<Longrightarrow> wheels_kept m1 m3"
  by (auto simp: wheels_kept_def intro: order_trans)

lemma untouched_trans: "untouched t m1 m2 \<Longrightarrow> untouched t m2 m3 \<Longrightarrow> untouched t m1 m3"
  by (simp add: untouched_def)

lemma untouched_ok:
  assumes "untouched t m m'"
  shows "placed_right t n T d X m' = placed_right t n T d X m" and "tracks t T d m m'" and "isRegistered t m' = isRegistered t m"
  using assms by (auto simp: untouched_def placed_right_def tracks_def isRegistered_def)

section \<open>Registering\<close>

lemma lag_cong: "tm_last m' = tm_last m \<Longrightarrow> lag now m' = lag now m"
  by (simp add: lag_def)

lemma unlink_simps [simp]:
  "tm_cur (unlink t m) = tm_cur m" "tm_timeout (unlink t m) = tm_timeout m" "tm_last (unlink t m) = tm_last m"
  "tm_steps (unlink t m) = tm_steps m" "tm_fired (unlink t m) = tm_fired m"
  "tm_owner (unlink t m) = (tm_owner m)(t := None)"
  by (auto simp: unlink_def split: option.split)

lemma unlink_absent: "tm_owner m t = None \<Longrightarrow> unlink t m = m"
  by (simp add: unlink_def)

lemma unlink_list:
  assumes "linked m" "tm_owner m t = Some (w, s)"
  shows "tm_list (unlink t m) w' s' = (if (w', s') = (w, s) then remove1 t (tm_list m w s) else tm_list m w' s')"
  using assms by (auto simp: unlink_def)

text \<open>\<^verbatim>\<open>registerTimer\<close> takes the timer out of its slot, if it is in one, and puts it into the slot for its
  timeout plus the lag of the manager.\<close>

lemma registerTimer_ok:
  fixes m :: TimerMgr
  assumes "linked m" "digits_upto n T (tm_cur m)" "0 < n" "n \<le> WHEEL_CNT"
    and v: "v = (if (lag now m + timeout) mod 2 ^ 32 = 0 then 1 else (lag now m + timeout) mod 2 ^ 32)" "n < WHEEL_CNT \<longrightarrow> v < BASE n"
  shows "\<exists>k s u. registerTimer now t timeout m =
      (unlink t m)\<lparr>tm_timeout := (tm_timeout m)(t := u),
         tm_list := (tm_list (unlink t m))(k := (tm_list (unlink t m) k)(s := tm_list (unlink t m) k s @ [t])),
         tm_owner := (tm_owner m)(t := Some (k, s))\<rparr> \<and>
    linked (registerTimer now t timeout m) \<and> k < n \<and> slot_ok T k s u (T + v)"
proof -
  have m1: "(if isRegistered t m then snd (unRegisterTimer t m) else m) = unlink t m"
    by (cases "tm_owner m t") (simp_all add: isRegistered_def unRegisterTimer_def unlink_absent)
  have l: "lag now (unlink t m) = lag now m" by (simp add: lag_def)
  obtain k off left where p: "place (tm_cur m) 0 v v = (k, off, left)" by (metis surj_pair)
  have vb: "0 < v" "v < 2 ^ 32" using v(1) by simp_all
  let ?s = "(off + tm_cur m k) mod CNT k" and ?u = "u32_sub left (BASE k * (off - 1))"
  have ok: "k < n \<and> slot_ok T k ?s ?u (T + v)" using placed_ok [OF assms(2) vb assms(3,4) v(2) p] .
  let ?m = "(unlink t m)\<lparr>tm_timeout := (tm_timeout m)(t := ?u)\<rparr>"
  have r: "registerTimer now t timeout m = push k ?s t ?m"
    unfolding registerTimer_def Let_def m1 l v(1) [symmetric] by (simp add: p)
  have "linked ?m" using unlink_linked [OF assms(1), of t] by (simp add: linked_def)
  then have "linked (registerTimer now t timeout m)" unfolding r by (rule push_linked)
  moreover have "push k ?s t ?m = (unlink t m)\<lparr>tm_timeout := (tm_timeout m)(t := ?u),
         tm_list := (tm_list (unlink t m))(k := (tm_list (unlink t m) k)(?s := tm_list (unlink t m) k ?s @ [t])),
         tm_owner := (tm_owner m)(t := Some (k, ?s))\<rparr>"
    by (simp add: push_def)
  ultimately show ?thesis using r ok by auto
qed

definition cur_bound :: "TimerMgr \<Rightarrow> bool" where
  "cur_bound m \<longleftrightarrow> (\<forall>w < WHEEL_CNT. tm_cur m w < CNT w)"

lemma place_bounds:
  "place cur w off left = (k, off', left') \<Longrightarrow> w < WHEEL_CNT \<Longrightarrow> 0 < off \<Longrightarrow> off < 2 ^ 32 div BASE w \<Longrightarrow>
     k < WHEEL_CNT \<and> 0 < off' \<and> off' < CNT k"
proof (induction cur w off left rule: place.induct)
  case (1 cur w off left)
  show ?case
  proof (cases "w + 1 < WHEEL_CNT \<and> CNT w \<le> off")
    case True
    have "0 < off div CNT w" using True CNT_bounds(1) [OF "1.prems"(2)] by (simp add: div_greater_zero_iff)
    moreover have "off div CNT w < 2 ^ 32 div BASE (w + 1)"
    proof -
      have "CNT w * (2 ^ 32 div (BASE w * CNT w)) = 2 ^ 32 div BASE w"
        using wheel_cases [OF "1.prems"(2)] True by (auto simp: wheel_consts)
      then show ?thesis using "1.prems"(4) True BASE_Suc [of w] CNT_bounds(1) [OF "1.prems"(2)]
        by (simp add: less_mult_imp_div_less mult.commute)
    qed
    ultimately show ?thesis using "1.IH" True "1.prems"(1) CNT_shift [OF "1.prems"(2)] by (simp add: place.simps [of cur w])
  next
    case False
    have "off < CNT w" using False "1.prems"(2,4) wheel_cases [OF "1.prems"(2)] by (auto simp: wheel_consts)
    then show ?thesis using "1.prems" False by (simp add: place.simps [of cur w])
  qed
qed

lemma slot_differs: "0 < off \<Longrightarrow> off < n \<Longrightarrow> c < n \<Longrightarrow> (off + c) mod n \<noteq> c" for off c n :: nat
  by (cases "off + c < n") (auto simp: mod_if)

lemma unlink_frame: "wheels_kept m (unlink x m)" "x \<noteq> t \<Longrightarrow> untouched t m (unlink x m)"
proof -
  have "length (tm_list (unlink x m) w s) \<le> length (tm_list m w s)" for w s
    by (auto simp: unlink_def length_remove1 split: option.split)
  then show "wheels_kept m (unlink x m)" using unlink_linked [of m x] by (simp add: wheels_kept_def)
  show "x \<noteq> t \<Longrightarrow> untouched t m (unlink x m)" by (simp add: untouched_def fired_of_def)
qed

lemma registerTimer_frame:
  assumes "cur_bound m"
  shows "wheels_kept m (registerTimer now x timeout m)" and "x \<noteq> t \<Longrightarrow> untouched t m (registerTimer now x timeout m)"
proof -
  have m1: "(if isRegistered x m then snd (unRegisterTimer x m) else m) = unlink x m"
    by (cases "tm_owner m x") (simp_all add: isRegistered_def unRegisterTimer_def unlink_absent)
  define v where "v = (if (lag now (unlink x m) + timeout) mod 2 ^ 32 = 0 then 1 else (lag now (unlink x m) + timeout) mod 2 ^ 32)"
  obtain k off left where p: "place (tm_cur m) 0 v v = (k, off, left)" by (metis surj_pair)
  have vb: "0 < v" "v < 2 ^ 32 div BASE 0" by (simp_all add: v_def)
  have k: "k < WHEEL_CNT" "0 < off" "off < CNT k" using place_bounds [OF p _ vb] by (simp_all add: WHEEL_CNT_def)
  define m2 where "m2 = (unlink x m)\<lparr>tm_timeout := (tm_timeout m)(x := u32_sub left (BASE k * (off - 1)))\<rparr>"
  let ?s = "(off + tm_cur m k) mod CNT k"
  have r: "registerTimer now x timeout m = push k ?s x m2"
    unfolding registerTimer_def Let_def m1 v_def [symmetric] m2_def by (simp add: p)
  have s: "?s \<noteq> tm_cur m k" using slot_differs k assms by (simp add: cur_bound_def)
  have "wheels_kept m m2" using unlink_frame(1) [of m x] by (simp add: m2_def wheels_kept_def linked_def)
  moreover have "wheels_kept m2 (push k ?s x m2)"
  proof -
    have "length (tm_list (push k ?s x m2) w (tm_cur m w)) \<le> length (tm_list m2 w (tm_cur m w))" for w using s by (auto simp: push_def)
    moreover have "tm_cur (push k ?s x m2) = tm_cur m2" "tm_steps (push k ?s x m2) = tm_steps m2" "tm_last (push k ?s x m2) = tm_last m2" "tm_cur m2 = tm_cur m"
      by (simp_all add: push_def m2_def)
    ultimately show ?thesis using push_linked [of m2 k ?s x] unfolding wheels_kept_def by metis
  qed
  ultimately show "wheels_kept m (registerTimer now x timeout m)" unfolding r by (rule frame_trans)
  show "x \<noteq> t \<Longrightarrow> untouched t m (registerTimer now x timeout m)"
    unfolding r by (simp add: untouched_def push_def m2_def fired_of_def)
qed

section \<open>Callbacks\<close>

text \<open>
  What programs ask of the manager: to register a timer, when the clock is \<open>ahead\<close> of the last tick, and to unregister one. A callback is a list of
  such calls, chosen from the timer and from the manager as it finds it.
\<close>

datatype timer_call = Call_register nat nat nat | Call_unregister nat

fun run_call :: "timer_call \<Rightarrow> TimerMgr \<Rightarrow> TimerMgr" where
  "run_call (Call_register x d ahead) m = registerTimer (tm_last m + ahead) x (d mod 2 ^ 32) m"
| "run_call (Call_unregister x) m = snd (unRegisterTimer x m)"

fun call_timer :: "timer_call \<Rightarrow> nat" where
  "call_timer (Call_register x d ahead) = x"
| "call_timer (Call_unregister x) = x"

definition calling :: "(nat \<Rightarrow> TimerMgr \<Rightarrow> timer_call list) \<Rightarrow> timer_user" where
  "calling P x m = fold run_call (P x m) m"

definition leaves :: "nat \<Rightarrow> (nat \<Rightarrow> TimerMgr \<Rightarrow> timer_call list) \<Rightarrow> bool" where
  "leaves t P \<longleftrightarrow> (\<forall>x m. \<forall>q \<in> set (P x m). call_timer q \<noteq> t)"

lemma run_call_frame:
  assumes "cur_bound m"
  shows "wheels_kept m (run_call q m)" and "call_timer q \<noteq> t \<Longrightarrow> untouched t m (run_call q m)"
  using registerTimer_frame [OF assms] unlink_frame by (cases q; auto simp: unRegisterTimer_def)+

lemma frame_bound: "wheels_kept m m' \<Longrightarrow> cur_bound m' = cur_bound m"
  by (simp add: wheels_kept_def cur_bound_def)

lemma calls_frame:
  assumes "cur_bound m"
  shows "wheels_kept m (fold run_call qs m)" and "\<forall>q \<in> set qs. call_timer q \<noteq> t \<Longrightarrow> untouched t m (fold run_call qs m)"
proof -
  show "wheels_kept m (fold run_call qs m)" using assms
  proof (induction qs arbitrary: m)
    case (Cons q qs)
    note f = run_call_frame(1) [OF Cons.prems, of q]
    show ?case using frame_trans [OF f Cons.IH] frame_bound [OF f] Cons.prems by simp
  qed simp
  show "untouched t m (fold run_call qs m)" if "\<forall>q \<in> set qs. call_timer q \<noteq> t" using that assms
  proof (induction qs arbitrary: m)
    case (Cons q qs)
    note f = run_call_frame [OF Cons.prems(2), of q]
    show ?case using untouched_trans [OF f(2) Cons.IH] frame_bound [OF f(1)] Cons.prems by simp
  qed simp
qed

text \<open>A callback, with the entry in the log of those called.\<close>

lemma onTimeOut_frame:
  assumes "cur_bound m"
  shows "wheels_kept m (onTimeOut (calling P) x m)"
    and "leaves t P \<Longrightarrow> tm_owner (onTimeOut (calling P) x m) t = tm_owner m t"
    and "leaves t P \<Longrightarrow> tm_timeout (onTimeOut (calling P) x m) t = tm_timeout m t"
    and "leaves t P \<Longrightarrow> fired_of t (onTimeOut (calling P) x m) = fired_of t m @ (if x = t then [(t, tm_steps m)] else [])"
proof -
  let ?m = "m\<lparr>tm_fired := tm_fired m @ [(x, tm_steps m)]\<rparr>"
  have b: "cur_bound ?m" using assms by (simp add: cur_bound_def)
  have "wheels_kept m ?m" by (simp add: wheels_kept_def linked_def)
  then show "wheels_kept m (onTimeOut (calling P) x m)"
    unfolding onTimeOut_def calling_def by (rule frame_trans) (rule calls_frame(1) [OF b])
  have u: "untouched t ?m (onTimeOut (calling P) x m)" if "leaves t P"
    unfolding onTimeOut_def calling_def by (rule calls_frame(2) [OF b]) (use that in \<open>simp add: leaves_def\<close>)
  show "leaves t P \<Longrightarrow> tm_owner (onTimeOut (calling P) x m) t = tm_owner m t"
    "leaves t P \<Longrightarrow> tm_timeout (onTimeOut (calling P) x m) t = tm_timeout m t"
    "leaves t P \<Longrightarrow> fired_of t (onTimeOut (calling P) x m) = fired_of t m @ (if x = t then [(t, tm_steps m)] else [])"
    using u by (auto simp: untouched_def fired_of_def)
qed

section \<open>One slot\<close>

text \<open>The timer \<open>t\<close>, if it is in the slot \<open>c\<close> that wheel \<open>w\<close> has just reached.\<close>

definition slot_due :: "nat \<Rightarrow> nat \<Rightarrow> nat \<Rightarrow> nat \<Rightarrow> nat \<Rightarrow> TimerMgr \<Rightarrow> bool" where
  "slot_due t T w c d m \<longleftrightarrow> (tm_owner m t = Some (w, c) \<longrightarrow>
     d = T + (if w = 0 then 0 else tm_timeout m t) \<and> (w = 0 \<or> tm_timeout m t < 2 * BASE w))"

lemma next_slot_differs:
  assumes "w < WHEEL_CNT" "slot_ok T w s u d"
  shows "s \<noteq> T div BASE w mod CNT w"
proof -
  have *: "x mod k \<noteq> y mod k" if "y < x" "x < y + k" for x y k :: nat
    using that by (metis add_diff_cancel_left' dvd_imp_le leD less_imp_add_positive mod_eq_dvd_iff_nat nat_add_left_cancel_less nat_less_le zero_less_diff)
  show ?thesis
  proof (cases "w = 0")
    case True
    then show ?thesis using assms(2) * [of T d 256] by (simp add: slot_ok_def)
  next
    case False
    then show ?thesis using assms(2) * [of "T div BASE w" "(d - u) div BASE w" "CNT w"] by (auto simp: slot_ok_def)
  qed
qed


text \<open>One turn of the loop, for the timer \<open>t\<close>.\<close>

lemma drain_turn:
  assumes "linked m" "w < WHEEL_CNT" "cur_bound m" "tm_list m w c = x # ts" "leaves t P" "lag now m = 0" "tm_steps m = T + 1"
    and "digits_upto (w + 1) (T + 1) (tm_cur m)" "c = (T + 1) div BASE w mod CNT w"
    and "placed_right t (w + 1) T d {(w, c)} m" "slot_due t (T + 1) w c d m"
    and m2: "m2 = (if w = 0 \<or> tm_timeout m x = 0 then onTimeOut (calling P) x (unlink x m) else registerTimer now x (tm_timeout m x) (unlink x m))"
  shows "placed_right t (w + 1) T d {(w, c)} m2 \<and> slot_due t (T + 1) w c d m2 \<and> tracks t (T + 1) d m m2"
proof -
  let ?m1 = "unlink x m"
  have own: "tm_owner m x = Some (w, c)" using assms(1,4) by (metis linked_def list.set_intros(1))
  have b1: "cur_bound ?m1" using assms(3) frame_bound [OF unlink_frame(1)] by blast
  show ?thesis
  proof (cases "x = t")
    case False
    have "untouched t ?m1 m2" using False onTimeOut_frame(2-4) [OF b1 assms(5)] registerTimer_frame(2) [OF b1] m2 by (auto simp: untouched_def)
    then have u: "untouched t m m2" using untouched_trans [OF unlink_frame(2) [OF False]] by blast
    then show ?thesis using untouched_ok [OF u] assms(10,11) by (simp add: slot_due_def untouched_def)
  next
    case x: True
    show ?thesis
    proof (cases "w = 0 \<or> tm_timeout m t = 0")
      case True
      then have "tm_owner m2 t = None" "fired_of t m2 = fired_of t m @ [(t, T + 1)]"
        using onTimeOut_frame(2-4) [OF b1 assms(5), of x] m2 x assms(7) by (simp_all add: fired_of_def)
      then show ?thesis using True own x assms(11) by (auto simp: placed_right_def slot_due_def tracks_def isRegistered_def)
    next
      case False
      let ?v = "tm_timeout m t"
      have td: "d = T + 1 + ?v" "?v < 2 * BASE w" using assms(11) own x False by (auto simp: slot_due_def)
      have "2 * BASE w \<le> BASE w * CNT w" using CNT_bounds(1) [OF assms(2)] by simp
      then have vb2: "?v < BASE w * CNT w" using td(2) by linarith
      then have v32: "?v < 2 ^ 32" using CNT_bounds(4) [OF assms(2)] by linarith
      have lg: "lag now ?m1 = 0" using assms(6) lag_cong [of ?m1 m now] by simp
      have vv: "?v = (if (lag now ?m1 + ?v) mod 2 ^ 32 = 0 then 1 else (lag now ?m1 + ?v) mod 2 ^ 32)"
        using lg v32 False by simp
      have lk: "linked ?m1" by (rule unlink_linked [OF assms(1)])
      have "w + 1 < WHEEL_CNT \<longrightarrow> ?v < BASE (w + 1)" using vb2 BASE_Suc by simp
      from registerTimer_ok [OF lk _ _ _ vv this, of "T + 1" t] assms(2,8)
      obtain k s u where r: "registerTimer now t ?v ?m1 =
        (unlink t ?m1)\<lparr>tm_timeout := (tm_timeout ?m1)(t := u),
           tm_list := (tm_list (unlink t ?m1))(k := (tm_list (unlink t ?m1) k)(s := tm_list (unlink t ?m1) k s @ [t])),
           tm_owner := (tm_owner ?m1)(t := Some (k, s))\<rparr>" "k < w + 1" "slot_ok (T + 1) k s u (T + 1 + ?v)" by auto
      have m2r: "m2 = registerTimer now t ?v ?m1" using False m2 x by simp
      have kw: "k < WHEEL_CNT" using r(2) assms(2) by simp
      have "(k, s) \<noteq> (w, c)" using next_slot_differs [OF kw r(3)] assms(9) by auto
      moreover have "tm_owner m2 t = Some (k, s)" "tm_timeout m2 t = u" "fired_of t m2 = fired_of t m" using r(1) m2r by (simp_all add: fired_of_def)
      ultimately show ?thesis using r(2,3) kw td(1) own x by (auto simp: placed_right_def slot_due_def tracks_def isRegistered_def wheel_time_def)
    qed
  qed
qed

text \<open>The whole loop ends with any callbacks, and the timer \<open>t\<close> is in the right slot or was called.\<close>

lemma drain_slot_ok:
  assumes "linked m" "w < WHEEL_CNT" "cur_bound m" "c = tm_cur m w" "length (tm_list m w c) \<le> fuel"
  shows "\<exists>m'. drain_slot fuel (calling P) now w c m = Some m' \<and> wheels_kept m m' \<and>
    (leaves t P \<and> lag now m = 0 \<and> tm_steps m = T + 1 \<and> digits_upto (w + 1) (T + 1) (tm_cur m) \<and> placed_right t (w + 1) T d {(w, c)} m \<and> slot_due t (T + 1) w c d m
      \<longrightarrow> placed_right t (w + 1) T d {} m' \<and> tracks t (T + 1) d m m')"
  using assms(1,3-)
proof (induction fuel arbitrary: m)
  case 0
  then have "tm_owner m t \<noteq> Some (w, c)" by (metis le_zero_eq length_0_conv linked_def list.set(1) empty_iff)
  then show ?case using 0 by (auto simp: placed_right_def tracks_def)
next
  case (Suc fuel)
  show ?case
  proof (cases "tm_list m w c")
    case Nil
    then have "tm_owner m t \<noteq> Some (w, c)" using Suc.prems(1) by (metis linked_def list.set(1) empty_iff)
    then show ?thesis using Nil by (auto simp: placed_right_def tracks_def)
  next
    case (Cons x ts)
    have own: "tm_owner m x = Some (w, c)" using Suc.prems(1) Cons by (metis linked_def list.set_intros(1))
    let ?m1 = "unlink x m"
    have b1: "cur_bound ?m1" using Suc.prems(2) frame_bound [OF unlink_frame(1)] by blast
    define m2 where "m2 = (if w = 0 \<or> tm_timeout m x = 0 then onTimeOut (calling P) x ?m1 else registerTimer now x (tm_timeout m x) ?m1)"
    have step: "drain_slot (Suc fuel) (calling P) now w c m = drain_slot fuel (calling P) now w c m2" using Cons by (simp add: m2_def Let_def)
    have f2: "wheels_kept ?m1 m2" using onTimeOut_frame(1) [OF b1] registerTimer_frame(1) [OF b1] by (simp add: m2_def)
    then have "length (tm_list m2 w c) \<le> length (tm_list ?m1 w c)" using assms(2) Suc.prems(3) by (simp add: wheels_kept_def)
    then have len: "length (tm_list m2 w c) \<le> fuel" using unlink_list [OF Suc.prems(1) own] Cons Suc.prems(4) by simp
    have f: "wheels_kept m m2" using frame_trans [OF unlink_frame(1) f2] .
    have l2: "linked m2" "cur_bound m2" "c = tm_cur m2 w" using f Suc.prems frame_bound [OF f] by (simp_all add: wheels_kept_def)
    obtain m' where m': "drain_slot fuel (calling P) now w c m2 = Some m'" "wheels_kept m2 m'"
      "leaves t P \<and> lag now m2 = 0 \<and> tm_steps m2 = T + 1 \<and> digits_upto (w + 1) (T + 1) (tm_cur m2) \<and> placed_right t (w + 1) T d {(w, c)} m2 \<and> slot_due t (T + 1) w c d m2
        \<longrightarrow> placed_right t (w + 1) T d {} m' \<and> tracks t (T + 1) d m2 m'"
      using Suc.IH [OF l2 len] by blast
    have "placed_right t (w + 1) T d {} m' \<and> tracks t (T + 1) d m m'"
      if h: "leaves t P \<and> lag now m = 0 \<and> tm_steps m = T + 1 \<and> digits_upto (w + 1) (T + 1) (tm_cur m) \<and> placed_right t (w + 1) T d {(w, c)} m \<and> slot_due t (T + 1) w c d m"
    proof -
      have c: "c = (T + 1) div BASE w mod CNT w" using h Suc.prems(3) assms(2) by (simp add: digits_upto_def)
      have turn: "placed_right t (w + 1) T d {(w, c)} m2 \<and> slot_due t (T + 1) w c d m2 \<and> tracks t (T + 1) d m m2"
        by (rule drain_turn [OF Suc.prems(1) assms(2) Suc.prems(2) Cons _ _ _ _ c _ _ m2_def]) (use h in blast)+
      have "lag now m2 = 0 \<and> tm_steps m2 = T + 1 \<and> digits_upto (w + 1) (T + 1) (tm_cur m2)"
        using h f lag_cong [of m2 m now] by (simp add: wheels_kept_def)
      then show ?thesis using m'(3) turn h tracks_trans by blast
    qed
    then show ?thesis using step m'(1) frame_trans [OF f m'(2)] by auto
  qed
qed

section \<open>One step\<close>

lemma Suc_div_same: "\<not> k dvd T + 1 \<Longrightarrow> (T + 1) div k = T div k" for k T :: nat
  by (simp add: div_Suc dvd_eq_mod_eq_0)

lemma Suc_div_next: "k dvd T + 1 \<Longrightarrow> (T + 1) div k = T div k + 1" for k T :: nat
  by (simp add: div_Suc dvd_eq_mod_eq_0)

text \<open>When wheel \<open>w\<close> moves on, the timers of its other slots are still ahead, and those of the slot it
  reaches are looked at now.\<close>

lemma slot_ok_move:
  assumes "w < WHEEL_CNT" "BASE w dvd T + 1" "slot_ok T w s v d"
  shows "if s = (T + 1) div BASE w mod CNT w then d = T + 1 + (if w = 0 then 0 else v) \<and> (w = 0 \<or> v < 2 * BASE w)
    else slot_ok (T + 1) w s v d"
proof -
  have mod_unique: "x = y" if "y \<le> x" "x < y + k" "x mod k = y mod k" for x y k :: nat
    using that by (metis add_diff_cancel_left' dvd_imp_le leD le_neq_implies_less less_imp_add_positive mod_eq_dvd_iff_nat
        nat_add_left_cancel_less zero_less_diff)
  show ?thesis
  proof (cases "w = 0")
    case True
    then show ?thesis using assms(3) mod_unique [of "T + 1" d 256]
      by (cases "d = T + 1") (auto simp: slot_ok_def)
  next
    case False
    let ?q = "(d - v) div BASE w"
    note nx = Suc_div_next [OF assms(2)]
    have q: "v \<le> d" "BASE w dvd d - v" "T div BASE w + 1 \<le> ?q" "?q < T div BASE w + CNT w" "s = ?q mod CNT w" "v < 2 * BASE w"
      using assms(3) False by (simp_all add: slot_ok_def)
    show ?thesis
    proof (cases "s = (T + 1) div BASE w mod CNT w")
      case True
      then have "?q = (T + 1) div BASE w"
        using mod_unique [of "(T + 1) div BASE w" ?q "CNT w"] q nx by simp
      then have "d - v = T + 1" using q(2) assms(2) by (metis dvd_mult_div_cancel)
      then show ?thesis using True False q(1,6) by auto
    next
      case no: False
      then have "T div BASE w + 1 < ?q" using q(3,5) nx by (metis le_neq_implies_less)
      then show ?thesis using no False q nx by (simp add: slot_ok_def)
    qed
  qed
qed

lemma slot_ok_still:
  assumes "\<not> BASE w dvd T + 1" "w \<noteq> 0" "slot_ok T w s v d"
  shows "slot_ok (T + 1) w s v d"
  using assms Suc_div_same [OF assms(1)] by (simp add: slot_ok_def)

lemma BASE_dvd:
  assumes "w \<le> j" "j < WHEEL_CNT"
  shows "BASE w dvd BASE j"
  using assms
proof (induction j)
  case (Suc j)
  then show ?case using BASE_Suc [of j] by (cases "w = Suc j") auto
qed simp

text \<open>The wheels above one that has not come round stay where they are.\<close>

lemma upper_wheels_still:
  assumes "\<not> BASE (w + 1) dvd T + 1 \<or> w + 1 = WHEEL_CNT" "w < WHEEL_CNT"
  shows "cur_ok (w + 1) T m \<Longrightarrow> cur_ok WHEEL_CNT T m" and "placed_right t (w + 1) T d {} m \<Longrightarrow> placed_right t WHEEL_CNT T d {} m"
proof -
  have nd: "\<not> BASE j dvd T + 1" if "w < j" "j < WHEEL_CNT" for j
    using assms(1) BASE_dvd [of "w + 1" j] that dvd_trans by fastforce
  show "cur_ok (w + 1) T m \<Longrightarrow> cur_ok WHEEL_CNT T m"
    using nd Suc_div_same by (auto simp: cur_ok_def wheel_time_def split: if_splits)
  assume ok: "placed_right t (w + 1) T d {} m"
  have "j < WHEEL_CNT \<and> slot_ok (T + 1) j s (tm_timeout m t) d" if "tm_owner m t = Some (j, s)" for j s
  proof -
    have j: "j < WHEEL_CNT" "slot_ok (wheel_time (w + 1) T j) j s (tm_timeout m t) d"
      using ok that by (auto simp: placed_right_def)
    then show ?thesis using slot_ok_still [of j T] nd [of j] by (cases "j \<le> w") (auto simp: wheel_time_def)
  qed
  then show "placed_right t WHEEL_CNT T d {} m" by (auto simp: placed_right_def wheel_time_def)
qed

text \<open>Wheel \<open>w\<close> moves on to the slot \<open>c\<close>.\<close>

lemma wheel_moves:
  assumes "w < WHEEL_CNT" "BASE w dvd T + 1" "cur_ok w T m" and c: "c = (tm_cur m w + 1) mod CNT w" and m1: "m1 = m\<lparr>tm_cur := (tm_cur m)(w := c)\<rparr>"
  shows "c = (T + 1) div BASE w mod CNT w" and "cur_ok (w + 1) T m1" and "digits_upto (w + 1) (T + 1) (tm_cur m1)" and "cur_bound m1"
    and "placed_right t w T d {} m \<Longrightarrow> placed_right t (w + 1) T d {(w, c)} m1 \<and> slot_due t (T + 1) w c d m1"
proof -
  show ce: "c = (T + 1) div BASE w mod CNT w"
    using assms(1,3) Suc_div_next [OF assms(2)] c by (simp add: cur_ok_def wheel_time_def mod_Suc_eq)
  show cur: "cur_ok (w + 1) T m1" using assms(3) ce m1 by (auto simp: cur_ok_def wheel_time_def)
  then show "digits_upto (w + 1) (T + 1) (tm_cur m1)" by (auto simp: digits_upto_def cur_ok_def wheel_time_def)
  have "0 < CNT j" if "j < WHEEL_CNT" for j using CNT_bounds(1) [OF that] by simp
  then show "cur_bound m1" using cur by (auto simp: cur_bound_def cur_ok_def)
  assume ok: "placed_right t w T d {} m"
  have "j < WHEEL_CNT \<and> (if (j, s) = (w, c) then d = T + 1 + (if w = 0 then 0 else tm_timeout m t) \<and> (w = 0 \<or> tm_timeout m t < 2 * BASE w)
      else slot_ok (wheel_time (w + 1) T j) j s (tm_timeout m t) d)" if "tm_owner m t = Some (j, s)" for j s
  proof -
    have j: "j < WHEEL_CNT" "slot_ok (wheel_time w T j) j s (tm_timeout m t) d" using ok that by (auto simp: placed_right_def)
    show ?thesis
    proof (cases "j = w")
      case True
      then show ?thesis using j slot_ok_move [OF _ assms(2), of s "tm_timeout m t" d] ce by (auto simp: wheel_time_def split: if_splits)
    next
      case False
      then show ?thesis using j by (auto simp: wheel_time_def)
    qed
  qed
  then show "placed_right t (w + 1) T d {(w, c)} m1 \<and> slot_due t (T + 1) w c d m1" using m1 by (force simp: placed_right_def slot_due_def)
qed

lemma next_wheel_due:
  assumes "w < WHEEL_CNT" "BASE w dvd T + 1"
  shows "(T + 1) div BASE w mod CNT w \<noteq> 0 \<Longrightarrow> \<not> BASE (w + 1) dvd T + 1 \<or> w + 1 = WHEEL_CNT"
    and "(T + 1) div BASE w mod CNT w = 0 \<Longrightarrow> w + 1 < WHEEL_CNT \<Longrightarrow> BASE (w + 1) dvd T + 1"
proof -
  have *: "BASE (w + 1) dvd T + 1 \<longleftrightarrow> CNT w dvd (T + 1) div BASE w" if "w + 1 < WHEEL_CNT"
    using BASE_Suc [OF that] assms CNT_bounds(2) [OF assms(1)] by (metis dvd_div_iff_mult mult.commute less_numeral_extra(3))
  show "(T + 1) div BASE w mod CNT w \<noteq> 0 \<Longrightarrow> \<not> BASE (w + 1) dvd T + 1 \<or> w + 1 = WHEEL_CNT"
    "(T + 1) div BASE w mod CNT w = 0 \<Longrightarrow> w + 1 < WHEEL_CNT \<Longrightarrow> BASE (w + 1) dvd T + 1"
    using * assms(1) by (auto simp: dvd_eq_mod_eq_0)
qed

lemma step_wheels_ok:
  assumes "linked m" "cur_ok w T m" "tm_steps m = T + 1" "w < WHEEL_CNT \<longrightarrow> BASE w dvd T + 1" "w \<le> WHEEL_CNT"
  shows "\<exists>m'. step_wheels (calling P) now w m = Some m' \<and> linked m' \<and> cur_ok WHEEL_CNT T m' \<and> tm_steps m' = tm_steps m \<and> tm_last m' = tm_last m \<and>
    (leaves t P \<and> lag now m = 0 \<and> placed_right t w T d {} m \<longrightarrow> placed_right t WHEEL_CNT T d {} m' \<and> tracks t (T + 1) d m m')"
  using assms
proof (induction "WHEEL_CNT - w" arbitrary: w m rule: less_induct)
  case less
  show ?case
  proof (cases "w < WHEEL_CNT")
    case False
    then show ?thesis using less.prems by (subst step_wheels.simps) (simp add: tracks_def)
  next
    case True
    define c where "c = (tm_cur m w + 1) mod CNT w"
    define m0 where "m0 = m\<lparr>tm_cur := (tm_cur m)(w := c)\<rparr>"
    have dvd: "BASE w dvd T + 1" using less.prems(4) True by simp
    note mv = wheel_moves [OF True dvd less.prems(2) c_def m0_def]
    have lk: "linked m0" using less.prems(1) by (simp add: linked_def m0_def)
    have c0: "c = tm_cur m0 w" by (simp add: m0_def)
    obtain m1 where m1: "drain_slot (length (tm_list m0 w c)) (calling P) now w c m0 = Some m1" "wheels_kept m0 m1"
      "leaves t P \<and> lag now m0 = 0 \<and> tm_steps m0 = T + 1 \<and> digits_upto (w + 1) (T + 1) (tm_cur m0) \<and> placed_right t (w + 1) T d {(w, c)} m0 \<and> slot_due t (T + 1) w c d m0
        \<longrightarrow> placed_right t (w + 1) T d {} m1 \<and> tracks t (T + 1) d m0 m1"
      using drain_slot_ok [OF lk True mv(4) c0 order_refl] by blast
    have ok1: "linked m1" "cur_ok (w + 1) T m1" "tm_steps m1 = tm_steps m" "tm_last m1 = tm_last m" "tm_cur m1 w = c"
      using m1(2) lk mv(2) by (simp_all add: wheels_kept_def cur_ok_def m0_def)
    have ev: "step_wheels (calling P) now w m = (if c \<noteq> 0 then Some m1 else step_wheels (calling P) now (w + 1) m1)"
      using True m1(1) ok1(5) by (subst step_wheels.simps) (simp add: Let_def c_def m0_def)
    have t1: "placed_right t (w + 1) T d {} m1 \<and> tracks t (T + 1) d m m1" if h: "leaves t P" "lag now m = 0" "placed_right t w T d {} m"
    proof -
      have "lag now m0 = 0" "tm_steps m0 = T + 1" using h(2) less.prems(3) lag_cong [of m0 m now] by (simp_all add: m0_def)
      then have "placed_right t (w + 1) T d {} m1 \<and> tracks t (T + 1) d m0 m1" using m1(3) h(1) mv(3) mv(5) [OF h(3)] by blast
      moreover have "tracks t (T + 1) d m m0" by (rule tracks_same) (simp_all add: m0_def)
      ultimately show ?thesis using tracks_trans by blast
    qed
    show ?thesis
    proof (cases "c = 0")
      case False
      note up = upper_wheels_still [OF next_wheel_due(1) [OF True dvd] True]
      show ?thesis using ev False ok1 t1 up mv(1) by auto
    next
      case zero: True
      have d1: "w + 1 < WHEEL_CNT \<longrightarrow> BASE (w + 1) dvd T + 1" using next_wheel_due(2) [OF True dvd] zero mv(1) by simp
      have "tm_steps m1 = T + 1" "lag now m1 = lag now m" using ok1 less.prems(3) lag_cong [of m1 m now] by simp_all
      moreover have "WHEEL_CNT - (w + 1) < WHEEL_CNT - w" "w + 1 \<le> WHEEL_CNT" using True by simp_all
      ultimately obtain m' where "step_wheels (calling P) now (w + 1) m1 = Some m'" "linked m'" "cur_ok WHEEL_CNT T m'"
        "tm_steps m' = tm_steps m1" "tm_last m' = tm_last m1"
        "leaves t P \<and> lag now m = 0 \<and> placed_right t (w + 1) T d {} m1 \<longrightarrow> placed_right t WHEEL_CNT T d {} m' \<and> tracks t (T + 1) d m1 m'"
        using less.hyps [of "w + 1" m1] d1 ok1(1,2) by auto
      then show ?thesis using ev zero ok1 t1 tracks_trans by auto
    qed
  qed
qed

section \<open>Any sequence of operations\<close>

definition mgr_ok :: "TimerMgr \<Rightarrow> bool" where
  "mgr_ok m \<longleftrightarrow> linked m \<and> cur_ok 0 (tm_steps m) m"

text \<open>The manager at work on the timer \<open>t\<close> that is due at \<open>d\<close>.\<close>

definition timed :: "nat \<Rightarrow> nat \<Rightarrow> TimerMgr \<Rightarrow> bool" where
  "timed t d m \<longleftrightarrow> placed_right t 0 (tm_steps m) d {} m"

lemma mgr_ok_bound: "mgr_ok m \<Longrightarrow> cur_bound m"
  using CNT_bounds(1) by (fastforce simp: mgr_ok_def cur_ok_def cur_bound_def)

lemma timed_later: "timed t d m \<Longrightarrow> isRegistered t m \<Longrightarrow> tm_steps m < d"
  using slot_ok_later by (fastforce simp: timed_def placed_right_def isRegistered_def wheel_time_def)

lemma step_ok:
  assumes "mgr_ok m"
  shows "\<exists>m'. step (calling P) now m = Some m' \<and> mgr_ok m' \<and> tm_steps m' = tm_steps m + 1 \<and> tm_last m' = tm_last m \<and>
    (leaves t P \<and> lag now m = 0 \<and> timed t d m \<longrightarrow> timed t d m' \<and> tracks t (tm_steps m + 1) d m m')"
proof -
  let ?m = "m\<lparr>tm_steps := tm_steps m + 1\<rparr>"
  have ok: "linked ?m" "cur_ok 0 (tm_steps m) ?m" using assms by (simp_all add: mgr_ok_def linked_def cur_ok_def)
  have l: "lag now ?m = lag now m" "tm_steps ?m = tm_steps m + 1" "0 < WHEEL_CNT \<longrightarrow> BASE 0 dvd tm_steps m + 1" "0 \<le> WHEEL_CNT"
    using lag_cong [of ?m m now] by simp_all
  obtain m' where m': "step_wheels (calling P) now 0 ?m = Some m'" "linked m'" "cur_ok WHEEL_CNT (tm_steps m) m'"
    "tm_steps m' = tm_steps ?m" "tm_last m' = tm_last ?m"
    "leaves t P \<and> lag now ?m = 0 \<and> placed_right t 0 (tm_steps m) d {} ?m \<longrightarrow> placed_right t WHEEL_CNT (tm_steps m) d {} m' \<and> tracks t (tm_steps m + 1) d ?m m'"
    using step_wheels_ok [OF ok l(2,3,4)] by blast
  have "mgr_ok m'" using m'(2-4) by (simp add: mgr_ok_def cur_ok_def wheel_time_def)
  moreover have "timed t d m' \<and> tracks t (tm_steps m + 1) d m m'" if h: "leaves t P" "lag now m = 0" "timed t d m"
  proof -
    have "placed_right t 0 (tm_steps m) d {} ?m" using h(3) by (simp add: timed_def placed_right_def)
    then have "placed_right t WHEEL_CNT (tm_steps m) d {} m'" "tracks t (tm_steps m + 1) d ?m m'" using m'(6) l(1) h by auto
    moreover have "tracks t (tm_steps m + 1) d m ?m" by (rule tracks_same) simp_all
    ultimately show ?thesis using tracks_trans m'(4) by (fastforce simp: timed_def placed_right_def wheel_time_def)
  qed
  ultimately show ?thesis using m'(1,4,5) by (auto simp: step_def)
qed

lemma tick_loop_ok: "mgr_ok m \<Longrightarrow> \<exists>m'. tick_loop n (calling P) now m = Some m' \<and> mgr_ok m'"
proof (induction n arbitrary: m)
  case (Suc n)
  have "mgr_ok (m\<lparr>tm_last := tm_last m + 1\<rparr>)" using Suc.prems by (simp add: mgr_ok_def linked_def cur_ok_def)
  then show ?case using step_ok [of "m\<lparr>tm_last := tm_last m + 1\<rparr>" P now] Suc.IH by fastforce
qed simp

lemma tick_ok:
  assumes "mgr_ok m" "leaves t P" "timed t d m"
  shows "\<exists>m'. tickInternal (calling P) (tm_last m + 1) m = Some m' \<and> mgr_ok m' \<and> tm_steps m' = tm_steps m + 1 \<and> timed t d m' \<and>
    tracks t (tm_steps m + 1) d m m'"
proof -
  let ?m = "m\<lparr>tm_last := tm_last m + 1\<rparr>"
  have "mgr_ok ?m" "timed t d ?m" using assms by (simp_all add: mgr_ok_def linked_def cur_ok_def timed_def placed_right_def)
  moreover have "lag (tm_last m + 1) ?m = 0" by (simp add: lag_def)
  ultimately obtain m' where "step (calling P) (tm_last m + 1) ?m = Some m'" "mgr_ok m'" "tm_steps m' = tm_steps ?m + 1" "timed t d m'"
    "tracks t (tm_steps ?m + 1) d ?m m'" using step_ok [of ?m P "tm_last m + 1" t d] assms(2) by blast
  moreover have "tracks t (tm_steps m + 1) d m ?m" by (rule tracks_same) simp_all
  ultimately show ?thesis using tracks_trans by (fastforce simp: tickInternal_def)
qed

text \<open>\<^verbatim>\<open>registerTimer\<close> from outside of a step.\<close>

lemma register_timed:
  assumes "mgr_ok m" and D: "D = max 1 ((lag now m + timeout) mod 2 ^ 32)" and m': "m' = registerTimer now t timeout m"
  shows "timed t (tm_steps m + D) m' \<and> isRegistered t m' \<and> fired_of t m' = fired_of t m"
proof -
  have lk: "linked m" and dg: "digits_upto WHEEL_CNT (tm_steps m) (tm_cur m)"
    using assms(1) by (auto simp: mgr_ok_def cur_ok_def digits_upto_def wheel_time_def)
  have v: "D = (if (lag now m + timeout) mod 2 ^ 32 = 0 then 1 else (lag now m + timeout) mod 2 ^ 32)" using D by simp
  obtain k s u where r: "m' = (unlink t m)\<lparr>tm_timeout := (tm_timeout m)(t := u),
         tm_list := (tm_list (unlink t m))(k := (tm_list (unlink t m) k)(s := tm_list (unlink t m) k s @ [t])),
         tm_owner := (tm_owner m)(t := Some (k, s))\<rparr>" "k < WHEEL_CNT" "slot_ok (tm_steps m) k s u (tm_steps m + D)"
    using registerTimer_ok [OF lk dg _ _ v, of t] WHEEL_CNT_def unfolding m' by fastforce
  then show ?thesis by (simp add: timed_def placed_right_def isRegistered_def wheel_time_def fired_of_def)
qed

text \<open>
  A program: it registers and unregisters timers at any time, calls \<^verbatim>\<open>tick\<close> when the clock has moved on by some units, and may clear the wheels.
  The callbacks of its timers are \<open>P\<close>.
\<close>

datatype timer_op = Call timer_call | Tick nat | Clear

fun timer_exec :: "(nat \<Rightarrow> TimerMgr \<Rightarrow> timer_call list) \<Rightarrow> timer_op \<Rightarrow> TimerMgr \<Rightarrow> TimerMgr" where
  "timer_exec P (Call q) m = run_call q m"
| "timer_exec P (Tick n) m = (case tickInternal (calling P) (tm_last m + n) m of Some m' \<Rightarrow> m' | None \<Rightarrow> m)"
| "timer_exec P Clear m = clear_wheels m"

lemma frame_ok: "wheels_kept m m' \<Longrightarrow> mgr_ok m \<Longrightarrow> mgr_ok m'"
  by (simp add: mgr_ok_def cur_ok_def wheels_kept_def)

lemma exec_ok:
  assumes "mgr_ok m"
  shows "mgr_ok (timer_exec P op m)"
proof (cases op)
  case (Call q)
  then show ?thesis using frame_ok [OF run_call_frame(1) [OF mgr_ok_bound [OF assms]] assms] by simp
next
  case (Tick n)
  then show ?thesis using tick_loop_ok [OF assms, of n P "tm_last m + n"] assms by (auto simp: tickInternal_def)
next
  case Clear
  then show ?thesis by (simp add: mgr_ok_def linked_def cur_ok_def clear_wheels_def wheel_time_def)
qed

interpretation timers: op_machine "timer_exec P" mgr_ok for P
  by unfold_locales (rule exec_ok)

text \<open>The operations that leave the timer \<open>t\<close> alone and do not skip a unit of time; and the units that pass.\<close>

fun keeps_pace :: "nat \<Rightarrow> timer_op \<Rightarrow> bool" where
  "keeps_pace t (Call q) \<longleftrightarrow> call_timer q \<noteq> t"
| "keeps_pace t (Tick n) \<longleftrightarrow> n \<le> 1"
| "keeps_pace t Clear \<longleftrightarrow> False"

fun units :: "timer_op \<Rightarrow> nat" where
  "units (Tick n) = n"
| "units _ = 0"

lemma fires_on_time:
  assumes "mgr_ok m1" "timed t (tm_steps m1 + D) m1" "isRegistered t m1" "leaves t P" "\<forall>op \<in> set ops. keeps_pace t op"
    and m2: "m2 = fold (timer_exec P) ops m1" and k: "k = (\<Sum>op\<leftarrow>ops. units op)"
  shows "mgr_ok m2 \<and> timed t (tm_steps m1 + D) m2 \<and> tm_steps m2 = tm_steps m1 + k \<and>
    (isRegistered t m2 \<longleftrightarrow> k < D) \<and> fired_of t m2 = fired_of t m1 @ (if k < D then [] else [(t, tm_steps m1 + D)])"
  using assms(5) unfolding m2 k
proof (induction ops rule: rev_induct)
  case Nil
  then show ?case using assms(1-3) timed_later [OF assms(2,3)] by auto
next
  case (snoc op ops)
  let ?m = "fold (timer_exec P) ops m1" and ?k = "\<Sum>op\<leftarrow>ops. units op"
  have ih: "mgr_ok ?m" "timed t (tm_steps m1 + D) ?m" "tm_steps ?m = tm_steps m1 + ?k"
    "isRegistered t ?m \<longleftrightarrow> ?k < D" "fired_of t ?m = fired_of t m1 @ (if ?k < D then [] else [(t, tm_steps m1 + D)])"
    using snoc by auto
  have ok: "mgr_ok (timer_exec P op ?m)" by (rule exec_ok [OF ih(1)])
  show ?case
  proof (cases op)
    case (Call q)
    then have "call_timer q \<noteq> t" using snoc.prems by auto
    then have "untouched t ?m (run_call q ?m)" "wheels_kept ?m (run_call q ?m)" using run_call_frame [OF mgr_ok_bound [OF ih(1)]] by auto
    then show ?thesis using ih ok Call untouched_ok [of t ?m "run_call q ?m"] by (simp add: timed_def untouched_def wheels_kept_def)
  next
    case (Tick n)
    then consider "n = 0" | "n = 1" using snoc.prems by fastforce
    then show ?thesis
    proof cases
      case 1
      then show ?thesis using ih Tick by (simp add: tickInternal_def)
    next
      case 2
      obtain m' where m': "timer_exec P (Tick 1) ?m = m'" "timed t (tm_steps m1 + D) m'" "tm_steps m' = tm_steps ?m + 1" "tracks t (tm_steps ?m + 1) (tm_steps m1 + D) ?m m'"
        using tick_ok [OF ih(1) assms(4) ih(2)] by auto
      have "isRegistered t m' \<longleftrightarrow> ?k + 1 < D"
        using m'(4) ih(3,4) timed_later [OF m'(2)] m'(3) by (auto simp: tracks_def)
      then show ?thesis using m' ih(3-5) ok Tick 2 by (auto simp: tracks_def)
    qed
  next
    case Clear
    then show ?thesis using snoc.prems by auto
  qed
qed

lemma init_ok: "mgr_ok (initTick ms now mk_TimerMgr)"
  by (simp add: mgr_ok_def linked_def cur_ok_def initTick_def resetWheels_def mk_TimerMgr_def wheel_time_def)

section \<open>Steps that meet no timer\<close>

definition idle :: "nat \<Rightarrow> TimerMgr \<Rightarrow> TimerMgr" where
  "idle n m = m\<lparr>tm_cur := (tm_cur m)(0 := tm_cur m 0 + n), tm_steps := tm_steps m + n, tm_last := tm_last m + n\<rparr>"

lemma idle_sel [simp]:
  "tm_cur (idle n m) = (tm_cur m)(0 := tm_cur m 0 + n)" "tm_list (idle n m) = tm_list m" "tm_owner (idle n m) = tm_owner m"
  "tm_timeout (idle n m) = tm_timeout m" "tm_steps (idle n m) = tm_steps m + n" "tm_last (idle n m) = tm_last m + n"
  "tm_fired (idle n m) = tm_fired m"
  by (simp_all add: idle_def)

lemma idle_add [simp]: "idle b (idle a m) = idle (a + b) m" "idle 0 m = m"
  by (cases m, simp add: idle_def fun_eq_iff)+

lemma step_idle:
  assumes "tm_cur m 0 + 1 < 256" "tm_list m 0 (tm_cur m 0 + 1) = []"
  shows "step user now (m\<lparr>tm_last := tm_last m + 1\<rparr>) = Some (idle 1 m)"
  using assms by (simp add: step_def step_wheels.simps [of _ _ 0] WHEEL_CNT_def Let_def idle_def)

definition idle_for :: "nat \<Rightarrow> TimerMgr \<Rightarrow> bool" where
  "idle_for n m \<longleftrightarrow> tm_cur m 0 + n < 256 \<and> (\<forall>s. tm_cur m 0 < s \<and> s \<le> tm_cur m 0 + n \<longrightarrow> tm_list m 0 s = [])"

lemma idle_for_Suc: "idle_for (Suc n) m \<Longrightarrow> idle_for 1 m \<and> idle_for n (idle 1 m)"
  by (auto simp: idle_for_def)

lemma tick_loop_idle: "idle_for n m \<Longrightarrow> tick_loop n user now m = Some (idle n m)"
proof (induction n arbitrary: m)
  case (Suc n)
  then show ?case using step_idle [of m user now] idle_for_Suc [OF Suc.prems] by (simp add: idle_for_def)
qed simp

lemma tick_loop_add:
  "tick_loop (a + b) user now m = Option.bind (tick_loop a user now m) (tick_loop b user now)"
  by (induction a arbitrary: m) (auto split: option.split)

text \<open>A program that calls \<^verbatim>\<open>tick\<close> once per unit of time, \<open>n\<close> times.\<close>

primrec ticks :: "nat \<Rightarrow> timer_user \<Rightarrow> TimerMgr \<Rightarrow> TimerMgr option" where
  "ticks 0 user m = Some m"
| "ticks (Suc n) user m = Option.bind (tickInternal user (tm_last m + 1) m) (ticks n user)"

lemma ticks_add: "ticks (a + b) user m = Option.bind (ticks a user m) (ticks b user)"
  by (induction a arbitrary: m) (auto split: bind_split)

lemma ticks_idle: "idle_for n m \<Longrightarrow> ticks n user m = Some (idle n m)"
proof (induction n arbitrary: m)
  case (Suc n)
  have "tickInternal user (tm_last m + 1) m = Some (idle 1 m)"
    using tick_loop_idle [of 1 m user "tm_last m + 1"] idle_for_Suc [OF Suc.prems] by (simp add: tickInternal_def)
  then show ?case using Suc.IH [of "idle 1 m"] idle_for_Suc [OF Suc.prems] by simp
qed simp

text \<open>A callback that registers its own timer again with the timeout \<open>d\<close>.\<close>

definition again :: "nat \<Rightarrow> timer_user" where
  "again d t m = registerTimer (tm_last m) t d m"

lemmas wheel_eval = step_def WHEEL_CNT_def ELEMENT_CNT_PER_WHEEL_def BASE_TICK_PER_WHEEL_def RIGHT_SHIFT_PER_WHEEL_def
  step_wheels.simps place.simps registerTimer_def unRegisterTimer_def isRegistered_def push_def unlink_def u32_sub_def lag_def
  onTimeOut_def initTick_def resetWheels_def mk_TimerMgr_def Let_def

section \<open>Properties\<close>


text \<open>A timer that asks for 100 more ticks whenever it is called, beside the timer 7.\<close>

definition beat :: "nat \<Rightarrow> TimerMgr \<Rightarrow> timer_call list" where
  "beat x m = (if x = 8 then [Call_register 8 100 0] else [])"


text \<open>
  a timer that registers itself again can fire a whole turn early. Wheel 0 runs the callbacks of its slot 0
  before wheel 1 moves on, so a callback that comes from wheel 0 at a multiple of 256 steps computes its new slot from the old
  position of wheel 1. A timer registered at step 1 with timeout 255 that asks for 512 more ticks in its callback
  is called at step 256 and then at step 512, not at step 768.
\<close>

theorem timer_rearmed_in_callback_fires_early:
  "map_option tm_fired (Option.bind (ticks 1 (again 512) (initTick False 100 mk_TimerMgr))
      (\<lambda>m. ticks 511 (again 512) (registerTimer (tm_last m) 7 255 m)))
   = Some [(7, 256), (7, 512)]"
proof -
  let ?i = "initTick False 100 mk_TimerMgr" and ?u = "again 512"
  define m0 where "m0 = registerTimer 101 7 255 (idle 1 ?i)"
  have m0: "tm_cur m0 = (\<lambda>_. 0)(0 := 1)" "tm_list m0 = (\<lambda>_ _. [])(0 := (\<lambda>_. [])(0 := [7]))" "tm_owner m0 = (\<lambda>_. None)(7 := Some (0, 0))"
    "tm_last m0 = 101" "tm_steps m0 = 1" "tm_fired m0 = []"
    unfolding m0_def by (simp_all add: wheel_eval idle_def fun_eq_iff)
  have i0: "ticks 1 ?u ?i = Some (idle 1 ?i)" by (rule ticks_idle) (simp add: idle_for_def wheel_eval)
  have i1: "ticks 254 ?u m0 = Some (idle 254 m0)" by (rule ticks_idle) (simp add: idle_for_def m0)
  define m1 where "m1 = the (step ?u 356 (idle 254 m0\<lparr>tm_last := 356\<rparr>))"
  have s1: "ticks 1 ?u (idle 254 m0) = Some m1" "tm_cur m1 = (\<lambda>_. 0)(1 := 1)" "tm_list m1 = (\<lambda>_ _. [])(1 := (\<lambda>_. [])(2 := [7]))"
    "tm_owner m1 = (\<lambda>_. None)(7 := Some (1, 2))" "tm_timeout m1 7 = 0" "tm_steps m1 = 256" "tm_last m1 = 356" "tm_fired m1 = [(7, 256)]"
    unfolding m1_def by (simp_all add: wheel_eval m0 tickInternal_def again_def fun_eq_iff)
  have i2: "ticks 255 ?u m1 = Some (idle 255 m1)" by (rule ticks_idle) (simp add: idle_for_def s1)
  have s2: "map_option tm_fired (ticks 1 ?u (idle 255 m1)) = Some [(7, 256), (7, 512)]"
    by (simp add: wheel_eval s1 tickInternal_def again_def)
  have "ticks (254 + (1 + (255 + 1))) ?u m0 = ticks 1 ?u (idle 255 m1)"
    by (simp only: ticks_add i1 s1(1) i2 bind.simps)
  then show ?thesis using i0 s2 by (simp add: m0_def wheel_eval)
qed

text \<open>
  catching up delays cascaded timers. When \<^verbatim>\<open>tickInternal\<close> makes several steps in one call, a timer that
  moves to a lower wheel is registered again with the distance between the clock and \<^verbatim>\<open>last_tick_\<close> added once
  more. A timer with timeout 300 is due at step 300, but one call that catches up with 440 ticks leaves it registered.
\<close>

theorem timer_catch_up_delays:
  "\<exists>m. tickInternal silent 540 (registerTimer 100 7 300 (initTick False 100 mk_TimerMgr)) = Some m \<and>
     tm_steps m = 440 \<and> isRegistered 7 m \<and> tm_fired m = []"
proof -
  define m0 where "m0 = registerTimer 100 7 300 (initTick False 100 mk_TimerMgr)"
  have m0: "tm_cur m0 = (\<lambda>_. 0)" "tm_list m0 = (\<lambda>_ _. [])(1 := (\<lambda>_. [])(1 := [7]))" "tm_owner m0 = (\<lambda>_. None)(7 := Some (1, 1))"
    "tm_timeout m0 = (\<lambda>_. 0)(7 := 44)" "tm_last m0 = 100" "tm_steps m0 = 0" "tm_fired m0 = []"
    unfolding m0_def by (simp_all add: wheel_eval)
  have i: "tick_loop 255 silent 540 m0 = Some (idle 255 m0)" by (rule tick_loop_idle) (simp add: idle_for_def m0)
  define m1 where "m1 = the (step silent 540 (idle 255 m0\<lparr>tm_last := 356\<rparr>))"
  have s: "tick_loop 1 silent 540 (idle 255 m0) = Some m1" "tm_cur m1 0 = 0" "tm_list m1 = (\<lambda>_ _. [])(0 := (\<lambda>_. [])(228 := [7]))"
    "tm_owner m1 7 = Some (0, 228)" "tm_steps m1 = 256" "tm_last m1 = 356" "tm_fired m1 = []"
    unfolding m1_def by (simp_all add: wheel_eval m0 silent_def fun_eq_iff)
  have "tick_loop 184 silent 540 m1 = Some (idle 184 m1)" by (rule tick_loop_idle) (simp add: idle_for_def s)
  then have "tick_loop (255 + (1 + 184)) silent 540 m0 = Some (idle 184 m1)"
    by (simp only: tick_loop_add i s(1) bind.simps)
  then show ?thesis unfolding m0_def [symmetric] using m0(5) s by (simp add: tickInternal_def isRegistered_def)
qed

end
