(* ===== verification/Str.thy ===== *)
theory Str
  imports Errors
begin

text \<open>
  \<^verbatim>\<open>dbase::str\<close> (\<^verbatim>\<open>code/src/str/str.cpp\<close>): comparing, trimming, splitting, joining, replacing and parsing of
  strings. A \<^verbatim>\<open>std::string\<close> and a \<^verbatim>\<open>std::string_view\<close> are a string; the loops over an index into the source string are
  recursive functions of that index. \<^verbatim>\<open>std::strtod\<close> is a parameter: it gives the value and the number of
  characters it used.
\<close>

section \<open>Operations\<close>

definition substr :: "string \<Rightarrow> nat \<Rightarrow> nat \<Rightarrow> string" where
  "substr s pos n = take n (drop pos s)"

definition lowerAscii :: "char \<Rightarrow> char" where
  "lowerAscii ch = tolower_char ch"

definition trimImplLeft :: "string \<Rightarrow> string \<Rightarrow> string" where
  "trimImplLeft str chars = (case find_first_not_of str chars of None \<Rightarrow> [] | Some pos \<Rightarrow> drop pos str)"

definition trimImplRight :: "string \<Rightarrow> string \<Rightarrow> string" where
  "trimImplRight str chars = (case find_last_not_of str chars of None \<Rightarrow> [] | Some pos \<Rightarrow> substr str 0 (pos + 1))"

definition makeParseError :: "string \<Rightarrow> string \<Rightarrow> 'a Result" where
  "makeParseError input typeName =
     makeErrorResult EC_ParseError (''failed to parse '' @ [CHR 0x27] @ input @ [CHR 0x27] @ '' as '' @ typeName)"

definition startsWith :: "string \<Rightarrow> string \<Rightarrow> bool" where
  "startsWith str pre \<longleftrightarrow> length str \<ge> length pre \<and> substr str 0 (length pre) = pre"

definition endsWith :: "string \<Rightarrow> string \<Rightarrow> bool" where
  "endsWith str suf \<longleftrightarrow> length str \<ge> length suf \<and> drop (length str - length suf) str = suf"

definition contains :: "string \<Rightarrow> string \<Rightarrow> bool" where
  "contains str part \<longleftrightarrow> sv_find str part 0 \<noteq> None"

definition equalsIgnoreCase :: "string \<Rightarrow> string \<Rightarrow> bool" where
  "equalsIgnoreCase lhs rhs \<longleftrightarrow>
     length lhs = length rhs \<and> list_all (\<lambda>i. lowerAscii (lhs ! i) = lowerAscii (rhs ! i)) [0..<length lhs]"

definition toLower :: "string \<Rightarrow> string" where
  "toLower str = map lowerAscii str"

definition toUpper :: "string \<Rightarrow> string" where
  "toUpper str = map toupper_char str"

text \<open>The default argument of the trim functions.\<close>

definition blanks :: string where
  "blanks = '' '' @ [CHR 0x0D, CHR 0x0A, CHR 0x09]"

definition trimLeftView :: "string \<Rightarrow> string \<Rightarrow> string" where
  "trimLeftView str chars = trimImplLeft str chars"

definition trimRightView :: "string \<Rightarrow> string \<Rightarrow> string" where
  "trimRightView str chars = trimImplRight str chars"

definition trimView :: "string \<Rightarrow> string \<Rightarrow> string" where
  "trimView str chars = trimImplRight (trimImplLeft str chars) chars"

definition trimLeft :: "string \<Rightarrow> string \<Rightarrow> string" where
  "trimLeft str chars = trimLeftView str chars"

definition trimRight :: "string \<Rightarrow> string \<Rightarrow> string" where
  "trimRight str chars = trimRightView str chars"

definition trim :: "string \<Rightarrow> string \<Rightarrow> string" where
  "trim str chars = trimView str chars"

definition removePrefixView :: "string \<Rightarrow> string \<Rightarrow> string" where
  "removePrefixView str pre = (if startsWith str pre then drop (length pre) str else str)"

definition removeSuffixView :: "string \<Rightarrow> string \<Rightarrow> string" where
  "removeSuffixView str suf = (if endsWith str suf then substr str 0 (length str - length suf) else str)"

text \<open>The loop of \<^verbatim>\<open>splitView\<close>, which is entered with a non-empty delimiter only.\<close>

function split_loop :: "string \<Rightarrow> bool \<Rightarrow> string \<Rightarrow> nat \<Rightarrow> string list" where
  "split_loop delim keepEmpty str start =
     (if delim \<noteq> [] \<and> start \<le> length str
      then let pos = sv_find str delim start;
               len = (case pos of None \<Rightarrow> length str - start | Some p \<Rightarrow> p - start);
               out = (if len \<noteq> 0 \<or> keepEmpty then [substr str start len] else [])
           in case pos of None \<Rightarrow> out
              | Some p \<Rightarrow> out @ split_loop delim keepEmpty str (p + length delim)
      else [])"
  by pat_completeness auto
termination
proof (relation "measure (\<lambda>(_, _, str, start). Suc (length str) - start)")
qed (auto dest!: sv_find_bounds [OF sym] sv_find_bounds simp: neq_Nil_conv)

declare split_loop.simps [simp del]

definition splitView_char :: "string \<Rightarrow> char \<Rightarrow> bool \<Rightarrow> string list" where
  "splitView_char str delim keepEmpty = split_loop [delim] keepEmpty str 0"

definition splitView :: "string \<Rightarrow> string \<Rightarrow> bool \<Rightarrow> string list" where
  "splitView str delim keepEmpty =
     (if delim = [] then (if str \<noteq> [] \<or> keepEmpty then [str] else [])
      else split_loop delim keepEmpty str 0)"

definition split_char :: "string \<Rightarrow> char \<Rightarrow> bool \<Rightarrow> string list" where
  "split_char str delim keepEmpty = splitView_char str delim keepEmpty"

definition split_str :: "string \<Rightarrow> string \<Rightarrow> bool \<Rightarrow> string list" where
  "split_str str delim keepEmpty = splitView str delim keepEmpty"

fun join_loop :: "string \<Rightarrow> nat \<Rightarrow> string \<Rightarrow> string list \<Rightarrow> string" where
  "join_loop delim i out [] = out"
| "join_loop delim i out (part # parts) =
     join_loop delim (i + 1) ((if i \<noteq> 0 then out @ delim else out) @ part) parts"

definition join :: "string list \<Rightarrow> string \<Rightarrow> string" where
  "join parts delim = (if parts = [] then [] else join_loop delim 0 [] parts)"

definition replaceFirst :: "string \<Rightarrow> string \<Rightarrow> string \<Rightarrow> string" where
  "replaceFirst str from to =
     (if from = [] then str
      else case sv_find str from 0 of
             None \<Rightarrow> str
           | Some pos \<Rightarrow> substr str 0 pos @ to @ drop (pos + length from) str)"

function replace_loop :: "string \<Rightarrow> string \<Rightarrow> string \<Rightarrow> nat \<Rightarrow> string" where
  "replace_loop from to str start =
     (if from \<noteq> [] \<and> start < length str
      then case sv_find str from start of
             None \<Rightarrow> drop start str
           | Some pos \<Rightarrow> substr str start (pos - start) @ to @ replace_loop from to str (pos + length from)
      else [])"
  by pat_completeness auto
termination
proof (relation "measure (\<lambda>(_, _, str, start). Suc (length str) - start)")
qed (auto dest!: sv_find_bounds [OF sym] sv_find_bounds simp: neq_Nil_conv)

declare replace_loop.simps [simp del]

definition replaceAll :: "string \<Rightarrow> string \<Rightarrow> string \<Rightarrow> string" where
  "replaceAll str from to = (if from = [] then str else replace_loop from to str 0)"

text \<open>The common body of \<^verbatim>\<open>toInt\<close> and \<^verbatim>\<open>toInt64\<close>.\<close>

definition parse_int :: "int \<Rightarrow> int \<Rightarrow> string \<Rightarrow> string \<Rightarrow> int Result" where
  "parse_int lo hi typeName str =
     (let s = trimView str blanks
      in if s = [] then makeParseError str typeName
         else case from_chars lo hi s of
                (ec, value, n) \<Rightarrow>
                  if ec \<noteq> Errc_ok \<or> n \<noteq> length s then makeParseError str typeName
                  else Value (case value of Some v \<Rightarrow> v | None \<Rightarrow> 0))"

definition toInt :: "string \<Rightarrow> int Result" where
  "toInt str = parse_int (- (2 ^ 31)) (2 ^ 31 - 1) ''int32'' str"

definition toInt64 :: "string \<Rightarrow> int Result" where
  "toInt64 str = parse_int (- (2 ^ 63)) (2 ^ 63 - 1) ''int64'' str"

definition toDouble :: "(string \<Rightarrow> 'd \<times> nat) \<Rightarrow> string \<Rightarrow> 'd Result" where
  "toDouble strtod str =
     (let s = trim str blanks
      in if s = [] then makeParseError str ''double''
         else case strtod s of (value, n) \<Rightarrow> if n \<noteq> length s then makeParseError str ''double'' else Value value)"

definition toBool :: "string \<Rightarrow> bool Result" where
  "toBool str =
     (let s = toLower (trimView str blanks)
      in if s = ''true'' \<or> s = ''1'' \<or> s = ''yes'' \<or> s = ''on'' then Value True
         else if s = ''false'' \<or> s = ''0'' \<or> s = ''no'' \<or> s = ''off'' then Value False
         else makeParseError str ''bool'')"

section \<open>Trimming\<close>

lemma trimImplLeft_dropWhile: "trimImplLeft s cs = dropWhile (\<lambda>c. c \<in> set cs) s"
proof -
  have "length (takeWhile (\<lambda>c. c \<in> set cs) s) = length s \<Longrightarrow> dropWhile (\<lambda>c. c \<in> set cs) s = []"
    by (metis append_Nil2 append_eq_append_conv takeWhile_dropWhile_id)
  then show ?thesis by (simp add: trimImplLeft_def find_first_not_of_def Let_def dropWhile_eq_drop)
qed

lemma trimImplRight_rev: "trimImplRight s cs = rev (trimImplLeft (rev s) cs)"
proof -
  let ?n = "length (takeWhile (\<lambda>c. c \<in> set cs) (rev s))"
  have le: "?n \<le> length s" using length_takeWhile_le [of _ "rev s"] by simp
  show ?thesis
  proof (cases "?n = length s")
    case False
    then have "length s - 1 - ?n + 1 = length s - ?n" using le by simp
    then show ?thesis using False by (simp add: trimImplRight_def trimImplLeft_def find_last_not_of_def find_first_not_of_def Let_def substr_def rev_drop)
  qed (simp add: trimImplRight_def trimImplLeft_def find_last_not_of_def find_first_not_of_def Let_def)
qed

definition trimmed :: "string \<Rightarrow> string \<Rightarrow> bool" where
  "trimmed cs s \<longleftrightarrow> (s \<noteq> [] \<longrightarrow> hd s \<notin> set cs \<and> last s \<notin> set cs)"

lemma trimView_absorb:
  assumes "set a \<subseteq> set cs" "set b \<subseteq> set cs" "trimmed cs s"
  shows "trimView (a @ s @ b) cs = s"
proof (cases "s = []")
  case True
  then have "dropWhile (\<lambda>c. c \<in> set cs) (a @ b) = []" using assms(1,2) by auto
  then have "trimImplLeft (a @ s @ b) cs = []" using True by (simp add: trimImplLeft_dropWhile del: dropWhile_eq_Nil_conv)
  then show ?thesis using True by (simp add: trimView_def trimImplRight_rev) (simp add: trimImplLeft_dropWhile)
next
  case False
  then have "hd s \<notin> set cs" "last s \<notin> set cs" using assms(3) by (simp_all add: trimmed_def)
  moreover have "dropWhile (\<lambda>c. c \<in> set cs) (a @ s @ b) = s @ b" 
    using assms(1) False calculation(1) by (subst dropWhile_append2) (auto simp: neq_Nil_conv)
  moreover have "dropWhile (\<lambda>c. c \<in> set cs) (rev b @ rev s) = rev s"
    using assms(2) False calculation(2) by (subst dropWhile_append2) (auto, cases s rule: rev_cases, auto)
  ultimately show ?thesis by (simp add: trimView_def trimImplLeft_dropWhile trimImplRight_rev)
qed

lemma trimView_split:
  "\<exists>a b. s = a @ trimView s cs @ b \<and> set a \<subseteq> set cs \<and> set b \<subseteq> set cs" "trimmed cs (trimView s cs)"
proof -
  let ?P = "\<lambda>c. c \<in> set cs"
  let ?l = "dropWhile ?P s"
  let ?r = "rev (dropWhile ?P (rev ?l))"
  have r: "trimView s cs = ?r" by (simp add: trimView_def trimImplLeft_dropWhile trimImplRight_rev)
  have l: "?l = ?r @ rev (takeWhile ?P (rev ?l))" by (metis rev_append rev_rev_ident takeWhile_dropWhile_id)
  have "s = takeWhile ?P s @ ?r @ rev (takeWhile ?P (rev ?l))" using l by (metis takeWhile_dropWhile_id)
  moreover have "set (takeWhile ?P s) \<subseteq> set cs" "set (rev (takeWhile ?P (rev ?l))) \<subseteq> set cs" by (auto dest: set_takeWhileD)
  ultimately show "\<exists>a b. s = a @ trimView s cs @ b \<and> set a \<subseteq> set cs \<and> set b \<subseteq> set cs" unfolding r by blast
  have "last ?r \<notin> set cs" if "?r \<noteq> []" using that hd_dropWhile [of ?P "rev ?l"] by (simp add: last_rev)
  moreover have "hd ?r \<notin> set cs" if ne: "?r \<noteq> []"
  proof -
    have "hd ?l = hd ?r" using l ne by (metis hd_append2)
    moreover have "?l \<noteq> []" using ne by (metis dropWhile.simps(1) rev.simps(1))
    ultimately show ?thesis using hd_dropWhile [of ?P s] by metis
  qed
  ultimately show "trimmed cs (trimView s cs)" unfolding r trimmed_def by blast
qed

text \<open>What trimming gives is the one trimmed string in the middle.\<close>

lemma trimView_iff:
  "trimView s cs = t \<longleftrightarrow> trimmed cs t \<and> (\<exists>a b. s = a @ t @ b \<and> set a \<subseteq> set cs \<and> set b \<subseteq> set cs)"
  using trimView_split(1) [of s cs] trimView_split(2) [of cs s] trimView_absorb [of _ cs _ t] by metis

section \<open>Splitting and joining\<close>

lemma sv_find_drop: "start \<le> length s \<Longrightarrow> sv_find s p start = map_option (\<lambda>i. start + i) (find_sub p (drop start s))"
  by (simp add: sv_find_def)

text \<open>The parts between the occurrences of the delimiter, found from the left.\<close>

function pieces :: "string \<Rightarrow> string \<Rightarrow> string list" where
  "pieces delim s =
     (if delim = [] then [s]
      else case find_sub delim s of None \<Rightarrow> [s] | Some i \<Rightarrow> take i s # pieces delim (drop (i + length delim) s))"
  by pat_completeness auto
termination
proof (relation "measure (\<lambda>(_, s). length s)")
qed (auto dest!: find_sub_Some [OF sym] find_sub_Some simp: neq_Nil_conv)

declare pieces.simps [simp del]

lemma pieces_nonempty [simp]: "pieces delim s \<noteq> []"
  by (subst pieces.simps) (simp split: option.split)

lemma split_loop_pieces:
  assumes "delim \<noteq> []" "start \<le> length str"
  shows "split_loop delim keepEmpty str start = filter (\<lambda>p. p \<noteq> [] \<or> keepEmpty) (pieces delim (drop start str))"
  using assms
proof (induction delim keepEmpty str start rule: split_loop.induct)
  case (1 delim keepEmpty str start)
  show ?case
  proof (cases "find_sub delim (drop start str)")
    case None
    then show ?thesis using "1.prems" by (subst split_loop.simps, subst pieces.simps) (auto simp: sv_find_drop substr_def)
  next
    case (Some i)
    have b: "i + length delim \<le> length str - start" using find_sub_Some [OF Some] by simp
    have f: "sv_find str delim start = Some (start + i)" using Some "1.prems" by (simp add: sv_find_drop)
    have "split_loop delim keepEmpty str (start + i + length delim) =
      filter (\<lambda>p. p \<noteq> [] \<or> keepEmpty) (pieces delim (drop (i + length delim) (drop start str)))"
      using "1.IH" [OF _ refl refl refl f] "1.prems" b by (simp add: add_ac)
    then show ?thesis using "1.prems" Some b f
      by (subst split_loop.simps, subst pieces.simps) (auto simp: substr_def)
  qed
qed

lemma splitView_pieces: "splitView str delim keepEmpty = filter (\<lambda>p. p \<noteq> [] \<or> keepEmpty) (pieces delim str)"
  by (auto simp: splitView_def split_loop_pieces pieces.simps [of "[]"])

lemma splitView_char_eq: "splitView_char str c keepEmpty = splitView str [c] keepEmpty"
  by (simp add: splitView_char_def splitView_def)

fun joined :: "string \<Rightarrow> string list \<Rightarrow> string" where
  "joined delim [] = []"
| "joined delim [p] = p"
| "joined delim (p # ps) = p @ delim @ joined delim ps"

lemma joined_Cons: "ps \<noteq> [] \<Longrightarrow> joined delim (p # ps) = p @ delim @ joined delim ps"
  by (cases ps) simp_all

lemma join_loop_joined: "0 < i \<Longrightarrow> join_loop delim i out ps = out @ (if ps = [] then [] else delim @ joined delim ps)"
  by (induction delim i out ps rule: join_loop.induct) (auto simp: joined_Cons)

lemma join_joined: "join parts delim = joined delim parts"
  by (cases parts) (auto simp: join_def join_loop_joined joined_Cons)

lemma joined_pieces: "joined delim (pieces delim s) = s"
proof (induction delim s rule: pieces.induct)
  case (1 delim s)
  show ?case
  proof (cases "delim = []")
    case False
    show ?thesis
    proof (cases "find_sub delim s")
      case (Some i)
      have "s = take i s @ delim @ drop (i + length delim) s"
        using find_sub_Some [OF Some] by (metis append_take_drop_id drop_drop add.commute)
      then show ?thesis using 1 [OF False Some] False Some by (subst pieces.simps) (simp add: joined_Cons)
    qed (subst pieces.simps, simp)
  qed (subst pieces.simps, simp)
qed

lemma pieces_free:
  assumes "delim \<noteq> []" "p \<in> set (pieces delim s)"
  shows "find_sub delim p = None"
  using assms
proof (induction delim s rule: pieces.induct)
  case (1 delim s)
  show ?case
  proof (cases "find_sub delim s")
    case None
    then show ?thesis using "1.prems" by (subst (asm) pieces.simps) simp
  next
    case (Some i)
    then consider "p = take i s" | "p \<in> set (pieces delim (drop (i + length delim) s))"
      using "1.prems" by (subst (asm) pieces.simps) auto
    then show ?thesis
    proof cases
      case p: 1
      show ?thesis
      proof (rule ccontr)
        assume "find_sub delim p \<noteq> None"
        then obtain j where j: "find_sub delim p = Some j" by auto
        have b: "j + length delim \<le> length p" "take (length delim) (drop j p) = delim" using find_sub_Some [OF j] by simp_all
        have "j < i" using b(1) p "1.prems"(1) by (auto simp: neq_Nil_conv)
        moreover have "take (length delim) (drop j s) = delim"
          using b p by (simp add: drop_take min_def split: if_splits)
        ultimately show False using find_sub_least [OF Some] by blast
      qed
    next
      case 2
      then show ?thesis using "1.IH" [OF _ Some] "1.prems"(1) by blast
    qed
  qed
qed

lemma pieces_joined_char:
  assumes "parts \<noteq> []" "\<forall>p \<in> set parts. c \<notin> set p"
  shows "pieces [c] (joined [c] parts) = parts"
  using assms
proof (induction "[c]" parts rule: joined.induct)
  case (2 p)
  then show ?case by (subst pieces.simps) (simp add: find_sub_single)
next
  case (3 p q ps)
  have "takeWhile (\<lambda>x. x \<noteq> c) (p @ c # joined [c] (q # ps)) = p" using 3 by (subst takeWhile_append2) auto
  then show ?case using 3 by (subst pieces.simps) (simp add: find_sub_single)
qed simp

lemma replace_loop_pieces:
  assumes "from \<noteq> []" "start \<le> length str"
  shows "replace_loop from to str start = joined to (pieces from (drop start str))"
  using assms
proof (induction "from" to str start rule: replace_loop.induct)
  case (1 "from" to str start)
  show ?case
  proof (cases "find_sub from (drop start str)")
    case None
    then show ?thesis using "1.prems" by (subst replace_loop.simps, subst pieces.simps) (auto simp: sv_find_drop)
  next
    case (Some i)
    have b: "i + length from \<le> length str - start" using find_sub_Some [OF Some] by simp
    then have lt: "start < length str" using "1.prems"(1) by (auto simp: neq_Nil_conv)
    have f: "sv_find str from start = Some (start + i)" using Some "1.prems" by (simp add: sv_find_drop)
    have "replace_loop from to str (start + i + length from) = joined to (pieces from (drop (i + length from) (drop start str)))"
      using "1.IH" [OF _ f] "1.prems" b lt by (simp add: add_ac)
    then show ?thesis using "1.prems" Some b f lt
      by (subst replace_loop.simps, subst pieces.simps) (auto simp: substr_def joined_Cons)
  qed
qed

section \<open>Parsing\<close>

text \<open>The decimal notation of an integer: a minus sign or nothing, and digits.\<close>

definition denotes :: "string \<Rightarrow> int \<Rightarrow> bool" where
  "denotes s v \<longleftrightarrow> (\<exists>ds. ds \<noteq> [] \<and> list_all is_digit ds \<and>
     (s = ds \<and> v = int (digits_val ds) \<or> s = CHR ''-'' # ds \<and> v = - int (digits_val ds)))"

lemma denotes_to_string: "denotes (to_string v) v"
  using nat_digits_all by (auto simp: denotes_def to_string_def list_all_iff digits_val_nat_digits intro!: exI [of _ "nat_digits (nat \<bar>v\<bar>)"])

lemma digit_not_blank: "is_digit c \<Longrightarrow> c \<notin> set blanks"
  by (auto simp: is_digit_def blanks_def)

lemma denotes_trimmed: "denotes s v \<Longrightarrow> s \<noteq> [] \<and> trimmed blanks s"
proof -
  assume "denotes s v"
  then obtain ds where ds: "ds \<noteq> []" "list_all is_digit ds" "s = ds \<or> s = CHR ''-'' # ds" by (auto simp: denotes_def)
  have "CHR ''-'' \<notin> set blanks" by (simp add: blanks_def)
  moreover have "hd ds \<notin> set blanks" "last ds \<notin> set blanks" using ds digit_not_blank by (simp_all add: list_all_iff)
  ultimately show ?thesis using ds by (auto simp: trimmed_def)
qed

lemma from_chars_whole:
  "from_chars lo hi s = (Errc_ok, Some v, length s) \<longleftrightarrow> denotes s v \<and> lo \<le> v \<and> v \<le> hi"
proof -
  have all: "length (takeWhile is_digit t) = length t \<longleftrightarrow> list_all is_digit t" for t
    by (metis list_all_iff takeWhile_eq_all_conv takeWhile_eq_take take_all_iff length_takeWhile_le le_antisym order_refl)
  have tw: "list_all is_digit t \<Longrightarrow> takeWhile is_digit t = t" for t by (simp add: list_all_iff takeWhile_eq_all_conv)
  show ?thesis
  proof (cases "s \<noteq> [] \<and> hd s = CHR ''-''")
    case True
    then obtain t where s: "s = CHR ''-'' # t" by (cases s) auto
    have "denotes s v \<longleftrightarrow> t \<noteq> [] \<and> list_all is_digit t \<and> v = - int (digits_val t)" by (auto simp: denotes_def s)
    then show ?thesis using all [of t] by (cases "list_all is_digit t") (auto simp: from_chars_def s Let_def tw)
  next
    case False
    then have "denotes s v \<longleftrightarrow> s \<noteq> [] \<and> list_all is_digit s \<and> v = int (digits_val s)" by (auto simp: denotes_def)
    then show ?thesis using all [of s] False by (cases "list_all is_digit s") (auto simp: from_chars_def Let_def tw)
  qed
qed

lemma from_chars_ok: "from_chars lo hi s = (Errc_ok, r, n) \<Longrightarrow> \<exists>v. r = Some v"
  by (auto simp: from_chars_def Let_def split: if_splits)

lemma parse_int_iff:
  "parse_int lo hi ty str = Value v \<longleftrightarrow> denotes (trimView str blanks) v \<and> lo \<le> v \<and> v \<le> hi"
  "(\<forall>v. parse_int lo hi ty str \<noteq> Value v) \<longleftrightarrow> parse_int lo hi ty str = makeParseError str ty"
proof -
  let ?s = "trimView str blanks"
  obtain ec r n where f: "from_chars lo hi ?s = (ec, r, n)" by (metis surj_pair)
  have ok: "ec = Errc_ok \<Longrightarrow> \<exists>v. r = Some v" using from_chars_ok f by blast
  show "parse_int lo hi ty str = Value v \<longleftrightarrow> denotes ?s v \<and> lo \<le> v \<and> v \<le> hi"
    using from_chars_whole [of lo hi ?s v] denotes_trimmed [of ?s v] f ok
    by (auto simp: parse_int_def makeParseError_def makeErrorResult_def Let_def)
  show "(\<forall>v. parse_int lo hi ty str \<noteq> Value v) \<longleftrightarrow> parse_int lo hi ty str = makeParseError str ty"
    using f by (auto simp: parse_int_def makeParseError_def makeErrorResult_def Let_def)
qed

section \<open>Properties\<close>

text \<open>
  \<^verbatim>\<open>split\<close> with \<^verbatim>\<open>keepEmpty\<close> loses nothing: joining its parts with the delimiter gives the string back, no
  part contains the delimiter, and without \<^verbatim>\<open>keepEmpty\<close> exactly the empty parts are missing.
\<close>

theorem split_then_join:
  assumes "delim \<noteq> []"
  shows "join (split_str s delim True) delim = s \<and>
    (\<forall>p \<in> set (split_str s delim True). \<not> contains p delim) \<and>
    split_str s delim False = filter (\<lambda>p. p \<noteq> []) (split_str s delim True)"
  using joined_pieces pieces_free [OF assms]
  by (auto simp: split_str_def splitView_pieces join_joined contains_def sv_find_def)

theorem split_then_join_witness:
  "join (split_str ''a::b::::'' ''::'' True) ''::'' = ''a::b::::'' \<and>
    split_str ''a::b::::'' ''::'' False = filter (\<lambda>p. p \<noteq> []) (split_str ''a::b::::'' ''::'' True)"
  using split_then_join [of "''::''" "''a::b::::''"] by simp

text \<open>\<^verbatim>\<open>split\<close> at a character undoes \<^verbatim>\<open>join\<close>, for any parts without that character.\<close>

theorem join_then_split:
  assumes "parts \<noteq> []" "\<forall>p \<in> set parts. c \<notin> set p"
  shows "split_char (join parts [c]) c True = parts"
  using pieces_joined_char [OF assms] by (simp add: split_char_def splitView_char_eq splitView_pieces join_joined)

theorem join_then_split_witness:
  "split_char (join [''key'', [], ''v 1''] '','') CHR '','' True = [''key'', [], ''v 1'']"
  by (rule join_then_split) simp_all

text \<open>\<^verbatim>\<open>replaceAll\<close> is splitting at the old text and joining with the new one, the empty old text included.\<close>

theorem replaceAll_is_split_join: "replaceAll s old new = join (split_str s old True) new"
  by (simp add: replaceAll_def split_str_def splitView_pieces join_joined replace_loop_pieces pieces.simps [of "[]"])

text \<open>
  \<^verbatim>\<open>toInt\<close> and \<^verbatim>\<open>toInt64\<close> accept exactly the decimal notations, possibly between blanks, of the integers in
  the range of the type and give that integer; everything else is the parse error with the input in its message.
\<close>

theorem toInt_exact:
  "(toInt s = Value v \<longleftrightarrow> (\<exists>a t b. s = a @ t @ b \<and> set a \<subseteq> set blanks \<and> set b \<subseteq> set blanks \<and> denotes t v) \<and> - (2 ^ 31) \<le> v \<and> v < 2 ^ 31) \<and>
   (toInt64 s = Value v \<longleftrightarrow> (\<exists>a t b. s = a @ t @ b \<and> set a \<subseteq> set blanks \<and> set b \<subseteq> set blanks \<and> denotes t v) \<and> - (2 ^ 63) \<le> v \<and> v < 2 ^ 63) \<and>
   (toInt s = makeParseError s ''int32'' \<longleftrightarrow> (\<forall>v. toInt s \<noteq> Value v)) \<and>
   (toInt64 s = makeParseError s ''int64'' \<longleftrightarrow> (\<forall>v. toInt64 s \<noteq> Value v))"
proof -
  have t: "denotes (trimView s blanks) v \<longleftrightarrow>
      (\<exists>a t b. s = a @ t @ b \<and> set a \<subseteq> set blanks \<and> set b \<subseteq> set blanks \<and> denotes t v)"
    using trimView_iff [of s blanks] denotes_trimmed [of _ v] by metis
  show ?thesis unfolding toInt_def toInt64_def parse_int_iff(1) t parse_int_iff(2) [symmetric] zle_diff1_eq by blast
qed

end
