(* ===== verification/BlockingQueue.thy ===== *)
theory BlockingQueue
  imports Prelude
begin

text \<open>
  \<^verbatim>\<open>dbase::sync::BlockingQueue\<close> (\<^verbatim>\<open>code/include/dbase/sync/blocking_queue.h\<close>), with the threads that
  call it. Every section of a member function under the mutex is one step, and so is every notification that is
  sent after the mutex has been released; steps of different threads interleave in any order. A thread
  that waits on a condition variable leaves it by a notification, by a spurious wakeup or (\<^verbatim>\<open>popFor\<close>) by the
  timeout, and then takes the mutex again and tests the predicate. \<open>bq_log\<close> records what the calls returned.
\<close>

section \<open>State\<close>

datatype wait_mode = Forever | Timed | Expired

text \<open>
  Where a thread is: outside; before the mutex in \<^verbatim>\<open>emplace\<close> (also after a wakeup), waiting for \<^verbatim>\<open>m_notFull\<close>,
  about to notify \<^verbatim>\<open>m_notEmpty\<close>; and the same for \<^verbatim>\<open>pop\<close> and \<^verbatim>\<open>popFor\<close>.
\<close>

datatype 'v pc =
    Outside | EmplaceLock 'v | EmplaceWait 'v | EmplaceNotify
  | PopLock wait_mode | PopWait wait_mode | PopNotify

datatype 'v bq_event = Accepted 'v | Delivered 'v | Stopped_thrown | Nullopt | Refused

record 'v BlockingQueue =
  bq_capacity :: nat
  bq_queue :: "'v list"
  bq_stopped :: bool
  bq_pc :: "'v pc list"
  bq_log :: "(nat \<times> 'v bq_event) list"

definition mk_BlockingQueue :: "nat \<Rightarrow> nat \<Rightarrow> 'v BlockingQueue" where
  "mk_BlockingQueue capacity threads =
     \<lparr>bq_capacity = capacity, bq_queue = [], bq_stopped = False, bq_pc = replicate threads Outside, bq_log = []\<rparr>"

definition goto :: "nat \<Rightarrow> 'v pc \<Rightarrow> 'v BlockingQueue \<Rightarrow> 'v BlockingQueue" where
  "goto t p s = s\<lparr>bq_pc := (bq_pc s)[t := p]\<rparr>"

definition returns :: "nat \<Rightarrow> 'v bq_event \<Rightarrow> 'v BlockingQueue \<Rightarrow> 'v BlockingQueue" where
  "returns t e s = s\<lparr>bq_log := bq_log s @ [(t, e)]\<rparr>"

section \<open>Operations\<close>

definition waitUntilPushable :: "'v BlockingQueue \<Rightarrow> bool" where
  "waitUntilPushable s \<longleftrightarrow> bq_stopped s \<or> bq_capacity s = 0 \<or> length (bq_queue s) < bq_capacity s"

definition poppable :: "'v BlockingQueue \<Rightarrow> bool" where
  "poppable s \<longleftrightarrow> bq_stopped s \<or> bq_queue s \<noteq> []"

definition bq_emplace :: "nat \<Rightarrow> 'v \<Rightarrow> 'v BlockingQueue \<Rightarrow> 'v BlockingQueue" where
  "bq_emplace t v s =
     (if \<not> waitUntilPushable s then goto t (EmplaceWait v) s
      else if bq_stopped s then goto t Outside (returns t Stopped_thrown s)
      else goto t EmplaceNotify (returns t (Accepted v) (s\<lparr>bq_queue := bq_queue s @ [v]\<rparr>)))"

definition bq_pop_front :: "nat \<Rightarrow> 'v BlockingQueue \<Rightarrow> 'v BlockingQueue" where
  "bq_pop_front t s =
     (case bq_queue s of
        [] \<Rightarrow> goto t Outside (returns t Stopped_thrown s)
      | v # vs \<Rightarrow> goto t PopNotify (returns t (Delivered v) (s\<lparr>bq_queue := vs\<rparr>)))"

definition bq_pop :: "nat \<Rightarrow> wait_mode \<Rightarrow> 'v BlockingQueue \<Rightarrow> 'v BlockingQueue" where
  "bq_pop t mode s =
     (if \<not> poppable s
      then (if mode = Expired then goto t Outside (returns t Nullopt s) else goto t (PopWait mode) s)
      else bq_pop_front t s)"

text \<open>\<^verbatim>\<open>notify_one\<close> wakes a waiting thread \<open>u\<close> of its choice, or none when no thread waits.\<close>

fun notify_notEmpty :: "nat option \<Rightarrow> 'v BlockingQueue \<Rightarrow> 'v BlockingQueue" where
  "notify_notEmpty None s = s"
| "notify_notEmpty (Some u) s = (case bq_pc s ! u of PopWait m \<Rightarrow> goto u (PopLock m) s | _ \<Rightarrow> s)"

fun notify_notFull :: "nat option \<Rightarrow> 'v BlockingQueue \<Rightarrow> 'v BlockingQueue" where
  "notify_notFull None s = s"
| "notify_notFull (Some u) s = (case bq_pc s ! u of EmplaceWait v \<Rightarrow> goto u (EmplaceLock v) s | _ \<Rightarrow> s)"

fun pop_waits :: "'v pc \<Rightarrow> bool" where
  "pop_waits (PopWait m) = True"
| "pop_waits _ = False"

fun emplace_waits :: "'v pc \<Rightarrow> bool" where
  "emplace_waits (EmplaceWait v) = True"
| "emplace_waits _ = False"

definition chosen :: "('v pc \<Rightarrow> bool) \<Rightarrow> nat option \<Rightarrow> 'v BlockingQueue \<Rightarrow> bool" where
  "chosen waits u s =
     (case u of None \<Rightarrow> list_all (\<lambda>p. \<not> waits p) (bq_pc s)
      | Some i \<Rightarrow> i < length (bq_pc s) \<and> waits (bq_pc s ! i))"

definition tryEmplaceImpl :: "nat \<Rightarrow> 'v \<Rightarrow> nat option \<Rightarrow> 'v BlockingQueue \<Rightarrow> 'v BlockingQueue" where
  "tryEmplaceImpl t v u s =
     (if bq_stopped s \<or> bq_capacity s \<noteq> 0 \<and> length (bq_queue s) \<ge> bq_capacity s then returns t Refused s
      else notify_notEmpty u (returns t (Accepted v) (s\<lparr>bq_queue := bq_queue s @ [v]\<rparr>)))"

definition tryPop :: "nat \<Rightarrow> 'v BlockingQueue \<Rightarrow> 'v BlockingQueue" where
  "tryPop t s = (if bq_queue s = [] then returns t Nullopt s else bq_pop_front t s)"

text \<open>\<^verbatim>\<open>notify_all\<close> on both condition variables.\<close>

fun woken :: "'v pc \<Rightarrow> 'v pc" where
  "woken (PopWait m) = PopLock m"
| "woken (EmplaceWait v) = EmplaceLock v"
| "woken p = p"

definition bq_stop :: "'v BlockingQueue \<Rightarrow> 'v BlockingQueue" where
  "bq_stop s = (if bq_stopped s then s else s\<lparr>bq_stopped := True, bq_pc := map woken (bq_pc s)\<rparr>)"

definition bq_empty :: "'v BlockingQueue \<Rightarrow> bool" where
  "bq_empty s \<longleftrightarrow> bq_queue s = []"

definition bq_size :: "'v BlockingQueue \<Rightarrow> nat" where
  "bq_size s = length (bq_queue s)"

section \<open>Steps\<close>

abbreviation at :: "nat \<Rightarrow> 'v pc \<Rightarrow> 'v BlockingQueue \<Rightarrow> bool" where
  "at t p s \<equiv> t < length (bq_pc s) \<and> bq_pc s ! t = p"

text \<open>The threads inside go on.\<close>

inductive bq_run :: "'v BlockingQueue \<Rightarrow> 'v BlockingQueue \<Rightarrow> bool" where
  emplace: "at t (EmplaceLock v) s \<Longrightarrow> bq_run s (bq_emplace t v s)"
| emplace_notify: "at t EmplaceNotify s \<Longrightarrow> chosen pop_waits u s \<Longrightarrow> bq_run s (goto t Outside (notify_notEmpty u s))"
| pop: "at t (PopLock m) s \<Longrightarrow> bq_run s (bq_pop t m s)"
| pop_notify: "at t PopNotify s \<Longrightarrow> chosen emplace_waits u s \<Longrightarrow> bq_run s (goto t Outside (notify_notFull u s))"

text \<open>All steps: also new calls, the operations that do not block, spurious wakeups and timeouts.\<close>

inductive bq_step :: "'v BlockingQueue \<Rightarrow> 'v BlockingQueue \<Rightarrow> bool" where
  run: "bq_run s s' \<Longrightarrow> bq_step s s'"
| call_push: "at t Outside s \<Longrightarrow> bq_step s (goto t (EmplaceLock v) s)"
| call_pop: "at t Outside s \<Longrightarrow> bq_step s (goto t (PopLock Forever) s)"
| call_popFor: "at t Outside s \<Longrightarrow> bq_step s (goto t (PopLock Timed) s)"
| try_push: "at t Outside s \<Longrightarrow> chosen pop_waits u s \<Longrightarrow> bq_step s (tryEmplaceImpl t v u s)"
| try_pop: "at t Outside s \<Longrightarrow> bq_step s (tryPop t s)"
| stop: "bq_step s (bq_stop s)"
| spurious_pop: "at t (PopWait m) s \<Longrightarrow> bq_step s (goto t (PopLock m) s)"
| spurious_push: "at t (EmplaceWait v) s \<Longrightarrow> bq_step s (goto t (EmplaceLock v) s)"
| timeout: "at t (PopWait Timed) s \<Longrightarrow> bq_step s (goto t (PopLock Expired) s)"

section \<open>Invariants\<close>

definition accepted :: "'v BlockingQueue \<Rightarrow> 'v list" where
  "accepted s = concat (map (\<lambda>(_, e). case e of Accepted v \<Rightarrow> [v] | _ \<Rightarrow> []) (bq_log s))"

definition delivered :: "'v BlockingQueue \<Rightarrow> 'v list" where
  "delivered s = concat (map (\<lambda>(_, e). case e of Delivered v \<Rightarrow> [v] | _ \<Rightarrow> []) (bq_log s))"

definition fifo_ok :: "'v BlockingQueue \<Rightarrow> bool" where
  "fifo_ok s \<longleftrightarrow> accepted s = delivered s @ bq_queue s \<and> (bq_capacity s = 0 \<or> length (bq_queue s) \<le> bq_capacity s)"

definition count_pc :: "('v pc \<Rightarrow> bool) \<Rightarrow> 'v BlockingQueue \<Rightarrow> nat" where
  "count_pc P s = length (filter P (bq_pc s))"

text \<open>The threads that will look at the queue, or wake one that waits.\<close>

fun serves_pop :: "'v pc \<Rightarrow> bool" where
  "serves_pop EmplaceNotify = True"
| "serves_pop (PopLock m) = True"
| "serves_pop _ = False"

fun serves_push :: "'v pc \<Rightarrow> bool" where
  "serves_push PopNotify = True"
| "serves_push (EmplaceLock v) = True"
| "serves_push _ = False"

definition wakeups_ok :: "'v BlockingQueue \<Rightarrow> bool" where
  "wakeups_ok s \<longleftrightarrow>
     (0 < count_pc pop_waits s \<longrightarrow> \<not> bq_stopped s \<and> length (bq_queue s) \<le> count_pc serves_pop s) \<and>
     (0 < count_pc emplace_waits s \<longrightarrow> \<not> bq_stopped s \<and> bq_capacity s \<noteq> 0 \<and>
        bq_capacity s \<le> length (bq_queue s) + count_pc serves_push s)"

lemma sel_simps [simp]:
  "bq_capacity (goto t p s) = bq_capacity s" "bq_queue (goto t p s) = bq_queue s" "bq_stopped (goto t p s) = bq_stopped s"
  "bq_log (goto t p s) = bq_log s" "bq_pc (goto t p s) = (bq_pc s)[t := p]"
  "bq_capacity (returns t e s) = bq_capacity s" "bq_queue (returns t e s) = bq_queue s" "bq_stopped (returns t e s) = bq_stopped s"
  "bq_log (returns t e s) = bq_log s @ [(t, e)]" "bq_pc (returns t e s) = bq_pc s"
  by (simp_all add: goto_def returns_def)

lemma notify_sel [simp]:
  "bq_capacity (notify_notEmpty u s) = bq_capacity s" "bq_queue (notify_notEmpty u s) = bq_queue s"
  "bq_stopped (notify_notEmpty u s) = bq_stopped s" "bq_log (notify_notEmpty u s) = bq_log s"
  "bq_capacity (notify_notFull u s) = bq_capacity s" "bq_queue (notify_notFull u s) = bq_queue s"
  "bq_stopped (notify_notFull u s) = bq_stopped s" "bq_log (notify_notFull u s) = bq_log s"
  "length (bq_pc (notify_notEmpty u s)) = length (bq_pc s)" "length (bq_pc (notify_notFull u s)) = length (bq_pc s)"
  by (cases u; simp split: pc.split)+

lemmas bq_ops = bq_emplace_def bq_pop_def bq_pop_front_def tryEmplaceImpl_def tryPop_def bq_stop_def

lemma fifo_run: "bq_run s s' \<Longrightarrow> fifo_ok s \<Longrightarrow> fifo_ok s'"
  by (induction rule: bq_run.induct)
    (auto simp: fifo_ok_def accepted_def delivered_def bq_ops waitUntilPushable_def poppable_def split: list.split)

lemma fifo_step: "bq_step s s' \<Longrightarrow> fifo_ok s \<Longrightarrow> fifo_ok s'"
  by (induction rule: bq_step.induct)
    (erule (1) fifo_run, auto simp: fifo_ok_def accepted_def delivered_def bq_ops waitUntilPushable_def poppable_def split: list.split)

lemma count_goto:
  assumes "t < length (bq_pc s)"
  shows "count_pc P (goto t p s) + of_bool (P (bq_pc s ! t)) = count_pc P s + of_bool (P p)"
  using sum_list_replace [OF assms, of "\<lambda>x. of_bool (P x)" p] by (simp add: count_pc_def length_filter_sum)

lemma count_cong [simp]: "count_pc P (returns t e s) = count_pc P s" "count_pc P (s\<lparr>bq_queue := q\<rparr>) = count_pc P s"
  by (simp_all add: count_pc_def)

lemma count_pos: "t < length (bq_pc s) \<Longrightarrow> P (bq_pc s ! t) \<Longrightarrow> 0 < count_pc P s"
  by (auto simp: count_pc_def filter_empty_conv intro: nth_mem)

lemma count_zero: "count_pc P s = 0 \<longleftrightarrow> (\<forall>p \<in> set (bq_pc s). \<not> P p)"
  by (simp add: count_pc_def filter_empty_conv)

lemmas pc_counts = count_goto [of _ _ pop_waits] count_goto [of _ _ emplace_waits] count_goto [of _ _ serves_pop] count_goto [of _ _ serves_push]

lemma woken_counts: "count_pc pop_waits (s\<lparr>bq_stopped := b, bq_pc := map woken (bq_pc s)\<rparr>) = 0"
  "count_pc emplace_waits (s\<lparr>bq_stopped := b, bq_pc := map woken (bq_pc s)\<rparr>) = 0"
proof -
  have "\<not> pop_waits (woken p) \<and> \<not> emplace_waits (woken p)" for p :: "'a pc" by (cases p) simp_all
  then show "count_pc pop_waits (s\<lparr>bq_stopped := b, bq_pc := map woken (bq_pc s)\<rparr>) = 0"
    "count_pc emplace_waits (s\<lparr>bq_stopped := b, bq_pc := map woken (bq_pc s)\<rparr>) = 0" by (auto simp: count_zero)
qed

text \<open>A notification moves a waiting thread to the mutex, or nobody waits.\<close>

lemma notify_notEmpty_counts:
  assumes "chosen pop_waits u s"
  shows "(count_pc pop_waits s = 0 \<and> notify_notEmpty u s = s) \<or>
    (count_pc pop_waits (notify_notEmpty u s) + 1 = count_pc pop_waits s \<and>
     count_pc serves_pop (notify_notEmpty u s) = count_pc serves_pop s + 1 \<and>
     count_pc emplace_waits (notify_notEmpty u s) = count_pc emplace_waits s \<and>
     count_pc serves_push (notify_notEmpty u s) = count_pc serves_push s)"
proof (cases u)
  case (Some i)
  then obtain m where i: "i < length (bq_pc s)" "bq_pc s ! i = PopWait m"
    using assms by (cases "bq_pc s ! i") (auto simp: chosen_def)
  then show ?thesis using Some pc_counts [OF i(1), of "PopLock m"] by simp
qed (use assms in \<open>auto simp: chosen_def count_zero list_all_iff\<close>)

lemma notify_notFull_counts:
  assumes "chosen emplace_waits u s"
  shows "(count_pc emplace_waits s = 0 \<and> notify_notFull u s = s) \<or>
    (count_pc emplace_waits (notify_notFull u s) + 1 = count_pc emplace_waits s \<and>
     count_pc serves_push (notify_notFull u s) = count_pc serves_push s + 1 \<and>
     count_pc pop_waits (notify_notFull u s) = count_pc pop_waits s \<and>
     count_pc serves_pop (notify_notFull u s) = count_pc serves_pop s)"
proof (cases u)
  case (Some i)
  then obtain v where i: "i < length (bq_pc s)" "bq_pc s ! i = EmplaceWait v"
    using assms by (cases "bq_pc s ! i") (auto simp: chosen_def)
  then show ?thesis using Some pc_counts [OF i(1), of "EmplaceLock v"] by simp
qed (use assms in \<open>auto simp: chosen_def count_zero list_all_iff\<close>)

lemma goto_notify:
  assumes "at t p s"
  shows "\<not> pop_waits p \<Longrightarrow> bq_pc (notify_notEmpty u s) ! t = p" "\<not> emplace_waits p \<Longrightarrow> bq_pc (notify_notFull u s) ! t = p"
proof -
  show "bq_pc (notify_notEmpty u s) ! t = p" if "\<not> pop_waits p"
  proof (cases u)
    case (Some i)
    then show ?thesis using assms that by (cases "bq_pc s ! i"; cases "i = t") simp_all
  qed (use assms in simp)
  show "bq_pc (notify_notFull u s) ! t = p" if "\<not> emplace_waits p"
  proof (cases u)
    case (Some i)
    then show ?thesis using assms that by (cases "bq_pc s ! i"; cases "i = t") simp_all
  qed (use assms in simp)
qed

lemma wakeups_run: "bq_run s s' \<Longrightarrow> wakeups_ok s \<Longrightarrow> wakeups_ok s'"
proof (induction rule: bq_run.induct)
  case (emplace t v s)
  let ?s = "returns t (Accepted v) (s\<lparr>bq_queue := bq_queue s @ [v]\<rparr>)"
  show ?case using emplace pc_counts [of t s "EmplaceWait v"] pc_counts [of t "returns t Stopped_thrown s" Outside]
      pc_counts [of t ?s EmplaceNotify]
    by (auto simp: bq_emplace_def wakeups_ok_def waitUntilPushable_def)
next
  case (emplace_notify t s u)
  have "bq_pc (notify_notEmpty u s) ! t = EmplaceNotify" using goto_notify(1) emplace_notify.hyps(1) by force
  then show ?case using emplace_notify notify_notEmpty_counts [OF emplace_notify.hyps(2)] pc_counts [of t "notify_notEmpty u s" Outside]
    by (auto simp: wakeups_ok_def)
next
  case (pop t m s)
  show ?case
  proof (cases "bq_queue s")
    case Nil
    then show ?thesis using pop pc_counts [of t s "PopWait m"] pc_counts [of t "returns t Nullopt s" Outside] pc_counts [of t "returns t Stopped_thrown s" Outside]
      by (auto simp: bq_pop_def bq_pop_front_def wakeups_ok_def poppable_def)
  next
    case (Cons v vs)
    then show ?thesis using pop pc_counts [of t "returns t (Delivered v) (s\<lparr>bq_queue := vs\<rparr>)" PopNotify]
      by (auto simp: bq_pop_def bq_pop_front_def wakeups_ok_def poppable_def)
  qed
next
  case (pop_notify t s u)
  have "bq_pc (notify_notFull u s) ! t = PopNotify" using goto_notify(2) pop_notify.hyps(1) by force
  then show ?case using pop_notify notify_notFull_counts [OF pop_notify.hyps(2)] pc_counts [of t "notify_notFull u s" Outside]
    by (auto simp: wakeups_ok_def)
qed

lemma wakeups_step: "bq_step s s' \<Longrightarrow> wakeups_ok s \<Longrightarrow> wakeups_ok s'"
proof (induction rule: bq_step.induct)
  case (run s s')
  then show ?case using wakeups_run by blast
next
  case (call_push t s v)
  then show ?case using pc_counts [of t s "EmplaceLock v"] by (auto simp: wakeups_ok_def)
next
  case (call_pop t s)
  then show ?case using pc_counts [of t s "PopLock Forever"] by (auto simp: wakeups_ok_def)
next
  case (call_popFor t s)
  then show ?case using pc_counts [of t s "PopLock Timed"] by (auto simp: wakeups_ok_def)
next
  case (try_push t s u v)
  let ?s = "returns t (Accepted v) (s\<lparr>bq_queue := bq_queue s @ [v]\<rparr>)"
  have "chosen pop_waits u ?s" using try_push.hyps(2) by (cases u) (simp_all add: chosen_def)
  then show ?case using try_push notify_notEmpty_counts [of u ?s] by (auto simp: tryEmplaceImpl_def wakeups_ok_def)
next
  case (try_pop t s)
  show ?case
  proof (cases "bq_queue s")
    case (Cons v vs)
    then show ?thesis using try_pop pc_counts [of t "returns t (Delivered v) (s\<lparr>bq_queue := vs\<rparr>)" PopNotify]
      by (auto simp: tryPop_def bq_pop_front_def wakeups_ok_def)
  qed (use try_pop in \<open>simp add: tryPop_def wakeups_ok_def\<close>)
next
  case (stop s)
  then show ?case by (auto simp: bq_stop_def wakeups_ok_def woken_counts)
next
  case (spurious_pop t m s)
  then show ?case using pc_counts [of t s "PopLock m"] by (auto simp: wakeups_ok_def)
next
  case (spurious_push t v s)
  then show ?case using pc_counts [of t s "EmplaceLock v"] by (auto simp: wakeups_ok_def)
next
  case (timeout t s)
  then show ?case using pc_counts [of t s "PopLock Expired"] by (auto simp: wakeups_ok_def)
qed

interpretation bq: step_machine bq_step "\<lambda>s. fifo_ok s \<and> wakeups_ok s"
  by unfold_locales (blast intro: fifo_step wakeups_step)

lemma mk_ok: "fifo_ok (mk_BlockingQueue c n) \<and> wakeups_ok (mk_BlockingQueue c n)"
  by (auto simp: fifo_ok_def wakeups_ok_def mk_BlockingQueue_def accepted_def delivered_def count_pc_def filter_empty_conv)

section \<open>Progress\<close>

text \<open>
  What the threads inside can still do: a thread at the mutex blocks or finishes, and one that notifies moves one
  waiting thread back to the mutex, so the weights below go down with every step.
\<close>

fun pc_work :: "'v pc \<Rightarrow> nat" where
  "pc_work Outside = 0"
| "pc_work (EmplaceLock v) = 3"
| "pc_work (PopLock m) = 3"
| "pc_work _ = 2"

definition work :: "'v BlockingQueue \<Rightarrow> nat" where
  "work s = sum_list (map pc_work (bq_pc s))"

lemma work_bound: "work s \<le> 3 * length (bq_pc s)"
proof -
  have "sum_list (map pc_work ps) \<le> 3 * length ps" for ps :: "'a pc list"
  proof (induction ps)
    case (Cons p ps)
    then show ?case by (cases p) simp_all
  qed simp
  then show ?thesis by (simp add: work_def)
qed

lemma work_cong [simp]: "work (returns t e s) = work s" "work (s\<lparr>bq_queue := q\<rparr>) = work s"
  by (simp_all add: work_def)

lemma work_goto: "t < length (bq_pc s) \<Longrightarrow> work (goto t p s) + pc_work (bq_pc s ! t) = work s + pc_work p"
  using sum_list_replace [of t "bq_pc s" pc_work p] by (simp add: work_def)

lemma work_notify:
  assumes "chosen pop_waits u s" shows "work (notify_notEmpty u s) \<le> work s + 1"
proof (cases u)
  case (Some i)
  then obtain m where i: "i < length (bq_pc s)" "bq_pc s ! i = PopWait m"
    using assms by (cases "bq_pc s ! i") (auto simp: chosen_def)
  then show ?thesis using Some work_goto [OF i(1), of "PopLock m"] by simp
qed simp

lemma work_notify_full:
  assumes "chosen emplace_waits u s" shows "work (notify_notFull u s) \<le> work s + 1"
proof (cases u)
  case (Some i)
  then obtain v where i: "i < length (bq_pc s)" "bq_pc s ! i = EmplaceWait v"
    using assms by (cases "bq_pc s ! i") (auto simp: chosen_def)
  then show ?thesis using Some work_goto [OF i(1), of "EmplaceLock v"] by simp
qed simp

lemma run_works: "bq_run s s' \<Longrightarrow> work s' < work s"
proof (induction rule: bq_run.induct)
  case (emplace t v s)
  let ?s = "returns t (Accepted v) (s\<lparr>bq_queue := bq_queue s @ [v]\<rparr>)"
  show ?case using emplace work_goto [of t s "EmplaceWait v"] work_goto [of t "returns t Stopped_thrown s" Outside]
      work_goto [of t ?s EmplaceNotify] by (auto simp: bq_emplace_def)
next
  case (emplace_notify t s u)
  then show ?case using work_notify [OF emplace_notify(2)] work_goto [of t "notify_notEmpty u s" Outside] goto_notify(1) [of t s EmplaceNotify u] by simp
next
  case (pop t m s)
  then show ?case using work_goto [of t s "PopWait m"] work_goto [of t "returns t Nullopt s" Outside] work_goto [of t "returns t Stopped_thrown s" Outside]
      work_goto [of t "returns t (Delivered (hd (bq_queue s))) (s\<lparr>bq_queue := tl (bq_queue s)\<rparr>)" PopNotify]
    by (cases "bq_queue s") (auto simp: bq_pop_def bq_pop_front_def)
next
  case (pop_notify t s u)
  then show ?case using work_notify_full [OF pop_notify(2)] work_goto [of t "notify_notFull u s" Outside] goto_notify(2) [of t s PopNotify u] by simp
qed

lemma runs_work: "(bq_run ^^ n) s s' \<Longrightarrow> work s' + n \<le> work s"
proof (induction n arbitrary: s')
  case (Suc n)
  then obtain t where "(bq_run ^^ n) s t" "bq_run t s'" by auto
  then show ?case using Suc.IH [of t] run_works by fastforce
qed simp

lemma chosen_ex: "\<exists>u. chosen P u s"
proof (cases "list_all (\<lambda>p. \<not> P p) (bq_pc s)")
  case True
  then show ?thesis by (intro exI [of _ None]) (simp add: chosen_def)
next
  case False
  then obtain i where "i < length (bq_pc s)" "P (bq_pc s ! i)" by (auto simp: list_all_iff in_set_conv_nth)
  then show ?thesis by (intro exI [of _ "Some i"]) (simp add: chosen_def)
qed

lemma run_progress:
  assumes "at t p s" "p \<noteq> Outside" "\<not> pop_waits p" "\<not> emplace_waits p"
  shows "\<exists>s'. bq_run s s'"
  using assms chosen_ex [of pop_waits s] chosen_ex [of emplace_waits s]
  by (cases p) (metis bq_run.intros pop_waits.simps(1) emplace_waits.simps(1))+

text \<open>A state in which no thread inside can go on.\<close>

definition settled :: "'v BlockingQueue \<Rightarrow> bool" where
  "settled s \<longleftrightarrow> (\<forall>s'. \<not> bq_run s s')"

lemma settled_blocked:
  assumes "settled s" "wakeups_ok s"
  shows "p \<in> set (bq_pc s) \<Longrightarrow> p = Outside \<or> pop_waits p \<or> emplace_waits p"
    "pop_waits p \<Longrightarrow> p \<in> set (bq_pc s) \<Longrightarrow> bq_queue s = [] \<and> \<not> bq_stopped s"
    "emplace_waits p \<Longrightarrow> p \<in> set (bq_pc s) \<Longrightarrow> bq_capacity s \<noteq> 0 \<and> bq_capacity s \<le> length (bq_queue s) \<and> \<not> bq_stopped s"
proof -
  have b: "p = Outside \<or> pop_waits p \<or> emplace_waits p" if "p \<in> set (bq_pc s)" for p
    using run_progress [of _ s p] assms(1) that by (auto simp: settled_def in_set_conv_nth)
  then show "p \<in> set (bq_pc s) \<Longrightarrow> p = Outside \<or> pop_waits p \<or> emplace_waits p" by blast
  have "\<not> serves_pop p \<and> \<not> serves_push p" if "p \<in> set (bq_pc s)" for p
    using b [OF that] by (cases p) simp_all
  then have z: "count_pc serves_pop s = 0" "count_pc serves_push s = 0" by (auto simp: count_zero)
  show "bq_queue s = [] \<and> \<not> bq_stopped s" if "pop_waits p" "p \<in> set (bq_pc s)"
    using assms(2) z that count_zero [of pop_waits s] by (auto simp: wakeups_ok_def)
  show "bq_capacity s \<noteq> 0 \<and> bq_capacity s \<le> length (bq_queue s) \<and> \<not> bq_stopped s" if "emplace_waits p" "p \<in> set (bq_pc s)"
    using assms(2) z that count_zero [of emplace_waits s] by (auto simp: wakeups_ok_def)
qed

text \<open>The capacity and the number of threads never change.\<close>

definition shape :: "'v BlockingQueue \<Rightarrow> nat \<times> nat" where
  "shape s = (bq_capacity s, length (bq_pc s))"

lemma shape_run: "bq_run s s' \<Longrightarrow> shape s' = shape s"
  by (induction rule: bq_run.induct) (auto simp: shape_def bq_ops split: list.split)

lemma shape_step: "bq_step s s' \<Longrightarrow> shape s' = shape s"
  by (induction rule: bq_step.induct) (erule shape_run, auto simp: shape_def bq_ops split: list.split)

interpretation bq_shape: step_machine bq_step "\<lambda>s. shape s = sh" for sh
  by unfold_locales (simp add: shape_step)

lemma runs_steps: "(bq_run ^^ n) s s' \<Longrightarrow> bq_step\<^sup>*\<^sup>* s s'"
proof (induction n arbitrary: s')
  case (Suc n)
  then show ?case by (auto intro: rtranclp.rtrancl_into_rtrancl bq_step.run)
qed simp

lemma reachable_ok:
  assumes "bq_step\<^sup>*\<^sup>* (mk_BlockingQueue c n) s"
  shows "fifo_ok s" "wakeups_ok s" "bq_capacity s = c" "length (bq_pc s) = n"
  using bq.reach_inv [OF assms mk_ok] bq_shape.reach_inv [OF assms refl] by (auto simp: shape_def mk_BlockingQueue_def)

section \<open>Properties\<close>

text \<open>
  C19: The queue is a bounded first-in first-out channel for any number of threads. In every state that any
  interleaving of calls reaches, the values delivered so far followed by the values in the queue are the values accepted so
  far, in that order, and the queue never holds more than its capacity.
\<close>

theorem bq_fifo:
  assumes "bq_step\<^sup>*\<^sup>* (mk_BlockingQueue capacity threads) s"
  shows "accepted s = delivered s @ bq_queue s \<and> (capacity = 0 \<or> bq_size s \<le> capacity)"
  using reachable_ok [OF assms] by (simp add: fifo_ok_def bq_size_def)

text \<open>A pop that waits, and a push that serves it.\<close>

definition demo_calls :: "nat BlockingQueue" where
  "demo_calls = goto 1 (EmplaceLock 7) (goto 0 (PopLock Forever) (mk_BlockingQueue 1 2))"

definition demo_run :: "nat BlockingQueue" where
  "demo_run = goto 0 Outside (bq_pop 0 Forever (goto 1 Outside (notify_notEmpty (Some 0) (bq_emplace 1 7 (bq_pop 0 Forever demo_calls)))))"

lemma replicate_two: "replicate 2 x = [x, x]"
  by (simp add: numeral_2_eq_2)

lemmas demo_defs = replicate_two demo_calls_def demo_run_def goto_def mk_BlockingQueue_def bq_pop_def bq_pop_front_def bq_emplace_def
  returns_def poppable_def waitUntilPushable_def

lemma demo_reachable: "bq_step\<^sup>*\<^sup>* (mk_BlockingQueue 1 2) demo_calls"
proof -
  let ?s = "mk_BlockingQueue 1 2 :: nat BlockingQueue"
  have "bq_step ?s (goto 0 (PopLock Forever) ?s)" by (rule bq_step.call_pop) (simp add: mk_BlockingQueue_def)
  moreover have "bq_step (goto 0 (PopLock Forever) ?s) demo_calls"
    unfolding demo_calls_def by (rule bq_step.call_push) (simp add: mk_BlockingQueue_def)
  ultimately show ?thesis by simp
qed

lemma demo_runs: "(bq_run ^^ 5) demo_calls demo_run"
proof -
  let ?s1 = "bq_pop 0 Forever demo_calls"
  let ?s2 = "bq_emplace 1 7 ?s1"
  let ?s3 = "goto 1 Outside (notify_notEmpty (Some 0) ?s2)"
  let ?s4 = "bq_pop 0 Forever ?s3"
  have "bq_run demo_calls ?s1" by (rule bq_run.pop) (simp add: demo_defs)
  moreover have "bq_run ?s1 ?s2" by (rule bq_run.emplace) (simp add: demo_defs)
  moreover have "bq_run ?s2 ?s3" by (rule bq_run.emplace_notify) (simp_all add: demo_defs chosen_def)
  moreover have "bq_run ?s3 ?s4" by (rule bq_run.pop) (simp add: demo_defs)
  moreover have "bq_run ?s4 (goto 0 Outside (notify_notFull None ?s4))"
    by (rule bq_run.pop_notify) (simp_all add: demo_defs chosen_def)
  ultimately have "(bq_run ^^ Suc (Suc (Suc (Suc (Suc 0))))) demo_calls (goto 0 Outside (notify_notFull None ?s4))"
    by (auto simp: relcompp_apply)
  then show ?thesis by (simp add: demo_run_def numeral_eq_Suc)
qed

theorem bq_fifo_witness:
  "bq_step\<^sup>*\<^sup>* (mk_BlockingQueue 1 2) demo_run \<and> accepted demo_run = [7] \<and> delivered demo_run = [7] \<and> bq_queue demo_run = []"
proof -
  have r: "bq_step\<^sup>*\<^sup>* (mk_BlockingQueue 1 2) demo_run"
    using demo_reachable runs_steps [OF demo_runs] by simp
  moreover have "accepted demo_run = [7]" "bq_queue demo_run = []" by (simp_all add: demo_defs accepted_def)
  ultimately show ?thesis using bq_fifo [OF r] by simp
qed

text \<open>
  C18: No wakeup is lost and no deadlock arises. From any reachable state the threads inside make at most three steps
  each before none can go on, however they are scheduled and whichever waiting thread each notification chooses; then every thread has
  returned, or waits in a pop while the queue is empty, or waits in a push while it is full, and none waits
  once the queue has been stopped.
\<close>

theorem bq_no_lost_wakeup:
  assumes "bq_step\<^sup>*\<^sup>* (mk_BlockingQueue capacity threads) s" "(bq_run ^^ n) s s'"
  shows "n \<le> 3 * threads \<and> (settled s' \<longrightarrow> (\<forall>p \<in> set (bq_pc s').
      p = Outside \<or> (pop_waits p \<and> bq_queue s' = [] \<and> \<not> bq_stopped s') \<or>
      (emplace_waits p \<and> capacity \<noteq> 0 \<and> bq_size s' = capacity \<and> \<not> bq_stopped s')))"
proof -
  have r: "bq_step\<^sup>*\<^sup>* (mk_BlockingQueue capacity threads) s'" using assms(1) runs_steps [OF assms(2)] by simp
  note ok = reachable_ok [OF r]
  have "n \<le> 3 * threads" using runs_work [OF assms(2)] work_bound [of s] reachable_ok(4) [OF assms(1)] by simp
  moreover have "p = Outside \<or> (pop_waits p \<and> bq_queue s' = [] \<and> \<not> bq_stopped s') \<or>
      (emplace_waits p \<and> capacity \<noteq> 0 \<and> bq_size s' = capacity \<and> \<not> bq_stopped s')" if "settled s'" "p \<in> set (bq_pc s')" for p
    using settled_blocked [OF that(1) ok(2), of p] that(2) ok(1,3) by (auto simp: fifo_ok_def bq_size_def)
  ultimately show ?thesis by blast
qed

theorem bq_no_lost_wakeup_witness:
  "bq_step\<^sup>*\<^sup>* (mk_BlockingQueue 1 2) demo_calls \<and> (bq_run ^^ 5) demo_calls demo_run \<and> (5::nat) \<le> 3 * 2 \<and> bq_pc demo_run = [Outside, Outside]"
proof -
  have "bq_pc demo_run = [Outside, Outside]" by (simp add: demo_defs)
  then show ?thesis using bq_no_lost_wakeup [OF demo_reachable demo_runs] demo_reachable demo_runs by simp
qed

end
