(* ===== verification/ThreadPool.thy ===== *)
theory ThreadPool
  imports BlockingQueue "HOL-Library.Multiset"
begin

text \<open>
  \<^verbatim>\<open>dbase::thread::ThreadPool\<close> (\<^verbatim>\<open>code/src/thread/thread_pool.cpp\<close>, \<^verbatim>\<open>code/include/dbase/thread/thread_pool.h\<close>) on top of
  the blocking queue. The threads of the queue are the workers, numbered from 0, and after them the clients that call
  \<^verbatim>\<open>submit\<close>. A task is a value; running it is one step, recorded in \<open>tp_executed\<close>. A task never throws out of the worker's loop, because
  \<^verbatim>\<open>submit\<close> wraps it in a \<^verbatim>\<open>std::packaged_task\<close>, which keeps the exception for the future. \<^verbatim>\<open>stop\<close> is
  called when \<^verbatim>\<open>start\<close> has returned, and from outside the pool; the failure of the system to create a thread is left out.
\<close>

section \<open>State and operations\<close>

text \<open>Where a worker is in \<^verbatim>\<open>workerLoop\<close>: about to pop or popping, with a task in its hand, or behind the loop.\<close>

datatype 'v worker = W_loop | W_task 'v | W_exit

text \<open>Where the call of \<^verbatim>\<open>stop\<close> that won the exchange of \<^verbatim>\<open>m_stopped\<close> is.\<close>

datatype stop_phase = Not_stopping | Stop_queue | Stop_join | Stop_returned

record 'v ThreadPool =
  tp_threadCount :: nat
  tp_tasks :: "'v BlockingQueue"
  tp_workers :: "'v worker list"
  tp_started :: bool
  tp_stopped :: bool
  tp_stop :: stop_phase
  tp_executed :: "(nat \<times> 'v) list"
  tp_refused :: "(nat \<times> exn) list"

definition mk_ThreadPool :: "nat \<Rightarrow> nat \<Rightarrow> nat \<Rightarrow> 'v ThreadPool outcome" where
  "mk_ThreadPool threadCount queueCapacity clients =
     (if threadCount = 0 then Throw (Invalid_argument ''ThreadPool threadCount must be greater than 0'')
      else Ret \<lparr>tp_threadCount = threadCount, tp_tasks = mk_BlockingQueue queueCapacity (threadCount + clients),
                tp_workers = [], tp_started = False, tp_stopped = True, tp_stop = Not_stopping,
                tp_executed = [], tp_refused = []\<rparr>)"

definition tp_is_started :: "'v ThreadPool \<Rightarrow> bool" where
  "tp_is_started p \<longleftrightarrow> tp_started p \<and> \<not> tp_stopped p"

definition tp_start :: "'v ThreadPool \<Rightarrow> 'v ThreadPool" where
  "tp_start p = (if tp_started p then p else p\<lparr>tp_started := True, tp_stopped := False\<rparr>)"

definition tp_spawn :: "'v ThreadPool \<Rightarrow> 'v ThreadPool" where
  "tp_spawn p = p\<lparr>tp_workers := tp_workers p @ [W_loop]\<rparr>"

text \<open>\<^verbatim>\<open>submit\<close> up to the mutex of the queue, and the push under the mutex.\<close>

definition tp_submit :: "nat \<Rightarrow> 'v \<Rightarrow> 'v ThreadPool \<Rightarrow> 'v ThreadPool" where
  "tp_submit t v p =
     (if \<not> tp_is_started p then p\<lparr>tp_refused := tp_refused p @ [(t, Logic_error ''ThreadPool is not started'')]\<rparr>
      else p\<lparr>tp_tasks := goto t (EmplaceLock v) (tp_tasks p)\<rparr>)"

definition tp_push :: "nat \<Rightarrow> 'v \<Rightarrow> 'v ThreadPool \<Rightarrow> 'v ThreadPool" where
  "tp_push t v p =
     (let p' = p\<lparr>tp_tasks := bq_emplace t v (tp_tasks p)\<rparr>
      in if bq_stopped (tp_tasks p) then p'\<lparr>tp_refused := tp_refused p @ [(t, Logic_error ''ThreadPool is stopped'')]\<rparr> else p')"

text \<open>What \<^verbatim>\<open>popFor(200)\<close> makes of a worker: no task, a task, or the exception that ends the loop.\<close>

definition workerLoop_pop :: "nat \<Rightarrow> wait_mode \<Rightarrow> 'v ThreadPool \<Rightarrow> 'v ThreadPool" where
  "workerLoop_pop i m p =
     p\<lparr>tp_tasks := bq_pop i m (tp_tasks p),
       tp_workers := (tp_workers p)[i :=
         (if \<not> poppable (tp_tasks p) then W_loop
          else case bq_queue (tp_tasks p) of [] \<Rightarrow> W_exit | v # _ \<Rightarrow> W_task v)]\<rparr>"

definition workerLoop_task :: "nat \<Rightarrow> 'v \<Rightarrow> 'v ThreadPool \<Rightarrow> 'v ThreadPool" where
  "workerLoop_task i v p = p\<lparr>tp_executed := tp_executed p @ [(i, v)], tp_workers := (tp_workers p)[i := W_loop]\<rparr>"

definition tp_stop_exchange :: "'v ThreadPool \<Rightarrow> 'v ThreadPool" where
  "tp_stop_exchange p = (if tp_stopped p then p else p\<lparr>tp_stopped := True, tp_stop := Stop_queue\<rparr>)"

definition tp_stop_tasks :: "'v ThreadPool \<Rightarrow> 'v ThreadPool" where
  "tp_stop_tasks p = p\<lparr>tp_tasks := bq_stop (tp_tasks p), tp_stop := Stop_join\<rparr>"

definition tp_stop_joined :: "'v ThreadPool \<Rightarrow> 'v ThreadPool" where
  "tp_stop_joined p = p\<lparr>tp_workers := [], tp_stop := Stop_returned\<rparr>"

definition pendingTaskCount :: "'v ThreadPool \<Rightarrow> nat" where
  "pendingTaskCount p = bq_size (tp_tasks p)"

section \<open>Steps\<close>

definition on_tasks :: "('v BlockingQueue \<Rightarrow> 'v BlockingQueue) \<Rightarrow> 'v ThreadPool \<Rightarrow> 'v ThreadPool" where
  "on_tasks f p = p\<lparr>tp_tasks := f (tp_tasks p)\<rparr>"

text \<open>The workers, and the clients inside \<^verbatim>\<open>submit\<close>, go on.\<close>

inductive tp_run :: "'v ThreadPool \<Rightarrow> 'v ThreadPool \<Rightarrow> bool" where
  push: "at t (EmplaceLock v) (tp_tasks p) \<Longrightarrow> tp_run p (tp_push t v p)"
| push_notify: "at t EmplaceNotify (tp_tasks p) \<Longrightarrow> chosen pop_waits u (tp_tasks p) \<Longrightarrow>
    tp_run p (on_tasks (\<lambda>s. goto t Outside (notify_notEmpty u s)) p)"
| loop: "i < length (tp_workers p) \<Longrightarrow> tp_workers p ! i = W_loop \<Longrightarrow> at i Outside (tp_tasks p) \<Longrightarrow>
    tp_run p (on_tasks (goto i (PopLock Timed)) p)"
| pop: "at i (PopLock m) (tp_tasks p) \<Longrightarrow> tp_run p (workerLoop_pop i m p)"
| pop_notify: "at i PopNotify (tp_tasks p) \<Longrightarrow> chosen emplace_waits u (tp_tasks p) \<Longrightarrow>
    tp_run p (on_tasks (\<lambda>s. goto i Outside (notify_notFull u s)) p)"
| task: "i < length (tp_workers p) \<Longrightarrow> tp_workers p ! i = W_task v \<Longrightarrow> at i Outside (tp_tasks p) \<Longrightarrow>
    tp_run p (workerLoop_task i v p)"

inductive tp_step :: "'v ThreadPool \<Rightarrow> 'v ThreadPool \<Rightarrow> bool" where
  run: "tp_run p p' \<Longrightarrow> tp_step p p'"
| start: "tp_step p (tp_start p)"
| spawn: "tp_started p \<Longrightarrow> tp_stop p = Not_stopping \<Longrightarrow> length (tp_workers p) < tp_threadCount p \<Longrightarrow> tp_step p (tp_spawn p)"
| submit: "tp_threadCount p \<le> t \<Longrightarrow> at t Outside (tp_tasks p) \<Longrightarrow> tp_step p (tp_submit t v p)"
| stop_exchange: "length (tp_workers p) = tp_threadCount p \<Longrightarrow> tp_step p (tp_stop_exchange p)"
| stop_tasks: "tp_stop p = Stop_queue \<Longrightarrow> tp_step p (tp_stop_tasks p)"
| stop_joined: "tp_stop p = Stop_join \<Longrightarrow> list_all (\<lambda>w. w = W_exit) (tp_workers p) \<Longrightarrow> tp_step p (tp_stop_joined p)"
| spurious_pop: "at t (PopWait m) (tp_tasks p) \<Longrightarrow> tp_step p (on_tasks (goto t (PopLock m)) p)"
| spurious_push: "at t (EmplaceWait v) (tp_tasks p) \<Longrightarrow> tp_step p (on_tasks (goto t (EmplaceLock v)) p)"
| timeout: "at t (PopWait Timed) (tp_tasks p) \<Longrightarrow> tp_step p (on_tasks (goto t (PopLock Expired)) p)"

section \<open>The pool drives the queue\<close>

lemma tp_run_queue: "tp_run p p' \<Longrightarrow> tp_tasks p' = tp_tasks p \<or> bq_step (tp_tasks p) (tp_tasks p')"
  by (induction rule: tp_run.induct)
    (auto simp: tp_push_def workerLoop_pop_def workerLoop_task_def on_tasks_def Let_def
      intro: bq_run.intros bq_step.intros)

text \<open>Every step of the pool leaves the queue alone or is a step of the queue.\<close>

lemma tp_step_queue: "tp_step p p' \<Longrightarrow> tp_tasks p' = tp_tasks p \<or> bq_step (tp_tasks p) (tp_tasks p')"
proof (induction rule: tp_step.induct)
  case (run p p')
  then show ?case by (rule tp_run_queue)
qed (auto simp: tp_start_def tp_spawn_def tp_submit_def tp_stop_exchange_def tp_stop_tasks_def tp_stop_joined_def on_tasks_def
      intro: bq_step.intros)

lemma tp_reach_queue: "tp_step\<^sup>*\<^sup>* p p' \<Longrightarrow> bq_step\<^sup>*\<^sup>* (tp_tasks p) (tp_tasks p')"
proof (induction rule: rtranclp_induct)
  case (step y z)
  then show ?case using tp_step_queue [OF step(2)] by (metis rtranclp.rtrancl_into_rtrancl)
qed simp

section \<open>Invariants\<close>

text \<open>What a thread may be doing in the queue, given what it is for the pool.\<close>

definition role :: "'v ThreadPool \<Rightarrow> nat \<Rightarrow> 'v worker option" where
  "role p t = (if t < length (tp_workers p) then Some (tp_workers p ! t) else None)"

fun thread_ok :: "bool \<Rightarrow> 'v worker option \<Rightarrow> 'v pc \<Rightarrow> bool" where
  "thread_ok client r Outside = True"
| "thread_ok client r (PopLock m) = (r = Some W_loop)"
| "thread_ok client r (PopWait m) = (r = Some W_loop)"
| "thread_ok client r PopNotify = (\<exists>v. r = Some (W_task v))"
| "thread_ok client r _ = client"

definition threads_ok :: "'v ThreadPool \<Rightarrow> bool" where
  "threads_ok p \<longleftrightarrow> length (tp_workers p) \<le> tp_threadCount p \<and> tp_threadCount p \<le> length (bq_pc (tp_tasks p)) \<and>
     (\<forall>t < length (bq_pc (tp_tasks p)). thread_ok (tp_threadCount p \<le> t) (role p t) (bq_pc (tp_tasks p) ! t))"

fun hand :: "'v worker \<Rightarrow> 'v multiset" where
  "hand (W_task v) = {#v#}"
| "hand _ = {#}"

definition hands :: "'v ThreadPool \<Rightarrow> 'v multiset" where
  "hands p = sum_list (map hand (tp_workers p))"

definition tasks_ok :: "'v ThreadPool \<Rightarrow> bool" where
  "tasks_ok p \<longleftrightarrow> mset (delivered (tp_tasks p)) = mset (map snd (tp_executed p)) + hands p"

definition stop_ok :: "'v ThreadPool \<Rightarrow> bool" where
  "stop_ok p \<longleftrightarrow>
     (tp_stop p = Stop_join \<or> tp_stop p = Stop_returned \<longleftrightarrow> bq_stopped (tp_tasks p)) \<and>
     (tp_stop p \<in> {Stop_queue, Stop_join} \<longrightarrow> length (tp_workers p) = tp_threadCount p) \<and>
     (\<not> tp_stopped p \<longrightarrow> tp_started p \<and> tp_stop p = Not_stopping) \<and> (tp_stop p \<noteq> Not_stopping \<longrightarrow> tp_started p \<and> tp_stopped p) \<and>
     (W_exit \<in> set (tp_workers p) \<or> tp_stop p = Stop_returned \<longrightarrow> bq_stopped (tp_tasks p) \<and> bq_queue (tp_tasks p) = []) \<and>
     (tp_stop p = Stop_returned \<longrightarrow> tp_workers p = []) \<and> 0 < tp_threadCount p"

definition pool_ok :: "'v ThreadPool \<Rightarrow> bool" where
  "pool_ok p \<longleftrightarrow> threads_ok p \<and> tasks_ok p \<and> stop_ok p \<and> fifo_ok (tp_tasks p) \<and> wakeups_ok (tp_tasks p)"

lemma pc_emplace:
  "bq_pc (bq_emplace t v s) = (bq_pc s)[t := if \<not> waitUntilPushable s then EmplaceWait v else if bq_stopped s then Outside else EmplaceNotify]"
  by (simp add: bq_emplace_def)

lemma pc_pop:
  "bq_pc (bq_pop t m s) = (bq_pc s)[t := if \<not> poppable s then (if m = Expired then Outside else PopWait m)
      else if bq_queue s = [] then Outside else PopNotify]"
  by (simp add: bq_pop_def bq_pop_front_def split: list.split)

lemma pc_notify_notEmpty: "thread_ok c r (bq_pc (notify_notEmpty u s) ! t) \<longleftrightarrow> thread_ok c r (bq_pc s ! t)"
proof (cases u)
  case (Some i)
  then show ?thesis by (cases "bq_pc s ! i"; cases "i = t"; cases "i < length (bq_pc s)") (simp_all add: list_update_beyond)
qed simp

lemma pc_notify_notFull: "thread_ok c r (bq_pc (notify_notFull u s) ! t) \<longleftrightarrow> thread_ok c r (bq_pc s ! t)"
proof (cases u)
  case (Some i)
  then show ?thesis by (cases "bq_pc s ! i"; cases "i = t"; cases "i < length (bq_pc s)") (simp_all add: list_update_beyond)
qed simp

lemma pc_stop: "thread_ok c r (bq_pc (bq_stop s) ! t) \<longleftrightarrow> thread_ok c r (bq_pc s ! t)" if "t < length (bq_pc s)"
  using that by (cases "bq_pc s ! t") (simp_all add: bq_stop_def)

text \<open>One thread moves, in the queue and in the pool.\<close>

lemma threads_move:
  assumes "threads_ok p" "tp_threadCount p' = tp_threadCount p" "length (tp_workers p') = length (tp_workers p)"
    and "length (bq_pc (tp_tasks p')) = length (bq_pc (tp_tasks p))"
    and "\<And>t c r. t \<noteq> i \<Longrightarrow> t < length (bq_pc (tp_tasks p)) \<Longrightarrow> thread_ok c r (bq_pc (tp_tasks p') ! t) = thread_ok c r (bq_pc (tp_tasks p) ! t)"
    and "\<And>t. t \<noteq> i \<Longrightarrow> role p' t = role p t"
    and "i < length (bq_pc (tp_tasks p)) \<Longrightarrow> thread_ok (tp_threadCount p \<le> i) (role p' i) (bq_pc (tp_tasks p') ! i)"
  shows "threads_ok p'"
  unfolding threads_ok_def
proof (intro conjI allI impI)
  fix t assume "t < length (bq_pc (tp_tasks p'))"
  then show "thread_ok (tp_threadCount p' \<le> t) (role p' t) (bq_pc (tp_tasks p') ! t)"
    using assms by (cases "t = i") (auto simp: threads_ok_def)
qed (use assms in \<open>auto simp: threads_ok_def\<close>)

lemma threads_at: "threads_ok p \<Longrightarrow> at t c (tp_tasks p) \<Longrightarrow> thread_ok (tp_threadCount p \<le> t) (role p t) c"
  by (auto simp: threads_ok_def)

lemma threads_run: "tp_run p p' \<Longrightarrow> threads_ok p \<Longrightarrow> threads_ok p'"
proof (induction rule: tp_run.induct)
  case (push t v p)
  show ?case
    by (rule threads_move [OF push(2), where i = t])
      (use threads_at [OF push(2,1)] in \<open>auto simp: tp_push_def Let_def pc_emplace role_def\<close>)
next
  case (push_notify t p u)
  show ?case
    by (rule threads_move [OF push_notify(3), where i = t])
      (use push_notify(1) in \<open>auto simp: on_tasks_def role_def pc_notify_notEmpty\<close>)
next
  case (loop i p)
  show ?case
    by (rule threads_move [OF loop(4), where i = i]) (use loop(1-3) in \<open>auto simp: on_tasks_def role_def\<close>)
next
  case (pop i m p)
  have "role p i = Some W_loop" using threads_at [OF pop(2,1)] by simp
  then have "i < length (tp_workers p)" by (auto simp: role_def split: if_splits)
  then show ?case
    by (intro threads_move [OF pop(2), where i = i]) (use pop(1) in \<open>auto simp: workerLoop_pop_def role_def pc_pop split: list.split\<close>)
next
  case (pop_notify i p u)
  show ?case
    by (rule threads_move [OF pop_notify(3), where i = i])
      (use pop_notify(1) in \<open>auto simp: on_tasks_def role_def pc_notify_notFull\<close>)
next
  case (task i p v)
  show ?case
    by (rule threads_move [OF task(4), where i = i]) (use task(1-3) in \<open>auto simp: workerLoop_task_def role_def\<close>)
qed

lemma threads_step: "tp_step p p' \<Longrightarrow> threads_ok p \<Longrightarrow> threads_ok p'"
proof (induction rule: tp_step.induct)
  case (run p p')
  then show ?case using threads_run by blast
next
  case (start p)
  have "role (tp_start p) = role p" "tp_threadCount (tp_start p) = tp_threadCount p" "tp_tasks (tp_start p) = tp_tasks p"
    "tp_workers (tp_start p) = tp_workers p" by (simp_all add: role_def tp_start_def fun_eq_iff)
  then show ?case using start by (simp add: threads_ok_def)
next
  case (spawn p)
  have "thread_ok (tp_threadCount p \<le> t) (role (tp_spawn p) t) (bq_pc (tp_tasks p) ! t)"
    if t: "t < length (bq_pc (tp_tasks p))" for t
  proof (cases "t = length (tp_workers p)")
    case True
    have ok: "thread_ok (tp_threadCount p \<le> t) (role p t) (bq_pc (tp_tasks p) ! t)" using spawn(4) t by (simp add: threads_ok_def)
    have "role p t = None" "\<not> tp_threadCount p \<le> t" using True spawn(3) by (simp_all add: role_def)
    then have "bq_pc (tp_tasks p) ! t = Outside" using ok by (cases "bq_pc (tp_tasks p) ! t") simp_all
    then show ?thesis by simp
  next
    case False
    then have "role (tp_spawn p) t = role p t" by (auto simp: role_def tp_spawn_def nth_append)
    then show ?thesis using spawn(4) t by (simp add: threads_ok_def)
  qed
  then show ?case using spawn(3,4) by (simp add: threads_ok_def tp_spawn_def)
next
  case (submit p t v)
  show ?case
    by (rule threads_move [OF submit(3), where i = t]) (use submit in \<open>auto simp: tp_submit_def role_def\<close>)
next
  case (stop_exchange p)
  have "role (tp_stop_exchange p) = role p" "tp_threadCount (tp_stop_exchange p) = tp_threadCount p"
    "tp_tasks (tp_stop_exchange p) = tp_tasks p" "tp_workers (tp_stop_exchange p) = tp_workers p"
    by (simp_all add: role_def tp_stop_exchange_def fun_eq_iff)
  then show ?case using stop_exchange(2) by (simp add: threads_ok_def)
next
  case (stop_tasks p)
  show ?case
    by (rule threads_move [OF stop_tasks(2), where i = "length (bq_pc (tp_tasks p))"])
      (auto simp: tp_stop_tasks_def role_def pc_stop, simp add: bq_stop_def)
next
  case (stop_joined p)
  have "bq_pc (tp_tasks p) ! t = Outside \<or> thread_ok (tp_threadCount p \<le> t) None (bq_pc (tp_tasks p) ! t)"
    if t: "t < length (bq_pc (tp_tasks p))" for t
  proof -
    have "thread_ok (tp_threadCount p \<le> t) (role p t) (bq_pc (tp_tasks p) ! t)" using stop_joined(3) t by (simp add: threads_ok_def)
    moreover have "role p t = None \<or> role p t = Some W_exit" using stop_joined(2) by (auto simp: role_def list_all_iff)
    ultimately show ?thesis by (cases "bq_pc (tp_tasks p) ! t") auto
  qed
  then show ?case using stop_joined(3) by (fastforce simp: tp_stop_joined_def threads_ok_def role_def)
next
  case (spurious_pop t m p)
  show ?case
    by (rule threads_move [OF spurious_pop(2), where i = t])
      (use threads_at [OF spurious_pop(2,1)] in \<open>auto simp: on_tasks_def role_def split: if_splits\<close>)
next
  case (spurious_push t v p)
  show ?case
    by (rule threads_move [OF spurious_push(2), where i = t])
      (use threads_at [OF spurious_push(2,1)] in \<open>auto simp: on_tasks_def role_def\<close>)
next
  case (timeout t p)
  show ?case
    by (rule threads_move [OF timeout(2), where i = t])
      (use threads_at [OF timeout(2,1)] in \<open>auto simp: on_tasks_def role_def split: if_splits\<close>)
qed

text \<open>A task is in the queue, in the hand of a worker, or executed.\<close>

lemma hands_move:
  assumes "i < length (tp_workers p)"
  shows "hands (p\<lparr>tp_workers := (tp_workers p)[i := w]\<rparr>) + hand (tp_workers p ! i) = hands p + hand w"
  using sum_list_replace [OF assms, of hand w] by (simp add: hands_def)

lemma delivered_simps [simp]:
  "delivered (goto t c s) = delivered s" "delivered (returns t e s) = delivered s @ (case e of Delivered v \<Rightarrow> [v] | _ \<Rightarrow> [])"
  "delivered (notify_notEmpty u s) = delivered s" "delivered (notify_notFull u s) = delivered s"
  "delivered (s\<lparr>bq_queue := q\<rparr>) = delivered s" "delivered (bq_stop s) = delivered s" "delivered (bq_emplace t v s) = delivered s"
  by (simp_all add: delivered_def bq_stop_def bq_emplace_def)

lemma delivered_pop: "delivered (bq_pop t m s) = delivered s @ (if poppable s then take 1 (bq_queue s) else [])"
  by (simp add: bq_pop_def bq_pop_front_def split: list.split)

lemma hands_on_tasks [simp]: "hands (on_tasks f p) = hands p" "tp_executed (on_tasks f p) = tp_executed p" "tp_tasks (on_tasks f p) = f (tp_tasks p)"
  "tp_workers (on_tasks f p) = tp_workers p"
  by (simp_all add: hands_def on_tasks_def)

lemma tasks_run: "tp_run p p' \<Longrightarrow> threads_ok p \<Longrightarrow> tasks_ok p \<Longrightarrow> tasks_ok p'"
proof (induction rule: tp_run.induct)
  case (push t v p)
  then show ?case by (simp add: tasks_ok_def tp_push_def hands_def Let_def)
next
  case (pop i m p)
  have "role p i = Some W_loop" using threads_at [OF pop(2,1)] by simp
  then have i: "i < length (tp_workers p)" "tp_workers p ! i = W_loop" by (auto simp: role_def split: if_splits)
  define w where "w = (if \<not> poppable (tp_tasks p) then W_loop else case bq_queue (tp_tasks p) of [] \<Rightarrow> W_exit | v # _ \<Rightarrow> W_task v)"
  have "hands (workerLoop_pop i m p) = hands p + hand w"
    using hands_move [OF i(1), of w] i(2) by (simp add: workerLoop_pop_def w_def hands_def)
  then show ?case using pop(3)
    by (simp add: tasks_ok_def workerLoop_pop_def delivered_pop w_def split: list.split)
next
  case (task i p v)
  have "hands (workerLoop_task i v p) + {#v#} = hands p"
    using hands_move [OF task(1), of W_loop] task(2) by (simp add: workerLoop_task_def hands_def)
  then show ?case using task(5) by (simp add: tasks_ok_def workerLoop_task_def)
qed (simp_all add: tasks_ok_def)

lemma tasks_step: "tp_step p p' \<Longrightarrow> threads_ok p \<Longrightarrow> tasks_ok p \<Longrightarrow> tasks_ok p'"
proof (induction rule: tp_step.induct)
  case (run p p')
  then show ?case using tasks_run by blast
next
  case (stop_joined p)
  then have "hands p = {#}"
  proof -
    have "list_all (\<lambda>w. w = W_exit) ws \<Longrightarrow> sum_list (map hand ws) = {#}" for ws :: "'a worker list" by (induction ws) auto
    then show ?thesis using stop_joined(2) by (simp add: hands_def)
  qed
  then show ?case using stop_joined(4) by (simp add: tasks_ok_def tp_stop_joined_def hands_def)
qed (simp_all add: tasks_ok_def tp_start_def tp_spawn_def tp_submit_def tp_stop_exchange_def tp_stop_tasks_def hands_def)

lemma stop_run: "tp_run p p' \<Longrightarrow> threads_ok p \<Longrightarrow> stop_ok p \<Longrightarrow> stop_ok p'"
proof (induction rule: tp_run.induct)
  case (push t v p)
  then show ?case by (auto simp: stop_ok_def tp_push_def bq_emplace_def Let_def)
next
  case (pop i m p)
  have "set ((tp_workers p)[i := w]) \<subseteq> insert w (set (tp_workers p))" for w by (rule set_update_subset_insert)
  then show ?case using pop(3)
    by (auto simp: stop_ok_def workerLoop_pop_def bq_pop_def bq_pop_front_def poppable_def split: list.split)
next
  case (task i p v)
  have "set ((tp_workers p)[i := W_loop]) \<subseteq> insert W_loop (set (tp_workers p))" by (rule set_update_subset_insert)
  then show ?case using task(5) by (auto simp: stop_ok_def workerLoop_task_def)
qed (auto simp: stop_ok_def on_tasks_def)

lemma stop_step: "tp_step p p' \<Longrightarrow> threads_ok p \<Longrightarrow> stop_ok p \<Longrightarrow> stop_ok p'"
proof (induction rule: tp_step.induct)
  case (run p p')
  then show ?case using stop_run by blast
next
  case (stop_joined p)
  have "W_exit \<in> set (tp_workers p)"
    using stop_joined by (cases "tp_workers p") (auto simp: stop_ok_def)
  then show ?case using stop_joined by (auto simp: stop_ok_def tp_stop_joined_def)
qed (auto simp: stop_ok_def tp_start_def tp_spawn_def tp_submit_def tp_stop_exchange_def tp_stop_tasks_def bq_stop_def on_tasks_def)

interpretation pool: step_machine tp_step pool_ok
proof unfold_locales
  fix p p' :: "'a ThreadPool"
  assume "tp_step p p'" "pool_ok p"
  then show "pool_ok p'"
    using tp_step_queue [of p p'] threads_step tasks_step stop_step fifo_step wakeups_step unfolding pool_ok_def by metis
qed

lemma mk_pool_ok: "mk_ThreadPool n c k = Ret p \<Longrightarrow> pool_ok p"
proof -
  assume "mk_ThreadPool n c k = Ret p"
  then have p: "0 < n" "p = \<lparr>tp_threadCount = n, tp_tasks = mk_BlockingQueue c (n + k), tp_workers = [], tp_started = False, tp_stopped = True,
      tp_stop = Not_stopping, tp_executed = [], tp_refused = []\<rparr>" by (auto simp: mk_ThreadPool_def split: if_splits)
  have "threads_ok p" "tasks_ok p" "stop_ok p"
    using p(1) unfolding p(2)
    by (simp_all add: threads_ok_def role_def tasks_ok_def hands_def stop_ok_def mk_BlockingQueue_def delivered_def)
  then show ?thesis using mk_ok p(2) by (simp add: pool_ok_def)
qed

section \<open>Stopping ends\<close>

text \<open>
  Once the queue is stopped no thread waits, every turn of a worker's loop takes a task out of the queue or ends the
  loop, and a client inside \<^verbatim>\<open>submit\<close> is turned away: the weights below go down with every step.
\<close>

fun thread_work :: "'v worker option \<Rightarrow> 'v pc \<Rightarrow> nat" where
  "thread_work (Some W_loop) Outside = 2"
| "thread_work (Some W_loop) _ = 1"
| "thread_work (Some (W_task v)) Outside = 3"
| "thread_work (Some (W_task v)) _ = 4"
| "thread_work (Some W_exit) _ = 0"
| "thread_work None Outside = 0"
| "thread_work None _ = 1"

definition pool_work :: "'v ThreadPool \<Rightarrow> nat" where
  "pool_work p = (\<Sum>t < length (bq_pc (tp_tasks p)). thread_work (role p t) (bq_pc (tp_tasks p) ! t)) + 4 * length (bq_queue (tp_tasks p))"

lemma thread_work_bound: "thread_work r c \<le> 4"
  by (induction r c rule: thread_work.induct) simp_all

lemma pool_work_bound: "pool_work p \<le> 4 * (length (bq_pc (tp_tasks p)) + pendingTaskCount p)"
proof -
  have "(\<Sum>t < length (bq_pc (tp_tasks p)). thread_work (role p t) (bq_pc (tp_tasks p) ! t)) \<le> length (bq_pc (tp_tasks p)) * 4"
    using sum_bounded_above [of "{..< length (bq_pc (tp_tasks p))}" "\<lambda>t. thread_work (role p t) (bq_pc (tp_tasks p) ! t)" 4]
    by (simp add: thread_work_bound)
  then show ?thesis by (simp add: pool_work_def pendingTaskCount_def bq_size_def)
qed

lemma pool_work_move:
  assumes "i < length (bq_pc (tp_tasks p))" "length (bq_pc (tp_tasks p')) = length (bq_pc (tp_tasks p))"
    and "\<And>t. t \<noteq> i \<Longrightarrow> bq_pc (tp_tasks p') ! t = bq_pc (tp_tasks p) ! t \<and> role p' t = role p t"
    and "thread_work (role p' i) (bq_pc (tp_tasks p') ! i) + 4 * length (bq_queue (tp_tasks p')) <
      thread_work (role p i) (bq_pc (tp_tasks p) ! i) + 4 * length (bq_queue (tp_tasks p))"
  shows "pool_work p' < pool_work p"
proof -
  let ?f = "\<lambda>t. thread_work (role p t) (bq_pc (tp_tasks p) ! t)" and ?g = "\<lambda>t. thread_work (role p' t) (bq_pc (tp_tasks p') ! t)"
  let ?S = "{..< length (bq_pc (tp_tasks p))}"
  have "sum ?f ?S = ?f i + sum ?f (?S - {i})" "sum ?g ?S = ?g i + sum ?g (?S - {i})" using assms(1) by (simp_all add: sum.remove)
  moreover have "sum ?g (?S - {i}) = sum ?f (?S - {i})" using assms(3) by (intro sum.cong) auto
  ultimately show ?thesis using assms(2,4) by (simp add: pool_work_def)
qed

lemma stopped_notify:
  assumes "bq_stopped s" "wakeups_ok s"
  shows "chosen pop_waits u s \<Longrightarrow> notify_notEmpty u s = s" "chosen emplace_waits u s \<Longrightarrow> notify_notFull u s = s"
  using assms notify_notEmpty_counts [of u s] notify_notFull_counts [of u s] by (auto simp: wakeups_ok_def)

lemma stopped_run: "tp_run p p' \<Longrightarrow> pool_ok p \<Longrightarrow> bq_stopped (tp_tasks p) \<Longrightarrow> pool_work p' < pool_work p"
proof (induction rule: tp_run.induct)
  case (push t v p)
  have "role p t = None"
  proof -
    have "tp_threadCount p \<le> t" using threads_at [OF _ push(1)] push(2) by (simp add: pool_ok_def)
    then show ?thesis using push(2) by (simp add: pool_ok_def threads_ok_def role_def)
  qed
  then show ?case using push
    by (intro pool_work_move [of t]) (auto simp: tp_push_def Let_def bq_emplace_def waitUntilPushable_def role_def)
next
  case (push_notify t p u)
  have "role p t = None"
  proof -
    have "tp_threadCount p \<le> t" using threads_at [OF _ push_notify(1)] push_notify(3) by (simp add: pool_ok_def)
    then show ?thesis using push_notify(3) by (simp add: pool_ok_def threads_ok_def role_def)
  qed
  then show ?case using push_notify stopped_notify(1) [of "tp_tasks p" u]
    by (intro pool_work_move [of t]) (auto simp: role_def pool_ok_def)
next
  case (loop i p)
  then show ?case by (intro pool_work_move [of i]) (auto simp: role_def)
next
  case (pop i m p)
  have "role p i = Some W_loop" using threads_at [OF _ pop(1)] pop(2) by (simp add: pool_ok_def)
  then show ?case using pop
    by (intro pool_work_move [of i])
      (auto simp: workerLoop_pop_def role_def pc_pop poppable_def bq_pop_def bq_pop_front_def split: list.split if_splits)
next
  case (pop_notify i p u)
  obtain v where "role p i = Some (W_task v)" using threads_at [OF _ pop_notify(1)] pop_notify(3) by (auto simp: pool_ok_def)
  then show ?case using pop_notify stopped_notify(2) [of "tp_tasks p" u]
    by (intro pool_work_move [of i]) (auto simp: role_def pool_ok_def split: if_splits)
next
  case (task i p v)
  then show ?case by (intro pool_work_move [of i]) (auto simp: workerLoop_task_def role_def)
qed

lemma runs_reach: "(tp_run ^^ n) p p' \<Longrightarrow> tp_step\<^sup>*\<^sup>* p p'"
proof (induction n arbitrary: p')
  case (Suc n)
  then show ?case by (auto intro: rtranclp.rtrancl_into_rtrancl tp_step.run)
qed simp

lemma run_phase: "tp_run p p' \<Longrightarrow> tp_stop p' = tp_stop p"
  by (induction rule: tp_run.induct) (auto simp: tp_push_def Let_def workerLoop_pop_def workerLoop_task_def on_tasks_def)

lemma stopped_runs:
  assumes "pool_ok p" "tp_stop p = Stop_join"
  shows "(tp_run ^^ n) p p' \<Longrightarrow> pool_work p' + n \<le> pool_work p \<and> pool_ok p' \<and> tp_stop p' = Stop_join"
proof (induction n arbitrary: p')
  case 0
  then show ?case using assms by simp
next
  case (Suc n)
  then obtain q where q: "(tp_run ^^ n) p q" "tp_run q p'" by auto
  have ih: "pool_work q + n \<le> pool_work p" "pool_ok q" "tp_stop q = Stop_join" using Suc.IH [OF q(1)] by simp_all
  then have "bq_stopped (tp_tasks q)" by (auto simp: pool_ok_def stop_ok_def)
  from stopped_run [OF q(2) ih(2) this] ih pool.step_inv [OF tp_step.run [OF q(2)] ih(2)] run_phase [OF q(2)]
  show ?case by simp
qed

text \<open>When no thread can go on, all workers have left their loops.\<close>

lemma stuck_exited:
  assumes "pool_ok p" "tp_stop p = Stop_join" "\<nexists>p'. tp_run p p'"
  shows "list_all (\<lambda>w. w = W_exit) (tp_workers p)"
proof -
  have ok: "threads_ok p" "wakeups_ok (tp_tasks p)" "bq_stopped (tp_tasks p)" using assms(1,2) by (auto simp: pool_ok_def stop_ok_def)
  have "tp_workers p ! i = W_exit" if i: "i < length (tp_workers p)" for i
  proof -
    have l: "i < length (bq_pc (tp_tasks p))" using ok(1) i by (simp add: threads_ok_def)
    have r: "role p i = Some (tp_workers p ! i)" using i by (simp add: role_def)
    have "\<not> pop_waits (bq_pc (tp_tasks p) ! i)"
      using ok(2,3) count_pos [OF l, of pop_waits] by (auto simp: wakeups_ok_def)
    then consider "bq_pc (tp_tasks p) ! i = Outside" | m where "bq_pc (tp_tasks p) ! i = PopLock m" | "bq_pc (tp_tasks p) ! i = PopNotify"
      using threads_at [OF ok(1), of i] l r i ok(1) by (cases "bq_pc (tp_tasks p) ! i") (auto simp: threads_ok_def)
    then show ?thesis
    proof cases
      case 1
      then show ?thesis using assms(3) l i tp_run.loop [of i p] tp_run.task [of i p] by (cases "tp_workers p ! i") blast+
    next
      case 2
      then show ?thesis using assms(3) l tp_run.pop [of i p] by blast
    next
      case 3
      then show ?thesis using assms(3) l tp_run.pop_notify [of i p] chosen_ex [of emplace_waits "tp_tasks p"] by blast
    qed
  qed
  then show ?thesis by (simp add: list_all_length)
qed

section \<open>A run\<close>

text \<open>One worker and one client, which submits a task before the pool is stopped.\<close>

definition demo_pool :: "nat ThreadPool" where
  "demo_pool = ret_val (mk_ThreadPool 1 0 1)"

definition demo_stopped :: "nat ThreadPool" where
  "demo_stopped = tp_stop_tasks (tp_stop_exchange (on_tasks (\<lambda>s. goto 1 Outside (notify_notEmpty None s))
     (tp_push 1 7 (tp_submit 1 7 (tp_spawn (tp_start demo_pool))))))"

definition demo_task :: "nat ThreadPool" where
  "demo_task = workerLoop_task 0 7 (on_tasks (\<lambda>s. goto 0 Outside (notify_notFull None s))
     (workerLoop_pop 0 Timed (on_tasks (goto 0 (PopLock Timed)) demo_stopped)))"

definition demo_drained :: "nat ThreadPool" where
  "demo_drained = workerLoop_pop 0 Timed (on_tasks (goto 0 (PopLock Timed)) demo_task)"

lemmas pool_eval = demo_pool_def demo_stopped_def demo_task_def demo_drained_def mk_ThreadPool_def tp_start_def tp_spawn_def tp_submit_def
  tp_is_started_def tp_push_def on_tasks_def tp_stop_exchange_def tp_stop_tasks_def workerLoop_pop_def workerLoop_task_def Let_def
  bq_stop_def bq_emplace_def bq_pop_def bq_pop_front_def poppable_def waitUntilPushable_def goto_def returns_def mk_BlockingQueue_def
  replicate_two numeral_2_eq_2 chosen_def

lemma demo_mk: "mk_ThreadPool 1 0 1 = Ret demo_pool"
  by (simp add: demo_pool_def mk_ThreadPool_def)

lemma demo_stopped_reachable: "tp_step\<^sup>*\<^sup>* demo_pool demo_stopped"
proof -
  let ?p1 = "tp_spawn (tp_start demo_pool)"
  let ?p2 = "tp_push 1 7 (tp_submit 1 7 ?p1)"
  let ?p3 = "on_tasks (\<lambda>s. goto 1 Outside (notify_notEmpty None s)) ?p2"
  have "tp_step demo_pool (tp_start demo_pool)" by (rule tp_step.start)
  moreover have "tp_step (tp_start demo_pool) ?p1" by (rule tp_step.spawn) (simp_all add: pool_eval)
  moreover have "tp_step ?p1 (tp_submit 1 7 ?p1)" by (rule tp_step.submit) (simp_all add: pool_eval)
  moreover have "tp_step (tp_submit 1 7 ?p1) ?p2" by (rule tp_step.run, rule tp_run.push) (simp add: pool_eval)
  moreover have "tp_step ?p2 ?p3" by (rule tp_step.run, rule tp_run.push_notify) (simp_all add: pool_eval)
  moreover have "tp_step ?p3 (tp_stop_exchange ?p3)" by (rule tp_step.stop_exchange) (simp add: pool_eval)
  moreover have "tp_step (tp_stop_exchange ?p3) demo_stopped"
    unfolding demo_stopped_def by (rule tp_step.stop_tasks) (simp add: pool_eval)
  ultimately show ?thesis by (meson converse_rtranclp_into_rtranclp rtranclp.rtrancl_refl)
qed

lemma demo_drain: "(tp_run ^^ 6) demo_stopped demo_drained"
proof -
  let ?p1 = "on_tasks (goto 0 (PopLock Timed)) demo_stopped"
  let ?p2 = "workerLoop_pop 0 Timed ?p1"
  let ?p3 = "on_tasks (\<lambda>s. goto 0 Outside (notify_notFull None s)) ?p2"
  let ?p5 = "on_tasks (goto 0 (PopLock Timed)) demo_task"
  have "tp_run demo_stopped ?p1" by (rule tp_run.loop) (simp_all add: pool_eval)
  moreover have "tp_run ?p1 ?p2" by (rule tp_run.pop) (simp add: pool_eval)
  moreover have "tp_run ?p2 ?p3" by (rule tp_run.pop_notify) (simp_all add: pool_eval)
  moreover have "tp_run ?p3 demo_task" unfolding demo_task_def by (rule tp_run.task) (simp_all add: pool_eval)
  moreover have "tp_run demo_task ?p5" by (rule tp_run.loop) (simp_all add: pool_eval)
  moreover have "tp_run ?p5 demo_drained" unfolding demo_drained_def by (rule tp_run.pop) (simp add: pool_eval)
  ultimately have "(tp_run ^^ Suc (Suc (Suc (Suc (Suc (Suc 0)))))) demo_stopped demo_drained"
    unfolding relpowp.simps by blast
  then show ?thesis by (simp add: numeral_eq_Suc)
qed

section \<open>Properties\<close>

text \<open>
  C3: When \<^verbatim>\<open>stop\<close> returns, every task that \<^verbatim>\<open>submit\<close> accepted has been run exactly once, for any number of workers and clients
  and any interleaving. At all times the tasks that were run or are in a worker's hand are the first tasks accepted.
\<close>

theorem pool_runs_every_task:
  assumes "mk_ThreadPool threadCount capacity clients = Ret p0" "tp_step\<^sup>*\<^sup>* p0 p"
  shows "(\<exists>taken. accepted (tp_tasks p) = taken @ bq_queue (tp_tasks p) \<and> mset taken = mset (map snd (tp_executed p)) + hands p) \<and>
    (tp_stop p = Stop_returned \<longrightarrow> mset (map snd (tp_executed p)) = mset (accepted (tp_tasks p)))"
proof -
  have ok: "pool_ok p" using pool.reach_inv [OF assms(2)] mk_pool_ok [OF assms(1)] by blast
  have "accepted (tp_tasks p) = delivered (tp_tasks p) @ bq_queue (tp_tasks p)" using ok by (simp add: pool_ok_def fifo_ok_def)
  moreover have "mset (delivered (tp_tasks p)) = mset (map snd (tp_executed p)) + hands p" using ok by (simp add: pool_ok_def tasks_ok_def)
  moreover have "tp_stop p = Stop_returned \<Longrightarrow> bq_queue (tp_tasks p) = [] \<and> hands p = {#}"
    using ok by (auto simp: pool_ok_def stop_ok_def hands_def)
  ultimately show ?thesis by auto
qed

theorem pool_runs_every_task_witness:
  "tp_step\<^sup>*\<^sup>* demo_pool (tp_stop_joined demo_drained) \<and> mset (map snd (tp_executed (tp_stop_joined demo_drained))) = {#7#}"
proof -
  have "tp_step demo_drained (tp_stop_joined demo_drained)" by (rule tp_step.stop_joined) (simp_all add: pool_eval)
  then have r: "tp_step\<^sup>*\<^sup>* demo_pool (tp_stop_joined demo_drained)"
    using demo_stopped_reachable runs_reach [OF demo_drain] by (metis rtranclp.rtrancl_into_rtrancl rtranclp_trans)
  have "accepted (tp_tasks (tp_stop_joined demo_drained)) = [7]" "tp_stop (tp_stop_joined demo_drained) = Stop_returned"
    by (simp_all add: tp_stop_joined_def accepted_def pool_eval)
  then show ?thesis using pool_runs_every_task [OF demo_mk r] r by simp
qed

text \<open>
  C22: \<^verbatim>\<open>stop\<close> returns. Once it has stopped the queue, the workers and the clients inside \<^verbatim>\<open>submit\<close> make at most four steps
  per thread and per pending task, however they are scheduled; and when none of them can go on, every worker has
  left its loop, so that the joins return.
\<close>

theorem pool_stop_returns:
  assumes "mk_ThreadPool threadCount capacity clients = Ret p0" "tp_step\<^sup>*\<^sup>* p0 p" "tp_stop p = Stop_join" "(tp_run ^^ n) p p'"
  shows "n \<le> 4 * (threadCount + clients + pendingTaskCount p) \<and> ((\<nexists>q. tp_run p' q) \<longrightarrow> tp_step p' (tp_stop_joined p'))"
proof -
  have ok: "pool_ok p" using pool.reach_inv [OF assms(2)] mk_pool_ok [OF assms(1)] by blast
  have q: "bq_step\<^sup>*\<^sup>* (mk_BlockingQueue capacity (threadCount + clients)) (tp_tasks p)"
    using tp_reach_queue [OF assms(2)] assms(1) by (auto simp: mk_ThreadPool_def split: if_splits)
  note r = stopped_runs [OF ok assms(3,4)]
  have "n \<le> 4 * (threadCount + clients + pendingTaskCount p)"
    using r pool_work_bound [of p] reachable_ok(4) [OF q] by simp
  moreover have "tp_step p' (tp_stop_joined p')" if "\<nexists>q. tp_run p' q"
    using r stuck_exited [of p'] that by (auto intro: tp_step.stop_joined)
  ultimately show ?thesis by blast
qed

theorem pool_stop_returns_witness:
  "(tp_run ^^ 6) demo_stopped demo_drained \<and> (6::nat) \<le> 4 * (1 + 1 + pendingTaskCount demo_stopped)"
proof -
  have "tp_stop demo_stopped = Stop_join" by (simp add: pool_eval)
  then show ?thesis using pool_stop_returns [OF demo_mk demo_stopped_reachable _ demo_drain] demo_drain by blast
qed

end
