(* ===== verification/SerialExecutor.thy ===== *)
theory SerialExecutor
  imports ThreadPool
begin

text \<open>
  \<^verbatim>\<open>dbase::thread::SerialExecutor\<close> (\<^verbatim>\<open>code/src/thread/serial_executor.cpp\<close>) and \<^verbatim>\<open>ShardedExecutor\<close>. The threads are the
  clients that call \<^verbatim>\<open>submit\<close> and the workers of the pool that run \<^verbatim>\<open>drain\<close>; every access to an atomic flag,
  every section of the queue and every call of the pool is a step of its own. Of the pool the executor relies on this:
  a job that \<^verbatim>\<open>ThreadPool::submit\<close> accepts is run once (\<open>pool_runs_every_task\<close>); it may refuse a job by an exception.
\<close>

section \<open>State and operations\<close>

text \<open>
  Where a thread is: outside; inside \<^verbatim>\<open>m_tasks.push\<close>; before the exchange of \<^verbatim>\<open>m_running\<close> in \<^verbatim>\<open>schedule\<close>; before
  \<^verbatim>\<open>m_threadPool.submit\<close>; at the head of the loop of \<^verbatim>\<open>drain\<close>; with a task in its hand; behind the loop; and at the two
  tests that follow.
\<close>

datatype 'v spc = S_out | S_push | S_schedule | S_submit | S_drain | S_task 'v | S_clear | S_empty_test | S_stop_test

record 'v SerialExecutor =
  se_tasks :: "'v BlockingQueue"
  se_started :: bool
  se_stopped :: bool
  se_running :: bool
  se_pc :: "'v spc list"
  se_jobs :: nat
  se_executed :: "'v list"
  se_thrown :: "(nat \<times> exn) list"

definition mk_SerialExecutor :: "nat \<Rightarrow> nat \<Rightarrow> 'v SerialExecutor" where
  "mk_SerialExecutor queueCapacity threads =
     \<lparr>se_tasks = mk_BlockingQueue queueCapacity threads, se_started = False, se_stopped = False, se_running = False,
      se_pc = replicate threads S_out, se_jobs = 0, se_executed = [], se_thrown = []\<rparr>"

definition sgoto :: "nat \<Rightarrow> 'v spc \<Rightarrow> 'v SerialExecutor \<Rightarrow> 'v SerialExecutor" where
  "sgoto t c x = x\<lparr>se_pc := (se_pc x)[t := c]\<rparr>"

definition se_on_tasks :: "('v BlockingQueue \<Rightarrow> 'v BlockingQueue) \<Rightarrow> 'v SerialExecutor \<Rightarrow> 'v SerialExecutor" where
  "se_on_tasks f x = x\<lparr>se_tasks := f (se_tasks x)\<rparr>"

definition se_throw :: "nat \<Rightarrow> exn \<Rightarrow> 'v SerialExecutor \<Rightarrow> 'v SerialExecutor" where
  "se_throw t e x = sgoto t S_out (x\<lparr>se_thrown := se_thrown x @ [(t, e)]\<rparr>)"

definition se_start :: "'v SerialExecutor \<Rightarrow> 'v SerialExecutor" where
  "se_start x = (if se_started x then x else x\<lparr>se_started := True, se_stopped := False\<rparr>)"

definition se_stop_exchange :: "'v SerialExecutor \<Rightarrow> 'v SerialExecutor" where
  "se_stop_exchange x = x\<lparr>se_stopped := True\<rparr>"

definition se_stop :: "'v SerialExecutor \<Rightarrow> 'v SerialExecutor" where
  "se_stop x = (if se_stopped x then x else se_on_tasks bq_stop (se_stop_exchange x))"

definition se_is_started :: "'v SerialExecutor \<Rightarrow> bool" where
  "se_is_started x \<longleftrightarrow> se_started x \<and> \<not> se_stopped x"

definition se_submit :: "nat \<Rightarrow> 'v \<Rightarrow> 'v SerialExecutor \<Rightarrow> 'v SerialExecutor" where
  "se_submit t v x =
     (if \<not> se_is_started x then se_throw t (Logic_error ''SerialExecutor is not started'') x
      else sgoto t S_push (se_on_tasks (goto t (EmplaceLock v)) x))"

definition se_push :: "nat \<Rightarrow> 'v \<Rightarrow> 'v SerialExecutor \<Rightarrow> 'v SerialExecutor" where
  "se_push t v x =
     (let x' = se_on_tasks (bq_emplace t v) x
      in if bq_stopped (se_tasks x) then se_throw t (Runtime_error ''BlockingQueue stopped'') x' else x')"

text \<open>\<^verbatim>\<open>schedule\<close>: the exchange of \<^verbatim>\<open>m_running\<close>, then the call of the pool, which may throw.\<close>

definition schedule :: "nat \<Rightarrow> 'v SerialExecutor \<Rightarrow> 'v SerialExecutor" where
  "schedule t x = (if se_running x then sgoto t S_out x else sgoto t S_submit (x\<lparr>se_running := True\<rparr>))"

definition schedule_submit :: "nat \<Rightarrow> exn option \<Rightarrow> 'v SerialExecutor \<Rightarrow> 'v SerialExecutor" where
  "schedule_submit t e x =
     (case e of None \<Rightarrow> sgoto t S_out (x\<lparr>se_jobs := se_jobs x + 1\<rparr>)
      | Some e \<Rightarrow> se_throw t e (x\<lparr>se_running := False\<rparr>))"

text \<open>\<^verbatim>\<open>drain\<close>.\<close>

definition drain_begin :: "nat \<Rightarrow> 'v SerialExecutor \<Rightarrow> 'v SerialExecutor" where
  "drain_begin t x = sgoto t S_drain (x\<lparr>se_jobs := se_jobs x - 1\<rparr>)"

definition drain_pop :: "nat \<Rightarrow> 'v SerialExecutor \<Rightarrow> 'v SerialExecutor" where
  "drain_pop t x =
     sgoto t (case bq_queue (se_tasks x) of [] \<Rightarrow> S_clear | v # _ \<Rightarrow> S_task v) (se_on_tasks (tryPop t) x)"

definition drain_task :: "nat \<Rightarrow> 'v \<Rightarrow> 'v SerialExecutor \<Rightarrow> 'v SerialExecutor" where
  "drain_task t v x = sgoto t S_drain (x\<lparr>se_executed := se_executed x @ [v]\<rparr>)"

definition drain_clear :: "nat \<Rightarrow> 'v SerialExecutor \<Rightarrow> 'v SerialExecutor" where
  "drain_clear t x = sgoto t S_empty_test (x\<lparr>se_running := False\<rparr>)"

definition drain_empty_test :: "nat \<Rightarrow> 'v SerialExecutor \<Rightarrow> 'v SerialExecutor" where
  "drain_empty_test t x = sgoto t (if bq_empty (se_tasks x) then S_out else S_stop_test) x"

definition drain_stop_test :: "nat \<Rightarrow> 'v SerialExecutor \<Rightarrow> 'v SerialExecutor" where
  "drain_stop_test t x = sgoto t (if se_stopped x then S_out else S_schedule) x"

section \<open>Steps\<close>

text \<open>The thread \<open>t\<close> is at \<open>c\<close> in the executor and at \<open>q\<close> in the queue.\<close>

abbreviation sat :: "nat \<Rightarrow> 'v spc \<Rightarrow> 'v pc \<Rightarrow> 'v SerialExecutor \<Rightarrow> bool" where
  "sat t c q x \<equiv> t < length (se_pc x) \<and> se_pc x ! t = c \<and> at t q (se_tasks x)"

text \<open>Steps of the threads inside; the first argument says whether the pool may refuse jobs.\<close>

inductive se_run :: "bool \<Rightarrow> 'v SerialExecutor \<Rightarrow> 'v SerialExecutor \<Rightarrow> bool" for refuse where
  push: "sat t S_push (EmplaceLock v) x \<Longrightarrow> se_run refuse x (se_push t v x)"
| push_notify: "sat t S_push EmplaceNotify x \<Longrightarrow> chosen pop_waits u (se_tasks x) \<Longrightarrow>
    se_run refuse x (sgoto t S_schedule (se_on_tasks (\<lambda>s. goto t Outside (notify_notEmpty u s)) x))"
| schedule: "sat t S_schedule Outside x \<Longrightarrow> se_run refuse x (schedule t x)"
| submit_job: "sat t S_submit Outside x \<Longrightarrow> se_run refuse x (schedule_submit t None x)"
| submit_refused: "refuse \<Longrightarrow> sat t S_submit Outside x \<Longrightarrow> se_run refuse x (schedule_submit t (Some e) x)"
| begin_job: "sat t S_out Outside x \<Longrightarrow> 0 < se_jobs x \<Longrightarrow> se_run refuse x (drain_begin t x)"
| pop: "sat t S_drain Outside x \<Longrightarrow> se_run refuse x (drain_pop t x)"
| pop_notify: "sat t (S_task v) PopNotify x \<Longrightarrow> chosen emplace_waits u (se_tasks x) \<Longrightarrow>
    se_run refuse x (se_on_tasks (\<lambda>s. goto t Outside (notify_notFull u s)) x)"
| task: "sat t (S_task v) Outside x \<Longrightarrow> se_run refuse x (drain_task t v x)"
| clear: "sat t S_clear Outside x \<Longrightarrow> se_run refuse x (drain_clear t x)"
| empty_test: "sat t S_empty_test Outside x \<Longrightarrow> se_run refuse x (drain_empty_test t x)"
| stop_test: "sat t S_stop_test Outside x \<Longrightarrow> se_run refuse x (drain_stop_test t x)"

inductive se_step :: "bool \<Rightarrow> 'v SerialExecutor \<Rightarrow> 'v SerialExecutor \<Rightarrow> bool" for refuse where
  run: "se_run refuse x x' \<Longrightarrow> se_step refuse x x'"
| start: "se_step refuse x (se_start x)"
| submit: "sat t S_out Outside x \<Longrightarrow> se_step refuse x (se_submit t v x)"
| stop: "\<not> se_stopped x \<Longrightarrow> se_step refuse x (se_stop_exchange x)"
| stop_tasks: "se_stopped x \<Longrightarrow> se_step refuse x (se_on_tasks bq_stop x)"
| spurious_push: "sat t S_push (EmplaceWait v) x \<Longrightarrow> se_step refuse x (se_on_tasks (goto t (EmplaceLock v)) x)"

lemma se_sel [simp]:
  "se_tasks (sgoto t c x) = se_tasks x" "se_started (sgoto t c x) = se_started x" "se_stopped (sgoto t c x) = se_stopped x"
  "se_running (sgoto t c x) = se_running x" "se_pc (sgoto t c x) = (se_pc x)[t := c]" "se_jobs (sgoto t c x) = se_jobs x"
  "se_executed (sgoto t c x) = se_executed x"
  "se_tasks (se_on_tasks f x) = f (se_tasks x)" "se_started (se_on_tasks f x) = se_started x" "se_stopped (se_on_tasks f x) = se_stopped x"
  "se_running (se_on_tasks f x) = se_running x" "se_pc (se_on_tasks f x) = se_pc x" "se_jobs (se_on_tasks f x) = se_jobs x"
  "se_executed (se_on_tasks f x) = se_executed x"
  by (simp_all add: sgoto_def se_on_tasks_def)

lemmas se_ops = se_push_def se_submit_def se_throw_def schedule_def schedule_submit_def drain_begin_def drain_pop_def drain_task_def
  drain_clear_def drain_empty_test_def drain_stop_test_def se_start_def se_stop_exchange_def Let_def

lemma se_run_queue: "se_run r x x' \<Longrightarrow> se_tasks x' = se_tasks x \<or> bq_step (se_tasks x) (se_tasks x')"
  by (induction rule: se_run.induct) (auto simp: se_ops split: option.split intro: bq_run.intros bq_step.intros)

lemma se_step_queue: "se_step r x x' \<Longrightarrow> se_tasks x' = se_tasks x \<or> bq_step (se_tasks x) (se_tasks x')"
proof (induction rule: se_step.induct)
  case (run x x')
  then show ?case by (rule se_run_queue)
qed (auto simp: se_ops intro: bq_step.intros)

section \<open>Invariants\<close>

text \<open>Where a thread may be in the queue, given where it is in the executor.\<close>

fun spc_ok :: "'v spc \<Rightarrow> 'v pc \<Rightarrow> bool" where
  "spc_ok S_push c = (emplace_waits c \<or> c = EmplaceNotify \<or> (\<exists>v. c = EmplaceLock v))"
| "spc_ok (S_task v) c = (c = Outside \<or> c = PopNotify)"
| "spc_ok _ c = (c = Outside)"

definition spcs_ok :: "'v SerialExecutor \<Rightarrow> bool" where
  "spcs_ok x \<longleftrightarrow> length (bq_pc (se_tasks x)) = length (se_pc x) \<and> (\<forall>t < length (se_pc x). spc_ok (se_pc x ! t) (bq_pc (se_tasks x) ! t))"

text \<open>The threads that own \<^verbatim>\<open>m_running\<close>, and those that will still look whether \<^verbatim>\<open>drain\<close> has to be scheduled.\<close>

fun owner :: "'v spc \<Rightarrow> bool" where
  "owner S_submit = True"
| "owner S_drain = True"
| "owner (S_task v) = True"
| "owner S_clear = True"
| "owner _ = False"

fun looks :: "'v spc \<Rightarrow> 'v pc \<Rightarrow> bool" where
  "looks S_push c = (c = EmplaceNotify)"
| "looks S_schedule c = True"
| "looks S_empty_test c = True"
| "looks S_stop_test c = True"
| "looks _ c = False"

fun shand :: "'v spc \<Rightarrow> 'v list" where
  "shand (S_task v) = [v]"
| "shand _ = []"

definition owners :: "'v SerialExecutor \<Rightarrow> nat" where
  "owners x = sum_list (map (\<lambda>c. of_bool (owner c)) (se_pc x)) + se_jobs x"

definition serial_ok :: "'v SerialExecutor \<Rightarrow> bool" where
  "serial_ok x \<longleftrightarrow> owners x = of_bool (se_running x)"

definition order_ok :: "'v SerialExecutor \<Rightarrow> bool" where
  "order_ok x \<longleftrightarrow> delivered (se_tasks x) = se_executed x @ concat (map shand (se_pc x))"

definition noticed :: "'v SerialExecutor \<Rightarrow> bool" where
  "noticed x \<longleftrightarrow> se_stopped x \<or> bq_queue (se_tasks x) = [] \<or> se_running x \<or>
     (\<exists>t < length (se_pc x). looks (se_pc x ! t) (bq_pc (se_tasks x) ! t))"

definition unused :: "'v SerialExecutor \<Rightarrow> bool" where
  "unused x \<longleftrightarrow> \<not> se_started x \<longrightarrow> bq_queue (se_tasks x) = [] \<and> list_all (\<lambda>c. c = S_out) (se_pc x) \<and> se_jobs x = 0"

lemma pc_tryPop: "bq_pc (tryPop t s) = (if bq_queue s = [] then bq_pc s else (bq_pc s)[t := PopNotify])"
  by (simp add: tryPop_def bq_pop_front_def split: list.split)

lemma pc_notified:
  "bq_pc (notify_notEmpty u s) ! t = bq_pc s ! t \<or> (\<exists>m. bq_pc s ! t = PopWait m \<and> bq_pc (notify_notEmpty u s) ! t = PopLock m)"
  "bq_pc (notify_notFull u s) ! t = bq_pc s ! t \<or> (\<exists>v. bq_pc s ! t = EmplaceWait v \<and> bq_pc (notify_notFull u s) ! t = EmplaceLock v)"
  if "t < length (bq_pc s)"
proof -
  show "bq_pc (notify_notEmpty u s) ! t = bq_pc s ! t \<or> (\<exists>m. bq_pc s ! t = PopWait m \<and> bq_pc (notify_notEmpty u s) ! t = PopLock m)"
  proof (cases u)
    case (Some i)
    then show ?thesis using that by (cases "bq_pc s ! i"; cases "i = t") auto
  qed simp
  show "bq_pc (notify_notFull u s) ! t = bq_pc s ! t \<or> (\<exists>v. bq_pc s ! t = EmplaceWait v \<and> bq_pc (notify_notFull u s) ! t = EmplaceLock v)"
  proof (cases u)
    case (Some i)
    then show ?thesis using that by (cases "bq_pc s ! i"; cases "i = t") auto
  qed simp
qed

lemma spc_notified:
  assumes "t < length (bq_pc s)"
  shows "spc_ok c (bq_pc s ! t) \<Longrightarrow> spc_ok c (bq_pc (notify_notEmpty u s) ! t)" "spc_ok c (bq_pc s ! t) \<Longrightarrow> spc_ok c (bq_pc (notify_notFull u s) ! t)"
  using pc_notified [OF assms, of u] by (cases c; auto)+

lemma spcs_move:
  assumes "spcs_ok x" "length (se_pc x') = length (se_pc x)" "length (bq_pc (se_tasks x')) = length (bq_pc (se_tasks x))"
    and "\<And>t. t \<noteq> i \<Longrightarrow> t < length (se_pc x) \<Longrightarrow> spc_ok (se_pc x ! t) (bq_pc (se_tasks x) ! t) \<Longrightarrow> spc_ok (se_pc x' ! t) (bq_pc (se_tasks x') ! t)"
    and "i < length (se_pc x) \<Longrightarrow> spc_ok (se_pc x' ! i) (bq_pc (se_tasks x') ! i)"
  shows "spcs_ok x'"
  using assms unfolding spcs_ok_def by metis

lemma spcs_run: "se_run r x x' \<Longrightarrow> spcs_ok x \<Longrightarrow> spcs_ok x'"
proof (induction rule: se_run.induct)
  case (push t v x)
  then show ?case by (intro spcs_move [where i = t, OF push(2)]) (auto simp: se_ops pc_emplace waitUntilPushable_def)
next
  case (push_notify t x u)
  then have "length (bq_pc (se_tasks x)) = length (se_pc x)" by (simp add: spcs_ok_def)
  then show ?case using push_notify by (intro spcs_move [where i = t, OF push_notify(3)]) (auto simp: spc_notified)
next
  case (schedule t x)
  then show ?case by (intro spcs_move [where i = t, OF schedule(2)]) (auto simp: se_ops)
next
  case (submit_job t x)
  then show ?case by (intro spcs_move [where i = t, OF submit_job(2)]) (auto simp: se_ops)
next
  case (submit_refused t x e)
  then show ?case by (intro spcs_move [where i = t, OF submit_refused(3)]) (auto simp: se_ops)
next
  case (begin_job t x)
  then show ?case by (intro spcs_move [where i = t, OF begin_job(3)]) (auto simp: se_ops)
next
  case (pop t x)
  then show ?case by (intro spcs_move [where i = t, OF pop(2)]) (auto simp: se_ops pc_tryPop split: list.split)
next
  case (pop_notify t v x u)
  then have "length (bq_pc (se_tasks x)) = length (se_pc x)" by (simp add: spcs_ok_def)
  then show ?case using pop_notify by (intro spcs_move [where i = t, OF pop_notify(3)]) (auto simp: spc_notified)
next
  case (task t v x)
  then show ?case by (intro spcs_move [where i = t, OF task(2)]) (auto simp: se_ops)
next
  case (clear t x)
  then show ?case by (intro spcs_move [where i = t, OF clear(2)]) (auto simp: se_ops)
next
  case (empty_test t x)
  then show ?case by (intro spcs_move [where i = t, OF empty_test(2)]) (auto simp: se_ops)
next
  case (stop_test t x)
  then show ?case by (intro spcs_move [where i = t, OF stop_test(2)]) (auto simp: se_ops)
qed

lemma spcs_step: "se_step r x x' \<Longrightarrow> spcs_ok x \<Longrightarrow> spcs_ok x'"
proof (induction rule: se_step.induct)
  case (run x x')
  then show ?case using spcs_run by blast
next
  case (submit t x v)
  then show ?case by (intro spcs_move [where i = t, OF submit(2)]) (auto simp: se_ops)
next
  case (stop_tasks x)
  have "spc_ok c p \<Longrightarrow> spc_ok c (woken p)" for c :: "'a spc" and p by (cases c; cases p; simp)
  then show ?case using stop_tasks by (auto simp: spcs_ok_def bq_stop_def)
next
  case (spurious_push t v x)
  then show ?case by (intro spcs_move [where i = t, OF spurious_push(2)]) auto
qed (auto simp: spcs_ok_def se_ops)

lemma owners_move:
  "t < length (se_pc x) \<Longrightarrow> owners (sgoto t c x) + of_bool (owner (se_pc x ! t)) = owners x + of_bool (owner c)"
  using sum_list_replace [of t "se_pc x" "\<lambda>c. of_bool (owner c)" c] by (simp add: owners_def)

lemma owners_cong [simp]: "owners (se_on_tasks f x) = owners x" "owners (x\<lparr>se_running := b\<rparr>) = owners x" "owners (x\<lparr>se_executed := e\<rparr>) = owners x"
  "owners (x\<lparr>se_thrown := w\<rparr>) = owners x" "owners (x\<lparr>se_started := b, se_stopped := c\<rparr>) = owners x" "owners (x\<lparr>se_stopped := c\<rparr>) = owners x"
  "owners (x\<lparr>se_started := b\<rparr>) = owners x"
  by (simp_all add: owners_def)

lemma owners_jobs: "owners (x\<lparr>se_jobs := n\<rparr>) + se_jobs x = owners x + n"
  by (simp add: owners_def)

lemma serial_run: "se_run r x x' \<Longrightarrow> serial_ok x \<Longrightarrow> serial_ok x'"
proof (induction rule: se_run.induct)
  case (push t v x)
  then show ?case
    using owners_move [of t "se_on_tasks (bq_emplace t v) x\<lparr>se_thrown := w\<rparr>" S_out for w]
    by (auto simp: serial_ok_def se_ops)
next
  case (push_notify t x u)
  then show ?case using owners_move [of t "se_on_tasks (\<lambda>s. goto t Outside (notify_notEmpty u s)) x" S_schedule] by (simp add: serial_ok_def)
next
  case (schedule t x)
  then show ?case using owners_move [of t x S_out] owners_move [of t "x\<lparr>se_running := True\<rparr>" S_submit] by (auto simp: serial_ok_def se_ops)
next
  case (submit_job t x)
  then show ?case using owners_move [of t "x\<lparr>se_jobs := se_jobs x + 1\<rparr>" S_out] owners_jobs [of "se_jobs x + 1" x] by (auto simp: serial_ok_def se_ops)
next
  case (submit_refused t x e)
  then show ?case using owners_move [of t "x\<lparr>se_running := False, se_thrown := se_thrown x @ [(t, e)]\<rparr>" S_out]
    by (auto simp: serial_ok_def se_ops of_bool_def split: if_splits)
next
  case (begin_job t x)
  then show ?case using owners_move [of t "x\<lparr>se_jobs := se_jobs x - 1\<rparr>" S_drain] owners_jobs [of "se_jobs x - 1" x] by (auto simp: serial_ok_def se_ops)
next
  case (pop t x)
  then show ?case using owners_move [of t "se_on_tasks (tryPop t) x" S_clear] owners_move [of t "se_on_tasks (tryPop t) x" "S_task v" for v]
    by (auto simp: serial_ok_def se_ops split: list.split)
next
  case (task t v x)
  then show ?case using owners_move [of t "x\<lparr>se_executed := se_executed x @ [v]\<rparr>" S_drain] by (simp add: serial_ok_def se_ops)
next
  case (clear t x)
  then show ?case using owners_move [of t "x\<lparr>se_running := False\<rparr>" S_empty_test] by (auto simp: serial_ok_def se_ops of_bool_def split: if_splits)
next
  case (empty_test t x)
  then show ?case using owners_move [of t x S_out] owners_move [of t x S_stop_test] by (simp add: serial_ok_def se_ops)
next
  case (stop_test t x)
  then show ?case using owners_move [of t x S_out] owners_move [of t x S_schedule] by (simp add: serial_ok_def se_ops)
qed (simp add: serial_ok_def)

lemma serial_step: "se_step r x x' \<Longrightarrow> serial_ok x \<Longrightarrow> serial_ok x'"
proof (induction rule: se_step.induct)
  case (run x x')
  then show ?case using serial_run by blast
next
  case (submit t x v)
  then show ?case
    using owners_move [of t "x\<lparr>se_thrown := w\<rparr>" S_out for w] owners_move [of t "se_on_tasks (goto t (EmplaceLock v)) x" S_push]
    by (auto simp: serial_ok_def se_ops)
qed (auto simp: serial_ok_def se_ops)

text \<open>There is one owner at most, so no thread but the owner has a task in its hand.\<close>

lemma single_owner:
  assumes "serial_ok x" "t < length (se_pc x)" "owner (se_pc x ! t)" "i < length (se_pc x)" "i \<noteq> t"
  shows "\<not> owner (se_pc x ! i)"
proof
  assume o: "owner (se_pc x ! i)"
  have le: "owners x \<le> 1" using assms(1) by (auto simp: serial_ok_def of_bool_def)
  have "owners (sgoto t S_out x) + 1 = owners x" using owners_move [OF assms(2), of S_out] assms(3) by simp
  moreover have "owners (sgoto i S_out (sgoto t S_out x)) + 1 = owners (sgoto t S_out x)"
    using owners_move [of i "sgoto t S_out x" S_out] assms(4,5) o by simp
  ultimately show False using le by simp
qed

lemma shand_owner: "\<not> owner c \<Longrightarrow> shand c = []"
  by (cases c) simp_all

lemma hands_of_owner:
  assumes "serial_ok x" "t < length (se_pc x)" "owner (se_pc x ! t)"
  shows "concat (map shand ((se_pc x)[t := c])) = shand c" "concat (map shand (se_pc x)) = shand (se_pc x ! t)"
proof -
  have others: "shand (se_pc x ! i) = []" if "i < length (se_pc x)" "i \<noteq> t" for i
    using single_owner [OF assms that] shand_owner by blast
  have e: "concat (map shand (take t (se_pc x))) = []" "concat (map shand (drop (Suc t) (se_pc x))) = []"
    using others by (auto simp: in_set_conv_nth)
  have "concat (map shand ((se_pc x)[t := c])) =
    concat (map shand (take t (se_pc x))) @ shand c @ concat (map shand (drop (Suc t) (se_pc x)))"
    using assms(2) by (simp add: upd_conv_take_nth_drop)
  then show "concat (map shand ((se_pc x)[t := c])) = shand c" unfolding e by simp
  have "concat (map shand (se_pc x)) =
    concat (map shand (take t (se_pc x))) @ shand (se_pc x ! t) @ concat (map shand (drop (Suc t) (se_pc x)))"
    using arg_cong [OF id_take_nth_drop [OF assms(2)], of "\<lambda>cs. concat (map shand cs)"] by simp
  then show "concat (map shand (se_pc x)) = shand (se_pc x ! t)" unfolding e by simp
qed

lemma hands_same: "shand c = shand (se_pc x ! t) \<Longrightarrow> concat (map shand ((se_pc x)[t := c])) = concat (map shand (se_pc x))"
  by (metis list_update_id map_update)

lemma delivered_tryPop: "delivered (tryPop t s) = delivered s @ take 1 (bq_queue s)"
  by (simp add: tryPop_def bq_pop_front_def split: list.split)

lemma order_run: "se_run r x x' \<Longrightarrow> serial_ok x \<Longrightarrow> order_ok x \<Longrightarrow> order_ok x'"
proof (induction rule: se_run.induct)
  case (pop t x)
  then show ?case using hands_of_owner [OF pop(2), of t] by (auto simp: order_ok_def se_ops delivered_tryPop split: list.split)
next
  case (task t v x)
  then show ?case using hands_of_owner [OF task(2), of t] by (simp add: order_ok_def se_ops)
next
  case (submit_refused t x e)
  then show ?case by (simp add: order_ok_def se_ops hands_same)
next
  case (push t v x)
  then show ?case by (simp add: order_ok_def se_ops hands_same)
qed (simp_all add: order_ok_def se_ops hands_same)

lemma order_step: "se_step r x x' \<Longrightarrow> serial_ok x \<Longrightarrow> order_ok x \<Longrightarrow> order_ok x'"
proof (induction rule: se_step.induct)
  case (run x x')
  then show ?case using order_run by blast
qed (simp_all add: order_ok_def se_ops hands_same)

text \<open>A task in the queue of an executor that is not stopped has been noticed.\<close>

lemma owner_running: "serial_ok x \<Longrightarrow> t < length (se_pc x) \<Longrightarrow> owner (se_pc x ! t) \<Longrightarrow> se_running x"
  using owners_move [of t x S_out] by (cases "se_running x") (auto simp: serial_ok_def)

lemma noticed_move:
  assumes "noticed x" "length (se_pc x') = length (se_pc x)"
    and "\<And>t. t \<noteq> i \<Longrightarrow> t < length (se_pc x) \<Longrightarrow> looks (se_pc x ! t) (bq_pc (se_tasks x) ! t) \<Longrightarrow> looks (se_pc x' ! t) (bq_pc (se_tasks x') ! t)"
    and "i < length (se_pc x) \<Longrightarrow> looks (se_pc x ! i) (bq_pc (se_tasks x) ! i) \<Longrightarrow> noticed x'"
    and "se_stopped x \<Longrightarrow> noticed x'" "bq_queue (se_tasks x) = [] \<Longrightarrow> noticed x'" "se_running x \<Longrightarrow> noticed x'"
  shows "noticed x'"
proof -
  have "looks (se_pc x ! t) (bq_pc (se_tasks x) ! t) \<Longrightarrow> t < length (se_pc x) \<Longrightarrow> noticed x'" for t
    using assms(2-4) by (cases "t = i") (auto simp: noticed_def)
  then show ?thesis using assms(1,5-7) unfolding noticed_def by blast
qed

lemma looks_here: "t < length (se_pc x) \<Longrightarrow> looks (se_pc x ! t) (bq_pc (se_tasks x) ! t) \<Longrightarrow> noticed x"
  by (auto simp: noticed_def)

lemma looks_notified:
  assumes "t < length (bq_pc s)"
  shows "looks c (bq_pc s ! t) \<Longrightarrow> looks c (bq_pc (notify_notEmpty u s) ! t)" "looks c (bq_pc s ! t) \<Longrightarrow> looks c (bq_pc (notify_notFull u s) ! t)"
  using pc_notified [OF assms, of u] by (cases c; auto)+

lemma noticed_run: "se_run False x x' \<Longrightarrow> spcs_ok x \<Longrightarrow> serial_ok x \<Longrightarrow> noticed x \<Longrightarrow> noticed x'"
proof (induction rule: se_run.induct)
  case (push t v x)
  show ?case
  proof (cases "waitUntilPushable (se_tasks x) \<and> \<not> bq_stopped (se_tasks x)")
    case True
    then show ?thesis using push by (intro looks_here [of t]) (auto simp: se_ops pc_emplace)
  next
    case False
    then have "bq_queue (se_tasks (se_push t v x)) = bq_queue (se_tasks x)" by (auto simp: se_ops bq_emplace_def)
    moreover have "se_stopped (se_push t v x) = se_stopped x" "se_running (se_push t v x) = se_running x" by (simp_all add: se_ops)
    ultimately have n: "se_stopped x \<or> bq_queue (se_tasks x) = [] \<or> se_running x \<Longrightarrow> noticed (se_push t v x)" by (auto simp: noticed_def)
    have l: "\<not> looks (se_pc x ! t) (bq_pc (se_tasks x) ! t)" using push(1) by simp
    show ?thesis
      by (rule noticed_move [where i = t, OF push(4)]) (use n l in \<open>auto simp: se_ops pc_emplace\<close>)
  qed
next
  case (push_notify t x u)
  then show ?case by (intro looks_here [of t]) auto
next
  case (schedule t x)
  then show ?case by (auto simp: se_ops noticed_def)
next
  case (submit_job t x)
  then show ?case using owner_running [of x t] by (auto simp: se_ops noticed_def)
next
  case (begin_job t x)
  then show ?case by (auto simp: se_ops noticed_def serial_ok_def owners_def of_bool_def split: if_splits)
next
  case (pop t x)
  then show ?case using owner_running [of x t] by (auto simp: se_ops noticed_def)
next
  case (pop_notify t v x u)
  then show ?case using owner_running [of x t] by (auto simp: noticed_def)
next
  case (task t v x)
  then show ?case using owner_running [of x t] by (auto simp: se_ops noticed_def)
next
  case (clear t x)
  then show ?case by (intro looks_here [of t]) (auto simp: se_ops)
next
  case (empty_test t x)
  then show ?case
    by (cases "bq_queue (se_tasks x) = []") (auto simp: se_ops bq_empty_def noticed_def intro: looks_here [of t])
next
  case (stop_test t x)
  then show ?case by (cases "se_stopped x") (auto simp: se_ops noticed_def intro: looks_here [of t])
qed simp

lemma unused_run: "se_run r x x' \<Longrightarrow> unused x \<Longrightarrow> unused x'"
  by (induction rule: se_run.induct) (auto simp: unused_def se_ops list_all_length split: option.split)

lemma unused_step: "se_step r x x' \<Longrightarrow> unused x \<Longrightarrow> unused x'"
proof (induction rule: se_step.induct)
  case (run x x')
  then show ?case using unused_run by blast
qed (auto simp: unused_def se_ops se_is_started_def list_all_length bq_stop_def nth_list_update)

lemma noticed_step: "se_step False x x' \<Longrightarrow> spcs_ok x \<Longrightarrow> serial_ok x \<Longrightarrow> unused x \<Longrightarrow> noticed x \<Longrightarrow> noticed x'"
proof (induction rule: se_step.induct)
  case (run x x')
  then show ?case using noticed_run by blast
next
  case (start x)
  then show ?case by (auto simp: se_ops noticed_def unused_def)
next
  case (submit t x v)
  have n: "se_stopped x \<or> bq_queue (se_tasks x) = [] \<or> se_running x \<Longrightarrow> noticed (se_submit t v x)" by (auto simp: noticed_def se_ops)
  have l: "\<not> looks (se_pc x ! t) (bq_pc (se_tasks x) ! t)" using submit(1) by simp
  show ?case
    by (rule noticed_move [where i = t, OF submit(5)]) (use n l in \<open>auto simp: se_ops\<close>)
next
  case (stop_tasks x)
  then show ?case by (auto simp: noticed_def)
next
  case (spurious_push t v x)
  let ?x = "se_on_tasks (goto t (EmplaceLock v)) x"
  have n: "se_stopped x \<or> bq_queue (se_tasks x) = [] \<or> se_running x \<Longrightarrow> noticed ?x" by (auto simp: noticed_def)
  have l: "\<not> looks (se_pc x ! t) (bq_pc (se_tasks x) ! t)" using spurious_push(1) by simp
  show ?case
    by (rule noticed_move [where i = t, OF spurious_push(5)]) (use n l in auto)
qed (auto simp: se_ops noticed_def)

definition executor_ok :: "'v SerialExecutor \<Rightarrow> bool" where
  "executor_ok x \<longleftrightarrow> spcs_ok x \<and> serial_ok x \<and> order_ok x \<and> unused x \<and> fifo_ok (se_tasks x) \<and> wakeups_ok (se_tasks x)"

lemma executor_step: "se_step r x x' \<Longrightarrow> executor_ok x \<Longrightarrow> executor_ok x'"
  using se_step_queue [of r x x'] spcs_step serial_step order_step unused_step fifo_step wakeups_step unfolding executor_ok_def by metis

interpretation serial: step_machine "se_step r" executor_ok for r
  by unfold_locales (rule executor_step)

interpretation serial_obliging: step_machine "se_step False" "\<lambda>x. executor_ok x \<and> noticed x"
  by unfold_locales (auto simp: executor_ok_def intro: executor_step [unfolded executor_ok_def] noticed_step dest: executor_step [unfolded executor_ok_def])

lemma mk_executor_ok: "executor_ok (mk_SerialExecutor c n) \<and> noticed (mk_SerialExecutor c n)"
proof -
  have "sum_list (map (\<lambda>c. of_bool (owner c)) (replicate n S_out)) = (0::nat)" by (induction n) simp_all
  then show ?thesis using mk_ok [of c n]
    by (auto simp: executor_ok_def mk_SerialExecutor_def spcs_ok_def serial_ok_def owners_def order_ok_def unused_def noticed_def
      mk_BlockingQueue_def delivered_def list_all_iff)
qed

section \<open>No executor gets stuck\<close>

text \<open>A thread inside can go on, unless it waits to push.\<close>

lemma se_progress:
  assumes "spc_ok c q" "sat t c q x" "c \<noteq> S_out" "\<not> emplace_waits q"
  shows "\<exists>x'. se_run r x x'"
  using assms chosen_ex [of pop_waits "se_tasks x"] chosen_ex [of emplace_waits "se_tasks x"]
  by (cases c) (auto intro: se_run.intros)

lemma stuck_threads:
  assumes "executor_ok x" "\<nexists>x'. se_run r x x'" "t < length (se_pc x)"
  shows "se_pc x ! t = S_out \<and> bq_pc (se_tasks x) ! t = Outside \<or> se_pc x ! t = S_push \<and> emplace_waits (bq_pc (se_tasks x) ! t)"
proof -
  have l: "t < length (bq_pc (se_tasks x))" and ok: "spc_ok (se_pc x ! t) (bq_pc (se_tasks x) ! t)"
    using assms(1,3) by (auto simp: executor_ok_def spcs_ok_def)
  have "se_pc x ! t = S_out \<or> emplace_waits (bq_pc (se_tasks x) ! t)"
    using se_progress [OF ok, of t x r] assms(2,3) l by blast
  then show ?thesis using ok by (cases "se_pc x ! t") auto
qed

lemma stuck_idle:
  assumes "executor_ok x" "noticed x" "\<not> se_stopped x" "\<nexists>x'. se_run False x x'" "sat t S_out Outside x"
  shows "bq_queue (se_tasks x) = [] \<and> (\<forall>c \<in> set (se_pc x). c = S_out)"
proof -
  note stuck = stuck_threads [OF assms(1,4)]
  have "se_jobs x = 0" using assms(4,5) se_run.begin_job [of t x False] by blast
  moreover have "\<not> owner c" if "c \<in> set (se_pc x)" for c
    using stuck that by (metis in_set_conv_nth owner.simps(5,6))
  then have "sum_list (map (\<lambda>c. of_bool (owner c)) (se_pc x)) = (0::nat)" by (simp add: sum_list_eq_0_iff)
  ultimately have "owners x = 0" by (simp add: owners_def)
  then have "\<not> se_running x" using assms(1) by (auto simp: executor_ok_def serial_ok_def)
  moreover have "\<not> looks (se_pc x ! i) (bq_pc (se_tasks x) ! i)" if "i < length (se_pc x)" for i
    using stuck [OF that] by auto
  ultimately have q: "bq_queue (se_tasks x) = []" using assms(2,3) by (auto simp: noticed_def)
  have len: "length (bq_pc (se_tasks x)) = length (se_pc x)" using assms(1) by (auto simp: executor_ok_def spcs_ok_def)
  have "\<not> serves_push c" if c: "c \<in> set (bq_pc (se_tasks x))" for c
  proof -
    obtain i where "i < length (se_pc x)" "c = bq_pc (se_tasks x) ! i" using c len by (auto simp: in_set_conv_nth)
    then have "c = Outside \<or> emplace_waits c" using stuck [of i] by auto
    then show ?thesis by (cases c) simp_all
  qed
  then have "count_pc serves_push (se_tasks x) = 0" by (simp add: count_zero)
  then have "count_pc emplace_waits (se_tasks x) = 0"
    using assms(1) q by (auto simp: executor_ok_def wakeups_ok_def)
  then have "\<not> emplace_waits (bq_pc (se_tasks x) ! i)" if "i < length (se_pc x)" for i
    using that len by (auto simp: count_zero)
  then show ?thesis using stuck q by (metis in_set_conv_nth)
qed

section \<open>\<^verbatim>\<open>ShardedExecutor\<close>\<close>

type_synonym 'v ShardedExecutor = "'v SerialExecutor list"

definition mk_ShardedExecutor :: "nat \<Rightarrow> nat \<Rightarrow> nat \<Rightarrow> 'v ShardedExecutor outcome" where
  "mk_ShardedExecutor shardCount queueCapacityPerShard threads =
     (if shardCount = 0 then Throw (Invalid_argument ''ShardedExecutor shardCount must be greater than 0'')
      else Ret (replicate shardCount (mk_SerialExecutor queueCapacityPerShard threads)))"

definition shardIndexFor :: "('k \<Rightarrow> nat) \<Rightarrow> 'k \<Rightarrow> 'v ShardedExecutor \<Rightarrow> nat" where
  "shardIndexFor hash key xs = hash key mod length xs"

definition executorAt :: "nat \<Rightarrow> 'v ShardedExecutor \<Rightarrow> 'v SerialExecutor outcome" where
  "executorAt shardIndex xs =
     (if shardIndex \<ge> length xs then Throw (Out_of_range ''ShardedExecutor shard index out of range'') else Ret (xs ! shardIndex))"

definition sharded_submit :: "('k \<Rightarrow> nat) \<Rightarrow> 'k \<Rightarrow> nat \<Rightarrow> 'v \<Rightarrow> 'v ShardedExecutor \<Rightarrow> 'v ShardedExecutor" where
  "sharded_submit hash key t v xs =
     (let i = shardIndexFor hash key xs in xs[i := se_submit t v (xs ! i)])"

definition sharded_start :: "'v ShardedExecutor \<Rightarrow> bool \<times> 'v ShardedExecutor" where
  "sharded_start xs =
     (if list_all (\<lambda>x. \<not> se_started x) xs then (True, map se_start xs)
      else (False, map se_stop
        (map se_start (takeWhile (\<lambda>x. \<not> se_started x) xs) @ dropWhile (\<lambda>x. \<not> se_started x) xs)))"

definition sharded_stop :: "'v ShardedExecutor \<Rightarrow> 'v ShardedExecutor" where
  "sharded_stop xs = map se_stop xs"

definition sharded_started :: "'v ShardedExecutor \<Rightarrow> bool" where
  "sharded_started xs = list_all se_is_started xs"

definition sharded_pendingTaskCount :: "'v ShardedExecutor \<Rightarrow> nat" where
  "sharded_pendingTaskCount xs = sum_list (map (\<lambda>x. bq_size (se_tasks x)) xs)"

text \<open>Submitting for a key steps the executor of that key's shard and no other.\<close>

lemma sharded_submit_one:
  assumes "xs \<noteq> []" "i = shardIndexFor hash key xs"
  shows "i < length xs" "length (sharded_submit hash key t v xs) = length xs" "sharded_submit hash key t v xs ! i = se_submit t v (xs ! i)"
    "j \<noteq> i \<Longrightarrow> sharded_submit hash key t v xs ! j = xs ! j" "shardIndexFor hash key (sharded_submit hash key t v xs) = i"
  using assms by (simp_all add: shardIndexFor_def sharded_submit_def Let_def)

section \<open>A run in which a task is left behind\<close>

text \<open>
  Thread 0 is a client, thread 1 a worker of the pool. The worker has run the first task and found the queue empty when
  the client submits the second task; the client finds \<^verbatim>\<open>m_running\<close> still set and leaves the task to the
  worker; then \<^verbatim>\<open>stop\<close> is called before the worker gets to its tests.
\<close>

definition demo_first :: "nat SerialExecutor" where
  "demo_first = schedule_submit 0 None (schedule 0 (sgoto 0 S_schedule (se_on_tasks (\<lambda>s. goto 0 Outside (notify_notEmpty None s))
     (se_push 0 7 (se_submit 0 7 (se_start (mk_SerialExecutor 0 2)))))))"

definition demo_ran :: "nat SerialExecutor" where
  "demo_ran = drain_pop 1 (drain_task 1 7 (se_on_tasks (\<lambda>s. goto 1 Outside (notify_notFull None s)) (drain_pop 1 (drain_begin 1 demo_first))))"

definition demo_second :: "nat SerialExecutor" where
  "demo_second = schedule 0 (sgoto 0 S_schedule (se_on_tasks (\<lambda>s. goto 0 Outside (notify_notEmpty None s)) (se_push 0 8 (se_submit 0 8 demo_ran))))"

definition demo_left :: "nat SerialExecutor" where
  "demo_left = drain_stop_test 1 (drain_empty_test 1 (drain_clear 1 (se_on_tasks bq_stop (se_stop_exchange demo_second))))"

lemmas se_eval = demo_first_def demo_ran_def demo_second_def demo_left_def mk_SerialExecutor_def sgoto_def se_on_tasks_def se_is_started_def se_ops
  bq_emplace_def waitUntilPushable_def goto_def returns_def mk_BlockingQueue_def tryPop_def bq_pop_front_def bq_empty_def bq_stop_def chosen_def replicate_two

lemma demo_first_reached: "(se_step False)\<^sup>*\<^sup>* (mk_SerialExecutor 0 2) demo_first"
proof -
  let ?x1 = "se_start (mk_SerialExecutor 0 2) :: nat SerialExecutor"
  let ?x2 = "se_submit 0 7 ?x1"
  let ?x3 = "se_push 0 7 ?x2"
  let ?x4 = "sgoto 0 S_schedule (se_on_tasks (\<lambda>s. goto 0 Outside (notify_notEmpty None s)) ?x3)"
  let ?x5 = "schedule 0 ?x4"
  have "se_step False (mk_SerialExecutor 0 2) ?x1" by (rule se_step.start)
  moreover have "se_step False ?x1 ?x2" by (rule se_step.submit) (simp add: se_eval)
  moreover have "se_run False ?x2 ?x3" by (rule se_run.push) (simp add: se_eval)
  moreover have "se_run False ?x3 ?x4" by (rule se_run.push_notify) (simp_all add: se_eval)
  moreover have "se_run False ?x4 ?x5" by (rule se_run.schedule) (simp add: se_eval)
  moreover have "se_run False ?x5 demo_first" unfolding demo_first_def by (rule se_run.submit_job) (simp add: se_eval)
  ultimately show ?thesis by (meson se_step.run converse_rtranclp_into_rtranclp rtranclp.rtrancl_refl)
qed

lemma demo_ran_reached: "(se_step False)\<^sup>*\<^sup>* demo_first demo_ran"
proof -
  let ?x1 = "drain_begin 1 demo_first"
  let ?x2 = "drain_pop 1 ?x1"
  let ?x3 = "se_on_tasks (\<lambda>s. goto 1 Outside (notify_notFull None s)) ?x2"
  let ?x4 = "drain_task 1 7 ?x3"
  have "se_run False demo_first ?x1" by (rule se_run.begin_job) (simp_all add: se_eval)
  moreover have "se_run False ?x1 ?x2" by (rule se_run.pop) (simp add: se_eval)
  moreover have "se_run False ?x2 ?x3" by (rule se_run.pop_notify [where v = 7]) (simp_all add: se_eval)
  moreover have "se_run False ?x3 ?x4" by (rule se_run.task) (simp add: se_eval)
  moreover have "se_run False ?x4 demo_ran" unfolding demo_ran_def by (rule se_run.pop) (simp add: se_eval)
  ultimately show ?thesis by (meson se_step.run converse_rtranclp_into_rtranclp rtranclp.rtrancl_refl)
qed

lemma demo_left_reached: "(se_step False)\<^sup>*\<^sup>* demo_ran demo_left"
proof -
  let ?x1 = "se_submit 0 8 demo_ran"
  let ?x2 = "se_push 0 8 ?x1"
  let ?x3 = "sgoto 0 S_schedule (se_on_tasks (\<lambda>s. goto 0 Outside (notify_notEmpty None s)) ?x2)"
  let ?x5 = "se_stop_exchange demo_second"
  let ?x6 = "se_on_tasks bq_stop ?x5"
  let ?x7 = "drain_clear 1 ?x6"
  let ?x8 = "drain_empty_test 1 ?x7"
  have "se_step False demo_ran ?x1" by (rule se_step.submit) (simp add: se_eval)
  moreover have "se_run False ?x1 ?x2" by (rule se_run.push) (simp add: se_eval)
  moreover have "se_run False ?x2 ?x3" by (rule se_run.push_notify) (simp_all add: se_eval)
  moreover have "se_run False ?x3 demo_second" unfolding demo_second_def by (rule se_run.schedule) (simp add: se_eval)
  moreover have "se_step False demo_second ?x5" by (rule se_step.stop) (simp add: se_eval)
  moreover have "se_step False ?x5 ?x6" by (rule se_step.stop_tasks) (simp add: se_eval)
  moreover have "se_run False ?x6 ?x7" by (rule se_run.clear) (simp add: se_eval)
  moreover have "se_run False ?x7 ?x8" by (rule se_run.empty_test) (simp add: se_eval)
  moreover have "se_run False ?x8 demo_left" unfolding demo_left_def by (rule se_run.stop_test) (simp add: se_eval)
  ultimately show ?thesis by (meson se_step.run converse_rtranclp_into_rtranclp rtranclp.rtrancl_refl)
qed

section \<open>Properties\<close>

text \<open>
  C20: A \<^verbatim>\<open>SerialExecutor\<close> runs its tasks one at a time and in the order of submission, whichever threads of the
  pool run them. In every reachable state the tasks run so far, the task being run, if any, and the queue are the
  tasks accepted, in order, and at most one thread is draining.
\<close>

theorem serial_executor_order:
  assumes "(se_step refuse)\<^sup>*\<^sup>* (mk_SerialExecutor capacity threads) x"
  shows "(\<exists>hand. length hand \<le> 1 \<and> accepted (se_tasks x) = se_executed x @ hand @ bq_queue (se_tasks x)) \<and>
    (\<forall>i < threads. \<forall>j < threads. owner (se_pc x ! i) \<and> owner (se_pc x ! j) \<longrightarrow> i = j)"
proof -
  have ok: "executor_ok x" using serial.reach_inv [OF assms] mk_executor_ok by blast
  then have s: "serial_ok x" by (simp add: executor_ok_def)
  have "\<exists>hand. length hand \<le> 1 \<and> concat (map shand (se_pc x)) = hand"
  proof (cases "\<exists>t < length (se_pc x). owner (se_pc x ! t)")
    case True
    then obtain t where t: "t < length (se_pc x)" "owner (se_pc x ! t)" by blast
    have "length (shand c) \<le> 1" for c :: "'a spc" by (cases c) simp_all
    then show ?thesis using hands_of_owner(2) [OF s t] by metis
  next
    case False
    then have "\<forall>c \<in> set (se_pc x). shand c = []" using shand_owner by (metis in_set_conv_nth)
    then show ?thesis by (intro exI [of _ "[]"]) simp
  qed
  moreover have "accepted (se_tasks x) = se_executed x @ concat (map shand (se_pc x)) @ bq_queue (se_tasks x)"
    using ok by (simp add: executor_ok_def fifo_ok_def order_ok_def)
  moreover have "length (se_pc x) = threads"
  proof -
    have r: "(se_step refuse)\<^sup>*\<^sup>* y z \<Longrightarrow> length (bq_pc (se_tasks z)) = length (bq_pc (se_tasks y))" for y z :: "'a SerialExecutor"
    proof (induction rule: rtranclp_induct)
      case (step a b)
      have "shape (se_tasks b) = shape (se_tasks a)" using se_step_queue [OF step(2)] shape_step by metis
      then show ?case using step(3) by (simp add: shape_def)
    qed simp
    show ?thesis using r [OF assms] ok by (simp add: executor_ok_def spcs_ok_def mk_SerialExecutor_def mk_BlockingQueue_def)
  qed
  ultimately show ?thesis using single_owner [OF s] by metis
qed

theorem serial_executor_order_witness:
  "\<exists>hand. length hand \<le> 1 \<and> accepted (se_tasks demo_left) = [7] @ hand @ [8]"
proof -
  have r: "(se_step False)\<^sup>*\<^sup>* (mk_SerialExecutor 0 2) demo_left"
    using demo_first_reached demo_ran_reached demo_left_reached by (meson rtranclp_trans)
  have "se_executed demo_left = [7]" "bq_queue (se_tasks demo_left) = [8]" by (simp_all add: se_eval)
  then show ?thesis using serial_executor_order [OF r] by simp
qed

text \<open>
  C21: No submitted task is forgotten while the executor is not stopped and the pool accepts its jobs. When no thread inside can go
  on, although a thread is free to take a job, then every accepted task has been run, in order, and no thread is
  blocked in \<^verbatim>\<open>submit\<close>.
\<close>

theorem serial_executor_complete:
  assumes "(se_step False)\<^sup>*\<^sup>* (mk_SerialExecutor capacity threads) x" "\<not> se_stopped x"
    and "\<nexists>x'. se_run False x x'" "sat t S_out Outside x"
  shows "se_executed x = accepted (se_tasks x) \<and> (\<forall>c \<in> set (se_pc x). c = S_out)"
proof -
  have ok: "executor_ok x" "noticed x" using serial_obliging.reach_inv [OF assms(1)] mk_executor_ok by blast+
  note idle = stuck_idle [OF ok assms(2-4)]
  then have "concat (map shand (se_pc x)) = []" by auto
  then show ?thesis using ok idle by (simp add: executor_ok_def fifo_ok_def order_ok_def)
qed

theorem serial_executor_complete_witness:
  "(se_step False)\<^sup>*\<^sup>* (mk_SerialExecutor 0 2) (drain_empty_test 1 (drain_clear 1 demo_ran)) \<and>
   se_executed (drain_empty_test 1 (drain_clear 1 demo_ran)) = [7] \<and> accepted (se_tasks (drain_empty_test 1 (drain_clear 1 demo_ran))) = [7]"
proof -
  let ?x = "drain_empty_test 1 (drain_clear 1 demo_ran)"
  have "se_run False demo_ran (drain_clear 1 demo_ran)" by (rule se_run.clear) (simp add: se_eval)
  moreover have "se_run False (drain_clear 1 demo_ran) ?x" by (rule se_run.empty_test) (simp add: se_eval)
  ultimately have r: "(se_step False)\<^sup>*\<^sup>* (mk_SerialExecutor 0 2) ?x"
    using demo_first_reached demo_ran_reached by (meson se_step.run rtranclp_trans rtranclp.rtrancl_into_rtrancl)
  have x: "se_pc ?x = [S_out, S_out]" "bq_pc (se_tasks ?x) = [Outside, Outside]" "se_jobs ?x = 0" "\<not> se_stopped ?x" "se_executed ?x = [7]"
    by (simp_all add: se_eval)
  have "\<not> se_run False ?x x'" for x' using x(1-3) by (auto elim!: se_run.cases simp: nth_Cons split: nat.splits)
  then show ?thesis using serial_executor_complete [OF r x(4), of 0] r x(1,2,5) by simp
qed

text \<open>
  \<^verbatim>\<open>stop\<close> can leave an accepted task behind for good. There is a run in which \<^verbatim>\<open>submit\<close> returns normally, the pool
  refuses nothing, and at the end the executor is stopped, all threads are outside and no job is left, while the task is
  still in the queue.
\<close>

theorem serial_executor_stop_strands:
  "(se_step False)\<^sup>*\<^sup>* (mk_SerialExecutor 0 2) demo_left \<and> se_stopped demo_left \<and> se_thrown demo_left = [] \<and>
   se_pc demo_left = [S_out, S_out] \<and> se_jobs demo_left = 0 \<and> accepted (se_tasks demo_left) = [7, 8] \<and> se_executed demo_left = [7]"
proof -
  have "(se_step False)\<^sup>*\<^sup>* (mk_SerialExecutor 0 2) demo_left"
    using demo_first_reached demo_ran_reached demo_left_reached by (meson rtranclp_trans)
  moreover have "se_stopped demo_left" "se_thrown demo_left = []" "se_pc demo_left = [S_out, S_out]" "se_jobs demo_left = 0"
    "accepted (se_tasks demo_left) = [7, 8]" "se_executed demo_left = [7]" by (simp_all add: se_eval accepted_def)
  ultimately show ?thesis by blast
qed

end
