(* ===== verification/TimerQueue.thy ===== *)
theory TimerQueue
  imports Prelude "HOL-Library.Product_Lexorder" "HOL-Library.Multiset"
begin

text \<open>
  \<^verbatim>\<open>dbase::thread::TimerQueue\<close> (\<^verbatim>\<open>code/src/thread/timer_queue.cpp\<close>): a thread that runs tasks at their times. The
  priority queue is the list of its elements in the order of \<^verbatim>\<open>TimerTaskCompare\<close>. Every section under the mutex is one
  step of the worker or of a client; time passes between the steps, in the unit of the clock. A wait on the condition variable
  ends when its predicate holds (every change that can make it true is followed by \<^verbatim>\<open>notify_all\<close>) or at its time.
  Identifiers and generations do not wrap. \<^verbatim>\<open>executeTask\<close> hands the task to the pool, if there is one (\<open>tq_pool\<close>), or calls it: \<open>tq_executed\<close> records both, with
  the times, \<open>tq_direct\<close> the calls. \<open>tq_inPool\<close> are the tasks the pool has accepted and not run yet, and \<open>tq_poolRuns\<close> the runs in the pool:
  a step of the pool runs any task it holds, once, at any later time.
\<close>

section \<open>State and operations\<close>

record 'v TimerTask =
  tt_id :: nat
  tt_expiration :: nat
  tt_interval :: nat
  tt_task :: 'v
  tt_repeat :: bool
  tt_generation :: nat

text \<open>
  Where the worker is: before the wait for work; asleep until a task is due; with a task before the second test for
  cancellation, before its execution, before the test and the flags after it, and before the push of its next
  round; or at the end.
\<close>

datatype 'v tq_pc =
    Q_wait | Q_sleep "'v TimerTask" | Q_check "'v TimerTask" | Q_exec "'v TimerTask" | Q_after "'v TimerTask"
  | Q_flags "'v TimerTask" | Q_push "'v TimerTask" | Q_gone | Q_terminated

record 'v TimerQueue =
  tq_tasks :: "'v TimerTask list"
  tq_cancelled :: "nat set"
  tq_nextId :: nat
  tq_started :: bool
  tq_stopped :: bool
  tq_stopRequested :: bool
  tq_cancelGeneration :: nat
  tq_pc :: "'v tq_pc"
  tq_pushing :: "'v TimerTask list"
  tq_now :: nat
  tq_executed :: "('v TimerTask \<times> nat) list"
  tq_pool :: bool
  tq_direct :: "('v TimerTask \<times> nat) list"
  tq_inPool :: "'v TimerTask list"
  tq_poolRuns :: "('v TimerTask \<times> nat) list"

definition mk_TimerQueue :: "bool \<Rightarrow> nat \<Rightarrow> 'v TimerQueue" where
  "mk_TimerQueue pool now = \<lparr>tq_tasks = [], tq_cancelled = {}, tq_nextId = 0, tq_started = False, tq_stopped = True,
     tq_stopRequested = False, tq_cancelGeneration = 0, tq_pc = Q_gone, tq_pushing = [], tq_now = now, tq_executed = [],
     tq_pool = pool, tq_direct = [], tq_inPool = [], tq_poolRuns = []\<rparr>"

text \<open>\<^verbatim>\<open>TimerTaskCompare\<close>: earlier expirations first, then smaller identifiers.\<close>

definition task_key :: "'v TimerTask \<Rightarrow> nat \<times> nat" where
  "task_key t = (tt_expiration t, tt_id t)"

definition pushTask :: "'v TimerTask \<Rightarrow> 'v TimerQueue \<Rightarrow> 'v TimerQueue" where
  "pushTask t s = s\<lparr>tq_tasks := insort_key task_key t (tq_tasks s)\<rparr>"

definition tq_start :: "'v TimerQueue \<Rightarrow> 'v TimerQueue" where
  "tq_start s = (if tq_started s then s else s\<lparr>tq_started := True, tq_stopped := False, tq_pc := Q_wait\<rparr>)"

definition setThreadPool :: "bool \<Rightarrow> 'v TimerQueue \<Rightarrow> 'v TimerQueue" where
  "setThreadPool pool s = s\<lparr>tq_pool := pool\<rparr>"

text \<open>\<^verbatim>\<open>runAt\<close> and \<^verbatim>\<open>runEvery\<close>: the tests, and the section that makes the task; the push is a step of its own.\<close>

definition tq_is_started :: "'v TimerQueue \<Rightarrow> bool" where
  "tq_is_started s \<longleftrightarrow> tq_started s \<and> \<not> tq_stopped s"

definition runAt_test :: "'v option \<Rightarrow> 'v TimerQueue \<Rightarrow> 'v outcome" where
  "runAt_test task s =
     (if \<not> tq_is_started s then Throw (Logic_error ''TimerQueue is not started'')
      else case task of None \<Rightarrow> Throw (Invalid_argument ''TimerQueue task is empty'') | Some v \<Rightarrow> Ret v)"

definition runEvery_test :: "nat \<Rightarrow> 'v option \<Rightarrow> 'v TimerQueue \<Rightarrow> 'v outcome" where
  "runEvery_test interval task s =
     obind (runAt_test task s) (\<lambda>v.
       if interval = 0 then Throw (Invalid_argument ''TimerQueue interval must be greater than 0'') else Ret v)"

definition make_task :: "nat \<Rightarrow> nat \<Rightarrow> bool \<Rightarrow> 'v \<Rightarrow> 'v TimerQueue \<Rightarrow> 'v TimerQueue" where
  "make_task expiration interval repeat v s =
     s\<lparr>tq_nextId := tq_nextId s + 1,
       tq_pushing := tq_pushing s @ [\<lparr>tt_id = tq_nextId s + 1, tt_expiration = expiration, tt_interval = interval, tt_task = v,
         tt_repeat = repeat, tt_generation = tq_cancelGeneration s\<rparr>]\<rparr>"

definition runAt :: "nat \<Rightarrow> 'v \<Rightarrow> 'v TimerQueue \<Rightarrow> 'v TimerQueue" where
  "runAt timePoint v s = make_task timePoint 0 False v s"

definition runAfter :: "nat \<Rightarrow> 'v \<Rightarrow> 'v TimerQueue \<Rightarrow> 'v TimerQueue" where
  "runAfter delay v s = runAt (tq_now s + delay) v s"

definition runEvery :: "nat \<Rightarrow> 'v \<Rightarrow> 'v TimerQueue \<Rightarrow> 'v TimerQueue" where
  "runEvery interval v s = make_task (tq_now s + interval) interval True v s"

definition cancel :: "nat \<Rightarrow> 'v TimerQueue \<Rightarrow> bool \<times> 'v TimerQueue" where
  "cancel timerId s = (timerId \<notin> tq_cancelled s, s\<lparr>tq_cancelled := insert timerId (tq_cancelled s)\<rparr>)"

definition cancelAll :: "'v TimerQueue \<Rightarrow> 'v TimerQueue" where
  "cancelAll s = s\<lparr>tq_cancelGeneration := tq_cancelGeneration s + 1, tq_cancelled := {}\<rparr>"

definition tq_stop_exchange :: "'v TimerQueue \<Rightarrow> 'v TimerQueue" where
  "tq_stop_exchange s = s\<lparr>tq_stopped := True\<rparr>"

definition tq_stop_clear :: "'v TimerQueue \<Rightarrow> 'v TimerQueue" where
  "tq_stop_clear s = s\<lparr>tq_cancelGeneration := tq_cancelGeneration s + 1, tq_tasks := [], tq_cancelled := {}\<rparr>"

definition isCancelledLocked :: "'v TimerTask \<Rightarrow> 'v TimerQueue \<Rightarrow> bool" where
  "isCancelledLocked t s \<longleftrightarrow> tt_generation t < tq_cancelGeneration s \<or> tt_id t \<in> tq_cancelled s"

text \<open>The inner loop of \<^verbatim>\<open>workerLoop\<close>, up to the next sleep or the task that is due.\<close>

function scan :: "'v TimerQueue \<Rightarrow> 'v TimerQueue" where
  "scan s =
     (case tq_tasks s of
        [] \<Rightarrow> s\<lparr>tq_pc := Q_wait\<rparr>
      | t # ts \<Rightarrow>
          if isCancelledLocked t s then scan (s\<lparr>tq_cancelled := tq_cancelled s - {tt_id t}, tq_tasks := ts\<rparr>)
          else if tt_expiration t > tq_now s then s\<lparr>tq_pc := Q_sleep t\<rparr>
          else s\<lparr>tq_tasks := ts, tq_pc := Q_check t\<rparr>)"
  by pat_completeness auto
termination
  by (relation "measure (\<lambda>s. length (tq_tasks s))") auto

declare scan.simps [simp del]

definition stopping :: "'v TimerQueue \<Rightarrow> bool" where
  "stopping s \<longleftrightarrow> tq_stopRequested s \<or> tq_stopped s"

text \<open>The section of \<^verbatim>\<open>workerLoop\<close> behind each wait.\<close>

definition resume :: "'v TimerQueue \<Rightarrow> 'v TimerQueue" where
  "resume s = (if stopping s then s\<lparr>tq_pc := Q_gone\<rparr> else scan s)"

definition second_test :: "'v TimerTask \<Rightarrow> 'v tq_pc \<Rightarrow> 'v TimerQueue \<Rightarrow> 'v TimerQueue" where
  "second_test t next s =
     (if isCancelledLocked t s then s\<lparr>tq_cancelled := tq_cancelled s - {tt_id t}, tq_pc := Q_wait\<rparr> else s\<lparr>tq_pc := next\<rparr>)"

definition executeTask :: "'v TimerTask \<Rightarrow> 'v TimerQueue \<Rightarrow> 'v TimerQueue" where
  "executeTask t s =
     (let s = s\<lparr>tq_executed := tq_executed s @ [(t, tq_now s)], tq_pc := (if tt_repeat t then Q_after t else Q_wait)\<rparr>
      in if tq_pool s then s\<lparr>tq_inPool := tq_inPool s @ [t]\<rparr>
         else s\<lparr>tq_direct := tq_direct s @ [(t, tq_now s)]\<rparr>)"

definition pool_runs :: "'v TimerTask \<Rightarrow> 'v TimerQueue \<Rightarrow> 'v TimerQueue" where
  "pool_runs t s = s\<lparr>tq_inPool := remove1 t (tq_inPool s), tq_poolRuns := tq_poolRuns s @ [(t, tq_now s)]\<rparr>"

lemma executeTask_simps [simp]:
  "tq_tasks (executeTask t s) = tq_tasks s" "tq_cancelled (executeTask t s) = tq_cancelled s" "tq_nextId (executeTask t s) = tq_nextId s"
  "tq_started (executeTask t s) = tq_started s" "tq_cancelGeneration (executeTask t s) = tq_cancelGeneration s" "tq_pushing (executeTask t s) = tq_pushing s"
  "tq_now (executeTask t s) = tq_now s" "tq_executed (executeTask t s) = tq_executed s @ [(t, tq_now s)]"
  "tq_pc (executeTask t s) = (if tt_repeat t then Q_after t else Q_wait)"
  by (simp_all add: executeTask_def Let_def)

definition flags_test :: "'v TimerTask \<Rightarrow> 'v TimerQueue \<Rightarrow> 'v TimerQueue" where
  "flags_test t s = s\<lparr>tq_pc := (if stopping s then Q_wait else Q_push (t\<lparr>tt_expiration := tq_now s + tt_interval t\<rparr>))\<rparr>"

definition wakes :: "'v TimerTask \<Rightarrow> 'v TimerQueue \<Rightarrow> bool" where
  "wakes t s \<longleftrightarrow> stopping s \<or> tq_tasks s = [] \<or> tt_id (hd (tq_tasks s)) \<noteq> tt_id t \<or> tt_expiration t \<le> tq_now s"

section \<open>Steps\<close>

inductive tq_step :: "'v TimerQueue \<Rightarrow> 'v TimerQueue \<Rightarrow> bool" where
  time: "tq_step s (s\<lparr>tq_now := tq_now s + d\<rparr>)"
| start: "tq_step s (tq_start s)"
| run_at: "tq_started s \<Longrightarrow> tq_step s (runAt timePoint v s)"
| run_every: "tq_started s \<Longrightarrow> 0 < interval \<Longrightarrow> tq_step s (runEvery interval v s)"
| push: "t \<in> set (tq_pushing s) \<Longrightarrow> tq_step s (pushTask t (s\<lparr>tq_pushing := remove1 t (tq_pushing s)\<rparr>))"
| cancel: "tq_step s (snd (cancel i s))"
| cancel_all: "tq_step s (cancelAll s)"
| stop_exchange: "tq_step s (tq_stop_exchange s)"
| stop_clear: "tq_stopped s \<Longrightarrow> tq_step s (tq_stop_clear s)"
| stop_request: "tq_stopped s \<Longrightarrow> tq_step s (s\<lparr>tq_stopRequested := True\<rparr>)"
| wait: "tq_pc s = Q_wait \<Longrightarrow> stopping s \<or> tq_tasks s \<noteq> [] \<Longrightarrow> tq_step s (resume s)"
| sleep: "tq_pc s = Q_sleep t \<Longrightarrow> wakes t s \<Longrightarrow> tq_step s (resume s)"
| check: "tq_pc s = Q_check t \<Longrightarrow> tq_step s (second_test t (Q_exec t) s)"
| exec: "tq_pc s = Q_exec t \<Longrightarrow> tq_step s (executeTask t s)"
| submit_throws: "tq_pc s = Q_exec t \<Longrightarrow> tq_pool s \<Longrightarrow> tq_step s (s\<lparr>tq_pc := Q_terminated\<rparr>)"
| call_throws: "tq_pc s = Q_exec t \<Longrightarrow> \<not> tq_pool s \<Longrightarrow> tq_step s ((executeTask t s)\<lparr>tq_pc := Q_terminated\<rparr>)"
| set_pool: "tq_step s (setThreadPool pool s)"
| pool_run: "t \<in> set (tq_inPool s) \<Longrightarrow> tq_step s (pool_runs t s)"
| after_exec: "tq_pc s = Q_after t \<Longrightarrow> tq_step s (second_test t (Q_flags t) s)"
| flags: "tq_pc s = Q_flags t \<Longrightarrow> tq_step s (flags_test t s)"
| push_again: "tq_pc s = Q_push t \<Longrightarrow> tq_step s (pushTask t (s\<lparr>tq_pc := Q_wait\<rparr>))"

section \<open>Where a timer is\<close>

fun held :: "'v tq_pc \<Rightarrow> 'v TimerTask list" where
  "held (Q_check t) = [t]"
| "held (Q_exec t) = [t]"
| "held (Q_after t) = [t]"
| "held (Q_flags t) = [t]"
| "held (Q_push t) = [t]"
| "held _ = []"

definition copies :: "'v TimerQueue \<Rightarrow> 'v TimerTask list" where
  "copies s = tq_tasks s @ tq_pushing s @ held (tq_pc s)"

text \<open>Every identifier is in one place at most, and the queue is sorted.\<close>

definition ids_ok :: "'v TimerQueue \<Rightarrow> bool" where
  "ids_ok s \<longleftrightarrow> distinct (map tt_id (copies s)) \<and>
     (\<forall>t \<in> set (copies s). tt_id t \<le> tq_nextId s \<and> tt_generation t \<le> tq_cancelGeneration s) \<and>
     (\<not> tq_started s \<longrightarrow> tq_pc s = Q_gone) \<and> sorted (map task_key (tq_tasks s))"

text \<open>What a scan does: it drops cancelled tasks from the front and takes the next one if it is due.\<close>

lemma scan_same:
  "tq_pushing (scan s) = tq_pushing s \<and> tq_nextId (scan s) = tq_nextId s \<and> tq_started (scan s) = tq_started s \<and>
   tq_cancelGeneration (scan s) = tq_cancelGeneration s \<and> tq_now (scan s) = tq_now s \<and> tq_executed (scan s) = tq_executed s"
proof (induction s rule: scan.induct)
  case (1 s)
  then show ?case by (subst (1 2 3 4 5 6) scan.simps) (auto split: list.split)
qed

definition scanned :: "'v TimerQueue \<Rightarrow> 'v TimerTask list \<Rightarrow> 'v TimerQueue \<Rightarrow> bool" where
  "scanned s pre s' \<longleftrightarrow> tq_cancelled s' = tq_cancelled s - tt_id ` set pre \<and>
     (tq_tasks s = pre @ tq_tasks s' \<and> (tq_pc s' = Q_wait \<or> (\<exists>t. tq_pc s' = Q_sleep t)) \<or>
      (\<exists>t. tq_tasks s = pre @ t # tq_tasks s' \<and> tq_pc s' = Q_check t \<and> tt_expiration t \<le> tq_now s))"

lemma scan_spec: "\<exists>pre. scanned s pre (scan s)"
proof (induction s rule: scan.induct)
  case (1 s)
  show ?case
  proof (cases "tq_tasks s")
    case Nil
    then have "scan s = s\<lparr>tq_pc := Q_wait\<rparr>" by (subst scan.simps) simp
    then show ?thesis using Nil by (intro exI [of _ "[]"]) (simp add: scanned_def)
  next
    case (Cons t ts)
    show ?thesis
    proof (cases "isCancelledLocked t s")
      case True
      let ?s = "s\<lparr>tq_cancelled := tq_cancelled s - {tt_id t}, tq_tasks := ts\<rparr>"
      have e: "scan s = scan ?s" using Cons True by (subst scan.simps) simp
      obtain pre where "scanned ?s pre (scan ?s)" using "1" [OF Cons True] by blast
      then have "scanned s (t # pre) (scan ?s)" using Cons by (auto simp: scanned_def)
      then show ?thesis unfolding e by blast
    next
      case False
      then have "scan s = (if tt_expiration t > tq_now s then s\<lparr>tq_pc := Q_sleep t\<rparr> else s\<lparr>tq_tasks := ts, tq_pc := Q_check t\<rparr>)"
        using Cons by (subst scan.simps) simp
      then show ?thesis using Cons by (intro exI [of _ "[]"]) (auto simp: scanned_def)
    qed
  qed
qed

lemma scanned_copies:
  assumes "scanned s pre s'" "tq_pushing s' = tq_pushing s" "held (tq_pc s) = []"
  shows "mset (copies s) = mset pre + mset (copies s')"
  using assms by (auto simp: scanned_def copies_def)

text \<open>One lemma for every kind of change: which copies there are, and what the counters do.\<close>

lemma ids_okI:
  assumes "ids_ok s" "distinct (map tt_id (copies s'))" "tq_nextId s \<le> tq_nextId s'" "tq_cancelGeneration s \<le> tq_cancelGeneration s'"
    and "\<And>t. t \<in> set (copies s') \<Longrightarrow> (\<exists>c \<in> set (copies s). tt_id c = tt_id t \<and> tt_generation c = tt_generation t) \<or>
        tt_id t \<le> tq_nextId s' \<and> tt_generation t \<le> tq_cancelGeneration s'"
    and "\<not> tq_started s' \<Longrightarrow> \<not> tq_started s \<and> tq_pc s' = tq_pc s" "sorted (map task_key (tq_tasks s'))"
  shows "ids_ok s'"
proof -
  have "tt_id t \<le> tq_nextId s' \<and> tt_generation t \<le> tq_cancelGeneration s'" if "t \<in> set (copies s')" for t
    using assms(5) [OF that] assms(1,3,4) unfolding ids_ok_def by (metis le_trans)
  then show ?thesis using assms(1,2,6,7) unfolding ids_ok_def by metis
qed

lemma distinct_of_mset: "mset xs = mset pre + mset ys \<Longrightarrow> distinct (map f xs) \<Longrightarrow> distinct (map f ys) \<and> set ys \<subseteq> set xs \<and> f ` set pre \<inter> f ` set ys = {}"
proof -
  assume "mset xs = mset pre + mset ys" "distinct (map f xs)"
  then have m: "mset xs = mset (pre @ ys)" and "distinct (map f xs)" by simp_all
  then have "distinct (map f (pre @ ys))" by (metis mset_map mset_eq_imp_distinct_iff)
  then show ?thesis using mset_eq_setD [OF m] by auto
qed

lemma ids_scan: "held (tq_pc s) = [] \<Longrightarrow> tq_started s \<Longrightarrow> ids_ok s \<Longrightarrow> ids_ok (scan s)"
proof -
  assume h: "held (tq_pc s) = []" and st: "tq_started s" and ok: "ids_ok s"
  note same = scan_same [of s]
  obtain pre where pre: "scanned s pre (scan s)" using scan_spec by blast
  have srt: "sorted (map task_key (tq_tasks s))" and d: "distinct (map tt_id (copies s))" using ok by (auto simp: ids_ok_def)
  have "sorted (map task_key (tq_tasks (scan s)))" using pre srt by (auto simp: scanned_def sorted_append)
  moreover have m: "mset (copies s) = mset pre + mset (copies (scan s))" using scanned_copies [OF pre] same h by simp
  ultimately show ?thesis using same st distinct_of_mset [OF m d] by (intro ids_okI [OF ok]) auto
qed

lemma set_insort_task: "set (insort_key task_key t ts) = insert t (set ts)"
  by (simp add: set_insort_key)

lemma ids_push:
  assumes "ids_ok s" "mset (copies s') = mset (copies s)" "tq_tasks s' = insort_key task_key t (tq_tasks s)"
    and "tq_nextId s' = tq_nextId s" "tq_cancelGeneration s' = tq_cancelGeneration s" "tq_started s' = tq_started s"
    and "tq_pc s' = tq_pc s \<or> tq_started s"
  shows "ids_ok s'"
proof -
  have "distinct (map tt_id (copies s'))" using assms(1,2) by (metis ids_ok_def mset_map mset_eq_imp_distinct_iff)
  moreover have "set (copies s') = set (copies s)" using assms(2) by (rule mset_eq_setD)
  moreover have "sorted (map task_key (tq_tasks s'))" using assms(1,3) by (simp add: ids_ok_def sorted_insort_key)
  ultimately show ?thesis using assms by (intro ids_okI [OF assms(1)]) auto
qed

lemma ids_drop:
  assumes "ids_ok s" "mset (copies s) = mset pre + mset (copies s')" "sorted (map task_key (tq_tasks s'))"
    and "tq_nextId s' = tq_nextId s" "tq_cancelGeneration s \<le> tq_cancelGeneration s'" "\<not> tq_started s' \<Longrightarrow> \<not> tq_started s \<and> tq_pc s' = tq_pc s"
  shows "ids_ok s'"
proof -
  have d: "distinct (map tt_id (copies s))" using assms(1) by (simp add: ids_ok_def)
  show ?thesis by (rule ids_okI [OF assms(1)]) (use distinct_of_mset [OF assms(2) d] assms(3-6) in auto)
qed

lemma ids_sorted: "ids_ok s \<Longrightarrow> sorted (map task_key (tq_tasks s))"
  by (simp add: ids_ok_def)

lemma ids_make: "ids_ok s \<Longrightarrow> tq_started s \<Longrightarrow> ids_ok (make_task e n r v s)"
proof -
  assume ok: "ids_ok s" and st: "tq_started s"
  let ?s = "make_task e n r v s"
  let ?t = "\<lparr>tt_id = tq_nextId s + 1, tt_expiration = e, tt_interval = n, tt_task = v, tt_repeat = r, tt_generation = tq_cancelGeneration s\<rparr>"
  have m: "mset (copies ?s) = mset (?t # copies s)" by (simp add: make_task_def copies_def)
  have "tt_id c \<noteq> tq_nextId s + 1" if "c \<in> set (copies s)" for c using ok that by (force simp: ids_ok_def)
  then have "distinct (map tt_id (?t # copies s))" using ok by (auto simp: ids_ok_def)
  then have "distinct (map tt_id (copies ?s))" using m by (metis mset_map mset_eq_imp_distinct_iff)
  moreover have "set (copies ?s) = insert ?t (set (copies s))" using mset_eq_setD [OF m] by simp
  ultimately show ?thesis using st ids_sorted [OF ok] by (intro ids_okI [OF ok]) (auto simp: make_task_def)
qed

lemma ids_step: "tq_step s s' \<Longrightarrow> ids_ok s \<Longrightarrow> ids_ok s'"
proof (induction rule: tq_step.induct)
  case (time s d)
  then show ?case by (simp add: ids_ok_def copies_def)
next
  case (start s)
  then show ?case by (auto simp: ids_ok_def copies_def tq_start_def)
next
  case (run_at s tp v)
  then show ?case by (simp add: runAt_def ids_make)
next
  case (run_every s n v)
  then show ?case by (simp add: runEvery_def ids_make)
next
  case (push t s)
  show ?case
    by (rule ids_push [OF push(2), where t = t]) (use push(1) in \<open>auto simp: pushTask_def copies_def\<close>)
next
  case (cancel s i)
  then show ?case by (simp add: ids_ok_def copies_def cancel_def)
next
  case (cancel_all s)
  then show ?case by (intro ids_drop [OF cancel_all, where pre = "[]"]) (auto simp: cancelAll_def copies_def ids_sorted)
next
  case (stop_exchange s)
  then show ?case by (simp add: ids_ok_def copies_def tq_stop_exchange_def)
next
  case (stop_clear s)
  show ?case by (rule ids_drop [OF stop_clear(2), where pre = "tq_tasks s"]) (auto simp: tq_stop_clear_def copies_def)
next
  case (stop_request s)
  then show ?case by (simp add: ids_ok_def copies_def)
next
  case (wait s)
  then have "tq_started s" by (auto simp: ids_ok_def)
  then show ?case using wait ids_scan [of s] by (auto simp: resume_def ids_ok_def copies_def)
next
  case (sleep s t)
  then have "tq_started s" by (auto simp: ids_ok_def)
  then show ?case using sleep ids_scan [of s] by (auto simp: resume_def ids_ok_def copies_def)
next
  case (check s t)
  then have "tq_started s" by (auto simp: ids_ok_def)
  then show ?case using check by (auto simp: second_test_def ids_ok_def copies_def)
next
  case (exec s t)
  then have "tq_started s" by (auto simp: ids_ok_def)
  then show ?case using exec by (auto simp: ids_ok_def copies_def)
next
  case (submit_throws s t)
  then have "tq_started s" by (auto simp: ids_ok_def)
  then show ?case using submit_throws by (auto simp: ids_ok_def copies_def)
next
  case (call_throws s t)
  then have "tq_started s" by (auto simp: ids_ok_def)
  then show ?case using call_throws by (auto simp: ids_ok_def copies_def)
next
  case (set_pool s p)
  then show ?case by (simp add: ids_ok_def copies_def setThreadPool_def)
next
  case (pool_run t s)
  then show ?case by (simp add: ids_ok_def copies_def pool_runs_def)
next
  case (after_exec s t)
  then have "tq_started s" by (auto simp: ids_ok_def)
  then show ?case using after_exec by (auto simp: second_test_def ids_ok_def copies_def)
next
  case (flags s t)
  then have "tq_started s" by (auto simp: ids_ok_def)
  then show ?case using flags by (auto simp: flags_test_def ids_ok_def copies_def)
next
  case (push_again s t)
  then have "tq_started s" by (auto simp: ids_ok_def)
  then show ?case
    by (intro ids_push [OF push_again(2), where t = t]) (use push_again(1) in \<open>auto simp: pushTask_def copies_def\<close>)
qed

section \<open>Cancelled timers\<close>

text \<open>Every copy of the timer \<open>i\<close> is cancelled, and it is not about to be executed.\<close>

definition dead :: "nat \<Rightarrow> 'v TimerQueue \<Rightarrow> bool" where
  "dead i s \<longleftrightarrow> i \<le> tq_nextId s \<and> (\<forall>c \<in> set (copies s). tt_id c = i \<longrightarrow> isCancelledLocked c s) \<and> (\<forall>t. tq_pc s = Q_exec t \<longrightarrow> tt_id t \<noteq> i)"

definition runs_of :: "nat \<Rightarrow> 'v TimerQueue \<Rightarrow> nat list" where
  "runs_of i s = map snd (filter (\<lambda>(t, _). tt_id t = i) (tq_executed s))"

lemma dead_scan:
  assumes "dead i s" "ids_ok s" "held (tq_pc s) = []"
  shows "dead i (scan s)"
proof -
  note same = scan_same [of s]
  obtain pre where pre: "scanned s pre (scan s)" using scan_spec by blast
  have m: "mset (copies s) = mset pre + mset (copies (scan s))" using scanned_copies [OF pre] same assms(3) by simp
  have d: "distinct (map tt_id (copies s))" using assms(2) by (simp add: ids_ok_def)
  note dm = distinct_of_mset [OF m d]
  have "tt_id c \<notin> tt_id ` set pre" if "c \<in> set (copies (scan s))" for c using dm that by blast
  moreover have "tq_cancelled (scan s) = tq_cancelled s - tt_id ` set pre" "\<forall>t. tq_pc (scan s) \<noteq> Q_exec t"
    using pre by (auto simp: scanned_def)
  ultimately show ?thesis using assms(1) dm same by (auto simp: dead_def isCancelledLocked_def)
qed

lemma dead_generation:
  assumes "ids_ok s" "dead i s" "set (copies s') \<subseteq> set (copies s)" "tq_cancelGeneration s' = tq_cancelGeneration s + 1"
    and "tq_nextId s' = tq_nextId s" "tq_pc s' = tq_pc s"
  shows "dead i s'"
proof -
  have "isCancelledLocked c s'" if "c \<in> set (copies s')" for c
    using assms(1,3,4) that by (fastforce simp: ids_ok_def isCancelledLocked_def)
  then show ?thesis using assms(2,5,6) by (simp add: dead_def)
qed

lemma held_unique: "ids_ok s \<Longrightarrow> held (tq_pc s) = [t] \<Longrightarrow> tt_id t \<notin> tt_id ` set (tq_tasks s @ tq_pushing s)"
  by (auto simp: ids_ok_def copies_def)

lemma dead_second_test:
  assumes "ids_ok s" "dead i s" "held (tq_pc s) = [t]" "next = Q_exec t \<or> next = Q_flags t"
  shows "dead i (second_test t next s)"
proof (cases "isCancelledLocked t s")
  case True
  have "tt_id c \<noteq> tt_id t" if "c \<in> set (tq_tasks s @ tq_pushing s)" for c
    using held_unique [OF assms(1,3)] that by (metis image_eqI)
  then show ?thesis using True assms(2,3) by (auto simp: second_test_def dead_def copies_def isCancelledLocked_def)
next
  case False
  then have "tt_id t \<noteq> i" using assms(2,3) by (auto simp: dead_def copies_def)
  then show ?thesis using False assms(2-4) by (auto simp: second_test_def dead_def copies_def isCancelledLocked_def)
qed

lemma dead_step: "tq_step s s' \<Longrightarrow> ids_ok s \<Longrightarrow> dead i s \<Longrightarrow> dead i s' \<and> runs_of i s' = runs_of i s"
proof (induction rule: tq_step.induct)
  case (time s d)
  then show ?case by (simp add: dead_def runs_of_def copies_def isCancelledLocked_def)
next
  case (start s)
  then show ?case by (auto simp: dead_def runs_of_def copies_def isCancelledLocked_def tq_start_def)
next
  case (run_at s tp v)
  then show ?case by (auto simp: dead_def runs_of_def copies_def isCancelledLocked_def runAt_def make_task_def)
next
  case (run_every s n v)
  then show ?case by (auto simp: dead_def runs_of_def copies_def isCancelledLocked_def runEvery_def make_task_def)
next
  case (push t s)
  then show ?case
    by (auto simp: dead_def runs_of_def copies_def isCancelledLocked_def pushTask_def set_insort_task dest: subsetD [OF set_remove1_subset])
next
  case (cancel s j)
  then show ?case by (auto simp: dead_def runs_of_def copies_def isCancelledLocked_def cancel_def)
next
  case (cancel_all s)
  then show ?case using dead_generation [of s i "cancelAll s"] by (simp add: runs_of_def cancelAll_def copies_def)
next
  case (stop_exchange s)
  then show ?case by (simp add: dead_def runs_of_def copies_def isCancelledLocked_def tq_stop_exchange_def)
next
  case (stop_clear s)
  then show ?case using dead_generation [of s i "tq_stop_clear s"] by (simp add: runs_of_def tq_stop_clear_def copies_def)
next
  case (stop_request s)
  then show ?case by (simp add: dead_def runs_of_def copies_def isCancelledLocked_def)
next
  case (wait s)
  then show ?case using dead_scan [of i s] scan_same [of s]
    by (auto simp: resume_def runs_of_def) (auto simp: dead_def copies_def isCancelledLocked_def)
next
  case (sleep s t)
  then show ?case using dead_scan [of i s] scan_same [of s]
    by (auto simp: resume_def runs_of_def) (auto simp: dead_def copies_def isCancelledLocked_def)
next
  case (check s t)
  then show ?case using dead_second_test [of s i t] by (simp add: runs_of_def) (simp add: second_test_def)
next
  case (exec s t)
  then show ?case by (auto simp: dead_def runs_of_def copies_def isCancelledLocked_def)
next
  case (submit_throws s t)
  then show ?case by (auto simp: dead_def runs_of_def copies_def isCancelledLocked_def)
next
  case (call_throws s t)
  then show ?case by (auto simp: dead_def runs_of_def copies_def isCancelledLocked_def)
next
  case (set_pool s p)
  then show ?case by (auto simp: dead_def runs_of_def copies_def isCancelledLocked_def setThreadPool_def)
next
  case (pool_run t s)
  then show ?case by (auto simp: dead_def runs_of_def copies_def isCancelledLocked_def pool_runs_def)
next
  case (after_exec s t)
  then show ?case using dead_second_test [of s i t] by (simp add: runs_of_def) (simp add: second_test_def)
next
  case (flags s t)
  then show ?case by (auto simp: flags_test_def dead_def runs_of_def copies_def isCancelledLocked_def)
next
  case (push_again s t)
  then show ?case by (auto simp: dead_def runs_of_def copies_def isCancelledLocked_def pushTask_def set_insort_task)
qed

interpretation timers_ids: step_machine tq_step ids_ok
  by unfold_locales (rule ids_step)

interpretation timers_dead: step_machine tq_step "\<lambda>s. ids_ok s \<and> dead i s \<and> runs_of i s = ws" for i ws
  by unfold_locales (metis ids_step dead_step)

lemma mk_ids_ok: "ids_ok (mk_TimerQueue pool now)"
  by (simp add: ids_ok_def copies_def mk_TimerQueue_def)

section \<open>The times of execution\<close>

text \<open>
  A task that is to be executed is due. The next round of a timer is due one interval after every execution so far, and a
  timer that does not repeat is gone after its execution.
\<close>

fun waiting :: "'v tq_pc \<Rightarrow> 'v TimerTask list" where
  "waiting (Q_check t) = [t]"
| "waiting (Q_exec t) = [t]"
| "waiting (Q_push t) = [t]"
| "waiting _ = []"

fun between :: "'v tq_pc \<Rightarrow> 'v TimerTask list" where
  "between (Q_after t) = [t]"
| "between (Q_flags t) = [t]"
| "between _ = []"

definition ahead :: "'v TimerQueue \<Rightarrow> 'v TimerTask set" where
  "ahead s = set (tq_tasks s) \<union> set (tq_pushing s) \<union> set (waiting (tq_pc s))"

definition follows :: "'v TimerTask \<times> nat \<Rightarrow> 'v TimerTask \<Rightarrow> bool" where
  "follows e c \<longleftrightarrow> (tt_id c = tt_id (fst e) \<longrightarrow>
     tt_repeat (fst e) \<and> tt_interval c = tt_interval (fst e) \<and> snd e + tt_interval (fst e) \<le> tt_expiration c)"

definition belongs :: "'v TimerTask \<times> nat \<Rightarrow> 'v TimerTask \<Rightarrow> bool" where
  "belongs e c \<longleftrightarrow> (tt_id c = tt_id (fst e) \<longrightarrow> tt_repeat (fst e) \<and> tt_interval c = tt_interval (fst e))"

definition rounds_ok :: "'v TimerQueue \<Rightarrow> bool" where
  "rounds_ok s \<longleftrightarrow>
     (\<forall>t. tq_pc s = Q_check t \<or> tq_pc s = Q_exec t \<longrightarrow> tt_expiration t \<le> tq_now s) \<and>
     (\<forall>c \<in> set (between (tq_pc s)). tt_repeat c) \<and>
     (\<forall>e \<in> set (tq_executed s). tt_expiration (fst e) \<le> snd e \<and> snd e \<le> tq_now s \<and> tt_id (fst e) \<le> tq_nextId s \<and>
        (\<forall>c \<in> ahead s. follows e c) \<and> (\<forall>c \<in> set (between (tq_pc s)). belongs e c))"

definition spaced :: "('v TimerTask \<times> nat) list \<Rightarrow> bool" where
  "spaced log \<longleftrightarrow> (\<forall>j < length log. \<forall>i < j. tt_id (fst (log ! i)) = tt_id (fst (log ! j)) \<longrightarrow>
     tt_repeat (fst (log ! i)) \<and> snd (log ! i) + tt_interval (fst (log ! i)) \<le> snd (log ! j))"

lemma rounds_same:
  assumes "rounds_ok s" "tq_executed s' = tq_executed s" "ahead s' \<subseteq> ahead s" "set (between (tq_pc s')) \<subseteq> set (between (tq_pc s))"
    and "tq_now s \<le> tq_now s'" "tq_nextId s \<le> tq_nextId s'"
    and "\<And>t. tq_pc s' = Q_check t \<or> tq_pc s' = Q_exec t \<Longrightarrow> tt_expiration t \<le> tq_now s'"
  shows "rounds_ok s'"
proof -
  have "tt_expiration (fst e) \<le> snd e \<and> snd e \<le> tq_now s' \<and> tt_id (fst e) \<le> tq_nextId s' \<and> (\<forall>c \<in> ahead s'. follows e c) \<and>
    (\<forall>c \<in> set (between (tq_pc s')). belongs e c)" if "e \<in> set (tq_executed s')" for e
  proof -
    have "e \<in> set (tq_executed s)" using that assms(2) by simp
    then have "tt_expiration (fst e) \<le> snd e" "snd e \<le> tq_now s" "tt_id (fst e) \<le> tq_nextId s" "\<forall>c \<in> ahead s. follows e c"
      "\<forall>c \<in> set (between (tq_pc s)). belongs e c" using assms(1) by (auto simp: rounds_ok_def)
    then show ?thesis using assms(3-6) by auto
  qed
  moreover have "\<forall>c \<in> set (between (tq_pc s')). tt_repeat c" using assms(1,4) by (auto simp: rounds_ok_def)
  ultimately show ?thesis using assms(7) unfolding rounds_ok_def by blast
qed

lemma rounds_scan: "rounds_ok s \<Longrightarrow> waiting (tq_pc s) = [] \<Longrightarrow> rounds_ok (scan s)"
proof -
  assume ok: "rounds_ok s" and w: "waiting (tq_pc s) = []"
  note same = scan_same [of s]
  obtain pre where pre: "scanned s pre (scan s)" using scan_spec by blast
  show ?thesis by (rule rounds_same [OF ok]) (use pre same in \<open>auto simp: scanned_def ahead_def\<close>)
qed

lemma rounds_make: "rounds_ok s \<Longrightarrow> rounds_ok (make_task e n r v s)"
  by (fastforce simp: rounds_ok_def make_task_def ahead_def follows_def belongs_def)

lemma rounds_resume: "rounds_ok s \<Longrightarrow> waiting (tq_pc s) = [] \<Longrightarrow> rounds_ok (resume s)"
  using rounds_scan [of s] by (auto simp: resume_def intro: rounds_same [of s] simp: ahead_def)

lemma rounds_step: "tq_step s s' \<Longrightarrow> ids_ok s \<Longrightarrow> rounds_ok s \<Longrightarrow> rounds_ok s'"
proof (induction rule: tq_step.induct)
  case (time s d)
  show ?case by (rule rounds_same [OF time(2)]) (use time(2) in \<open>auto simp: ahead_def rounds_ok_def\<close>)
next
  case (start s)
  show ?case by (rule rounds_same [OF start(2)]) (use start in \<open>auto simp: ahead_def tq_start_def rounds_ok_def ids_ok_def split: if_splits\<close>)
next
  case (run_at s tp v)
  then show ?case by (simp add: runAt_def rounds_make)
next
  case (run_every s n v)
  then show ?case by (simp add: runEvery_def rounds_make)
next
  case (push t s)
  show ?case
    by (rule rounds_same [OF push(3)])
      (use push(1,3) in \<open>auto simp: ahead_def pushTask_def set_insort_task rounds_ok_def dest: subsetD [OF set_remove1_subset]\<close>)
next
  case (cancel s i)
  show ?case by (rule rounds_same [OF cancel(2)]) (use cancel(2) in \<open>auto simp: ahead_def cancel_def rounds_ok_def\<close>)
next
  case (cancel_all s)
  show ?case by (rule rounds_same [OF cancel_all(2)]) (use cancel_all(2) in \<open>auto simp: ahead_def cancelAll_def rounds_ok_def\<close>)
next
  case (stop_exchange s)
  show ?case by (rule rounds_same [OF stop_exchange(2)]) (use stop_exchange(2) in \<open>auto simp: ahead_def tq_stop_exchange_def rounds_ok_def\<close>)
next
  case (stop_clear s)
  show ?case by (rule rounds_same [OF stop_clear(3)]) (use stop_clear(3) in \<open>auto simp: ahead_def tq_stop_clear_def rounds_ok_def\<close>)
next
  case (stop_request s)
  show ?case by (rule rounds_same [OF stop_request(3)]) (use stop_request(3) in \<open>auto simp: ahead_def rounds_ok_def\<close>)
next
  case (wait s)
  then show ?case by (simp add: rounds_resume)
next
  case (sleep s t)
  then show ?case by (simp add: rounds_resume)
next
  case (check s t)
  show ?case by (rule rounds_same [OF check(3)]) (use check in \<open>auto simp: ahead_def second_test_def rounds_ok_def split: if_splits\<close>)
next
  case (exec s t)
  have u: "tt_id c \<noteq> tt_id t" if "c \<in> set (tq_tasks s) \<union> set (tq_pushing s)" for c
    using held_unique [OF exec(2), of t] exec(1) that by (metis image_eqI set_append held.simps(2))
  have "tt_id t \<le> tq_nextId s" using exec(1,2) by (simp add: ids_ok_def copies_def)
  then show ?case using exec u by (auto simp: rounds_ok_def ahead_def follows_def belongs_def)
next
  case (submit_throws s t)
  show ?case by (rule rounds_same [OF submit_throws(4)]) (auto simp: ahead_def)
next
  case (call_throws s t)
  have u: "tt_id c \<noteq> tt_id t" if "c \<in> set (tq_tasks s) \<union> set (tq_pushing s)" for c
    using held_unique [OF call_throws(3), of t] call_throws(1) that by (metis image_eqI set_append held.simps(2))
  have "tt_id t \<le> tq_nextId s" using call_throws(1,3) by (simp add: ids_ok_def copies_def)
  then show ?case using call_throws u by (auto simp: rounds_ok_def ahead_def follows_def belongs_def)
next
  case (set_pool s p)
  show ?case by (rule rounds_same [OF set_pool(2)]) (use set_pool(2) in \<open>auto simp: ahead_def setThreadPool_def rounds_ok_def\<close>)
next
  case (pool_run t s)
  show ?case by (rule rounds_same [OF pool_run(3)]) (use pool_run(3) in \<open>auto simp: ahead_def pool_runs_def rounds_ok_def\<close>)
next
  case (after_exec s t)
  show ?case by (rule rounds_same [OF after_exec(3)]) (use after_exec in \<open>auto simp: ahead_def second_test_def rounds_ok_def split: if_splits\<close>)
next
  case (flags s t)
  then show ?case by (auto simp: rounds_ok_def flags_test_def ahead_def follows_def belongs_def)
next
  case (push_again s t)
  show ?case by (rule rounds_same [OF push_again(3)]) (use push_again in \<open>auto simp: ahead_def pushTask_def set_insort_task rounds_ok_def\<close>)
qed

lemma spaced_snoc:
  assumes "spaced log" "\<And>e. e \<in> set log \<Longrightarrow> tt_id (fst e) = tt_id t \<Longrightarrow> tt_repeat (fst e) \<and> snd e + tt_interval (fst e) \<le> w"
  shows "spaced (log @ [(t, w)])"
  using assms unfolding spaced_def by (auto simp: nth_append less_Suc_eq)

lemma next_execution:
  assumes "rounds_ok s" "tq_pc s = Q_exec t" "e \<in> set (tq_executed s)" "tt_id (fst e) = tt_id t"
  shows "tt_repeat (fst e) \<and> snd e + tt_interval (fst e) \<le> tq_now s"
proof -
  have "follows e t" using assms(1-3) by (auto simp: rounds_ok_def ahead_def)
  moreover have "tt_expiration t \<le> tq_now s" using assms(1,2) by (simp add: rounds_ok_def)
  ultimately show ?thesis using assms(4) by (auto simp: follows_def)
qed

text \<open>Every task that \<^verbatim>\<open>executeTask\<close> got was called, is in the pool or was run by it, at a time it was due.\<close>

definition runs_ok :: "'v TimerQueue \<Rightarrow> bool" where
  "runs_ok s \<longleftrightarrow> spaced (tq_executed s) \<and> spaced (tq_direct s) \<and> set (tq_direct s) \<subseteq> set (tq_executed s) \<and>
     mset (map fst (tq_direct s)) + mset (map fst (tq_poolRuns s)) + mset (tq_inPool s) = mset (map fst (tq_executed s)) \<and>
     (\<forall>t \<in> set (tq_inPool s). tt_expiration t \<le> tq_now s) \<and> (\<forall>e \<in> set (tq_poolRuns s). tt_expiration (fst e) \<le> snd e)"

lemma runs_same:
  "runs_ok s \<Longrightarrow> tq_executed s' = tq_executed s \<Longrightarrow> tq_direct s' = tq_direct s \<Longrightarrow> tq_inPool s' = tq_inPool s \<Longrightarrow> tq_poolRuns s' = tq_poolRuns s \<Longrightarrow>
     tq_now s \<le> tq_now s' \<Longrightarrow> runs_ok s'"
  by (auto simp: runs_ok_def)

lemma runs_execute:
  assumes "rounds_ok s" "tq_pc s = Q_exec t" "runs_ok s"
  shows "runs_ok (executeTask t s)"
proof -
  have "spaced (tq_executed s @ [(t, tq_now s)])" "spaced (tq_direct s @ [(t, tq_now s)])"
    using next_execution [OF assms(1,2)] assms(3) by (auto intro!: spaced_snoc simp: runs_ok_def)
  moreover have "tt_expiration t \<le> tq_now s" using assms(1,2) by (simp add: rounds_ok_def)
  ultimately show ?thesis using assms(3) by (auto simp: runs_ok_def executeTask_def Let_def)
qed

lemma scan_same_runs: "tq_direct (scan s) = tq_direct s \<and> tq_inPool (scan s) = tq_inPool s \<and> tq_poolRuns (scan s) = tq_poolRuns s"
proof (induction s rule: scan.induct)
  case (1 s)
  then show ?case by (subst (1 2 3) scan.simps) (auto split: list.split)
qed

lemma runs_step: "tq_step s s' \<Longrightarrow> rounds_ok s \<Longrightarrow> runs_ok s \<Longrightarrow> runs_ok s'"
proof (induction rule: tq_step.induct)
  case (exec s t)
  then show ?case using runs_execute by blast
next
  case (call_throws s t)
  show ?case by (rule runs_same [OF runs_execute [OF call_throws(3,1,4)]]) simp_all
next
  case (pool_run t s)
  have eq: "mset (map fst (tq_direct s)) + mset (map fst (tq_poolRuns s)) + mset (tq_inPool s) = mset (map fst (tq_executed s))"
    using pool_run(3) unfolding runs_ok_def by blast
  have "t \<in># image_mset fst (mset (tq_executed s))"
    unfolding mset_map [symmetric] eq [symmetric] using pool_run(1) by simp
  then have "add_mset t (image_mset fst (mset (tq_executed s)) - {#t#}) = image_mset fst (mset (tq_executed s))" by (rule insert_DiffM)
  then show ?case using pool_run by (auto simp: runs_ok_def pool_runs_def dest: notin_set_remove1)
next
  case (wait s)
  show ?case by (rule runs_same [OF wait(4)]) (use scan_same [of s] scan_same_runs [of s] in \<open>simp_all add: resume_def\<close>)
next
  case (sleep s t)
  show ?case by (rule runs_same [OF sleep(4)]) (use scan_same [of s] scan_same_runs [of s] in \<open>simp_all add: resume_def\<close>)
qed (erule runs_same; simp add: tq_start_def runAt_def runEvery_def make_task_def pushTask_def cancel_def cancelAll_def tq_stop_exchange_def
      tq_stop_clear_def second_test_def flags_test_def setThreadPool_def)+

interpretation timers_rounds: step_machine tq_step "\<lambda>s. ids_ok s \<and> rounds_ok s \<and> runs_ok s"
  by unfold_locales (metis ids_step rounds_step runs_step)

lemma mk_rounds_ok: "rounds_ok (mk_TimerQueue pool now) \<and> runs_ok (mk_TimerQueue pool now)"
  by (simp add: rounds_ok_def runs_ok_def spaced_def mk_TimerQueue_def)

lemma spaced_last:
  assumes "spaced (log @ [x])"
  shows "spaced log" and "e \<in> set log \<Longrightarrow> tt_id (fst e) = tt_id (fst x) \<Longrightarrow> tt_repeat (fst e)"
proof -
  show "spaced log" unfolding spaced_def
  proof (intro allI impI)
    fix j i assume "j < length log" "i < j" "tt_id (fst (log ! i)) = tt_id (fst (log ! j))"
    then show "tt_repeat (fst (log ! i)) \<and> snd (log ! i) + tt_interval (fst (log ! i)) \<le> snd (log ! j)"
      using assms [unfolded spaced_def, rule_format, of j i] by (simp add: nth_append)
  qed
  assume "e \<in> set log" "tt_id (fst e) = tt_id (fst x)"
  then obtain i where "i < length log" "log ! i = e" by (auto simp: in_set_conv_nth)
  then show "tt_repeat (fst e)"
    using assms [unfolded spaced_def, rule_format, of "length log" i] \<open>tt_id (fst e) = tt_id (fst x)\<close> by (simp add: nth_append)
qed

text \<open>A timer that does not repeat is executed once at most.\<close>

lemma spaced_once: "spaced log \<Longrightarrow> length (filter (\<lambda>e. tt_id (fst e) = i \<and> \<not> tt_repeat (fst e)) log) \<le> 1"
proof (induction log rule: rev_induct)
  case (snoc x log)
  have "filter (\<lambda>e. tt_id (fst e) = i \<and> \<not> tt_repeat (fst e)) log = []" if "tt_id (fst x) = i"
    using spaced_last(2) [OF snoc.prems] that by (auto simp: filter_empty_conv)
  then show ?case using snoc.IH [OF spaced_last(1) [OF snoc.prems]] by auto
qed simp

section \<open>Properties\<close>

text \<open>A timer that runs every 10 units, up to its second round.\<close>

definition demo_armed :: "nat TimerQueue" where
  "demo_armed = (let s = runEvery 10 5 (tq_start (mk_TimerQueue False 100)); t = hd (tq_pushing s)
     in pushTask t (s\<lparr>tq_pushing := remove1 t (tq_pushing s)\<rparr>))"

definition demo_due :: "nat TimerQueue" where
  "demo_due = resume (demo_armed\<lparr>tq_now := tq_now demo_armed + 12\<rparr>)"

definition demo_once :: "nat TimerQueue" where
  "demo_once = (let t = hd (held (tq_pc demo_due)) in executeTask t (second_test t (Q_exec t) demo_due))"

lemmas tq_eval = demo_armed_def demo_due_def demo_once_def mk_TimerQueue_def tq_start_def runEvery_def make_task_def pushTask_def Let_def
  resume_def stopping_def scan.simps isCancelledLocked_def executeTask_def second_test_def

lemma demo_once_reached: "tq_step\<^sup>*\<^sup>* (mk_TimerQueue False 100) demo_armed \<and> tq_step\<^sup>*\<^sup>* demo_armed demo_once"
proof -
  let ?s1 = "tq_start (mk_TimerQueue False 100) :: nat TimerQueue"
  let ?s2 = "runEvery 10 5 ?s1"
  let ?s4 = "demo_armed\<lparr>tq_now := tq_now demo_armed + 12\<rparr>"
  let ?t = "hd (held (tq_pc demo_due))"
  have "tq_step (mk_TimerQueue False 100) ?s1" by (rule tq_step.start)
  moreover have "tq_step ?s1 ?s2" by (rule tq_step.run_every) (simp_all add: tq_eval)
  moreover have "tq_step ?s2 demo_armed" unfolding demo_armed_def Let_def by (rule tq_step.push) (simp add: tq_eval)
  moreover have "tq_step demo_armed ?s4" by (rule tq_step.time)
  moreover have "tq_step ?s4 demo_due" unfolding demo_due_def by (rule tq_step.wait) (simp_all add: tq_eval)
  moreover have "tq_step demo_due (second_test ?t (Q_exec ?t) demo_due)" by (rule tq_step.check) (simp add: tq_eval)
  moreover have "tq_step (second_test ?t (Q_exec ?t) demo_due) demo_once"
    unfolding demo_once_def Let_def by (rule tq_step.exec) (simp add: tq_eval)
  ultimately show ?thesis by (meson converse_rtranclp_into_rtranclp rtranclp.rtrancl_refl)
qed

text \<open>
  C24: Timers never run early. Whatever clients do and however the steps interleave, the worker calls a task or hands it to the pool at
  or after the time it is due, a timer from \<^verbatim>\<open>runAt\<close> or \<^verbatim>\<open>runAfter\<close> once at most, and a timer from \<^verbatim>\<open>runEvery\<close> with at least its interval between one time and
  the next. Of the runs themselves: none, by the worker or in the pool, is before its time; every call or hand-over gives one run at most, so that a timer that does not repeat
  runs once at most; and two calls of a timer by the worker itself are at least its interval apart. Runs in the pool can be closer, when the pool was busy.
\<close>

theorem timer_queue_times:
  assumes "tq_step\<^sup>*\<^sup>* (mk_TimerQueue pool now) s"
  shows "(\<forall>e \<in> set (tq_executed s). tt_expiration (fst e) \<le> snd e) \<and> spaced (tq_executed s) \<and>
    (\<forall>e \<in> set (tq_direct s @ tq_poolRuns s). tt_expiration (fst e) \<le> snd e) \<and>
    mset (map fst (tq_direct s @ tq_poolRuns s)) + mset (tq_inPool s) = mset (map fst (tq_executed s)) \<and>
    length (filter (\<lambda>e. tt_id (fst e) = i \<and> \<not> tt_repeat (fst e)) (tq_direct s @ tq_poolRuns s)) \<le> 1 \<and>
    spaced (tq_direct s)"
proof -
  have ok: "rounds_ok s" "runs_ok s" using timers_rounds.reach_inv [OF assms] mk_ids_ok mk_rounds_ok by blast+
  let ?runs = "tq_direct s @ tq_poolRuns s" and ?P = "\<lambda>t. tt_id t = i \<and> \<not> tt_repeat t"
  have m: "mset (map fst ?runs) + mset (tq_inPool s) = mset (map fst (tq_executed s))" using ok(2) by (simp add: runs_ok_def)
  then have "mset (map fst ?runs) \<subseteq># mset (map fst (tq_executed s))" by (metis mset_subset_eq_add_left)
  then have "size (filter_mset ?P (mset (map fst ?runs))) \<le> size (filter_mset ?P (mset (map fst (tq_executed s))))"
    by (intro size_mset_mono multiset_filter_mono)
  then have "length (filter (?P \<circ> fst) ?runs) \<le> length (filter (?P \<circ> fst) (tq_executed s))"
    by (simp only: mset_filter [symmetric] size_mset filter_map length_map)
  moreover have "length (filter (?P \<circ> fst) (tq_executed s)) \<le> 1" using spaced_once [of "tq_executed s" i] ok(2) by (simp add: runs_ok_def comp_def)
  ultimately have "length (filter (?P \<circ> fst) ?runs) \<le> 1" by (rule order_trans)
  moreover have "\<forall>e \<in> set ?runs. tt_expiration (fst e) \<le> snd e" using ok by (auto simp: runs_ok_def rounds_ok_def)
  ultimately show ?thesis using ok m by (simp add: runs_ok_def rounds_ok_def comp_def)
qed

theorem timer_queue_times_witness:
  "tq_step\<^sup>*\<^sup>* (mk_TimerQueue False 100) demo_once \<and> map (\<lambda>e. (tt_id (fst e), tt_expiration (fst e), snd e)) (tq_executed demo_once) = [(1, 110, 112)] \<and>
   list_all (\<lambda>e. tt_expiration (fst e) \<le> snd e) (tq_executed demo_once) \<and> spaced (tq_direct demo_once)"
proof -
  have r: "tq_step\<^sup>*\<^sup>* (mk_TimerQueue False 100) demo_once" using demo_once_reached by (meson rtranclp_trans)
  moreover have "map (\<lambda>e. (tt_id (fst e), tt_expiration (fst e), snd e)) (tq_executed demo_once) = [(1, 110, 112)]" by (simp add: tq_eval)
  ultimately show ?thesis using timer_queue_times [OF r] by (simp add: list_all_iff)
qed

text \<open>
  Cancelling works. After \<^verbatim>\<open>cancel\<close> of a timer, or \<^verbatim>\<open>cancelAll\<close>, that timer is never called or handed to the pool again, in any continuation, unless the
  worker had already passed its last test and was about to execute it.
\<close>

theorem timer_queue_cancel:
  assumes "tq_step\<^sup>*\<^sup>* (mk_TimerQueue pool now) s" "i \<le> tq_nextId s" "\<forall>t. tq_pc s = Q_exec t \<longrightarrow> tt_id t \<noteq> i"
    and "s' = snd (cancel i s) \<or> s' = cancelAll s" "tq_step\<^sup>*\<^sup>* s' s''"
  shows "runs_of i s'' = runs_of i s"
proof -
  have ids: "ids_ok s" using timers_ids.reach_inv [OF assms(1) mk_ids_ok] .
  have "tt_generation c \<le> tq_cancelGeneration s" if "c \<in> set (copies s)" for c using ids that by (simp add: ids_ok_def)
  then have "dead i s'" using assms(2-4) by (fastforce simp: dead_def cancel_def cancelAll_def copies_def isCancelledLocked_def less_Suc_eq_le)
  moreover have "ids_ok s'" using assms(4) ids ids_step tq_step.cancel tq_step.cancel_all by metis
  moreover have "runs_of i s' = runs_of i s" using assms(4) by (auto simp: runs_of_def cancel_def cancelAll_def)
  ultimately show ?thesis using timers_dead.reach_inv [OF assms(5)] by blast
qed

theorem timer_queue_cancel_witness:
  "runs_of 1 (snd (cancel 1 demo_once)\<lparr>tq_now := tq_now (snd (cancel 1 demo_once)) + 50\<rparr>) = [112]"
proof -
  have r: "tq_step\<^sup>*\<^sup>* (mk_TimerQueue False 100) demo_once" using demo_once_reached by (meson rtranclp_trans)
  have "tq_step\<^sup>*\<^sup>* (snd (cancel 1 demo_once)) (snd (cancel 1 demo_once)\<lparr>tq_now := tq_now (snd (cancel 1 demo_once)) + 50\<rparr>)"
    using tq_step.time by blast
  moreover have "1 \<le> tq_nextId demo_once" "\<forall>t. tq_pc demo_once = Q_exec t \<longrightarrow> tt_id t \<noteq> 1" "runs_of 1 demo_once = [112]"
    by (simp_all add: tq_eval runs_of_def)
  ultimately show ?thesis using timer_queue_cancel [OF r, of 1 "snd (cancel 1 demo_once)"] by simp
qed

end
