(* ===== verification/Config.thy ===== *)
theory Config
  imports Str "HOL-Library.AList"
begin

text \<open>
  \<^verbatim>\<open>dbase::config\<close>: configuration values (\<^verbatim>\<open>config_value.cpp\<close>) and a tree of them that is read and written by dotted
  paths (\<^verbatim>\<open>config.cpp\<close>). An object, a \<^verbatim>\<open>std::unordered_map\<close>, is an association list with distinct keys, in the
  order in which it is iterated. A \<^verbatim>\<open>double\<close> is a value of the type \<open>'d\<close>; its text and the casts to it are
  parameters. A pointer into the tree is the value it points to. What a \<^verbatim>\<open>set\<close> that throws leaves behind is not modelled.
\<close>

section \<open>\<^verbatim>\<open>ConfigValue\<close>\<close>

datatype 'd ConfigValue =
    CNull | CBool bool | CInt int | CUInt nat | CDouble 'd | CString string
  | CArray "'d ConfigValue list" | CObject "(string \<times> 'd ConfigValue) list"

fun isArray :: "'d ConfigValue \<Rightarrow> bool" where
  "isArray (CArray _) = True"
| "isArray _ = False"

fun isObject :: "'d ConfigValue \<Rightarrow> bool" where
  "isObject (CObject _) = True"
| "isObject _ = False"

definition makeTypeError :: "string \<Rightarrow> string \<Rightarrow> Error" where
  "makeTypeError expected actual =
     mk_error EC_InvalidArgument (''config value type mismatch, expected '' @ expected @ '', actual '' @ actual)"

fun typeName :: "'d ConfigValue \<Rightarrow> string" where
  "typeName CNull = ''null''"
| "typeName (CBool _) = ''bool''"
| "typeName (CInt _) = ''int64''"
| "typeName (CUInt _) = ''uint64''"
| "typeName (CDouble _) = ''double''"
| "typeName (CString _) = ''string''"
| "typeName (CArray _) = ''array''"
| "typeName (CObject _) = ''object''"

definition escape_char :: "char \<Rightarrow> string" where
  "escape_char ch =
     (if ch = CHR 0x5C then [CHR 0x5C, CHR 0x5C]
      else if ch = CHR 0x22 then [CHR 0x5C, CHR 0x22]
      else if ch = CHR 0x0A then [CHR 0x5C, CHR ''n'']
      else if ch = CHR 0x0D then [CHR 0x5C, CHR ''r'']
      else if ch = CHR 0x09 then [CHR 0x5C, CHR ''t'']
      else [ch])"

definition escapeString :: "string \<Rightarrow> string" where
  "escapeString input = concat (map escape_char input)"

definition quoted :: "string \<Rightarrow> string" where
  "quoted s = CHR 0x22 # escapeString s @ [CHR 0x22]"

fun config_toString :: "('d \<Rightarrow> string) \<Rightarrow> 'd ConfigValue \<Rightarrow> string" where
  "config_toString show_double CNull = ''null''"
| "config_toString show_double (CBool b) = (if b then ''true'' else ''false'')"
| "config_toString show_double (CInt i) = to_string i"
| "config_toString show_double (CUInt n) = nat_digits n"
| "config_toString show_double (CDouble d) = show_double d"
| "config_toString show_double (CString s) = s"
| "config_toString show_double (CArray vs) =
     ''['' @ join (map (\<lambda>v. quoted (config_toString show_double v)) vs) '','' @ '']''"
| "config_toString show_double (CObject kvs) =
     ''{'' @ join (map (\<lambda>(k, v). quoted k @ '':'' @ quoted (config_toString show_double v)) kvs) '','' @ ''}''"

fun tryGetBool :: "'d ConfigValue \<Rightarrow> bool Result" where
  "tryGetBool (CBool b) = Value b"
| "tryGetBool v = Fail (makeTypeError ''bool'' (typeName v))"

fun tryGetInt :: "'d ConfigValue \<Rightarrow> int Result" where
  "tryGetInt (CInt i) = Value i"
| "tryGetInt (CUInt n) =
     (if n > 2 ^ 63 - 1 then Fail (mk_error EC_InvalidArgument ''uint64 value out of int64 range'') else Value (int n))"
| "tryGetInt v = Fail (makeTypeError ''int64'' (typeName v))"

fun tryGetUInt :: "'d ConfigValue \<Rightarrow> nat Result" where
  "tryGetUInt (CUInt n) = Value n"
| "tryGetUInt (CInt i) =
     (if i < 0 then Fail (mk_error EC_InvalidArgument ''negative int64 cannot convert to uint64'') else Value (nat i))"
| "tryGetUInt v = Fail (makeTypeError ''uint64'' (typeName v))"

fun tryGetDouble :: "(int \<Rightarrow> 'd) \<Rightarrow> 'd ConfigValue \<Rightarrow> 'd Result" where
  "tryGetDouble cast (CDouble d) = Value d"
| "tryGetDouble cast (CInt i) = Value (cast i)"
| "tryGetDouble cast (CUInt n) = Value (cast (int n))"
| "tryGetDouble cast v = Fail (makeTypeError ''double'' (typeName v))"

fun tryGetString :: "'d ConfigValue \<Rightarrow> string Result" where
  "tryGetString (CString s) = Value s"
| "tryGetString v = Fail (makeTypeError ''string'' (typeName v))"

fun tryGetArray :: "'d ConfigValue \<Rightarrow> 'd ConfigValue list Result" where
  "tryGetArray (CArray vs) = Value vs"
| "tryGetArray v = Fail (makeTypeError ''array'' (typeName v))"

fun tryGetObject :: "'d ConfigValue \<Rightarrow> (string \<times> 'd ConfigValue) list Result" where
  "tryGetObject (CObject kvs) = Value kvs"
| "tryGetObject v = Fail (makeTypeError ''object'' (typeName v))"

section \<open>Paths\<close>

definition isIndexSegment :: "string \<Rightarrow> bool" where
  "isIndexSegment segment \<longleftrightarrow> segment \<noteq> [] \<and> list_all is_digit segment"

function path_loop :: "string \<Rightarrow> nat \<Rightarrow> string list" where
  "path_loop path start =
     (if start \<le> length path
      then case sv_find path ''.'' start of
             None \<Rightarrow> [drop start path]
           | Some pos \<Rightarrow> substr path start (pos - start) # path_loop path (pos + 1)
      else [])"
  by pat_completeness auto
termination
  by (relation "measure (\<lambda>(path, start). Suc (length path) - start)") (auto dest: sv_find_bounds)

declare path_loop.simps [simp del]

definition splitPath :: "string \<Rightarrow> string list" where
  "splitPath path = (if path = [] then [] else path_loop path 0)"

definition parseIndex :: "string \<Rightarrow> nat" where
  "parseIndex segment = foldl (\<lambda>value ch. sz_add (sz_mul value 10) (digit_val ch)) 0 segment"

text \<open>One segment down, and a whole path.\<close>

definition child :: "string \<Rightarrow> 'd ConfigValue \<Rightarrow> 'd ConfigValue option" where
  "child part current =
     (if isIndexSegment part
      then case current of
             CArray arr \<Rightarrow> let index = parseIndex part in if index \<ge> length arr then None else Some (arr ! index)
           | _ \<Rightarrow> None
      else case current of CObject obj \<Rightarrow> map_of obj part | _ \<Rightarrow> None)"

fun walk :: "string list \<Rightarrow> 'd ConfigValue \<Rightarrow> 'd ConfigValue option" where
  "walk [] current = Some current"
| "walk (part # parts) current = Option.bind (child part current) (walk parts)"

definition getByPath :: "'d ConfigValue \<Rightarrow> string \<Rightarrow> 'd ConfigValue option" where
  "getByPath root path = (if path = [] then Some root else walk (splitPath path) root)"

text \<open>
  \<^verbatim>\<open>std::vector<ConfigValue>::resize\<close>: an element has 64 bytes, and a vector above \<^verbatim>\<open>max_size()\<close> is a \<^verbatim>\<open>std::length_error\<close>.
\<close>

definition array_resize :: "nat \<Rightarrow> 'd ConfigValue list \<Rightarrow> 'd ConfigValue list outcome" where
  "array_resize n arr =
     (if n > vec_max_size div 64 then Throw (Length_error ''vector::_M_default_append'')
      else Ret (take n arr @ replicate (n - length arr) CNull))"

fun assignPath :: "string list \<Rightarrow> 'd ConfigValue \<Rightarrow> 'd ConfigValue \<Rightarrow> 'd ConfigValue outcome" where
  "assignPath [] value current = Undef"
| "assignPath (part # rest) value current =
     (if isIndexSegment part
      then let arrayIndex = parseIndex part;
               arr = (case current of CArray arr \<Rightarrow> arr | _ \<Rightarrow> [])
           in obind (if arrayIndex \<ge> length arr then array_resize (sz_add arrayIndex 1) arr else Ret arr) (\<lambda>arr.
                if arrayIndex \<ge> length arr then Undef
                else obind (if rest = [] then Ret value else assignPath rest value (arr ! arrayIndex)) (\<lambda>v.
                       Ret (CArray (arr[arrayIndex := v]))))
      else let obj = (case current of CObject obj \<Rightarrow> obj | _ \<Rightarrow> []);
               old = (case map_of obj part of Some v \<Rightarrow> v | None \<Rightarrow> CNull)
           in obind (if rest = [] then Ret value else assignPath rest value old) (\<lambda>v.
                Ret (CObject (AList.update part v obj))))"

section \<open>\<^verbatim>\<open>Config\<close>\<close>

record 'd Config =
  m_root :: "'d ConfigValue"
  m_flatCacheDirty :: bool
  m_flatValues :: "(string \<times> 'd ConfigValue) list"

definition mk_Config :: "'d Config" where
  "mk_Config = \<lparr>m_root = CObject [], m_flatCacheDirty = True, m_flatValues = []\<rparr>"

definition makeNotFoundError :: "string \<Rightarrow> Error" where
  "makeNotFoundError path = mk_error EC_NotFound (''config path not found: '' @ path)"

definition markFlatCacheDirty :: "'d Config \<Rightarrow> 'd Config" where
  "markFlatCacheDirty c = c\<lparr>m_flatCacheDirty := True\<rparr>"

definition has :: "'d Config \<Rightarrow> string \<Rightarrow> bool" where
  "has c path \<longleftrightarrow> getByPath (m_root c) path \<noteq> None"

definition config_get :: "'d Config \<Rightarrow> string \<Rightarrow> 'd ConfigValue Result" where
  "config_get c path = (case getByPath (m_root c) path of None \<Rightarrow> Fail (makeNotFoundError path) | Some v \<Rightarrow> Value v)"

text \<open>The common body of \<^verbatim>\<open>getString\<close>, \<^verbatim>\<open>getInt\<close> and the others.\<close>

definition get_as :: "('d ConfigValue \<Rightarrow> 'a Result) \<Rightarrow> 'd Config \<Rightarrow> string \<Rightarrow> 'a Result" where
  "get_as conv c path = (case config_get c path of Fail e \<Rightarrow> Fail e | Value v \<Rightarrow> conv v)"

definition getString :: "'d Config \<Rightarrow> string \<Rightarrow> string Result" where "getString = get_as tryGetString"
definition getInt :: "'d Config \<Rightarrow> string \<Rightarrow> int Result" where "getInt = get_as tryGetInt"
definition getUInt :: "'d Config \<Rightarrow> string \<Rightarrow> nat Result" where "getUInt = get_as tryGetUInt"
definition getDouble :: "(int \<Rightarrow> 'd) \<Rightarrow> 'd Config \<Rightarrow> string \<Rightarrow> 'd Result" where "getDouble cast = get_as (tryGetDouble cast)"
definition getBool :: "'d Config \<Rightarrow> string \<Rightarrow> bool Result" where "getBool = get_as tryGetBool"
definition getArray :: "'d Config \<Rightarrow> string \<Rightarrow> 'd ConfigValue list Result" where "getArray = get_as tryGetArray"
definition getObject :: "'d Config \<Rightarrow> string \<Rightarrow> (string \<times> 'd ConfigValue) list Result" where "getObject = get_as tryGetObject"

definition getStringOr :: "'d Config \<Rightarrow> string \<Rightarrow> string \<Rightarrow> string" where
  "getStringOr c path defaultValue = valueOr (getString c path) defaultValue"
definition getIntOr :: "'d Config \<Rightarrow> string \<Rightarrow> int \<Rightarrow> int" where
  "getIntOr c path defaultValue = valueOr (getInt c path) defaultValue"
definition getUIntOr :: "'d Config \<Rightarrow> string \<Rightarrow> nat \<Rightarrow> nat" where
  "getUIntOr c path defaultValue = valueOr (getUInt c path) defaultValue"
definition getDoubleOr :: "(int \<Rightarrow> 'd) \<Rightarrow> 'd Config \<Rightarrow> string \<Rightarrow> 'd \<Rightarrow> 'd" where
  "getDoubleOr cast c path defaultValue = valueOr (getDouble cast c path) defaultValue"
definition getBoolOr :: "'d Config \<Rightarrow> string \<Rightarrow> bool \<Rightarrow> bool" where
  "getBoolOr c path defaultValue = valueOr (getBool c path) defaultValue"

definition require :: "'d Config \<Rightarrow> string \<Rightarrow> VoidResult" where
  "require c path = (if \<not> has c path then makeNotFoundError path else void_ok)"

text \<open>\<^verbatim>\<open>flattenInto\<close> as the assignments \<^verbatim>\<open>m_flatValues[path] = value\<close> it makes, in order.\<close>

definition childPath :: "string \<Rightarrow> string \<Rightarrow> string" where
  "childPath path key = (if path = [] then key else path @ ''.'' @ key)"

lemma size_zip_right [termination_simp]: "(a, b) \<in> set (zip xs ys) \<Longrightarrow> size b < Suc (size_list size ys)"
  by (drule set_zip_rightD) (auto simp: less_Suc_eq_le intro: size_list_estimation')

fun flattenInto :: "'d ConfigValue \<Rightarrow> string \<Rightarrow> (string \<times> 'd ConfigValue) list" where
  "flattenInto (CObject kvs) path =
     (if path = [] then [] else [(path, CObject kvs)]) @
     concat (map (\<lambda>(k, v). flattenInto v (childPath path k)) kvs)"
| "flattenInto (CArray vs) path =
     (if path = [] then [] else [(path, CArray vs)]) @
     concat (map (\<lambda>(i, v). flattenInto v (childPath path (nat_digits i))) (zip [0..<length vs] vs))"
| "flattenInto v path = (if path = [] then [] else [(path, v)])"

definition rebuildFlatCache :: "'d Config \<Rightarrow> 'd Config" where
  "rebuildFlatCache c =
     c\<lparr>m_flatValues := fold (\<lambda>(k, v). AList.update k v) (flattenInto (m_root c) []) [], m_flatCacheDirty := False\<rparr>"

definition config_values :: "'d Config \<Rightarrow> (string \<times> 'd ConfigValue) list \<times> 'd Config" where
  "config_values c = (let c = (if m_flatCacheDirty c then rebuildFlatCache c else c) in (m_flatValues c, c))"

definition setRoot :: "'d ConfigValue \<Rightarrow> 'd Config \<Rightarrow> 'd Config" where
  "setRoot root c = markFlatCacheDirty (c\<lparr>m_root := root\<rparr>)"

definition config_set :: "string \<Rightarrow> 'd ConfigValue \<Rightarrow> 'd Config \<Rightarrow> 'd Config outcome" where
  "config_set path value c =
     (if path = [] \<or> splitPath path = [] then Ret (setRoot value c)
      else obind (assignPath (splitPath path) value (m_root c)) (\<lambda>root. Ret (markFlatCacheDirty (c\<lparr>m_root := root\<rparr>))))"

section \<open>Reading and writing\<close>

lemma path_loop_pieces: "start \<le> length path \<Longrightarrow> path_loop path start = pieces ''.'' (drop start path)"
proof (induction path start rule: path_loop.induct)
  case (1 path start)
  show ?case
  proof (cases "find_sub ''.'' (drop start path)")
    case None
    then show ?thesis using "1.prems" by (subst path_loop.simps, subst pieces.simps) (simp add: sv_find_drop)
  next
    case (Some i)
    have b: "i + 1 \<le> length path - start" using find_sub_Some [OF Some] by simp
    have f: "sv_find path ''.'' start = Some (start + i)" using Some "1.prems" by (simp add: sv_find_drop)
    have "path_loop path (start + i + 1) = pieces ''.'' (drop (start + i + 1) path)" using "1.IH" [OF "1.prems" f] b "1.prems" by simp
    then show ?thesis using "1.prems" Some f
      by (subst path_loop.simps, subst pieces.simps) (simp add: substr_def add.commute)
  qed
qed

lemma splitPath_pieces: "path \<noteq> [] \<Longrightarrow> splitPath path = pieces ''.'' path"
  by (simp add: splitPath_def path_loop_pieces)

text \<open>A path is an arbitrary join of segments without dots.\<close>

definition segment :: "string \<Rightarrow> bool" where
  "segment p \<longleftrightarrow> p \<noteq> [] \<and> CHR ''.'' \<notin> set p"

lemma joined_nonempty: "ps \<noteq> [] \<Longrightarrow> \<forall>p \<in> set ps. p \<noteq> [] \<Longrightarrow> joined d ps \<noteq> []"
  by (induction d ps rule: joined.induct) simp_all

lemma splitPath_joined: "ps \<noteq> [] \<Longrightarrow> \<forall>p \<in> set ps. segment p \<Longrightarrow> splitPath (joined ''.'' ps) = ps"
  using pieces_joined_char [of ps "CHR ''.''"] joined_nonempty [of ps "''.''"] by (simp add: splitPath_pieces segment_def)

lemma getByPath_joined: "ps \<noteq> [] \<Longrightarrow> \<forall>p \<in> set ps. segment p \<Longrightarrow> getByPath v (joined ''.'' ps) = walk ps v"
  using joined_nonempty [of ps "''.''"] by (simp add: getByPath_def splitPath_joined segment_def)

lemma getByPath_walk: "getByPath root path = walk (splitPath path) root"
  by (simp add: getByPath_def splitPath_def)

text \<open>What a segment means: an index of an array or a key of an object.\<close>

datatype seg_key = Index nat | Key string

definition key_of :: "string \<Rightarrow> seg_key" where
  "key_of part = (if isIndexSegment part then Index (parseIndex part) else Key part)"

lemma child_array: "child part (CArray arr) = (case key_of part of Index i \<Rightarrow> if i < length arr then Some (arr ! i) else None | Key _ \<Rightarrow> None)"
  by (simp add: child_def key_of_def Let_def)

lemma child_object: "child part (CObject obj) = (case key_of part of Index _ \<Rightarrow> None | Key k \<Rightarrow> map_of obj k)"
  by (simp add: child_def key_of_def)

lemma child_leaf: "\<not> isArray v \<Longrightarrow> \<not> isObject v \<Longrightarrow> child part v = None"
  by (cases v) (simp_all add: child_def)

lemma obind_ret: "obind m f = Ret v \<longleftrightarrow> (\<exists>u. m = Ret u \<and> f u = Ret v)"
  by (cases m) simp_all

lemma array_resize_Ret: "array_resize n arr = Ret arr' \<Longrightarrow> arr' = take n arr @ replicate (n - length arr) CNull"
  by (simp add: array_resize_def split: if_splits)

lemma assign_index_step:
  fixes cur :: "'d ConfigValue"
  defines "old \<equiv> case cur of CArray arr \<Rightarrow> arr | _ \<Rightarrow> []"
  assumes "isIndexSegment part" "assignPath (part # rest) v cur = Ret cur'"
  shows "\<exists>arr u. (if parseIndex part \<ge> length old then array_resize (sz_add (parseIndex part) 1) old else Ret old) = Ret arr \<and>
    parseIndex part < length arr \<and> (if rest = [] then Ret v else assignPath rest v (arr ! parseIndex part)) = Ret u \<and>
    cur' = CArray (arr[parseIndex part := u])"
  using assms(2,3) unfolding old_def by (auto simp: Let_def obind_ret split: if_splits)

lemma assign_index:
  assumes "isIndexSegment part" "assignPath (part # rest) v cur = Ret cur'"
  shows "\<exists>arr u. cur' = CArray (arr[parseIndex part := u]) \<and> parseIndex part < length arr \<and>
    (rest = [] \<and> u = v \<or> rest \<noteq> [] \<and> assignPath rest v (arr ! parseIndex part) = Ret u) \<and>
    (\<forall>i w. child i cur = Some w \<longrightarrow> isArray cur \<longrightarrow> child i (CArray arr) = Some w) \<and>
    (isArray cur \<and> child part cur \<noteq> None \<or> arr ! parseIndex part = CNull)"
proof -
  let ?i = "parseIndex part" and ?arr = "case cur of CArray arr \<Rightarrow> arr | _ \<Rightarrow> []"
  obtain arr u where arr: "(if ?i \<ge> length ?arr then array_resize (sz_add ?i 1) ?arr else Ret ?arr) = Ret arr" "?i < length arr"
    "(if rest = [] then Ret v else assignPath rest v (arr ! ?i)) = Ret u" "cur' = CArray (arr[?i := u])"
    using assign_index_step [OF assms] by blast
  have grown: "arr = ?arr @ replicate (length arr - length ?arr) CNull"
  proof (cases "?i \<ge> length ?arr")
    case True
    then have e: "arr = take (sz_add ?i 1) ?arr @ replicate (sz_add ?i 1 - length ?arr) CNull" using arr(1) array_resize_Ret by metis
    then have "length arr = sz_add ?i 1" by simp
    then show ?thesis using e arr(2) True by simp
  qed (use arr(1) in simp)
  have "child j (CArray arr) = Some w" if cj: "child j cur = Some w" and ac: "isArray cur" for j w
  proof -
    obtain old where old: "cur = CArray old" using ac by (cases cur) auto
    obtain i where i: "key_of j = Index i" "i < length old" "w = old ! i"
      using cj old by (auto simp: child_array split: seg_key.splits if_splits)
    have g: "arr = old @ replicate (length arr - length old) CNull" using grown old by simp
    have "i < length arr" using g i(2) by (metis length_append trans_less_add1)
    moreover have "arr ! i = w" using g i(2,3) by (metis nth_append)
    ultimately show ?thesis using i(1) by (simp add: child_array)
  qed
  moreover have "isArray cur \<and> child part cur \<noteq> None \<or> arr ! ?i = CNull"
  proof (cases "?i < length ?arr")
    case True
    then show ?thesis using assms(1) by (cases cur) (simp_all add: child_array key_of_def)
  next
    case False
    then have "arr ! ?i = replicate (length arr - length ?arr) CNull ! (?i - length ?arr)" using grown by (metis nth_append)
    moreover have "?i - length ?arr < length arr - length ?arr" using arr(2) False by simp
    ultimately show ?thesis by simp
  qed
  ultimately show ?thesis using arr(2-4) by (intro exI [of _ arr] exI [of _ u]) (auto split: if_splits)
qed

lemma assign_key:
  assumes "\<not> isIndexSegment part" "assignPath (part # rest) v cur = Ret cur'"
  shows "\<exists>u. cur' = CObject (AList.update part u (case cur of CObject obj \<Rightarrow> obj | _ \<Rightarrow> [])) \<and>
    (rest = [] \<and> u = v \<or> rest \<noteq> [] \<and> assignPath rest v (case child part cur of Some w \<Rightarrow> w | None \<Rightarrow> CNull) = Ret u)"
  using assms by (cases cur) (auto simp: Let_def obind_ret child_def split: if_splits)

lemma assign_walk: "assignPath parts v cur = Ret cur' \<Longrightarrow> walk parts cur' = Some v"
proof (induction parts arbitrary: cur cur')
  case (Cons part rest)
  show ?case
  proof (cases "isIndexSegment part")
    case True
    from assign_index [OF True Cons.prems] obtain arr u where "cur' = CArray (arr[parseIndex part := u])" "parseIndex part < length arr"
      "rest = [] \<and> u = v \<or> rest \<noteq> [] \<and> assignPath rest v (arr ! parseIndex part) = Ret u" by blast
    then show ?thesis using Cons.IH True by (auto simp: child_def)
  next
    case False
    from assign_key [OF False Cons.prems] show ?thesis using Cons.IH False by (auto simp: child_def update_conv')
  qed
qed simp

text \<open>Two paths part when they differ in a segment they both have; then writing one keeps what the other leads to.\<close>

fun diverge :: "string list \<Rightarrow> string list \<Rightarrow> bool" where
  "diverge (p # ps) (q # qs) = (if key_of p = key_of q then diverge ps qs else True)"
| "diverge _ _ = False"

text \<open>The containers along the path are of the kind the path needs, so that none is replaced.\<close>

fun fitting :: "string list \<Rightarrow> 'd ConfigValue \<Rightarrow> bool" where
  "fitting [] cur = True"
| "fitting (part # rest) cur =
     ((if isIndexSegment part then isArray cur else isObject cur) \<and>
      (case child part cur of None \<Rightarrow> True | Some c \<Rightarrow> rest = [] \<or> fitting rest c))"

lemma child_cong: "key_of p = key_of q \<Longrightarrow> child p cur = child q cur"
  by (cases cur) (simp_all add: child_array child_object child_leaf)

lemma child_Some_index: "child q (CArray arr) = Some w \<Longrightarrow> \<exists>i. key_of q = Index i \<and> i < length arr \<and> w = arr ! i"
  by (auto simp: child_array split: seg_key.splits if_splits)

lemma walk_null: "walk qs CNull = Some w \<Longrightarrow> qs = []"
  by (cases qs) (simp_all add: child_leaf)

lemma assign_frame:
  assumes "assignPath ps v cur = Ret cur'" "fitting ps cur" "diverge ps qs" "walk qs cur = Some w"
  shows "walk qs cur' = Some w"
  using assms
proof (induction ps arbitrary: cur cur' qs)
  case (Cons part rest)
  obtain q qs' where qs: "qs = q # qs'" using Cons.prems(3) by (cases qs) auto
  obtain c where c: "child q cur = Some c" "walk qs' c = Some w" using Cons.prems(4) qs by (auto simp: bind_eq_Some_conv)
  have step: "\<exists>c'. child q cur' = Some c' \<and> walk qs' c' = Some w"
  proof (cases "isIndexSegment part")
    case True
    from assign_index [OF True Cons.prems(1)] obtain arr u where a: "cur' = CArray (arr[parseIndex part := u])" "parseIndex part < length arr"
      "rest = [] \<and> u = v \<or> rest \<noteq> [] \<and> assignPath rest v (arr ! parseIndex part) = Ret u"
      "\<forall>i w. child i cur = Some w \<longrightarrow> isArray cur \<longrightarrow> child i (CArray arr) = Some w" by blast
    have "isArray cur" using Cons.prems(2) True by simp
    then have q: "child q (CArray arr) = Some c" using a(4) c(1) by blast
    show ?thesis
    proof (cases "key_of part = key_of q")
      case eq: True
      then have d: "diverge rest qs'" using Cons.prems(3) qs by simp
      then have r: "rest \<noteq> []" by (cases rest) auto
      have "child part cur = Some c" using child_cong [OF eq, of cur] c(1) by simp
      then have f: "fitting rest c" using Cons.prems(2) r by simp
      have "arr ! parseIndex part = c" using q eq True a(2) child_cong [OF eq, of "CArray arr"] by (auto simp: child_def)
      then have "walk qs' u = Some w" using Cons.IH [of c u qs'] a(3) r f d c(2) by simp
      moreover have "child q cur' = Some u" using a(1,2) eq [symmetric] True by (auto simp: child_array key_of_def split: if_splits)
      ultimately show ?thesis by blast
    next
      case False
      then have "child q cur' = Some c" using q a(1) True by (auto simp: child_array key_of_def split: seg_key.splits if_splits)
      then show ?thesis using c(2) by blast
    qed
  next
    case False
    from assign_key [OF False Cons.prems(1)] obtain u where a: "cur' = CObject (AList.update part u (case cur of CObject obj \<Rightarrow> obj | _ \<Rightarrow> []))"
      "rest = [] \<and> u = v \<or> rest \<noteq> [] \<and> assignPath rest v (case child part cur of Some w \<Rightarrow> w | None \<Rightarrow> CNull) = Ret u" by blast
    obtain obj where obj: "cur = CObject obj" using Cons.prems(2) False by (cases cur) auto
    show ?thesis
    proof (cases "key_of part = key_of q")
      case eq: True
      then have d: "diverge rest qs'" using Cons.prems(3) qs by simp
      then have r: "rest \<noteq> []" by (cases rest) auto
      have pc: "child part cur = Some c" using child_cong [OF eq, of cur] c(1) by simp
      then have "fitting rest c" using Cons.prems(2) r by simp
      then have "walk qs' u = Some w" using Cons.IH [of c u qs'] a(2) r d c(2) pc by simp
      moreover have "child q cur' = Some u" using a(1) eq [symmetric] False obj by (auto simp: child_object key_of_def update_conv' split: if_splits)
      ultimately show ?thesis by blast
    next
      case ne: False
      then have "child q cur' = Some c" using c(1) a(1) obj False
        by (auto simp: child_object key_of_def update_conv' split: seg_key.splits if_splits)
      then show ?thesis using c(2) by blast
    qed
  qed
  then show ?case using qs by auto
qed simp

section \<open>The flat view\<close>

text \<open>Trees whose keys can be told apart in a path: non-empty, without dots and not numbers.\<close>

fun plain :: "'d ConfigValue \<Rightarrow> bool" where
  "plain (CArray vs) = (length vs < 2 ^ 64 \<and> (\<forall>v \<in> set vs. plain v))"
| "plain (CObject kvs) = (distinct (map fst kvs) \<and>
     (\<forall>kv \<in> set kvs. segment (fst kv) \<and> \<not> isIndexSegment (fst kv) \<and> plain (snd kv)))"
| "plain _ = True"

definition canonical :: "string list \<Rightarrow> bool" where
  "canonical ps \<longleftrightarrow> (\<forall>p \<in> set ps. segment p \<and> (isIndexSegment p \<longrightarrow> p = nat_digits (parseIndex p)))"

lemma parseIndex_mod: "parseIndex s = digits_val s mod 2 ^ 64"
proof (induction s rule: rev_induct)
  case (snoc c s)
  have "parseIndex (s @ [c]) = (parseIndex s * 10 mod 2 ^ 64 + digit_val c) mod 2 ^ 64"
    by (simp add: parseIndex_def sz_add_def sz_mul_def size_t_mod_def)
  also have "\<dots> = (digits_val s * 10 + digit_val c) mod 2 ^ 64" unfolding snoc.IH by (simp add: mod_simps)
  finally show ?case by (simp add: digits_val_snoc)
qed (simp add: parseIndex_def digits_val_def)

lemma index_segment_digits: "isIndexSegment (nat_digits i)" "i < 2 ^ 64 \<Longrightarrow> parseIndex (nat_digits i) = i"
  using nat_digits_all by (simp_all add: isIndexSegment_def list_all_iff parseIndex_mod digits_val_nat_digits)

lemma segment_digits: "segment (nat_digits i)"
proof -
  have "\<not> is_digit CHR ''.''" by (simp add: is_digit_def)
  then show ?thesis using nat_digits_all by (auto simp: segment_def)
qed

lemma child_digits: "i < length vs \<Longrightarrow> length vs < 2 ^ 64 \<Longrightarrow> child (nat_digits i) (CArray vs) = Some (vs ! i)"
  using index_segment_digits by (simp add: child_def)

lemma flatten_self: "path \<noteq> [] \<Longrightarrow> (path, v) \<in> set (flattenInto v path)"
  by (cases v) simp_all

lemma childPath_nonempty: "key \<noteq> [] \<Longrightarrow> childPath path key \<noteq> []"
  by (simp add: childPath_def)

lemma flatten_sound:
  "(k, u) \<in> set (flattenInto v path) \<Longrightarrow> plain v \<Longrightarrow>
   \<exists>ps. walk ps v = Some u \<and> (\<forall>p \<in> set ps. segment p) \<and> k = foldl childPath path ps \<and> k \<noteq> []"
proof (induction v path arbitrary: k u rule: flattenInto.induct)
  case (1 kvs path)
  show ?case
  proof (cases "path \<noteq> [] \<and> k = path \<and> u = CObject kvs")
    case False
    then obtain key w where kw: "(key, w) \<in> set kvs" "(k, u) \<in> set (flattenInto w (childPath path key))"
      using "1.prems"(1) by (auto split: if_splits)
    have ok: "segment key" "\<not> isIndexSegment key" "plain w" "distinct (map fst kvs)" using "1.prems"(2) kw(1) by auto
    obtain ps where ps: "walk ps w = Some u" "\<forall>p \<in> set ps. segment p" "k = foldl childPath (childPath path key) ps" "k \<noteq> []"
      using "1.IH" [OF kw(1) refl kw(2) ok(3)] by blast
    have "child key (CObject kvs) = Some w" using ok(2,4) kw(1) by (simp add: child_def map_of_is_SomeI)
    then show ?thesis using ps ok(1) by (intro exI [of _ "key # ps"]) simp
  qed (auto intro: exI [of _ "[]"])
next
  case (2 vs path)
  show ?case
  proof (cases "path \<noteq> [] \<and> k = path \<and> u = CArray vs")
    case False
    then obtain i w where iw: "(i, w) \<in> set (zip [0..<length vs] vs)" "(k, u) \<in> set (flattenInto w (childPath path (nat_digits i)))"
      using "2.prems"(1) by (auto split: if_splits)
    have i: "i < length vs" "w = vs ! i" using iw(1) by (auto simp: in_set_zip)
    then have ok: "plain w" "length vs < 2 ^ 64" using "2.prems"(2) by auto
    obtain ps where ps: "walk ps w = Some u" "\<forall>p \<in> set ps. segment p" "k = foldl childPath (childPath path (nat_digits i)) ps" "k \<noteq> []"
      using "2.IH" [OF iw(1) refl iw(2) ok(1)] by blast
    then show ?thesis using child_digits [OF i(1) ok(2)] i(2) segment_digits by (intro exI [of _ "nat_digits i # ps"]) simp
  qed (auto intro: exI [of _ "[]"])
qed (auto split: if_splits intro: exI [of _ "[]"])

lemma flatten_complete:
  "walk ps v = Some u \<Longrightarrow> canonical ps \<Longrightarrow> plain v \<Longrightarrow> path \<noteq> [] \<or> ps \<noteq> [] \<Longrightarrow> (foldl childPath path ps, u) \<in> set (flattenInto v path)"
proof (induction ps arbitrary: v path)
  case Nil
  then show ?case by (simp add: flatten_self)
next
  case (Cons p ps)
  obtain w where w: "child p v = Some w" "walk ps w = Some u" using Cons.prems(1) by (auto simp: bind_eq_Some_conv)
  have c: "segment p" "isIndexSegment p \<Longrightarrow> p = nat_digits (parseIndex p)" "canonical ps" using Cons.prems(2) by (auto simp: canonical_def)
  have ne: "childPath path p \<noteq> []" using c(1) by (simp add: childPath_nonempty segment_def)
  show ?case
  proof (cases v)
    case (CArray vs)
    then have i: "isIndexSegment p" "parseIndex p < length vs" "w = vs ! parseIndex p"
      using w(1) by (auto simp: child_def Let_def split: if_splits)
    then have z: "(parseIndex p, w) \<in> set (zip [0..<length vs] vs)"
      unfolding in_set_zip by (intro exI [of _ "parseIndex p"]) simp
    have "plain w" using Cons.prems(3) i(2,3) CArray by simp
    then have "(foldl childPath (childPath path p) ps, u) \<in> set (flattenInto w (childPath path (nat_digits (parseIndex p))))"
      using Cons.IH [OF w(2) c(3), of "childPath path p"] ne c(2) [OF i(1)] by simp
    then show ?thesis using CArray z by force
  next
    case (CObject kvs)
    then have k: "\<not> isIndexSegment p" "(p, w) \<in> set kvs" using w(1) by (auto simp: child_def dest: map_of_SomeD split: if_splits)
    then have "plain w" using Cons.prems(3) CObject by auto
    then have "(foldl childPath (childPath path p) ps, u) \<in> set (flattenInto w (childPath path p))"
      using Cons.IH [OF w(2) c(3), of "childPath path p"] ne by simp
    then show ?thesis using CObject k(2) by force
  qed (use w(1) in \<open>simp_all add: child_leaf\<close>)
qed

lemma foldl_childPath: "path \<noteq> [] \<Longrightarrow> \<forall>p \<in> set ps. p \<noteq> [] \<Longrightarrow> foldl childPath path ps = joined ''.'' (path # ps)"
proof (induction ps arbitrary: path)
  case (Cons p ps)
  then have "foldl childPath path (p # ps) = joined ''.'' (childPath path p # ps)" by (simp add: childPath_nonempty)
  also have "\<dots> = joined ''.'' (path # p # ps)" using Cons.prems(1) by (cases ps) (simp_all add: childPath_def joined_Cons)
  finally show ?case .
qed simp

lemma foldl_childPath_root: "ps \<noteq> [] \<Longrightarrow> \<forall>p \<in> set ps. p \<noteq> [] \<Longrightarrow> foldl childPath [] ps = joined ''.'' ps"
  by (cases ps) (simp_all add: foldl_childPath childPath_def)

lemma updates_map_of: "map_of (fold (\<lambda>(k, v). AList.update k v) kvs al) k = (case map_of (rev kvs) k of Some v \<Rightarrow> Some v | None \<Rightarrow> map_of al k)"
  by (induction kvs arbitrary: al) (auto simp: update_conv' map_add_def split: option.split)

definition flat :: "'d ConfigValue \<Rightarrow> (string \<times> 'd ConfigValue) list" where
  "flat root = fold (\<lambda>(k, v). AList.update k v) (flattenInto root []) []"

lemma flat_sound:
  assumes "plain root" "map_of (flat root) path = Some u"
  shows "getByPath root path = Some u"
proof -
  have "(path, u) \<in> set (flattenInto root [])"
    using assms(2) by (auto simp: flat_def updates_map_of dest!: map_of_SomeD split: option.splits)
  then obtain ps where ps: "walk ps root = Some u" "\<forall>p \<in> set ps. segment p" "path = foldl childPath [] ps" "path \<noteq> []"
    using flatten_sound [OF _ assms(1)] by blast
  have "ps \<noteq> []" using ps(3,4) by auto
  then show ?thesis using ps getByPath_joined [of ps root] foldl_childPath_root [of ps] by (auto simp: segment_def)
qed

lemma flat_complete:
  assumes "plain root" "path \<noteq> []" "canonical (splitPath path)"
  shows "map_of (flat root) path = getByPath root path"
proof (cases "getByPath root path")
  case None
  then show ?thesis using flat_sound [OF assms(1)] by (cases "map_of (flat root) path") auto
next
  case (Some u)
  let ?ps = "splitPath path"
  have ps: "?ps \<noteq> []" "joined ''.'' ?ps = path" using assms(2) joined_pieces [of "''.''" path] by (simp_all add: splitPath_pieces)
  have "(path, u) \<in> set (flattenInto root [])"
    using flatten_complete [of ?ps root u "[]"] Some assms ps foldl_childPath_root [of ?ps]
    by (auto simp: getByPath_walk canonical_def segment_def)
  then have "path \<in> fst ` set (rev (flattenInto root []))" by force
  then have "map_of (rev (flattenInto root [])) path \<noteq> None" by (simp add: map_of_eq_None_iff)
  then obtain u' where "map_of (flat root) path = Some u'" unfolding flat_def updates_map_of by auto
  then show ?thesis using flat_sound [OF assms(1)] Some by simp
qed

section \<open>Programs of writes\<close>

text \<open>An index below the largest vector can always be written.\<close>

definition small_indices :: "string list \<Rightarrow> bool" where
  "small_indices ps \<longleftrightarrow> (\<forall>p \<in> set ps. isIndexSegment p \<longrightarrow> parseIndex p < vec_max_size div 64)"

lemma assign_total: "ps \<noteq> [] \<Longrightarrow> small_indices ps \<Longrightarrow> \<exists>cur'. assignPath ps v cur = Ret cur'"
proof (induction ps arbitrary: cur)
  case (Cons part rest)
  have rest: "\<exists>u. (if rest = [] then Ret v else assignPath rest v w) = Ret u" for w
    using Cons.IH [of w] Cons.prems(2) by (auto simp: small_indices_def)
  show ?case
  proof (cases "isIndexSegment part")
    case True
    let ?i = "parseIndex part" and ?arr = "case cur of CArray arr \<Rightarrow> arr | _ \<Rightarrow> []"
    have i: "?i < vec_max_size div 64" using Cons.prems(2) True by (simp add: small_indices_def)
    then have sz: "sz_add ?i 1 = ?i + 1" by (simp add: sz_add_def size_t_mod_def vec_max_size_def)
    obtain arr where arr: "(if ?i \<ge> length ?arr then array_resize (sz_add ?i 1) ?arr else Ret ?arr) = Ret arr" "?i < length arr"
      using i sz by (cases "?i \<ge> length ?arr") (auto simp: array_resize_def)
    show ?thesis using True arr rest [of "arr ! ?i"] by (auto simp: Let_def)
  next
    case False
    then show ?thesis using rest [of "case map_of (case cur of CObject obj \<Rightarrow> obj | _ \<Rightarrow> []) part of Some v \<Rightarrow> v | None \<Rightarrow> CNull"]
      by (auto simp: Let_def)
  qed
qed simp

lemma plain_children: "plain cur \<Longrightarrow> child part cur = Some w \<Longrightarrow> plain w"
  by (cases cur) (auto simp: child_def Let_def dest!: map_of_SomeD split: if_splits)

lemma plain_resize: "\<forall>v \<in> set arr. plain v \<Longrightarrow> array_resize n arr = Ret arr' \<Longrightarrow> length arr' < 2 ^ 64 \<and> (\<forall>v \<in> set arr'. plain v)"
  by (auto simp: array_resize_def vec_max_size_def dest!: in_set_takeD split: if_splits)

lemma plain_list_update: "\<forall>v \<in> set arr. plain v \<Longrightarrow> plain u \<Longrightarrow> \<forall>v \<in> set (arr[i := u]). plain v"
  by (metis insert_iff set_update_subset_insert subsetD)

lemma plain_update:
  assumes "plain (CObject obj)" "segment k" "\<not> isIndexSegment k" "plain u"
  shows "plain (CObject (AList.update k u obj))"
proof -
  have "segment (fst kv) \<and> \<not> isIndexSegment (fst kv) \<and> plain (snd kv)" if "kv \<in> set (AList.update k u obj)" for kv
    using that assms by (induction obj) (auto split: if_splits)
  then show ?thesis using assms(1) by (simp add: distinct_update)
qed

lemma plain_assign:
  "assignPath ps v cur = Ret cur' \<Longrightarrow> \<forall>p \<in> set ps. segment p \<Longrightarrow> plain v \<Longrightarrow> plain cur \<Longrightarrow> plain cur'"
proof (induction ps arbitrary: cur cur')
  case (Cons part rest)
  have rest: "plain u" if "(if rest = [] then Ret v else assignPath rest v w) = Ret u" "plain w" for u w
    using that Cons.IH [of w u] Cons.prems(2,3) by (auto split: if_splits)
  show ?case
  proof (cases "isIndexSegment part")
    case True
    let ?i = "parseIndex part" and ?arr = "case cur of CArray arr \<Rightarrow> arr | _ \<Rightarrow> []"
    obtain arr u where arr: "(if ?i \<ge> length ?arr then array_resize (sz_add ?i 1) ?arr else Ret ?arr) = Ret arr" "?i < length arr"
      "(if rest = [] then Ret v else assignPath rest v (arr ! ?i)) = Ret u" "cur' = CArray (arr[?i := u])"
      using assign_index_step [OF True Cons.prems(1)] by blast
    have old: "\<forall>v \<in> set ?arr. plain v" "length ?arr < 2 ^ 64" using Cons.prems(4) by (cases cur; simp)+
    then have new: "length arr < 2 ^ 64 \<and> (\<forall>v \<in> set arr. plain v)"
      using arr(1) plain_resize [OF old(1)] by (cases "?i \<ge> length ?arr") auto
    then have "plain u" using arr(2) rest [OF arr(3)] by simp
    then show ?thesis using new arr(4) plain_list_update [of arr u ?i] by simp
  next
    case False
    let ?obj = "case cur of CObject obj \<Rightarrow> obj | _ \<Rightarrow> []"
    have obj: "plain (CObject ?obj)" using Cons.prems(4) by (cases cur) simp_all
    then have old: "plain (case map_of ?obj part of Some v \<Rightarrow> v | None \<Rightarrow> CNull)" by (auto dest!: map_of_SomeD split: option.split)
    obtain u where u: "(if rest = [] then Ret v else assignPath rest v (case map_of ?obj part of Some v \<Rightarrow> v | None \<Rightarrow> CNull)) = Ret u"
      "cur' = CObject (AList.update part u ?obj)" using Cons.prems(1) False by (auto simp: Let_def obind_ret)
    show ?thesis unfolding u(2) using plain_update [OF obj _ False rest [OF u(1) old]] Cons.prems(2) by simp
  qed
qed simp

datatype 'd config_op = Set string "'d ConfigValue" | Set_root "'d ConfigValue" | Read_values

fun config_exec :: "'d config_op \<Rightarrow> 'd Config \<Rightarrow> 'd Config outcome" where
  "config_exec (Set path v) c = config_set path v c"
| "config_exec (Set_root v) c = Ret (setRoot v c)"
| "config_exec Read_values c = Ret (snd (config_values c))"

fun config_run :: "'d config_op list \<Rightarrow> 'd Config \<Rightarrow> 'd Config outcome" where
  "config_run [] c = Ret c"
| "config_run (op # ops) c = obind (config_exec op c) (config_run ops)"

fun op_ok :: "'d config_op \<Rightarrow> bool" where
  "op_ok (Set path v) = (canonical (splitPath path) \<and> small_indices (splitPath path) \<and> plain v)"
| "op_ok (Set_root v) = plain v"
| "op_ok Read_values = True"

text \<open>The cache, unless it is marked dirty, is the flat view of the tree.\<close>

definition config_inv :: "'d Config \<Rightarrow> bool" where
  "config_inv c \<longleftrightarrow> plain (m_root c) \<and> (m_flatCacheDirty c \<or> m_flatValues c = flat (m_root c))"

lemma config_inv_init: "config_inv mk_Config"
  by (simp add: config_inv_def mk_Config_def)

lemma config_exec_inv:
  assumes "op_ok op" "config_inv c"
  shows "\<exists>c'. config_exec op c = Ret c' \<and> config_inv c'"
proof (cases op)
  case (Set path v)
  show ?thesis
  proof (cases "splitPath path = []")
    case False
    then obtain root where r: "assignPath (splitPath path) v (m_root c) = Ret root" using assms(1) Set assign_total by (metis op_ok.simps(1))
    then have "plain root" using plain_assign [OF r] assms Set by (auto simp: canonical_def config_inv_def)
    then show ?thesis using r False Set by (auto simp: config_set_def config_inv_def markFlatCacheDirty_def setRoot_def splitPath_def)
  qed (use assms Set in \<open>auto simp: config_set_def config_inv_def setRoot_def markFlatCacheDirty_def\<close>)
qed (use assms in \<open>auto simp: config_inv_def setRoot_def markFlatCacheDirty_def config_values_def rebuildFlatCache_def flat_def Let_def\<close>)

lemma config_run_inv: "\<forall>op \<in> set ops. op_ok op \<Longrightarrow> config_inv c \<Longrightarrow> \<exists>c'. config_run ops c = Ret c' \<and> config_inv c'"
proof (induction ops arbitrary: c)
  case (Cons op ops)
  then obtain c1 where "config_exec op c = Ret c1" "config_inv c1" using config_exec_inv by (metis list.set_intros(1))
  then show ?case using Cons by simp
qed simp

text \<open>Whatever the paths and trees are, the cache is dirty or fresh.\<close>

definition cache_fresh :: "'d Config \<Rightarrow> bool" where
  "cache_fresh c \<longleftrightarrow> m_flatCacheDirty c \<or> m_flatValues c = flat (m_root c)"

lemma config_exec_fresh: "config_exec op c = Ret c' \<Longrightarrow> cache_fresh c \<Longrightarrow> cache_fresh c'"
  by (cases op) (auto simp: cache_fresh_def config_set_def setRoot_def markFlatCacheDirty_def config_values_def rebuildFlatCache_def flat_def Let_def obind_ret
      split: if_splits)

lemma config_run_fresh: "config_run ops c = Ret c' \<Longrightarrow> cache_fresh c \<Longrightarrow> cache_fresh c'"
proof (induction ops arbitrary: c)
  case (Cons op ops)
  then obtain c1 where c1: "config_exec op c = Ret c1" "config_run ops c1 = Ret c'" by (auto simp: obind_ret)
  show ?case by (rule Cons.IH [OF c1(2) config_exec_fresh [OF c1(1) Cons.prems(2)]])
qed simp

lemma config_values_fresh: "cache_fresh c \<Longrightarrow> fst (config_values c) = flat (m_root c)"
  by (auto simp: config_values_def cache_fresh_def rebuildFlatCache_def flat_def Let_def)

lemma config_values_flat: "config_inv c \<Longrightarrow> fst (config_values c) = flat (m_root c)"
  by (auto simp: config_values_def config_inv_def rebuildFlatCache_def flat_def Let_def)

text \<open>
  \<^verbatim>\<open>set(path, value)\<close> of a path whose indices are below the largest vector returns, and \<^verbatim>\<open>get(path)\<close> is
  then the value. Every value at a path that parts from this one is kept, as long as the containers along the
  path have the kind the path asks for.
\<close>

theorem config_set_get:
  assumes "small_indices (splitPath path)"
  shows "\<exists>c'. config_set path v c = Ret c' \<and> config_get c' path = Value v \<and> m_flatCacheDirty c' \<and>
    (\<forall>q w. fitting (splitPath path) (m_root c) \<longrightarrow> diverge (splitPath path) (splitPath q) \<longrightarrow>
      config_get c q = Value w \<longrightarrow> config_get c' q = Value w)"
proof (cases "splitPath path = []")
  case True
  then show ?thesis by (simp add: config_set_def setRoot_def markFlatCacheDirty_def config_get_def getByPath_walk)
next
  case False
  then obtain root where r: "assignPath (splitPath path) v (m_root c) = Ret root" using assign_total assms by blast
  then have s: "config_set path v c = Ret (markFlatCacheDirty (c\<lparr>m_root := root\<rparr>))" using False by (auto simp: config_set_def splitPath_def)
  have "walk (splitPath q) root = Some w"
    if "fitting (splitPath path) (m_root c)" "diverge (splitPath path) (splitPath q)" "config_get c q = Value w" for q w
    using assign_frame [OF r that(1,2)] that(3) by (simp add: config_get_def getByPath_walk split: option.splits)
  then show ?thesis using s assign_walk [OF r] by (simp add: config_get_def getByPath_walk markFlatCacheDirty_def)
qed

theorem config_set_get_witness:
  "\<exists>c'. config_set ''a.1.b'' (CInt 5) (mk_Config :: nat Config) = Ret c' \<and> config_get c' ''a.1.b'' = Value (CInt 5)"
proof -
  have "splitPath ''a.1.b'' = [''a'', ''1'', ''b'']" by code_simp
  then have "small_indices (splitPath ''a.1.b'')"
    by (simp add: small_indices_def isIndexSegment_def is_digit_def parseIndex_def digit_val_def sz_add_def sz_mul_def size_t_mod_def vec_max_size_def)
  from config_set_get [OF this] show ?thesis by blast
qed



text \<open>\<^verbatim>\<open>setRoot\<close> of a tree with a dot in a key: \<^verbatim>\<open>values()\<close> has an entry that \<^verbatim>\<open>get\<close> does not find.\<close>

lemma dotted_key_not_found:
  "map_of (fst (config_values (setRoot (CObject [(''a.b'', CInt 1)]) (mk_Config :: nat Config)))) ''a.b'' = Some (CInt 1) \<and>
   config_get (setRoot (CObject [(''a.b'', CInt 1)]) (mk_Config :: nat Config)) ''a.b'' = Fail (makeNotFoundError ''a.b'')"
proof -
  have s: "splitPath ''a.b'' = [''a'', ''b'']" by code_simp
  show ?thesis
    by (simp add: config_values_def setRoot_def markFlatCacheDirty_def rebuildFlatCache_def mk_Config_def config_get_def getByPath_walk s child_def childPath_def
        isIndexSegment_def is_digit_def Let_def)
qed

text \<open>
  A path that starts with a number turns the object at the root into an array: every value that was under a key
  is gone.
\<close>

lemma numeric_path_drops_keys:
  assumes "splitPath path = part # rest" "isIndexSegment part" "config_set path v c = Ret c'"
    "splitPath q = key # keys" "\<not> isIndexSegment key"
  shows "config_get c' q = Fail (makeNotFoundError q)"
proof -
  have "path \<noteq> []" using assms(1) by (auto simp: splitPath_def)
  then obtain root where r: "assignPath (part # rest) v (m_root c) = Ret root" "m_root c' = root"
    using assms(1,3) by (auto simp: config_set_def obind_ret markFlatCacheDirty_def)
  then obtain arr where "root = CArray arr" using assign_index_step [OF assms(2) r(1)] by blast
  then show ?thesis using r(2) assms(4,5) by (simp add: config_get_def getByPath_walk child_def)
qed

end
