(* ===== verification/Ini.thy ===== *)
theory Ini
  imports Config
begin

text \<open>
  \<^verbatim>\<open>dbase::config::IniConfig\<close> (\<^verbatim>\<open>ini_config.cpp\<close>): a text of sections, bindings and comments is read into a \<^verbatim>\<open>Config\<close>.
  \<^verbatim>\<open>std::strtod\<close> is a parameter as in \<^verbatim>\<open>dbase::str\<close>. Reading a text is shown to be the same as the program of
  \<^verbatim>\<open>Config::set\<close> calls that its lines describe, whatever the blanks around names and values.
\<close>

section \<open>The parser\<close>

definition ini_makeParseError :: "nat \<Rightarrow> string \<Rightarrow> Error" where
  "ini_makeParseError lineNo message =
     mk_error EC_ParseError (''ini parse error at line '' @ nat_digits lineNo @ '': '' @ message)"

definition ini_toLower :: "string \<Rightarrow> string" where
  "ini_toLower input = map tolower_char input"

definition tryParseBool :: "string \<Rightarrow> bool option" where
  "tryParseBool text =
     (let lowered = ini_toLower (trim text blanks)
      in if lowered = ''true'' \<or> lowered = ''yes'' \<or> lowered = ''on'' then Some True
         else if lowered = ''false'' \<or> lowered = ''no'' \<or> lowered = ''off'' then Some False
         else None)"

definition tryParseInt :: "string \<Rightarrow> int option" where
  "tryParseInt text =
     (let s = trim text blanks
      in if s = [] then None
         else case from_chars (- (2 ^ 63)) (2 ^ 63 - 1) s of
                (ec, value, n) \<Rightarrow> if ec = Errc_ok \<and> n = length s then value else None)"

definition tryParseDouble :: "(string \<Rightarrow> 'd \<times> nat) \<Rightarrow> string \<Rightarrow> 'd option" where
  "tryParseDouble strtod text =
     (let s = trim text blanks
      in if s = [] then None
         else case strtod s of (out, n) \<Rightarrow> if n = length s then Some out else None)"

definition parseValue :: "(string \<Rightarrow> 'd \<times> nat) \<Rightarrow> string \<Rightarrow> 'd ConfigValue" where
  "parseValue strtod raw =
     (let value = trim raw blanks
      in case tryParseBool value of Some b \<Rightarrow> CBool b
         | None \<Rightarrow> case tryParseInt value of Some i \<Rightarrow> CInt i
         | None \<Rightarrow> case tryParseDouble strtod value of Some d \<Rightarrow> CDouble d
         | None \<Rightarrow> CString value)"

text \<open>The lines \<^verbatim>\<open>std::getline\<close> gives before it fails.\<close>

function getlines :: "string \<Rightarrow> string list" where
  "getlines s = (if s = [] then [] else takeWhile (\<lambda>c. c \<noteq> CHR 0x0A) s # getlines (drop 1 (dropWhile (\<lambda>c. c \<noteq> CHR 0x0A) s)))"
  by pat_completeness auto
termination
proof (relation "measure length")
  fix s :: string assume "s \<noteq> []"
  then show "(drop 1 (dropWhile (\<lambda>c. c \<noteq> CHR 0x0A) s), s) \<in> measure length"
    using length_dropWhile_le [of "\<lambda>c. c \<noteq> CHR 0x0A" s] by (cases s) (auto simp: less_Suc_eq_le)
qed simp

declare getlines.simps [simp del]

definition pop_cr :: "string \<Rightarrow> string" where
  "pop_cr line = (if line \<noteq> [] \<and> last line = CHR 0x0D then butlast line else line)"

fun ini_loop :: "(string \<Rightarrow> 'd \<times> nat) \<Rightarrow> string list \<Rightarrow> nat \<Rightarrow> string \<Rightarrow> 'd Config \<Rightarrow> 'd Config Result outcome" where
  "ini_loop strtod [] lineNo currentSection config = Ret (Value config)"
| "ini_loop strtod (line # more_lines) lineNo currentSection config =
     (let lineNo = lineNo + 1;
          trimmed = trim (pop_cr line) blanks
      in if trimmed = [] then ini_loop strtod more_lines lineNo currentSection config
         else if hd trimmed = CHR ''#'' \<or> hd trimmed = CHR '';'' then ini_loop strtod more_lines lineNo currentSection config
         else if hd trimmed = CHR ''[''
         then (if last trimmed \<noteq> CHR '']'' then Ret (Fail (ini_makeParseError lineNo ''invalid section syntax''))
               else let currentSection = trim (substr trimmed 1 (length trimmed - 2)) blanks
                    in if currentSection = [] then Ret (Fail (ini_makeParseError lineNo ''empty section name''))
                       else ini_loop strtod more_lines lineNo currentSection config)
         else case sv_find trimmed ''='' 0 of
                None \<Rightarrow> Ret (Fail (ini_makeParseError lineNo (''missing '' @ [CHR 0x27] @ ''='' @ [CHR 0x27])))
              | Some pos \<Rightarrow>
                  let key = trim (substr trimmed 0 pos) blanks;
                      value = drop (pos + 1) trimmed
                  in if key = [] then Ret (Fail (ini_makeParseError lineNo ''empty key''))
                     else let key = (if currentSection \<noteq> [] then currentSection @ ''.'' @ key else key)
                          in obind (config_set key (parseValue strtod value) config)
                               (ini_loop strtod more_lines lineNo currentSection))"

definition ini_parse :: "(string \<Rightarrow> 'd \<times> nat) \<Rightarrow> string \<Rightarrow> 'd Config Result outcome" where
  "ini_parse strtod content = ini_loop strtod (getlines content) 0 [] mk_Config"

definition ini_fromString :: "(string \<Rightarrow> 'd \<times> nat) \<Rightarrow> string \<Rightarrow> 'd Config Result outcome" where
  "ini_fromString strtod content = ini_parse strtod content"

section \<open>Texts\<close>

text \<open>What a line may be, with the blanks around its parts, and how it is written.\<close>

datatype item =
    Blank string
  | Comment string char string
  | Header string string string string string
  | Binding string string string string

fun item_text :: "item \<Rightarrow> string" where
  "item_text (Blank w) = w"
| "item_text (Comment w c t) = w @ c # t"
| "item_text (Header w1 w2 name w3 w4) = w1 @ CHR ''['' # w2 @ name @ w3 @ CHR '']'' # w4"
| "item_text (Binding w1 key w2 v) = w1 @ key @ w2 @ CHR ''='' # v"

definition one_line :: "string \<Rightarrow> bool" where
  "one_line s \<longleftrightarrow> CHR 0x0A \<notin> set s"

definition blank :: "string \<Rightarrow> bool" where
  "blank w \<longleftrightarrow> set w \<subseteq> set blanks \<and> one_line w"

definition name_ok :: "string \<Rightarrow> bool" where
  "name_ok n \<longleftrightarrow> n \<noteq> [] \<and> trimmed blanks n \<and> one_line n"

fun item_ok :: "item \<Rightarrow> bool" where
  "item_ok (Blank w) = blank w"
| "item_ok (Comment w c t) = (blank w \<and> (c = CHR ''#'' \<or> c = CHR '';'') \<and> one_line t)"
| "item_ok (Header w1 w2 name w3 w4) = (blank w1 \<and> blank w2 \<and> name_ok name \<and> blank w3 \<and> blank w4)"
| "item_ok (Binding w1 key w2 v) =
     (blank w1 \<and> name_ok key \<and> hd key \<noteq> CHR ''#'' \<and> hd key \<noteq> CHR '';'' \<and> hd key \<noteq> CHR ''['' \<and> CHR ''='' \<notin> set key \<and>
      blank w2 \<and> one_line v)"

definition ini_text :: "item list \<Rightarrow> string" where
  "ini_text items = concat (map (\<lambda>i. item_text i @ [CHR 0x0A]) items)"

text \<open>The bindings of a text, with the section each is in, and the calls of \<^verbatim>\<open>set\<close> they make.\<close>

fun bindings :: "string \<Rightarrow> item list \<Rightarrow> (string \<times> string \<times> string) list" where
  "bindings sec [] = []"
| "bindings sec (Header _ _ name _ _ # items) = bindings name items"
| "bindings sec (Binding _ key _ v # items) = (sec, key, v) # bindings sec items"
| "bindings sec (_ # items) = bindings sec items"

definition full_key :: "string \<Rightarrow> string \<Rightarrow> string" where
  "full_key sec key = (if sec \<noteq> [] then sec @ ''.'' @ key else key)"

definition binding_ops :: "(string \<Rightarrow> 'd \<times> nat) \<Rightarrow> (string \<times> string \<times> string) list \<Rightarrow> 'd config_op list" where
  "binding_ops strtod bs = map (\<lambda>(sec, key, v). Set (full_key sec key) (parseValue strtod v)) bs"

section \<open>Reading a line\<close>

lemma getlines_line: "one_line l \<Longrightarrow> getlines (l @ CHR 0x0A # s) = l # getlines s"
proof -
  assume "one_line l"
  then have a: "\<And>c. c \<in> set l \<Longrightarrow> c \<noteq> CHR 0x0A" by (auto simp: one_line_def)
  then have "takeWhile (\<lambda>c. c \<noteq> CHR 0x0A) (l @ CHR 0x0A # s) = l" "dropWhile (\<lambda>c. c \<noteq> CHR 0x0A) (l @ CHR 0x0A # s) = CHR 0x0A # s"
    using takeWhile_append2 [OF a] dropWhile_append2 [OF a] by simp_all
  then show ?thesis by (subst getlines.simps) simp
qed

lemma getlines_ini_text:
  "\<forall>i \<in> set items. one_line (item_text i) \<Longrightarrow> getlines (ini_text items @ s) = map item_text items @ getlines s"
proof (induction items)
  case (Cons i items)
  then show ?case using getlines_line [of "item_text i" "ini_text items @ s"] by (simp add: ini_text_def)
qed (simp add: ini_text_def)

lemma trim_trailing: "set b \<subseteq> set cs \<Longrightarrow> trim (s @ b) cs = trim s cs"
proof -
  assume b: "set b \<subseteq> set cs"
  obtain x y where s: "s = x @ trimView s cs @ y" "set x \<subseteq> set cs" "set y \<subseteq> set cs" using trimView_split(1) by blast
  then have e: "s @ b = x @ trimView s cs @ (y @ b)" by (metis append_assoc)
  have "trimView (x @ trimView s cs @ (y @ b)) cs = trimView s cs"
    using trimView_absorb [OF s(2) _ trimView_split(2), of "y @ b" s] s(3) b by simp
  then show ?thesis unfolding trim_def using e by metis
qed

lemma trim_pop_cr: "trim (pop_cr line) blanks = trim line blanks"
proof (cases "line \<noteq> [] \<and> last line = CHR 0x0D")
  case True
  then have "line = butlast line @ [CHR 0x0D]" by (metis append_butlast_last_id)
  then show ?thesis using True trim_trailing [of "[CHR 0x0D]" blanks "butlast line"] by (simp add: pop_cr_def blanks_def)
qed (auto simp: pop_cr_def)

lemma trim_absorb: "blank a \<Longrightarrow> blank b \<Longrightarrow> trimmed blanks s \<Longrightarrow> trim (a @ s @ b) blanks = s"
  using trimView_absorb by (simp add: trim_def blank_def)

lemma trim_left_split: "\<exists>t b. s = t @ b \<and> set b \<subseteq> set cs \<and> (t = [] \<or> last t \<notin> set cs)"
proof (induction s rule: rev_induct)
  case (snoc c s)
  then obtain t b where tb: "s = t @ b" "set b \<subseteq> set cs" "t = [] \<or> last t \<notin> set cs" by blast
  show ?case
  proof (cases "c \<in> set cs")
    case True
    then show ?thesis using tb by (intro exI [of _ t] exI [of _ "b @ [c]"]) simp
  next
    case False
    then show ?thesis by (intro exI [of _ "s @ [c]"] exI [of _ "[]"]) simp
  qed
qed simp

lemma trim_idem: "trim (trim s cs) cs = trim s cs"
  using trimView_absorb [of "[]" cs "[]" "trimView s cs"] trimView_split(2) by (simp add: trim_def)

lemma parseValue_trailing: "set b \<subseteq> set blanks \<Longrightarrow> parseValue strtod (s @ b) = parseValue strtod s"
  by (simp add: parseValue_def trim_trailing)

lemma special_not_blank: "CHR ''['' \<notin> set blanks" "CHR '']'' \<notin> set blanks" "CHR ''='' \<notin> set blanks" "CHR ''#'' \<notin> set blanks" "CHR '';'' \<notin> set blanks"
  by (simp_all add: blanks_def)

text \<open>The branches of the loop, by the trimmed line.\<close>

lemma loop_skip:
  "trim line blanks = t \<Longrightarrow> t = [] \<or> hd t = CHR ''#'' \<or> hd t = CHR '';'' \<Longrightarrow>
   ini_loop strtod (line # ls) n sec c = ini_loop strtod ls (n + 1) sec c"
  unfolding ini_loop.simps trim_pop_cr Let_def by presburger

lemma loop_section:
  "trim line blanks = t \<Longrightarrow> t \<noteq> [] \<Longrightarrow> hd t = CHR ''['' \<Longrightarrow>
   ini_loop strtod (line # ls) n sec c =
     (if last t \<noteq> CHR '']'' then Ret (Fail (ini_makeParseError (n + 1) ''invalid section syntax''))
      else let name = trim (substr t 1 (length t - 2)) blanks
           in if name = [] then Ret (Fail (ini_makeParseError (n + 1) ''empty section name''))
              else ini_loop strtod ls (n + 1) name c)"
  unfolding ini_loop.simps trim_pop_cr Let_def by simp

lemma loop_binding:
  "trim line blanks = t \<Longrightarrow> t \<noteq> [] \<Longrightarrow> hd t \<noteq> CHR ''#'' \<Longrightarrow> hd t \<noteq> CHR '';'' \<Longrightarrow> hd t \<noteq> CHR ''['' \<Longrightarrow>
   ini_loop strtod (line # ls) n sec c =
     (case sv_find t ''='' 0 of
        None \<Rightarrow> Ret (Fail (ini_makeParseError (n + 1) (''missing '' @ [CHR 0x27] @ ''='' @ [CHR 0x27])))
      | Some pos \<Rightarrow>
          let key = trim (substr t 0 pos) blanks
          in if key = [] then Ret (Fail (ini_makeParseError (n + 1) ''empty key''))
             else obind (config_set (full_key sec key) (parseValue strtod (drop (pos + 1) t)) c) (ini_loop strtod ls (n + 1) sec))"
  unfolding ini_loop.simps trim_pop_cr Let_def full_key_def by hypsubst simp

lemma step_blank: "blank w \<Longrightarrow> ini_loop strtod (w # ls) n sec c = ini_loop strtod ls (n + 1) sec c"
  using trim_absorb [of w "[]" "[]"] by (intro loop_skip [of w "[]"]) (simp_all add: trimmed_def blank_def one_line_def)

lemma step_comment:
  assumes "blank w" "ch = CHR ''#'' \<or> ch = CHR '';''"
  shows "ini_loop strtod ((w @ ch # t) # ls) n sec c = ini_loop strtod ls (n + 1) sec c"
proof -
  obtain t' b where t: "ch # t = t' @ b" "set b \<subseteq> set blanks" "t' = [] \<or> last t' \<notin> set blanks"
    using trim_left_split [of "ch # t" blanks] by blast
  have ch: "ch \<notin> set blanks" using assms(2) special_not_blank by auto
  then have ne: "t' \<noteq> []" using t(1,2) by auto
  then have hd: "hd t' = ch" using t(1) by (cases t') auto
  have "trim (w @ t' @ b) blanks = t'"
    using trimView_absorb [of w blanks b t'] assms(1) t(2,3) ne hd ch by (simp add: trim_def blank_def trimmed_def)
  then show ?thesis unfolding t(1) by (rule loop_skip) (use hd assms(2) in simp)
qed

lemma step_header:
  assumes "blank w1" "blank w2" "name_ok name" "blank w3" "blank w4"
  shows "ini_loop strtod (item_text (Header w1 w2 name w3 w4) # ls) n sec c = ini_loop strtod ls (n + 1) name c"
proof -
  let ?t = "CHR ''['' # w2 @ name @ w3 @ [CHR '']'']"
  have "trim (w1 @ ?t @ w4) blanks = ?t" using trim_absorb [OF assms(1,5), of ?t] special_not_blank by (simp add: trimmed_def)
  moreover have "trim (w2 @ name @ w3) blanks = name" using trim_absorb [OF assms(2,4)] assms(3) by (simp add: name_ok_def)
  moreover have "substr ?t 1 (length ?t - 2) = w2 @ name @ w3" by (simp add: substr_def)
  ultimately show ?thesis using loop_section [of "item_text (Header w1 w2 name w3 w4)" ?t] assms(3)
    by (simp add: name_ok_def del: ini_loop.simps)
qed

lemma step_binding:
  assumes "item_ok (Binding w1 key w2 v)"
  shows "ini_loop strtod (item_text (Binding w1 key w2 v) # ls) n sec c =
    obind (config_set (full_key sec key) (parseValue strtod v) c) (ini_loop strtod ls (n + 1) sec)"
proof -
  have ok: "blank w1" "name_ok key" "hd key \<noteq> CHR ''#''" "hd key \<noteq> CHR '';''" "hd key \<noteq> CHR ''[''" "CHR ''='' \<notin> set key" "blank w2"
    using assms by simp_all
  obtain v' b where v: "v = v' @ b" "set b \<subseteq> set blanks" "v' = [] \<or> last v' \<notin> set blanks"
    using trim_left_split [of v blanks] by blast
  let ?t = "key @ w2 @ CHR ''='' # v'"
  have ne: "key \<noteq> []" "hd key \<notin> set blanks" using ok(2) by (simp_all add: name_ok_def trimmed_def)
  have "trimmed blanks ?t" using ne v(3) special_not_blank(3) by (auto simp: trimmed_def)
  then have t: "trim (w1 @ ?t @ b) blanks = ?t" using trimView_absorb [of w1 blanks b ?t] ok(1) v(2) by (simp add: trim_def blank_def)
  have hd: "hd ?t \<noteq> CHR ''#''" "hd ?t \<noteq> CHR '';''" "hd ?t \<noteq> CHR ''[''" using ne(1) ok(3-5) by simp_all
  have no: "\<And>c. c \<in> set (key @ w2) \<Longrightarrow> c \<noteq> CHR ''=''" using ok(6,7) special_not_blank(3) by (auto simp: blank_def)
  have "takeWhile (\<lambda>c. c \<noteq> CHR ''='') ((key @ w2) @ CHR ''='' # v') = key @ w2" using takeWhile_append2 [of "key @ w2" "\<lambda>c. c \<noteq> CHR ''=''" "CHR ''='' # v'"] no by simp
  then have f: "sv_find ?t ''='' 0 = Some (length key + length w2)" by (simp add: sv_find_drop find_sub_single)
  have k: "trim (substr ?t 0 (length key + length w2)) blanks = key"
    using trim_trailing [of w2 blanks key] trim_absorb [of "[]" "[]" key] ok(2,7) by (simp add: substr_def name_ok_def blank_def one_line_def)
  have d: "drop (length key + length w2 + 1) ?t = v'" by simp
  have l: "item_text (Binding w1 key w2 v) = w1 @ ?t @ b" using v(1) by simp
  have "ini_loop strtod ((w1 @ ?t @ b) # ls) n sec c = obind (config_set (full_key sec key) (parseValue strtod v') c) (ini_loop strtod ls (n + 1) sec)"
    using ne loop_binding [OF t _ hd, of strtod ls n sec c] f k d by (simp add: Let_def del: ini_loop.simps)
  then show ?thesis unfolding l using parseValue_trailing [OF v(2), of strtod v'] v(1) by simp
qed

lemma item_one_line: "item_ok i \<Longrightarrow> one_line (item_text i)"
  by (cases i) (auto simp: one_line_def blank_def name_ok_def)

section \<open>Reading a text\<close>

fun last_section :: "string \<Rightarrow> item list \<Rightarrow> string" where
  "last_section sec [] = sec"
| "last_section sec (Header _ _ name _ _ # items) = last_section name items"
| "last_section sec (_ # items) = last_section sec items"

lemma ini_loop_items:
  "\<forall>i \<in> set items. item_ok i \<Longrightarrow>
   ini_loop strtod (map item_text items @ ls) n sec c =
     obind (config_run (binding_ops strtod (bindings sec items)) c) (ini_loop strtod ls (n + length items) (last_section sec items))"
proof (induction items arbitrary: n sec c)
  case (Cons i items)
  then have IH: "ini_loop strtod (map item_text items @ ls) (n + 1) sec' c' =
      obind (config_run (binding_ops strtod (bindings sec' items)) c') (ini_loop strtod ls (n + length (i # items)) (last_section sec' items))" for sec' c'
    using Cons.IH [of "n + 1" sec' c'] by simp
  show ?case
  proof (cases i)
    case (Blank w)
    then show ?thesis using Cons.prems IH step_blank [of w strtod "map item_text items @ ls" n sec c] by (simp del: ini_loop.simps)
  next
    case (Comment w ch t)
    then show ?thesis using Cons.prems IH step_comment [of w ch strtod t "map item_text items @ ls" n sec c] by (simp del: ini_loop.simps)
  next
    case (Header w1 w2 name w3 w4)
    then show ?thesis using Cons.prems IH step_header [of w1 w2 name w3 w4 strtod "map item_text items @ ls" n sec c] by (simp del: ini_loop.simps item_text.simps)
  next
    case (Binding w1 key w2 v)
    have "ini_loop strtod (map item_text (i # items) @ ls) n sec c =
        obind (config_set (full_key sec key) (parseValue strtod v) c) (\<lambda>c'. ini_loop strtod (map item_text items @ ls) (n + 1) sec c')"
      using step_binding [of w1 key w2 v] Cons.prems Binding by (simp del: ini_loop.simps item_text.simps item_ok.simps)
    then show ?thesis unfolding IH
      using Binding by (cases "config_set (full_key sec key) (parseValue strtod v) c") (simp_all add: binding_ops_def)
  qed
qed (simp add: binding_ops_def)

lemma ini_fromString_items:
  "\<forall>i \<in> set items. item_ok i \<Longrightarrow>
   ini_fromString strtod (ini_text items @ rest) =
     obind (config_run (binding_ops strtod (bindings [] items)) mk_Config)
       (ini_loop strtod (getlines rest) (length items) (last_section [] items))"
  using getlines_ini_text [of items rest] ini_loop_items [of items strtod "getlines rest" 0 "[]"] item_one_line
  by (simp add: ini_fromString_def ini_parse_def)

section \<open>Sections and keys\<close>

text \<open>
  Names that are one step of a path, and sets of pairs of a section and a key (outside of a section, the empty name) in which no section has the name of a key
  outside of the sections. The tree that a text of such names gives: an object in which the sections are objects.
\<close>

definition key_name :: "string \<Rightarrow> bool" where
  "key_name n \<longleftrightarrow> segment n \<and> \<not> isIndexSegment n"

definition names_ok :: "(string \<times> string) set \<Rightarrow> bool" where
  "names_ok N \<longleftrightarrow> (\<forall>(s, k) \<in> N. key_name k \<and> (s = [] \<or> key_name s)) \<and> (\<forall>(s, k) \<in> N. ([], s) \<notin> N)"

definition two_level :: "(string \<times> string) set \<Rightarrow> 'd ConfigValue \<Rightarrow> bool" where
  "two_level N v \<longleftrightarrow> (\<exists>obj. v = CObject obj \<and> (\<forall>(n, w) \<in> set obj. (\<exists>k. (n, k) \<in> N) \<longrightarrow> isObject w))"

fun parts :: "string \<times> string \<Rightarrow> string list" where
  "parts (s, k) = (if s = [] then [k] else [s, k])"

lemma update_values: "kv \<in> set (AList.update k v al) \<Longrightarrow> kv = (k, v) \<or> kv \<in> set al"
  by (induction al) (auto split: if_splits)

lemma assign_two_level:
  assumes "two_level N root" "names_ok N" "(s, k) \<in> N"
  shows "\<exists>root'. assignPath (parts (s, k)) v root = Ret root' \<and> two_level N root' \<and>
    (\<forall>q \<in> N. walk (parts q) root' = (if q = (s, k) then Some v else walk (parts q) root))"
proof -
  obtain obj where obj: "root = CObject obj" "\<forall>(n, w) \<in> set obj. (\<exists>k. (n, k) \<in> N) \<longrightarrow> isObject w" using assms(1) by (auto simp: two_level_def)
  have names: "key_name k" "s \<noteq> [] \<Longrightarrow> key_name s" "([], s) \<notin> N" using assms(2,3) by (auto simp: names_ok_def)
  have query: "key_name k' \<and> (s' = [] \<or> key_name s') \<and> ([], s') \<notin> N" if "(s', k') \<in> N" for s' k' using assms(2) that by (auto simp: names_ok_def)
  show ?thesis
  proof (cases "s = []")
    case True
    let ?root = "CObject (AList.update k v obj)"
    have a: "assignPath (parts (s, k)) v root = Ret ?root" using True names(1) by (simp add: obj(1) Let_def key_name_def)
    have "two_level N ?root" using obj(2) query assms(3) True by (fastforce simp: two_level_def dest: update_values)
    moreover have "walk (parts q) ?root = (if q = (s, k) then Some v else walk (parts q) root)" if "q \<in> N" for q
      using that query [of "fst q" "snd q"] True assms(3) obj(1) by (cases q) (auto simp: child_def key_name_def update_conv')
    ultimately show ?thesis using a by blast
  next
    case False
    let ?old = "case map_of obj s of Some w \<Rightarrow> (case w of CObject ob \<Rightarrow> ob | _ \<Rightarrow> []) | None \<Rightarrow> []"
    let ?root = "CObject (AList.update s (CObject (AList.update k v ?old)) obj)"
    have idx: "\<not> isIndexSegment s" "\<not> isIndexSegment k" using names False by (simp_all add: key_name_def)
    then have a: "assignPath (parts (s, k)) v root = Ret ?root" using False by (auto simp: obj(1) Let_def split: option.split)
    have "two_level N ?root" using obj(2) by (force simp: two_level_def dest: update_values)
    moreover have "walk (parts q) ?root = (if q = (s, k) then Some v else walk (parts q) root)" if "q \<in> N" for q
    proof (cases q)
      case (Pair s' k')
      have nk: "key_name k'" "s' = [] \<or> key_name s'" "s' = [] \<Longrightarrow> k' \<noteq> s" using query [of s' k'] that Pair names(3) by auto
      show ?thesis
      proof (cases "map_of obj s")
        case None
        then show ?thesis using nk obj(1) idx Pair False by (auto simp: child_def key_name_def update_conv')
      next
        case (Some w)
        then have "isObject w" using obj(2) assms(3) by (force dest: map_of_SomeD)
        then obtain ob where "w = CObject ob" by (cases w) auto
        then show ?thesis using nk obj(1) idx Some Pair False by (auto simp: child_def key_name_def update_conv')
      qed
    qed
    ultimately show ?thesis using a by blast
  qed
qed

lemma splitPath_full_key: "key_name k \<Longrightarrow> s = [] \<or> key_name s \<Longrightarrow> splitPath (full_key s k) = parts (s, k)"
  using splitPath_joined [of "[s, k]"] splitPath_joined [of "[k]"] by (auto simp: full_key_def key_name_def segment_def)

lemma set_full_key:
  assumes "two_level N (m_root c)" "names_ok N" "(s, k) \<in> N"
  shows "\<exists>c'. config_set (full_key s k) v c = Ret c' \<and> two_level N (m_root c') \<and>
    (\<forall>q \<in> N. walk (parts q) (m_root c') = (if q = (s, k) then Some v else walk (parts q) (m_root c)))"
proof -
  have "splitPath (full_key s k) = parts (s, k)" "full_key s k \<noteq> []"
    using assms(2,3) splitPath_full_key [of k s] by (auto simp: names_ok_def full_key_def key_name_def segment_def)
  moreover have "parts (s, k) \<noteq> []" by simp
  ultimately show ?thesis using assign_two_level [OF assms, of v] by (auto simp: config_set_def markFlatCacheDirty_def simp del: parts.simps)
qed

definition binding_map :: "(string \<times> string \<times> string) list \<Rightarrow> (string \<times> string \<rightharpoonup> string)" where
  "binding_map bs = map_of (rev (map (\<lambda>(s, k, v). ((s, k), v)) bs))"

definition names_of :: "(string \<times> string \<times> string) list \<Rightarrow> (string \<times> string) set" where
  "names_of bs = (\<lambda>(s, k, v). (s, k)) ` set bs"

lemma run_bindings:
  assumes "names_ok N" "names_of bs \<subseteq> N" "two_level N (m_root c)"
  shows "\<exists>c'. config_run (binding_ops strtod bs) c = Ret c' \<and>
    (\<forall>q \<in> N. walk (parts q) (m_root c') =
       (case binding_map bs q of Some v \<Rightarrow> Some (parseValue strtod v) | None \<Rightarrow> walk (parts q) (m_root c)))"
  using assms(2,3)
proof (induction bs arbitrary: c)
  case Nil
  then show ?case by (simp add: binding_ops_def binding_map_def)
next
  case (Cons b bs)
  obtain s k v where b: "b = (s, k, v)" by (cases b)
  have n: "(s, k) \<in> N" "names_of bs \<subseteq> N" using Cons.prems(1) b by (auto simp: names_of_def)
  obtain c1 where c1: "config_set (full_key s k) (parseValue strtod v) c = Ret c1" "two_level N (m_root c1)"
    "\<And>q. q \<in> N \<Longrightarrow> walk (parts q) (m_root c1) = (if q = (s, k) then Some (parseValue strtod v) else walk (parts q) (m_root c))"
    using set_full_key [OF Cons.prems(2) assms(1) n(1), of "parseValue strtod v"] by auto
  obtain c2 where c2: "config_run (binding_ops strtod bs) c1 = Ret c2"
    "\<And>q. q \<in> N \<Longrightarrow> walk (parts q) (m_root c2) =
       (case binding_map bs q of Some v \<Rightarrow> Some (parseValue strtod v) | None \<Rightarrow> walk (parts q) (m_root c1))"
    using Cons.IH [OF n(2) c1(2)] by auto
  have "config_run (binding_ops strtod (b # bs)) c = Ret c2" using c1(1) c2(1) b by (simp add: binding_ops_def)
  moreover have "walk (parts q) (m_root c2) =
      (case binding_map (b # bs) q of Some v \<Rightarrow> Some (parseValue strtod v) | None \<Rightarrow> walk (parts q) (m_root c))" if "q \<in> N" for q
    using c2(2) [OF that] c1(3) [OF that] b
    by (auto simp: binding_map_def map_add_def simp del: walk.simps parts.simps split: option.split)
  ultimately show ?case by blast
qed

lemma empty_two_level: "two_level N (m_root (mk_Config :: 'd Config))"
  by (simp add: two_level_def mk_Config_def)

text \<open>
  C39: A text of comments, blank lines, section headers and bindings, with any blanks around names and values and
  with or without carriage returns, is read as the calls of \<^verbatim>\<open>set\<close> with \<^verbatim>\<open>section.key\<close>, or the key alone before the first header, and the converted value, in the order of the bindings. When the names of the sections and keys have no dots
  and are not numbers, and no section is called like a key outside of the sections, \<^verbatim>\<open>fromString\<close> returns a \<^verbatim>\<open>Config\<close> in which \<^verbatim>\<open>get\<close> of a section and key
  is the converted value of the last binding of that key in that section, and is not found if there is none. (Other names collide: \<open>numeric_path_drops_keys\<close>.)
\<close>

theorem ini_reads_bindings:
  assumes "\<forall>i \<in> set items. item_ok i"
  shows "ini_fromString strtod (ini_text items) = obind (config_run (binding_ops strtod (bindings [] items)) mk_Config) (\<lambda>c. Ret (Value c))
    \<and> (names_ok (insert (sec, key) (names_of (bindings [] items))) \<longrightarrow>
       (\<exists>c. ini_fromString strtod (ini_text items) = Ret (Value c) \<and>
          config_get c (full_key sec key) =
            (case binding_map (bindings [] items) (sec, key) of
               Some v \<Rightarrow> Value (parseValue strtod v)
             | None \<Rightarrow> Fail (makeNotFoundError (full_key sec key)))))"
proof -
  have run: "ini_fromString strtod (ini_text items) = obind (config_run (binding_ops strtod (bindings [] items)) mk_Config) (\<lambda>c. Ret (Value c))"
  proof -
    have "ini_loop strtod [] n sec = (\<lambda>c. Ret (Value c))" for n sec by (simp add: fun_eq_iff)
    then show ?thesis using ini_fromString_items [OF assms, of strtod "[]"] by (simp add: getlines.simps)
  qed
  let ?N = "insert (sec, key) (names_of (bindings [] items))"
  have "\<exists>c. ini_fromString strtod (ini_text items) = Ret (Value c) \<and>
      config_get c (full_key sec key) =
        (case binding_map (bindings [] items) (sec, key) of Some v \<Rightarrow> Value (parseValue strtod v) | None \<Rightarrow> Fail (makeNotFoundError (full_key sec key)))"
    if ok: "names_ok ?N"
  proof -
    from run_bindings [OF ok _ empty_two_level] obtain c where c: "config_run (binding_ops strtod (bindings [] items)) mk_Config = Ret c"
      "walk (parts (sec, key)) (m_root c) = (case binding_map (bindings [] items) (sec, key) of Some v \<Rightarrow> Some (parseValue strtod v)
         | None \<Rightarrow> walk (parts (sec, key)) (m_root (mk_Config :: 'a Config)))" by blast
    have "key_name key" "sec = [] \<or> key_name sec" using ok by (auto simp: names_ok_def)
    then have "splitPath (full_key sec key) = parts (sec, key)" "walk (parts (sec, key)) (m_root (mk_Config :: 'a Config)) = None"
      by (auto simp: splitPath_full_key mk_Config_def child_def key_name_def simp del: parts.simps)
        (auto simp: child_def)
    then show ?thesis using run c
      by (auto simp: config_get_def getByPath_walk simp del: walk.simps parts.simps split: option.split)
  qed
  then show ?thesis using run by blast
qed

text \<open>
  The first line that is neither blank, comment, header nor binding ends the reading with a parse error that
  carries its line number, whatever follows it: a line without an equals sign, a binding without a key, a header
  that is not closed or that is empty.
\<close>

theorem ini_reports_line:
  assumes "\<forall>i \<in> set items. item_ok i" "names_ok (names_of (bindings [] items))"
    "one_line line" "trim line blanks = t" "t \<noteq> []" "hd t \<noteq> CHR ''#''" "hd t \<noteq> CHR '';''"
  shows "(hd t \<noteq> CHR ''['' \<longrightarrow> CHR ''='' \<notin> set t \<longrightarrow>
      ini_fromString strtod (ini_text items @ line @ CHR 0x0A # rest) =
        Ret (Fail (ini_makeParseError (length items + 1) (''missing '' @ [CHR 0x27] @ ''='' @ [CHR 0x27])))) \<and>
    (hd t = CHR ''='' \<longrightarrow>
      ini_fromString strtod (ini_text items @ line @ CHR 0x0A # rest) = Ret (Fail (ini_makeParseError (length items + 1) ''empty key''))) \<and>
    (hd t = CHR ''['' \<longrightarrow> last t \<noteq> CHR '']'' \<longrightarrow>
      ini_fromString strtod (ini_text items @ line @ CHR 0x0A # rest) =
        Ret (Fail (ini_makeParseError (length items + 1) ''invalid section syntax''))) \<and>
    (hd t = CHR ''['' \<longrightarrow> last t = CHR '']'' \<longrightarrow> set (substr t 1 (length t - 2)) \<subseteq> set blanks \<longrightarrow>
      ini_fromString strtod (ini_text items @ line @ CHR 0x0A # rest) =
        Ret (Fail (ini_makeParseError (length items + 1) ''empty section name'')))"
proof -
  from run_bindings [OF assms(2) order_refl empty_two_level] obtain c where "config_run (binding_ops strtod (bindings [] items)) mk_Config = Ret c" by blast
  then have run: "ini_fromString strtod (ini_text items @ line @ CHR 0x0A # rest) =
      ini_loop strtod (line # getlines rest) (length items) (last_section [] items) c"
    using ini_fromString_items [OF assms(1), of strtod "line @ CHR 0x0A # rest"] getlines_line [OF assms(3)] by (simp del: ini_loop.simps)
  note header = loop_section [OF assms(4,5)] and entry = loop_binding [OF assms(4-7)]
  have "trim [] blanks = []" using trim_absorb [of "[]" "[]" "[]"] by (simp add: blank_def one_line_def trimmed_def)
  moreover have "trim w blanks = []" if "set w \<subseteq> set blanks" for w using trim_trailing [OF that, of "[]"] calculation by simp
  moreover have "CHR ''='' \<notin> set t \<Longrightarrow> sv_find t ''='' 0 = None" "hd t = CHR ''='' \<Longrightarrow> sv_find t ''='' 0 = Some 0"
    using assms(5) hd_in_set [of t] by (auto simp: sv_find_drop find_sub_single takeWhile_eq_Nil_iff)
  ultimately show ?thesis unfolding run by (auto simp: header entry substr_def simp del: ini_loop.simps)
qed

definition sample_items :: "item list" where
  "sample_items = [Comment [] CHR '';'' '' demo'', Binding [] ''name'' [] '' x'', Header [] '' '' ''net'' [] [CHR 0x0D], Binding '' '' ''port'' '' '' '' 80 '']"

lemma sample_items_ok:
  "\<forall>i \<in> set sample_items. item_ok i" "names_ok (names_of (bindings [] sample_items))" "names_ok (insert (''net'', ''port'') (names_of (bindings [] sample_items)))"
  "bindings [] sample_items = [([], ''name'', '' x''), (''net'', ''port'', '' 80 '')]"
  by (simp_all add: sample_items_def names_ok_def names_of_def blank_def blanks_def one_line_def name_ok_def trimmed_def key_name_def segment_def
      isIndexSegment_def is_digit_def)

theorem ini_reads_bindings_witness:
  "\<exists>c. ini_fromString (\<lambda>s. (0::nat, 0)) (ini_text sample_items) = Ret (Value c) \<and> config_get c ''net.port'' = Value (CInt 80)"
proof -
  have "parseValue (\<lambda>s. (0::nat, 0)) '' 80 '' = CInt 80" by code_simp
  moreover have "binding_map (bindings [] sample_items) (''net'', ''port'') = Some '' 80 ''" by (simp add: binding_map_def sample_items_ok(4))
  ultimately show ?thesis
    using mp [OF conjunct2 [OF ini_reads_bindings [OF sample_items_ok(1), of "\<lambda>s. (0::nat, 0)" "''net''" "''port''"]] sample_items_ok(3)]
    by (simp add: full_key_def)
qed

theorem ini_reports_line_witness:
  "ini_fromString (\<lambda>s. (0::nat, 0)) (ini_text sample_items @ ''no binding'' @ CHR 0x0A # ''x=1'') =
     Ret (Fail (ini_makeParseError 5 (''missing '' @ [CHR 0x27] @ ''='' @ [CHR 0x27])))"
proof -
  have number: "length sample_items + 1 = 5" by (simp add: sample_items_def)
  have t: "trim ''no binding'' blanks = ''no binding''" by code_simp
  have "one_line ''no binding''" by (simp add: one_line_def)
  from ini_reports_line [OF sample_items_ok(1,2) this t, of "\<lambda>s. (0::nat, 0)" "''x=1''"] show ?thesis
    using number by simp
qed

text \<open>A signed 64 bit number written in decimal is read back as that number.\<close>

lemma parseValue_int:
  assumes "- (2 ^ 63) \<le> v" "v < 2 ^ 63" "blank a" "blank b"
  shows "parseValue strtod (a @ to_string v @ b) = CInt v"
proof -
  have d: "denotes (to_string v) v" by (rule denotes_to_string)
  then have t: "trimmed blanks (to_string v)" "to_string v \<noteq> []" using denotes_trimmed by blast+
  then have tr: "trim (a @ to_string v @ b) blanks = to_string v" "trim (to_string v) blanks = to_string v"
    using trim_absorb [OF assms(3,4)] trim_absorb [of "[]" "[]"] by (simp_all add: blank_def one_line_def)
  have "tolower_char c \<notin> {CHR ''t'', CHR ''y'', CHR ''o'', CHR ''f'', CHR ''n''}" if "c = CHR ''-'' \<or> is_digit c" for c
    using that by (auto simp: tolower_char_def is_digit_def)
  moreover have "hd (to_string v) = CHR ''-'' \<or> is_digit (hd (to_string v))" using hd_nat_digits by (simp add: to_string_def)
  ultimately have "hd (ini_toLower (to_string v)) \<notin> {CHR ''t'', CHR ''y'', CHR ''o'', CHR ''f'', CHR ''n''}"
    using t(2) by (simp add: ini_toLower_def hd_map)
  then have "ini_toLower (to_string v) \<noteq> ch # cs" if "ch \<in> {CHR ''t'', CHR ''y'', CHR ''o'', CHR ''f'', CHR ''n''}" for ch cs
    using that by (metis list.sel(1))
  then have "tryParseBool (to_string v) = None" by (simp add: tryParseBool_def tr(2))
  moreover have "tryParseInt (to_string v) = Some v"
    using from_chars_to_string [of "- (2 ^ 63)" v "2 ^ 63 - 1"] assms(1,2) t(2) by (simp add: tryParseInt_def tr(2))
  ultimately show ?thesis by (simp add: parseValue_def tr(1))
qed

end
