(* ===== verification/EventLoop.thy ===== *)
theory EventLoop
  imports Prelude "HOL-Library.Product_Lexorder" "HOL-Library.Multiset"
begin

text \<open>
  \<^verbatim>\<open>dbase::net::EventLoop\<close> (\<^verbatim>\<open>code/src/net/event_loop.cpp\<close>): one thread that polls, calls the handlers of the active
  channels, the functors other threads have queued and the timers that are due. A functor is data: a client's
  functor \<open>'f\<close>, or one of the two closures the loop queues itself. Client code runs inside a handler, a functor or
  a timer callback and calls members of the loop there; other threads call members at any time. A section under the
  mutex, an access to an atomic and a write to the wakeup channel are single steps. A timer object, shared by the
  queue and the map, is the entry of \<open>el_objs\<close> with its identifier; the priority queue is the list of
  the identifiers in the order of \<^verbatim>\<open>TimerCompare\<close>. Time is in nanoseconds, as the steady clock counts it.
\<close>

section \<open>State\<close>

datatype 'f Functor = User 'f | Add_timer nat | Cancel_timer nat

record 'f LoopTimer =
  lt_expiration :: nat
  lt_interval :: nat
  lt_repeat :: bool
  lt_cancelled :: bool
  lt_callback :: 'f

datatype phase = Before_poll | After_poll

datatype active = Wakeup_ready | Channel_ready

text \<open>
  Where the loop thread is: outside of \<^verbatim>\<open>loop()\<close>; at the test of the while; in the loop of \<^verbatim>\<open>processTimers\<close> with its \<^verbatim>\<open>now\<close>, or in
  the callback of a timer; in \<^verbatim>\<open>poll\<close> until a time; before the next active channel, or in its handler; at
  the three places of \<^verbatim>\<open>doPendingFunctors\<close>, or in a functor with the functors left to call.
\<close>

datatype 'f loop_pc =
    L_out | L_test | L_timers phase nat | L_timer_cb phase nat nat | L_poll nat | L_events "active list"
  | L_event_cb "active list" | L_functors | L_swap | L_run "'f Functor list" | L_run_cb "'f Functor list"

record 'f EventLoop =
  el_looping :: bool
  el_quit :: bool
  el_pendingFunctors :: "'f Functor list"
  el_callingPendingFunctors :: bool
  el_timers :: "nat list"
  el_timerMap :: "nat set"
  el_objs :: "'f LoopTimer list"
  el_wakeup :: bool
  el_waking :: nat
  el_pc :: "'f loop_pc"
  el_now :: nat
  el_accepted :: "'f Functor list"
  el_called :: "'f Functor list"
  el_fired :: "(nat \<times> nat \<times> nat) list"

text \<open>
  \<open>el_wakeup\<close>: the wakeup channel is readable; \<open>el_waking\<close>: how many other threads have still to call
  \<^verbatim>\<open>wakeup()\<close>. The last three fields record what has happened: functors queued and called, timers fired, when they were due and when it was.
  \<^verbatim>\<open>m_nextTimerId\<close> is one more than the number of timer objects made so far.
\<close>

definition mk_EventLoop :: "nat \<Rightarrow> 'f EventLoop" where
  "mk_EventLoop now = \<lparr>el_looping = False, el_quit = False, el_pendingFunctors = [], el_callingPendingFunctors = False,
     el_timers = [], el_timerMap = {}, el_objs = [], el_wakeup = False, el_waking = 0, el_pc = L_out, el_now = now,
     el_accepted = [], el_called = [], el_fired = []\<rparr>"

section \<open>Operations\<close>

definition assertInLoopThread :: "bool \<Rightarrow> unit outcome" where
  "assertInLoopThread inLoop = (if \<not> inLoop then Throw (Runtime_error ''EventLoop used from another thread'') else Ret ())"

definition wakeup :: "'f EventLoop \<Rightarrow> 'f EventLoop" where
  "wakeup s = s\<lparr>el_wakeup := True\<rparr>"

definition handleWakeupRead :: "'f EventLoop \<Rightarrow> 'f EventLoop" where
  "handleWakeupRead s = s\<lparr>el_wakeup := False\<rparr>"

text \<open>A call of \<^verbatim>\<open>wakeup()\<close> at the end of a member: the loop thread makes it at once, for another thread it is a step of its own.\<close>

definition call_wakeup :: "bool \<Rightarrow> 'f EventLoop \<Rightarrow> 'f EventLoop" where
  "call_wakeup inLoop s = (if inLoop then wakeup s else s\<lparr>el_waking := el_waking s + 1\<rparr>)"

definition el_quit_call :: "bool \<Rightarrow> 'f EventLoop \<Rightarrow> 'f EventLoop" where
  "el_quit_call inLoop s = (let s = s\<lparr>el_quit := True\<rparr> in if \<not> inLoop then call_wakeup inLoop s else s)"

definition el_queueInLoop :: "bool \<Rightarrow> 'f Functor \<Rightarrow> 'f EventLoop \<Rightarrow> 'f EventLoop" where
  "el_queueInLoop inLoop cb s =
     (let s = s\<lparr>el_pendingFunctors := el_pendingFunctors s @ [cb], el_accepted := el_accepted s @ [cb]\<rparr>
      in if \<not> inLoop \<or> el_callingPendingFunctors s then call_wakeup inLoop s else s)"

definition timer_of :: "'f EventLoop \<Rightarrow> nat \<Rightarrow> 'f LoopTimer" where
  "timer_of s i = el_objs s ! (i - 1)"

definition set_timer :: "nat \<Rightarrow> 'f LoopTimer \<Rightarrow> 'f EventLoop \<Rightarrow> 'f EventLoop" where
  "set_timer i t s = s\<lparr>el_objs := (el_objs s)[i - 1 := t]\<rparr>"

text \<open>\<^verbatim>\<open>TimerCompare\<close>: earlier expirations first, then smaller identifiers.\<close>

definition timer_key :: "'f EventLoop \<Rightarrow> nat \<Rightarrow> nat \<times> nat" where
  "timer_key s i = (lt_expiration (timer_of s i), i)"

definition timers_push :: "nat \<Rightarrow> 'f EventLoop \<Rightarrow> 'f EventLoop" where
  "timers_push i s = s\<lparr>el_timers := insort_key (timer_key s) i (el_timers s)\<rparr>"

definition addTimerInLoop :: "nat \<Rightarrow> 'f EventLoop \<Rightarrow> 'f EventLoop" where
  "addTimerInLoop i s =
     (let wake = (el_timers s = [] \<or> lt_expiration (timer_of s i) < lt_expiration (timer_of s (hd (el_timers s))));
          s = timers_push i (s\<lparr>el_timerMap := insert i (el_timerMap s)\<rparr>)
      in if wake then wakeup s else s)"

definition cancelTimerInLoop :: "nat \<Rightarrow> 'f EventLoop \<Rightarrow> 'f EventLoop" where
  "cancelTimerInLoop i s =
     (if i \<notin> el_timerMap s then s
      else set_timer i ((timer_of s i)\<lparr>lt_cancelled := True\<rparr>) (s\<lparr>el_timerMap := el_timerMap s - {i}\<rparr>))"

definition cancelTimer :: "bool \<Rightarrow> nat \<Rightarrow> 'f EventLoop \<Rightarrow> 'f EventLoop" where
  "cancelTimer inLoop timerId s =
     (if timerId = 0 then s else if inLoop then cancelTimerInLoop timerId s else el_queueInLoop inLoop (Cancel_timer timerId) s)"

definition loop_runAt :: "bool \<Rightarrow> nat \<Rightarrow> nat \<Rightarrow> bool \<Rightarrow> 'f option \<Rightarrow> 'f EventLoop \<Rightarrow> (nat \<times> 'f EventLoop) outcome" where
  "loop_runAt inLoop expiration interval repeat cb s =
     (case cb of
        None \<Rightarrow> Throw (Invalid_argument ''EventLoop timer callback is empty'')
      | Some f \<Rightarrow>
          let i = length (el_objs s) + 1;
              s = s\<lparr>el_objs := el_objs s @ [\<lparr>lt_expiration = expiration, lt_interval = interval, lt_repeat = repeat,
                     lt_cancelled = False, lt_callback = f\<rparr>]\<rparr>
          in Ret (i, if inLoop then addTimerInLoop i s else el_queueInLoop inLoop (Add_timer i) s))"

definition ms :: "nat \<Rightarrow> nat" where
  "ms n = n * 1000000"

definition loop_runAfter :: "bool \<Rightarrow> int \<Rightarrow> 'f option \<Rightarrow> 'f EventLoop \<Rightarrow> (nat \<times> 'f EventLoop) outcome" where
  "loop_runAfter inLoop delay cb s =
     (let delay = (if delay < 0 then 0 else delay) in loop_runAt inLoop (el_now s + ms (nat delay)) 0 False cb s)"

definition loop_runEvery :: "bool \<Rightarrow> int \<Rightarrow> 'f option \<Rightarrow> 'f EventLoop \<Rightarrow> (nat \<times> 'f EventLoop) outcome" where
  "loop_runEvery inLoop interval cb s =
     (if interval \<le> 0 then Throw (Invalid_argument ''EventLoop::runEvery interval must be greater than 0'')
      else loop_runAt inLoop (el_now s + ms (nat interval)) (ms (nat interval)) True cb s)"

definition getPollTimeoutMs :: "'f EventLoop \<Rightarrow> nat" where
  "getPollTimeoutMs s =
     (case el_timers s of
        [] \<Rightarrow> 10000
      | i # _ \<Rightarrow>
          if lt_cancelled (timer_of s i) then 0
          else if lt_expiration (timer_of s i) \<le> el_now s then 0
          else min ((lt_expiration (timer_of s i) - el_now s) div 1000000) (2 ^ 31 - 1))"

section \<open>The loop thread\<close>

definition loop_goto :: "'f loop_pc \<Rightarrow> 'f EventLoop \<Rightarrow> 'f EventLoop" where
  "loop_goto pc s = s\<lparr>el_pc := pc\<rparr>"

definition loop_begin :: "'f EventLoop \<Rightarrow> 'f EventLoop outcome" where
  "loop_begin s =
     (if el_looping s then Throw (Logic_error ''EventLoop already looping'')
      else Ret (loop_goto L_test (s\<lparr>el_looping := True, el_quit := False\<rparr>)))"

definition loop_test :: "'f EventLoop \<Rightarrow> 'f EventLoop" where
  "loop_test s = (if el_quit s then loop_goto L_out (s\<lparr>el_looping := False\<rparr>) else loop_goto (L_timers Before_poll (el_now s)) s)"

text \<open>One round of the while of \<^verbatim>\<open>processTimers\<close>, up to the callback; when it ends, \<^verbatim>\<open>poll\<close> or the test of the loop comes next.\<close>

definition timers_done :: "phase \<Rightarrow> 'f EventLoop \<Rightarrow> 'f EventLoop" where
  "timers_done ph s =
     loop_goto (case ph of Before_poll \<Rightarrow> L_poll (el_now s + ms (getPollTimeoutMs s)) | After_poll \<Rightarrow> L_test) s"

definition processTimers :: "phase \<Rightarrow> nat \<Rightarrow> 'f EventLoop \<Rightarrow> 'f EventLoop" where
  "processTimers ph now s =
     (case el_timers s of
        [] \<Rightarrow> timers_done ph s
      | i # js \<Rightarrow>
          if lt_cancelled (timer_of s i) then s\<lparr>el_timers := js\<rparr>
          else if lt_expiration (timer_of s i) > now then timers_done ph s
          else if i \<notin> el_timerMap s then s\<lparr>el_timers := js\<rparr>
          else loop_goto (L_timer_cb ph now i) (s\<lparr>el_timers := js, el_fired := el_fired s @ [(i, lt_expiration (timer_of s i), el_now s)]\<rparr>))"

definition timer_returns :: "phase \<Rightarrow> nat \<Rightarrow> nat \<Rightarrow> 'f EventLoop \<Rightarrow> 'f EventLoop" where
  "timer_returns ph now i s =
     loop_goto (L_timers ph now)
       (let t = timer_of s i
        in if lt_repeat t \<and> \<not> lt_cancelled t
           then timers_push i (set_timer i (t\<lparr>lt_expiration := el_now s + lt_interval t\<rparr>) s)
           else s\<lparr>el_timerMap := el_timerMap s - {i}\<rparr>)"

definition handle_active :: "active list \<Rightarrow> 'f EventLoop \<Rightarrow> 'f EventLoop" where
  "handle_active chs s =
     (case chs of
        [] \<Rightarrow> loop_goto L_functors s
      | Wakeup_ready # chs \<Rightarrow> loop_goto (L_events chs) (handleWakeupRead s)
      | Channel_ready # chs \<Rightarrow> loop_goto (L_event_cb chs) s)"

definition functors_swap :: "'f EventLoop \<Rightarrow> 'f EventLoop" where
  "functors_swap s = loop_goto (L_run (el_pendingFunctors s)) (s\<lparr>el_pendingFunctors := []\<rparr>)"

definition functors_next :: "'f Functor list \<Rightarrow> 'f EventLoop \<Rightarrow> 'f EventLoop" where
  "functors_next fs s =
     (case fs of
        [] \<Rightarrow> loop_goto (L_timers After_poll (el_now s)) (s\<lparr>el_callingPendingFunctors := False\<rparr>)
      | f # fs \<Rightarrow>
          let s = s\<lparr>el_called := el_called s @ [f]\<rparr>
          in case f of
               User _ \<Rightarrow> loop_goto (L_run_cb fs) s
             | Add_timer i \<Rightarrow> loop_goto (L_run fs) (addTimerInLoop i s)
             | Cancel_timer i \<Rightarrow> loop_goto (L_run fs) (cancelTimerInLoop i s))"

section \<open>Steps\<close>

text \<open>Client code in the loop thread: outside of the loop, or in a callback.\<close>

fun in_client :: "'f loop_pc \<Rightarrow> bool" where
  "in_client L_out = True"
| "in_client (L_timer_cb _ _ _) = True"
| "in_client (L_event_cb _) = True"
| "in_client (L_run_cb _) = True"
| "in_client _ = False"

fun in_handler :: "'f loop_pc \<Rightarrow> bool" where
  "in_handler (L_event_cb _) = True"
| "in_handler (L_run_cb _) = True"
| "in_handler _ = False"

text \<open>
  With \<open>any = False\<close> the client queues functors and quits from the loop thread only inside handlers and
  functors; with \<open>any = True\<close> also inside timer callbacks and before the loop starts.
\<close>

inductive el_step :: "bool \<Rightarrow> 'f EventLoop \<Rightarrow> 'f EventLoop \<Rightarrow> bool" for "any" where
  time: "el_step any s (s\<lparr>el_now := el_now s + d\<rparr>)"
| other_queue: "el_step any s (el_queueInLoop False (User f) s)"
| other_wakeup: "el_waking s = Suc n \<Longrightarrow> el_step any s (wakeup (s\<lparr>el_waking := n\<rparr>))"
| other_quit: "el_step any s (el_quit_call False s)"
| other_runAt: "loop_runAt False e n r (Some f) s = Ret (i, s') \<Longrightarrow> el_step any s s'"
| other_cancel: "el_step any s (cancelTimer False i s)"
| client_queue: "in_client (el_pc s) \<Longrightarrow> any \<or> in_handler (el_pc s) \<Longrightarrow> el_step any s (el_queueInLoop True (User f) s)"
| client_quit: "in_client (el_pc s) \<Longrightarrow> any \<or> in_handler (el_pc s) \<Longrightarrow> el_step any s (el_quit_call True s)"
| client_runAt: "in_client (el_pc s) \<Longrightarrow> loop_runAt True e n r (Some f) s = Ret (i, s') \<Longrightarrow> el_step any s s'"
| client_cancel: "in_client (el_pc s) \<Longrightarrow> el_step any s (cancelTimer True i s)"
| start: "el_pc s = L_out \<Longrightarrow> loop_begin s = Ret s' \<Longrightarrow> el_step any s s'"
| test: "el_pc s = L_test \<Longrightarrow> el_step any s (loop_test s)"
| timers: "el_pc s = L_timers ph now \<Longrightarrow> el_step any s (processTimers ph now s)"
| timer_return: "el_pc s = L_timer_cb ph now i \<Longrightarrow> el_step any s (timer_returns ph now i s)"
| poll: "el_pc s = L_poll d \<Longrightarrow> Wakeup_ready \<in> set chs \<longrightarrow> el_wakeup s \<Longrightarrow> el_step any s (loop_goto (L_events chs) s)"
| active: "el_pc s = L_events chs \<Longrightarrow> el_step any s (handle_active chs s)"
| event_return: "el_pc s = L_event_cb chs \<Longrightarrow> el_step any s (loop_goto (L_events chs) s)"
| functors: "el_pc s = L_functors \<Longrightarrow> el_step any s (loop_goto L_swap (s\<lparr>el_callingPendingFunctors := True\<rparr>))"
| swap: "el_pc s = L_swap \<Longrightarrow> el_step any s (functors_swap s)"
| run: "el_pc s = L_run fs \<Longrightarrow> el_step any s (functors_next fs s)"
| functor_return: "el_pc s = L_run_cb fs \<Longrightarrow> el_step any s (loop_goto (L_run fs) s)"

text \<open>\<^verbatim>\<open>runAfter\<close> and \<^verbatim>\<open>runEvery\<close> are such steps, also when time passes between the reading of the clock and the call.\<close>

lemma runAfter_steps:
  "loop_runAfter False delay (Some f) s = Ret (i, s') \<Longrightarrow> el_step any s s'"
  "in_client (el_pc s) \<Longrightarrow> loop_runAfter True delay (Some f) s = Ret (i, s') \<Longrightarrow> el_step any s s'"
  by (auto simp: loop_runAfter_def Let_def intro: el_step.other_runAt el_step.client_runAt)

lemma runEvery_steps:
  "loop_runEvery False interval (Some f) s = Ret (i, s') \<Longrightarrow> el_step any s s'"
  "in_client (el_pc s) \<Longrightarrow> loop_runEvery True interval (Some f) s = Ret (i, s') \<Longrightarrow> el_step any s s'"
  by (auto simp: loop_runEvery_def split: if_splits intro: el_step.other_runAt el_step.client_runAt)

lemmas el_ops = el_queueInLoop_def el_quit_call_def call_wakeup_def wakeup_def handleWakeupRead_def cancelTimer_def cancelTimerInLoop_def
  addTimerInLoop_def timers_push_def set_timer_def loop_runAt_def loop_goto_def loop_begin_def loop_test_def timers_done_def
  processTimers_def timer_returns_def handle_active_def functors_swap_def functors_next_def

section \<open>Functors\<close>

fun running :: "'f loop_pc \<Rightarrow> 'f Functor list" where
  "running (L_run fs) = fs"
| "running (L_run_cb fs) = fs"
| "running _ = []"

definition loop_order_ok :: "'f EventLoop \<Rightarrow> bool" where
  "loop_order_ok s \<longleftrightarrow> el_accepted s = el_called s @ running (el_pc s) @ el_pendingFunctors s"

lemma loop_order_step: "el_step any s s' \<Longrightarrow> loop_order_ok s \<Longrightarrow> loop_order_ok s'"
  by (induction rule: el_step.induct)
    (auto simp: loop_order_ok_def el_ops Let_def split: if_splits list.split phase.split active.split Functor.split)

text \<open>The places from which the loop comes to the functors, or to the test of the while, before it polls again.\<close>

fun before_functors :: "'f loop_pc \<Rightarrow> bool" where
  "before_functors (L_events _) = True"
| "before_functors (L_event_cb _) = True"
| "before_functors L_functors = True"
| "before_functors L_swap = True"
| "before_functors _ = False"

fun before_test :: "'f loop_pc \<Rightarrow> bool" where
  "before_test (L_timers ph _) = (ph = After_poll)"
| "before_test (L_timer_cb ph _ _) = (ph = After_poll)"
| "before_test (L_poll _) = False"
| "before_test _ = True"

definition loop_noticed :: "'f EventLoop \<Rightarrow> bool" where
  "loop_noticed s \<longleftrightarrow> (el_callingPendingFunctors s \<longleftrightarrow> el_pc s = L_swap \<or> (\<exists>fs. el_pc s = L_run fs \<or> el_pc s = L_run_cb fs)) \<and>
     (el_looping s \<longleftrightarrow> el_pc s \<noteq> L_out) \<and>
     (el_pendingFunctors s \<noteq> [] \<longrightarrow> before_functors (el_pc s) \<or> el_wakeup s \<or> 0 < el_waking s) \<and>
     (el_quit s \<longrightarrow> before_test (el_pc s) \<or> el_wakeup s \<or> 0 < el_waking s)"

lemma loop_noticed_step: "el_step False s s' \<Longrightarrow> loop_noticed s \<Longrightarrow> loop_noticed s'"
proof (induction rule: el_step.induct)
  case (client_queue s f)
  then show ?case by (cases "el_pc s") (auto simp: loop_noticed_def el_ops)
next
  case (client_quit s)
  then show ?case by (cases "el_pc s") (auto simp: loop_noticed_def el_ops)
qed (auto simp: loop_noticed_def el_ops Let_def split: if_splits list.split phase.split active.split Functor.split)

interpretation functors: step_machine "el_step any" loop_order_ok for any :: bool
  by unfold_locales (rule loop_order_step)

interpretation wakeups: step_machine "el_step False" loop_noticed
  by unfold_locales (rule loop_noticed_step)

section \<open>Timers\<close>

fun adds :: "'f Functor list \<Rightarrow> nat list" where
  "adds [] = []"
| "adds (Add_timer i # fs) = i # adds fs"
| "adds (_ # fs) = adds fs"

lemma adds_append [simp]: "adds (fs @ gs) = adds fs @ adds gs"
  by (induction fs rule: adds.induct) simp_all

fun in_callback :: "'f loop_pc \<Rightarrow> nat list" where
  "in_callback (L_timer_cb _ _ i) = [i]"
| "in_callback _ = []"

text \<open>Where a timer can be: in the queue, in a functor that will add it, or in its callback.\<close>

definition loop_waiting :: "'f EventLoop \<Rightarrow> nat list" where
  "loop_waiting s = el_timers s @ adds (running (el_pc s)) @ adds (el_pendingFunctors s)"

definition places :: "'f EventLoop \<Rightarrow> nat list" where
  "places s = loop_waiting s @ in_callback (el_pc s)"

definition valid_id :: "'f EventLoop \<Rightarrow> nat \<Rightarrow> bool" where
  "valid_id s i \<longleftrightarrow> 0 < i \<and> i \<le> length (el_objs s)"

definition loop_timers_ok :: "'f EventLoop \<Rightarrow> bool" where
  "loop_timers_ok s \<longleftrightarrow> distinct (places s) \<and> (\<forall>i \<in> set (places s) \<union> el_timerMap s. valid_id s i) \<and>
     sorted (map (timer_key s) (el_timers s))"

lemma timer_of_append: "valid_id s i \<Longrightarrow> timer_of (s\<lparr>el_objs := el_objs s @ xs\<rparr>) i = timer_of s i"
  by (cases i) (simp_all add: timer_of_def valid_id_def nth_append)

lemma timer_of_set: "valid_id s i \<Longrightarrow> valid_id s j \<Longrightarrow> timer_of (set_timer j t s) i = (if i = j then t else timer_of s i)"
  by (auto simp: timer_of_def valid_id_def set_timer_def nth_list_update)

lemma timers_okI:
  assumes "loop_timers_ok s" "mset (places s') \<subseteq># mset (places s)" "el_timerMap s' \<subseteq> el_timerMap s \<union> set (places s)"
    and "length (el_objs s') = length (el_objs s)" "sorted (map (timer_key s') (el_timers s'))"
  shows "loop_timers_ok s'"
proof -
  obtain r where r: "mset (places s) = mset (places s' @ r)" using assms(2) by (metis ex_mset mset_append subset_mset.le_iff_add)
  have "distinct (places s' @ r)" using assms(1) mset_eq_imp_distinct_iff [OF r] by (simp add: loop_timers_ok_def)
  moreover have "set (places s') \<subseteq> set (places s)" using mset_eq_setD [OF r] by auto
  ultimately show ?thesis using assms(1,3-5) by (auto simp: loop_timers_ok_def valid_id_def)
qed

lemma timers_new:
  assumes "loop_timers_ok s" "mset (places s') = mset (places s) + {#length (el_objs s) + 1#}" "el_timerMap s' \<subseteq> el_timerMap s \<union> set (places s')"
    and "length (el_objs s') = length (el_objs s) + 1" "sorted (map (timer_key s') (el_timers s'))"
  shows "loop_timers_ok s'"
proof -
  have m: "mset (places s') = mset ((length (el_objs s) + 1) # places s)" using assms(2) by simp
  have old: "i \<le> length (el_objs s)" if "i \<in> set (places s)" for i using assms(1) that by (auto simp: loop_timers_ok_def valid_id_def)
  have "distinct ((length (el_objs s) + 1) # places s)" using assms(1) old by (fastforce simp: loop_timers_ok_def)
  then have "distinct (places s')" using mset_eq_imp_distinct_iff [OF m] by simp
  moreover have p: "set (places s') = insert (length (el_objs s) + 1) (set (places s))" using mset_eq_setD [OF m] by simp
  moreover have "valid_id s' i" if "i \<in> set (places s) \<union> el_timerMap s \<or> i = length (el_objs s) + 1" for i
    using that assms(1,4) by (auto simp: loop_timers_ok_def valid_id_def dest!: bspec [of _ _ i])
  ultimately show ?thesis using assms(3,5) unfolding loop_timers_ok_def by auto
qed

lemma sorted_push: "sorted (map (timer_key s) (el_timers s)) \<Longrightarrow> sorted (map (timer_key s) (el_timers (timers_push i s)))"
  by (simp add: timers_push_def sorted_insort_key)

lemma key_cong: "(\<And>i. i \<in> set js \<Longrightarrow> lt_expiration (timer_of s i) = lt_expiration (timer_of s' i)) \<Longrightarrow> map (timer_key s) js = map (timer_key s') js"
  by (simp add: timer_key_def)

lemma sorted_key_cong:
  assumes "\<And>i. i \<in> set js \<Longrightarrow> lt_expiration (timer_of s' i) = lt_expiration (timer_of s i)" "sorted (map (timer_key s) js)"
  shows "sorted (map (timer_key s') js)"
  using key_cong [of js s' s] assms by metis

lemma cancel_fields:
  "el_timers (cancelTimerInLoop i s) = el_timers s" "el_pc (cancelTimerInLoop i s) = el_pc s"
  "el_pendingFunctors (cancelTimerInLoop i s) = el_pendingFunctors s" "el_fired (cancelTimerInLoop i s) = el_fired s"
  "el_now (cancelTimerInLoop i s) = el_now s" "length (el_objs (cancelTimerInLoop i s)) = length (el_objs s)"
  "el_timerMap (cancelTimerInLoop i s) = el_timerMap s - {i}"
  by (auto simp: cancelTimerInLoop_def set_timer_def)

lemma cancel_timer_of:
  assumes "\<forall>i \<in> el_timerMap s. valid_id s i" "valid_id s j"
  shows "timer_of (cancelTimerInLoop i s) j = (if j = i \<and> i \<in> el_timerMap s then (timer_of s j)\<lparr>lt_cancelled := True\<rparr> else timer_of s j)"
  using assms by (auto simp: cancelTimerInLoop_def timer_of_def set_timer_def valid_id_def nth_list_update)

lemma add_fields:
  "el_timers (addTimerInLoop i s) = insort_key (timer_key s) i (el_timers s)" "el_pc (addTimerInLoop i s) = el_pc s"
  "el_pendingFunctors (addTimerInLoop i s) = el_pendingFunctors s" "el_fired (addTimerInLoop i s) = el_fired s"
  "el_now (addTimerInLoop i s) = el_now s" "el_objs (addTimerInLoop i s) = el_objs s"
  "el_timerMap (addTimerInLoop i s) = insert i (el_timerMap s)"
proof -
  have "timer_key (s\<lparr>el_timerMap := insert i (el_timerMap s)\<rparr>) = timer_key s" by (rule ext) (simp add: timer_key_def timer_of_def)
  then show "el_timers (addTimerInLoop i s) = insort_key (timer_key s) i (el_timers s)"
    by (simp add: addTimerInLoop_def timers_push_def wakeup_def Let_def)
qed (simp_all add: addTimerInLoop_def timers_push_def wakeup_def Let_def)

lemma key_same: "el_objs s' = el_objs s \<Longrightarrow> timer_key s' = timer_key s" "el_objs s' = el_objs s \<Longrightarrow> timer_of s' = timer_of s"
  by (rule ext, simp add: timer_key_def timer_of_def)+

lemma places_add: "mset (places (addTimerInLoop i s)) = mset (places s) + {#i#}"
  by (simp add: places_def loop_waiting_def add_fields)

lemma timers_frame:
  "loop_timers_ok s \<Longrightarrow> mset (places s') = mset (places s) \<Longrightarrow> el_timers s' = el_timers s \<Longrightarrow> el_objs s' = el_objs s \<Longrightarrow>
   el_timerMap s' = el_timerMap s \<Longrightarrow> loop_timers_ok s'"
  by (rule timers_okI) (simp_all add: loop_timers_ok_def key_same(1) [of s' s])

lemma timers_cancel: "loop_timers_ok s \<Longrightarrow> loop_timers_ok (cancelTimerInLoop i s)"
proof -
  assume ok: "loop_timers_ok s"
  have "sorted (map (timer_key (cancelTimerInLoop i s)) (el_timers s))"
    by (rule sorted_key_cong [of _ _ s]) (use ok in \<open>auto simp: cancel_timer_of loop_timers_ok_def places_def loop_waiting_def\<close>)
  then show ?thesis by (intro timers_okI [OF ok]) (auto simp: cancel_fields places_def loop_waiting_def)
qed

lemma timers_process: "loop_timers_ok s \<Longrightarrow> el_pc s = L_timers ph now \<Longrightarrow> loop_timers_ok (processTimers ph now s)"
proof (cases "el_timers s")
  case Nil
  assume ok: "loop_timers_ok s" and pc: "el_pc s = L_timers ph now"
  show ?thesis using Nil pc by (intro timers_frame [OF ok]) (auto simp: processTimers_def timers_done_def loop_goto_def places_def loop_waiting_def split: phase.split)
next
  case (Cons i js)
  assume ok: "loop_timers_ok s" and pc: "el_pc s = L_timers ph now"
  have srt: "sorted (map (timer_key s) js)" "sorted (map (timer_key s) (i # js))" using ok Cons by (simp_all add: loop_timers_ok_def)
  have objs: "el_objs (processTimers ph now s) = el_objs s" "el_timerMap (processTimers ph now s) = el_timerMap s"
    using Cons by (simp_all add: processTimers_def timers_done_def loop_goto_def)
  have "mset (places (processTimers ph now s)) \<subseteq># mset (places s)"
    using Cons pc by (auto simp: processTimers_def timers_done_def loop_goto_def places_def loop_waiting_def split: phase.split)
  moreover have "el_timers (processTimers ph now s) = js \<or> el_timers (processTimers ph now s) = i # js"
    using Cons by (simp add: processTimers_def timers_done_def loop_goto_def)
  ultimately show ?thesis using srt objs by (intro timers_okI [OF ok]) (auto simp: key_same(1) [OF objs(1)])
qed

lemma timers_return: "loop_timers_ok s \<Longrightarrow> el_pc s = L_timer_cb ph now i \<Longrightarrow> loop_timers_ok (timer_returns ph now i s)"
proof (cases "lt_repeat (timer_of s i) \<and> \<not> lt_cancelled (timer_of s i)")
  case True
  assume ok: "loop_timers_ok s" and pc: "el_pc s = L_timer_cb ph now i"
  let ?t = "(timer_of s i)\<lparr>lt_expiration := el_now s + lt_interval (timer_of s i)\<rparr>"
  have e: "timer_returns ph now i s = loop_goto (L_timers ph now) (timers_push i (set_timer i ?t s))"
    using True by (simp add: timer_returns_def Let_def)
  have i: "i \<notin> set (el_timers s)" "valid_id s i" using ok pc by (auto simp: loop_timers_ok_def places_def loop_waiting_def)
  have "sorted (map (timer_key (set_timer i ?t s)) (el_timers s))"
    by (rule sorted_key_cong [of _ _ s]) (use ok i in \<open>auto simp: timer_of_set loop_timers_ok_def places_def loop_waiting_def\<close>)
  then have srt: "sorted (map (timer_key (set_timer i ?t s)) (insort_key (timer_key (set_timer i ?t s)) i (el_timers s)))"
    by (simp add: sorted_insort_key)
  have f: "el_timers (timer_returns ph now i s) = insort_key (timer_key (set_timer i ?t s)) i (el_timers s)"
    "el_objs (timer_returns ph now i s) = el_objs (set_timer i ?t s)"
    unfolding e by (simp_all add: loop_goto_def timers_push_def set_timer_def)
  have "mset (places (timer_returns ph now i s)) = mset (places s)"
    using pc f(1) by (simp add: places_def loop_waiting_def e loop_goto_def timers_push_def set_timer_def)
  moreover have "sorted (map (timer_key (timer_returns ph now i s)) (el_timers (timer_returns ph now i s)))"
    unfolding f(1) key_same(1) [OF f(2)] by (rule srt)
  moreover have "el_timerMap (timer_returns ph now i s) = el_timerMap s" "length (el_objs (timer_returns ph now i s)) = length (el_objs s)"
    by (simp_all add: e loop_goto_def timers_push_def set_timer_def)
  ultimately show ?thesis by (intro timers_okI [OF ok]) simp_all
next
  case False
  assume ok: "loop_timers_ok s" and pc: "el_pc s = L_timer_cb ph now i"
  have e: "timer_returns ph now i s = loop_goto (L_timers ph now) (s\<lparr>el_timerMap := el_timerMap s - {i}\<rparr>)"
    using False by (auto simp: timer_returns_def Let_def)
  have "timer_key (timer_returns ph now i s) = timer_key s" by (rule key_same(1)) (simp add: e loop_goto_def)
  then have "sorted (map (timer_key (timer_returns ph now i s)) (el_timers s))" using ok by (simp add: loop_timers_ok_def)
  then show ?thesis using pc by (intro timers_okI [OF ok]) (auto simp: e loop_goto_def places_def loop_waiting_def)
qed

lemma timers_functor: "loop_timers_ok s \<Longrightarrow> el_pc s = L_run fs \<Longrightarrow> loop_timers_ok (functors_next fs s)"
proof (cases fs)
  case Nil
  assume ok: "loop_timers_ok s" and pc: "el_pc s = L_run fs"
  show ?thesis using Nil pc by (intro timers_frame [OF ok]) (auto simp: functors_next_def loop_goto_def places_def loop_waiting_def)
next
  case (Cons f gs)
  assume ok: "loop_timers_ok s" and pc: "el_pc s = L_run fs"
  show ?thesis
  proof (cases f)
    case (User g)
    then show ?thesis using Cons pc by (intro timers_frame [OF ok]) (auto simp: functors_next_def loop_goto_def places_def loop_waiting_def)
  next
    case (Add_timer i)
    let ?s = "s\<lparr>el_called := el_called s @ [f]\<rparr>"
    have e: "functors_next fs s = loop_goto (L_run gs) (addTimerInLoop i ?s)" using Cons Add_timer by (simp add: functors_next_def)
    have k: "timer_key (functors_next fs s) = timer_key s" "timer_key ?s = timer_key s"
      by (rule key_same(1), simp add: e loop_goto_def add_fields)+
    have "sorted (map (timer_key s) (insort_key (timer_key s) i (el_timers s)))" using ok by (simp add: loop_timers_ok_def sorted_insort_key)
    then have "sorted (map (timer_key (functors_next fs s)) (el_timers (functors_next fs s)))"
      unfolding k by (simp add: e loop_goto_def add_fields k(2))
    moreover have "mset (places (functors_next fs s)) = mset (places s)"
      unfolding e using pc Cons Add_timer by (simp add: loop_goto_def places_def loop_waiting_def add_fields)
    moreover have "i \<in> set (places s)" using pc Cons Add_timer by (simp add: places_def loop_waiting_def)
    ultimately show ?thesis by (intro timers_okI [OF ok]) (auto simp: e loop_goto_def add_fields)
  next
    case (Cancel_timer i)
    have "loop_timers_ok (s\<lparr>el_called := el_called s @ [f]\<rparr>)" by (rule timers_frame [OF ok]) (simp_all add: places_def loop_waiting_def)
    from timers_cancel [OF this, of i] show ?thesis
      using Cons pc Cancel_timer by (auto elim!: timers_frame simp: functors_next_def loop_goto_def places_def loop_waiting_def cancel_fields)
  qed
qed

lemma timers_runAt:
  assumes ok: "loop_timers_ok s" and r: "loop_runAt inLoop e n rep (Some f) s = Ret (i, s')"
  shows "loop_timers_ok s'"
proof -
  let ?t = "\<lparr>lt_expiration = e, lt_interval = n, lt_repeat = rep, lt_cancelled = False, lt_callback = f\<rparr>"
  let ?s = "s\<lparr>el_objs := el_objs s @ [?t]\<rparr>"
  have s': "i = length (el_objs s) + 1" "s' = (if inLoop then addTimerInLoop i ?s else el_queueInLoop inLoop (Add_timer i) ?s)"
    using r by (auto simp: loop_runAt_def Let_def)
  have p: "places ?s = places s" by (simp add: places_def loop_waiting_def)
  have srt: "sorted (map (timer_key ?s) (el_timers s))"
    by (rule sorted_key_cong [of _ _ s]) (use ok in \<open>auto simp: timer_of_append loop_timers_ok_def places_def loop_waiting_def\<close>)
  have k: "timer_key s' = timer_key ?s" by (rule key_same(1)) (simp add: s'(2) add_fields el_queueInLoop_def call_wakeup_def Let_def)
  show ?thesis
  proof (cases inLoop)
    case True
    have "sorted (map (timer_key s') (el_timers s'))" unfolding k using srt s'(2) True by (simp add: add_fields sorted_insort_key)
    then show ?thesis using s' True places_add [of i ?s] p by (intro timers_new [OF ok]) (auto simp: add_fields places_def loop_waiting_def set_insort_key)
  next
    case False
    have "sorted (map (timer_key s') (el_timers s'))" unfolding k using srt s'(2) False by (simp add: el_queueInLoop_def call_wakeup_def Let_def)
    then show ?thesis using s' False p
      by (intro timers_new [OF ok]) (auto simp: el_queueInLoop_def call_wakeup_def Let_def places_def loop_waiting_def)
  qed
qed

lemma timers_step: "el_step any s s' \<Longrightarrow> loop_timers_ok s \<Longrightarrow> loop_timers_ok s'"
proof (induction rule: el_step.induct)
  case (timers s ph now)
  then show ?case by (simp add: timers_process)
next
  case (timer_return s ph now i)
  then show ?case by (simp add: timers_return)
next
  case (run s fs)
  then show ?case by (simp add: timers_functor)
next
  case (other_runAt e n r f s i s')
  then show ?case by (intro timers_runAt [OF other_runAt(2,1)])
next
  case (client_runAt s e n r f i s')
  then show ?case by (intro timers_runAt [OF client_runAt(3,2)])
next
  case (client_cancel s i)
  then show ?case by (simp add: cancelTimer_def timers_cancel)
qed (auto elim!: timers_frame simp: el_ops places_def loop_waiting_def Let_def split: if_splits list.split active.split)

section \<open>Firing\<close>

fun snapshot_ok :: "nat \<Rightarrow> 'f loop_pc \<Rightarrow> bool" where
  "snapshot_ok t (L_timers _ now) = (now \<le> t)"
| "snapshot_ok t (L_timer_cb _ now _) = (now \<le> t)"
| "snapshot_ok t _ = True"

text \<open>Every earlier firing of a timer that waits is at least an interval before its next time.\<close>

definition loop_rounds_ok :: "'f EventLoop \<Rightarrow> bool" where
  "loop_rounds_ok s \<longleftrightarrow> snapshot_ok (el_now s) (el_pc s) \<and>
     (\<forall>(i, e, t) \<in> set (el_fired s). e \<le> t \<and> t \<le> el_now s \<and> valid_id s i \<and>
        (i \<in> set (loop_waiting s) \<longrightarrow> lt_repeat (timer_of s i) \<and> t + lt_interval (timer_of s i) \<le> lt_expiration (timer_of s i)))"

definition firings_spaced :: "'f EventLoop \<Rightarrow> bool" where
  "firings_spaced s \<longleftrightarrow> sorted_wrt (\<lambda>(i, _, t) (j, _, u). i = j \<longrightarrow> lt_repeat (timer_of s i) \<and> t + lt_interval (timer_of s i) \<le> u) (el_fired s)"

definition firing_ok :: "'f EventLoop \<Rightarrow> bool" where
  "firing_ok s \<longleftrightarrow> loop_timers_ok s \<and> loop_rounds_ok s \<and> firings_spaced s"

text \<open>What a step does to the timer objects: an old one keeps its interval and whether it repeats.\<close>

definition kept :: "'f EventLoop \<Rightarrow> 'f EventLoop \<Rightarrow> bool" where
  "kept s s' \<longleftrightarrow> (\<forall>i. valid_id s i \<longrightarrow> valid_id s' i \<and> lt_interval (timer_of s' i) = lt_interval (timer_of s i) \<and>
     lt_repeat (timer_of s' i) = lt_repeat (timer_of s i))"

lemma kept_objs: "el_objs s' = el_objs s \<Longrightarrow> kept s s'"
  by (simp add: kept_def valid_id_def key_same(2) [of s' s])

lemma spaced_kept:
  assumes "firings_spaced s" "kept s s'" "loop_rounds_ok s" "el_fired s' = el_fired s"
  shows "firings_spaced s'"
proof -
  have v: "valid_id s (fst f)" if "f \<in> set (el_fired s)" for f using assms(3) that by (auto simp: loop_rounds_ok_def)
  show ?thesis using assms(1) unfolding firings_spaced_def assms(4)
    by (rule sorted_wrt_mono_rel [rotated]) (use v assms(2) in \<open>force simp: kept_def\<close>)
qed

lemma rounds_kept:
  assumes "loop_rounds_ok s" "kept s s'" "el_fired s' = el_fired s" "el_now s \<le> el_now s'" "snapshot_ok (el_now s') (el_pc s')"
    and "\<And>i. valid_id s i \<Longrightarrow> i \<in> set (loop_waiting s') \<Longrightarrow> i \<in> set (loop_waiting s) \<and> lt_expiration (timer_of s' i) = lt_expiration (timer_of s i)"
  shows "loop_rounds_ok s'"
  unfolding loop_rounds_ok_def
proof (intro conjI ballI)
  fix f assume "f \<in> set (el_fired s')"
  then obtain i e t where f: "f = (i, e, t)" "(i, e, t) \<in> set (el_fired s)" using assms(3) by (metis prod_cases3)
  then have o: "e \<le> t" "t \<le> el_now s" "valid_id s i"
    "i \<in> set (loop_waiting s) \<Longrightarrow> lt_repeat (timer_of s i) \<and> t + lt_interval (timer_of s i) \<le> lt_expiration (timer_of s i)"
    using assms(1) by (auto simp: loop_rounds_ok_def)
  then show "case f of (i, e, t) \<Rightarrow> e \<le> t \<and> t \<le> el_now s' \<and> valid_id s' i \<and>
      (i \<in> set (loop_waiting s') \<longrightarrow> lt_repeat (timer_of s' i) \<and> t + lt_interval (timer_of s' i) \<le> lt_expiration (timer_of s' i))"
    using assms(2,4) assms(6) [OF o(3)] by (auto simp: f(1) kept_def)
qed (fact assms(5))

lemma firing_kept:
  assumes "firing_ok s" "loop_timers_ok s'" "kept s s'" "el_fired s' = el_fired s" "el_now s \<le> el_now s'" "snapshot_ok (el_now s') (el_pc s')"
    and "\<And>i. valid_id s i \<Longrightarrow> i \<in> set (loop_waiting s') \<Longrightarrow> i \<in> set (loop_waiting s) \<and> lt_expiration (timer_of s' i) = lt_expiration (timer_of s i)"
  shows "firing_ok s'"
  using assms spaced_kept rounds_kept unfolding firing_ok_def by metis

text \<open>Steps that leave the timer objects and the loop_waiting timers alone.\<close>

lemma firing_frame:
  assumes "firing_ok s" "loop_timers_ok s'" "el_objs s' = el_objs s" "el_fired s' = el_fired s" "el_now s \<le> el_now s'"
    and "snapshot_ok (el_now s') (el_pc s')" "set (loop_waiting s') \<subseteq> set (loop_waiting s)"
  shows "firing_ok s'"
  using assms(7) by (intro firing_kept [OF assms(1,2) kept_objs [OF assms(3)] assms(4-6)]) (auto simp: key_same(2) [OF assms(3)])

lemma firing_fire:
  assumes ok: "firing_ok s" and pc: "el_pc s = L_timers ph now" and i: "el_timers s = i # js" "lt_expiration (timer_of s i) \<le> now"
    and s': "s' = loop_goto (L_timer_cb ph now i) (s\<lparr>el_timers := js, el_fired := el_fired s @ [(i, lt_expiration (timer_of s i), el_now s)]\<rparr>)"
    and t': "loop_timers_ok s'"
  shows "firing_ok s'"
proof -
  have f: "el_fired s' = el_fired s @ [(i, lt_expiration (timer_of s i), el_now s)]" "el_now s' = el_now s" "timer_of s' = timer_of s"
    "valid_id s' = valid_id s" "loop_waiting s' = js @ adds (el_pendingFunctors s)" "el_pc s' = L_timer_cb ph now i"
    by (auto simp: s' loop_goto_def timer_of_def valid_id_def loop_waiting_def fun_eq_iff)
  have w: "set (loop_waiting s') \<subseteq> set (loop_waiting s)" "i \<in> set (loop_waiting s)" using i(1) f(5) by (auto simp: loop_waiting_def [of s])
  have now: "now \<le> el_now s" using ok pc by (simp add: firing_ok_def loop_rounds_ok_def)
  have "valid_id s i" using ok w(2) by (auto simp: firing_ok_def loop_timers_ok_def places_def)
  moreover have "i \<notin> set (loop_waiting s')" using t' by (auto simp: loop_timers_ok_def places_def f(6))
  ultimately have "loop_rounds_ok s'" using ok now i(2) w(1) by (auto simp: firing_ok_def loop_rounds_ok_def f)
  moreover have "firings_spaced s'"
    using ok w(2) now i(2) by (fastforce simp: firing_ok_def firings_spaced_def loop_rounds_ok_def f sorted_wrt_append)
  ultimately show ?thesis using t' by (simp add: firing_ok_def)
qed

lemma firing_process:
  assumes "firing_ok s" "el_pc s = L_timers ph now" "loop_timers_ok (processTimers ph now s)"
  shows "firing_ok (processTimers ph now s)"
proof (cases "\<exists>i js. el_timers s = i # js \<and> \<not> lt_cancelled (timer_of s i) \<and> lt_expiration (timer_of s i) \<le> now \<and> i \<in> el_timerMap s")
  case True
  then obtain i js where i: "el_timers s = i # js" "\<not> lt_cancelled (timer_of s i)" "lt_expiration (timer_of s i) \<le> now" "i \<in> el_timerMap s" by blast
  show ?thesis by (rule firing_fire [OF assms(1,2) i(1,3) _ assms(3)]) (use i in \<open>simp add: processTimers_def\<close>)
next
  case False
  have "snapshot_ok (el_now s) (el_pc s)" using assms(1) by (simp add: firing_ok_def loop_rounds_ok_def)
  with False show ?thesis
    by (intro firing_frame [OF assms(1,3)])
      (auto simp: processTimers_def timers_done_def loop_goto_def loop_waiting_def assms(2) split: list.splits phase.split)
qed

lemma firing_return:
  assumes ok: "firing_ok s" and pc: "el_pc s = L_timer_cb ph now i" and t': "loop_timers_ok (timer_returns ph now i s)"
  shows "firing_ok (timer_returns ph now i s)"
proof (cases "lt_repeat (timer_of s i) \<and> \<not> lt_cancelled (timer_of s i)")
  case True
  let ?t = "(timer_of s i)\<lparr>lt_expiration := el_now s + lt_interval (timer_of s i)\<rparr>" and ?s = "timer_returns ph now i s"
  have e: "?s = loop_goto (L_timers ph now) (timers_push i (set_timer i ?t s))" using True by (simp add: timer_returns_def Let_def)
  have v: "valid_id s i" using ok pc by (simp add: firing_ok_def loop_timers_ok_def places_def)
  have f: "el_fired ?s = el_fired s" "el_now ?s = el_now s" "el_pc ?s = L_timers ph now" "valid_id ?s = valid_id s"
    "set (loop_waiting ?s) = insert i (set (loop_waiting s))"
    using pc by (auto simp: e loop_goto_def timers_push_def set_timer_def valid_id_def fun_eq_iff loop_waiting_def set_insort_key)
  have "timer_of ?s = timer_of (set_timer i ?t s)" by (rule key_same(2)) (simp add: e loop_goto_def timers_push_def)
  then have t: "timer_of ?s j = (if j = i then ?t else timer_of s j)" if "valid_id s j" for j using timer_of_set [OF that v] by simp
  have k: "kept s ?s" using t f(4) by (simp add: kept_def)
  have "loop_rounds_ok ?s" using ok True pc by (fastforce simp: firing_ok_def loop_rounds_ok_def f t)
  then show ?thesis using t' spaced_kept [OF _ k _ f(1)] ok by (simp add: firing_ok_def)
next
  case False
  then have e: "timer_returns ph now i s = loop_goto (L_timers ph now) (s\<lparr>el_timerMap := el_timerMap s - {i}\<rparr>)" by (auto simp: timer_returns_def Let_def)
  show ?thesis using ok pc
    by (intro firing_frame [OF ok t']) (auto simp: e loop_goto_def loop_waiting_def firing_ok_def loop_rounds_ok_def)
qed

lemma firing_cancel: "firing_ok s \<Longrightarrow> loop_timers_ok (cancelTimerInLoop i s) \<Longrightarrow> firing_ok (cancelTimerInLoop i s)"
proof -
  assume ok: "firing_ok s" and t': "loop_timers_ok (cancelTimerInLoop i s)"
  have m: "\<forall>i \<in> el_timerMap s. valid_id s i" using ok by (auto simp: firing_ok_def loop_timers_ok_def)
  show ?thesis using ok by (intro firing_kept [OF ok t'])
      (auto simp: kept_def cancel_timer_of [OF m] cancel_fields valid_id_def loop_waiting_def firing_ok_def loop_rounds_ok_def)
qed

lemma firing_functor:
  assumes ok: "firing_ok s" and pc: "el_pc s = L_run fs" and t': "loop_timers_ok (functors_next fs s)"
  shows "firing_ok (functors_next fs s)"
proof (cases "\<exists>i gs. fs = Cancel_timer i # gs")
  case True
  then obtain i gs where fs: "fs = Cancel_timer i # gs" by blast
  let ?s = "s\<lparr>el_called := el_called s @ [Cancel_timer i]\<rparr>"
  have "loop_timers_ok ?s" by (rule timers_frame [of s]) (use ok in \<open>simp_all add: firing_ok_def places_def loop_waiting_def\<close>)
  then have "firing_ok ?s" using ok by (intro firing_frame [OF ok]) (simp_all add: loop_waiting_def firing_ok_def loop_rounds_ok_def)
  from firing_cancel [OF this timers_cancel, of i] \<open>loop_timers_ok ?s\<close> have c: "firing_ok (cancelTimerInLoop i ?s)" by blast
  show ?thesis by (rule firing_frame [OF c t']) (use fs pc in \<open>simp_all add: functors_next_def loop_goto_def loop_waiting_def cancel_fields\<close>)
next
  case False
  have "snapshot_ok (el_now s) (L_run fs)" by simp
  with False show ?thesis using pc
    by (intro firing_frame [OF ok t'])
      (auto simp: functors_next_def loop_goto_def loop_waiting_def add_fields set_insort_key Let_def split: list.splits Functor.splits)
qed

lemma firing_runAt:
  assumes ok: "firing_ok s" and r: "loop_runAt inLoop e n rep (Some f) s = Ret (i, s')"
  shows "firing_ok s'"
proof -
  have t': "loop_timers_ok s'" using timers_runAt [OF _ r] ok by (simp add: firing_ok_def)
  let ?s = "s\<lparr>el_objs := el_objs s @ [\<lparr>lt_expiration = e, lt_interval = n, lt_repeat = rep, lt_cancelled = False, lt_callback = f\<rparr>]\<rparr>"
  have s': "i = length (el_objs s) + 1" "s' = (if inLoop then addTimerInLoop i ?s else el_queueInLoop inLoop (Add_timer i) ?s)"
    using r by (auto simp: loop_runAt_def Let_def)
  have f: "el_fired s' = el_fired s" "el_now s' = el_now s" "el_pc s' = el_pc s" "set (loop_waiting s') = insert i (set (loop_waiting s))" "el_objs s' = el_objs ?s"
    by (auto simp: s'(2) add_fields el_queueInLoop_def call_wakeup_def Let_def loop_waiting_def set_insort_key)
  have t: "timer_of s' j = timer_of s j" "valid_id s' j" "j \<noteq> i" if "valid_id s j" for j
    using that timer_of_append [OF that] key_same(2) [OF f(5)] f(5) s'(1) by (auto simp: valid_id_def)
  show ?thesis using ok
    by (intro firing_kept [OF ok t'])
      (auto simp: kept_def t f dest: t(3) simp add: firing_ok_def loop_rounds_ok_def)
qed

lemma firing_step: "el_step any s s' \<Longrightarrow> firing_ok s \<Longrightarrow> firing_ok s'"
proof -
  assume st: "el_step any s s'" and ok: "firing_ok s"
  have t: "loop_timers_ok s'" using timers_step [OF st] ok by (simp add: firing_ok_def)
  have snap: "snapshot_ok (el_now s) (el_pc s)" using ok by (simp add: firing_ok_def loop_rounds_ok_def)
  have mono: "snapshot_ok (n + d) pc" if "snapshot_ok n pc" for n d and pc :: "'a loop_pc" using that by (cases pc) auto
  from st t show ?thesis
  proof (cases rule: el_step.cases)
    case (timers ph now)
    then show ?thesis using firing_process [OF ok] t by simp
  next
    case (timer_return ph now i)
    then show ?thesis using firing_return [OF ok] t by simp
  next
    case (run fs)
    then show ?thesis using firing_functor [OF ok] t by simp
  next
    case (other_runAt e n r f i)
    then show ?thesis using firing_runAt [OF ok] by blast
  next
    case (client_runAt e n r f i)
    then show ?thesis using firing_runAt [OF ok] by blast
  next
    case (client_cancel i)
    then show ?thesis using firing_cancel [OF ok] t ok by (auto simp: cancelTimer_def split: if_splits)
  qed (rule firing_frame [OF ok t]; use snap mono in \<open>auto simp: el_ops loop_waiting_def Let_def split: if_splits list.split active.split\<close>)+
qed

text \<open>The time of a sleeping loop: it ends before or when the next timer is due.\<close>

definition sleep_ok :: "'f EventLoop \<Rightarrow> bool" where
  "sleep_ok s \<longleftrightarrow> loop_timers_ok s \<and> (\<forall>d. el_pc s = L_poll d \<longrightarrow> (\<forall>i \<in> set (el_timers s). d \<le> max (el_now s) (lt_expiration (timer_of s i))))"

lemma timeout_bound:
  assumes "loop_timers_ok s" "i \<in> set (el_timers s)"
  shows "el_now s + ms (getPollTimeoutMs s) \<le> max (el_now s) (lt_expiration (timer_of s i))"
proof -
  obtain j js where j: "el_timers s = j # js" using assms(2) by (cases "el_timers s") auto
  have "lt_expiration (timer_of s j) \<le> lt_expiration (timer_of s i)"
    using assms j by (auto simp: loop_timers_ok_def timer_key_def less_eq_prod_def)
  moreover have "m div 1000000 * 1000000 \<le> (m :: nat)" for m by simp
  ultimately show ?thesis using j
    by (auto simp: getPollTimeoutMs_def ms_def min_def le_max_iff_disj)
qed

lemma sleep_step: "el_step any s s' \<Longrightarrow> sleep_ok s \<Longrightarrow> sleep_ok s'"
proof -
  assume st: "el_step any s s'" and ok: "sleep_ok s"
  have t: "loop_timers_ok s" "loop_timers_ok s'" using timers_step [OF st] ok by (simp_all add: sleep_ok_def)
  have v: "valid_id s i" if "i \<in> set (el_timers s)" for i using t(1) that by (auto simp: loop_timers_ok_def places_def loop_waiting_def)
  have "d \<le> max (el_now s') (lt_expiration (timer_of s' i))" if pc: "el_pc s' = L_poll d" and i: "i \<in> set (el_timers s')" for d i
  proof (cases "el_pc s = L_poll d")
    case True
    have "el_timers s' = el_timers s \<and> el_now s \<le> el_now s' \<and> (\<exists>xs. el_objs s' = el_objs s @ xs)"
      using st True pc by (cases rule: el_step.cases) (auto simp: el_queueInLoop_def el_quit_call_def call_wakeup_def wakeup_def cancelTimer_def loop_runAt_def loop_goto_def Let_def)
    then obtain xs where same: "el_timers s' = el_timers s" "el_now s \<le> el_now s'" "el_objs s' = el_objs (s\<lparr>el_objs := el_objs s @ xs\<rparr>)" by auto
    have "timer_of s' i = timer_of s i" using timer_of_append [OF v] i same by (metis key_same(2))
    then show ?thesis using ok True i same(1,2) by (fastforce simp: sleep_ok_def)
  next
    case False
    have "\<exists>now. el_pc s = L_timers Before_poll now \<and> s' = timers_done Before_poll s"
      using st False pc by (cases rule: el_step.cases) (auto simp: el_ops Let_def split: if_splits list.splits phase.splits active.splits Functor.splits)
    then have "s' = timers_done Before_poll s" by blast
    then have "d = el_now s + ms (getPollTimeoutMs s)" "el_timers s' = el_timers s" "el_now s' = el_now s" "timer_of s' = timer_of s"
      using pc by (auto simp: timers_done_def loop_goto_def timer_of_def fun_eq_iff)
    then show ?thesis using timeout_bound [OF t(1)] i by simp
  qed
  then show ?thesis using t(2) by (simp add: sleep_ok_def)
qed

text \<open>A timer that has been cancelled stays cancelled and is never fired.\<close>

definition firings_of :: "nat \<Rightarrow> 'f EventLoop \<Rightarrow> (nat \<times> nat \<times> nat) list" where
  "firings_of i s = filter (\<lambda>f. fst f = i) (el_fired s)"

definition gone_quiet :: "nat \<Rightarrow> (nat \<times> nat \<times> nat) list \<Rightarrow> 'f EventLoop \<Rightarrow> bool" where
  "gone_quiet i before s \<longleftrightarrow> loop_timers_ok s \<and> valid_id s i \<and> lt_cancelled (timer_of s i) \<and> firings_of i s = before"

lemma silent_frame:
  "gone_quiet i before s \<Longrightarrow> loop_timers_ok s' \<Longrightarrow> el_objs s' = el_objs s \<Longrightarrow> el_fired s' = el_fired s \<Longrightarrow> gone_quiet i before s'"
  by (simp add: gone_quiet_def valid_id_def key_same(2) [of s' s] firings_of_def)

lemma silent_runAt:
  assumes "gone_quiet i before s" "loop_timers_ok s'" "loop_runAt inLoop e n r (Some f) s = Ret (j, s')"
  shows "gone_quiet i before s'"
proof -
  let ?s = "s\<lparr>el_objs := el_objs s @ [\<lparr>lt_expiration = e, lt_interval = n, lt_repeat = r, lt_cancelled = False, lt_callback = f\<rparr>]\<rparr>"
  have f: "el_objs s' = el_objs ?s" "el_fired s' = el_fired s"
    using assms(3) by (auto simp: loop_runAt_def Let_def add_fields el_queueInLoop_def call_wakeup_def split: if_splits)
  have "valid_id s i" using assms(1) by (simp add: gone_quiet_def)
  then have "timer_of s' i = timer_of s i" using key_same(2) [OF f(1)] timer_of_append by metis
  then show ?thesis using assms(1,2) f by (simp add: gone_quiet_def valid_id_def firings_of_def)
qed

lemma silent_cancel: "gone_quiet i before s \<Longrightarrow> gone_quiet i before (cancelTimerInLoop j s)"
  using timers_cancel [of s j] cancel_timer_of [of s i j] by (auto simp: gone_quiet_def loop_timers_ok_def cancel_fields valid_id_def firings_of_def)

lemma silent_step: "el_step any s s' \<Longrightarrow> gone_quiet i before s \<Longrightarrow> gone_quiet i before s'"
proof -
  assume st: "el_step any s s'" and ok: "gone_quiet i before s"
  have t: "loop_timers_ok s'" using timers_step [OF st] ok by (simp add: gone_quiet_def)
  from st show ?thesis
  proof (cases rule: el_step.cases)
    case (timers ph now)
    have "el_objs s' = el_objs s" "firings_of i s' = firings_of i s" using timers ok
      by (auto simp: processTimers_def timers_done_def loop_goto_def firings_of_def gone_quiet_def split: list.split)
    then show ?thesis using ok t by (simp add: gone_quiet_def valid_id_def key_same(2) [of s' s])
  next
    case (timer_return ph now j)
    have v: "valid_id s j" "valid_id s i" using timer_return ok by (auto simp: gone_quiet_def loop_timers_ok_def places_def)
    have "el_fired s' = el_fired s" "length (el_objs s') = length (el_objs s)" "lt_cancelled (timer_of s' i) = lt_cancelled (timer_of s i)"
      using timer_return timer_of_set [OF v(2) v(1)]
      by (auto simp: timer_returns_def loop_goto_def timers_push_def Let_def set_timer_def timer_of_def split: if_splits)
    then show ?thesis using ok t by (simp add: gone_quiet_def valid_id_def firings_of_def)
  next
    case (run fs)
    show ?thesis
    proof (cases "\<exists>j gs. fs = Cancel_timer j # gs")
      case True
      then obtain j gs where fs: "fs = Cancel_timer j # gs" by blast
      let ?s = "s\<lparr>el_called := el_called s @ [Cancel_timer j]\<rparr>"
      have "loop_timers_ok ?s" by (rule timers_frame [of s]) (use ok in \<open>simp_all add: gone_quiet_def places_def loop_waiting_def\<close>)
      then have "gone_quiet i before ?s" by (intro silent_frame [OF ok]) simp_all
      from silent_cancel [OF this, of j] show ?thesis by (rule silent_frame [OF _ t]) (use fs run in \<open>simp_all add: functors_next_def loop_goto_def\<close>)
    next
      case False
      then show ?thesis using run
        by (intro silent_frame [OF ok t]) (auto simp: functors_next_def loop_goto_def add_fields Let_def split: list.split Functor.split)
    qed
  next
    case (other_runAt e n r f j)
    then show ?thesis using silent_runAt [OF ok t] by blast
  next
    case (client_runAt e n r f j)
    then show ?thesis using silent_runAt [OF ok t] by blast
  next
    case (client_cancel j)
    then show ?thesis using silent_cancel [OF ok] ok by (auto simp: cancelTimer_def)
  qed (rule silent_frame [OF ok t]; auto simp: el_ops Let_def split: if_splits list.split active.split)+
qed

interpretation loop_timers: step_machine "el_step any" firing_ok for any :: bool
  by unfold_locales (rule firing_step)

interpretation sleeps: step_machine "el_step any" sleep_ok for any :: bool
  by unfold_locales (rule sleep_step)

interpretation cancelled: step_machine "el_step any" "gone_quiet i before" for any :: bool and i before
  by unfold_locales (rule silent_step)

lemma mk_loop_ok: "loop_order_ok (mk_EventLoop now)" "loop_noticed (mk_EventLoop now)" "firing_ok (mk_EventLoop now)" "sleep_ok (mk_EventLoop now)"
  by (simp_all add: mk_EventLoop_def loop_order_ok_def loop_noticed_def firing_ok_def sleep_ok_def loop_timers_ok_def loop_rounds_ok_def firings_spaced_def
      places_def loop_waiting_def)

section \<open>Runs\<close>

text \<open>The next step of the loop thread where callbacks return at once.\<close>

definition loop_next :: "'f EventLoop \<Rightarrow> 'f EventLoop" where
  "loop_next s =
     (case el_pc s of
        L_out \<Rightarrow> s
      | L_test \<Rightarrow> loop_test s
      | L_timers ph now \<Rightarrow> processTimers ph now s
      | L_timer_cb ph now i \<Rightarrow> timer_returns ph now i s
      | L_poll _ \<Rightarrow> s
      | L_events chs \<Rightarrow> handle_active chs s
      | L_event_cb chs \<Rightarrow> loop_goto (L_events chs) s
      | L_functors \<Rightarrow> loop_goto L_swap (s\<lparr>el_callingPendingFunctors := True\<rparr>)
      | L_swap \<Rightarrow> functors_swap s
      | L_run fs \<Rightarrow> functors_next fs s
      | L_run_cb fs \<Rightarrow> loop_goto (L_run fs) s)"

lemma loop_next_step: "(el_step any)\<^sup>*\<^sup>* s (loop_next s)"
  by (cases "el_pc s") (auto simp: loop_next_def intro: el_step.intros)

definition loop_next4 :: "'f EventLoop \<Rightarrow> 'f EventLoop" where
  "loop_next4 s = loop_next (loop_next (loop_next (loop_next s)))"

lemma loop_next4_steps: "(el_step any)\<^sup>*\<^sup>* s (loop_next4 s)"
  unfolding loop_next4_def using loop_next_step by (meson rtranclp_trans)

definition passing :: "nat \<Rightarrow> 'f EventLoop \<Rightarrow> 'f EventLoop" where
  "passing d s = s\<lparr>el_now := el_now s + d\<rparr>"

definition polled :: "active list \<Rightarrow> 'f EventLoop \<Rightarrow> 'f EventLoop" where
  "polled chs s = loop_goto (L_events chs) s"

definition other_wakes :: "'f EventLoop \<Rightarrow> 'f EventLoop" where
  "other_wakes s = wakeup (s\<lparr>el_waking := el_waking s - 1\<rparr>)"

lemma run_other_wakes: "0 < el_waking s \<Longrightarrow> el_step any s (other_wakes s)"
  unfolding other_wakes_def by (rule el_step.other_wakeup) simp

lemma run_passing: "el_step any s (passing d s)"
  unfolding passing_def by (rule el_step.time)

lemma run_polled: "el_pc s = L_poll d \<Longrightarrow> Wakeup_ready \<in> set chs \<longrightarrow> el_wakeup s \<Longrightarrow> el_step any s (polled chs s)"
  unfolding polled_def by (rule el_step.poll)

text \<open>
  A run in which the loop thread sets up a timer for the time 5 before it starts the loop, sleeps, is woken up for the new timer, sleeps
  again and calls the timer at 6; \<open>demo_fired\<close> is inside of the callback.
\<close>

definition demo_started :: "nat EventLoop" where
  "demo_started = ret_val (loop_begin (snd (ret_val (loop_runAt True 5 0 False (Some 7) (mk_EventLoop 0)))))"

definition demo_asleep :: "nat EventLoop" where
  "demo_asleep = loop_next (loop_next demo_started)"

definition demo_again :: "nat EventLoop" where
  "demo_again = loop_next4 (loop_next4 (polled [Wakeup_ready] demo_asleep))"

definition demo_fired :: "nat EventLoop" where
  "demo_fired = loop_next (loop_next4 (polled [] (passing 6 demo_again)))"

definition demo_late :: "nat EventLoop" where
  "demo_late = loop_next4 (el_queueInLoop True (User 9) demo_fired)"

lemmas el_eval = loop_next_def loop_next4_def el_ops polled_def passing_def timer_of_def timer_key_def getPollTimeoutMs_def ms_def Let_def

lemma demo_started_eq: "demo_started = \<lparr>el_looping = True, el_quit = False, el_pendingFunctors = [], el_callingPendingFunctors = False,
    el_timers = [1], el_timerMap = {1}, el_objs = [\<lparr>lt_expiration = 5, lt_interval = 0, lt_repeat = False, lt_cancelled = False, lt_callback = 7\<rparr>],
    el_wakeup = True, el_waking = 0, el_pc = L_test, el_now = 0, el_accepted = [], el_called = [], el_fired = []\<rparr>"
  by (simp add: demo_started_def mk_EventLoop_def el_eval)

lemma demo_asleep_eq: "demo_asleep = demo_started\<lparr>el_pc := L_poll 0\<rparr>"
  by (simp add: demo_asleep_def demo_started_eq el_eval)

lemma demo_again_eq: "demo_again = demo_asleep\<lparr>el_wakeup := False\<rparr>"
  by (simp add: demo_again_def demo_asleep_eq demo_started_eq el_eval)

lemma demo_fired_eq: "demo_fired = demo_again\<lparr>el_timers := [], el_now := 6, el_fired := [(1, 5, 6)], el_pc := L_timer_cb After_poll 6 1\<rparr>"
  by (simp add: demo_fired_def demo_again_eq demo_asleep_eq demo_started_eq el_eval)

lemmas demo_eqs = demo_fired_eq demo_again_eq demo_asleep_eq demo_started_eq

lemma demo_fired_reached: "(el_step any)\<^sup>*\<^sup>* (mk_EventLoop 0) demo_fired"
proof -
  let ?s = "snd (ret_val (loop_runAt True 5 0 False (Some 7) (mk_EventLoop 0 :: nat EventLoop)))"
  have "el_step any (mk_EventLoop 0) ?s" by (rule el_step.client_runAt [where i = 1]) (simp_all add: mk_EventLoop_def loop_runAt_def)
  moreover have "el_step any ?s demo_started" unfolding demo_started_def by (rule el_step.start) (simp_all add: mk_EventLoop_def el_eval)
  moreover have "(el_step any)\<^sup>*\<^sup>* demo_started demo_asleep" unfolding demo_asleep_def using loop_next_step by (meson rtranclp_trans)
  moreover have "el_step any demo_asleep (polled [Wakeup_ready] demo_asleep)" by (rule run_polled [where d = 0]) (simp_all add: demo_eqs)
  moreover have "(el_step any)\<^sup>*\<^sup>* (polled [Wakeup_ready] demo_asleep) demo_again" unfolding demo_again_def using loop_next4_steps by (meson rtranclp_trans)
  moreover have "el_step any demo_again (passing 6 demo_again)" by (rule run_passing)
  moreover have "el_step any (passing 6 demo_again) (polled [] (passing 6 demo_again))" by (rule run_polled [where d = 0]) (simp_all add: demo_eqs passing_def)
  moreover have "(el_step any)\<^sup>*\<^sup>* (polled [] (passing 6 demo_again)) demo_fired"
    unfolding demo_fired_def using loop_next_step loop_next4_steps by (meson rtranclp_trans)
  ultimately show ?thesis by (meson rtranclp_trans r_into_rtranclp)
qed

text \<open>Another thread queues a functor while the loop is in the timer callback; the loop serves it and sleeps again.\<close>

definition demo_woken :: "nat EventLoop" where
  "demo_woken = loop_next4 (other_wakes (el_queueInLoop False (User 9) demo_fired))"

definition demo_served :: "nat EventLoop" where
  "demo_served = loop_next (loop_next (loop_next4 (loop_next4 (polled [Wakeup_ready] demo_woken))))"

lemma demo_woken_eq: "demo_woken = demo_again\<lparr>el_timers := [], el_timerMap := {}, el_now := 6, el_fired := [(1, 5, 6)], el_pendingFunctors := [User 9],
    el_accepted := [User 9], el_wakeup := True, el_pc := L_poll 10000000006\<rparr>"
  by (simp add: demo_woken_def demo_eqs other_wakes_def el_eval)

lemma demo_served_eq: "demo_served = demo_woken\<lparr>el_pendingFunctors := [], el_called := [User 9], el_wakeup := False\<rparr>"
  by (simp add: demo_served_def demo_woken_eq demo_eqs el_eval)

lemma demo_served_reached: "(el_step any)\<^sup>*\<^sup>* (mk_EventLoop 0) demo_served"
proof -
  let ?s = "el_queueInLoop False (User 9) demo_fired"
  have "el_step any demo_fired ?s" by (rule el_step.other_queue)
  moreover have "el_step any ?s (other_wakes ?s)" by (rule run_other_wakes) (simp add: demo_eqs el_eval)
  moreover have "(el_step any)\<^sup>*\<^sup>* (other_wakes ?s) demo_woken" unfolding demo_woken_def by (rule loop_next4_steps)
  moreover have "el_step any demo_woken (polled [Wakeup_ready] demo_woken)" by (rule run_polled [where d = 10000000006]) (simp_all add: demo_woken_eq)
  moreover have "(el_step any)\<^sup>*\<^sup>* (polled [Wakeup_ready] demo_woken) demo_served"
    unfolding demo_served_def using loop_next_step loop_next4_steps by (meson rtranclp_trans)
  ultimately show ?thesis using demo_fired_reached by (meson rtranclp_trans r_into_rtranclp)
qed

section \<open>Properties\<close>

text \<open>
  C4: No functor and no request to quit is slept through. In every interleaving in which the loop thread itself queues functors and
  quits only inside channel handlers and functors, when the loop is asleep in \<^verbatim>\<open>poll\<close> with nothing to read on the wakeup channel and
  no other thread about to write to it, every functor that was queued has been called, in the order in which they were queued,
  and \<^verbatim>\<open>quit()\<close> has not been called since the loop started.
\<close>

theorem loop_never_sleeps_on_work:
  assumes "(el_step False)\<^sup>*\<^sup>* (mk_EventLoop now) s" "el_pc s = L_poll d" "\<not> el_wakeup s" "el_waking s = 0"
  shows "el_called s = el_accepted s \<and> \<not> el_quit s"
proof -
  have "loop_order_ok s" "loop_noticed s" using functors.reach_inv [OF assms(1)] wakeups.reach_inv [OF assms(1)] mk_loop_ok by blast+
  then show ?thesis using assms(2-4) by (simp add: loop_order_ok_def loop_noticed_def)
qed

theorem loop_never_sleeps_on_work_witness:
  "el_called demo_served = [User 9] \<and> el_accepted demo_served = [User 9] \<and> \<not> el_quit demo_served"
  using loop_never_sleeps_on_work [OF demo_served_reached, of 10000000006] by (simp add: demo_served_eq demo_woken_eq demo_eqs)

text \<open>
  C25: Timers of the loop keep their times, in every interleaving: no timer is called before it is due, a timer of \<^verbatim>\<open>runAfter\<close> is called once at
  most, two calls of a timer of \<^verbatim>\<open>runEvery\<close> are at least its interval apart, and the loop never sleeps beyond the time the next timer is due.
\<close>

theorem loop_timers_on_time:
  assumes "(el_step any)\<^sup>*\<^sup>* (mk_EventLoop now) s"
  shows "(\<forall>(i, e, t) \<in> set (el_fired s). e \<le> t) \<and> firings_spaced s \<and>
    (\<forall>d. el_pc s = L_poll d \<longrightarrow> (\<forall>i \<in> set (el_timers s). d \<le> max (el_now s) (lt_expiration (timer_of s i))))"
proof -
  have "firing_ok s" "sleep_ok s" using loop_timers.reach_inv [OF assms] sleeps.reach_inv [OF assms] mk_loop_ok by blast+
  then show ?thesis by (auto simp: firing_ok_def loop_rounds_ok_def sleep_ok_def)
qed

theorem loop_timers_on_time_witness: "el_fired demo_served = [(1, 5, 6)] \<and> firings_spaced demo_served"
  using loop_timers_on_time [OF demo_served_reached] by (simp add: demo_served_eq demo_woken_eq)

text \<open>
  A timer the loop knows and that is cancelled in the loop thread is never called again, whatever happens afterwards.
\<close>

theorem loop_cancel_is_final:
  assumes "(el_step any)\<^sup>*\<^sup>* (mk_EventLoop now) s" "i \<in> el_timerMap s" "(el_step any)\<^sup>*\<^sup>* (cancelTimer True i s) s'"
  shows "firings_of i s' = firings_of i s"
proof -
  have ok: "loop_timers_ok s" using loop_timers.reach_inv [OF assms(1)] mk_loop_ok by (auto simp: firing_ok_def)
  then have v: "valid_id s i" "\<forall>i \<in> el_timerMap s. valid_id s i" using assms(2) by (auto simp: loop_timers_ok_def)
  have "i \<noteq> 0" using v(1) by (simp add: valid_id_def)
  then have "gone_quiet i (firings_of i s) (cancelTimer True i s)"
    using timers_cancel [OF ok] cancel_timer_of [OF v(2,1), of i] assms(2) v(1)
    by (simp add: cancelTimer_def gone_quiet_def cancel_fields firings_of_def valid_id_def)
  then show ?thesis using cancelled.reach_inv [OF assms(3)] by (simp add: gone_quiet_def)
qed

theorem loop_cancel_is_final_witness: "firings_of 1 (passing 9 (cancelTimer True 1 demo_fired)) = [(1, 5, 6)]"
proof -
  have "(el_step True)\<^sup>*\<^sup>* (cancelTimer True 1 demo_fired) (passing 9 (cancelTimer True 1 demo_fired))" using run_passing by blast
  then show ?thesis using loop_cancel_is_final [OF demo_fired_reached, of 1] by (simp add: demo_eqs firings_of_def)
qed

text \<open>
  A functor that a timer callback queues is slept on. There is a run in which the callback of a timer calls \<^verbatim>\<open>queueInLoop\<close>, and
  then the loop goes to sleep for ten seconds with the functor in the queue and nothing that would wake it up.
\<close>

theorem loop_sleeps_on_functor_of_timer:
  "(el_step True)\<^sup>*\<^sup>* (mk_EventLoop 0) demo_late \<and> el_pc demo_late = L_poll (el_now demo_late + ms 10000) \<and>
   el_pendingFunctors demo_late = [User 9] \<and> \<not> el_wakeup demo_late \<and> el_waking demo_late = 0"
proof -
  have "el_step True demo_fired (el_queueInLoop True (User 9) demo_fired)" by (rule el_step.client_queue) (simp_all add: demo_fired_eq)
  then have "(el_step True)\<^sup>*\<^sup>* (mk_EventLoop 0) demo_late" unfolding demo_late_def
    using demo_fired_reached loop_next4_steps by (meson rtranclp_trans r_into_rtranclp)
  moreover have late: "demo_late = demo_again\<lparr>el_timers := [], el_timerMap := {}, el_now := 6, el_fired := [(1, 5, 6)], el_pendingFunctors := [User 9],
    el_accepted := [User 9], el_pc := L_poll 10000000006\<rparr>"
    by (simp add: demo_late_def demo_eqs el_eval)
  ultimately show ?thesis by (simp add: ms_def late demo_eqs)
qed

text \<open>\<^verbatim>\<open>quit()\<close> before the loop has started is forgotten when it starts, also when another thread called it.\<close>

lemma quit_before_loop_lost: "\<not> el_looping s \<Longrightarrow> \<exists>s'. loop_begin (el_quit_call inLoop s) = Ret s' \<and> \<not> el_quit s' \<and> el_pc s' = L_test"
  by (auto simp: loop_begin_def el_quit_call_def call_wakeup_def wakeup_def loop_goto_def Let_def)

text \<open>\<^verbatim>\<open>cancelTimer\<close> in the loop thread does nothing to a timer another thread has made but the loop has not added yet: it will be called.\<close>

lemma cancel_before_add_lost:
  assumes "loop_timers_ok s" "loop_runAt False e n r (Some f) s = Ret (i, s')"
  shows "cancelTimer True i s' = s' \<and> i \<in> set (adds (el_pendingFunctors s'))"
proof -
  have s': "i = length (el_objs s) + 1" "el_timerMap s' = el_timerMap s" "el_pendingFunctors s' = el_pendingFunctors s @ [Add_timer i]"
    using assms(2) by (auto simp: loop_runAt_def Let_def el_queueInLoop_def call_wakeup_def)
  have "j \<le> length (el_objs s)" if "j \<in> el_timerMap s" for j using assms(1) that by (simp add: loop_timers_ok_def valid_id_def)
  then have "i \<notin> el_timerMap s" using s'(1) by force
  then show ?thesis using s' by (simp add: cancelTimer_def cancelTimerInLoop_def)
qed

end
