(* ===== verification/Connector.thy ===== *)
theory Connector
  imports Prelude "HOL-Library.Multiset"
begin

text \<open>
  \<^verbatim>\<open>dbase::net::Connector\<close> (\<^verbatim>\<open>code/src/net/connector.cpp\<close>): opens a connection and tries again, after growing
  delays, when that fails. All members are called in the thread of the loop (\<^verbatim>\<open>m_started\<close> and \<^verbatim>\<open>m_retryTimerId\<close> are plain
  variables). Of the loop the model has the functors that are queued and the timers that are armed. A socket is a number, and what
  has happened to it is recorded: opened, closed, or handed to the callback. What the kernel reports is an argument.
\<close>

section \<open>ConnectorState\<close>

datatype ConnectorState = K_Disconnected | K_Connecting | K_Connected

datatype job = Job_stop | Job_restart | Job_delete_channel

record Connector =
  k_started :: bool
  k_state :: ConnectorState
  k_channel :: bool
  k_socket :: "nat option"
  k_initialRetryDelayMs :: int
  k_maxRetryDelayMs :: int
  k_retryDelayMs :: int
  k_callback :: bool
  k_retryTimerId :: nat
  k_jobs :: "job list"
  k_armed :: "(nat \<times> int) list"
  k_nextTimer :: nat
  k_nextSocket :: nat
  k_closed :: "nat list"
  k_handed :: "nat list"

definition mk_Connector :: "bool \<Rightarrow> Connector outcome" where
  "mk_Connector loop =
     (if \<not> loop then Throw (Invalid_argument ''Connector loop is null'')
      else Ret \<lparr>k_started = False, k_state = K_Disconnected, k_channel = False, k_socket = None, k_initialRetryDelayMs = 500,
        k_maxRetryDelayMs = 30000, k_retryDelayMs = 500, k_callback = False, k_retryTimerId = 0, k_jobs = [], k_armed = [],
        k_nextTimer = 1, k_nextSocket = 0, k_closed = [], k_handed = []\<rparr>)"

section \<open>Operations\<close>

text \<open>The Linux values of the error numbers.\<close>

definition isInProgressError :: "int \<Rightarrow> bool" where
  "isInProgressError err \<longleftrightarrow> err = 115 \<or> err = 114 \<or> err = 11"

definition isRetryableConnectError :: "int \<Rightarrow> bool" where
  "isRetryableConnectError err \<longleftrightarrow> err = 111 \<or> err = 101 \<or> err = 113 \<or> err = 110 \<or> err = 104"

definition setNewConnectionCallback :: "Connector \<Rightarrow> Connector" where
  "setNewConnectionCallback c = c\<lparr>k_callback := True\<rparr>"

definition setRetryDelayMs :: "int \<Rightarrow> int \<Rightarrow> Connector \<Rightarrow> Connector" where
  "setRetryDelayMs initialDelayMs maxDelayMs c =
     (let initialDelayMs = (if initialDelayMs \<le> 0 then 1 else initialDelayMs);
          maxDelayMs = (if maxDelayMs < initialDelayMs then initialDelayMs else maxDelayMs)
      in c\<lparr>k_initialRetryDelayMs := initialDelayMs, k_maxRetryDelayMs := maxDelayMs, k_retryDelayMs := initialDelayMs\<rparr>)"

definition close_socket :: "nat \<Rightarrow> Connector \<Rightarrow> Connector" where
  "close_socket sock c = c\<lparr>k_closed := k_closed c @ [sock]\<rparr>"

definition cancelRetry :: "Connector \<Rightarrow> Connector" where
  "cancelRetry c =
     (if k_retryTimerId c \<noteq> 0
      then c\<lparr>k_armed := filter (\<lambda>t. fst t \<noteq> k_retryTimerId c) (k_armed c), k_retryTimerId := 0\<rparr>
      else c)"

definition retry :: "Connector \<Rightarrow> Connector outcome" where
  "retry c =
     (let c = c\<lparr>k_state := K_Disconnected\<rparr>
      in if \<not> k_started c then Ret c
         else let c = cancelRetry c;
                  c = c\<lparr>k_armed := k_armed c @ [(k_nextTimer c, k_retryDelayMs c)], k_retryTimerId := k_nextTimer c,
                        k_nextTimer := k_nextTimer c + 1\<rparr>
              in if k_retryDelayMs c < k_maxRetryDelayMs c
                 then if k_retryDelayMs c * 2 > 2 ^ 31 - 1 then Undef
                      else Ret (c\<lparr>k_retryDelayMs := min (k_retryDelayMs c * 2) (k_maxRetryDelayMs c)\<rparr>)
                 else Ret c)"

definition removeAndResetChannelRaw :: "Connector \<Rightarrow> nat option \<times> Connector" where
  "removeAndResetChannelRaw c =
     (let sock = k_socket c;
          c = (if k_channel c then c\<lparr>k_channel := False, k_jobs := k_jobs c @ [Job_delete_channel]\<rparr> else c)
      in (sock, c\<lparr>k_socket := None\<rparr>))"

definition connecting :: "nat \<Rightarrow> Connector \<Rightarrow> Connector" where
  "connecting sock c = c\<lparr>k_state := K_Connecting, k_socket := Some sock, k_channel := True\<rparr>"

text \<open>\<open>ok\<close> says whether \<^verbatim>\<open>SocketOps::connect\<close> succeeded, \<open>err\<close> is what \<^verbatim>\<open>getSocketError\<close> or \<^verbatim>\<open>errno\<close> gives then.\<close>

definition connector_connect :: "bool \<Rightarrow> int \<Rightarrow> Connector \<Rightarrow> Connector outcome" where
  "connector_connect ok err c =
     (let sock = k_nextSocket c;
          c = c\<lparr>k_nextSocket := k_nextSocket c + 1\<rparr>
      in if ok
         then if err = 0 \<or> isInProgressError err then Ret (connecting sock c)
              else if isRetryableConnectError err then retry (close_socket sock c)
              else Ret (close_socket sock c)
         else if isInProgressError err then Ret (connecting sock c)
              else let c = close_socket sock c in if isRetryableConnectError err then retry c else Ret c)"

definition startInLoop :: "bool \<Rightarrow> int \<Rightarrow> Connector \<Rightarrow> Connector outcome" where
  "startInLoop ok err c =
     (if \<not> k_started c then Ret c else if k_state c = K_Disconnected then connector_connect ok err c else Ret c)"

definition close_removed :: "Connector \<Rightarrow> Connector" where
  "close_removed c = (case removeAndResetChannelRaw c of (sock, c) \<Rightarrow> (case sock of None \<Rightarrow> c | Some s \<Rightarrow> close_socket s c))"

definition stopInLoop :: "Connector \<Rightarrow> Connector" where
  "stopInLoop c =
     (let c = c\<lparr>k_started := False\<rparr>
      in if k_state c = K_Connecting then (close_removed c)\<lparr>k_state := K_Disconnected\<rparr>
         else if k_channel c then close_removed c else c)"

definition connector_start :: "bool \<Rightarrow> int \<Rightarrow> Connector \<Rightarrow> Connector outcome" where
  "connector_start ok err c = startInLoop ok err (c\<lparr>k_started := True\<rparr>)"

definition connector_stop :: "Connector \<Rightarrow> Connector" where
  "connector_stop c = (let c = cancelRetry (c\<lparr>k_started := False\<rparr>) in c\<lparr>k_jobs := k_jobs c @ [Job_stop]\<rparr>)"

definition connector_restart :: "Connector \<Rightarrow> Connector" where
  "connector_restart c =
     (let c = cancelRetry c
      in c\<lparr>k_retryDelayMs := k_initialRetryDelayMs c, k_started := True, k_jobs := k_jobs c @ [Job_restart]\<rparr>)"

definition connector_handleWrite :: "int \<Rightarrow> bool \<Rightarrow> Connector \<Rightarrow> Connector outcome" where
  "connector_handleWrite err selfConnect c =
     (if k_state c \<noteq> K_Connecting then Ret c
      else case removeAndResetChannelRaw c of
             (None, c) \<Rightarrow> retry c
           | (Some sock, c) \<Rightarrow>
               if err \<noteq> 0 then retry (close_socket sock c)
               else if selfConnect then retry (close_socket sock c)
               else let c = c\<lparr>k_state := K_Connected, k_retryDelayMs := k_initialRetryDelayMs c\<rparr>
                    in Ret (if k_started c \<and> k_callback c then c\<lparr>k_handed := k_handed c @ [sock]\<rparr> else close_socket sock c))"

definition connector_handleError :: "Connector \<Rightarrow> Connector outcome" where
  "connector_handleError c = (if k_state c \<noteq> K_Connecting then Ret c else retry (close_removed c))"

text \<open>The loop calls the next queued functor, or the timer with an identifier.\<close>

definition run_job :: "bool \<Rightarrow> int \<Rightarrow> Connector \<Rightarrow> Connector outcome" where
  "run_job ok err c =
     (case k_jobs c of
        [] \<Rightarrow> Ret c
      | j # js \<Rightarrow>
          let c = c\<lparr>k_jobs := js\<rparr>
          in case j of
               Job_stop \<Rightarrow> Ret (stopInLoop c)
             | Job_restart \<Rightarrow> startInLoop ok err (c\<lparr>k_state := K_Disconnected\<rparr>)
             | Job_delete_channel \<Rightarrow> Ret c)"

definition run_timer :: "nat \<Rightarrow> bool \<Rightarrow> int \<Rightarrow> Connector \<Rightarrow> Connector outcome" where
  "run_timer i ok err c = startInLoop ok err (c\<lparr>k_armed := filter (\<lambda>t. fst t \<noteq> i) (k_armed c)\<rparr>)"

section \<open>Steps\<close>

text \<open>
  With \<open>any = False\<close> a queued restart is called while no connection attempt is under way, as it is when the callback's
  connection has been closed.
\<close>

inductive k_step :: "bool \<Rightarrow> Connector \<Rightarrow> Connector \<Rightarrow> bool" for "any" where
  configure: "max_ms \<le> 2 ^ 30 \<Longrightarrow> initial_ms \<le> 2 ^ 30 \<Longrightarrow> k_step any c (setRetryDelayMs initial_ms max_ms c)"
| callback: "k_step any c (setNewConnectionCallback c)"
| start: "connector_start ok err c = Ret c' \<Longrightarrow> k_step any c c'"
| stop: "k_step any c (connector_stop c)"
| restart: "k_step any c (connector_restart c)"
| job: "run_job ok err c = Ret c' \<Longrightarrow> k_jobs c = j # js \<Longrightarrow> any \<or> j \<noteq> Job_restart \<or> k_state c \<noteq> K_Connecting \<Longrightarrow> k_step any c c'"
| timer: "i \<in> fst ` set (k_armed c) \<Longrightarrow> run_timer i ok err c = Ret c' \<Longrightarrow> k_step any c c'"
| writable: "k_channel c \<Longrightarrow> connector_handleWrite err selfConnect c = Ret c' \<Longrightarrow> k_step any c c'"
| error: "k_channel c \<Longrightarrow> connector_handleError c = Ret c' \<Longrightarrow> k_step any c c'"

section \<open>Ownership\<close>

text \<open>
  Every socket that was opened is in one place: held by the attempt under way, closed, or handed over. There is an attempt
  exactly when there is a channel, one retry timer at most, and the delays are in their bounds.
\<close>

definition sockets_ok :: "Connector \<Rightarrow> bool" where
  "sockets_ok c \<longleftrightarrow> mset [0..<k_nextSocket c] = mset (k_closed c) + mset (k_handed c) + mset (case k_socket c of None \<Rightarrow> [] | Some s \<Rightarrow> [s])"

definition attempt_ok :: "Connector \<Rightarrow> bool" where
  "attempt_ok c \<longleftrightarrow> (k_socket c \<noteq> None \<longleftrightarrow> k_channel c) \<and> (k_state c = K_Connecting \<longleftrightarrow> k_channel c)"

definition delays_ok :: "Connector \<Rightarrow> bool" where
  "delays_ok c \<longleftrightarrow> 0 < k_initialRetryDelayMs c \<and> k_initialRetryDelayMs c \<le> k_retryDelayMs c \<and> k_retryDelayMs c \<le> k_maxRetryDelayMs c \<and>
     k_maxRetryDelayMs c \<le> 2 ^ 30"

definition timer_ok :: "Connector \<Rightarrow> bool" where
  "timer_ok c \<longleftrightarrow> 0 < k_nextTimer c \<and> k_retryTimerId c < k_nextTimer c \<and> (k_armed c = [] \<or> (\<exists>d. k_armed c = [(k_retryTimerId c, d)] \<and> k_retryTimerId c \<noteq> 0))"

definition connector_ok :: "Connector \<Rightarrow> bool" where
  "connector_ok c \<longleftrightarrow> sockets_ok c \<and> attempt_ok c \<and> delays_ok c \<and> timer_ok c"

lemmas k_inv = connector_ok_def sockets_ok_def attempt_ok_def delays_ok_def timer_ok_def

lemma cancelRetry_fields [simp]:
  "k_started (cancelRetry c) = k_started c" "k_state (cancelRetry c) = k_state c" "k_channel (cancelRetry c) = k_channel c"
  "k_socket (cancelRetry c) = k_socket c" "k_initialRetryDelayMs (cancelRetry c) = k_initialRetryDelayMs c"
  "k_maxRetryDelayMs (cancelRetry c) = k_maxRetryDelayMs c" "k_retryDelayMs (cancelRetry c) = k_retryDelayMs c"
  "k_jobs (cancelRetry c) = k_jobs c" "k_nextTimer (cancelRetry c) = k_nextTimer c" "k_nextSocket (cancelRetry c) = k_nextSocket c"
  "k_closed (cancelRetry c) = k_closed c" "k_handed (cancelRetry c) = k_handed c" "k_callback (cancelRetry c) = k_callback c"
  by (simp_all add: cancelRetry_def)

lemma cancelRetry_timer: "timer_ok c \<Longrightarrow> timer_ok (cancelRetry c) \<and> k_armed (cancelRetry c) = []"
  by (auto simp: cancelRetry_def timer_ok_def)

lemma cancelRetry_ok: "connector_ok c \<Longrightarrow> connector_ok (cancelRetry c)"
  using cancelRetry_timer [of c] by (simp add: connector_ok_def sockets_ok_def attempt_ok_def delays_ok_def)

lemma retry_ok:
  assumes "sockets_ok c" "\<not> k_channel c" "k_socket c = None" "delays_ok c" "timer_ok c"
  shows "\<exists>c'. retry c = Ret c' \<and> connector_ok c' \<and> k_state c' = K_Disconnected"
proof -
  let ?c = "cancelRetry (c\<lparr>k_state := K_Disconnected\<rparr>)"
  have "timer_ok (c\<lparr>k_state := K_Disconnected\<rparr>)" using assms(5) by (simp add: timer_ok_def)
  then have t: "timer_ok ?c" "k_armed ?c = []" using cancelRetry_timer by blast+
  have "k_retryDelayMs c < k_maxRetryDelayMs c \<Longrightarrow> k_retryDelayMs c * 2 \<le> 2 ^ 31 - 1" using assms(4) by (simp add: delays_ok_def)
  then show ?thesis using t assms unfolding retry_def Let_def
    by (auto simp: connector_ok_def sockets_ok_def attempt_ok_def delays_ok_def timer_ok_def)
qed

lemma sockets_new: "mset [0..<Suc n] = add_mset n (mset [0..<n])"
  by simp

lemma close_new_ok: "sockets_ok c \<Longrightarrow> k_socket c = None \<Longrightarrow> sockets_ok (close_socket (k_nextSocket c) (c\<lparr>k_nextSocket := k_nextSocket c + 1\<rparr>))"
  by (simp add: sockets_ok_def close_socket_def del: mset_upt)

lemma connect_ok:
  assumes "connector_ok c" "k_state c = K_Disconnected"
  shows "\<exists>c'. connector_connect ok err c = Ret c' \<and> connector_ok c'"
proof -
  let ?c = "close_socket (k_nextSocket c) (c\<lparr>k_nextSocket := k_nextSocket c + 1\<rparr>)"
  have idle: "\<not> k_channel c" "k_socket c = None" using assms by (auto simp: connector_ok_def attempt_ok_def)
  have closed: "sockets_ok ?c" "\<not> k_channel ?c" "k_socket ?c = None" "delays_ok ?c" "timer_ok ?c" "attempt_ok ?c"
    using close_new_ok [of c] assms idle by (simp_all add: connector_ok_def close_socket_def delays_ok_def timer_ok_def attempt_ok_def)
  have new: "connector_ok (connecting (k_nextSocket c) (c\<lparr>k_nextSocket := k_nextSocket c + 1\<rparr>))"
    using assms idle by (simp add: connecting_def connector_ok_def sockets_ok_def attempt_ok_def delays_ok_def timer_ok_def del: mset_upt)
  show ?thesis unfolding connector_connect_def Let_def using new retry_ok [OF closed(1-5)] closed by (auto simp: connector_ok_def)
qed

lemma startInLoop_ok: "connector_ok c \<Longrightarrow> \<exists>c'. startInLoop ok err c = Ret c' \<and> connector_ok c'"
  using connect_ok by (simp add: startInLoop_def)

lemma removed:
  assumes "connector_ok c" "k_state c = K_Connecting"
  shows "\<exists>sock c'. removeAndResetChannelRaw c = (Some sock, c') \<and> k_socket c = Some sock \<and> \<not> k_channel c' \<and> k_socket c' = None \<and>
    delays_ok c' \<and> timer_ok c' \<and> k_started c' = k_started c \<and> sockets_ok (close_socket sock c') \<and> sockets_ok (c'\<lparr>k_handed := k_handed c' @ [sock]\<rparr>)"
  using assms by (auto simp: removeAndResetChannelRaw_def Let_def connector_ok_def attempt_ok_def sockets_ok_def delays_ok_def timer_ok_def
      close_socket_def simp del: mset_upt)

lemma close_removed_ok:
  assumes "connector_ok c" "k_state c = K_Connecting"
  shows "sockets_ok (close_removed c) \<and> \<not> k_channel (close_removed c) \<and> k_socket (close_removed c) = None \<and> delays_ok (close_removed c) \<and> timer_ok (close_removed c)"
  using removed [OF assms] by (auto simp: close_removed_def close_socket_def delays_ok_def timer_ok_def)

lemma handleWrite_ok: "connector_ok c \<Longrightarrow> \<exists>c'. connector_handleWrite err selfConnect c = Ret c' \<and> connector_ok c'"
proof (cases "k_state c = K_Connecting")
  case True
  assume ok: "connector_ok c"
  from removed [OF ok True] obtain sock c' where r: "removeAndResetChannelRaw c = (Some sock, c')" "\<not> k_channel c'" "k_socket c' = None"
    "delays_ok c'" "timer_ok c'" "sockets_ok (close_socket sock c')" "sockets_ok (c'\<lparr>k_handed := k_handed c' @ [sock]\<rparr>)" by blast
  have "\<exists>c2. retry (close_socket sock c') = Ret c2 \<and> connector_ok c2"
    using retry_ok [OF r(6)] r(2-5) by (auto simp: close_socket_def delays_ok_def timer_ok_def)
  moreover have "connector_ok (let c = c'\<lparr>k_state := K_Connected, k_retryDelayMs := k_initialRetryDelayMs c'\<rparr>
      in if k_started c \<and> k_callback c then c\<lparr>k_handed := k_handed c @ [sock]\<rparr> else close_socket sock c)"
    using r(2-7) by (auto simp: connector_ok_def sockets_ok_def attempt_ok_def delays_ok_def timer_ok_def close_socket_def Let_def simp del: mset_upt)
  ultimately show ?thesis using True r(1) by (simp add: connector_handleWrite_def Let_def)
qed (simp add: connector_handleWrite_def)

lemma handleError_ok: "connector_ok c \<Longrightarrow> \<exists>c'. connector_handleError c = Ret c' \<and> connector_ok c'"
  using close_removed_ok [of c] retry_ok [of "close_removed c"] by (auto simp: connector_handleError_def)

lemma stopInLoop_ok: "connector_ok c \<Longrightarrow> connector_ok (stopInLoop c)"
proof -
  assume ok: "connector_ok c"
  let ?c = "c\<lparr>k_started := False\<rparr>"
  have ok': "connector_ok ?c" using ok by (simp add: connector_ok_def sockets_ok_def attempt_ok_def delays_ok_def timer_ok_def)
  show ?thesis
  proof (cases "k_state c = K_Connecting")
    case True
    then show ?thesis using close_removed_ok [OF ok'] by (simp add: stopInLoop_def Let_def connector_ok_def sockets_ok_def attempt_ok_def delays_ok_def timer_ok_def)
  next
    case False
    then show ?thesis using ok ok' by (simp add: stopInLoop_def Let_def connector_ok_def attempt_ok_def)
  qed
qed

lemma run_job_ok:
  assumes "connector_ok c" "k_jobs c = j # js" "j \<noteq> Job_restart \<or> k_state c \<noteq> K_Connecting"
  shows "\<exists>c'. run_job ok err c = Ret c' \<and> connector_ok c'"
proof -
  let ?c = "c\<lparr>k_jobs := js\<rparr>"
  have ok: "connector_ok ?c" using assms(1) by (simp add: connector_ok_def sockets_ok_def attempt_ok_def delays_ok_def timer_ok_def)
  moreover have "connector_ok (?c\<lparr>k_state := K_Disconnected\<rparr>)" if "k_state c \<noteq> K_Connecting"
    using that assms(1) by (simp add: connector_ok_def sockets_ok_def attempt_ok_def delays_ok_def timer_ok_def)
  ultimately show ?thesis using assms(2,3) startInLoop_ok stopInLoop_ok [OF ok] by (cases j) (auto simp: run_job_def Let_def)
qed

lemma run_timer_ok: "connector_ok c \<Longrightarrow> \<exists>c'. run_timer i ok err c = Ret c' \<and> connector_ok c'"
  unfolding run_timer_def
  by (intro startInLoop_ok) (auto simp: connector_ok_def sockets_ok_def attempt_ok_def delays_ok_def timer_ok_def)

lemma connector_step: "k_step False c c' \<Longrightarrow> connector_ok c \<Longrightarrow> connector_ok c'"
proof (induction rule: k_step.induct)
  case (start ok err c c')
  have "connector_ok (c\<lparr>k_started := True\<rparr>)" using start(2) by (simp add: connector_ok_def sockets_ok_def attempt_ok_def delays_ok_def timer_ok_def)
  then show ?case using startInLoop_ok [of "c\<lparr>k_started := True\<rparr>" ok err] start(1) by (simp add: connector_start_def)
next
  case (job ok err c c' j js)
  then show ?case using run_job_ok [of c j js ok err] by auto
next
  case (timer i c ok err c')
  then show ?case using run_timer_ok [of c i ok err] by auto
next
  case (writable c err selfConnect c')
  then show ?case using handleWrite_ok [of c err selfConnect] by auto
next
  case (error c c')
  then show ?case using handleError_ok [of c] by auto
next
  case (stop c)
  have "connector_ok (c\<lparr>k_started := False\<rparr>)" using stop by (simp add: connector_ok_def sockets_ok_def attempt_ok_def delays_ok_def timer_ok_def)
  from cancelRetry_ok [OF this] show ?case by (simp add: connector_stop_def connector_ok_def sockets_ok_def attempt_ok_def delays_ok_def timer_ok_def)
next
  case (restart c)
  from cancelRetry_ok [OF this] show ?case by (auto simp: connector_restart_def Let_def connector_ok_def sockets_ok_def attempt_ok_def delays_ok_def timer_ok_def)
qed (auto simp: setRetryDelayMs_def setNewConnectionCallback_def Let_def connector_ok_def sockets_ok_def attempt_ok_def delays_ok_def timer_ok_def)

interpretation connectors: step_machine "k_step False" connector_ok
  by unfold_locales (rule connector_step)

section \<open>Properties\<close>

definition connector_new :: Connector where
  "connector_new = ret_val (mk_Connector True)"

lemma connector_new_ok: "connector_ok connector_new"
  by (simp add: connector_new_def mk_Connector_def connector_ok_def sockets_ok_def attempt_ok_def delays_ok_def timer_ok_def)

lemmas k_eval = connector_new_def mk_Connector_def connector_start_def startInLoop_def connector_connect_def connecting_def connector_handleWrite_def removeAndResetChannelRaw_def
  close_socket_def retry_def cancelRetry_def isInProgressError_def isRetryableConnectError_def setNewConnectionCallback_def connector_restart_def run_job_def
  run_timer_def Let_def

text \<open>A first attempt is refused at once, the retry timer starts a second one, and that one succeeds.\<close>

definition demo_refused :: Connector where
  "demo_refused = ret_val (connector_start False 111 (setNewConnectionCallback connector_new))"

definition demo_pending :: Connector where
  "demo_pending = ret_val (run_timer 1 False 115 demo_refused)"

definition demo_connected :: Connector where
  "demo_connected = ret_val (connector_handleWrite 0 False demo_pending)"

lemmas k_demo = demo_refused_def demo_pending_def demo_connected_def k_eval

lemma demo_pending_reached: "(k_step any)\<^sup>*\<^sup>* connector_new demo_pending"
proof -
  have "k_step any connector_new (setNewConnectionCallback connector_new)" by (rule k_step.callback)
  moreover have "k_step any (setNewConnectionCallback connector_new) demo_refused"
    by (rule k_step.start [of False 111]) (simp add: k_demo)
  moreover have "k_step any demo_refused demo_pending" by (rule k_step.timer [of 1 _ False 115]) (simp_all add: k_demo)
  ultimately show ?thesis by (meson rtranclp_trans r_into_rtranclp)
qed

lemma demo_connected_reached: "(k_step any)\<^sup>*\<^sup>* connector_new demo_connected"
proof -
  have "k_step any demo_pending demo_connected" by (rule k_step.writable [of _ 0 False]) (simp_all add: k_demo)
  then show ?thesis using demo_pending_reached by (meson rtranclp.rtrancl_into_rtrancl)
qed

text \<open>
  A connector loses no socket and closes none twice. Whatever the kernel reports and whenever \<^verbatim>\<open>start\<close>, \<^verbatim>\<open>stop\<close> and \<^verbatim>\<open>restart\<close> are called,
  as long as a restart does not come while an attempt is under way, every socket that was opened is exactly once closed, handed to
  the callback or held by the attempt; one retry timer at most is armed, and its delay is between the initial and the maximal one.
\<close>

theorem connector_owns_sockets:
  assumes "(k_step False)\<^sup>*\<^sup>* connector_new c"
  shows "distinct (k_closed c @ k_handed c) \<and>
    set (k_closed c @ k_handed c) = {0..<k_nextSocket c} - (case k_socket c of None \<Rightarrow> {} | Some s \<Rightarrow> {s}) \<and>
    (k_socket c \<noteq> None \<longleftrightarrow> k_state c = K_Connecting) \<and> length (k_armed c) \<le> 1 \<and>
    k_initialRetryDelayMs c \<le> k_retryDelayMs c \<and> k_retryDelayMs c \<le> k_maxRetryDelayMs c"
proof -
  have ok: "connector_ok c" using connectors.reach_inv [OF assms connector_new_ok] .
  let ?held = "case k_socket c of None \<Rightarrow> [] | Some s \<Rightarrow> [s]"
  have m: "mset (k_closed c @ k_handed c @ ?held) = mset [0..<k_nextSocket c]" using ok by (simp add: connector_ok_def sockets_ok_def)
  then have "distinct (k_closed c @ k_handed c @ ?held)" using mset_eq_imp_distinct_iff [OF m] by simp
  moreover have "set (k_closed c @ k_handed c @ ?held) = {0..<k_nextSocket c}" using mset_eq_setD [OF m] by simp
  ultimately show ?thesis using ok by (auto simp: connector_ok_def attempt_ok_def delays_ok_def timer_ok_def split: option.splits)
qed

theorem connector_owns_sockets_witness: "k_closed demo_connected = [0] \<and> k_handed demo_connected = [1] \<and> distinct (k_closed demo_connected @ k_handed demo_connected)"
proof -
  have "k_closed demo_connected = [0]" "k_handed demo_connected = [1]" by (simp_all add: k_demo)
  then show ?thesis using connector_owns_sockets [OF demo_connected_reached] by simp
qed

text \<open>
  The ways in which an attempt fails and is tried again: \<^verbatim>\<open>connect\<close> gives one of the errors that are retried at once; or it goes on, and later the socket is
  writable with an error, or connected to itself, or the poller reports an error. \<open>ok\<close> and \<open>err\<close> are what \<^verbatim>\<open>SocketOps::connect\<close> gives.
\<close>

datatype failure = At_once bool int | On_write bool int int | On_self bool int | On_error bool int

fun attempt_ret :: "failure \<Rightarrow> bool \<times> int" where
  "attempt_ret (At_once ok err) = (ok, err)"
| "attempt_ret (On_write ok err e) = (ok, err)"
| "attempt_ret (On_self ok err) = (ok, err)"
| "attempt_ret (On_error ok err) = (ok, err)"

definition under_way :: "bool \<times> int \<Rightarrow> bool" where
  "under_way r \<longleftrightarrow> isInProgressError (snd r) \<or> fst r \<and> snd r = 0"

fun failure_ok :: "failure \<Rightarrow> bool" where
  "failure_ok (At_once ok err) \<longleftrightarrow> isRetryableConnectError err"
| "failure_ok (On_write ok err e) \<longleftrightarrow> under_way (ok, err) \<and> e \<noteq> 0"
| "failure_ok (On_self ok err) \<longleftrightarrow> under_way (ok, err)"
| "failure_ok (On_error ok err) \<longleftrightarrow> under_way (ok, err)"

fun fail_later :: "failure \<Rightarrow> Connector \<Rightarrow> Connector outcome" where
  "fail_later (At_once ok err) c = Ret c"
| "fail_later (On_write ok err e) c = connector_handleWrite e False c"
| "fail_later (On_self ok err) c = connector_handleWrite 0 True c"
| "fail_later (On_error ok err) c = connector_handleError c"

text \<open>A first attempt by \<^verbatim>\<open>start\<close> that fails, and then the retry timer again and again, with an attempt that fails each time.\<close>

definition failed_start :: "failure \<Rightarrow> Connector \<Rightarrow> Connector outcome" where
  "failed_start f c = obind (case attempt_ret f of (ok, err) \<Rightarrow> connector_start ok err c) (fail_later f)"

fun failed_retries :: "failure list \<Rightarrow> Connector \<Rightarrow> Connector outcome" where
  "failed_retries [] c = Ret c"
| "failed_retries (f # fs) c =
     obind (obind (case attempt_ret f of (ok, err) \<Rightarrow> run_timer (k_retryTimerId c) ok err c) (fail_later f)) (failed_retries fs)"

text \<open>Between attempts, with the delay \<open>d\<close> for the armed timer and \<open>e\<close> for the one after it.\<close>

definition backing_off :: "int \<Rightarrow> int \<Rightarrow> Connector \<Rightarrow> bool" where
  "backing_off d e c \<longleftrightarrow> connector_ok c \<and> k_started c \<and> k_state c = K_Disconnected \<and> k_armed c = [(k_retryTimerId c, d)] \<and> k_retryDelayMs c = e"

definition same_setup :: "Connector \<Rightarrow> Connector \<Rightarrow> bool" where
  "same_setup c c' \<longleftrightarrow> k_initialRetryDelayMs c' = k_initialRetryDelayMs c \<and> k_maxRetryDelayMs c' = k_maxRetryDelayMs c \<and> k_callback c' = k_callback c \<and>
     k_handed c' = k_handed c"

lemma retry_arms:
  assumes "k_started c" "k_retryDelayMs c * 2 \<le> 2 ^ 31 - 1 \<or> k_retryDelayMs c = k_maxRetryDelayMs c" "0 < k_retryDelayMs c" "k_retryDelayMs c \<le> k_maxRetryDelayMs c" "timer_ok c"
  shows "\<exists>c'. retry c = Ret c' \<and> same_setup c c' \<and> k_started c' \<and> k_closed c' = k_closed c \<and> k_nextSocket c' = k_nextSocket c \<and>
    k_armed c' = [(k_retryTimerId c', k_retryDelayMs c)] \<and> k_retryDelayMs c' = min (k_retryDelayMs c * 2) (k_maxRetryDelayMs c)"
proof -
  have "timer_ok (c\<lparr>k_state := K_Disconnected\<rparr>)" using assms(5) by (simp add: timer_ok_def)
  then have "k_armed (cancelRetry (c\<lparr>k_state := K_Disconnected\<rparr>)) = []" using cancelRetry_timer by blast
  then show ?thesis using assms(1-4) by (auto simp: retry_def Let_def same_setup_def min_def)
qed

text \<open>One failed attempt: its socket is closed, the timer is armed with the delay as it is, and the delay doubles up to the maximum.\<close>

lemma failed_attempt:
  assumes ok: "connector_ok c" and st: "k_started c" "k_state c = K_Disconnected" and f: "failure_ok f" and r: "attempt_ret f = (okr, err)"
  shows "\<exists>c'. obind (startInLoop okr err c) (fail_later f) = Ret c' \<and> backing_off (k_retryDelayMs c) (min (k_retryDelayMs c * 2) (k_maxRetryDelayMs c)) c' \<and>
    same_setup c c' \<and> k_closed c' = k_closed c @ [k_nextSocket c] \<and> k_nextSocket c' = k_nextSocket c + 1"
proof -
  have no: "\<not> k_channel c" "k_socket c = None" using ok st by (auto simp: connector_ok_def attempt_ok_def)
  have d: "0 < k_retryDelayMs c" "k_retryDelayMs c \<le> k_maxRetryDelayMs c" "k_retryDelayMs c * 2 \<le> 2 ^ 31 - 1 \<or> k_retryDelayMs c = k_maxRetryDelayMs c"
    using ok by (auto simp: connector_ok_def delays_ok_def)
  let ?n = "k_nextSocket c" and ?c = "c\<lparr>k_nextSocket := k_nextSocket c + 1\<rparr>"
  define j where "j = k_jobs c"
  have arm: "\<exists>c'. retry b = Ret c' \<and> backing_off (k_retryDelayMs c) (min (k_retryDelayMs c * 2) (k_maxRetryDelayMs c)) c' \<and>
      same_setup c c' \<and> k_closed c' = k_closed c @ [?n] \<and> k_nextSocket c' = ?n + 1"
    if b: "b = close_socket ?n (?c\<lparr>k_state := st', k_jobs := js\<rparr>)" for b st' js
  proof -
    have t: "timer_ok b" "sockets_ok b" "delays_ok b" using ok b close_new_ok [of c] no by (auto simp: connector_ok_def timer_ok_def delays_ok_def close_socket_def sockets_ok_def)
    have fields: "k_retryDelayMs b = k_retryDelayMs c" "k_maxRetryDelayMs b = k_maxRetryDelayMs c" "k_started b" "\<not> k_channel b" "k_socket b = None"
      "k_closed b = k_closed c @ [?n]" "k_nextSocket b = ?n + 1" "same_setup c b"
      using b st(1) no by (simp_all add: close_socket_def same_setup_def)
    obtain c' where c': "retry b = Ret c'" "connector_ok c'" "k_state c' = K_Disconnected" using retry_ok [OF t(2) fields(4,5) t(3,1)] by blast
    moreover have "same_setup b c'" "k_started c'" "k_closed c' = k_closed b" "k_nextSocket c' = k_nextSocket b"
      "k_armed c' = [(k_retryTimerId c', k_retryDelayMs b)]" "k_retryDelayMs c' = min (k_retryDelayMs b * 2) (k_maxRetryDelayMs b)"
      using retry_arms [of b] fields(1-3) d t(1) c'(1) by auto
    ultimately show ?thesis using fields by (auto simp: backing_off_def same_setup_def)
  qed
  have start: "startInLoop okr err c = connector_connect okr err c" using st by (simp add: startInLoop_def)
  have go: "connector_connect okr err c = Ret (connecting ?n ?c)" if "under_way (okr, err)"
    using that by (auto simp: connector_connect_def Let_def under_way_def)
  have removed: "removeAndResetChannelRaw (connecting ?n ?c) = (Some ?n, ?c\<lparr>k_state := K_Connecting, k_jobs := j @ [Job_delete_channel]\<rparr>)"
    using no by (simp add: removeAndResetChannelRaw_def connecting_def j_def)
  show ?thesis
  proof (cases f)
    case (At_once o' e')
    have "close_socket ?n ?c = close_socket ?n (?c\<lparr>k_state := K_Disconnected, k_jobs := j\<rparr>)" using st(2) by (simp add: close_socket_def j_def)
    moreover have "connector_connect okr err c = retry (close_socket ?n ?c)"
      using At_once f r by (auto simp: connector_connect_def Let_def isRetryableConnectError_def isInProgressError_def)
    ultimately show ?thesis using arm [where b = "close_socket ?n ?c" and st' = K_Disconnected and js = j] start At_once by auto
  next
    case (On_write o' e' e)
    then have "obind (startInLoop okr err c) (fail_later f) = retry (close_socket ?n (?c\<lparr>k_state := K_Connecting, k_jobs := j @ [Job_delete_channel]\<rparr>))"
      using f r start go removed by (simp add: connector_handleWrite_def close_socket_def) (simp add: connecting_def)
    then show ?thesis using arm [OF refl] by simp
  next
    case (On_self o' e')
    then have "obind (startInLoop okr err c) (fail_later f) = retry (close_socket ?n (?c\<lparr>k_state := K_Connecting, k_jobs := j @ [Job_delete_channel]\<rparr>))"
      using f r start go removed by (simp add: connector_handleWrite_def close_socket_def) (simp add: connecting_def)
    then show ?thesis using arm [OF refl] by simp
  next
    case (On_error o' e')
    then have "obind (startInLoop okr err c) (fail_later f) = retry (close_socket ?n (?c\<lparr>k_state := K_Connecting, k_jobs := j @ [Job_delete_channel]\<rparr>))"
      using f r start go removed by (simp add: connector_handleError_def close_removed_def close_socket_def) (simp add: connecting_def)
    then show ?thesis using arm [OF refl] by simp
  qed
qed

lemma upt_front: "[n] @ [n + 1..<n + 1 + k] = [n..<n + Suc k]"
  using upt_conv_Cons [of n "n + Suc k"] by (simp del: upt_Suc)

lemma min_doubles: "min (min (d * 2) m * 2 ^ n) m = min (d * 2 ^ Suc n) m" if "0 < m" for d m :: int
proof (cases "d * 2 \<le> m")
  case False
  have a: "m \<le> m * 2 ^ n" using mult_left_mono [of 1 "2 ^ n" m] that by simp
  have b: "m * 2 ^ n \<le> d * (2 * 2 ^ n)" using mult_right_mono [of m "d * 2" "2 ^ n"] False by (simp add: mult.assoc)
  have "min (d * 2) m = m" using False by simp
  then show ?thesis using min_absorb2 [OF a] min_absorb2 [OF order_trans [OF a b]] by simp
qed (simp add: mult.assoc)

lemma timer_fires:
  assumes "backing_off d e c"
  shows "run_timer (k_retryTimerId c) ok err c = startInLoop ok err (c\<lparr>k_armed := []\<rparr>)" and "connector_ok (c\<lparr>k_armed := []\<rparr>)"
  using assms by (auto simp: backing_off_def run_timer_def connector_ok_def sockets_ok_def attempt_ok_def delays_ok_def timer_ok_def)

lemma failed_retries_ok:
  assumes "backing_off d (min (d * 2) m) c" "\<forall>f \<in> set fs. failure_ok f" "k_maxRetryDelayMs c = m" "0 < d" "d \<le> m"
  shows "\<exists>c'. failed_retries fs c = Ret c' \<and> backing_off (min (d * 2 ^ length fs) m) (min (d * 2 ^ Suc (length fs)) m) c' \<and> same_setup c c' \<and>
    k_closed c' = k_closed c @ [k_nextSocket c..<k_nextSocket c + length fs] \<and> k_nextSocket c' = k_nextSocket c + length fs"
  using assms
proof (induction fs arbitrary: c d)
  case Nil
  then show ?case by (auto simp: same_setup_def min_absorb1 mult.commute)
next
  case (Cons f fs)
  obtain ok err where r: "attempt_ret f = (ok, err)" by (cases "attempt_ret f")
  let ?c = "c\<lparr>k_armed := []\<rparr>"
  have st: "k_started ?c" "k_state ?c = K_Disconnected" "k_retryDelayMs ?c = min (d * 2) m" using Cons.prems(1) by (simp_all add: backing_off_def)
  obtain c1 where c1: "obind (startInLoop ok err ?c) (fail_later f) = Ret c1" "backing_off (min (d * 2) m) (min (min (d * 2) m * 2) m) c1"
    "same_setup ?c c1" "k_closed c1 = k_closed c @ [k_nextSocket c]" "k_nextSocket c1 = k_nextSocket c + 1"
    using failed_attempt [OF timer_fires(2) [OF Cons.prems(1)] st(1,2) _ r] Cons.prems(2,3) st(3) by auto
  have m: "k_maxRetryDelayMs c1 = m" "0 < min (d * 2) m" "min (d * 2) m \<le> m" using c1(3) Cons.prems(3-5) by (auto simp: same_setup_def)
  have fs: "\<forall>f \<in> set fs. failure_ok f" using Cons.prems(2) by simp
  obtain c' where c': "failed_retries fs c1 = Ret c'" "backing_off (min (min (d * 2) m * 2 ^ length fs) m) (min (min (d * 2) m * 2 ^ Suc (length fs)) m) c'"
    "same_setup c1 c'" "k_closed c' = k_closed c1 @ [k_nextSocket c1..<k_nextSocket c1 + length fs]" "k_nextSocket c' = k_nextSocket c1 + length fs"
    using Cons.IH [OF c1(2) fs m] by blast
  have "failed_retries (f # fs) c = Ret c'" using r c1(1) c'(1) timer_fires(1) [OF Cons.prems(1)] by simp
  moreover have "backing_off (min (d * 2 ^ length (f # fs)) m) (min (d * 2 ^ Suc (length (f # fs))) m) c'"
    using c'(2) min_doubles [of m d "length fs"] min_doubles [of m d "Suc (length fs)"] Cons.prems(4,5) by (metis length_Cons order_less_le_trans)
  moreover have "[k_nextSocket c] @ [k_nextSocket c + 1..<k_nextSocket c + 1 + length fs] = [k_nextSocket c..<k_nextSocket c + length (f # fs)]"
    using upt_front [of "k_nextSocket c" "length fs"] by (simp del: upt_Suc)
  ultimately show ?case using c'(3-5) c1(3-5) by (simp add: same_setup_def del: upt_Suc failed_retries.simps)
qed

text \<open>
  C40: Delays double up to the maximum. Take any connector that is between attempts, after any calls and kernel reports in which no restart came while an attempt was under way; set its delays, with a maximum of at most 2^30 milliseconds, and start it.
  When the first attempt and \<open>n\<close> more fail, each in any of the ways that are tried again, with every attempt after the first one begun by the retry timer: no function throws or
  overflows, the socket of every attempt is closed, in order, the one timer is armed, and its delay is the first delay times 2^n or the maximum, whichever is smaller. When
  the next attempt succeeds, its socket is handed to the callback and the delay is the first one again.
\<close>

theorem connector_backoff:
  assumes "(k_step False)\<^sup>*\<^sup>* connector_new c" "k_state c = K_Disconnected" "initial \<le> 2 ^ 30" "maximum \<le> 2 ^ 30"
    and "\<forall>f \<in> set (first # fs). failure_ok f" and "under_way (ok, err)" and "i = max 1 initial" and "m = max i maximum"
  shows "\<exists>c1. obind (failed_start first (setRetryDelayMs initial maximum c)) (failed_retries fs) = Ret c1 \<and>
    k_armed c1 = [(k_retryTimerId c1, min (i * 2 ^ length fs) m)] \<and>
    k_closed c1 = k_closed c @ [k_nextSocket c..<k_nextSocket c + Suc (length fs)] \<and>
    (\<exists>c2. obind (run_timer (k_retryTimerId c1) ok err c1) (connector_handleWrite 0 False) = Ret c2 \<and> k_state c2 = K_Connected \<and> k_retryDelayMs c2 = i \<and>
       (k_callback c \<longrightarrow> k_handed c2 = k_handed c @ [k_nextSocket c1] \<and> k_closed c2 = k_closed c1))"
proof -
  let ?c = "setRetryDelayMs initial maximum c" and ?s = "(setRetryDelayMs initial maximum c)\<lparr>k_started := True\<rparr>"
  have "connector_ok c" using connectors.reach_inv [OF assms(1) connector_new_ok] .
  then have "connector_ok ?c" by (rule connector_step [OF k_step.configure [OF assms(4,3)]])
  then have ok: "connector_ok ?s" by (simp add: connector_ok_def sockets_ok_def attempt_ok_def delays_ok_def timer_ok_def)
  have s: "k_started ?s" "k_state ?s = K_Disconnected" "k_retryDelayMs ?s = i" "k_maxRetryDelayMs ?s = m" "k_initialRetryDelayMs ?s = i" "k_callback ?s = k_callback c"
    "k_handed ?s = k_handed c" "k_closed ?s = k_closed c" "k_nextSocket ?s = k_nextSocket c"
    using assms(2,7,8) by (auto simp: setRetryDelayMs_def Let_def max_def)
  have im: "0 < i" "i \<le> m" using assms(7,8) by auto
  obtain okr e where r: "attempt_ret first = (okr, e)" by (cases "attempt_ret first")
  obtain c0 where c0: "failed_start first ?c = Ret c0" "backing_off i (min (i * 2) m) c0" "same_setup ?s c0" "k_closed c0 = k_closed c @ [k_nextSocket c]"
    "k_nextSocket c0 = k_nextSocket c + 1"
    using failed_attempt [OF ok s(1,2) _ r] assms(5) s r by (auto simp: failed_start_def connector_start_def)
  obtain c1 where c1: "failed_retries fs c0 = Ret c1" "backing_off (min (i * 2 ^ length fs) m) (min (i * 2 ^ Suc (length fs)) m) c1" "same_setup c0 c1"
    "k_closed c1 = k_closed c0 @ [k_nextSocket c0..<k_nextSocket c0 + length fs]" "k_nextSocket c1 = k_nextSocket c0 + length fs"
    using failed_retries_ok [OF c0(2) _ _ im, of fs] assms(5) c0(3) s(4) by (auto simp: same_setup_def)
  have idle: "\<not> k_channel c1" "k_started c1" "k_state c1 = K_Disconnected" using c1(2) by (auto simp: backing_off_def connector_ok_def attempt_ok_def)
  have kept: "k_initialRetryDelayMs c1 = i" "k_callback c1 = k_callback c" "k_handed c1 = k_handed c" using c0(3) c1(3) s by (simp_all add: same_setup_def)
  have "\<exists>c2. obind (run_timer (k_retryTimerId c1) ok err c1) (connector_handleWrite 0 False) = Ret c2 \<and> k_state c2 = K_Connected \<and> k_retryDelayMs c2 = i \<and>
      (k_callback c \<longrightarrow> k_handed c2 = k_handed c @ [k_nextSocket c1] \<and> k_closed c2 = k_closed c1)"
    using idle kept assms(6) timer_fires(1) [OF c1(2), of ok err]
    by (auto simp: startInLoop_def connector_connect_def under_way_def connecting_def connector_handleWrite_def removeAndResetChannelRaw_def close_socket_def Let_def)
  moreover have "k_closed c1 = k_closed c @ [k_nextSocket c..<k_nextSocket c + Suc (length fs)]" using c0(4,5) c1(4) upt_front [of "k_nextSocket c" "length fs"] by (simp del: upt_Suc)
  moreover have "obind (failed_start first ?c) (failed_retries fs) = Ret c1" using c0(1) c1(1) by simp
  moreover have "k_armed c1 = [(k_retryTimerId c1, min (i * 2 ^ length fs) m)]" using c1(2) by (simp add: backing_off_def)
  ultimately show ?thesis by blast
qed

theorem connector_backoff_witness:
  "\<exists>c1. obind (failed_start (At_once False 111) (setRetryDelayMs 100 1000 connector_new)) (failed_retries [On_write False 115 111, On_self True 0, On_error False 115, At_once False 110]) = Ret c1 \<and>
     k_armed c1 = [(k_retryTimerId c1, 1000)] \<and> k_closed c1 = [0, 1, 2, 3, 4]"
proof -
  let ?fs = "[On_write False 115 111, On_self True 0, On_error False 115, At_once False 110]"
  have "k_state connector_new = K_Disconnected" "\<forall>f \<in> set (At_once False 111 # ?fs). failure_ok f" "under_way (False, 115)"
    "k_closed connector_new = []" "k_nextSocket connector_new = 0"
    by (simp_all add: connector_new_def mk_Connector_def under_way_def isInProgressError_def isRetryableConnectError_def)
  moreover have "(100::int) \<le> 2 ^ 30" "(1000::int) \<le> 2 ^ 30" by simp_all
  moreover have "[0..<5] = [0, 1, 2, 3, 4]" by (simp add: upt_rec)
  ultimately show ?thesis
    using connector_backoff [OF rtranclp.rtrancl_refl, of 100 1000 "At_once False 111" ?fs False 115 100 1000] by auto
qed

text \<open>\<^verbatim>\<open>restart\<close> while an attempt is under way: the second attempt overwrites the socket of the first one, which is never closed.\<close>

definition demo_leaked :: Connector where
  "demo_leaked = ret_val (run_job False 115 (connector_restart demo_pending))"

lemma restart_leaks_socket:
  "(k_step True)\<^sup>*\<^sup>* connector_new demo_leaked \<and> k_nextSocket demo_leaked = 3 \<and> k_socket demo_leaked = Some 2 \<and>
   k_closed demo_leaked = [0] \<and> k_handed demo_leaked = [] \<and> k_jobs demo_leaked = []"
proof -
  have "k_step True demo_pending (connector_restart demo_pending)" by (rule k_step.restart)
  moreover have "k_step True (connector_restart demo_pending) demo_leaked"
    by (rule k_step.job [of False 115]) (simp_all add: demo_leaked_def k_demo)
  ultimately have "(k_step True)\<^sup>*\<^sup>* connector_new demo_leaked" using demo_pending_reached by (meson rtranclp.rtrancl_into_rtrancl)
  then show ?thesis by (simp add: demo_leaked_def k_demo)
qed

text \<open>Doubling overflows when the maximum is above 2^30 milliseconds.\<close>

lemma retry_delay_overflows: "retry (demo_refused\<lparr>k_retryDelayMs := 2 ^ 30 + 1, k_maxRetryDelayMs := 2 ^ 31 - 1\<rparr>) = Undef"
  by (simp add: k_demo)

end
