(* ===== verification/TcpClient.thy ===== *)
theory TcpClient
  imports Connector
begin

text \<open>
  \<^verbatim>\<open>dbase::net::TcpClient\<close> (\<^verbatim>\<open>code/src/net/tcp_client.cpp\<close>): a connector and the connection it has made. A connection is named by
  its socket; the calls the client makes on it are recorded. All members are called in the thread of the loop. The keep-alive
  check is a decision on the times the connection reports, in milliseconds.
\<close>

section \<open>State and operations\<close>

datatype conn_call = Call_established nat | Call_shutdown nat | Call_forceClose nat | Call_destroyed nat | Call_idle nat | Call_heartbeat nat

record TcpClient =
  tc_connector :: Connector
  tc_connectRequested :: bool
  tc_retry :: bool
  tc_connection :: "nat option"
  tc_heartbeatInterval :: int
  tc_idleTimeout :: int
  tc_idleCallback :: bool
  tc_heartbeatCallback :: bool
  tc_keepAlive :: "int option"
  tc_dropped :: "nat list"
  tc_calls :: "conn_call list"

definition mk_TcpClient :: "bool \<Rightarrow> TcpClient outcome" where
  "mk_TcpClient loop =
     obind (mk_Connector loop) (\<lambda>k. Ret \<lparr>tc_connector = setNewConnectionCallback k, tc_connectRequested = False, tc_retry = False,
       tc_connection = None, tc_heartbeatInterval = 0, tc_idleTimeout = 0, tc_idleCallback = False, tc_heartbeatCallback = False,
       tc_keepAlive = None, tc_dropped = [], tc_calls = []\<rparr>)"

definition enableRetry :: "bool \<Rightarrow> TcpClient \<Rightarrow> TcpClient" where
  "enableRetry on c = c\<lparr>tc_retry := on\<rparr>"

definition setHeartbeatInterval :: "int \<Rightarrow> TcpClient \<Rightarrow> TcpClient" where
  "setHeartbeatInterval interval c = c\<lparr>tc_heartbeatInterval := interval\<rparr>"

definition setIdleTimeout :: "int \<Rightarrow> TcpClient \<Rightarrow> TcpClient" where
  "setIdleTimeout timeout c = c\<lparr>tc_idleTimeout := timeout\<rparr>"

definition baseInterval :: "TcpClient \<Rightarrow> int" where
  "baseInterval c =
     (if tc_idleTimeout c > 0 \<and> tc_heartbeatInterval c > 0 then min (max 1000 (tc_idleTimeout c div 2)) (tc_heartbeatInterval c)
      else if tc_idleTimeout c > 0 then max 1000 (tc_idleTimeout c div 2)
      else if tc_heartbeatInterval c > 0 then tc_heartbeatInterval c
      else 0)"

definition startKeepAliveCheck :: "TcpClient \<Rightarrow> TcpClient" where
  "startKeepAliveCheck c =
     (if tc_keepAlive c \<noteq> None then c
      else if baseInterval c \<le> 0 then c
      else c\<lparr>tc_keepAlive := Some (baseInterval c)\<rparr>)"

definition stopKeepAliveCheck :: "TcpClient \<Rightarrow> TcpClient" where
  "stopKeepAliveCheck c = c\<lparr>tc_keepAlive := None\<rparr>"

definition conn_call :: "conn_call \<Rightarrow> TcpClient \<Rightarrow> TcpClient" where
  "conn_call a c = c\<lparr>tc_calls := tc_calls c @ [a]\<rparr>"

text \<open>\<open>idle\<close> and \<open>probeIdle\<close> are what \<^verbatim>\<open>idleFor\<close> and \<^verbatim>\<open>probeIdleFor\<close> report, the latter \<open>None\<close> before the first probe.\<close>

definition checkKeepAlive :: "bool \<Rightarrow> int \<Rightarrow> int option \<Rightarrow> TcpClient \<Rightarrow> TcpClient" where
  "checkKeepAlive connected idle probeIdle c =
     (case tc_connection c of
        None \<Rightarrow> c
      | Some s \<Rightarrow>
          if \<not> connected then c
          else if tc_idleTimeout c > 0 \<and> idle \<ge> tc_idleTimeout c
          then conn_call (if tc_idleCallback c then Call_idle s else Call_forceClose s) c
          else if tc_heartbeatInterval c > 0 \<and> tc_heartbeatCallback c
          then let neverProbed = (probeIdle = None);
                   probeExpired = (case probeIdle of None \<Rightarrow> False | Some p \<Rightarrow> p \<ge> tc_heartbeatInterval c)
               in if idle \<ge> tc_heartbeatInterval c \<and> (neverProbed \<or> probeExpired) then conn_call (Call_heartbeat s) c else c
          else c)"

definition on_connector :: "(Connector \<Rightarrow> Connector outcome) \<Rightarrow> TcpClient \<Rightarrow> TcpClient outcome" where
  "on_connector f c = obind (f (tc_connector c)) (\<lambda>k. Ret (c\<lparr>tc_connector := k\<rparr>))"

definition client_connect :: "bool \<Rightarrow> int \<Rightarrow> TcpClient \<Rightarrow> TcpClient outcome" where
  "client_connect ok err c = on_connector (connector_start ok err) (startKeepAliveCheck (c\<lparr>tc_connectRequested := True\<rparr>))"

definition client_disconnect :: "TcpClient \<Rightarrow> TcpClient" where
  "client_disconnect c =
     (let c = c\<lparr>tc_connectRequested := False\<rparr>
      in case tc_connection c of
           Some s \<Rightarrow> conn_call (Call_shutdown s) c
         | None \<Rightarrow> c\<lparr>tc_connector := connector_stop (tc_connector c)\<rparr>)"

definition client_stop :: "TcpClient \<Rightarrow> TcpClient" where
  "client_stop c =
     (let c = stopKeepAliveCheck (c\<lparr>tc_connectRequested := False\<rparr>);
          c = c\<lparr>tc_connector := connector_stop (tc_connector c)\<rparr>
      in case tc_connection c of Some s \<Rightarrow> conn_call (Call_forceClose s) c | None \<Rightarrow> c)"

definition newConnection :: "nat \<Rightarrow> TcpClient \<Rightarrow> TcpClient" where
  "newConnection sock c =
     (if \<not> tc_connectRequested c then c\<lparr>tc_dropped := tc_dropped c @ [sock]\<rparr>
      else conn_call (Call_established sock) (c\<lparr>tc_connection := Some sock\<rparr>))"

definition removeConnection :: "nat \<Rightarrow> TcpClient \<Rightarrow> TcpClient" where
  "removeConnection conn c =
     (let c = (if tc_connection c = Some conn then c\<lparr>tc_connection := None\<rparr> else c);
          c = conn_call (Call_destroyed conn) c
      in if tc_retry c \<and> tc_connectRequested c then c\<lparr>tc_connector := connector_restart (tc_connector c)\<rparr> else c)"

text \<open>The connector's channel becomes writable: a socket it hands over goes to \<^verbatim>\<open>newConnection\<close>.\<close>

definition client_writable :: "int \<Rightarrow> bool \<Rightarrow> TcpClient \<Rightarrow> TcpClient outcome" where
  "client_writable err selfConnect c =
     obind (on_connector (connector_handleWrite err selfConnect) c) (\<lambda>c'.
       Ret (if length (k_handed (tc_connector c')) > length (k_handed (tc_connector c))
            then newConnection (last (k_handed (tc_connector c'))) c' else c'))"

section \<open>Steps\<close>

inductive tc_step :: "TcpClient \<Rightarrow> TcpClient \<Rightarrow> bool" where
  connect: "client_connect ok err c = Ret c' \<Longrightarrow> tc_step c c'"
| disconnect: "tc_step c (client_disconnect c)"
| stop: "tc_step c (client_stop c)"
| retry: "tc_step c (enableRetry on c)"
| configure: "max_ms \<le> 2 ^ 30 \<Longrightarrow> initial_ms \<le> 2 ^ 30 \<Longrightarrow> tc_step c (c\<lparr>tc_connector := setRetryDelayMs initial_ms max_ms (tc_connector c)\<rparr>)"
| keep_alive: "tc_step c (checkKeepAlive connected idle probeIdle c)"
| writable: "k_channel (tc_connector c) \<Longrightarrow> client_writable err selfConnect c = Ret c' \<Longrightarrow> tc_step c c'"
| error: "k_channel (tc_connector c) \<Longrightarrow> on_connector connector_handleError c = Ret c' \<Longrightarrow> tc_step c c'"
| job: "k_jobs (tc_connector c) \<noteq> [] \<Longrightarrow> on_connector (run_job ok err) c = Ret c' \<Longrightarrow> tc_step c c'"
| timer: "i \<in> fst ` set (k_armed (tc_connector c)) \<Longrightarrow> on_connector (run_timer i ok err) c = Ret c' \<Longrightarrow> tc_step c c'"
| closed: "tc_connection c = Some s \<Longrightarrow> tc_step c (removeConnection s c)"

section \<open>One connection at a time\<close>

definition restarts :: "Connector \<Rightarrow> nat" where
  "restarts k = length (filter (\<lambda>j. j = Job_restart) (k_jobs k))"

text \<open>
  A connection exists only while the connector has nothing to do, and a restart is queued only when there is none; so restarts never meet an
  attempt that is under way.
\<close>

definition client_ok :: "TcpClient \<Rightarrow> bool" where
  "client_ok c \<longleftrightarrow> connector_ok (tc_connector c) \<and>
     restarts (tc_connector c) + (if tc_connection c = None then 0 else 1) \<le> 1 \<and>
     (restarts (tc_connector c) > 0 \<or> tc_connection c \<noteq> None \<longrightarrow> k_state (tc_connector c) = K_Connected)"

lemma retry_restarts: "retry k = Ret k' \<Longrightarrow> restarts k' = restarts k"
  by (auto simp: retry_def Let_def restarts_def split: if_splits)

lemma connect_restarts: "connector_connect ok err k = Ret k' \<Longrightarrow> restarts k' = restarts k"
  by (auto simp: connector_connect_def connecting_def close_socket_def Let_def restarts_def dest!: retry_restarts split: if_splits)

lemma startInLoop_restarts: "startInLoop ok err k = Ret k' \<Longrightarrow> restarts k' = restarts k \<and> (k_state k = K_Connected \<longrightarrow> k' = k)"
  by (auto simp: startInLoop_def dest: connect_restarts split: if_splits)

lemma removed_restarts: "removeAndResetChannelRaw k = (sock, k') \<Longrightarrow> restarts k' = restarts k"
  by (auto simp: removeAndResetChannelRaw_def restarts_def Let_def)

lemma close_removed_restarts: "restarts (close_removed k) = restarts k"
  by (auto simp: close_removed_def close_socket_def restarts_def removeAndResetChannelRaw_def Let_def split: option.split)

lemma stopInLoop_restarts: "connector_ok k \<Longrightarrow> restarts (stopInLoop k) = restarts k \<and> (k_state k = K_Connected \<longrightarrow> k_state (stopInLoop k) = K_Connected)"
  using close_removed_restarts [of "k\<lparr>k_started := False\<rparr>"]
  by (auto simp: stopInLoop_def Let_def restarts_def connector_ok_def attempt_ok_def)

lemma handleWrite_restarts: "connector_handleWrite err selfConnect k = Ret k' \<Longrightarrow> restarts k' = restarts k"
  by (auto simp: connector_handleWrite_def restarts_def close_socket_def Let_def dest!: retry_restarts removed_restarts split: if_splits option.splits prod.splits)

lemma handleError_restarts: "connector_handleError k = Ret k' \<Longrightarrow> restarts k' = restarts k"
  by (auto simp: connector_handleError_def close_removed_restarts dest!: retry_restarts split: if_splits)

lemma handed_connected:
  "connector_handleWrite err selfConnect k = Ret k' \<Longrightarrow> length (k_handed k') > length (k_handed k) \<Longrightarrow> k_state k' = K_Connected"
proof -
  have r: "k_handed k2 = k_handed k1" if "retry k1 = Ret k2" for k1 k2 using that by (auto simp: retry_def Let_def split: if_splits)
  assume "connector_handleWrite err selfConnect k = Ret k'" "length (k_handed k') > length (k_handed k)"
  then show ?thesis
    by (auto simp: connector_handleWrite_def removeAndResetChannelRaw_def close_socket_def Let_def dest!: r split: if_splits option.splits)
qed

lemma start_connector: "connector_start ok err k = Ret k' \<Longrightarrow> k_step False k k'"
  by (rule k_step.start)

lemma client_okI:
  assumes "client_ok c" "k_step False (tc_connector c) (tc_connector c')" "restarts (tc_connector c') \<le> restarts (tc_connector c)"
    and "k_state (tc_connector c) = K_Connected \<Longrightarrow> k_state (tc_connector c') = K_Connected \<or> restarts (tc_connector c') = 0 \<and> tc_connection c = None"
    and "tc_connection c' = tc_connection c"
  shows "client_ok c'"
  using assms connector_step [OF assms(2)] by (auto simp: client_ok_def split: if_splits)

lemma client_step: "tc_step c c' \<Longrightarrow> client_ok c \<Longrightarrow> client_ok c'"
proof (induction rule: tc_step.induct)
  case (connect ok err c c')
  let ?c = "startKeepAliveCheck (c\<lparr>tc_connectRequested := True\<rparr>)" and ?k = "tc_connector c\<lparr>k_started := True\<rparr>"
  have same: "tc_connector ?c = tc_connector c" "tc_connection ?c = tc_connection c" by (simp_all add: startKeepAliveCheck_def)
  obtain k where k: "connector_start ok err (tc_connector c) = Ret k" "c' = ?c\<lparr>tc_connector := k\<rparr>"
    using connect(1) same by (cases "connector_start ok err (tc_connector c)") (auto simp: client_connect_def on_connector_def)
  have "restarts k = restarts (tc_connector c) \<and> (k_state (tc_connector c) = K_Connected \<longrightarrow> k_state k = K_Connected)"
    using startInLoop_restarts [of ok err ?k k] k(1) by (auto simp: connector_start_def restarts_def)
  then show ?case using start_connector [OF k(1)] k(2) same by (intro client_okI [OF connect(2)]) simp_all
next
  case (disconnect c)
  then show ?case using connector_step [OF k_step.stop [of False "tc_connector c"]]
    by (auto simp: client_disconnect_def client_ok_def conn_call_def Let_def connector_stop_def restarts_def split: option.split if_splits)
next
  case (stop c)
  then show ?case using connector_step [OF k_step.stop [of False "tc_connector c"]]
    by (auto simp: client_stop_def stopKeepAliveCheck_def client_ok_def conn_call_def Let_def connector_stop_def restarts_def split: option.split if_splits)
next
  case (configure m i c)
  have "k_step False (tc_connector c) (setRetryDelayMs i m (tc_connector c))" using configure(1,2) by (rule k_step.configure)
  moreover have "restarts (setRetryDelayMs i m (tc_connector c)) = restarts (tc_connector c)"
    "k_state (setRetryDelayMs i m (tc_connector c)) = k_state (tc_connector c)" by (simp_all add: setRetryDelayMs_def Let_def restarts_def)
  ultimately show ?case by (intro client_okI [OF configure(3)]) simp_all
next
  case (keep_alive c connected idle p)
  have "tc_connector (checkKeepAlive connected idle p c) = tc_connector c" "tc_connection (checkKeepAlive connected idle p c) = tc_connection c"
    by (auto simp: checkKeepAlive_def conn_call_def Let_def split: option.split)
  then show ?case using keep_alive by (simp add: client_ok_def)
next
  case (writable c err selfConnect c')
  obtain k where k: "connector_handleWrite err selfConnect (tc_connector c) = Ret k"
    "c' = (if length (k_handed k) > length (k_handed (tc_connector c)) then newConnection (last (k_handed k)) (c\<lparr>tc_connector := k\<rparr>) else c\<lparr>tc_connector := k\<rparr>)"
    using writable(2) by (cases "connector_handleWrite err selfConnect (tc_connector c)") (auto simp: client_writable_def on_connector_def)
  have idle: "k_state (tc_connector c) = K_Connecting" using writable(1,3) by (auto simp: client_ok_def connector_ok_def attempt_ok_def)
  have "connector_ok k" using connector_step [OF k_step.writable [OF writable(1) k(1)]] writable(3) by (simp add: client_ok_def)
  moreover have "restarts k = 0" using handleWrite_restarts [OF k(1)] idle writable(3) by (auto simp: client_ok_def)
  moreover have "tc_connection c = None" using idle writable(3) by (auto simp: client_ok_def)
  ultimately show ?case using handed_connected [OF k(1)] k(2) by (auto simp: client_ok_def newConnection_def conn_call_def)
next
  case (error c c')
  obtain k where k: "connector_handleError (tc_connector c) = Ret k" "c' = c\<lparr>tc_connector := k\<rparr>"
    using error(2) by (cases "connector_handleError (tc_connector c)") (auto simp: on_connector_def)
  have "k_state (tc_connector c) = K_Connecting" using error(1,3) by (auto simp: client_ok_def connector_ok_def attempt_ok_def)
  then show ?case using handleError_restarts [OF k(1)] k k_step.error [OF error(1) k(1)] by (intro client_okI [OF error(3)]) auto
next
  case (timer i c ok err c')
  obtain k where k: "run_timer i ok err (tc_connector c) = Ret k" "c' = c\<lparr>tc_connector := k\<rparr>"
    using timer(2) by (cases "run_timer i ok err (tc_connector c)") (auto simp: on_connector_def)
  have "restarts k = restarts (tc_connector c) \<and> (k_state (tc_connector c) = K_Connected \<longrightarrow> k_state k = K_Connected)"
    using startInLoop_restarts [of ok err _ k] k(1) by (fastforce simp: run_timer_def restarts_def)
  then show ?case using k k_step.timer [OF timer(1) k(1)] by (intro client_okI [OF timer(3)]) auto
next
  case (job c ok err c')
  obtain k where k: "run_job ok err (tc_connector c) = Ret k" "c' = c\<lparr>tc_connector := k\<rparr>"
    using job(2) by (cases "run_job ok err (tc_connector c)") (auto simp: on_connector_def)
  obtain j js where j: "k_jobs (tc_connector c) = j # js" using job(1) by (cases "k_jobs (tc_connector c)") auto
  have free: "j \<noteq> Job_restart \<or> k_state (tc_connector c) \<noteq> K_Connecting" using job(3) j by (auto simp: client_ok_def restarts_def)
  have r: "restarts k \<le> restarts (tc_connector c) \<and>
      (k_state (tc_connector c) = K_Connected \<longrightarrow> k_state k = K_Connected \<or> restarts k = 0 \<and> tc_connection c = None)"
  proof (cases j)
    case Job_stop
    have "connector_ok (tc_connector c\<lparr>k_jobs := js\<rparr>)" using job(3) by (simp add: client_ok_def connector_ok_def sockets_ok_def attempt_ok_def delays_ok_def timer_ok_def)
    from stopInLoop_restarts [OF this] show ?thesis using k(1) j Job_stop by (auto simp: run_job_def restarts_def)
  next
    case Job_restart
    then have "startInLoop ok err (tc_connector c\<lparr>k_jobs := js, k_state := K_Disconnected\<rparr>) = Ret k" using k(1) j by (simp add: run_job_def)
    from startInLoop_restarts [OF this] have "restarts k = length (filter (\<lambda>j. j = Job_restart) js)" by (simp add: restarts_def)
    then show ?thesis using job(3) j Job_restart by (auto simp: client_ok_def restarts_def split: if_splits)
  qed (use k(1) j in \<open>auto simp: run_job_def restarts_def\<close>)
  show ?case using r k k_step.job [OF k(1) j] free by (intro client_okI [OF job(3)]) auto
next
  case (closed c s)
  then show ?case using connector_step [OF k_step.restart [of False "tc_connector c"]]
    by (auto simp: removeConnection_def client_ok_def conn_call_def Let_def connector_restart_def restarts_def)
qed (auto simp: client_ok_def enableRetry_def)

interpretation clients: step_machine tc_step client_ok
  by unfold_locales (rule client_step)

section \<open>Properties\<close>

definition client_new :: TcpClient where
  "client_new = ret_val (mk_TcpClient True)"

lemma client_new_ok: "client_ok client_new"
  by (simp add: client_new_def mk_TcpClient_def mk_Connector_def setNewConnectionCallback_def client_ok_def restarts_def connector_ok_def sockets_ok_def
      attempt_ok_def delays_ok_def timer_ok_def)

text \<open>The client connects, the connection is closed by \<^verbatim>\<open>disconnect\<close>, and the client is told to connect again.\<close>

definition demo_trying :: TcpClient where
  "demo_trying = ret_val (client_connect True 0 client_new)"

definition demo_open :: TcpClient where
  "demo_open = ret_val (on_connector (run_job True 0) (ret_val (client_writable 0 False demo_trying)))"

definition demo_closed :: TcpClient where
  "demo_closed = removeConnection 0 (client_disconnect demo_open)"

definition demo_reconnect :: TcpClient where
  "demo_reconnect = ret_val (client_connect True 0 demo_closed)"

lemmas tc_eval = client_new_def mk_TcpClient_def demo_trying_def demo_open_def demo_closed_def demo_reconnect_def client_connect_def on_connector_def
  startKeepAliveCheck_def baseInterval_def client_writable_def newConnection_def conn_call_def client_disconnect_def removeConnection_def k_eval

lemma demo_open_reached: "tc_step\<^sup>*\<^sup>* client_new demo_open"
proof -
  let ?c = "ret_val (client_writable 0 False demo_trying)"
  have "tc_step client_new demo_trying" by (rule tc_step.connect [of True 0]) (simp add: tc_eval)
  moreover have "tc_step demo_trying ?c" by (rule tc_step.writable [of _ 0 False]) (simp_all add: tc_eval)
  moreover have "tc_step ?c demo_open" by (rule tc_step.job [of _ True 0]) (simp_all add: tc_eval)
  ultimately show ?thesis by (meson rtranclp_trans r_into_rtranclp)
qed

text \<open>
  C6: A client has one connection at most and loses no socket. In every sequence of calls, kernel reports, closings and retries, each socket the connector
  opened is exactly once held, closed or handed to the client, a connection exists only while the connector is idle, and no restart is
  queued then.
\<close>

theorem tcp_client_one_connection:
  assumes "tc_step\<^sup>*\<^sup>* client_new c"
  shows "distinct (k_closed (tc_connector c) @ k_handed (tc_connector c)) \<and>
    set (k_closed (tc_connector c) @ k_handed (tc_connector c)) =
      {0..<k_nextSocket (tc_connector c)} - (case k_socket (tc_connector c) of None \<Rightarrow> {} | Some s \<Rightarrow> {s}) \<and>
    (tc_connection c \<noteq> None \<longrightarrow> k_state (tc_connector c) = K_Connected \<and> k_socket (tc_connector c) = None \<and> Job_restart \<notin> set (k_jobs (tc_connector c)))"
proof -
  have ok: "client_ok c" using clients.reach_inv [OF assms client_new_ok] .
  let ?k = "tc_connector c"
  let ?held = "case k_socket ?k of None \<Rightarrow> [] | Some s \<Rightarrow> [s]"
  have k: "connector_ok ?k" using ok by (simp add: client_ok_def)
  have m: "mset (k_closed ?k @ k_handed ?k @ ?held) = mset [0..<k_nextSocket ?k]" using k by (simp add: connector_ok_def sockets_ok_def)
  have "distinct (k_closed ?k @ k_handed ?k @ ?held)" using mset_eq_imp_distinct_iff [OF m] by simp
  moreover have "set (k_closed ?k @ k_handed ?k @ ?held) = {0..<k_nextSocket ?k}" using mset_eq_setD [OF m] by simp
  ultimately show ?thesis using ok k by (auto simp: client_ok_def connector_ok_def attempt_ok_def restarts_def filter_empty_conv split: option.splits)
qed

theorem tcp_client_one_connection_witness:
  "tc_connection demo_open = Some 0 \<and> k_handed (tc_connector demo_open) = [0] \<and> k_state (tc_connector demo_open) = K_Connected"
proof -
  have "tc_connection demo_open = Some 0" "k_handed (tc_connector demo_open) = [0]" by (simp_all add: tc_eval)
  then show ?thesis using tcp_client_one_connection [OF demo_open_reached] by simp
qed

text \<open>
  A client that was disconnected cannot connect again. After connecting, \<^verbatim>\<open>disconnect\<close> and the closing of the connection, \<^verbatim>\<open>connect\<close> does nothing: a
  connection is requested, but there is no attempt, no retry timer and no queued functor, so none will ever be made.
\<close>

theorem tcp_client_does_not_reconnect:
  "tc_step\<^sup>*\<^sup>* client_new demo_reconnect \<and> tc_connectRequested demo_reconnect \<and> tc_connection demo_reconnect = None \<and>
   \<not> k_channel (tc_connector demo_reconnect) \<and> k_armed (tc_connector demo_reconnect) = [] \<and> k_jobs (tc_connector demo_reconnect) = [] \<and>
   k_nextSocket (tc_connector demo_reconnect) = 1"
proof -
  have "tc_step demo_open (client_disconnect demo_open)" by (rule tc_step.disconnect)
  moreover have "tc_step (client_disconnect demo_open) demo_closed" unfolding demo_closed_def by (rule tc_step.closed) (simp add: tc_eval)
  moreover have "tc_step demo_closed demo_reconnect" by (rule tc_step.connect [of True 0]) (simp add: tc_eval)
  ultimately have "tc_step\<^sup>*\<^sup>* client_new demo_reconnect" using demo_open_reached by (meson rtranclp_trans r_into_rtranclp)
  then show ?thesis by (simp add: tc_eval)
qed

text \<open>In that state every further call of \<^verbatim>\<open>connect\<close> is without effect as well.\<close>

lemma start_while_connected: "k_state k = K_Connected \<Longrightarrow> connector_start ok err k = Ret (k\<lparr>k_started := True\<rparr>)"
  by (simp add: connector_start_def startInLoop_def)

end
