(* ===== verification/ObjectPool.thy ===== *)
theory ObjectPool
  imports Prelude "HOL-Library.Multiset"
begin

text \<open>
  \<^verbatim>\<open>dbase::memory::ObjectPool\<close> (\<^verbatim>\<open>code/include/dbase/memory/object_pool.h\<close>). An object is a number, given out when it is made; a \<^verbatim>\<open>unique_ptr\<close> is
  the place a number is in: the idle list, the hands of the clients, a batch \<^verbatim>\<open>reserve\<close> is making, or the destroyed objects. Every section under the mutex and
  every call of \<^verbatim>\<open>createObject\<close> is a step, so that the members of any number of threads interleave. The counters do not wrap.
\<close>

section \<open>State and operations\<close>

record ObjectPool =
  p_maxIdle :: nat
  p_idle :: "nat list"
  p_totalCreated :: nat
  p_totalAcquired :: nat
  p_totalReleased :: nat
  p_creating :: nat
  p_reserving :: "(nat \<times> nat list) list"
  p_releasing :: "nat list"
  p_owned :: "nat list"
  p_destroyed :: "nat list"

text \<open>
  \<open>p_creating\<close>: calls of \<^verbatim>\<open>acquire\<close> that found the list empty; \<open>p_reserving\<close>: calls of \<^verbatim>\<open>reserve\<close> behind their first section, with
  the number of objects still to make and those made; \<open>p_releasing\<close>: objects between the two sections of \<^verbatim>\<open>release\<close>.
\<close>

definition mk_ObjectPool :: "nat \<Rightarrow> ObjectPool" where
  "mk_ObjectPool maxIdle = \<lparr>p_maxIdle = maxIdle, p_idle = [], p_totalCreated = 0, p_totalAcquired = 0, p_totalReleased = 0, p_creating = 0,
     p_reserving = [], p_releasing = [], p_owned = [], p_destroyed = []\<rparr>"

definition pool_createObject :: "ObjectPool \<Rightarrow> nat \<times> ObjectPool" where
  "pool_createObject p = (p_totalCreated p, p\<lparr>p_totalCreated := p_totalCreated p + 1\<rparr>)"

definition acquire_section :: "ObjectPool \<Rightarrow> ObjectPool" where
  "acquire_section p =
     (let p = p\<lparr>p_totalAcquired := p_totalAcquired p + 1\<rparr>
      in if p_idle p \<noteq> [] then p\<lparr>p_idle := butlast (p_idle p), p_owned := p_owned p @ [last (p_idle p)]\<rparr>
         else p\<lparr>p_creating := p_creating p + 1\<rparr>)"

definition acquire_create :: "ObjectPool \<Rightarrow> ObjectPool" where
  "acquire_create p =
     (case pool_createObject p of (obj, p) \<Rightarrow> p\<lparr>p_creating := p_creating p - 1, p_owned := p_owned p @ [obj]\<rparr>)"

definition pool_create :: "ObjectPool \<Rightarrow> ObjectPool" where
  "pool_create p = (case pool_createObject p of (obj, p) \<Rightarrow> p\<lparr>p_owned := p_owned p @ [obj]\<rparr>)"

definition release_begin :: "nat \<Rightarrow> ObjectPool \<Rightarrow> ObjectPool" where
  "release_begin obj p =
     p\<lparr>p_owned := remove1 obj (p_owned p), p_releasing := p_releasing p @ [obj], p_totalReleased := p_totalReleased p + 1\<rparr>"

definition release_section :: "nat \<Rightarrow> ObjectPool \<Rightarrow> ObjectPool" where
  "release_section obj p =
     (let p = p\<lparr>p_releasing := remove1 obj (p_releasing p)\<rparr>
      in if p_maxIdle p = 0 then p\<lparr>p_destroyed := p_destroyed p @ [obj]\<rparr>
         else if length (p_idle p) < p_maxIdle p then p\<lparr>p_idle := p_idle p @ [obj]\<rparr>
         else p\<lparr>p_destroyed := p_destroyed p @ [obj]\<rparr>)"

definition reserve_section :: "nat \<Rightarrow> ObjectPool \<Rightarrow> ObjectPool" where
  "reserve_section wanted p =
     (if wanted = 0 \<or> p_maxIdle p = 0 then p
      else if length (p_idle p) \<ge> wanted \<or> length (p_idle p) \<ge> p_maxIdle p then p
      else p\<lparr>p_reserving := p_reserving p @ [((if wanted < p_maxIdle p then wanted else p_maxIdle p) - length (p_idle p), [])]\<rparr>)"

definition reserve_create :: "nat \<Rightarrow> ObjectPool \<Rightarrow> ObjectPool" where
  "reserve_create t p =
     (case p_reserving p ! t of (n, created) \<Rightarrow>
      case pool_createObject p of (obj, p) \<Rightarrow> p\<lparr>p_reserving := (p_reserving p)[t := (n - 1, created @ [obj])]\<rparr>)"

definition reserve_insert :: "nat \<Rightarrow> ObjectPool \<Rightarrow> ObjectPool" where
  "reserve_insert t p =
     (case p_reserving p ! t of (n, created) \<Rightarrow>
        let room = p_maxIdle p - length (p_idle p)
        in p\<lparr>p_reserving := take t (p_reserving p) @ drop (Suc t) (p_reserving p), p_idle := p_idle p @ take room created,
             p_destroyed := p_destroyed p @ drop room created\<rparr>)"

definition pool_clear :: "ObjectPool \<Rightarrow> ObjectPool" where
  "pool_clear p = p\<lparr>p_destroyed := p_destroyed p @ p_idle p, p_idle := []\<rparr>"

definition idleCount :: "ObjectPool \<Rightarrow> nat" where
  "idleCount p = length (p_idle p)"

definition pool_empty :: "ObjectPool \<Rightarrow> bool" where
  "pool_empty p \<longleftrightarrow> p_idle p = []"

section \<open>Steps\<close>

inductive pool_step :: "ObjectPool \<Rightarrow> ObjectPool \<Rightarrow> bool" where
  acquire: "pool_step p (acquire_section p)"
| acquire_new: "0 < p_creating p \<Longrightarrow> pool_step p (acquire_create p)"
| create: "pool_step p (pool_create p)"
| release: "obj \<in> set (p_owned p) \<Longrightarrow> pool_step p (release_begin obj p)"
| release_end: "obj \<in> set (p_releasing p) \<Longrightarrow> pool_step p (release_section obj p)"
| delete_owned: "obj \<in> set (p_owned p) \<Longrightarrow> pool_step p (p\<lparr>p_owned := remove1 obj (p_owned p), p_destroyed := p_destroyed p @ [obj]\<rparr>)"
| reserve: "pool_step p (reserve_section wanted p)"
| reserve_new: "t < length (p_reserving p) \<Longrightarrow> 0 < fst (p_reserving p ! t) \<Longrightarrow> pool_step p (reserve_create t p)"
| reserve_end: "t < length (p_reserving p) \<Longrightarrow> fst (p_reserving p ! t) = 0 \<Longrightarrow> pool_step p (reserve_insert t p)"
| clear: "pool_step p (pool_clear p)"

definition held_objects :: "ObjectPool \<Rightarrow> nat multiset" where
  "held_objects p = mset (p_idle p) + mset (p_owned p) + mset (p_releasing p) + mset (p_destroyed p) + mset (concat (map snd (p_reserving p)))"

definition objects_ok :: "ObjectPool \<Rightarrow> bool" where
  "objects_ok p \<longleftrightarrow> held_objects p = mset [0..<p_totalCreated p] \<and> length (p_idle p) \<le> p_maxIdle p"

lemma remove1_mset: "x \<in> set xs \<Longrightarrow> add_mset x (mset (remove1 x xs)) = mset xs"
  by simp

lemma butlast_mset: "xs \<noteq> [] \<Longrightarrow> mset xs = add_mset (last xs) (mset (butlast xs))"
  by (metis append_butlast_last_id mset.simps(2) mset_append union_mset_add_mset_right add.right_neutral mset.simps(1))

lemma mset_take_drop: "mset (take n xs) + mset (drop n xs) = mset xs"
  by (metis append_take_drop_id mset_append)

lemma concat_update:
  assumes "t < length bs"
  shows "mset (concat (map snd (bs[t := (n, xs)]))) + mset (snd (bs ! t)) = mset (concat (map snd bs)) + mset xs"
    "mset (concat (map snd (take t bs @ drop (Suc t) bs))) + mset (snd (bs ! t)) = mset (concat (map snd bs))"
proof -
  have e: "bs = take t bs @ bs ! t # drop (Suc t) bs" using assms by (rule id_take_nth_drop)
  have u: "bs[t := (n, xs)] = take t bs @ (n, xs) # drop (Suc t) bs" using assms by (rule upd_conv_take_nth_drop)
  have m: "mset (concat (map snd bs)) = mset (concat (map snd (take t bs))) + mset (snd (bs ! t)) + mset (concat (map snd (drop (Suc t) bs)))"
    by (subst e) (simp add: ac_simps)
  show "mset (concat (map snd (bs[t := (n, xs)]))) + mset (snd (bs ! t)) = mset (concat (map snd bs)) + mset xs" unfolding u m by (simp add: ac_simps)
  show "mset (concat (map snd (take t bs @ drop (Suc t) bs))) + mset (snd (bs ! t)) = mset (concat (map snd bs))" unfolding m by (simp add: ac_simps)
qed

lemma objects_step_ok: "pool_step p p' \<Longrightarrow> objects_ok p \<Longrightarrow> objects_ok p'"
proof (induction rule: pool_step.induct)
  case (acquire p)
  then show ?case using butlast_mset [of "p_idle p"]
    by (auto simp: acquire_section_def Let_def objects_ok_def held_objects_def simp del: mset_upt)
next
  case (reserve_new t p)
  obtain n created where t: "p_reserving p ! t = (n, created)" by (metis surj_pair)
  have "mset (concat (map snd ((p_reserving p)[t := (n - 1, created @ [p_totalCreated p])]))) = add_mset (p_totalCreated p) (mset (concat (map snd (p_reserving p))))"
    using concat_update(1) [OF reserve_new(1), of "n - 1" "created @ [p_totalCreated p]"] t by simp
  then show ?case using reserve_new(3) t by (simp add: reserve_create_def pool_createObject_def objects_ok_def held_objects_def del: mset_upt)
next
  case (reserve_end t p)
  obtain n created where t: "p_reserving p ! t = (n, created)" by (metis surj_pair)
  let ?room = "p_maxIdle p - length (p_idle p)"
  have "mset (concat (map snd (take t (p_reserving p) @ drop (Suc t) (p_reserving p)))) + mset created = mset (concat (map snd (p_reserving p)))"
    using concat_update(2) [OF reserve_end(1)] t by simp
  moreover have "mset created = mset (take ?room created) + mset (drop ?room created)" by (simp add: mset_take_drop)
  moreover have "length (p_idle p) + min (length created) ?room \<le> p_maxIdle p" using reserve_end(3) unfolding objects_ok_def by linarith
  ultimately show ?case using reserve_end(3) t
    by (simp add: reserve_insert_def Let_def objects_ok_def held_objects_def ac_simps del: mset_upt)
next
  case (clear p)
  then show ?case by (simp add: pool_clear_def objects_ok_def held_objects_def ac_simps del: mset_upt)
qed (auto simp: acquire_create_def pool_create_def release_begin_def release_section_def reserve_section_def pool_createObject_def
    objects_ok_def held_objects_def Let_def simp del: mset_upt)

interpretation pools: step_machine pool_step objects_ok
  by unfold_locales (rule objects_step_ok)

section \<open>Properties\<close>

definition demo_pool_out :: ObjectPool where
  "demo_pool_out = acquire_create (acquire_section (acquire_create (acquire_section (mk_ObjectPool 1))))"

definition demo_pool_back :: ObjectPool where
  "demo_pool_back = acquire_section (release_section 1 (release_section 0 (release_begin 1 (release_begin 0 demo_pool_out))))"

lemmas pool_demo = demo_pool_out_def demo_pool_back_def acquire_section_def acquire_create_def pool_createObject_def release_begin_def release_section_def
  mk_ObjectPool_def Let_def

lemma demo_pool_back_reached: "pool_step\<^sup>*\<^sup>* (mk_ObjectPool 1) demo_pool_back"
proof -
  let ?p1 = "acquire_section (mk_ObjectPool 1)" and ?p2 = "acquire_create (acquire_section (mk_ObjectPool 1))"
  let ?p3 = "acquire_section ?p2"
  let ?p4 = "release_begin 0 demo_pool_out"
  let ?p5 = "release_begin 1 ?p4"
  let ?p6 = "release_section 0 ?p5"
  have "pool_step (mk_ObjectPool 1) ?p1" by (rule pool_step.acquire)
  moreover have "pool_step ?p1 ?p2" by (rule pool_step.acquire_new) (simp add: pool_demo)
  moreover have "pool_step ?p2 ?p3" by (rule pool_step.acquire)
  moreover have "pool_step ?p3 demo_pool_out" unfolding demo_pool_out_def by (rule pool_step.acquire_new) (simp add: pool_demo)
  moreover have "pool_step demo_pool_out ?p4" by (rule pool_step.release) (simp add: pool_demo)
  moreover have "pool_step ?p4 ?p5" by (rule pool_step.release) (simp add: pool_demo)
  moreover have "pool_step ?p5 ?p6" by (rule pool_step.release_end) (simp add: pool_demo)
  moreover have "pool_step ?p6 (release_section 1 ?p6)" by (rule pool_step.release_end) (simp add: pool_demo)
  moreover have "pool_step (release_section 1 ?p6) demo_pool_back" unfolding demo_pool_back_def by (rule pool_step.acquire)
  ultimately show ?thesis by (meson converse_rtranclp_into_rtranclp rtranclp.rtrancl_refl)
qed

text \<open>
  C26: The pool never hands an object to two owners and loses none. In every interleaving of any number of threads every object made is in exactly one
  place (idle, with a client, on its way back, in a batch of \<^verbatim>\<open>reserve\<close>, or destroyed, once), and the idle objects never exceed the maximum.
\<close>

theorem pool_objects_have_one_owner:
  assumes "pool_step\<^sup>*\<^sup>* (mk_ObjectPool maxIdle) p"
  shows "distinct (p_idle p @ p_owned p @ p_releasing p @ p_destroyed p @ concat (map snd (p_reserving p))) \<and>
    set (p_idle p @ p_owned p @ p_releasing p @ p_destroyed p @ concat (map snd (p_reserving p))) = {0..<p_totalCreated p} \<and>
    idleCount p \<le> p_maxIdle p"
proof -
  have "objects_ok (mk_ObjectPool maxIdle)" by (simp add: objects_ok_def held_objects_def mk_ObjectPool_def)
  then have ok: "objects_ok p" using pools.reach_inv [OF assms] by blast
  let ?all = "p_idle p @ p_owned p @ p_releasing p @ p_destroyed p @ concat (map snd (p_reserving p))"
  have m: "mset ?all = mset [0..<p_totalCreated p]" using ok by (simp add: objects_ok_def held_objects_def ac_simps del: mset_upt)
  have "distinct ?all" using mset_eq_imp_distinct_iff [OF m] by simp
  moreover have "set ?all = {0..<p_totalCreated p}" using mset_eq_setD [OF m] by simp
  ultimately show ?thesis using ok by (simp add: objects_ok_def idleCount_def)
qed

theorem pool_objects_have_one_owner_witness:
  "p_owned demo_pool_back = [0] \<and> p_destroyed demo_pool_back = [1] \<and> idleCount demo_pool_back \<le> p_maxIdle demo_pool_back"
proof -
  have "p_owned demo_pool_back = [0]" "p_destroyed demo_pool_back = [1]" by (simp_all add: pool_demo)
  then show ?thesis using pool_objects_have_one_owner [OF demo_pool_back_reached] by blast
qed

end
