(* ===== verification/LogEvent.thy ===== *)
theory LogEvent
  imports Str "HOL-Library.Signed_Division"
begin

text \<open>
  Log records and their text (\<^verbatim>\<open>code/include/dbase/log/log.h\<close>, \<^verbatim>\<open>code/src/log/log.cpp\<close>), with the part of
  \<^verbatim>\<open>code/src/time/time.cpp\<close> that formats a timestamp. What the operating system says (process and thread
  identifiers, the clock, the local time zone through \<^verbatim>\<open>localtime_r\<close> and \<^verbatim>\<open>strftime\<close>) is the argument
  \<open>sys\<close>; \<open>sys_strftime\<close> is the text \<^verbatim>\<open>strftime\<close> would write into a buffer that is large enough.
\<close>

section \<open>Levels and styles\<close>

datatype Level = Level_Trace | Level_Debug | Level_Info | Level_Warn | Level_Error | Level_Fatal

fun level_int :: "Level \<Rightarrow> int" where
  "level_int Level_Trace = 0"
| "level_int Level_Debug = 1"
| "level_int Level_Info = 2"
| "level_int Level_Warn = 3"
| "level_int Level_Error = 4"
| "level_int Level_Fatal = 5"

text \<open>Levels are ordered as the sources compare them, by their integer value.\<close>

instantiation Level :: linorder
begin

definition less_eq_Level :: "Level \<Rightarrow> Level \<Rightarrow> bool" where
  "less_eq_Level a b \<longleftrightarrow> level_int a \<le> level_int b"

definition less_Level :: "Level \<Rightarrow> Level \<Rightarrow> bool" where
  "less_Level a b \<longleftrightarrow> level_int a < level_int b"

instance
proof
  fix a b :: Level
  show "a \<le> b \<Longrightarrow> b \<le> a \<Longrightarrow> a = b" unfolding less_eq_Level_def by (cases a; cases b) simp_all
qed (auto simp: less_eq_Level_def less_Level_def)

end

fun toString :: "Level \<Rightarrow> string" where
  "toString Level_Trace = ''TRACE''"
| "toString Level_Debug = ''DEBUG''"
| "toString Level_Info = ''INFO''"
| "toString Level_Warn = ''WARN''"
| "toString Level_Error = ''ERROR''"
| "toString Level_Fatal = ''FATAL''"

fun toSpdlogString :: "Level \<Rightarrow> string" where
  "toSpdlogString Level_Trace = ''trace''"
| "toSpdlogString Level_Debug = ''debug''"
| "toSpdlogString Level_Info = ''info''"
| "toSpdlogString Level_Warn = ''warn''"
| "toSpdlogString Level_Error = ''error''"
| "toSpdlogString Level_Fatal = ''critical''"

datatype PatternStyle = Compact | Source | SourceFunction | Threaded

record LogEvent =
  ev_level :: Level
  ev_message :: string
  ev_file :: string
  ev_function :: string
  ev_line :: nat
  ev_pid :: nat
  ev_tid :: nat
  ev_timestampUs :: int

record system =
  sys_pid :: nat
  sys_tid :: nat
  sys_nowUs :: int
  sys_strftime :: "string \<Rightarrow> int \<Rightarrow> string"

record source_location =
  sl_file_name :: string
  sl_function_name :: string
  sl_line :: nat

section \<open>Time\<close>

text \<open>\<^verbatim>\<open>strftime\<close> writes into 128 bytes with the terminator, and writes nothing when the text does not fit.\<close>

definition formatTimePoint :: "system \<Rightarrow> int \<Rightarrow> string \<Rightarrow> string" where
  "formatTimePoint sys tt format =
     (let out = sys_strftime sys format tt in if length out + 1 > 128 then [] else out)"

definition formatTimestampMs :: "system \<Rightarrow> int \<Rightarrow> string \<Rightarrow> string" where
  "formatTimestampMs sys timestampMs format = formatTimePoint sys (timestampMs sdiv 1000) format"

text \<open>\<^verbatim>\<open>{:03}\<close> of a number: padded with zeros after the sign, to three characters.\<close>

definition format_03 :: "int \<Rightarrow> string" where
  "format_03 v =
     (let digits = nat_digits (nat \<bar>v\<bar>); width = (if v < 0 then 2 else 3)
      in (if v < 0 then ''-'' else '''') @ replicate (width - length digits) (CHR ''0'') @ digits)"

definition formatTimestampUs :: "system \<Rightarrow> int \<Rightarrow> string" where
  "formatTimestampUs sys timestampUs =
     (let ms = (timestampUs sdiv 1000) smod 1000
      in formatTimestampMs sys (timestampUs sdiv 1000) ''%Y-%m-%d %H:%M:%S'' @ ''.'' @ format_03 ms)"

section \<open>Making a record\<close>

text \<open>\<^verbatim>\<open>std::filesystem::path(file).filename()\<close>: what follows the last slash.\<close>

definition filename :: "string \<Rightarrow> string" where
  "filename p = rev (takeWhile (\<lambda>c. c \<noteq> CHR ''/'') (rev p))"

definition baseFileName :: "string \<Rightarrow> string" where
  "baseFileName file = filename file"

text \<open>The loop replaces inside of \<open>text\<close> and goes on behind the replacement.\<close>

function replace_in_place :: "string \<Rightarrow> string \<Rightarrow> string \<Rightarrow> nat \<Rightarrow> string" where
  "replace_in_place from to text pos =
     (if from = [] then text
      else case sv_find text from pos of
             None \<Rightarrow> text
           | Some p \<Rightarrow> replace_in_place from to (take p text @ to @ drop (p + length from) text) (p + length to))"
  by pat_completeness auto
termination
proof (relation "measure (\<lambda>(_, _, text, pos). Suc (length text) - pos)")
qed (auto dest!: sv_find_bounds [OF sym] sv_find_bounds simp: neq_Nil_conv)

declare replace_in_place.simps [simp del]

definition replaceAllInPlace :: "string \<Rightarrow> string \<Rightarrow> string \<Rightarrow> string" where
  "replaceAllInPlace text from to = (if from = [] then text else replace_in_place from to text 0)"

text \<open>\<^verbatim>\<open>text.rfind(' ', pos)\<close>.\<close>

definition rfind_char :: "string \<Rightarrow> char \<Rightarrow> nat \<Rightarrow> nat option" where
  "rfind_char text c pos =
     (let front = take (pos + 1) text
      in if c \<in> set front then Some (length front - 1 - length (takeWhile (\<lambda>x. x \<noteq> c) (rev front))) else None)"

definition normalizeFunctionName :: "string \<Rightarrow> string" where
  "normalizeFunctionName func =
     (let text = fold (\<lambda>(from, to) text. replaceAllInPlace text from to)
            [(''__cdecl '', ''''), (''__thiscall '', ''''), (''__vectorcall '', ''''), (''__stdcall '', ''''),
             (''__fastcall '', ''''), (''(void)'', ''()'')] func
      in case sv_find text ''('' 0 of
           None \<Rightarrow> text
         | Some parenPos \<Rightarrow>
             (case rfind_char text (CHR '' '') parenPos of
                None \<Rightarrow> text
              | Some spacePos \<Rightarrow> drop (spacePos + 1) text))"

definition makeLogEvent :: "system \<Rightarrow> Level \<Rightarrow> string \<Rightarrow> source_location \<Rightarrow> LogEvent" where
  "makeLogEvent sys level message location =
     \<lparr>ev_level = level, ev_message = message, ev_file = baseFileName (sl_file_name location),
      ev_function = normalizeFunctionName (sl_function_name location), ev_line = sl_line location,
      ev_pid = sys_pid sys, ev_tid = sys_tid sys, ev_timestampUs = sys_nowUs sys\<rparr>"

section \<open>Formatter\<close>

definition bracketed :: "string \<Rightarrow> string" where
  "bracketed s = ''['' @ s @ ''] ''"

definition formatCompact :: "system \<Rightarrow> LogEvent \<Rightarrow> string" where
  "formatCompact sys e =
     bracketed (formatTimestampUs sys (ev_timestampUs e)) @ bracketed (toSpdlogString (ev_level e)) @ ev_message e"

definition formatSource :: "system \<Rightarrow> LogEvent \<Rightarrow> string" where
  "formatSource sys e =
     bracketed (formatTimestampUs sys (ev_timestampUs e)) @ bracketed (toSpdlogString (ev_level e)) @
     bracketed (ev_file e @ '':'' @ nat_digits (ev_line e)) @ ev_message e"

definition formatSourceFunction :: "system \<Rightarrow> LogEvent \<Rightarrow> string" where
  "formatSourceFunction sys e =
     bracketed (formatTimestampUs sys (ev_timestampUs e)) @ bracketed (toSpdlogString (ev_level e)) @
     bracketed (ev_file e @ '':'' @ nat_digits (ev_line e)) @ bracketed (ev_function e) @ ev_message e"

definition formatThreaded :: "system \<Rightarrow> LogEvent \<Rightarrow> string" where
  "formatThreaded sys e =
     bracketed (formatTimestampUs sys (ev_timestampUs e)) @ bracketed (toSpdlogString (ev_level e)) @
     bracketed (nat_digits (ev_pid e) @ '':'' @ nat_digits (ev_tid e)) @
     bracketed (ev_file e @ '':'' @ nat_digits (ev_line e)) @ bracketed (ev_function e) @ ev_message e"

fun formatter_format :: "system \<Rightarrow> PatternStyle \<Rightarrow> LogEvent \<Rightarrow> string" where
  "formatter_format sys Compact e = formatCompact sys e"
| "formatter_format sys Source e = formatSource sys e"
| "formatter_format sys SourceFunction e = formatSourceFunction sys e"
| "formatter_format sys Threaded e = formatThreaded sys e"

section \<open>Properties\<close>

text \<open>Replacing in place is the \<^verbatim>\<open>replaceAll\<close> of the string utilities.\<close>

lemma replace_in_place_eq:
  assumes "from \<noteq> []" and "pos \<le> length str"
  shows "replace_in_place from to str pos = take pos str @ replace_loop from to str pos"
  using assms
proof (induction "length str - pos" arbitrary: str pos rule: less_induct)
  case less
  show ?case
  proof (cases "sv_find str from pos")
    case None
    then show ?thesis using less.prems
      by (auto simp: not_less replace_in_place.simps [of "from" to str pos] replace_loop.simps [of "from" to str pos])
  next
    case (Some p)
    from sv_find_bounds [OF Some] have p: "pos \<le> p" "p + length from \<le> length str" by auto
    let ?str = "take p str @ to @ drop (p + length from) str" and ?pos = "p + length to"
    have lt: "length ?str - ?pos < length str - pos" using p less.prems(1) by (cases "from") auto
    have tail: "replace_loop from to (xs @ ys) (length xs + n) = replace_loop from to ys n" for xs ys n
    proof (induction "length ys - n" arbitrary: n rule: less_induct)
      case (less n)
      have find: "sv_find (xs @ ys) from (length xs + n) = map_option (\<lambda>i. length xs + i) (sv_find ys from n)"
        by (auto simp: sv_find_def option.map_comp comp_def add.assoc)
      show ?case
      proof (cases "n < length ys")
        case False
        then show ?thesis by (subst (1 2) replace_loop.simps) simp
      next
        case True
        show ?thesis
        proof (cases "sv_find ys from n")
          case None
          then show ?thesis using True by (subst (1 2) replace_loop.simps) (simp add: find)
        next
          case (Some q)
          from sv_find_bounds [OF Some] have "n \<le> q" by simp
          moreover have "length ys - (q + length from) < length ys - n"
            using \<open>n \<le> q\<close> True assms(1) by (cases "from") auto
          ultimately show ?thesis using True Some less.hyps [of "q + length from"] assms(1)
            by (subst (1 2) replace_loop.simps) (simp add: find substr_def add.assoc)
        qed
      qed
    qed
    have "replace_in_place from to str pos = replace_in_place from to ?str ?pos"
      using Some less.prems by (subst replace_in_place.simps) simp
    also have "\<dots> = take ?pos ?str @ replace_loop from to ?str ?pos"
      using lt p less.prems by (intro less.hyps) auto
    also have "replace_loop from to ?str ?pos = replace_loop from to (drop (p + length from) str) 0"
      using tail [of "take p str @ to" "drop (p + length from) str" 0] p by simp
    also have "\<dots> = replace_loop from to str (p + length from)"
      using tail [of "take (p + length from) str" "drop (p + length from) str" 0] p by simp
    finally have place: "replace_in_place from to str pos = take p str @ to @ replace_loop from to str (p + length from)"
      using p by simp
    have "pos < length str" using p less.prems(1) by (cases "from") auto
    then have loop: "replace_loop from to str pos = substr str pos (p - pos) @ to @ replace_loop from to str (p + length from)"
      using Some less.prems(1) by (simp add: replace_loop.simps [of "from" to str pos])
    have "take pos str @ substr str pos (p - pos) = take p str"
      using p take_add [of pos "p - pos" str] by (simp add: substr_def)
    with place loop show ?thesis by (metis append.assoc)
  qed
qed

lemma replaceAllInPlace_eq: "replaceAllInPlace text from to = replaceAll text from to"
  by (simp add: replaceAllInPlace_def replaceAll_def replace_in_place_eq)

end
