(* ===== verification/Sinks.thy ===== *)
theory Sinks
  imports LogEvent "HOL-Library.Sublist"
begin

text \<open>
  The log sinks (\<^verbatim>\<open>code/include/dbase/log/sink.h\<close>, \<^verbatim>\<open>code/src/log/sink.cpp\<close>) on a small file system.
  \<open>os_files\<close> maps a path to the bytes of the file. A call of the operating system that \<open>os_fault\<close> names
  fails, with \<open>os_message\<close> for the text of its error code, and \<open>os_spill\<close> is how many bytes of its buffer a
  \<^verbatim>\<open>std::ofstream\<close> hands to the file when text is put into it: the C++ standard leaves that to the library,
  so every theorem holds for every choice. The mutex of a sink makes each member function one step.
\<close>

section \<open>Paths\<close>

type_synonym path = string

text \<open>\<^verbatim>\<open>parent_path\<close>, \<^verbatim>\<open>stem\<close> and \<^verbatim>\<open>extension\<close> of \<^verbatim>\<open>std::filesystem::path\<close>, and \<^verbatim>\<open>operator/\<close>.\<close>

definition strip_slashes :: "string \<Rightarrow> string" where
  "strip_slashes d =
     (let s = rev (dropWhile (\<lambda>c. c = CHR ''/'') (rev d)) in if s = [] \<and> d \<noteq> [] then ''/'' else s)"

definition parent_path :: "path \<Rightarrow> path" where
  "parent_path p = strip_slashes (take (length p - length (filename p)) p)"

text \<open>The position of the last dot of a file name, unless the name starts with it or is \<^verbatim>\<open>..\<close>\<close>

definition extension_pos :: "string \<Rightarrow> nat" where
  "extension_pos f =
     (case rfind_char f (CHR ''.'') (length f) of
        None \<Rightarrow> length f
      | Some i \<Rightarrow> if i = 0 \<or> f = ''..'' then length f else i)"

definition path_stem :: "path \<Rightarrow> string" where
  "path_stem p = take (extension_pos (filename p)) (filename p)"

definition path_extension :: "path \<Rightarrow> string" where
  "path_extension p = drop (extension_pos (filename p)) (filename p)"

definition path_join :: "path \<Rightarrow> string \<Rightarrow> path" where
  "path_join d f = (if d = [] \<or> last d = CHR ''/'' then d @ f else d @ ''/'' @ f)"

section \<open>The operating system\<close>

datatype os_call =
    Os_create_directories path
  | Os_remove path
  | Os_rename path path
  | Os_open path
  | Os_write path

record os =
  os_files :: "path \<Rightarrow> string option"
  os_fault :: "os_call \<Rightarrow> bool"
  os_message :: "os_call \<Rightarrow> string"
  os_spill :: "string \<Rightarrow> string \<Rightarrow> nat"
  os_cout :: string
  os_cerr :: string

definition os_exists :: "path \<Rightarrow> os \<Rightarrow> bool" where
  "os_exists p w \<longleftrightarrow> os_files w p \<noteq> None"

definition file_content :: "os \<Rightarrow> path \<Rightarrow> string" where
  "file_content w p = (case os_files w p of None \<Rightarrow> [] | Some s \<Rightarrow> s)"

definition fileSizeOrZero :: "path \<Rightarrow> os \<Rightarrow> nat" where
  "fileSizeOrZero p w = (case os_files w p of None \<Rightarrow> 0 | Some s \<Rightarrow> length s)"

definition ensureParentDirectory :: "path \<Rightarrow> (os, unit) cpp" where
  "ensureParentDirectory p = (\<lambda>w.
     let parent = parent_path p; call = Os_create_directories parent
     in if parent = [] then (Ret (), w)
        else if os_fault w call
             then (Throw (Runtime_error (''create_directories failed: '' @ parent @ '', '' @ os_message w call)), w)
             else (Ret (), w))"

definition removeIfExists :: "path \<Rightarrow> (os, unit) cpp" where
  "removeIfExists p = (\<lambda>w.
     if os_fault w (Os_remove p)
     then (Throw (Runtime_error (''remove failed: '' @ p @ '', '' @ os_message w (Os_remove p))), w)
     else (Ret (), w\<lparr>os_files := (os_files w)(p := None)\<rparr>))"

definition renameFile :: "path \<Rightarrow> path \<Rightarrow> (os, unit) cpp" where
  "renameFile from to = (\<lambda>w.
     if os_fault w (Os_rename from to) \<or> os_files w from = None
     then (Throw (Runtime_error
             (''rename failed: '' @ from @ '' -> '' @ to @ '', '' @ os_message w (Os_rename from to))), w)
     else (Ret (), w\<lparr>os_files := ((os_files w)(from := None))(to := os_files w from)\<rparr>))"

section \<open>\<^verbatim>\<open>std::ofstream\<close>\<close>

record ofstream =
  st_path :: "path option"
  st_buf :: string
  st_good :: bool

definition closed_stream :: ofstream where
  "closed_stream = \<lparr>st_path = None, st_buf = [], st_good = True\<rparr>"

definition is_open :: "ofstream \<Rightarrow> bool" where
  "is_open st \<longleftrightarrow> st_path st \<noteq> None"

definition stream_open :: "path \<Rightarrow> bool \<Rightarrow> ofstream \<times> os \<Rightarrow> ofstream \<times> os" where
  "stream_open p trunc = (\<lambda>(st, w).
     if os_fault w (Os_open p) then (\<lparr>st_path = None, st_buf = [], st_good = False\<rparr>, w)
     else (\<lparr>st_path = Some p, st_buf = [], st_good = True\<rparr>,
           w\<lparr>os_files := (os_files w)(p := Some (if trunc then [] else file_content w p))\<rparr>))"

text \<open>The first \<open>n\<close> bytes of the buffer go to the file. When that fails the buffer is lost.\<close>

definition stream_pour :: "nat \<Rightarrow> ofstream \<times> os \<Rightarrow> ofstream \<times> os" where
  "stream_pour n = (\<lambda>(st, w).
     case st_path st of
       None \<Rightarrow> (st, w)
     | Some p \<Rightarrow>
         if take n (st_buf st) = [] then (st, w)
         else if os_fault w (Os_write p) then (st\<lparr>st_buf := [], st_good := False\<rparr>, w)
         else (st\<lparr>st_buf := drop n (st_buf st)\<rparr>,
               case os_files w p of
                 None \<Rightarrow> w
               | Some s \<Rightarrow> w\<lparr>os_files := (os_files w)(p := Some (s @ take n (st_buf st)))\<rparr>))"

definition stream_put :: "string \<Rightarrow> ofstream \<times> os \<Rightarrow> ofstream \<times> os" where
  "stream_put s = (\<lambda>(st, w).
     if is_open st \<and> st_good st
     then stream_pour (os_spill w (st_buf st) s) (st\<lparr>st_buf := st_buf st @ s\<rparr>, w)
     else (st\<lparr>st_good := False\<rparr>, w))"

definition stream_flush :: "ofstream \<times> os \<Rightarrow> ofstream \<times> os" where
  "stream_flush = (\<lambda>(st, w). if st_good st then stream_pour (length (st_buf st)) (st, w) else (st, w))"

definition stream_close :: "ofstream \<times> os \<Rightarrow> ofstream \<times> os" where
  "stream_close = (\<lambda>(st, w).
     case stream_pour (length (st_buf st)) (st, w) of (st', w') \<Rightarrow> (st'\<lparr>st_path := None, st_buf := []\<rparr>, w'))"

text \<open>A call on the operating system inside of a member function of a sink.\<close>

definition on_os :: "(os, 'a) cpp \<Rightarrow> ('s \<times> os, 'a) cpp" where
  "on_os m = (\<lambda>(s, w). case m w of (r, w') \<Rightarrow> (r, (s, w')))"

definition check :: "('s \<Rightarrow> bool) \<Rightarrow> exn \<Rightarrow> ('s, unit) cpp" where
  "check P e = (\<lambda>s. if P s then (Ret (), s) else (Throw e, s))"

definition guarded :: "('s \<Rightarrow> bool) \<Rightarrow> ('s, unit) cpp \<Rightarrow> ('s, unit) cpp" where
  "guarded P m = (\<lambda>s. if P s then m s else (Ret (), s))"

section \<open>\<^verbatim>\<open>ConsoleSink\<close>\<close>

definition console_write :: "LogEvent \<Rightarrow> string \<Rightarrow> (os, unit) cpp" where
  "console_write ev formatted = modify (\<lambda>w.
     if level_int (ev_level ev) \<ge> level_int Level_Error then w\<lparr>os_cerr := os_cerr w @ formatted @ [CHR 0x0A]\<rparr>
     else w\<lparr>os_cout := os_cout w @ formatted @ [CHR 0x0A]\<rparr>)"

text \<open>What the console streams hold is what was put into them; flushing them does not change it.\<close>

definition console_flush :: "(os, unit) cpp" where
  "console_flush = ret ()"

section \<open>\<^verbatim>\<open>FileSink\<close>\<close>

record FileSink =
  fk_path :: path
  fk_stream :: ofstream

definition fk_on_stream :: "(ofstream \<times> os \<Rightarrow> ofstream \<times> os) \<Rightarrow> (FileSink \<times> os, unit) cpp" where
  "fk_on_stream f = modify (\<lambda>(k, w). case f (fk_stream k, w) of (st, w') \<Rightarrow> (k\<lparr>fk_stream := st\<rparr>, w'))"

definition fk_open :: "path \<Rightarrow> bool \<Rightarrow> (FileSink \<times> os, unit) cpp" where
  "fk_open p trunc =
     seq (on_os (ensureParentDirectory p))
     (seq (fk_on_stream (stream_open p trunc))
          (check (\<lambda>(k, w). is_open (fk_stream k)) (Runtime_error (''FileSink open failed: '' @ p))))"

definition mk_FileSink :: "path \<Rightarrow> bool \<Rightarrow> os \<Rightarrow> unit outcome \<times> FileSink \<times> os" where
  "mk_FileSink p trunc w = fk_open p trunc (\<lparr>fk_path = p, fk_stream = closed_stream\<rparr>, w)"

definition fk_write :: "string \<Rightarrow> (FileSink \<times> os, unit) cpp" where
  "fk_write formatted =
     bind (gets (\<lambda>(k, w). fk_path k)) (\<lambda>p.
     seq (guarded (\<lambda>(k, w). \<not> is_open (fk_stream k)) (fk_open p False))
     (seq (fk_on_stream (stream_put (formatted @ [CHR 0x0A])))
          (check (\<lambda>(k, w). st_good (fk_stream k)) (Runtime_error (''FileSink write failed: '' @ p)))))"

definition fk_flush :: "(FileSink \<times> os, unit) cpp" where
  "fk_flush =
     bind (gets (\<lambda>(k, w). fk_path k)) (\<lambda>p.
     guarded (\<lambda>(k, w). is_open (fk_stream k))
       (seq (fk_on_stream stream_flush)
            (check (\<lambda>(k, w). st_good (fk_stream k)) (Runtime_error (''FileSink flush failed: '' @ p)))))"

section \<open>\<^verbatim>\<open>RotatingFileSink\<close>\<close>

record RotatingFileSink =
  rf_path :: path
  rf_stream :: ofstream
  rf_maxFileSize :: nat
  rf_maxFiles :: nat

definition rf_on_stream :: "(ofstream \<times> os \<Rightarrow> ofstream \<times> os) \<Rightarrow> (RotatingFileSink \<times> os, unit) cpp" where
  "rf_on_stream f = modify (\<lambda>(k, w). case f (rf_stream k, w) of (st, w') \<Rightarrow> (k\<lparr>rf_stream := st\<rparr>, w'))"

definition rotatedPath :: "path \<Rightarrow> nat \<Rightarrow> path" where
  "rotatedPath p index =
     path_join (parent_path p) (path_stem p @ ''.'' @ nat_digits index @ path_extension p)"

definition currentFileSizeNoLock :: "RotatingFileSink \<times> os \<Rightarrow> nat" where
  "currentFileSizeNoLock = (\<lambda>(k, w). fileSizeOrZero (rf_path k) w)"

definition rf_openNoLock :: "path \<Rightarrow> bool \<Rightarrow> (RotatingFileSink \<times> os, unit) cpp" where
  "rf_openNoLock p trunc =
     seq (on_os (ensureParentDirectory p))
     (seq (rf_on_stream (stream_open p trunc))
          (check (\<lambda>(k, w). is_open (rf_stream k)) (Runtime_error (''RotatingFileSink open failed: '' @ p))))"

definition mk_RotatingFileSink :: "path \<Rightarrow> nat \<Rightarrow> nat \<Rightarrow> bool \<Rightarrow> os \<Rightarrow> unit outcome \<times> RotatingFileSink \<times> os" where
  "mk_RotatingFileSink p maxFileSize maxFiles trunc w =
     (let k = \<lparr>rf_path = p, rf_stream = closed_stream, rf_maxFileSize = maxFileSize, rf_maxFiles = maxFiles\<rparr>
      in if maxFileSize = 0
         then (Throw (Invalid_argument ''RotatingFileSink maxFileSize must be greater than 0''), k, w)
         else if maxFiles = 0
         then (Throw (Invalid_argument ''RotatingFileSink maxFiles must be greater than 0''), k, w)
         else rf_openNoLock p trunc (k, w))"

text \<open>One round of the loop: file \<open>i - 1\<close> becomes file \<open>i\<close>.\<close>

definition shift_file :: "path \<Rightarrow> path \<Rightarrow> (os, unit) cpp" where
  "shift_file from to = guarded (os_exists from) (seq (removeIfExists to) (renameFile from to))"

fun rotate_loop :: "path \<Rightarrow> nat \<Rightarrow> (os, unit) cpp" where
  "rotate_loop p i =
     (if i \<le> 1 then ret ()
      else seq (shift_file (rotatedPath p (i - 1)) (rotatedPath p i)) (rotate_loop p (i - 1)))"

declare rotate_loop.simps [simp del]

definition rotateNoLock :: "path \<Rightarrow> nat \<Rightarrow> (RotatingFileSink \<times> os, unit) cpp" where
  "rotateNoLock p maxFiles =
     seq (guarded (\<lambda>(k, w). is_open (rf_stream k)) (rf_on_stream (\<lambda>x. stream_close (stream_flush x))))
     (seq (on_os (removeIfExists (rotatedPath p maxFiles)))
     (seq (on_os (rotate_loop p maxFiles))
     (seq (on_os (shift_file p (rotatedPath p 1)))
          (rf_openNoLock p True))))"

definition rf_write :: "string \<Rightarrow> (RotatingFileSink \<times> os, unit) cpp" where
  "rf_write formatted =
     bind (gets fst) (\<lambda>this.
     seq (guarded (\<lambda>(k, w). \<not> is_open (rf_stream k)) (rf_openNoLock (rf_path this) False))
     (seq (guarded (\<lambda>kw. currentFileSizeNoLock kw > 0
                   \<and> sz_add (currentFileSizeNoLock kw) (sz_add (length formatted) 1) > rf_maxFileSize this)
            (rotateNoLock (rf_path this) (rf_maxFiles this)))
     (seq (rf_on_stream (stream_put (formatted @ [CHR 0x0A])))
          (check (\<lambda>(k, w). st_good (rf_stream k)) (Runtime_error (''RotatingFileSink write failed: '' @ rf_path this))))))"

definition rf_flush :: "(RotatingFileSink \<times> os, unit) cpp" where
  "rf_flush =
     bind (gets fst) (\<lambda>this.
     guarded (\<lambda>(k, w). is_open (rf_stream k))
       (seq (rf_on_stream stream_flush)
            (check (\<lambda>(k, w). st_good (rf_stream k)) (Runtime_error (''RotatingFileSink flush failed: '' @ rf_path this)))))"

section \<open>\<^verbatim>\<open>DailyFileSink\<close>\<close>

record DailyFileSink =
  df_path :: path
  df_stream :: ofstream
  df_currentDate :: string

definition df_on_stream :: "(ofstream \<times> os \<Rightarrow> ofstream \<times> os) \<Rightarrow> (DailyFileSink \<times> os, unit) cpp" where
  "df_on_stream f = modify (\<lambda>(k, w). case f (df_stream k, w) of (st, w') \<Rightarrow> (k\<lparr>df_stream := st\<rparr>, w'))"

definition dateTextFromTimestampUs :: "system \<Rightarrow> int \<Rightarrow> string" where
  "dateTextFromTimestampUs sys timestampUs = formatTimestampMs sys (timestampUs sdiv 1000) ''%Y-%m-%d''"

definition datedPath :: "path \<Rightarrow> string \<Rightarrow> path" where
  "datedPath p date =
     (let ext = path_extension p
      in if ext = [] then path_join (parent_path p) (path_stem p @ ''.'' @ date)
         else path_join (parent_path p) (path_stem p @ ''.'' @ date @ ext))"

definition openForDateNoLock :: "path \<Rightarrow> string \<Rightarrow> bool \<Rightarrow> (DailyFileSink \<times> os, unit) cpp" where
  "openForDateNoLock p date trunc =
     seq (guarded (\<lambda>(k, w). is_open (df_stream k)) (df_on_stream (\<lambda>x. stream_close (stream_flush x))))
     (seq (on_os (ensureParentDirectory (datedPath p date)))
     (seq (df_on_stream (stream_open (datedPath p date) trunc))
     (seq (check (\<lambda>(k, w). is_open (df_stream k)) (Runtime_error (''DailyFileSink open failed: '' @ datedPath p date)))
          (modify (\<lambda>(k, w). (k\<lparr>df_currentDate := date\<rparr>, w))))))"

definition mk_DailyFileSink :: "system \<Rightarrow> path \<Rightarrow> bool \<Rightarrow> os \<Rightarrow> unit outcome \<times> DailyFileSink \<times> os" where
  "mk_DailyFileSink sys p trunc w =
     openForDateNoLock p (dateTextFromTimestampUs sys (sys_nowUs sys)) trunc
       (\<lparr>df_path = p, df_stream = closed_stream, df_currentDate = []\<rparr>, w)"

definition df_write :: "system \<Rightarrow> LogEvent \<Rightarrow> string \<Rightarrow> (DailyFileSink \<times> os, unit) cpp" where
  "df_write sys ev formatted =
     bind (gets (\<lambda>(k, w). df_path k)) (\<lambda>p.
     let eventDate = dateTextFromTimestampUs sys (ev_timestampUs ev) in
     seq (guarded (\<lambda>(k, w). \<not> is_open (df_stream k) \<or> eventDate \<noteq> df_currentDate k) (openForDateNoLock p eventDate False))
     (seq (df_on_stream (stream_put (formatted @ [CHR 0x0A])))
     (bind (gets (\<lambda>(k, w). df_currentDate k)) (\<lambda>date.
        check (\<lambda>(k, w). st_good (df_stream k)) (Runtime_error (''DailyFileSink write failed: '' @ datedPath p date))))))"

definition df_flush :: "(DailyFileSink \<times> os, unit) cpp" where
  "df_flush =
     bind (gets fst) (\<lambda>this.
     guarded (\<lambda>(k, w). is_open (df_stream k))
       (seq (df_on_stream stream_flush)
            (check (\<lambda>(k, w). st_good (df_stream k))
               (Runtime_error (''DailyFileSink flush failed: '' @ datedPath (df_path this) (df_currentDate this))))))"

section \<open>Reasoning about member functions that may throw\<close>

text \<open>From \<open>P\<close>, the call returns in a state of \<open>Q\<close> or throws in a state of \<open>E\<close>; it is never undefined.\<close>

fun post :: "('a \<Rightarrow> 's \<Rightarrow> bool) \<Rightarrow> ('s \<Rightarrow> bool) \<Rightarrow> 'a outcome \<times> 's \<Rightarrow> bool" where
  "post Q E (Ret v, s) \<longleftrightarrow> Q v s"
| "post Q E (Throw e, s) \<longleftrightarrow> E s"
| "post Q E (Undef, s) \<longleftrightarrow> False"

definition triple :: "('s \<Rightarrow> bool) \<Rightarrow> ('s, 'a) cpp \<Rightarrow> ('a \<Rightarrow> 's \<Rightarrow> bool) \<Rightarrow> ('s \<Rightarrow> bool) \<Rightarrow> bool" where
  "triple P m Q E \<longleftrightarrow> (\<forall>s. P s \<longrightarrow> post Q E (m s))"

lemma tripleI: "(\<And>s. P s \<Longrightarrow> post Q E (m s)) \<Longrightarrow> triple P m Q E"
  by (simp add: triple_def)

lemma tripleD: "triple P m Q E \<Longrightarrow> P s \<Longrightarrow> post Q E (m s)"
  by (simp add: triple_def)

lemma outcome_pair_cases:
  obtains (Ret) v s' where "x = (Ret v, s')" | (Throw) e s' where "x = (Throw e, s')" | (Undef) s' where "x = (Undef, s')"
  by (cases x; cases "fst x") auto

lemma post_weaken: "post Q' E' x \<Longrightarrow> (\<And>v s. Q' v s \<Longrightarrow> Q v s) \<Longrightarrow> (\<And>s. E' s \<Longrightarrow> E s) \<Longrightarrow> post Q E x"
  by (cases x rule: outcome_pair_cases) auto

lemma triple_seq: "triple P m (\<lambda>_. R) E \<Longrightarrow> triple R n Q E \<Longrightarrow> triple P (seq m n) Q E"
proof (rule tripleI)
  fix s assume mn: "triple P m (\<lambda>_. R) E" "triple R n Q E" and "P s"
  then show "post Q E (seq m n s)"
    using tripleD [OF mn(1), of s] tripleD [OF mn(2)] by (cases "m s" rule: outcome_pair_cases) (auto simp: run_seq)
qed

lemma seq_assoc: "seq (seq a b) c = seq a (seq b c)"
  by (rule ext) (auto simp: run_seq split: prod.splits outcome.splits)

lemma triple_gets: "(\<And>v. triple (\<lambda>s. P s \<and> v = g s) (f v) Q E) \<Longrightarrow> triple P (bind (gets g) f) Q E"
  by (simp add: triple_def run_bind run_gets)

lemma triple_guarded:
  "triple (\<lambda>s. P s \<and> b s) m (\<lambda>_. Q) E \<Longrightarrow> (\<And>s. P s \<Longrightarrow> \<not> b s \<Longrightarrow> Q s) \<Longrightarrow> triple P (guarded b m) (\<lambda>_. Q) E"
  by (simp add: triple_def guarded_def)

lemma triple_check: "(\<And>s. P s \<Longrightarrow> b s \<Longrightarrow> Q s) \<Longrightarrow> (\<And>s. P s \<Longrightarrow> \<not> b s \<Longrightarrow> E s) \<Longrightarrow> triple P (check b e) (\<lambda>_. Q) E"
  by (simp add: triple_def check_def)

lemma triple_modify: "(\<And>s. P s \<Longrightarrow> Q (f s)) \<Longrightarrow> triple P (modify f) (\<lambda>_. Q) E"
  by (simp add: triple_def run_modify)

lemma triple_on_os:
  assumes "\<And>k. triple (\<lambda>w. P (k, w)) m (\<lambda>v w. Q v (k, w)) (\<lambda>w. E (k, w))"
  shows "triple P (on_os m) Q E"
proof (rule tripleI, clarify)
  fix k w assume "P (k, w)"
  from tripleD [OF assms, OF this] show "post Q E (on_os m (k, w))"
    by (cases "m w" rule: outcome_pair_cases) (auto simp: on_os_def)
qed

lemma triple_weaken:
  "triple P' m Q' E' \<Longrightarrow> (\<And>s. P s \<Longrightarrow> P' s) \<Longrightarrow> (\<And>v s. Q' v s \<Longrightarrow> Q v s) \<Longrightarrow> (\<And>s. E' s \<Longrightarrow> E s) \<Longrightarrow> triple P m Q E"
  by (rule tripleI, rule post_weaken [of Q' E']) (simp_all add: triple_def)

section \<open>Paths of the files of a sink\<close>

lemma filename_no_slash: "CHR ''/'' \<notin> set (filename p)"
  by (auto simp: filename_def dest: set_takeWhileD)

lemma filename_join: "CHR ''/'' \<notin> set f \<Longrightarrow> filename (path_join d f) = f"
proof -
  assume f: "CHR ''/'' \<notin> set f"
  have app: "filename (xs @ ''/'' @ f) = f" for xs
  proof -
    have "takeWhile (\<lambda>c. c \<noteq> CHR ''/'') (rev f @ CHR ''/'' # rev xs) = rev f"
      using f by (subst takeWhile_append2) auto
    then show ?thesis by (simp add: filename_def)
  qed
  have all: "filename f = f"
    using f unfolding filename_def by (subst takeWhile_eq_all_conv [THEN iffD2]) auto
  consider "d = []" | "d \<noteq> []" "last d \<noteq> CHR ''/''" | d' where "d = d' @ [CHR ''/'']"
    by (metis append_butlast_last_id)
  then show ?thesis by cases (simp_all add: path_join_def all app [simplified])
qed

lemma stem_extension: "path_stem p @ path_extension p = filename p"
  by (simp add: path_stem_def path_extension_def)

lemma stem_extension_no_slash: "CHR ''/'' \<notin> set (path_stem p) \<union> set (path_extension p)"
  using filename_no_slash [of p] set_append [of "path_stem p" "path_extension p"] by (simp add: stem_extension)

lemma slash_not_digit: "CHR ''/'' \<notin> set (nat_digits n)"
  using nat_digits_all [of n] by (auto simp: is_digit_def)

lemma nat_digits_inj: "nat_digits a = nat_digits b \<longleftrightarrow> a = b"
  by (metis digits_val_nat_digits)

text \<open>The files of a rotating sink, the current one first: slot \<open>i\<close> is the \<open>i\<close>-th rotated file.\<close>

definition slot :: "path \<Rightarrow> nat \<Rightarrow> path" where
  "slot p i = (if i = 0 then p else rotatedPath p i)"

lemma filename_rotated: "filename (rotatedPath p i) = path_stem p @ ''.'' @ nat_digits i @ path_extension p"
  unfolding rotatedPath_def using stem_extension_no_slash [of p] slash_not_digit by (intro filename_join) auto

lemma slot_inj [simp]: "slot p i = slot p j \<longleftrightarrow> i = j"
proof -
  have "rotatedPath p i \<noteq> p" for i
    using filename_rotated [of p i] arg_cong [OF stem_extension [of p], of length] by (auto dest: arg_cong [where f = length])
  moreover have "rotatedPath p i = rotatedPath p j \<longleftrightarrow> i = j"
    by (metis append_same_eq filename_rotated nat_digits_inj same_append_eq)
  ultimately show ?thesis by (auto simp: slot_def) metis
qed

section \<open>What a rotating sink keeps\<close>

text \<open>The bytes of the files of the sink, from the oldest file to the current one.\<close>

definition part :: "path \<Rightarrow> nat \<Rightarrow> nat \<Rightarrow> os \<Rightarrow> string" where
  "part p lo hi w = concat (map (\<lambda>i. file_content w (slot p i)) (rev [lo..<hi]))"

definition hist :: "path \<Rightarrow> nat \<Rightarrow> os \<Rightarrow> string" where
  "hist p n w = part p 0 (Suc n) w"

lemma part_cong: "(\<And>i. lo \<le> i \<Longrightarrow> i < hi \<Longrightarrow> file_content w' (slot p i) = file_content w (slot p i)) \<Longrightarrow> part p lo hi w' = part p lo hi w"
  unfolding part_def by (rule arg_cong [where f = concat]) (auto intro!: map_cong)

lemma part_join: "lo \<le> mid \<Longrightarrow> mid \<le> hi \<Longrightarrow> part p lo hi w = part p mid hi w @ part p lo mid w"
  unfolding part_def by (metis concat_append le_add_diff_inverse map_append rev_append upt_add_eq_append)

lemma part_one [simp]: "part p i (Suc i) w = file_content w (slot p i)"
  by (simp add: part_def)

lemma hist_split:
  assumes "Suc i \<le> n"
  shows "hist p n w =
    part p (Suc (Suc i)) (Suc n) w @ file_content w (slot p (Suc i)) @ file_content w (slot p i) @ part p 0 i w"
  using assms part_join [of 0 "Suc (Suc i)" "Suc n" p w] part_join [of 0 "Suc i" "Suc (Suc i)" p w] part_join [of 0 i "Suc i" p w]
  by (simp add: hist_def)

lemma hist_current: "hist p n w = part p 1 (Suc n) w @ file_content w p"
  using part_join [of 0 1 "Suc n" p w] part_one [of p 0 w] by (simp add: hist_def slot_def)

lemma hist_oldest: "hist p n w = file_content w (slot p n) @ part p 0 n w"
  using part_join [of 0 n "Suc n" p w] by (simp add: hist_def)

text \<open>Moving a file into the next slot, which is free, keeps the bytes and their order.\<close>

lemma content_upd: "file_content (w\<lparr>os_files := (os_files w)(q := v)\<rparr>) r = (if r = q then (case v of None \<Rightarrow> [] | Some s \<Rightarrow> s) else file_content w r)"
  by (simp add: file_content_def)

lemma hist_shift:
  assumes "Suc i \<le> n" and "os_files w (slot p (Suc i)) = None"
  shows "hist p n (w\<lparr>os_files := ((os_files w)(slot p i := None))(slot p (Suc i) := os_files w (slot p i))\<rparr>) = hist p n w"
    (is "hist p n ?w = _")
proof -
  have c: "file_content ?w (slot p j) = (if j = Suc i then file_content w (slot p i) else if j = i then [] else file_content w (slot p j))" for j
    by (simp add: file_content_def)
  have "part p (Suc (Suc i)) (Suc n) ?w = part p (Suc (Suc i)) (Suc n) w" "part p 0 i ?w = part p 0 i w"
    by (rule part_cong; simp add: c)+
  moreover have "file_content w (slot p (Suc i)) = []" using assms(2) by (simp add: file_content_def)
  ultimately show ?thesis unfolding hist_split [OF assms(1)] c by simp
qed

text \<open>
  The state of a sink with the files of \<open>p\<close>: the stream is closed and empty, or it is open on \<open>p\<close> and good; what the files
  and the buffer hold is the end of \<open>H\<close>; no other file differs from \<open>F\<close>; and every file, the buffer included, satisfies \<open>G\<close>.
\<close>

definition stream_ok :: "path \<Rightarrow> ofstream \<Rightarrow> os \<Rightarrow> bool" where
  "stream_ok p st w \<longleftrightarrow>
     (case st_path st of None \<Rightarrow> st_buf st = [] | Some q \<Rightarrow> q = p \<and> st_good st \<and> os_files w p \<noteq> None)"

definition files_ok :: "path \<Rightarrow> nat \<Rightarrow> (path \<Rightarrow> string option) \<Rightarrow> (string \<Rightarrow> bool) \<Rightarrow> os \<Rightarrow> bool" where
  "files_ok p n F G w \<longleftrightarrow>
     0 < n \<and> \<not> os_fault w (Os_write p) \<and> (\<forall>q. q \<notin> slot p ` {0..n} \<longrightarrow> os_files w q = F q)
     \<and> (\<forall>i. 1 \<le> i \<and> i \<le> n \<longrightarrow> G (file_content w (slot p i)))"

definition rf_inv ::
  "path \<Rightarrow> nat \<Rightarrow> nat \<Rightarrow> string \<Rightarrow> (path \<Rightarrow> string option) \<Rightarrow> (string \<Rightarrow> bool) \<Rightarrow> RotatingFileSink \<times> os \<Rightarrow> bool" where
  "rf_inv p n mx H F G = (\<lambda>(k, w).
     rf_path k = p \<and> rf_maxFiles k = n \<and> rf_maxFileSize k = mx \<and> stream_ok p (rf_stream k) w \<and> files_ok p n F G w
     \<and> suffix (hist p n w @ st_buf (rf_stream k)) H \<and> G (file_content w p @ st_buf (rf_stream k)))"

text \<open>The invariant with the stream closed and slot \<open>i\<close> free, as in the middle of a rotation.\<close>

definition gap :: "path \<Rightarrow> nat \<Rightarrow> string \<Rightarrow> (path \<Rightarrow> string option) \<Rightarrow> (string \<Rightarrow> bool) \<Rightarrow> nat \<Rightarrow> os \<Rightarrow> bool" where
  "gap p n H F G i w \<longleftrightarrow>
     files_ok p n F G w \<and> suffix (hist p n w) H \<and> G (file_content w p) \<and> os_files w (slot p i) = None"

lemma slot_0 [simp]: "slot p 0 = p"
  by (simp add: slot_def)

lemma slot_eq_p [simp]: "slot p i = p \<longleftrightarrow> i = 0" "p = slot p i \<longleftrightarrow> i = 0"
  using slot_inj [of p i 0] by (auto simp: slot_def)

lemma shift_file_gap:
  assumes "Suc i \<le> n" and "G []"
  shows "triple (gap p n H F G (Suc i)) (shift_file (slot p i) (slot p (Suc i))) (\<lambda>_. gap p n H F G i) (gap p n H F G (Suc i))"
proof (rule tripleI)
  fix w assume g: "gap p n H F G (Suc i) w"
  then have free: "os_files w (slot p (Suc i)) = None" by (simp add: gap_def)
  then have [simp]: "w\<lparr>os_files := (os_files w)(slot p (Suc i) := None)\<rparr> = w" by (simp add: fun_upd_idem)
  let ?w = "w\<lparr>os_files := ((os_files w)(slot p i := None))(slot p (Suc i) := os_files w (slot p i))\<rparr>"
  have c: "file_content ?w (slot p j) = (if j = Suc i then file_content w (slot p i) else if j = i then [] else file_content w (slot p j))" for j
    by (simp add: file_content_def)
  have G: "G (file_content w (slot p j))" if "j \<le> n" for j
    using g that by (cases "j = 0") (auto simp: gap_def files_ok_def)
  have "files_ok p n F G ?w" unfolding files_ok_def
  proof (intro conjI allI impI)
    fix j assume "1 \<le> j \<and> j \<le> n"
    then show "G (file_content ?w (slot p j))" using G assms by (simp only: c) auto
  next
    fix q assume "q \<notin> slot p ` {0..n}"
    moreover have "slot p i \<in> slot p ` {0..n}" "slot p (Suc i) \<in> slot p ` {0..n}" using assms(1) by auto
    ultimately show "os_files ?w q = F q" using g by (auto simp: gap_def files_ok_def)
  qed (use g in \<open>auto simp: gap_def files_ok_def\<close>)
  moreover have "G (file_content ?w p)" using c [of 0] G [of 0] G [of i] assms by auto
  ultimately have "gap p n H F G i ?w"
    using g hist_shift [where w = w and p = p, OF assms(1) free] by (simp add: gap_def)
  moreover have "gap p n H F G i w" if "os_files w (slot p i) = None" using g that by (simp add: gap_def)
  ultimately show "post (\<lambda>_. gap p n H F G i) (gap p n H F G (Suc i)) (shift_file (slot p i) (slot p (Suc i)) w)"
    using g by (auto simp: shift_file_def guarded_def os_exists_def run_seq removeIfExists_def renameFile_def)
qed

definition rf_kept :: "path \<Rightarrow> nat \<Rightarrow> string \<Rightarrow> (path \<Rightarrow> string option) \<Rightarrow> (string \<Rightarrow> bool) \<Rightarrow> os \<Rightarrow> bool" where
  "rf_kept p n H F G w \<longleftrightarrow> files_ok p n F G w \<and> suffix (hist p n w) H \<and> G (file_content w p)"

lemma gap_kept: "gap p n H F G i w \<Longrightarrow> rf_kept p n H F G w"
  by (simp add: gap_def rf_kept_def)

lemma rotated_slot: "0 < i \<Longrightarrow> rotatedPath p i = slot p i"
  by (simp add: slot_def)

lemma rotate_loop_gap:
  assumes "G []" and "1 \<le> i" and "i \<le> n"
  shows "triple (gap p n H F G i) (rotate_loop p i) (\<lambda>_. gap p n H F G 1) (rf_kept p n H F G)"
  using assms(2,3)
proof (induction i rule: nat_induct_at_least)
  case base
  then show ?case by (subst rotate_loop.simps) (simp add: triple_def run_ret)
next
  case (Suc i)
  have "triple (gap p n H F G (Suc i)) (shift_file (slot p i) (slot p (Suc i))) (\<lambda>_. gap p n H F G i) (rf_kept p n H F G)"
    by (rule triple_weaken [OF shift_file_gap]) (use Suc.prems assms(1) gap_kept in auto)
  moreover have "triple (gap p n H F G i) (rotate_loop p i) (\<lambda>_. gap p n H F G 1) (rf_kept p n H F G)"
    using Suc by simp
  ultimately have "triple (gap p n H F G (Suc i)) (seq (shift_file (slot p i) (slot p (Suc i))) (rotate_loop p i)) (\<lambda>_. gap p n H F G 1) (rf_kept p n H F G)"
    by (rule triple_seq)
  then show ?case using Suc.hyps by (subst rotate_loop.simps) (simp add: rotated_slot)
qed

lemma remove_oldest:
  assumes "G []"
  shows "triple (rf_kept p n H F G) (removeIfExists (slot p n)) (\<lambda>_. gap p n H F G n) (rf_kept p n H F G)"
proof (rule tripleI)
  fix w assume k: "rf_kept p n H F G w"
  let ?w = "w\<lparr>os_files := (os_files w)(slot p n := None)\<rparr>"
  have n: "0 < n" using k by (simp add: rf_kept_def files_ok_def)
  have c: "file_content ?w (slot p j) = (if j = n then [] else file_content w (slot p j))" for j by (simp add: file_content_def)
  have "part p 0 n ?w = part p 0 n w" by (rule part_cong) (simp add: c)
  then have "suffix (hist p n ?w) (hist p n w)" unfolding hist_oldest c by (auto simp: suffix_def)
  moreover have "file_content ?w p = file_content w p" using c [of 0] n by simp
  moreover have "files_ok p n F G ?w" unfolding files_ok_def
  proof (intro conjI allI impI)
    fix j assume "1 \<le> j \<and> j \<le> n"
    then show "G (file_content ?w (slot p j))" using k assms by (simp only: c) (auto simp: rf_kept_def files_ok_def)
  next
    fix q assume "q \<notin> slot p ` {0..n}"
    moreover have "slot p n \<in> slot p ` {0..n}" by simp
    ultimately show "os_files ?w q = F q" using k by (auto simp: rf_kept_def files_ok_def)
  qed (use k in \<open>auto simp: rf_kept_def files_ok_def\<close>)
  ultimately have "gap p n H F G n ?w" using k by (auto simp: gap_def rf_kept_def intro: suffix_order.trans)
  then show "post (\<lambda>_. gap p n H F G n) (rf_kept p n H F G) (removeIfExists (slot p n) w)"
    using k by (auto simp: removeIfExists_def)
qed

text \<open>The stream. Pouring moves bytes from the buffer to the file, opening creates an empty file or keeps what there is.\<close>

lemma pour_history:
  assumes "stream_ok p st w" and "\<not> os_fault w (Os_write p)" and "stream_pour m (st, w) = (st', w')"
  shows "stream_ok p st' w'" and "file_content w' p @ st_buf st' = file_content w p @ st_buf st"
    and "os_fault w' = os_fault w" and "st_path st' = st_path st" and "q \<noteq> p \<Longrightarrow> os_files w' q = os_files w q"
  using assms
  by (auto simp: stream_pour_def stream_ok_def file_content_def append_eq_append_conv2 split: option.splits if_splits)

lemma kept_current:
  assumes "files_ok p n F G w" and "\<And>q. q \<noteq> p \<Longrightarrow> os_files w' q = os_files w q" and "os_fault w' = os_fault w"
  shows "files_ok p n F G w'" and "hist p n w' = part p 1 (Suc n) w @ file_content w' p"
proof -
  have c: "file_content w' (slot p i) = file_content w (slot p i)" if "1 \<le> i" for i using assms(2) that by (simp add: file_content_def)
  have "p \<in> slot p ` {0..n}" by force
  then have "os_files w' q = F q" if "q \<notin> slot p ` {0..n}" for q
    using assms(1,2) that by (cases "q = p") (auto simp: files_ok_def)
  then show "files_ok p n F G w'" using assms(1,3) c by (simp add: files_ok_def)
  show "hist p n w' = part p 1 (Suc n) w @ file_content w' p"
    unfolding hist_current [of p n w'] using part_cong [of 1 "Suc n" w' p w] c by simp
qed

text \<open>A change of the stream and of the current file keeps the invariant when the bytes of both, together, stay.\<close>

lemma rf_inv_stream:
  assumes "rf_inv p n mx H F G (k, w)" and "file_content w' p @ st_buf st' = file_content w p @ st_buf (rf_stream k) @ s"
    and "stream_ok p st' w'" and "os_fault w' = os_fault w" and "\<And>q. q \<noteq> p \<Longrightarrow> os_files w' q = os_files w q"
    and "G (file_content w p @ st_buf (rf_stream k) @ s)"
  shows "rf_inv p n mx (H @ s) F G (k\<lparr>rf_stream := st'\<rparr>, w')"
proof -
  have f: "files_ok p n F G w" and h: "suffix (hist p n w @ st_buf (rf_stream k)) H" using assms(1) by (auto simp: rf_inv_def)
  have fok: "files_ok p n F G w'" and hw: "hist p n w' = part p 1 (Suc n) w @ file_content w' p"
    by (rule kept_current [OF f]; use assms(4,5) in simp)+
  have "hist p n w' @ st_buf st' = (hist p n w @ st_buf (rf_stream k)) @ s"
    using assms(2) unfolding hw hist_current [of p n w] by simp
  moreover have "suffix ((hist p n w @ st_buf (rf_stream k)) @ s) (H @ s)" using h by (metis append.assoc suffix_def)
  ultimately show ?thesis using assms fok by (simp add: rf_inv_def)
qed

lemma rf_flush_stream:
  assumes "rf_inv p n mx H F G (k, w)" and "stream_pour m (rf_stream k, w) = (st', w')"
  shows "rf_inv p n mx H F G (k\<lparr>rf_stream := st'\<rparr>, w')"
proof -
  from assms(1) have ok: "stream_ok p (rf_stream k) w" "\<not> os_fault w (Os_write p)" "G (file_content w p @ st_buf (rf_stream k))"
    by (auto simp: rf_inv_def files_ok_def)
  note pour = pour_history [OF ok(1,2) assms(2)]
  show ?thesis using rf_inv_stream [OF assms(1), of w' st' "[]"] pour ok(3) by simp
qed

lemma rf_put_stream:
  assumes "rf_inv p n mx H F G (k, w)" and "is_open (rf_stream k)" and "G (file_content w p @ st_buf (rf_stream k) @ s)"
    and "stream_put s (rf_stream k, w) = (st', w')"
  shows "rf_inv p n mx (H @ s) F G (k\<lparr>rf_stream := st'\<rparr>, w')" and "st_good st'"
proof -
  let ?st = "(rf_stream k)\<lparr>st_buf := st_buf (rf_stream k) @ s\<rparr>"
  from assms(1,2) have ok: "stream_ok p ?st w" "\<not> os_fault w (Os_write p)"
    by (auto simp: rf_inv_def files_ok_def stream_ok_def is_open_def split: option.splits)
  have "st_good (rf_stream k)" using assms(1,2) by (auto simp: rf_inv_def stream_ok_def is_open_def split: option.splits)
  then have "stream_pour (os_spill w (st_buf (rf_stream k)) s) (?st, w) = (st', w')"
    using assms(2,4) by (simp add: stream_put_def)
  note pour = pour_history [OF ok this]
  show "rf_inv p n mx (H @ s) F G (k\<lparr>rf_stream := st'\<rparr>, w')"
    using rf_inv_stream [OF assms(1), of w' st' s] pour assms(3) by simp
  show "st_good st'" using pour(1,4) assms(2) by (auto simp: stream_ok_def is_open_def split: option.splits)
qed

definition rf_mid :: "path \<Rightarrow> nat \<Rightarrow> nat \<Rightarrow> (os \<Rightarrow> bool) \<Rightarrow> RotatingFileSink \<times> os \<Rightarrow> bool" where
  "rf_mid p n mx Q = (\<lambda>(k, w).
     rf_path k = p \<and> rf_maxFiles k = n \<and> rf_maxFileSize k = mx \<and> st_path (rf_stream k) = None \<and> st_buf (rf_stream k) = [] \<and> Q w)"

lemma rf_mid_kept: "rf_mid p n mx (rf_kept p n H F G) s \<longleftrightarrow> rf_inv p n mx H F G s \<and> st_path (rf_stream (fst s)) = None"
  by (auto simp: rf_mid_def rf_inv_def rf_kept_def stream_ok_def split: prod.splits)

lemma triple_rf_mid: "triple P m (\<lambda>_. Q) E \<Longrightarrow> triple (rf_mid p n mx P) (on_os m) (\<lambda>_. rf_mid p n mx Q) (rf_mid p n mx E)"
proof (rule triple_on_os)
  fix k assume m: "triple P m (\<lambda>_. Q) E"
  show "triple (\<lambda>w. rf_mid p n mx P (k, w)) m (\<lambda>_ w. rf_mid p n mx Q (k, w)) (\<lambda>w. rf_mid p n mx E (k, w))"
  proof (rule tripleI)
    fix w assume "rf_mid p n mx P (k, w)"
    with tripleD [OF m, of w] show "post (\<lambda>_ w. rf_mid p n mx Q (k, w)) (\<lambda>w. rf_mid p n mx E (k, w)) (m w)"
      by (cases "m w" rule: outcome_pair_cases) (auto simp: rf_mid_def)
  qed
qed

text \<open>Opening the current file: with truncation it loses what it held, so the sink is opened so only when there is nothing.\<close>

lemma rf_open_triple:
  assumes "G []"
  shows "triple (rf_mid p n mx (\<lambda>w. rf_kept p n H F G w \<and> (trunc \<longrightarrow> file_content w p = []))) (rf_openNoLock p trunc)
    (\<lambda>_ s. rf_inv p n mx H F G s \<and> is_open (rf_stream (fst s)) \<and> st_buf (rf_stream (fst s)) = []
       \<and> (trunc \<longrightarrow> file_content (snd s) p = []))
    (rf_mid p n mx (rf_kept p n H F G))"
  (is "triple (rf_mid p n mx ?P) _ ?Q ?E")
proof -
  let ?R = "\<lambda>s. is_open (rf_stream (fst s)) \<and> ?Q () s \<or> \<not> is_open (rf_stream (fst s)) \<and> ?E s"
  have "triple (rf_mid p n mx ?P) (on_os (ensureParentDirectory p)) (\<lambda>_. rf_mid p n mx ?P) (rf_mid p n mx ?P)"
    by (rule triple_rf_mid) (auto simp: triple_def ensureParentDirectory_def Let_def)
  then have 1: "triple (rf_mid p n mx ?P) (on_os (ensureParentDirectory p)) (\<lambda>_. rf_mid p n mx ?P) ?E"
    by (rule triple_weaken) (auto simp: rf_mid_def)
  have 2: "triple (rf_mid p n mx ?P) (rf_on_stream (stream_open p trunc)) (\<lambda>_. ?R) ?E"
    unfolding rf_on_stream_def
  proof (rule triple_modify)
    fix s assume ms: "rf_mid p n mx ?P s"
    obtain k w where s: "s = (k, w)" by (cases s)
    with ms have m: "rf_mid p n mx ?P (k, w)" by simp
    let ?st = "\<lparr>st_path = Some p, st_buf = [], st_good = True\<rparr>"
    let ?w = "w\<lparr>os_files := (os_files w)(p := Some (if trunc then [] else file_content w p))\<rparr>"
    have inv: "rf_inv p n mx H F G (k, w)" using m by (auto simp: rf_mid_def rf_inv_def rf_kept_def stream_ok_def)
    have c: "file_content ?w p = file_content w p" using m by (auto simp: rf_mid_def file_content_def)
    have "rf_inv p n mx H F G (k\<lparr>rf_stream := ?st\<rparr>, ?w)"
      using rf_inv_stream [OF inv, of ?w ?st "[]"] m c by (auto simp: rf_mid_def stream_ok_def rf_kept_def)
    then show "?R (case s of (k, w) \<Rightarrow> case stream_open p trunc (rf_stream k, w) of (st, w') \<Rightarrow> (k\<lparr>rf_stream := st\<rparr>, w'))"
      using m c by (auto simp: s stream_open_def is_open_def rf_mid_def)
  qed
  have 3: "triple ?R (check (\<lambda>(k, w). is_open (rf_stream k)) (Runtime_error (''RotatingFileSink open failed: '' @ p))) ?Q ?E"
    by (rule triple_check) auto
  show ?thesis unfolding rf_openNoLock_def by (intro triple_seq [OF 1] triple_seq [OF 2] 3)
qed

lemma rotate_triple:
  assumes "G []"
  shows "triple (\<lambda>s. rf_inv p n mx H F G s \<and> is_open (rf_stream (fst s))) (rotateNoLock p n)
    (\<lambda>_ s. rf_inv p n mx H F G s \<and> is_open (rf_stream (fst s)) \<and> st_buf (rf_stream (fst s)) = [] \<and> file_content (snd s) p = [])
    (rf_inv p n mx H F G)"
  (is "triple ?P _ ?Q ?E")
proof -
  let ?rf_kept = "rf_mid p n mx (rf_kept p n H F G)" and ?gap = "\<lambda>i. rf_mid p n mx (gap p n H F G i)"
  have E: "rf_mid p n mx (gap p n H F G i) s \<Longrightarrow> ?E s" for i s
    using rf_mid_kept [of p n mx H F G s] gap_kept by (auto simp: rf_mid_def)
  have K: "?rf_kept s \<Longrightarrow> ?E s" for s by (simp add: rf_mid_kept)
  have 1: "triple ?P (guarded (\<lambda>(k, w). is_open (rf_stream k)) (rf_on_stream (\<lambda>x. stream_close (stream_flush x)))) (\<lambda>_. ?rf_kept) ?E"
  proof (rule triple_guarded)
    show "triple (\<lambda>s. ?P s \<and> (case s of (k, w) \<Rightarrow> is_open (rf_stream k))) (rf_on_stream (\<lambda>x. stream_close (stream_flush x))) (\<lambda>_. ?rf_kept) ?E"
      unfolding rf_on_stream_def
    proof (rule triple_modify, clarsimp split: prod.splits)
      fix k w st w'
      assume inv: "rf_inv p n mx H F G (k, w)" and "stream_close (stream_flush (rf_stream k, w)) = (st, w')"
        and "is_open (rf_stream k)"
      moreover from inv \<open>is_open (rf_stream k)\<close> have "st_good (rf_stream k)"
        by (auto simp: rf_inv_def stream_ok_def is_open_def split: option.splits)
      moreover obtain st1 w1 where pour: "stream_pour (length (st_buf (rf_stream k))) (rf_stream k, w) = (st1, w1)"
        by (cases "stream_pour (length (st_buf (rf_stream k))) (rf_stream k, w)")
      ultimately have close: "stream_close (st1, w1) = (st, w')" by (simp add: stream_flush_def)
      from rf_flush_stream [OF inv pour] have inv1: "rf_inv p n mx H F G (k\<lparr>rf_stream := st1\<rparr>, w1)" .
      have "st_buf st1 = []" using pour inv \<open>is_open (rf_stream k)\<close>
        by (auto simp: stream_pour_def rf_inv_def files_ok_def stream_ok_def is_open_def split: option.splits if_splits)
      with close have "st = st1\<lparr>st_path := None, st_buf := []\<rparr>" "w' = w1"
        by (auto simp: stream_close_def stream_pour_def split: option.splits)
      with inv1 \<open>st_buf st1 = []\<close> show "?rf_kept (k\<lparr>rf_stream := st\<rparr>, w')"
        by (auto simp: rf_mid_def rf_inv_def rf_kept_def)
    qed
  qed auto
  have 2: "triple ?rf_kept (on_os (removeIfExists (rotatedPath p n))) (\<lambda>_. ?gap n) ?E" if "0 < n"
    unfolding rotated_slot [OF that] by (rule triple_weaken [OF triple_rf_mid [OF remove_oldest]]) (use assms K in auto)
  have 3: "triple (?gap n) (on_os (rotate_loop p n)) (\<lambda>_. ?gap 1) ?E" if "0 < n"
    by (rule triple_weaken [OF triple_rf_mid [OF rotate_loop_gap]]) (use assms K that in auto)
  have 4: "triple (?gap 1) (on_os (shift_file p (rotatedPath p 1))) (\<lambda>_. ?gap 0) ?E" if "0 < n"
  proof -
    have "triple (?gap (Suc 0)) (on_os (shift_file (slot p 0) (slot p (Suc 0)))) (\<lambda>_. ?gap 0) ?E"
      by (rule triple_weaken [OF triple_rf_mid [OF shift_file_gap]]) (use assms E that in auto)
    then show ?thesis by (simp add: rotated_slot)
  qed
  have 5: "triple (?gap 0) (rf_openNoLock p True) ?Q ?E"
    by (rule triple_weaken [OF rf_open_triple [of G, OF assms, of p n mx H F True]])
      (auto simp: rf_mid_def gap_def rf_kept_def file_content_def K [unfolded rf_mid_def rf_kept_def])
  show ?thesis
  proof (cases "0 < n")
    case True
    show ?thesis unfolding rotateNoLock_def by (intro triple_seq [OF 1] triple_seq [OF 2 [OF True]] triple_seq [OF 3 [OF True]] triple_seq [OF 4 [OF True]] 5)
  next
    case False
    then show ?thesis by (auto simp: triple_def rf_inv_def files_ok_def)
  qed
qed

text \<open>The part of \<open>rf_write\<close> before the text is put into the stream.\<close>

definition fits_file :: "nat \<Rightarrow> string \<Rightarrow> string \<Rightarrow> bool" where
  "fits_file mx s line \<longleftrightarrow> s = [] \<or> sz_add (length s) (sz_add (length line) 1) \<le> mx"

lemma fileSize_content: "fileSizeOrZero p w = length (file_content w p)"
  by (simp add: fileSizeOrZero_def file_content_def split: option.split)

lemma rf_prepare:
  assumes "G []"
  shows "triple (\<lambda>s. rf_inv p n mx H F G s \<and> (u \<longrightarrow> st_buf (rf_stream (fst s)) = []))
    (seq (guarded (\<lambda>(k, w). \<not> is_open (rf_stream k)) (rf_openNoLock p False))
      (guarded (\<lambda>kw. currentFileSizeNoLock kw > 0 \<and> sz_add (currentFileSizeNoLock kw) (sz_add (length line) 1) > mx)
         (rotateNoLock p n)))
    (\<lambda>_ s. rf_inv p n mx H F G s \<and> is_open (rf_stream (fst s)) \<and> (u \<longrightarrow> st_buf (rf_stream (fst s)) = []) \<and> fits_file mx (file_content (snd s) p) line)
    (rf_inv p n mx H F G)"
  (is "triple ?P _ ?Q ?E")
proof (rule triple_seq)
  let ?R = "\<lambda>s. rf_inv p n mx H F G s \<and> is_open (rf_stream (fst s)) \<and> (u \<longrightarrow> st_buf (rf_stream (fst s)) = [])"
  have "triple (\<lambda>s. ?P s \<and> (case s of (k, w) \<Rightarrow> \<not> is_open (rf_stream k))) (rf_openNoLock p False) (\<lambda>_. ?R) ?E"
  proof (rule triple_weaken [OF rf_open_triple [of G, OF assms, of p n mx H F False]])
    fix s assume "?P s \<and> (case s of (k, w) \<Rightarrow> \<not> is_open (rf_stream k))"
    then show "rf_mid p n mx (\<lambda>w. rf_kept p n H F G w \<and> (False \<longrightarrow> file_content w p = [])) s"
      using rf_mid_kept [of p n mx H F G s] by (simp add: is_open_def split: prod.splits)
  next
    fix s assume "rf_mid p n mx (rf_kept p n H F G) s" then show "?E s" by (simp add: rf_mid_kept)
  qed auto
  then show "triple ?P (guarded (\<lambda>(k, w). \<not> is_open (rf_stream k)) (rf_openNoLock p False)) (\<lambda>_. ?R) ?E"
    by (rule triple_guarded) auto
next
  let ?R = "\<lambda>s. rf_inv p n mx H F G s \<and> is_open (rf_stream (fst s)) \<and> (u \<longrightarrow> st_buf (rf_stream (fst s)) = [])"
  let ?b = "\<lambda>kw. currentFileSizeNoLock kw > 0 \<and> sz_add (currentFileSizeNoLock kw) (sz_add (length line) 1) > mx"
  have "triple (\<lambda>s. ?R s \<and> ?b s) (rotateNoLock p n) ?Q ?E"
    by (rule triple_weaken [OF rotate_triple [of G, OF assms, of p n mx H F]]) (auto simp: fits_file_def)
  then show "triple ?R (guarded ?b (rotateNoLock p n)) ?Q ?E"
    by (rule triple_guarded) (auto simp: fits_file_def currentFileSizeNoLock_def rf_inv_def fileSize_content split: prod.splits)
qed

lemma rf_write_triple:
  assumes "G []"
    and "\<And>s b. G (s @ b) \<Longrightarrow> fits_file mx s line \<Longrightarrow> u \<longrightarrow> b = [] \<Longrightarrow> G (s @ b @ line @ [CHR 0x0A])"
  shows "triple (\<lambda>s. rf_inv p n mx H F G s \<and> (u \<longrightarrow> st_buf (rf_stream (fst s)) = [])) (rf_write line)
    (\<lambda>_. rf_inv p n mx (H @ line @ [CHR 0x0A]) F G) (rf_inv p n mx H F G)"
  (is "triple ?P _ ?Q ?E")
proof -
  let ?R = "\<lambda>s. rf_inv p n mx H F G s \<and> is_open (rf_stream (fst s)) \<and> (u \<longrightarrow> st_buf (rf_stream (fst s)) = []) \<and> fits_file mx (file_content (snd s) p) line"
  let ?put = "rf_on_stream (stream_put (line @ [CHR 0x0A]))"
  have put: "triple ?R (seq ?put (check (\<lambda>(k, w). st_good (rf_stream k)) e)) ?Q ?E" for e
  proof (rule triple_seq)
    show "triple ?R ?put (\<lambda>_ s. ?Q () s \<and> st_good (rf_stream (fst s))) ?E"
      unfolding rf_on_stream_def
    proof (rule triple_modify, clarsimp split: prod.splits)
      fix k w st' w'
      assume "rf_inv p n mx H F G (k, w)" "is_open (rf_stream k)" "u \<longrightarrow> st_buf (rf_stream k) = []"
        and "fits_file mx (file_content w p) line" and "stream_put (line @ [CHR 0x0A]) (rf_stream k, w) = (st', w')"
      moreover from this have "G (file_content w p @ st_buf (rf_stream k) @ line @ [CHR 0x0A])"
        using assms(2) by (auto simp: rf_inv_def)
      ultimately show "rf_inv p n mx (H @ line @ [CHR 0x0A]) F G (k\<lparr>rf_stream := st'\<rparr>, w') \<and> st_good st'"
        using rf_put_stream [of p n mx H F G k w "line @ [CHR 0x0A]" st' w'] by simp
    qed
    show "triple (\<lambda>s. ?Q () s \<and> st_good (rf_stream (fst s))) (check (\<lambda>(k, w). st_good (rf_stream k)) e) ?Q ?E"
      by (rule triple_check) (auto split: prod.splits)
  qed
  show ?thesis unfolding rf_write_def
  proof (rule triple_gets)
    fix this show "triple (\<lambda>s. ?P s \<and> this = fst s)
      (seq (guarded (\<lambda>(k, w). \<not> is_open (rf_stream k)) (rf_openNoLock (rf_path this) False))
      (seq (guarded (\<lambda>kw. currentFileSizeNoLock kw > 0 \<and> sz_add (currentFileSizeNoLock kw) (sz_add (length line) 1) > rf_maxFileSize this)
             (rotateNoLock (rf_path this) (rf_maxFiles this)))
      (seq ?put (check (\<lambda>(k, w). st_good (rf_stream k)) (Runtime_error (''RotatingFileSink write failed: '' @ rf_path this)))))) ?Q ?E"
    proof (cases "rf_path this = p \<and> rf_maxFiles this = n \<and> rf_maxFileSize this = mx")
      case True
      have "triple (\<lambda>s. ?P s \<and> this = fst s)
        (seq (guarded (\<lambda>(k, w). \<not> is_open (rf_stream k)) (rf_openNoLock p False))
          (guarded (\<lambda>kw. currentFileSizeNoLock kw > 0 \<and> sz_add (currentFileSizeNoLock kw) (sz_add (length line) 1) > mx) (rotateNoLock p n)))
        (\<lambda>_. ?R) ?E"
        by (rule triple_weaken [OF rf_prepare [of G, OF assms(1), of p n mx H F u line]]) auto
      from triple_seq [OF this put] show ?thesis using True by (simp add: seq_assoc)
    next
      case False
      then show ?thesis by (auto simp: triple_def rf_inv_def)
    qed
  qed
qed

section \<open>Calls on a rotating sink\<close>

datatype sink_op = Sink_write string | Sink_flush

fun rf_op :: "sink_op \<Rightarrow> (RotatingFileSink \<times> os, unit) cpp" where
  "rf_op (Sink_write line) = rf_write line"
| "rf_op Sink_flush = rf_flush"

text \<open>The bytes of the lines whose \<^verbatim>\<open>write\<close> returned; a caller that catches the exception goes on.\<close>

fun accepted_line :: "sink_op \<Rightarrow> unit outcome \<Rightarrow> string list" where
  "accepted_line (Sink_write line) (Ret v) = [line @ [CHR 0x0A]]"
| "accepted_line _ _ = []"

fun rf_ops :: "sink_op list \<Rightarrow> RotatingFileSink \<times> os \<Rightarrow> string list \<times> RotatingFileSink \<times> os" where
  "rf_ops [] s = ([], s)"
| "rf_ops (op # ops) s =
     (case rf_op op s of (r, s') \<Rightarrow> case rf_ops ops s' of (lines, s'') \<Rightarrow> (accepted_line op r @ lines, s''))"

definition rf_history :: "RotatingFileSink \<times> os \<Rightarrow> string" where
  "rf_history = (\<lambda>(k, w). hist (rf_path k) (rf_maxFiles k) w @ st_buf (rf_stream k))"

lemma rf_flush_triple: "triple (rf_inv p n mx H F G) rf_flush (\<lambda>_. rf_inv p n mx H F G) (rf_inv p n mx H F G)"
  unfolding rf_flush_def
proof (rule triple_gets)
  let ?I = "rf_inv p n mx H F G"
  have "triple (\<lambda>s. ?I s \<and> v = fst s \<and> (case s of (k, w) \<Rightarrow> is_open (rf_stream k))) (rf_on_stream stream_flush) (\<lambda>_. ?I) ?I" for v
    unfolding rf_on_stream_def
  proof (rule triple_modify, clarsimp split: prod.splits)
    fix k w st' w' assume "?I (k, w)" and "stream_flush (rf_stream k, w) = (st', w')"
    then show "?I (k\<lparr>rf_stream := st'\<rparr>, w')"
      using rf_flush_stream [of p n mx H F G k w _ st' w'] by (auto simp: stream_flush_def split: if_splits)
  qed
  then show "triple (\<lambda>s. ?I s \<and> v = fst s) (guarded (\<lambda>(k, w). is_open (rf_stream k)) (seq (rf_on_stream stream_flush)
      (check (\<lambda>(k, w). st_good (rf_stream k)) (Runtime_error (''RotatingFileSink flush failed: '' @ rf_path v))))) (\<lambda>_. ?I) ?I" for v
    by (intro triple_guarded triple_seq triple_check) (auto simp: conj_assoc elim!: triple_weaken)
qed

definition whole :: "string \<Rightarrow> bool" where
  "whole s \<longleftrightarrow> s = [] \<or> last s = CHR 0x0A"

lemma rf_ops_inv:
  assumes "rf_inv p n mx H F whole s" and "rf_ops ops s = (lines, s')"
  shows "rf_inv p n mx (H @ concat lines) F whole s'"
  using assms
proof (induction ops arbitrary: H s lines)
  case (Cons op ops)
  obtain r s1 where step: "rf_op op s = (r, s1)" by (cases "rf_op op s")
  obtain rest where rest: "rf_ops ops s1 = (rest, s')" and lines: "lines = accepted_line op r @ rest"
    using Cons.prems(2) step by (auto split: prod.splits)
  have "rf_inv p n mx (H @ concat (accepted_line op r)) F whole s1"
  proof (cases op)
    case (Sink_write line)
    from tripleD [OF rf_write_triple [of whole mx line False], of p n H F s] Cons.prems(1) step Sink_write
    show ?thesis by (cases r) (auto simp: whole_def)
  next
    case Sink_flush
    with tripleD [OF rf_flush_triple Cons.prems(1)] step show ?thesis by (cases r) auto
  qed
  from Cons.IH [OF this rest] show ?case by (simp add: lines)
qed simp

lemma mk_RotatingFileSink_inv:
  assumes "mk_RotatingFileSink p mx n trunc w0 = (Ret (), k, w)" and "\<not> os_fault w0 (Os_write p)"
    and "\<And>i. i \<le> n \<Longrightarrow> G (file_content w (slot p i))"
  shows "rf_inv p n mx (rf_history (k, w)) (os_files w0) G (k, w)"
proof -
  let ?st = "\<lparr>st_path = Some p, st_buf = [], st_good = True\<rparr>"
  from assms(1) have "k = \<lparr>rf_path = p, rf_stream = ?st, rf_maxFileSize = mx, rf_maxFiles = n\<rparr>" "0 < n"
    and w: "w = w0\<lparr>os_files := (os_files w0)(p := Some (if trunc then [] else file_content w0 p))\<rparr>"
    by (auto simp: mk_RotatingFileSink_def Let_def rf_openNoLock_def run_seq on_os_def ensureParentDirectory_def
          rf_on_stream_def run_modify stream_open_def check_def is_open_def split: if_splits)
  moreover have "p \<in> slot p ` {0..n}" by force
  ultimately show ?thesis using assms(2,3) assms(3) [of 0]
    by (auto simp: rf_inv_def rf_history_def stream_ok_def files_ok_def)
qed

section \<open>Rotation without faults\<close>

definition no_faults :: "os \<Rightarrow> bool" where
  "no_faults w \<longleftrightarrow> os_fault w = (\<lambda>c. False)"

lemma shift_file_exact:
  assumes "no_faults w" and "a \<noteq> b" and "os_files w b = None"
  shows "shift_file a b w = (Ret (), w\<lparr>os_files := ((os_files w)(a := None))(b := os_files w a)\<rparr>)"
proof (cases "os_files w a")
  case None
  then have "((os_files w)(a := None))(b := os_files w a) = os_files w" using assms by (auto simp: fun_eq_iff)
  then show ?thesis using None by (simp add: shift_file_def guarded_def os_exists_def)
next
  case (Some x)
  then show ?thesis using assms
    by (auto simp: shift_file_def guarded_def os_exists_def run_seq removeIfExists_def renameFile_def no_faults_def fun_eq_iff
        intro!: os.equality)
qed

lemma rotate_loop_exact:
  assumes "no_faults w" and "1 \<le> i" and "os_files w (slot p i) = None"
  shows "\<exists>F. rotate_loop p i w = (Ret (), w\<lparr>os_files := F\<rparr>) \<and> F (slot p 1) = None
    \<and> (\<forall>j. 1 \<le> j \<longrightarrow> j < i \<longrightarrow> F (slot p (Suc j)) = os_files w (slot p j))
    \<and> (\<forall>q. q \<notin> slot p ` {1..i} \<longrightarrow> F q = os_files w q)"
  using assms(2,1,3)
proof (induction i arbitrary: w rule: nat_induct_at_least)
  case base
  then show ?case by (intro exI [of _ "os_files w"]) (subst rotate_loop.simps, simp add: run_ret)
next
  case (Suc i)
  let ?F = "((os_files w)(slot p i := None))(slot p (Suc i) := os_files w (slot p i))"
  let ?w = "w\<lparr>os_files := ?F\<rparr>"
  have shift: "shift_file (slot p i) (slot p (Suc i)) w = (Ret (), ?w)" using Suc.prems by (intro shift_file_exact) auto
  obtain F where F: "rotate_loop p i ?w = (Ret (), ?w\<lparr>os_files := F\<rparr>)" "F (slot p 1) = None"
    "\<And>j. 1 \<le> j \<Longrightarrow> j < i \<Longrightarrow> F (slot p (Suc j)) = ?F (slot p j)" "\<And>q. q \<notin> slot p ` {1..i} \<Longrightarrow> F q = ?F q"
    using Suc.IH [of ?w] Suc.prems by (auto simp: no_faults_def)
  have "rotate_loop p (Suc i) w = (Ret (), w\<lparr>os_files := F\<rparr>)"
    using Suc.hyps shift F(1) by (subst rotate_loop.simps) (simp add: rotated_slot run_seq)
  moreover have "F (slot p (Suc j)) = os_files w (slot p j)" if "1 \<le> j" "j < Suc i" for j
  proof (cases "j = i")
    case True
    have "slot p (Suc i) \<notin> slot p ` {1..i}" by auto
    then show ?thesis using F(4) True by simp
  next
    case False
    then show ?thesis using F(3) [of j] that by simp
  qed
  moreover have "F q = os_files w q" if "q \<notin> slot p ` {1..Suc i}" for q
  proof -
    from that Suc.hyps have "q \<notin> slot p ` {1..i}" "q \<noteq> slot p i" "q \<noteq> slot p (Suc i)" by auto
    then show ?thesis using F(4) by simp
  qed
  ultimately show ?case using F(2) by blast
qed

text \<open>The rotated files, the newest first.\<close>

definition rotated_list :: "path \<Rightarrow> nat \<Rightarrow> os \<Rightarrow> string list" where
  "rotated_list p n w = map (\<lambda>i. file_content w (slot p i)) [1..<Suc n]"

lemma rotate_exact:
  assumes "no_faults w" and "0 < n" and "rf_stream k = \<lparr>st_path = Some p, st_buf = buf, st_good = True\<rparr>"
    and "os_files w p = Some s"
  shows "\<exists>F. rotateNoLock p n (k, w) =
      (Ret (), k\<lparr>rf_stream := \<lparr>st_path = Some p, st_buf = [], st_good = True\<rparr>\<rparr>, w\<lparr>os_files := F\<rparr>)
    \<and> F p = Some [] \<and> rotated_list p n (w\<lparr>os_files := F\<rparr>) = take n ((s @ buf) # rotated_list p n w)"
proof -
  let ?w1 = "w\<lparr>os_files := (os_files w)(p := Some (s @ buf))\<rparr>"
  let ?w2 = "?w1\<lparr>os_files := (os_files ?w1)(slot p n := None)\<rparr>"
  have nf: "no_faults ?w2" using assms(1) by (simp add: no_faults_def)
  have close: "guarded (\<lambda>(k, w). is_open (rf_stream k)) (rf_on_stream (\<lambda>x. stream_close (stream_flush x))) (k, w)
      = (Ret (), k\<lparr>rf_stream := \<lparr>st_path = None, st_buf = [], st_good = True\<rparr>\<rparr>, ?w1)"
    using assms by (auto simp: guarded_def is_open_def rf_on_stream_def run_modify stream_flush_def stream_close_def
        stream_pour_def no_faults_def fun_upd_idem)
  obtain F where F: "rotate_loop p n ?w2 = (Ret (), ?w2\<lparr>os_files := F\<rparr>)" "F (slot p 1) = None"
    "\<And>j. 1 \<le> j \<Longrightarrow> j < n \<Longrightarrow> F (slot p (Suc j)) = os_files ?w2 (slot p j)"
    "\<And>q. q \<notin> slot p ` {1..n} \<Longrightarrow> F q = os_files ?w2 q"
    using rotate_loop_exact [OF nf, of n p] assms(2) by auto
  let ?w3 = "?w2\<lparr>os_files := F\<rparr>" and ?F = "(F(p := None))(slot p 1 := F p)"
  have "p \<notin> slot p ` {1..n}" by (auto simp: image_iff)
  then have p: "F p = Some (s @ buf)" using F(4) [of p] assms(2) by simp
  have shift: "shift_file p (slot p 1) ?w3 = (Ret (), ?w3\<lparr>os_files := ?F\<rparr>)"
    using shift_file_exact [of ?w3 p "slot p 1"] F(2) nf by (simp add: no_faults_def)
  let ?G = "?F(p := Some [])"
  have run: "rotateNoLock p n (k, w) =
      (Ret (), k\<lparr>rf_stream := \<lparr>st_path = Some p, st_buf = [], st_good = True\<rparr>\<rparr>, w\<lparr>os_files := ?G\<rparr>)"
    unfolding rotateNoLock_def
    using close F(1) shift assms(1,2)
    by (simp add: run_seq on_os_def removeIfExists_def no_faults_def rotated_slot rf_openNoLock_def
        ensureParentDirectory_def Let_def rf_on_stream_def run_modify stream_open_def check_def is_open_def file_content_def)
  have "file_content (w\<lparr>os_files := ?G\<rparr>) (slot p (Suc j)) = file_content ?w1 (slot p j)" if "j < n" for j
    using F(3) [of j] that p by (cases "j = 0") (auto simp: file_content_def)
  then have "rotated_list p n (w\<lparr>os_files := ?G\<rparr>) = map (\<lambda>j. file_content ?w1 (slot p j)) [0..<n]"
    using map_Suc_upt [of 0 n, symmetric] by (simp add: rotated_list_def del: upt_Suc)
  also have "\<dots> = take n (map (\<lambda>j. file_content ?w1 (slot p j)) [0..<Suc n])" by (simp add: take_map)
  also have "map (\<lambda>j. file_content ?w1 (slot p j)) [0..<Suc n] = (s @ buf) # rotated_list p n w"
    by (subst upt_conv_Cons) (auto simp: rotated_list_def file_content_def)
  finally have "rotated_list p n (w\<lparr>os_files := ?G\<rparr>) = take n ((s @ buf) # rotated_list p n w)" .
  moreover have "?G p = Some []" by simp
  ultimately show ?thesis using run by blast
qed

text \<open>
  The specification of a sink that is flushed after every line: the rotated files, the newest first, and the current file.
  A line that does not fit starts a new file, and of the old ones the newest \<open>n\<close> stay.
\<close>

fun rotating_spec :: "nat \<Rightarrow> nat \<Rightarrow> string \<Rightarrow> string list \<times> string \<Rightarrow> string list \<times> string" where
  "rotating_spec mx n line (rot, cur) =
     (if fits_file mx cur line then (rot, cur @ line @ [CHR 0x0A]) else (take n (cur # rot), line @ [CHR 0x0A]))"

definition rf_abs :: "RotatingFileSink \<times> os \<Rightarrow> string list \<times> string" where
  "rf_abs = (\<lambda>(k, w). (rotated_list (rf_path k) (rf_maxFiles k) w, file_content w (rf_path k)))"

definition rf_flushed :: "path \<Rightarrow> nat \<Rightarrow> nat \<Rightarrow> RotatingFileSink \<times> os \<Rightarrow> bool" where
  "rf_flushed p n mx = (\<lambda>(k, w).
     k = \<lparr>rf_path = p, rf_stream = \<lparr>st_path = Some p, st_buf = [], st_good = True\<rparr>, rf_maxFileSize = mx, rf_maxFiles = n\<rparr>
     \<and> 0 < n \<and> no_faults w \<and> os_files w p \<noteq> None)"

definition logged :: "string \<Rightarrow> (RotatingFileSink \<times> os, unit) cpp" where
  "logged line = seq (rf_write line) rf_flush"

lemma put_flush_exact:
  assumes "rf_flushed p n mx (k, w)"
  shows "seq (rf_on_stream (stream_put s)) (seq (check (\<lambda>(k, w). st_good (rf_stream k)) e) rf_flush) (k, w) =
    (Ret (), k, w\<lparr>os_files := (os_files w)(p := Some (file_content w p @ s))\<rparr>)"
proof -
  from assms obtain x where k: "k = \<lparr>rf_path = p, rf_stream = \<lparr>st_path = Some p, st_buf = [], st_good = True\<rparr>, rf_maxFileSize = mx, rf_maxFiles = n\<rparr>"
    and x: "os_files w p = Some x" and nf: "no_faults w" by (auto simp: rf_flushed_def)
  let ?m = "os_spill w [] s"
  let ?st = "\<lparr>st_path = Some p, st_buf = drop ?m s, st_good = True\<rparr>"
  let ?w = "w\<lparr>os_files := (os_files w)(p := Some (x @ take ?m s))\<rparr>"
  have put: "rf_on_stream (stream_put s) (k, w) = (Ret (), k\<lparr>rf_stream := ?st\<rparr>, ?w)"
    using nf x by (cases "take ?m s = []") (auto simp: k rf_on_stream_def run_modify stream_put_def is_open_def stream_pour_def no_faults_def fun_upd_idem)
  have "rf_flush (k\<lparr>rf_stream := ?st\<rparr>, ?w) = (Ret (), k, w\<lparr>os_files := (os_files w)(p := Some (x @ s))\<rparr>)"
    using nf x by (cases "drop ?m s = []")
      (auto simp: k rf_flush_def run_bind run_gets guarded_def is_open_def run_seq rf_on_stream_def run_modify stream_flush_def
        stream_pour_def no_faults_def check_def)
  then show ?thesis using put by (simp add: run_seq check_def file_content_def x)
qed

lemma logged_refines:
  assumes "rf_flushed p n mx (k, w)"
  shows "\<exists>w'. logged line (k, w) = (Ret (), k, w') \<and> rf_flushed p n mx (k, w')
    \<and> rf_abs (k, w') = rotating_spec mx n line (rf_abs (k, w))"
proof -
  from assms obtain x where k: "k = \<lparr>rf_path = p, rf_stream = \<lparr>st_path = Some p, st_buf = [], st_good = True\<rparr>, rf_maxFileSize = mx, rf_maxFiles = n\<rparr>"
    and x: "os_files w p = Some x" and nf: "no_faults w" and n: "0 < n" by (auto simp: rf_flushed_def)
  let ?rot = "\<lambda>kw. currentFileSizeNoLock kw > 0 \<and> sz_add (currentFileSizeNoLock kw) (sz_add (length line) 1) > mx"
  have fit: "?rot (k, w) \<longleftrightarrow> \<not> fits_file mx (file_content w p) line"
    by (auto simp: currentFileSizeNoLock_def fileSize_content k fits_file_def)
  obtain w1 where w1: "guarded ?rot (rotateNoLock p n) (k, w) = (Ret (), k, w1)" "rf_flushed p n mx (k, w1)"
    "(rotated_list p n w1, file_content w1 p) =
       (if fits_file mx (file_content w p) line then (rotated_list p n w, file_content w p) else (take n (file_content w p # rotated_list p n w), []))"
  proof (cases "fits_file mx (file_content w p) line")
    case True
    then have "guarded ?rot (rotateNoLock p n) (k, w) = (Ret (), k, w)" using fit unfolding guarded_def by (metis (full_types))
    then show thesis using that [of w] assms True by simp
  next
    case False
    obtain F where F: "rotateNoLock p n (k, w) = (Ret (), k, w\<lparr>os_files := F\<rparr>)" "F p = Some []"
      "rotated_list p n (w\<lparr>os_files := F\<rparr>) = take n (file_content w p # rotated_list p n w)"
      using rotate_exact [OF nf n, of k p "[]" x] x by (auto simp: k file_content_def)
    then show thesis using that [of "w\<lparr>os_files := F\<rparr>"] False fit nf n
      by (auto simp: guarded_def rf_flushed_def k no_faults_def file_content_def)
  qed
  let ?w' = "w1\<lparr>os_files := (os_files w1)(p := Some (file_content w1 p @ line @ [CHR 0x0A]))\<rparr>"
  have "logged line (k, w) = (Ret (), k, ?w')"
  proof -
    have "guarded (\<lambda>(k, w). \<not> is_open (rf_stream k)) (rf_openNoLock p False) (k, w) = (Ret (), k, w)"
      by (simp add: guarded_def k is_open_def)
    moreover have "logged line (k, w) =
      seq (guarded (\<lambda>(k, w). \<not> is_open (rf_stream k)) (rf_openNoLock p False))
      (seq (guarded ?rot (rotateNoLock p n))
      (seq (rf_on_stream (stream_put (line @ [CHR 0x0A])))
      (seq (check (\<lambda>(k, w). st_good (rf_stream k)) (Runtime_error (''RotatingFileSink write failed: '' @ p))) rf_flush))) (k, w)"
    proof -
      have "logged line (k, w) = seq (snd (k, rf_write line)) rf_flush (k, w)" by (simp add: logged_def)
      also have "\<dots> = seq (seq (guarded (\<lambda>(k, w). \<not> is_open (rf_stream k)) (rf_openNoLock p False))
        (seq (guarded ?rot (rotateNoLock p n)) (seq (rf_on_stream (stream_put (line @ [CHR 0x0A])))
        (check (\<lambda>(k, w). st_good (rf_stream k)) (Runtime_error (''RotatingFileSink write failed: '' @ p)))))) rf_flush (k, w)"
        by (subst (1 2) run_seq) (simp add: rf_write_def run_bind run_gets k)
      finally show ?thesis by (simp only: seq_assoc)
    qed
    ultimately show ?thesis
      using w1(1) put_flush_exact [OF w1(2), of "line @ [CHR 0x0A]"] by (simp add: run_seq [of "guarded _ _"])
  qed
  moreover have "rf_flushed p n mx (k, ?w')" using w1(2) by (auto simp: rf_flushed_def no_faults_def)
  moreover have "rotated_list p n ?w' = rotated_list p n w1" by (auto simp: rotated_list_def file_content_def)
  then have "rf_abs (k, ?w') = rotating_spec mx n line (rf_abs (k, w))"
    using w1(3) by (auto simp: rf_abs_def k file_content_def split: if_splits)
  ultimately show ?thesis by blast
qed

fun logged_all :: "string list \<Rightarrow> (RotatingFileSink \<times> os, unit) cpp" where
  "logged_all [] = ret ()"
| "logged_all (line # lines) = seq (logged line) (logged_all lines)"

lemma logged_all_refines:
  assumes "rf_flushed p n mx (k, w)"
  shows "\<exists>w'. logged_all lines (k, w) = (Ret (), k, w') \<and> rf_abs (k, w') = fold (rotating_spec mx n) lines (rf_abs (k, w))"
  using assms
proof (induction lines arbitrary: w)
  case Nil
  then show ?case by (simp add: run_ret)
next
  case (Cons line lines)
  obtain w1 where w1: "logged line (k, w) = (Ret (), k, w1)" "rf_flushed p n mx (k, w1)"
    "rf_abs (k, w1) = rotating_spec mx n line (rf_abs (k, w))"
    using logged_refines [OF Cons.prems, of line] by blast
  obtain w' where w': "logged_all lines (k, w1) = (Ret (), k, w')"
    "rf_abs (k, w') = fold (rotating_spec mx n) lines (rf_abs (k, w1))"
    using Cons.IH [OF w1(2)] by blast
  have "logged_all (line # lines) (k, w) = (Ret (), k, w')" using w1(1) w'(1) by (simp add: run_seq)
  then show ?case using w1(3) w'(2) by auto
qed

lemma mk_RotatingFileSink_flushed:
  assumes "mk_RotatingFileSink p mx n trunc w0 = (Ret (), k, w)" and "no_faults w0"
  shows "rf_flushed p n mx (k, w)"
  using assms
  by (auto simp: mk_RotatingFileSink_def Let_def rf_openNoLock_def run_seq on_os_def ensureParentDirectory_def
      rf_on_stream_def run_modify stream_open_def check_def is_open_def rf_flushed_def no_faults_def split: if_splits)

text \<open>What the specification says of sizes: no file grows above the limit, unless one line alone is larger.\<close>

lemma rotating_spec_bound:
  assumes "list_all (\<lambda>f. length f \<le> B) (cur # rot)" and "length line + 1 \<le> B" and "mx \<le> B" and "B + B < size_t_mod"
    and "rotating_spec mx n line (rot, cur) = (rot', cur')"
  shows "list_all (\<lambda>f. length f \<le> B) (cur' # rot')"
proof -
  have "sz_add (length cur) (sz_add (length line) 1) = length cur + (length line + 1)"
    using assms(1,2,4) by (simp add: sz_add_nowrap)
  moreover have "f \<in> set (take n (cur # rot)) \<Longrightarrow> length f \<le> B" for f
    using assms(1) set_take_subset [of n "cur # rot"] by (auto simp: list_all_iff)
  ultimately show ?thesis using assms by (auto simp: fits_file_def list_all_iff split: if_splits)
qed

lemma rotating_spec_bound_fold:
  assumes "list_all (\<lambda>f. length f \<le> B) (cur # rot)" and "list_all (\<lambda>line. length line + 1 \<le> B) lines" and "mx \<le> B"
    and "B + B < size_t_mod" and "fold (rotating_spec mx n) lines (rot, cur) = (rot', cur')"
  shows "list_all (\<lambda>f. length f \<le> B) (cur' # rot')"
  using assms(1,2,5)
proof (induction lines arbitrary: rot cur)
  case (Cons line lines)
  obtain rot1 cur1 where step: "rotating_spec mx n line (rot, cur) = (rot1, cur1)" by (cases "rotating_spec mx n line (rot, cur)")
  have "list_all (\<lambda>f. length f \<le> B) (cur1 # rot1)"
    by (rule rotating_spec_bound [OF _ _ assms(3,4) step]) (use Cons.prems in auto)
  then show ?case using Cons.IH [of cur1 rot1] Cons.prems step by simp
qed simp

text \<open>
  C12: Refinement. A \<^verbatim>\<open>RotatingFileSink\<close> that is flushed after every line does what its specification
  says, for every sequence of lines, and every write and flush returns: a line that fits is appended to the current file; one
  that does not starts a new file, the current file becomes rotated file 1, file \<open>i\<close> becomes file \<open>i + 1\<close>, and only a
  file beyond the \<open>n\<close>-th is dropped. So no file exceeds \<open>B\<close>, when \<open>B\<close> is at least \<^verbatim>\<open>maxFileSize\<close> and at
  least the length of every single line and of the files found at the start.
\<close>

theorem rotating_sink_refines:
  assumes "mk_RotatingFileSink p mx n trunc w0 = (Ret (), k, w)" and "no_faults w0"
    and "list_all (\<lambda>f. length f \<le> B) (file_content w p # rotated_list p n w)" and "list_all (\<lambda>line. length line + 1 \<le> B) lines"
    and "mx \<le> B" and "B + B < size_t_mod"
  shows "\<exists>w'. logged_all lines (k, w) = (Ret (), k, w')
    \<and> (rotated_list p n w', file_content w' p) = fold (rotating_spec mx n) lines (rotated_list p n w, file_content w p)
    \<and> list_all (\<lambda>f. length f \<le> B) (file_content w' p # rotated_list p n w')"
proof -
  have fl: "rf_flushed p n mx (k, w)" by (rule mk_RotatingFileSink_flushed [OF assms(1,2)])
  then have abs: "rf_abs (k, v) = (rotated_list p n v, file_content v p)" for v by (auto simp: rf_abs_def rf_flushed_def)
  obtain w' where w': "logged_all lines (k, w) = (Ret (), k, w')"
    "(rotated_list p n w', file_content w' p) = fold (rotating_spec mx n) lines (rotated_list p n w, file_content w p)"
    using logged_all_refines [OF fl, of lines] by (auto simp: abs)
  then show ?thesis using rotating_spec_bound_fold [OF assms(3-6) w'(2) [symmetric]] by blast
qed

text \<open>
  C13: Safety, also when the operating system fails. Whatever directory, open, remove and rename calls fail, what the files of a
  \<^verbatim>\<open>RotatingFileSink\<close> and its buffer hold, from the oldest file to the newest, is the end of what they held at the
  start followed by the lines whose \<^verbatim>\<open>write\<close> returned, in order: no accepted line is lost, repeated or moved, but for the
  oldest ones. No line is split over two files, and no other file is touched.
\<close>

theorem rotating_sink_history:
  assumes "mk_RotatingFileSink p mx n trunc w0 = (Ret (), k, w)" and "\<not> os_fault w0 (Os_write p)"
    and "list_all whole (file_content w p # rotated_list p n w)" and "rf_ops ops (k, w) = (lines, k', w')"
  shows "suffix (rf_history (k', w')) (rf_history (k, w) @ concat lines)
    \<and> list_all whole (rotated_list p n w') \<and> (\<forall>q. q \<notin> slot p ` {0..n} \<longrightarrow> os_files w' q = os_files w0 q)"
proof -
  have "whole (file_content w (slot p i))" if "i \<le> n" for i
    using assms(3) that by (cases "i = 0") (auto simp: rotated_list_def list_all_iff)
  then have "rf_inv p n mx (rf_history (k, w)) (os_files w0) whole (k, w)"
    by (rule mk_RotatingFileSink_inv [where G = whole, OF assms(1,2)])
  from rf_ops_inv [OF this assms(4)] have inv: "rf_inv p n mx (rf_history (k, w) @ concat lines) (os_files w0) whole (k', w')" .
  then show ?thesis by (auto simp: rf_inv_def rf_history_def files_ok_def rotated_list_def list_all_iff)
qed

section \<open>A rotating sink that is not flushed\<close>

text \<open>
  The size that \<^verbatim>\<open>write\<close> compares with the limit is the size of the file on disk, without what the stream still
  buffers: with a limit of 10 bytes, and a library that buffers, four lines of six bytes end up in one file of 24.
\<close>

definition buffering_os :: os where
  "buffering_os = \<lparr>os_files = Map.empty, os_fault = (\<lambda>_. False), os_message = (\<lambda>_. []), os_spill = (\<lambda>_ _. 0), os_cout = [], os_cerr = []\<rparr>"

definition sink_after :: "nat \<Rightarrow> nat \<Rightarrow> sink_op list \<Rightarrow> os \<Rightarrow> string list \<times> RotatingFileSink \<times> os" where
  "sink_after mx n ops w = (case mk_RotatingFileSink ''a.log'' mx n True w of (r, s) \<Rightarrow> rf_ops ops s)"

lemmas rf_eval = sink_after_def mk_RotatingFileSink_def rf_openNoLock_def rf_write_def rf_flush_def rf_on_stream_def run_seq run_bind run_gets
  run_modify on_os_def ensureParentDirectory_def stream_open_def stream_put_def stream_pour_def stream_flush_def guarded_def check_def is_open_def
  currentFileSizeNoLock_def fileSizeOrZero_def file_content_def closed_stream_def buffering_os_def Let_def

theorem rotating_sink_overruns:
  "(case sink_after 10 2 (replicate 4 (Sink_write ''hello'') @ [Sink_flush]) buffering_os of (lines, k, w) \<Rightarrow>
      length (file_content w ''a.log'') = 24 \<and> os_files w (rotatedPath ''a.log'' 1) = None)"
proof -
  have [simp]: "filename ''a.log'' = ''a.log''" by (simp add: filename_def)
  have [simp]: "parent_path ''a.log'' = []" by (simp add: parent_path_def strip_slashes_def)
  have [simp]: "rotatedPath ''a.log'' (Suc 0) \<noteq> ''a.log''"
    using slot_inj [of "''a.log''" "Suc 0" 0] by (simp add: slot_def del: slot_inj slot_eq_p)
  show ?thesis by (simp add: rf_eval numeral_eq_Suc)
qed

lemma filename_a_log [simp]: "filename ''a.log'' = ''a.log''" "parent_path ''a.log'' = []"
  by (simp_all add: filename_def parent_path_def strip_slashes_def)

theorem rotating_sink_refines_witness:
  "\<exists>k w w'. mk_RotatingFileSink ''a.log'' 10 1 True buffering_os = (Ret (), k, w)
     \<and> logged_all [''hello'', ''hi'', ''world''] (k, w) = (Ret (), k, w')
     \<and> (rotated_list ''a.log'' 1 w', file_content w' ''a.log'') = ([''hello'' @ [CHR 0x0A] @ ''hi'' @ [CHR 0x0A]], ''world'' @ [CHR 0x0A])"
proof -
  let ?k = "\<lparr>rf_path = ''a.log'', rf_stream = \<lparr>st_path = Some ''a.log'', st_buf = [], st_good = True\<rparr>, rf_maxFileSize = 10, rf_maxFiles = 1\<rparr>"
  let ?w = "buffering_os\<lparr>os_files := [''a.log'' \<mapsto> []]\<rparr>"
  have mk: "mk_RotatingFileSink ''a.log'' 10 1 True buffering_os = (Ret (), ?k, ?w)" by (simp add: rf_eval)
  have "rotatedPath ''a.log'' (Suc 0) \<noteq> ''a.log''"
    using slot_inj [of "''a.log''" "Suc 0" 0] by (simp add: slot_def del: slot_inj slot_eq_p)
  then have rot: "rotated_list ''a.log'' 1 ?w = [[]]" and cur: "file_content ?w ''a.log'' = []"
    by (simp_all add: rotated_list_def file_content_def buffering_os_def slot_def)
  have "no_faults buffering_os" by (simp add: no_faults_def buffering_os_def)
  from rotating_sink_refines [OF mk this, of 10 "[''hello'', ''hi'', ''world'']"]
  show ?thesis using mk unfolding rot cur by (auto simp: fits_file_def sz_add_def size_t_mod_def)
qed

theorem rotating_sink_history_witness:
  "\<exists>k w k' w'. mk_RotatingFileSink ''a.log'' 10 1 True (buffering_os\<lparr>os_fault := (\<lambda>c. c = Os_rename ''a.log'' (rotatedPath ''a.log'' 1))\<rparr>) = (Ret (), k, w)
     \<and> rf_ops [Sink_write ''hello'', Sink_flush, Sink_write ''world'', Sink_write ''again''] (k, w) = ([''hello'' @ [CHR 0x0A]], k', w')
     \<and> suffix (rf_history (k', w')) (''hello'' @ [CHR 0x0A])"
proof -
  let ?init = "buffering_os\<lparr>os_fault := (\<lambda>c. c = Os_rename ''a.log'' (rotatedPath ''a.log'' 1))\<rparr>"
  let ?k = "\<lparr>rf_path = ''a.log'', rf_stream = \<lparr>st_path = Some ''a.log'', st_buf = [], st_good = True\<rparr>, rf_maxFileSize = 10, rf_maxFiles = 1\<rparr>"
  let ?w = "?init\<lparr>os_files := [''a.log'' \<mapsto> []]\<rparr>"
  let ?ops = "[Sink_write ''hello'', Sink_flush, Sink_write ''world'', Sink_write ''again'']"
  have mk: "mk_RotatingFileSink ''a.log'' 10 1 True ?init = (Ret (), ?k, ?w)" by (simp add: rf_eval)
  have ne: "rotatedPath ''a.log'' (Suc 0) \<noteq> ''a.log''"
    using slot_inj [of "''a.log''" "Suc 0" 0] by (simp add: slot_def del: slot_inj slot_eq_p)
  then have whole: "list_all whole (file_content ?w ''a.log'' # rotated_list ''a.log'' 1 ?w)" and h: "rf_history (?k, ?w) = []"
    by (simp_all add: rotated_list_def file_content_def buffering_os_def slot_def whole_def rf_history_def hist_def part_def)
  obtain lines k' w' where run: "rf_ops ?ops (?k, ?w) = (lines, k', w')" by (cases "rf_ops ?ops (?k, ?w)")
  moreover have "fst (rf_ops ?ops (?k, ?w)) = [''hello'' @ [CHR 0x0A]]"
    using ne by (simp add: rf_eval rotateNoLock_def removeIfExists_def rotate_loop.simps run_ret shift_file_def os_exists_def
        renameFile_def stream_close_def sz_add_def size_t_mod_def)
  ultimately have lines: "lines = [''hello'' @ [CHR 0x0A]]" by simp
  have "suffix (rf_history (k', w')) (''hello'' @ [CHR 0x0A])"
    using rotating_sink_history [OF mk _ whole run] unfolding h lines by simp
  then show ?thesis using mk run unfolding lines by blast
qed

section \<open>The interface of a sink\<close>

text \<open>
  What a logger relies on: in a good state every call returns and leaves a good state; \<open>received s\<close> is a text of which a write
  adds the line when its event is routed there, and which a flush does not change.
\<close>

locale sink =
  fixes write_op :: "LogEvent \<Rightarrow> string \<Rightarrow> ('s, unit) cpp"
    and flush_op :: "('s, unit) cpp"
    and good :: "'s \<Rightarrow> bool"
    and received :: "'s \<Rightarrow> string"
    and routed :: "LogEvent \<Rightarrow> bool"
  assumes write_ok: "good s \<Longrightarrow>
      \<exists>s'. write_op ev line s = (Ret (), s') \<and> good s' \<and> received s' = received s @ (if routed ev then line @ [CHR 0x0A] else [])"
    and flush_ok: "good s \<Longrightarrow> \<exists>s'. flush_op s = (Ret (), s') \<and> good s' \<and> received s' = received s"
begin

fun calls :: "(LogEvent \<times> string) option list \<Rightarrow> ('s, unit) cpp" where
  "calls [] = ret ()"
| "calls (Some (ev, line) # cs) = seq (write_op ev line) (calls cs)"
| "calls (None # cs) = seq flush_op (calls cs)"

fun routed_text :: "(LogEvent \<times> string) option list \<Rightarrow> string" where
  "routed_text [] = []"
| "routed_text (Some (ev, line) # cs) = (if routed ev then line @ [CHR 0x0A] else []) @ routed_text cs"
| "routed_text (None # cs) = routed_text cs"

text \<open>Any sequence of writes and flushes returns, and the text grows by the routed lines in their order.\<close>

lemma calls_received:
  assumes "good s"
  shows "\<exists>s'. calls cs s = (Ret (), s') \<and> good s' \<and> received s' = received s @ routed_text cs"
  using assms
proof (induction cs arbitrary: s rule: calls.induct)
  case (2 ev line cs)
  then show ?case using write_ok [OF "2.prems", of ev line] by (fastforce simp: run_seq)
next
  case (3 cs)
  then show ?case using flush_ok [OF "3.prems"] by (fastforce simp: run_seq)
qed (simp add: run_ret)

end

section \<open>The sinks implement it\<close>

lemma stream_put_ok:
  assumes "stream_ok p st w" and "st_path st = Some p" and "no_faults w" and "stream_put s (st, w) = (st', w')"
  shows "stream_ok p st' w' \<and> st_path st' = Some p \<and> st_good st' \<and> no_faults w'
    \<and> file_content w' p @ st_buf st' = file_content w p @ st_buf st @ s \<and> (\<forall>q. q \<noteq> p \<longrightarrow> os_files w' q = os_files w q)"
proof -
  let ?st = "st\<lparr>st_buf := st_buf st @ s\<rparr>"
  have "stream_ok p ?st w" "\<not> os_fault w (Os_write p)" using assms by (auto simp: stream_ok_def no_faults_def)
  moreover have "stream_pour (os_spill w (st_buf st) s) (?st, w) = (st', w')"
    using assms by (auto simp: stream_put_def is_open_def stream_ok_def)
  ultimately show ?thesis using pour_history [of p ?st w "os_spill w (st_buf st) s" st' w'] assms(2,3)
    by (auto simp: no_faults_def stream_ok_def)
qed

lemma stream_flush_ok:
  assumes "stream_ok p st w" and "no_faults w" and "stream_flush (st, w) = (st', w')"
  shows "stream_ok p st' w' \<and> st_path st' = st_path st \<and> no_faults w' \<and> st_buf st' = (if st_good st \<or> st_path st = None then [] else st_buf st)
    \<and> file_content w' p @ st_buf st' = file_content w p @ st_buf st \<and> (\<forall>q. q \<noteq> p \<longrightarrow> os_files w' q = os_files w q)"
proof -
  have "\<not> os_fault w (Os_write p)" using assms(2) by (simp add: no_faults_def)
  note pour = pour_history [OF assms(1) this, of "length (st_buf st)" st' w']
  show ?thesis
  proof (cases "st_good st")
    case True
    then have *: "stream_pour (length (st_buf st)) (st, w) = (st', w')" using assms(3) by (simp add: stream_flush_def)
    moreover have "st_buf st' = []" using * assms(1,2)
      by (auto simp: stream_pour_def stream_ok_def no_faults_def split: option.splits if_splits)
    ultimately show ?thesis using pour assms(2) True by (auto simp: no_faults_def)
  next
    case False
    then show ?thesis using assms by (auto simp: stream_flush_def stream_ok_def split: option.splits)
  qed
qed

interpretation cout: sink console_write console_flush "\<lambda>w. True" os_cout "\<lambda>ev. ev_level ev < Level_Error"
  by unfold_locales (auto simp: console_write_def console_flush_def run_modify run_ret less_Level_def)

interpretation cerr: sink console_write console_flush "\<lambda>w. True" os_cerr "\<lambda>ev. Level_Error \<le> ev_level ev"
  by unfold_locales (auto simp: console_write_def console_flush_def run_modify run_ret less_eq_Level_def)

definition fk_good :: "FileSink \<times> os \<Rightarrow> bool" where
  "fk_good = (\<lambda>(k, w). no_faults w \<and> stream_ok (fk_path k) (fk_stream k) w)"

definition fk_received :: "FileSink \<times> os \<Rightarrow> string" where
  "fk_received = (\<lambda>(k, w). file_content w (fk_path k) @ st_buf (fk_stream k))"

lemma fk_reopen:
  assumes "fk_good (k, w)"
  shows "\<exists>k' w'. guarded (\<lambda>(k, w). \<not> is_open (fk_stream k)) (fk_open (fk_path k) False) (k, w) = (Ret (), k', w')
    \<and> fk_good (k', w') \<and> fk_path k' = fk_path k \<and> st_path (fk_stream k') = Some (fk_path k) \<and> fk_received (k', w') = fk_received (k, w)
    \<and> (\<forall>q. q \<noteq> fk_path k \<longrightarrow> os_files w' q = os_files w q)"
proof (cases "st_path (fk_stream k)")
  case None
  then show ?thesis using assms
    by (auto simp: guarded_def is_open_def fk_open_def run_seq on_os_def ensureParentDirectory_def Let_def no_faults_def fk_good_def
        fk_on_stream_def run_modify stream_open_def check_def stream_ok_def fk_received_def file_content_def)
next
  case (Some q)
  then show ?thesis using assms by (auto simp: guarded_def is_open_def fk_good_def stream_ok_def)
qed

text \<open>A write and a flush of a file sink, with the files they leave alone.\<close>

lemma fk_write_ok:
  assumes "fk_good (k, w)"
  shows "\<exists>k' w'. fk_write line (k, w) = (Ret (), k', w') \<and> fk_good (k', w') \<and> fk_path k' = fk_path k
    \<and> fk_received (k', w') = fk_received (k, w) @ line @ [CHR 0x0A] \<and> (\<forall>q. q \<noteq> fk_path k \<longrightarrow> os_files w' q = os_files w q)"
proof -
  obtain k1 w1 where open1: "guarded (\<lambda>(k, w). \<not> is_open (fk_stream k)) (fk_open (fk_path k) False) (k, w) = (Ret (), k1, w1)"
    and good1: "fk_good (k1, w1)" "fk_path k1 = fk_path k" "st_path (fk_stream k1) = Some (fk_path k)" "fk_received (k1, w1) = fk_received (k, w)"
    and frame1: "\<forall>q. q \<noteq> fk_path k \<longrightarrow> os_files w1 q = os_files w q"
    using fk_reopen assms by blast
  obtain st' w' where put: "stream_put (line @ [CHR 0x0A]) (fk_stream k1, w1) = (st', w')"
    by (cases "stream_put (line @ [CHR 0x0A]) (fk_stream k1, w1)")
  have ok: "stream_ok (fk_path k) st' w'" "st_good st'" "no_faults w'"
    "file_content w' (fk_path k) @ st_buf st' = file_content w1 (fk_path k) @ st_buf (fk_stream k1) @ line @ [CHR 0x0A]"
    "\<forall>q. q \<noteq> fk_path k \<longrightarrow> os_files w' q = os_files w1 q"
    using stream_put_ok [of "fk_path k" "fk_stream k1" w1, OF _ good1(3) _ put] good1(1,2) by (auto simp: fk_good_def)
  have "fk_write line (k, w) = (Ret (), k1\<lparr>fk_stream := st'\<rparr>, w')"
    using open1 put ok(2) by (simp add: fk_write_def run_bind run_gets run_seq fk_on_stream_def run_modify check_def)
  moreover have "fk_good (k1\<lparr>fk_stream := st'\<rparr>, w')" using ok good1(2) by (simp add: fk_good_def)
  moreover have "fk_received (k1\<lparr>fk_stream := st'\<rparr>, w') = fk_received (k, w) @ line @ [CHR 0x0A]"
    using ok(4) good1(2,4) by (simp add: fk_received_def)
  ultimately show ?thesis using good1(2) ok(5) frame1 by auto
qed

lemma fk_flush_ok:
  assumes "fk_good (k, w)"
  shows "\<exists>k' w'. fk_flush (k, w) = (Ret (), k', w') \<and> fk_good (k', w') \<and> fk_path k' = fk_path k \<and> st_buf (fk_stream k') = []
    \<and> fk_received (k', w') = fk_received (k, w) \<and> (\<forall>q. q \<noteq> fk_path k \<longrightarrow> os_files w' q = os_files w q)"
proof -
  obtain st' w' where fl: "stream_flush (fk_stream k, w) = (st', w')" by (cases "stream_flush (fk_stream k, w)")
  have ok: "stream_ok (fk_path k) st' w'" "st_path st' = st_path (fk_stream k)" "no_faults w'"
    "file_content w' (fk_path k) @ st_buf st' = file_content w (fk_path k) @ st_buf (fk_stream k)"
    "\<forall>q. q \<noteq> fk_path k \<longrightarrow> os_files w' q = os_files w q"
    "st_buf st' = (if st_good (fk_stream k) \<or> st_path (fk_stream k) = None then [] else st_buf (fk_stream k))"
    using stream_flush_ok [OF _ _ fl, of "fk_path k"] assms by (auto simp: fk_good_def)
  show ?thesis
  proof (cases "is_open (fk_stream k)")
    case True
    then have "fk_flush (k, w) = (Ret (), k\<lparr>fk_stream := st'\<rparr>, w')"
      using fl ok(1,2) by (auto simp: fk_flush_def run_bind run_gets guarded_def run_seq fk_on_stream_def run_modify check_def stream_ok_def is_open_def)
    moreover have "st_good (fk_stream k)" using assms True by (auto simp: fk_good_def stream_ok_def is_open_def)
    ultimately show ?thesis using ok by (simp add: fk_good_def fk_received_def)
  next
    case False
    then show ?thesis using assms by (auto simp: fk_flush_def run_bind run_gets guarded_def fk_good_def stream_ok_def is_open_def)
  qed
qed

interpretation file_sink: sink "\<lambda>ev. fk_write" fk_flush fk_good fk_received "\<lambda>ev. True"
proof
  fix s line assume "fk_good s"
  then show "\<exists>s'. fk_write line s = (Ret (), s') \<and> fk_good s' \<and> fk_received s' = fk_received s @ (if True then line @ [CHR 0x0A] else [])"
    using fk_write_ok [of "fst s" "snd s" line] by auto
next
  fix s assume "fk_good s"
  then show "\<exists>s'. fk_flush s = (Ret (), s') \<and> fk_good s' \<and> fk_received s' = fk_received s"
    using fk_flush_ok [of "fst s" "snd s"] by auto
qed

text \<open>A daily sink, seen through the file of one date \<open>d\<close>.\<close>

definition df_good :: "path \<Rightarrow> DailyFileSink \<times> os \<Rightarrow> bool" where
  "df_good p = (\<lambda>(k, w). df_path k = p \<and> no_faults w \<and> stream_ok (datedPath p (df_currentDate k)) (df_stream k) w)"

definition df_received :: "path \<Rightarrow> string \<Rightarrow> DailyFileSink \<times> os \<Rightarrow> string" where
  "df_received p d = (\<lambda>(k, w). file_content w (datedPath p d) @ (if df_currentDate k = d then st_buf (df_stream k) else []))"

lemma datedPath_inj [simp]: "datedPath p d = datedPath p d' \<longleftrightarrow> d = d'"
  by (auto simp: datedPath_def Let_def path_join_def)

text \<open>A change of the stream of the current date, with what its file and its buffer hold together grown by \<open>s\<close>.\<close>

lemma df_received_stream:
  assumes "file_content w' (datedPath p (df_currentDate k)) @ st_buf st' = file_content w (datedPath p (df_currentDate k)) @ st_buf (df_stream k) @ s"
    and "\<And>q. q \<noteq> datedPath p (df_currentDate k) \<Longrightarrow> os_files w' q = os_files w q"
  shows "df_received p d (k\<lparr>df_stream := st'\<rparr>, w') = df_received p d (k, w) @ (if df_currentDate k = d then s else [])"
  using assms assms(2) [of "datedPath p d"] by (auto simp: df_received_def file_content_def)

lemma df_close:
  assumes "df_good p (k, w)" and "stream_close (stream_flush (df_stream k, w)) = (st', w')"
  shows "st_path st' = None" and "st_buf st' = []" and "no_faults w'"
    and "df_received p d (k\<lparr>df_stream := st'\<rparr>, w') = df_received p d (k, w)"
proof -
  let ?q = "datedPath p (df_currentDate k)"
  obtain st1 w1 where fl: "stream_flush (df_stream k, w) = (st1, w1)" by (cases "stream_flush (df_stream k, w)")
  from assms(1) have ok: "stream_ok ?q (df_stream k) w" "no_faults w" by (auto simp: df_good_def)
  note f = stream_flush_ok [OF ok fl]
  have "st_buf st1 = []" using f ok by (auto simp: stream_ok_def split: option.splits if_splits)
  then have st': "st' = st1\<lparr>st_path := None, st_buf := []\<rparr>" "w' = w1"
    using assms(2) by (auto simp: fl stream_close_def stream_pour_def split: option.splits)
  then show "st_path st' = None" "st_buf st' = []" "no_faults w'" using f by auto
  show "df_received p d (k\<lparr>df_stream := st'\<rparr>, w') = df_received p d (k, w)"
    using df_received_stream [of w1 p k st' w "[]" d] f \<open>st_buf st1 = []\<close> st' by simp
qed

lemma df_openForDate:
  assumes "df_good p (k, w)"
  shows "\<exists>k' w'. openForDateNoLock p date False (k, w) = (Ret (), k', w') \<and> df_good p (k', w') \<and> df_currentDate k' = date
    \<and> st_path (df_stream k') = Some (datedPath p date) \<and> (\<forall>d. df_received p d (k', w') = df_received p d (k, w))"
proof -
  let ?close = "guarded (\<lambda>(k, w). is_open (df_stream k)) (df_on_stream (\<lambda>x. stream_close (stream_flush x)))"
  obtain st1 w1 where c: "?close (k, w) = (Ret (), k\<lparr>df_stream := st1\<rparr>, w1)" "st_path st1 = None" "st_buf st1 = []" "no_faults w1"
    "\<And>d. df_received p d (k\<lparr>df_stream := st1\<rparr>, w1) = df_received p d (k, w)"
  proof (cases "is_open (df_stream k)")
    case True
    obtain st1 w1 where *: "stream_close (stream_flush (df_stream k, w)) = (st1, w1)"
      by (cases "stream_close (stream_flush (df_stream k, w))")
    show thesis by (rule that [of st1 w1]) (use True * df_close [OF assms *] in \<open>auto simp: guarded_def df_on_stream_def run_modify\<close>)
  next
    case False
    show thesis by (rule that [of "df_stream k" w])
      (use False assms in \<open>auto simp: guarded_def is_open_def df_good_def stream_ok_def\<close>)
  qed
  let ?st = "\<lparr>st_path = Some (datedPath p date), st_buf = [], st_good = True\<rparr>"
  let ?k = "k\<lparr>df_stream := ?st, df_currentDate := date\<rparr>"
  let ?w = "w1\<lparr>os_files := (os_files w1)(datedPath p date := Some (file_content w1 (datedPath p date)))\<rparr>"
  have cont: "file_content ?w q = file_content w1 q" for q by (simp add: file_content_def)
  have "openForDateNoLock p date False (k, w) = (Ret (), ?k, ?w)"
    using c(1,4) by (simp add: openForDateNoLock_def run_seq on_os_def ensureParentDirectory_def Let_def no_faults_def
        df_on_stream_def run_modify stream_open_def check_def is_open_def)
  moreover have "df_received p d (?k, ?w) = df_received p d (k, w)" for d
    using c(3) c(5) [of d] by (auto simp: df_received_def cont)
  moreover have "df_good p (?k, ?w)" using assms c(4) by (simp add: df_good_def no_faults_def stream_ok_def)
  ultimately show ?thesis by auto
qed

lemma df_sink:
  "sink (df_write sys) df_flush (df_good p) (df_received p d) (\<lambda>ev. dateTextFromTimestampUs sys (ev_timestampUs ev) = d)"
proof
  fix s line and ev :: LogEvent assume good: "df_good p s"
  obtain k w where s: "s = (k, w)" by (cases s)
  let ?date = "dateTextFromTimestampUs sys (ev_timestampUs ev)"
  let ?open = "guarded (\<lambda>(k, w). \<not> is_open (df_stream k) \<or> ?date \<noteq> df_currentDate k) (openForDateNoLock p ?date False)"
  obtain k1 w1 where o: "?open (k, w) = (Ret (), k1, w1)" "df_good p (k1, w1)" "df_currentDate k1 = ?date"
    "st_path (df_stream k1) = Some (datedPath p ?date)" "df_received p d (k1, w1) = df_received p d (k, w)"
  proof (cases "\<not> is_open (df_stream k) \<or> ?date \<noteq> df_currentDate k")
    case True
    obtain k1 w1 where *: "openForDateNoLock p ?date False (k, w) = (Ret (), k1, w1)" "df_good p (k1, w1)" "df_currentDate k1 = ?date"
      "st_path (df_stream k1) = Some (datedPath p ?date)" "\<forall>d. df_received p d (k1, w1) = df_received p d (k, w)"
      using df_openForDate [of p k w ?date] good s by blast
    moreover have "?open (k, w) = (Ret (), k1, w1)" unfolding guarded_def case_prod_conv if_P [OF True] by (rule *(1))
    ultimately show thesis using that [of k1 w1] by simp
  next
    case False
    then have "?open (k, w) = (Ret (), k, w)" unfolding guarded_def by simp
    moreover have "df_currentDate k = ?date" "st_path (df_stream k) = Some (datedPath p ?date)"
      using False good by (auto simp: s is_open_def df_good_def stream_ok_def)
    ultimately show thesis using that [of k w] good s by simp
  qed
  obtain st' w' where put: "stream_put (line @ [CHR 0x0A]) (df_stream k1, w1) = (st', w')"
    by (cases "stream_put (line @ [CHR 0x0A]) (df_stream k1, w1)")
  have ok: "stream_ok (datedPath p ?date) st' w'" "st_good st'" "no_faults w'"
    "file_content w' (datedPath p ?date) @ st_buf st' = file_content w1 (datedPath p ?date) @ st_buf (df_stream k1) @ line @ [CHR 0x0A]"
    "\<And>q. q \<noteq> datedPath p ?date \<Longrightarrow> os_files w' q = os_files w1 q"
    using stream_put_ok [OF _ o(4) _ put] o(2,3) by (auto simp: df_good_def)
  have "df_write sys ev line s = (Ret (), k1\<lparr>df_stream := st'\<rparr>, w')"
    using o(1) put ok(2) good by (simp add: df_write_def s run_bind run_gets run_seq df_on_stream_def run_modify check_def Let_def df_good_def)
  moreover have "df_good p (k1\<lparr>df_stream := st'\<rparr>, w')" using ok o(2,3) by (simp add: df_good_def)
  moreover have "df_received p d (k1\<lparr>df_stream := st'\<rparr>, w') = df_received p d s @ (if ?date = d then line @ [CHR 0x0A] else [])"
    using df_received_stream [of w' p k1 st' w1 "line @ [CHR 0x0A]" d] ok(4,5) o(3,5) by (simp add: s)
  ultimately show "\<exists>s'. df_write sys ev line s = (Ret (), s') \<and> df_good p s' \<and>
      df_received p d s' = df_received p d s @ (if ?date = d then line @ [CHR 0x0A] else [])" by blast
next
  fix s assume good: "df_good p s"
  obtain k w where s: "s = (k, w)" by (cases s)
  obtain st' w' where fl: "stream_flush (df_stream k, w) = (st', w')" by (cases "stream_flush (df_stream k, w)")
  let ?q = "datedPath p (df_currentDate k)"
  have ok: "stream_ok ?q st' w'" "st_path st' = st_path (df_stream k)" "no_faults w'"
    "file_content w' ?q @ st_buf st' = file_content w ?q @ st_buf (df_stream k)" "\<And>q. q \<noteq> ?q \<Longrightarrow> os_files w' q = os_files w q"
    using stream_flush_ok [OF _ _ fl, of ?q] good by (auto simp: s df_good_def)
  show "\<exists>s'. df_flush s = (Ret (), s') \<and> df_good p s' \<and> df_received p d s' = df_received p d s"
  proof (cases "is_open (df_stream k)")
    case True
    then have "df_flush s = (Ret (), k\<lparr>df_stream := st'\<rparr>, w')"
      using fl ok(1,2) by (auto simp: s df_flush_def run_bind run_gets guarded_def run_seq df_on_stream_def run_modify check_def stream_ok_def is_open_def)
    then show ?thesis using ok good df_received_stream [of w' p k st' w "[]" d] by (simp add: s df_good_def)
  next
    case False
    then show ?thesis using good by (simp add: s df_flush_def run_bind run_gets guarded_def)
  qed
qed

interpretation daily: sink "df_write sys" df_flush "df_good p" "df_received p d" "\<lambda>ev. dateTextFromTimestampUs sys (ev_timestampUs ev) = d"
  for sys p d
  by (rule df_sink)

end
