(* ===== verification/AsyncLogger.thy ===== *)
theory AsyncLogger
  imports Sinks
begin

text \<open>
  \<^verbatim>\<open>dbase::log::AsyncLogger\<close> (\<^verbatim>\<open>code/include/dbase/log/async_logger.h\<close>, \<^verbatim>\<open>code/src/log/async_logger.cpp\<close>): the
  threads that log, flush and stop, and the worker that writes. The mutex is explicit, because \<^verbatim>\<open>m_stopping\<close>,
  \<^verbatim>\<open>m_nextSequence\<close> and \<^verbatim>\<open>m_processedSequence\<close> are atomics that other threads change while it is held: a
  test of a wait predicate, and the wait that follows it, are two steps. \<open>client_step\<close> and \<open>worker_step\<close> are the
  next atomic action of a thread, \<open>None\<close> when it cannot go on; \<open>al_exec\<close> adds the calls, the setters and
  spurious wakeups. The sequence numbers are natural numbers: 64 bits do not wrap in any run of the program. A
  sink that throws ends the process (the worker has no handler), and with it the run.

  \<open>al_enqueued\<close>, \<open>al_out\<close>, \<open>al_marks\<close> and \<open>al_flushes\<close> record what happened: the items in the order in which they
  entered the queue, what the sinks were called with, the number of items queued when a thread's flush was numbered, and for every
  flush that returned from its wait that number and the number of items handled by then.
\<close>

section \<open>State\<close>

datatype AsyncOverflowPolicy = Block_policy | DiscardNewest

record QueueItem =
  it_event :: LogEvent
  it_sequence :: nat
  it_flushOnly :: bool

datatype al_owner = Nobody | Client_owns nat | Worker_owns

text \<open>
  A client is outside, in \<^verbatim>\<open>log\<close> (the event is made), at the start of \<^verbatim>\<open>flush\<close>, in \<^verbatim>\<open>enqueueItem\<close> (before the
  mutex; testing, admitted by, and about to wait for \<^verbatim>\<open>m_cv\<close>; waiting; about to notify), in the wait of \<^verbatim>\<open>flush\<close> on
  \<^verbatim>\<open>m_flushCv\<close>, flushing the sinks itself, or in \<^verbatim>\<open>stop\<close>.
\<close>

datatype client_pc =
    C_out | C_log LogEvent | C_flush
  | C_enqueue QueueItem | C_test QueueItem | C_admitted QueueItem | C_block QueueItem | C_wait QueueItem | C_relock QueueItem
  | C_notify QueueItem
  | C_flush_lock nat | C_flush_test nat | C_flush_block nat | C_flush_wait nat
  | C_direct
  | C_stop_cv | C_stop_flushCv | C_stop_join

record batch_locals =
  b_flushOn :: Level
  b_sinks :: "nat list"
  b_style :: PatternStyle

datatype worker_pc =
    W_top | W_lock Level | W_test Level | W_ready Level | W_block Level | W_wait Level
  | W_notify batch_locals "QueueItem list"
  | W_item batch_locals "QueueItem list"
  | W_store batch_locals QueueItem "QueueItem list"
  | W_stored batch_locals "QueueItem list"
  | W_last
  | W_done

text \<open>What the sinks are called with: for an item, all sinks of the batch; or a flush of all sinks.\<close>

datatype al_call = Out_item QueueItem "nat list" PatternStyle bool | Out_flush "nat list"

record AsyncLogger =
  al_queue :: "QueueItem list"
  al_level :: Level
  al_flushOn :: Level
  al_style :: PatternStyle
  al_sinks :: "nat list"
  al_capacity :: nat
  al_policy :: AsyncOverflowPolicy
  al_dropped :: nat
  al_next :: nat
  al_processed :: nat
  al_stopping :: bool
  al_owner_of_mutex :: al_owner
  al_client :: "nat \<Rightarrow> client_pc"
  al_worker :: worker_pc
  al_enqueued :: "QueueItem list"
  al_out :: "al_call list"
  al_marks :: "nat \<Rightarrow> nat"
  al_flushes :: "(nat \<times> nat) list"

definition mk_AsyncLogger :: "PatternStyle \<Rightarrow> nat \<Rightarrow> AsyncOverflowPolicy \<Rightarrow> AsyncLogger" where
  "mk_AsyncLogger style queueCapacity overflowPolicy =
     \<lparr>al_queue = [], al_level = Level_Info, al_flushOn = Level_Error, al_style = style, al_sinks = [0],
      al_capacity = (if queueCapacity = 0 then 8192 else queueCapacity), al_policy = overflowPolicy, al_dropped = 0,
      al_next = 0, al_processed = 0, al_stopping = False, al_owner_of_mutex = Nobody,
      al_client = (\<lambda>_. C_out), al_worker = W_top, al_enqueued = [], al_out = [], al_marks = (\<lambda>_. 0), al_flushes = []\<rparr>"

definition c_goto :: "nat \<Rightarrow> client_pc \<Rightarrow> AsyncLogger \<Rightarrow> AsyncLogger" where
  "c_goto t p s = s\<lparr>al_client := (al_client s)(t := p)\<rparr>"

definition w_goto :: "worker_pc \<Rightarrow> AsyncLogger \<Rightarrow> AsyncLogger" where
  "w_goto p s = s\<lparr>al_worker := p\<rparr>"

definition al_shouldLog :: "Level \<Rightarrow> AsyncLogger \<Rightarrow> bool" where
  "al_shouldLog level s \<longleftrightarrow> level_int level \<ge> level_int (al_level s)"

fun handled :: "al_call list \<Rightarrow> QueueItem list" where
  "handled [] = []"
| "handled (Out_item it _ _ _ # cs) = it # handled cs"
| "handled (Out_flush _ # cs) = handled cs"

section \<open>Condition variables\<close>

fun c_woken :: "client_pc \<Rightarrow> client_pc" where
  "c_woken (C_wait it) = C_relock it"
| "c_woken p = p"

fun c_flush_woken :: "client_pc \<Rightarrow> client_pc" where
  "c_flush_woken (C_flush_wait target) = C_flush_lock target"
| "c_flush_woken p = p"

fun w_woken :: "worker_pc \<Rightarrow> worker_pc" where
  "w_woken (W_wait fl) = W_lock fl"
| "w_woken p = p"

definition notify_cv :: "AsyncLogger \<Rightarrow> AsyncLogger" where
  "notify_cv s = s\<lparr>al_client := c_woken \<circ> al_client s, al_worker := w_woken (al_worker s)\<rparr>"

definition notify_flushCv :: "AsyncLogger \<Rightarrow> AsyncLogger" where
  "notify_flushCv s = s\<lparr>al_client := c_flush_woken \<circ> al_client s\<rparr>"

section \<open>Clients\<close>

definition al_push :: "nat \<Rightarrow> QueueItem \<Rightarrow> AsyncLogger \<Rightarrow> AsyncLogger" where
  "al_push t it s = c_goto t (C_notify it)
     (s\<lparr>al_queue := al_queue s @ [it], al_enqueued := al_enqueued s @ [it], al_owner_of_mutex := Nobody\<rparr>)"

text \<open>\<^verbatim>\<open>enqueueItem\<close> returned false: a flush then flushes the sinks itself, a log line is gone.\<close>

definition not_enqueued :: "nat \<Rightarrow> QueueItem \<Rightarrow> AsyncLogger \<Rightarrow> AsyncLogger" where
  "not_enqueued t it s = c_goto t (if it_flushOnly it then C_direct else C_out) (s\<lparr>al_owner_of_mutex := Nobody\<rparr>)"

definition enqueueItem_begin :: "nat \<Rightarrow> QueueItem \<Rightarrow> AsyncLogger \<Rightarrow> AsyncLogger" where
  "enqueueItem_begin t it s =
     (if al_stopping s then not_enqueued t it s
      else if al_policy s = Block_policy \<or> it_flushOnly it then c_goto t (C_test it) (s\<lparr>al_owner_of_mutex := Client_owns t\<rparr>)
      else if length (al_queue s) \<ge> al_capacity s then not_enqueued t it (s\<lparr>al_dropped := al_dropped s + 1\<rparr>)
      else al_push t it s)"

definition number :: "nat \<Rightarrow> LogEvent \<Rightarrow> bool \<Rightarrow> AsyncLogger \<Rightarrow> AsyncLogger" where
  "number t ev flushOnly s =
     c_goto t (C_enqueue \<lparr>it_event = ev, it_sequence = al_next s + 1, it_flushOnly = flushOnly\<rparr>)
       (s\<lparr>al_next := al_next s + 1, al_marks := (al_marks s)(t := length (al_enqueued s))\<rparr>)"

definition default_event :: LogEvent where
  "default_event = \<lparr>ev_level = Level_Info, ev_message = [], ev_file = [], ev_function = [], ev_line = 0, ev_pid = 0, ev_tid = 0, ev_timestampUs = 0\<rparr>"

definition lock :: "nat \<Rightarrow> client_pc \<Rightarrow> AsyncLogger \<Rightarrow> AsyncLogger option" where
  "lock t p s = (if al_owner_of_mutex s = Nobody then Some (c_goto t p (s\<lparr>al_owner_of_mutex := Client_owns t\<rparr>)) else None)"

definition client_step :: "nat \<Rightarrow> AsyncLogger \<Rightarrow> AsyncLogger option" where
  "client_step t s =
     (case al_client s t of
        C_out \<Rightarrow> None
      | C_log ev \<Rightarrow> Some (number t ev False s)
      | C_flush \<Rightarrow> Some (number t default_event True s)
      | C_enqueue it \<Rightarrow> (if al_owner_of_mutex s = Nobody then Some (enqueueItem_begin t it s) else None)
      | C_test it \<Rightarrow>
          Some (c_goto t (if al_stopping s \<or> length (al_queue s) < al_capacity s then C_admitted it else C_block it) s)
      | C_admitted it \<Rightarrow> Some (if al_stopping s then not_enqueued t it s else al_push t it s)
      | C_block it \<Rightarrow> Some (c_goto t (C_wait it) (s\<lparr>al_owner_of_mutex := Nobody\<rparr>))
      | C_wait it \<Rightarrow> None
      | C_relock it \<Rightarrow> lock t (C_test it) s
      | C_notify it \<Rightarrow> Some (c_goto t (if it_flushOnly it then C_flush_lock (it_sequence it) else C_out) (notify_cv s))
      | C_flush_lock target \<Rightarrow> lock t (C_flush_test target) s
      | C_flush_test target \<Rightarrow>
          Some (if al_processed s \<ge> target
                then c_goto t C_out (s\<lparr>al_owner_of_mutex := Nobody,
                       al_flushes := al_flushes s @ [(al_marks s t, length (handled (al_out s)))]\<rparr>)
                else c_goto t (C_flush_block target) s)
      | C_flush_block target \<Rightarrow> Some (c_goto t (C_flush_wait target) (s\<lparr>al_owner_of_mutex := Nobody\<rparr>))
      | C_flush_wait target \<Rightarrow> None
      | C_direct \<Rightarrow> (if al_owner_of_mutex s = Nobody then Some (c_goto t C_out (s\<lparr>al_out := al_out s @ [Out_flush (al_sinks s)]\<rparr>)) else None)
      | C_stop_cv \<Rightarrow> Some (c_goto t C_stop_flushCv (notify_cv s))
      | C_stop_flushCv \<Rightarrow> Some (c_goto t C_stop_join (notify_flushCv s))
      | C_stop_join \<Rightarrow> (if al_worker s = W_done then Some (c_goto t C_out s) else None))"

section \<open>The worker\<close>

definition take_batch :: "Level \<Rightarrow> AsyncLogger \<Rightarrow> AsyncLogger" where
  "take_batch fl s =
     w_goto (W_notify \<lparr>b_flushOn = fl, b_sinks = al_sinks s, b_style = al_style s\<rparr> (al_queue s))
       (s\<lparr>al_queue := [], al_owner_of_mutex := Nobody\<rparr>)"

definition handle_item :: "batch_locals \<Rightarrow> QueueItem \<Rightarrow> AsyncLogger \<Rightarrow> AsyncLogger" where
  "handle_item b it s =
     s\<lparr>al_out := al_out s @
         [Out_item it (b_sinks b) (b_style b) (it_flushOnly it \<or> level_int (ev_level (it_event it)) \<ge> level_int (b_flushOn b))]\<rparr>"

definition worker_step :: "AsyncLogger \<Rightarrow> AsyncLogger option" where
  "worker_step s =
     (case al_worker s of
        W_top \<Rightarrow> Some (w_goto (W_lock (al_flushOn s)) s)
      | W_lock fl \<Rightarrow> (if al_owner_of_mutex s = Nobody then Some (w_goto (W_test fl) (s\<lparr>al_owner_of_mutex := Worker_owns\<rparr>)) else None)
      | W_test fl \<Rightarrow> Some (w_goto (if al_stopping s \<or> al_queue s \<noteq> [] then W_ready fl else W_block fl) s)
      | W_block fl \<Rightarrow> Some (w_goto (W_wait fl) (s\<lparr>al_owner_of_mutex := Nobody\<rparr>))
      | W_wait fl \<Rightarrow> None
      | W_ready fl \<Rightarrow>
          Some (if al_stopping s \<and> al_queue s = [] then w_goto W_last (s\<lparr>al_owner_of_mutex := Nobody\<rparr>) else take_batch fl s)
      | W_notify b batch \<Rightarrow> Some (w_goto (W_item b batch) (notify_cv s))
      | W_item b batch \<Rightarrow>
          Some (case batch of [] \<Rightarrow> w_goto W_top s | it # rest \<Rightarrow> w_goto (W_store b it rest) (handle_item b it s))
      | W_store b it rest \<Rightarrow> Some (w_goto (W_stored b rest) (s\<lparr>al_processed := it_sequence it\<rparr>))
      | W_stored b rest \<Rightarrow> Some (w_goto (W_item b rest) (notify_flushCv s))
      | W_last \<Rightarrow> (if al_owner_of_mutex s = Nobody then Some (w_goto W_done (s\<lparr>al_out := al_out s @ [Out_flush (al_sinks s)]\<rparr>)) else None)
      | W_done \<Rightarrow> None)"

section \<open>Actions\<close>

datatype al_action =
    Run_client nat | Run_worker
  | Call_log nat LogEvent | Call_flush nat | Call_stop nat
  | Wake_client nat | Wake_worker
  | Set_level Level | Set_flushOn Level | Set_style PatternStyle | Add_sink nat | Clear_sinks

definition al_log :: "nat \<Rightarrow> LogEvent \<Rightarrow> AsyncLogger \<Rightarrow> AsyncLogger" where
  "al_log t ev s = (if al_shouldLog (ev_level ev) s then c_goto t (C_log ev) s else s)"

definition al_flush :: "nat \<Rightarrow> AsyncLogger \<Rightarrow> AsyncLogger" where
  "al_flush t s = c_goto t (if al_stopping s then C_direct else C_flush) s"

definition al_stop :: "nat \<Rightarrow> AsyncLogger \<Rightarrow> AsyncLogger" where
  "al_stop t s = (if al_stopping s then s else c_goto t C_stop_cv (s\<lparr>al_stopping := True\<rparr>))"

definition locked_update :: "(AsyncLogger \<Rightarrow> AsyncLogger) \<Rightarrow> AsyncLogger \<Rightarrow> AsyncLogger option" where
  "locked_update f s = (if al_owner_of_mutex s = Nobody then Some (f s) else None)"

fun al_exec :: "al_action \<Rightarrow> AsyncLogger \<Rightarrow> AsyncLogger option" where
  "al_exec (Run_client t) s = client_step t s"
| "al_exec Run_worker s = worker_step s"
| "al_exec (Call_log t ev) s = (if al_client s t = C_out then Some (al_log t ev s) else None)"
| "al_exec (Call_flush t) s = (if al_client s t = C_out then Some (al_flush t s) else None)"
| "al_exec (Call_stop t) s = (if al_client s t = C_out then Some (al_stop t s) else None)"
| "al_exec (Wake_client t) s = Some (c_goto t (c_flush_woken (c_woken (al_client s t))) s)"
| "al_exec Wake_worker s = Some (w_goto (w_woken (al_worker s)) s)"
| "al_exec (Set_level l) s = Some (s\<lparr>al_level := l\<rparr>)"
| "al_exec (Set_flushOn l) s = Some (s\<lparr>al_flushOn := l\<rparr>)"
| "al_exec (Set_style st) s = locked_update (al_style_update (\<lambda>_. st)) s"
| "al_exec (Add_sink k) s = locked_update (al_sinks_update (\<lambda>ks. ks @ [k])) s"
| "al_exec Clear_sinks s = locked_update (al_sinks_update (\<lambda>_. [])) s"

definition al_step :: "AsyncLogger \<Rightarrow> AsyncLogger \<Rightarrow> bool" where
  "al_step s s' \<longleftrightarrow> (\<exists>a. al_exec a s = Some s')"

fun al_run :: "al_action list \<Rightarrow> AsyncLogger \<Rightarrow> AsyncLogger option" where
  "al_run [] s = Some s"
| "al_run (a # as) s = (case al_exec a s of None \<Rightarrow> None | Some s' \<Rightarrow> al_run as s')"

lemma al_run_reach: "al_run as s = Some s' \<Longrightarrow> al_step\<^sup>*\<^sup>* s s'"
proof (induction as arbitrary: s)
  case (Cons a as)
  then obtain s1 where "al_exec a s = Some s1" "al_run as s1 = Some s'" by (auto split: option.splits)
  moreover from this have "al_step s s1" by (auto simp: al_step_def)
  ultimately show ?case using Cons.IH by (blast intro: converse_rtranclp_into_rtranclp)
qed simp

section \<open>Invariants\<close>

lemmas al_defs = c_goto_def w_goto_def al_push_def not_enqueued_def enqueueItem_begin_def number_def lock_def notify_cv_def notify_flushCv_def
  take_batch_def handle_item_def al_log_def al_flush_def al_stop_def locked_update_def

lemma al_step_cases:
  assumes "al_step s s'"
  obtains (client) t where "client_step t s = Some s'" | (worker) "worker_step s = Some s'"
    | (call_log) t ev where "al_client s t = C_out" "s' = al_log t ev s"
    | (call_flush) t where "al_client s t = C_out" "s' = al_flush t s"
    | (call_stop) t where "al_client s t = C_out" "s' = al_stop t s"
    | (wake_client) t where "s' = c_goto t (c_flush_woken (c_woken (al_client s t))) s"
    | (wake_worker) "s' = w_goto (w_woken (al_worker s)) s"
    | (setting) l fl st ks where "s' = s\<lparr>al_level := l, al_flushOn := fl, al_style := st, al_sinks := ks\<rparr>"
proof -
  from assms obtain a where a: "al_exec a s = Some s'" by (auto simp: al_step_def)
  have set: "\<exists>l fl st ks. s' = s\<lparr>al_level := l, al_flushOn := fl, al_style := st, al_sinks := ks\<rparr>"
    if "s' = s\<lparr>al_level := l\<rparr> \<or> s' = s\<lparr>al_flushOn := l\<rparr> \<or> s' = s\<lparr>al_style := st\<rparr> \<or> s' = s\<lparr>al_sinks := ks\<rparr>" for l st ks
    using that by (metis AsyncLogger.surjective AsyncLogger.update_convs(2-5))
  show thesis
  proof (cases a)
    case (Set_level l)
    then show ?thesis using a set [of l] setting by auto
  next
    case (Set_flushOn l)
    then show ?thesis using a set [of l] setting by auto
  next
    case (Set_style st)
    then show ?thesis using a set [of _ st] setting by (auto simp: locked_update_def split: if_splits)
  next
    case (Add_sink k)
    then show ?thesis using a set [of _ _ "al_sinks s @ [k]"] setting by (auto simp: locked_update_def split: if_splits)
  next
    case Clear_sinks
    then show ?thesis using a set [of _ _ "[]"] setting by (auto simp: locked_update_def split: if_splits)
  qed (use a that in \<open>auto split: if_splits\<close>)
qed

text \<open>The atomic actions of a client, by what they do to the shared state.\<close>

fun item_of :: "client_pc \<Rightarrow> QueueItem option" where
  "item_of (C_enqueue it) = Some it"
| "item_of (C_test it) = Some it"
| "item_of (C_admitted it) = Some it"
| "item_of (C_block it) = Some it"
| "item_of (C_wait it) = Some it"
| "item_of (C_relock it) = Some it"
| "item_of (C_notify it) = Some it"
| "item_of _ = None"

lemma client_cases:
  assumes "client_step t s = Some s'"
  obtains
    (number) ev fo where "al_client s t \<in> {C_log ev, C_flush}" "s' = number t ev fo s"
  | (refused) it where "al_client s t = C_enqueue it \<and> al_owner_of_mutex s = Nobody \<or> al_client s t = C_admitted it" "al_stopping s" "s' = not_enqueued t it s"
  | (dropped) it where "al_client s t = C_enqueue it" "al_owner_of_mutex s = Nobody" "\<not> it_flushOnly it"
      "s' = not_enqueued t it (s\<lparr>al_dropped := al_dropped s + 1\<rparr>)"
  | (acquire) it where "al_client s t \<in> {C_enqueue it, C_relock it}" "al_owner_of_mutex s = Nobody"
      "s' = c_goto t (C_test it) (s\<lparr>al_owner_of_mutex := Client_owns t\<rparr>)"
  | (pushed) it where "al_client s t = C_enqueue it \<and> al_owner_of_mutex s = Nobody \<and> length (al_queue s) < al_capacity s \<or> al_client s t = C_admitted it"
      "\<not> al_stopping s" "s' = al_push t it s"
  | (admitted) it where "al_client s t = C_test it" "al_stopping s \<or> length (al_queue s) < al_capacity s" "s' = c_goto t (C_admitted it) s"
  | (full) it where "al_client s t = C_test it" "\<not> al_stopping s" "al_capacity s \<le> length (al_queue s)" "s' = c_goto t (C_block it) s"
  | (wait) it where "al_client s t = C_block it" "s' = c_goto t (C_wait it) (s\<lparr>al_owner_of_mutex := Nobody\<rparr>)"
  | (notify) it where "al_client s t = C_notify it"
      "s' = c_goto t (if it_flushOnly it then C_flush_lock (it_sequence it) else C_out) (notify_cv s)"
  | (flush_acquire) target where "al_client s t = C_flush_lock target" "al_owner_of_mutex s = Nobody"
      "s' = c_goto t (C_flush_test target) (s\<lparr>al_owner_of_mutex := Client_owns t\<rparr>)"
  | (flush_returns) target where "al_client s t = C_flush_test target" "target \<le> al_processed s"
      "s' = c_goto t C_out (s\<lparr>al_owner_of_mutex := Nobody, al_flushes := al_flushes s @ [(al_marks s t, length (handled (al_out s)))]\<rparr>)"
  | (flush_blocks) target where "al_client s t = C_flush_test target" "al_processed s < target" "s' = c_goto t (C_flush_block target) s"
  | (flush_waits) target where "al_client s t = C_flush_block target" "s' = c_goto t (C_flush_wait target) (s\<lparr>al_owner_of_mutex := Nobody\<rparr>)"
  | (direct) "al_client s t = C_direct" "al_owner_of_mutex s = Nobody" "s' = c_goto t C_out (s\<lparr>al_out := al_out s @ [Out_flush (al_sinks s)]\<rparr>)"
  | (stop_cv) "al_client s t = C_stop_cv" "s' = c_goto t C_stop_flushCv (notify_cv s)"
  | (stop_flushCv) "al_client s t = C_stop_flushCv" "s' = c_goto t C_stop_join (notify_flushCv s)"
  | (joined) "al_client s t = C_stop_join" "al_worker s = W_done" "s' = c_goto t C_out s"
proof (cases "al_client s t")
  case (C_enqueue it)
  then show thesis using assms refused dropped acquire pushed
    by (simp add: client_step_def enqueueItem_begin_def split: if_splits)
next
  case (C_admitted it)
  then show thesis using assms refused pushed by (simp add: client_step_def split: if_splits)
next
  case (C_test it)
  then show thesis using assms admitted full by (simp add: client_step_def split: if_splits)
next
  case (C_log ev)
  then show thesis using assms number [of ev False] by (simp add: client_step_def)
next
  case C_flush
  then show thesis using assms number [of default_event True] by (simp add: client_step_def)
next
  case (C_flush_test target)
  then show thesis using assms flush_returns flush_blocks by (simp add: client_step_def split: if_splits)
qed (use assms that in \<open>simp_all add: client_step_def lock_def split: if_splits\<close>)

text \<open>Who holds the mutex.\<close>

fun c_holds :: "client_pc \<Rightarrow> bool" where
  "c_holds (C_test it) = True"
| "c_holds (C_admitted it) = True"
| "c_holds (C_block it) = True"
| "c_holds (C_flush_test target) = True"
| "c_holds (C_flush_block target) = True"
| "c_holds _ = False"

fun w_holds :: "worker_pc \<Rightarrow> bool" where
  "w_holds (W_test fl) = True"
| "w_holds (W_ready fl) = True"
| "w_holds (W_block fl) = True"
| "w_holds _ = False"

definition mutex_ok :: "AsyncLogger \<Rightarrow> bool" where
  "mutex_ok s \<longleftrightarrow> (\<forall>t. c_holds (al_client s t) \<longleftrightarrow> al_owner_of_mutex s = Client_owns t)
     \<and> (w_holds (al_worker s) \<longleftrightarrow> al_owner_of_mutex s = Worker_owns)"

lemma woken_holds [simp]:
  "c_holds (c_woken p) = c_holds p" "c_holds (c_flush_woken p) = c_holds p" "w_holds (w_woken w) = w_holds w"
  by (cases p; simp)+ (cases w; simp)

lemma mutex_at: "mutex_ok s \<Longrightarrow> c_holds (al_client s t) \<longleftrightarrow> al_owner_of_mutex s = Client_owns t"
  by (simp add: mutex_ok_def)

text \<open>A client moves on, keeps, takes or releases the mutex; nobody else does.\<close>

lemma mutex_ok_upd:
  assumes "mutex_ok s" and "\<And>u. u \<noteq> t \<Longrightarrow> c_holds (al_client s' u) = c_holds (al_client s u)"
    and "w_holds (al_worker s') = w_holds (al_worker s)"
    and "al_owner_of_mutex s' = al_owner_of_mutex s \<and> c_holds (al_client s' t) = c_holds (al_client s t)
      \<or> al_owner_of_mutex s = Nobody \<and> al_owner_of_mutex s' = Client_owns t \<and> c_holds (al_client s' t)
      \<or> (c_holds (al_client s t) \<or> al_owner_of_mutex s = Nobody) \<and> al_owner_of_mutex s' = Nobody \<and> \<not> c_holds (al_client s' t)"
  shows "mutex_ok s'"
proof -
  have "c_holds (al_client s' u) \<longleftrightarrow> al_owner_of_mutex s' = Client_owns u" for u
    using assms(2) [of u] assms(4) mutex_at [OF assms(1), of u] mutex_at [OF assms(1), of t] by (cases "u = t") auto
  moreover have "w_holds (al_worker s') \<longleftrightarrow> al_owner_of_mutex s' = Worker_owns"
  proof -
    have w: "w_holds (al_worker s) \<longleftrightarrow> al_owner_of_mutex s = Worker_owns" using assms(1) by (simp add: mutex_ok_def)
    show ?thesis using assms(4) mutex_at [OF assms(1), of t] unfolding assms(3) w by auto
  qed
  ultimately show ?thesis by (simp add: mutex_ok_def)
qed

lemma mutex_ok_client:
  assumes "client_step t s = Some s'" and "mutex_ok s"
  shows "mutex_ok s'"
proof (rule mutex_ok_upd [OF assms(2), of t])
  show "c_holds (al_client s' u) = c_holds (al_client s u)" if "u \<noteq> t" for u
    using assms(1) by (cases rule: client_cases) (use that in \<open>simp_all add: al_defs\<close>)
  show "w_holds (al_worker s') = w_holds (al_worker s)"
    using assms(1) by (cases rule: client_cases) (simp_all add: al_defs)
  show "al_owner_of_mutex s' = al_owner_of_mutex s \<and> c_holds (al_client s' t) = c_holds (al_client s t)
      \<or> al_owner_of_mutex s = Nobody \<and> al_owner_of_mutex s' = Client_owns t \<and> c_holds (al_client s' t)
      \<or> (c_holds (al_client s t) \<or> al_owner_of_mutex s = Nobody) \<and> al_owner_of_mutex s' = Nobody \<and> \<not> c_holds (al_client s' t)"
    using assms(1) by (cases rule: client_cases) (auto simp: al_defs)
qed

lemma mutex_ok_call:
  assumes "al_client s t = C_out" and "mutex_ok s"
  shows "mutex_ok (al_log t ev s)" "mutex_ok (al_flush t s)" "mutex_ok (al_stop t s)"
  by (rule mutex_ok_upd [OF assms(2), of t]; use assms(1) in \<open>auto simp: al_defs\<close>)+

lemma mutex_ok_step:
  assumes "al_step s s'" and "mutex_ok s"
  shows "mutex_ok s'"
  using assms(1)
proof (cases rule: al_step_cases)
  case (client t)
  then show ?thesis using assms(2) by (rule mutex_ok_client)
next
  case worker
  then show ?thesis using assms(2)
    by (auto simp: worker_step_def mutex_ok_def al_defs split: worker_pc.splits if_splits list.splits)
qed (use assms(2) mutex_ok_call in \<open>auto simp: mutex_ok_def al_defs\<close>)

text \<open>The atomic actions of the worker.\<close>

lemma worker_cases:
  assumes "worker_step s = Some s'"
  obtains
    (top) "al_worker s = W_top" "s' = w_goto (W_lock (al_flushOn s)) s"
  | (acquire) fl where "al_worker s = W_lock fl" "al_owner_of_mutex s = Nobody" "s' = w_goto (W_test fl) (s\<lparr>al_owner_of_mutex := Worker_owns\<rparr>)"
  | (ready) fl where "al_worker s = W_test fl" "al_stopping s \<or> al_queue s \<noteq> []" "s' = w_goto (W_ready fl) s"
  | (idle) fl where "al_worker s = W_test fl" "al_queue s = []" "s' = w_goto (W_block fl) s"
  | (wait) fl where "al_worker s = W_block fl" "s' = w_goto (W_wait fl) (s\<lparr>al_owner_of_mutex := Nobody\<rparr>)"
  | (leave) fl where "al_worker s = W_ready fl" "al_stopping s" "al_queue s = []" "s' = w_goto W_last (s\<lparr>al_owner_of_mutex := Nobody\<rparr>)"
  | (batch) fl where "al_worker s = W_ready fl" "s' = take_batch fl s"
  | (notify) b xs where "al_worker s = W_notify b xs" "s' = w_goto (W_item b xs) (notify_cv s)"
  | (finish) b where "al_worker s = W_item b []" "s' = w_goto W_top s"
  | (handle) b it xs where "al_worker s = W_item b (it # xs)" "s' = w_goto (W_store b it xs) (handle_item b it s)"
  | (store) b it xs where "al_worker s = W_store b it xs" "s' = w_goto (W_stored b xs) (s\<lparr>al_processed := it_sequence it\<rparr>)"
  | (stored) b xs where "al_worker s = W_stored b xs" "s' = w_goto (W_item b xs) (notify_flushCv s)"
  | (last) "al_worker s = W_last" "s' = w_goto W_done (s\<lparr>al_out := al_out s @ [Out_flush (al_sinks s)]\<rparr>)"
proof (cases "al_worker s")
  case (W_item b xs)
  then show thesis using assms finish handle by (cases xs) (simp_all add: worker_step_def)
next
  case (W_ready fl)
  then show thesis using assms leave batch by (simp add: worker_step_def split: if_splits)
qed (use assms that in \<open>simp_all add: worker_step_def split: if_splits\<close>)

section \<open>Delivery\<close>

fun rest_of :: "worker_pc \<Rightarrow> QueueItem list" where
  "rest_of (W_notify b xs) = xs"
| "rest_of (W_item b xs) = xs"
| "rest_of (W_store b it xs) = xs"
| "rest_of (W_stored b xs) = xs"
| "rest_of _ = []"

definition al_order_ok :: "AsyncLogger \<Rightarrow> bool" where
  "al_order_ok s \<longleftrightarrow> al_enqueued s = handled (al_out s) @ rest_of (al_worker s) @ al_queue s"

definition bounded_ok :: "AsyncLogger \<Rightarrow> bool" where
  "bounded_ok s \<longleftrightarrow> length (al_queue s) \<le> al_capacity s
     \<and> (\<forall>t it. al_client s t = C_admitted it \<longrightarrow> al_stopping s \<or> length (al_queue s) < al_capacity s)"

definition al_stop_ok :: "AsyncLogger \<Rightarrow> bool" where
  "al_stop_ok s \<longleftrightarrow> (al_worker s \<in> {W_last, W_done} \<longrightarrow> al_stopping s \<and> al_queue s = [])
     \<and> (al_worker s = W_done \<longrightarrow> (\<exists>xs ks ys. al_out s = xs @ Out_flush ks # ys \<and> handled ys = []))"

lemma handled_append [simp]: "handled (xs @ ys) = handled xs @ handled ys"
  by (induction xs rule: handled.induct) simp_all

lemma woken_simps [simp]:
  "rest_of (w_woken w) = rest_of w" "w_woken w = W_last \<longleftrightarrow> w = W_last" "w_woken w = W_done \<longleftrightarrow> w = W_done"
  "c_woken p = C_admitted it \<longleftrightarrow> p = C_admitted it" "c_flush_woken p = C_admitted it \<longleftrightarrow> p = C_admitted it"
  by (cases w; simp)+ (cases p; simp)+

lemma order_ok_step:
  assumes "al_step s s'" and "al_order_ok s"
  shows "al_order_ok s'"
  using assms(1)
proof (cases rule: al_step_cases)
  case (client t)
  then show ?thesis by (cases rule: client_cases) (use assms(2) in \<open>auto simp: al_order_ok_def al_defs\<close>)
next
  case worker
  then show ?thesis by (cases rule: worker_cases) (use assms(2) in \<open>auto simp: al_order_ok_def al_defs\<close>)
qed (use assms(2) in \<open>auto simp: al_order_ok_def al_defs\<close>)

lemma admitted_alone:
  assumes "mutex_ok s" and "al_client s u = C_admitted it"
  shows "al_owner_of_mutex s = Client_owns u"
  using mutex_at [OF assms(1), of u] assms(2) by simp

lemma bounded_ok_step:
  assumes "al_step s s'" and "mutex_ok s" and "bounded_ok s"
  shows "bounded_ok s'"
  using assms(1)
proof (cases rule: al_step_cases)
  case (client t)
  then show ?thesis
  proof (cases rule: client_cases)
    case (pushed it)
    then have "al_owner_of_mutex s \<in> {Nobody, Client_owns t}" "length (al_queue s) < al_capacity s"
      using admitted_alone [OF assms(2), of t it] assms(3) by (auto simp: bounded_ok_def)
    moreover have "u = t" if "al_client s u = C_admitted it'" for u it'
      using admitted_alone [OF assms(2) that] calculation(1) by auto
    ultimately show ?thesis using pushed by (auto simp: bounded_ok_def al_defs)
  qed (use assms(3) in \<open>auto simp: bounded_ok_def al_defs\<close>)
next
  case worker
  then show ?thesis by (cases rule: worker_cases) (use assms(3) in \<open>auto simp: bounded_ok_def al_defs\<close>)
qed (use assms(3) in \<open>auto simp: bounded_ok_def al_defs\<close>)

lemma stop_ok_step:
  assumes "al_step s s'" and "al_stop_ok s"
  shows "al_stop_ok s'"
  using assms(1)
proof (cases rule: al_step_cases)
  case (client t)
  then show ?thesis
  proof (cases rule: client_cases)
    case direct
    have "\<exists>xs ks' ys. al_out s @ [Out_flush ks] = xs @ Out_flush ks' # ys \<and> handled ys = []" for ks
      by (rule exI [of _ "al_out s"], rule exI [of _ ks], rule exI [of _ "[]"]) simp
    then show ?thesis using direct assms(2) by (simp add: al_stop_ok_def al_defs)
  qed (use assms(2) in \<open>auto simp: al_stop_ok_def al_defs\<close>)
next
  case worker
  then show ?thesis
  proof (cases rule: worker_cases)
    case last
    have "\<exists>xs ks' ys. al_out s @ [Out_flush ks] = xs @ Out_flush ks' # ys \<and> handled ys = []" for ks
      by (rule exI [of _ "al_out s"], rule exI [of _ ks], rule exI [of _ "[]"]) simp
    then show ?thesis using last assms(2) by (simp add: al_stop_ok_def al_defs)
  qed (use assms(2) in \<open>auto simp: al_stop_ok_def al_defs\<close>)
qed (use assms(2) in \<open>auto simp: al_stop_ok_def al_defs\<close>)

section \<open>Flush\<close>

fun flush_target :: "client_pc \<Rightarrow> nat option" where
  "flush_target (C_flush_lock target) = Some target"
| "flush_target (C_flush_test target) = Some target"
| "flush_target (C_flush_block target) = Some target"
| "flush_target (C_flush_wait target) = Some target"
| "flush_target p = (case item_of p of None \<Rightarrow> None | Some it \<Rightarrow> if it_flushOnly it then Some (it_sequence it) else None)"

text \<open>Numbers are handed out upwards, so an item whose number is not below that of a flush was queued after the flush was numbered.\<close>

definition numbers_ok :: "AsyncLogger \<Rightarrow> bool" where
  "numbers_ok s \<longleftrightarrow> (\<forall>it \<in> set (al_enqueued s). it_sequence it \<le> al_next s)
     \<and> (\<forall>t it. item_of (al_client s t) = Some it \<longrightarrow> it_sequence it \<le> al_next s)"

definition marks_ok :: "AsyncLogger \<Rightarrow> bool" where
  "marks_ok s \<longleftrightarrow> (\<forall>t target. flush_target (al_client s t) = Some target \<longrightarrow>
     0 < target \<and> al_marks s t \<le> length (al_enqueued s)
     \<and> (\<forall>j < length (al_enqueued s). target \<le> it_sequence (al_enqueued s ! j) \<longrightarrow> al_marks s t \<le> j))"

definition processed_ok :: "AsyncLogger \<Rightarrow> bool" where
  "processed_ok s \<longleftrightarrow> al_processed s \<in> insert 0 (it_sequence ` set (handled (al_out s)))
     \<and> (\<forall>b it xs. al_worker s = W_store b it xs \<longrightarrow> it \<in> set (handled (al_out s)))"

definition flushes_ok :: "AsyncLogger \<Rightarrow> bool" where
  "flushes_ok s \<longleftrightarrow> (\<forall>(before, now) \<in> set (al_flushes s). before \<le> now)"

lemma woken_items [simp]:
  "item_of (c_woken p) = item_of p" "item_of (c_flush_woken p) = item_of p"
  "flush_target (c_woken p) = flush_target p" "flush_target (c_flush_woken p) = flush_target p"
  by (cases p; simp)+

lemma woken_store [simp]: "w_woken w = W_store b it xs \<longleftrightarrow> w = W_store b it xs"
  by (cases w) auto

text \<open>What a client step does to the items in hand, to the numbers and to the record of the queue.\<close>

lemma client_items:
  assumes "client_step t s = Some s'"
  shows "u \<noteq> t \<Longrightarrow> item_of (al_client s' u) = item_of (al_client s u)"
    and "u \<noteq> t \<Longrightarrow> flush_target (al_client s' u) = flush_target (al_client s u)"
    and "u \<noteq> t \<Longrightarrow> al_marks s' u = al_marks s u"
    and "al_next s \<le> al_next s'"
    and "al_enqueued s' = al_enqueued s \<or> (\<exists>it. item_of (al_client s t) = Some it \<and> al_enqueued s' = al_enqueued s @ [it])"
    and "(\<exists>it. item_of (al_client s' t) = Some it \<and> it_sequence it = al_next s' \<and> al_next s' = Suc (al_next s))
      \<or> item_of (al_client s' t) \<in> {None, item_of (al_client s t)}"
    and "flush_target (al_client s' t) \<in> {None, Some (Suc (al_next s))} \<and> al_marks s' t = length (al_enqueued s) \<and> al_enqueued s' = al_enqueued s
      \<or> flush_target (al_client s' t) \<in> {None, flush_target (al_client s t)} \<and> al_marks s' t = al_marks s t"
  using assms by (cases rule: client_cases; auto simp: al_defs)+

lemma numbers_ok_step:
  assumes "al_step s s'" and "numbers_ok s"
  shows "numbers_ok s'"
  using assms(1)
proof (cases rule: al_step_cases)
  case (client t)
  note c = client_items [OF client]
  have hand: "it_sequence it \<le> al_next s" if "item_of (al_client s u) = Some it" for u it
    using assms(2) that by (auto simp: numbers_ok_def)
  have "it_sequence it \<le> al_next s'" if "item_of (al_client s' u) = Some it" for u it
    using c(1) [of u] c(4,6) hand [of u it] hand [of t it] that by (cases "u = t") auto
  moreover have "it_sequence it \<le> al_next s'" if "it \<in> set (al_enqueued s')" for it
  proof -
    have "it \<in> set (al_enqueued s) \<or> item_of (al_client s t) = Some it" using c(5) that by auto
    then have "it_sequence it \<le> al_next s" using hand [of t it] assms(2) by (auto simp: numbers_ok_def)
    then show ?thesis using c(4) by simp
  qed
  ultimately show ?thesis by (simp add: numbers_ok_def)
next
  case worker
  then show ?thesis by (cases rule: worker_cases) (use assms(2) in \<open>auto simp: numbers_ok_def al_defs\<close>)
qed (use assms(2) in \<open>auto simp: numbers_ok_def al_defs\<close>)

lemma marks_ok_step:
  assumes "al_step s s'" and "numbers_ok s" and "marks_ok s"
  shows "marks_ok s'"
  using assms(1)
proof (cases rule: al_step_cases)
  case (client t)
  note c = client_items [OF client]
  let ?ok = "\<lambda>s target m. 0 < target \<and> m \<le> length (al_enqueued s)
    \<and> (\<forall>j < length (al_enqueued s). target \<le> it_sequence (al_enqueued s ! j) \<longrightarrow> m \<le> j)"
  have grow: "?ok s' target m" if "?ok s target m" for target m
    using c(5) that by (auto simp: nth_append less_Suc_eq)
  have fresh: "?ok s (Suc (al_next s)) (length (al_enqueued s))"
  proof -
    have "it_sequence (al_enqueued s ! j) \<le> al_next s" if "j < length (al_enqueued s)" for j
      using assms(2) nth_mem [OF that] by (simp add: numbers_ok_def)
    then show ?thesis by (auto simp: Suc_le_eq dest: leD)
  qed
  have "?ok s' target (al_marks s' u)" if target: "flush_target (al_client s' u) = Some target" for u target
  proof (cases "u = t")
    case True
    from c(7) target True consider "target = Suc (al_next s)" "al_marks s' t = length (al_enqueued s)"
      | "flush_target (al_client s t) = Some target" "al_marks s' t = al_marks s t" by auto
    then show ?thesis
    proof cases
      case 1
      then have "al_marks s' u = length (al_enqueued s)" using True by simp
      show ?thesis unfolding \<open>target = Suc (al_next s)\<close> \<open>al_marks s' u = length (al_enqueued s)\<close> by (rule grow [OF fresh])
    next
      case 2
      then have "?ok s target (al_marks s t)" using assms(3) unfolding marks_ok_def by blast
      from grow [OF this] show ?thesis unfolding True 2(2) .
    qed
  next
    case False
    then have "flush_target (al_client s u) = Some target" using c(2) [of u] target by simp
    then have "?ok s target (al_marks s u)" using assms(3) unfolding marks_ok_def by blast
    from grow [OF this] show ?thesis unfolding c(3) [OF False] .
  qed
  then show ?thesis by (simp add: marks_ok_def)
next
  case worker
  then show ?thesis by (cases rule: worker_cases) (use assms(3) in \<open>auto simp: marks_ok_def al_defs\<close>)
qed (use assms(3) in \<open>auto simp: marks_ok_def al_defs\<close>)

lemma processed_ok_step:
  assumes "al_step s s'" and "processed_ok s"
  shows "processed_ok s'"
  using assms(1)
proof (cases rule: al_step_cases)
  case (client t)
  then show ?thesis by (cases rule: client_cases) (use assms(2) in \<open>auto simp: processed_ok_def al_defs\<close>)
next
  case worker
  then show ?thesis by (cases rule: worker_cases) (use assms(2) in \<open>auto simp: processed_ok_def al_defs\<close>)
qed (use assms(2) in \<open>auto simp: processed_ok_def al_defs\<close>)

text \<open>A flush whose wait is over: everything that was queued when it was numbered has been handled.\<close>

lemma flush_covers:
  assumes "al_order_ok s" and "marks_ok s" and "processed_ok s" and "al_client s t = C_flush_test target" and "target \<le> al_processed s"
  shows "al_marks s t \<le> length (handled (al_out s))"
proof -
  have "flush_target (al_client s t) = Some target" using assms(4) by simp
  then have target: "0 < target"
    and mark: "\<And>j. j < length (al_enqueued s) \<Longrightarrow> target \<le> it_sequence (al_enqueued s ! j) \<Longrightarrow> al_marks s t \<le> j"
    using assms(2) by (auto simp: marks_ok_def)
  then obtain j where j: "j < length (handled (al_out s))" "it_sequence (handled (al_out s) ! j) = al_processed s"
    using assms(3,5) by (auto simp: processed_ok_def in_set_conv_nth)
  then have "j < length (al_enqueued s)" "al_enqueued s ! j = handled (al_out s) ! j"
    using assms(1) by (auto simp: al_order_ok_def nth_append)
  then have "al_marks s t \<le> j" using mark assms(5) j by simp
  then show ?thesis using j by simp
qed

lemma flushes_ok_step:
  assumes "al_step s s'" and "al_order_ok s" and "marks_ok s" and "processed_ok s" and "flushes_ok s"
  shows "flushes_ok s'"
  using assms(1)
proof (cases rule: al_step_cases)
  case (client t)
  then show ?thesis
    by (cases rule: client_cases) (use assms(5) flush_covers [OF assms(2-4)] in \<open>auto simp: flushes_ok_def al_defs\<close>)
next
  case worker
  then show ?thesis by (cases rule: worker_cases) (use assms(5) in \<open>auto simp: flushes_ok_def al_defs\<close>)
qed (use assms(5) in \<open>auto simp: flushes_ok_def al_defs\<close>)

section \<open>Wakeups\<close>

fun is_wait :: "client_pc \<Rightarrow> bool" where
  "is_wait (C_wait it) = True"
| "is_wait _ = False"

fun is_block :: "client_pc \<Rightarrow> bool" where
  "is_block (C_block it) = True"
| "is_block _ = False"

fun is_notify :: "client_pc \<Rightarrow> bool" where
  "is_notify (C_notify it) = True"
| "is_notify _ = False"

fun w_waits :: "worker_pc \<Rightarrow> bool" where
  "w_waits (W_wait fl) = True"
| "w_waits _ = False"

fun w_blocks :: "worker_pc \<Rightarrow> bool" where
  "w_blocks (W_block fl) = True"
| "w_blocks _ = False"

fun w_notifies :: "worker_pc \<Rightarrow> bool" where
  "w_notifies (W_notify b xs) = True"
| "w_notifies _ = False"

definition wake_ok :: "AsyncLogger \<Rightarrow> bool" where
  "wake_ok s \<longleftrightarrow>
     (w_waits (al_worker s) \<longrightarrow> al_queue s = [] \<or> (\<exists>t. is_notify (al_client s t)))
     \<and> (w_blocks (al_worker s) \<longrightarrow> al_queue s = [])
     \<and> (\<forall>t. is_wait (al_client s t) \<longrightarrow> al_capacity s \<le> length (al_queue s) \<or> w_notifies (al_worker s))
     \<and> (\<forall>t. is_block (al_client s t) \<longrightarrow> al_capacity s \<le> length (al_queue s))"

lemma c_woken_is [simp]:
  "\<not> is_wait (c_woken p)" "is_block (c_woken p) = is_block p" "is_notify (c_woken p) = is_notify p"
  "is_wait (c_flush_woken p) = is_wait p" "is_block (c_flush_woken p) = is_block p" "is_notify (c_flush_woken p) = is_notify p"
  by (cases p; simp)+

lemma w_woken_is [simp]:
  "\<not> w_waits (w_woken w)" "w_blocks (w_woken w) = w_blocks w" "w_notifies (w_woken w) = w_notifies w"
  by (cases w; simp)+

text \<open>A client that is not about to notify moves on and leaves the queue alone.\<close>

lemma wake_ok_upd:
  assumes "wake_ok s" and "al_queue s' = al_queue s" and "al_capacity s' = al_capacity s" and "al_worker s' = al_worker s"
    and "\<And>u. u \<noteq> t \<Longrightarrow> is_wait (al_client s' u) \<Longrightarrow> is_wait (al_client s u)"
    and "\<And>u. u \<noteq> t \<Longrightarrow> is_block (al_client s' u) = is_block (al_client s u)"
    and "\<And>u. u \<noteq> t \<Longrightarrow> is_notify (al_client s' u) = is_notify (al_client s u)"
    and "\<not> is_notify (al_client s t)"
    and "is_wait (al_client s' t) \<or> is_block (al_client s' t) \<Longrightarrow> al_capacity s \<le> length (al_queue s)"
  shows "wake_ok s'"
proof -
  have "al_capacity s \<le> length (al_queue s) \<or> w_notifies (al_worker s)" if "is_wait (al_client s' u)" for u
    using assms(1,5,9) that unfolding wake_ok_def by (cases "u = t") blast+
  moreover have "al_capacity s \<le> length (al_queue s)" if "is_block (al_client s' u)" for u
    using assms(1,6,9) that unfolding wake_ok_def by (cases "u = t") blast+
  moreover have "\<exists>u. is_notify (al_client s' u)" if "is_notify (al_client s v)" for v
    using assms(7,8) that by (cases "v = t") auto
  ultimately show ?thesis using assms(1-4) unfolding wake_ok_def by metis
qed

lemma holders:
  assumes "mutex_ok s"
  shows "w_blocks (al_worker s) \<Longrightarrow> al_owner_of_mutex s = Worker_owns" and "is_block (al_client s t) \<Longrightarrow> al_owner_of_mutex s = Client_owns t"
proof -
  show "w_blocks (al_worker s) \<Longrightarrow> al_owner_of_mutex s = Worker_owns"
    using assms by (cases "al_worker s") (auto simp: mutex_ok_def)
  show "is_block (al_client s t) \<Longrightarrow> al_owner_of_mutex s = Client_owns t"
    using mutex_at [OF assms, of t] by (cases "al_client s t") auto
qed

lemma wake_ok_client:
  assumes "client_step t s = Some s'" and "mutex_ok s" and "wake_ok s"
  shows "wake_ok s'"
  using assms(1)
proof (cases rule: client_cases)
  case (pushed it)
  then have "al_owner_of_mutex s \<in> {Nobody, Client_owns t}" using admitted_alone [OF assms(2), of t it] by auto
  then have none: "\<not> w_blocks (al_worker s)" "\<And>u. is_block (al_client s u) \<Longrightarrow> u = t"
    using holders [OF assms(2)] by auto
  have "is_notify (al_client s' t)" using pushed by (simp add: al_defs)
  then show ?thesis using pushed assms(3) none unfolding wake_ok_def by (auto simp: al_defs le_SucI)
next
  case (notify it)
  then show ?thesis using assms(3) by (auto simp: wake_ok_def al_defs)
next
  case stop_cv
  then show ?thesis using assms(3) by (auto simp: wake_ok_def al_defs)
next
  case (wait it)
  then have "is_block (al_client s t)" by simp
  then have "al_capacity s \<le> length (al_queue s)" using assms(3) unfolding wake_ok_def by blast
  then show ?thesis by (intro wake_ok_upd [OF assms(3), of s' t]) (use wait in \<open>auto simp: al_defs\<close>)
qed (rule wake_ok_upd [OF assms(3), of s' t]; auto simp: al_defs split: if_splits)+

lemma wake_ok_worker:
  assumes "worker_step s = Some s'" and "mutex_ok s" and "wake_ok s"
  shows "wake_ok s'"
  using assms(1)
proof (cases rule: worker_cases)
  case (batch fl)
  then have "al_owner_of_mutex s = Worker_owns" using assms(2) by (auto simp: mutex_ok_def)
  then have "\<not> is_block (al_client s u)" for u using holders(2) [OF assms(2), of u] by auto
  then show ?thesis using batch assms(3) unfolding wake_ok_def by (simp add: al_defs)
qed (use assms(3) in \<open>auto simp: wake_ok_def al_defs\<close>)

lemma wake_ok_step:
  assumes "al_step s s'" and "mutex_ok s" and "wake_ok s"
  shows "wake_ok s'"
  using assms(1)
proof (cases rule: al_step_cases)
  case (client t)
  then show ?thesis using assms(2,3) by (rule wake_ok_client)
next
  case worker
  then show ?thesis using assms(2,3) by (rule wake_ok_worker)
next
  case (wake_client t)
  have "is_notify (c_flush_woken (c_woken p)) = is_notify p" "\<not> is_wait (c_flush_woken (c_woken p))" "is_block (c_flush_woken (c_woken p)) = is_block p" for p
    by simp_all
  then show ?thesis using wake_client assms(3) unfolding wake_ok_def by (simp add: al_defs) metis
next
  case wake_worker
  then show ?thesis using assms(3) unfolding wake_ok_def by (simp add: al_defs)
next
  case (call_log t ev)
  then show ?thesis by (intro wake_ok_upd [OF assms(3), of s' t]) (auto simp: al_defs split: if_splits)
next
  case (call_flush t)
  then show ?thesis by (intro wake_ok_upd [OF assms(3), of s' t]) (auto simp: al_defs split: if_splits)
next
  case (call_stop t)
  then show ?thesis by (intro wake_ok_upd [OF assms(3), of s' t]) (auto simp: al_defs split: if_splits)
next
  case (setting l fl st ks)
  then show ?thesis using assms(3) by (simp add: wake_ok_def)
qed

section \<open>Correctness\<close>

definition async_ok :: "AsyncLogger \<Rightarrow> bool" where
  "async_ok s \<longleftrightarrow> mutex_ok s \<and> al_order_ok s \<and> bounded_ok s \<and> al_stop_ok s \<and> numbers_ok s \<and> marks_ok s \<and> processed_ok s \<and> flushes_ok s \<and> wake_ok s"

interpretation async: step_machine al_step async_ok
  by unfold_locales
    (auto simp: async_ok_def intro: mutex_ok_step order_ok_step bounded_ok_step stop_ok_step numbers_ok_step marks_ok_step
      processed_ok_step flushes_ok_step wake_ok_step)

lemma async_ok_init: "async_ok (mk_AsyncLogger style queueCapacity overflowPolicy)"
  by (simp add: async_ok_def mk_AsyncLogger_def mutex_ok_def al_order_ok_def bounded_ok_def al_stop_ok_def numbers_ok_def marks_ok_def
      processed_ok_def flushes_ok_def wake_ok_def)

lemmas async_reachable = async.reach_inv [OF _ async_ok_init]

text \<open>
  C10: Safety. In every interleaving of threads that log, flush and stop with the worker, the items that entered the queue
  are those the sinks were called with, then the rest of the worker's batch, then the queue: every accepted line goes to the sinks once and in the
  order of the queue. The queue never exceeds its capacity. When the worker has ended, which is when \<^verbatim>\<open>stop\<close> returns, every
  accepted item has been handled and the sinks were flushed after the last one.
\<close>

theorem async_logger_delivers:
  assumes "al_step\<^sup>*\<^sup>* (mk_AsyncLogger style queueCapacity overflowPolicy) s"
  shows "al_enqueued s = handled (al_out s) @ rest_of (al_worker s) @ al_queue s \<and> length (al_queue s) \<le> al_capacity s
    \<and> (al_worker s = W_done \<longrightarrow> handled (al_out s) = al_enqueued s
        \<and> (\<exists>xs ks ys. al_out s = xs @ Out_flush ks # ys \<and> handled ys = []))"
  using async_reachable [OF assms] by (auto simp: async_ok_def al_order_ok_def bounded_ok_def al_stop_ok_def)

text \<open>
  Safety. When \<^verbatim>\<open>flush\<close> returns from its wait, at least as many items have been handled as were in the queue or
  taken from it when the flush drew its number. With the order of the theorem above: every line that a thread has logged before a
  flush was called has been written when the flush returns, although the numbers in the queue need not be in order.
\<close>

theorem async_flush_covers:
  assumes "al_step\<^sup>*\<^sup>* (mk_AsyncLogger style queueCapacity overflowPolicy) s"
  shows "list_all (\<lambda>(before, now). before \<le> now) (al_flushes s)"
  using async_reachable [OF assms] by (auto simp: async_ok_def flushes_ok_def list_all_iff)

text \<open>
  Safety. No notification of the queue is lost: when the worker waits although the queue holds an item, or a
  client waits although the queue has room, a thread is about to notify \<^verbatim>\<open>m_cv\<close>.
\<close>

theorem async_no_lost_wakeup:
  assumes "al_step\<^sup>*\<^sup>* (mk_AsyncLogger style queueCapacity overflowPolicy) s"
  shows "(w_waits (al_worker s) \<longrightarrow> al_queue s = [] \<or> (\<exists>t. is_notify (al_client s t)))
    \<and> (\<forall>t. is_wait (al_client s t) \<longrightarrow> al_capacity s \<le> length (al_queue s) \<or> w_notifies (al_worker s))"
  using async_reachable [OF assms] by (auto simp: async_ok_def wake_ok_def)

section \<open>Two ways to wait forever\<close>

text \<open>
  The numbers are drawn outside of the mutex, so two items may enter the queue out of order, and the worker stores the number
  of the item it has handled last: \<^verbatim>\<open>m_processedSequence\<close> falls.
\<close>

fun w_drowsy :: "worker_pc \<Rightarrow> bool" where
  "w_drowsy (W_wait fl) = True"
| "w_drowsy (W_lock fl) = True"
| "w_drowsy (W_test fl) = True"
| "w_drowsy (W_block fl) = True"
| "w_drowsy _ = False"

fun c_in_flush :: "nat \<Rightarrow> client_pc \<Rightarrow> bool" where
  "c_in_flush target (C_flush_wait n) = (n = target)"
| "c_in_flush target (C_flush_lock n) = (n = target)"
| "c_in_flush target (C_flush_test n) = (n = target)"
| "c_in_flush target (C_flush_block n) = (n = target)"
| "c_in_flush target _ = False"

definition hung :: "AsyncLogger \<Rightarrow> bool" where
  "hung s \<longleftrightarrow> al_processed s = 1 \<and> al_queue s = [] \<and> \<not> al_stopping s \<and> w_drowsy (al_worker s)
     \<and> c_in_flush 2 (al_client s 0) \<and> (\<forall>t. t \<noteq> 0 \<longrightarrow> al_client s t = C_out)"

fun is_call :: "al_action \<Rightarrow> bool" where
  "is_call (Call_log t ev) = True"
| "is_call (Call_flush t) = True"
| "is_call (Call_stop t) = True"
| "is_call _ = False"

definition hang_schedule :: "al_action list" where
  "hang_schedule =
     [Call_log 1 default_event, Run_client 1, Call_flush 0, Run_client 0, Run_client 0, Run_client 0, Run_client 0, Run_client 0, Run_client 0,
      Run_client 0, Run_client 0, Run_client 1, Run_client 1, Run_client 1, Run_client 1, Run_worker, Run_worker, Run_worker,
      Run_worker, Run_worker, Run_worker, Run_worker, Run_worker, Run_worker, Run_worker, Run_worker, Run_worker,
      Run_worker, Run_worker, Run_worker, Run_worker, Run_client 0, Run_client 0, Run_client 0]"

lemma hung_client:
  assumes "hung s" and "client_step t s = Some s'"
  shows "hung s'"
proof (cases "t = 0")
  case False
  then show ?thesis using assms by (simp add: hung_def client_step_def)
next
  case True
  have "c_in_flush 2 (al_client s t)" "al_processed s = 1" using assms(1) True by (simp_all add: hung_def)
  then consider "al_client s t = C_flush_lock 2" | "al_client s t = C_flush_test 2" | "al_client s t = C_flush_block 2" | "al_client s t = C_flush_wait 2"
    by (cases "al_client s t") auto
  then show ?thesis
    by cases (use assms True in \<open>auto simp: hung_def client_step_def al_defs split: if_splits\<close>)
qed

lemma hung_worker:
  assumes "hung s" and "worker_step s = Some s'"
  shows "hung s'"
  using assms(2) by (cases rule: worker_cases) (use assms(1) in \<open>simp_all add: hung_def al_defs\<close>)

lemma hung_exec:
  assumes "hung s" and "al_exec a s = Some s'" and "\<not> is_call a"
  shows "hung s'"
proof (cases a)
  case (Wake_client t)
  have "c_in_flush 2 (c_flush_woken (c_woken (al_client s t))) = c_in_flush 2 (al_client s t)" by (cases "al_client s t") simp_all
  moreover have "c_flush_woken (c_woken C_out) = C_out" by simp
  ultimately show ?thesis using Wake_client assms(1,2) by (cases "t = 0") (auto simp: hung_def al_defs)
next
  case Wake_worker
  have "w_drowsy (w_woken (al_worker s)) = w_drowsy (al_worker s)" by (cases "al_worker s") simp_all
  then show ?thesis using Wake_worker assms(1,2) by (auto simp: hung_def al_defs)
next
  case (Set_style st)
  then have "s' = s\<lparr>al_style := st\<rparr>" using assms(2) by (simp add: locked_update_def split: if_splits)
  then show ?thesis using assms(1) by (simp add: hung_def)
next
  case (Add_sink k)
  then have "s' = al_sinks_update (\<lambda>ks. ks @ [k]) s" using assms(2) by (simp add: locked_update_def split: if_splits)
  then show ?thesis using assms(1) by (simp add: hung_def)
next
  case Clear_sinks
  then have "s' = s\<lparr>al_sinks := []\<rparr>" using assms(2) by (simp add: locked_update_def split: if_splits)
  then show ?thesis using assms(1) by (simp add: hung_def)
next
  case (Run_client t)
  then show ?thesis using hung_client [OF assms(1)] assms(2) by simp
next
  case Run_worker
  then show ?thesis using hung_worker [OF assms(1)] assms(2) by simp
next
  case (Set_level l)
  then show ?thesis using assms(1,2) by (auto simp: hung_def)
next
  case (Set_flushOn l)
  then show ?thesis using assms(1,2) by (auto simp: hung_def)
qed (use assms(3) in simp_all)

definition never_returns :: "nat \<Rightarrow> AsyncLogger \<Rightarrow> bool" where
  "never_returns t s \<longleftrightarrow> (\<forall>as s'. list_all (\<lambda>a. \<not> is_call a) as \<longrightarrow> al_run as s = Some s' \<longrightarrow> flush_target (al_client s' t) \<noteq> None)"

lemma hung_never_returns:
  assumes "hung s"
  shows "never_returns 0 s"
proof -
  have "hung s'" if "list_all (\<lambda>a. \<not> is_call a) as" "al_run as s = Some s'" for as s'
    using assms that by (induction as arbitrary: s) (auto split: option.splits dest: hung_exec)
  moreover have "flush_target p \<noteq> None" if "c_in_flush 2 p" for p using that by (cases p) simp_all
  ultimately show ?thesis unfolding never_returns_def hung_def by blast
qed

text \<open>
  C36: Error. A flush can wait forever: there is a run of two threads, one that logs a line and one that flushes, after which both
  items have been handled and the flush is in its wait; and as long as nobody calls the logger again, it stays there, whatever the
  threads do and however often they wake up without a notification.
\<close>

theorem async_flush_may_hang:
  "\<exists>s. al_step\<^sup>*\<^sup>* (mk_AsyncLogger Source 2 Block_policy) s \<and> al_client s 0 = C_flush_wait 2
     \<and> length (handled (al_out s)) = 2 \<and> handled (al_out s) = al_enqueued s \<and> never_returns 0 s"
proof -
  have "case al_run hang_schedule (mk_AsyncLogger Source 2 Block_policy) of None \<Rightarrow> False | Some s \<Rightarrow>
      hung s \<and> al_client s 0 = C_flush_wait 2 \<and> length (handled (al_out s)) = 2 \<and> handled (al_out s) = al_enqueued s"
    by (simp add: hang_schedule_def mk_AsyncLogger_def hung_def client_step_def worker_step_def al_defs default_event_def al_shouldLog_def)
  then obtain s where "al_run hang_schedule (mk_AsyncLogger Source 2 Block_policy) = Some s" "hung s" "al_client s 0 = C_flush_wait 2"
      "length (handled (al_out s)) = 2" "handled (al_out s) = al_enqueued s" by (auto split: option.splits)
  then show ?thesis using al_run_reach hung_never_returns by blast
qed

text \<open>
  Error. \<^verbatim>\<open>stop\<close> can wait forever: it sets \<^verbatim>\<open>m_stopping\<close> and notifies without the mutex, so both can fall between
  the worker's test of its wait predicate and the wait. There is a run after which no thread can go on: the worker sleeps on the
  empty queue and the caller of \<^verbatim>\<open>stop\<close> joins it.
\<close>

theorem async_stop_may_hang:
  "\<exists>s. al_step\<^sup>*\<^sup>* (mk_AsyncLogger Source 2 Block_policy) s \<and> al_client s 0 = C_stop_join \<and> al_stopping s
     \<and> (\<forall>t. client_step t s = None) \<and> worker_step s = None"
proof -
  let ?as = "[Run_worker, Run_worker, Run_worker, Call_stop 0, Run_client 0, Run_client 0, Run_worker]"
  have "case al_run ?as (mk_AsyncLogger Source 2 Block_policy) of None \<Rightarrow> False | Some s \<Rightarrow>
      al_client s 0 = C_stop_join \<and> al_stopping s \<and> (\<forall>t. client_step t s = None) \<and> worker_step s = None"
    by (simp add: mk_AsyncLogger_def client_step_def worker_step_def al_defs)
  then obtain s where "al_run ?as (mk_AsyncLogger Source 2 Block_policy) = Some s" "al_client s 0 = C_stop_join" "al_stopping s"
      "\<forall>t. client_step t s = None" "worker_step s = None" by (auto split: option.splits)
  then show ?thesis using al_run_reach by blast
qed

section \<open>Concrete runs\<close>

text \<open>Thread 1 logs a line and thread 0 flushes, in order; then thread 1 stops the logger.\<close>

definition orderly_schedule :: "al_action list" where
  "orderly_schedule = [Call_log 1 default_event, Run_client 1, Run_client 1, Run_client 1, Run_client 1, Run_client 1,
     Call_flush 0, Run_client 0, Run_client 0, Run_client 0, Run_client 0, Run_client 0,
     Run_worker, Run_worker, Run_worker, Run_worker, Run_worker, Run_worker, Run_worker, Run_worker, Run_worker, Run_worker, Run_worker,
     Run_client 0, Run_client 0, Call_stop 1, Run_client 1, Run_client 1,
     Run_worker, Run_worker, Run_worker, Run_worker, Run_worker, Run_worker]"

lemma orderly_run: "case al_run orderly_schedule (mk_AsyncLogger Source 2 Block_policy) of None \<Rightarrow> False | Some s \<Rightarrow>
    al_worker s = W_done \<and> al_queue s = [] \<and> length (al_enqueued s) = 2 \<and> al_flushes s = [(1, 2)] \<and> al_capacity s = 2"
  by (simp add: orderly_schedule_def mk_AsyncLogger_def client_step_def worker_step_def al_defs default_event_def al_shouldLog_def)

theorem async_logger_delivers_witness:
  "\<exists>s. al_step\<^sup>*\<^sup>* (mk_AsyncLogger Source 2 Block_policy) s \<and> al_worker s = W_done \<and> length (handled (al_out s)) = 2"
proof -
  obtain s where s: "al_run orderly_schedule (mk_AsyncLogger Source 2 Block_policy) = Some s" "al_worker s = W_done" "length (al_enqueued s) = 2"
    using orderly_run by (auto split: option.splits)
  then have "handled (al_out s) = al_enqueued s" using async_logger_delivers [OF al_run_reach [OF s(1)]] by blast
  then show ?thesis using al_run_reach [OF s(1)] s(2,3) by (intro exI [of _ s]) simp
qed

theorem async_flush_covers_witness:
  "\<exists>s. al_step\<^sup>*\<^sup>* (mk_AsyncLogger Source 2 Block_policy) s \<and> al_flushes s = [(1, 2)] \<and> list_all (\<lambda>(before, now). before \<le> now) (al_flushes s)"
proof -
  obtain s where s: "al_run orderly_schedule (mk_AsyncLogger Source 2 Block_policy) = Some s" "al_flushes s = [(1, 2)]"
    using orderly_run by (auto split: option.splits)
  from async_flush_covers [OF al_run_reach [OF s(1)]] s al_run_reach [OF s(1)] show ?thesis by blast
qed

theorem async_no_lost_wakeup_witness:
  "\<exists>s. al_step\<^sup>*\<^sup>* (mk_AsyncLogger Source 2 Block_policy) s \<and> w_waits (al_worker s) \<and> al_queue s \<noteq> [] \<and> (\<exists>t. is_notify (al_client s t))"
proof -
  let ?as = "replicate 4 Run_worker @ Call_log 0 default_event # replicate 4 (Run_client 0)"
  have "case al_run ?as (mk_AsyncLogger Source 2 Block_policy) of None \<Rightarrow> False | Some s \<Rightarrow> w_waits (al_worker s) \<and> al_queue s \<noteq> []"
    by (simp add: numeral_eq_Suc mk_AsyncLogger_def client_step_def worker_step_def al_defs default_event_def al_shouldLog_def)
  then obtain s where s: "al_run ?as (mk_AsyncLogger Source 2 Block_policy) = Some s" "w_waits (al_worker s)" "al_queue s \<noteq> []"
    by (auto split: option.splits)
  from async_no_lost_wakeup [OF al_run_reach [OF s(1)]] s al_run_reach [OF s(1)] show ?thesis by blast
qed

end
