(* ===== verification/Logger.thy ===== *)
theory Logger
  imports AsyncLogger
begin

text \<open>
  \<^verbatim>\<open>dbase::log::Logger\<close> and the default logger (\<^verbatim>\<open>code/src/log/log.cpp\<close>), the registry of loggers
  (\<^verbatim>\<open>code/src/log/registry.cpp\<close>), and what the calls that an \<^verbatim>\<open>AsyncLogger\<close> makes do to its sinks. A sink is an
  index into the list of sink objects; what it shows is the same whether a line comes through a \<^verbatim>\<open>Logger\<close> or an
  \<^verbatim>\<open>AsyncLogger\<close>.
\<close>

section \<open>Sink objects\<close>

datatype sink_obj =
    Console_sink
  | File_sink FileSink
  | Rotating_sink RotatingFileSink
  | Daily_sink DailyFileSink

type_synonym log_env = "sink_obj list \<times> os"

text \<open>The virtual calls \<^verbatim>\<open>sink->write(event, formatted)\<close> and \<^verbatim>\<open>sink->flush()\<close>.\<close>

definition on_sink :: "nat \<Rightarrow> ('k \<Rightarrow> sink_obj) \<Rightarrow> 'k \<Rightarrow> ('k \<times> os, unit) cpp \<Rightarrow> (log_env, unit) cpp" where
  "on_sink i mk k m = (\<lambda>(objs, w). case m (k, w) of (r, k', w') \<Rightarrow> (r, objs[i := mk k'], w'))"

definition sink_write :: "system \<Rightarrow> nat \<Rightarrow> LogEvent \<Rightarrow> string \<Rightarrow> (log_env, unit) cpp" where
  "sink_write sys i ev formatted = (\<lambda>(objs, w).
     if i \<ge> length objs then (Undef, objs, w)
     else case objs ! i of
            Console_sink \<Rightarrow> on_os (console_write ev formatted) (objs, w)
          | File_sink k \<Rightarrow> on_sink i File_sink k (fk_write formatted) (objs, w)
          | Rotating_sink k \<Rightarrow> on_sink i Rotating_sink k (rf_write formatted) (objs, w)
          | Daily_sink k \<Rightarrow> on_sink i Daily_sink k (df_write sys ev formatted) (objs, w))"

definition sink_flush :: "nat \<Rightarrow> (log_env, unit) cpp" where
  "sink_flush i = (\<lambda>(objs, w).
     if i \<ge> length objs then (Undef, objs, w)
     else case objs ! i of
            Console_sink \<Rightarrow> on_os console_flush (objs, w)
          | File_sink k \<Rightarrow> on_sink i File_sink k fk_flush (objs, w)
          | Rotating_sink k \<Rightarrow> on_sink i Rotating_sink k rf_flush (objs, w)
          | Daily_sink k \<Rightarrow> on_sink i Daily_sink k df_flush (objs, w))"

fun for_sinks :: "(nat \<Rightarrow> (log_env, unit) cpp) \<Rightarrow> nat list \<Rightarrow> (log_env, unit) cpp" where
  "for_sinks f [] = ret ()"
| "for_sinks f (i # is) = seq (f i) (for_sinks f is)"

section \<open>\<^verbatim>\<open>Logger\<close>\<close>

record Logger =
  lg_level :: Level
  lg_flushOn :: Level
  lg_style :: PatternStyle
  lg_sinks :: "nat list"

text \<open>A new logger has a console sink of its own, at the next free index.\<close>

definition mk_Logger :: "PatternStyle \<Rightarrow> log_env \<Rightarrow> Logger \<times> log_env" where
  "mk_Logger style = (\<lambda>(objs, w).
     (\<lparr>lg_level = Level_Info, lg_flushOn = Level_Error, lg_style = style, lg_sinks = [length objs]\<rparr>, (objs @ [Console_sink], w)))"

definition lg_shouldLog :: "Level \<Rightarrow> Logger \<Rightarrow> bool" where
  "lg_shouldLog level lg \<longleftrightarrow> level_int level \<ge> level_int (lg_level lg)"

definition lg_setLevel :: "Level \<Rightarrow> Logger \<Rightarrow> Logger" where
  "lg_setLevel level lg = lg\<lparr>lg_level := level\<rparr>"

definition lg_setPatternStyle :: "PatternStyle \<Rightarrow> Logger \<Rightarrow> Logger" where
  "lg_setPatternStyle style lg = lg\<lparr>lg_style := style\<rparr>"

definition lg_setFlushOn :: "Level \<Rightarrow> Logger \<Rightarrow> Logger" where
  "lg_setFlushOn level lg = lg\<lparr>lg_flushOn := level\<rparr>"

definition lg_addSink :: "nat option \<Rightarrow> Logger \<Rightarrow> Logger" where
  "lg_addSink p lg = (case p of None \<Rightarrow> lg | Some i \<Rightarrow> lg\<lparr>lg_sinks := lg_sinks lg @ [i]\<rparr>)"

definition lg_clearSinks :: "Logger \<Rightarrow> Logger" where
  "lg_clearSinks lg = lg\<lparr>lg_sinks := []\<rparr>"

definition lg_flush :: "Logger \<Rightarrow> (log_env, unit) cpp" where
  "lg_flush lg = for_sinks sink_flush (lg_sinks lg)"

text \<open>The sinks get the line one after the other, then, from \<^verbatim>\<open>flushOn\<close> on, they are flushed.\<close>

definition write_line :: "system \<Rightarrow> PatternStyle \<Rightarrow> nat list \<Rightarrow> bool \<Rightarrow> LogEvent \<Rightarrow> (log_env, unit) cpp" where
  "write_line sys style sinks flushing ev =
     seq (for_sinks (\<lambda>i. sink_write sys i ev (formatter_format sys style ev)) sinks)
         (if flushing then for_sinks sink_flush sinks else ret ())"

definition lg_log :: "system \<Rightarrow> Level \<Rightarrow> string \<Rightarrow> source_location \<Rightarrow> Logger \<Rightarrow> (log_env, unit) cpp" where
  "lg_log sys level message location lg =
     (if \<not> lg_shouldLog level lg then ret ()
      else write_line sys (lg_style lg) (lg_sinks lg) (level_int level \<ge> level_int (lg_flushOn lg)) (makeLogEvent sys level message location))"

definition resetDefaultSinks :: "Logger \<times> log_env \<Rightarrow> Logger \<times> log_env" where
  "resetDefaultSinks = (\<lambda>(lg, objs, w). (lg_addSink (Some (length objs)) (lg_clearSinks lg), (objs @ [Console_sink], w)))"

section \<open>The registry\<close>

text \<open>The loggers of a process are the list \<open>rg_objects\<close>; \<^verbatim>\<open>m_loggers\<close> maps a name to an index into it.\<close>

record Registry =
  rg_objects :: "Logger list"
  rg_loggers :: "string \<Rightarrow> nat option"

definition rg_contains :: "string \<Rightarrow> Registry \<Rightarrow> bool" where
  "rg_contains name r \<longleftrightarrow> rg_loggers r name \<noteq> None"

definition rg_get :: "string \<Rightarrow> Registry \<Rightarrow> nat option" where
  "rg_get name r = rg_loggers r name"

definition rg_create :: "string \<Rightarrow> PatternStyle \<Rightarrow> Registry \<times> log_env \<Rightarrow> nat \<times> Registry \<times> log_env" where
  "rg_create name style = (\<lambda>(r, env).
     case mk_Logger style env of (lg, env') \<Rightarrow>
       let r' = r\<lparr>rg_objects := rg_objects r @ [lg]\<rparr>; new = length (rg_objects r)
       in case rg_loggers r name of
            Some i \<Rightarrow> (i, r', env')
          | None \<Rightarrow> (new, r'\<lparr>rg_loggers := (rg_loggers r)(name := Some new)\<rparr>, env'))"

definition rg_add :: "string \<Rightarrow> nat option \<Rightarrow> Registry \<Rightarrow> bool \<times> Registry" where
  "rg_add name logger r =
     (case logger of
        None \<Rightarrow> (False, r)
      | Some i \<Rightarrow> if rg_loggers r name = None then (True, r\<lparr>rg_loggers := (rg_loggers r)(name := Some i)\<rparr>) else (False, r))"

definition rg_remove :: "string \<Rightarrow> Registry \<Rightarrow> bool \<times> Registry" where
  "rg_remove name r = (rg_loggers r name \<noteq> None, r\<lparr>rg_loggers := (rg_loggers r)(name := None)\<rparr>)"

definition rg_clear :: "Registry \<Rightarrow> Registry" where
  "rg_clear r = r\<lparr>rg_loggers := Map.empty\<rparr>"

section \<open>Console and file sinks behind a logger\<close>

text \<open>The sink objects are console sinks and file sinks on different files, and the operating system does not fail.\<close>

definition env_ok :: "log_env \<Rightarrow> bool" where
  "env_ok = (\<lambda>(objs, w). no_faults w
     \<and> (\<forall>i < length objs. objs ! i = Console_sink \<or> (\<exists>k. objs ! i = File_sink k \<and> fk_good (k, w)))
     \<and> (\<forall>i < length objs. \<forall>j < length objs. \<forall>k k'. objs ! i = File_sink k \<and> objs ! j = File_sink k' \<and> fk_path k = fk_path k' \<longrightarrow> i = j))"

definition is_file :: "nat \<Rightarrow> log_env \<Rightarrow> bool" where
  "is_file i = (\<lambda>(objs, w). case objs ! i of File_sink k \<Rightarrow> True | _ \<Rightarrow> False)"

definition text_of :: "nat \<Rightarrow> log_env \<Rightarrow> string" where
  "text_of i = (\<lambda>(objs, w). case objs ! i of File_sink k \<Rightarrow> fk_received (k, w) | _ \<Rightarrow> [])"

definition unflushed :: "nat \<Rightarrow> log_env \<Rightarrow> string" where
  "unflushed i = (\<lambda>(objs, w). case objs ! i of File_sink k \<Rightarrow> st_buf (fk_stream k) | _ \<Rightarrow> [])"

text \<open>A call on the file sink \<open>i\<close> that changes its own file only.\<close>

lemma env_ok_upd:
  assumes "env_ok (objs, w)" and "i < length objs" and "objs ! i = File_sink k" and "fk_good (k', w')" and "fk_path k' = fk_path k"
    and "\<And>q. q \<noteq> fk_path k \<Longrightarrow> os_files w' q = os_files w q"
  shows "env_ok (objs[i := File_sink k'], w')"
    and "j < length objs \<Longrightarrow> j \<noteq> i \<Longrightarrow> text_of j (objs[i := File_sink k'], w') = text_of j (objs, w)"
    and "j \<noteq> i \<Longrightarrow> unflushed j (objs[i := File_sink k'], w') = unflushed j (objs, w)"
proof -
  have nf: "no_faults w'" using assms(4) by (simp add: fk_good_def)
  have other: "objs ! j = Console_sink \<or> (\<exists>kj. objs ! j = File_sink kj \<and> fk_good (kj, w) \<and> fk_good (kj, w') \<and> fk_received (kj, w') = fk_received (kj, w))"
    if j: "j < length objs" "j \<noteq> i" for j
  proof (cases "objs ! j = Console_sink")
    case False
    then obtain kj where kj: "objs ! j = File_sink kj" "fk_good (kj, w)" using assms(1) j by (auto simp: env_ok_def)
    have "fk_path kj \<noteq> fk_path k" using assms(1,2,3) j kj unfolding env_ok_def by blast
    then have "os_files w' (fk_path kj) = os_files w (fk_path kj)" using assms(6) by simp
    then show ?thesis using kj nf by (auto simp: fk_good_def stream_ok_def fk_received_def file_content_def split: option.splits)
  qed simp
  show "env_ok (objs[i := File_sink k'], w')"
    unfolding env_ok_def prod.case
  proof (intro conjI allI impI)
    fix j assume "j < length (objs[i := File_sink k'])"
    then show "objs[i := File_sink k'] ! j = Console_sink \<or> (\<exists>k. objs[i := File_sink k'] ! j = File_sink k \<and> fk_good (k, w'))"
      using other [of j] assms(2,4) by (cases "j = i") auto
  next
    fix a b ka kb
    assume "a < length (objs[i := File_sink k'])" "b < length (objs[i := File_sink k'])"
      and *: "objs[i := File_sink k'] ! a = File_sink ka \<and> objs[i := File_sink k'] ! b = File_sink kb \<and> fk_path ka = fk_path kb"
    then show "a = b" using assms(1,2,3,5) unfolding env_ok_def by (auto simp: nth_list_update split: if_splits)
  qed (rule nf)
  show "j < length objs \<Longrightarrow> j \<noteq> i \<Longrightarrow> text_of j (objs[i := File_sink k'], w') = text_of j (objs, w)"
    using other [of j] by (auto simp: text_of_def)
  show "j \<noteq> i \<Longrightarrow> unflushed j (objs[i := File_sink k'], w') = unflushed j (objs, w)"
    by (simp add: unflushed_def)
qed

lemma is_file_upd: "objs ! i = File_sink k \<Longrightarrow> i < length objs \<Longrightarrow> is_file j (objs[i := File_sink k'], w') = is_file j (objs, w)"
  by (cases "j = i") (simp_all add: is_file_def)

lemma console_write_ok:
  assumes "env_ok (objs, w)"
  shows "\<exists>w'. console_write ev line w = (Ret (), w') \<and> env_ok (objs, w') \<and> (\<forall>j. text_of j (objs, w') = text_of j (objs, w))"
proof -
  have good: "fk_good (k, w\<lparr>os_cerr := x\<rparr>) = fk_good (k, w)" "fk_good (k, w\<lparr>os_cout := x\<rparr>) = fk_good (k, w)"
    "no_faults (w\<lparr>os_cerr := x\<rparr>) = no_faults w" "no_faults (w\<lparr>os_cout := x\<rparr>) = no_faults w"
    "fk_received (k, w\<lparr>os_cerr := x\<rparr>) = fk_received (k, w)" "fk_received (k, w\<lparr>os_cout := x\<rparr>) = fk_received (k, w)" for k x
    by (simp_all add: fk_good_def no_faults_def stream_ok_def fk_received_def file_content_def split: option.split)
  show ?thesis using assms by (auto simp: console_write_def run_modify env_ok_def text_of_def good split: sink_obj.split)
qed

lemma sink_write_ok:
  assumes "env_ok e" and "i < length (fst e)"
  shows "\<exists>e'. sink_write sys i ev line e = (Ret (), e') \<and> env_ok e' \<and> length (fst e') = length (fst e) \<and> (\<forall>j. is_file j e' = is_file j e)
    \<and> (\<forall>j < length (fst e). is_file j e \<longrightarrow> text_of j e' = text_of j e @ (if j = i then line @ [CHR 0x0A] else []))"
proof -
  obtain objs w where e: "e = (objs, w)" by (cases e)
  show ?thesis
  proof (cases "objs ! i = Console_sink")
    case True
    obtain w' where "console_write ev line w = (Ret (), w')" "env_ok (objs, w')" "\<And>j. text_of j (objs, w') = text_of j (objs, w)"
      using console_write_ok assms(1) e by blast
    then show ?thesis using True assms(2) by (auto simp: e sink_write_def on_os_def is_file_def)
  next
    case False
    then obtain k where k: "objs ! i = File_sink k" "fk_good (k, w)" using assms by (auto simp: e env_ok_def)
    obtain k' w' where kw: "fk_write line (k, w) = (Ret (), k', w')" "fk_good (k', w')" "fk_path k' = fk_path k"
      "fk_received (k', w') = fk_received (k, w) @ line @ [CHR 0x0A]" "\<And>q. q \<noteq> fk_path k \<Longrightarrow> os_files w' q = os_files w q"
      using fk_write_ok [OF k(2)] by blast
    note upd = env_ok_upd [OF assms(1) [unfolded e] _ k(1) kw(2,3) kw(5)]
    have "sink_write sys i ev line e = (Ret (), objs[i := File_sink k'], w')"
      using assms(2) k(1) kw(1) by (simp add: e sink_write_def on_sink_def)
    moreover have "text_of i (objs[i := File_sink k'], w') = text_of i e @ line @ [CHR 0x0A]"
      using assms(2) k(1) kw(4) by (simp add: text_of_def e)
    ultimately show ?thesis using upd is_file_upd [OF k(1)] assms(2) by (auto simp: e)
  qed
qed

lemma sink_flush_ok:
  assumes "env_ok e" and "i < length (fst e)"
  shows "\<exists>e'. sink_flush i e = (Ret (), e') \<and> env_ok e' \<and> length (fst e') = length (fst e) \<and> (\<forall>j. is_file j e' = is_file j e)
    \<and> (\<forall>j < length (fst e). text_of j e' = text_of j e) \<and> (\<forall>j. unflushed j e' = (if j = i then [] else unflushed j e))"
proof -
  obtain objs w where e: "e = (objs, w)" by (cases e)
  show ?thesis
  proof (cases "objs ! i = Console_sink")
    case True
    then show ?thesis using assms by (intro exI [of _ e]) (auto simp: e sink_flush_def on_os_def console_flush_def run_ret unflushed_def)
  next
    case False
    then obtain k where k: "objs ! i = File_sink k" "fk_good (k, w)" using assms by (auto simp: e env_ok_def)
    obtain k' w' where kw: "fk_flush (k, w) = (Ret (), k', w')" "fk_good (k', w')" "fk_path k' = fk_path k"
      "st_buf (fk_stream k') = []" "fk_received (k', w') = fk_received (k, w)" "\<And>q. q \<noteq> fk_path k \<Longrightarrow> os_files w' q = os_files w q"
      using fk_flush_ok [OF k(2)] by blast
    note upd = env_ok_upd [OF assms(1) [unfolded e] _ k(1) kw(2,3) kw(6)]
    have "sink_flush i e = (Ret (), objs[i := File_sink k'], w')"
      using assms(2) k(1) kw(1) by (simp add: e sink_flush_def on_sink_def)
    moreover have "text_of i (objs[i := File_sink k'], w') = text_of i e" "unflushed i (objs[i := File_sink k'], w') = []"
      using assms(2) k(1) kw(4,5) by (simp_all add: text_of_def unflushed_def e)
    moreover have "text_of j (objs[i := File_sink k'], w') = text_of j e" if "j < length objs" for j
      using calculation(2) upd(2) [of j] that assms(2) by (cases "j = i") (auto simp: e)
    ultimately show ?thesis using upd(1,3) is_file_upd [OF k(1)] assms(2) by (auto simp: e)
  qed
qed

lemma for_sinks_write:
  assumes "env_ok e" and "list_all (\<lambda>i. i < length (fst e)) is"
  shows "\<exists>e'. for_sinks (\<lambda>i. sink_write sys i ev line) is e = (Ret (), e') \<and> env_ok e' \<and> length (fst e') = length (fst e) \<and> (\<forall>j. is_file j e' = is_file j e)
    \<and> (\<forall>j < length (fst e). is_file j e \<longrightarrow> text_of j e' = text_of j e @ concat (replicate (count_list is j) (line @ [CHR 0x0A])))"
  using assms
proof (induction "is" arbitrary: e)
  case Nil
  then show ?case by (simp add: run_ret)
next
  case (Cons i "is")
  obtain e1 where e1: "sink_write sys i ev line e = (Ret (), e1)" "env_ok e1" "length (fst e1) = length (fst e)" "\<And>j. is_file j e1 = is_file j e"
    "\<And>j. j < length (fst e) \<Longrightarrow> is_file j e \<Longrightarrow> text_of j e1 = text_of j e @ (if j = i then line @ [CHR 0x0A] else [])"
    using sink_write_ok [OF Cons.prems(1), of i sys ev line] Cons.prems(2) by auto
  obtain e' where e': "for_sinks (\<lambda>i. sink_write sys i ev line) is e1 = (Ret (), e')" "env_ok e'" "length (fst e') = length (fst e)" "\<And>j. is_file j e' = is_file j e"
    "\<And>j. j < length (fst e) \<Longrightarrow> is_file j e \<Longrightarrow> text_of j e' = text_of j e1 @ concat (replicate (count_list is j) (line @ [CHR 0x0A]))"
    using Cons.IH [OF e1(2)] Cons.prems(2) e1(3,4) by auto
  have "for_sinks (\<lambda>i. sink_write sys i ev line) (i # is) e = (Ret (), e')" using e1(1) e'(1) by (simp add: run_seq)
  then show ?case using e1(5) e'(2-5) by auto
qed

lemma for_sinks_flush:
  assumes "env_ok e" and "list_all (\<lambda>i. i < length (fst e)) is"
  shows "\<exists>e'. for_sinks sink_flush is e = (Ret (), e') \<and> env_ok e' \<and> length (fst e') = length (fst e) \<and> (\<forall>j. is_file j e' = is_file j e)
    \<and> (\<forall>j < length (fst e). text_of j e' = text_of j e) \<and> (\<forall>j. unflushed j e' = (if j \<in> set is then [] else unflushed j e))"
  using assms
proof (induction "is" arbitrary: e)
  case Nil
  then show ?case by (simp add: run_ret)
next
  case (Cons i "is")
  obtain e1 where e1: "sink_flush i e = (Ret (), e1)" "env_ok e1" "length (fst e1) = length (fst e)" "\<And>j. is_file j e1 = is_file j e"
    "\<And>j. j < length (fst e) \<Longrightarrow> text_of j e1 = text_of j e" "\<And>j. unflushed j e1 = (if j = i then [] else unflushed j e)"
    using sink_flush_ok [OF Cons.prems(1), of i] Cons.prems(2) by auto
  obtain e' where e': "for_sinks sink_flush is e1 = (Ret (), e')" "env_ok e'" "length (fst e') = length (fst e)" "\<And>j. is_file j e' = is_file j e"
    "\<And>j. j < length (fst e) \<Longrightarrow> text_of j e' = text_of j e1" "\<And>j. unflushed j e' = (if j \<in> set is then [] else unflushed j e1)"
    using Cons.IH [OF e1(2)] Cons.prems(2) e1(3,4) by auto
  have "for_sinks sink_flush (i # is) e = (Ret (), e')" using e1(1) e'(1) by (simp add: run_seq)
  then show ?case using e1(5,6) e'(2-6) by auto
qed

lemma write_line_ok:
  assumes "env_ok e" and "list_all (\<lambda>i. i < length (fst e)) is"
  shows "\<exists>e'. write_line sys style is flushing ev e = (Ret (), e') \<and> env_ok e' \<and> length (fst e') = length (fst e) \<and> (\<forall>j. is_file j e' = is_file j e)
    \<and> (\<forall>j < length (fst e). is_file j e \<longrightarrow> text_of j e' = text_of j e @ concat (replicate (count_list is j) (formatter_format sys style ev @ [CHR 0x0A])))
    \<and> (flushing \<longrightarrow> (\<forall>j \<in> set is. unflushed j e' = []))"
proof -
  obtain e1 where e1: "for_sinks (\<lambda>i. sink_write sys i ev (formatter_format sys style ev)) is e = (Ret (), e1)" "env_ok e1" "length (fst e1) = length (fst e)"
    "\<And>j. is_file j e1 = is_file j e"
    "\<And>j. j < length (fst e) \<Longrightarrow> is_file j e \<Longrightarrow> text_of j e1 = text_of j e @ concat (replicate (count_list is j) (formatter_format sys style ev @ [CHR 0x0A]))"
    using for_sinks_write [OF assms, of sys ev "formatter_format sys style ev"] by blast
  show ?thesis
  proof (cases flushing)
    case True
    obtain e' where "for_sinks sink_flush is e1 = (Ret (), e')" "env_ok e'" "length (fst e') = length (fst e)" "\<And>j. is_file j e' = is_file j e"
      "\<And>j. j < length (fst e) \<Longrightarrow> text_of j e' = text_of j e1" "\<And>j. unflushed j e' = (if j \<in> set is then [] else unflushed j e1)"
      using for_sinks_flush [OF e1(2), of "is"] assms(2) e1(3,4) by auto
    then show ?thesis using e1 True by (simp add: write_line_def run_seq)
  next
    case False
    then show ?thesis using e1 by (simp add: write_line_def run_seq run_ret)
  qed
qed

text \<open>
  Functional behaviour of the synchronous logger over console and file sinks: \<^verbatim>\<open>log\<close> returns; a message below the level changes nothing; any
  other message is appended to the text of every file sink of the logger, once per registration, formatted in the logger's style, and to no other file sink; and from
  \<^verbatim>\<open>flushOn\<close> on nothing stays in the buffers of these sinks.
\<close>

theorem logger_log_writes:
  assumes "env_ok e" and "list_all (\<lambda>i. i < length (fst e)) (lg_sinks lg)"
  shows "\<exists>e'. lg_log sys level message location lg e = (Ret (), e') \<and> env_ok e'
    \<and> (\<forall>j < length (fst e). is_file j e \<longrightarrow> text_of j e' = text_of j e @
         (if lg_level lg \<le> level
          then concat (replicate (count_list (lg_sinks lg) j) (formatter_format sys (lg_style lg) (makeLogEvent sys level message location) @ [CHR 0x0A]))
          else []))
    \<and> (lg_level lg \<le> level \<and> lg_flushOn lg \<le> level \<longrightarrow> (\<forall>j \<in> set (lg_sinks lg). unflushed j e' = []))"
proof (cases "lg_level lg \<le> level")
  case True
  then show ?thesis
    using write_line_ok [OF assms, of sys "lg_style lg" "level_int (lg_flushOn lg) \<le> level_int level" "makeLogEvent sys level message location"]
    by (auto simp: lg_log_def lg_shouldLog_def less_eq_Level_def)
next
  case False
  then show ?thesis using assms by (simp add: lg_log_def lg_shouldLog_def less_eq_Level_def run_ret)
qed

section \<open>What an asynchronous logger writes\<close>

fun perform :: "system \<Rightarrow> al_call \<Rightarrow> (log_env, unit) cpp" where
  "perform sys (Out_item it ks style flushing) =
     (if it_flushOnly it then for_sinks sink_flush ks else write_line sys style ks flushing (it_event it))"
| "perform sys (Out_flush ks) = for_sinks sink_flush ks"

fun perform_all :: "system \<Rightarrow> al_call list \<Rightarrow> (log_env, unit) cpp" where
  "perform_all sys [] = ret ()"
| "perform_all sys (c # cs) = seq (perform sys c) (perform_all sys cs)"

text \<open>The sink \<open>k\<close> is registered once whenever the sinks are called, with the style \<open>style\<close>; all sinks exist.\<close>

fun call_ok :: "nat \<Rightarrow> nat \<Rightarrow> PatternStyle \<Rightarrow> al_call \<Rightarrow> bool" where
  "call_ok n k style (Out_item it ks st fl) \<longleftrightarrow> list_all (\<lambda>i. i < n) ks \<and> count_list ks k = 1 \<and> st = style"
| "call_ok n k style (Out_flush ks) \<longleftrightarrow> list_all (\<lambda>i. i < n) ks \<and> k \<in> set ks"

definition lines_of :: "system \<Rightarrow> PatternStyle \<Rightarrow> QueueItem list \<Rightarrow> string" where
  "lines_of sys style its = concat (map (\<lambda>it. formatter_format sys style (it_event it) @ [CHR 0x0A]) (filter (\<lambda>it. \<not> it_flushOnly it) its))"

lemma perform_ok:
  assumes "env_ok e" and "call_ok (length (fst e)) k style c" and "k < length (fst e)" and "is_file k e"
  shows "\<exists>e'. perform sys c e = (Ret (), e') \<and> env_ok e' \<and> length (fst e') = length (fst e) \<and> is_file k e'
    \<and> text_of k e' = text_of k e @ lines_of sys style (handled [c]) \<and> (handled [c] = [] \<longrightarrow> unflushed k e' = [])"
proof (cases c)
  case (Out_item it ks st fl)
  show ?thesis
  proof (cases "it_flushOnly it")
    case True
    then show ?thesis using for_sinks_flush [OF assms(1), of ks] assms(2-4) Out_item by (auto simp: lines_of_def)
  next
    case False
    then show ?thesis using write_line_ok [OF assms(1), of ks sys st fl "it_event it"] assms(2-4) Out_item
      by (fastforce simp: lines_of_def)
  qed
next
  case (Out_flush ks)
  then show ?thesis using for_sinks_flush [OF assms(1), of ks] assms(2-4) by (auto simp: lines_of_def)
qed

lemma lines_of_append: "lines_of sys style (xs @ ys) = lines_of sys style xs @ lines_of sys style ys"
  by (simp add: lines_of_def)

lemma perform_all_ok:
  assumes "env_ok e" and "list_all (call_ok (length (fst e)) k style) cs" and "k < length (fst e)" and "is_file k e"
  shows "\<exists>e'. perform_all sys cs e = (Ret (), e') \<and> env_ok e' \<and> length (fst e') = length (fst e) \<and> is_file k e'
    \<and> text_of k e' = text_of k e @ lines_of sys style (handled cs) \<and> (handled cs = [] \<and> unflushed k e = [] \<longrightarrow> unflushed k e' = [])"
  using assms
proof (induction cs arbitrary: e)
  case Nil
  then show ?case by (simp add: run_ret lines_of_def)
next
  case (Cons c cs)
  obtain e1 where e1: "perform sys c e = (Ret (), e1)" "env_ok e1" "length (fst e1) = length (fst e)" "is_file k e1"
    "text_of k e1 = text_of k e @ lines_of sys style (handled [c])" "handled [c] = [] \<longrightarrow> unflushed k e1 = []"
    using perform_ok [OF Cons.prems(1), of k style c sys] Cons.prems(2-4) by auto
  obtain e' where e': "perform_all sys cs e1 = (Ret (), e')" "env_ok e'" "length (fst e') = length (fst e)" "is_file k e'"
    "text_of k e' = text_of k e1 @ lines_of sys style (handled cs)" "handled cs = [] \<and> unflushed k e1 = [] \<longrightarrow> unflushed k e' = []"
  proof -
    have "list_all (call_ok (length (fst e1)) k style) cs" "k < length (fst e1)" using Cons.prems(2,3) e1(3) by auto
    from Cons.IH [OF e1(2) this e1(4)] show thesis using that unfolding e1(3) by blast
  qed
  have h: "handled (c # cs) = handled [c] @ handled cs" using handled_append [of "[c]" cs] by simp
  have "perform_all sys (c # cs) e = (Ret (), e')" using e1(1) e'(1) by (simp add: run_seq)
  then show ?case using e1 e' by (auto simp: h lines_of_append)
qed

lemma perform_all_append: "perform_all sys (cs @ ds) e = seq (perform_all sys cs) (perform_all sys ds) e"
  by (induction cs arbitrary: e) (auto simp: run_ret run_seq split: prod.splits outcome.splits)

text \<open>
  C11: The asynchronous logger end to end, over console and file sinks; sink 0 is the console sink that the constructor adds. In every interleaving, once the worker has ended the calls it and the flushing threads have
  made on the sinks all return, and a file sink that was registered once throughout holds, behind what it held before, exactly the accepted messages,
  formatted, one per line, in the order of the queue; nothing of it is left in a buffer.
\<close>

theorem async_logger_file:
  assumes "al_step\<^sup>*\<^sup>* (mk_AsyncLogger style queueCapacity overflowPolicy) s" and "al_worker s = W_done"
    and "env_ok e" and "fst e ! 0 = Console_sink" and "k < length (fst e)" and "is_file k e" and "list_all (call_ok (length (fst e)) k style) (al_out s)"
  shows "\<exists>e'. perform_all sys (al_out s) e = (Ret (), e')
    \<and> text_of k e' = text_of k e @ lines_of sys style (al_enqueued s) \<and> unflushed k e' = []"
proof -
  from async_reachable [OF assms(1)] assms(2) have h: "handled (al_out s) = al_enqueued s"
    and "\<exists>xs ks ys. al_out s = xs @ Out_flush ks # ys \<and> handled ys = []"
    by (auto simp: async_ok_def al_order_ok_def al_stop_ok_def)
  then obtain xs ks ys where out: "al_out s = xs @ [Out_flush ks] @ ys" "handled ys = []" by auto
  obtain e1 where e1: "perform_all sys xs e = (Ret (), e1)" "env_ok e1" "length (fst e1) = length (fst e)" "is_file k e1"
    "text_of k e1 = text_of k e @ lines_of sys style (handled xs)"
    using perform_all_ok [OF assms(3), of k style xs sys] assms(5-7) out by auto
  obtain e2 where e2: "perform_all sys [Out_flush ks] e1 = (Ret (), e2)" "env_ok e2" "length (fst e2) = length (fst e)" "is_file k e2"
    "text_of k e2 = text_of k e1" "unflushed k e2 = []"
    using perform_ok [OF e1(2), of k style "Out_flush ks" sys] assms(5-7) out e1(3,4) by (auto simp: run_seq run_ret lines_of_def)
  obtain e3 where e3: "perform_all sys ys e2 = (Ret (), e3)" "text_of k e3 = text_of k e2" "unflushed k e3 = []"
    using perform_all_ok [OF e2(2), of k style ys sys] assms(5-7) out e2(3,4,6) by (auto simp: lines_of_def)
  have "perform_all sys (al_out s) e = (Ret (), e3)"
    using e1(1) e2(1) e3(1) by (simp only: out(1) perform_all_append run_seq) simp
  moreover have "handled xs = al_enqueued s" using h out by simp
  ultimately show ?thesis using e1(5) e2(5) e3(2,3) by simp
qed

section \<open>Concrete loggers\<close>

definition example_system :: system where
  "example_system = \<lparr>sys_pid = 1, sys_tid = 2, sys_nowUs = 0, sys_strftime = (\<lambda>_ _. ''now'')\<rparr>"

text \<open>The console sink of the constructor and a file sink.\<close>

definition example_env :: log_env where
  "example_env = ([Console_sink, File_sink \<lparr>fk_path = ''a.log'', fk_stream = closed_stream\<rparr>], buffering_os)"

lemma example_env_ok: "env_ok example_env" "length (fst example_env) = 2" "text_of 1 example_env = []" "is_file 1 example_env" "fst example_env ! 0 = Console_sink"
  by (auto simp: env_ok_def example_env_def no_faults_def buffering_os_def fk_good_def stream_ok_def closed_stream_def text_of_def is_file_def
      fk_received_def file_content_def nth_Cons split: nat.splits)

lemma format_03_zero: "format_03 0 = ''000''"
proof -
  have "nat_digits 0 = ''0''" by (subst nat_digits.simps) (simp add: digit_char_def char_of_def bit_iff_odd)
  then show ?thesis by (simp add: format_03_def numeral_eq_Suc)
qed

theorem logger_log_writes_witness:
  "\<exists>e'. lg_log example_system Level_Error ''m'' \<lparr>sl_file_name = ''f.cpp'', sl_function_name = ''f'', sl_line = 3\<rparr>
       \<lparr>lg_level = Level_Info, lg_flushOn = Level_Error, lg_style = Compact, lg_sinks = [0, 1]\<rparr> example_env = (Ret (), e')
     \<and> text_of 1 e' = ''[now.000] [error] m'' @ [CHR 0x0A] \<and> unflushed 1 e' = []"
proof -
  let ?lg = "\<lparr>lg_level = Level_Info, lg_flushOn = Level_Error, lg_style = Compact, lg_sinks = [0, 1]\<rparr>"
  let ?loc = "\<lparr>sl_file_name = ''f.cpp'', sl_function_name = ''f'', sl_line = 3\<rparr>"
  have f: "formatter_format example_system Compact (makeLogEvent example_system Level_Error ''m'' ?loc) = ''[now.000] [error] m''"
    by (simp add: formatCompact_def makeLogEvent_def bracketed_def formatTimestampUs_def formatTimestampMs_def
        formatTimePoint_def example_system_def format_03_zero Let_def)
  have c: "count_list [0, 1] (1 :: nat) = 1" by simp
  have l: "lg_level ?lg \<le> Level_Error" "lg_flushOn ?lg \<le> Level_Error" by (simp_all add: less_eq_Level_def)
  have v: "list_all (\<lambda>i. i < length (fst example_env)) (lg_sinks ?lg)" by (simp add: example_env_ok)
  obtain e' where e': "lg_log example_system Level_Error ''m'' ?loc ?lg example_env = (Ret (), e')"
      "\<forall>j < length (fst example_env). is_file j example_env \<longrightarrow> text_of j e' = text_of j example_env @
         (if lg_level ?lg \<le> Level_Error
          then concat (replicate (count_list (lg_sinks ?lg) j) (formatter_format example_system (lg_style ?lg) (makeLogEvent example_system Level_Error ''m'' ?loc) @ [CHR 0x0A]))
          else [])"
      "\<forall>j \<in> set (lg_sinks ?lg). unflushed j e' = []"
    using logger_log_writes [OF example_env_ok(1) v, of example_system Level_Error "''m''" ?loc] l by blast
  from e'(2) [rule_format, of 1] have "text_of 1 e' = ''[now.000] [error] m'' @ [CHR 0x0A]"
    using example_env_ok(2-4) l(1) c f by simp
  then show ?thesis using e'(1,3) by auto
qed

theorem async_logger_file_witness:
  "\<exists>s e'. al_step\<^sup>*\<^sup>* (mk_AsyncLogger Source 2 Block_policy) s \<and> al_worker s = W_done
     \<and> perform_all example_system (al_out s) example_env = (Ret (), e')
     \<and> text_of 1 e' = formatter_format example_system Source default_event @ [CHR 0x0A] \<and> unflushed 1 e' = []"
proof -
  have "case al_run (Add_sink 1 # orderly_schedule) (mk_AsyncLogger Source 2 Block_policy) of None \<Rightarrow> False | Some s \<Rightarrow>
      al_worker s = W_done \<and> list_all (call_ok 2 1 Source) (al_out s)
      \<and> map (\<lambda>it. (it_event it, it_flushOnly it)) (al_enqueued s) = [(default_event, False), (default_event, True)]"
    by (simp add: orderly_schedule_def mk_AsyncLogger_def client_step_def worker_step_def al_defs default_event_def al_shouldLog_def)
  then obtain s where s: "al_run (Add_sink 1 # orderly_schedule) (mk_AsyncLogger Source 2 Block_policy) = Some s" "al_worker s = W_done"
      "list_all (call_ok 2 1 Source) (al_out s)"
      "map (\<lambda>it. (it_event it, it_flushOnly it)) (al_enqueued s) = [(default_event, False), (default_event, True)]"
    by (auto simp del: al_run.simps split: option.splits)
  from s(4) have "lines_of example_system Source (al_enqueued s) = formatter_format example_system Source default_event @ [CHR 0x0A]"
    by (auto simp: lines_of_def)
  then show ?thesis
    using async_logger_file [OF al_run_reach [OF s(1)] s(2) example_env_ok(1,5), of 1 example_system] s(3) example_env_ok(2,3,4)
      al_run_reach [OF s(1)] s(2) by auto
qed

end
