(* ===== verification/KcpSession.thy ===== *)
theory KcpSession
  imports Byte_Order Errors
begin

text \<open>
  \<^verbatim>\<open>dbase::net::KcpSession\<close> (\<^verbatim>\<open>code/include/dbase/net/kcp_session.h\<close>, \<^verbatim>\<open>code/src/net/kcp_session.cpp\<close>) and
  \<^verbatim>\<open>KcpPacket\<close>. The KCP library (\<^verbatim>\<open>ikcp.h\<close>) is a third-party component: its functions are the record
  \<open>ikcp\<close> of parameters, on a control block of any type \<open>'k\<close>, and what it transmits goes to the UDP socket by its output
  callback. The session lives in its event loop's thread: each of the functions below is one functor or one timer of the loop. The steady clock is
  read from \<open>ks_clock\<close>, which does not advance inside of a functor. \<open>ks_timers\<close> are the timers of this session that are armed in the
  loop, with their delay; \<open>ks_log\<close> records the callbacks. The message callback may send and close (\<open>cb_message\<close> gives the calls it makes for
  a message); the other callbacks only observe.
\<close>

section \<open>Packet header\<close>

definition decode32uLE :: "byte list \<Rightarrow> 32 word" where
  "decode32uLE data = ucast (data ! 0) OR push_bit 8 (ucast (data ! 1)) OR push_bit 16 (ucast (data ! 2)) OR push_bit 24 (ucast (data ! 3))"

definition kHeaderSize :: nat where
  "kHeaderSize = 8"

definition tryParseHeader :: "byte list \<Rightarrow> (32 word \<times> 32 word) option" where
  "tryParseHeader packet =
     (if length packet < kHeaderSize then None else Some (decode32uLE packet, decode32uLE (drop 4 packet)))"

lemma nth4: "length d \<ge> 4 \<Longrightarrow> take 4 d = [d ! 0, d ! 1, d ! 2, d ! 3]"
  by (rule nth_equalityI) (auto simp: less_Suc_eq numeral_eq_Suc)

lemma decode32uLE_mem: "length data \<ge> 4 \<Longrightarrow> decode32uLE data = word_of_mem (take 4 data)"
  unfolding decode32uLE_def
  by (subst nth4) (auto simp: word_of_mem_def push_bit_or push_bit_push_bit ac_simps simp flip: push_bit_add)

section \<open>The library\<close>

record 'k ikcp =
  ikcp_send :: "byte list \<Rightarrow> 'k \<Rightarrow> int \<times> 'k"
  ikcp_input :: "byte list \<Rightarrow> 'k \<Rightarrow> int \<times> 'k"
  ikcp_update :: "32 word \<Rightarrow> 'k \<Rightarrow> 'k"
  ikcp_check :: "'k \<Rightarrow> 32 word \<Rightarrow> 32 word"
  ikcp_peeksize :: "'k \<Rightarrow> int"
  ikcp_recv :: "int \<Rightarrow> 'k \<Rightarrow> int \<times> byte list \<times> 'k"
  ikcp_waitsnd :: "'k \<Rightarrow> int"
  ikcp_stats :: "'k \<Rightarrow> 32 word \<times> 32 word \<times> 32 word \<times> 32 word"

section \<open>The session\<close>

datatype kcp_state = Ks_Connecting | Ks_Connected | Ks_Disconnecting | Ks_Disconnected

record kcp_options =
  ko_conv :: "32 word"
  ko_token :: "32 word"
  ko_mtu :: int
  ko_sndWnd :: int
  ko_rcvWnd :: int
  ko_nodelay :: int
  ko_interval :: int
  ko_resend :: int
  ko_nc :: int
  ko_idleTimeout :: int
  ko_maxMessageBytes :: nat

datatype kcp_event = Ks_message "byte list" | Ks_closed | Ks_error Error | Ks_write_complete

datatype kcp_call = Kc_send "byte list" | Kc_shutdown | Kc_forceClose

record kcp_callbacks =
  cb_message :: "(byte list \<Rightarrow> kcp_call list) option"
  cb_writeComplete :: bool
  cb_close :: bool
  cb_error :: bool

record 'k KcpSession =
  ks_options :: kcp_options
  ks_callbacks :: kcp_callbacks
  ks_kcp :: 'k
  ks_state :: kcp_state
  ks_updateTimerId :: nat
  ks_lastActive :: int
  ks_stats :: "32 word \<times> 32 word \<times> 32 word \<times> 32 word"
  ks_clock :: int
  ks_timers :: "(nat \<times> nat) list"
  ks_nextTimer :: nat
  ks_log :: "kcp_event list"

definition ks_emit :: "bool \<Rightarrow> kcp_event \<Rightarrow> 'k KcpSession \<Rightarrow> 'k KcpSession" where
  "ks_emit on e s = (if on then s\<lparr>ks_log := ks_log s @ [e]\<rparr> else s)"

definition ks_nowMs :: "'k KcpSession \<Rightarrow> 32 word" where
  "ks_nowMs s = of_int (ks_clock s)"

definition ks_touchActive :: "'k KcpSession \<Rightarrow> 'k KcpSession" where
  "ks_touchActive s = s\<lparr>ks_lastActive := ks_clock s\<rparr>"

definition ks_refreshStats :: "'k ikcp \<Rightarrow> 'k KcpSession \<Rightarrow> 'k KcpSession" where
  "ks_refreshStats K s = s\<lparr>ks_stats := ikcp_stats K (ks_kcp s)\<rparr>"

text \<open>
  The constructor. \<open>create\<close> is \<^verbatim>\<open>ikcp_create\<close>, \<^verbatim>\<open>ikcp_settoken\<close> and \<^verbatim>\<open>ikcp_setmtu\<close> with the settings that
  follow: the control block, or the message of the call that failed.
\<close>

definition mk_KcpSession :: "'k ikcp \<Rightarrow> (kcp_options \<Rightarrow> string + 'k) \<Rightarrow> bool \<Rightarrow> bool \<Rightarrow> kcp_options \<Rightarrow> kcp_callbacks \<Rightarrow> int \<Rightarrow> nat \<Rightarrow> 'k KcpSession outcome" where
  "mk_KcpSession K create loopIsNull socketIsNull options callbacks clock nextTimer =
     (if loopIsNull then Throw (Invalid_argument ''KcpSession loop is null'')
      else if socketIsNull then Throw (Invalid_argument ''KcpSession udpSocket is null'')
      else if ko_conv options = 0 then Throw (Invalid_argument ''KcpSession conv must not be 0'')
      else case create options of
             Inl message \<Rightarrow> Throw (Runtime_error message)
           | Inr kcp \<Rightarrow>
               Ret (ks_refreshStats K (ks_touchActive
                 \<lparr>ks_options = options, ks_callbacks = callbacks, ks_kcp = kcp, ks_state = Ks_Connecting, ks_updateTimerId = 0,
                  ks_lastActive = 0, ks_stats = (0, 0, 0, 0), ks_clock = clock, ks_timers = [], ks_nextTimer = nextTimer, ks_log = []\<rparr>)))"

definition cancelUpdateTimer :: "'k KcpSession \<Rightarrow> 'k KcpSession" where
  "cancelUpdateTimer s =
     (if ks_updateTimerId s \<noteq> 0
      then s\<lparr>ks_timers := filter (\<lambda>(i, _). i \<noteq> ks_updateTimerId s) (ks_timers s), ks_updateTimerId := 0\<rparr>
      else s)"

definition update_delay :: "32 word \<Rightarrow> 32 word \<Rightarrow> nat" where
  "update_delay next now = (if next \<le> now then 0 else unat (next - now))"

definition scheduleUpdate :: "'k ikcp \<Rightarrow> 32 word \<Rightarrow> 'k KcpSession \<Rightarrow> 'k KcpSession" where
  "scheduleUpdate K now s =
     (if ks_state s = Ks_Disconnected then s
      else let delay = update_delay (ikcp_check K (ks_kcp s) now) now; s = cancelUpdateTimer s; i = ks_nextTimer s
           in s\<lparr>ks_timers := ks_timers s @ [(i, delay)], ks_updateTimerId := i, ks_nextTimer := i + 1\<rparr>)"

definition kcp_handleError :: "ErrorCode \<Rightarrow> string \<Rightarrow> 'k KcpSession \<Rightarrow> 'k KcpSession" where
  "kcp_handleError code message s = ks_emit (cb_error (ks_callbacks s)) (Ks_error (mk_error code message)) s"

definition kcp_handleClose :: "'k KcpSession \<Rightarrow> 'k KcpSession" where
  "kcp_handleClose s =
     (if ks_state s = Ks_Disconnected then s
      else ks_emit (cb_close (ks_callbacks s)) Ks_closed ((cancelUpdateTimer s)\<lparr>ks_state := Ks_Disconnected\<rparr>))"

definition kcp_connectEstablished :: "'k ikcp \<Rightarrow> 'k KcpSession \<Rightarrow> 'k KcpSession" where
  "kcp_connectEstablished K s = scheduleUpdate K (ks_nowMs s) (s\<lparr>ks_state := Ks_Connected\<rparr>)"

definition kcp_connectDestroyed :: "'k KcpSession \<Rightarrow> 'k KcpSession" where
  "kcp_connectDestroyed s =
     (if ks_state s = Ks_Disconnected then s else (cancelUpdateTimer s)\<lparr>ks_state := Ks_Disconnected\<rparr>)"

definition kcp_sendInLoop :: "'k ikcp \<Rightarrow> byte list \<Rightarrow> 'k KcpSession \<Rightarrow> 'k KcpSession" where
  "kcp_sendInLoop K data s =
     (if ks_state s = Ks_Disconnected \<or> ks_state s = Ks_Disconnecting then s
      else if length data > 2 ^ 31 - 1 then kcp_handleError EC_InvalidArgument ''KcpSession send payload too large'' s
      else case ikcp_send K data (ks_kcp s) of
             (r, kcp) \<Rightarrow>
               let s = s\<lparr>ks_kcp := kcp\<rparr>
               in if r < 0 then kcp_handleError EC_IOError ''KcpSession ikcp_send failed'' s
                  else let s = ks_touchActive s; now = ks_nowMs s; s = s\<lparr>ks_kcp := ikcp_update K now (ks_kcp s)\<rparr>
                       in scheduleUpdate K now (ks_refreshStats K s))"

text \<open>\<^verbatim>\<open>send\<close>, \<^verbatim>\<open>shutdown\<close> and \<^verbatim>\<open>forceClose\<close> as the loop's thread runs them.\<close>

fun kcp_run :: "'k ikcp \<Rightarrow> kcp_call \<Rightarrow> 'k KcpSession \<Rightarrow> 'k KcpSession" where
  "kcp_run K (Kc_send data) s = (if data = [] then s else kcp_sendInLoop K data s)"
| "kcp_run K Kc_shutdown s =
     (if ks_state s = Ks_Disconnected then s
      else let s = s\<lparr>ks_state := Ks_Disconnecting\<rparr>
           in if ikcp_waitsnd K (ks_kcp s) = 0 then kcp_handleClose s else s)"
| "kcp_run K Kc_forceClose s = kcp_handleClose s"

definition on_message :: "'k ikcp \<Rightarrow> byte list \<Rightarrow> 'k KcpSession \<Rightarrow> 'k KcpSession" where
  "on_message K m s =
     (case cb_message (ks_callbacks s) of
        None \<Rightarrow> s
      | Some calls \<Rightarrow> fold (kcp_run K) (calls m) (ks_emit True (Ks_message m) s))"

text \<open>\<^verbatim>\<open>static_cast<int>(m_options.maxMessageBytes)\<close> keeps the low 32 bits.\<close>

definition max_message_int :: "'k KcpSession \<Rightarrow> int" where
  "max_message_int s = sint (of_nat (ko_maxMessageBytes (ks_options s)) :: 32 word)"

definition drain_end :: "'k ikcp \<Rightarrow> 'k KcpSession \<Rightarrow> 'k KcpSession" where
  "drain_end K s = ks_emit (cb_writeComplete (ks_callbacks s) \<and> ikcp_waitsnd K (ks_kcp s) = 0) Ks_write_complete s"

partial_function (option) drainRecvQueue :: "'k ikcp \<Rightarrow> 'k KcpSession \<Rightarrow> 'k KcpSession option" where
  "drainRecvQueue K s =
     (let peek = ikcp_peeksize K (ks_kcp s)
      in if peek < 0 then Some (drain_end K s)
         else if peek > max_message_int s then Some (kcp_handleClose (kcp_handleError EC_InvalidState ''KcpSession message too large'' s))
         else (case ikcp_recv K peek (ks_kcp s) of
                 (n, payload, kcp) \<Rightarrow>
                   let s = s\<lparr>ks_kcp := kcp\<rparr>
                   in if n < 0 then Some (drain_end K s)
                      else drainRecvQueue K (on_message K (take (nat n) payload) (ks_touchActive s))))"

definition closing_done :: "'k ikcp \<Rightarrow> 'k KcpSession \<Rightarrow> 'k KcpSession" where
  "closing_done K s = (if ks_state s = Ks_Disconnecting \<and> ikcp_waitsnd K (ks_kcp s) = 0 then kcp_handleClose s else s)"

definition inputPacketInLoop :: "'k ikcp \<Rightarrow> byte list \<Rightarrow> 'k KcpSession \<Rightarrow> 'k KcpSession option" where
  "inputPacketInLoop K packet s =
     (if packet = [] \<or> ks_state s = Ks_Disconnected then Some s
      else case ikcp_input K packet (ks_kcp s) of
             (r, kcp) \<Rightarrow>
               let s = s\<lparr>ks_kcp := kcp\<rparr>
               in if r < 0 then Some (kcp_handleError EC_ParseError (''KcpSession ikcp_input failed: '' @ to_string r) s)
                  else (case drainRecvQueue K (ks_touchActive s) of
                          None \<Rightarrow> None
                        | Some s \<Rightarrow>
                            let now = ks_nowMs s; s = s\<lparr>ks_kcp := ikcp_update K now (ks_kcp s)\<rparr>
                            in Some (closing_done K (scheduleUpdate K now (ks_refreshStats K s)))))"

definition updateInLoop :: "'k ikcp \<Rightarrow> 'k KcpSession \<Rightarrow> 'k KcpSession option" where
  "updateInLoop K s =
     (if ks_state s = Ks_Disconnected then Some s
      else let now = ks_nowMs s; s = s\<lparr>ks_kcp := ikcp_update K now (ks_kcp s)\<rparr>
           in case drainRecvQueue K (ks_refreshStats K s) of
                None \<Rightarrow> None
              | Some s \<Rightarrow>
                  let s = scheduleUpdate K now s
                  in if ko_idleTimeout (ks_options s) > 0 \<and> ks_clock s - ks_lastActive s \<ge> ko_idleTimeout (ks_options s)
                     then Some (kcp_handleClose (kcp_handleError EC_Timeout ''KcpSession idle timeout'' s))
                     else Some (closing_done K s))"

section \<open>Steps of the loop\<close>

text \<open>A functor of the session, an update timer that expires, or time that passes.\<close>

datatype kcp_step = Kp_call kcp_call | Kp_input "byte list" | Kp_destroy | Kp_timer nat | Kp_tick nat

fun kcp_exec :: "'k ikcp \<Rightarrow> kcp_step \<Rightarrow> 'k KcpSession \<Rightarrow> 'k KcpSession option" where
  "kcp_exec K (Kp_call c) s = Some (kcp_run K c s)"
| "kcp_exec K (Kp_input packet) s = inputPacketInLoop K packet s"
| "kcp_exec K Kp_destroy s = Some (kcp_connectDestroyed s)"
| "kcp_exec K (Kp_timer i) s =
     (if i \<in> fst ` set (ks_timers s) then updateInLoop K (s\<lparr>ks_timers := filter (\<lambda>(j, _). j \<noteq> i) (ks_timers s)\<rparr>) else None)"
| "kcp_exec K (Kp_tick ms) s = Some (s\<lparr>ks_clock := ks_clock s + int ms\<rparr>)"

definition kcp_stepping :: "'k ikcp \<Rightarrow> 'k KcpSession \<Rightarrow> 'k KcpSession \<Rightarrow> bool" where
  "kcp_stepping K s s' \<longleftrightarrow> (\<exists>st. kcp_exec K st s = Some s')"

section \<open>Timers and the close callback\<close>

text \<open>
  A session that is not disconnected has its update timer armed, and no other; with \<open>armed = False\<close>, as inside of the handler of that
  timer, it may be missing. A disconnected session has no timer. The close callback has run at most once, and only in a disconnected session.
\<close>

definition ks_ok :: "bool \<Rightarrow> 'k KcpSession \<Rightarrow> bool" where
  "ks_ok armed s \<longleftrightarrow>
     0 < ks_nextTimer s
     \<and> (if ks_state s = Ks_Disconnected then ks_timers s = []
        else (\<exists>d. ks_timers s = [(ks_updateTimerId s, d)] \<and> ks_updateTimerId s \<noteq> 0) \<or> \<not> armed \<and> ks_timers s = [])
     \<and> length (filter (\<lambda>e. e = Ks_closed) (ks_log s)) \<le> (if ks_state s = Ks_Disconnected then 1 else 0)"

lemma ks_ok_frame:
  assumes "ks_ok a s" and "ks_nextTimer s' = ks_nextTimer s" and "ks_state s' = ks_state s" and "ks_timers s' = ks_timers s"
    and "ks_updateTimerId s' = ks_updateTimerId s" and "filter (\<lambda>e. e = Ks_closed) (ks_log s') = filter (\<lambda>e. e = Ks_closed) (ks_log s)"
  shows "ks_ok a s'"
  using assms unfolding ks_ok_def by auto

lemma ks_ok_mono: "ks_ok True s \<Longrightarrow> ks_ok a s"
  by (auto simp: ks_ok_def)

lemma ks_ok_emit: "ks_ok a s \<Longrightarrow> e \<noteq> Ks_closed \<Longrightarrow> ks_ok a (ks_emit on e s)"
  by (erule ks_ok_frame) (simp_all add: ks_emit_def)

lemma ks_ok_error: "ks_ok a s \<Longrightarrow> ks_ok a (kcp_handleError code message s)"
  unfolding kcp_handleError_def by (erule ks_ok_emit) simp

lemma ks_ok_kcp: "ks_ok a s \<Longrightarrow> ks_ok a (s\<lparr>ks_kcp := k\<rparr>)" "ks_ok a s \<Longrightarrow> ks_ok a (ks_touchActive s)" "ks_ok a s \<Longrightarrow> ks_ok a (ks_refreshStats K s)"
  by (erule ks_ok_frame; simp add: ks_touchActive_def ks_refreshStats_def)+

lemma ks_ok_schedule: "ks_ok False s \<Longrightarrow> ks_ok True (scheduleUpdate K now s)"
  by (auto simp: ks_ok_def scheduleUpdate_def cancelUpdateTimer_def Let_def)

lemma ks_ok_close: "ks_ok False s \<Longrightarrow> ks_ok True (kcp_handleClose s)"
  by (auto simp: ks_ok_def kcp_handleClose_def cancelUpdateTimer_def ks_emit_def)

lemma ks_ok_destroy: "ks_ok False s \<Longrightarrow> ks_ok True (kcp_connectDestroyed s)"
  by (auto simp: ks_ok_def kcp_connectDestroyed_def cancelUpdateTimer_def)

lemma ks_ok_weaken: "ks_ok a s \<Longrightarrow> ks_ok False s"
  by (auto simp: ks_ok_def)

lemma ks_ok_scheduled: "ks_ok b s \<Longrightarrow> ks_ok a (scheduleUpdate K now s)"
  by (rule ks_ok_mono, rule ks_ok_schedule, erule ks_ok_weaken)

lemma ks_ok_closed: "ks_ok b s \<Longrightarrow> ks_ok a (kcp_handleClose s)"
  by (rule ks_ok_mono, rule ks_ok_close, erule ks_ok_weaken)

lemma ks_ok_sendInLoop:
  assumes "ks_ok a s"
  shows "ks_ok a (kcp_sendInLoop K data s)"
proof -
  obtain r kcp where send: "ikcp_send K data (ks_kcp s) = (r, kcp)" by (cases "ikcp_send K data (ks_kcp s)")
  let ?s = "s\<lparr>ks_kcp := kcp\<rparr>"
  have "ks_ok a ?s" by (rule ks_ok_kcp [OF assms])
  then have "ks_ok a (kcp_handleError c m ?s)" and "ks_ok a (ks_touchActive ?s)" for c m by (auto intro: ks_ok_error ks_ok_kcp)
  moreover from this(2) have "ks_ok a (scheduleUpdate K now (ks_refreshStats K ((ks_touchActive ?s)\<lparr>ks_kcp := k\<rparr>)))" for now k
    by (rule ks_ok_scheduled [OF ks_ok_kcp(3) [OF ks_ok_kcp(1)]])
  ultimately show ?thesis using assms send by (simp add: kcp_sendInLoop_def Let_def ks_ok_error)
qed

lemma ks_ok_run:
  assumes "ks_ok a s"
  shows "ks_ok a (kcp_run K c s)"
proof (cases c)
  case (Kc_send data)
  then show ?thesis using assms by (simp add: ks_ok_sendInLoop)
next
  case Kc_shutdown
  have "ks_state s \<noteq> Ks_Disconnected \<Longrightarrow> ks_ok a (s\<lparr>ks_state := Ks_Disconnecting\<rparr>)" using assms by (simp add: ks_ok_def)
  moreover from this have "ks_state s \<noteq> Ks_Disconnected \<Longrightarrow> ks_ok a (kcp_handleClose (s\<lparr>ks_state := Ks_Disconnecting\<rparr>))"
    by (rule ks_ok_closed)
  ultimately show ?thesis using Kc_shutdown assms by (simp add: Let_def)
next
  case Kc_forceClose
  then show ?thesis using assms ks_ok_closed by simp
qed

lemma ks_ok_fold: "ks_ok a s \<Longrightarrow> ks_ok a (fold (kcp_run K) cs s)"
  by (induction cs arbitrary: s) (auto intro: ks_ok_run)

lemma ks_ok_message: "ks_ok a s \<Longrightarrow> ks_ok a (on_message K m s)"
  by (auto simp: on_message_def intro!: ks_ok_fold ks_ok_emit split: option.split)

lemma ks_ok_drain:
  assumes "drainRecvQueue K s = Some s'" and "ks_ok a s"
  shows "ks_ok a s'"
  using assms
proof (induction rule: drainRecvQueue.raw_induct [rotated, consumes 1, case_names 1])
  case (1 drain K s s')
  note ok = \<open>ks_ok a s\<close>
  obtain n payload kcp where recv: "ikcp_recv K (ikcp_peeksize K (ks_kcp s)) (ks_kcp s) = (n, payload, kcp)" by (metis prod_cases3)
  have "ks_ok a (drain_end K (s\<lparr>ks_kcp := k\<rparr>))" "ks_ok a (drain_end K s)" for k
    using ok by (auto simp: drain_end_def intro: ks_ok_emit ks_ok_kcp)
  moreover have "ks_ok a (kcp_handleClose (kcp_handleError c m s))" for c m by (rule ks_ok_closed [OF ks_ok_error [OF ok]])
  moreover have "ks_ok a (on_message K m (ks_touchActive (s\<lparr>ks_kcp := k\<rparr>)))" for m k
    by (intro ks_ok_message ks_ok_kcp ok)
  ultimately show ?case using 1(1,2) by (auto simp: Let_def recv split: if_splits)
qed

lemma ks_ok_closing: "ks_ok a s \<Longrightarrow> ks_ok a (closing_done K s)"
  by (auto simp: closing_done_def ks_ok_closed)

lemma ks_ok_input:
  assumes "inputPacketInLoop K packet s = Some s'" and "ks_ok True s"
  shows "ks_ok True s'"
proof -
  obtain r kcp where input: "ikcp_input K packet (ks_kcp s) = (r, kcp)" by (cases "ikcp_input K packet (ks_kcp s)")
  have "ks_ok True (ks_touchActive (s\<lparr>ks_kcp := kcp\<rparr>))" by (intro ks_ok_kcp assms(2))
  then have drained: "ks_ok True t" if "drainRecvQueue K (ks_touchActive (s\<lparr>ks_kcp := kcp\<rparr>)) = Some t" for t
    using that by (rule ks_ok_drain [rotated])
  have "ks_ok True (closing_done K (scheduleUpdate K now (ks_refreshStats K (t\<lparr>ks_kcp := k\<rparr>))))" if "ks_ok True t" for t now k
    using that by (intro ks_ok_closing ks_ok_scheduled ks_ok_kcp)
  moreover have "ks_ok True (kcp_handleError c m (s\<lparr>ks_kcp := kcp\<rparr>))" for c m by (intro ks_ok_error ks_ok_kcp assms(2))
  ultimately show ?thesis using assms drained
    by (auto simp: inputPacketInLoop_def Let_def input split: if_splits option.splits)
qed

lemma ks_ok_update:
  assumes "updateInLoop K s = Some s'" and "ks_ok False s"
  shows "ks_ok True s'"
proof (cases "ks_state s = Ks_Disconnected")
  case True
  then show ?thesis using assms by (auto simp: updateInLoop_def ks_ok_def)
next
  case False
  let ?s = "ks_refreshStats K (s\<lparr>ks_kcp := ikcp_update K (ks_nowMs s) (ks_kcp s)\<rparr>)"
  have "ks_ok False ?s" by (intro ks_ok_kcp assms(2))
  then have "ks_ok True (scheduleUpdate K now t)" if "drainRecvQueue K ?s = Some t" for t now
    using that ks_ok_scheduled ks_ok_drain by blast
  moreover have "ks_ok True (closing_done K t)" "ks_ok True (kcp_handleClose (kcp_handleError c m t))" if "ks_ok True t" for t c m
    using that by (auto intro: ks_ok_closing ks_ok_closed ks_ok_error)
  ultimately show ?thesis using assms(1) False by (auto simp: updateInLoop_def Let_def split: if_splits option.splits)
qed

lemma ks_ok_step:
  assumes "kcp_stepping K s s'" and "ks_ok True s"
  shows "ks_ok True s'"
proof -
  from assms(1) obtain st where st: "kcp_exec K st s = Some s'" by (auto simp: kcp_stepping_def)
  show ?thesis
  proof (cases st)
    case (Kp_timer i)
    have "ks_ok False (s\<lparr>ks_timers := filter (\<lambda>(j, _). j \<noteq> i) (ks_timers s)\<rparr>)" using assms(2) by (auto simp: ks_ok_def)
    then show ?thesis using Kp_timer st ks_ok_update by (auto split: if_splits)
  next
    case (Kp_input packet)
    then show ?thesis using st assms(2) ks_ok_input by auto
  next
    case (Kp_tick ms)
    then show ?thesis using st assms(2) by (auto simp: ks_ok_def)
  next
    case (Kp_call c)
    then show ?thesis using st ks_ok_run [OF assms(2)] by auto
  next
    case Kp_destroy
    then show ?thesis using st ks_ok_destroy [OF ks_ok_weaken [OF assms(2)]] by auto
  qed
qed

interpretation kcp_sessions: step_machine "kcp_stepping K" "ks_ok True" for K
  by unfold_locales (rule ks_ok_step)


lemma mk_KcpSession_ok:
  assumes "mk_KcpSession K create loopIsNull socketIsNull options callbacks clock nextTimer = Ret s" and "0 < nextTimer"
  shows "ks_ok True (kcp_connectEstablished K s)"
proof -
  from assms(1) have "ks_state s = Ks_Connecting" "ks_timers s = []" "ks_log s = []" "ks_nextTimer s = nextTimer" "ks_updateTimerId s = 0"
    by (auto simp: mk_KcpSession_def ks_refreshStats_def ks_touchActive_def split: if_splits sum.splits)
  then have "ks_ok False (s\<lparr>ks_state := Ks_Connected\<rparr>)" using assms(2) by (simp add: ks_ok_def)
  then show ?thesis unfolding kcp_connectEstablished_def by (rule ks_ok_schedule)
qed

text \<open>
  C27: Invariant. In every sequence of sends, shutdowns, closings, datagrams, expired timers and message callbacks that send or close,
  a session that is not disconnected has exactly one update timer armed, the one it remembers, a disconnected session has none, and the
  close callback has been called once at most and only in a disconnected session; whatever the KCP library does.
\<close>

theorem kcp_session_lifecycle:
  assumes "mk_KcpSession K create loopIsNull socketIsNull options callbacks clock nextTimer = Ret s0" and "0 < nextTimer"
    and "(kcp_stepping K)\<^sup>*\<^sup>* (kcp_connectEstablished K s0) s"
  shows "(if ks_state s = Ks_Disconnected then ks_timers s = [] else \<exists>d. ks_timers s = [(ks_updateTimerId s, d)])
    \<and> length (filter (\<lambda>e. e = Ks_closed) (ks_log s)) \<le> (if ks_state s = Ks_Disconnected then 1 else 0)"
  using kcp_sessions.reach_inv [OF assms(3) mk_KcpSession_ok [OF assms(1,2)]] by (auto simp: ks_ok_def)

section \<open>Messages\<close>

text \<open>
  What the session relies on of \<^verbatim>\<open>ikcp.h\<close>: \<open>ready\<close> are the complete messages that have arrived in order.
  \<^verbatim>\<open>ikcp_peeksize\<close> gives the length of the first one, or a negative number, \<^verbatim>\<open>ikcp_recv\<close> with a buffer of that length takes it, and sending
  and updating leave them alone.
\<close>

definition kcp_receives :: "'k ikcp \<Rightarrow> ('k \<Rightarrow> byte list list) \<Rightarrow> bool" where
  "kcp_receives K ready \<longleftrightarrow>
     (\<forall>k. (ready k = [] \<longrightarrow> ikcp_peeksize K k < 0)
        \<and> (\<forall>m ms. ready k = m # ms \<longrightarrow>
             ikcp_peeksize K k = int (length m)
             \<and> (\<exists>k'. ikcp_recv K (int (length m)) k = (int (length m), m, k') \<and> ready k' = ms))
        \<and> (\<forall>d r k'. ikcp_send K d k = (r, k') \<longrightarrow> ready k' = ready k)
        \<and> (\<forall>now. ready (ikcp_update K now k) = ready k))"

fun messages_of :: "kcp_event list \<Rightarrow> byte list list" where
  "messages_of [] = []"
| "messages_of (Ks_message m # es) = m # messages_of es"
| "messages_of (_ # es) = messages_of es"

lemma messages_of_append [simp]: "messages_of (es @ fs) = messages_of es @ messages_of fs"
  by (induction es rule: messages_of.induct) auto

definition ks_messages :: "'k KcpSession \<Rightarrow> byte list list" where
  "ks_messages s = messages_of (ks_log s)"

text \<open>What no operation but the receiving loop changes.\<close>

definition ks_same :: "('k \<Rightarrow> byte list list) \<Rightarrow> 'k KcpSession \<Rightarrow> 'k KcpSession \<Rightarrow> bool" where
  "ks_same ready s s' \<longleftrightarrow>
     ks_options s' = ks_options s \<and> ks_callbacks s' = ks_callbacks s \<and> ready (ks_kcp s') = ready (ks_kcp s) \<and> ks_messages s' = ks_messages s"

lemma ks_same_refl [simp]: "ks_same ready s s"
  by (simp add: ks_same_def)

lemma ks_same_trans: "ks_same ready s s' \<Longrightarrow> ks_same ready s' s'' \<Longrightarrow> ks_same ready s s''"
  by (auto simp: ks_same_def)

lemma ks_same_emit: "messages_of [e] = [] \<Longrightarrow> ks_same ready s (ks_emit on e s)"
  by (simp add: ks_same_def ks_emit_def ks_messages_def)

lemma ks_same_upd [simp]:
  "ks_same ready s (ks_touchActive s)" "ks_same ready s (ks_refreshStats K s)" "ks_same ready s (cancelUpdateTimer s)"
  "ks_same ready s (s\<lparr>ks_state := st\<rparr>)" "ks_same ready s (scheduleUpdate K now s)" "ks_same ready s (kcp_handleError code message s)"
  by (simp_all add: ks_same_def ks_touchActive_def ks_refreshStats_def cancelUpdateTimer_def scheduleUpdate_def ks_messages_def
      kcp_handleError_def ks_emit_def Let_def)

lemma ks_same_close [simp]: "ks_same ready s (kcp_handleClose s)"
  by (simp add: ks_same_def kcp_handleClose_def cancelUpdateTimer_def ks_emit_def ks_messages_def)

lemma ks_same_kcp: "ready k = ready (ks_kcp s) \<Longrightarrow> ks_same ready s (s\<lparr>ks_kcp := k\<rparr>)"
  by (simp add: ks_same_def ks_messages_def)

lemma ks_same_sendInLoop:
  assumes "kcp_receives K ready"
  shows "ks_same ready s (kcp_sendInLoop K data s)"
proof -
  obtain r kcp where send: "ikcp_send K data (ks_kcp s) = (r, kcp)" by (cases "ikcp_send K data (ks_kcp s)")
  let ?s = "s\<lparr>ks_kcp := kcp\<rparr>" let ?u = "\<lambda>now. (ks_touchActive ?s)\<lparr>ks_kcp := ikcp_update K now (ks_kcp (ks_touchActive ?s))\<rparr>"
  have "ready kcp = ready (ks_kcp s)" using assms send by (simp add: kcp_receives_def)
  then have s: "ks_same ready s ?s" by (rule ks_same_kcp)
  have u: "ks_same ready (ks_touchActive ?s) (?u now)" for now
    by (rule ks_same_kcp) (use assms in \<open>simp add: kcp_receives_def\<close>)
  have "ks_same ready s (?u now)" for now
    by (rule ks_same_trans [OF s ks_same_trans [OF ks_same_upd(1) u]])
  then have "ks_same ready s (scheduleUpdate K now' (ks_refreshStats K (?u now)))" for now now'
    by (rule ks_same_trans [OF ks_same_trans [OF _ ks_same_upd(2)] ks_same_upd(5)])
  moreover have "ks_same ready s (kcp_handleError c m ?s)" for c m by (rule ks_same_trans [OF s ks_same_upd(6)])
  ultimately show ?thesis using send by (simp add: kcp_sendInLoop_def Let_def)
qed

lemma ks_same_run:
  assumes "kcp_receives K ready"
  shows "ks_same ready s (kcp_run K c s)"
  by (cases c) (simp_all add: Let_def ks_same_sendInLoop [OF assms] ks_same_trans [OF ks_same_upd(4) ks_same_close])

lemma ks_same_fold: "kcp_receives K ready \<Longrightarrow> ks_same ready s (fold (kcp_run K) cs s)"
  by (induction cs arbitrary: s) (auto intro: ks_same_trans [OF ks_same_run])

lemma on_message_effect:
  assumes "kcp_receives K ready" and "cb_message (ks_callbacks s) = Some calls"
  shows "ks_options (on_message K m s) = ks_options s \<and> ks_callbacks (on_message K m s) = ks_callbacks s
    \<and> ready (ks_kcp (on_message K m s)) = ready (ks_kcp s) \<and> ks_messages (on_message K m s) = ks_messages s @ [m]"
  using ks_same_fold [OF assms(1), of "ks_emit True (Ks_message m) s" "calls m"] assms(2)
  by (simp add: on_message_def ks_same_def ks_messages_def ks_emit_def)

lemma drain_delivers:
  assumes "kcp_receives K ready" and "cb_message (ks_callbacks s) = Some calls" and "ready (ks_kcp s) = ms"
    and "fit = (\<lambda>m. int (length m) \<le> max_message_int s)"
  shows "\<exists>s'. drainRecvQueue K s = Some s' \<and> ks_messages s' = ks_messages s @ takeWhile fit ms
    \<and> ready (ks_kcp s') = dropWhile fit ms \<and> (dropWhile fit ms \<noteq> [] \<longrightarrow> ks_state s' = Ks_Disconnected)"
  using assms(2-)
proof (induction ms arbitrary: s)
  case Nil
  then have "drainRecvQueue K s = Some (drain_end K s)"
    using assms(1) by (subst drainRecvQueue.simps) (simp add: kcp_receives_def)
  then show ?case using Nil by (simp add: drain_end_def ks_emit_def ks_messages_def)
next
  case (Cons m ms)
  from assms(1) Cons.prems(2) obtain k' where lib: "ikcp_peeksize K (ks_kcp s) = int (length m)"
    "ikcp_recv K (int (length m)) (ks_kcp s) = (int (length m), m, k')" "ready k' = ms"
    unfolding kcp_receives_def by metis
  show ?case
  proof (cases "fit m")
    case True
    let ?s = "on_message K m (ks_touchActive (s\<lparr>ks_kcp := k'\<rparr>))"
    have one: "drainRecvQueue K s = drainRecvQueue K ?s"
      using lib(1,2) True Cons.prems(3) by (subst drainRecvQueue.simps) simp
    have "cb_message (ks_callbacks (ks_touchActive (s\<lparr>ks_kcp := k'\<rparr>))) = Some calls" using Cons.prems(1) by (simp add: ks_touchActive_def)
    from on_message_effect [OF assms(1) this, of m] have eff: "ks_options ?s = ks_options s" "ks_callbacks ?s = ks_callbacks s"
      "ready (ks_kcp ?s) = ms" "ks_messages ?s = ks_messages s @ [m]" using lib(3) by (simp_all add: ks_touchActive_def ks_messages_def)
    show ?thesis using Cons.IH [of ?s] Cons.prems(1,3) eff one True by (auto simp: max_message_int_def)
  next
    case False
    let ?s = "kcp_handleClose (kcp_handleError EC_InvalidState ''KcpSession message too large'' s)"
    have "drainRecvQueue K s = Some ?s"
      using lib(1) False Cons.prems(3) by (subst drainRecvQueue.simps) simp
    moreover have "ks_same ready s ?s" by (rule ks_same_trans [OF ks_same_upd(6) ks_same_close])
    moreover have "ks_state ?s = Ks_Disconnected" by (simp add: kcp_handleClose_def ks_emit_def)
    ultimately show ?thesis using False Cons.prems(2) by (simp add: ks_same_def)
  qed
qed

text \<open>
  Functional behaviour and termination of the receiving loop. With a library that keeps to its interface, the loop ends, and the message callback has
  been called with exactly the messages that were ready, in order and whole, up to the first one that exceeds \<^verbatim>\<open>maxMessageBytes\<close>; such a one closes
  the session. Whatever the callback sends or closes does not change this.
\<close>

theorem kcp_drain_delivers:
  assumes "kcp_receives K ready" and "cb_message (ks_callbacks s) = Some calls" and "ko_maxMessageBytes (ks_options s) < 2 ^ 31"
  shows "\<exists>s'. drainRecvQueue K s = Some s'
    \<and> (let fit = (\<lambda>m. length m \<le> ko_maxMessageBytes (ks_options s))
        in ks_messages s' = ks_messages s @ takeWhile fit (ready (ks_kcp s)) \<and> ready (ks_kcp s') = dropWhile fit (ready (ks_kcp s))
           \<and> (list_all fit (ready (ks_kcp s)) \<or> ks_state s' = Ks_Disconnected))"
proof -
  have "max_message_int s = signed_take_bit 31 (int (ko_maxMessageBytes (ks_options s)))"
    by (simp only: max_message_int_def of_int_of_nat_eq [where ?'a = "32 word", symmetric] sint_sbintrunc') simp
  also have "\<dots> = int (ko_maxMessageBytes (ks_options s))" using assms(3) by (simp add: signed_take_bit_int_eq_self_iff)
  finally have "max_message_int s = int (ko_maxMessageBytes (ks_options s))" .
  then have eq: "(\<lambda>m :: byte list. int (length m) \<le> max_message_int s) = (\<lambda>m. length m \<le> ko_maxMessageBytes (ks_options s))" by simp
  show ?thesis using drain_delivers [OF assms(1,2) refl refl] unfolding eq
    by (auto simp: Let_def list_all_iff dropWhile_eq_Nil_conv)
qed


section \<open>A library of whole messages\<close>

text \<open>
  A library that keeps the packets it is given as messages, to run the session on: every packet is one message, sending succeeds and
  the next update is due in ten milliseconds.
\<close>

definition plain_kcp :: "byte list list ikcp" where
  "plain_kcp = \<lparr>ikcp_send = (\<lambda>d k. (0, k)), ikcp_input = (\<lambda>p k. (0, k @ [p])), ikcp_update = (\<lambda>_ k. k), ikcp_check = (\<lambda>_ now. now + 10),
     ikcp_peeksize = (\<lambda>k. case k of [] \<Rightarrow> - 1 | m # _ \<Rightarrow> int (length m)),
     ikcp_recv = (\<lambda>n k. case k of [] \<Rightarrow> (- 1, [], []) | m # ms \<Rightarrow> (int (length m), m, ms)),
     ikcp_waitsnd = (\<lambda>_. 0), ikcp_stats = (\<lambda>_. (0, 0, 0, 0))\<rparr>"

lemma plain_kcp_receives: "kcp_receives plain_kcp (\<lambda>k. k)"
  by (auto simp: kcp_receives_def plain_kcp_def)

definition plain_options :: "nat \<Rightarrow> kcp_options" where
  "plain_options maxBytes = \<lparr>ko_conv = 7, ko_token = 9, ko_mtu = 1400, ko_sndWnd = 128, ko_rcvWnd = 128, ko_nodelay = 1, ko_interval = 20, ko_resend = 2, ko_nc = 1,
     ko_idleTimeout = 0, ko_maxMessageBytes = maxBytes\<rparr>"

definition plain_session :: "(byte list \<Rightarrow> kcp_call list) \<Rightarrow> nat \<Rightarrow> byte list list \<Rightarrow> byte list list KcpSession" where
  "plain_session calls maxBytes k =
     \<lparr>ks_options = plain_options maxBytes, ks_callbacks = \<lparr>cb_message = Some calls, cb_writeComplete = False, cb_close = True, cb_error = True\<rparr>,
      ks_kcp = k, ks_state = Ks_Connecting, ks_updateTimerId = 0, ks_lastActive = 0, ks_stats = (0, 0, 0, 0), ks_clock = 0,
      ks_timers = [], ks_nextTimer = 1, ks_log = []\<rparr>"

lemma plain_session_made:
  "mk_KcpSession plain_kcp (\<lambda>_. Inr k) False False (plain_options n) (ks_callbacks (plain_session calls n k)) 0 1 = Ret (plain_session calls n k)"
  by (simp add: mk_KcpSession_def plain_session_def plain_options_def plain_kcp_def ks_refreshStats_def ks_touchActive_def)

lemmas kcp_eval = kcp_connectEstablished_def scheduleUpdate_def cancelUpdateTimer_def kcp_handleClose_def kcp_handleError_def ks_emit_def
  ks_touchActive_def ks_refreshStats_def update_delay_def plain_session_def plain_options_def plain_kcp_def Let_def on_message_def
  inputPacketInLoop_def drain_end_def closing_done_def max_message_int_def drainRecvQueue.simps

text \<open>
  The receiving loop does not look at the state again after the message callback: a session that its message callback closes goes on delivering the
  messages that are ready, behind the close callback.
\<close>

theorem kcp_messages_after_close:
  "\<exists>s'. inputPacketInLoop plain_kcp [2] (kcp_connectEstablished plain_kcp (plain_session (\<lambda>_. [Kc_forceClose]) 10 [[1]])) = Some s'
     \<and> ks_log s' = [Ks_message [1], Ks_closed, Ks_message [2]]"
  by (simp add: kcp_eval)

text \<open>
  \<^verbatim>\<open>maxMessageBytes\<close> is a \<^verbatim>\<open>std::size_t\<close> that is compared as an \<^verbatim>\<open>int\<close>: with a limit of two gigabytes every message is too large.
\<close>

theorem kcp_huge_limit_closes:
  "\<exists>s'. inputPacketInLoop plain_kcp [2] (kcp_connectEstablished plain_kcp (plain_session (\<lambda>_. []) (2 ^ 31) [])) = Some s'
     \<and> ks_log s' = [Ks_error (mk_error EC_InvalidState ''KcpSession message too large''), Ks_closed] \<and> ks_state s' = Ks_Disconnected"
  by (simp add: kcp_eval)

theorem kcp_session_lifecycle_witness:
  "\<exists>s. (kcp_stepping plain_kcp)\<^sup>*\<^sup>* (kcp_connectEstablished plain_kcp (plain_session (\<lambda>_. []) 10 [])) s
     \<and> ks_state s = Ks_Connected \<and> ks_messages s = [[5, 6]] \<and> (\<exists>d. ks_timers s = [(ks_updateTimerId s, d)])"
proof -
  let ?s0 = "kcp_connectEstablished plain_kcp (plain_session (\<lambda>_. []) 10 [])"
  obtain s where s: "kcp_exec plain_kcp (Kp_input [5, 6]) ?s0 = Some s" "ks_state s = Ks_Connected" "ks_messages s = [[5, 6]]"
    by (simp add: kcp_eval ks_messages_def)
  then have "(kcp_stepping plain_kcp)\<^sup>*\<^sup>* ?s0 s" by (metis kcp_stepping_def r_into_rtranclp)
  moreover from kcp_session_lifecycle [OF plain_session_made [of "[]" 10 "\<lambda>_. []"] _ this] s(2)
  have "\<exists>d. ks_timers s = [(ks_updateTimerId s, d)]" by simp
  ultimately show ?thesis using s by blast
qed

theorem kcp_drain_delivers_witness:
  "\<exists>s'. drainRecvQueue plain_kcp (plain_session (\<lambda>_. [Kc_send [1]]) 2 [[7], [8, 9], [1, 2, 3], [4]]) = Some s'
     \<and> ks_messages s' = [[7], [8, 9]] \<and> ks_state s' = Ks_Disconnected"
  using kcp_drain_delivers [OF plain_kcp_receives, of "plain_session (\<lambda>_. [Kc_send [1]]) 2 [[7], [8, 9], [1, 2, 3], [4]]" "\<lambda>_. [Kc_send [1]]"]
  by (auto simp: plain_session_def plain_options_def ks_messages_def Let_def)

section \<open>Headers and delays\<close>

text \<open>The header of a packet is read back, whatever follows it.\<close>

lemma tryParseHeader_roundtrip:
  "tryParseHeader (mem_of_word 4 (conv :: 32 word) @ mem_of_word 4 (token :: 32 word) @ rest) = Some (conv, token)"
proof -
  have len: "length (mem_of_word 4 w) = 4" for w :: "32 word" by simp
  then have "length (mem_of_word 4 conv @ mem_of_word 4 token @ rest) \<ge> kHeaderSize" by (simp add: kHeaderSize_def)
  then show ?thesis by (simp add: tryParseHeader_def kHeaderSize_def decode32uLE_mem len word_of_mem_of_word)
qed

text \<open>The timer is never armed for later than the library asks, also when the clock of 32 bits wraps around.\<close>

lemma update_delay_not_late: "update_delay next now \<le> unat (next - now)"
  by (simp add: update_delay_def)

end
