(* ===== verification/LoopPool.thy ===== *)
theory LoopPool
  imports Prelude Std_Strings
begin

text \<open>
  \<^verbatim>\<open>dbase::sync::CountDownLatch\<close> (\<^verbatim>\<open>code/src/sync/count_down_latch.cpp\<close>), \<^verbatim>\<open>dbase::net::EventLoopThread\<close> and
  \<^verbatim>\<open>EventLoopThreadPool\<close> (\<^verbatim>\<open>code/src/net/event_loop_thread.cpp\<close>, \<^verbatim>\<open>event_loop_thread_pool.cpp\<close>). A loop is a number, its
  address. The latch and the starting of a thread are steps of interleaving threads; the choice of a loop is made in the thread of the base
  loop.
\<close>

section \<open>The latch\<close>

text \<open>A thread is outside, testing the predicate of \<^verbatim>\<open>wait\<close> under the mutex (the test and the blocking are one section), or blocked.\<close>

datatype latch_pc = L_out | L_ready | L_blocked

record CountDownLatch =
  l_count :: nat
  l_waiters :: "nat \<Rightarrow> latch_pc"

definition mk_CountDownLatch :: "int \<Rightarrow> CountDownLatch outcome" where
  "mk_CountDownLatch count =
     (if count < 0 then Throw (Invalid_argument ''CountDownLatch count must be non-negative'')
      else Ret \<lparr>l_count = nat count, l_waiters = (\<lambda>_. L_out)\<rparr>)"

definition latch_test :: "nat \<Rightarrow> CountDownLatch \<Rightarrow> CountDownLatch" where
  "latch_test t l = l\<lparr>l_waiters := (l_waiters l)(t := if l_count l = 0 then L_out else L_blocked)\<rparr>"

definition latch_wait :: "nat \<Rightarrow> CountDownLatch \<Rightarrow> CountDownLatch" where
  "latch_wait t l = latch_test t l"

definition latch_woken :: "latch_pc \<Rightarrow> latch_pc" where
  "latch_woken p = (if p = L_blocked then L_ready else p)"

definition countDown :: "CountDownLatch \<Rightarrow> CountDownLatch" where
  "countDown l =
     (if l_count l = 0 then l
      else let l = l\<lparr>l_count := l_count l - 1\<rparr>
           in if l_count l = 0 then l\<lparr>l_waiters := latch_woken \<circ> l_waiters l\<rparr> else l)"

text \<open>The steps: a call of \<^verbatim>\<open>wait\<close>, a thread that was woken tests again, \<^verbatim>\<open>countDown\<close>, a spurious wakeup.\<close>

inductive latch_step :: "CountDownLatch \<Rightarrow> CountDownLatch \<Rightarrow> bool" where
  wait: "l_waiters l t = L_out \<Longrightarrow> latch_step l (latch_wait t l)"
| test: "l_waiters l t = L_ready \<Longrightarrow> latch_step l (latch_test t l)"
| down: "latch_step l (countDown l)"
| spurious: "l_waiters l t = L_blocked \<Longrightarrow> latch_step l (l\<lparr>l_waiters := (l_waiters l)(t := L_ready)\<rparr>)"

definition latch_ok :: "CountDownLatch \<Rightarrow> bool" where
  "latch_ok l \<longleftrightarrow> (l_count l = 0 \<longrightarrow> (\<forall>t. l_waiters l t \<noteq> L_blocked))"

lemma latch_ok_step: "latch_step l l' \<Longrightarrow> latch_ok l \<Longrightarrow> latch_ok l'"
  by (induction rule: latch_step.induct)
    (auto simp: latch_ok_def latch_wait_def latch_test_def countDown_def latch_woken_def Let_def)

interpretation latch: step_machine latch_step latch_ok
  by unfold_locales (rule latch_ok_step)

text \<open>
  No thread stays blocked at a latch that is open, and \<open>n\<close> calls of \<^verbatim>\<open>countDown\<close> open it.
\<close>

theorem latch_no_lost_wakeup:
  assumes "mk_CountDownLatch n = Ret l0" and "latch_step\<^sup>*\<^sup>* l0 l" and "l_count l = 0"
  shows "l_waiters l t \<noteq> L_blocked"
proof -
  have "latch_ok l0" using assms(1) by (auto simp: mk_CountDownLatch_def latch_ok_def split: if_splits)
  then show ?thesis using latch.reach_inv [OF assms(2)] assms(3) by (simp add: latch_ok_def)
qed

lemma countDown_count: "l_count ((countDown ^^ n) l) = l_count l - n"
  by (induction n) (auto simp: countDown_def Let_def)

section \<open>Starting a loop in a thread\<close>

text \<open>
  \<^verbatim>\<open>startLoop\<close> and \<^verbatim>\<open>threadFunc\<close>: the starter creates the thread, waits at the latch and reads \<^verbatim>\<open>m_loop\<close>; the thread makes
  its loop, stores the address, opens the latch and runs the loop until it quits, which takes a pointer to the loop: nobody has one before \<^verbatim>\<open>startLoop\<close> has returned
  (\<open>et_result\<close>).
\<close>

datatype starter_pc = St_out | St_wait | St_read | St_returned
datatype thread_pc = Th_none | Th_store | Th_down | Th_loop | Th_clear | Th_done

record EventLoopThread =
  et_started :: bool
  et_loop :: "nat option"
  et_latch :: CountDownLatch
  et_starter :: starter_pc
  et_thread :: thread_pc
  et_result :: "nat outcome option"

definition mk_EventLoopThread :: EventLoopThread where
  "mk_EventLoopThread = \<lparr>et_started = False, et_loop = None, et_latch = \<lparr>l_count = 1, l_waiters = (\<lambda>_. L_out)\<rparr>,
     et_starter = St_out, et_thread = Th_none, et_result = None\<rparr>"

definition startLoop_begin :: "EventLoopThread \<Rightarrow> EventLoopThread outcome" where
  "startLoop_begin e =
     (if et_started e then Throw (Logic_error ''EventLoopThread already started'')
      else Ret (e\<lparr>et_started := True, et_thread := Th_store, et_starter := St_wait\<rparr>))"

definition startLoop_end :: "EventLoopThread \<Rightarrow> EventLoopThread" where
  "startLoop_end e = e\<lparr>et_starter := St_returned, et_result := Some (case et_loop e of
       None \<Rightarrow> Throw (Runtime_error ''EventLoopThread failed to start loop'') | Some loop \<Rightarrow> Ret loop)\<rparr>"

inductive et_step :: "nat \<Rightarrow> EventLoopThread \<Rightarrow> EventLoopThread \<Rightarrow> bool" for loop where
  start: "et_starter e = St_out \<Longrightarrow> startLoop_begin e = Ret e' \<Longrightarrow> et_step loop e e'"
| test: "et_starter e = St_wait \<Longrightarrow> l_waiters (et_latch e) 0 \<noteq> L_blocked \<Longrightarrow>
    et_step loop e (e\<lparr>et_latch := latch_test 0 (et_latch e), et_starter := if l_count (et_latch e) = 0 then St_read else St_wait\<rparr>)"
| read: "et_starter e = St_read \<Longrightarrow> et_step loop e (startLoop_end e)"
| store: "et_thread e = Th_store \<Longrightarrow> et_step loop e (e\<lparr>et_loop := Some loop, et_thread := Th_down\<rparr>)"
| down: "et_thread e = Th_down \<Longrightarrow> et_step loop e (e\<lparr>et_latch := countDown (et_latch e), et_thread := Th_loop\<rparr>)"
| quit: "et_thread e = Th_loop \<Longrightarrow> et_result e \<noteq> None \<Longrightarrow> et_step loop e (e\<lparr>et_thread := Th_clear\<rparr>)"
| clear: "et_thread e = Th_clear \<Longrightarrow> et_step loop e (e\<lparr>et_loop := None, et_thread := Th_done\<rparr>)"

definition th_early :: "thread_pc \<Rightarrow> bool" where
  "th_early p \<longleftrightarrow> p = Th_none \<or> p = Th_store \<or> p = Th_down"

definition et_ok :: "nat \<Rightarrow> EventLoopThread \<Rightarrow> bool" where
  "et_ok loop e \<longleftrightarrow>
     (et_thread e = Th_none \<longleftrightarrow> et_starter e = St_out) \<and> et_started e = (et_starter e \<noteq> St_out)
     \<and> l_count (et_latch e) = (if th_early (et_thread e) then 1 else 0)
     \<and> (et_starter e = St_read \<or> et_starter e = St_returned \<longrightarrow> l_count (et_latch e) = 0)
     \<and> (et_thread e = Th_down \<or> et_thread e = Th_loop \<longrightarrow> et_loop e = Some loop)
     \<and> (et_result e = None \<longleftrightarrow> et_starter e \<noteq> St_returned) \<and> (et_thread e = Th_clear \<or> et_thread e = Th_done \<longrightarrow> et_result e \<noteq> None)
     \<and> (et_result e = None \<or> et_result e = Some (Ret loop)) \<and> latch_ok (et_latch e)"

lemma et_ok_step: "et_step loop e e' \<Longrightarrow> et_ok loop e \<Longrightarrow> et_ok loop e'"
proof (induction rule: et_step.induct)
  case (start e e')
  then have e': "e' = e\<lparr>et_started := True, et_thread := Th_store, et_starter := St_wait\<rparr>" by (auto simp: startLoop_begin_def split: if_splits)
  show ?case using start(1,3) unfolding e' by (simp add: et_ok_def th_early_def)
next
  case (test e)
  then show ?case by (cases "l_count (et_latch e) = 0"; cases "et_thread e") (simp_all add: et_ok_def latch_ok_def latch_test_def)
next
  case (read e)
  then have "et_thread e = Th_loop" by (cases "et_thread e") (auto simp: et_ok_def th_early_def)
  then show ?case using read by (simp add: et_ok_def startLoop_end_def th_early_def)
next
  case (store e)
  then show ?case by (cases "et_starter e") (auto simp: et_ok_def th_early_def)
next
  case (down e)
  then show ?case by (cases "et_starter e") (simp_all add: et_ok_def th_early_def countDown_def latch_ok_def latch_woken_def Let_def)
next
  case (quit e)
  then show ?case by (cases "et_starter e") (auto simp: et_ok_def th_early_def)
next
  case (clear e)
  then show ?case by (cases "et_starter e") (auto simp: et_ok_def th_early_def)
qed

interpretation loop_thread: step_machine "et_step loop" "et_ok loop" for loop
  by unfold_locales (rule et_ok_step)

text \<open>
  \<^verbatim>\<open>startLoop\<close> returns the loop of its thread, never its \<^verbatim>\<open>failed to start loop\<close>; and it does return: whenever neither the starter nor the
  thread can go on before it has, no call was made.
\<close>

theorem loop_thread_starts:
  assumes "(et_step loop)\<^sup>*\<^sup>* mk_EventLoopThread e"
  shows "(\<forall>r. et_result e = Some r \<longrightarrow> r = Ret loop) \<and> (et_result e = None \<longrightarrow> (\<exists>e'. et_step loop e e'))"
proof -
  have ok: "et_ok loop e"
    by (rule loop_thread.reach_inv [OF assms]) (simp add: et_ok_def th_early_def mk_EventLoopThread_def latch_ok_def)
  have "\<exists>e'. et_step loop e e'" if "et_result e = None"
  proof (cases "et_starter e")
    case St_out
    then show ?thesis using ok et_step.start [of e _ loop] by (auto simp: et_ok_def startLoop_begin_def)
  next
    case St_read
    then show ?thesis using et_step.read by blast
  next
    case St_returned
    then show ?thesis using ok that by (simp add: et_ok_def)
  next
    case St_wait
    show ?thesis
    proof (cases "l_waiters (et_latch e) 0 = L_blocked")
      case True
      moreover have "latch_ok (et_latch e)" using ok unfolding et_ok_def by blast
      ultimately have "l_count (et_latch e) \<noteq> 0" unfolding latch_ok_def by blast
      then have "et_thread e = Th_store \<or> et_thread e = Th_down" using ok St_wait that by (cases "et_thread e") (simp_all add: et_ok_def th_early_def)
      then show ?thesis using et_step.store et_step.down by blast
    qed (use St_wait et_step.test in blast)
  qed
  then show ?thesis using ok by (auto simp: et_ok_def)
qed

section \<open>The pool\<close>

record EventLoopThreadPool =
  lp_baseLoop :: nat
  lp_poolName :: string
  lp_threadCount :: nat
  lp_started :: bool
  lp_next :: nat
  lp_threads :: "string list"
  lp_loops :: "nat list"

definition mk_EventLoopThreadPool :: "nat option \<Rightarrow> string \<Rightarrow> nat \<Rightarrow> EventLoopThreadPool outcome" where
  "mk_EventLoopThreadPool baseLoop poolName threadCount =
     (case baseLoop of
        None \<Rightarrow> Throw (Invalid_argument ''EventLoopThreadPool baseLoop is null'')
      | Some base \<Rightarrow>
          Ret \<lparr>lp_baseLoop = base, lp_poolName = (if poolName = [] then ''event-loop-pool'' else poolName), lp_threadCount = threadCount,
               lp_started = False, lp_next = 0, lp_threads = [], lp_loops = []\<rparr>)"

text \<open>\<open>new_loop i\<close> is the loop that the \<open>i\<close>-th call of \<^verbatim>\<open>startLoop\<close> returns.\<close>

fun start_threads :: "(nat \<Rightarrow> nat) \<Rightarrow> nat \<Rightarrow> nat \<Rightarrow> EventLoopThreadPool \<Rightarrow> EventLoopThreadPool" where
  "start_threads new_loop 0 i p = p"
| "start_threads new_loop (Suc n) i p =
     start_threads new_loop n (i + 1)
       (p\<lparr>lp_loops := lp_loops p @ [new_loop i], lp_threads := lp_threads p @ [lp_poolName p @ ''-'' @ to_string (int (i + 1))]\<rparr>)"

definition pool_start :: "(nat \<Rightarrow> nat) \<Rightarrow> EventLoopThreadPool \<Rightarrow> EventLoopThreadPool outcome" where
  "pool_start new_loop p =
     (if lp_started p then Throw (Logic_error ''EventLoopThreadPool already started'')
      else Ret (start_threads new_loop (lp_threadCount p) 0 (p\<lparr>lp_started := True\<rparr>)))"

definition getNextLoop :: "EventLoopThreadPool \<Rightarrow> nat \<times> EventLoopThreadPool" where
  "getNextLoop p =
     (if lp_loops p = [] then (lp_baseLoop p, p)
      else let loop = lp_loops p ! lp_next p; next = lp_next p + 1
           in (loop, p\<lparr>lp_next := if next \<ge> length (lp_loops p) then 0 else next\<rparr>))"

definition getLoopForHash :: "nat \<Rightarrow> EventLoopThreadPool \<Rightarrow> nat" where
  "getLoopForHash hashCode p = (if lp_loops p = [] then lp_baseLoop p else lp_loops p ! (hashCode mod length (lp_loops p)))"

fun next_loops :: "nat \<Rightarrow> EventLoopThreadPool \<Rightarrow> nat list \<times> EventLoopThreadPool" where
  "next_loops 0 p = ([], p)"
| "next_loops (Suc n) p = (let (loop, p1) = getNextLoop p; (loops, p2) = next_loops n p1 in (loop # loops, p2))"

lemma start_threads_fields:
  "lp_loops (start_threads new_loop n i p) = lp_loops p @ map new_loop [i..<i + n]"
  "lp_next (start_threads new_loop n i p) = lp_next p" "lp_baseLoop (start_threads new_loop n i p) = lp_baseLoop p"
  by (induction n arbitrary: i p) (simp_all add: upt_conv_Cons del: upt_Suc)

lemma next_loops_round:
  assumes "lp_loops p \<noteq> []" and "lp_next p < length (lp_loops p)"
  shows "fst (next_loops n p) = map (\<lambda>i. lp_loops p ! ((lp_next p + i) mod length (lp_loops p))) [0..<n]"
  using assms
proof (induction n arbitrary: p)
  case (Suc n)
  let ?k = "length (lp_loops p)"
  obtain p1 where p1: "getNextLoop p = (lp_loops p ! lp_next p, p1)" "lp_loops p1 = lp_loops p" "lp_next p1 = (lp_next p + 1) mod ?k"
    using Suc.prems by (auto simp: getNextLoop_def Let_def mod_Suc)
  have "lp_next p1 < ?k" using Suc.prems p1(3) by simp
  from Suc.IH [of p1] this p1(2) Suc.prems(1)
  have "fst (next_loops n p1) = map (\<lambda>i. lp_loops p ! ((lp_next p1 + i) mod ?k)) [0..<n]" by simp
  also have "\<dots> = map (\<lambda>i. lp_loops p ! ((lp_next p + Suc i) mod ?k)) [0..<n]" by (simp add: p1(3) mod_add_left_eq)
  finally show ?case using p1(1) Suc.prems(2) by (cases "next_loops n p1") (simp add: map_upt_Suc del: upt_Suc)
qed simp

text \<open>
  The loops are handed out in turn: \<open>m\<close> calls on a pool of \<open>n\<close> threads give loops \<open>0, 1, \<dots>\<close> modulo \<open>n\<close>, and every call returns a loop of the pool.
\<close>

theorem pool_round_robin:
  assumes "mk_EventLoopThreadPool (Some base) poolName n = Ret p0" and "pool_start new_loop p0 = Ret p" and "0 < n"
  shows "fst (next_loops m p) = map (\<lambda>i. new_loop (i mod n)) [0..<m]"
proof -
  have "lp_loops p = map new_loop [0..<n]" "lp_next p = 0"
    using assms by (auto simp: mk_EventLoopThreadPool_def pool_start_def start_threads_fields split: if_splits)
  then show ?thesis using next_loops_round [of p m] assms(3) by simp
qed

end
