(* ===== verification/KcpServer.thy ===== *)
theory KcpServer
  imports KcpSession LoopPool
begin

text \<open>
  \<^verbatim>\<open>dbase::net::KcpServer\<close> (\<^verbatim>\<open>code/include/dbase/net/kcp_server.h\<close>, \<^verbatim>\<open>code/src/net/kcp_server.cpp\<close>): the
  datagrams of one UDP socket, read in the base loop, go to sessions that live in the loops of a pool. A loop has a queue of functors, which it runs
  in order; \<^verbatim>\<open>runInLoop\<close> runs a functor at once when it is called in the thread of the loop and queues it otherwise. What a session does
  to the server when it closes follows the functor of the session in which it closed. \<open>hash\<close> is what \<^verbatim>\<open>std::hash\<close> makes of a key, \<open>create\<close> and \<open>K\<close> are
  the KCP library; a peer is the text of its address. \<open>so_inputs\<close> records the packets a session was given, \<open>sv_received\<close> every packet with a header that the
  server has read, with its key, and \<open>sv_dropped\<close> those that \<^verbatim>\<open>handleRead\<close> does not pass on because the session made for them is not in the table any more, with the number of that session.
\<close>

section \<open>State\<close>

record SessionKey =
  key_conv :: "32 word"
  key_token :: "32 word"
  key_peer :: string

record SessionEntry =
  en_session :: nat
  en_loop :: nat

record SessionOptions =
  sp_mtu :: int
  sp_sndWnd :: int
  sp_rcvWnd :: int
  sp_nodelay :: int
  sp_interval :: int
  sp_resend :: int
  sp_nc :: int
  sp_idleTimeout :: int
  sp_maxMessageBytes :: nat

datatype kcp_functor = Kf_established nat | Kf_input nat "byte list" | Kf_call nat kcp_call | Kf_closed nat

record 'k session_obj =
  so_key :: SessionKey
  so_loop :: nat
  so_session :: "'k KcpSession"
  so_inputs :: "byte list list"

record 'k KcpServer =
  sv_pool :: EventLoopThreadPool
  sv_sessionOptions :: SessionOptions
  sv_connectionCb :: "kcp_call list option"
  sv_messageCb :: "(byte list \<Rightarrow> kcp_call list) option"
  sv_writeCompleteCb :: bool
  sv_closeCb :: bool
  sv_errorCb :: bool
  sv_sessions :: "(SessionKey \<times> SessionEntry) list"
  sv_objs :: "'k session_obj list"
  sv_queue :: "nat \<Rightarrow> kcp_functor list"
  sv_clock :: int
  sv_opened :: "nat list"
  sv_closed :: "nat list"
  sv_received :: "(SessionKey \<times> byte list) list"
  sv_dropped :: "(nat \<times> byte list) list"

definition sv_base :: "'k KcpServer \<Rightarrow> nat" where
  "sv_base v = lp_baseLoop (sv_pool v)"

definition makeSessionKey :: "32 word \<Rightarrow> 32 word \<Rightarrow> string \<Rightarrow> SessionKey" where
  "makeSessionKey conv token peer = \<lparr>key_conv = conv, key_token = token, key_peer = peer\<rparr>"

definition buildSessionOptions :: "32 word \<Rightarrow> 32 word \<Rightarrow> 'k KcpServer \<Rightarrow> kcp_options" where
  "buildSessionOptions conv token v =
     (let so = sv_sessionOptions v
      in \<lparr>ko_conv = conv, ko_token = token, ko_mtu = sp_mtu so, ko_sndWnd = sp_sndWnd so, ko_rcvWnd = sp_rcvWnd so,
          ko_nodelay = sp_nodelay so, ko_interval = sp_interval so, ko_resend = sp_resend so, ko_nc = sp_nc so,
          ko_idleTimeout = sp_idleTimeout so, ko_maxMessageBytes = sp_maxMessageBytes so\<rparr>)"

definition findSession :: "SessionKey \<Rightarrow> 'k KcpServer \<Rightarrow> SessionEntry option" where
  "findSession key v = map_of (sv_sessions v) key"

definition sessions_emplace :: "SessionKey \<Rightarrow> SessionEntry \<Rightarrow> 'k KcpServer \<Rightarrow> 'k KcpServer" where
  "sessions_emplace key e v = (if map_of (sv_sessions v) key = None then v\<lparr>sv_sessions := sv_sessions v @ [(key, e)]\<rparr> else v)"

section \<open>Functors\<close>

definition post_functor :: "nat \<Rightarrow> kcp_functor \<Rightarrow> 'k KcpServer \<Rightarrow> 'k KcpServer" where
  "post_functor l f v = v\<lparr>sv_queue := (sv_queue v)(l := sv_queue v l @ [f])\<rparr>"

fun erase_session :: "nat \<Rightarrow> (SessionKey \<times> SessionEntry) list \<Rightarrow> (SessionKey \<times> SessionEntry) list" where
  "erase_session i [] = []"
| "erase_session i ((key, e) # es) = (if en_session e = i then es else (key, e) # erase_session i es)"

text \<open>The functor of \<^verbatim>\<open>handleSessionClose\<close>, and the call of it in the loop of the session.\<close>

definition session_closed :: "nat \<Rightarrow> 'k KcpServer \<Rightarrow> 'k KcpServer" where
  "session_closed i v =
     v\<lparr>sv_sessions := erase_session i (sv_sessions v), sv_closed := (if sv_closeCb v then sv_closed v @ [i] else sv_closed v)\<rparr>"

definition handleSessionClose :: "nat \<Rightarrow> 'k KcpServer \<Rightarrow> 'k KcpServer" where
  "handleSessionClose i v =
     (if so_loop (sv_objs v ! i) = sv_base v then session_closed i v else post_functor (sv_base v) (Kf_closed i) v)"

definition kcp_closes :: "'k KcpSession \<Rightarrow> nat" where
  "kcp_closes s = length (filter (\<lambda>e. e = Ks_closed) (ks_log s))"

definition on_session :: "nat \<Rightarrow> ('k KcpSession \<Rightarrow> 'k KcpSession option) \<Rightarrow> 'k KcpServer \<Rightarrow> 'k KcpServer option" where
  "on_session i f v =
     (let ob = sv_objs v ! i
      in case f (so_session ob) of
           None \<Rightarrow> None
         | Some s \<Rightarrow>
             let v' = v\<lparr>sv_objs := (sv_objs v)[i := ob\<lparr>so_session := s\<rparr>]\<rparr>
             in Some (if kcp_closes s > kcp_closes (so_session ob) then handleSessionClose i v' else v'))"

definition note_input :: "nat \<Rightarrow> byte list \<Rightarrow> 'k KcpServer \<Rightarrow> 'k KcpServer" where
  "note_input i p v = v\<lparr>sv_objs := (sv_objs v)[i := (sv_objs v ! i)\<lparr>so_inputs := so_inputs (sv_objs v ! i) @ [p]\<rparr>]\<rparr>"

fun run_functor :: "'k ikcp \<Rightarrow> kcp_functor \<Rightarrow> 'k KcpServer \<Rightarrow> 'k KcpServer option" where
  "run_functor K (Kf_established i) v = on_session i (\<lambda>s. Some (kcp_connectEstablished K s)) v"
| "run_functor K (Kf_input i p) v = on_session i (inputPacketInLoop K p) (note_input i p v)"
| "run_functor K (Kf_call i c) v = on_session i (\<lambda>s. Some (kcp_run K c s)) v"
| "run_functor K (Kf_closed i) v = Some (session_closed i v)"

text \<open>\<^verbatim>\<open>runInLoop\<close>, called in the base loop.\<close>

definition base_runInLoop :: "'k ikcp \<Rightarrow> nat \<Rightarrow> kcp_functor \<Rightarrow> 'k KcpServer \<Rightarrow> 'k KcpServer option" where
  "base_runInLoop K l f v = (if l = sv_base v then run_functor K f v else Some (post_functor l f v))"

fun base_run_all :: "'k ikcp \<Rightarrow> nat \<Rightarrow> kcp_functor list \<Rightarrow> 'k KcpServer \<Rightarrow> 'k KcpServer option" where
  "base_run_all K l [] v = Some v"
| "base_run_all K l (f # fs) v = Option.bind (base_runInLoop K l f v) (base_run_all K l fs)"

section \<open>Reading\<close>

text \<open>
  The outer option is for a callback loop that does not return, the outcome for exceptions. A new session is made in the base loop; its timer
  identifiers start at 1.
\<close>

definition createSession ::
  "'k ikcp \<Rightarrow> (kcp_options \<Rightarrow> string + 'k) \<Rightarrow> (SessionKey \<Rightarrow> nat) \<Rightarrow> 32 word \<Rightarrow> 32 word \<Rightarrow> string \<Rightarrow> 'k KcpServer \<Rightarrow> 'k KcpServer outcome option" where
  "createSession K create hash conv token peer v =
     (let key = makeSessionKey conv token peer;
          ioLoop = getLoopForHash (hash key) (sv_pool v);
          cbs = \<lparr>cb_message = sv_messageCb v, cb_writeComplete = sv_writeCompleteCb v, cb_close = True, cb_error = sv_errorCb v\<rparr>
      in case mk_KcpSession K create False False (buildSessionOptions conv token v) cbs (sv_clock v) 1 of
           Throw e \<Rightarrow> Some (Throw e)
         | Undef \<Rightarrow> Some Undef
         | Ret s \<Rightarrow>
             let i = length (sv_objs v);
                 v = v\<lparr>sv_objs := sv_objs v @ [\<lparr>so_key = key, so_loop = ioLoop, so_session = s, so_inputs = []\<rparr>]\<rparr>;
                 v = sessions_emplace key \<lparr>en_session = i, en_loop = ioLoop\<rparr> v
             in (case base_runInLoop K ioLoop (Kf_established i) v of
                   None \<Rightarrow> None
                 | Some v \<Rightarrow>
                     (case sv_connectionCb v of
                        None \<Rightarrow> Some (Ret v)
                      | Some cs \<Rightarrow> map_option Ret (base_run_all K ioLoop (map (Kf_call i) cs) (v\<lparr>sv_opened := sv_opened v @ [i]\<rparr>)))))"

definition deliver :: "'k ikcp \<Rightarrow> SessionEntry \<Rightarrow> byte list \<Rightarrow> 'k KcpServer \<Rightarrow> 'k KcpServer outcome option" where
  "deliver K e packet v = map_option Ret (base_runInLoop K (en_loop e) (Kf_input (en_session e) packet) v)"

text \<open>The body of the loop of \<^verbatim>\<open>handleRead\<close> for one datagram, and the loop.\<close>

definition got :: "SessionKey \<Rightarrow> byte list \<Rightarrow> 'k KcpServer \<Rightarrow> 'k KcpServer" where
  "got key packet v = v\<lparr>sv_received := sv_received v @ [(key, packet)]\<rparr>"

definition handle_datagram ::
  "'k ikcp \<Rightarrow> (kcp_options \<Rightarrow> string + 'k) \<Rightarrow> (SessionKey \<Rightarrow> nat) \<Rightarrow> byte list \<Rightarrow> string \<Rightarrow> 'k KcpServer \<Rightarrow> 'k KcpServer outcome option" where
  "handle_datagram K create hash packet peer v =
     (case tryParseHeader packet of
        None \<Rightarrow> Some (Ret v)
      | Some (conv, token) \<Rightarrow>
          let key = makeSessionKey conv token peer; v = got key packet v
          in case findSession key v of
               Some e \<Rightarrow> deliver K e packet v
             | None \<Rightarrow>
                 (case createSession K create hash conv token peer v of
                    Some (Ret v') \<Rightarrow>
                      (case findSession key v' of
                         None \<Rightarrow> Some (Ret (v'\<lparr>sv_dropped := sv_dropped v' @ [(length (sv_objs v), packet)]\<rparr>))
                       | Some e \<Rightarrow> deliver K e packet v')
                  | failed \<Rightarrow> failed))"

datatype datagram_ret = Dg_received "byte list" string | Dg_error Error

fun server_handleRead ::
  "'k ikcp \<Rightarrow> (kcp_options \<Rightarrow> string + 'k) \<Rightarrow> (SessionKey \<Rightarrow> nat) \<Rightarrow> datagram_ret list \<Rightarrow> 'k KcpServer \<Rightarrow> 'k KcpServer outcome option" where
  "server_handleRead K create hash [] v = Some (Ret v)"
| "server_handleRead K create hash (Dg_error e # rs) v =
     Some (if m_code e = EC_WouldBlock then Ret v else Throw (Runtime_error (''KcpServer receiveFrom failed: '' @ m_message e)))"
| "server_handleRead K create hash (Dg_received packet peer # rs) v =
     (case handle_datagram K create hash packet peer v of
        Some (Ret v) \<Rightarrow> server_handleRead K create hash rs v
      | r \<Rightarrow> r)"

section \<open>Steps\<close>

text \<open>
  The base loop handles a datagram, a loop runs its next functor, an update timer of a session expires in its loop, another thread calls a session, and time passes.
\<close>

datatype sv_action = Sv_datagram "byte list" string | Sv_functor nat | Sv_timer nat nat | Sv_call nat kcp_call | Sv_tick nat

fun sv_exec ::
  "'k ikcp \<Rightarrow> (kcp_options \<Rightarrow> string + 'k) \<Rightarrow> (SessionKey \<Rightarrow> nat) \<Rightarrow> sv_action \<Rightarrow> 'k KcpServer \<Rightarrow> 'k KcpServer outcome option" where
  "sv_exec K create hash (Sv_datagram packet peer) v = handle_datagram K create hash packet peer v"
| "sv_exec K create hash (Sv_functor l) v =
     (case sv_queue v l of
        [] \<Rightarrow> None
      | f # fs \<Rightarrow> map_option Ret (run_functor K f (v\<lparr>sv_queue := (sv_queue v)(l := fs)\<rparr>)))"
| "sv_exec K create hash (Sv_timer i j) v =
     (if i < length (sv_objs v) then map_option Ret (on_session i (kcp_exec K (Kp_timer j)) v) else None)"
| "sv_exec K create hash (Sv_call i c) v =
     (if i < length (sv_objs v) then Some (Ret (post_functor (so_loop (sv_objs v ! i)) (Kf_call i c) v)) else None)"
| "sv_exec K create hash (Sv_tick ms) v =
     Some (Ret (v\<lparr>sv_clock := sv_clock v + int ms,
       sv_objs := map (\<lambda>ob. ob\<lparr>so_session := (so_session ob)\<lparr>ks_clock := ks_clock (so_session ob) + int ms\<rparr>\<rparr>) (sv_objs v)\<rparr>))"

definition sv_step :: "'k ikcp \<Rightarrow> (kcp_options \<Rightarrow> string + 'k) \<Rightarrow> (SessionKey \<Rightarrow> nat) \<Rightarrow> 'k KcpServer \<Rightarrow> 'k KcpServer \<Rightarrow> bool" where
  "sv_step K create hash v v' \<longleftrightarrow> (\<exists>a. sv_exec K create hash a v = Some (Ret v'))"

text \<open>A server after \<^verbatim>\<open>start\<close>.\<close>

definition started_server :: "EventLoopThreadPool \<Rightarrow> SessionOptions \<Rightarrow> kcp_call list option \<Rightarrow> (byte list \<Rightarrow> kcp_call list) option \<Rightarrow>
    bool \<Rightarrow> bool \<Rightarrow> bool \<Rightarrow> int \<Rightarrow> 'k KcpServer" where
  "started_server pool options connectionCb messageCb writeCompleteCb closeCb errorCb clock =
     \<lparr>sv_pool = pool, sv_sessionOptions = options, sv_connectionCb = connectionCb, sv_messageCb = messageCb, sv_writeCompleteCb = writeCompleteCb,
      sv_closeCb = closeCb, sv_errorCb = errorCb, sv_sessions = [], sv_objs = [], sv_queue = (\<lambda>_. []), sv_clock = clock,
      sv_opened = [], sv_closed = [], sv_received = [], sv_dropped = []\<rparr>"


section \<open>Which session gets which packet\<close>

definition ses :: "'k KcpServer \<Rightarrow> nat \<Rightarrow> 'k KcpSession" where
  "ses v i = so_session (sv_objs v ! i)"

definition loop_of :: "'k KcpServer \<Rightarrow> nat \<Rightarrow> nat" where
  "loop_of v i = so_loop (sv_objs v ! i)"

definition key_of :: "'k KcpServer \<Rightarrow> nat \<Rightarrow> SessionKey" where
  "key_of v i = so_key (sv_objs v ! i)"

definition nses :: "'k KcpServer \<Rightarrow> nat" where
  "nses v = length (sv_objs v)"

fun fid :: "kcp_functor \<Rightarrow> nat" where
  "fid (Kf_established i) = i"
| "fid (Kf_input i p) = i"
| "fid (Kf_call i c) = i"
| "fid (Kf_closed i) = i"

text \<open>No session is established behind another functor of its own.\<close>

fun established_first :: "kcp_functor list \<Rightarrow> bool" where
  "established_first [] = True"
| "established_first (f # fs) = (Kf_established (fid f) \<notin> set fs \<and> established_first fs)"

lemma established_first_append:
  "established_first (q @ [f]) \<longleftrightarrow> established_first q \<and> (\<forall>i. f = Kf_established i \<longrightarrow> i \<notin> fid ` set q)"
  by (induction q) (cases f; auto)+

fun functor_ok :: "'k KcpServer \<Rightarrow> nat \<Rightarrow> kcp_functor \<Rightarrow> bool" where
  "functor_ok v l (Kf_established i) \<longleftrightarrow> i < nses v \<and> loop_of v i = l \<and> l \<noteq> sv_base v"
| "functor_ok v l (Kf_input i p) \<longleftrightarrow> i < nses v \<and> loop_of v i = l \<and> l \<noteq> sv_base v"
| "functor_ok v l (Kf_call i c) \<longleftrightarrow> i < nses v \<and> loop_of v i = l"
| "functor_ok v l (Kf_closed i) \<longleftrightarrow> i < nses v \<and> l = sv_base v \<and> ks_state (ses v i) = Ks_Disconnected"

definition queued_established :: "'k KcpServer \<Rightarrow> nat \<Rightarrow> bool" where
  "queued_established v i \<longleftrightarrow> Kf_established i \<in> set (sv_queue v (loop_of v i))"

definition fresh_session :: "'k KcpSession \<Rightarrow> bool" where
  "fresh_session s \<longleftrightarrow> ks_state s = Ks_Connecting \<and> ks_timers s = [] \<and> kcp_closes s = 0 \<and> 0 < ks_nextTimer s \<and> ks_updateTimerId s = 0"

definition session_ok :: "'k KcpServer \<Rightarrow> nat \<Rightarrow> bool" where
  "session_ok v i \<longleftrightarrow> (if queued_established v i then fresh_session (ses v i) else ks_ok True (ses v i))"

definition mapped :: "'k KcpServer \<Rightarrow> nat \<Rightarrow> bool" where
  "mapped v i \<longleftrightarrow> i \<in> (\<lambda>(k, e). en_session e) ` set (sv_sessions v)"

definition entry_ok :: "'k KcpServer \<Rightarrow> SessionKey \<times> SessionEntry \<Rightarrow> bool" where
  "entry_ok v = (\<lambda>(k, e). en_session e < nses v \<and> key_of v (en_session e) = k \<and> loop_of v (en_session e) = en_loop e
     \<and> (\<forall>j. en_session e < j \<and> j < nses v \<longrightarrow> key_of v j \<noteq> k))"

definition close_count :: "'k KcpServer \<Rightarrow> nat \<Rightarrow> nat" where
  "close_count v i = count_list (sv_closed v) i + count_list (sv_queue v (sv_base v)) (Kf_closed i)"

definition map_ok :: "'k KcpServer \<Rightarrow> bool" where
  "map_ok v \<longleftrightarrow> distinct (map fst (sv_sessions v)) \<and> list_all (entry_ok v) (sv_sessions v)
     \<and> (\<forall>i < nses v. mapped v i \<or> ks_state (ses v i) = Ks_Disconnected)"

definition queues_ok :: "'k KcpServer \<Rightarrow> bool" where
  "queues_ok v \<longleftrightarrow> (\<forall>l. list_all (functor_ok v l) (sv_queue v l) \<and> established_first (sv_queue v l))"

definition counts_ok :: "'k KcpServer \<Rightarrow> bool" where
  "counts_ok v \<longleftrightarrow> (\<forall>i < nses v. close_count v i \<le> kcp_closes (ses v i)) \<and> (\<forall>i \<in> set (sv_closed v). i < nses v)"

text \<open>\<open>but\<close> names the sessions that may be between two states.\<close>

definition sv_ok_but :: "nat set \<Rightarrow> 'k KcpServer \<Rightarrow> bool" where
  "sv_ok_but but v \<longleftrightarrow> map_ok v \<and> queues_ok v \<and> counts_ok v \<and> (\<forall>i < nses v. i \<notin> but \<longrightarrow> session_ok v i)"

abbreviation sv_ok :: "'k KcpServer \<Rightarrow> bool" where
  "sv_ok \<equiv> sv_ok_but {}"

lemmas sv_views = ses_def loop_of_def key_of_def nses_def sv_base_def

definition set_session :: "nat \<Rightarrow> 'k KcpSession \<Rightarrow> 'k KcpServer \<Rightarrow> 'k KcpServer" where
  "set_session i s v = v\<lparr>sv_objs := (sv_objs v)[i := (sv_objs v ! i)\<lparr>so_session := s\<rparr>]\<rparr>"

lemma set_session_simps [simp]:
  "nses (set_session i s v) = nses v" "sv_base (set_session i s v) = sv_base v" "sv_queue (set_session i s v) = sv_queue v"
  "sv_sessions (set_session i s v) = sv_sessions v" "sv_closed (set_session i s v) = sv_closed v" "sv_received (set_session i s v) = sv_received v" "sv_dropped (set_session i s v) = sv_dropped v"
  "sv_pool (set_session i s v) = sv_pool v"
  by (simp_all add: set_session_def sv_views)

lemma set_session_views [simp]:
  assumes "i < nses v"
  shows "ses (set_session i s v) j = (if j = i then s else ses v j)" "loop_of (set_session i s v) j = loop_of v j"
    "key_of (set_session i s v) j = key_of v j"
  using assms by (auto simp: set_session_def sv_views nth_list_update)

lemma closed_simps [simp]:
  "nses (session_closed i v) = nses v" "sv_base (session_closed i v) = sv_base v" "sv_queue (session_closed i v) = sv_queue v"
  "ses (session_closed i v) j = ses v j" "loop_of (session_closed i v) j = loop_of v j" "key_of (session_closed i v) j = key_of v j"
  "sv_received (session_closed i v) = sv_received v" "sv_dropped (session_closed i v) = sv_dropped v" "sv_pool (session_closed i v) = sv_pool v"
  "sv_closed (session_closed i v) = (if sv_closeCb v then sv_closed v @ [i] else sv_closed v)"
  by (simp_all add: session_closed_def sv_views)

lemma post_simps [simp]:
  "nses (post_functor l f v) = nses v" "sv_base (post_functor l f v) = sv_base v" "sv_sessions (post_functor l f v) = sv_sessions v"
  "ses (post_functor l f v) j = ses v j" "loop_of (post_functor l f v) j = loop_of v j" "key_of (post_functor l f v) j = key_of v j"
  "sv_closed (post_functor l f v) = sv_closed v" "sv_received (post_functor l f v) = sv_received v" "sv_dropped (post_functor l f v) = sv_dropped v" "sv_pool (post_functor l f v) = sv_pool v"
  "sv_queue (post_functor l f v) m = (if m = l then sv_queue v l @ [f] else sv_queue v m)"
  by (simp_all add: post_functor_def sv_views)

lemma functor_ok_cong:
  assumes "nses v' = nses v" and "\<And>i. loop_of v' i = loop_of v i" and "sv_base v' = sv_base v"
    and "\<And>i. i < nses v \<Longrightarrow> ks_state (ses v i) = Ks_Disconnected \<Longrightarrow> ks_state (ses v' i) = Ks_Disconnected"
  shows "functor_ok v l f \<Longrightarrow> functor_ok v' l f"
  using assms by (cases f) auto

lemma entry_ok_cong: "nses v' = nses v \<Longrightarrow> loop_of v' = loop_of v \<Longrightarrow> key_of v' = key_of v \<Longrightarrow> entry_ok v' = entry_ok v"
  by (simp add: entry_ok_def)

lemma set_session_ok:
  assumes "sv_ok_but {i} v" and "i < nses v" and "ks_ok True s" and "\<not> queued_established v i"
    and "ks_state (ses v i) = Ks_Disconnected \<Longrightarrow> ks_state s = Ks_Disconnected" and "kcp_closes (ses v i) \<le> kcp_closes s"
  shows "sv_ok (set_session i s v)"
proof -
  let ?v = "set_session i s v"
  have "entry_ok ?v = entry_ok v" by (rule entry_ok_cong) (use assms(2) in auto)
  then have "map_ok ?v" using assms(1,2,5) by (auto simp: sv_ok_but_def map_ok_def mapped_def)
  moreover have "functor_ok ?v l f" if "functor_ok v l f" for l f
    by (rule functor_ok_cong [OF _ _ _ _ that]) (use assms(2,5) in auto)
  then have "queues_ok ?v" using assms(1) by (auto simp: sv_ok_but_def queues_ok_def list_all_iff)
  moreover have "counts_ok ?v" using assms(1,2,6) le_trans by (fastforce simp: sv_ok_but_def counts_ok_def close_count_def)
  moreover have "session_ok ?v j" if "j < nses v" for j
    using that assms by (auto simp: sv_ok_but_def session_ok_def queued_established_def)
  ultimately show ?thesis by (simp add: sv_ok_but_def)
qed

lemma erase_session_set: "set (erase_session i es) \<subseteq> set es" "distinct (map fst es) \<Longrightarrow> distinct (map fst (erase_session i es))"
  "(k, e) \<in> set es \<Longrightarrow> en_session e \<noteq> i \<Longrightarrow> (k, e) \<in> set (erase_session i es)"
  by (induction es rule: erase_session.induct) (auto split: if_splits dest: subsetD)

lemma session_closed_ok:
  assumes "sv_ok v" and "i < nses v" and "ks_state (ses v i) = Ks_Disconnected" and "close_count v i < kcp_closes (ses v i)"
  shows "sv_ok (session_closed i v)"
proof -
  let ?v = "session_closed i v"
  have ent: "entry_ok ?v = entry_ok v" by (rule entry_ok_cong) auto
  have es: "sv_sessions ?v = erase_session i (sv_sessions v)" by (simp add: session_closed_def)
  have "map_ok ?v"
    unfolding map_ok_def
  proof (intro conjI allI impI)
    show "distinct (map fst (sv_sessions ?v))" using assms(1) erase_session_set(2) by (simp add: es sv_ok_but_def map_ok_def)
    show "list_all (entry_ok ?v) (sv_sessions ?v)"
      using assms(1) erase_session_set(1) [of i "sv_sessions v"] by (auto simp: ent es sv_ok_but_def map_ok_def list_all_iff)
    show "mapped ?v j \<or> ks_state (ses ?v j) = Ks_Disconnected" if "j < nses ?v" for j
    proof (cases "j = i")
      case False
      have "mapped ?v j" if m: "mapped v j"
      proof -
        from m obtain k e where e: "(k, e) \<in> set (sv_sessions v)" "en_session e = j" by (auto simp: mapped_def)
        then have "(k, e) \<in> set (sv_sessions ?v)" using False erase_session_set(3) by (simp add: es)
        then show ?thesis using e(2) unfolding mapped_def by force
      qed
      then show ?thesis using assms(1) that by (auto simp: sv_ok_but_def map_ok_def)
    qed (use assms(3) in simp)
  qed
  moreover have "functor_ok ?v l f" if "functor_ok v l f" for l f
    by (rule functor_ok_cong [OF _ _ _ _ that]) auto
  then have "queues_ok ?v" using assms(1) by (auto simp: sv_ok_but_def queues_ok_def list_all_iff)
  moreover have "counts_ok ?v" using assms by (auto simp: sv_ok_but_def counts_ok_def close_count_def)
  moreover have "session_ok ?v j" if "j < nses v" for j
    using that assms(1) by (auto simp: sv_ok_but_def session_ok_def queued_established_def)
  ultimately show ?thesis by (simp add: sv_ok_but_def)
qed


lemma post_ok:
  assumes "sv_ok_but B v" and "functor_ok v l f" and "\<And>i. f = Kf_established i \<Longrightarrow> i \<in> B \<and> i \<notin> fid ` set (sv_queue v l)"
    and "\<And>i. f = Kf_closed i \<Longrightarrow> close_count v i < kcp_closes (ses v i)"
  shows "sv_ok_but B (post_functor l f v)"
proof -
  let ?v = "post_functor l f v"
  have "entry_ok ?v = entry_ok v" by (rule entry_ok_cong) auto
  then have "map_ok ?v" using assms(1) by (auto simp: sv_ok_but_def map_ok_def mapped_def)
  moreover have ok: "functor_ok ?v m g" if "functor_ok v m g" for m g
    by (rule functor_ok_cong [OF _ _ _ _ that]) auto
  then have "queues_ok ?v" using assms by (auto simp: sv_ok_but_def queues_ok_def list_all_iff established_first_append)
  moreover have "close_count ?v j \<le> kcp_closes (ses ?v j)" if "j < nses v" for j
  proof (cases "f = Kf_closed j")
    case True
    then show ?thesis using assms(4) by (auto simp: close_count_def)
  next
    case False
    then have "close_count ?v j = close_count v j" by (simp add: close_count_def)
    then show ?thesis using assms(1) that by (simp add: sv_ok_but_def counts_ok_def)
  qed
  then have "counts_ok ?v" using assms(1) by (auto simp: sv_ok_but_def counts_ok_def)
  moreover have "session_ok ?v j" if "j < nses v" "j \<notin> B" for j
  proof -
    have "queued_established ?v j = queued_established v j"
      using assms(2,3) that by (cases f) (auto simp: queued_established_def)
    then show ?thesis using that assms(1) by (auto simp: sv_ok_but_def session_ok_def)
  qed
  ultimately show ?thesis by (simp add: sv_ok_but_def)
qed

text \<open>What a functor may make of the session it runs on.\<close>

definition good_effect :: "('k KcpSession \<Rightarrow> 'k KcpSession option) \<Rightarrow> 'k KcpSession \<Rightarrow> bool" where
  "good_effect f s \<longleftrightarrow> (\<forall>s'. f s = Some s' \<longrightarrow>
     ks_ok True s' \<and> (ks_state s = Ks_Disconnected \<longrightarrow> ks_state s' = Ks_Disconnected) \<and> kcp_closes s \<le> kcp_closes s')"

lemma on_session_ok:
  assumes "on_session i f v = Some v'" and "sv_ok_but {i} v" and "i < nses v" and "\<not> queued_established v i" and "good_effect f (ses v i)"
  shows "sv_ok v'"
proof -
  from assms(1) obtain s where s: "f (ses v i) = Some s"
    and v': "v' = (if kcp_closes (ses v i) < kcp_closes s then handleSessionClose i (set_session i s v) else set_session i s v)"
    by (auto simp: on_session_def ses_def set_session_def Let_def split: option.splits if_splits)
  have good: "ks_ok True s" "ks_state (ses v i) = Ks_Disconnected \<Longrightarrow> ks_state s = Ks_Disconnected" "kcp_closes (ses v i) \<le> kcp_closes s"
    using assms(5) s by (auto simp: good_effect_def)
  have ok: "sv_ok (set_session i s v)" by (rule set_session_ok [OF assms(2,3) good(1) assms(4) good(2,3)])
  show ?thesis
  proof (cases "kcp_closes (ses v i) < kcp_closes s")
    case True
    then have dis: "ks_state s = Ks_Disconnected" using good(1) by (auto simp: ks_ok_def kcp_closes_def split: if_splits)
    have "close_count (set_session i s v) i < kcp_closes s"
      using assms(2,3) True by (auto simp: sv_ok_but_def counts_ok_def close_count_def)
    then have "sv_ok (session_closed i (set_session i s v))" "sv_ok (post_functor (sv_base v) (Kf_closed i) (set_session i s v))"
      using session_closed_ok [OF ok, of i] post_ok [OF ok, of "sv_base v" "Kf_closed i"] assms(3) dis by auto
    then show ?thesis using v' True by (simp add: handleSessionClose_def)
  qed (use v' ok in simp)
qed


lemma disconnected_idle:
  assumes "kcp_exec K st s = Some s'" and "ks_state s = Ks_Disconnected" and "ks_timers s = []"
  shows "ks_state s' = Ks_Disconnected \<and> ks_log s' = ks_log s"
proof (cases st)
  case (Kp_call c)
  then show ?thesis using assms by (cases c) (auto simp: kcp_sendInLoop_def kcp_handleClose_def)
qed (use assms in \<open>auto simp: inputPacketInLoop_def kcp_connectDestroyed_def\<close>)

lemma good_effect_exec:
  assumes "ks_ok True s"
  shows "good_effect (kcp_exec K st) s"
  unfolding good_effect_def
proof (intro allI impI)
  fix s' assume s': "kcp_exec K st s = Some s'"
  then have ok: "ks_ok True s'" using ks_ok_step [OF _ assms] by (auto simp: kcp_stepping_def)
  show "ks_ok True s' \<and> (ks_state s = Ks_Disconnected \<longrightarrow> ks_state s' = Ks_Disconnected) \<and> kcp_closes s \<le> kcp_closes s'"
  proof (cases "ks_state s = Ks_Disconnected")
    case True
    then show ?thesis using ok disconnected_idle [OF s'] assms by (auto simp: ks_ok_def kcp_closes_def)
  next
    case False
    then have "kcp_closes s = 0" using assms by (simp add: ks_ok_def kcp_closes_def)
    then show ?thesis using ok False by simp
  qed
qed

lemma good_effect_established:
  assumes "fresh_session s"
  shows "good_effect (\<lambda>s. Some (kcp_connectEstablished K s)) s"
proof -
  have "ks_ok False (s\<lparr>ks_state := Ks_Connected\<rparr>)" using assms by (simp add: fresh_session_def ks_ok_def kcp_closes_def)
  then have "ks_ok True (kcp_connectEstablished K s)" unfolding kcp_connectEstablished_def by (rule ks_ok_schedule)
  then show ?thesis using assms by (simp add: good_effect_def fresh_session_def)
qed

definition popped :: "nat \<Rightarrow> 'k KcpServer \<Rightarrow> 'k KcpServer" where
  "popped l v = v\<lparr>sv_queue := (sv_queue v)(l := tl (sv_queue v l))\<rparr>"

lemma popped_simps [simp]:
  "nses (popped l v) = nses v" "sv_base (popped l v) = sv_base v" "sv_sessions (popped l v) = sv_sessions v"
  "ses (popped l v) j = ses v j" "loop_of (popped l v) j = loop_of v j" "key_of (popped l v) j = key_of v j"
  "sv_closed (popped l v) = sv_closed v" "sv_received (popped l v) = sv_received v" "sv_dropped (popped l v) = sv_dropped v" "sv_pool (popped l v) = sv_pool v"
  "sv_objs (popped l v) = sv_objs v" "sv_queue (popped l v) m = (if m = l then tl (sv_queue v l) else sv_queue v m)"
  by (simp_all add: popped_def sv_views)

lemma note_input_simps [simp]:
  "nses (note_input i p v) = nses v" "sv_base (note_input i p v) = sv_base v" "sv_sessions (note_input i p v) = sv_sessions v"
  "sv_closed (note_input i p v) = sv_closed v" "sv_received (note_input i p v) = sv_received v" "sv_dropped (note_input i p v) = sv_dropped v" "sv_pool (note_input i p v) = sv_pool v"
  "sv_queue (note_input i p v) = sv_queue v"
  by (simp_all add: note_input_def sv_views)

lemma note_input_views [simp]:
  assumes "i < nses v"
  shows "ses (note_input i p v) = ses v" "loop_of (note_input i p v) = loop_of v" "key_of (note_input i p v) = key_of v"
  using assms by (auto simp: note_input_def sv_views nth_list_update fun_eq_iff)

lemma sv_ok_cong:
  assumes "nses v' = nses v" and "sv_base v' = sv_base v" and "sv_sessions v' = sv_sessions v" and "sv_closed v' = sv_closed v"
    and "sv_queue v' = sv_queue v" and "ses v' = ses v" and "loop_of v' = loop_of v" and "key_of v' = key_of v"
  shows "sv_ok_but B v' = sv_ok_but B v"
proof -
  have "functor_ok v' l f = functor_ok v l f" for l f using assms by (cases f) auto
  then show ?thesis using assms entry_ok_cong [OF assms(1,7,8)]
    by (simp add: sv_ok_but_def map_ok_def queues_ok_def counts_ok_def close_count_def session_ok_def queued_established_def mapped_def list_all_iff)
qed

lemma note_input_ok: "i < nses v \<Longrightarrow> sv_ok_but B (note_input i p v) = sv_ok_but B v"
  by (rule sv_ok_cong) auto

lemma queued_functor: "sv_ok_but B v \<Longrightarrow> f \<in> set (sv_queue v l) \<Longrightarrow> functor_ok v l f"
  by (simp add: sv_ok_but_def queues_ok_def list_all_iff)

lemma sv_ok_but_mono: "sv_ok v \<Longrightarrow> sv_ok_but B v"
  by (simp add: sv_ok_but_def)

text \<open>Taking a functor off its queue.\<close>

lemma queue_head:
  assumes "sv_ok v" and "sv_queue v l = f # fs"
  shows "functor_ok v l f" and "\<not> queued_established (popped l v) (fid f)"
    and "(\<And>i. f \<noteq> Kf_established i) \<Longrightarrow> ks_ok True (ses v (fid f))" and "f = Kf_established i \<Longrightarrow> fresh_session (ses v i)"
proof -
  from assms show ok: "functor_ok v l f" by (auto simp: sv_ok_but_def queues_ok_def list_all_iff)
  then have n: "fid f < nses v" by (cases f) auto
  have first: "Kf_established (fid f) \<notin> set fs" using assms by (metis established_first.simps(2) queues_ok_def sv_ok_but_def)
  have ses: "session_ok v (fid f)" using assms(1) n by (simp add: sv_ok_but_def)
  have closed: "\<not> queued_established v (fid f)" if "f = Kf_closed j" for j
    using ok ses that by (auto simp: session_ok_def fresh_session_def)
  show "\<not> queued_established (popped l v) (fid f)"
    using ok first closed assms(2) by (cases f) (auto simp: queued_established_def split: if_splits)
  show "ks_ok True (ses v (fid f))" if "\<And>i. f \<noteq> Kf_established i"
    using ok first closed assms(2) ses that by (cases f) (auto simp: queued_established_def session_ok_def split: if_splits)
  show "fresh_session (ses v i)" if "f = Kf_established i"
    using that ok ses assms(2) by (auto simp: session_ok_def queued_established_def split: if_splits)
qed

lemma popped_ok:
  assumes "sv_ok v" and "sv_queue v l = f # fs"
  shows "sv_ok_but {fid f} (popped l v)"
proof -
  let ?v = "popped l v"
  have "entry_ok ?v = entry_ok v" by (rule entry_ok_cong) auto
  then have maps: "map_ok ?v" using assms(1) by (simp add: sv_ok_but_def map_ok_def mapped_def)
  have "functor_ok ?v m g" if "functor_ok v m g" for m g
    by (rule functor_ok_cong [OF _ _ _ _ that]) auto
  moreover have "list_all (functor_ok v m) (sv_queue ?v m) \<and> established_first (sv_queue ?v m)" for m
  proof -
    have "list_all (functor_ok v m) (sv_queue v m) \<and> established_first (sv_queue v m)" using assms(1) by (simp add: sv_ok_but_def queues_ok_def)
    then show ?thesis using assms(2) by (cases "m = l") simp_all
  qed
  ultimately have "queues_ok ?v" by (auto simp: queues_ok_def list_all_iff)
  moreover note maps
  moreover have le: "close_count ?v j \<le> close_count v j" for j using assms(2) by (simp add: close_count_def)
  have "counts_ok ?v" using assms(1) le_trans [OF le] by (simp add: sv_ok_but_def counts_ok_def)
  moreover have "session_ok ?v j" if "j < nses v" "j \<noteq> fid f" for j
  proof -
    have "queued_established ?v j = queued_established v j" using that assms(2) by (auto simp: queued_established_def)
    then show ?thesis using that assms(1) by (simp add: sv_ok_but_def session_ok_def)
  qed
  ultimately show ?thesis by (simp add: sv_ok_but_def)
qed

lemma sv_ok_butI: "sv_ok_but {i} v \<Longrightarrow> (i < nses v \<Longrightarrow> session_ok v i) \<Longrightarrow> sv_ok v"
  by (auto simp: sv_ok_but_def)

lemma run_popped_ok:
  assumes "sv_ok v" and "sv_queue v l = f # fs" and "run_functor K f (popped l v) = Some v'"
  shows "sv_ok v'"
proof -
  let ?v = "popped l v"
  note head = queue_head [OF assms(1,2)] and but = popped_ok [OF assms(1,2)]
  from head(1) have n: "fid f < nses v" by (cases f) auto
  show ?thesis
  proof (cases f)
    case (Kf_established i)
    then show ?thesis using on_session_ok [of i _ ?v v'] assms(3) but n head(2) good_effect_established [OF head(4)] by simp
  next
    case (Kf_input i p)
    have "good_effect (inputPacketInLoop K p) (ses v i)"
      using good_effect_exec [OF head(3), of K "Kp_input p"] Kf_input by (simp add: good_effect_def)
    then show ?thesis
      using on_session_ok [of i _ "note_input i p ?v" v'] assms(3) but n head(2) Kf_input note_input_ok [of i ?v]
      by (simp add: queued_established_def)
  next
    case (Kf_call i c)
    have "good_effect (\<lambda>s. Some (kcp_run K c s)) (ses v i)"
      using good_effect_exec [OF head(3), of K "Kp_call c"] Kf_call by (simp add: good_effect_def)
    then show ?thesis using on_session_ok [of i _ ?v v'] assms(3) but n head(2) Kf_call by simp
  next
    case (Kf_closed i)
    then have l: "l = sv_base v" "ks_state (ses v i) = Ks_Disconnected" using head(1) by auto
    have "session_ok ?v i" using head(2,3) Kf_closed by (simp add: session_ok_def)
    then have "sv_ok ?v" using sv_ok_butI but Kf_closed by simp
    moreover have "close_count ?v i < close_count v i" using assms(2) Kf_closed l(1) by (simp add: close_count_def)
    then have "close_count ?v i < kcp_closes (ses v i)"
      using assms(1) n Kf_closed unfolding sv_ok_but_def counts_ok_def by fastforce
    ultimately show ?thesis using session_closed_ok [of ?v i] assms(3) n Kf_closed l(2) by simp
  qed
qed


lemma base_run_ok:
  assumes "sv_ok v" and "fid f < nses v" and "loop_of v (fid f) = l" and "f = Kf_call i c \<or> f = Kf_input i p"
    and "base_runInLoop K l f v = Some v'"
  shows "sv_ok v'"
proof (cases "l = sv_base v")
  case False
  then show ?thesis using assms post_ok [OF assms(1), of l f] by (auto simp: base_runInLoop_def)
next
  case True
  have q: "\<not> queued_established v i"
  proof
    assume "queued_established v i"
    then have "functor_ok v (loop_of v i) (Kf_established i)" unfolding queued_established_def by (rule queued_functor [OF assms(1)])
    then show False using assms(3,4) True by auto
  qed
  then have "ks_ok True (ses v i)" using assms(1,2,4) by (auto simp: sv_ok_but_def session_ok_def)
  then have "good_effect (kcp_exec K (Kp_call c)) (ses v i)" "good_effect (kcp_exec K (Kp_input p)) (ses v i)" by (rule good_effect_exec)+
  then have eff: "good_effect (\<lambda>s. Some (kcp_run K c s)) (ses v i)" "good_effect (inputPacketInLoop K p) (ses v i)"
    by (simp_all add: good_effect_def)
  have n: "i < nses v" using assms(2,4) by auto
  have but: "sv_ok_but {i} v" by (rule sv_ok_but_mono [OF assms(1)])
  from assms(4) show ?thesis
  proof
    assume f: "f = Kf_call i c"
    then show ?thesis using on_session_ok [OF _ but n q eff(1)] assms(5) True by (simp add: base_runInLoop_def)
  next
    assume f: "f = Kf_input i p"
    have "sv_ok_but {i} (note_input i p v)" "\<not> queued_established (note_input i p v) i" "i < nses (note_input i p v)"
      using but n q by (simp_all add: note_input_ok queued_established_def)
    then show ?thesis using on_session_ok [of i _ "note_input i p v" v'] eff(2) assms(5) f True n by (simp add: base_runInLoop_def)
  qed
qed

text \<open>What a step that makes no session keeps.\<close>

definition same_sessions :: "'k KcpServer \<Rightarrow> 'k KcpServer \<Rightarrow> bool" where
  "same_sessions v v' \<longleftrightarrow> nses v' = nses v \<and> loop_of v' = loop_of v \<and> key_of v' = key_of v \<and> sv_pool v' = sv_pool v \<and> sv_received v' = sv_received v
     \<and> sv_dropped v' = sv_dropped v \<and> set (sv_sessions v') \<subseteq> set (sv_sessions v)"

lemma same_sessions_trans: "same_sessions u v \<Longrightarrow> same_sessions v w \<Longrightarrow> same_sessions u w"
  by (auto simp: same_sessions_def)

lemma same_base: "same_sessions v v' \<Longrightarrow> sv_base v' = sv_base v"
  by (simp add: same_sessions_def sv_base_def)

lemma same_on_session: "on_session i f v = Some v' \<Longrightarrow> i < nses v \<Longrightarrow> same_sessions v v'"
  using erase_session_set(1) [of i "sv_sessions v"]
  by (auto simp: on_session_def same_sessions_def handleSessionClose_def session_closed_def post_functor_def sv_views nth_list_update fun_eq_iff Let_def
      split: option.splits if_splits)

lemma same_run_functor: "run_functor K f v = Some v' \<Longrightarrow> fid f < nses v \<Longrightarrow> same_sessions v v'"
proof (cases f)
  case (Kf_input i p)
  assume "run_functor K f v = Some v'" "fid f < nses v"
  then show ?thesis using Kf_input same_on_session [of i _ "note_input i p v" v'] by (auto simp: same_sessions_def)
next
  case (Kf_closed i)
  assume "run_functor K f v = Some v'"
  then show ?thesis using Kf_closed erase_session_set(1) [of i "sv_sessions v"] by (auto simp: same_sessions_def fun_eq_iff session_closed_def sv_views)
qed (auto simp: same_on_session)

lemma same_base_run: "base_runInLoop K l f v = Some v' \<Longrightarrow> fid f < nses v \<Longrightarrow> same_sessions v v'"
  using same_run_functor [of K f v v'] by (auto simp: base_runInLoop_def same_sessions_def fun_eq_iff split: if_splits)

lemma base_run_calls_ok:
  assumes "sv_ok v" and "i < nses v" and "loop_of v i = l" and "base_run_all K l (map (Kf_call i) cs) v = Some v'"
  shows "sv_ok v' \<and> same_sessions v v'"
  using assms
proof (induction cs arbitrary: v)
  case Nil
  then show ?case by (simp add: same_sessions_def)
next
  case (Cons c cs)
  then obtain v1 where v1: "base_runInLoop K l (Kf_call i c) v = Some v1" "base_run_all K l (map (Kf_call i) cs) v1 = Some v'"
    by (auto simp: bind_eq_Some_conv)
  then have same: "same_sessions v v1" using same_base_run Cons.prems(2) by fastforce
  have "sv_ok v1" by (rule base_run_ok [OF Cons.prems(1) _ _ _ v1(1)]) (use Cons.prems in auto)
  then show ?case using Cons.IH [OF _ _ _ v1(2)] same Cons.prems(2,3) same_sessions_trans by (auto simp: same_sessions_def)
qed

section \<open>A new session\<close>

definition with_session :: "SessionKey \<Rightarrow> nat \<Rightarrow> 'k KcpSession \<Rightarrow> 'k KcpServer \<Rightarrow> 'k KcpServer" where
  "with_session key l s v = sessions_emplace key \<lparr>en_session = nses v, en_loop = l\<rparr>
     (v\<lparr>sv_objs := sv_objs v @ [\<lparr>so_key = key, so_loop = l, so_session = s, so_inputs = []\<rparr>]\<rparr>)"

lemma with_session_simps [simp]:
  "nses (with_session key l s v) = Suc (nses v)" "sv_base (with_session key l s v) = sv_base v" "sv_queue (with_session key l s v) = sv_queue v"
  "sv_closed (with_session key l s v) = sv_closed v" "sv_received (with_session key l s v) = sv_received v" "sv_dropped (with_session key l s v) = sv_dropped v" "sv_pool (with_session key l s v) = sv_pool v"
  "j < nses v \<Longrightarrow> ses (with_session key l s v) j = ses v j" "j < nses v \<Longrightarrow> loop_of (with_session key l s v) j = loop_of v j"
  "j < nses v \<Longrightarrow> key_of (with_session key l s v) j = key_of v j"
  "ses (with_session key l s v) (nses v) = s" "loop_of (with_session key l s v) (nses v) = l" "key_of (with_session key l s v) (nses v) = key"
  by (auto simp: with_session_def sessions_emplace_def sv_views nth_append)

lemma with_session_map: "findSession key v = None \<Longrightarrow>
  sv_sessions (with_session key l s v) = sv_sessions v @ [(key, \<lparr>en_session = nses v, en_loop = l\<rparr>)]"
  by (simp add: with_session_def sessions_emplace_def findSession_def)

lemma with_session_ok:
  assumes "sv_ok v" and "findSession key v = None"
  shows "sv_ok_but {nses v} (with_session key l s v)" and "\<not> queued_established (with_session key l s v) (nses v)"
    and "nses v \<notin> fid ` set (sv_queue v m)"
proof -
  let ?v = "with_session key l s v"
  note q = queued_functor [OF assms(1)]
  have n: "fid f < nses v" if "f \<in> set (sv_queue v m)" for m f using q [OF that] by (cases f) auto
  show fid: "nses v \<notin> fid ` set (sv_queue v m)" for m using n by fastforce
  then show "\<not> queued_established ?v (nses v)" unfolding queued_established_def by (metis fid.simps(1) image_eqI with_session_simps(3))
  have "functor_ok ?v m f" if "f \<in> set (sv_queue v m)" for m f using q [OF that] by (cases f) auto
  then have "queues_ok ?v" using assms(1) by (auto simp: sv_ok_but_def queues_ok_def list_all_iff)
  moreover have "map_ok ?v"
    unfolding map_ok_def
  proof (intro conjI allI impI)
    have "key \<notin> fst ` set (sv_sessions v)" using assms(2) by (simp add: findSession_def map_of_eq_None_iff)
    then show "distinct (map fst (sv_sessions ?v))" using assms by (simp add: with_session_map sv_ok_but_def map_ok_def)
    have "entry_ok ?v x" if "x \<in> set (sv_sessions v)" for x
    proof -
      have "entry_ok v x" using that assms(1) by (simp add: sv_ok_but_def map_ok_def list_all_iff)
      moreover have "fst x \<noteq> key" using that \<open>key \<notin> fst ` set (sv_sessions v)\<close> by auto
      ultimately show ?thesis by (auto simp: entry_ok_def less_Suc_eq split: prod.splits)
    qed
    moreover have "entry_ok ?v (key, \<lparr>en_session = nses v, en_loop = l\<rparr>)" by (auto simp: entry_ok_def)
    ultimately show "list_all (entry_ok ?v) (sv_sessions ?v)" using assms(2) by (simp add: with_session_map list_all_iff)
    show "mapped ?v j \<or> ks_state (ses ?v j) = Ks_Disconnected" if "j < nses ?v" for j
    proof (cases "j = nses v")
      case False
      then have "mapped v j \<or> ks_state (ses v j) = Ks_Disconnected" using that assms(1) by (simp add: sv_ok_but_def map_ok_def)
      then show ?thesis using False that assms(2) by (auto simp: mapped_def with_session_map)
    qed (simp add: mapped_def with_session_map [OF assms(2)])
  qed
  moreover have "counts_ok ?v"
  proof -
    have "close_count ?v (nses v) = 0"
      using assms(1) fid [of "sv_base v"] by (force simp: close_count_def count_list_0_iff sv_ok_but_def counts_ok_def)
    then show ?thesis using assms(1) by (auto simp: sv_ok_but_def counts_ok_def close_count_def less_Suc_eq)
  qed
  moreover have "session_ok ?v j" if "j < nses v" for j
    using that assms(1) by (auto simp: sv_ok_but_def session_ok_def queued_established_def)
  ultimately show "sv_ok_but {nses v} ?v" by (auto simp: sv_ok_but_def less_Suc_eq)
qed


fun inputs_of :: "nat \<Rightarrow> kcp_functor list \<Rightarrow> byte list list" where
  "inputs_of i [] = []"
| "inputs_of i (Kf_input j p # fs) = (if j = i then p # inputs_of i fs else inputs_of i fs)"
| "inputs_of i (_ # fs) = inputs_of i fs"

lemma inputs_of_append [simp]: "inputs_of i (fs @ gs) = inputs_of i fs @ inputs_of i gs"
  by (induction i fs rule: inputs_of.induct) auto

definition ins :: "'k KcpServer \<Rightarrow> nat \<Rightarrow> byte list list" where
  "ins v i = so_inputs (sv_objs v ! i)"

text \<open>The packets a session has been given and those on their way to it.\<close>

definition all_inputs :: "'k KcpServer \<Rightarrow> nat \<Rightarrow> byte list list" where
  "all_inputs v i = ins v i @ inputs_of i (sv_queue v (loop_of v i))"

lemma on_session_inputs:
  assumes "on_session i f v = Some v'" and "i < nses v"
  shows "all_inputs v' = all_inputs v"
  using assms by (auto simp: on_session_def handleSessionClose_def session_closed_def post_functor_def all_inputs_def ins_def sv_views
      nth_list_update fun_eq_iff Let_def split: option.splits if_splits)

lemma base_run_inputs:
  assumes "base_runInLoop K l f v = Some v'" and "fid f < nses v" and "f = Kf_call i c \<or> f = Kf_established i"
  shows "all_inputs v' = all_inputs v"
  using assms on_session_inputs [of i _ v v'] by (auto simp: base_runInLoop_def all_inputs_def ins_def post_functor_def sv_views fun_eq_iff split: if_splits)

lemma base_run_calls_inputs:
  assumes "base_run_all K l (map (Kf_call i) cs) v = Some v'" and "i < nses v"
  shows "all_inputs v' = all_inputs v"
  using assms
proof (induction cs arbitrary: v)
  case (Cons c cs)
  then obtain v1 where v1: "base_runInLoop K l (Kf_call i c) v = Some v1" "base_run_all K l (map (Kf_call i) cs) v1 = Some v'"
    by (auto simp: bind_eq_Some_conv)
  moreover from this have "same_sessions v v1" using same_base_run Cons.prems(2) by fastforce
  ultimately show ?case using Cons.IH [OF v1(2)] base_run_inputs [OF v1(1)] Cons.prems(2) by (simp add: same_sessions_def)
qed simp

lemma mk_KcpSession_fresh:
  assumes "mk_KcpSession K create False False options cbs clock 1 = Ret s"
  shows "fresh_session s \<and> ko_conv options \<noteq> 0"
  using assms by (auto simp: mk_KcpSession_def fresh_session_def kcp_closes_def ks_refreshStats_def ks_touchActive_def split: if_splits sum.splits)

lemma establish_ok:
  assumes "base_runInLoop K l (Kf_established (nses v)) (with_session key l s v) = Some v'" and "sv_ok v" and "findSession key v = None"
    and "fresh_session s"
  shows "sv_ok v'"
proof -
  let ?v = "with_session key l s v"
  note new = with_session_ok(1,2) [OF assms(2,3), of l s] with_session_ok(3) [OF assms(2,3)]
  show ?thesis
  proof (cases "l = sv_base v")
    case True
    have "on_session (nses v) (\<lambda>s. Some (kcp_connectEstablished K s)) ?v = Some v'" using assms(1) True by (simp add: base_runInLoop_def)
    then show ?thesis by (rule on_session_ok [OF _ new(1) _ new(2)]) (simp_all add: good_effect_established assms(4))
  next
    case False
    then have v': "v' = post_functor l (Kf_established (nses v)) ?v" using assms(1) by (simp add: base_runInLoop_def)
    have "sv_ok_but {nses v} v'" unfolding v' by (rule post_ok [OF new(1)]) (use False new(3) [of l] in auto)
    then show ?thesis by (rule sv_ok_butI) (use assms(4) in \<open>auto simp: v' session_ok_def queued_established_def\<close>)
  qed
qed

lemma create_effect:
  assumes "createSession K create hash conv token peer v = Some (Ret v')" and "sv_ok v"
    and "key = makeSessionKey conv token peer" and "findSession key v = None" and "l = getLoopForHash (hash key) (sv_pool v)"
  shows "sv_ok v' \<and> conv \<noteq> 0 \<and> (\<exists>s. same_sessions (with_session key l s v) v' \<and> all_inputs v' = all_inputs (with_session key l s v))"
proof -
  obtain s where s: "mk_KcpSession K create False False (buildSessionOptions conv token v)
      \<lparr>cb_message = sv_messageCb v, cb_writeComplete = sv_writeCompleteCb v, cb_close = True, cb_error = sv_errorCb v\<rparr> (sv_clock v) 1 = Ret s"
    using assms(1) by (auto simp: createSession_def Let_def split: outcome.splits)
  then have fresh: "fresh_session s" "conv \<noteq> 0"
    using mk_KcpSession_fresh [OF s] by (auto simp: buildSessionOptions_def Let_def)
  let ?w = "with_session key l s v"
  obtain v1 where v1: "base_runInLoop K l (Kf_established (nses v)) ?w = Some v1"
    and v': "sv_connectionCb v1 = None \<and> v' = v1 \<or>
      (\<exists>cs. base_run_all K l (map (Kf_call (nses v)) cs) (v1\<lparr>sv_opened := sv_opened v1 @ [nses v]\<rparr>) = Some v')"
    using assms(1,3,5) s by (auto simp: createSession_def with_session_def nses_def Let_def split: outcome.splits option.splits)
  have ok1: "sv_ok v1" by (rule establish_ok [OF v1 assms(2,4) fresh(1)])
  have same: "same_sessions ?w v1" by (rule same_base_run [OF v1]) simp
  have ins: "all_inputs v1 = all_inputs ?w" by (rule base_run_inputs [OF v1, of "nses v"]) auto
  let ?v1 = "v1\<lparr>sv_opened := sv_opened v1 @ [nses v]\<rparr>"
  have views: "nses ?v1 = nses v1" "ses ?v1 = ses v1" "loop_of ?v1 = loop_of v1" "key_of ?v1 = key_of v1" "all_inputs ?v1 = all_inputs v1" "sv_base ?v1 = sv_base v1"
    by (auto simp: sv_views all_inputs_def ins_def fun_eq_iff)
  have ok2: "sv_ok ?v1" using sv_ok_cong [of ?v1 v1] views ok1 by simp
  have n: "nses v < nses ?v1" "loop_of ?v1 (nses v) = l" using same views by (auto simp: same_sessions_def)
  have "sv_ok v' \<and> same_sessions v1 v' \<and> all_inputs v' = all_inputs v1" if "base_run_all K l (map (Kf_call (nses v)) cs) ?v1 = Some v'" for cs
    using base_run_calls_ok [OF ok2 n that] base_run_calls_inputs [OF that n(1)] views by (simp add: same_sessions_def)
  then have "sv_ok v' \<and> same_sessions v1 v' \<and> all_inputs v' = all_inputs v1" using v' ok1 by (auto simp: same_sessions_def)
  then show ?thesis using same ins fresh(2) same_sessions_trans by metis
qed


section \<open>The invariant of the server\<close>

definition sessions_with :: "SessionKey \<Rightarrow> 'k KcpServer \<Rightarrow> nat list" where
  "sessions_with k v = filter (\<lambda>i. key_of v i = k) [0..<nses v]"

definition packets_with :: "SessionKey \<Rightarrow> 'k KcpServer \<Rightarrow> byte list list" where
  "packets_with k v = map snd (filter (\<lambda>(k', p). k' = k) (sv_received v))"

definition dropped_of :: "'k KcpServer \<Rightarrow> nat \<Rightarrow> byte list list" where
  "dropped_of v i = map snd (filter (\<lambda>(j, p). j = i) (sv_dropped v))"

text \<open>The packets that session \<open>i\<close> accounts for: the one dropped when it was made, or those it gets.\<close>

definition all_packets :: "'k KcpServer \<Rightarrow> nat \<Rightarrow> byte list list" where
  "all_packets v i = dropped_of v i @ all_inputs v i"

text \<open>A packet is dropped at most once per session, whose session is out of the table for good and gets nothing.\<close>

definition dropped_ok :: "'k KcpServer \<Rightarrow> bool" where
  "dropped_ok v \<longleftrightarrow> distinct (map fst (sv_dropped v))
     \<and> (\<forall>i \<in> fst ` set (sv_dropped v). i < nses v \<and> \<not> mapped v i \<and> all_inputs v i = [])"

definition routed :: "(SessionKey \<Rightarrow> nat) \<Rightarrow> 'k KcpServer \<Rightarrow> bool" where
  "routed hash v \<longleftrightarrow> (\<forall>k. concat (map (all_packets v) (sessions_with k v)) = packets_with k v)
     \<and> (\<forall>i < nses v. loop_of v i = getLoopForHash (hash (key_of v i)) (sv_pool v) \<and> key_conv (key_of v i) \<noteq> 0)
     \<and> dropped_ok v"

lemma dropped_of_none: "i \<notin> fst ` set (sv_dropped v) \<Longrightarrow> dropped_of v i = []"
  by (force simp: dropped_of_def filter_empty_conv)

lemma dropped_of_one:
  assumes "distinct (map fst (sv_dropped v))" and "(i, p) \<in> set (sv_dropped v)"
  shows "dropped_of v i = [p]"
proof -
  have "filter (\<lambda>(j, q). j = i) xs = [(i, p)]" if "distinct (map fst xs)" "(i, p) \<in> set xs" for xs :: "(nat \<times> byte list) list"
    using that by (induction xs) (force simp: filter_empty_conv)+
  then show ?thesis using assms by (simp add: dropped_of_def)
qed

definition server_inv :: "(SessionKey \<Rightarrow> nat) \<Rightarrow> 'k KcpServer \<Rightarrow> bool" where
  "server_inv hash v \<longleftrightarrow> sv_ok v \<and> routed hash v"

lemma mapped_same: "same_sessions v v' \<Longrightarrow> mapped v' i \<Longrightarrow> mapped v i"
  by (auto simp: same_sessions_def mapped_def)

lemma routed_same:
  assumes "same_sessions v v'" and "all_inputs v' = all_inputs v" and "routed hash v"
  shows "routed hash v'"
proof -
  have "all_packets v' = all_packets v" using assms(1,2) by (simp add: fun_eq_iff all_packets_def dropped_of_def same_sessions_def)
  moreover have "dropped_ok v'" using assms mapped_same [OF assms(1)] by (auto simp: routed_def dropped_ok_def same_sessions_def)
  ultimately show ?thesis using assms by (simp add: routed_def same_sessions_def sessions_with_def packets_with_def)
qed

lemma routed_with_session:
  assumes "routed hash v" and "sv_ok v" and "findSession key v = None" and "l = getLoopForHash (hash key) (sv_pool v)" and "key_conv key \<noteq> 0"
  shows "routed hash (with_session key l s v)" and "all_inputs (with_session key l s v) (nses v) = []"
proof -
  let ?v = "with_session key l s v"
  have n: "fid f < nses v" if "f \<in> set (sv_queue v m)" for m f using queued_functor [OF assms(2) that] by (cases f) auto
  have "inputs_of (nses v) q = []" if "\<forall>f \<in> set q. fid f < nses v" for q
    using that by (induction "nses v" q rule: inputs_of.induct) auto
  then show new: "all_inputs ?v (nses v) = []"
    using n by (simp add: all_inputs_def ins_def with_session_def sessions_emplace_def nses_def)
  have old: "all_inputs ?v i = all_inputs v i" if "i < nses v" for i
    using that by (auto simp: all_inputs_def ins_def with_session_def sessions_emplace_def nses_def loop_of_def nth_append)
  have dr: "dropped_ok v" using assms(1) by (simp add: routed_def)
  then have "nses v \<notin> fst ` set (sv_dropped v)" by (auto simp: dropped_ok_def)
  then have newp: "all_packets ?v (nses v) = []" using new dropped_of_none [of "nses v" ?v] by (simp add: all_packets_def)
  have oldp: "all_packets ?v i = all_packets v i" if "i < nses v" for i using old [OF that] by (simp add: all_packets_def dropped_of_def)
  have "concat (map (all_packets ?v) (sessions_with k ?v)) = concat (map (all_packets v) (sessions_with k v))" for k
  proof -
    have "filter (\<lambda>i. key_of ?v i = k) [0..<nses v] = sessions_with k v" unfolding sessions_with_def by (rule filter_cong) auto
    then have w: "sessions_with k ?v = sessions_with k v @ (if key = k then [nses v] else [])" by (simp add: sessions_with_def)
    have m: "map (all_packets ?v) (sessions_with k v) = map (all_packets v) (sessions_with k v)" by (rule map_cong) (auto simp: oldp sessions_with_def)
    show ?thesis unfolding w map_append concat_append m using newp by auto
  qed
  moreover have "dropped_ok ?v" using dr old assms(3) by (auto simp: dropped_ok_def mapped_def with_session_map)
  ultimately show "routed hash ?v" using assms(1,4,5) by (auto simp: routed_def packets_with_def less_Suc_eq)
qed

lemma base_no_inputs:
  assumes "sv_ok_but B v"
  shows "inputs_of i (sv_queue v (sv_base v)) = []"
proof -
  have "inputs_of i q = []" if "\<forall>f \<in> set q. functor_ok v (sv_base v) f" for q
    using that by (induction i q rule: inputs_of.induct) auto
  then show ?thesis using queued_functor [OF assms] by blast
qed

lemma note_input_inputs:
  assumes "i < nses v"
  shows "all_inputs (note_input i p v) = (all_inputs v)(i := ins v i @ p # inputs_of i (sv_queue v (loop_of v i)))"
  using assms by (auto simp: all_inputs_def fun_eq_iff) (auto simp: ins_def note_input_def nses_def nth_list_update)

lemma last_session:
  assumes "entry_ok v (k, e)"
  shows "\<exists>xs. sessions_with k v = xs @ [en_session e] \<and> en_session e \<notin> set xs"
proof -
  let ?i = "en_session e" let ?P = "\<lambda>i. key_of v i = k"
  from assms have i: "?i < nses v" "?P ?i" "\<And>j. ?i < j \<Longrightarrow> j < nses v \<Longrightarrow> \<not> ?P j" by (auto simp: entry_ok_def)
  have "[0..<nses v] = [0..<?i] @ ?i # [Suc ?i..<nses v]" using upt_add_eq_append [of 0 ?i "nses v - ?i"] i(1) by (simp add: upt_conv_Cons)
  moreover have "filter ?P [Suc ?i..<nses v] = []" using i(3) by (auto simp: filter_empty_conv)
  ultimately have "sessions_with k v = filter ?P [0..<?i] @ [?i]" using i(2) by (simp add: sessions_with_def)
  then show ?thesis by auto
qed

lemma got_simps [simp]:
  "nses (got key p v) = nses v" "ses (got key p v) = ses v" "loop_of (got key p v) = loop_of v" "key_of (got key p v) = key_of v"
  "all_inputs (got key p v) = all_inputs v" "sv_base (got key p v) = sv_base v" "sv_sessions (got key p v) = sv_sessions v"
  "sv_dropped (got key p v) = sv_dropped v" "sv_queue (got key p v) = sv_queue v" "sv_closed (got key p v) = sv_closed v" "sv_pool (got key p v) = sv_pool v"
  "findSession k (got key p v) = findSession k v" "sv_received (got key p v) = sv_received v @ [(key, p)]"
  "sv_objs (got key p v) = sv_objs v" "mapped (got key p v) i = mapped v i"
  by (auto simp: got_def sv_views all_inputs_def ins_def fun_eq_iff findSession_def mapped_def)

lemma got_ok: "sv_ok_but B (got key p v) = sv_ok_but B v"
  by (rule sv_ok_cong) simp_all

lemma packets_with_got: "packets_with k (got key p v) = packets_with k v @ (if k = key then [p] else [])"
  by (simp add: packets_with_def)

text \<open>A received packet goes to the last session of its key, or is noted as dropped with it.\<close>

lemma routed_one_more:
  assumes "routed hash v" and "nses v' = nses v" "loop_of v' = loop_of v" "key_of v' = key_of v" "sv_pool v' = sv_pool v" "sv_received v' = sv_received v @ [(key, p)]" and "i < nses v" and "key_of v i = key" and "\<And>j. i < j \<Longrightarrow> j < nses v \<Longrightarrow> key_of v j \<noteq> key"
    and "all_packets v' = (all_packets v)(i := all_packets v i @ [p])" and "dropped_ok v'"
  shows "routed hash v'"
proof -
  have "[0..<nses v] = [0..<i] @ i # [Suc i..<nses v]" using upt_add_eq_append [of 0 i "nses v - i"] assms(7) by (simp add: upt_conv_Cons)
  moreover have "filter (\<lambda>j. key_of v j = key) [Suc i..<nses v] = []" using assms(9) by (auto simp: filter_empty_conv)
  ultimately have xs: "sessions_with key v = filter (\<lambda>j. key_of v j = key) [0..<i] @ [i]" using assms(8) by (simp add: sessions_with_def)
  let ?xs = "filter (\<lambda>j. key_of v j = key) [0..<i]"
  have "concat (map (all_packets v') (sessions_with k v)) = packets_with k v @ (if k = key then [p] else [])" for k
  proof (cases "k = key")
    case True
    have m: "map (all_packets v') ?xs = map (all_packets v) ?xs" by (rule map_cong) (use assms(10) in auto)
    have "concat (map (all_packets v') (sessions_with key v)) = concat (map (all_packets v) (sessions_with key v)) @ [p]"
      unfolding xs map_append concat_append m using assms(10) by simp
    then show ?thesis using assms(1) True by (simp add: routed_def)
  next
    case False
    then have "i \<notin> set (sessions_with k v)" using assms(8) by (auto simp: sessions_with_def)
    then have m: "map (all_packets v') (sessions_with k v) = map (all_packets v) (sessions_with k v)" using assms(10) by (intro map_cong) auto
    show ?thesis unfolding m using assms(1) False by (simp add: routed_def)
  qed
  moreover have "sessions_with k v' = sessions_with k v" "packets_with k v' = packets_with k v @ (if k = key then [p] else [])" for k
    using assms(2-6) by (auto simp: sessions_with_def packets_with_def)
  ultimately show ?thesis using assms(1-6,11) by (simp add: routed_def)
qed

lemma deliver_ok:
  assumes "deliver K e p (got key p v) = Some (Ret v')" and "server_inv hash v" and "findSession key v = Some e"
  shows "server_inv hash v'"
proof -
  let ?i = "en_session e" let ?v = "got key p v"
  have ok: "sv_ok v" and rt: "routed hash v" using assms(2) by (auto simp: server_inv_def)
  have mem: "(key, e) \<in> set (sv_sessions v)" using assms(3) by (simp add: findSession_def map_of_SomeD)
  then have ent: "entry_ok v (key, e)" using ok by (simp add: sv_ok_but_def map_ok_def list_all_iff)
  then have i: "?i < nses v" "loop_of v ?i = en_loop e" "key_of v ?i = key" "\<And>j. ?i < j \<Longrightarrow> j < nses v \<Longrightarrow> key_of v j \<noteq> key"
    by (auto simp: entry_ok_def)
  have run: "base_runInLoop K (en_loop e) (Kf_input ?i p) ?v = Some v'" using assms(1) by (simp add: deliver_def)
  have ok1: "sv_ok ?v" using ok got_ok by blast
  have ok': "sv_ok v'" by (rule base_run_ok [OF ok1 _ _ _ run]) (use i in auto)
  have same: "same_sessions ?v v'" by (rule same_base_run [OF run]) (use i in simp)
  have inputs: "all_inputs v' = (all_inputs v)(?i := all_inputs v ?i @ [p])"
  proof (cases "en_loop e = sv_base v")
    case True
    then have on: "on_session ?i (inputPacketInLoop K p) (note_input ?i p ?v) = Some v'" using run by (simp add: base_runInLoop_def)
    have "all_inputs v' = all_inputs (note_input ?i p ?v)" by (rule on_session_inputs [OF on]) (use i in simp)
    also have "\<dots> = (all_inputs ?v)(?i := ins ?v ?i @ p # inputs_of ?i (sv_queue ?v (loop_of ?v ?i)))"
      by (rule note_input_inputs) (use i in simp)
    also have "\<dots> = (all_inputs v)(?i := all_inputs v ?i @ [p])"
      using True i(2) base_no_inputs [OF ok, of ?i] by (simp add: all_inputs_def ins_def)
    finally show ?thesis .
  next
    case False
    then have v': "v' = post_functor (en_loop e) (Kf_input ?i p) ?v" using run by (simp add: base_runInLoop_def)
    have "all_inputs v' j = (if j = ?i then all_inputs ?v ?i @ [p] else all_inputs ?v j)" for j
      using i(2) by (auto simp: v' all_inputs_def ins_def post_functor_def loop_of_def got_def)
    then show ?thesis by (simp add: fun_eq_iff)
  qed
  have "mapped v ?i" using mem by (force simp: mapped_def)
  then have nd: "?i \<notin> fst ` set (sv_dropped v)" using rt by (auto simp: routed_def dropped_ok_def)
  have "all_packets v' = (all_packets v)(?i := all_packets v ?i @ [p])"
    using inputs same by (auto simp: all_packets_def dropped_of_def same_sessions_def fun_eq_iff)
  moreover have "dropped_ok v'"
  proof -
    have old: "distinct (map fst (sv_dropped v))" "\<forall>j \<in> fst ` set (sv_dropped v). j < nses v \<and> \<not> mapped v j \<and> all_inputs v j = []"
      using rt by (auto simp: routed_def dropped_ok_def)
    have un: "\<not> mapped v j \<Longrightarrow> \<not> mapped v' j" for j using mapped_same [OF same, of j] by auto
    have sv: "sv_dropped v' = sv_dropped v" "nses v' = nses v" using same by (simp_all add: same_sessions_def)
    have "j < nses v' \<and> \<not> mapped v' j \<and> all_inputs v' j = []" if "j \<in> fst ` set (sv_dropped v)" for j
    proof -
      have "j \<noteq> ?i" using that nd by blast
      then show ?thesis using bspec [OF old(2) that] un [of j] inputs sv(2) by auto
    qed
    then show ?thesis using old(1) sv(1) by (simp add: dropped_ok_def)
  qed
  moreover have "nses v' = nses v" "loop_of v' = loop_of v" "key_of v' = key_of v" "sv_pool v' = sv_pool v" "sv_received v' = sv_received v @ [(key, p)]"
    using same by (simp_all add: same_sessions_def)
  ultimately have "routed hash v'" using routed_one_more [of hash v v' key p ?i] rt i(1,3,4) by blast
  then show ?thesis using ok' by (simp add: server_inv_def)
qed

lemma datagram_ok:
  assumes "handle_datagram K create hash packet peer v = Some (Ret v')" and "server_inv hash v"
  shows "server_inv hash v'"
proof (cases "tryParseHeader packet")
  case None
  then show ?thesis using assms by (simp add: handle_datagram_def)
next
  case (Some ct)
  then obtain conv token where ct: "tryParseHeader packet = Some (conv, token)" by (cases ct) auto
  let ?key = "makeSessionKey conv token peer" let ?g = "got (makeSessionKey conv token peer) packet v"
  let ?l = "getLoopForHash (hash ?key) (sv_pool v)"
  have ok: "sv_ok v" "routed hash v" using assms(2) by (auto simp: server_inv_def)
  show ?thesis
  proof (cases "findSession ?key v")
    case None
    then obtain v1 where v1: "createSession K create hash conv token peer ?g = Some (Ret v1)"
      and v': "findSession ?key v1 = None \<and> v' = v1\<lparr>sv_dropped := sv_dropped v1 @ [(nses v, packet)]\<rparr>
        \<or> (\<exists>e. findSession ?key v1 = Some e \<and> deliver K e packet v1 = Some (Ret v'))"
      using assms(1) ct by (auto simp: handle_datagram_def Let_def nses_def split: option.splits outcome.splits)
    have g: "sv_ok ?g" "findSession ?key ?g = None" using ok got_ok None by auto
    obtain s where s: "sv_ok v1" "conv \<noteq> 0" "same_sessions (with_session ?key ?l s ?g) v1" "all_inputs v1 = all_inputs (with_session ?key ?l s ?g)"
      using create_effect [OF v1 g(1) refl g(2) refl] by auto
    define v0 where "v0 = v1\<lparr>sv_received := sv_received v\<rparr>"
    have eq: "v1 = got ?key packet v0" using s(3) by (simp add: v0_def got_def same_sessions_def)
    have w: "with_session ?key ?l s ?g = got ?key packet (with_session ?key ?l s v)"
      by (simp add: with_session_def got_def sessions_emplace_def nses_def)
    have same: "same_sessions (with_session ?key ?l s v) v0" using s(3) unfolding w eq by (simp add: same_sessions_def)
    have ins: "all_inputs v0 = all_inputs (with_session ?key ?l s v)" using s(4) unfolding w eq by simp
    note new = routed_with_session [OF ok(2,1) None refl, of s]
    have conv: "key_conv ?key \<noteq> 0" using s(2) by (simp add: makeSessionKey_def)
    have rt: "routed hash v0" by (rule routed_same [OF same ins new(1) [OF conv]])
    have ok0: "sv_ok v0" using s(1) got_ok unfolding eq by blast
    from v' show ?thesis
    proof
      assume d: "findSession ?key v1 = None \<and> v' = v1\<lparr>sv_dropped := sv_dropped v1 @ [(nses v, packet)]\<rparr>"
      let ?n = "nses v"
      have views: "nses v' = nses v0" "loop_of v' = loop_of v0" "key_of v' = key_of v0" "ses v' = ses v0" "all_inputs v' = all_inputs v0" "sv_base v' = sv_base v0"
        "sv_sessions v' = sv_sessions v0" "sv_closed v' = sv_closed v0" "sv_queue v' = sv_queue v0" "sv_pool v' = sv_pool v0"
        "sv_dropped v' = sv_dropped v0 @ [(?n, packet)]" "sv_received v' = sv_received v0 @ [(?key, packet)]"
        using d eq by (auto simp: got_def sv_views all_inputs_def ins_def fun_eq_iff)
      have n: "nses v0 = Suc ?n" "key_of v0 ?n = ?key" "all_inputs v0 ?n = []" using same ins new(2) [OF conv] by (auto simp: same_sessions_def)
      have unmapped: "\<not> mapped v0 ?n"
      proof
        assume "mapped v0 ?n"
        then obtain k e where e: "(k, e) \<in> set (sv_sessions v0)" "en_session e = ?n" by (auto simp: mapped_def)
        then have "entry_ok v0 (k, e)" using ok0 by (simp add: sv_ok_but_def map_ok_def list_all_iff)
        then have "k = ?key" using e(2) n(2) by (simp add: entry_ok_def)
        then have "findSession ?key v0 \<noteq> None" using e(1) weak_map_of_SomeI [of k e "sv_sessions v0"] by (auto simp: findSession_def)
        then show False using d eq by simp
      qed
      have fresh: "?n \<notin> fst ` set (sv_dropped v0)"
      proof
        assume "?n \<in> fst ` set (sv_dropped v0)"
        then have "?n \<in> fst ` set (sv_dropped v)" using same by (simp add: same_sessions_def)
        then show False using ok(2) by (auto simp: routed_def dropped_ok_def)
      qed
      have pk: "all_packets v' = (all_packets v0)(?n := all_packets v0 ?n @ [packet])"
        using views n(3) fresh by (auto simp: all_packets_def dropped_of_def fun_eq_iff)
      have dr: "dropped_ok v'" using rt fresh unmapped n views by (auto simp: routed_def dropped_ok_def mapped_def)
      have "routed hash v'" by (rule routed_one_more [OF rt views(1,2,3,10,12) _ n(2) _ pk dr]) (use n(1) in auto)
      moreover have "sv_ok v'" using sv_ok_cong [of v' v0] views ok0 by simp
      ultimately show ?thesis by (simp add: server_inv_def)
    next
      assume "\<exists>e. findSession ?key v1 = Some e \<and> deliver K e packet v1 = Some (Ret v')"
      then obtain e where "findSession ?key v0 = Some e" "deliver K e packet (got ?key packet v0) = Some (Ret v')" using eq by auto
      moreover have "server_inv hash v0" using rt ok0 by (simp add: server_inv_def)
      ultimately show ?thesis using deliver_ok by blast
    qed
  next
    case (Some e)
    then have "deliver K e packet ?g = Some (Ret v')" using assms(1) ct by (simp add: handle_datagram_def Let_def)
    then show ?thesis using deliver_ok assms(2) Some by blast
  qed
qed


lemma functor_step_ok:
  assumes "server_inv hash v" and "sv_queue v l = f # fs" and "run_functor K f (popped l v) = Some v'"
  shows "server_inv hash v'"
proof -
  have ok: "sv_ok v" "routed hash v" using assms(1) by (auto simp: server_inv_def)
  note head = queue_head(1) [OF ok(1) assms(2)]
  from head have n: "fid f < nses v" by (cases f) auto
  have same: "same_sessions (popped l v) v'" by (rule same_run_functor [OF assms(3)]) (simp add: n)
  have pop: "all_inputs (popped l v) j = all_inputs v j" if "\<And>i p. f \<noteq> Kf_input i p" for j
    using that assms(2) by (cases f) (auto simp: all_inputs_def ins_def)
  have "all_inputs v' = all_inputs v"
  proof (cases f)
    case (Kf_input i p)
    have on: "on_session i (inputPacketInLoop K p) (note_input i p (popped l v)) = Some v'" using assms(3) Kf_input by simp
    have "all_inputs v' = all_inputs (note_input i p (popped l v))" by (rule on_session_inputs [OF on]) (use n Kf_input in simp)
    also have "\<dots> = (all_inputs (popped l v))(i := ins (popped l v) i @ p # inputs_of i (sv_queue (popped l v) (loop_of (popped l v) i)))"
      by (rule note_input_inputs) (use n Kf_input in simp)
    also have "\<dots> = all_inputs v" using head assms(2) Kf_input by (auto simp: all_inputs_def ins_def fun_eq_iff)
    finally show ?thesis .
  next
    case (Kf_closed i)
    then show ?thesis using assms(3) pop by (auto simp: all_inputs_def ins_def session_closed_def loop_of_def fun_eq_iff)
  qed (use assms(3) n pop on_session_inputs [of _ _ "popped l v" v'] in \<open>auto simp: fun_eq_iff\<close>)
  moreover have "same_sessions v v'" using same by (simp add: same_sessions_def fun_eq_iff)
  ultimately show ?thesis using run_popped_ok [OF ok(1) assms(2,3)] routed_same ok(2) by (auto simp: server_inv_def)
qed

lemma timer_step_ok:
  assumes "server_inv hash v" and "i < nses v" and "on_session i (kcp_exec K (Kp_timer j)) v = Some v'"
  shows "server_inv hash v'"
proof -
  have ok: "sv_ok v" "routed hash v" "session_ok v i" using assms(1,2) by (auto simp: server_inv_def sv_ok_but_def)
  have "\<not> fresh_session (ses v i)" using assms(3) by (auto simp: on_session_def ses_def fresh_session_def Let_def split: option.splits)
  then have q: "\<not> queued_established v i" "ks_ok True (ses v i)" using ok(3) by (auto simp: session_ok_def split: if_splits)
  have "sv_ok v'" by (rule on_session_ok [OF assms(3) sv_ok_but_mono [OF ok(1)] assms(2) q(1) good_effect_exec [OF q(2)]])
  then show ?thesis using routed_same [OF same_on_session on_session_inputs ok(2)] assms(2,3) by (simp add: server_inv_def)
qed

lemma tick_step_ok:
  assumes "server_inv hash v" and "v' = v\<lparr>sv_clock := sv_clock v + int ms,
    sv_objs := map (\<lambda>ob. ob\<lparr>so_session := (so_session ob)\<lparr>ks_clock := ks_clock (so_session ob) + int ms\<rparr>\<rparr>) (sv_objs v)\<rparr>"
  shows "server_inv hash v'"
proof -
  have ok: "sv_ok v" "routed hash v" using assms(1) by (auto simp: server_inv_def)
  have views: "nses v' = nses v" "sv_base v' = sv_base v" "sv_sessions v' = sv_sessions v" "sv_queue v' = sv_queue v" "sv_closed v' = sv_closed v"
    "sv_received v' = sv_received v" "sv_pool v' = sv_pool v" "sv_dropped v' = sv_dropped v"
    by (simp_all add: assms(2) sv_views)
  have at: "loop_of v' i = loop_of v i" "key_of v' i = key_of v i" "all_inputs v' i = all_inputs v i"
    "ses v' i = (ses v i)\<lparr>ks_clock := ks_clock (ses v i) + int ms\<rparr>" if "i < nses v" for i
    using that by (simp_all add: assms(2) sv_views all_inputs_def ins_def)
  have clock: "ks_state (ses v' i) = ks_state (ses v i)" "kcp_closes (ses v' i) = kcp_closes (ses v i)" "session_ok v' i = session_ok v i" if "i < nses v" for i
    using at [OF that] views by (simp_all add: kcp_closes_def session_ok_def queued_established_def fresh_session_def ks_ok_def)
  have "functor_ok v' l f = functor_ok v l f" for l f using views at(1) clock(1) by (cases f) auto
  moreover have "entry_ok v' x = entry_ok v x" for x using views at(1,2) by (auto simp: entry_ok_def split: prod.splits)
  ultimately have "sv_ok v'" using ok(1) views clock
    by (simp add: sv_ok_but_def map_ok_def queues_ok_def counts_ok_def close_count_def mapped_def list_all_iff)
  moreover have "sessions_with k v' = sessions_with k v" for k
    unfolding sessions_with_def views by (rule filter_cong) (auto simp: at)
  moreover have "map (all_packets v') (sessions_with k v) = map (all_packets v) (sessions_with k v)" for k
    by (rule map_cong) (auto simp: at all_packets_def dropped_of_def views sessions_with_def)
  moreover have "dropped_ok v'" using ok(2) views at(3) by (auto simp: routed_def dropped_ok_def mapped_def)
  ultimately show ?thesis using ok(2) views at by (simp add: server_inv_def routed_def packets_with_def del: map_eq_conv)
qed

lemma server_step_ok:
  assumes "sv_step K create hash v v'" and "server_inv hash v"
  shows "server_inv hash v'"
proof -
  from assms(1) obtain a where a: "sv_exec K create hash a v = Some (Ret v')" by (auto simp: sv_step_def)
  show ?thesis
  proof (cases a)
    case (Sv_datagram packet peer)
    then show ?thesis using a datagram_ok assms(2) by simp
  next
    case (Sv_functor l)
    then obtain f fs where q: "sv_queue v l = f # fs" "run_functor K f (v\<lparr>sv_queue := (sv_queue v)(l := fs)\<rparr>) = Some v'"
      using a by (auto split: list.splits)
    then show ?thesis using functor_step_ok [OF assms(2) q(1)] by (simp add: popped_def)
  next
    case (Sv_timer i j)
    then show ?thesis using a timer_step_ok [OF assms(2), of i K j v'] by (auto simp: nses_def split: if_splits)
  next
    case (Sv_call i c)
    then have v': "i < nses v" "v' = post_functor (loop_of v i) (Kf_call i c) v" using a by (auto simp: sv_views split: if_splits)
    have "sv_ok v'" using post_ok [of "{}" v "loop_of v i" "Kf_call i c"] v' assms(2) by (auto simp: server_inv_def)
    moreover have "same_sessions v v'" "all_inputs v' = all_inputs v"
      by (auto simp: v' same_sessions_def all_inputs_def ins_def post_functor_def sv_views fun_eq_iff)
    ultimately show ?thesis using routed_same assms(2) by (auto simp: server_inv_def)
  next
    case (Sv_tick ms)
    then show ?thesis using a by (intro tick_step_ok [OF assms(2), of _ ms]) simp
  qed
qed

interpretation kcp_server: step_machine "sv_step K create hash" "server_inv hash" for K create hash
  by unfold_locales (rule server_step_ok)

lemma started_server_inv: "server_inv hash (started_server pool options connectionCb messageCb writeCompleteCb closeCb errorCb clock)"
  by (simp add: server_inv_def sv_ok_but_def map_ok_def queues_ok_def counts_ok_def routed_def dropped_ok_def sessions_with_def packets_with_def started_server_def nses_def)

lemmas server_reachable = kcp_server.reach_inv [OF _ started_server_inv]

text \<open>
  C14: Safety. In every interleaving of the base loop that reads datagrams, the loops that run functors and timers, and threads that send on and close sessions: for
  every key (conversation, token, peer), the packets given to the sessions with that key, in the order in which the sessions were made, together with those on their way and those dropped, are
  exactly the packets with that key that the server has read, in order. A packet is dropped only when the session made for it was closed before the packet could be given to it: that session is disconnected, accounts for
  this packet alone and never gets any. No other packet is lost, and none is repeated, reordered or given to another session; and all sessions of a key live in the same loop.
\<close>

theorem kcp_server_routes:
  assumes "(sv_step K create hash)\<^sup>*\<^sup>* (started_server pool options connectionCb messageCb writeCompleteCb closeCb errorCb clock) v"
  shows "concat (map (\<lambda>i. dropped_of v i @ all_inputs v i) (sessions_with key v)) = packets_with key v
    \<and> (\<forall>(i, p) \<in> set (sv_dropped v). i < nses v \<and> dropped_of v i = [p] \<and> all_inputs v i = [] \<and> ks_state (ses v i) = Ks_Disconnected)
    \<and> list_all (\<lambda>i. loop_of v i = getLoopForHash (hash key) (sv_pool v)) (sessions_with key v)"
proof -
  have inv: "sv_ok v" "routed hash v" using server_reachable [OF assms] by (auto simp: server_inv_def)
  then have d: "dropped_ok v" by (simp add: routed_def)
  have "i < nses v \<and> dropped_of v i = [p] \<and> all_inputs v i = [] \<and> ks_state (ses v i) = Ks_Disconnected" if ip: "(i, p) \<in> set (sv_dropped v)" for i p
  proof -
    have i: "i < nses v" "\<not> mapped v i" "all_inputs v i = []" using d ip by (force simp: dropped_ok_def)+
    have "dropped_of v i = [p]" using dropped_of_one d ip by (auto simp: dropped_ok_def)
    then show ?thesis using i inv(1) by (auto simp: sv_ok_but_def map_ok_def)
  qed
  moreover have "all_packets v = (\<lambda>i. dropped_of v i @ all_inputs v i)" by (simp add: fun_eq_iff all_packets_def)
  ultimately show ?thesis using inv(2) by (auto simp: routed_def sessions_with_def list_all_iff)
qed

text \<open>
  C15: Invariant. A server has at most one session per key that is not disconnected, and it is the one in the table; and the close callback of the
  server is called at most once for a session, and only when the session is disconnected.
\<close>

theorem kcp_server_one_session:
  assumes "(sv_step K create hash)\<^sup>*\<^sup>* (started_server pool options connectionCb messageCb writeCompleteCb closeCb errorCb clock) v"
  shows "(\<forall>i < nses v. ks_state (ses v i) \<noteq> Ks_Disconnected \<longrightarrow>
        findSession (key_of v i) v = Some \<lparr>en_session = i, en_loop = loop_of v i\<rparr>
        \<and> (\<forall>j < nses v. key_of v j = key_of v i \<and> j \<noteq> i \<longrightarrow> ks_state (ses v j) = Ks_Disconnected))
    \<and> (\<forall>j < nses v. count_list (sv_closed v) j \<le> (if ks_state (ses v j) = Ks_Disconnected then 1 else 0))
    \<and> (\<forall>j \<in> set (sv_closed v). j < nses v)"
proof -
  have ok: "sv_ok v" using server_reachable [OF assms(1)] by (simp add: server_inv_def)
  have find: "findSession (key_of v j) v = Some \<lparr>en_session = j, en_loop = loop_of v j\<rparr>"
    if "j < nses v" "ks_state (ses v j) \<noteq> Ks_Disconnected" for j
  proof -
    from that ok obtain k e where e: "(k, e) \<in> set (sv_sessions v)" "en_session e = j"
      by (auto simp: sv_ok_but_def map_ok_def mapped_def)
    then have "entry_ok v (k, e)" using ok by (simp add: sv_ok_but_def map_ok_def list_all_iff)
    then have "k = key_of v j" "e = \<lparr>en_session = j, en_loop = loop_of v j\<rparr>" using e(2) by (auto simp: entry_ok_def)
    then show ?thesis using e(1) ok by (simp add: findSession_def sv_ok_but_def map_ok_def)
  qed
  have "ks_state (ses v j) = Ks_Disconnected" if "i < nses v" "ks_state (ses v i) \<noteq> Ks_Disconnected" "j < nses v" "key_of v j = key_of v i" "j \<noteq> i" for i j
    using find [of i] find [of j] that by auto
  moreover have "count_list (sv_closed v) j \<le> (if ks_state (ses v j) = Ks_Disconnected then 1 else 0)" if "j < nses v" for j
  proof -
    have "close_count v j \<le> kcp_closes (ses v j)" "session_ok v j" using ok that by (auto simp: sv_ok_but_def counts_ok_def)
    moreover from this(2) have "kcp_closes (ses v j) \<le> (if ks_state (ses v j) = Ks_Disconnected then 1 else 0)"
      by (auto simp: session_ok_def fresh_session_def ks_ok_def kcp_closes_def split: if_splits)
    ultimately show ?thesis by (simp add: close_count_def)
  qed
  moreover have "\<forall>j \<in> set (sv_closed v). j < nses v" using ok by (simp add: sv_ok_but_def counts_ok_def)
  ultimately show ?thesis using find by blast
qed

text \<open>
  C34: A datagram of at least eight bytes whose conversation number is zero ends the server: in every reachable state the constructor of the session throws, and neither \<^verbatim>\<open>handleRead\<close>
  nor the loop has a handler.
\<close>

theorem kcp_server_zero_conv_throws:
  assumes "(sv_step K create hash)\<^sup>*\<^sup>* (started_server pool options connectionCb messageCb writeCompleteCb closeCb errorCb clock) v"
  shows "server_handleRead K create hash (Dg_received ([0, 0, 0, 0] @ [a, b, c, d] @ rest) peer # rs) v
    = Some (Throw (Invalid_argument ''KcpSession conv must not be 0''))"
proof -
  let ?p = "[0, 0, 0, 0] @ [a, b, c, d] @ rest"
  obtain token where h: "tryParseHeader ?p = Some (0, token)" by (simp add: tryParseHeader_def kHeaderSize_def decode32uLE_def)
  have inv: "sv_ok v" "routed hash v" using server_reachable [OF assms] by (auto simp: server_inv_def)
  have "findSession (makeSessionKey 0 token peer) v = None"
  proof (rule ccontr)
    assume "\<not> ?thesis"
    then obtain e where "(makeSessionKey 0 token peer, e) \<in> set (sv_sessions v)" by (auto simp: findSession_def dest: map_of_SomeD)
    then have "entry_ok v (makeSessionKey 0 token peer, e)" using inv(1) by (simp add: sv_ok_but_def map_ok_def list_all_iff)
    then have "key_conv (makeSessionKey 0 token peer) \<noteq> 0" using inv(2) by (auto simp: entry_ok_def routed_def)
    then show False by (simp add: makeSessionKey_def)
  qed
  then have "handle_datagram K create hash ?p peer v = Some (Throw (Invalid_argument ''KcpSession conv must not be 0''))"
    using h by (simp add: handle_datagram_def createSession_def got_simps mk_KcpSession_def buildSessionOptions_def Let_def)
  then show ?thesis by (simp del: append_Cons append_Nil)
qed


section \<open>A run\<close>

definition one_loop :: EventLoopThreadPool where
  "one_loop = \<lparr>lp_baseLoop = 0, lp_poolName = ''p'', lp_threadCount = 0, lp_started = True, lp_next = 0, lp_threads = [], lp_loops = []\<rparr>"

definition one_thread :: EventLoopThreadPool where
  "one_thread = one_loop\<lparr>lp_threadCount := 1, lp_loops := [1]\<rparr>"

definition usual_options :: SessionOptions where
  "usual_options = \<lparr>sp_mtu = 1400, sp_sndWnd = 128, sp_rcvWnd = 128, sp_nodelay = 1, sp_interval = 20, sp_resend = 2, sp_nc = 1, sp_idleTimeout = 0, sp_maxMessageBytes = 100\<rparr>"

definition demo_server :: "EventLoopThreadPool \<Rightarrow> byte list list KcpServer" where
  "demo_server pool = started_server pool usual_options None (Some (\<lambda>_. [])) False True False 0"

definition hello :: "byte list" where
  "hello = [7, 0, 0, 0, 9, 0, 0, 0, 1]"

fun sv_run :: "sv_action list \<Rightarrow> byte list list KcpServer \<Rightarrow> byte list list KcpServer option" where
  "sv_run [] v = Some v"
| "sv_run (a # as) v = (case sv_exec plain_kcp (\<lambda>_. Inr []) (\<lambda>_. 0) a v of Some (Ret v') \<Rightarrow> sv_run as v' | _ \<Rightarrow> None)"

lemma sv_run_reach: "sv_run as v = Some v' \<Longrightarrow> (sv_step plain_kcp (\<lambda>_. Inr []) (\<lambda>_. 0))\<^sup>*\<^sup>* v v'"
proof (induction as arbitrary: v)
  case (Cons a as)
  then obtain v1 where v1: "sv_exec plain_kcp (\<lambda>_. Inr []) (\<lambda>_. 0) a v = Some (Ret v1)" "sv_run as v1 = Some v'"
    by (auto split: option.splits outcome.splits)
  then have "sv_step plain_kcp (\<lambda>_. Inr []) (\<lambda>_. 0) v v1" by (auto simp: sv_step_def)
  then show ?case using Cons.IH [OF v1(2)] by (rule converse_rtranclp_into_rtranclp)
qed simp

lemmas sv_eval = demo_server_def started_server_def usual_options_def one_loop_def one_thread_def handle_datagram_def got_def tryParseHeader_def kHeaderSize_def
  decode32uLE_def hello_def createSession_def deliver_def findSession_def makeSessionKey_def buildSessionOptions_def mk_KcpSession_def getLoopForHash_def sessions_emplace_def
  base_runInLoop_def sv_base_def on_session_def note_input_def post_functor_def kcp_closes_def handleSessionClose_def session_closed_def

lemma demo_two_datagrams:
  "\<exists>v. sv_run [Sv_datagram hello ''a'', Sv_datagram hello ''a'', Sv_functor 1, Sv_functor 1] (demo_server one_thread) = Some v
     \<and> packets_with (makeSessionKey 7 9 ''a'') v = [hello, hello] \<and> nses v = 1 \<and> sv_queue v 1 = [Kf_input 0 hello]
     \<and> key_of v 0 = makeSessionKey 7 9 ''a'' \<and> ks_state (ses v 0) = Ks_Connected"
  by (simp add: sv_eval kcp_eval packets_with_def sv_views)

theorem kcp_server_routes_witness:
  "\<exists>v. (sv_step plain_kcp (\<lambda>_. Inr []) (\<lambda>_. 0))\<^sup>*\<^sup>* (demo_server one_thread) v
     \<and> concat (map (\<lambda>i. dropped_of v i @ all_inputs v i) (sessions_with (makeSessionKey 7 9 ''a'') v)) = [hello, hello]"
proof -
  obtain v where v: "sv_run [Sv_datagram hello ''a'', Sv_datagram hello ''a'', Sv_functor 1, Sv_functor 1] (demo_server one_thread) = Some v"
    "packets_with (makeSessionKey 7 9 ''a'') v = [hello, hello]" using demo_two_datagrams by blast
  from sv_run_reach [OF v(1)] kcp_server_routes [OF sv_run_reach [OF v(1), unfolded demo_server_def], of "makeSessionKey 7 9 ''a''"] v(2)
  show ?thesis by auto
qed

theorem kcp_server_one_session_witness:
  "\<exists>v. (sv_step plain_kcp (\<lambda>_. Inr []) (\<lambda>_. 0))\<^sup>*\<^sup>* (demo_server one_thread) v
     \<and> findSession (makeSessionKey 7 9 ''a'') v = Some \<lparr>en_session = 0, en_loop = loop_of v 0\<rparr>"
proof -
  obtain v where v: "sv_run [Sv_datagram hello ''a'', Sv_datagram hello ''a'', Sv_functor 1, Sv_functor 1] (demo_server one_thread) = Some v"
    "nses v = 1" "key_of v 0 = makeSessionKey 7 9 ''a''" "ks_state (ses v 0) = Ks_Connected" using demo_two_datagrams by blast
  from sv_run_reach [OF v(1)] kcp_server_one_session [OF sv_run_reach [OF v(1), unfolded demo_server_def]] v(2-)
  show ?thesis by auto
qed

theorem kcp_server_zero_conv_throws_witness:
  "server_handleRead plain_kcp (\<lambda>_. Inr []) (\<lambda>_. 0) [Dg_received [0, 0, 0, 0, 0, 0, 0, 0] ''evil''] (demo_server one_loop)
     = Some (Throw (Invalid_argument ''KcpSession conv must not be 0''))"
  using kcp_server_zero_conv_throws [OF rtranclp.rtrancl_refl, where a = 0 and b = 0 and c = 0 and d = 0 and rest = "[]" and rs = "[]"]
  by (simp add: demo_server_def)

end
