(* ===== verification/KcpClient.thy ===== *)
theory KcpClient
  imports KcpServer Channel
begin

text \<open>
  \<^verbatim>\<open>dbase::net::KcpClient\<close> (\<^verbatim>\<open>code/src/net/kcp_client.cpp\<close>), used in the thread of its loop: one UDP socket with its channel and, while it lasts, one session.
  \<open>kl_objs\<close> keeps the sessions that were made, \<open>kl_session\<close> is the one that \<^verbatim>\<open>m_session\<close> points to, and \<open>kl_closed\<close> lists those for which the user's close callback was called.
\<close>

section \<open>State and operations\<close>

record 'k KcpClient =
  kl_name :: string
  kl_options :: kcp_options
  kl_connectionCb :: "kcp_call list option"
  kl_messageCb :: "(byte list \<Rightarrow> kcp_call list) option"
  kl_writeCompleteCb :: bool
  kl_closeCb :: bool
  kl_errorCb :: bool
  kl_edge :: bool
  kl_started :: bool
  kl_channel :: "Channel option"
  kl_session :: "nat option"
  kl_objs :: "'k KcpSession list"
  kl_clock :: int
  kl_closed :: "nat list"

definition mk_KcpClient :: "bool \<Rightarrow> string \<Rightarrow> kcp_options \<Rightarrow> int \<Rightarrow> 'k KcpClient outcome" where
  "mk_KcpClient loopIsNull name options clock =
     (if loopIsNull then Throw (Invalid_argument ''KcpClient loop is null'')
      else if ko_conv options = 0 then Throw (Invalid_argument ''KcpClient options.conv must not be 0'')
      else Ret \<lparr>kl_name = (if name = [] then ''KcpClient'' else name), kl_options = options, kl_connectionCb = None, kl_messageCb = None, kl_writeCompleteCb = False,
             kl_closeCb = False, kl_errorCb = False, kl_edge = False, kl_started = False, kl_channel = None, kl_session = None, kl_objs = [], kl_clock = clock, kl_closed = []\<rparr>)"

definition kclient_handleSessionClose :: "nat \<Rightarrow> 'k KcpClient \<Rightarrow> 'k KcpClient" where
  "kclient_handleSessionClose i c =
     c\<lparr>kl_session := (if kl_session c = Some i then None else kl_session c), kl_closed := (if kl_closeCb c then kl_closed c @ [i] else kl_closed c)\<rparr>"

text \<open>What a session does, and the call of its close callback.\<close>

definition kclient_after :: "nat \<Rightarrow> 'k KcpSession \<Rightarrow> 'k KcpClient \<Rightarrow> 'k KcpClient" where
  "kclient_after i s c =
     (let c' = c\<lparr>kl_objs := (kl_objs c)[i := s]\<rparr>
      in if kcp_closes s > kcp_closes (kl_objs c ! i) then kclient_handleSessionClose i c' else c')"

definition kclient_call :: "'k ikcp \<Rightarrow> nat \<Rightarrow> kcp_call \<Rightarrow> 'k KcpClient \<Rightarrow> 'k KcpClient" where
  "kclient_call K i call c = kclient_after i (kcp_run K call (kl_objs c ! i)) c"

text \<open>
  \<^verbatim>\<open>connect\<close>; \<open>socket\<close> is the message of the exception that making or connecting the socket throws, if it does. The connection callback runs before \<^verbatim>\<open>m_started\<close> is set.
\<close>

definition kclient_connect :: "'k ikcp \<Rightarrow> (kcp_options \<Rightarrow> string + 'k) \<Rightarrow> string option \<Rightarrow> ('k KcpClient, unit) cpp" where
  "kclient_connect K create socket c =
     (if kl_started c then (Ret (), c)
      else case socket of
        Some msg \<Rightarrow> (Throw (Runtime_error msg), c)
      | None \<Rightarrow>
          let c = c\<lparr>kl_channel := Some (enableReading (setEdgeTriggered (kl_edge c) mk_Channel))\<rparr>;
              cbs = \<lparr>cb_message = kl_messageCb c, cb_writeComplete = kl_writeCompleteCb c, cb_close = True, cb_error = kl_errorCb c\<rparr>
          in case mk_KcpSession K create False False (kl_options c) cbs (kl_clock c) 1 of
               Throw e \<Rightarrow> (Throw e, c)
             | Undef \<Rightarrow> (Undef, c)
             | Ret s \<Rightarrow>
                 let i = length (kl_objs c);
                     c = c\<lparr>kl_objs := kl_objs c @ [kcp_connectEstablished K s], kl_session := Some i\<rparr>;
                     c = (case kl_connectionCb c of None \<Rightarrow> c | Some calls \<Rightarrow> fold (kclient_call K i) calls c)
                 in (Ret (), c\<lparr>kl_started := True\<rparr>))"

definition kclient_disconnect :: "'k ikcp \<Rightarrow> 'k KcpClient \<Rightarrow> 'k KcpClient" where
  "kclient_disconnect K c = (case kl_session c of None \<Rightarrow> c | Some i \<Rightarrow> kclient_call K i Kc_shutdown c)"

definition kclient_stop :: "'k ikcp \<Rightarrow> 'k KcpClient \<Rightarrow> 'k KcpClient" where
  "kclient_stop K c =
     (if \<not> kl_started c then c
      else let s = kl_session c; c = c\<lparr>kl_session := None\<rparr>;
               c = (case s of
                      None \<Rightarrow> c
                    | Some i \<Rightarrow> let c = kclient_call K i Kc_forceClose c in kclient_after i (kcp_connectDestroyed (kl_objs c ! i)) c)
           in c\<lparr>kl_channel := None, kl_started := False\<rparr>)"

text \<open>\<^verbatim>\<open>handleRead\<close>: \<open>rs\<close> is what the calls of \<^verbatim>\<open>receive\<close> give, would-block after its end. \<open>None\<close> is a message callback that does not come to an end.\<close>

datatype udp_ret = Udp_packet "byte list" | Udp_error Error

fun kclient_read_loop :: "'k ikcp \<Rightarrow> nat \<Rightarrow> udp_ret list \<Rightarrow> 'k KcpClient \<Rightarrow> (unit outcome \<times> 'k KcpClient) option" where
  "kclient_read_loop K i [] c = Some (Ret (), c)"
| "kclient_read_loop K i (Udp_packet p # rs) c =
     Option.bind (inputPacketInLoop K p (kl_objs c ! i)) (\<lambda>s. kclient_read_loop K i rs (kclient_after i s c))"
| "kclient_read_loop K i (Udp_error e # rs) c =
     (if m_code e = EC_WouldBlock then Some (Ret (), c) else Some (Throw (Runtime_error (''KcpClient receive failed: '' @ m_message e)), c))"

definition kclient_handleRead :: "'k ikcp \<Rightarrow> udp_ret list \<Rightarrow> 'k KcpClient \<Rightarrow> (unit outcome \<times> 'k KcpClient) option" where
  "kclient_handleRead K rs c = (case kl_session c of None \<Rightarrow> Some (Ret (), c) | Some i \<Rightarrow> kclient_read_loop K i rs c)"

section \<open>Steps\<close>

text \<open>\<open>Cl_call\<close> is a call through a pointer to a session that the user kept, \<open>Cl_timer\<close> an expired timer of a session.\<close>

datatype kclient_action = Cl_connect "string option" | Cl_disconnect | Cl_stop | Cl_read "udp_ret list" | Cl_call nat kcp_call | Cl_timer nat nat | Cl_tick nat

fun kclient_exec :: "'k ikcp \<Rightarrow> (kcp_options \<Rightarrow> string + 'k) \<Rightarrow> kclient_action \<Rightarrow> 'k KcpClient \<Rightarrow> 'k KcpClient option" where
  "kclient_exec K create (Cl_connect socket) c = Some (snd (kclient_connect K create socket c))"
| "kclient_exec K create Cl_disconnect c = Some (kclient_disconnect K c)"
| "kclient_exec K create Cl_stop c = Some (kclient_stop K c)"
| "kclient_exec K create (Cl_read rs) c = (if kl_channel c = None then None else map_option snd (kclient_handleRead K rs c))"
| "kclient_exec K create (Cl_call i call) c = (if i < length (kl_objs c) then Some (kclient_call K i call c) else None)"
| "kclient_exec K create (Cl_timer i t) c =
     (if i < length (kl_objs c) then map_option (\<lambda>s. kclient_after i s c) (kcp_exec K (Kp_timer t) (kl_objs c ! i)) else None)"
| "kclient_exec K create (Cl_tick ms) c =
     Some (c\<lparr>kl_clock := kl_clock c + int ms, kl_objs := map (\<lambda>s. s\<lparr>ks_clock := ks_clock s + int ms\<rparr>) (kl_objs c)\<rparr>)"

definition kclient_stepping :: "'k ikcp \<Rightarrow> (kcp_options \<Rightarrow> string + 'k) \<Rightarrow> 'k KcpClient \<Rightarrow> 'k KcpClient \<Rightarrow> bool" where
  "kclient_stepping K create c c' \<longleftrightarrow> (\<exists>a. kclient_exec K create a c = Some c')"

section \<open>Sessions that tell when they close\<close>

text \<open>With a close callback a session does not become disconnected without calling it, unless it is destroyed.\<close>

definition ks_told :: "'k KcpSession \<Rightarrow> bool" where
  "ks_told s \<longleftrightarrow> cb_close (ks_callbacks s) \<and> (ks_state s = Ks_Disconnected \<longrightarrow> 0 < kcp_closes s)"

lemma told_frame:
  assumes "ks_told s" and "ks_callbacks s' = ks_callbacks s" and "ks_state s' = ks_state s" and "kcp_closes s' = kcp_closes s"
  shows "ks_told s'"
  using assms by (simp add: ks_told_def)

lemma closes_simps [simp]:
  "kcp_closes (s\<lparr>ks_kcp := k\<rparr>) = kcp_closes s" "kcp_closes (ks_touchActive s) = kcp_closes s" "kcp_closes (ks_refreshStats K s) = kcp_closes s"
  "kcp_closes (s\<lparr>ks_clock := t\<rparr>) = kcp_closes s" "kcp_closes (s\<lparr>ks_timers := ts\<rparr>) = kcp_closes s" "kcp_closes (s\<lparr>ks_state := st\<rparr>) = kcp_closes s"
  by (simp_all add: kcp_closes_def ks_touchActive_def ks_refreshStats_def)

lemma told_simps [intro]:
  "ks_told s \<Longrightarrow> ks_told (s\<lparr>ks_kcp := k\<rparr>)" "ks_told s \<Longrightarrow> ks_told (ks_touchActive s)" "ks_told s \<Longrightarrow> ks_told (ks_refreshStats K s)"
  "ks_told s \<Longrightarrow> ks_told (s\<lparr>ks_clock := t\<rparr>)" "ks_told s \<Longrightarrow> ks_told (s\<lparr>ks_timers := ts\<rparr>)"
  by (erule told_frame; simp add: ks_touchActive_def ks_refreshStats_def kcp_closes_def)+

lemma told_emit [intro]: "ks_told s \<Longrightarrow> ks_told (ks_emit on e s)"
  by (auto simp: ks_told_def ks_emit_def kcp_closes_def)

lemma told_error [intro]: "ks_told s \<Longrightarrow> ks_told (kcp_handleError code message s)"
  unfolding kcp_handleError_def by (rule told_emit)

lemma told_schedule [intro]: "ks_told s \<Longrightarrow> ks_told (scheduleUpdate K now s)"
  by (auto simp: ks_told_def scheduleUpdate_def cancelUpdateTimer_def kcp_closes_def Let_def)

lemma told_close [intro]: "ks_told s \<Longrightarrow> ks_told (kcp_handleClose s)"
  by (auto simp: ks_told_def kcp_handleClose_def cancelUpdateTimer_def ks_emit_def kcp_closes_def)

lemma told_run [intro]: "ks_told s \<Longrightarrow> ks_told (kcp_run K c s)"
proof (cases c)
  case (Kc_send data)
  assume s: "ks_told s"
  obtain r kcp where send: "ikcp_send K data (ks_kcp s) = (r, kcp)" by (cases "ikcp_send K data (ks_kcp s)")
  have "ks_told (scheduleUpdate K now (ks_refreshStats K ((ks_touchActive (s\<lparr>ks_kcp := kcp\<rparr>))\<lparr>ks_kcp := k\<rparr>)))" for now k using s by blast
  moreover have "ks_told (kcp_handleError code m (s\<lparr>ks_kcp := kcp\<rparr>))" "ks_told (kcp_handleError code m s)" for code m using s by blast+
  ultimately show ?thesis using s Kc_send send by (simp add: kcp_sendInLoop_def Let_def)
next
  case Kc_shutdown
  assume s: "ks_told s"
  then have "ks_told (s\<lparr>ks_state := Ks_Disconnecting\<rparr>)" by (simp add: ks_told_def)
  then show ?thesis using s Kc_shutdown by (simp add: Let_def told_close)
qed auto

lemma told_message [intro]:
  assumes "ks_told s"
  shows "ks_told (on_message K m s)"
proof -
  have "ks_told (fold (kcp_run K) cs t)" if "ks_told t" for cs t using that by (induction cs arbitrary: t) auto
  then show ?thesis using assms by (auto simp: on_message_def split: option.split)
qed

lemma told_drain:
  assumes "drainRecvQueue K s = Some s'" and "ks_told s"
  shows "ks_told s'"
  using assms
proof (induction rule: drainRecvQueue.raw_induct [rotated, consumes 1, case_names 1])
  case (1 drain K s s')
  note t = \<open>ks_told s\<close>
  obtain n payload kcp where recv: "ikcp_recv K (ikcp_peeksize K (ks_kcp s)) (ks_kcp s) = (n, payload, kcp)" by (metis prod_cases3)
  have "ks_told (drain_end K (s\<lparr>ks_kcp := k\<rparr>))" "ks_told (drain_end K s)" for k using t by (auto simp: drain_end_def)
  moreover have "ks_told (kcp_handleClose (kcp_handleError c m s))" for c m using t by blast
  moreover have "ks_told (on_message K m (ks_touchActive (s\<lparr>ks_kcp := k\<rparr>)))" for m k using t by blast
  ultimately show ?case using 1(1,2) by (auto simp: Let_def recv split: if_splits)
qed

lemma told_closing [intro]: "ks_told s \<Longrightarrow> ks_told (closing_done K s)"
  by (auto simp: closing_done_def)

lemma told_exec:
  assumes "kcp_exec K st s = Some s'" and "ks_told s" and "st \<noteq> Kp_destroy"
  shows "ks_told s'"
proof (cases st)
  case (Kp_input packet)
  obtain r kcp where input: "ikcp_input K packet (ks_kcp s) = (r, kcp)" by (cases "ikcp_input K packet (ks_kcp s)")
  have "ks_told (ks_touchActive (s\<lparr>ks_kcp := kcp\<rparr>))" "ks_told (kcp_handleError c m (s\<lparr>ks_kcp := kcp\<rparr>))" for c m using assms(2) by blast+
  moreover from this(1) have "ks_told t" if "drainRecvQueue K (ks_touchActive (s\<lparr>ks_kcp := kcp\<rparr>)) = Some t" for t using told_drain that by blast
  moreover have "ks_told (closing_done K (scheduleUpdate K now (ks_refreshStats K (t\<lparr>ks_kcp := k\<rparr>))))" if "ks_told t" for t now k using that by blast
  ultimately show ?thesis using assms(1,2) Kp_input by (auto simp: inputPacketInLoop_def Let_def input split: if_splits option.splits)
next
  case (Kp_timer i)
  define u where "u = s\<lparr>ks_timers := filter (\<lambda>(j, _). j \<noteq> i) (ks_timers s)\<rparr>"
  have u: "ks_told u" unfolding u_def using assms(2) by blast
  let ?u = "ks_refreshStats K (u\<lparr>ks_kcp := ikcp_update K (ks_nowMs u) (ks_kcp u)\<rparr>)"
  have "ks_told ?u" using u by blast
  then have "ks_told (scheduleUpdate K now t)" if "drainRecvQueue K ?u = Some t" for t now using that told_drain by blast
  moreover have "ks_told (closing_done K t)" "ks_told (kcp_handleClose (kcp_handleError c m t))" if "ks_told t" for t c m using that by blast+
  ultimately have "ks_told s'" if "updateInLoop K u = Some s'" using that u by (auto simp: updateInLoop_def Let_def split: if_splits option.splits)
  then show ?thesis using assms(1) Kp_timer by (auto simp: u_def split: if_splits)
qed (use assms in auto)

section \<open>The invariant\<close>

abbreviation live :: "'k KcpSession \<Rightarrow> bool" where
  "live s \<equiv> ks_state s \<noteq> Ks_Disconnected"

definition kclient_sessions_ok :: "'k KcpClient \<Rightarrow> bool" where
  "kclient_sessions_ok c \<longleftrightarrow>
     (\<forall>i < length (kl_objs c). ks_ok True (kl_objs c ! i) \<and> ks_told (kl_objs c ! i) \<and> (live (kl_objs c ! i) \<longleftrightarrow> kl_session c = Some i)
        \<and> count_list (kl_closed c) i = (if kl_closeCb c then kcp_closes (kl_objs c ! i) else 0))
     \<and> (\<forall>i. kl_session c = Some i \<longrightarrow> i < length (kl_objs c)) \<and> (\<forall>i \<in> set (kl_closed c). i < length (kl_objs c))"

definition kclient_ok :: "'k KcpClient \<Rightarrow> bool" where
  "kclient_ok c \<longleftrightarrow> kclient_sessions_ok c \<and> (\<not> kl_started c \<longrightarrow> kl_session c = None)
     \<and> (kl_started c \<longrightarrow> (\<exists>ch. kl_channel c = Some ch \<and> isReading ch))"

lemma closes_exact: "ks_ok True s \<Longrightarrow> ks_told s \<Longrightarrow> kcp_closes s = (if live s then 0 else 1)"
  by (fastforce simp: ks_ok_def ks_told_def kcp_closes_def simp flip: length_greater_0_conv split: if_splits)

lemma kclient_after_same:
  "length (kl_objs (kclient_after i s c)) = length (kl_objs c)" "kl_started (kclient_after i s c) = kl_started c" "kl_channel (kclient_after i s c) = kl_channel c"
  "kl_session c = None \<Longrightarrow> kl_session (kclient_after i s c) = None"
  by (simp_all add: kclient_after_def kclient_handleSessionClose_def Let_def)

lemma kclient_after_ok:
  assumes ok: "kclient_sessions_ok c" and i: "i < length (kl_objs c)" and s: "ks_ok True s" "ks_told s" "live s \<Longrightarrow> live (kl_objs c ! i)"
  shows "kclient_sessions_ok (kclient_after i s c)"
proof -
  let ?o = "kl_objs c ! i"
  have o: "ks_ok True ?o" "ks_told ?o" "live ?o \<longleftrightarrow> kl_session c = Some i" using ok i by (auto simp: kclient_sessions_ok_def)
  note n = closes_exact [OF s(1,2)] closes_exact [OF o(1,2)]
  show ?thesis
  proof (cases "live ?o \<and> \<not> live s")
    case True
    then show ?thesis using ok i s n o by (auto simp: kclient_sessions_ok_def kclient_after_def kclient_handleSessionClose_def Let_def nth_list_update)
  next
    case False
    then have "kcp_closes s = kcp_closes ?o" "live s = live ?o" using n s(3) by auto
    then show ?thesis using ok i s by (auto simp: kclient_sessions_ok_def kclient_after_def Let_def nth_list_update)
  qed
qed

lemma exec_stays_closed:
  assumes "kcp_exec K st s = Some s'" and "ks_ok True s" and "live s'"
  shows "live s"
  using disconnected_idle [OF assms(1)] assms(2,3) by (auto simp: ks_ok_def)

lemma kclient_exec_session:
  assumes "kclient_sessions_ok c" and "i < length (kl_objs c)" and "kcp_exec K st (kl_objs c ! i) = Some s" and "st \<noteq> Kp_destroy"
  shows "kclient_sessions_ok (kclient_after i s c)"
proof -
  have o: "ks_ok True (kl_objs c ! i)" "ks_told (kl_objs c ! i)" using assms(1,2) by (auto simp: kclient_sessions_ok_def)
  have "ks_ok True s" using ks_ok_step [OF _ o(1)] assms(3) by (auto simp: kcp_stepping_def)
  then show ?thesis using kclient_after_ok [OF assms(1,2)] told_exec [OF assms(3) o(2) assms(4)] exec_stays_closed [OF assms(3) o(1)] by blast
qed

lemma kclient_call_ok: "kclient_sessions_ok c \<Longrightarrow> i < length (kl_objs c) \<Longrightarrow> kclient_sessions_ok (kclient_call K i call c)"
  unfolding kclient_call_def by (rule kclient_exec_session [where st = "Kp_call call" and K = K]) auto

lemma kclient_call_same [simp]:
  "length (kl_objs (kclient_call K i call c)) = length (kl_objs c)" "kl_started (kclient_call K i call c) = kl_started c" "kl_channel (kclient_call K i call c) = kl_channel c"
  "kl_session c = None \<Longrightarrow> kl_session (kclient_call K i call c) = None"
  by (simp_all add: kclient_call_def kclient_after_same)

lemma kclient_calls_ok:
  assumes "kclient_sessions_ok c" and "i < length (kl_objs c)"
  shows "kclient_sessions_ok (fold (kclient_call K i) calls c) \<and> kl_channel (fold (kclient_call K i) calls c) = kl_channel c"
  using assms by (induction calls arbitrary: c) (simp_all add: kclient_call_ok)

lemma kclient_made_ok:
  assumes "mk_KcpSession K create False False options cbs clock 1 = Ret s" and "cb_close cbs"
  shows "ks_ok True (kcp_connectEstablished K s)" "ks_told (kcp_connectEstablished K s)" "live (kcp_connectEstablished K s)" "kcp_closes (kcp_connectEstablished K s) = 0"
proof -
  show ok: "ks_ok True (kcp_connectEstablished K s)" by (rule mk_KcpSession_ok [OF assms(1)]) simp
  have "ks_callbacks s = cbs" using assms(1) by (auto simp: mk_KcpSession_def ks_refreshStats_def ks_touchActive_def split: if_splits sum.splits)
  moreover show live: "live (kcp_connectEstablished K s)" by (simp add: kcp_connectEstablished_def scheduleUpdate_def cancelUpdateTimer_def Let_def)
  ultimately show told: "ks_told (kcp_connectEstablished K s)"
    using assms(2) by (simp add: ks_told_def kcp_connectEstablished_def scheduleUpdate_def cancelUpdateTimer_def Let_def)
  then show "kcp_closes (kcp_connectEstablished K s) = 0" using closes_exact [OF ok] live by simp
qed

lemma kclient_connect_ok:
  assumes "kclient_ok c"
  shows "kclient_ok (snd (kclient_connect K create socket c))"
proof (cases "kl_started c \<or> socket \<noteq> None")
  case True
  then show ?thesis using assms by (auto simp: kclient_connect_def)
next
  case False
  define ch where "ch = enableReading (setEdgeTriggered (kl_edge c) mk_Channel)"
  define c1 where "c1 = c\<lparr>kl_channel := Some ch\<rparr>"
  define cbs where "cbs = \<lparr>cb_message = kl_messageCb c, cb_writeComplete = kl_writeCompleteCb c, cb_close = True, cb_error = kl_errorCb c\<rparr>"
  have c1: "kclient_sessions_ok c1" "kl_session c1 = None" "\<not> kl_started c1" using assms False by (auto simp: kclient_ok_def kclient_sessions_ok_def c1_def)
  have ch: "isReading ch" by (simp add: ch_def isReading_bit enableReading_def kReadEvent_def bit_or_iff bit_1_iff updateChannel_def)
  show ?thesis
  proof (cases "mk_KcpSession K create False False (kl_options c) cbs (kl_clock c) 1")
    case (Ret s)
    let ?e = "kcp_connectEstablished K s" let ?i = "length (kl_objs c)"
    note e = kclient_made_ok [OF Ret]
    define c2 where "c2 = c1\<lparr>kl_objs := kl_objs c @ [?e], kl_session := Some ?i\<rparr>"
    have "?i \<notin> set (kl_closed c)" using c1(1) by (auto simp: kclient_sessions_ok_def c1_def)
    then have "kclient_sessions_ok c2"
      using c1(1,2) e by (auto simp: kclient_sessions_ok_def c2_def c1_def cbs_def nth_append less_Suc_eq)
    then have "kclient_sessions_ok (case kl_connectionCb c of None \<Rightarrow> c2 | Some calls \<Rightarrow> fold (kclient_call K ?i) calls c2)"
      "kl_channel (case kl_connectionCb c of None \<Rightarrow> c2 | Some calls \<Rightarrow> fold (kclient_call K ?i) calls c2) = Some ch"
      using kclient_calls_ok [of c2 ?i K] by (auto simp: c2_def c1_def split: option.split)
    moreover have "snd (kclient_connect K create socket c) = (case kl_connectionCb c of None \<Rightarrow> c2 | Some calls \<Rightarrow> fold (kclient_call K ?i) calls c2)\<lparr>kl_started := True\<rparr>"
      using False Ret by (simp add: kclient_connect_def Let_def c2_def c1_def ch_def cbs_def cong: option.case_cong)
    ultimately show ?thesis using ch by (simp add: kclient_ok_def kclient_sessions_ok_def)
  qed (use False c1 in \<open>simp_all add: kclient_connect_def Let_def cbs_def c1_def ch_def kclient_ok_def\<close>)
qed

lemma kclient_stop_ok:
  assumes "kclient_ok c"
  shows "kclient_ok (kclient_stop K c)"
proof (cases "kl_started c")
  case True
  show ?thesis
  proof (cases "kl_session c")
    case None
    then show ?thesis using assms True by (simp add: kclient_stop_def kclient_ok_def kclient_sessions_ok_def)
  next
    case (Some i)
    have i: "i < length (kl_objs c)" "ks_ok True (kl_objs c ! i)" "ks_told (kl_objs c ! i)" "live (kl_objs c ! i)"
      using assms Some by (auto simp: kclient_ok_def kclient_sessions_ok_def)
    define s where "s = kcp_handleClose (kl_objs c ! i)"
    have s: "\<not> live s" "kcp_closes s > kcp_closes (kl_objs c ! i)"
      using i by (auto simp: s_def kcp_handleClose_def ks_emit_def cancelUpdateTimer_def ks_told_def kcp_closes_def)
    have eq: "kclient_call K i Kc_forceClose (c\<lparr>kl_session := None\<rparr>) = kclient_call K i Kc_forceClose c"
      using s Some by (simp add: kclient_call_def kclient_after_def kclient_handleSessionClose_def Let_def s_def [symmetric])
    have at: "kl_objs (kclient_call K i Kc_forceClose c) ! i = s" using i by (simp add: kclient_call_def kclient_after_def kclient_handleSessionClose_def Let_def s_def)
    have "kcp_connectDestroyed s = s" using s(1) by (simp add: kcp_connectDestroyed_def)
    moreover have "kclient_after i s d = d" if "kl_objs d ! i = s" for d using that by (auto simp: kclient_after_def Let_def)
    ultimately have "kclient_stop K c = (kclient_call K i Kc_forceClose c)\<lparr>kl_channel := None, kl_started := False\<rparr>"
      using True Some at by (simp add: kclient_stop_def Let_def eq)
    moreover have "kclient_sessions_ok (kclient_call K i Kc_forceClose c)" using kclient_call_ok i(1) assms by (auto simp: kclient_ok_def)
    moreover have "kl_session (kclient_call K i Kc_forceClose c) = None"
      using s Some by (simp add: kclient_call_def kclient_after_def kclient_handleSessionClose_def Let_def s_def [symmetric])
    ultimately show ?thesis by (simp add: kclient_ok_def kclient_sessions_ok_def)
  qed
qed (use assms in \<open>simp add: kclient_stop_def\<close>)

lemma kclient_frame_ok:
  assumes "kclient_ok c" and "kclient_sessions_ok c'" and "kl_started c' = kl_started c" and "kl_channel c' = kl_channel c"
    and "kl_session c = None \<Longrightarrow> kl_session c' = None"
  shows "kclient_ok c'"
  using assms by (auto simp: kclient_ok_def)

lemma kclient_read_ok:
  assumes "kclient_read_loop K i rs c = Some (r, c')" and "kclient_ok c" and "i < length (kl_objs c)"
  shows "kclient_ok c'"
  using assms
proof (induction rs arbitrary: c)
  case (Cons x rs)
  show ?case
  proof (cases x)
    case (Udp_packet p)
    then obtain s where s: "kcp_exec K (Kp_input p) (kl_objs c ! i) = Some s" "kclient_read_loop K i rs (kclient_after i s c) = Some (r, c')"
      using Cons.prems(1) by (auto split: bind_splits)
    have "kclient_sessions_ok (kclient_after i s c)" using kclient_exec_session [OF _ Cons.prems(3) s(1)] Cons.prems(2) by (simp add: kclient_ok_def)
    then have "kclient_ok (kclient_after i s c)" by (intro kclient_frame_ok [OF Cons.prems(2)]) (simp_all add: kclient_after_same)
    then show ?thesis using Cons.IH [OF s(2)] Cons.prems(3) by (simp add: kclient_after_same)
  qed (use Cons.prems in \<open>auto split: if_splits\<close>)
qed simp

lemma kclient_step_ok:
  assumes "kclient_stepping K create c c'" and "kclient_ok c"
  shows "kclient_ok c'"
proof -
  from assms(1) obtain a where a: "kclient_exec K create a c = Some c'" by (auto simp: kclient_stepping_def)
  have ses: "kclient_sessions_ok c" using assms(2) by (simp add: kclient_ok_def)
  have call: "kclient_ok (kclient_call K i call c)" if "i < length (kl_objs c)" for i call
    using kclient_call_ok [OF ses that] by (intro kclient_frame_ok [OF assms(2)]) simp_all
  show ?thesis
  proof (cases a)
    case (Cl_connect socket)
    then show ?thesis using a kclient_connect_ok [OF assms(2)] by auto
  next
    case Cl_disconnect
    have "i < length (kl_objs c)" if "kl_session c = Some i" for i using that ses by (simp add: kclient_sessions_ok_def)
    then show ?thesis using a Cl_disconnect call assms(2) by (auto simp: kclient_disconnect_def split: option.splits)
  next
    case Cl_stop
    then show ?thesis using a kclient_stop_ok [OF assms(2)] by auto
  next
    case (Cl_read rs)
    have "i < length (kl_objs c)" if "kl_session c = Some i" for i using that ses by (simp add: kclient_sessions_ok_def)
    then show ?thesis using a Cl_read kclient_read_ok assms(2) by (auto simp: kclient_handleRead_def split: if_splits option.splits)
  next
    case (Cl_call i call)
    then show ?thesis using a call by (auto split: if_splits)
  next
    case (Cl_timer i t)
    then obtain s where s: "i < length (kl_objs c)" "kcp_exec K (Kp_timer t) (kl_objs c ! i) = Some s" "c' = kclient_after i s c"
      using a by (auto simp del: kcp_exec.simps split: if_splits)
    have "kclient_sessions_ok c'" unfolding s(3) by (rule kclient_exec_session [OF ses s(1,2)]) simp
    then show ?thesis by (rule kclient_frame_ok [OF assms(2)]) (simp_all add: s(3) kclient_after_same)
  next
    case (Cl_tick ms)
    have "ks_ok True (s\<lparr>ks_clock := t\<rparr>) = ks_ok True s" "ks_told (s\<lparr>ks_clock := t\<rparr>) = ks_told s" for s :: "'a KcpSession" and t
      by (simp_all add: ks_ok_def ks_told_def)
    then have "kclient_sessions_ok c'" using a Cl_tick ses by (auto simp: kclient_sessions_ok_def)
    then show ?thesis using a Cl_tick by (intro kclient_frame_ok [OF assms(2)]) auto
  qed
qed

lemma kclient_cb_same:
  "kl_closeCb (kclient_after i s c) = kl_closeCb c" "kl_closeCb (kclient_call K i call c) = kl_closeCb c" "kl_closeCb (fold (kclient_call K i) calls c) = kl_closeCb c"
proof -
  show after: "kl_closeCb (kclient_after i s c) = kl_closeCb c" for s and c :: "'a KcpClient" by (simp add: kclient_after_def kclient_handleSessionClose_def Let_def)
  then show call: "kl_closeCb (kclient_call K i call c) = kl_closeCb c" for call c by (simp add: kclient_call_def)
  show "kl_closeCb (fold (kclient_call K i) calls c) = kl_closeCb c" by (induction calls arbitrary: c) (simp_all add: call)
qed

lemma kclient_read_cb: "kclient_read_loop K i rs c = Some (r, c') \<Longrightarrow> kl_closeCb c' = kl_closeCb c"
proof (induction rs arbitrary: c)
  case (Cons x rs)
  then show ?case by (cases x) (auto simp: kclient_cb_same split: bind_splits if_splits)
qed simp

lemma kclient_step_cb:
  assumes "kclient_exec K create a c = Some c'"
  shows "kl_closeCb c' = kl_closeCb c"
proof (cases a)
  case (Cl_connect socket)
  then have "c' = snd (kclient_connect K create socket c)" using assms by simp
  then show ?thesis by (simp add: kclient_connect_def Let_def kclient_cb_same split: outcome.split option.split)
qed (use assms in \<open>auto simp: kclient_disconnect_def kclient_stop_def kclient_handleRead_def kclient_cb_same Let_def simp del: kcp_exec.simps
    split: option.splits if_splits dest: kclient_read_cb\<close>)

interpretation kcp_client: step_machine "kclient_stepping K create" "\<lambda>c. kclient_ok c \<and> kl_closeCb c" for K create
  by unfold_locales (metis kclient_step_ok kclient_step_cb kclient_stepping_def)

lemma mk_KcpClient_ok: "mk_KcpClient loopIsNull name options clock = Ret c \<Longrightarrow> kclient_ok (c\<lparr>kl_connectionCb := cc, kl_messageCb := mc, kl_closeCb := close\<rparr>)"
  by (auto simp: mk_KcpClient_def kclient_ok_def kclient_sessions_ok_def split: if_splits)

section \<open>Properties\<close>

text \<open>
  C16: Invariant. In every sequence of connects, disconnects, stops, datagrams, expired timers and calls through sessions the user kept, with callbacks that send and close and a socket or a
  library that may fail: the client has at most one session that is not disconnected, the one it points to; every other session it ever made is disconnected, holds no timer, and its close
  callback was called exactly once; the session it points to has one timer armed and was not reported closed.
\<close>

theorem kcp_client_one_session:
  assumes "mk_KcpClient loopIsNull name options clock = Ret c0"
    and "(kclient_stepping K create)\<^sup>*\<^sup>* (c0\<lparr>kl_connectionCb := cc, kl_messageCb := mc, kl_closeCb := True\<rparr>) c" and "i < length (kl_objs c)"
  shows "(ks_state (kl_objs c ! i) \<noteq> Ks_Disconnected \<longleftrightarrow> kl_session c = Some i)
    \<and> length (ks_timers (kl_objs c ! i)) = of_bool (kl_session c = Some i)
    \<and> count_list (kl_closed c) i = of_bool (kl_session c \<noteq> Some i)
    \<and> (kl_session c = Some i \<longrightarrow> kl_started c)"
proof -
  have ok: "kclient_ok c" "kl_closeCb c" using kcp_client.reach_inv [OF assms(2)] mk_KcpClient_ok [OF assms(1)] by auto
  then have o: "ks_ok True (kl_objs c ! i)" "ks_told (kl_objs c ! i)" "live (kl_objs c ! i) \<longleftrightarrow> kl_session c = Some i"
    "count_list (kl_closed c) i = kcp_closes (kl_objs c ! i)"
    using assms(3) by (auto simp: kclient_ok_def kclient_sessions_ok_def)
  show ?thesis using ok o closes_exact [OF o(1,2)] by (auto simp: kclient_ok_def ks_ok_def split: if_splits)
qed

theorem kcp_client_one_session_witness:
  "\<exists>c0 c. mk_KcpClient False ''c'' (plain_options 10) 0 = Ret c0
    \<and> (kclient_stepping plain_kcp (\<lambda>_. Inr []))\<^sup>*\<^sup>* (c0\<lparr>kl_connectionCb := Some [Kc_send [1]], kl_messageCb := Some (\<lambda>_. [Kc_forceClose]), kl_closeCb := True\<rparr>) c
    \<and> length (kl_objs c) = 1 \<and> ks_messages (kl_objs c ! 0) = [[5, 6]] \<and> kl_session c = None \<and> ks_timers (kl_objs c ! 0) = [] \<and> count_list (kl_closed c) 0 = 1"
proof -
  obtain c0 :: "byte list list KcpClient" where c0: "mk_KcpClient False ''c'' (plain_options 10) 0 = Ret c0" by (simp add: mk_KcpClient_def plain_options_def)
  let ?c0 = "c0\<lparr>kl_connectionCb := Some [Kc_send [1]], kl_messageCb := Some (\<lambda>_. [Kc_forceClose]), kl_closeCb := True\<rparr>"
  define c1 where "c1 = snd (kclient_connect plain_kcp (\<lambda>_. Inr []) None ?c0)"
  have c0_eq: "c0 = \<lparr>kl_name = ''c'', kl_options = plain_options 10, kl_connectionCb = None, kl_messageCb = None, kl_writeCompleteCb = False,
             kl_closeCb = False, kl_errorCb = False, kl_edge = False, kl_started = False, kl_channel = None, kl_session = None, kl_objs = [], kl_clock = 0, kl_closed = []\<rparr>"
    using c0 by (simp add: mk_KcpClient_def plain_options_def)
  obtain c where c: "kclient_exec plain_kcp (\<lambda>_. Inr []) (Cl_read [Udp_packet [5, 6]]) c1 = Some c" "length (kl_objs c) = 1" "ks_messages (kl_objs c ! 0) = [[5, 6]]" "kl_session c = None"
    unfolding c1_def c0_eq
    by (simp add: kclient_connect_def mk_KcpSession_def kclient_call_def kclient_after_def kclient_handleRead_def kclient_handleSessionClose_def kcp_sendInLoop_def kcp_eval kcp_closes_def ks_messages_def)
  have "kclient_stepping plain_kcp (\<lambda>_. Inr []) ?c0 c1" unfolding kclient_stepping_def c1_def by (rule exI [of _ "Cl_connect None"]) simp
  moreover have "kclient_stepping plain_kcp (\<lambda>_. Inr []) c1 c" unfolding kclient_stepping_def using c(1) by blast
  ultimately have r: "(kclient_stepping plain_kcp (\<lambda>_. Inr []))\<^sup>*\<^sup>* ?c0 c" by (meson converse_rtranclp_into_rtranclp r_into_rtranclp)
  then show ?thesis using kcp_client_one_session [OF c0 r, of 0] c by (intro exI [of _ c0] exI [of _ c]) (simp add: c0)
qed

text \<open>
  A client whose session has closed by itself is still started: \<^verbatim>\<open>connect\<close> does nothing until \<^verbatim>\<open>stop\<close> is called, and the channel goes on asking for input that
  \<^verbatim>\<open>handleRead\<close> does not read, so that a datagram that arrives then keeps a level-triggered socket readable.
\<close>

theorem kcp_client_closed_stays:
  assumes "mk_KcpClient loopIsNull name options clock = Ret c0"
    and "(kclient_stepping K create)\<^sup>*\<^sup>* (c0\<lparr>kl_connectionCb := cc, kl_messageCb := mc, kl_closeCb := True\<rparr>) c" and "kl_started c" and "kl_session c = None"
  shows "kclient_connect K create socket c = (Ret (), c) \<and> kclient_handleRead K rs c = Some (Ret (), c) \<and> (\<exists>ch. kl_channel c = Some ch \<and> isReading ch)"
proof -
  have "kclient_ok c" using kcp_client.reach_inv [OF assms(2)] mk_KcpClient_ok [OF assms(1)] by auto
  then show ?thesis using assms(3,4) by (simp add: kclient_ok_def kclient_connect_def kclient_handleRead_def)
qed

text \<open>
  When the session cannot be made, \<^verbatim>\<open>connect\<close> throws with the channel already reading and \<^verbatim>\<open>m_started\<close> not yet set: \<^verbatim>\<open>stop\<close>, and with it the destructor, leaves the channel in the
  poller.
\<close>

theorem kcp_client_failed_connect:
  assumes "\<not> kl_started c" and "ko_conv (kl_options c) \<noteq> 0" and "create (kl_options c) = Inl msg" and "c' = snd (kclient_connect K create None c)"
  shows "fst (kclient_connect K create None c) = Throw (Runtime_error msg) \<and> kclient_stop K c' = c' \<and> (\<exists>ch. kl_channel c' = Some ch \<and> isReading ch)"
proof -
  have "isReading (enableReading ch)" for ch by (simp add: isReading_bit enableReading_def kReadEvent_def bit_or_iff bit_1_iff updateChannel_def)
  then show ?thesis using assms by (simp add: kclient_connect_def kclient_stop_def mk_KcpSession_def Let_def)
qed

text \<open>An error of the socket other than would-block, such as a refused connection, is thrown out of the handler.\<close>

theorem kcp_client_receive_throws:
  assumes "kl_session c = Some i" and "m_code e \<noteq> EC_WouldBlock"
  shows "kclient_handleRead K (Udp_error e # rs) c = Some (Throw (Runtime_error (''KcpClient receive failed: '' @ m_message e)), c)"
  using assms by (simp add: kclient_handleRead_def)

end
