(* ===== verification/TcpServer.thy ===== *)
theory TcpServer
  imports TcpStream LoopPool EventLoop
begin

text \<open>
  \<^verbatim>\<open>dbase::net::TcpServer\<close> and \<^verbatim>\<open>Acceptor\<close> (\<^verbatim>\<open>code/src/net/tcp_server.cpp\<close>, \<^verbatim>\<open>code/src/net/acceptor.cpp\<close>): the base loop accepts
  sockets, makes a \<^verbatim>\<open>TcpConnection\<close> for each and hands it to a loop of the pool; a connection that closes is taken out of the table in the base loop and then
  destroyed in its own. The connections are those of \<open>TcpConnection\<close>, with any callbacks \<open>user\<close>; \<open>heartbeat\<close> and \<open>idle\<close> are the server's own two callbacks. A loop
  is a queue of functors. \<open>co_established\<close>, \<open>co_closed\<close> and \<open>co_destroyed\<close> record for a connection whether \<^verbatim>\<open>connectEstablished\<close> has run, how often its close callback was
  called and how often \<^verbatim>\<open>connectDestroyed\<close> has run. Connection numbers do not wrap.
\<close>

section \<open>State\<close>

datatype ts_functor = Tf_established nat | Tf_remove nat | Tf_destroyed nat | Tf_heartbeat nat | Tf_idle nat | Tf_forceClose nat

record conn_obj =
  co_conn :: TcpConnection
  co_name :: string
  co_loop :: nat
  co_established :: bool
  co_closed :: nat
  co_destroyed :: nat

record TcpServer =
  ts_name :: string
  ts_pool :: EventLoopThreadPool
  ts_nextConnId :: int
  ts_hasCb :: "cb_kind \<Rightarrow> bool"
  ts_codec :: "LengthFieldCodec option"
  ts_maxOut :: nat
  ts_policy :: OutputOverflowPolicy
  ts_autoFlow :: bool
  ts_pauseHigh :: nat
  ts_resumeLow :: nat
  ts_edge :: bool
  ts_idleTimeout :: int
  ts_heartbeatInterval :: int
  ts_hasHeartbeatCb :: bool
  ts_hasIdleCb :: bool
  ts_started :: bool
  ts_threadCount :: nat
  ts_hasThreadInitCb :: bool
  ts_acceptorEdge :: bool
  ts_acceptChannel :: "Channel option"
  ts_idleCheckTimer :: "int option"
  ts_inits :: "nat list"
  ts_listening :: bool
  ts_connections :: "(string \<times> nat) list"
  ts_conns :: "conn_obj list"
  ts_queue :: "nat \<Rightarrow> ts_functor list"
  ts_now :: int

definition ts_base :: "TcpServer \<Rightarrow> nat" where
  "ts_base v = lp_baseLoop (ts_pool v)"

section \<open>Settings\<close>

definition ts_enableAutoReadFlowControl :: "nat \<Rightarrow> nat \<Rightarrow> TcpServer \<Rightarrow> TcpServer" where
  "ts_enableAutoReadFlowControl high low v =
     (if high = 0 then v\<lparr>ts_autoFlow := False, ts_pauseHigh := 0, ts_resumeLow := 0\<rparr>
      else v\<lparr>ts_autoFlow := True, ts_pauseHigh := high, ts_resumeLow := (if low \<ge> high then high div 2 else low)\<rparr>)"

definition ts_baseInterval :: "TcpServer \<Rightarrow> int" where
  "ts_baseInterval v =
     (if ts_idleTimeout v > 0 \<and> ts_heartbeatInterval v > 0 then min (max 1000 (ts_idleTimeout v div 2)) (ts_heartbeatInterval v)
      else if ts_idleTimeout v > 0 then max 1000 (ts_idleTimeout v div 2)
      else if ts_heartbeatInterval v > 0 then ts_heartbeatInterval v
      else 0)"

definition startIdleCheck :: "TcpServer \<Rightarrow> TcpServer" where
  "startIdleCheck v = (if ts_baseInterval v \<le> 0 then v else v\<lparr>ts_idleCheckTimer := Some (ts_baseInterval v)\<rparr>)"

text \<open>
  The setters, as one function. The codec, the number of threads and the callback that starts a thread cannot be changed after \<^verbatim>\<open>start\<close>.
\<close>

datatype ts_setting =
  Set_callback cb_kind bool
| Set_heartbeatCb bool
| Set_idleCb bool
| Set_codec "LengthFieldCodec option"
| Set_threadCount nat
| Set_threadInitCb bool
| Set_maxOut nat
| Set_policy OutputOverflowPolicy
| Set_autoFlow nat nat
| Set_noAutoFlow
| Set_edge bool
| Set_acceptorEdge bool
| Set_idleTimeout int
| Set_heartbeatInterval int

definition ts_before_start :: "string \<Rightarrow> (TcpServer \<Rightarrow> TcpServer) \<Rightarrow> (TcpServer, unit) cpp" where
  "ts_before_start what f =
     bind (gets ts_started) (\<lambda>started. if started then throw (Logic_error (''TcpServer::'' @ what @ '' after start'')) else modify f)"

fun ts_set :: "ts_setting \<Rightarrow> (TcpServer, unit) cpp" where
  "ts_set (Set_callback k on) = modify (\<lambda>v. v\<lparr>ts_hasCb := (ts_hasCb v)(k := on)\<rparr>)"
| "ts_set (Set_heartbeatCb on) = modify (\<lambda>v. v\<lparr>ts_hasHeartbeatCb := on\<rparr>)"
| "ts_set (Set_idleCb on) = modify (\<lambda>v. v\<lparr>ts_hasIdleCb := on\<rparr>)"
| "ts_set (Set_codec cd) = ts_before_start ''setLengthFieldCodec'' (\<lambda>v. v\<lparr>ts_codec := cd\<rparr>)"
| "ts_set (Set_threadCount n) = ts_before_start ''setThreadCount'' (\<lambda>v. v\<lparr>ts_threadCount := n\<rparr>)"
| "ts_set (Set_threadInitCb on) = ts_before_start ''setThreadInitCallback'' (\<lambda>v. v\<lparr>ts_hasThreadInitCb := on\<rparr>)"
| "ts_set (Set_maxOut n) = modify (\<lambda>v. v\<lparr>ts_maxOut := n\<rparr>)"
| "ts_set (Set_policy p) = modify (\<lambda>v. v\<lparr>ts_policy := p\<rparr>)"
| "ts_set (Set_autoFlow high low) = modify (ts_enableAutoReadFlowControl high low)"
| "ts_set Set_noAutoFlow = modify (\<lambda>v. v\<lparr>ts_autoFlow := False, ts_pauseHigh := 0, ts_resumeLow := 0\<rparr>)"
| "ts_set (Set_edge on) = modify (\<lambda>v. v\<lparr>ts_edge := on\<rparr>)"
| "ts_set (Set_acceptorEdge on) = modify (\<lambda>v. v\<lparr>ts_acceptorEdge := on\<rparr>)"
| "ts_set (Set_idleTimeout t) = modify (\<lambda>v. v\<lparr>ts_idleTimeout := t\<rparr>)"
| "ts_set (Set_heartbeatInterval t) = modify (\<lambda>v. v\<lparr>ts_heartbeatInterval := t\<rparr>)"

section \<open>Starting\<close>

text \<open>
  Before \<^verbatim>\<open>start\<close> there is no pool: \<open>ts_pool\<close> is one without threads, whose next loop is the server's own, as in \<^verbatim>\<open>newConnection\<close>. \<open>acceptor\<close> is what
  the constructor of the acceptor throws, if it does.
\<close>

definition mk_TcpServer :: "nat option \<Rightarrow> string \<Rightarrow> string option \<Rightarrow> TcpServer outcome" where
  "mk_TcpServer loop name acceptor =
     (case acceptor of
        Some msg \<Rightarrow> Throw (Runtime_error msg)
      | None \<Rightarrow>
          (case loop of
             None \<Rightarrow> Throw (Invalid_argument ''TcpServer loop is null'')
           | Some base \<Rightarrow>
               obind (mk_EventLoopThreadPool (Some base) [] 0) (\<lambda>none. Ret
                 \<lparr>ts_name = (if name = [] then ''TcpServer'' else name), ts_pool = none, ts_nextConnId = 1, ts_hasCb = (\<lambda>_. False), ts_codec = None,
                  ts_maxOut = 64 * 1024 * 1024, ts_policy = CloseConnection, ts_autoFlow = False, ts_pauseHigh = 0, ts_resumeLow = 0, ts_edge = False,
                  ts_idleTimeout = 0, ts_heartbeatInterval = 0, ts_hasHeartbeatCb = False, ts_hasIdleCb = False, ts_started = False, ts_threadCount = 0,
                  ts_hasThreadInitCb = False, ts_acceptorEdge = False, ts_acceptChannel = None, ts_idleCheckTimer = None, ts_inits = [], ts_listening = False,
                  ts_connections = [], ts_conns = [], ts_queue = (\<lambda>_. []), ts_now = 0\<rparr>)))"

text \<open>\<^verbatim>\<open>Acceptor::listen\<close>; \<open>err\<close> is the message of the error that \<^verbatim>\<open>listen\<close> gives, if any.\<close>

definition acceptor_listen :: "string option \<Rightarrow> (TcpServer, unit) cpp" where
  "acceptor_listen err =
     bind (gets ts_listening) (\<lambda>listening.
       if listening then ret ()
       else case err of
              Some msg \<Rightarrow> throw (Runtime_error (''Acceptor listen failed: '' @ msg))
            | None \<Rightarrow> modify (\<lambda>v. v\<lparr>ts_listening := True\<rparr>))"

text \<open>\<open>ts_inits\<close> lists the loops that are given the callback that starts a thread, the server's own where there is no other.\<close>

definition ts_thread_inits :: "TcpServer \<Rightarrow> TcpServer" where
  "ts_thread_inits v =
     (if \<not> ts_hasThreadInitCb v then v
      else v\<lparr>ts_inits := ts_inits v @ (if lp_loops (ts_pool v) = [] then [ts_base v] else lp_loops (ts_pool v))\<rparr>)"

definition ts_start :: "bool \<Rightarrow> (nat \<Rightarrow> nat) \<Rightarrow> string option \<Rightarrow> (TcpServer, unit) cpp" where
  "ts_start inLoop new_loop err =
     bind (gets ts_started) (\<lambda>started.
       if started then ret ()
       else seq (lift (assertInLoopThread inLoop))
           (bind (gets (\<lambda>v. mk_EventLoopThreadPool (Some (ts_base v)) (ts_name v @ ''-io'') (ts_threadCount v))) (\<lambda>made.
            bind (lift (obind made (pool_start new_loop))) (\<lambda>pool.
            seq (modify (\<lambda>v. v\<lparr>ts_pool := pool\<rparr>))
           (seq (modify ts_thread_inits)
           (seq (acceptor_listen err)
           (seq (modify (\<lambda>v. v\<lparr>ts_acceptChannel := Some (enableReading (setEdgeTriggered (ts_acceptorEdge v) mk_Channel))\<rparr>))
           (seq (modify startIdleCheck)
                (modify (\<lambda>v. v\<lparr>ts_started := True\<rparr>))))))))))"


section \<open>Functors\<close>

definition ts_post :: "nat \<Rightarrow> ts_functor \<Rightarrow> TcpServer \<Rightarrow> TcpServer" where
  "ts_post l f v = v\<lparr>ts_queue := (ts_queue v)(l := ts_queue v l @ [f])\<rparr>"

definition close_calls :: "TcpConnection \<Rightarrow> nat" where
  "close_calls c = count_list (c_calls c) Cb_close"

fun ts_removes :: "nat \<Rightarrow> nat \<Rightarrow> TcpServer \<Rightarrow> TcpServer" where
  "ts_removes 0 i v = v"
| "ts_removes (Suc n) i v = ts_removes n i (ts_post (ts_base v) (Tf_remove i) v)"

text \<open>
  A function of the connection that runs in its loop. Every call of the close callback, \<^verbatim>\<open>removeConnection\<close>, queues a functor in the base loop.
\<close>

definition on_conn :: "nat \<Rightarrow> (TcpConnection \<Rightarrow> TcpConnection) \<Rightarrow> TcpServer \<Rightarrow> TcpServer" where
  "on_conn i f v =
     (let ob = ts_conns v ! i; c = f (co_conn ob); n = close_calls c - close_calls (co_conn ob)
      in ts_removes n i (v\<lparr>ts_conns := (ts_conns v)[i := ob\<lparr>co_conn := c, co_closed := co_closed ob + n\<rparr>]\<rparr>))"

definition mark_conn :: "nat \<Rightarrow> (conn_obj \<Rightarrow> conn_obj) \<Rightarrow> TcpServer \<Rightarrow> TcpServer" where
  "mark_conn i g v = v\<lparr>ts_conns := (ts_conns v)[i := g (ts_conns v ! i)]\<rparr>"

definition removeConnectionInLoop :: "nat \<Rightarrow> TcpServer \<Rightarrow> TcpServer" where
  "removeConnectionInLoop i v =
     (let name = co_name (ts_conns v ! i)
      in if map_of (ts_connections v) name = None then v
         else ts_post (co_loop (ts_conns v ! i)) (Tf_destroyed i)
           (v\<lparr>ts_connections := filter (\<lambda>(n, _). n \<noteq> name) (ts_connections v)\<rparr>))"

fun ts_run_functor ::
  "user \<Rightarrow> (TcpConnection \<Rightarrow> TcpConnection) \<Rightarrow> (TcpConnection \<Rightarrow> TcpConnection) \<Rightarrow> ts_functor \<Rightarrow> TcpServer \<Rightarrow> TcpServer" where
  "ts_run_functor user heartbeat idle (Tf_established i) v =
     on_conn i (\<lambda>c. snd (connectEstablished user c)) (mark_conn i (co_established_update (\<lambda>_. True)) v)"
| "ts_run_functor user heartbeat idle (Tf_remove i) v = removeConnectionInLoop i v"
| "ts_run_functor user heartbeat idle (Tf_destroyed i) v =
     on_conn i (\<lambda>c. snd (connectDestroyed user c)) (mark_conn i (\<lambda>ob. ob\<lparr>co_destroyed := co_destroyed ob + 1\<rparr>) v)"
| "ts_run_functor user heartbeat idle (Tf_heartbeat i) v = on_conn i (\<lambda>c. heartbeat (snd (markKeepAliveProbeSent c))) v"
| "ts_run_functor user heartbeat idle (Tf_idle i) v = on_conn i idle v"
| "ts_run_functor user heartbeat idle (Tf_forceClose i) v = on_conn i (\<lambda>c. snd (forceClose user True c)) v"

section \<open>New connections\<close>

definition configure_connection :: "TcpServer \<Rightarrow> (TcpConnection, unit) cpp" where
  "configure_connection v =
     seq (setCallback K_connection (ts_hasCb v K_connection))
    (seq (setCallback K_message (ts_hasCb v K_message))
    (seq (setCallback K_frame (ts_hasCb v K_frame))
    (seq (setCallback K_writeComplete (ts_hasCb v K_writeComplete))
    (seq (setCallback K_highWater (ts_hasCb v K_highWater))
    (seq (setLengthFieldCodec (ts_codec v))
    (seq (setMaxOutputBufferBytes (ts_maxOut v))
    (seq (setOutputOverflowPolicy (ts_policy v))
    (seq (conn_setEdgeTriggered (ts_edge v))
    (seq (if ts_autoFlow v then enableAutoReadFlowControl (ts_pauseHigh v) (ts_resumeLow v) else ret ())
         (setCallback K_close True))))))))))"

text \<open>\<open>valid\<close> says that the descriptor is one; \<^verbatim>\<open>accept\<close> gives no other.\<close>

definition ts_newConnection ::
  "user \<Rightarrow> (TcpConnection \<Rightarrow> TcpConnection) \<Rightarrow> (TcpConnection \<Rightarrow> TcpConnection) \<Rightarrow> bool \<Rightarrow> (TcpServer, unit) cpp" where
  "ts_newConnection user heartbeat idle valid v =
     (case getNextLoop (ts_pool v) of
        (ioLoop, pool) \<Rightarrow>
          let connName = ts_name v @ ''-'' @ to_string (ts_nextConnId v);
              v = v\<lparr>ts_pool := pool, ts_nextConnId := ts_nextConnId v + 1\<rparr>
          in case mk_TcpConnection True valid connName (ts_now v) of
               Throw e \<Rightarrow> (Throw e, v)
             | Undef \<Rightarrow> (Undef, v)
             | Ret c \<Rightarrow>
                 let c = snd (configure_connection v c); i = length (ts_conns v);
                     ob = \<lparr>co_conn = c, co_name = connName, co_loop = ioLoop, co_established = False, co_closed = 0, co_destroyed = 0\<rparr>;
                     v = v\<lparr>ts_conns := ts_conns v @ [ob],
                           ts_connections := (if map_of (ts_connections v) connName = None then ts_connections v @ [(connName, i)] else ts_connections v)\<rparr>
                 in (Ret (), if ioLoop = ts_base v then ts_run_functor user heartbeat idle (Tf_established i) v else ts_post ioLoop (Tf_established i) v))"

section \<open>The acceptor\<close>

definition EINTR :: int where "EINTR = 4"
definition ECONNABORTED :: int where "ECONNABORTED = 103"
definition EPROTO :: int where "EPROTO = 71"
definition EPERM :: int where "EPERM = 1"

definition isInterruptedError :: "int \<Rightarrow> bool" where
  "isInterruptedError err \<longleftrightarrow> err = EINTR"

definition isTransientAcceptError :: "int \<Rightarrow> bool" where
  "isTransientAcceptError err \<longleftrightarrow> err = ECONNABORTED \<or> err = EPROTO \<or> err = EPERM"

datatype accept_ret = Acc_socket | Acc_error int

text \<open>The loop of \<^verbatim>\<open>acceptAvailable\<close>: \<open>rs\<close> is what the calls of \<^verbatim>\<open>accept\<close> give, would-block after its end; \<open>k\<close> is \<^verbatim>\<open>acceptedCount\<close>.\<close>

fun accept_loop ::
  "(int \<Rightarrow> string) \<Rightarrow> ('s, unit) cpp \<Rightarrow> accept_ret list \<Rightarrow> nat \<Rightarrow> ('s, nat) cpp" where
  "accept_loop strerror newConnectionCallback [] k = ret k"
| "accept_loop strerror newConnectionCallback (Acc_socket # rs) k =
     seq newConnectionCallback (accept_loop strerror newConnectionCallback rs (k + 1))"
| "accept_loop strerror newConnectionCallback (Acc_error err # rs) k =
     (if isWouldBlockError err then ret k
      else if isInterruptedError err \<or> isTransientAcceptError err then accept_loop strerror newConnectionCallback rs k
      else throw (Runtime_error (''Acceptor accept failed: '' @ strerror err)))"

definition acceptAvailable ::
  "user \<Rightarrow> (TcpConnection \<Rightarrow> TcpConnection) \<Rightarrow> (TcpConnection \<Rightarrow> TcpConnection) \<Rightarrow> (int \<Rightarrow> string) \<Rightarrow> accept_ret list \<Rightarrow> (TcpServer, nat) cpp" where
  "acceptAvailable user heartbeat idle strerror rs =
     bind (gets ts_listening) (\<lambda>listening.
       if \<not> listening then throw (Logic_error ''Acceptor is not listening'')
       else accept_loop strerror (ts_newConnection user heartbeat idle True) rs 0)"

section \<open>Idle connections\<close>

definition conn_connected :: "TcpConnection \<Rightarrow> bool" where
  "conn_connected c \<longleftrightarrow> c_state c = Connected"

definition is_idle :: "TcpServer \<Rightarrow> TcpConnection \<Rightarrow> bool" where
  "is_idle v c \<longleftrightarrow> conn_connected c \<and> ts_idleTimeout v > 0 \<and> idleFor c \<ge> ts_idleTimeout v"

definition needs_heartbeat :: "TcpServer \<Rightarrow> TcpConnection \<Rightarrow> bool" where
  "needs_heartbeat v c \<longleftrightarrow>
     conn_connected c \<and> \<not> is_idle v c \<and> ts_heartbeatInterval v > 0 \<and> ts_hasHeartbeatCb v \<and> idleFor c \<ge> ts_heartbeatInterval v
     \<and> (c_lastProbe c = 0 \<or> probeIdleFor c \<ge> ts_heartbeatInterval v)"

definition conn_of :: "TcpServer \<Rightarrow> nat \<Rightarrow> TcpConnection" where
  "conn_of v i = co_conn (ts_conns v ! i)"

definition checkIdleConnections :: "TcpServer \<Rightarrow> TcpServer" where
  "checkIdleConnections v =
     (let ks = map snd (ts_connections v);
          hb = filter (\<lambda>i. needs_heartbeat v (conn_of v i)) ks;
          idle = filter (\<lambda>i. is_idle v (conn_of v i)) ks;
          v1 = fold (\<lambda>i w. ts_post (co_loop (ts_conns w ! i)) (Tf_heartbeat i) w) hb v
      in fold (\<lambda>i w. ts_post (co_loop (ts_conns w ! i)) (if ts_hasIdleCb w then Tf_idle i else Tf_forceClose i) w) idle v1)"

section \<open>Steps\<close>

text \<open>What a connection does in its loop or is asked to by other threads, once it is established.\<close>

definition conn_exec :: "user \<Rightarrow> (int \<Rightarrow> string) \<Rightarrow> tcp_op \<Rightarrow> TcpConnection \<Rightarrow> TcpConnection" where
  "conn_exec user strerror op c = (if op = Op_established \<or> op = Op_destroyed then c else tcp_exec user strerror op c)"

datatype ts_action = Ts_accept "accept_ret list" | Ts_functor nat | Ts_conn nat tcp_op | Ts_check | Ts_tick int | Ts_set ts_setting

fun ts_exec ::
  "user \<Rightarrow> (TcpConnection \<Rightarrow> TcpConnection) \<Rightarrow> (TcpConnection \<Rightarrow> TcpConnection) \<Rightarrow> (int \<Rightarrow> string) \<Rightarrow> ts_action \<Rightarrow> TcpServer \<Rightarrow> TcpServer" where
  "ts_exec user heartbeat idle strerror (Ts_accept rs) v = snd (acceptAvailable user heartbeat idle strerror rs v)"
| "ts_exec user heartbeat idle strerror (Ts_functor l) v =
     (case ts_queue v l of [] \<Rightarrow> v | f # fs \<Rightarrow> ts_run_functor user heartbeat idle f (v\<lparr>ts_queue := (ts_queue v)(l := fs)\<rparr>))"
| "ts_exec user heartbeat idle strerror (Ts_conn i op) v =
     (if i < length (ts_conns v) \<and> co_established (ts_conns v ! i) then on_conn i (conn_exec user strerror op) v else v)"
| "ts_exec user heartbeat idle strerror Ts_check v = checkIdleConnections v"
| "ts_exec user heartbeat idle strerror (Ts_set x) v = snd (ts_set x v)"
| "ts_exec user heartbeat idle strerror (Ts_tick t) v =
     v\<lparr>ts_now := t, ts_conns := map (\<lambda>ob. ob\<lparr>co_conn := (co_conn ob)\<lparr>c_now := t\<rparr>\<rparr>) (ts_conns v)\<rparr>"

text \<open>A server after \<^verbatim>\<open>start\<close>: listening, with its pool of loops and no connection.\<close>

definition fresh_server :: "TcpServer \<Rightarrow> bool" where
  "fresh_server v \<longleftrightarrow> ts_listening v \<and> ts_nextConnId v = 1 \<and> ts_connections v = [] \<and> ts_conns v = [] \<and> (\<forall>l. ts_queue v l = [])
     \<and> lp_next (ts_pool v) = 0"


lemma ts_start_run:
  assumes "\<not> ts_started v"
  shows "ts_start inLoop new_loop err v =
    (if \<not> inLoop then (Throw (Runtime_error ''EventLoop used from another thread''), v)
     else let p = start_threads new_loop (ts_threadCount v) 0
                    \<lparr>lp_baseLoop = ts_base v, lp_poolName = ts_name v @ ''-io'', lp_threadCount = ts_threadCount v, lp_started = True, lp_next = 0, lp_threads = [], lp_loops = []\<rparr>;
              w = ts_thread_inits (v\<lparr>ts_pool := p\<rparr>)
          in case (ts_listening v, err) of
               (False, Some msg) \<Rightarrow> (Throw (Runtime_error (''Acceptor listen failed: '' @ msg)), w)
             | _ \<Rightarrow> (Ret (), startIdleCheck (w\<lparr>ts_listening := True, ts_acceptChannel := Some (enableReading (setEdgeTriggered (ts_acceptorEdge v) mk_Channel))\<rparr>)\<lparr>ts_started := True\<rparr>))"
proof -
  have same: "w\<lparr>ts_listening := True\<rparr> = w" if "ts_listening w" for w :: TcpServer using that by simp
  have init: "ts_listening (ts_thread_inits w) = ts_listening w" "ts_acceptorEdge (ts_thread_inits w) = ts_acceptorEdge w" for w by (simp_all add: ts_thread_inits_def)
  show ?thesis using assms
    by (cases "ts_listening v"; cases err)
      (simp_all add: ts_start_def run_bind run_seq run_gets run_modify run_ret run_throw lift_def assertInLoopThread_def mk_EventLoopThreadPool_def pool_start_def
        acceptor_listen_def init Let_def same)
qed

section \<open>The invariant\<close>

abbreviation nconn :: "TcpServer \<Rightarrow> nat" where
  "nconn v \<equiv> length (ts_conns v)"

definition listed :: "TcpServer \<Rightarrow> nat \<Rightarrow> bool" where
  "listed v i \<longleftrightarrow> (co_name (ts_conns v ! i), i) \<in> set (ts_connections v)"

definition removing :: "TcpServer \<Rightarrow> nat \<Rightarrow> bool" where
  "removing v i \<longleftrightarrow> Tf_remove i \<in> set (ts_queue v (ts_base v))"

definition destroying :: "TcpServer \<Rightarrow> nat \<Rightarrow> nat" where
  "destroying v i = count_list (ts_queue v (co_loop (ts_conns v ! i))) (Tf_destroyed i)"

definition establishing :: "TcpServer \<Rightarrow> nat \<Rightarrow> nat" where
  "establishing v i = count_list (ts_queue v (co_loop (ts_conns v ! i))) (Tf_established i)"

fun tf_ok :: "TcpServer \<Rightarrow> nat \<Rightarrow> ts_functor \<Rightarrow> bool" where
  "tf_ok v l (Tf_established i) \<longleftrightarrow> i < nconn v \<and> l = co_loop (ts_conns v ! i)"
| "tf_ok v l (Tf_remove i) \<longleftrightarrow> i < nconn v \<and> l = ts_base v \<and> co_established (ts_conns v ! i) \<and> 0 < co_closed (ts_conns v ! i)"
| "tf_ok v l (Tf_destroyed i) \<longleftrightarrow> i < nconn v \<and> l = co_loop (ts_conns v ! i) \<and> co_established (ts_conns v ! i)"
| "tf_ok v l (Tf_heartbeat i) \<longleftrightarrow> i < nconn v \<and> l = co_loop (ts_conns v ! i) \<and> co_established (ts_conns v ! i)"
| "tf_ok v l (Tf_idle i) \<longleftrightarrow> i < nconn v \<and> l = co_loop (ts_conns v ! i) \<and> co_established (ts_conns v ! i)"
| "tf_ok v l (Tf_forceClose i) \<longleftrightarrow> i < nconn v \<and> l = co_loop (ts_conns v ! i) \<and> co_established (ts_conns v ! i)"

definition ts_loop_at :: "EventLoopThreadPool \<Rightarrow> nat \<Rightarrow> nat" where
  "ts_loop_at p i = (if lp_loops p = [] then lp_baseLoop p else lp_loops p ! (i mod length (lp_loops p)))"

definition conn_obj_ok :: "TcpServer \<Rightarrow> nat \<Rightarrow> bool" where
  "conn_obj_ok v i \<longleftrightarrow>
     co_name (ts_conns v ! i) = ts_name v @ ''-'' @ to_string (int i + 1)
     \<and> co_loop (ts_conns v ! i) = ts_loop_at (ts_pool v) i
     \<and> of_bool (listed v i) + destroying v i + co_destroyed (ts_conns v ! i) = 1
     \<and> establishing v i = (if co_established (ts_conns v ! i) then 0 else 1)
     \<and> (\<not> co_established (ts_conns v ! i) \<longrightarrow> c_state (conn_of v i) = Connecting \<and> co_closed (ts_conns v ! i) = 0)
     \<and> (0 < co_closed (ts_conns v ! i) \<longrightarrow> removing v i \<or> \<not> listed v i) \<and> (co_closed (ts_conns v ! i) = 0 \<longrightarrow> listed v i)"

definition ts_table_ok :: "TcpServer \<Rightarrow> bool" where
  "ts_table_ok v \<longleftrightarrow> distinct (map fst (ts_connections v))
     \<and> list_all (\<lambda>(name, i). i < nconn v \<and> co_name (ts_conns v ! i) = name) (ts_connections v)
     \<and> ts_nextConnId v = int (nconn v) + 1
     \<and> (lp_loops (ts_pool v) \<noteq> [] \<longrightarrow> lp_next (ts_pool v) = nconn v mod length (lp_loops (ts_pool v)))"

definition ts_ok :: "TcpServer \<Rightarrow> bool" where
  "ts_ok v \<longleftrightarrow> ts_table_ok v \<and> (\<forall>l. list_all (tf_ok v l) (ts_queue v l)) \<and> (\<forall>i < nconn v. conn_obj_ok v i)"

lemma ts_post_simps [simp]:
  "ts_conns (ts_post l f v) = ts_conns v" "ts_connections (ts_post l f v) = ts_connections v" "ts_pool (ts_post l f v) = ts_pool v"
  "ts_name (ts_post l f v) = ts_name v" "ts_nextConnId (ts_post l f v) = ts_nextConnId v" "ts_base (ts_post l f v) = ts_base v"
  "ts_queue (ts_post l f v) m = (if m = l then ts_queue v l @ [f] else ts_queue v m)" "conn_of (ts_post l f v) = conn_of v"
  by (simp_all add: ts_post_def ts_base_def conn_of_def fun_eq_iff)

lemma ts_removes_eq:
  "ts_removes n i v = v\<lparr>ts_queue := (ts_queue v)(ts_base v := ts_queue v (ts_base v) @ replicate n (Tf_remove i))\<rparr>"
proof (induction n arbitrary: v)
  case (Suc n)
  have "ts_removes (Suc n) i v = ts_removes n i (ts_post (ts_base v) (Tf_remove i) v)" by simp
  also have "\<dots> = v\<lparr>ts_queue := (ts_queue v)(ts_base v := ts_queue v (ts_base v) @ replicate (Suc n) (Tf_remove i))\<rparr>"
    unfolding Suc by (simp add: ts_post_def ts_base_def)
  finally show ?case .
qed simp

text \<open>Updating the record of a connection and queueing functors.\<close>

definition with_conn :: "nat \<Rightarrow> conn_obj \<Rightarrow> nat \<Rightarrow> TcpServer \<Rightarrow> TcpServer" where
  "with_conn i ob n v = v\<lparr>ts_conns := (ts_conns v)[i := ob],
     ts_queue := (ts_queue v)(ts_base v := ts_queue v (ts_base v) @ replicate n (Tf_remove i))\<rparr>"

lemma on_conn_eq:
  "on_conn i f v = (let ob = ts_conns v ! i; c = f (co_conn ob); n = close_calls c - close_calls (co_conn ob)
     in with_conn i (ob\<lparr>co_conn := c, co_closed := co_closed ob + n\<rparr>) n v)"
  by (simp add: on_conn_def ts_removes_eq with_conn_def Let_def ts_base_def)

lemma count_replicate [simp]: "count_list (replicate n x) y = (if x = y then n else 0)"
  by (induction n) auto

text \<open>
  A connection that runs: its record changes, and \<open>n\<close> removals of it are queued. \<open>but\<close> the counters of the one connection, everything is kept.
\<close>

lemma with_conn_ok:
  assumes tab: "ts_table_ok v" and q: "\<And>l. list_all (tf_ok v l) (ts_queue v l)" and objs: "\<And>j. j < nconn v \<Longrightarrow> j \<noteq> i \<Longrightarrow> conn_obj_ok v j"
    and i: "i < nconn v" and same: "co_name ob = co_name (ts_conns v ! i)" "co_loop ob = co_loop (ts_conns v ! i)" "co_established ob"
    and mono: "co_closed ob = co_closed (ts_conns v ! i) + n" and obi: "conn_obj_ok (with_conn i ob n v) i"
  shows "ts_ok (with_conn i ob n v)"
proof -
  let ?v = "with_conn i ob n v"
  have views: "nconn ?v = nconn v" "ts_connections ?v = ts_connections v" "ts_base ?v = ts_base v" "ts_pool ?v = ts_pool v" "ts_name ?v = ts_name v"
    "ts_nextConnId ?v = ts_nextConnId v" "ts_conns ?v ! j = (if j = i then ob else ts_conns v ! j)" for j
    using i by (auto simp: with_conn_def ts_base_def nth_list_update)
  have queue: "ts_queue ?v l = (if l = ts_base v then ts_queue v l @ replicate n (Tf_remove i) else ts_queue v l)" for l by (simp add: with_conn_def)
  have tf: "tf_ok ?v l f" if "tf_ok v l f" for l f using that views same mono by (cases f) (auto split: if_splits)
  have "0 < n \<Longrightarrow> tf_ok ?v (ts_base v) (Tf_remove i)" using views i same mono by simp
  then have "list_all (tf_ok ?v l) (ts_queue ?v l)" for l using q [of l] tf by (auto simp: queue list_all_iff)
  moreover have "ts_table_ok ?v" using tab views same by (auto simp: ts_table_ok_def list_all_iff)
  moreover have "conn_obj_ok ?v j" if "j < nconn v" "j \<noteq> i" for j
  proof -
    have "listed ?v j = listed v j" "destroying ?v j = destroying v j" "establishing ?v j = establishing v j" "removing ?v j = removing v j"
      "conn_of ?v j = conn_of v j"
      using that(2) views by (auto simp: listed_def destroying_def establishing_def removing_def conn_of_def queue)
    then show ?thesis using objs [OF that] that views by (simp add: conn_obj_ok_def)
  qed
  ultimately show ?thesis using obi views(1) by (auto simp: ts_ok_def)
qed


lemma on_conn_ok:
  assumes "ts_ok v" and "i < nconn v" and "co_established (ts_conns v ! i)"
  shows "ts_ok (on_conn i f v)"
proof -
  define ob where "ob = ts_conns v ! i"
  define n where "n = close_calls (f (co_conn ob)) - close_calls (co_conn ob)"
  define ob' where "ob' = ob\<lparr>co_conn := f (co_conn ob), co_closed := co_closed ob + n\<rparr>"
  let ?v = "with_conn i ob' n v"
  have eq: "on_conn i f v = ?v" by (simp add: on_conn_eq Let_def ob_def n_def ob'_def)
  have ok: "conn_obj_ok v i" using assms by (simp add: ts_ok_def)
  have obj: "ts_conns ?v ! i = ob'" using assms(2) by (simp add: with_conn_def)
  have "listed ?v i = listed v i" "destroying ?v i = destroying v i" "establishing ?v i = establishing v i" "removing ?v i \<longleftrightarrow> removing v i \<or> 0 < n"
    "ts_name ?v = ts_name v" "ts_pool ?v = ts_pool v"
    using obj by (auto simp: listed_def destroying_def establishing_def removing_def with_conn_def ob'_def ob_def ts_base_def)
  then have "conn_obj_ok ?v i" using ok obj assms(3) by (auto simp: conn_obj_ok_def ob'_def ob_def)
  then show ?thesis unfolding eq
    by (intro with_conn_ok) (use assms in \<open>auto simp: ts_ok_def ob'_def ob_def\<close>)
qed

fun tfid :: "ts_functor \<Rightarrow> nat" where
  "tfid (Tf_established i) = i"
| "tfid (Tf_remove i) = i"
| "tfid (Tf_destroyed i) = i"
| "tfid (Tf_heartbeat i) = i"
| "tfid (Tf_idle i) = i"
| "tfid (Tf_forceClose i) = i"

definition ts_popped :: "nat \<Rightarrow> TcpServer \<Rightarrow> TcpServer" where
  "ts_popped l v = v\<lparr>ts_queue := (ts_queue v)(l := tl (ts_queue v l))\<rparr>"

lemma ts_popped_simps [simp]:
  "ts_conns (ts_popped l v) = ts_conns v" "ts_connections (ts_popped l v) = ts_connections v" "ts_pool (ts_popped l v) = ts_pool v"
  "ts_name (ts_popped l v) = ts_name v" "ts_nextConnId (ts_popped l v) = ts_nextConnId v" "ts_base (ts_popped l v) = ts_base v"
  "ts_queue (ts_popped l v) m = (if m = l then tl (ts_queue v l) else ts_queue v m)" "conn_of (ts_popped l v) = conn_of v"
  "listed (ts_popped l v) i = listed v i"
  by (simp_all add: ts_popped_def ts_base_def conn_of_def listed_def fun_eq_iff)

lemma tf_ok_popped [simp]: "tf_ok (ts_popped l v) m f = tf_ok v m f"
  by (cases f) auto

lemma ts_popped_ok:
  assumes "ts_ok v" and "ts_queue v l = f # fs"
  shows "ts_table_ok (ts_popped l v)" and "list_all (tf_ok (ts_popped l v) m) (ts_queue (ts_popped l v) m)"
    and "j < nconn v \<Longrightarrow> j \<noteq> tfid f \<Longrightarrow> conn_obj_ok (ts_popped l v) j" and "tf_ok v l f"
proof -
  show "ts_table_ok (ts_popped l v)" using assms(1) by (simp add: ts_ok_def ts_table_ok_def)
  have q: "list_all (tf_ok v m) (ts_queue v m)" for m using assms(1) by (simp add: ts_ok_def)
  then show "tf_ok v l f" using assms(2) by (metis list.pred_inject(2))
  show "list_all (tf_ok (ts_popped l v) m) (ts_queue (ts_popped l v) m)" using q [of m] assms(2) by (cases "m = l") (auto simp: list_all_iff)
  assume j: "j < nconn v" "j \<noteq> tfid f"
  have "destroying (ts_popped l v) j = destroying v j" "establishing (ts_popped l v) j = establishing v j" "removing (ts_popped l v) j = removing v j"
    using j(2) assms(2) by (auto simp: destroying_def establishing_def removing_def split: if_splits)
  then show "conn_obj_ok (ts_popped l v) j" using assms(1) j by (simp add: ts_ok_def conn_obj_ok_def)
qed

text \<open>The functors that only run the connection.\<close>

lemma ts_popped_same:
  assumes "ts_ok v" and "ts_queue v l = f # fs" and "\<And>i. f \<noteq> Tf_established i" and "\<And>i. f \<noteq> Tf_remove i" and "\<And>i. f \<noteq> Tf_destroyed i"
  shows "ts_ok (ts_popped l v)"
proof -
  note pop = ts_popped_ok [OF assms(1,2)]
  have "destroying (ts_popped l v) j = destroying v j" "establishing (ts_popped l v) j = establishing v j" "removing (ts_popped l v) j = removing v j" for j
    using assms(2-) by (auto simp: destroying_def establishing_def removing_def split: if_splits)
  then have "conn_obj_ok (ts_popped l v) j" if "j < nconn v" for j using assms(1) that by (simp add: ts_ok_def conn_obj_ok_def)
  then show ?thesis using pop by (simp add: ts_ok_def)
qed

lemma connectEstablished_state: "c_state c = Connecting \<Longrightarrow> fst (connectEstablished user c) = Ret ()"
  by (simp add: connectEstablished_def cpp_simps setState_def on_channel_def fire_def)

lemma established_ok:
  assumes "ts_ok v" and "ts_queue v l = Tf_established i # fs"
  shows "ts_ok (ts_run_functor user heartbeat idle (Tf_established i) (ts_popped l v))"
proof -
  note pop = ts_popped_ok [OF assms]
  let ?p = "ts_popped l v"
  define ob where "ob = ts_conns v ! i"
  define c where "c = snd (connectEstablished user (co_conn ob))"
  define n where "n = close_calls c - close_calls (co_conn ob)"
  define ob' where "ob' = ob\<lparr>co_established := True, co_conn := c, co_closed := co_closed ob + n\<rparr>"
  have i: "i < nconn v" "l = co_loop ob" using pop(4) by (auto simp: ob_def)
  let ?v = "with_conn i ob' n ?p"
  have eq: "ts_run_functor user heartbeat idle (Tf_established i) ?p = ?v"
    using i by (simp add: on_conn_eq mark_conn_def with_conn_def Let_def ob_def n_def c_def ob'_def ts_base_def)
  have ok: "conn_obj_ok v i" using assms i by (simp add: ts_ok_def)
  have e1: "establishing v i = Suc (count_list fs (Tf_established i))" "destroying v i = count_list fs (Tf_destroyed i)"
    using assms(2) i(2) by (auto simp: establishing_def destroying_def ob_def)
  have ne: "\<not> co_established ob" using ok e1(1) by (auto simp: conn_obj_ok_def ob_def split: if_splits)
  have obj: "ts_conns ?v ! i = ob'" using i by (simp add: with_conn_def)
  have "listed ?v i = listed v i" "destroying ?v i = destroying v i" "establishing ?v i = 0" "removing ?v i \<longleftrightarrow> removing v i \<or> 0 < n"
    "ts_name ?v = ts_name v" "ts_pool ?v = ts_pool v"
    using obj e1 ok ne i(2) assms(2)
    by (auto simp: listed_def destroying_def establishing_def removing_def with_conn_def ob'_def ob_def ts_base_def conn_obj_ok_def split: if_splits)
  then have "conn_obj_ok ?v i" using ok obj ne by (auto simp: conn_obj_ok_def ob'_def ob_def)
  then show ?thesis unfolding eq
    by (intro with_conn_ok) (use i pop in \<open>auto simp: ob'_def ob_def\<close>)
qed

lemma destroyed_ok:
  assumes "ts_ok v" and "ts_queue v l = Tf_destroyed i # fs"
  shows "ts_ok (ts_run_functor user heartbeat idle (Tf_destroyed i) (ts_popped l v))"
proof -
  note pop = ts_popped_ok [OF assms]
  let ?p = "ts_popped l v"
  define ob where "ob = ts_conns v ! i"
  define c where "c = snd (connectDestroyed user (co_conn ob))"
  define n where "n = close_calls c - close_calls (co_conn ob)"
  define ob' where "ob' = ob\<lparr>co_destroyed := co_destroyed ob + 1, co_conn := c, co_closed := co_closed ob + n\<rparr>"
  have i: "i < nconn v" "l = co_loop ob" "co_established ob" using pop(4) by (auto simp: ob_def)
  let ?v = "with_conn i ob' n ?p"
  have eq: "ts_run_functor user heartbeat idle (Tf_destroyed i) ?p = ?v"
    using i by (simp add: on_conn_eq mark_conn_def with_conn_def Let_def ob_def n_def c_def ob'_def ts_base_def)
  have ok: "conn_obj_ok v i" using assms i by (simp add: ts_ok_def)
  have e1: "establishing v i = count_list fs (Tf_established i)" "destroying v i = Suc (count_list fs (Tf_destroyed i))"
    using assms(2) i(2) by (auto simp: establishing_def destroying_def ob_def)
  have obj: "ts_conns ?v ! i = ob'" using i by (simp add: with_conn_def)
  have "listed ?v i = listed v i" "Suc (destroying ?v i) = destroying v i" "establishing ?v i = establishing v i" "removing ?v i \<longleftrightarrow> removing v i \<or> 0 < n"
    "ts_name ?v = ts_name v" "ts_pool ?v = ts_pool v"
    using obj e1 i assms(2)
    by (auto simp: listed_def destroying_def establishing_def removing_def with_conn_def ob'_def ob_def ts_base_def split: if_splits)
  then have "conn_obj_ok ?v i" using ok obj i by (auto simp: conn_obj_ok_def ob'_def ob_def)
  then show ?thesis unfolding eq
    by (intro with_conn_ok) (use i pop in \<open>auto simp: ob'_def ob_def\<close>)
qed


lemma to_string_nat_inj: "to_string (int a + 1) = to_string (int b + 1) \<longleftrightarrow> a = b"
proof
  assume "to_string (int a + 1) = to_string (int b + 1)"
  then have "nat_digits (Suc a) = nat_digits (Suc b)" by (simp add: to_string_def nat_add_distrib)
  then show "a = b" by (metis digits_val_nat_digits old.nat.inject)
qed simp

lemma conn_names: "ts_ok v \<Longrightarrow> i < nconn v \<Longrightarrow> j < nconn v \<Longrightarrow> co_name (ts_conns v ! i) = co_name (ts_conns v ! j) \<longleftrightarrow> i = j"
  by (auto simp: ts_ok_def conn_obj_ok_def to_string_nat_inj)

lemma listed_iff:
  assumes "ts_ok v" and "i < nconn v"
  shows "listed v i \<longleftrightarrow> map_of (ts_connections v) (co_name (ts_conns v ! i)) = Some i"
    and "map_of (ts_connections v) (co_name (ts_conns v ! i)) = None \<longleftrightarrow> \<not> listed v i"
proof -
  have tab: "distinct (map fst (ts_connections v))" "list_all (\<lambda>(name, i). i < nconn v \<and> co_name (ts_conns v ! i) = name) (ts_connections v)"
    using assms(1) by (auto simp: ts_ok_def ts_table_ok_def)
  show 1: "listed v i \<longleftrightarrow> map_of (ts_connections v) (co_name (ts_conns v ! i)) = Some i" using tab(1) by (auto simp: listed_def dest: map_of_SomeD)
  have "j = i" if "map_of (ts_connections v) (co_name (ts_conns v ! i)) = Some j" for j
  proof -
    from that have "(co_name (ts_conns v ! i), j) \<in> set (ts_connections v)" by (rule map_of_SomeD)
    then have "j < nconn v" "co_name (ts_conns v ! j) = co_name (ts_conns v ! i)" using tab(2) by (auto simp: list_all_iff)
    then show ?thesis using conn_names [OF assms(1)] assms(2) by blast
  qed
  then show "map_of (ts_connections v) (co_name (ts_conns v ! i)) = None \<longleftrightarrow> \<not> listed v i" using 1 by (metis option.exhaust option.distinct(1))
qed

lemma remove_ok:
  assumes "ts_ok v" and "ts_queue v l = Tf_remove i # fs"
  shows "ts_ok (removeConnectionInLoop i (ts_popped l v))"
proof -
  note pop = ts_popped_ok [OF assms]
  let ?p = "ts_popped l v" let ?name = "co_name (ts_conns v ! i)" let ?loop = "co_loop (ts_conns v ! i)"
  have i: "i < nconn v" "l = ts_base v" "co_established (ts_conns v ! i)" "0 < co_closed (ts_conns v ! i)" using pop(4) by auto
  have ok: "conn_obj_ok v i" using assms i by (simp add: ts_ok_def)
  have cnt: "destroying ?p i = destroying v i" "establishing ?p i = establishing v i" using assms(2) by (auto simp: destroying_def establishing_def split: if_splits)
  show ?thesis
  proof (cases "listed v i")
    case False
    then have "conn_obj_ok ?p i" using ok cnt i by (auto simp: conn_obj_ok_def)
    then have "conn_obj_ok ?p j" if "j < nconn ?p" for j using pop(3) that by (cases "j = i") auto
    then have "ts_ok ?p" unfolding ts_ok_def using pop(1,2) by blast
    then show ?thesis using listed_iff(2) [OF assms(1) i(1)] False by (simp add: removeConnectionInLoop_def)
  next
    case True
    define w where "w = ?p\<lparr>ts_connections := filter (\<lambda>(n, _). n \<noteq> ?name) (ts_connections v)\<rparr>"
    let ?v = "ts_post ?loop (Tf_destroyed i) w"
    have eq: "removeConnectionInLoop i ?p = ?v"
      using listed_iff(2) [OF assms(1) i(1)] True by (auto simp: removeConnectionInLoop_def w_def Let_def)
    have w: "ts_conns w = ts_conns v" "ts_pool w = ts_pool v" "ts_name w = ts_name v" "ts_nextConnId w = ts_nextConnId v" "ts_base w = ts_base v"
      "ts_connections w = filter (\<lambda>(n, _). n \<noteq> ?name) (ts_connections v)" "ts_queue w = ts_queue ?p" "conn_of w = conn_of v"
      by (simp_all add: w_def ts_base_def conn_of_def fun_eq_iff)
    have lw: "listed ?v j \<longleftrightarrow> listed v j \<and> j \<noteq> i" if "j < nconn v" for j
      using conn_names [OF assms(1) that i(1)] w by (auto simp: listed_def)
    have "ts_table_ok ?v" using pop(1) w by (auto simp: ts_table_ok_def list_all_iff distinct_map_filter)
    moreover have tf: "tf_ok ?v m f = tf_ok v m f" for m f using w by (cases f) auto
    then have "list_all (tf_ok ?v m) (ts_queue ?v m)" for m using pop(2) [of m] i w by (auto simp: list_all_iff split: if_splits)
    moreover have "conn_obj_ok ?v i"
    proof -
      have "destroying ?v i = destroying v i + 1" "establishing ?v i = establishing v i" using cnt w by (auto simp: destroying_def establishing_def)
      then show ?thesis using ok lw i True w by (auto simp: conn_obj_ok_def)
    qed
    moreover have "conn_obj_ok ?v j" if "j < nconn v" "j \<noteq> i" for j
    proof -
      have "destroying ?v j = destroying ?p j" "establishing ?v j = establishing ?p j" "removing ?v j = removing ?p j"
        using that(2) w by (auto simp: destroying_def establishing_def removing_def)
      then show ?thesis using pop(3) [OF that(1)] that w lw by (auto simp: conn_obj_ok_def)
    qed
    ultimately show ?thesis unfolding eq using w by (auto simp: ts_ok_def)
  qed
qed

lemma functor_ok_step:
  assumes "ts_ok v" and "ts_queue v l = f # fs"
  shows "ts_ok (ts_run_functor user heartbeat idle f (ts_popped l v))"
proof (cases f)
  case (Tf_established i)
  then show ?thesis using established_ok assms by blast
next
  case (Tf_remove i)
  then show ?thesis using remove_ok assms by simp
next
  case (Tf_destroyed i)
  then show ?thesis using destroyed_ok assms by blast
qed (use on_conn_ok ts_popped_same [OF assms] ts_popped_ok(4) [OF assms] in auto)

lemma ts_post_ok:
  assumes "ts_ok v" and "tf_ok v l f" and "\<And>i. f \<noteq> Tf_established i" and "\<And>i. f \<noteq> Tf_remove i" and "\<And>i. f \<noteq> Tf_destroyed i"
  shows "ts_ok (ts_post l f v)"
proof -
  let ?v = "ts_post l f v"
  have tf: "tf_ok ?v m g = tf_ok v m g" for m g by (cases g) auto
  have "ts_table_ok ?v" using assms(1) by (simp add: ts_ok_def ts_table_ok_def)
  moreover have "list_all (tf_ok ?v m) (ts_queue ?v m)" for m using assms(1,2) by (auto simp: ts_ok_def list_all_iff tf)
  moreover have "listed ?v j = listed v j" "destroying ?v j = destroying v j" "establishing ?v j = establishing v j" "removing ?v j = removing v j" for j
    using assms(3-) by (auto simp: listed_def destroying_def establishing_def removing_def)
  then have "conn_obj_ok ?v j" if "j < nconn v" for j using assms(1) that by (simp add: ts_ok_def conn_obj_ok_def)
  ultimately show ?thesis by (simp add: ts_ok_def)
qed

lemma check_ok:
  assumes "ts_ok v"
  shows "ts_ok (checkIdleConnections v)"
proof -
  have inv: "ts_ok (fold (\<lambda>i w. ts_post (co_loop (ts_conns w ! i)) (g w i) w) ks w) \<and> ts_conns (fold (\<lambda>i w. ts_post (co_loop (ts_conns w ! i)) (g w i) w) ks w) = ts_conns w"
    if "ts_ok w" "\<forall>i \<in> set ks. i < nconn w \<and> co_established (ts_conns w ! i)" "\<And>w i. g w i = Tf_heartbeat i \<or> g w i = Tf_idle i \<or> g w i = Tf_forceClose i"
    for g ks w using that(1,2)
  proof (induction ks arbitrary: w)
    case (Cons i ks)
    let ?w = "ts_post (co_loop (ts_conns w ! i)) (g w i) w"
    have "ts_ok ?w" by (rule ts_post_ok) (use Cons.prems that(3) [of w i] in auto)
    then show ?case using Cons.IH [of ?w] Cons.prems by simp
  qed simp
  have tab: "i < nconn v" if "i \<in> snd ` set (ts_connections v)" for i
    using that assms by (auto simp: ts_ok_def ts_table_ok_def list_all_iff)
  have est: "co_established (ts_conns v ! i)" if "i < nconn v" "conn_connected (conn_of v i)" for i
    using assms that by (auto simp: ts_ok_def conn_obj_ok_def conn_connected_def)
  define hb where "hb = filter (\<lambda>i. needs_heartbeat v (conn_of v i)) (map snd (ts_connections v))"
  define idle where "idle = filter (\<lambda>i. is_idle v (conn_of v i)) (map snd (ts_connections v))"
  define v1 where "v1 = fold (\<lambda>i w. ts_post (co_loop (ts_conns w ! i)) (Tf_heartbeat i) w) hb v"
  have sel: "\<forall>i \<in> set hb. i < nconn v \<and> co_established (ts_conns v ! i)" "\<forall>i \<in> set idle. i < nconn v \<and> co_established (ts_conns v ! i)"
    using tab est by (auto simp: hb_def idle_def needs_heartbeat_def is_idle_def)
  have "ts_ok v1 \<and> ts_conns v1 = ts_conns v" unfolding v1_def by (rule inv [where g = "\<lambda>_ i. Tf_heartbeat i", OF assms sel(1)]) simp
  then have "ts_ok (fold (\<lambda>i w. ts_post (co_loop (ts_conns w ! i)) (if ts_hasIdleCb w then Tf_idle i else Tf_forceClose i) w) idle v1)"
    using inv [where g = "\<lambda>w i. if ts_hasIdleCb w then Tf_idle i else Tf_forceClose i" and w = v1 and ks = idle] sel(2) by simp
  then show ?thesis by (simp add: checkIdleConnections_def Let_def v1_def hb_def idle_def)
qed

lemma ts_tick_ok:
  assumes "ts_ok v"
  shows "ts_ok (v\<lparr>ts_now := t, ts_conns := map (\<lambda>ob. ob\<lparr>co_conn := (co_conn ob)\<lparr>c_now := t\<rparr>\<rparr>) (ts_conns v)\<rparr>)"
proof -
  let ?v = "v\<lparr>ts_now := t, ts_conns := map (\<lambda>ob. ob\<lparr>co_conn := (co_conn ob)\<lparr>c_now := t\<rparr>\<rparr>) (ts_conns v)\<rparr>"
  have at: "ts_conns ?v ! j = (ts_conns v ! j)\<lparr>co_conn := (conn_of v j)\<lparr>c_now := t\<rparr>\<rparr>" if "j < nconn v" for j using that by (simp add: conn_of_def)
  have base: "ts_base ?v = ts_base v" by (simp add: ts_base_def)
  have tf: "tf_ok ?v m g = tf_ok v m g" for m g using base at by (cases g) auto
  have "ts_table_ok ?v" using assms at by (auto simp: ts_ok_def ts_table_ok_def list_all_iff)
  moreover have "list_all (tf_ok ?v m) (ts_queue ?v m)" for m using assms by (auto simp: ts_ok_def list_all_iff tf)
  moreover have "conn_obj_ok ?v j" if "j < nconn v" for j
  proof -
    have "listed ?v j = listed v j" "destroying ?v j = destroying v j" "establishing ?v j = establishing v j" "removing ?v j = removing v j"
      "c_state (conn_of ?v j) = c_state (conn_of v j)"
      using at [OF that] base that by (auto simp: listed_def destroying_def establishing_def removing_def conn_of_def)
    then show ?thesis using assms that at [OF that] by (simp add: ts_ok_def conn_obj_ok_def)
  qed
  ultimately show ?thesis by (simp add: ts_ok_def)
qed


lemma new_connection_state:
  assumes "mk_TcpConnection True True name now = Ret c"
  shows "c_state (snd (configure_connection v c)) = Connecting"
  using assms by (auto simp: mk_TcpConnection_def configure_connection_def obind_Ret_iff cpp_simps setCallback_def setLengthFieldCodec_def
      setMaxOutputBufferBytes_def setOutputOverflowPolicy_def conn_setEdgeTriggered_def enableAutoReadFlowControl_def Let_def)

lemma mk_connection_returns: "\<exists>c. mk_TcpConnection True True name now = Ret c"
  using mk_Buffer_ok [of kInitialSize] by (auto simp: mk_TcpConnection_def kInitialSize_def)

lemma getNextLoop_at:
  assumes "lp_loops p \<noteq> [] \<longrightarrow> lp_next p = n mod length (lp_loops p)"
  shows "\<exists>p'. getNextLoop p = (ts_loop_at p n, p') \<and> lp_baseLoop p' = lp_baseLoop p \<and> lp_loops p' = lp_loops p
    \<and> (lp_loops p' \<noteq> [] \<longrightarrow> lp_next p' = Suc n mod length (lp_loops p'))"
proof (cases "lp_loops p = []")
  case False
  then have "n mod length (lp_loops p) < length (lp_loops p)" by simp
  then have "length (lp_loops p) \<le> Suc (n mod length (lp_loops p)) \<longleftrightarrow> Suc (n mod length (lp_loops p)) = length (lp_loops p)" by linarith
  then show ?thesis using assms False by (simp add: getNextLoop_def ts_loop_at_def Let_def mod_Suc)
qed (auto simp: getNextLoop_def ts_loop_at_def)

text \<open>A connection that was just made: listed, not established, with nothing queued for it.\<close>

definition joined_conn :: "conn_obj \<Rightarrow> EventLoopThreadPool \<Rightarrow> TcpServer \<Rightarrow> TcpServer" where
  "joined_conn ob p v = v\<lparr>ts_pool := p, ts_nextConnId := ts_nextConnId v + 1, ts_conns := ts_conns v @ [ob],
     ts_connections := ts_connections v @ [(co_name ob, nconn v)]\<rparr>"

lemma joined_conn_ok:
  assumes ok: "ts_ok v" and ob: "co_name ob = ts_name v @ ''-'' @ to_string (ts_nextConnId v)"
    and p: "lp_baseLoop p = lp_baseLoop (ts_pool v)" "lp_loops p = lp_loops (ts_pool v)" "lp_loops p \<noteq> [] \<longrightarrow> lp_next p = Suc (nconn v) mod length (lp_loops p)"
  defines "w \<equiv> joined_conn ob p v"
  shows "map_of (ts_connections v) (co_name ob) = None" and "ts_table_ok w" and "list_all (tf_ok w l) (ts_queue w l)" and "j < nconn v \<Longrightarrow> conn_obj_ok w j"
    and "f \<in> set (ts_queue w l) \<Longrightarrow> tfid f \<noteq> nconn v"
proof -
  have tab: "ts_nextConnId v = int (nconn v) + 1" "distinct (map fst (ts_connections v))"
    "list_all (\<lambda>(name, i). i < nconn v \<and> co_name (ts_conns v ! i) = name) (ts_connections v)"
    using ok by (auto simp: ts_ok_def ts_table_ok_def)
  have old: "co_name (ts_conns v ! i) \<noteq> co_name ob" if "i < nconn v" for i
    using ok that ob tab(1) by (auto simp: ts_ok_def conn_obj_ok_def to_string_nat_inj)
  then have fresh: "co_name ob \<notin> fst ` set (ts_connections v)" using tab(3) by (fastforce simp: list_all_iff)
  then show "map_of (ts_connections v) (co_name ob) = None" by (simp add: map_of_eq_None_iff)
  have w: "ts_conns w = ts_conns v @ [ob]" "ts_connections w = ts_connections v @ [(co_name ob, nconn v)]" "ts_queue w = ts_queue v" "ts_base w = ts_base v"
    "ts_name w = ts_name v" "ts_pool w = p" "ts_nextConnId w = ts_nextConnId v + 1"
    by (simp_all add: w_def joined_conn_def ts_base_def p)
  show "ts_table_ok w" using tab fresh p(3) by (auto simp: ts_table_ok_def w list_all_iff nth_append)
  have q: "list_all (tf_ok v m) (ts_queue v m)" for m using ok by (simp add: ts_ok_def)
  have tf: "tf_ok w m g" if "tf_ok v m g" for m g using that by (cases g) (auto simp: w nth_append)
  show "list_all (tf_ok w l) (ts_queue w l)" using q [of l] tf by (auto simp: w list_all_iff)
  have tfid: "tfid g < nconn v" if "tf_ok v m g" for m g using that by (cases g) auto
  show "tfid f \<noteq> nconn v" if "f \<in> set (ts_queue w l)" using that q [of l] tfid by (fastforce simp: w list_all_iff)
  assume j: "j < nconn v"
  have "listed w j = listed v j" "destroying w j = destroying v j" "establishing w j = establishing v j" "removing w j = removing v j" "conn_of w j = conn_of v j"
    using j by (auto simp: listed_def destroying_def establishing_def removing_def conn_of_def w nth_append)
  then show "conn_obj_ok w j" using ok j p by (simp add: ts_ok_def conn_obj_ok_def w nth_append ts_loop_at_def)
qed

lemma newConnection_ok:
  assumes "ts_ok v"
  shows "\<exists>v'. ts_newConnection user heartbeat idle True v = (Ret (), v') \<and> ts_ok v' \<and> nconn v' = Suc (nconn v) \<and> ts_listening v' = ts_listening v"
proof -
  have tab: "lp_loops (ts_pool v) \<noteq> [] \<longrightarrow> lp_next (ts_pool v) = nconn v mod length (lp_loops (ts_pool v))" "ts_nextConnId v = int (nconn v) + 1"
    using assms by (auto simp: ts_ok_def ts_table_ok_def)
  let ?l = "ts_loop_at (ts_pool v) (nconn v)"
  obtain p where p: "getNextLoop (ts_pool v) = (?l, p)" "lp_baseLoop p = lp_baseLoop (ts_pool v)" "lp_loops p = lp_loops (ts_pool v)"
    "lp_loops p \<noteq> [] \<longrightarrow> lp_next p = Suc (nconn v) mod length (lp_loops p)" using getNextLoop_at [OF tab(1)] by blast
  let ?name = "ts_name v @ ''-'' @ to_string (ts_nextConnId v)"
  obtain c where c: "mk_TcpConnection True True ?name (ts_now v) = Ret c" using mk_connection_returns by blast
  define c' where "c' = snd (configure_connection (v\<lparr>ts_pool := p, ts_nextConnId := ts_nextConnId v + 1\<rparr>) c)"
  define ob where "ob = \<lparr>co_conn = c', co_name = ?name, co_loop = ?l, co_established = False, co_closed = 0, co_destroyed = 0\<rparr>"
  let ?w = "joined_conn ob p v" let ?i = "nconn v"
  have ob: "co_name ob = ?name" by (simp add: ob_def)
  note j = joined_conn_ok [OF assms ob p(2-)]
  let ?v' = "if ?l = ts_base v then ts_run_functor user heartbeat idle (Tf_established ?i) ?w else ts_post ?l (Tf_established ?i) ?w"
  have run: "ts_newConnection user heartbeat idle True v = (Ret (), ?v')"
    using j(1) p(2) by (simp add: ts_newConnection_def p(1) c [simplified append_Cons append_Nil] Let_def joined_conn_def ob_def c'_def ts_base_def)
  have obj: "ts_conns ?w ! ?i = ob" "nconn ?w = Suc ?i" "ts_base ?w = ts_base v" "ts_name ?w = ts_name v" "ts_pool ?w = p"
    by (simp_all add: joined_conn_def ts_base_def p(2))
  have listed: "listed ?w ?i" by (simp add: listed_def obj) (simp add: joined_conn_def)
  have none: "count_list (ts_queue ?w m) f = 0" if "tfid f = ?i" for m f using j(5) that by (auto simp: count_list_0_iff)
  have st: "c_state c' = Connecting" unfolding c'_def by (rule new_connection_state [OF c])
  have l: "ts_loop_at p ?i = ?l" by (simp add: ts_loop_at_def p)
  have "ts_ok ?v' \<and> nconn ?v' = Suc ?i"
  proof (cases "?l = ts_base v")
    case True
    define d where "d = snd (connectEstablished user c')"
    define n where "n = close_calls d - close_calls c'"
    define ob' where "ob' = ob\<lparr>co_established := True, co_conn := d, co_closed := n\<rparr>"
    have eq: "?v' = with_conn ?i ob' n ?w"
      using True obj by (simp add: on_conn_eq mark_conn_def with_conn_def Let_def n_def d_def ob'_def ob_def ts_base_def)
    have at: "ts_conns (with_conn ?i ob' n ?w) ! ?i = ob'" using obj by (simp add: with_conn_def)
    have "listed (with_conn ?i ob' n ?w) ?i" "destroying (with_conn ?i ob' n ?w) ?i = 0" "establishing (with_conn ?i ob' n ?w) ?i = 0"
      "removing (with_conn ?i ob' n ?w) ?i \<longleftrightarrow> 0 < n" "ts_name (with_conn ?i ob' n ?w) = ts_name v" "ts_pool (with_conn ?i ob' n ?w) = p"
      using at listed obj none j(5) [of "Tf_remove ?i" "ts_base v"]
      by (auto simp: listed_def destroying_def establishing_def removing_def with_conn_def ts_base_def ob'_def)
    moreover have "co_name ob' = ?name" "co_loop ob' = ?l" "co_established ob'" "co_closed ob' = n" "co_destroyed ob' = 0" by (simp_all add: ob'_def ob_def)
    ultimately have "conn_obj_ok (with_conn ?i ob' n ?w) ?i" using at tab(2) l by (auto simp: conn_obj_ok_def)
    then have "ts_ok (with_conn ?i ob' n ?w)"
      by (intro with_conn_ok) (use j(2-4) obj in \<open>auto simp: ob'_def ob_def\<close>)
    then show ?thesis unfolding eq using obj by (simp add: with_conn_def)
  next
    case False
    let ?v = "ts_post ?l (Tf_established ?i) ?w"
    have tf: "tf_ok ?v m g = tf_ok ?w m g" for m g by (cases g) auto
    have "ts_table_ok ?v" using j(2) by (simp add: ts_table_ok_def)
    moreover have est: "tf_ok ?w ?l (Tf_established ?i)" by (simp add: obj) (simp add: ob_def)
    have "tf_ok ?w m f" if "f \<in> set (ts_queue ?v m)" for m f
    proof (cases "f \<in> set (ts_queue ?w m)")
      case True
      then show ?thesis using j(3) [of m] by (simp only: list_all_iff)
    next
      case False
      then have "m = ?l" "f = Tf_established ?i" using that by (auto simp: ts_post_def split: if_splits)
      then show ?thesis using est by (simp only:)
    qed
    then have "list_all (tf_ok ?v m) (ts_queue ?v m)" for m unfolding list_all_iff tf by blast
    moreover have "conn_obj_ok ?v k" if "k < ?i" for k
    proof -
      have "listed ?v k = listed ?w k" "destroying ?v k = destroying ?w k" "establishing ?v k = establishing ?w k" "removing ?v k = removing ?w k"
        using that by (auto simp: listed_def destroying_def establishing_def removing_def)
      then show ?thesis using j(4) [OF that] by (simp add: conn_obj_ok_def)
    qed
    moreover have "conn_obj_ok ?v ?i"
    proof -
      have "listed ?v ?i" "destroying ?v ?i = 0" "establishing ?v ?i = 1"
        using listed none obj by (auto simp: listed_def destroying_def establishing_def ob_def)
      moreover have "c_state (conn_of ?v ?i) = Connecting" using st obj by (simp add: conn_of_def ob_def)
      ultimately show ?thesis using obj tab(2) l by (simp add: conn_obj_ok_def) (simp add: ob_def add.commute)
    qed
    ultimately show ?thesis using False obj(2) by (auto simp: ts_ok_def less_Suc_eq)
  qed
  moreover have "ts_listening ?v' = ts_listening v" by (simp add: joined_conn_def on_conn_eq with_conn_def mark_conn_def ts_post_def Let_def)
  ultimately show ?thesis using run by blast
qed


section \<open>Accepting\<close>

fun goes_on :: "accept_ret \<Rightarrow> bool" where
  "goes_on Acc_socket = True"
| "goes_on (Acc_error err) = (\<not> isWouldBlockError err \<and> (isInterruptedError err \<or> isTransientAcceptError err))"

lemma accept_loop_ok:
  assumes "ts_ok v"
  shows "\<exists>r v'. accept_loop strerror (ts_newConnection user heartbeat idle True) rs k v = (r, v') \<and> ts_ok v' \<and> ts_listening v' = ts_listening v"
  using assms
proof (induction rs arbitrary: v k)
  case (Cons r rs)
  show ?case
  proof (cases r)
    case Acc_socket
    obtain v1 where v1: "ts_newConnection user heartbeat idle True v = (Ret (), v1)" "ts_ok v1" "ts_listening v1 = ts_listening v"
      using newConnection_ok [OF Cons.prems] by blast
    then show ?thesis using Acc_socket Cons.IH [OF v1(2), of "k + 1"] by (simp add: run_seq)
  next
    case (Acc_error err)
    then show ?thesis using Cons by (simp add: run_ret run_throw)
  qed
qed (simp add: run_ret)

lemma accept_loop_goes_on:
  assumes "ts_ok v" and "list_all goes_on rs"
  shows "\<exists>v'. accept_loop strerror (ts_newConnection user heartbeat idle True) (rs @ rs') k v
      = accept_loop strerror (ts_newConnection user heartbeat idle True) rs' (k + count_list rs Acc_socket) v'
    \<and> ts_ok v' \<and> nconn v' = nconn v + count_list rs Acc_socket"
  using assms
proof (induction rs arbitrary: v k)
  case (Cons r rs)
  show ?case
  proof (cases r)
    case Acc_socket
    obtain v1 where v1: "ts_newConnection user heartbeat idle True v = (Ret (), v1)" "ts_ok v1" "nconn v1 = Suc (nconn v)"
      using newConnection_ok [OF Cons.prems(1)] by blast
    then show ?thesis using Acc_socket Cons.IH [OF v1(2), of "k + 1"] Cons.prems(2) by (auto simp: run_seq)
  next
    case (Acc_error err)
    then show ?thesis using Cons by auto
  qed
qed auto

lemma ts_run_functor_listening: "ts_listening (ts_run_functor user heartbeat idle f v) = ts_listening v"
  by (cases f) (simp_all add: on_conn_eq with_conn_def mark_conn_def removeConnectionInLoop_def ts_post_def Let_def)

text \<open>What the invariant looks at.\<close>

lemma ts_frame_ok:
  assumes "ts_ok v" and "ts_conns w = ts_conns v" "ts_connections w = ts_connections v" "ts_queue w = ts_queue v" "ts_pool w = ts_pool v"
    and "ts_name w = ts_name v" "ts_nextConnId w = ts_nextConnId v"
  shows "ts_ok w"
proof -
  have base: "ts_base w = ts_base v" using assms(5) by (simp add: ts_base_def)
  have "tf_ok w l f = tf_ok v l f" for l f using assms base by (cases f) auto
  moreover have "conn_obj_ok w i = conn_obj_ok v i" for i
    using assms base by (simp add: conn_obj_ok_def listed_def destroying_def establishing_def removing_def conn_of_def)
  moreover have "tf_ok w l = tf_ok v l" for l using calculation(1) by blast
  ultimately show ?thesis using assms by (simp add: ts_ok_def ts_table_ok_def)
qed

lemma ts_set_keeps:
  "ts_conns (snd (ts_set x v)) = ts_conns v" "ts_connections (snd (ts_set x v)) = ts_connections v" "ts_queue (snd (ts_set x v)) = ts_queue v"
  "ts_pool (snd (ts_set x v)) = ts_pool v" "ts_name (snd (ts_set x v)) = ts_name v" "ts_nextConnId (snd (ts_set x v)) = ts_nextConnId v"
  "ts_started (snd (ts_set x v)) = ts_started v" "ts_listening (snd (ts_set x v)) = ts_listening v"
  "ts_idleCheckTimer (snd (ts_set x v)) = ts_idleCheckTimer v"
  by (cases x; simp add: ts_before_start_def cpp_simps ts_enableAutoReadFlowControl_def)+

lemma ts_exec_ok:
  assumes "ts_ok v"
  shows "ts_ok (ts_exec user heartbeat idle strerror a v)"
proof (cases a)
  case (Ts_accept rs)
  obtain r v' where "accept_loop strerror (ts_newConnection user heartbeat idle True) rs 0 v = (r, v')" "ts_ok v'"
    using accept_loop_ok [OF assms] by blast
  then show ?thesis using assms Ts_accept by (simp add: acceptAvailable_def run_bind run_gets run_throw)
next
  case (Ts_functor l)
  then show ?thesis using functor_ok_step [OF assms, of l] assms by (auto simp: ts_popped_def split: list.split)
next
  case (Ts_set x)
  then show ?thesis using ts_frame_ok [OF assms, of "snd (ts_set x v)"] ts_set_keeps by simp
qed (use assms on_conn_ok check_ok ts_tick_ok in auto)

interpretation tcp_server: op_machine "ts_exec user heartbeat idle strerror" ts_ok for user heartbeat idle strerror
  by unfold_locales (rule ts_exec_ok)

text \<open>The server goes on listening.\<close>

lemma ts_exec_listening:
  assumes "ts_ok v"
  shows "ts_listening (ts_exec user heartbeat idle strerror a v) = ts_listening v"
proof (cases a)
  case (Ts_accept rs)
  obtain r v' where "accept_loop strerror (ts_newConnection user heartbeat idle True) rs 0 v = (r, v')" "ts_listening v' = ts_listening v"
    using accept_loop_ok [OF assms] by blast
  then show ?thesis using Ts_accept by (simp add: acceptAvailable_def run_bind run_gets run_throw)
next
  case (Ts_functor l)
  then show ?thesis by (auto simp: ts_run_functor_listening split: list.split)
next
  case Ts_check
  have post: "ts_listening (fold (\<lambda>i w. ts_post (co_loop (ts_conns w ! i)) (g w i) w) ks w) = ts_listening w" for g ks and w :: TcpServer
    by (induction ks arbitrary: w) (simp_all add: ts_post_def)
  then show ?thesis using Ts_check by (simp add: checkIdleConnections_def Let_def)
qed (simp_all add: ts_set_keeps on_conn_eq with_conn_def Let_def)

lemma fresh_server_ok: "fresh_server v \<Longrightarrow> ts_ok v"
  by (simp add: fresh_server_def ts_ok_def ts_table_ok_def)

section \<open>Properties\<close>

text \<open>A server that was constructed, set up and started.\<close>

definition ts_setup :: "ts_setting list \<Rightarrow> TcpServer \<Rightarrow> TcpServer" where
  "ts_setup settings v = fold (\<lambda>x w. snd (ts_set x w)) settings v"

lemma ts_setup_keeps:
  "ts_conns (ts_setup xs v) = ts_conns v" "ts_connections (ts_setup xs v) = ts_connections v" "ts_queue (ts_setup xs v) = ts_queue v"
  "ts_pool (ts_setup xs v) = ts_pool v" "ts_name (ts_setup xs v) = ts_name v" "ts_nextConnId (ts_setup xs v) = ts_nextConnId v"
  "ts_started (ts_setup xs v) = ts_started v" "ts_listening (ts_setup xs v) = ts_listening v"
  "ts_idleCheckTimer (ts_setup xs v) = ts_idleCheckTimer v"
  unfolding ts_setup_def by (induction xs arbitrary: v) (simp_all add: ts_set_keeps)

lemma mk_TcpServer_fields:
  assumes "mk_TcpServer (Some base) name None = Ret w"
  shows "ts_conns w = []" "ts_connections w = []" "ts_queue w l = []" "ts_nextConnId w = 1" "\<not> ts_started w" "\<not> ts_listening w" "ts_base w = base" "ts_idleCheckTimer w = None"
  using assms by (auto simp: mk_TcpServer_def mk_EventLoopThreadPool_def ts_base_def)

text \<open>
  Starting. After any settings, \<^verbatim>\<open>start\<close> in the loop's thread leaves a listening server with as many loops as there are threads, the accept channel reading and the idle
  check armed when a timeout is set; when \<^verbatim>\<open>listen\<close> fails the error is thrown and the server is neither started nor listening.
\<close>

theorem tcp_server_starts:
  assumes "mk_TcpServer (Some base) name None = Ret w0" and "w = ts_setup settings w0" and "v = snd (ts_start True new_loop err w)"
  shows "fst (ts_start True new_loop err w) = (case err of None \<Rightarrow> Ret () | Some msg \<Rightarrow> Throw (Runtime_error (''Acceptor listen failed: '' @ msg)))"
    and "err = None \<Longrightarrow> fresh_server v \<and> ts_started v \<and> lp_loops (ts_pool v) = map new_loop [0..<ts_threadCount w] \<and> ts_base v = base
      \<and> (\<exists>ch. ts_acceptChannel v = Some ch \<and> isReading ch) \<and> ts_idleCheckTimer v = (if ts_baseInterval w > 0 then Some (ts_baseInterval w) else None)"
    and "err \<noteq> None \<Longrightarrow> \<not> ts_started v \<and> \<not> ts_listening v"
proof -
  note f = mk_TcpServer_fields [OF assms(1)]
  have w: "\<not> ts_started w" "\<not> ts_listening w" "ts_conns w = []" "ts_connections w = []" "ts_queue w l = []" "ts_nextConnId w = 1" "ts_base w = base" "ts_idleCheckTimer w = None" for l
    using f by (simp_all add: assms(2) ts_setup_keeps ts_base_def)
  note run = ts_start_run [OF w(1)]
  have reading: "isReading (enableReading ch)" for ch by (simp add: isReading_bit enableReading_def kReadEvent_def bit_or_iff bit_1_iff updateChannel_def)
  show "fst (ts_start True new_loop err w) = (case err of None \<Rightarrow> Ret () | Some msg \<Rightarrow> Throw (Runtime_error (''Acceptor listen failed: '' @ msg)))"
    using w(2) by (cases err) (simp_all add: run Let_def)
  show "err \<noteq> None \<Longrightarrow> \<not> ts_started v \<and> \<not> ts_listening v"
    using w(1,2) by (cases err) (simp_all add: assms(3) run Let_def ts_thread_inits_def)
  assume none: "err = None"
  define p where "p = start_threads new_loop (ts_threadCount w) 0 \<lparr>lp_baseLoop = ts_base w, lp_poolName = ts_name w @ ''-io'',
    lp_threadCount = ts_threadCount w, lp_started = True, lp_next = 0, lp_threads = [], lp_loops = []\<rparr>"
  have p: "lp_loops p = map new_loop [0..<ts_threadCount w]" "lp_next p = 0" "lp_baseLoop p = base" by (simp_all add: p_def start_threads_fields w)
  define x where "x = ts_thread_inits (w\<lparr>ts_pool := p\<rparr>)\<lparr>ts_listening := True, ts_acceptChannel := Some (enableReading (setEdgeTriggered (ts_acceptorEdge w) mk_Channel))\<rparr>"
  have x: "ts_conns x = []" "ts_connections x = []" "ts_queue x l = []" "ts_nextConnId x = 1" "ts_pool x = p" "ts_listening x" "ts_idleCheckTimer x = None"
    "ts_acceptChannel x = Some (enableReading (setEdgeTriggered (ts_acceptorEdge w) mk_Channel))" "ts_baseInterval x = ts_baseInterval w" for l
    using w by (auto simp: x_def ts_thread_inits_def ts_baseInterval_def)
  have v: "v = startIdleCheck x\<lparr>ts_started := True\<rparr>" unfolding assms(3) run using none w(2) by (simp add: Let_def x_def p_def)
  show "fresh_server v \<and> ts_started v \<and> lp_loops (ts_pool v) = map new_loop [0..<ts_threadCount w] \<and> ts_base v = base
      \<and> (\<exists>ch. ts_acceptChannel v = Some ch \<and> isReading ch) \<and> ts_idleCheckTimer v = (if ts_baseInterval w > 0 then Some (ts_baseInterval w) else None)"
    using reading by (simp add: v startIdleCheck_def x fresh_server_def ts_base_def p)
qed

lemma started_server_ok:
  assumes "mk_TcpServer (Some base) name None = Ret w" and "v0 = snd (ts_start True new_loop None (ts_setup settings w))"
  shows "ts_ok (fold (ts_exec user heartbeat idle strerror) acts v0)" and "ts_listening (fold (ts_exec user heartbeat idle strerror) acts v0)"
proof -
  have v0: "fresh_server v0" using tcp_server_starts(2) [OF assms(1) refl assms(2)] by blast
  then show "ts_ok (fold (ts_exec user heartbeat idle strerror) acts v0)" by (rule tcp_server.run_inv [OF fresh_server_ok])
  have "ts_ok v0 \<Longrightarrow> ts_listening (fold (ts_exec user heartbeat idle strerror) acts v0) = ts_listening v0"
    by (induction acts arbitrary: v0) (simp_all add: ts_exec_ok ts_exec_listening)
  then show "ts_listening (fold (ts_exec user heartbeat idle strerror) acts v0)" using v0 fresh_server_ok by (simp add: fresh_server_def)
qed

text \<open>
  C7: Invariant. Whatever order the base loop accepts in, the loops run their functors in, connections send, receive, shut down (also from other threads in the middle of a close) and close in,
  and whatever the callbacks do: every accepted connection is in exactly one place, in the table, on its way to be destroyed, or destroyed, so \<^verbatim>\<open>connectDestroyed\<close> never runs twice; connections have their own
  names and are spread over the loops in turn; and \<^verbatim>\<open>connectEstablished\<close> finds the state it asks for and never throws. When no functor is left, a connection is destroyed if and only if its close callback was called, and
  in the table otherwise.
\<close>

theorem tcp_server_lifecycle:
  assumes "mk_TcpServer (Some base) name None = Ret w" and "v0 = snd (ts_start True new_loop None (ts_setup settings w))"
    and "v = fold (ts_exec user heartbeat idle strerror) acts v0" and "i < length (ts_conns v)"
  shows "of_bool (listed v i) + destroying v i + co_destroyed (ts_conns v ! i) = 1
    \<and> co_name (ts_conns v ! i) = ts_name v @ ''-'' @ to_string (int i + 1) \<and> co_loop (ts_conns v ! i) = ts_loop_at (ts_pool v) i
    \<and> (Tf_established i \<in> set (ts_queue v l) \<longrightarrow> fst (connectEstablished user (conn_of v i)) = Ret ())
    \<and> ((\<forall>l. ts_queue v l = []) \<longrightarrow> co_destroyed (ts_conns v ! i) = of_bool (0 < co_closed (ts_conns v ! i))
         \<and> map_of (ts_connections v) (co_name (ts_conns v ! i)) = (if 0 < co_closed (ts_conns v ! i) then None else Some i))"
proof -
  have ok: "ts_ok v" unfolding assms(3) by (rule started_server_ok [OF assms(1,2)])
  then have obj: "conn_obj_ok v i" using assms(4) by (simp add: ts_ok_def)
  have "fst (connectEstablished user (conn_of v i)) = Ret ()" if q: "Tf_established i \<in> set (ts_queue v l)"
  proof -
    have "list_all (tf_ok v l) (ts_queue v l)" using ok by (simp add: ts_ok_def)
    then have "tf_ok v l (Tf_established i)" using q by (auto simp: list_all_iff)
    then have "establishing v i \<noteq> 0" using q by (auto simp: establishing_def count_list_0_iff)
    then show ?thesis using obj connectEstablished_state by (auto simp: conn_obj_ok_def split: if_splits)
  qed
  moreover have "co_destroyed (ts_conns v ! i) = of_bool (0 < co_closed (ts_conns v ! i))
      \<and> map_of (ts_connections v) (co_name (ts_conns v ! i)) = (if 0 < co_closed (ts_conns v ! i) then None else Some i)" if "\<forall>l. ts_queue v l = []"
  proof -
    have "destroying v i = 0" "\<not> removing v i" using that by (auto simp: destroying_def removing_def)
    then show ?thesis using obj listed_iff [OF ok assms(4)] by (auto simp: conn_obj_ok_def)
  qed
  ultimately show ?thesis using obj by (simp add: conn_obj_ok_def)
qed

theorem tcp_server_lifecycle_witness:
  "\<exists>w v. mk_TcpServer (Some 0) ''s'' None = Ret w
    \<and> v = ts_exec quiet id id (\<lambda>_. []) (Ts_accept [Acc_socket]) (snd (ts_start True Suc None (ts_setup [Set_threadCount 2] w)))
    \<and> length (ts_conns v) = 1 \<and> of_bool (listed v 0) + destroying v 0 + co_destroyed (ts_conns v ! 0) = 1
    \<and> co_name (ts_conns v ! 0) = ts_name v @ ''-1'' \<and> co_loop (ts_conns v ! 0) = ts_loop_at (ts_pool v) 0"
proof -
  obtain w where w: "mk_TcpServer (Some 0) ''s'' None = Ret w" by (simp add: mk_TcpServer_def mk_EventLoopThreadPool_def)
  define v0 where "v0 = snd (ts_start True Suc None (ts_setup [Set_threadCount 2] w))"
  define v where "v = fold (ts_exec quiet id id (\<lambda>_. [])) [Ts_accept [Acc_socket]] v0"
  have v0: "fresh_server v0" using tcp_server_starts(2) [OF w refl v0_def] by blast
  obtain v1 where v1: "ts_newConnection quiet id id True v0 = (Ret (), v1)" "nconn v1 = 1"
    using newConnection_ok [OF fresh_server_ok [OF v0], of quiet id id] v0 by (auto simp: fresh_server_def)
  then have "v = v1" using v0 by (simp add: v_def acceptAvailable_def run_bind run_gets run_seq run_ret fresh_server_def)
  then have "0 < length (ts_conns v)" "length (ts_conns v) = 1" using v1 by simp_all
  moreover have "to_string 1 = ''1''" by (simp add: to_string_def nat_digits.simps digit_char_def char_of_def bit_iff_odd)
  ultimately show ?thesis using w tcp_server_lifecycle [OF w v0_def v_def, of 0] by (intro exI [of _ w] exI [of _ v]) (simp add: v_def v0_def)
qed

text \<open>
  C35: Error behaviour of accepting. However sockets and the errors that are ignored come, every socket gets a connection of its own; then would-block ends the loop with the number of sockets, and any other
  error, such as running out of descriptors, is thrown out of the handler, with the connections made so far kept.
\<close>

theorem tcp_server_accepts:
  assumes "mk_TcpServer (Some base) name None = Ret w" and "v0 = snd (ts_start True new_loop None (ts_setup settings w))"
    and "v = fold (ts_exec user heartbeat idle strerror) acts v0"
    and "list_all goes_on rs" and "\<not> goes_on (Acc_error err)"
  shows "\<exists>v'. acceptAvailable user heartbeat idle strerror (rs @ Acc_error err # rest) v =
      (if isWouldBlockError err then Ret (count_list rs Acc_socket) else Throw (Runtime_error (''Acceptor accept failed: '' @ strerror err)), v')
    \<and> length (ts_conns v') = length (ts_conns v) + count_list rs Acc_socket"
proof -
  have ok: "ts_ok v" "ts_listening v" unfolding assms(3) by (rule started_server_ok [OF assms(1,2)])+
  then obtain v' where v': "accept_loop strerror (ts_newConnection user heartbeat idle True) (rs @ Acc_error err # rest) 0 v
      = accept_loop strerror (ts_newConnection user heartbeat idle True) (Acc_error err # rest) (0 + count_list rs Acc_socket) v'"
    "nconn v' = nconn v + count_list rs Acc_socket" using accept_loop_goes_on [OF _ assms(4)] by blast
  then show ?thesis using ok(2) assms(5) by (auto simp: acceptAvailable_def run_bind run_gets run_throw run_ret)
qed

theorem tcp_server_accepts_witness:
  "\<exists>w v'. mk_TcpServer (Some 0) ''s'' None = Ret w
    \<and> acceptAvailable quiet id id (\<lambda>_. ''too many files'') [Acc_socket, Acc_error 4, Acc_socket, Acc_error 24] (snd (ts_start True Suc None (ts_setup [Set_threadCount 2] w)))
      = (Throw (Runtime_error ''Acceptor accept failed: too many files''), v') \<and> length (ts_conns v') = 2"
proof -
  obtain w where w: "mk_TcpServer (Some 0) ''s'' None = Ret w" by (simp add: mk_TcpServer_def mk_EventLoopThreadPool_def)
  have "fresh_server (snd (ts_start True Suc None (ts_setup [Set_threadCount 2] w)))" using tcp_server_starts(2) [OF w refl refl] by blast
  then have "ts_conns (snd (ts_start True Suc None (ts_setup [Set_threadCount 2] w))) = []" by (simp add: fresh_server_def)
  then show ?thesis
    using w tcp_server_accepts [OF w refl, where acts = "[]" and rs = "[Acc_socket, Acc_error 4, Acc_socket]" and err = 24 and rest = "[]" and strerror = "\<lambda>_. ''too many files''"
        and user = quiet and heartbeat = id and idle = id and settings = "[Set_threadCount 2]" and new_loop = Suc, OF refl]
    by (auto simp: isWouldBlockError_def isInterruptedError_def isTransientAcceptError_def EINTR_def ECONNABORTED_def EPROTO_def EPERM_def EAGAIN_def EWOULDBLOCK_def)
qed

end
