(* ===== verification/FramedServer.thy ===== *)
theory FramedServer
  imports TcpMessages TcpServer
begin

text \<open>
  \<^verbatim>\<open>dbase::net::FramedTcpServer\<close> (\<^verbatim>\<open>code/src/net/framed_tcp_server.cpp\<close>): a \<^verbatim>\<open>TcpServer\<close> whose message callback takes frames out of the connection's input
  buffer itself. \<open>cb\<close> is the frame callback, if there is one, as a function of the connection.
\<close>

section \<open>The server\<close>

record FramedTcpServer =
  fts_server :: TcpServer
  fts_codec :: LengthFieldCodec
  fts_hasConnectionCb :: bool
  fts_hasWriteCompleteCb :: bool
  fts_hasThreadInitCb :: bool
  fts_hasFrameCb :: bool

text \<open>The constructor installs three callbacks that look at the server's own ones when they are called.\<close>

definition mk_FramedTcpServer :: "nat option \<Rightarrow> string \<Rightarrow> string option \<Rightarrow> LengthFieldCodec \<Rightarrow> FramedTcpServer outcome" where
  "mk_FramedTcpServer loop name acceptor cd =
     obind (mk_TcpServer loop name acceptor) (\<lambda>v. Ret
       \<lparr>fts_server = ts_setup [Set_callback K_connection True, Set_callback K_writeComplete True, Set_callback K_message True] v,
        fts_codec = cd, fts_hasConnectionCb = False, fts_hasWriteCompleteCb = False, fts_hasThreadInitCb = False, fts_hasFrameCb = False\<rparr>)"

definition on_server :: "(TcpServer, 'a) cpp \<Rightarrow> (FramedTcpServer, 'a) cpp" where
  "on_server m = (\<lambda>s. case m (fts_server s) of (r, v) \<Rightarrow> (r, s\<lparr>fts_server := v\<rparr>))"

definition fts_setThreadInitCallback :: "bool \<Rightarrow> (FramedTcpServer, unit) cpp" where
  "fts_setThreadInitCallback on = seq (modify (\<lambda>s. s\<lparr>fts_hasThreadInitCb := on\<rparr>)) (on_server (ts_set (Set_threadInitCb on)))"

definition fts_setThreadCount :: "nat \<Rightarrow> (FramedTcpServer, unit) cpp" where
  "fts_setThreadCount n = on_server (ts_set (Set_threadCount n))"

definition fts_start :: "bool \<Rightarrow> (nat \<Rightarrow> nat) \<Rightarrow> string option \<Rightarrow> (FramedTcpServer, unit) cpp" where
  "fts_start inLoop new_loop err = on_server (ts_start inLoop new_loop err)"

section \<open>Connections\<close>

text \<open>\<open>present\<close> says that the pointer to the connection is not null.\<close>

definition framed_send :: "user \<Rightarrow> bool \<Rightarrow> (byte list \<Rightarrow> sys_write) \<Rightarrow> LengthFieldCodec \<Rightarrow> bool \<Rightarrow> byte list \<Rightarrow> (TcpConnection, unit) cpp" where
  "framed_send user inLoop wr cd present payload =
     (if \<not> present then throw (Invalid_argument ''FramedTcpServer::send conn is null'')
      else bind (lift (encodeFrame cd payload)) (\<lambda>out. bind (send_buffer user inLoop wr out) (\<lambda>_. ret ())))"

definition framed_shutdown :: "bool \<Rightarrow> bool \<Rightarrow> (TcpConnection, unit) cpp" where
  "framed_shutdown inLoop present = (if \<not> present then ret () else shutdown inLoop)"

definition framed_forceClose :: "user \<Rightarrow> bool \<Rightarrow> bool \<Rightarrow> (TcpConnection, unit) cpp" where
  "framed_forceClose user inLoop present = (if \<not> present then ret () else forceClose user inLoop)"

primrec onRawMessage :: "nat \<Rightarrow> user \<Rightarrow> (byte list \<Rightarrow> TcpConnection \<Rightarrow> TcpConnection) option \<Rightarrow> LengthFieldCodec \<Rightarrow> (TcpConnection, unit) cpp" where
  "onRawMessage 0 user cb cd = undef"
| "onRawMessage (Suc fuel) user cb cd = bind (on_in (tryDecode cd)) (\<lambda>result.
     case dec_status result of
       Dec_Ok \<Rightarrow> seq (case cb of None \<Rightarrow> ret () | Some f \<Rightarrow> modify (f (dec_payload result))) (onRawMessage fuel user cb cd)
     | Dec_NeedMoreData \<Rightarrow> ret ()
     | _ \<Rightarrow> forceClose user True)"

text \<open>A frame callback that does what \<open>user\<close> does, and is seen to be called.\<close>

definition frame_cb :: "user \<Rightarrow> byte list \<Rightarrow> TcpConnection \<Rightarrow> TcpConnection" where
  "frame_cb user p c = user (Cb_frame p) (c\<lparr>c_calls := c_calls c @ [Cb_frame p]\<rparr>)"

lemma forceClose_in_loop: "forceClose user True = handleClose user"
  by (auto simp: fun_eq_iff forceClose_def forceCloseInLoop_def handleClose_def cpp_simps)

text \<open>The reading that both loops share: frames are handed over until \<^verbatim>\<open>tryDecode\<close> gives another status.\<close>

primrec frames_until :: "nat \<Rightarrow> user \<Rightarrow> LengthFieldCodec \<Rightarrow> (TcpConnection, DecodeStatus) cpp" where
  "frames_until 0 user cd = undef"
| "frames_until (Suc fuel) user cd = bind (on_in (tryDecode cd)) (\<lambda>result.
     if dec_status result = Dec_Ok then seq (modify (frame_cb user (dec_payload result))) (frames_until fuel user cd)
     else ret (dec_status result))"

lemma onRawMessage_frames:
  "onRawMessage fuel user (Some (frame_cb user)) cd c
     = bind (frames_until fuel user cd) (\<lambda>st. if st = Dec_NeedMoreData then ret () else handleClose user) c"
proof (induction fuel arbitrary: c)
  case (Suc fuel)
  obtain r b where d: "tryDecode cd (c_in c) = (r, b)" by fastforce
  show ?case
  proof (cases r)
    case (Ret res)
    then show ?thesis using d Suc.IH by (cases "dec_status res") (simp_all add: on_in_def cpp_simps forceClose_in_loop)
  qed (use d in \<open>simp_all add: on_in_def cpp_simps\<close>)
qed (simp add: cpp_simps)

lemma handleCodecMessages_frames:
  assumes "\<And>ev c. c_hasCb (user ev c) = c_hasCb c" and "c_hasCb c K_frame"
  shows "handleCodecMessages fuel user cd c
     = bind (frames_until fuel user cd) (\<lambda>st. if st = Dec_NeedMoreData then ret () else seq (fire user (Cb_error kCodecError)) (handleClose user)) c"
  using assms(2)
proof (induction fuel arbitrary: c)
  case (Suc fuel)
  obtain r b where d: "tryDecode cd (c_in c) = (r, b)" by fastforce
  show ?case
  proof (cases r)
    case (Ret res)
    show ?thesis
    proof (cases "dec_status res")
      case Dec_Ok
      let ?c = "frame_cb user (dec_payload res) (c\<lparr>c_in := b\<rparr>)"
      have "c_hasCb ?c = c_hasCb c" by (simp add: frame_cb_def assms(1))
      then show ?thesis using Suc.IH [of ?c] Suc.prems Ret Dec_Ok d by (simp add: on_in_def cpp_simps fire_def frame_cb_def)
    qed (use Ret d in \<open>simp_all add: on_in_def cpp_simps\<close>)
  qed (use d in \<open>simp_all add: on_in_def cpp_simps\<close>)
qed (simp add: cpp_simps)

lemma frames_until_hasCb:
  assumes "\<And>ev c. c_hasCb (user ev c) = c_hasCb c"
  shows "c_hasCb (snd (frames_until fuel user cd c)) = c_hasCb c"
proof (induction fuel arbitrary: c)
  case (Suc fuel)
  then show ?case by (auto simp: on_in_def cpp_simps frame_cb_def assms split: prod.split outcome.split)
qed (simp add: cpp_simps)

text \<open>
  C17: The framed server and the connection's own codec compared, for any bytes and any callbacks that do not exchange the callbacks of the connection. Both hand over the same frames in the same order to the frame callback, with whatever that does to
  the connection in between, and stop at the same place; where a length is malformed both close the connection there, and the only difference is that \<^verbatim>\<open>handleCodecMessages\<close> first reports \<open>kCodecError\<close> to the
  error callback. So without an error callback they leave exactly the same.
\<close>

theorem framed_server_as_codec:
  assumes "\<And>ev c. c_hasCb (user ev c) = c_hasCb c" and "c_hasCb c K_frame"
  shows "onRawMessage fuel user (Some (frame_cb user)) cd c
           = bind (frames_until fuel user cd) (\<lambda>st. if st = Dec_NeedMoreData then ret () else handleClose user) c
     \<and> handleCodecMessages fuel user cd c
           = bind (frames_until fuel user cd) (\<lambda>st. if st = Dec_NeedMoreData then ret () else seq (fire user (Cb_error kCodecError)) (handleClose user)) c
     \<and> (\<not> c_hasCb c K_error \<longrightarrow> onRawMessage fuel user (Some (frame_cb user)) cd c = handleCodecMessages fuel user cd c)"
proof -
  note eqs = onRawMessage_frames [of fuel user cd c] handleCodecMessages_frames [where user = user and fuel = fuel and cd = cd, OF assms]
  moreover have "onRawMessage fuel user (Some (frame_cb user)) cd c = handleCodecMessages fuel user cd c" if "\<not> c_hasCb c K_error"
  proof (cases "frames_until fuel user cd c")
    case (Pair r d)
    then have "\<not> c_hasCb d K_error" using frames_until_hasCb [where user = user and fuel = fuel and cd = cd and c = c, OF assms(1)] that by simp
    then show ?thesis unfolding eqs by (cases r) (simp_all add: Pair cpp_simps fire_def)
  qed
  ultimately show ?thesis by blast
qed

theorem framed_server_as_codec_witness:
  "\<exists>c c' :: TcpConnection. content (c_in c) = [0, 1, 9]
    \<and> onRawMessage 4 quiet (Some (frame_cb quiet)) \<lparr>m_lengthFieldBytes = 2, m_lengthMode = PayloadOnly, m_maxFrameLength = 100\<rparr> c = (Ret (), c')
    \<and> c_calls c' = c_calls c @ [Cb_frame [9]]"
proof -
  let ?cd = "\<lparr>m_lengthFieldBytes = 2, m_lengthMode = PayloadOnly, m_maxFrameLength = 100\<rparr> :: LengthFieldCodec"
  obtain c0 where "mk_TcpConnection True True ''a'' 7 = Ret c0" using mk_connection_returns by blast
  define c where "c = (configured (\<lambda>k. k = K_frame) None 100 False c0)\<lparr>c_in := \<lparr>m_buffer = replicate 8 0 @ [0, 1, 9], m_readerIndex = 8, m_writerIndex = 11\<rparr>\<rparr>"
  have cd: "codec_ok ?cd" "list_all (fits ?cd) [[9]]" by (simp_all add: codec_ok_def size_t_mod_def fits_def field_value_def)
  have fr: "frame ?cd [9] = [0, 1, 9]" by (simp add: frame_def field_value_def field_bytes_def be_bytes_def mem_of_word_def upts)
  have c: "c_hasCb c K_frame" "\<not> c_hasCb c K_error" "stream_inv (c_in c)" "content (c_in c) = [0, 1, 9]"
    by (simp_all add: c_def configured_def stream_inv_def buffer_defs)
  obtain ds ps' b where d: "[[9]] = ds @ ps'" "handleCodecMessages 4 quiet ?cd c = (Ret (), c\<lparr>c_in := b, c_calls := c_calls c @ map Cb_frame ds\<rparr>)"
    "content (c_in c) = concat (map (frame ?cd) ds) @ content b" "case ps' of [] \<Rightarrow> content b = [] | p # _ \<Rightarrow> strict_prefix (content b) (frame ?cd p)"
    using deliver_frames [OF cd(1) c(1) cd(2) c(3), of 4] c(4) fr by auto
  have "ds = [[9]]" using d(1,3,4) c(4) fr by (cases ds) (auto simp: strict_prefix_def)
  then have h: "handleCodecMessages 4 quiet ?cd c = (Ret (), c\<lparr>c_in := b, c_calls := c_calls c @ [Cb_frame [9]]\<rparr>)" using d(2) by simp
  have q: "c_hasCb (quiet ev x) = c_hasCb x" for ev x by (simp add: quiet_def)
  from framed_server_as_codec [where user = quiet and c = c and fuel = 4 and cd = ?cd, OF q c(1)] c(2)
  have "onRawMessage 4 quiet (Some (frame_cb quiet)) ?cd c = handleCodecMessages 4 quiet ?cd c" by blast
  then have "onRawMessage 4 quiet (Some (frame_cb quiet)) ?cd c = (Ret (), c\<lparr>c_in := b, c_calls := c_calls c @ [Cb_frame [9]]\<rparr>)" unfolding h .
  then show ?thesis using c(4) by (intro exI [of _ c] exI [of _ "c\<lparr>c_in := b, c_calls := c_calls c @ [Cb_frame [9]]\<rparr>"]) (simp del: onRawMessage.simps)
qed

end
