(* ===== verification/Metrics.thy ===== *)
theory Metrics
  imports Errors Std_Strings "HOL-Library.Word" "HOL-Library.Multiset"
begin

text \<open>
  \<^verbatim>\<open>dbase::metrics\<close> (\<^verbatim>\<open>code/include/dbase/metrics\<close>, \<^verbatim>\<open>code/src/metrics/registry.cpp\<close>): counters, gauges, histograms and the registry that owns them. The values of gauges and histograms are of any
  linearly ordered type (floating-point numbers other than NaN), and the arithmetic on them is a parameter.
\<close>

section \<open>Values\<close>

text \<open>\<open>dbl_index p n\<close> is the product of \<open>p\<close> percent and \<open>n\<close>, rounded down to an integer.\<close>

record 'd double_ops =
  dbl_zero :: 'd
  dbl_add :: "'d \<Rightarrow> 'd \<Rightarrow> 'd"
  dbl_neg :: "'d \<Rightarrow> 'd"
  dbl_div :: "'d \<Rightarrow> 64 word \<Rightarrow> 'd"
  dbl_index :: "nat \<Rightarrow> nat \<Rightarrow> nat"

section \<open>Histograms\<close>

record 'd Histogram =
  h_maxSamples :: nat
  h_samples :: "'d list"
  h_nextIndex :: nat
  h_totalCount :: "64 word"
  h_totalSum :: 'd

record 'd HistogramSnapshot =
  hs_count :: "64 word"
  hs_sum :: 'd
  hs_min :: 'd
  hs_max :: 'd
  hs_avg :: 'd
  hs_p50 :: 'd
  hs_p90 :: 'd
  hs_p95 :: 'd
  hs_p99 :: 'd

definition mk_Histogram :: "'d double_ops \<Rightarrow> nat \<Rightarrow> 'd Histogram" where
  "mk_Histogram D maxSamples =
     \<lparr>h_maxSamples = (if maxSamples = 0 then 1 else maxSamples), h_samples = [], h_nextIndex = 0, h_totalCount = 0, h_totalSum = dbl_zero D\<rparr>"

definition observe :: "'d double_ops \<Rightarrow> 'd \<Rightarrow> 'd Histogram \<Rightarrow> 'd Histogram" where
  "observe D value h =
     (let h = h\<lparr>h_totalCount := h_totalCount h + 1, h_totalSum := dbl_add D (h_totalSum h) value\<rparr>
      in if length (h_samples h) < h_maxSamples h then h\<lparr>h_samples := h_samples h @ [value]\<rparr>
         else let next = h_nextIndex h + 1
              in h\<lparr>h_samples := (h_samples h)[h_nextIndex h := value], h_nextIndex := (if next \<ge> h_maxSamples h then 0 else next)\<rparr>)"

definition indexForPercentile :: "'d double_ops \<Rightarrow> nat \<Rightarrow> nat \<Rightarrow> nat" where
  "indexForPercentile D n percentile =
     (if n = 0 then 0 else let idx = dbl_index D percentile (n - 1) in if idx \<ge> n then n - 1 else idx)"

definition snapshot :: "'d::linorder double_ops \<Rightarrow> 'd Histogram \<Rightarrow> 'd HistogramSnapshot" where
  "snapshot D h =
     (let z = dbl_zero D;
          result = \<lparr>hs_count = h_totalCount h, hs_sum = h_totalSum h, hs_min = z, hs_max = z, hs_avg = z, hs_p50 = z, hs_p90 = z, hs_p95 = z, hs_p99 = z\<rparr>
      in if h_samples h = [] then result
         else let sorted = sort (h_samples h); at = (\<lambda>p. sorted ! indexForPercentile D (length sorted) p)
              in result\<lparr>hs_min := hd sorted, hs_max := last sorted,
                   hs_avg := (if hs_count result = 0 then z else dbl_div D (hs_sum result) (hs_count result)),
                   hs_p50 := at 50, hs_p90 := at 90, hs_p95 := at 95, hs_p99 := at 99\<rparr>)"

section \<open>Metrics and the registry\<close>

datatype MetricType = Mt_Counter | Mt_Gauge | Mt_Histogram

datatype 'd metric = M_counter "64 word" | M_gauge 'd | M_histogram "'d Histogram"

fun metric_type :: "'d metric \<Rightarrow> MetricType" where
  "metric_type (M_counter _) = Mt_Counter"
| "metric_type (M_gauge _) = Mt_Gauge"
| "metric_type (M_histogram _) = Mt_Histogram"

fun make_metric :: "'d double_ops \<Rightarrow> MetricType \<Rightarrow> nat \<Rightarrow> 'd metric" where
  "make_metric D Mt_Counter maxSamples = M_counter 0"
| "make_metric D Mt_Gauge maxSamples = M_gauge (dbl_zero D)"
| "make_metric D Mt_Histogram maxSamples = M_histogram (mk_Histogram D maxSamples)"

text \<open>The registry; \<open>mr_refs\<close> are the references it has given out, each with the class it was cast to.\<close>

record 'd MetricRegistry =
  mr_metrics :: "(string \<times> 'd metric) list"
  mr_refs :: "(string \<times> MetricType) list"

definition mk_MetricRegistry :: "'d MetricRegistry" where
  "mk_MetricRegistry = \<lparr>mr_metrics = [], mr_refs = []\<rparr>"

definition getOrCreate :: "'d double_ops \<Rightarrow> string \<Rightarrow> MetricType \<Rightarrow> nat \<Rightarrow> ('d MetricRegistry, nat) cpp" where
  "getOrCreate D name expectedType maxSamples r =
     (let ref = (Ret (length (mr_refs r)), r\<lparr>mr_refs := mr_refs r @ [(name, expectedType)]\<rparr>)
      in case map_of (mr_metrics r) name of
           Some m \<Rightarrow>
             if metric_type m \<noteq> expectedType then (Throw (Logic_error (''MetricRegistry type mismatch for metric: '' @ name)), r) else ref
         | None \<Rightarrow>
             (fst ref, (snd ref)\<lparr>mr_metrics := mr_metrics r @ [(name, make_metric D expectedType maxSamples)]\<rparr>))"

definition find_metric :: "string \<Rightarrow> 'd MetricRegistry \<Rightarrow> 'd metric Result" where
  "find_metric name r =
     (case map_of (mr_metrics r) name of
        None \<Rightarrow> makeErrorResult EC_NotFound (''metric not found: '' @ name)
      | Some m \<Rightarrow> Value m)"

text \<open>\<^verbatim>\<open>dumpText\<close>: \<open>fixed\<close> writes a floating-point number with six digits, \<open>hash_order\<close> is the order of the hash table.\<close>

fun dump_metric :: "'d::linorder double_ops \<Rightarrow> ('d \<Rightarrow> string) \<Rightarrow> string \<times> 'd metric \<Rightarrow> string" where
  "dump_metric D fixed (name, M_counter v) = name @ '' '' @ to_string (sint v) @ [CHR 0x0A]"
| "dump_metric D fixed (name, M_gauge v) = name @ '' '' @ fixed v @ [CHR 0x0A]"
| "dump_metric D fixed (name, M_histogram h) =
     (let snap = snapshot D h; line = (\<lambda>key v. name @ key @ fixed v @ [CHR 0x0A])
      in name @ ''.count '' @ to_string (uint (hs_count snap)) @ [CHR 0x0A] @ line ''.sum '' (hs_sum snap) @ line ''.min '' (hs_min snap) @ line ''.max '' (hs_max snap)
         @ line ''.avg '' (hs_avg snap) @ line ''.p50 '' (hs_p50 snap) @ line ''.p90 '' (hs_p90 snap) @ line ''.p95 '' (hs_p95 snap) @ line ''.p99 '' (hs_p99 snap))"

definition dumpText :: "'d::linorder double_ops \<Rightarrow> ('d \<Rightarrow> string) \<Rightarrow> ((string \<times> 'd metric) list \<Rightarrow> (string \<times> 'd metric) list) \<Rightarrow> 'd MetricRegistry \<Rightarrow> string" where
  "dumpText D fixed hash_order r = concat (map (dump_metric D fixed) (hash_order (mr_metrics r)))"

text \<open>The member functions that change a metric, and which class has them. On an object of another class the call is undefined.\<close>

datatype 'd metric_call = Mc_inc "64 word" | Mc_reset "64 word" | Mc_set 'd | Mc_add 'd | Mc_dec 'd | Mc_observe 'd

fun call_type :: "'d metric_call \<Rightarrow> MetricType" where
  "call_type (Mc_inc _) = Mt_Counter"
| "call_type (Mc_reset _) = Mt_Counter"
| "call_type (Mc_set _) = Mt_Gauge"
| "call_type (Mc_add _) = Mt_Gauge"
| "call_type (Mc_dec _) = Mt_Gauge"
| "call_type (Mc_observe _) = Mt_Histogram"

fun metric_do :: "'d double_ops \<Rightarrow> 'd metric_call \<Rightarrow> 'd metric \<Rightarrow> 'd metric outcome" where
  "metric_do D (Mc_inc n) (M_counter v) = Ret (M_counter (v + n))"
| "metric_do D (Mc_reset n) (M_counter v) = Ret (M_counter n)"
| "metric_do D (Mc_set x) (M_gauge v) = Ret (M_gauge x)"
| "metric_do D (Mc_add x) (M_gauge v) = Ret (M_gauge (dbl_add D v x))"
| "metric_do D (Mc_dec x) (M_gauge v) = Ret (M_gauge (dbl_add D v (dbl_neg D x)))"
| "metric_do D (Mc_observe x) (M_histogram h) = Ret (M_histogram (observe D x h))"
| "metric_do D _ _ = Undef"

definition put_metric :: "string \<Rightarrow> 'd metric \<Rightarrow> (string \<times> 'd metric) list \<Rightarrow> (string \<times> 'd metric) list" where
  "put_metric name m ms = map (\<lambda>(n, x). if n = name then (n, m) else (n, x)) ms"

text \<open>A call through the reference \<open>k\<close>, which the compiler accepts when its class has the function.\<close>

definition use_ref :: "'d double_ops \<Rightarrow> nat \<Rightarrow> 'd metric_call \<Rightarrow> ('d MetricRegistry, unit) cpp" where
  "use_ref D k call r =
     (case mr_refs r ! k of (name, t) \<Rightarrow>
        (case map_of (mr_metrics r) name of
           None \<Rightarrow> (Undef, r)
         | Some m \<Rightarrow>
             (case metric_do D call m of
                Ret m' \<Rightarrow> (Ret (), r\<lparr>mr_metrics := put_metric name m' (mr_metrics r)\<rparr>)
              | Throw e \<Rightarrow> (Throw e, r)
              | Undef \<Rightarrow> (Undef, r))))"

datatype 'd metric_op = Mo_get string MetricType nat | Mo_use nat "'d metric_call"

definition mo_typed :: "'d MetricRegistry \<Rightarrow> 'd metric_op \<Rightarrow> bool" where
  "mo_typed r op = (case op of Mo_get _ _ _ \<Rightarrow> True | Mo_use k call \<Rightarrow> k < length (mr_refs r) \<and> snd (mr_refs r ! k) = call_type call)"

fun mo_run :: "'d double_ops \<Rightarrow> 'd metric_op \<Rightarrow> 'd MetricRegistry \<Rightarrow> unit outcome \<times> 'd MetricRegistry" where
  "mo_run D (Mo_get name t maxSamples) r = (case getOrCreate D name t maxSamples r of (x, r') \<Rightarrow> (obind x (\<lambda>_. Ret ()), r'))"
| "mo_run D (Mo_use k call) r = use_ref D k call r"

text \<open>A program: operations that do not compile are left out.\<close>

definition mo_exec :: "'d double_ops \<Rightarrow> 'd metric_op \<Rightarrow> 'd MetricRegistry \<Rightarrow> 'd MetricRegistry" where
  "mo_exec D op r = (if mo_typed r op then snd (mo_run D op r) else r)"

section \<open>Types\<close>

definition ref_ok :: "(string \<times> 'd metric) list \<Rightarrow> string \<times> MetricType \<Rightarrow> bool" where
  "ref_ok ms x \<longleftrightarrow> map_option metric_type (map_of ms (fst x)) = Some (snd x)"

definition refs_ok :: "'d MetricRegistry \<Rightarrow> bool" where
  "refs_ok r \<longleftrightarrow> list_all (ref_ok (mr_metrics r)) (mr_refs r)"

lemma map_of_put: "map_of (put_metric name m ms) n = (if n = name \<and> map_of ms n \<noteq> None then Some m else map_of ms n)"
  by (induction ms) (auto simp: put_metric_def)

lemma metric_do_typed: "metric_type m = call_type call \<Longrightarrow> \<exists>m'. metric_do D call m = Ret m' \<and> metric_type m' = metric_type m"
  by (cases call; cases m) simp_all

lemma get_refs_ok:
  assumes "refs_ok r"
  shows "refs_ok (snd (getOrCreate D name t n r))"
proof (cases "map_of (mr_metrics r) name")
  case None
  let ?ms = "mr_metrics r @ [(name, make_metric D t n)]"
  have "metric_type (make_metric D t n) = t" by (cases t) simp_all
  then have "ref_ok ?ms (name, t)" using None by (simp add: ref_ok_def map_add_def)
  moreover have "ref_ok (mr_metrics r) x \<Longrightarrow> ref_ok ?ms x" for x using None by (auto simp: ref_ok_def map_add_def split: option.split)
  ultimately show ?thesis using assms None by (auto simp: refs_ok_def getOrCreate_def Let_def list_all_iff)
next
  case (Some m)
  then have "metric_type m = t \<Longrightarrow> ref_ok (mr_metrics r) (name, t)" by (simp add: ref_ok_def)
  then show ?thesis using assms Some by (auto simp: refs_ok_def getOrCreate_def Let_def)
qed

lemma use_refs_ok:
  assumes "refs_ok r" and "k < length (mr_refs r)" and "snd (mr_refs r ! k) = call_type call"
  shows "fst (use_ref D k call r) = Ret ()" and "refs_ok (snd (use_ref D k call r))"
proof -
  obtain name t where k: "mr_refs r ! k = (name, t)" by fastforce
  have "ref_ok (mr_metrics r) (mr_refs r ! k)" using assms(1,2) by (simp add: refs_ok_def list_all_length)
  then obtain m where m: "map_of (mr_metrics r) name = Some m" "metric_type m = call_type call" using k assms(3) by (auto simp: ref_ok_def)
  obtain m' where m': "metric_do D call m = Ret m'" "metric_type m' = metric_type m" using metric_do_typed [OF m(2)] by blast
  show "fst (use_ref D k call r) = Ret ()" using k m(1) m'(1) by (simp add: use_ref_def)
  have "ref_ok (mr_metrics r) x \<Longrightarrow> ref_ok (put_metric name m' (mr_metrics r)) x" for x
    using m(1) m'(2) by (auto simp: ref_ok_def map_of_put)
  then show "refs_ok (snd (use_ref D k call r))" using assms(1) k m(1) m'(1) by (auto simp: refs_ok_def use_ref_def list_all_iff)
qed

lemma mo_exec_ok:
  assumes "refs_ok r"
  shows "refs_ok (mo_exec D op r)"
proof (cases op)
  case (Mo_get name t n)
  then show ?thesis using get_refs_ok [OF assms, of D name t n] assms by (cases "getOrCreate D name t n r") (simp add: mo_exec_def)
next
  case (Mo_use k call)
  then show ?thesis using use_refs_ok(2) [OF assms] assms by (simp add: mo_exec_def mo_typed_def)
qed

interpretation metrics: op_machine "mo_exec D" refs_ok for D
  by unfold_locales (rule mo_exec_ok)

text \<open>
  C28: Type safety. After any sequence of calls of \<^verbatim>\<open>counter\<close>, \<^verbatim>\<open>gauge\<close> and \<^verbatim>\<open>histogram\<close> and of uses of the references they returned, also old ones, every reference points to a metric of its own class, so
  no use through it is undefined; and asking for a metric returns a reference unless the name is taken by a metric of another class, which throws and changes nothing.
\<close>

theorem metrics_types:
  assumes "r = fold (mo_exec D) ops mk_MetricRegistry"
  shows "(k < length (mr_refs r) \<and> snd (mr_refs r ! k) = call_type call \<longrightarrow> fst (use_ref D k call r) = Ret ())
    \<and> fst (getOrCreate D name t n r) = (if \<exists>m. map_of (mr_metrics r) name = Some m \<and> metric_type m \<noteq> t
         then Throw (Logic_error (''MetricRegistry type mismatch for metric: '' @ name)) else Ret (length (mr_refs r)))
    \<and> ((\<exists>m. map_of (mr_metrics r) name = Some m \<and> metric_type m \<noteq> t) \<longrightarrow> snd (getOrCreate D name t n r) = r)"
proof -
  have "refs_ok (mk_MetricRegistry :: 'a MetricRegistry)" by (simp add: refs_ok_def mk_MetricRegistry_def)
  then have "refs_ok r" unfolding assms by (rule metrics.run_inv)
  then show ?thesis using use_refs_ok(1) [of r k call D] by (auto simp: getOrCreate_def Let_def split: option.split)
qed

section \<open>Windows\<close>

definition window :: "nat \<Rightarrow> 'd list \<Rightarrow> 'd list" where
  "window m xs = drop (length xs - m) xs"

lemma window_snoc: "0 < m \<Longrightarrow> window m (xs @ [x]) = (if length xs < m then window m xs else tl (window m xs)) @ [x]"
  by (auto simp: window_def drop_Suc tl_drop Suc_diff_le)

lemma observe_rotates:
  assumes "length S = m" and "n < m"
  shows "let n' = (if n + 1 \<ge> m then 0 else n + 1); S' = S[n := v] in drop n' S' @ take n' S' = tl (drop n S @ take n S) @ [v]"
proof -
  have S: "S = take n S @ S ! n # drop (Suc n) S" using assms by (simp add: id_take_nth_drop)
  have u: "S[n := v] = take n S @ v # drop (Suc n) S" using assms by (simp add: upd_conv_take_nth_drop)
  have d: "drop n S = S ! n # drop (Suc n) S" using assms by (simp add: Cons_nth_drop_Suc)
  show ?thesis
  proof (cases "n + 1 \<ge> m")
    case True
    then have "drop (Suc n) S = []" using assms by simp
    then show ?thesis using True u d by simp
  next
    case False
    then show ?thesis using assms d by (simp add: u take_Suc_conv_app_nth)
  qed
qed

lemma observe_window:
  fixes D :: "'d double_ops"
  assumes "m = (if maxSamples = 0 then 1 else maxSamples)" and "h = fold (observe D) xs (mk_Histogram D maxSamples)"
  shows "h_maxSamples h = m \<and> h_nextIndex h < m \<and> (length xs < m \<longrightarrow> h_nextIndex h = 0) \<and> length (h_samples h) = min m (length xs)
    \<and> drop (h_nextIndex h) (h_samples h) @ take (h_nextIndex h) (h_samples h) = window m xs
    \<and> h_totalCount h = of_nat (length xs) \<and> h_totalSum h = foldl (dbl_add D) (dbl_zero D) xs"
  using assms(2)
proof (induction xs arbitrary: h rule: rev_induct)
  case Nil
  then show ?case using assms(1) by (simp add: mk_Histogram_def window_def)
next
  case (snoc x xs)
  define g where "g = fold (observe D) xs (mk_Histogram D maxSamples)"
  have m: "0 < m" using assms(1) by simp
  have g: "h_maxSamples g = m" "h_nextIndex g < m" "length xs < m \<longrightarrow> h_nextIndex g = 0" "length (h_samples g) = min m (length xs)"
    "drop (h_nextIndex g) (h_samples g) @ take (h_nextIndex g) (h_samples g) = window m xs" "h_totalCount g = of_nat (length xs)"
    "h_totalSum g = foldl (dbl_add D) (dbl_zero D) xs" using snoc.IH [OF g_def] by auto
  have h: "h = observe D x g" using snoc.prems by (simp add: g_def)
  show ?case
  proof (cases "length xs < m")
    case True
    then show ?thesis using g m by (auto simp: h observe_def Let_def window_snoc)
  next
    case False
    then have "length (h_samples g) = m" using g(4) by simp
    from observe_rotates [OF this g(2), of x] this show ?thesis
      using False g m by (auto simp: h observe_def Let_def window_snoc split: if_splits)
  qed
qed

text \<open>
  C33: A histogram summarises the last samples. After observing \<open>xs\<close>, \<^verbatim>\<open>snapshot\<close> has the number of all observations (modulo \<open>2 ^ 64\<close>) and their sum in order; minimum and maximum are those of the last
  \<^verbatim>\<open>maxSamples\<close> observations, and the percentiles are elements of these, in increasing order, where rounding the index does not reverse an order.
\<close>

theorem histogram_summarises:
  fixes D :: "'d::linorder double_ops"
  assumes "h = fold (observe D) xs (mk_Histogram D maxSamples)" and "xs \<noteq> []" and "m = (if maxSamples = 0 then 1 else maxSamples)"
    and "\<And>p q n. p \<le> q \<Longrightarrow> dbl_index D p n \<le> dbl_index D q n"
  shows "hs_count (snapshot D h) = of_nat (length xs) \<and> hs_sum (snapshot D h) = foldl (dbl_add D) (dbl_zero D) xs
    \<and> hs_min (snapshot D h) = Min (set (window m xs)) \<and> hs_max (snapshot D h) = Max (set (window m xs))
    \<and> sorted [hs_min (snapshot D h), hs_p50 (snapshot D h), hs_p90 (snapshot D h), hs_p95 (snapshot D h), hs_p99 (snapshot D h), hs_max (snapshot D h)]
    \<and> {hs_p50 (snapshot D h), hs_p90 (snapshot D h), hs_p95 (snapshot D h), hs_p99 (snapshot D h)} \<subseteq> set (window m xs)"
proof -
  note w = observe_window [OF assms(3,1)]
  define S where "S = sort (h_samples h)"
  have m: "0 < m" using assms(3) by simp
  have ne: "h_samples h \<noteq> []" using w m assms(2) by (auto simp: min_def split: if_splits)
  have set: "set S = set (window m xs)"
    using w by (metis S_def set_sort append_take_drop_id set_append sup_commute)
  have "length S = length (h_samples h)" by (simp add: S_def)
  then have S: "sorted S" "S \<noteq> []" using ne by (simp add: S_def, metis length_0_conv)
  let ?i = "indexForPercentile D (length S)"
  have i: "?i p < length S" "p \<le> q \<Longrightarrow> ?i p \<le> ?i q" for p q
    using S(2) assms(4) [of p q "length S - 1"] by (auto simp: indexForPercentile_def Let_def)
  have hd: "hd S = S ! 0" "last S = S ! (length S - 1)" using S(2) by (simp_all add: hd_conv_nth last_conv_nth)
  have nth: "a \<le> b \<Longrightarrow> b < length S \<Longrightarrow> S ! a \<le> S ! b" for a b using S(1) by (rule sorted_nth_mono)
  have mem: "S ! ?i p \<in> set (window m xs)" for p using i(1) set by (metis nth_mem)
  have "S ! 0 \<le> y" "y \<le> S ! (length S - 1)" if "y \<in> set S" for y using that nth by (auto simp: in_set_conv_nth)
  moreover have "S ! 0 \<in> set S" "S ! (length S - 1) \<in> set S" using S(2) by simp_all
  moreover have top: "S ! ?i p \<le> S ! (length S - 1)" "S ! 0 \<le> S ! (length S - 1)" for p using calculation(2) i(1) S(2) by simp_all
  ultimately have "hd S = Min (set S)" "last S = Max (set S)" unfolding hd by (auto intro!: Min_eqI [symmetric] Max_eqI [symmetric])
  moreover have "sorted [S ! 0, S ! ?i 50, S ! ?i 90, S ! ?i 95, S ! ?i 99, S ! (length S - 1)]"
    using nth [OF i(2) i(1)] nth [OF le0 i(1)] top by simp
  ultimately show ?thesis using w ne mem hd set by (simp add: snapshot_def Let_def S_def [symmetric])
qed

text \<open>Operations on a type of small numbers, to run the definitions on.\<close>

definition int_ops :: "int double_ops" where
  "int_ops = \<lparr>dbl_zero = 0, dbl_add = (+), dbl_neg = uminus, dbl_div = (\<lambda>s n. s div int (unat n)), dbl_index = (\<lambda>p n. p * n div 100)\<rparr>"

theorem histogram_summarises_witness:
  "hs_min (snapshot int_ops (fold (observe int_ops) [9, 4, 7, 1, 8] (mk_Histogram int_ops 3))) = 1
   \<and> hs_max (snapshot int_ops (fold (observe int_ops) [9, 4, 7, 1, 8] (mk_Histogram int_ops 3))) = 8
   \<and> hs_sum (snapshot int_ops (fold (observe int_ops) [9, 4, 7, 1, 8] (mk_Histogram int_ops 3))) = 29"
proof -
  have "p \<le> q \<Longrightarrow> dbl_index int_ops p n \<le> dbl_index int_ops q n" for p q n by (simp add: int_ops_def div_le_mono)
  from histogram_summarises [OF refl _ refl this, of "[9, 4, 7, 1, 8]" 3] show ?thesis by (simp add: window_def int_ops_def)
qed

theorem metrics_types_witness:
  "\<exists>r. r = fold (mo_exec int_ops) [Mo_get ''a'' Mt_Counter 0, Mo_use 0 (Mc_inc 5), Mo_get ''a'' Mt_Gauge 0] mk_MetricRegistry
     \<and> map_of (mr_metrics r) ''a'' = Some (M_counter 5) \<and> fst (use_ref int_ops 0 (Mc_inc 2) r) = Ret ()
     \<and> fst (getOrCreate int_ops ''a'' Mt_Histogram 9 r) = Throw (Logic_error ''MetricRegistry type mismatch for metric: a'')"
proof -
  let ?r = "fold (mo_exec int_ops) [Mo_get ''a'' Mt_Counter 0, Mo_use 0 (Mc_inc 5), Mo_get ''a'' Mt_Gauge 0] mk_MetricRegistry"
  have r: "map_of (mr_metrics ?r) ''a'' = Some (M_counter 5)" "mr_refs ?r = [(''a'', Mt_Counter)]"
    by (simp_all add: mo_exec_def mo_typed_def mk_MetricRegistry_def getOrCreate_def use_ref_def put_metric_def)
  then show ?thesis using metrics_types [OF refl, where D = int_ops and ops = "[Mo_get ''a'' Mt_Counter 0, Mo_use 0 (Mc_inc 5), Mo_get ''a'' Mt_Gauge 0]" and k = 0 and call = "Mc_inc 2"
      and name = "''a''" and t = Mt_Histogram and n = 9]
    by (intro exI [of _ ?r]) (simp del: fold_simps)
qed

text \<open>
  Minimum, maximum and percentiles are of the last samples, the average is of all: it may lie outside of the range between minimum and maximum.
\<close>

theorem histogram_average_below_minimum:
  "hs_avg (snapshot int_ops (fold (observe int_ops) [1, 1, 100] (mk_Histogram int_ops 1))) = 34
   \<and> hs_min (snapshot int_ops (fold (observe int_ops) [1, 1, 100] (mk_Histogram int_ops 1))) = 100"
  by (simp add: snapshot_def int_ops_def observe_def mk_Histogram_def Let_def)

section \<open>Gauges and threads\<close>

text \<open>
  \<^verbatim>\<open>Gauge::inc\<close> in many threads: each loads the value once and then exchanges it against the sum until the exchange succeeds; a weak exchange may fail for no reason. \<open>gs_done\<close> lists what was added.
\<close>

datatype 'd gauge_pc = G_load 'd | G_cas 'd 'd | G_end

record 'd gauge_state =
  gs_value :: 'd
  gs_threads :: "'d gauge_pc list"
  gs_done :: "'d list"

inductive gauge_step :: "'d double_ops \<Rightarrow> 'd gauge_state \<Rightarrow> 'd gauge_state \<Rightarrow> bool" for D where
  load: "i < length (gs_threads s) \<Longrightarrow> gs_threads s ! i = G_load v \<Longrightarrow>
    gauge_step D s (s\<lparr>gs_threads := (gs_threads s)[i := G_cas (gs_value s) v]\<rparr>)"
| cas: "i < length (gs_threads s) \<Longrightarrow> gs_threads s ! i = G_cas current v \<Longrightarrow> gs_value s = current \<Longrightarrow>
    gauge_step D s (s\<lparr>gs_value := dbl_add D current v, gs_threads := (gs_threads s)[i := G_end], gs_done := gs_done s @ [v]\<rparr>)"
| cas_fails: "i < length (gs_threads s) \<Longrightarrow> gs_threads s ! i = G_cas current v \<Longrightarrow>
    gauge_step D s (s\<lparr>gs_threads := (gs_threads s)[i := G_cas (gs_value s) v]\<rparr>)"

fun pc_amount :: "'d gauge_pc \<Rightarrow> 'd multiset" where
  "pc_amount (G_load v) = {#v#}"
| "pc_amount (G_cas _ v) = {#v#}"
| "pc_amount G_end = {#}"

definition gauge_ok :: "'d double_ops \<Rightarrow> 'd \<Rightarrow> 'd multiset \<Rightarrow> 'd gauge_state \<Rightarrow> bool" where
  "gauge_ok D v0 amounts s \<longleftrightarrow> gs_value s = foldl (dbl_add D) v0 (gs_done s) \<and> mset (gs_done s) + (\<Sum>pc \<leftarrow> gs_threads s. pc_amount pc) = amounts"

lemma amounts_update:
  "i < length ts \<Longrightarrow> pc_amount (ts ! i) + (\<Sum>pc \<leftarrow> ts[i := pc']. pc_amount pc) = pc_amount pc' + (\<Sum>pc \<leftarrow> ts. pc_amount pc)"
proof (induction ts arbitrary: i)
  case (Cons t ts)
  then show ?case by (cases i) (simp_all add: ac_simps add.left_commute)
qed simp

interpretation gauge: step_machine "gauge_step D" "gauge_ok D v0 amounts" for D v0 amounts
proof unfold_locales
  fix s s' assume st: "gauge_step D s s'" and ok: "gauge_ok D v0 amounts s"
  from st ok show "gauge_ok D v0 amounts s'"
  proof cases
    case (load i v)
    then show ?thesis using ok amounts_update [OF load(2), of "G_cas (gs_value s) v"] by (simp add: gauge_ok_def)
  next
    case (cas i current v)
    then show ?thesis using ok amounts_update [OF cas(2), of G_end, symmetric] by (auto simp: gauge_ok_def)
  next
    case (cas_fails i current v)
    then show ?thesis using ok amounts_update [OF cas_fails(2), of "G_cas (gs_value s) v"] by (simp add: gauge_ok_def)
  qed
qed

text \<open>
  No update is lost: when all threads have returned, the value is what adding all their amounts one after the other, in some order, gives.
\<close>

theorem gauge_no_lost_update:
  assumes "(gauge_step D)\<^sup>*\<^sup>* \<lparr>gs_value = v0, gs_threads = map G_load vs, gs_done = []\<rparr> s" and "set (gs_threads s) \<subseteq> {G_end}"
  shows "\<exists>ws. mset ws = mset vs \<and> gs_value s = foldl (dbl_add D) v0 ws"
proof -
  have "(\<Sum>v \<leftarrow> vs. {#v#}) = mset vs" by (induction vs) simp_all
  then have "gauge_ok D v0 (mset vs) \<lparr>gs_value = v0, gs_threads = map G_load vs, gs_done = []\<rparr>" by (simp add: gauge_ok_def comp_def)
  from gauge.reach_inv [OF assms(1) this] have ok: "gauge_ok D v0 (mset vs) s" .
  have "(\<Sum>pc \<leftarrow> ts. pc_amount pc) = {#}" if "set ts \<subseteq> {G_end}" for ts :: "'a gauge_pc list" using that by (induction ts) auto
  then show ?thesis using ok assms(2) by (auto simp: gauge_ok_def)
qed

end
