(* ===== verification/Formats.thy ===== *)
theory Formats
  imports Ini "HOL-Library.Word"
begin

text \<open>
  The JSON, TOML and XML readers of \<^verbatim>\<open>dbase::config\<close> (\<^verbatim>\<open>code/src/config/json_config.cpp\<close>, \<^verbatim>\<open>toml_config.cpp\<close>, \<^verbatim>\<open>xml_config.cpp\<close>): conversions of the trees that nlohmann/json, toml++ and pugixml
  build. The trees are datatypes with the kinds of value those libraries have; their parsers are parameters that give a tree or the text of an error.
\<close>

section \<open>JSON\<close>

datatype 'd json =
    J_null | J_boolean bool | J_number_integer int | J_number_unsigned nat | J_number_float 'd | J_string string
  | J_array "'d json list" | J_object "(string \<times> 'd json) list" | J_binary | J_discarded

text \<open>\<^verbatim>\<open>is_number_integer\<close> of nlohmann/json holds for both kinds of integer.\<close>

fun is_number_integer :: "'d json \<Rightarrow> bool" where
  "is_number_integer (J_number_integer _) = True"
| "is_number_integer (J_number_unsigned _) = True"
| "is_number_integer _ = False"

text \<open>\<^verbatim>\<open>get<std::int64_t>\<close>: a \<^verbatim>\<open>static_cast\<close> of the stored number.\<close>

fun get_int64 :: "'d json \<Rightarrow> int" where
  "get_int64 (J_number_integer i) = i"
| "get_int64 (J_number_unsigned n) = sint (of_nat n :: 64 word)"
| "get_int64 _ = 0"

definition json_makeParseError :: "string \<Rightarrow> Error" where
  "json_makeParseError message = mk_error EC_ParseError message"

definition obj_emplace :: "string \<Rightarrow> 'd ConfigValue \<Rightarrow> (string \<times> 'd ConfigValue) list \<Rightarrow> (string \<times> 'd ConfigValue) list" where
  "obj_emplace k v kvs = (if map_of kvs k = None then kvs @ [(k, v)] else kvs)"

fun convertJson :: "'d json \<Rightarrow> 'd ConfigValue Result"
  and convertItems :: "'d json list \<Rightarrow> 'd ConfigValue list \<Rightarrow> 'd ConfigValue list Result"
  and convertMembers :: "(string \<times> 'd json) list \<Rightarrow> (string \<times> 'd ConfigValue) list \<Rightarrow> (string \<times> 'd ConfigValue) list Result" where
  "convertJson value =
     (if is_number_integer value then Value (CInt (get_int64 value))
      else case value of
        J_null \<Rightarrow> Value CNull
      | J_boolean b \<Rightarrow> Value (CBool b)
      | J_number_unsigned n \<Rightarrow> Value (CUInt n)
      | J_number_float d \<Rightarrow> Value (CDouble d)
      | J_string s \<Rightarrow> Value (CString s)
      | J_array items \<Rightarrow> (case convertItems items [] of Value vs \<Rightarrow> Value (CArray vs) | Fail e \<Rightarrow> Fail e)
      | J_object members \<Rightarrow> (case convertMembers members [] of Value kvs \<Rightarrow> Value (CObject kvs) | Fail e \<Rightarrow> Fail e)
      | _ \<Rightarrow> Fail (json_makeParseError ''unsupported json value type''))"
| "convertItems [] arr = Value arr"
| "convertItems (item # items) arr = (case convertJson item of Value v \<Rightarrow> convertItems items (arr @ [v]) | Fail e \<Rightarrow> Fail e)"
| "convertMembers [] obj = Value obj"
| "convertMembers ((k, node) # members) obj = (case convertJson node of Value v \<Rightarrow> convertMembers members (obj_emplace k v obj) | Fail e \<Rightarrow> Fail e)"

definition json_parse :: "(string \<Rightarrow> string + 'd json) \<Rightarrow> string \<Rightarrow> 'd Config Result" where
  "json_parse parser content =
     (case parser content of
        Inl what \<Rightarrow> Fail (json_makeParseError what)
      | Inr root \<Rightarrow> (case convertJson root of Fail e \<Rightarrow> Fail e | Value v \<Rightarrow> Value (setRoot v mk_Config)))"

section \<open>TOML\<close>

text \<open>Dates and times are of the library's own types; \<open>format\<close> is their text.\<close>

datatype ('d, 't) toml =
    T_boolean bool | T_integer int | T_floating 'd | T_string string | T_date 't | T_time 't | T_date_time 't
  | T_array "('d, 't) toml list" | T_table "(string \<times> ('d, 't) toml) list"

fun convertToml :: "('t \<Rightarrow> string) \<Rightarrow> ('d, 't) toml \<Rightarrow> 'd ConfigValue"
  and tomlItems :: "('t \<Rightarrow> string) \<Rightarrow> ('d, 't) toml list \<Rightarrow> 'd ConfigValue list \<Rightarrow> 'd ConfigValue list"
  and tomlMembers :: "('t \<Rightarrow> string) \<Rightarrow> (string \<times> ('d, 't) toml) list \<Rightarrow> (string \<times> 'd ConfigValue) list \<Rightarrow> (string \<times> 'd ConfigValue) list" where
  "convertToml format (T_boolean b) = CBool b"
| "convertToml format (T_integer raw) = (if raw \<ge> 0 then CUInt (nat raw) else CInt raw)"
| "convertToml format (T_floating d) = CDouble d"
| "convertToml format (T_string s) = CString s"
| "convertToml format (T_date t) = CString (format t)"
| "convertToml format (T_time t) = CString (format t)"
| "convertToml format (T_date_time t) = CString (format t)"
| "convertToml format (T_array items) = CArray (tomlItems format items [])"
| "convertToml format (T_table members) = CObject (tomlMembers format members [])"
| "tomlItems format [] result = result"
| "tomlItems format (item # items) result = tomlItems format items (result @ [convertToml format item])"
| "tomlMembers format [] result = result"
| "tomlMembers format ((k, node) # members) result = tomlMembers format members (obj_emplace k (convertToml format node) result)"

definition toml_parse :: "('t \<Rightarrow> string) \<Rightarrow> (string \<Rightarrow> string + ('d, 't) toml) \<Rightarrow> string \<Rightarrow> 'd Config Result" where
  "toml_parse format parser content =
     (case parser content of
        Inl what \<Rightarrow> Fail (json_makeParseError what)
      | Inr root \<Rightarrow> Value (setRoot (convertToml format root) mk_Config))"

section \<open>XML\<close>

definition xml_isspace :: "char \<Rightarrow> bool" where
  "xml_isspace c \<longleftrightarrow> c \<in> {CHR '' '', CHR 0x09, CHR 0x0A, CHR 0x0B, CHR 0x0C, CHR 0x0D}"

definition xml_trim :: "string \<Rightarrow> string" where
  "xml_trim input = rev (dropWhile xml_isspace (rev (dropWhile xml_isspace input)))"

definition xml_tryParseBool :: "string \<Rightarrow> bool option" where
  "xml_tryParseBool text =
     (let lowered = map tolower_char (xml_trim text)
      in if lowered = ''true'' \<or> lowered = ''1'' \<or> lowered = ''yes'' \<or> lowered = ''on'' then Some True
         else if lowered = ''false'' \<or> lowered = ''0'' \<or> lowered = ''no'' \<or> lowered = ''off'' then Some False
         else None)"

definition xml_tryParseInt :: "string \<Rightarrow> int option" where
  "xml_tryParseInt text =
     (let s = xml_trim text
      in if s = [] then None
         else case from_chars (- (2 ^ 63)) (2 ^ 63 - 1) s of
                (ec, value, n) \<Rightarrow> if ec = Errc_ok \<and> n = length s then value else None)"

definition xml_tryParseDouble :: "(string \<Rightarrow> 'd \<times> nat) \<Rightarrow> string \<Rightarrow> 'd option" where
  "xml_tryParseDouble strtod text =
     (let s = xml_trim text
      in if s = [] then None
         else case strtod s of (out, n) \<Rightarrow> if n = length s then Some out else None)"

definition parseScalar :: "(string \<Rightarrow> 'd \<times> nat) \<Rightarrow> string \<Rightarrow> 'd ConfigValue" where
  "parseScalar strtod raw =
     (let value = xml_trim raw
      in if value = [] then CString []
         else case xml_tryParseBool value of Some b \<Rightarrow> CBool b
         | None \<Rightarrow> case xml_tryParseInt value of Some i \<Rightarrow> (if i \<ge> 0 then CUInt (nat i) else CInt i)
         | None \<Rightarrow> case xml_tryParseDouble strtod value of Some d \<Rightarrow> CDouble d
         | None \<Rightarrow> CString value)"

datatype xml_node = X_element string "(string \<times> string) list" "xml_node list" | X_pcdata string | X_cdata string | X_other

fun direct_text :: "xml_node list \<Rightarrow> string" where
  "direct_text [] = []"
| "direct_text (X_pcdata s # cs) = s @ direct_text cs"
| "direct_text (X_cdata s # cs) = s @ direct_text cs"
| "direct_text (_ # cs) = direct_text cs"

definition collectDirectText :: "xml_node list \<Rightarrow> string" where
  "collectDirectText children = xml_trim (direct_text children)"

fun name_order :: "(string \<times> 'a) list \<Rightarrow> string list \<Rightarrow> string list" where
  "name_order [] order = order"
| "name_order ((n, _) # kids) order = name_order kids (if n \<in> set order then order else order @ [n])"

definition group_value :: "(string \<times> 'd ConfigValue) list \<Rightarrow> string \<Rightarrow> 'd ConfigValue" where
  "group_value kids n = (case map snd (filter (\<lambda>(k, _). k = n) kids) of [v] \<Rightarrow> v | vs \<Rightarrow> CArray vs)"

text \<open>\<open>elementChildren\<close> are the values of the children that are elements, with their names and in the order of the document.\<close>

fun buildElementValue :: "(string \<Rightarrow> 'd \<times> nat) \<Rightarrow> xml_node \<Rightarrow> 'd ConfigValue"
  and elementChildren :: "(string \<Rightarrow> 'd \<times> nat) \<Rightarrow> xml_node list \<Rightarrow> (string \<times> 'd ConfigValue) list" where
  "buildElementValue strtod (X_element name attrs children) =
     (let result = fold (\<lambda>(a, v). obj_emplace (CHR ''@'' # a) (parseScalar strtod v)) attrs [];
          kids = elementChildren strtod children;
          result = fold (\<lambda>n. obj_emplace n (group_value kids n)) (name_order kids []) result;
          text = collectDirectText children
      in if result = [] then parseScalar strtod text
         else CObject (if text \<noteq> [] then obj_emplace ''#text'' (CString text) result else result))"
| "buildElementValue strtod _ = parseScalar strtod []"
| "elementChildren strtod [] = []"
| "elementChildren strtod (c # cs) =
     (case c of X_element n attrs children \<Rightarrow> (n, buildElementValue strtod c) # elementChildren strtod cs | _ \<Rightarrow> elementChildren strtod cs)"

text \<open>\<open>loader\<close> is \<^verbatim>\<open>load_buffer\<close>: the description and the offset of an error, or the children of the document.\<close>

fun document_element :: "xml_node list \<Rightarrow> xml_node option" where
  "document_element [] = None"
| "document_element (X_element n attrs children # cs) = Some (X_element n attrs children)"
| "document_element (_ # cs) = document_element cs"

fun node_name :: "xml_node \<Rightarrow> string" where
  "node_name (X_element n _ _) = n"
| "node_name _ = []"

definition xml_parse :: "(string \<Rightarrow> 'd \<times> nat) \<Rightarrow> (string \<Rightarrow> (string \<times> nat) + xml_node list) \<Rightarrow> string \<Rightarrow> 'd Config Result" where
  "xml_parse strtod loader content =
     (case loader content of
        Inl (description, offset) \<Rightarrow> Fail (json_makeParseError (description @ '' (offset='' @ nat_digits offset @ '')''))
      | Inr nodes \<Rightarrow>
          (case document_element nodes of
             None \<Rightarrow> Fail (json_makeParseError ''xml document has no root element'')
           | Some root \<Rightarrow> Value (setRoot (CObject [(node_name root, buildElementValue strtod root)]) mk_Config)))"

section \<open>JSON and TOML values are kept\<close>

declare convertJson.simps [simp del]

lemma convertJson_cases [simp]:
  "convertJson J_null = Value CNull" "convertJson (J_boolean b) = Value (CBool b)" "convertJson (J_number_integer i) = Value (CInt i)"
  "convertJson (J_number_unsigned n) = Value (CInt (sint (of_nat n :: 64 word)))" "convertJson (J_number_float d) = Value (CDouble d)" "convertJson (J_string s) = Value (CString s)"
  "convertJson (J_array items) = (case convertItems items [] of Value vs \<Rightarrow> Value (CArray vs) | Fail e \<Rightarrow> Fail e)"
  "convertJson (J_object members) = (case convertMembers members [] of Value kvs \<Rightarrow> Value (CObject kvs) | Fail e \<Rightarrow> Fail e)"
  by (simp_all add: convertJson.simps)

text \<open>Trees without the two kinds that parsing a text does not give, with integers that fit, and with the keys of an object distinct.\<close>

fun json_ok :: "'d json \<Rightarrow> bool" where
  "json_ok (J_array items) \<longleftrightarrow> (\<forall>j \<in> set items. json_ok j)"
| "json_ok (J_object members) \<longleftrightarrow> distinct (map fst members) \<and> (\<forall>kj \<in> set members. json_ok (snd kj))"
| "json_ok (J_number_unsigned n) \<longleftrightarrow> n < 2 ^ 63"
| "json_ok J_binary \<longleftrightarrow> False"
| "json_ok J_discarded \<longleftrightarrow> False"
| "json_ok _ \<longleftrightarrow> True"

text \<open>The tree of a value, and the tree with the two kinds of integer identified.\<close>

fun json_of :: "'d ConfigValue \<Rightarrow> 'd json" where
  "json_of CNull = J_null"
| "json_of (CBool b) = J_boolean b"
| "json_of (CInt i) = J_number_integer i"
| "json_of (CUInt n) = J_number_integer (int n)"
| "json_of (CDouble d) = J_number_float d"
| "json_of (CString s) = J_string s"
| "json_of (CArray vs) = J_array (map json_of vs)"
| "json_of (CObject kvs) = J_object (map (\<lambda>kv. (fst kv, json_of (snd kv))) kvs)"

fun one_integer :: "'d json \<Rightarrow> 'd json" where
  "one_integer (J_number_unsigned n) = J_number_integer (int n)"
| "one_integer (J_array items) = J_array (map one_integer items)"
| "one_integer (J_object members) = J_object (map (\<lambda>kj. (fst kj, one_integer (snd kj))) members)"
| "one_integer j = j"

lemma convertItems_all:
  assumes "\<forall>j \<in> set items. \<exists>v. convertJson j = Value v \<and> f v = g j"
  shows "\<exists>vs. convertItems items arr = Value (arr @ vs) \<and> map f vs = map g items"
  using assms
proof (induction items arbitrary: arr)
  case (Cons j items)
  obtain v where v: "convertJson j = Value v" "f v = g j" using Cons.prems by auto
  obtain vs where "convertItems items (arr @ [v]) = Value ((arr @ [v]) @ vs)" "map f vs = map g items"
    using Cons.IH [of "arr @ [v]"] Cons.prems by auto
  then show ?case using v by (intro exI [of _ "v # vs"]) simp
qed simp

lemma convertMembers_all:
  assumes "\<forall>kj \<in> set members. \<exists>v. convertJson (snd kj) = Value v \<and> f v = g (snd kj)" and "distinct (map fst obj @ map fst members)"
  shows "\<exists>kvs. convertMembers members obj = Value (obj @ kvs) \<and> map (\<lambda>kv. (fst kv, f (snd kv))) kvs = map (\<lambda>kj. (fst kj, g (snd kj))) members"
  using assms
proof (induction members arbitrary: obj)
  case (Cons kj members)
  obtain k j where kj: "kj = (k, j)" by fastforce
  obtain v where v: "convertJson j = Value v" "f v = g j" using Cons.prems(1) kj by auto
  have "map_of obj k = None" using Cons.prems(2) kj by (auto simp: map_of_eq_None_iff)
  then have e: "obj_emplace k v obj = obj @ [(k, v)]" by (simp add: obj_emplace_def)
  obtain kvs where "convertMembers members (obj @ [(k, v)]) = Value ((obj @ [(k, v)]) @ kvs)"
    "map (\<lambda>kv. (fst kv, f (snd kv))) kvs = map (\<lambda>kj. (fst kj, g (snd kj))) members"
    using Cons.IH [of "obj @ [(k, v)]"] Cons.prems kj by auto
  then show ?case using kj v e by (intro exI [of _ "(k, v) # kvs"]) simp
qed simp

lemma convertJson_keeps: "json_ok j \<Longrightarrow> \<exists>v. convertJson j = Value v \<and> json_of v = one_integer j"
proof (induction j)
  case (J_number_unsigned n)
  have "sint (of_nat n :: 64 word) = int n" using J_number_unsigned by (simp add: signed_of_nat signed_take_bit_int_eq_self)
  then show ?case by simp
next
  case (J_array items)
  then obtain vs where "convertItems items [] = Value vs" "map json_of vs = map one_integer items"
    using convertItems_all [of items json_of one_integer "[]"] by auto
  then show ?case by simp
next
  case (J_object members)
  have "\<forall>kj \<in> set members. \<exists>v. convertJson (snd kj) = Value v \<and> json_of v = one_integer (snd kj)" using J_object by (auto simp: snds.simps)
  then obtain kvs where "convertMembers members [] = Value kvs" "map (\<lambda>kv. (fst kv, json_of (snd kv))) kvs = map (\<lambda>kj. (fst kj, one_integer (snd kj))) members"
    using convertMembers_all [of members json_of one_integer "[]"] J_object.prems by auto
  then show ?case by simp
qed simp_all

text \<open>
  C31: Reading JSON keeps everything. A text that the library parses into a tree whose unsigned integers are below \<open>2 ^ 63\<close> gives a configuration whose tree is the same, keys in order, with the two kinds of
  integer read as one; and a text that it rejects gives a parse error with its message.
\<close>

theorem json_config_keeps:
  assumes "json_ok j" and "parser good = Inr j" and "parser bad = Inl what"
  shows "(\<exists>c. json_parse parser good = Value c \<and> json_of (m_root c) = one_integer j \<and> m_flatCacheDirty c)
    \<and> json_parse parser bad = Fail (mk_error EC_ParseError what)"
  using convertJson_keeps [OF assms(1)] assms(2,3) by (auto simp: json_parse_def setRoot_def markFlatCacheDirty_def json_makeParseError_def)

theorem json_config_keeps_witness:
  "\<exists>c. json_parse (\<lambda>s. if s = ''x'' then Inl ''bad'' else Inr (J_object [(''a'', J_array [J_number_unsigned 3, J_null]), (''b'', J_number_float (1::int))])) ''y'' = Value c
     \<and> json_of (m_root c) = J_object [(''a'', J_array [J_number_integer 3, J_null]), (''b'', J_number_float 1)]"
  using json_config_keeps [of "J_object [(''a'', J_array [J_number_unsigned 3, J_null]), (''b'', J_number_float (1::int))]"
      "\<lambda>s. if s = ''x'' then Inl ''bad'' else Inr (J_object [(''a'', J_array [J_number_unsigned 3, J_null]), (''b'', J_number_float (1::int))])" "''y''" "''x''" "''bad''"]
  by auto

text \<open>
  The branch for unsigned integers is never taken, since \<^verbatim>\<open>is_number_integer\<close> holds for them: a number of \<open>2 ^ 63\<close> or more, which fits \<^verbatim>\<open>std::uint64_t\<close> and the configuration value, becomes negative.
\<close>

theorem json_large_unsigned_wraps:
  assumes "2 ^ 63 \<le> n" and "n < 2 ^ 64"
  shows "convertJson (J_number_unsigned n) = Value (CInt (int n - 2 ^ 64))"
proof -
  have "sint (of_nat n :: 64 word) = (int n + 2 ^ 63) mod 2 ^ 64 - 2 ^ 63" by (simp add: signed_of_nat signed_take_bit_eq_take_bit_shift take_bit_eq_mod)
  also have "\<dots> = int n - 2 ^ 64"
  proof -
    have "(int n + 2 ^ 63) mod 2 ^ 64 = (int n - 2 ^ 63) mod 2 ^ 64" by (simp add: mod_eq_dvd_iff)
    also have "\<dots> = int n - 2 ^ 63" by (rule mod_pos_pos_trivial) (use assms in simp_all)
    finally show ?thesis by simp
  qed
  finally show ?thesis by simp
qed

text \<open>TOML: the tree with dates and times as texts.\<close>

fun toml_ok :: "('d, 't) toml \<Rightarrow> bool" where
  "toml_ok (T_array items) \<longleftrightarrow> (\<forall>j \<in> set items. toml_ok j)"
| "toml_ok (T_table members) \<longleftrightarrow> distinct (map fst members) \<and> (\<forall>kj \<in> set members. toml_ok (snd kj))"
| "toml_ok _ \<longleftrightarrow> True"

fun toml_json :: "('t \<Rightarrow> string) \<Rightarrow> ('d, 't) toml \<Rightarrow> 'd json" where
  "toml_json format (T_boolean b) = J_boolean b"
| "toml_json format (T_integer i) = J_number_integer i"
| "toml_json format (T_floating d) = J_number_float d"
| "toml_json format (T_string s) = J_string s"
| "toml_json format (T_date t) = J_string (format t)"
| "toml_json format (T_time t) = J_string (format t)"
| "toml_json format (T_date_time t) = J_string (format t)"
| "toml_json format (T_array items) = J_array (map (toml_json format) items)"
| "toml_json format (T_table members) = J_object (map (\<lambda>kj. (fst kj, toml_json format (snd kj))) members)"

lemma tomlItems_map: "tomlItems format items arr = arr @ map (convertToml format) items"
  by (induction items arbitrary: arr) simp_all

lemma tomlMembers_map:
  "distinct (map fst obj @ map fst members) \<Longrightarrow> tomlMembers format members obj = obj @ map (\<lambda>kj. (fst kj, convertToml format (snd kj))) members"
proof (induction members arbitrary: obj)
  case (Cons kj members)
  obtain k j where kj: "kj = (k, j)" by fastforce
  have "map_of obj k = None" using Cons.prems kj by (auto simp: map_of_eq_None_iff)
  then show ?case using Cons.IH [of "obj @ [(k, convertToml format j)]"] Cons.prems kj by (simp add: obj_emplace_def)
qed simp

lemma convertToml_keeps: "toml_ok t \<Longrightarrow> json_of (convertToml format t) = toml_json format t"
proof (induction t)
  case (T_table members)
  then show ?case by (auto simp: tomlMembers_map snds.simps)
qed (auto simp: tomlItems_map)

text \<open>Reading TOML keeps everything and never fails on a tree.\<close>

theorem toml_config_keeps:
  assumes "toml_ok t" and "parser content = Inr t"
  shows "\<exists>c. toml_parse format parser content = Value c \<and> json_of (m_root c) = toml_json format t"
  using convertToml_keeps [OF assms(1), of format] assms(2) by (simp add: toml_parse_def setRoot_def markFlatCacheDirty_def)

section \<open>XML elements\<close>

lemma map_of_emplace: "map_of (obj_emplace k v kvs) n = (if n = k \<and> map_of kvs k = None then Some v else map_of kvs n)"
  by (auto simp: obj_emplace_def map_add_def split: option.split)

lemma map_of_emplace_names:
  "map_of (fold (\<lambda>n. obj_emplace n (g n)) ns kvs) k = (case map_of kvs k of Some v \<Rightarrow> Some v | None \<Rightarrow> if k \<in> set ns then Some (g k) else None)"
  by (induction ns arbitrary: kvs) (auto simp: map_of_emplace split: option.splits)

lemma map_of_emplace_attrs:
  "map_of (fold (\<lambda>(a, v). obj_emplace (CHR ''@'' # a) (p v)) attrs kvs) k =
     (case map_of kvs k of Some v \<Rightarrow> Some v | None \<Rightarrow> if k \<noteq> [] \<and> hd k = CHR ''@'' then map_option p (map_of attrs (tl k)) else None)"
proof (induction attrs arbitrary: kvs k)
  case (Cons av attrs)
  obtain a v where "av = (a, v)" by fastforce
  then show ?case by (cases k) (auto simp: Cons.IH map_of_emplace split: option.splits)
qed (auto split: option.split)

lemma name_order_set: "set (name_order kids order) = set order \<union> fst ` set kids"
  by (induction kids order rule: name_order.induct) auto

lemma elementChildren_eq:
  "elementChildren strtod cs = map (\<lambda>c. (node_name c, buildElementValue strtod c)) (filter (\<lambda>c. \<exists>n a k. c = X_element n a k) cs)"
proof (induction cs)
  case (Cons c cs)
  then show ?case by (cases c) (auto simp del: buildElementValue.simps)
qed simp

definition elements_named :: "string \<Rightarrow> xml_node list \<Rightarrow> xml_node list" where
  "elements_named n cs = filter (\<lambda>c. \<exists>a k. c = X_element n a k) cs"

lemma group_kids: "map snd (filter (\<lambda>(k, _). k = n) (elementChildren strtod cs)) = map (buildElementValue strtod) (elements_named n cs)"
proof (induction cs)
  case (Cons c cs)
  then show ?case by (cases c) (auto simp: elements_named_def simp del: buildElementValue.simps)
qed (simp add: elements_named_def)

lemma kids_named: "n \<in> fst ` set (elementChildren strtod cs) \<longleftrightarrow> elements_named n cs \<noteq> []"
proof (induction cs)
  case (Cons c cs)
  then show ?case by (cases c) (auto simp: elements_named_def simp del: buildElementValue.simps)
qed (simp add: elements_named_def)

text \<open>Names of elements do not begin with the signs that mark attributes and text, as the grammar of XML has it.\<close>

definition xml_names_ok :: "xml_node list \<Rightarrow> bool" where
  "xml_names_ok cs \<longleftrightarrow> list_all (\<lambda>c. node_name c = [] \<or> hd (node_name c) \<notin> {CHR ''@'', CHR ''#''}) cs"

text \<open>
  C30: What an XML element becomes. With an attribute or an element inside, it is an object: the attribute \<open>a\<close> under \<open>@a\<close>, the first one of that name; the elements of a name under that name, one as its
  value and several as an array in the order of the document; its own text, trimmed, under \<open>#text\<close> when there is any; and nothing else. Without, it is the scalar that its text spells.
\<close>

theorem xml_element_members:
  assumes "xml_names_ok children" and "kids = filter (\<lambda>c. \<exists>n a k. c = X_element n a k) children"
  shows "if attrs = [] \<and> kids = [] then buildElementValue strtod (X_element name attrs children) = parseScalar strtod (collectDirectText children)
    else \<exists>kvs. buildElementValue strtod (X_element name attrs children) = CObject kvs
      \<and> map_of kvs k = (if k \<noteq> [] \<and> hd k = CHR ''@'' then map_option (parseScalar strtod) (map_of attrs (tl k))
          else if k = ''#text'' then (if collectDirectText children = [] then None else Some (CString (collectDirectText children)))
          else case elements_named k children of [] \<Rightarrow> None | [c] \<Rightarrow> Some (buildElementValue strtod c) | cs \<Rightarrow> Some (CArray (map (buildElementValue strtod) cs)))"
proof -
  let ?kids = "elementChildren strtod children" let ?text = "collectDirectText children"
  define r1 where "r1 = fold (\<lambda>(a, v). obj_emplace (CHR ''@'' # a) (parseScalar strtod v)) attrs []"
  define r2 where "r2 = fold (\<lambda>n. obj_emplace n (group_value ?kids n)) (name_order ?kids []) r1"
  have build: "buildElementValue strtod (X_element name attrs children) = (if r2 = [] then parseScalar strtod ?text else CObject (if ?text \<noteq> [] then obj_emplace ''#text'' (CString ?text) r2 else r2))"
    by (simp add: r1_def r2_def Let_def)
  have r1: "map_of r1 k = (if k \<noteq> [] \<and> hd k = CHR ''@'' then map_option (parseScalar strtod) (map_of attrs (tl k)) else None)" for k
    by (simp add: r1_def map_of_emplace_attrs)
  have named: "elements_named k children = []" if "k \<noteq> []" "hd k \<in> {CHR ''@'', CHR ''#''}" for k
    using assms(1) that by (fastforce simp: xml_names_ok_def list_all_iff elements_named_def filter_empty_conv)
  have r2: "map_of r2 k = (if k \<noteq> [] \<and> hd k = CHR ''@'' then map_option (parseScalar strtod) (map_of attrs (tl k))
      else if elements_named k children = [] then None else Some (group_value ?kids k))" for k
    using named [of k] by (auto simp: r2_def map_of_emplace_names r1 name_order_set kids_named split: option.split)
  have group: "group_value ?kids k = (case elements_named k children of [c] \<Rightarrow> buildElementValue strtod c | cs \<Rightarrow> CArray (map (buildElementValue strtod) cs))" for k
    by (auto simp: group_value_def group_kids split: list.split)
  have empty: "r2 = [] \<longleftrightarrow> attrs = [] \<and> kids = []"
  proof
    assume "r2 = []"
    then have none: "map_of r2 k = None" for k by simp
    have "a \<notin> fst ` set attrs" for a using none [of "CHR ''@'' # a"] r2 by (simp add: map_of_eq_None_iff)
    then have "attrs = []" by (cases attrs) auto
    moreover have "elements_named k children = []" for k using none [of k] r2 [of k] named [of k] by (auto split: if_splits)
    then have "kids = []" using assms(2) by (fastforce simp: elements_named_def filter_empty_conv)
    ultimately show "attrs = [] \<and> kids = []" by simp
  next
    assume "attrs = [] \<and> kids = []"
    then show "r2 = []" using assms(2) by (simp add: r2_def r1_def elementChildren_eq)
  qed
  have tn: "map_of r2 ''#text'' = None" using r2 [of "''#text''"] named [of "''#text''"] by simp
  define out where "out = (if ?text \<noteq> [] then obj_emplace ''#text'' (CString ?text) r2 else r2)"
  have out: "map_of out k = (if k = ''#text'' \<and> ?text \<noteq> [] then Some (CString ?text) else map_of r2 k)" by (simp add: out_def map_of_emplace tn)
  let ?spec = "if k \<noteq> [] \<and> hd k = CHR ''@'' then map_option (parseScalar strtod) (map_of attrs (tl k))
          else if k = ''#text'' then (if ?text = [] then None else Some (CString ?text))
          else case elements_named k children of [] \<Rightarrow> None | [c] \<Rightarrow> Some (buildElementValue strtod c) | cs \<Rightarrow> Some (CArray (map (buildElementValue strtod) cs))"
  have "map_of out k = ?spec"
  proof (cases "k \<noteq> [] \<and> hd k = CHR ''@''")
    case True
    then have "k \<noteq> ''#text''" by auto
    then show ?thesis using True unfolding out r2 by simp
  next
    case False
    show ?thesis
    proof (cases "k = ''#text''")
      case True
      then show ?thesis unfolding out by (simp add: tn)
    next
      case 2: False
      have "map_of r2 k = (if elements_named k children = [] then None else Some (group_value ?kids k))" unfolding r2 using False by (simp only: if_False)
      then show ?thesis using False 2 unfolding out group by (cases "elements_named k children"; cases "tl (elements_named k children)") auto
    qed
  qed
  then show ?thesis
  proof (cases "attrs = [] \<and> kids = []")
    case False
    then have "buildElementValue strtod (X_element name attrs children) = CObject out" unfolding build empty out_def by (simp only: if_False)
    then show ?thesis using False \<open>map_of out k = ?spec\<close> by (simp only: if_False) blast
  next
    case True
    then show ?thesis using build empty by simp
  qed
qed

theorem xml_element_members_witness:
  "\<exists>kvs. buildElementValue (\<lambda>s. (0 :: int, 0)) (X_element ''r'' [(''id'', ''7'')] [X_element ''a'' [] [X_pcdata ''x''], X_pcdata '' t '', X_element ''a'' [] [X_pcdata ''y'']]) = CObject kvs
     \<and> map_of kvs ''a'' = Some (CArray [CString ''x'', CString ''y''])"
proof -
  let ?cs = "[X_element ''a'' [] [X_pcdata ''x''], X_pcdata '' t '', X_element ''a'' [] [X_pcdata ''y'']]"
  have ok: "xml_names_ok ?cs" by (simp add: xml_names_ok_def)
  have xy: "buildElementValue (\<lambda>s. (0 :: int, 0)) (X_element ''a'' [] [X_pcdata ''x'']) = CString ''x''"
    "buildElementValue (\<lambda>s. (0 :: int, 0)) (X_element ''a'' [] [X_pcdata ''y'']) = CString ''y''" by code_simp+
  show ?thesis
    using xml_element_members [OF ok refl, of "[(''id'', ''7'')]" "\<lambda>s. (0 :: int, 0)" "''r''" "''a''"] xy
    by (simp add: elements_named_def del: buildElementValue.simps)
qed

text \<open>
  Integers in XML: every number of 64 bits but 0 and 1 is read back; 0 and 1 are taken for truth values, and reading them as an integer is an error.
\<close>

lemma trim_digits: "list_all (\<lambda>c. \<not> xml_isspace c) s \<Longrightarrow> xml_trim s = s"
proof -
  assume s: "list_all (\<lambda>c. \<not> xml_isspace c) s"
  then have "s = [] \<or> \<not> xml_isspace (hd s)" "rev s = [] \<or> \<not> xml_isspace (hd (rev s))" by (auto simp: list_all_iff hd_rev)
  then have "dropWhile xml_isspace s = s" "dropWhile xml_isspace (rev s) = rev s" unfolding dropWhile_eq_self_iff by blast+
  then show ?thesis by (simp add: xml_trim_def)
qed

lemma digit_chars: "is_digit c \<or> c = CHR ''-'' \<Longrightarrow> \<not> xml_isspace c \<and> tolower_char c = c"
  by (auto simp: is_digit_def xml_isspace_def tolower_char_def)

lemma to_string_chars: "list_all (\<lambda>c. is_digit c \<or> c = CHR ''-'') (to_string v)"
  using nat_digits_all by (auto simp: to_string_def list_all_iff)

theorem xml_integers:
  assumes "- (2 ^ 63) \<le> v" and "v < 2 ^ 63"
  shows "tryGetInt (parseScalar strtod (to_string v)) = (if v = 0 \<or> v = 1 then Fail (makeTypeError ''int64'' ''bool'') else Value v)"
proof -
  let ?s = "to_string v"
  have all: "list_all (\<lambda>c. \<not> xml_isspace c) ?s" "map tolower_char ?s = ?s"
    using to_string_chars [of v] digit_chars by (auto simp: list_all_iff map_idI)
  have t: "xml_trim ?s = ?s" by (rule trim_digits [OF all(1)])
  have ne: "?s \<noteq> []" by (simp add: to_string_def)
  have inj: "?s = to_string w \<longleftrightarrow> v = w" for w
  proof
    assume "?s = to_string w"
    moreover have "hd (nat_digits n) \<noteq> CHR ''-''" for n using hd_nat_digits [of n] by (auto simp: is_digit_def)
    ultimately have "nat_digits (nat \<bar>v\<bar>) = nat_digits (nat \<bar>w\<bar>) \<and> (v < 0 \<longleftrightarrow> w < 0)" by (auto simp: to_string_def split: if_splits) (metis list.sel(1))+
    then show "v = w" by (metis abs_of_neg abs_of_nonneg digits_val_nat_digits eq_nat_nat_iff linorder_not_le abs_ge_zero neg_equal_iff_equal)
  qed simp
  have one: "''1'' = to_string 1" "''0'' = to_string 0"
    by (simp_all add: to_string_def nat_digits.simps digit_char_def char_of_def bit_iff_odd)
  have word: "?s \<noteq> w" if "w \<noteq> []" "\<not> is_digit (hd w)" "hd w \<noteq> CHR ''-''" for w using to_string_chars [of v] that by (cases w) auto
  have "xml_tryParseBool ?s = (if v = 1 then Some True else if v = 0 then Some False else None)"
    unfolding xml_tryParseBool_def t all(2) Let_def one inj by (simp add: word is_digit_def)
  moreover have "xml_tryParseInt ?s = Some v" using from_chars_to_string [of "- (2 ^ 63)" v "2 ^ 63 - 1"] assms ne by (simp add: xml_tryParseInt_def t)
  moreover have "\<not> nat v > 2 ^ 63 - 1" using assms(2) by (simp add: nat_less_iff)
  ultimately show ?thesis using ne by (simp add: parseScalar_def t Let_def)
qed

end
