(* ===== verification/Coro.thy ===== *)
theory Coro
  imports Prelude
begin

text \<open>
  \<^verbatim>\<open>dbase::coro\<close> (\<^verbatim>\<open>code/include/dbase/coro/task.h\<close>, \<^verbatim>\<open>code/src/coro/coroutine_scheduler.cpp\<close>): coroutines that a scheduler resumes. A coroutine body is a list of what it does; awaiting a task runs the
  body of that task in a frame of its own, which is destroyed when the await expression ends. The frames of a coroutine are a stack, the innermost first, and a handle is the number of a frame; the root frame has
  number 0 and lives until \<^verbatim>\<open>Restart\<close> or \<^verbatim>\<open>Destroy\<close>. To use the handle of a destroyed frame is undefined.
\<close>

section \<open>Coroutines\<close>

datatype coro_act = Co_yield | Co_await "coro_act list" | Co_schedule nat | Co_note nat

type_synonym frames = "(nat \<times> coro_act list) list"

record coro_entry =
  ce_root :: "nat option"
  ce_current :: "nat option"
  ce_stack :: frames
  ce_next :: nat
  ce_dead :: "nat list"

record CoroutineScheduler =
  cs_coros :: "(nat \<times> coro_entry) list"
  cs_next_id :: nat
  cs_ready :: "nat list"
  cs_log :: "(nat \<times> nat) list"

definition mk_CoroutineScheduler :: CoroutineScheduler where
  "mk_CoroutineScheduler = \<lparr>cs_coros = [], cs_next_id = 1, cs_ready = [], cs_log = []\<rparr>"

definition GetEntry :: "nat \<Rightarrow> CoroutineScheduler \<Rightarrow> coro_entry option" where
  "GetEntry cid s = map_of (cs_coros s) cid"

fun put_entry :: "nat \<Rightarrow> coro_entry \<Rightarrow> (nat \<times> coro_entry) list \<Rightarrow> (nat \<times> coro_entry) list" where
  "put_entry cid e [] = []"
| "put_entry cid e ((i, x) # es) = (if i = cid then (i, e) # es else (i, x) # put_entry cid e es)"

text \<open>A new root frame, suspended before its body.\<close>

definition fresh_entry :: "coro_act list \<Rightarrow> coro_entry" where
  "fresh_entry body = \<lparr>ce_root = Some 0, ce_current = Some 0, ce_stack = [(0, body)], ce_next = 1, ce_dead = []\<rparr>"

text \<open>A task is empty or holds a body. \<^verbatim>\<open>Create\<close> gives its result and, if it is 0, the number.\<close>

definition coro_Create :: "coro_act list option \<Rightarrow> CoroutineScheduler \<Rightarrow> int \<times> nat option \<times> CoroutineScheduler" where
  "coro_Create task s =
     (case task of
        None \<Rightarrow> (-1, None, s)
      | Some body \<Rightarrow> (0, Some (cs_next_id s), s\<lparr>cs_coros := cs_coros s @ [(cs_next_id s, fresh_entry body)], cs_next_id := cs_next_id s + 1\<rparr>))"

definition Spawn :: "coro_act list option \<Rightarrow> CoroutineScheduler \<Rightarrow> nat \<times> CoroutineScheduler" where
  "Spawn task s = (case coro_Create task s of (r, i, s') \<Rightarrow> (if r \<noteq> 0 then 0 else case i of Some n \<Rightarrow> n | None \<Rightarrow> 0, s'))"

definition Schedule :: "nat \<Rightarrow> CoroutineScheduler \<Rightarrow> CoroutineScheduler" where
  "Schedule cid s =
     (if cid = 0 then s
      else case GetEntry cid s of
             None \<Rightarrow> s
           | Some e \<Rightarrow> if ce_current e = None then s else s\<lparr>cs_ready := cs_ready s @ [cid]\<rparr>)"

section \<open>Running a coroutine\<close>

fun act_size :: "coro_act \<Rightarrow> nat" and body_size :: "coro_act list \<Rightarrow> nat" where
  "act_size (Co_await b) = 2 + body_size b"
| "act_size _ = 1"
| "body_size [] = 0"
| "body_size (a # as) = act_size a + body_size as"

definition frames_size :: "frames \<Rightarrow> nat" where
  "frames_size fs = (\<Sum>f \<leftarrow> fs. Suc (body_size (snd f)))"

text \<open>
  The coroutine runs until a frame yields, which \<^verbatim>\<open>UpdateCurrent\<close> notes as the current one, or until the root frame is at its end. A frame that ends goes on with the one that awaits it, which destroys it.
\<close>

function coro_run :: "nat \<Rightarrow> frames \<Rightarrow> coro_entry \<Rightarrow> CoroutineScheduler \<Rightarrow> frames \<times> coro_entry \<times> CoroutineScheduler" where
  "coro_run cid [] e s = ([], e, s)"
| "coro_run cid ((h, []) # fs) e s = (if fs = [] then ([], e, s) else coro_run cid fs (e\<lparr>ce_dead := h # ce_dead e\<rparr>) s)"
| "coro_run cid ((h, Co_yield # as) # fs) e s = ((h, as) # fs, e\<lparr>ce_current := Some h\<rparr>, s)"
| "coro_run cid ((h, Co_await b # as) # fs) e s = coro_run cid ((ce_next e, b) # (h, as) # fs) (e\<lparr>ce_next := ce_next e + 1\<rparr>) s"
| "coro_run cid ((h, Co_schedule j # as) # fs) e s = coro_run cid ((h, as) # fs) e (Schedule j s)"
| "coro_run cid ((h, Co_note x # as) # fs) e s = coro_run cid ((h, as) # fs) e (s\<lparr>cs_log := cs_log s @ [(cid, x)]\<rparr>)"
  by pat_completeness auto
termination
  by (relation "measure (\<lambda>(cid, fs, e, s). frames_size fs)") (auto simp: frames_size_def)

text \<open>\<^verbatim>\<open>done()\<close> of a handle: at the final suspension point, which only the root reaches alive.\<close>

definition handle_done :: "nat \<Rightarrow> coro_entry \<Rightarrow> bool outcome" where
  "handle_done h e = (if h \<in> set (ce_dead e) then Undef else Ret (ce_stack e = [] \<and> ce_root e = Some h))"

text \<open>\<^verbatim>\<open>resume()\<close>: of the innermost frame.\<close>

definition resume_handle :: "nat \<Rightarrow> nat \<Rightarrow> coro_entry \<Rightarrow> CoroutineScheduler \<Rightarrow> (coro_entry \<times> CoroutineScheduler) outcome" where
  "resume_handle cid h e s =
     (case ce_stack e of
        [] \<Rightarrow> Undef
      | f # fs \<Rightarrow> if fst f \<noteq> h then Undef
                 else case coro_run cid (ce_stack e) e s of (fs', e', s') \<Rightarrow> Ret (e'\<lparr>ce_stack := fs'\<rparr>, s'))"

definition Resume :: "nat \<Rightarrow> CoroutineScheduler \<Rightarrow> (int \<times> CoroutineScheduler) outcome" where
  "Resume cid s =
     (case GetEntry cid s of
        None \<Rightarrow> Ret (-1, s)
      | Some e \<Rightarrow>
          (case ce_current e of
             None \<Rightarrow> Ret (-1, s)
           | Some h \<Rightarrow>
               obind (handle_done h e) (\<lambda>finished.
               obind (if finished then Ret (e, s) else resume_handle cid h e s) (\<lambda>(e, s).
               obind (case ce_current e of None \<Rightarrow> Ret False | Some c \<Rightarrow> handle_done c e) (\<lambda>over.
                 Ret (0, s\<lparr>cs_coros := put_entry cid (if over then e\<lparr>ce_current := None\<rparr> else e) (cs_coros s)\<rparr>))))))"

definition Restart :: "nat \<Rightarrow> coro_act list option \<Rightarrow> CoroutineScheduler \<Rightarrow> int \<times> CoroutineScheduler" where
  "Restart cid task s =
     (case GetEntry cid s of
        None \<Rightarrow> (-1, s)
      | Some e \<Rightarrow>
          (case task of
             None \<Rightarrow> (-2, s\<lparr>cs_coros := put_entry cid \<lparr>ce_root = None, ce_current = None, ce_stack = [], ce_next = 0, ce_dead = []\<rparr> (cs_coros s)\<rparr>)
           | Some body \<Rightarrow> (0, s\<lparr>cs_coros := put_entry cid (fresh_entry body) (cs_coros s)\<rparr>)))"

definition coro_Destroy :: "nat \<Rightarrow> CoroutineScheduler \<Rightarrow> int \<times> CoroutineScheduler" where
  "coro_Destroy cid s = (case GetEntry cid s of None \<Rightarrow> (-1, s) | Some e \<Rightarrow> (0, s\<lparr>cs_coros := filter (\<lambda>(i, _). i \<noteq> cid) (cs_coros s)\<rparr>))"

section \<open>The ready queue\<close>

fun run_ready :: "nat list \<Rightarrow> CoroutineScheduler \<Rightarrow> (int \<times> CoroutineScheduler) outcome" where
  "run_ready [] s = Ret (0, s\<lparr>cs_ready := []\<rparr>)"
| "run_ready (cid # ready) s =
     (case GetEntry cid s of
        None \<Rightarrow> run_ready ready s
      | Some e \<Rightarrow> if ce_current e = None then run_ready ready s
                  else obind (Resume cid (s\<lparr>cs_ready := ready\<rparr>)) (\<lambda>(_, s). Ret (1, s)))"

definition RunOnce :: "CoroutineScheduler \<Rightarrow> (int \<times> CoroutineScheduler) outcome" where
  "RunOnce s = run_ready (cs_ready s) s"

definition entry_weight :: "coro_entry \<Rightarrow> nat" where
  "entry_weight e = (if ce_current e = None then 0 else Suc (frames_size (ce_stack e)))"

definition sched_weight :: "CoroutineScheduler \<Rightarrow> nat" where
  "sched_weight s = (\<Sum>ie \<leftarrow> cs_coros s. entry_weight (snd ie))"

lemma coro_run_same:
  assumes "coro_run cid fs e s = (fs', e', s')"
  shows "cs_coros s' = cs_coros s" and "cs_next_id s' = cs_next_id s" and "ce_root e' = ce_root e"
    and "fs' \<noteq> [] \<Longrightarrow> ce_current e' = Some (fst (hd fs')) \<and> frames_size fs' < frames_size fs" and "fs' = [] \<Longrightarrow> ce_current e' = ce_current e"
proof -
  have sch: "cs_coros (Schedule j s) = cs_coros s" "cs_next_id (Schedule j s) = cs_next_id s" for j s by (auto simp: Schedule_def split: option.split)
  have "cs_coros s' = cs_coros s \<and> cs_next_id s' = cs_next_id s \<and> ce_root e' = ce_root e
    \<and> (fs' \<noteq> [] \<longrightarrow> ce_current e' = Some (fst (hd fs')) \<and> frames_size fs' < frames_size fs) \<and> (fs' = [] \<longrightarrow> ce_current e' = ce_current e)"
    using assms by (induction cid fs e s arbitrary: fs' e' s' rule: coro_run.induct) (fastforce simp: sch frames_size_def split: if_splits)+
  then show "cs_coros s' = cs_coros s" "cs_next_id s' = cs_next_id s" "ce_root e' = ce_root e"
    "fs' \<noteq> [] \<Longrightarrow> ce_current e' = Some (fst (hd fs')) \<and> frames_size fs' < frames_size fs" "fs' = [] \<Longrightarrow> ce_current e' = ce_current e" by auto
qed

lemma weight_put:
  "map_of es cid = Some e \<Longrightarrow> (\<Sum>ie \<leftarrow> put_entry cid e' es. entry_weight (snd ie)) + entry_weight e = (\<Sum>ie \<leftarrow> es. entry_weight (snd ie)) + entry_weight e'"
  by (induction cid e' es rule: put_entry.induct) (auto split: if_splits)

lemma Resume_weight:
  assumes "GetEntry cid s = Some e" and "ce_current e = Some h" and "Resume cid s = Ret (r, s')"
  shows "sched_weight s' < sched_weight s"
proof -
  have less: "sched_weight (t\<lparr>cs_coros := put_entry cid e' (cs_coros t)\<rparr>) < sched_weight s" if "cs_coros t = cs_coros s" "entry_weight e' < entry_weight e" for t e'
    using weight_put [of "cs_coros s" cid e e'] assms(1) that by (simp add: sched_weight_def GetEntry_def)
  show ?thesis
  proof (cases "ce_stack e = [] \<and> ce_root e = Some h")
    case True
    then have "s' = s\<lparr>cs_coros := put_entry cid (e\<lparr>ce_current := None\<rparr>) (cs_coros s)\<rparr>"
      using assms by (auto simp: Resume_def handle_done_def obind_Ret_iff split: if_splits)
    then show ?thesis using less [of s "e\<lparr>ce_current := None\<rparr>"] assms(2) by (simp add: entry_weight_def)
  next
    case False
    obtain fs' e1 s1 where run: "coro_run cid (ce_stack e) e s = (fs', e1, s1)" by (metis prod_cases3)
    note same = coro_run_same [OF run]
    from assms(3) obtain fin where fin: "handle_done h e = Ret fin" by (auto simp: Resume_def assms(1,2) obind_Ret_iff)
    have nf: "\<not> fin" using fin False by (auto simp: handle_done_def split: if_splits)
    from assms(3) nf obtain e2 s2 over where res: "resume_handle cid h e s = Ret (e2, s2)"
      and s2: "s' = s2\<lparr>cs_coros := put_entry cid (if over then e2\<lparr>ce_current := None\<rparr> else e2) (cs_coros s2)\<rparr>"
      by (auto simp: Resume_def assms(1,2) fin obind_Ret_iff split: prod.splits)
    from res have ne: "ce_stack e \<noteq> []" and e2: "e2 = e1\<lparr>ce_stack := fs'\<rparr>" "s2 = s1" using run by (auto simp: resume_handle_def split: list.splits if_splits)
    have s': "s' = s1\<lparr>cs_coros := put_entry cid (if over then e1\<lparr>ce_stack := fs', ce_current := None\<rparr> else e1\<lparr>ce_stack := fs'\<rparr>) (cs_coros s1)\<rparr>"
      using s2 e2 by simp
    have pos: "0 < frames_size (ce_stack e)" using ne by (cases "ce_stack e") (auto simp: frames_size_def)
    have "entry_weight (if over then e1\<lparr>ce_stack := fs', ce_current := None\<rparr> else e1\<lparr>ce_stack := fs'\<rparr>) < entry_weight e"
      using same(4,5) pos assms(2) by (cases "fs' = []") (auto simp: entry_weight_def frames_size_def)
    then show ?thesis unfolding s' using less [OF same(1)] by blast
  qed
qed

lemma run_ready_weight: "run_ready ready s = Ret (r, s') \<Longrightarrow> 0 < r \<Longrightarrow> sched_weight s' < sched_weight s"
proof (induction ready s rule: run_ready.induct)
  case (2 cid ready s)
  show ?case
  proof (cases "GetEntry cid s")
    case None
    then show ?thesis using 2 by simp
  next
    case (Some e)
    show ?thesis
    proof (cases "ce_current e")
      case None
      then show ?thesis using 2 Some by simp
    next
      case h: (Some h)
      let ?s = "s\<lparr>cs_ready := ready\<rparr>"
      have g: "GetEntry cid ?s = Some e" "sched_weight ?s = sched_weight s" using Some by (simp_all add: GetEntry_def sched_weight_def)
      obtain x where "Resume cid ?s = Ret (x, s')" using 2(3) Some h by (auto simp: obind_Ret_iff)
      then show ?thesis using Resume_weight [OF g(1) h] g(2) by simp
    qed
  qed
qed simp

lemma run_ready_weight_le: "run_ready ready s = Ret (r, s') \<Longrightarrow> sched_weight s' \<le> sched_weight s"
proof (cases "0 < r")
  case False
  have "run_ready ready s = Ret (r, s') \<Longrightarrow> \<not> 0 < r \<Longrightarrow> cs_coros s' = cs_coros s"
    by (induction ready s rule: run_ready.induct) (auto simp: obind_Ret_iff split: option.splits if_splits)
  moreover assume "run_ready ready s = Ret (r, s')"
  ultimately show ?thesis using False by (simp add: sched_weight_def)
qed (use run_ready_weight in fastforce)

text \<open>\<^verbatim>\<open>RunAll\<close> counts in an \<^verbatim>\<open>int32_t\<close>, whose overflow is undefined.\<close>

definition INT32_MAX :: nat where "INT32_MAX = 2 ^ 31 - 1"

function RunAll_from :: "nat \<Rightarrow> CoroutineScheduler \<Rightarrow> (nat \<times> CoroutineScheduler) outcome" where
  "RunAll_from n s =
     (case RunOnce s of
        Ret (r, s') \<Rightarrow> if r > 0 then (if n = INT32_MAX then Undef else RunAll_from (n + 1) s') else Ret (n, s')
      | Throw x \<Rightarrow> Throw x
      | Undef \<Rightarrow> Undef)"
  by pat_completeness auto
termination
  by (relation "measure (\<lambda>(n, s). sched_weight s)") (auto simp: RunOnce_def run_ready_weight)

declare RunAll_from.simps [simp del]

definition RunAll :: "CoroutineScheduler \<Rightarrow> (nat \<times> CoroutineScheduler) outcome" where
  "RunAll s = RunAll_from 0 s"

section \<open>Which coroutines are safe\<close>

fun act_yields :: "coro_act \<Rightarrow> bool" and body_yields :: "coro_act list \<Rightarrow> bool" where
  "act_yields Co_yield = True"
| "act_yields (Co_await b) = body_yields b"
| "act_yields _ = False"
| "body_yields [] = False"
| "body_yields (a # as) = (act_yields a \<or> body_yields as)"

lemma body_yields_filter: "body_yields as \<longleftrightarrow> filter act_yields as \<noteq> []"
  by (induction as) auto

text \<open>The last yield of a body is one of its own, not of a task it awaits; \<open>c\<close> where there is none.\<close>

definition last_own :: "coro_act list \<Rightarrow> bool \<Rightarrow> bool" where
  "last_own as c = (if body_yields as then last (filter act_yields as) = Co_yield else c)"

definition last_by_root :: "frames \<Rightarrow> bool \<Rightarrow> bool" where
  "last_by_root fs c = last_own (snd (last fs)) (\<not> list_ex (\<lambda>f. body_yields (snd f)) (butlast fs) \<and> c)"

definition frames_ok :: "frames \<Rightarrow> coro_entry \<Rightarrow> bool" where
  "frames_ok fs e \<longleftrightarrow> fs \<noteq> [] \<and> fst (last fs) = 0 \<and> distinct (map fst fs) \<and> list_all (\<lambda>f. fst f < ce_next e \<and> fst f \<notin> set (ce_dead e)) fs \<and> list_all (\<lambda>h. h < ce_next e) (ce_dead e)"

lemma last_own_Cons: "last_own (a # as) c = last_own as (if act_yields a then a = Co_yield else c)"
  by (auto simp: last_own_def body_yields_filter)

lemma inner_frame: "frames_ok ((h, as) # fs) e \<Longrightarrow> fs \<noteq> [] \<Longrightarrow> h \<noteq> 0"
  using imageI [OF last_in_set, of fs fst] by (auto simp: frames_ok_def)

lemma frames_ok_run:
  assumes "coro_run cid fs e s = (fs', e', s')" and "frames_ok fs e"
  shows "if fs' \<noteq> [] then frames_ok fs' e' else 0 \<notin> set (ce_dead e') \<and> (set (map fst fs) - {0}) \<union> set (ce_dead e) \<subseteq> set (ce_dead e')"
  using assms
proof (induction cid fs e s arbitrary: fs' e' s' rule: coro_run.induct)
  case (2 cid h fs e s)
  show ?case
  proof (cases "fs = []")
    case True
    then show ?thesis using "2.prems" by (auto simp: frames_ok_def)
  next
    case False
    let ?e = "e\<lparr>ce_dead := h # ce_dead e\<rparr>"
    have ok: "frames_ok fs ?e" using "2.prems"(2) False by (auto simp: frames_ok_def list_all_iff)
    from "2.prems"(1) False have run: "coro_run cid fs ?e s = (fs', e', s')" by simp
    have "h \<noteq> 0" using inner_frame "2.prems"(2) False by blast
    then show ?thesis using "2.IH" [OF False run ok] by (cases "fs' = []") auto
  qed
next
  case (4 cid h b as fs e s)
  let ?e = "e\<lparr>ce_next := ce_next e + 1\<rparr>"
  have "frames_ok ((ce_next e, b) # (h, as) # fs) ?e" using "4.prems"(2) by (auto simp: frames_ok_def list_all_iff image_iff less_Suc_eq)
  then show ?case using "4.IH" [of fs' e' s'] "4.prems"(1) by (cases "fs' = []") auto
next
  case (5 cid h j as fs e s)
  have "frames_ok ((h, as) # fs) e" using "5.prems"(2) by (auto simp: frames_ok_def)
  then show ?case using "5.IH" [of fs' e' s'] "5.prems"(1) by (simp split: if_splits)
next
  case (6 cid h x as fs e s)
  have "frames_ok ((h, as) # fs) e" using "6.prems"(2) by (auto simp: frames_ok_def)
  then show ?case using "6.IH" [of fs' e' s'] "6.prems"(1) by (simp split: if_splits)
qed (auto simp: frames_ok_def)

lemma last_by_root_Cons: "fs \<noteq> [] \<Longrightarrow> last_by_root ((h, as) # fs) c = last_by_root fs (\<not> body_yields as \<and> c)"
  by (auto simp: last_by_root_def last_own_def)

lemma last_by_root_single: "last_by_root [(h, as)] c = last_own as c"
  by (simp add: last_by_root_def)

lemma last_by_root_act: "\<not> act_yields a \<Longrightarrow> last_by_root ((h, a # as) # fs) c = last_by_root ((h, as) # fs) c"
  by (cases "fs = []") (auto simp: last_by_root_Cons last_by_root_single last_own_Cons)

lemma last_by_root_await: "last_by_root ((h, Co_await b # as) # fs) c = last_by_root ((h', b) # (h, as) # fs) c"
  by (cases "fs = []") (auto simp: last_by_root_Cons last_by_root_single last_own_Cons last_own_def body_yields_filter conj_ac)

lemma last_by_root_run:
  assumes "coro_run cid fs e s = (fs', e', s')" and "frames_ok fs e"
  shows "last_by_root fs c = (if fs' \<noteq> [] then last_by_root fs' (fst (hd fs') = 0) else c)"
  using assms
proof (induction cid fs e s arbitrary: fs' e' s' rule: coro_run.induct)
  case (2 cid h fs e s)
  show ?case
  proof (cases "fs = []")
    case True
    then show ?thesis using "2.prems"(1) by (simp add: last_by_root_single last_own_def)
  next
    case False
    have ok: "frames_ok fs (e\<lparr>ce_dead := h # ce_dead e\<rparr>)" using "2.prems"(2) False by (auto simp: frames_ok_def list_all_iff)
    from "2.prems"(1) False have "coro_run cid fs (e\<lparr>ce_dead := h # ce_dead e\<rparr>) s = (fs', e', s')" by simp
    from "2.IH" [OF False this ok] show ?thesis by (simp add: last_by_root_Cons False)
  qed
next
  case (3 cid h as fs e s)
  show ?case
  proof (cases "fs = []")
    case True
    then show ?thesis using "3.prems" by (auto simp: last_by_root_single last_own_Cons frames_ok_def)
  next
    case False
    then have "h \<noteq> 0" using inner_frame "3.prems"(2) by blast
    then show ?thesis using "3.prems"(1) False by (auto simp: last_by_root_Cons)
  qed
next
  case (4 cid h b as fs e s)
  let ?e = "e\<lparr>ce_next := ce_next e + 1\<rparr>"
  have "frames_ok ((ce_next e, b) # (h, as) # fs) ?e" using "4.prems"(2) by (auto simp: frames_ok_def list_all_iff image_iff less_Suc_eq)
  then show ?case using "4.IH" [of fs' e' s'] "4.prems"(1) last_by_root_await [of h b as fs c "ce_next e"] by simp
next
  case (5 cid h j as fs e s)
  have "frames_ok ((h, as) # fs) e" using "5.prems"(2) by (auto simp: frames_ok_def)
  then show ?case using "5.IH" [of fs' e' s'] "5.prems"(1) by (simp add: last_by_root_act)
next
  case (6 cid h x as fs e s)
  have "frames_ok ((h, as) # fs) e" using "6.prems"(2) by (auto simp: frames_ok_def)
  then show ?case using "6.IH" [of fs' e' s'] "6.prems"(1) by (simp add: last_by_root_act)
qed (auto simp: frames_ok_def)

text \<open>An entry that can be resumed is suspended in its innermost frame; \<open>entry_safe\<close> says that the root will have yielded last when it ends.\<close>

definition centry_ok :: "coro_entry \<Rightarrow> bool" where
  "centry_ok e \<longleftrightarrow> (case ce_current e of None \<Rightarrow> ce_stack e = [] | Some h \<Rightarrow> frames_ok (ce_stack e) e \<and> h = fst (hd (ce_stack e)) \<and> ce_root e = Some 0)"

definition entry_safe :: "coro_entry \<Rightarrow> bool" where
  "entry_safe e \<longleftrightarrow> ce_current e \<noteq> None \<longrightarrow> last_by_root (ce_stack e) (ce_current e = Some 0)"

lemma Resume_exact:
  assumes "GetEntry cid s = Some e" and "centry_ok e" and "ce_current e = Some h" and run: "coro_run cid (ce_stack e) e s = (fs', e1, s1)"
  defines "e' \<equiv> if fs' = [] then e1\<lparr>ce_stack := [], ce_current := None\<rparr> else e1\<lparr>ce_stack := fs'\<rparr>"
  shows "Resume cid s = (if fs' = [] \<and> \<not> entry_safe e then Undef else Ret (0, s1\<lparr>cs_coros := put_entry cid e' (cs_coros s1)\<rparr>))"
    and "centry_ok e'" and "entry_safe e' \<longleftrightarrow> entry_safe e \<or> fs' = []"
proof -
  have f: "frames_ok (ce_stack e) e" "h = fst (hd (ce_stack e))" "ce_root e = Some 0" using assms(2,3) by (auto simp: centry_ok_def)
  then obtain as fs where st: "ce_stack e = (h, as) # fs" by (cases "ce_stack e") (auto simp: frames_ok_def)
  have nd: "handle_done h e = Ret False" using f(1) st by (simp add: handle_done_def frames_ok_def)
  note same = coro_run_same [OF run] and ok = frames_ok_run [OF run f(1)] and lbr = last_by_root_run [OF run f(1), of "h = 0"]
  have res: "resume_handle cid h e s = Ret (e1\<lparr>ce_stack := fs'\<rparr>, s1)" using st run by (simp add: resume_handle_def)
  have safe: "entry_safe e \<longleftrightarrow> last_by_root (ce_stack e) (h = 0)" using assms(3) by (auto simp: entry_safe_def)
  have r: "Resume cid s = obind (case ce_current e1 of None \<Rightarrow> Ret False | Some c \<Rightarrow> handle_done c (e1\<lparr>ce_stack := fs'\<rparr>)) (\<lambda>over.
      Ret (0, s1\<lparr>cs_coros := put_entry cid (if over then e1\<lparr>ce_stack := fs', ce_current := None\<rparr> else e1\<lparr>ce_stack := fs'\<rparr>) (cs_coros s1)\<rparr>))"
    using assms(1,3) nd res by (simp add: Resume_def cong: option.case_cong)
  show "centry_ok e'" using same(3-5) ok f(3) by (auto simp: e'_def centry_ok_def frames_ok_def)
  show "entry_safe e' \<longleftrightarrow> entry_safe e \<or> fs' = []" unfolding safe lbr using same(4) by (auto simp: e'_def entry_safe_def)
  show "Resume cid s = (if fs' = [] \<and> \<not> entry_safe e then Undef else Ret (0, s1\<lparr>cs_coros := put_entry cid e' (cs_coros s1)\<rparr>))"
  proof (cases "fs' = []")
    case True
    then have "ce_current e1 = Some h" using same(5) assms(3) by simp
    moreover have "h \<in> set (ce_dead e1) \<longleftrightarrow> h \<noteq> 0" using ok True st by auto
    ultimately show ?thesis unfolding r safe lbr using True same(3) f(3) by (auto simp: handle_done_def e'_def)
  next
    case False
    then have "handle_done (fst (hd fs')) (e1\<lparr>ce_stack := fs'\<rparr>) = Ret False" using ok by (cases fs') (auto simp: handle_done_def frames_ok_def)
    then show ?thesis unfolding r using same(4) False by (simp add: e'_def)
  qed
qed

lemma map_of_put_entry: "map_of (put_entry cid e es) i = (if i = cid \<and> map_of es cid \<noteq> None then Some e else map_of es i)"
  by (induction cid e es rule: put_entry.induct) auto

lemma set_put: "set (put_entry cid e es) \<subseteq> insert (cid, e) (set es)"
  by (induction cid e es rule: put_entry.induct) auto

fun resumes :: "nat \<Rightarrow> nat \<Rightarrow> CoroutineScheduler \<Rightarrow> CoroutineScheduler outcome" where
  "resumes 0 cid s = Ret s"
| "resumes (Suc n) cid s = obind (Resume cid s) (\<lambda>(_, s'). resumes n cid s')"

lemma resumes_ended:
  assumes "GetEntry cid s = Some e" and "ce_current e = None"
  shows "resumes n cid s = Ret s"
  using assms by (induction n) (simp_all add: Resume_def)

lemma resumes_undefined_iff:
  assumes "GetEntry cid s = Some e" and "centry_ok e"
  shows "(\<exists>n. resumes n cid s = Undef) \<longleftrightarrow> \<not> entry_safe e"
  using assms
proof (induction "sched_weight s" arbitrary: s e rule: less_induct)
  case less
  show ?case
  proof (cases "ce_current e")
    case None
    then show ?thesis using resumes_ended [OF less.prems(1)] by (simp add: entry_safe_def)
  next
    case (Some h)
    obtain fs' e1 s1 where run: "coro_run cid (ce_stack e) e s = (fs', e1, s1)" by (metis prod_cases3)
    define e' where "e' = (if fs' = [] then e1\<lparr>ce_stack := [], ce_current := None\<rparr> else e1\<lparr>ce_stack := fs'\<rparr>)"
    define s' where "s' = s1\<lparr>cs_coros := put_entry cid e' (cs_coros s1)\<rparr>"
    note ex = Resume_exact [OF less.prems Some run, folded e'_def, folded s'_def]
    have g: "GetEntry cid s' = Some e'" using less.prems(1) coro_run_same(1) [OF run] by (simp add: GetEntry_def s'_def map_of_put_entry)
    show ?thesis
    proof (cases "fs' = [] \<and> \<not> entry_safe e")
      case True
      then have "resumes 1 cid s = Undef" using ex(1) by simp
      then show ?thesis using True by blast
    next
      case False
      then have R: "Resume cid s = Ret (0, s')" using ex(1) by auto
      have step: "resumes (Suc n) cid s = resumes n cid s'" for n using R by simp
      have "(\<exists>n. resumes n cid s = Undef) \<longleftrightarrow> (\<exists>n. resumes n cid s' = Undef)"
      proof
        assume "\<exists>n. resumes n cid s = Undef"
        then obtain n where n: "resumes n cid s = Undef" ..
        then obtain m where "n = Suc m" by (cases n) simp_all
        then show "\<exists>n. resumes n cid s' = Undef" using n step by metis
      qed (use step in metis)
      also have "\<dots> \<longleftrightarrow> \<not> entry_safe e'" using less.hyps [OF Resume_weight [OF less.prems(1) Some R] g ex(2)] .
      also have "\<dots> \<longleftrightarrow> \<not> entry_safe e" using ex(3) False by auto
      finally show ?thesis .
    qed
  qed
qed

lemma fresh_entry_ok: "centry_ok (fresh_entry body)" "entry_safe (fresh_entry body) \<longleftrightarrow> last_own body True"
  by (simp_all add: centry_ok_def entry_safe_def fresh_entry_def frames_ok_def last_by_root_single)

section \<open>Properties\<close>

text \<open>
  Which coroutines may be resumed to their end. Resuming a coroutine again and again meets undefined behaviour exactly if the last of all its yields is made by a task that it awaits, at whatever depth: the frame
  that yielded is then destroyed when \<^verbatim>\<open>Resume\<close> asks its handle whether it is done. A coroutine that makes its last yield itself, or never yields, is safe.
\<close>

theorem coro_resume_defined_iff:
  "(\<exists>n. resumes n 1 (snd (Spawn (Some body) mk_CoroutineScheduler)) = Undef) \<longleftrightarrow> \<not> last_own body True"
proof -
  have "GetEntry 1 (snd (Spawn (Some body) mk_CoroutineScheduler)) = Some (fresh_entry body)"
    by (simp add: Spawn_def coro_Create_def mk_CoroutineScheduler_def GetEntry_def)
  from resumes_undefined_iff [OF this fresh_entry_ok(1)] fresh_entry_ok(2) [of body] show ?thesis by simp
qed

text \<open>The smallest one: a coroutine that awaits a task that yields.\<close>

theorem coro_await_dangles: "resumes 2 1 (snd (Spawn (Some [Co_await [Co_yield]]) mk_CoroutineScheduler)) = Undef"
  by (simp add: numeral_2_eq_2 Spawn_def coro_Create_def mk_CoroutineScheduler_def Resume_def GetEntry_def fresh_entry_def handle_done_def resume_handle_def)

datatype coro_op =
    Cop_spawn "coro_act list option" | Cop_restart nat "coro_act list option" | Cop_destroy nat | Cop_schedule nat | Cop_resume nat | Cop_once | Cop_all

fun cop_run :: "coro_op \<Rightarrow> CoroutineScheduler \<Rightarrow> CoroutineScheduler outcome" where
  "cop_run (Cop_spawn task) s = Ret (snd (Spawn task s))"
| "cop_run (Cop_restart i task) s = Ret (snd (Restart i task s))"
| "cop_run (Cop_destroy i) s = Ret (snd (coro_Destroy i s))"
| "cop_run (Cop_schedule i) s = Ret (Schedule i s)"
| "cop_run (Cop_resume i) s = obind (Resume i s) (\<lambda>(_, s'). Ret s')"
| "cop_run Cop_once s = obind (RunOnce s) (\<lambda>(_, s'). Ret s')"
| "cop_run Cop_all s = obind (RunAll s) (\<lambda>(_, s'). Ret s')"

fun cop_runs :: "coro_op list \<Rightarrow> CoroutineScheduler \<Rightarrow> CoroutineScheduler outcome" where
  "cop_runs [] s = Ret s"
| "cop_runs (op # ops) s = obind (cop_run op s) (cop_runs ops)"

fun cop_safe :: "coro_op \<Rightarrow> bool" where
  "cop_safe (Cop_spawn (Some body)) = last_own body True"
| "cop_safe (Cop_restart _ (Some body)) = last_own body True"
| "cop_safe _ = True"

definition sched_ok :: "CoroutineScheduler \<Rightarrow> bool" where
  "sched_ok s \<longleftrightarrow> list_all (\<lambda>ie. centry_ok (snd ie) \<and> entry_safe (snd ie)) (cs_coros s)"

lemma sched_ok_entry: "sched_ok s \<Longrightarrow> GetEntry cid s = Some e \<Longrightarrow> centry_ok e \<and> entry_safe e"
  by (auto simp: sched_ok_def GetEntry_def list_all_iff dest!: map_of_SomeD)

lemma sched_ok_put: "sched_ok s \<Longrightarrow> centry_ok e \<Longrightarrow> entry_safe e \<Longrightarrow> cs_coros t = cs_coros s \<Longrightarrow> sched_ok (t\<lparr>cs_coros := put_entry cid e (cs_coros t)\<rparr>)"
  using set_put [of cid e "cs_coros s"] by (fastforce simp: sched_ok_def list_all_iff)

lemma Resume_ok:
  assumes "sched_ok s"
  shows "\<exists>r s'. Resume cid s = Ret (r, s') \<and> sched_ok s'"
proof (cases "\<exists>e h. GetEntry cid s = Some e \<and> ce_current e = Some h")
  case True
  then obtain e h where e: "GetEntry cid s = Some e" "ce_current e = Some h" by blast
  obtain fs' e1 s1 where run: "coro_run cid (ce_stack e) e s = (fs', e1, s1)" by (metis prod_cases3)
  define e' where "e' = (if fs' = [] then e1\<lparr>ce_stack := [], ce_current := None\<rparr> else e1\<lparr>ce_stack := fs'\<rparr>)"
  note ok = sched_ok_entry [OF assms e(1)]
  note ex = Resume_exact [OF e(1) conjunct1 [OF ok] e(2) run, folded e'_def]
  have "entry_safe e'" using ex(3) ok by blast
  then have "sched_ok (s1\<lparr>cs_coros := put_entry cid e' (cs_coros s1)\<rparr>)" using sched_ok_put [OF assms ex(2)] coro_run_same(1) [OF run] by blast
  then show ?thesis using ex(1) ok by auto
next
  case False
  then show ?thesis using assms by (auto simp: Resume_def split: option.split)
qed

lemma run_ready_ok:
  assumes "sched_ok s"
  shows "\<exists>r s'. run_ready ready s = Ret (r, s') \<and> sched_ok s' \<and> (r \<le> 0 \<longrightarrow> cs_ready s' = [])"
  using assms
proof (induction ready s rule: run_ready.induct)
  case (1 s)
  then show ?case by (simp add: sched_ok_def)
next
  case (2 cid ready s)
  show ?case
  proof (cases "\<exists>e h. GetEntry cid s = Some e \<and> ce_current e = Some h")
    case True
    have "sched_ok (s\<lparr>cs_ready := ready\<rparr>)" using 2(3) by (simp add: sched_ok_def)
    from Resume_ok [OF this, of cid] True show ?thesis by auto
  next
    case False
    then show ?thesis using 2 by (auto split: option.split)
  qed
qed

lemma RunAll_ok:
  assumes "sched_ok s" and "n + sched_weight s \<le> INT32_MAX"
  shows "\<exists>m s'. RunAll_from n s = Ret (m, s') \<and> sched_ok s' \<and> cs_ready s' = [] \<and> sched_weight s' \<le> sched_weight s"
  using assms
proof (induction n s rule: RunAll_from.induct)
  case (1 n s)
  obtain r s' where r: "RunOnce s = Ret (r, s')" "sched_ok s'" "r \<le> 0 \<longrightarrow> cs_ready s' = []" using run_ready_ok [OF 1(2), of "cs_ready s"] by (auto simp: RunOnce_def)
  show ?case
  proof (cases "0 < r")
    case True
    have w: "sched_weight s' < sched_weight s" using run_ready_weight r(1) True by (simp add: RunOnce_def)
    then have "n \<noteq> INT32_MAX" "(n + 1) + sched_weight s' \<le> INT32_MAX" using 1(3) by auto
    then show ?thesis using "1.IH" [OF r(1) refl True _ r(2)] r(1) True w by (subst RunAll_from.simps) fastforce
  next
    case False
    then show ?thesis using r run_ready_weight_le [of "cs_ready s" s] by (subst RunAll_from.simps) (simp add: RunOnce_def)
  qed
qed

text \<open>The room that an operation may take: the size of the body it starts.\<close>

fun cop_size :: "coro_op \<Rightarrow> nat" where
  "cop_size (Cop_spawn (Some body)) = 2 + body_size body"
| "cop_size (Cop_restart _ (Some body)) = 2 + body_size body"
| "cop_size _ = 0"

lemma fresh_weight: "entry_weight (fresh_entry body) = 2 + body_size body"
  by (simp add: entry_weight_def fresh_entry_def frames_size_def)

lemma Resume_weight_le:
  assumes "Resume cid s = Ret (x, s')"
  shows "sched_weight s' \<le> sched_weight s"
proof (cases "\<exists>e h. GetEntry cid s = Some e \<and> ce_current e = Some h")
  case True
  then show ?thesis using Resume_weight assms by (metis less_imp_le)
next
  case False
  then show ?thesis using assms by (auto simp: Resume_def split: option.splits)
qed

lemma Restart_weight: "sched_weight (snd (Restart i task s)) \<le> sched_weight s + (case task of None \<Rightarrow> 0 | Some body \<Rightarrow> 2 + body_size body)"
proof (cases "GetEntry i s")
  case (Some e)
  have w: "sched_weight (s\<lparr>cs_coros := put_entry i e' (cs_coros s)\<rparr>) \<le> sched_weight s + entry_weight e'" for e'
    using weight_put [of "cs_coros s" i e e'] Some by (simp add: sched_weight_def GetEntry_def)
  show ?thesis
    using Some w [of "\<lparr>ce_root = None, ce_current = None, ce_stack = [], ce_next = 0, ce_dead = []\<rparr>", unfolded entry_weight_def] w [of "fresh_entry (the task)", unfolded fresh_weight]
    by (cases task) (simp_all add: Restart_def)
qed (simp add: Restart_def)

lemma filter_weight: "(\<Sum>ie \<leftarrow> filter P es. entry_weight (snd ie)) \<le> (\<Sum>ie \<leftarrow> es. entry_weight (snd ie))"
  by (induction es) auto

lemma cop_run_ok:
  assumes "sched_ok s" and "cop_safe op" and "sched_weight s + cop_size op \<le> INT32_MAX"
  shows "\<exists>s'. cop_run op s = Ret s' \<and> sched_ok s' \<and> sched_weight s' \<le> sched_weight s + cop_size op"
proof (cases op)
  case (Cop_spawn task)
  then show ?thesis using assms fresh_entry_ok by (cases task) (auto simp: Spawn_def coro_Create_def sched_ok_def sched_weight_def fresh_weight)
next
  case (Cop_restart i task)
  let ?e = "\<lparr>ce_root = None, ce_current = None, ce_stack = [], ce_next = 0, ce_dead = []\<rparr> :: coro_entry"
  have "centry_ok ?e" "entry_safe ?e" by (simp_all add: centry_ok_def entry_safe_def)
  then have "sched_ok (snd (Restart i task s))" using assms fresh_entry_ok Cop_restart sched_ok_put [OF assms(1)]
    by (cases task; cases "GetEntry i s") (simp_all add: Restart_def)
  then show ?thesis using Cop_restart Restart_weight [of i task s] by (cases task) simp_all
next
  case (Cop_destroy i)
  then show ?thesis using assms filter_weight [of "\<lambda>(j, _). j \<noteq> i" "cs_coros s"]
    by (auto simp: coro_Destroy_def sched_ok_def list_all_iff sched_weight_def split: option.split)
next
  case (Cop_schedule i)
  then show ?thesis using assms by (auto simp: Schedule_def sched_ok_def sched_weight_def split: option.split)
next
  case (Cop_resume i)
  then show ?thesis using Resume_ok [OF assms(1), of i] Resume_weight_le [of i s] by fastforce
next
  case Cop_once
  then show ?thesis using run_ready_ok [OF assms(1), of "cs_ready s"] run_ready_weight_le [of "cs_ready s" s] by (fastforce simp: RunOnce_def)
next
  case Cop_all
  then show ?thesis using RunAll_ok [OF assms(1), of 0] assms(3) by (auto simp: RunAll_def)
qed

text \<open>
  C29: Programs of safe coroutines. When every task that is spawned or restarted makes its last yield itself, any program of spawning, scheduling (also by coroutines while they run), resuming, restarting and destroying is
  defined, and \<^verbatim>\<open>RunAll\<close> comes to an end with nothing left in the ready queue. The bodies of the program have fewer than \<open>2 ^ 31\<close> actions in all, so that the counter of \<^verbatim>\<open>RunAll\<close> does not overflow.
\<close>

theorem coro_programs_defined:
  assumes "list_all cop_safe ops" and "(\<Sum>op \<leftarrow> ops. cop_size op) < 2 ^ 31"
  shows "\<exists>s n s'. cop_runs ops mk_CoroutineScheduler = Ret s \<and> RunAll s = Ret (n, s') \<and> cs_ready s' = []"
proof -
  have "\<exists>t. cop_runs ops s = Ret t \<and> sched_ok t \<and> sched_weight t \<le> INT32_MAX"
    if "sched_ok s" "sched_weight s + (\<Sum>op \<leftarrow> ops. cop_size op) \<le> INT32_MAX" for s
    using assms(1) that
  proof (induction ops arbitrary: s)
    case (Cons op ops)
    then obtain s1 where "cop_run op s = Ret s1" "sched_ok s1" "sched_weight s1 \<le> sched_weight s + cop_size op"
      using cop_run_ok [of s op] by auto
    then show ?case using Cons.IH [of s1] Cons.prems by simp
  qed simp
  moreover have "sched_ok mk_CoroutineScheduler" "sched_weight mk_CoroutineScheduler = 0"
    by (simp_all add: sched_ok_def mk_CoroutineScheduler_def sched_weight_def)
  moreover have "(\<Sum>op \<leftarrow> ops. cop_size op) \<le> INT32_MAX" using assms(2) by (simp add: INT32_MAX_def)
  ultimately show ?thesis using RunAll_ok [of _ 0] by (metis RunAll_def add_0)
qed

theorem coro_programs_defined_witness:
  "\<exists>s n s'. cop_runs [Cop_spawn (Some [Co_note 1, Co_schedule 1, Co_yield, Co_await [Co_note 2]]), Cop_schedule 1] mk_CoroutineScheduler = Ret s
     \<and> RunAll s = Ret (n, s') \<and> cs_ready s' = []"
  by (rule coro_programs_defined) (simp_all add: last_own_def)

end
