(* ===== verification/Application.thy ===== *)
theory Application
  imports Errors Std_Strings
begin

text \<open>
  \<^verbatim>\<open>dbase::app::Application\<close> (\<^verbatim>\<open>code/src/app/application.cpp\<close>): the command line, the steps of start-up with their exit codes, the wait for a request to stop, and the pid file. Paths are texts; what
  the file system does is a record of parameters. The waits of the main loop are a list of what each one finds: a request by another thread, a signal, or neither. \<open>ap_log\<close> records the effects: the calls that make directories and remove the pid file with
  whether they succeed, the change of directory, the opening of the pid file with truncation, and the callbacks.
\<close>

section \<open>State\<close>

record app_options =
  ao_name :: string
  ao_version :: string
  ao_workingDirectory :: string
  ao_pidFile :: string
  ao_configFile :: string
  ao_handleSignals :: bool
  ao_createPidFile :: bool

datatype app_event = Ae_mkdir string bool | Ae_chdir string | Ae_pid_opened string | Ae_pid_removed string bool | Ae_handlers | Ae_startup | Ae_shutdown

record Application =
  ap_argv :: "string list"
  ap_options :: app_options
  ap_cliOptions :: "(string \<times> string) list"
  ap_cliFlags :: "string list"
  ap_positionalArgs :: "string list"
  ap_stopRequested :: bool
  ap_pidFileCreated :: bool
  ap_log :: "app_event list"

record app_env =
  fs_create_directories :: "string \<Rightarrow> string option"
  fs_remove :: "string \<Rightarrow> string option"
  fs_current_path :: "string \<Rightarrow> string option"
  fs_open_trunc :: "string \<Rightarrow> bool"
  fs_write_good :: "string \<Rightarrow> bool"
  path_parent :: "string \<Rightarrow> string"
  path_stem_of :: "string \<Rightarrow> string"

text \<open>The members' initial values of \<^verbatim>\<open>Application::Options\<close>.\<close>

definition default_options :: app_options where
  "default_options = \<lparr>ao_name = [], ao_version = [], ao_workingDirectory = [], ao_pidFile = [], ao_configFile = [], ao_handleSignals = True, ao_createPidFile = False\<rparr>"

definition makeFsError :: "string \<Rightarrow> string \<Rightarrow> string \<Rightarrow> Error" where
  "makeFsError action path message = mk_error EC_IOError ((if action \<noteq> [] then action @ '': '' else []) @ path @ '': '' @ message)"

definition createDirectories :: "app_env \<Rightarrow> string \<Rightarrow> VoidResult" where
  "createDirectories env path =
     (case fs_create_directories env path of
        Some message \<Rightarrow> makeFsError ''create_directories failed'' path message
      | None \<Rightarrow> void_ok)"

definition removeFile :: "app_env \<Rightarrow> string \<Rightarrow> VoidResult" where
  "removeFile env path =
     (case fs_remove env path of
        Some message \<Rightarrow> makeFsError ''remove failed'' path message
      | None \<Rightarrow> void_ok)"

definition mk_Application :: "string list \<Rightarrow> app_options \<Rightarrow> Application" where
  "mk_Application argv options =
     \<lparr>ap_argv = argv, ap_options = options, ap_cliOptions = [], ap_cliFlags = [], ap_positionalArgs = [], ap_stopRequested = False, ap_pidFileCreated = False, ap_log = []\<rparr>"

definition app_logs :: "app_event \<Rightarrow> Application \<Rightarrow> Application" where
  "app_logs e a = a\<lparr>ap_log := ap_log a @ [e]\<rparr>"

section \<open>The command line\<close>

definition app_parse_arg :: "string \<Rightarrow> Application \<Rightarrow> VoidResult \<times> Application" where
  "app_parse_arg arg a =
     (if take 2 arg = ''--'' then
        (case sv_find arg ''='' 0 of
           None \<Rightarrow> (void_ok, a\<lparr>ap_cliFlags := ap_cliFlags a @ [drop 2 arg]\<rparr>)
         | Some eqPos \<Rightarrow>
             let key = take (eqPos - 2) (drop 2 arg); value = drop (eqPos + 1) arg
             in if key = [] then (makeError EC_InvalidArgument ''empty cli option name'', a)
                else (void_ok, a\<lparr>ap_cliOptions := (key, value) # filter (\<lambda>(k, _). k \<noteq> key) (ap_cliOptions a)\<rparr>))
      else (void_ok, a\<lparr>ap_positionalArgs := ap_positionalArgs a @ [arg]\<rparr>))"

fun app_parse_args :: "string list \<Rightarrow> Application \<Rightarrow> VoidResult \<times> Application" where
  "app_parse_args [] a = (void_ok, a)"
| "app_parse_args (arg # args) a =
     (case app_parse_arg arg a of (rv, a') \<Rightarrow> if void_hasValue rv then app_parse_args args a' else (rv, a'))"

definition parseCommandLine :: "Application \<Rightarrow> VoidResult \<times> Application" where
  "parseCommandLine a = app_parse_args (drop 1 (ap_argv a)) a"

definition hasFlag :: "string \<Rightarrow> Application \<Rightarrow> bool" where
  "hasFlag name a \<longleftrightarrow> name \<in> set (ap_cliFlags a)"

definition hasOption :: "string \<Rightarrow> Application \<Rightarrow> bool" where
  "hasOption name a \<longleftrightarrow> map_of (ap_cliOptions a) name \<noteq> None"

definition getOption :: "string \<Rightarrow> string \<Rightarrow> Application \<Rightarrow> string" where
  "getOption name defaultValue a = (case map_of (ap_cliOptions a) name of None \<Rightarrow> defaultValue | Some v \<Rightarrow> v)"

definition on_options :: "(app_options \<Rightarrow> app_options) \<Rightarrow> Application \<Rightarrow> Application" where
  "on_options f a = a\<lparr>ap_options := f (ap_options a)\<rparr>"

definition applyBuiltinOptions :: "app_env \<Rightarrow> Application \<Rightarrow> Application" where
  "applyBuiltinOptions env a =
     (let a = (if hasOption ''config'' a then on_options (\<lambda>opt. opt\<lparr>ao_configFile := getOption ''config'' [] a\<rparr>) a else a);
          a = (if hasOption ''workdir'' a then on_options (\<lambda>opt. opt\<lparr>ao_workingDirectory := getOption ''workdir'' [] a\<rparr>) a else a);
          a = (if hasOption ''pid-file'' a then on_options (\<lambda>opt. opt\<lparr>ao_pidFile := getOption ''pid-file'' [] a, ao_createPidFile := True\<rparr>) a else a);
          a = (if hasOption ''name'' a then on_options (\<lambda>opt. opt\<lparr>ao_name := getOption ''name'' [] a\<rparr>) a else a);
          a = (if hasOption ''version'' a then on_options (\<lambda>opt. opt\<lparr>ao_version := getOption ''version'' [] a\<rparr>) a else a);
          a = (if ao_name (ap_options a) = [] \<and> ap_argv a \<noteq> [] then on_options (\<lambda>opt. opt\<lparr>ao_name := path_stem_of env (hd (ap_argv a))\<rparr>) a else a)
      in if ao_name (ap_options a) = [] then on_options (\<lambda>opt. opt\<lparr>ao_name := ''application''\<rparr>) a else a)"

section \<open>Starting and stopping\<close>

definition prepareWorkingDirectory :: "app_env \<Rightarrow> Application \<Rightarrow> VoidResult \<times> Application" where
  "prepareWorkingDirectory env a =
     (let dir = ao_workingDirectory (ap_options a)
      in if dir = [] then (void_ok, a)
         else let createRet = createDirectories env dir; a = app_logs (Ae_mkdir dir (void_hasValue createRet)) a
              in if \<not> void_hasValue createRet then (createRet, a)
                 else case fs_current_path env dir of
                        Some message \<Rightarrow> (makeError EC_IOError (''set current_path failed: '' @ dir @ '': '' @ message), a)
                      | None \<Rightarrow> (void_ok, app_logs (Ae_chdir dir) a))"

definition createPidFileIfNeeded :: "app_env \<Rightarrow> Application \<Rightarrow> VoidResult \<times> Application" where
  "createPidFileIfNeeded env a =
     (let file = ao_pidFile (ap_options a)
      in if \<not> ao_createPidFile (ap_options a) \<or> file = [] then (void_ok, a)
         else let ensureRet = createDirectories env (path_parent env file); a = app_logs (Ae_mkdir (path_parent env file) (void_hasValue ensureRet)) a
              in if \<not> void_hasValue ensureRet then (ensureRet, a)
                 else if \<not> fs_open_trunc env file then (makeError EC_IOError (''open pid file failed: '' @ file), a)
                 else let a = app_logs (Ae_pid_opened file) a
                      in if \<not> fs_write_good env file then (makeError EC_IOError (''write pid file failed: '' @ file), a)
                         else (void_ok, a\<lparr>ap_pidFileCreated := True\<rparr>))"

definition removePidFileIfNeeded :: "app_env \<Rightarrow> Application \<Rightarrow> Application" where
  "removePidFileIfNeeded env a =
     (let file = ao_pidFile (ap_options a)
      in if \<not> ap_pidFileCreated a \<or> file = [] then a
         else (app_logs (Ae_pid_removed file (void_hasValue (removeFile env file))) a)\<lparr>ap_pidFileCreated := False\<rparr>)"

text \<open>\<^verbatim>\<open>~Application\<close>.\<close>

definition app_destroy :: "app_env \<Rightarrow> Application \<Rightarrow> Application" where
  "app_destroy env a = removePidFileIfNeeded env a"

definition installSignalHandlers :: "Application \<Rightarrow> Application" where
  "installSignalHandlers a = (if ao_handleSignals (ap_options a) then app_logs Ae_handlers a else a)"

definition app_requestStop :: "Application \<Rightarrow> Application" where
  "app_requestStop a = a\<lparr>ap_stopRequested := True\<rparr>"

datatype app_wait = Aw_nothing | Aw_stop | Aw_signal

text \<open>The loop of \<^verbatim>\<open>run\<close>; \<open>False\<close> where it still waits at the end of the list.\<close>

fun app_loop :: "app_wait list \<Rightarrow> Application \<Rightarrow> bool \<times> Application" where
  "app_loop [] a = (ap_stopRequested a, a)"
| "app_loop (w # ws) a =
     (let a = (if w = Aw_stop then app_requestStop a else a)
      in if ap_stopRequested a then (True, a)
         else if w = Aw_signal then (True, app_requestStop a)
         else app_loop ws a)"

text \<open>
  \<^verbatim>\<open>run\<close>: the exit code, or none while it still waits. \<open>other\<close> tells whether another application of the process is the instance. The start-up callback answers with its result and
  whether it asked to stop, which is all it can change here.
\<close>

definition app_start :: "(Application \<Rightarrow> VoidResult \<times> bool) option \<Rightarrow> Application \<Rightarrow> VoidResult \<times> Application" where
  "app_start startup a =
     (case startup of
        None \<Rightarrow> (void_ok, a)
      | Some f \<Rightarrow> case f a of (rv, stop) \<Rightarrow>
          let a = app_logs Ae_startup a in (rv, if stop then app_requestStop a else a))"

definition app_run :: "app_env \<Rightarrow> bool \<Rightarrow> (Application \<Rightarrow> VoidResult \<times> bool) option \<Rightarrow> bool \<Rightarrow> app_wait list \<Rightarrow> Application \<Rightarrow> int option \<times> Application" where
  "app_run env other startup hasShutdown waits a =
     (if other then (Some 2, a)
      else let a = a\<lparr>ap_stopRequested := False\<rparr>
      in case parseCommandLine a of (rv, a) \<Rightarrow>
         if \<not> void_hasValue rv then (Some 2, a)
         else let a = applyBuiltinOptions env a
         in case prepareWorkingDirectory env a of (rv, a) \<Rightarrow>
         if \<not> void_hasValue rv then (Some 3, a)
         else case createPidFileIfNeeded env a of (rv, a) \<Rightarrow>
         if \<not> void_hasValue rv then (Some 4, a)
         else case app_start startup (installSignalHandlers a) of (rv, a) \<Rightarrow>
         if \<not> void_hasValue rv then (Some 6, a)
         else case app_loop waits a of (stopped, a) \<Rightarrow>
         if \<not> stopped then (None, a)
         else (Some 0, if hasShutdown then app_logs Ae_shutdown a else a))"

section \<open>What the command line means\<close>

datatype cli_item = Cli_flag string | Cli_option string string | Cli_arg string

fun cli_text :: "cli_item \<Rightarrow> string" where
  "cli_text (Cli_flag f) = ''--'' @ f"
| "cli_text (Cli_option k v) = ''--'' @ k @ ''='' @ v"
| "cli_text (Cli_arg s) = s"

fun cli_ok :: "cli_item \<Rightarrow> bool" where
  "cli_ok (Cli_flag f) \<longleftrightarrow> CHR ''='' \<notin> set f"
| "cli_ok (Cli_option k v) \<longleftrightarrow> k \<noteq> [] \<and> CHR ''='' \<notin> set k"
| "cli_ok (Cli_arg s) \<longleftrightarrow> take 2 s \<noteq> ''--''"

definition cli_flags :: "cli_item list \<Rightarrow> string list" where
  "cli_flags items = concat (map (\<lambda>i. case i of Cli_flag f \<Rightarrow> [f] | _ \<Rightarrow> []) items)"

definition cli_args :: "cli_item list \<Rightarrow> string list" where
  "cli_args items = concat (map (\<lambda>i. case i of Cli_arg s \<Rightarrow> [s] | _ \<Rightarrow> []) items)"

definition cli_values :: "string \<Rightarrow> cli_item list \<Rightarrow> string list" where
  "cli_values k items = concat (map (\<lambda>i. case i of Cli_option k' v \<Rightarrow> if k' = k then [v] else [] | _ \<Rightarrow> []) items)"

lemma cli_simps [simp]:
  "cli_flags [] = []" "cli_args [] = []" "cli_values k [] = []"
  "cli_flags (Cli_flag f # is') = f # cli_flags is'" "cli_flags (Cli_option k' v # is') = cli_flags is'" "cli_flags (Cli_arg s # is') = cli_flags is'"
  "cli_args (Cli_flag f # is') = cli_args is'" "cli_args (Cli_option k' v # is') = cli_args is'" "cli_args (Cli_arg s # is') = s # cli_args is'"
  "cli_values k (Cli_flag f # is') = cli_values k is'" "cli_values k (Cli_arg s # is') = cli_values k is'"
  "cli_values k (Cli_option k' v # is') = (if k' = k then v # cli_values k is' else cli_values k is')"
  by (auto simp: cli_flags_def cli_args_def cli_values_def)

lemma void_okay [simp]: "void_hasValue void_ok"
  by (simp add: void_hasValue_def void_ok_def error_ok_def mk_error_def)

lemma void_makeError [simp]: "void_hasValue (makeError c m) \<longleftrightarrow> c = EC_Ok"
  by (simp add: void_hasValue_def makeError_def error_ok_def mk_error_def)

lemma map_of_overwrite: "map_of ((k, v) # filter (\<lambda>(k', _). k' \<noteq> k) m) x = (if x = k then Some v else map_of m x)"
  by (induction m) auto

lemma sv_find_eq: "CHR ''='' \<notin> set k \<Longrightarrow> sv_find (CHR ''-'' # CHR ''-'' # k @ CHR ''='' # v) ''='' 0 = Some (2 + length k)"
proof -
  assume "CHR ''='' \<notin> set k"
  then have "takeWhile (\<lambda>x. x \<noteq> CHR ''='') (k @ CHR ''='' # v) = k" by (subst takeWhile_append2) auto
  then show ?thesis by (simp add: sv_find_def find_sub_single)
qed

lemma app_parse_item:
  assumes "cli_ok i"
  shows "app_parse_arg (cli_text i) a = (void_ok,
     case i of
       Cli_flag f \<Rightarrow> a\<lparr>ap_cliFlags := ap_cliFlags a @ [f]\<rparr>
     | Cli_option k v \<Rightarrow> a\<lparr>ap_cliOptions := (k, v) # filter (\<lambda>(k', _). k' \<noteq> k) (ap_cliOptions a)\<rparr>
     | Cli_arg s \<Rightarrow> a\<lparr>ap_positionalArgs := ap_positionalArgs a @ [s]\<rparr>)"
proof (cases i)
  case (Cli_option k v)
  then show ?thesis using assms by (simp add: app_parse_arg_def sv_find_eq)
qed (use assms in \<open>auto simp: app_parse_arg_def sv_find_def find_sub_single\<close>)

lemma app_parse_items:
  assumes "list_all cli_ok items"
  obtains opts where
    "app_parse_args (map cli_text items) a =
       (void_ok, a\<lparr>ap_cliOptions := opts, ap_cliFlags := ap_cliFlags a @ cli_flags items, ap_positionalArgs := ap_positionalArgs a @ cli_args items\<rparr>)"
    "\<And>k. map_of opts k = (if cli_values k items = [] then map_of (ap_cliOptions a) k else Some (last (cli_values k items)))"
  using assms
proof (induction items arbitrary: a thesis)
  case Nil
  show ?case by (rule Nil(1) [of "ap_cliOptions a"]) simp_all
next
  case (Cons i items)
  obtain a' where a': "app_parse_arg (cli_text i) a = (void_ok, a')" using app_parse_item [of i a] Cons.prems by auto
  note step = app_parse_item [of i a, unfolded a', simplified]
  have rest: "list_all cli_ok items" and ok: "cli_ok i" using Cons.prems by auto
  obtain opts where opts:
    "app_parse_args (map cli_text items) a' =
       (void_ok, a'\<lparr>ap_cliOptions := opts, ap_cliFlags := ap_cliFlags a' @ cli_flags items, ap_positionalArgs := ap_positionalArgs a' @ cli_args items\<rparr>)"
    "\<And>k. map_of opts k = (if cli_values k items = [] then map_of (ap_cliOptions a') k else Some (last (cli_values k items)))"
    using Cons.IH [OF _ rest, of a'] by blast
  show ?case
  proof (rule Cons.prems(1))
    show "app_parse_args (map cli_text (i # items)) a =
       (void_ok, a\<lparr>ap_cliOptions := opts, ap_cliFlags := ap_cliFlags a @ cli_flags (i # items), ap_positionalArgs := ap_positionalArgs a @ cli_args (i # items)\<rparr>)"
    proof -
      have "app_parse_args (map cli_text (i # items)) a = app_parse_args (map cli_text items) a'" by (simp add: a')
      also note opts(1)
      also have "a'\<lparr>ap_cliOptions := opts, ap_cliFlags := ap_cliFlags a' @ cli_flags items, ap_positionalArgs := ap_positionalArgs a' @ cli_args items\<rparr>
        = a\<lparr>ap_cliOptions := opts, ap_cliFlags := ap_cliFlags a @ cli_flags (i # items), ap_positionalArgs := ap_positionalArgs a @ cli_args (i # items)\<rparr>"
        using step [OF ok] by (cases i) simp_all
      finally show ?thesis .
    qed
    show "map_of opts k = (if cli_values k (i # items) = [] then map_of (ap_cliOptions a) k else Some (last (cli_values k (i # items))))" for k
      using step [OF ok] by (cases i) (simp_all add: opts(2) map_of_overwrite del: map_of.simps)
  qed
qed

text \<open>
  The command line of an application. Where the arguments after the program's name are written from flags \<open>--f\<close>, options \<open>--k=v\<close> with a name without \<open>=\<close> and positional arguments, parsing succeeds
  and gives the flags and the positional arguments in their order; an option has the value written last for it, or the default of the caller where it was not given.
\<close>

theorem app_parses:
  assumes "list_all cli_ok items"
  shows "\<exists>a. parseCommandLine (mk_Application (program # map cli_text items) options) = (void_ok, a)
     \<and> ap_cliFlags a = cli_flags items \<and> ap_positionalArgs a = cli_args items
     \<and> (\<forall>k d. getOption k d a = (if cli_values k items = [] then d else last (cli_values k items)))
     \<and> (\<forall>k. hasOption k a \<longleftrightarrow> cli_values k items \<noteq> []) \<and> (\<forall>f. hasFlag f a \<longleftrightarrow> Cli_flag f \<in> set items)"
proof -
  let ?a = "mk_Application (program # map cli_text items) options"
  obtain opts where o: "app_parse_args (map cli_text items) ?a =
       (void_ok, ?a\<lparr>ap_cliOptions := opts, ap_cliFlags := ap_cliFlags ?a @ cli_flags items, ap_positionalArgs := ap_positionalArgs ?a @ cli_args items\<rparr>)"
    "\<And>k. map_of opts k = (if cli_values k items = [] then map_of (ap_cliOptions ?a) k else Some (last (cli_values k items)))"
    using app_parse_items [OF assms, of ?a] by blast
  have f: "f \<in> set (cli_flags items) \<longleftrightarrow> Cli_flag f \<in> set items" for f
    by (induction items) (auto simp: cli_flags_def split: cli_item.splits)
  show ?thesis
    using o by (simp add: parseCommandLine_def mk_Application_def getOption_def hasOption_def hasFlag_def f)
qed

text \<open>A concrete command line: two flags, an option given twice and one argument.\<close>

definition cli_example :: "cli_item list" where
  "cli_example = [Cli_flag ''fast'', Cli_option ''name'' ''a'', Cli_arg ''input'', Cli_option ''name'' ''b=c'', Cli_flag ''dry'']"

theorem app_parses_witness:
  "list_all cli_ok cli_example \<and> map cli_text cli_example = [''--fast'', ''--name=a'', ''input'', ''--name=b=c'', ''--dry'']
   \<and> (\<exists>a. parseCommandLine (mk_Application (''prog'' # map cli_text cli_example) default_options) = (void_ok, a)
     \<and> ap_cliFlags a = [''fast'', ''dry''] \<and> ap_positionalArgs a = [''input''] \<and> getOption ''name'' [] a = ''b=c'')"
proof -
  have ok: "list_all cli_ok cli_example" by (simp add: cli_example_def)
  obtain a where "parseCommandLine (mk_Application (''prog'' # map cli_text cli_example) default_options) = (void_ok, a)"
    "ap_cliFlags a = cli_flags cli_example" "ap_positionalArgs a = cli_args cli_example"
    "getOption ''name'' [] a = (if cli_values ''name'' cli_example = [] then [] else last (cli_values ''name'' cli_example))"
    using app_parses [OF ok] by blast
  with ok show ?thesis by (simp add: cli_example_def)
qed

section \<open>The life of an application\<close>

lemma app_parse_arg_keeps:
  "app_parse_arg arg a = (rv, a') \<Longrightarrow> ap_log a' = ap_log a \<and> ap_pidFileCreated a' = ap_pidFileCreated a"
  by (auto simp: app_parse_arg_def Let_def split: if_splits option.splits)

lemma app_parse_args_keeps:
  "app_parse_args args a = (rv, a') \<Longrightarrow> ap_log a' = ap_log a \<and> ap_pidFileCreated a' = ap_pidFileCreated a"
proof (induction args arbitrary: a)
  case (Cons arg args)
  obtain r1 a1 where r: "app_parse_arg arg a = (r1, a1)" by (metis surj_pair)
  show ?case using app_parse_arg_keeps [OF r] Cons.IH [of a1] Cons.prems by (auto simp: r split: if_splits)
qed simp

lemma let_keep: "P t \<Longrightarrow> (\<And>x. P x \<Longrightarrow> Q (f x)) \<Longrightarrow> Q (Let t f)"
  by (simp add: Let_def)

lemma applyBuiltinOptions_keeps [simp]:
  "ap_log (applyBuiltinOptions env a) = ap_log a" "ap_pidFileCreated (applyBuiltinOptions env a) = ap_pidFileCreated a"
proof -
  let ?P = "\<lambda>b. ap_log b = ap_log a \<and> ap_pidFileCreated b = ap_pidFileCreated a"
  have "?P (applyBuiltinOptions env a)"
    unfolding applyBuiltinOptions_def by (rule let_keep [where P = ?P and Q = ?P], simp add: on_options_def)+ (simp add: on_options_def)
  then show "ap_log (applyBuiltinOptions env a) = ap_log a" "ap_pidFileCreated (applyBuiltinOptions env a) = ap_pidFileCreated a" by blast+
qed

lemma app_requestStop_keeps [simp]:
  "ap_log (app_requestStop a) = ap_log a" "ap_pidFileCreated (app_requestStop a) = ap_pidFileCreated a"
  "ap_options (app_requestStop a) = ap_options a"
  by (simp_all add: app_requestStop_def)

lemma app_logs_simps [simp]:
  "ap_log (app_logs e a) = ap_log a @ [e]" "ap_pidFileCreated (app_logs e a) = ap_pidFileCreated a" "ap_options (app_logs e a) = ap_options a"
  by (simp_all add: app_logs_def)

lemma app_loop_keeps:
  "app_loop ws a = (st, a') \<Longrightarrow> ap_log a' = ap_log a \<and> ap_pidFileCreated a' = ap_pidFileCreated a \<and> ap_options a' = ap_options a"
  by (induction ws arbitrary: a) (auto simp: Let_def split: if_splits)

lemma app_loop_stops: "Aw_stop \<in> set ws \<or> Aw_signal \<in> set ws \<or> ap_stopRequested a \<Longrightarrow> fst (app_loop ws a)"
  by (induction ws arbitrary: a) (auto simp: Let_def app_requestStop_def)

text \<open>The effects that the options ask for.\<close>

definition dir_events :: "app_options \<Rightarrow> app_event list" where
  "dir_events opt = (let dir = ao_workingDirectory opt in if dir = [] then [] else [Ae_mkdir dir True, Ae_chdir dir])"

definition pid_wanted :: "app_options \<Rightarrow> bool" where
  "pid_wanted opt \<longleftrightarrow> ao_createPidFile opt \<and> ao_pidFile opt \<noteq> []"

definition pid_events :: "app_env \<Rightarrow> app_options \<Rightarrow> app_event list" where
  "pid_events env opt = (if pid_wanted opt then [Ae_mkdir (path_parent env (ao_pidFile opt)) True, Ae_pid_opened (ao_pidFile opt)] else [])"

definition removal_events :: "app_env \<Rightarrow> app_options \<Rightarrow> app_event list" where
  "removal_events env opt = (if pid_wanted opt then [Ae_pid_removed (ao_pidFile opt) (fs_remove env (ao_pidFile opt) = None)] else [])"

definition signal_events :: "app_options \<Rightarrow> app_event list" where
  "signal_events opt = (if ao_handleSignals opt then [Ae_handlers] else [])"

lemma fs_result [simp]:
  "void_hasValue (makeFsError action path message) \<longleftrightarrow> False"
  "void_hasValue (createDirectories env path) \<longleftrightarrow> fs_create_directories env path = None"
  "void_hasValue (removeFile env path) \<longleftrightarrow> fs_remove env path = None"
  by (simp_all add: createDirectories_def removeFile_def void_hasValue_def error_ok_def makeFsError_def mk_error_def void_ok_def split: option.split)

lemma prepareWorkingDirectory_log:
  "prepareWorkingDirectory env a = (rv, a') \<Longrightarrow>
     ap_options a' = ap_options a \<and> ap_pidFileCreated a' = ap_pidFileCreated a
     \<and> (if void_hasValue rv then ap_log a' = ap_log a @ dir_events (ap_options a)
        else \<exists>made. ap_log a' = ap_log a @ [Ae_mkdir (ao_workingDirectory (ap_options a)) made])"
  by (auto simp: prepareWorkingDirectory_def Let_def dir_events_def split: if_splits option.splits)

lemma createPidFile_log:
  "createPidFileIfNeeded env a = (rv, a') \<Longrightarrow> \<not> ap_pidFileCreated a \<Longrightarrow>
     ap_options a' = ap_options a \<and> (ap_pidFileCreated a' \<longleftrightarrow> void_hasValue rv \<and> pid_wanted (ap_options a))
     \<and> (if void_hasValue rv then ap_log a' = ap_log a @ pid_events env (ap_options a)
        else (\<exists>made. ap_log a' = ap_log a @ [Ae_mkdir (path_parent env (ao_pidFile (ap_options a))) made])
           \<or> ap_log a' = ap_log a @ pid_events env (ap_options a) \<and> \<not> fs_write_good env (ao_pidFile (ap_options a)))"
  by (auto simp: createPidFileIfNeeded_def Let_def pid_events_def pid_wanted_def split: if_splits)

lemma app_start_log:
  "app_start startup a = (rv, a') \<Longrightarrow>
     ap_options a' = ap_options a \<and> ap_pidFileCreated a' = ap_pidFileCreated a
     \<and> ap_log a' = ap_log a @ (if startup = None then [] else [Ae_startup]) \<and> (\<not> void_hasValue rv \<longrightarrow> startup \<noteq> None)"
  by (auto simp: app_start_def Let_def split: option.splits prod.splits if_splits)

lemma installSignalHandlers_log [simp]:
  "ap_options (installSignalHandlers a) = ap_options a" "ap_pidFileCreated (installSignalHandlers a) = ap_pidFileCreated a"
  "ap_log (installSignalHandlers a) = ap_log a @ signal_events (ap_options a)"
  by (simp_all add: installSignalHandlers_def signal_events_def)

lemma app_destroy_log:
  "ap_log (app_destroy env a) = ap_log a @ (if ap_pidFileCreated a \<and> ao_pidFile (ap_options a) \<noteq> []
     then [Ae_pid_removed (ao_pidFile (ap_options a)) (fs_remove env (ao_pidFile (ap_options a)) = None)] else [])"
  by (simp add: app_destroy_def removePidFileIfNeeded_def Let_def)

text \<open>
  C32: What a run of an application and the destruction of the object do, in order, for every exit code. Code 0: the working directory is made and entered, the directory of the pid file is made and the file written,
  the signal handlers are set and the start-up callback is called, each where the options ask for it, then the shutdown callback, and then the pid file is removed if the system lets it be. Code 6: the start-up callback failed; the shutdown
  callback is not called, the pid file is removed likewise. Code 4: after the working directory was entered, the directory of the pid file could not be made or the file not be opened;
  or it was opened and could not be written, and then it stays. Code 3: the working directory could not be made or entered. Code 2: nothing was done. No other code is returned.
\<close>

theorem app_life_cycle:
  assumes run: "app_run env other startup hasShutdown waits (mk_Application argv options) = (Some code, a)"
  shows "let opt = ap_options a; done_log = ap_log (app_destroy env a);
             begun = dir_events opt @ pid_events env opt @ signal_events opt @ (if startup = None then [] else [Ae_startup])
         in code = 0 \<and> done_log = begun @ (if hasShutdown then [Ae_shutdown] else []) @ removal_events env opt
          \<or> code = 6 \<and> startup \<noteq> None \<and> done_log = begun @ removal_events env opt
          \<or> code = 4 \<and> ((\<exists>made. done_log = dir_events opt @ [Ae_mkdir (path_parent env (ao_pidFile opt)) made])
                       \<or> done_log = dir_events opt @ pid_events env opt \<and> \<not> fs_write_good env (ao_pidFile opt))
          \<or> code = 3 \<and> (\<exists>made. done_log = [Ae_mkdir (ao_workingDirectory opt) made])
          \<or> code = 2 \<and> done_log = []"
proof -
  let ?a0 = "(mk_Application argv options)\<lparr>ap_stopRequested := False\<rparr>"
  obtain r1 a1 where p: "parseCommandLine ?a0 = (r1, a1)" by (metis surj_pair)
  obtain r2 a2 where w: "prepareWorkingDirectory env (applyBuiltinOptions env a1) = (r2, a2)" by (metis surj_pair)
  obtain r3 a3 where f: "createPidFileIfNeeded env a2 = (r3, a3)" by (metis surj_pair)
  obtain r4 a4 where st: "app_start startup (installSignalHandlers a3) = (r4, a4)" by (metis surj_pair)
  obtain b a5 where l: "app_loop waits a4 = (b, a5)" by (metis surj_pair)
  have k1: "ap_log a1 = [] \<and> \<not> ap_pidFileCreated a1"
    using app_parse_args_keeps [OF p [unfolded parseCommandLine_def]] by (simp add: mk_Application_def)
  note k2 = prepareWorkingDirectory_log [OF w]
  have np: "\<not> ap_pidFileCreated a2" using k1 k2 by simp
  note k3 = createPidFile_log [OF f np]
  note k4 = app_start_log [OF st]
  note k5 = app_loop_keeps [OF l]
  consider "code = 2" "a = mk_Application argv options" | "code = 2" "a = a1" | "code = 3" "a = a2" "\<not> void_hasValue r2"
    | "code = 4" "a = a3" "void_hasValue r2" "\<not> void_hasValue r3"
    | "code = 6" "a = a4" "void_hasValue r2" "void_hasValue r3" "\<not> void_hasValue r4"
    | "code = 0" "a = (if hasShutdown then app_logs Ae_shutdown a5 else a5)" "void_hasValue r2" "void_hasValue r3"
    using run by (simp add: app_run_def p w f st l split: if_splits)
  then show ?thesis
  proof cases
    case 1
    then show ?thesis by (simp add: Let_def app_destroy_log) (simp add: mk_Application_def)
  next
    case 2
    with k1 show ?thesis by (simp add: Let_def app_destroy_log)
  next
    case 3
    with k1 k2 show ?thesis by (auto simp: Let_def app_destroy_log)
  next
    case 4
    with k1 k2 k3 show ?thesis by (auto simp: Let_def app_destroy_log)
  next
    case 5
    with k1 k2 k3 k4 show ?thesis by (simp add: Let_def app_destroy_log removal_events_def pid_wanted_def)
  next
    case 6
    with k1 k2 k3 k4 k5 show ?thesis by (simp add: Let_def app_destroy_log removal_events_def pid_wanted_def)
  qed
qed

text \<open>A process with a working directory, a pid file and a signal at the second wait.\<close>

definition app_env0 :: app_env where
  "app_env0 = \<lparr>fs_create_directories = (\<lambda>p. if p = [] then Some ''Invalid argument'' else None), fs_remove = (\<lambda>_. None), fs_current_path = (\<lambda>_. None), fs_open_trunc = (\<lambda>_. True),
     fs_write_good = (\<lambda>_. True), path_parent = (\<lambda>p. if CHR ''/'' \<in> set p then rev (drop 1 (dropWhile (\<lambda>c. c \<noteq> CHR ''/'') (rev p))) else []), path_stem_of = (\<lambda>p. p)\<rparr>"

theorem app_life_cycle_witness:
  "\<exists>a. app_run app_env0 False (Some (\<lambda>_. (void_ok, False))) True [Aw_nothing, Aw_signal] (mk_Application [''prog'', ''--pid-file=/run/p.pid''] default_options) = (Some 0, a)
     \<and> ap_log (app_destroy app_env0 a) = [Ae_mkdir ''/run'' True, Ae_pid_opened ''/run/p.pid'', Ae_handlers, Ae_startup, Ae_shutdown, Ae_pid_removed ''/run/p.pid'' True]"
proof -
  let ?r = "app_run app_env0 False (Some (\<lambda>_. (void_ok, False))) True [Aw_nothing, Aw_signal] (mk_Application [''prog'', ''--pid-file=/run/p.pid''] default_options)"
  have "fst ?r = Some 0" "ap_options (snd ?r) = \<lparr>ao_name = ''prog'', ao_version = [], ao_workingDirectory = [], ao_pidFile = ''/run/p.pid'', ao_configFile = [], ao_handleSignals = True, ao_createPidFile = True\<rparr>"
    by code_simp+
  then obtain a where a: "?r = (Some 0, a)"
    "ap_options a = \<lparr>ao_name = ''prog'', ao_version = [], ao_workingDirectory = [], ao_pidFile = ''/run/p.pid'', ao_configFile = [], ao_handleSignals = True, ao_createPidFile = True\<rparr>"
    by (metis prod.collapse)
  have "ap_log (app_destroy app_env0 a) = [Ae_mkdir ''/run'' True, Ae_pid_opened ''/run/p.pid'', Ae_handlers, Ae_startup, Ae_shutdown, Ae_pid_removed ''/run/p.pid'' True]"
    using app_life_cycle [OF a(1)] by (simp add: a(2) Let_def dir_events_def pid_events_def removal_events_def pid_wanted_def signal_events_def app_env0_def)
  with a(1) show ?thesis by blast
qed

text \<open>A run returns once a wait finds a request to stop or a signal.\<close>

theorem app_returns:
  assumes "Aw_stop \<in> set waits \<or> Aw_signal \<in> set waits"
  shows "\<exists>code. fst (app_run env other startup hasShutdown waits a) = Some code"
proof -
  have "app_loop waits b \<noteq> (False, c)" for b c using app_loop_stops assms by (metis fst_conv)
  then show ?thesis by (auto simp: app_run_def Let_def split: prod.splits if_splits)
qed

text \<open>What the built-in options set, when a pid file is given and no working directory.\<close>

lemma on_options_simps:
  "ap_options (on_options f a) = f (ap_options a)" "hasOption n (on_options f a) = hasOption n a" "getOption n d (on_options f a) = getOption n d a"
  by (simp_all add: on_options_def hasOption_def getOption_def)

lemma builtin_pid:
  assumes "hasOption ''pid-file'' a" "\<not> hasOption ''workdir'' a"
  shows "ao_workingDirectory (ap_options (applyBuiltinOptions env a)) = ao_workingDirectory (ap_options a)"
    and "ao_pidFile (ap_options (applyBuiltinOptions env a)) = getOption ''pid-file'' [] a"
    and "ao_createPidFile (ap_options (applyBuiltinOptions env a))"
proof -
  let ?S = "\<lambda>b. (\<forall>n. hasOption n b = hasOption n a) \<and> (\<forall>n d. getOption n d b = getOption n d a) \<and> ao_workingDirectory (ap_options b) = ao_workingDirectory (ap_options a)"
  let ?P = "\<lambda>b. ?S b \<and> ao_pidFile (ap_options b) = getOption ''pid-file'' [] a \<and> ao_createPidFile (ap_options b)"
  have "?P (applyBuiltinOptions env a)" unfolding applyBuiltinOptions_def
    apply (rule let_keep [where P = ?S and Q = ?P], simp add: on_options_simps)
    apply (rule let_keep [where P = ?S and Q = ?P], use assms in \<open>simp add: on_options_simps\<close>)
    apply (rule let_keep [where P = ?P and Q = ?P], use assms in \<open>simp add: on_options_simps\<close>)+
    apply (use assms in \<open>simp add: on_options_simps\<close>)
    done
  then show "ao_workingDirectory (ap_options (applyBuiltinOptions env a)) = ao_workingDirectory (ap_options a)"
    "ao_pidFile (ap_options (applyBuiltinOptions env a)) = getOption ''pid-file'' [] a" "ao_createPidFile (ap_options (applyBuiltinOptions env a))" by blast+
qed

text \<open>
  A pid file named without a directory: where \<^verbatim>\<open>create_directories\<close> reports an error for the empty path, as the GNU library does, every run given such a name ends with code 4 and
  no pid file.
\<close>

theorem app_pid_file_needs_directory:
  assumes "fs_create_directories env [] = Some message" "path_parent env file = []" "file \<noteq> []"
    and "ao_workingDirectory options = []"
  shows "fst (app_run env False startup hasShutdown waits (mk_Application [program, ''--pid-file='' @ file] options)) = Some 4"
proof -
  let ?a = "(mk_Application [program, ''--pid-file='' @ file] options)\<lparr>ap_stopRequested := False, ap_cliOptions := [(''pid-file'', file)]\<rparr>"
  let ?b = "applyBuiltinOptions env ?a"
  have "parseCommandLine ((mk_Application [program, ''--pid-file='' @ file] options)\<lparr>ap_stopRequested := False\<rparr>) = (void_ok, ?a)"
    using app_parse_item [of "Cli_option ''pid-file'' file"] by (simp add: parseCommandLine_def mk_Application_def)
  moreover have b: "ao_workingDirectory (ap_options ?b) = []" "ao_pidFile (ap_options ?b) = file" "ao_createPidFile (ap_options ?b)"
    using assms(4) by (simp_all add: builtin_pid hasOption_def getOption_def mk_Application_def)
  moreover have "prepareWorkingDirectory env ?b = (void_ok, ?b)" using b by (simp add: prepareWorkingDirectory_def)
  moreover obtain rv c where "createPidFileIfNeeded env ?b = (rv, c)" "\<not> void_hasValue rv"
    using b assms(1-3) by (simp add: createPidFileIfNeeded_def Let_def)
  ultimately show ?thesis by (simp add: app_run_def)
qed

end
