(* ===== verification/Spec2Isabelle.thy ===== *)
theory Spec2Isabelle
  imports TcpEvents LruCache Fraction TimerWheel Str SerialExecutor TimerQueue Ini EventLoop TcpClient ObjectPool Logger KcpClient FramedServer Metrics Formats Coro Application
begin

text \<open>
  A verification library for \<^verbatim>\<open>dbase\<close>, a C++20 base library: error values, strings, configuration, a cache, an object pool, queues,
  executors, timers, logging, metrics, coroutines, an application frame and a reactor-style network layer for TCP and KCP. Paths below are relative to \<^verbatim>\<open>src/code\<close>, headers under \<^verbatim>\<open>include/dbase\<close>.

  \<^bold>\<open>How C++ is modelled.\<close> A class is a record with one field for each member that matters, a member function is a
  function on that record, an enumeration or a \<^verbatim>\<open>std::variant\<close> is a datatype. \<open>Prelude\<close> has the outcome of a call: it returns,
  throws one of the exceptions of the sources, or is undefined (access outside of an object, signed overflow, a broken \<^verbatim>\<open>assert\<close>). So every
  \<^verbatim>\<open>throw\<close> and every error path is a branch of a definition, and a theorem that says a call returns excludes undefined behaviour.
  Machine integers are words or numbers with the wrap-around written out; \<^verbatim>\<open>std::size_t\<close> arithmetic is \<open>sz_add\<close>, \<open>sz_sub\<close> and \<open>sz_mul\<close>.
  Results of system calls, clocks, random choices of the scheduler and third-party code are arguments. Code that several threads run is an inductive step relation: one
  step is one section under a mutex, one access to an atomic, or one notification, so that every interleaving of the steps is a run of the model.

  \<^bold>\<open>The parts and how they use each other.\<close> \<^verbatim>\<open>Buffer\<close> holds bytes; \<^verbatim>\<open>LengthFieldCodec\<close> puts frames into it and takes them out; \<^verbatim>\<open>Channel\<close> and
  \<^verbatim>\<open>EpollPoller\<close> say which events of a descriptor are wanted; \<^verbatim>\<open>TcpConnection\<close> uses all four to send and receive; \<^verbatim>\<open>EventLoop\<close> calls the
  handlers, the functors of other threads and the timers; \<^verbatim>\<open>Connector\<close> makes connections in a loop and \<^verbatim>\<open>TcpClient\<close> owns them;
  \<^verbatim>\<open>Acceptor\<close> takes connections and \<^verbatim>\<open>TcpServer\<close> gives each to a loop of an \<^verbatim>\<open>EventLoopThreadPool\<close>, whose threads \<^verbatim>\<open>CountDownLatch\<close> waits for. \<^verbatim>\<open>KcpSession\<close> runs the KCP library over datagrams, which \<^verbatim>\<open>KcpServer\<close>
  and \<^verbatim>\<open>KcpClient\<close> read for it. \<^verbatim>\<open>Logger\<close> and \<^verbatim>\<open>AsyncLogger\<close> format events for sinks, the latter in a thread of its own. \<^verbatim>\<open>BlockingQueue\<close> is under
  \<^verbatim>\<open>ThreadPool\<close>, which runs the drains of \<^verbatim>\<open>SerialExecutor\<close>, of which \<^verbatim>\<open>ShardedExecutor\<close> has several. \<^verbatim>\<open>IniConfig\<close> reads text with
  \<^verbatim>\<open>dbase::str\<close> into the tree of \<^verbatim>\<open>Config\<close>; \<^verbatim>\<open>JsonConfig\<close>, \<^verbatim>\<open>TomlConfig\<close> and \<^verbatim>\<open>XmlConfig\<close> convert the trees of third-party parsers to it. \<^verbatim>\<open>MetricRegistry\<close>,
  \<^verbatim>\<open>CoroutineScheduler\<close>, \<^verbatim>\<open>Application\<close>, \<^verbatim>\<open>LRUCache\<close>, \<^verbatim>\<open>ObjectPool\<close>, \<^verbatim>\<open>Fraction\<close>, \<^verbatim>\<open>TimerMgr\<close> and \<^verbatim>\<open>TimerQueue\<close> stand alone.

  \<^bold>\<open>Theories.\<close>
  \<^item> \<open>Prelude\<close>: outcomes and the state monad of member functions, \<^verbatim>\<open>size_t\<close>, lists as memory, and the interfaces as locales: \<open>op_machine\<close> and
    \<open>step_machine\<close> (operations or steps that keep an invariant, so that every reachable state has it), \<open>byte_stream\<close> (append at the back, take
    from the front) and \<open>bounded_map\<close>. \<open>Std_Strings\<close>: what is used of the standard library on strings. \<open>Errors\<close>: \<^verbatim>\<open>error/error.h\<close>, \<^verbatim>\<open>error.cpp\<close>.
  \<^item> \<open>Byte_Order\<close> and \<open>NetBuffer\<close>: \<^verbatim>\<open>net/buffer.h\<close>, \<^verbatim>\<open>buffer.cpp\<close>, with all sized integers. The buffer is an instance of \<open>byte_stream\<close>; appending is
    characterised completely, including the state in which it overruns the vector; integers survive the trip in network byte order; \<^verbatim>\<open>readFd\<close> delivers.
  \<^item> \<open>Framing\<close> and \<open>LengthCodec\<close>: \<^verbatim>\<open>net/length_field_codec.cpp\<close>. \<open>Framing\<close> states what a reader of a stream needs of a decoder and proves
    once that messages are recovered however the bytes are cut, with no error status and no exception on the way; the codec is an instance. Decoding is sound on any bytes, encoding and decoding are inverse, and
    the 8-byte length that overflows is shown.
  \<^item> \<open>Channel\<close>, \<open>TcpConnection\<close>, \<open>TcpStream\<close>, \<open>TcpMessages\<close>, \<open>TcpEvents\<close>: \<^verbatim>\<open>net/channel.cpp\<close>, the interest set of \<^verbatim>\<open>net/epoll_poller.cpp\<close> and
    \<^verbatim>\<open>net/tcp_connection.cpp\<close>. For every order of calls, events and partial writes the wire and the output buffer hold what was sent, in order; frames sent are the frames
    received; the close callback comes once. A \<^verbatim>\<open>shutdown\<close> of another thread is a test and a store, between which the loop may run: these theorems exclude runs in which the store comes after a close that the test did not see, and callbacks
    that send while an error is reported or close at the high water mark; the theorems on those runs show why.
  \<^item> \<open>EventLoop\<close>: \<^verbatim>\<open>net/event_loop.cpp\<close> and the wakeup channel. No queued functor and no request to quit is slept through, functors are called in order, timers are called on time and
    never after a cancellation; the functor a timer callback queues is the exception. \<open>Connector\<close>, \<open>TcpClient\<close>: \<^verbatim>\<open>net/connector.cpp\<close>, \<^verbatim>\<open>net/tcp_client.cpp\<close>: every socket has one
    owner, delays double up to their maximum over attempts that fail at once or later and go back to the first one after a success, a client has one connection at most and keeps to what the connector needs; it cannot connect again after a disconnect.
  \<^item> \<open>LoopPool\<close>: \<^verbatim>\<open>sync/count_down_latch.*\<close>, \<^verbatim>\<open>net/event_loop_thread.*\<close>, \<^verbatim>\<open>net/event_loop_thread_pool.*\<close>: no waiter is left behind, a loop is running when \<^verbatim>\<open>startLoop\<close> returns, loops are handed out in turn.
    \<open>TcpServer\<close>, \<open>FramedServer\<close>: \<^verbatim>\<open>net/tcp_server.*\<close>, \<^verbatim>\<open>net/acceptor.*\<close>, \<^verbatim>\<open>net/framed_tcp_server.*\<close>. Each loop is a queue of functors; every accepted connection is in the table, being destroyed or destroyed, exactly once; errors of
    \<^verbatim>\<open>accept\<close> are skipped or thrown as the code says; the framed server decodes as the connection's own codec does, but does not report the error before it closes.
  \<^item> \<open>KcpSession\<close>, \<open>KcpServer\<close>, \<open>KcpClient\<close>: \<^verbatim>\<open>net/kcp_packet.*\<close>, \<^verbatim>\<open>net/kcp_session.*\<close>, \<^verbatim>\<open>net/kcp_server.*\<close>, \<^verbatim>\<open>net/kcp_client.*\<close>, over any library with the functions of \<^verbatim>\<open>ikcp.h\<close>. One timer per session, one
    close callback; messages are delivered in order; the packets of a key reach the sessions of that key in order, but for the one for which a session was made that was closed at once; server and client have one live session per key, and the datagrams and errors that throw.
  \<^item> \<open>LogEvent\<close>, \<open>Sinks\<close>, \<open>AsyncLogger\<close>, \<open>Logger\<close>: \<^verbatim>\<open>log/*\<close>. The rotating sink refines a list of files; what the asynchronous logger accepts is written once and in order, down to the bytes of the file; the
    runs in which \<^verbatim>\<open>flush\<close> and \<^verbatim>\<open>stop\<close> do not return.
  \<^item> \<open>BlockingQueue\<close>, \<open>ThreadPool\<close>, \<open>SerialExecutor\<close>: \<^verbatim>\<open>sync/blocking_queue.h\<close>, \<^verbatim>\<open>thread/thread_pool.*\<close>, \<^verbatim>\<open>thread/serial_executor.*\<close>, \<^verbatim>\<open>thread/sharded_executor.*\<close>. First in first out, no lost wakeup
    (who waits has a reason), every accepted task is run once, stopping ends, serial executors run one task at a time in order and forget none while not stopped.
  \<^item> \<open>TimerQueue\<close> (\<^verbatim>\<open>thread/timer_queue.*\<close>) and \<open>TimerWheel\<close> (\<^verbatim>\<open>time/timer_wheel.*\<close>): timers are called or handed to the pool when they are due, not early, and not after they are cancelled; a timer of the wheel is called in exactly the step it is due, whatever the other timers' callbacks do, as long as no unit of time is skipped;
    the two cases in which a wheel is early or late are theorems.
  \<^item> \<open>LruCache\<close> (\<^verbatim>\<open>cache/lru_cache.h\<close>): refinement of a list of entries by recency. \<open>ObjectPool\<close> (\<^verbatim>\<open>memory/object_pool.h\<close>): each object has one owner.
    \<open>Fraction\<close> (\<^verbatim>\<open>math/fraction.*\<close>): the operators are exact on rational numbers or throw.
  \<^item> \<open>Str\<close> (\<^verbatim>\<open>str/str.*\<close>), \<open>Config\<close> (\<^verbatim>\<open>config/config_value.*\<close>, \<^verbatim>\<open>config/config.*\<close>), \<open>Ini\<close> (\<^verbatim>\<open>config/ini_config.*\<close>): splitting, joining, replacing and parsing; what is set is got and other values stay, the cached flat view
    is never stale and agrees with \<^verbatim>\<open>get\<close> for keys without dots that are not numbers; a text of sections and bindings is read as the program of calls of \<^verbatim>\<open>set\<close> it describes, and errors carry their line.
  \<^item> \<open>Formats\<close> (\<^verbatim>\<open>config/json_config.*\<close>, \<^verbatim>\<open>config/toml_config.*\<close>, \<^verbatim>\<open>config/xml_config.*\<close>): the parsers are parameters, the conversions are definitions. JSON and TOML trees are kept, an XML element has the members
    its attributes, children and text give; the large integers and the digits 0 and 1 that are misread.
  \<^item> \<open>Metrics\<close> (\<^verbatim>\<open>metrics/*\<close>): references stay of their class, a histogram summarises its last samples, no update of a gauge is lost. \<open>Coro\<close> (\<^verbatim>\<open>coro/*\<close>): exactly which coroutines can be resumed to their end
    without use of a destroyed frame, and that programs of these are defined and \<^verbatim>\<open>RunAll\<close> ends, with its counter in the range of \<^verbatim>\<open>int32_t\<close> for bodies of fewer than \<open>2 ^ 31\<close> actions. \<open>Application\<close> (\<^verbatim>\<open>app/application.*\<close>): what a command line means, and the effects of a run for every exit code.

  \<^bold>\<open>Bounds and fuel.\<close> The loops of the codec handlers are functions with fuel; the fuel given is one more than the number of readable
  bytes, which the lemmas of \<open>TcpMessages\<close> show to be enough. The receiving loop of a KCP session is a partial function, since the library is a parameter; it ends for every library that keeps to the interface
  \<open>kcp_receives\<close> (\<open>kcp_drain_delivers\<close>). The reads of a handler and the sockets of an acceptor are lists of what the kernel delivers. All other loops are total functions with a measure. Lengths up to \<open>2 ^ 60\<close> bytes are assumed where
  the sources add lengths; identifiers of timers and connections, counters and generations are taken not to wrap; a vector holds at most \<open>2 ^ 63 - 1\<close> bytes.

  \<^bold>\<open>Not modelled.\<close> Addresses, sockets and UDP, the poller of the other platforms, threads, clocks, files and processes: wrappers of system calls and of the standard library, whose results are arguments of the
  definitions above. Random numbers. Of coroutines the values and exceptions of tasks and tasks that are kept in variables. The vendored code (\<^verbatim>\<open>ikcp.c\<close>, asio, nlohmann/json, pugixml, toml++), whose parsers and protocol are parameters. The C++ memory model is sequentially consistent here; object lifetimes beyond
  what the records say, memory exhaustion and exceptions thrown by callbacks are outside.
\<close>

section \<open>Properties across components\<close>

text \<open>C1: Messages end to end. A sender gives any list of payloads that fit the codec to \<^verbatim>\<open>sendFrame\<close>, with the
  socket accepting as much or as little of each write as it likes and writable events in between.
  If the connection is still open and its output buffer has drained, then a receiver with the same codec that reads
  the bytes of the wire in pieces of any sizes gets exactly those payloads from its frame callback, in
  order, with nothing left over.\<close>

theorem messages_end_to_end:
  assumes "codec_ok cd" "\<forall>(p, _) \<in> set jobs. fits cd p \<and> length p \<le> 2 ^ 59"
    and "mk_TcpConnection True True name now = Ret a0" "maxOut \<le> 2 ^ 60"
    and a: "a = fold (send_job strerror) jobs (configured cbs (Some cd) maxOut edge a0)"
    and "c_state a \<noteq> Disconnected" "content (c_out a) = []"
    and "mk_TcpConnection True True name' now' = Ret b0" "cbs' K_frame"
    and b: "b = configured cbs' (Some cd) maxOut' edge' b0"
    and "concat chunks = c_wire a" "length (c_wire a) \<le> 2 ^ 60"
    and "\<forall>d \<in> set chunks. d \<noteq> [] \<and> length d \<le> extrabuf_size"
  shows "\<exists>b'. handleRead quiet strerror (map (\<lambda>d _. Sys_read d) chunks) b = (Ret (), b') \<and>
    c_calls b' = map (Cb_frame \<circ> fst) jobs \<and> content (c_in b') = []"
proof -
  let ?ps = "map fst jobs"
  have a0: "c_sent (configured cbs (Some cd) maxOut edge a0) = []" "c_codec (configured cbs (Some cd) maxOut edge a0) = Some cd"
    using assms(3) by (auto simp: configured_def mk_TcpConnection_def obind_Ret_iff)
  have ok: "conn_ok a" "c_sent a = map (frame cd \<circ> fst) jobs"
    using send_jobs_ok [OF assms(1) a0(2) assms(2) new_connection_ok [OF assms(3,4)] a] assms(6) a0(1) by auto
  then have wire: "c_wire a = concat (map (frame cd) ?ps)"
    using assms(6,7) by (simp add: conn_ok_def all_taken_def out_stream_def)
  obtain b1 where b1: "mk_TcpConnection True True name' now' = Ret b1" "c_calls b1 = []" "stream_inv (c_in b1)"
    "content (c_in b1) = []" "length (m_buffer (c_in b1)) = 1032" using fresh_connection by blast
  then have [simp]: "b1 = b0" using assms(8) by simp
  have fit: "list_all (fits cd) ?ps" using assms(2) by (auto simp: list_all_iff)
  have start: "case ?ps of [] \<Rightarrow> content (c_in b) = [] | p # _ \<Rightarrow> strict_prefix (content (c_in b)) (frame cd p)"
  proof (cases jobs)
    case (Cons j js)
    then have "frame cd (fst j) \<noteq> []" using fs.enc_nonempty fit by simp
    then show ?thesis using Cons b1(4) b by (simp add: configured_def strict_prefix_def)
  qed (simp add: b configured_def b1(4) [simplified])
  have in_b: "c_codec b = Some cd" "c_hasCb b K_frame" "stream_inv (c_in b)" "length (m_buffer (c_in b)) \<le> 2 ^ 62"
    "content (c_in b) @ concat chunks = concat (map (frame cd) ?ps)" "length (content (c_in b) @ concat chunks) \<le> 2 ^ 60"
    "c_calls b = []"
    using b b1 assms(9,11,12) wire by (simp_all add: configured_def)
  show ?thesis
    using receive_frames [OF assms(1) fit in_b(1-4,6,5) start assms(13), of strerror] in_b(7) by auto
qed

theorem messages_end_to_end_witness:
  "\<exists>(a :: TcpConnection) b b'. c_wire a = [0, 2, 7, 8] \<and>
     handleRead quiet (\<lambda>_. []) (map (\<lambda>d _. Sys_read d) [[0], [2, 7], [8]]) b = (Ret (), b') \<and>
     c_calls b' = [Cb_frame [7, 8]]"
proof -
  let ?cd = "\<lparr>m_lengthFieldBytes = 2, m_lengthMode = PayloadOnly, m_maxFrameLength = 100\<rparr> :: LengthFieldCodec"
  let ?wr = "\<lambda>d :: byte list. Sys_wrote (length d)"
  have cd: "codec_ok ?cd" "fits ?cd [7, 8]" by (simp_all add: codec_ok_def size_t_mod_def fits_def field_value_def)
  have fr: "frame ?cd [7, 8] = [0, 2, 7, 8]"
    by (simp add: frame_def field_value_def field_bytes_def be_bytes_def mem_of_word_def upts)
  obtain b where b: "encodeFrame ?cd [7, 8] = Ret b" "readableView b = Ret [0, 2, 7, 8]"
    using encodeFrame_ok [OF cd] fr by auto
  obtain c0 where c0: "mk_TcpConnection True True ''a'' 7 = Ret c0" "c_state c0 = Connecting" "content (c_out c0) = []"
    "\<not> isWriting (c_channel c0)" "c_wire c0 = []" "stream_inv (c_out c0)" using fresh_connection by blast
  let ?jobs = "[([7, 8 :: byte], ?wr, [] :: (byte list \<Rightarrow> sys_write) list)]"
  let ?c = "configured (\<lambda>k. k = K_frame) (Some ?cd) 100 False c0"
  let ?a = "fold (send_job (\<lambda>_. [])) ?jobs ?c"
  have "readableBytes (c_out ?c) = 0"
    using c0(3,6) buffer_sizes(4) [of "c_out c0"] by (simp add: configured_def stream_inv_def)
  then have a: "c_state ?a \<noteq> Disconnected" "content (c_out ?a) = []" "c_wire ?a = [0, 2, 7, 8]"
    using c0 b by (simp_all add: send_job_def sendFrame_def send_buffer_def send_def sendInLoop_def configured_def cpp_simps
        transmitted_def fire_def handleWrite_def)
  have m: "concat [[0], [2, 7], [8 :: byte]] = c_wire ?a" "\<forall>(p, _) \<in> set ?jobs. fits ?cd p \<and> length p \<le> 2 ^ 59"
    "\<forall>d \<in> set [[0], [2, 7], [8 :: byte]]. d \<noteq> [] \<and> length d \<le> extrabuf_size" "length (c_wire ?a) \<le> 2 ^ 60"
    "(\<lambda>k. k = K_frame) K_frame" "(100::nat) \<le> 2 ^ 60"
    using a(3) cd(2) by (simp_all add: extrabuf_size_def)
  obtain b' where b': "handleRead quiet (\<lambda>_. []) (map (\<lambda>d _. Sys_read d) [[0], [2, 7], [8]]) ?c = (Ret (), b')"
    "c_calls b' = map (Cb_frame \<circ> fst) ?jobs"
    using messages_end_to_end [where cbs' = "\<lambda>k. k = K_frame" and maxOut' = 100 and edge' = False, OF cd(1) m(2) c0(1) m(6) refl a(1,2) c0(1) m(5) refl m(1,4,3)]
    by meson
  show ?thesis by (intro exI conjI) (rule a(3), rule b'(1), simp add: b'(2))
qed

end
